(* ===== verification/L4Prelude.thy ===== *)
theory L4Prelude
  imports Main "HOL-Library.AList" "HOL-Library.Multiset"
begin

text \<open>
  What the components share: how JavaScript values are represented, and the generic lemmas
  about them.

  \<^item> A JavaScript \<^verbatim>\<open>Map\<close> whose order matters is an association list in insertion order
    (\<open>AList.update\<close> replaces in place or appends, \<open>AList.delete\<close> drops, as \<^verbatim>\<open>Map.set\<close> and
    \<^verbatim>\<open>Map.delete\<close> do); a \<^verbatim>\<open>Set\<close> is a list in insertion order, grown by \<open>set_add\<close>.
  \<^item> A \<^verbatim>\<open>Map\<close> used as a lookup table only is a HOL map.
  \<^item> \<open>show_nat\<close> is the decimal text a template literal gives for a natural number.
\<close>

named_theorems js_simps \<open>rewriting over the JavaScript containers\<close>

subsection \<open>Maps in insertion order\<close>

type_synonym ('k, 'v) jsmap = "('k \<times> 'v) list"

abbreviation jm_get :: "('k, 'v) jsmap \<Rightarrow> 'k \<Rightarrow> 'v option" where
  "jm_get \<equiv> map_of"

abbreviation jm_set :: "'k \<Rightarrow> 'v \<Rightarrow> ('k, 'v) jsmap \<Rightarrow> ('k, 'v) jsmap" where
  "jm_set \<equiv> AList.update"

abbreviation jm_delete :: "'k \<Rightarrow> ('k, 'v) jsmap \<Rightarrow> ('k, 'v) jsmap" where
  "jm_delete \<equiv> AList.delete"

definition jm_wf :: "('k, 'v) jsmap \<Rightarrow> bool" where
  "jm_wf m \<longleftrightarrow> distinct (map fst m)"

lemma jm_wf_empty [simp]: "jm_wf []"
  by (simp add: jm_wf_def)

lemma jm_wf_set [simp]: "jm_wf m \<Longrightarrow> jm_wf (jm_set k v m)"
  unfolding jm_wf_def by (rule distinct_update)

lemma jm_wf_delete [simp]: "jm_wf m \<Longrightarrow> jm_wf (jm_delete k m)"
  unfolding jm_wf_def by (rule distinct_delete)

lemma jm_wf_filter [simp]: "jm_wf m \<Longrightarrow> jm_wf (filter P m)"
  by (simp add: jm_wf_def distinct_map_filter)

lemma jm_get_set [js_simps]: "jm_get (jm_set k v m) k' = (if k = k' then Some v else jm_get m k')"
  by (simp add: update_conv')

lemma jm_get_delete [js_simps]: "jm_get (jm_delete k m) k' = (if k = k' then None else jm_get m k')"
  by (simp add: delete_conv')

lemma jm_get_iff: "jm_wf m \<Longrightarrow> jm_get m k = Some v \<longleftrightarrow> (k, v) \<in> set m"
  by (simp add: jm_wf_def)

lemma jm_get_split:
  assumes "jm_wf m" "jm_get m k = Some v"
  shows "\<exists>xs ys. m = xs @ (k, v) # ys \<and> jm_delete k m = xs @ ys"
proof -
  obtain xs ys where m: "m = xs @ (k, v) # ys"
    using map_of_SomeD [OF assms(2)] by (meson split_list)
  then have "k \<notin> fst ` set xs" "k \<notin> fst ` set ys"
    using assms(1) by (auto simp: jm_wf_def)
  moreover have "filter (\<lambda>(k', _). k \<noteq> k') zs = zs" if "k \<notin> fst ` set zs" for zs :: "('a \<times> 'b) list"
    using that by (induction zs) auto
  ultimately have "jm_delete k m = xs @ ys"
    by (simp add: m AList.delete_eq)
  then show ?thesis using m by blast
qed

lemma jm_delete_new: "jm_get m k = None \<Longrightarrow> jm_delete k (m @ [(k, v)]) = m"
  by (induction m) (auto split: if_splits)

lemma jm_set_new: "jm_get m k = None \<Longrightarrow> jm_set k v m = m @ [(k, v)]"
  by (induction m) (auto split: if_splits)

lemma jm_set_old:
  assumes "jm_wf m" "jm_get m k = Some w"
  shows "\<exists>xs ys. m = xs @ (k, w) # ys \<and> jm_set k v m = xs @ (k, v) # ys"
proof -
  obtain xs ys where m: "m = xs @ (k, w) # ys"
    using map_of_SomeD [OF assms(2)] by (meson split_list)
  then have "k \<notin> fst ` set xs" using assms(1) by (auto simp: jm_wf_def)
  then have "jm_set k v (xs @ (k, w) # ys) = xs @ (k, v) # ys"
    by (induction xs) auto
  then show ?thesis using m by blast
qed

lemma mset_jm_set:
  assumes "jm_wf m"
  shows "mset (map f (jm_set k v m)) \<subseteq># add_mset (f (k, v)) (mset (map f m))"
proof (cases "jm_get m k")
  case None
  then show ?thesis by (simp add: jm_set_new)
next
  case (Some w)
  obtain xs ys where m: "m = xs @ (k, w) # ys" "jm_set k v m = xs @ (k, v) # ys"
    using jm_set_old [OF assms Some] by blast
  show ?thesis
    unfolding m(2) by (simp add: m(1))
qed

lemma mset_jm_delete:
  assumes "jm_wf m" "jm_get m k = Some v"
  shows "mset (map f m) = add_mset (f (k, v)) (mset (map f (jm_delete k m)))"
  using jm_get_split [OF assms] by auto

subsection \<open>Sets in insertion order\<close>

definition set_add :: "'a \<Rightarrow> 'a list \<Rightarrow> 'a list" where
  "set_add x xs = (if x \<in> set xs then xs else xs @ [x])"

definition set_union :: "'a list \<Rightarrow> 'a list \<Rightarrow> 'a list" where
  "set_union xs ys = fold set_add ys xs"

definition set_of :: "'a list \<Rightarrow> 'a list" where
  "set_of xs = fold set_add xs []"

lemma set_set_add [simp]: "set (set_add x xs) = insert x (set xs)"
  by (auto simp: set_add_def)

lemma distinct_set_add [simp]: "distinct (set_add x xs) = distinct xs"
  by (auto simp: set_add_def)

lemma set_fold_set_add [simp]: "set (fold set_add ys xs) = set xs \<union> set ys"
  by (induction ys arbitrary: xs) auto

lemma distinct_fold_set_add [simp]: "distinct (fold set_add ys xs) = distinct xs"
  by (induction ys arbitrary: xs) auto

lemma set_set_union [simp]: "set (set_union xs ys) = set xs \<union> set ys"
  by (simp add: set_union_def)

lemma distinct_set_union [simp]: "distinct (set_union xs ys) = distinct xs"
  by (simp add: set_union_def)

lemma set_set_of [simp]: "set (set_of xs) = set xs"
  by (simp add: set_of_def)

lemma distinct_set_of [simp]: "distinct (set_of xs)"
  by (simp add: set_of_def)

lemma fold_set_add_distinct:
  "distinct ys \<Longrightarrow> set xs \<inter> set ys = {} \<Longrightarrow> fold set_add ys xs = xs @ ys"
  by (induction ys arbitrary: xs) (auto simp: set_add_def)

lemma set_of_distinct: "distinct xs \<Longrightarrow> set_of xs = xs"
  by (simp add: set_of_def fold_set_add_distinct)

text \<open>\<^verbatim>\<open>Array.from(new Set(nums)).sort((a, b) => a - b)\<close>.\<close>

definition uniqSorted :: "nat list \<Rightarrow> nat list" where
  "uniqSorted nums = sort (set_of nums)"

lemma set_uniqSorted [simp]: "set (uniqSorted xs) = set xs"
  by (simp add: uniqSorted_def)

lemma distinct_uniqSorted [simp]: "distinct (uniqSorted xs)"
  by (simp add: uniqSorted_def)

lemma sorted_uniqSorted [simp]: "sorted (uniqSorted xs)"
  by (simp add: uniqSorted_def)

subsection \<open>Decimal text\<close>

definition digit_char :: "nat \<Rightarrow> char" where
  "digit_char d = char_of (48 + d)"

fun show_nat :: "nat \<Rightarrow> string" where
  "show_nat n = (if n < 10 then [digit_char n] else show_nat (n div 10) @ [digit_char (n mod 10)])"

declare show_nat.simps [simp del]

definition digits :: "char set" where
  "digits = {c. 48 \<le> (of_char c :: nat) \<and> (of_char c :: nat) < 58}"

definition read_nat :: "string \<Rightarrow> nat" where
  "read_nat s = foldl (\<lambda>a c. 10 * a + (of_char c - 48)) 0 s"

lemma of_char_digit_char [simp]: "d < 10 \<Longrightarrow> of_char (digit_char d) = (48 + d :: nat)"
  by (simp add: digit_char_def)

lemma digit_char_in_digits: "d < 10 \<Longrightarrow> digit_char d \<in> digits"
  by (simp add: digits_def)

lemma set_show_nat: "set (show_nat n) \<subseteq> digits"
proof (induction n rule: show_nat.induct)
  case (1 n)
  then show ?case
    by (subst show_nat.simps) (auto simp: digit_char_in_digits)
qed

lemma show_nat_nonempty [simp]: "show_nat n \<noteq> []"
  by (subst show_nat.simps) simp

lemma read_show_nat [simp]: "read_nat (show_nat n) = n"
proof (induction n rule: show_nat.induct)
  case (1 n)
  then show ?case
    by (subst show_nat.simps) (auto simp: read_nat_def)
qed

lemma show_nat_inject [simp]: "show_nat a = show_nat b \<longleftrightarrow> a = b"
  by (metis read_show_nat)

lemma not_digit_show_nat: "c \<notin> digits \<Longrightarrow> c \<notin> set (show_nat n)"
  using set_show_nat by blast

subsection \<open>Text with code units outside ASCII\<close>

text \<open>A \<^verbatim>\<open>string\<close> of ASCII characters is a HOL \<open>string\<close>; a text with other characters is its list of UTF-16
  code units.\<close>

type_synonym text16 = "nat list"

definition ascii :: "string \<Rightarrow> text16" where
  "ascii s = map of_char s"

subsection \<open>Joining with a separator\<close>

fun join :: "'a list \<Rightarrow> 'a list list \<Rightarrow> 'a list" where
  "join sep [] = []"
| "join sep [x] = x"
| "join sep (x # y # ys) = x @ sep @ join sep (y # ys)"

lemma sep_split:
  "c \<notin> set xs \<Longrightarrow> c \<notin> set ys \<Longrightarrow> xs @ c # us = ys @ c # vs \<longleftrightarrow> xs = ys \<and> us = vs"
proof (induction xs arbitrary: ys)
  case Nil
  then show ?case by (cases ys) auto
next
  case (Cons x xs)
  then show ?case by (cases ys) auto
qed

lemma sep_no_split:
  "c \<notin> set ys \<Longrightarrow> xs @ c # us \<noteq> ys"
  by auto

lemma join_Cons: "xs \<noteq> [] \<Longrightarrow> join sep (x # xs) = x @ sep @ join sep xs"
  by (cases xs) auto

lemma join_sep_inject:
  assumes "\<forall>x \<in> set xs. c \<notin> set x \<and> x \<noteq> []" and "\<forall>x \<in> set ys. c \<notin> set x \<and> x \<noteq> []"
    and "join [c] xs = join [c] ys"
  shows "xs = ys"
  using assms
proof (induction xs arbitrary: ys)
  case Nil
  then show ?case by (cases ys; cases "tl ys") auto
next
  case (Cons x xs)
  show ?case
  proof (cases ys)
    case Nil
    then show ?thesis using Cons.prems by (cases xs) auto
  next
    case (Cons y ys')
    show ?thesis
    proof (cases "xs = [] \<or> ys' = []")
      case True
      then show ?thesis
        using Cons Cons.prems by (cases xs; cases ys') (auto dest: sep_no_split)
    next
      case False
      then show ?thesis
        using Cons Cons.prems Cons.IH [of ys'] by (auto simp: join_Cons sep_split)
    qed
  qed
qed


subsection \<open>Lists of lists without repetition\<close>

lemma distinct_concat_nth:
  "distinct (concat xss) \<Longrightarrow> i < j \<Longrightarrow> j < length xss \<Longrightarrow> set (xss ! i) \<inter> set (xss ! j) = {}"
proof (induction xss arbitrary: i j)
  case (Cons xs xss)
  then obtain j' where j': "j = Suc j'" by (cases j) auto
  show ?case
  proof (cases i)
    case 0
    have "set (xss ! j') \<subseteq> set (concat xss)" using Cons.prems(3) j' by (auto intro!: bexI [OF _ nth_mem])
    then show ?thesis using Cons.prems(1) 0 j' by auto
  next
    case (Suc i')
    then show ?thesis using Cons j' by simp
  qed
qed simp

lemma distinct_concat_same:
  assumes "distinct (concat (map f xs))" "i < length xs" "j < length xs"
    and "x \<in> set (f (xs ! i))" "x \<in> set (f (xs ! j))"
  shows "i = j"
  using distinct_concat_nth [OF assms(1), of i j] distinct_concat_nth [OF assms(1), of j i] assms(2-)
  by (fastforce simp: nat_neq_iff)


subsection \<open>JavaScript values and text\<close>

text \<open>
  A value of unknown type. \<open>JFrac\<close> is a number that is not an integer, given by its decimal text, and
  \<open>JNaN\<close> one that is not finite. An object lists its own properties in order. A property of anything
  but an object is \<^verbatim>\<open>undefined\<close>.
\<close>

datatype jsval =
    JUndefined
  | JNull
  | JBool bool
  | JNum int
  | JFrac string
  | JNaN
  | JStr string
  | JArray "jsval list"
  | JObj "(string \<times> jsval) list"

fun truthy :: "jsval \<Rightarrow> bool" where
  "truthy JUndefined = False"
| "truthy JNull = False"
| "truthy (JBool b) = b"
| "truthy (JNum n) = (n \<noteq> 0)"
| "truthy (JFrac _) = True"
| "truthy JNaN = False"
| "truthy (JStr s) = (s \<noteq> [])"
| "truthy (JArray _) = True"
| "truthy (JObj _) = True"

fun js_prop :: "jsval \<Rightarrow> string \<Rightarrow> jsval" where
  "js_prop (JObj fields) k = (case map_of fields k of None \<Rightarrow> JUndefined | Some v \<Rightarrow> v)"
| "js_prop _ k = JUndefined"

definition starts_with :: "'a list \<Rightarrow> 'a list \<Rightarrow> bool" where
  "starts_with prefix s \<longleftrightarrow> take (length prefix) s = prefix"

definition ends_with :: "string \<Rightarrow> string \<Rightarrow> bool" where
  "ends_with suffix s \<longleftrightarrow> length suffix \<le> length s \<and> drop (length s - length suffix) s = suffix"

lemma starts_with_append_iff: "starts_with p s \<longleftrightarrow> (\<exists>r. s = p @ r)"
  by (metis append_eq_conv_conj append_take_drop_id starts_with_def)

lemma dropWhile_hd: "s \<noteq> [] \<Longrightarrow> \<not> P (hd s) \<Longrightarrow> dropWhile P s = s"
  by (cases s) auto

text \<open>\<^verbatim>\<open>toLowerCase\<close> on code units below 256.\<close>

definition lower_char :: "char \<Rightarrow> char" where
  "lower_char c = (let n = of_char c :: nat in
     if (65 \<le> n \<and> n \<le> 90) \<or> (192 \<le> n \<and> n \<le> 222 \<and> n \<noteq> 215) then char_of (n + 32) else c)"

definition toLowerCase :: "string \<Rightarrow> string" where
  "toLowerCase s = map lower_char s"

fun split_on :: "char \<Rightarrow> string \<Rightarrow> string list" where
  "split_on c [] = [[]]"
| "split_on c (x # xs) =
     (if x = c then [] # split_on c xs
      else (case split_on c xs of [] \<Rightarrow> [[x]] | y # ys \<Rightarrow> (x # y) # ys))"

lemma split_on_nonempty [simp]: "split_on c xs \<noteq> []"
  by (induction xs) (auto split: list.split)

lemma split_on_append: "split_on c (xs @ c # ys) = split_on c xs @ split_on c ys"
  by (induction xs) (auto split: list.split)

lemma split_on_none: "c \<notin> set xs \<Longrightarrow> split_on c xs = [xs]"
  by (induction xs) auto

lemma lower_char_idem [simp]: "lower_char (lower_char c) = lower_char c"
proof -
  have "(of_char c :: nat) < 256" by (metis of_char_mod_256 mod_less_divisor zero_less_numeral)
  then show ?thesis by (auto simp: lower_char_def Let_def)
qed

end
