(* ===== verification/VizExpr.thy ===== *)
theory VizExpr
  imports L4Prelude
begin

text \<open>
  The ladder's expression language, from \<^verbatim>\<open>ts-shared/viz-expr/viz-expr.ts\<close>.

  An \<^verbatim>\<open>IRId\<close> is an object \<^verbatim>\<open>{ id }\<close> that the code only uses as a key of \<^verbatim>\<open>Map\<close>s and
  \<^verbatim>\<open>Set\<close>s, which compare objects by reference: \<open>irid\<close> is that reference, a number per object.
  A decoded expression has one such object per node; \<open>restrictExpr\<close> (see \<^verbatim>\<open>PartialEval\<close>) reuses
  them. A \<^verbatim>\<open>Unique\<close> is an index into the evaluator's assignment array, so a natural number.
  The literals' \<^verbatim>\<open>name\<close> is optional here, because \<open>restrictExpr\<close> builds literals without one.
\<close>

type_synonym unique = nat
type_synonym irid = nat

record name =
  unique_of :: unique
  label :: string

datatype ubool = TrueV | FalseV | UnknownV

datatype inert_context = InertAnd | InertOr

datatype irexpr =
    And irid "irexpr list"
  | Or irid "irexpr list"
  | Not irid irexpr
  | UBoolVar irid name ubool bool string
  | TrueE irid "name option"
  | FalseE irid "name option"
  | App irid name "irexpr list" string
  | InertE irid string inert_context

fun expr_id :: "irexpr \<Rightarrow> irid" where
  "expr_id (And i _) = i"
| "expr_id (Or i _) = i"
| "expr_id (Not i _) = i"
| "expr_id (UBoolVar i _ _ _ _) = i"
| "expr_id (TrueE i _) = i"
| "expr_id (FalseE i _) = i"
| "expr_id (App i _ _ _) = i"
| "expr_id (InertE i _ _) = i"

text \<open>
  The children the traversals of the code visit, in order
  (\<^verbatim>\<open>match(e).with(...).otherwise(() => [])\<close>).
\<close>

fun children :: "irexpr \<Rightarrow> irexpr list" where
  "children (Not _ n) = [n]"
| "children (And _ as) = as"
| "children (Or _ as) = as"
| "children (App _ _ as _) = as"
| "children _ = []"

lemma children_size: "c \<in> set (children e) \<Longrightarrow> size c < size e"
  by (cases e) (auto dest: size_list_estimation' [where f = size, OF _ order_refl])

lemma children_size_list: "size_list size (children e) \<le> size e"
  by (cases e) auto

text \<open>An expression's nodes, in the order of a traversal; \<open>node_ids\<close> are theirs. A decoded expression has
  one id object per node.\<close>

fun subexprs :: "irexpr \<Rightarrow> irexpr list" where
  "subexprs (Not i n) = Not i n # subexprs n"
| "subexprs (And i as) = And i as # concat (map subexprs as)"
| "subexprs (Or i as) = Or i as # concat (map subexprs as)"
| "subexprs (App i nm as at) = App i nm as at # concat (map subexprs as)"
| "subexprs e = [e]"

definition node_ids :: "irexpr \<Rightarrow> irid list" where
  "node_ids e = map expr_id (subexprs e)"

definition unique_ids :: "irexpr \<Rightarrow> bool" where
  "unique_ids e \<longleftrightarrow> distinct (node_ids e)"

lemma subexprs_self [simp]: "e \<in> set (subexprs e)"
  by (cases e) auto

lemma subexprs_children: "subexprs e = e # concat (map subexprs (children e))"
  by (cases e) auto

lemma node_ids_children: "node_ids e = expr_id e # concat (map node_ids (children e))"
  unfolding node_ids_def by (subst subexprs_children) (simp add: map_concat comp_def)

lemma below_ids: "set (concat (map node_ids (children e))) \<subseteq> set (node_ids e)"
  by (subst node_ids_children [of e]) (auto simp: subset_iff)

lemma node_ids_simps [simp]:
  "node_ids (Not i n) = i # node_ids n"
  "node_ids (And i as) = i # concat (map node_ids as)"
  "node_ids (Or i as) = i # concat (map node_ids as)"
  "node_ids (App i nm as at) = i # concat (map node_ids as)"
  "node_ids (UBoolVar i nm v b t) = [i]"
  "node_ids (TrueE i l) = [i]"
  "node_ids (FalseE i l) = [i]"
  "node_ids (InertE i t c) = [i]"
  by (simp_all add: node_ids_def [abs_def] map_concat comp_def)

lemma expr_id_node_ids [simp]: "expr_id e \<in> set (node_ids e)"
  by (cases e) auto

lemma unique_ids_children: "unique_ids e \<Longrightarrow> c \<in> set (children e) \<Longrightarrow> unique_ids c"
  unfolding unique_ids_def by (subst (asm) node_ids_children) (auto simp: distinct_concat_iff)

lemma unique_ids_same:
  assumes "unique_ids e" "s \<in> set (subexprs e)" "t \<in> set (subexprs e)" "expr_id s = expr_id t"
  shows "s = t"
  using assms unfolding unique_ids_def node_ids_def by (auto simp: distinct_map dest: inj_onD)

subsection \<open>Reference semantics\<close>

text \<open>
  What an expression means classically: the truth value under an assignment of the variables,
  given what the calls return (\<open>app\<close>, by the call's id and its arguments). Inert elements are the
  identity of the operator they sit in. The components below are proved against it.
\<close>

fun holds :: "(irid \<Rightarrow> bool list \<Rightarrow> bool) \<Rightarrow> (unique \<Rightarrow> bool) \<Rightarrow> irexpr \<Rightarrow> bool" where
  "holds app \<rho> (And _ as) = (\<forall>a \<in> set as. holds app \<rho> a)"
| "holds app \<rho> (Or _ as) = (\<exists>a \<in> set as. holds app \<rho> a)"
| "holds app \<rho> (Not _ n) = (\<not> holds app \<rho> n)"
| "holds app \<rho> (UBoolVar _ nm _ _ _) = \<rho> (unique_of nm)"
| "holds app \<rho> (TrueE _ _) = True"
| "holds app \<rho> (FalseE _ _) = False"
| "holds app \<rho> (App i _ as _) = app i (map (holds app \<rho>) as)"
| "holds app \<rho> (InertE _ _ c) = (c = InertAnd)"

fun expr_vars :: "irexpr \<Rightarrow> unique set" where
  "expr_vars (UBoolVar _ nm _ _ _) = {unique_of nm}"
| "expr_vars (And _ as) = (\<Union>a \<in> set as. expr_vars a)"
| "expr_vars (Or _ as) = (\<Union>a \<in> set as. expr_vars a)"
| "expr_vars (Not _ n) = expr_vars n"
| "expr_vars (App _ _ as _) = (\<Union>a \<in> set as. expr_vars a)"
| "expr_vars _ = {}"

fun has_app :: "irexpr \<Rightarrow> bool" where
  "has_app (App _ _ _ _) = True"
| "has_app (And _ as) = (\<exists>a \<in> set as. has_app a)"
| "has_app (Or _ as) = (\<exists>a \<in> set as. has_app a)"
| "has_app (Not _ n) = has_app n"
| "has_app _ = False"

lemma holds_cong:
  "(\<And>u. u \<in> expr_vars e \<Longrightarrow> \<rho> u = \<sigma> u) \<Longrightarrow> holds app \<rho> e = holds app \<sigma> e"
proof (induction e)
  case (App i nm as at)
  then have "map (holds app \<rho>) as = map (holds app \<sigma>) as" by auto
  then show ?case by (simp only: holds.simps)
qed auto

lemma holds_no_app: "\<not> has_app e \<Longrightarrow> holds app \<rho> e = holds app' \<rho> e"
  by (induction e) auto

end
