(* ===== verification/LadderEval.thy ===== *)
theory LadderEval
  imports VizExpr
begin

text \<open>
  The ladder's evaluator: \<^verbatim>\<open>ts-shared/l4-ladder-visualizer/src/lib/eval/\<close> \<^verbatim>\<open>type.ts\<close>,
  \<^verbatim>\<open>assignment.ts\<close> and \<^verbatim>\<open>eval.ts\<close>.

  A value is \<open>ubool option\<close>: \<open>None\<close> is \<^verbatim>\<open>undefined\<close>, which \<^verbatim>\<open>Assignment.get\<close> answers for a
  variable with no binding, and on which every predicate of \<^verbatim>\<open>type.ts\<close> throws. \<open>None\<close> as the
  result of \<open>eval_go\<close> is a promise that rejects. The language server's \<^verbatim>\<open>evalApp\<close> is the parameter
  \<open>conn\<close>. All leaves write one shared \<^verbatim>\<open>Map\<close>, synchronously, before any promise is awaited:
  \<open>leaf_writes\<close> is that map when the first \<^verbatim>\<open>await\<close> resumes, and what every leaf returns.
\<close>

subsection \<open>Values\<close>

type_synonym js_val = "ubool option"

fun cycle :: "ubool \<Rightarrow> ubool" where
  "cycle TrueV = FalseV"
| "cycle FalseV = UnknownV"
| "cycle UnknownV = TrueV"

text \<open>\<^verbatim>\<open>val.$type === ...\<close> throws a \<^verbatim>\<open>TypeError\<close> on \<^verbatim>\<open>undefined\<close>.\<close>

definition isTrueVal :: "js_val \<Rightarrow> bool option" where
  "isTrueVal v = map_option (\<lambda>b. b = TrueV) v"

definition isFalseVal :: "js_val \<Rightarrow> bool option" where
  "isFalseVal v = map_option (\<lambda>b. b = FalseV) v"

definition isUnknownVal :: "js_val \<Rightarrow> bool option" where
  "isUnknownVal v = map_option (\<lambda>b. b = UnknownV) v"

subsection \<open>Assignments\<close>

text \<open>A sparse array: \<open>None\<close> is a hole.\<close>

record assignment =
  subst :: "ubool option list"

definition assign_get :: "assignment \<Rightarrow> unique \<Rightarrow> js_val" where
  "assign_get a u = (if u < length (subst a) then subst a ! u else None)"

definition array_set :: "nat \<Rightarrow> 'a \<Rightarrow> 'a option list \<Rightarrow> 'a option list" where
  "array_set i v xs = (xs @ replicate (Suc i - length xs) None)[i := Some v]"

definition assign_set :: "unique \<Rightarrow> ubool \<Rightarrow> assignment \<Rightarrow> assignment" where
  "assign_set u v a = a\<lparr>subst := array_set u v (subst a)\<rparr>"

definition fromEntries :: "(unique \<times> ubool) list \<Rightarrow> assignment" where
  "fromEntries entries = \<lparr>subst = fold (\<lambda>(u, v). array_set u v) entries []\<rparr>"

definition getUniques :: "assignment \<Rightarrow> nat option list" where
  "getUniques a = map (\<lambda>(i, v). map_option (\<lambda>_. i) v) (enumerate 0 (subst a))"

definition getEntries :: "assignment \<Rightarrow> (unique \<times> ubool) list" where
  "getEntries a = List.map_filter (\<lambda>(i, v). map_option (Pair i) v) (enumerate 0 (subst a))"

lemma assign_get_set [simp]: "assign_get (assign_set u v a) w = (if w = u then Some v else assign_get a w)"
  by (auto simp: assign_get_def assign_set_def array_set_def nth_append nth_list_update)

lemma getEntries_get: "(u, v) \<in> set (getEntries a) \<longleftrightarrow> assign_get a u = Some v"
proof -
  have "(u, v) \<in> set (getEntries a) \<longleftrightarrow> (u, Some v) \<in> set (enumerate 0 (subst a))"
    by (auto simp: getEntries_def List.map_filter_def image_iff intro!: exI [of _ u] exI [of _ "Some v"])
  then show ?thesis
    by (auto simp: in_set_enumerate_eq assign_get_def)
qed

lemma assign_get_fromEntries:
  "assign_get (fromEntries entries) = map_of (rev entries)"
proof (induction entries rule: rev_induct)
  case (snoc e es)
  obtain u v where e: "e = (u, v)" by fastforce
  have "fromEntries (es @ [e]) = assign_set u v (fromEntries es)"
    by (simp add: fromEntries_def assign_set_def e)
  then show ?case using snoc.IH e by (simp add: fun_eq_iff)
qed (simp add: fromEntries_def assign_get_def fun_eq_iff)

subsection \<open>Errors of the language server\<close>

text \<open>
  What \<^verbatim>\<open>isRefusal\<close> looks at in whatever was thrown: the string \<^verbatim>\<open>data.kind\<close> when \<^verbatim>\<open>data\<close> is an
  object, and a string \<^verbatim>\<open>message\<close>.
\<close>

datatype thrown = NotAnObject | ErrorObject (data_kind: "string option") (message: "string option")

fun str_includes :: "string \<Rightarrow> string \<Rightarrow> bool" where
  "str_includes [] needle = (needle = [])"
| "str_includes (c # cs) needle = (take (length needle) (c # cs) = needle \<or> str_includes cs needle)"

definition isRefusal :: "thrown \<Rightarrow> bool" where
  "isRefusal err =
     (case err of
        NotAnObject \<Rightarrow> False
      | ErrorObject kind msg \<Rightarrow>
          if kind = Some ''refused'' then True
          else (case msg of None \<Rightarrow> False | Some m \<Rightarrow> str_includes m ''The model refuses to answer''))"

datatype app_reply = Reply ubool | NoReply | AppThrows thrown

type_synonym connection = "irid \<Rightarrow> ubool list \<Rightarrow> app_reply"

subsection \<open>Chains\<close>

text \<open>\<open>findIndex\<close> with a predicate that may throw: \<open>Some None\<close> is \<^verbatim>\<open>-1\<close>, \<open>None\<close> a throw.\<close>

fun findIndex :: "(js_val \<Rightarrow> bool option) \<Rightarrow> js_val list \<Rightarrow> nat option option" where
  "findIndex P [] = Some None"
| "findIndex P (x # xs) =
     (case P x of
        None \<Rightarrow> None
      | Some True \<Rightarrow> Some (Some 0)
      | Some False \<Rightarrow> map_option (map_option Suc) (findIndex P xs))"

fun every :: "(js_val \<Rightarrow> bool option) \<Rightarrow> js_val list \<Rightarrow> bool option" where
  "every P [] = Some True"
| "every P (x # xs) =
     (case P x of None \<Rightarrow> None | Some False \<Rightarrow> Some False | Some True \<Rightarrow> every P xs)"

definition some_val :: "(js_val \<Rightarrow> bool option) \<Rightarrow> js_val list \<Rightarrow> bool option" where
  "some_val P xs = map_option (\<lambda>r. r \<noteq> None) (findIndex P xs)"

definition evalAndChain :: "js_val list \<Rightarrow> irid list \<Rightarrow> (ubool \<times> irid list) option" where
  "evalAndChain bools ids =
     (case findIndex isFalseVal bools of
        None \<Rightarrow> None
      | Some (Some firstFalse) \<Rightarrow> Some (FalseV, set_of (drop (firstFalse + 1) ids))
      | Some None \<Rightarrow>
          (case every isTrueVal bools of
             None \<Rightarrow> None
           | Some b \<Rightarrow> Some (if b then TrueV else UnknownV, [])))"

definition evalOrChain :: "js_val list \<Rightarrow> irid list \<Rightarrow> (ubool \<times> irid list) option" where
  "evalOrChain bools ids =
     (case findIndex isTrueVal bools of
        None \<Rightarrow> None
      | Some (Some firstTrue) \<Rightarrow> Some (TrueV, set_of (drop (firstTrue + 1) ids))
      | Some None \<Rightarrow>
          (case every isFalseVal bools of
             None \<Rightarrow> None
           | Some b \<Rightarrow> Some (if b then FalseV else UnknownV, [])))"

subsection \<open>Evaluation\<close>

type_synonym value_map = "irid \<rightharpoonup> js_val"

record eval_result =
  result :: js_val
  intermediate :: value_map
  consultedUniques :: "unique list"
  shortCircuitedRoots :: "irid list"

definition combineIntermediates :: "value_map list \<Rightarrow> value_map" where
  "combineIntermediates ms = foldl (++) Map.empty ms"

definition unionSets :: "'a list list \<Rightarrow> 'a list" where
  "unionSets sets = foldl set_union [] sets"

definition inertValue :: "inert_context \<Rightarrow> ubool" where
  "inertValue c = (if c = InertAnd then TrueV else FalseV)"

fun leaf_writes :: "assignment \<Rightarrow> irexpr \<Rightarrow> value_map \<Rightarrow> value_map" where
  "leaf_writes a (TrueE i _) m = m(i \<mapsto> Some TrueV)"
| "leaf_writes a (FalseE i _) m = m(i \<mapsto> Some FalseV)"
| "leaf_writes a (UBoolVar i nm _ _ _) m = m(i \<mapsto> assign_get a (unique_of nm))"
| "leaf_writes a (InertE i _ c) m = m(i \<mapsto> Some (inertValue c))"
| "leaf_writes a (Not _ n) m = leaf_writes a n m"
| "leaf_writes a (And _ as) m = fold (leaf_writes a) as m"
| "leaf_writes a (Or _ as) m = fold (leaf_writes a) as m"
| "leaf_writes a (App _ _ as _) m = fold (leaf_writes a) as m"

definition leaf_result :: "value_map \<Rightarrow> js_val \<Rightarrow> unique list \<Rightarrow> eval_result" where
  "leaf_result m v us = \<lparr>result = v, intermediate = m, consultedUniques = us, shortCircuitedRoots = []\<rparr>"

text \<open>The result of a node with several arguments, from theirs.\<close>

definition node_result :: "irid \<Rightarrow> ubool \<Rightarrow> irid list \<Rightarrow> eval_result list \<Rightarrow> eval_result" where
  "node_result i v roots rs =
     \<lparr>result = Some v,
      intermediate = (combineIntermediates (map intermediate rs))(i \<mapsto> Some v),
      consultedUniques = unionSets (map consultedUniques rs),
      shortCircuitedRoots = unionSets (roots # map shortCircuitedRoots rs)\<rparr>"

text \<open>What a call is worth once its arguments are known; \<open>None\<close> is the error it throws.\<close>

definition app_value :: "connection \<Rightarrow> irid \<Rightarrow> ubool list \<Rightarrow> ubool option" where
  "app_value conn i args =
     (case conn i (filter (\<lambda>a. a \<noteq> UnknownV) args) of
        AppThrows err \<Rightarrow> if isRefusal err then Some UnknownV else None
      | NoReply \<Rightarrow> None
      | Reply v \<Rightarrow> Some v)"

text \<open>\<open>those\<close> is \<^verbatim>\<open>Promise.all\<close>: it rejects when an argument rejects.\<close>

fun eval_go :: "connection \<Rightarrow> assignment \<Rightarrow> value_map \<Rightarrow> irexpr \<Rightarrow> eval_result option" where
  "eval_go conn a m (TrueE _ _) = Some (leaf_result m (Some TrueV) [])"
| "eval_go conn a m (FalseE _ _) = Some (leaf_result m (Some FalseV) [])"
| "eval_go conn a m (UBoolVar _ nm _ _ _) =
     Some (leaf_result m (assign_get a (unique_of nm)) [unique_of nm])"
| "eval_go conn a m (InertE _ _ c) = Some (leaf_result m (Some (inertValue c)) [])"
| "eval_go conn a m (Not i n) =
     (case eval_go conn a m n of
        None \<Rightarrow> None
      | Some child \<Rightarrow>
          (case result child of
             None \<Rightarrow> None
           | Some negandV \<Rightarrow>
               (let v = (case negandV of TrueV \<Rightarrow> FalseV | FalseV \<Rightarrow> TrueV | UnknownV \<Rightarrow> UnknownV)
                in Some \<lparr>result = Some v,
                         intermediate = (intermediate child)(i \<mapsto> Some v),
                         consultedUniques = consultedUniques child,
                         shortCircuitedRoots = shortCircuitedRoots child\<rparr>)))"
| "eval_go conn a m (And i as) =
     (case those (map (eval_go conn a m) as) of
        None \<Rightarrow> None
      | Some rs \<Rightarrow>
          (case evalAndChain (map result rs) (map expr_id as) of
             None \<Rightarrow> None
           | Some (v, roots) \<Rightarrow> Some (node_result i v roots rs)))"
| "eval_go conn a m (Or i as) =
     (case those (map (eval_go conn a m) as) of
        None \<Rightarrow> None
      | Some rs \<Rightarrow>
          (case evalOrChain (map result rs) (map expr_id as) of
             None \<Rightarrow> None
           | Some (v, roots) \<Rightarrow> Some (node_result i v roots rs)))"
| "eval_go conn a m (App i _ as _) =
     (case those (map (eval_go conn a m) as) of
        None \<Rightarrow> None
      | Some rs \<Rightarrow>
          (case some_val isUnknownVal (map result rs) of
             None \<Rightarrow> None
           | Some True \<Rightarrow> Some (node_result i UnknownV [] rs)
           | Some False \<Rightarrow>
               (case app_value conn i (map (\<lambda>r. the (result r)) rs) of
                  None \<Rightarrow> None
                | Some v \<Rightarrow> Some (node_result i v [] rs))))"

definition eval :: "connection \<Rightarrow> assignment \<Rightarrow> irexpr \<Rightarrow> eval_result option" where
  "eval conn a ladder = eval_go conn a (leaf_writes a ladder Map.empty) ladder"


subsection \<open>The reference: Kleene's three-valued logic\<close>

fun kleene_not :: "ubool \<Rightarrow> ubool" where
  "kleene_not TrueV = FalseV"
| "kleene_not FalseV = TrueV"
| "kleene_not UnknownV = UnknownV"

definition kleene_and :: "ubool list \<Rightarrow> ubool" where
  "kleene_and vs = (if FalseV \<in> set vs then FalseV else if set vs \<subseteq> {TrueV} then TrueV else UnknownV)"

definition kleene_or :: "ubool list \<Rightarrow> ubool" where
  "kleene_or vs = (if TrueV \<in> set vs then TrueV else if set vs \<subseteq> {FalseV} then FalseV else UnknownV)"

text \<open>\<open>call\<close> gives the value of a call on known arguments; it is strict in unknown ones.\<close>

fun kleene :: "(irid \<Rightarrow> ubool list \<Rightarrow> ubool) \<Rightarrow> (unique \<Rightarrow> ubool) \<Rightarrow> irexpr \<Rightarrow> ubool" where
  "kleene call \<sigma> (TrueE _ _) = TrueV"
| "kleene call \<sigma> (FalseE _ _) = FalseV"
| "kleene call \<sigma> (UBoolVar _ nm _ _ _) = \<sigma> (unique_of nm)"
| "kleene call \<sigma> (InertE _ _ c) = inertValue c"
| "kleene call \<sigma> (Not _ n) = kleene_not (kleene call \<sigma> n)"
| "kleene call \<sigma> (And _ as) = kleene_and (map (kleene call \<sigma>) as)"
| "kleene call \<sigma> (Or _ as) = kleene_or (map (kleene call \<sigma>) as)"
| "kleene call \<sigma> (App i _ as _) =
     (let vs = map (kleene call \<sigma>) as in if UnknownV \<in> set vs then UnknownV else call i vs)"

text \<open>The chains' own short-circuited roots: the arguments after the first one that decides.\<close>

definition after_first :: "'a \<Rightarrow> 'a list \<Rightarrow> 'b list \<Rightarrow> 'b list" where
  "after_first x vs ids = drop (Suc (length (takeWhile (\<lambda>v. v \<noteq> x) vs))) ids"

lemma findIndex_Some:
  assumes "P = map_option (\<lambda>b. b = x)"
  shows "findIndex P (map Some vs) =
    Some (if x \<in> set vs then Some (length (takeWhile (\<lambda>v. v \<noteq> x) vs)) else None)"
  by (induction vs) (auto simp: assms)

lemma every_Some:
  assumes "P = map_option (\<lambda>b. b = x)"
  shows "every P (map Some vs) = Some (set vs \<subseteq> {x})"
  by (induction vs) (auto simp: assms split: bool.split)

lemmas val_preds = isTrueVal_def [abs_def] isFalseVal_def [abs_def] isUnknownVal_def [abs_def]

lemma evalAndChain_Some:
  assumes "length ids = length vs"
  shows "evalAndChain (map Some vs) ids = Some (kleene_and vs, set_of (after_first FalseV vs ids))"
proof (cases "FalseV \<in> set vs")
  case False
  then have "after_first FalseV vs ids = []"
    using assms by (subst after_first_def, subst takeWhile_eq_all_conv [THEN iffD2]) auto
  then show ?thesis
    using False
    by (simp add: evalAndChain_def val_preds findIndex_Some [OF refl] every_Some [OF refl]
        kleene_and_def set_of_def)
qed (simp add: evalAndChain_def val_preds findIndex_Some [OF refl] kleene_and_def after_first_def)

lemma evalOrChain_Some:
  assumes "length ids = length vs"
  shows "evalOrChain (map Some vs) ids = Some (kleene_or vs, set_of (after_first TrueV vs ids))"
proof (cases "TrueV \<in> set vs")
  case False
  then have "after_first TrueV vs ids = []"
    using assms by (subst after_first_def, subst takeWhile_eq_all_conv [THEN iffD2]) auto
  then show ?thesis
    using False
    by (simp add: evalOrChain_def val_preds findIndex_Some [OF refl] every_Some [OF refl]
        kleene_or_def set_of_def)
qed (simp add: evalOrChain_def val_preds findIndex_Some [OF refl] kleene_or_def after_first_def)

lemma some_unknown: "some_val isUnknownVal (map Some vs) = Some (UnknownV \<in> set vs)"
  by (simp add: some_val_def val_preds findIndex_Some [OF refl])

text \<open>Assumptions under which the reference applies: all the variables have a value (it may be
  unknown), and every call that is made is answered or refused.\<close>

definition assigned :: "assignment \<Rightarrow> irexpr \<Rightarrow> bool" where
  "assigned a e \<longleftrightarrow> (\<forall>u \<in> expr_vars e. assign_get a u \<noteq> None)"

definition answers :: "connection \<Rightarrow> bool" where
  "answers conn \<longleftrightarrow> (\<forall>i vs. UnknownV \<notin> set vs \<longrightarrow> app_value conn i vs \<noteq> None)"

definition val_of :: "assignment \<Rightarrow> unique \<Rightarrow> ubool" where
  "val_of a u = (case assign_get a u of None \<Rightarrow> UnknownV | Some v \<Rightarrow> v)"

definition call_of :: "connection \<Rightarrow> irid \<Rightarrow> ubool list \<Rightarrow> ubool" where
  "call_of conn i vs = the (app_value conn i vs)"

lemma those_map_Some:
  "(\<And>x. x \<in> set xs \<Longrightarrow> f x = Some (g x)) \<Longrightarrow> those (map f xs) = Some (map g xs)"
  by (induction xs) auto

text \<open>The whole result, as a total function.\<close>

fun spec_result :: "(irid \<Rightarrow> ubool list \<Rightarrow> ubool) \<Rightarrow> (unique \<Rightarrow> ubool) \<Rightarrow> value_map \<Rightarrow> irexpr \<Rightarrow> eval_result" where
  "spec_result call \<sigma> m (Not i n) =
     (spec_result call \<sigma> m n)\<lparr>result := Some (kleene call \<sigma> (Not i n)),
       intermediate := (intermediate (spec_result call \<sigma> m n))(i \<mapsto> Some (kleene call \<sigma> (Not i n)))\<rparr>"
| "spec_result call \<sigma> m (And i as) =
     node_result i (kleene call \<sigma> (And i as))
       (set_of (after_first FalseV (map (kleene call \<sigma>) as) (map expr_id as))) (map (spec_result call \<sigma> m) as)"
| "spec_result call \<sigma> m (Or i as) =
     node_result i (kleene call \<sigma> (Or i as))
       (set_of (after_first TrueV (map (kleene call \<sigma>) as) (map expr_id as))) (map (spec_result call \<sigma> m) as)"
| "spec_result call \<sigma> m (App i nm as at) =
     node_result i (kleene call \<sigma> (App i nm as at)) [] (map (spec_result call \<sigma> m) as)"
| "spec_result call \<sigma> m (UBoolVar i nm v b t) = leaf_result m (Some (\<sigma> (unique_of nm))) [unique_of nm]"
| "spec_result call \<sigma> m e = leaf_result m (Some (kleene call \<sigma> e)) []"

lemma result_spec_result [simp]: "result (spec_result call \<sigma> m e) = Some (kleene call \<sigma> e)"
  by (cases e) (simp_all add: node_result_def leaf_result_def)

lemma result_comp [simp]: "result \<circ> spec_result call \<sigma> m = Some \<circ> kleene call \<sigma>"
  by (simp add: fun_eq_iff)

lemma the_result_comp [simp]: "(\<lambda>r. the (result r)) \<circ> spec_result call \<sigma> m = kleene call \<sigma>"
  by (simp add: fun_eq_iff)

lemma eval_spec:
  "answers conn \<Longrightarrow> assigned a e \<Longrightarrow> eval_go conn a m e = Some (spec_result (call_of conn) (val_of a) m e)"
proof (induction e)
  case (Not i n)
  then have IH: "eval_go conn a m n = Some (spec_result (call_of conn) (val_of a) m n)"
    by (simp add: assigned_def)
  show ?case
    by (cases "kleene (call_of conn) (val_of a) n") (simp_all add: IH)
next
  case (And i as)
  then have "those (map (eval_go conn a m) as) = Some (map (spec_result (call_of conn) (val_of a) m) as)"
    by (intro those_map_Some) (auto simp: assigned_def)
  moreover have "map result (map (spec_result (call_of conn) (val_of a) m) as) =
      map Some (map (kleene (call_of conn) (val_of a)) as)" by simp
  ultimately show ?case
    using evalAndChain_Some [of "map expr_id as" "map (kleene (call_of conn) (val_of a)) as"] by simp
next
  case (Or i as)
  then have "those (map (eval_go conn a m) as) = Some (map (spec_result (call_of conn) (val_of a) m) as)"
    by (intro those_map_Some) (auto simp: assigned_def)
  moreover have "map result (map (spec_result (call_of conn) (val_of a) m) as) =
      map Some (map (kleene (call_of conn) (val_of a)) as)" by simp
  ultimately show ?case
    using evalOrChain_Some [of "map expr_id as" "map (kleene (call_of conn) (val_of a)) as"] by simp
next
  case (App i nm as at)
  let ?vs = "map (kleene (call_of conn) (val_of a)) as"
  have "those (map (eval_go conn a m) as) = Some (map (spec_result (call_of conn) (val_of a) m) as)"
    using App by (intro those_map_Some) (auto simp: assigned_def)
  moreover have "map result (map (spec_result (call_of conn) (val_of a) m) as) = map Some ?vs"
    "map (\<lambda>r. the (result r)) (map (spec_result (call_of conn) (val_of a) m) as) = ?vs"
    by simp_all
  moreover have "app_value conn i ?vs = Some (call_of conn i ?vs)" if "UnknownV \<notin> set ?vs"
    using App.prems(1) that by (auto simp: answers_def call_of_def)
  ultimately show ?case
    using some_unknown [of ?vs] by (auto simp: Let_def)
qed (auto simp: assigned_def leaf_result_def val_of_def)


subsection \<open>Soundness and monotonicity of the reference\<close>

definition approx :: "ubool \<Rightarrow> bool \<Rightarrow> bool" where
  "approx v b \<longleftrightarrow> v = UnknownV \<or> v = (if b then TrueV else FalseV)"

text \<open>What the language server answers is what the calls are (\<open>app\<close>).\<close>

definition call_sound :: "(irid \<Rightarrow> ubool list \<Rightarrow> ubool) \<Rightarrow> (irid \<Rightarrow> bool list \<Rightarrow> bool) \<Rightarrow> bool" where
  "call_sound call app \<longleftrightarrow>
     (\<forall>i bs. approx (call i (map (\<lambda>b. if b then TrueV else FalseV) bs)) (app i bs))"

lemma approx_simps [simp]:
  "approx TrueV b = b" "approx FalseV b = (\<not> b)" "approx UnknownV b"
  by (auto simp: approx_def)

lemma approx_known: "approx v b \<Longrightarrow> v \<noteq> UnknownV \<Longrightarrow> v = (if b then TrueV else FalseV)"
  by (simp add: approx_def)

lemma kleene_sound:
  assumes "call_sound call app" "\<And>u. approx (\<sigma> u) (\<rho> u)"
  shows "approx (kleene call \<sigma> e) (holds app \<rho> e)"
proof (induction e)
  case (Not i n)
  then show ?case by (cases "kleene call \<sigma> n") auto
next
  case (And i as)
  then show ?case by (force simp: kleene_and_def)
next
  case (Or i as)
  then show ?case by (force simp: kleene_or_def)
next
  case (App i nm as at)
  have "map (kleene call \<sigma>) as = map (\<lambda>b. if b then TrueV else FalseV) (map (holds app \<rho>) as)"
    if known: "UnknownV \<notin> kleene call \<sigma> ` set as"
  proof -
    have "kleene call \<sigma> x = (if holds app \<rho> x then TrueV else FalseV)" if "x \<in> set as" for x
      using App.IH [OF that] known that by (metis approx_known imageI)
    then show ?thesis by simp
  qed
  then show ?case
    using assms(1) unfolding call_sound_def by (auto simp: Let_def simp del: map_map)
qed (use assms(2) in \<open>auto simp: inertValue_def\<close>)

text \<open>\<open>le_info v w\<close>: \<open>w\<close> is \<open>v\<close>, or \<open>v\<close> was unknown.\<close>

definition le_info :: "ubool \<Rightarrow> ubool \<Rightarrow> bool" where
  "le_info v w \<longleftrightarrow> v = UnknownV \<or> v = w"

lemma kleene_mono:
  assumes "\<And>u. le_info (\<sigma> u) (\<sigma>' u)"
  shows "le_info (kleene call \<sigma> e) (kleene call \<sigma>' e)"
proof (induction e)
  case (Not i n)
  then show ?case by (auto simp: le_info_def)
next
  case (And i as)
  then show ?case by (fastforce simp: le_info_def kleene_and_def)
next
  case (Or i as)
  then show ?case by (fastforce simp: le_info_def kleene_or_def)
next
  case (App i nm as at)
  have "map (kleene call \<sigma>) as = map (kleene call \<sigma>') as" if known: "UnknownV \<notin> kleene call \<sigma> ` set as"
  proof -
    have "kleene call \<sigma> x = kleene call \<sigma>' x" if "x \<in> set as" for x
      using App.IH [OF that] known that by (metis imageI le_info_def)
    then show ?thesis by simp
  qed
  then show ?case
    unfolding le_info_def kleene.simps Let_def by (metis list.set_map)
qed (use assms in \<open>auto simp: le_info_def\<close>)

subsection \<open>What the intermediate map holds\<close>

lemma combine_foldl: "foldl (++) m ms = m ++ combineIntermediates ms"
proof (induction ms arbitrary: m)
  case (Cons x ms)
  show ?case
    using Cons.IH [of "m ++ x"] Cons.IH [of x] by (simp add: combineIntermediates_def)
qed (simp add: combineIntermediates_def)

lemma combine_Cons [simp]: "combineIntermediates (m # ms) = m ++ combineIntermediates ms"
  using combine_foldl [of m ms] by (simp add: combineIntermediates_def)

lemma combine_Nil [simp]: "combineIntermediates [] = Map.empty"
  by (simp add: combineIntermediates_def)

lemma dom_combine: "dom (combineIntermediates ms) = (\<Union>m \<in> set ms. dom m)"
  by (induction ms) auto

lemma ran_combine: "combineIntermediates ms j = Some v \<Longrightarrow> \<exists>m \<in> set ms. m j = Some v"
  by (induction ms) auto

text \<open>Every entry is the value of one of the root's nodes.\<close>

definition entries_ok :: "(irid \<Rightarrow> ubool list \<Rightarrow> ubool) \<Rightarrow> (unique \<Rightarrow> ubool) \<Rightarrow> irexpr \<Rightarrow> value_map \<Rightarrow> bool" where
  "entries_ok call \<sigma> e m \<longleftrightarrow> (\<forall>j v. m j = Some v \<longrightarrow>
     (\<exists>s \<in> set (subexprs e). expr_id s = j \<and> v = Some (kleene call \<sigma> s)))"

fun is_leaf :: "irexpr \<Rightarrow> bool" where
  "is_leaf (Not _ _) = False"
| "is_leaf (And _ _) = False"
| "is_leaf (Or _ _) = False"
| "is_leaf (App _ _ _ _) = False"
| "is_leaf _ = True"

lemma entries_ok_upd:
  "entries_ok call \<sigma> R m \<Longrightarrow> s \<in> set (subexprs R) \<Longrightarrow>
    entries_ok call \<sigma> R (m(expr_id s \<mapsto> Some (kleene call \<sigma> s)))"
  by (auto simp: entries_ok_def)

lemma entries_ok_combine:
  "(\<And>m. m \<in> set ms \<Longrightarrow> entries_ok call \<sigma> R m) \<Longrightarrow> entries_ok call \<sigma> R (combineIntermediates ms)"
  unfolding entries_ok_def by (meson ran_combine)

lemma fold_dom_inv:
  "(\<And>x m. x \<in> set xs \<Longrightarrow> I m \<Longrightarrow> I (f x m) \<and> dom (f x m) = dom m \<union> D x) \<Longrightarrow> I m \<Longrightarrow>
    I (fold f xs m) \<and> dom (fold f xs m) = dom m \<union> (\<Union>x \<in> set xs. D x)"
  by (induction xs arbitrary: m) auto

text \<open>Nodes that are no leaf have the leaves of their children.\<close>

lemma leaves_children:
  "\<not> is_leaf e \<Longrightarrow> {s \<in> set (subexprs e). is_leaf s} = (\<Union>c \<in> set (children e). {s \<in> set (subexprs c). is_leaf s})"
  by (subst subexprs_children) auto

lemma leaf_writes_list:
  assumes IH: "\<And>x m. x \<in> set as \<Longrightarrow> set (subexprs x) \<subseteq> set (subexprs R) \<Longrightarrow> assigned a x \<Longrightarrow>
      entries_ok call (val_of a) R m \<Longrightarrow> entries_ok call (val_of a) R (leaf_writes a x m) \<and>
      dom (leaf_writes a x m) = dom m \<union> expr_id ` {s \<in> set (subexprs x). is_leaf s}"
    and prems: "set (subexprs e) \<subseteq> set (subexprs R)" "assigned a e" "entries_ok call (val_of a) R m"
    and e: "leaf_writes a e m = fold (leaf_writes a) as m" "children e = as" "\<not> is_leaf e"
      "expr_vars e = (\<Union>x \<in> set as. expr_vars x)"
  shows "entries_ok call (val_of a) R (leaf_writes a e m) \<and>
    dom (leaf_writes a e m) = dom m \<union> expr_id ` {s \<in> set (subexprs e). is_leaf s}"
proof -
  have sub: "set (subexprs x) \<subseteq> set (subexprs R)" "assigned a x" if "x \<in> set as" for x
    using prems(1,2) that by (auto simp: subexprs_children [of e] e assigned_def)
  show ?thesis
    using fold_dom_inv [of as "entries_ok call (val_of a) R" "leaf_writes a"
        "\<lambda>c. expr_id ` {s \<in> set (subexprs c). is_leaf s}" m, OF IH prems(3)] sub
    unfolding e(1) leaves_children [OF e(3)] e(2) image_UN by blast
qed

lemma spec_entries_list:
  assumes IH: "\<And>x. x \<in> set as \<Longrightarrow> set (subexprs x) \<subseteq> set (subexprs R) \<Longrightarrow> entries_ok call \<sigma> R m \<Longrightarrow>
      expr_id ` {s \<in> set (subexprs x). is_leaf s} \<subseteq> dom m \<Longrightarrow>
      entries_ok call \<sigma> R (intermediate (spec_result call \<sigma> m x)) \<and>
      expr_id ` set (subexprs x) \<subseteq> dom (intermediate (spec_result call \<sigma> m x))"
    and prems: "set (subexprs e) \<subseteq> set (subexprs R)" "entries_ok call \<sigma> R m"
      "expr_id ` {s \<in> set (subexprs e). is_leaf s} \<subseteq> dom m"
    and e: "children e = as" "\<not> is_leaf e"
      "spec_result call \<sigma> m e =
        node_result (expr_id e) (kleene call \<sigma> e) roots (map (spec_result call \<sigma> m) as)"
  shows "entries_ok call \<sigma> R (intermediate (spec_result call \<sigma> m e)) \<and>
    expr_id ` set (subexprs e) \<subseteq> dom (intermediate (spec_result call \<sigma> m e))"
proof -
  let ?im = "\<lambda>x. intermediate (spec_result call \<sigma> m x)"
  have "set (subexprs x) \<subseteq> set (subexprs R)" "expr_id ` {s \<in> set (subexprs x). is_leaf s} \<subseteq> dom m"
    if "x \<in> set as" for x
    using prems(1,3) that unfolding leaves_children [OF e(2)] by (auto simp: subexprs_children [of e] e(1))
  note IH' = IH [OF _ this(1) prems(2) this(2)]
  have im: "intermediate (spec_result call \<sigma> m e) =
      (combineIntermediates (map ?im as))(expr_id e \<mapsto> Some (kleene call \<sigma> e))"
    unfolding e(3) by (simp add: node_result_def comp_def)
  have dom: "expr_id ` set (subexprs x) \<subseteq> dom (?im x)" if "x \<in> set as" for x
    using IH' [OF that that that] by blast
  have "entries_ok call \<sigma> R (combineIntermediates (map ?im as))"
    by (rule entries_ok_combine) (use IH' in auto)
  then have "entries_ok call \<sigma> R (intermediate (spec_result call \<sigma> m e))"
    unfolding im using prems(1) by (intro entries_ok_upd) auto
  moreover have "expr_id ` set (subexprs e) \<subseteq> dom (intermediate (spec_result call \<sigma> m e))"
    unfolding im subexprs_children [of e] e(1) using dom by (auto simp: dom_combine)
  ultimately show ?thesis by blast
qed

lemma leaf_writes_ok:
  "set (subexprs e) \<subseteq> set (subexprs R) \<Longrightarrow> assigned a e \<Longrightarrow> entries_ok call (val_of a) R m \<Longrightarrow>
    entries_ok call (val_of a) R (leaf_writes a e m) \<and>
    dom (leaf_writes a e m) = dom m \<union> expr_id ` {s \<in> set (subexprs e). is_leaf s}"
proof (induction a e m rule: leaf_writes.induct)
  case (1 a i n m)
  then show ?case using entries_ok_upd [of call _ R m "TrueE i n"]
    by (simp add: Collect_conv_if del: fun_upd_apply)
next
  case (2 a i n m)
  then show ?case using entries_ok_upd [of call _ R m "FalseE i n"]
    by (simp add: Collect_conv_if del: fun_upd_apply)
next
  case (3 a i nm v b t m)
  then show ?case using entries_ok_upd [of call "val_of a" R m "UBoolVar i nm v b t"]
    by (auto simp: val_of_def [of _ "unique_of nm"] assigned_def Collect_conv_if simp del: fun_upd_apply)
next
  case (4 a i t c m)
  then show ?case using entries_ok_upd [of call _ R m "InertE i t c"]
    by (simp add: Collect_conv_if del: fun_upd_apply)
next
  case (5 a i n m)
  then show ?case by (auto simp: assigned_def)
next
  case (6 a i as m)
  show ?case
    by (rule leaf_writes_list [OF 6]) auto
next
  case (7 a i as m)
  show ?case
    by (rule leaf_writes_list [OF 7]) auto
next
  case (8 a i nm as t m)
  show ?case
    by (rule leaf_writes_list [OF 8]) auto
qed

lemma spec_entries:
  "set (subexprs e) \<subseteq> set (subexprs R) \<Longrightarrow> entries_ok call \<sigma> R m \<Longrightarrow>
    expr_id ` {s \<in> set (subexprs e). is_leaf s} \<subseteq> dom m \<Longrightarrow>
    entries_ok call \<sigma> R (intermediate (spec_result call \<sigma> m e)) \<and>
    expr_id ` set (subexprs e) \<subseteq> dom (intermediate (spec_result call \<sigma> m e))"
proof (induction e)
  case (Not i n)
  then have "expr_id ` {s \<in> set (subexprs n). is_leaf s} \<subseteq> dom m" by auto
  then show ?case
    using Not entries_ok_upd [of call \<sigma> R _ "Not i n"] by (auto simp del: fun_upd_apply)
next
  case (And i as)
  show ?case
    by (rule spec_entries_list [OF And, where roots = "set_of (after_first FalseV (map (kleene call \<sigma>) as) (map expr_id as))"]) auto
next
  case (Or i as)
  show ?case
    by (rule spec_entries_list [OF Or, where roots = "set_of (after_first TrueV (map (kleene call \<sigma>) as) (map expr_id as))"]) auto
next
  case (App i nm as at)
  show ?case
    by (rule spec_entries_list [OF App, where roots = "[]"]) auto
qed (auto simp: leaf_result_def Collect_conv_if)

lemma eval_intermediate:
  assumes "answers conn" "assigned a e" "unique_ids e" "eval conn a e = Some r" "s \<in> set (subexprs e)"
  shows "intermediate r (expr_id s) = Some (Some (kleene (call_of conn) (val_of a) s))"
proof -
  let ?m = "leaf_writes a e Map.empty"
  have r: "r = spec_result (call_of conn) (val_of a) ?m e"
    using assms(4) eval_spec [OF assms(1,2), of ?m] by (simp add: eval_def)
  have m: "entries_ok (call_of conn) (val_of a) e ?m"
    "dom ?m = expr_id ` {s \<in> set (subexprs e). is_leaf s}"
    using leaf_writes_ok [OF order_refl assms(2), of "call_of conn" Map.empty]
    by (simp_all add: entries_ok_def)
  note E = spec_entries [OF order_refl m(1)]
  have "entries_ok (call_of conn) (val_of a) e (intermediate r)"
    "expr_id ` set (subexprs e) \<subseteq> dom (intermediate r)"
    using spec_entries [OF order_refl m(1)] m(2) unfolding r by simp_all
  moreover from this(2) obtain v where v: "intermediate r (expr_id s) = Some v"
    using assms(5) by auto
  ultimately obtain t where t: "t \<in> set (subexprs e)" "expr_id t = expr_id s"
      "v = Some (kleene (call_of conn) (val_of a) t)"
    unfolding entries_ok_def by metis
  have "t = s" by (rule unique_ids_same [OF assms(3) t(1) assms(5) t(2)])
  then show ?thesis using v t(3) by simp
qed

subsection \<open>What short-circuiting leaves out\<close>

lemma set_unionSets [simp]: "set (unionSets xss) = (\<Union>xs \<in> set xss. set xs)"
proof -
  have "set (foldl set_union acc xss) = set acc \<union> (\<Union>xs \<in> set xss. set xs)" for acc
    by (induction xss arbitrary: acc) auto
  then show ?thesis by (simp add: unionSets_def)
qed

text \<open>The variables that occur outside the subtrees with a root in \<open>S\<close>.\<close>

fun live_vars :: "irid set \<Rightarrow> irexpr \<Rightarrow> unique set" where
  "live_vars S (UBoolVar i nm _ _ _) = (if i \<in> S then {} else {unique_of nm})"
| "live_vars S (Not i n) = (if i \<in> S then {} else live_vars S n)"
| "live_vars S (And i as) = (if i \<in> S then {} else (\<Union>a \<in> set as. live_vars S a))"
| "live_vars S (Or i as) = (if i \<in> S then {} else (\<Union>a \<in> set as. live_vars S a))"
| "live_vars S (App i _ as _) = (if i \<in> S then {} else (\<Union>a \<in> set as. live_vars S a))"
| "live_vars S _ = {}"

lemma live_vars_cong:
  "S \<inter> set (node_ids e) = S' \<inter> set (node_ids e) \<Longrightarrow> live_vars S e = live_vars S' e"
proof (induction e)
  case (Not i n)
  then show ?case by simp blast
next
  case (And i as)
  have "live_vars S x = live_vars S' x" if "x \<in> set as" for x
    by (rule And.IH [OF that]) (use And.prems that in auto)
  then show ?case using And.prems by auto
next
  case (Or i as)
  have "live_vars S x = live_vars S' x" if "x \<in> set as" for x
    by (rule Or.IH [OF that]) (use Or.prems that in auto)
  then show ?case using Or.prems by auto
next
  case (App i nm as at)
  have "live_vars S x = live_vars S' x" if "x \<in> set as" for x
    by (rule App.IH [OF that]) (use App.prems that in auto)
  then show ?case using App.prems by auto
qed auto

definition sc_roots :: "(irid \<Rightarrow> ubool list \<Rightarrow> ubool) \<Rightarrow> (unique \<Rightarrow> ubool) \<Rightarrow> irexpr \<Rightarrow> irid set" where
  "sc_roots call \<sigma> e = set (shortCircuitedRoots (spec_result call \<sigma> Map.empty e))"

lemma set_shortCircuitedRoots:
  "set (shortCircuitedRoots (spec_result call \<sigma> m e)) = sc_roots call \<sigma> e"
  unfolding sc_roots_def
  by (induction e) (simp_all add: node_result_def leaf_result_def)

lemma sc_roots_simps [simp]:
  "sc_roots call \<sigma> (Not i n) = sc_roots call \<sigma> n"
  "sc_roots call \<sigma> (And i as) =
    set (after_first FalseV (map (kleene call \<sigma>) as) (map expr_id as)) \<union> (\<Union>a \<in> set as. sc_roots call \<sigma> a)"
  "sc_roots call \<sigma> (Or i as) =
    set (after_first TrueV (map (kleene call \<sigma>) as) (map expr_id as)) \<union> (\<Union>a \<in> set as. sc_roots call \<sigma> a)"
  "sc_roots call \<sigma> (App i nm as at) = (\<Union>a \<in> set as. sc_roots call \<sigma> a)"
  by (simp_all add: sc_roots_def node_result_def)

lemma sc_below_children:
  "(\<And>x. x \<in> set as \<Longrightarrow> sc_roots call \<sigma> x \<subseteq> set (concat (map node_ids (children x)))) \<Longrightarrow>
    (\<Union>a \<in> set as. sc_roots call \<sigma> a) \<subseteq> set (concat (map node_ids as))"
proof (rule UN_least)
  fix x assume "\<And>x. x \<in> set as \<Longrightarrow> sc_roots call \<sigma> x \<subseteq> set (concat (map node_ids (children x)))" "x \<in> set as"
  then have "sc_roots call \<sigma> x \<subseteq> set (node_ids x)"
    using below_ids [of x] by blast
  then show "sc_roots call \<sigma> x \<subseteq> set (concat (map node_ids as))"
    using \<open>x \<in> set as\<close> by auto
qed

lemma after_first_ids:
  "set (after_first v vs (map expr_id as)) \<subseteq> set (concat (map node_ids as))"
proof -
  have "set (after_first v vs (map expr_id as)) \<subseteq> expr_id ` set as"
    unfolding after_first_def using set_drop_subset by force
  also have "expr_id ` set as \<subseteq> set (concat (map node_ids as))"
    by (auto intro!: bexI)
  finally show ?thesis .
qed

text \<open>The roots of a node are below it.\<close>

lemma sc_roots_below: "sc_roots call \<sigma> e \<subseteq> set (concat (map node_ids (children e)))"
proof (induction e)
  case (Not i n)
  then show ?case by (cases n) auto
next
  case (And i as)
  show ?case
    using And.IH after_first_ids [of FalseV "map (kleene call \<sigma>) as" as] sc_below_children [of as call \<sigma>] by auto
next
  case (Or i as)
  show ?case
    using Or.IH after_first_ids [of TrueV "map (kleene call \<sigma>) as" as] sc_below_children [of as call \<sigma>] by auto
next
  case (App i nm as at)
  then show ?case using sc_below_children [of as call \<sigma>] by auto
qed (simp_all add: sc_roots_def leaf_result_def)

text \<open>Seen from the \<open>k\<close>th argument, the roots of the whole node are the argument's own, if it is not
  itself left out.\<close>

lemma sc_roots_argument:
  assumes u: "unique_ids e" and c: "children e = as" and k: "k < length as"
    and S: "S = set (drop n (map expr_id as)) \<union> (\<Union>a \<in> set as. sc_roots call \<sigma> a)" and kn: "k < n"
  shows "live_vars S (as ! k) = live_vars (sc_roots call \<sigma> (as ! k)) (as ! k)"
proof (rule live_vars_cong)
  have dist: "distinct (concat (map node_ids as))"
    using u c unfolding unique_ids_def by (subst (asm) node_ids_children) simp
  have "x \<notin> set (drop n (map expr_id as))" if x: "x \<in> set (node_ids (as ! k))" for x
  proof
    assume "x \<in> set (drop n (map expr_id as))"
    then obtain i where "i < length as - n" "x = drop n (map expr_id as) ! i"
      by (auto simp: in_set_conv_nth)
    then obtain j where "n \<le> j" "j < length as" "x = expr_id (as ! j)"
      by (intro that [of "n + i"]) auto
    moreover from this have "x \<in> set (node_ids (as ! j))" by simp
    ultimately show False
      using distinct_concat_same [OF dist k _ x, of j] kn by simp
  qed
  moreover have "x \<in> sc_roots call \<sigma> (as ! k)"
    if x: "x \<in> set (node_ids (as ! k))" "a \<in> set as" "x \<in> sc_roots call \<sigma> a" for x a
  proof -
    obtain j where j: "j < length as" "a = as ! j" using x(2) by (auto simp: in_set_conv_nth)
    have "x \<in> set (node_ids a)"
      using sc_roots_below [of call \<sigma> a] x(3) below_ids [of a] by blast
    then have "k = j"
      using distinct_concat_same [OF dist k j(1) x(1)] j(2) by simp
    then show ?thesis using x(3) j(2) by simp
  qed
  ultimately show "S \<inter> set (node_ids (as ! k)) = sc_roots call \<sigma> (as ! k) \<inter> set (node_ids (as ! k))"
    unfolding S using k by auto
qed


text \<open>The arguments up to the first that decides keep their values, and the others do not matter.\<close>

lemma prefix_agrees:
  assumes len: "length vs' = length vs"
    and same: "\<And>k. k < length vs \<Longrightarrow> k < Suc (length (takeWhile (\<lambda>v. v \<noteq> x) vs)) \<Longrightarrow> vs' ! k = vs ! k"
  shows "(x \<in> set vs \<and> x \<in> set vs') \<or> vs' = vs"
proof (cases "x \<in> set vs")
  case True
  let ?k = "length (takeWhile (\<lambda>v. v \<noteq> x) vs)"
  have "?k < length vs" "vs ! ?k = x"
    using True by (induction vs) auto
  then have "vs' ! ?k = x" using same [of ?k] by simp
  then show ?thesis using \<open>?k < length vs\<close> True len by (metis nth_mem)
next
  case False
  then have all: "takeWhile (\<lambda>v. v \<noteq> x) vs = vs" by (auto simp: takeWhile_eq_all_conv)
  have "vs' = vs"
    by (rule nth_equalityI [OF len]) (use len same all in auto)
  then show ?thesis by simp
qed

lemma arguments_agree:
  assumes u: "unique_ids e" and c: "children e = as" and S: "expr_id e \<notin> S"
      "S = set (drop n (map expr_id as)) \<union> (\<Union>a \<in> set as. sc_roots call \<sigma> a)"
    and agree: "\<forall>u \<in> (\<Union>a \<in> set as. live_vars S a). \<sigma> u = \<sigma>' u"
    and IH: "\<And>a. a \<in> set as \<Longrightarrow> unique_ids a \<Longrightarrow> \<forall>u \<in> live_vars (sc_roots call \<sigma> a) a. \<sigma> u = \<sigma>' u \<Longrightarrow>
      kleene call \<sigma>' a = kleene call \<sigma> a"
    and k: "k < length as" "k < n"
  shows "map (kleene call \<sigma>') as ! k = map (kleene call \<sigma>) as ! k"
proof -
  have "live_vars (sc_roots call \<sigma> (as ! k)) (as ! k) = live_vars S (as ! k)"
    using sc_roots_argument [OF u c k(1) S(2) k(2)] by simp
  moreover have mem: "as ! k \<in> set as" using k(1) by simp
  ultimately have "\<forall>u \<in> live_vars (sc_roots call \<sigma> (as ! k)) (as ! k). \<sigma> u = \<sigma>' u"
    using agree by blast
  from IH [OF mem unique_ids_children [OF u] this] show ?thesis
    using k(1) mem c by simp
qed

lemma own_id_not_root:
  assumes "unique_ids e"
  shows "expr_id e \<notin> sc_roots call \<sigma> e"
  using assms sc_roots_below [of call \<sigma> e] unfolding unique_ids_def
  by (subst (asm) node_ids_children) auto

lemma short_circuit_sound:
  "unique_ids e \<Longrightarrow> \<forall>u \<in> live_vars (sc_roots call \<sigma> e) e. \<sigma> u = \<sigma>' u \<Longrightarrow>
    kleene call \<sigma>' e = kleene call \<sigma> e"
proof (induction e)
  case (Not i n)
  show ?case
  proof -
    have "i \<notin> sc_roots call \<sigma> n" using own_id_not_root [OF Not.prems(1), of call \<sigma>] by simp
    then have "\<forall>u \<in> live_vars (sc_roots call \<sigma> n) n. \<sigma> u = \<sigma>' u" using Not.prems(2) by simp
    then show ?thesis
      using Not.IH unique_ids_children [OF Not.prems(1), of n] by simp
  qed
next
  case (And i as)
  let ?vs = "map (kleene call \<sigma>) as"
  let ?n = "Suc (length (takeWhile (\<lambda>v. v \<noteq> FalseV) ?vs))"
  have own: "i \<notin> sc_roots call \<sigma> (And i as)" using own_id_not_root [OF And.prems(1)] by simp
  have "map (kleene call \<sigma>') as ! k = ?vs ! k" if "k < length as" "k < ?n" for k
    by (rule arguments_agree [OF And.prems(1) _ _ _ _ And.IH that, where S = "sc_roots call \<sigma> (And i as)"])
      (use own And.prems(2) in \<open>simp_all add: after_first_def\<close>)
  then have "(FalseV \<in> set ?vs \<and> FalseV \<in> set (map (kleene call \<sigma>') as)) \<or> map (kleene call \<sigma>') as = ?vs"
    by (intro prefix_agrees) auto
  then show ?case
    unfolding kleene.simps kleene_and_def by (elim disjE conjE) (simp_all only: if_True)
next
  case (Or i as)
  let ?vs = "map (kleene call \<sigma>) as"
  let ?n = "Suc (length (takeWhile (\<lambda>v. v \<noteq> TrueV) ?vs))"
  have own: "i \<notin> sc_roots call \<sigma> (Or i as)" using own_id_not_root [OF Or.prems(1)] by simp
  have "map (kleene call \<sigma>') as ! k = ?vs ! k" if "k < length as" "k < ?n" for k
    by (rule arguments_agree [OF Or.prems(1) _ _ _ _ Or.IH that, where S = "sc_roots call \<sigma> (Or i as)"])
      (use own Or.prems(2) in \<open>simp_all add: after_first_def\<close>)
  then have "(TrueV \<in> set ?vs \<and> TrueV \<in> set (map (kleene call \<sigma>') as)) \<or> map (kleene call \<sigma>') as = ?vs"
    by (intro prefix_agrees) auto
  then show ?case
    unfolding kleene.simps kleene_or_def by (elim disjE conjE) (simp_all only: if_True)
next
  case (App i nm as at)
  have own: "i \<notin> sc_roots call \<sigma> (App i nm as at)" using own_id_not_root [OF App.prems(1)] by simp
  have "map (kleene call \<sigma>') as ! k = map (kleene call \<sigma>) as ! k" if "k < length as" for k
    by (rule arguments_agree [OF App.prems(1) _ _ _ _ App.IH that that,
          where S = "sc_roots call \<sigma> (App i nm as at)"])
      (use own App.prems(2) in simp_all)
  then have "map (kleene call \<sigma>') as = map (kleene call \<sigma>) as"
    by (intro nth_equalityI) auto
  then show ?case unfolding kleene.simps Let_def by (simp only:)
qed (simp_all add: sc_roots_def leaf_result_def)

subsection \<open>Properties\<close>

text \<open>C2: when every variable has a value (perhaps unknown) and every call is answered or refused, the
  evaluator returns, its result is the expression's value in Kleene's three-valued logic, and the
  intermediate map has that value for every node, for the shading of the ladder.\<close>

theorem eval_kleene:
  assumes "answers conn" "assigned a e" "unique_ids e"
  shows "\<exists>r. eval conn a e = Some r \<and> result r = Some (kleene (call_of conn) (val_of a) e) \<and>
    (\<forall>s \<in> set (subexprs e). intermediate r (expr_id s) = Some (Some (kleene (call_of conn) (val_of a) s)))"
  using eval_spec [OF assms(1,2)] eval_intermediate [OF assms] by (fastforce simp: eval_def)

text \<open>a result of TRUE or FALSE is right whatever the unknown answers turn out to be, for every
  completion of the assignment, and it stays when the user answers one more question.\<close>

theorem eval_sound:
  assumes "answers conn" "assigned a e" "call_sound (call_of conn) app"
    and "eval conn a e = Some r" "result r = Some (if b then TrueV else FalseV)"
  shows "(\<forall>\<rho>. (\<forall>u. approx (val_of a u) (\<rho> u)) \<longrightarrow> holds app \<rho> e = b) \<and>
    (val_of a u = UnknownV \<longrightarrow>
      (\<exists>r'. eval conn (assign_set u v a) e = Some r' \<and> result r' = result r))"
proof -
  have k: "kleene (call_of conn) (val_of a) e = (if b then TrueV else FalseV)"
    using eval_spec [OF assms(1,2)] assms(4,5) by (auto simp: eval_def)
  have "holds app \<rho> e = b" if "\<forall>u. approx (val_of a u) (\<rho> u)" for \<rho>
    using kleene_sound [OF assms(3), of "val_of a" \<rho> e] that k by (cases b) auto
  moreover have "\<exists>r'. eval conn (assign_set u v a) e = Some r' \<and> result r' = result r"
    if "val_of a u = UnknownV"
  proof -
    have "assigned (assign_set u v a) e"
      using assms(2) by (simp add: assigned_def)
    moreover have "le_info (val_of a w) (val_of (assign_set u v a) w)" for w
      using that by (simp add: val_of_def le_info_def)
    then have "kleene (call_of conn) (val_of (assign_set u v a)) e = (if b then TrueV else FalseV)"
      using kleene_mono [of "val_of a" "val_of (assign_set u v a)" "call_of conn" e] k
      by (cases b) (simp_all add: le_info_def)
    ultimately show ?thesis
      using eval_spec [OF assms(1)] assms(5) by (simp add: eval_def)
  qed
  ultimately show ?thesis by blast
qed

text \<open>the short-circuited subtrees do not matter: if another assignment agrees on the variables that
  occur outside them, the expression has the same result.\<close>

theorem short_circuited_irrelevant:
  assumes "answers conn" "assigned a e" "assigned a' e" "unique_ids e" "eval conn a e = Some r"
    and "\<forall>u \<in> live_vars (set (shortCircuitedRoots r)) e. assign_get a u = assign_get a' u"
  shows "\<exists>r'. eval conn a' e = Some r' \<and> result r' = result r"
proof -
  have r: "r = spec_result (call_of conn) (val_of a) (leaf_writes a e Map.empty) e"
    using eval_spec [OF assms(1,2)] assms(5) by (simp add: eval_def)
  have "\<forall>u \<in> live_vars (sc_roots (call_of conn) (val_of a) e) e. val_of a u = val_of a' u"
    using assms(6) unfolding r set_shortCircuitedRoots by (simp add: val_of_def)
  from short_circuit_sound [OF assms(4) this] show ?thesis
    using eval_spec [OF assms(1,3)] unfolding eval_def r by simp
qed

subsection \<open>Witnesses\<close>

definition ev_var :: "irid \<Rightarrow> unique \<Rightarrow> irexpr" where
  "ev_var i u = UBoolVar i \<lparr>unique_of = u, label = ''x''\<rparr> UnknownV False ''''"

definition ev_example :: irexpr where
  "ev_example = And 0 [ev_var 1 0, Or 2 [ev_var 3 1, ev_var 4 2], App 5 \<lparr>unique_of = 9, label = ''f''\<rparr> [ev_var 6 1] '''']"

definition ev_conn :: connection where
  "ev_conn i vs = (if vs = [TrueV] then Reply TrueV
     else AppThrows (ErrorObject None (Some ''Error: The model refuses to answer: no'')))"

definition ev_assign :: "assignment" where
  "ev_assign = fromEntries [(0, FalseV), (1, TrueV), (2, UnknownV)]"

lemma ev_answers: "answers ev_conn"
proof -
  have "isRefusal (ErrorObject None (Some ''Error: The model refuses to answer: no''))" by code_simp
  then show ?thesis by (simp add: answers_def app_value_def ev_conn_def)
qed

lemma ev_assigned: "assigned ev_assign ev_example"
  by (simp add: assigned_def ev_assign_def ev_example_def ev_var_def assign_get_fromEntries)

lemma ev_unique: "unique_ids ev_example"
  by (simp add: unique_ids_def ev_example_def ev_var_def)

lemma ev_eval: "map_option result (eval ev_conn ev_assign ev_example) = Some (Some FalseV)"
  "map_option shortCircuitedRoots (eval ev_conn ev_assign ev_example) = Some [2, 5, 4]"
  by code_simp+

theorem eval_kleene_witness:
  "\<exists>r. eval ev_conn ev_assign ev_example = Some r \<and> intermediate r 2 = Some (Some TrueV)"
  using eval_kleene [OF ev_answers ev_assigned ev_unique]
  by (auto simp: ev_example_def ev_var_def kleene_or_def val_of_def ev_assign_def assign_get_fromEntries)

theorem eval_sound_witness:
  "\<not> holds (\<lambda>i bs. bs = [True]) (\<lambda>u. u \<notin> {0, 2}) ev_example \<and>
   \<not> holds (\<lambda>i bs. bs = [True]) (\<lambda>u. u \<noteq> 0) ev_example"
proof -
  have completes: "approx (val_of ev_assign u) (\<rho> u)" if "\<not> \<rho> 0" "\<rho> 1" for \<rho> u
    using that by (auto simp: val_of_def ev_assign_def assign_get_fromEntries approx_def)
  obtain r where r: "eval ev_conn ev_assign ev_example = Some r" "result r = Some FalseV"
    using ev_eval(1) by auto
  have "call_sound (call_of ev_conn) (\<lambda>i bs. bs = [True])"
  proof -
    have ref: "isRefusal (ErrorObject None (Some ''Error: The model refuses to answer: no''))" by code_simp
    have "filter (\<lambda>a. a \<noteq> UnknownV) (map (\<lambda>b. if b then TrueV else FalseV) bs) =
        map (\<lambda>b. if b then TrueV else FalseV) bs" for bs
      by (auto simp: filter_id_conv)
    then show ?thesis
      by (auto simp: call_sound_def call_of_def app_value_def ev_conn_def ref split: if_splits)
  qed
  then have "\<not> holds (\<lambda>i bs. bs = [True]) \<rho> ev_example" if "\<not> \<rho> 0" "\<rho> 1" for \<rho>
    using eval_sound [OF ev_answers ev_assigned _ r(1), of _ False 2 TrueV] r(2) completes [OF that] by simp
  then show ?thesis by simp
qed

theorem short_circuited_irrelevant_witness:
  "\<exists>r'. eval ev_conn (assign_set 1 FalseV ev_assign) ev_example = Some r' \<and> result r' = Some FalseV"
proof -
  let ?a = "assign_set 1 FalseV ev_assign"
  obtain r where r: "eval ev_conn ev_assign ev_example = Some r" "result r = Some FalseV"
      "shortCircuitedRoots r = [2, 5, 4]"
    using ev_eval by auto
  have "assigned ?a ev_example"
    using ev_assigned by (simp add: assigned_def)
  moreover have "live_vars {2, 5, 4} ev_example = {0}"
    by (simp add: ev_example_def ev_var_def)
  then have "\<forall>u \<in> live_vars (set (shortCircuitedRoots r)) ev_example. assign_get ev_assign u = assign_get ?a u"
    unfolding r(3) by simp
  ultimately show ?thesis
    using short_circuited_irrelevant [OF ev_answers ev_assigned _ ev_unique r(1), of ?a] r(2) by metis
qed

end
