(* ===== verification/Robdd.thy ===== *)
theory Robdd
  imports VizExpr "HOL-Library.Extended_Nat" "HOL-Library.Monad_Syntax"
begin

unbundle bit_operations_syntax

text \<open>
  The reduced ordered binary decision diagrams of
  \<^verbatim>\<open>ts-shared/boolean-analysis/src/robdd.ts\<close>.

  \<open>robdd\<close> is the class's private state: the node array and the four tables, keyed by the text the
  template literals build. Every method takes the state and returns it. \<open>None\<close> stands for a call
  that throws (\<^verbatim>\<open>Internal error: missing BDD node\<close>) or does not return; the lemmas show that on a
  well-formed store (\<open>robdd_ok\<close>) no method does either.
\<close>

subsection \<open>State\<close>

datatype bop = op_and | op_or

datatype bnode = Terminal nat | Node nat nat nat

fun node_var :: "bnode \<Rightarrow> nat" where
  "node_var (Node v _ _) = v"
| "node_var (Terminal _) = 0"

record robdd =
  nodes :: "bnode list"
  uniqueTable :: "string \<rightharpoonup> nat"
  applyMemo :: "string \<rightharpoonup> nat"
  negMemo :: "string \<rightharpoonup> nat"
  restrictMemo :: "string \<rightharpoonup> nat"

definition FALSE :: nat where "FALSE = 0"
definition TRUE :: nat where "TRUE = 1"

definition new_robdd :: robdd where
  "new_robdd = \<lparr>nodes = [Terminal 0, Terminal 1], uniqueTable = Map.empty,
     applyMemo = Map.empty, negMemo = Map.empty, restrictMemo = Map.empty\<rparr>"

definition opEval :: "bop \<Rightarrow> nat \<Rightarrow> nat \<Rightarrow> nat" where
  "opEval op a b = (if op = op_and then a AND b else a OR b)"

subsection \<open>Keys\<close>

fun op_text :: "bop \<Rightarrow> string" where
  "op_text op_and = ''and''"
| "op_text op_or = ''or''"

definition nodeKey :: "nat \<Rightarrow> nat \<Rightarrow> nat \<Rightarrow> string" where
  "nodeKey v l h = show_nat v @ '','' @ show_nat l @ '','' @ show_nat h"

definition applyKey :: "bop \<Rightarrow> nat \<Rightarrow> nat \<Rightarrow> string" where
  "applyKey op a b = op_text op @ '','' @ show_nat a @ '','' @ show_nat b"

definition bindingsKey :: "(nat, bool) jsmap \<Rightarrow> string" where
  "bindingsKey bindings =
     join '','' (map (\<lambda>(v, b). show_nat v @ ''='' @ (if b then ''1'' else ''0''))
       (sort_key fst bindings))"

definition restrictKey :: "nat \<Rightarrow> (nat, bool) jsmap \<Rightarrow> string" where
  "restrictKey i bindings = show_nat i @ ''|'' @ bindingsKey bindings"

subsection \<open>Operations\<close>

definition mk :: "nat \<Rightarrow> nat \<Rightarrow> nat \<Rightarrow> robdd \<Rightarrow> nat \<times> robdd" where
  "mk varIndex low high s =
     (if low = high then (low, s)
      else case uniqueTable s (nodeKey varIndex low high) of
        Some existing \<Rightarrow> (existing, s)
      | None \<Rightarrow>
          let i = length (nodes s)
          in (i, s\<lparr>nodes := nodes s @ [Node varIndex low high],
                 uniqueTable := (uniqueTable s)(nodeKey varIndex low high \<mapsto> i)\<rparr>))"

definition bdd_var :: "nat \<Rightarrow> robdd \<Rightarrow> nat \<times> robdd" where
  "bdd_var varIndex s = mk varIndex FALSE TRUE s"

definition isTerminal :: "nat \<Rightarrow> bool" where
  "isTerminal i \<longleftrightarrow> i = FALSE \<or> i = TRUE"

definition nodeCount :: "robdd \<Rightarrow> nat" where
  "nodeCount s = length (nodes s)"

definition getNode :: "robdd \<Rightarrow> nat \<Rightarrow> bnode option" where
  "getNode s i = (if i < length (nodes s) then Some (nodes s ! i) else None)"

partial_function (option) neg :: "nat \<Rightarrow> robdd \<Rightarrow> (nat \<times> robdd) option" where
  "neg i s =
     (case negMemo s (show_nat i) of
        Some existing \<Rightarrow> Some (existing, s)
      | None \<Rightarrow>
          (case getNode s i of
             None \<Rightarrow> None
           | Some (Terminal v) \<Rightarrow>
               (let res = (if v = 0 then TRUE else FALSE)
                in Some (res, s\<lparr>negMemo := (negMemo s)(show_nat i \<mapsto> res)\<rparr>))
           | Some (Node v low high) \<Rightarrow>
               neg low s \<bind> (\<lambda>(nl, s1).
               neg high s1 \<bind> (\<lambda>(nh, s2).
               let (res, s3) = mk v nl nh s2
               in Some (res, s3\<lparr>negMemo := (negMemo s3)(show_nat i \<mapsto> res)\<rparr>)))))"

definition topVar :: "bnode \<Rightarrow> enat" where
  "topVar n = (case n of Node v _ _ \<Rightarrow> enat v | Terminal _ \<Rightarrow> \<infinity>)"

definition cofactors :: "bnode \<Rightarrow> nat \<Rightarrow> enat \<Rightarrow> nat \<times> nat" where
  "cofactors n i topv =
     (case n of
        Node v low high \<Rightarrow> if enat v = topv then (low, high) else (i, i)
      | Terminal _ \<Rightarrow> (i, i))"

partial_function (option) bdd_apply :: "bop \<Rightarrow> nat \<Rightarrow> nat \<Rightarrow> robdd \<Rightarrow> (nat \<times> robdd) option" where
  "bdd_apply op a b s =
     (if a = b then Some (a, s)
      else if isTerminal a \<and> isTerminal b then
        (let av = (if a = TRUE then 1 else 0);
             bv = (if b = TRUE then 1 else 0)
         in Some (if opEval op av bv = 1 then TRUE else FALSE, s))
      else
        (case applyMemo s (applyKey op a b) of
           Some existing \<Rightarrow> Some (existing, s)
         | None \<Rightarrow>
             getNode s a \<bind> (\<lambda>an.
             getNode s b \<bind> (\<lambda>bn.
             let topv = min (topVar an) (topVar bn);
                 (aLow, aHigh) = cofactors an a topv;
                 (bLow, bHigh) = cofactors bn b topv
             in
             bdd_apply op aLow bLow s \<bind> (\<lambda>(low, s1).
             bdd_apply op aHigh bHigh s1 \<bind> (\<lambda>(high, s2).
             let (res, s3) = mk (the_enat topv) low high s2
             in Some (res, s3\<lparr>applyMemo := (applyMemo s3)(applyKey op a b \<mapsto> res)\<rparr>)))))))"

partial_function (option) bdd_restrict ::
    "nat \<Rightarrow> (nat, bool) jsmap \<Rightarrow> robdd \<Rightarrow> (nat \<times> robdd) option" where
  "bdd_restrict i bindings s =
     (if isTerminal i \<or> bindings = [] then Some (i, s)
      else
        (case restrictMemo s (restrictKey i bindings) of
           Some existing \<Rightarrow> Some (existing, s)
         | None \<Rightarrow>
             (case getNode s i of
                None \<Rightarrow> None
              | Some (Terminal v) \<Rightarrow> Some (i, s)
              | Some (Node v low high) \<Rightarrow>
                  (case jm_get bindings v of
                     Some bound \<Rightarrow>
                       bdd_restrict (if bound then high else low) bindings s \<bind> (\<lambda>(res, s1).
                       Some (res, s1\<lparr>restrictMemo :=
                         (restrictMemo s1)(restrictKey i bindings \<mapsto> res)\<rparr>))
                   | None \<Rightarrow>
                       bdd_restrict low bindings s \<bind> (\<lambda>(rl, s1).
                       bdd_restrict high bindings s1 \<bind> (\<lambda>(rh, s2).
                       let (res, s3) = mk v rl rh s2
                       in Some (res, s3\<lparr>restrictMemo :=
                         (restrictMemo s3)(restrictKey i bindings \<mapsto> res)\<rparr>)))))))"

text \<open>\<open>support\<close>'s inner \<^verbatim>\<open>go\<close>: the variables found and the nodes visited, both grown in order.\<close>

partial_function (option) support_go ::
    "robdd \<Rightarrow> nat \<Rightarrow> nat list \<times> nat list \<Rightarrow> (nat list \<times> nat list) option" where
  "support_go s nId acc =
     (if isTerminal nId \<or> nId \<in> set (snd acc) then Some acc
      else
        (let visited = set_add nId (snd acc)
         in case getNode s nId of
              None \<Rightarrow> None
            | Some (Terminal v) \<Rightarrow> Some (fst acc, visited)
            | Some (Node v low high) \<Rightarrow>
                support_go s low (set_add v (fst acc), visited) \<bind> (\<lambda>acc1.
                support_go s high acc1)))"

declare neg.simps [code] bdd_apply.simps [code] bdd_restrict.simps [code] support_go.simps [code]

definition support :: "robdd \<Rightarrow> nat \<Rightarrow> nat list option" where
  "support s i = map_option fst (support_go s i ([], []))"

subsection \<open>The memo keys never collide\<close>

lemma not_digit_sep [simp]:
  "CHR '','' \<notin> digits" "CHR ''='' \<notin> digits" "CHR ''|'' \<notin> digits"
  by (simp_all add: digits_def)

lemma sep_notin_show_nat [simp]:
  "CHR '','' \<notin> set (show_nat n)" "CHR ''='' \<notin> set (show_nat n)" "CHR ''|'' \<notin> set (show_nat n)"
  by (simp_all add: not_digit_show_nat)

lemma nodeKey_inject [simp]: "nodeKey v l h = nodeKey v' l' h' \<longleftrightarrow> v = v' \<and> l = l' \<and> h = h'"
  by (auto simp: nodeKey_def sep_split)

lemma op_text_inject: "op_text op = op_text op' \<longleftrightarrow> op = op'"
  by (cases op; cases op') auto

lemma op_text_sep [simp]: "CHR '','' \<notin> set (op_text op)"
  by (cases op) auto

lemma applyKey_inject [simp]: "applyKey op a b = applyKey op' a' b' \<longleftrightarrow> op = op' \<and> a = a' \<and> b = b'"
  by (auto simp: applyKey_def sep_split op_text_inject)

lemma bindingsKey_sorted:
  assumes "bindingsKey m = bindingsKey m'"
  shows "sort_key fst m = sort_key fst m'"
proof -
  let ?f = "\<lambda>(v, b). show_nat v @ ''='' @ (if b then ''1'' else ''0'')"
  have sep: "\<forall>x \<in> set (map ?f (sort_key fst xs)). CHR '','' \<notin> set x \<and> x \<noteq> []"
    for xs :: "(nat, bool) jsmap"
    by auto
  have "map ?f (sort_key fst m) = map ?f (sort_key fst m')"
    using join_sep_inject [OF sep sep] assms by (simp add: bindingsKey_def)
  moreover have "inj ?f"
    by (rule injI) (auto simp: sep_split split: prod.splits if_splits)
  ultimately show ?thesis
    by (simp add: inj_map_eq_map)
qed

lemma bindingsKey_map_of:
  assumes "jm_wf m" and "jm_wf m'" and "bindingsKey m = bindingsKey m'"
  shows "map_of m = map_of m'"
proof -
  have "set m = set m'"
    by (metis assms(3) bindingsKey_sorted set_sort)
  then show ?thesis
    using assms(1,2) by (simp add: jm_wf_def map_of_inject_set)
qed

lemma restrictKey_eqD:
  assumes "restrictKey i m = restrictKey i' m'"
  shows "i = i'" "bindingsKey m = bindingsKey m'"
  using assms by (auto simp: restrictKey_def sep_split)

subsection \<open>Well-formed stores and what a node denotes\<close>

text \<open>
  \<open>nodes_ok\<close>: the two terminals come first; every other node tests a variable above those of its
  children, which are distinct and older than it. \<open>table_ok\<close>: the unique table is exactly the
  inverse of the node array, so equal nodes are one node.
\<close>

definition node_ok :: "bnode list \<Rightarrow> nat \<Rightarrow> bool" where
  "node_ok ns i \<longleftrightarrow> (\<exists>v l h. ns ! i = Node v l h \<and> l < i \<and> h < i \<and> l \<noteq> h \<and>
     enat v < topVar (ns ! l) \<and> enat v < topVar (ns ! h))"

definition nodes_ok :: "bnode list \<Rightarrow> bool" where
  "nodes_ok ns \<longleftrightarrow> 2 \<le> length ns \<and> ns ! 0 = Terminal 0 \<and> ns ! 1 = Terminal 1 \<and>
     (\<forall>i. 2 \<le> i \<longrightarrow> i < length ns \<longrightarrow> node_ok ns i)"

definition table_ok :: "bnode list \<Rightarrow> (string \<rightharpoonup> nat) \<Rightarrow> bool" where
  "table_ok ns t \<longleftrightarrow> (\<forall>v l h i. t (nodeKey v l h) = Some i \<longleftrightarrow>
     i < length ns \<and> ns ! i = Node v l h)"

function bdd_eval :: "bnode list \<Rightarrow> nat \<Rightarrow> (nat \<Rightarrow> bool) \<Rightarrow> bool" where
  "bdd_eval ns i \<rho> =
     (case ns ! i of
        Terminal v \<Rightarrow> v = 1
      | Node v l h \<Rightarrow>
          if \<rho> v then (if h < i then bdd_eval ns h \<rho> else False)
          else (if l < i then bdd_eval ns l \<rho> else False))"
  by pat_completeness auto
termination
  by (relation "measure (\<lambda>(ns, i, \<rho>). i)") auto

declare bdd_eval.simps [simp del]

text \<open>The variables tested in the diagram below a node.\<close>

function bdd_vars :: "bnode list \<Rightarrow> nat \<Rightarrow> nat set" where
  "bdd_vars ns i =
     (case ns ! i of
        Terminal v \<Rightarrow> {}
      | Node v l h \<Rightarrow>
          insert v ((if l < i then bdd_vars ns l else {}) \<union> (if h < i then bdd_vars ns h else {})))"
  by pat_completeness auto
termination
  by (relation "measure (\<lambda>(ns, i). i)") auto

declare bdd_vars.simps [simp del]

fun bop_sem :: "bop \<Rightarrow> bool \<Rightarrow> bool \<Rightarrow> bool" where
  "bop_sem op_and p q = (p \<and> q)"
| "bop_sem op_or p q = (p \<or> q)"

definition override :: "(nat, bool) jsmap \<Rightarrow> (nat \<Rightarrow> bool) \<Rightarrow> nat \<Rightarrow> bool" where
  "override m \<rho> v = (case map_of m v of Some b \<Rightarrow> b | None \<Rightarrow> \<rho> v)"

lemma override_Nil [simp]: "override [] \<rho> = \<rho>"
  by (simp add: override_def fun_eq_iff)

definition neg_sound :: "bnode list \<Rightarrow> (string \<rightharpoonup> nat) \<Rightarrow> bool" where
  "neg_sound ns m \<longleftrightarrow> (\<forall>i r. m (show_nat i) = Some r \<longrightarrow>
     i < length ns \<and> r < length ns \<and> topVar (ns ! i) \<le> topVar (ns ! r) \<and>
     (\<forall>\<rho>. bdd_eval ns r \<rho> = (\<not> bdd_eval ns i \<rho>)))"

definition apply_sound :: "bnode list \<Rightarrow> (string \<rightharpoonup> nat) \<Rightarrow> bool" where
  "apply_sound ns m \<longleftrightarrow> (\<forall>op a b r. m (applyKey op a b) = Some r \<longrightarrow>
     a < length ns \<and> b < length ns \<and> r < length ns \<and>
     min (topVar (ns ! a)) (topVar (ns ! b)) \<le> topVar (ns ! r) \<and>
     (\<forall>\<rho>. bdd_eval ns r \<rho> = bop_sem op (bdd_eval ns a \<rho>) (bdd_eval ns b \<rho>)))"

definition restrict_sound :: "bnode list \<Rightarrow> (string \<rightharpoonup> nat) \<Rightarrow> bool" where
  "restrict_sound ns m \<longleftrightarrow> (\<forall>i bs r. jm_wf bs \<longrightarrow> m (restrictKey i bs) = Some r \<longrightarrow>
     i < length ns \<and> r < length ns \<and> topVar (ns ! i) \<le> topVar (ns ! r) \<and>
     (\<forall>\<rho>. bdd_eval ns r \<rho> = bdd_eval ns i (override bs \<rho>)))"

definition robdd_ok :: "robdd \<Rightarrow> bool" where
  "robdd_ok s \<longleftrightarrow> nodes_ok (nodes s) \<and> table_ok (nodes s) (uniqueTable s) \<and>
     neg_sound (nodes s) (negMemo s) \<and> apply_sound (nodes s) (applyMemo s) \<and>
     restrict_sound (nodes s) (restrictMemo s)"

definition ext :: "robdd \<Rightarrow> robdd \<Rightarrow> bool" where
  "ext s s' \<longleftrightarrow> (\<exists>xs. nodes s' = nodes s @ xs)"

abbreviation den :: "robdd \<Rightarrow> nat \<Rightarrow> (nat \<Rightarrow> bool) \<Rightarrow> bool" where
  "den s \<equiv> bdd_eval (nodes s)"

abbreviation valid :: "robdd \<Rightarrow> nat \<Rightarrow> bool" where
  "valid s i \<equiv> i < length (nodes s)"

text \<open>
  What every operation promises: from \<open>s\<close> it reaches a well-formed \<open>s'\<close> that only adds nodes, and
  its result is a node denoting \<open>f\<close> that tests no variable below \<open>t\<close>.
\<close>

definition yields :: "robdd \<Rightarrow> robdd \<Rightarrow> nat \<Rightarrow> ((nat \<Rightarrow> bool) \<Rightarrow> bool) \<Rightarrow> enat \<Rightarrow> bool" where
  "yields s s' r f t \<longleftrightarrow> robdd_ok s' \<and> ext s s' \<and> valid s' r \<and> den s' r = f \<and>
     t \<le> topVar (nodes s' ! r)"

lemma robdd_okD:
  assumes "robdd_ok s"
  shows "nodes_ok (nodes s)" "table_ok (nodes s) (uniqueTable s)" "neg_sound (nodes s) (negMemo s)"
    "apply_sound (nodes s) (applyMemo s)" "restrict_sound (nodes s) (restrictMemo s)"
  using assms by (auto simp: robdd_ok_def)

lemma nodes_okD:
  assumes "nodes_ok ns"
  shows "2 \<le> length ns" "ns ! 0 = Terminal 0" "ns ! 1 = Terminal 1" "ns ! Suc 0 = Terminal 1"
  using assms by (auto simp: nodes_ok_def)

lemma nodes_ok_cases:
  assumes "nodes_ok ns" and "i < length ns"
  obtains (F) "i = 0" "ns ! i = Terminal 0"
    | (T) "i = 1" "ns ! i = Terminal 1"
    | (N) v l h where "2 \<le> i" "ns ! i = Node v l h" "l < i" "h < i" "l \<noteq> h"
        "enat v < topVar (ns ! l)" "enat v < topVar (ns ! h)"
proof -
  consider "i = 0" | "i = 1" | "2 \<le> i" by linarith
  then show ?thesis
    using assms F T N by (cases; auto simp: nodes_ok_def node_ok_def)
qed

lemma ext_refl [simp, intro]: "ext s s"
  by (simp add: ext_def)

lemma ext_trans: "ext s s' \<Longrightarrow> ext s' s'' \<Longrightarrow> ext s s''"
  by (auto simp: ext_def)

lemma ext_nth: "ext s s' \<Longrightarrow> valid s i \<Longrightarrow> nodes s' ! i = nodes s ! i"
  by (auto simp: ext_def nth_append)

lemma ext_valid: "ext s s' \<Longrightarrow> valid s i \<Longrightarrow> valid s' i"
  by (auto simp: ext_def)

subsection \<open>Denotation, and how it survives new nodes\<close>

lemma bdd_eval_FALSE [simp]: "nodes_ok ns \<Longrightarrow> bdd_eval ns FALSE \<rho> = False"
  by (subst bdd_eval.simps) (simp add: FALSE_def nodes_okD)

lemma bdd_eval_TRUE [simp]: "nodes_ok ns \<Longrightarrow> bdd_eval ns TRUE \<rho> = True"
  by (subst bdd_eval.simps) (simp add: TRUE_def nodes_okD)

lemma bdd_eval_Node:
  "ns ! i = Node v l h \<Longrightarrow> l < i \<Longrightarrow> h < i \<Longrightarrow>
    bdd_eval ns i \<rho> = (if \<rho> v then bdd_eval ns h \<rho> else bdd_eval ns l \<rho>)"
  by (subst bdd_eval.simps) simp

lemma bdd_eval_append:
  "nodes_ok ns \<Longrightarrow> i < length ns \<Longrightarrow> bdd_eval (ns @ xs) i \<rho> = bdd_eval ns i \<rho>"
proof (induction i rule: less_induct)
  case (less i)
  from less.prems show ?case
  proof (cases rule: nodes_ok_cases)
    case (N v l h)
    then show ?thesis
      using less by (simp add: bdd_eval_Node nth_append)
  qed (use less.prems in \<open>subst (1 2) bdd_eval.simps; simp add: nth_append\<close>)+
qed

lemma bdd_vars_append:
  "nodes_ok ns \<Longrightarrow> i < length ns \<Longrightarrow> bdd_vars (ns @ xs) i = bdd_vars ns i"
proof (induction i rule: less_induct)
  case (less i)
  from less.prems show ?case
  proof (cases rule: nodes_ok_cases)
    case (N v l h)
    then show ?thesis
      using less by (subst (1 2) bdd_vars.simps) (simp add: nth_append)
  qed (use less.prems in \<open>subst (1 2) bdd_vars.simps; simp add: nth_append\<close>)+
qed

lemma bdd_vars_Node:
  "ns ! i = Node v l h \<Longrightarrow> l < i \<Longrightarrow> h < i \<Longrightarrow>
    bdd_vars ns i = insert v (bdd_vars ns l \<union> bdd_vars ns h)"
  by (subst bdd_vars.simps) simp

lemma bdd_vars_terminal [simp]:
  "nodes_ok ns \<Longrightarrow> bdd_vars ns 0 = {}" "nodes_ok ns \<Longrightarrow> bdd_vars ns (Suc 0) = {}"
  by (subst bdd_vars.simps; simp add: nodes_okD)+

lemma topVar_terminal [simp]: "topVar (Terminal v) = \<infinity>"
  by (simp add: topVar_def)

lemma topVar_Node [simp]: "topVar (Node v l h) = enat v"
  by (simp add: topVar_def)

lemma den_ext: "robdd_ok s \<Longrightarrow> ext s s' \<Longrightarrow> valid s i \<Longrightarrow> den s' i = den s i"
  by (auto simp: ext_def bdd_eval_append robdd_okD)

lemma neg_sound_append: "nodes_ok ns \<Longrightarrow> neg_sound ns m \<Longrightarrow> neg_sound (ns @ xs) m"
  by (fastforce simp: neg_sound_def bdd_eval_append nth_append)

lemma apply_sound_append: "nodes_ok ns \<Longrightarrow> apply_sound ns m \<Longrightarrow> apply_sound (ns @ xs) m"
  by (fastforce simp: apply_sound_def bdd_eval_append nth_append)

lemma restrict_sound_append: "nodes_ok ns \<Longrightarrow> restrict_sound ns m \<Longrightarrow> restrict_sound (ns @ xs) m"
  by (fastforce simp: restrict_sound_def bdd_eval_append nth_append)

lemma nodes_ok_append:
  assumes "nodes_ok ns" and "l < length ns" "h < length ns" "l \<noteq> h"
    and "enat v < topVar (ns ! l)" "enat v < topVar (ns ! h)"
  shows "nodes_ok (ns @ [Node v l h])"
proof -
  have "node_ok (ns @ [Node v l h]) i" if "2 \<le> i" "i < Suc (length ns)" for i
  proof (cases "i = length ns")
    case True
    then show ?thesis using assms by (simp add: node_ok_def nth_append)
  next
    case False
    then have i: "i < length ns" using that by simp
    then have "node_ok ns i" using assms(1) that by (simp add: nodes_ok_def)
    then obtain v' l' h' where "ns ! i = Node v' l' h'" "l' < i" "h' < i" "l' \<noteq> h'"
        "enat v' < topVar (ns ! l')" "enat v' < topVar (ns ! h')"
      by (auto simp: node_ok_def)
    then show ?thesis using i by (auto simp: node_ok_def nth_append)
  qed
  then show ?thesis
    using assms(1) by (auto simp: nodes_ok_def nth_append)
qed

lemma table_ok_append:
  assumes "table_ok ns t" and "t (nodeKey v l h) = None"
  shows "table_ok (ns @ [Node v l h]) (t(nodeKey v l h \<mapsto> length ns))"
proof -
  have "ns ! i \<noteq> Node v l h" if "i < length ns" for i
    using assms that by (metis option.distinct(1) table_ok_def)
  then show ?thesis
    using assms(1) by (auto simp: table_ok_def nth_append less_Suc_eq)
qed

lemma new_robdd_ok: "robdd_ok new_robdd"
  by (auto simp: robdd_ok_def new_robdd_def nodes_ok_def table_ok_def neg_sound_def apply_sound_def
      restrict_sound_def less_Suc_eq nth_Cons split: nat.splits)

lemma mk_yields:
  assumes ok: "robdd_ok s" and l: "valid s l" and h: "valid s h"
    and vl: "enat v < topVar (nodes s ! l)" and vh: "enat v < topVar (nodes s ! h)"
    and mk: "mk v l h s = (r, s')"
  shows "yields s s' r (\<lambda>\<rho>. if \<rho> v then den s h \<rho> else den s l \<rho>) (enat v)"
proof (cases "l = h")
  case True
  then show ?thesis
    using assms by (auto simp: mk_def yields_def)
next
  case neq: False
  show ?thesis
  proof (cases "uniqueTable s (nodeKey v l h)")
    case (Some i)
    then have i: "valid s i" "nodes s ! i = Node v l h"
      using ok by (auto simp: robdd_ok_def table_ok_def)
    then have "l < i" "h < i"
      using ok robdd_okD(1) [OF ok] by (auto elim: nodes_ok_cases)
    then show ?thesis
      using mk neq Some i ok by (auto simp: mk_def yields_def bdd_eval_Node)
  next
    case None
    let ?ns = "nodes s @ [Node v l h]"
    have s': "s' = s\<lparr>nodes := ?ns,
        uniqueTable := (uniqueTable s)(nodeKey v l h \<mapsto> length (nodes s))\<rparr>"
      and r: "r = length (nodes s)"
      using mk neq None by (auto simp: mk_def Let_def)
    note D = robdd_okD [OF ok]
    have "robdd_ok s'"
      using D None neq l h vl vh
      by (simp add: robdd_ok_def s' nodes_ok_append table_ok_append neg_sound_append
          apply_sound_append restrict_sound_append)
    moreover have "bdd_eval ?ns r = (\<lambda>\<rho>. if \<rho> v then den s h \<rho> else den s l \<rho>)"
      using D(1) l h by (auto simp: r bdd_eval_append bdd_eval_Node [where v = v and l = l and h = h])
    ultimately show ?thesis
      by (simp add: yields_def s' r ext_def nth_append)
  qed
qed

subsection \<open>Every operation keeps its promise\<close>

lemma yieldsD:
  assumes "yields s s' r f t"
  shows "robdd_ok s'" "ext s s'" "valid s' r" "den s' r = f" "t \<le> topVar (nodes s' ! r)"
  using assms by (auto simp: yields_def)

lemma yields_trans:
  "ext s s1 \<Longrightarrow> yields s1 s' r f t \<Longrightarrow> yields s s' r f t"
  by (auto simp: yields_def intro: ext_trans)

lemma yields_mono:
  "yields s s' r f t \<Longrightarrow> f = g \<Longrightarrow> u \<le> t \<Longrightarrow> yields s s' r g u"
  by (auto simp: yields_def intro: order_trans)

text \<open>Recording a correct result in a memo table keeps the store well-formed.\<close>

lemma yields_neg_memo:
  assumes ok: "robdd_ok s" and i: "valid s i"
    and y: "yields s s' r (\<lambda>\<rho>. \<not> den s i \<rho>) (topVar (nodes s ! i))"
  shows "yields s (s'\<lparr>negMemo := (negMemo s')(show_nat i \<mapsto> r)\<rparr>) r
    (\<lambda>\<rho>. \<not> den s i \<rho>) (topVar (nodes s ! i))"
proof -
  note Y = yieldsD [OF y]
  note E = ext_valid [OF Y(2) i] ext_nth [OF Y(2) i] den_ext [OF ok Y(2) i]
  have "neg_sound (nodes s') ((negMemo s')(show_nat i \<mapsto> r))"
    using robdd_okD(3) [OF Y(1)] Y(3-5) E by (simp add: neg_sound_def)
  then show ?thesis
    using Y robdd_okD [OF Y(1)] by (simp add: yields_def robdd_ok_def ext_def)
qed

lemma yields_apply_memo:
  assumes ok: "robdd_ok s" and ab: "valid s a" "valid s b"
    and y: "yields s s' r (\<lambda>\<rho>. bop_sem op (den s a \<rho>) (den s b \<rho>))
      (min (topVar (nodes s ! a)) (topVar (nodes s ! b)))"
  shows "yields s (s'\<lparr>applyMemo := (applyMemo s')(applyKey op a b \<mapsto> r)\<rparr>) r
    (\<lambda>\<rho>. bop_sem op (den s a \<rho>) (den s b \<rho>)) (min (topVar (nodes s ! a)) (topVar (nodes s ! b)))"
proof -
  note Y = yieldsD [OF y]
  note E = ext_valid [OF Y(2) ab(1)] ext_nth [OF Y(2) ab(1)] den_ext [OF ok Y(2) ab(1)]
    ext_valid [OF Y(2) ab(2)] ext_nth [OF Y(2) ab(2)] den_ext [OF ok Y(2) ab(2)]
  have "apply_sound (nodes s') ((applyMemo s')(applyKey op a b \<mapsto> r))"
    using robdd_okD(4) [OF Y(1)] Y(3-5) E by (simp add: apply_sound_def)
  then show ?thesis
    using Y robdd_okD [OF Y(1)] by (simp add: yields_def robdd_ok_def ext_def)
qed

lemma yields_restrict_memo:
  assumes ok: "robdd_ok s" and i: "valid s i" and bs: "jm_wf bs"
    and y: "yields s s' r (\<lambda>\<rho>. den s i (override bs \<rho>)) (topVar (nodes s ! i))"
  shows "yields s (s'\<lparr>restrictMemo := (restrictMemo s')(restrictKey i bs \<mapsto> r)\<rparr>) r
    (\<lambda>\<rho>. den s i (override bs \<rho>)) (topVar (nodes s ! i))"
proof -
  note Y = yieldsD [OF y]
  note E = ext_valid [OF Y(2) i] ext_nth [OF Y(2) i] den_ext [OF ok Y(2) i]
  have same: "override bs' = override bs" if "jm_wf bs'" "restrictKey i' bs' = restrictKey i bs" for i' bs'
    using bindingsKey_map_of [OF that(1) bs] restrictKey_eqD [OF that(2)]
    by (simp add: override_def fun_eq_iff)
  have "restrict_sound (nodes s') ((restrictMemo s')(restrictKey i bs \<mapsto> r))"
    unfolding restrict_sound_def
  proof (intro allI impI)
    fix i' bs' q
    assume wf: "jm_wf bs'" and get: "((restrictMemo s')(restrictKey i bs \<mapsto> r)) (restrictKey i' bs') = Some q"
    show "valid s' i' \<and> valid s' q \<and> topVar (nodes s' ! i') \<le> topVar (nodes s' ! q) \<and>
        (\<forall>\<rho>. den s' q \<rho> = den s' i' (override bs' \<rho>))"
    proof (cases "restrictKey i' bs' = restrictKey i bs")
      case True
      then have "i' = i" "q = r" using get restrictKey_eqD(1) by auto
      then show ?thesis
        using Y(3-5) E same [OF wf True] by simp
    next
      case False
      then show ?thesis
        using get wf robdd_okD(5) [OF Y(1)] by (simp add: restrict_sound_def)
    qed
  qed
  then show ?thesis
    using Y robdd_okD [OF Y(1)] by (simp add: yields_def robdd_ok_def ext_def)
qed

lemma getNode_valid: "valid s i \<Longrightarrow> getNode s i = Some (nodes s ! i)"
  by (simp add: getNode_def)

lemma valid_terminals:
  assumes "robdd_ok s"
  shows "valid s FALSE" "valid s TRUE"
  using nodes_okD(1) [OF robdd_okD(1) [OF assms]] by (auto simp: FALSE_def TRUE_def)

lemma yields_refl:
  "robdd_ok s \<Longrightarrow> valid s i \<Longrightarrow> den s i = f \<Longrightarrow> t \<le> topVar (nodes s ! i) \<Longrightarrow> yields s s i f t"
  by (simp add: yields_def)

lemma topVar_TRUE [simp]: "robdd_ok s \<Longrightarrow> topVar (nodes s ! TRUE) = \<infinity>"
  using nodes_okD(4) [OF robdd_okD(1)] by (simp add: TRUE_def)

lemma topVar_FALSE [simp]: "robdd_ok s \<Longrightarrow> topVar (nodes s ! FALSE) = \<infinity>"
  using nodes_okD(2) [OF robdd_okD(1)] by (simp add: FALSE_def)

text \<open>Combining two results under a node, in the store the second one left.\<close>

lemma mk_after:
  assumes ok: "robdd_ok s" and y1: "yields s s1 l f t" and y2: "yields s1 s2 h g u"
    and "enat v < t" "enat v < u" and mk: "mk v l h s2 = (r, s3)"
  shows "yields s s3 r (\<lambda>\<rho>. if \<rho> v then g \<rho> else f \<rho>) (enat v)"
proof -
  note Y1 = yieldsD [OF y1] and Y2 = yieldsD [OF y2]
  have l: "valid s2 l" "den s2 l = f" "enat v < topVar (nodes s2 ! l)"
    using Y1(4,5) assms(4) den_ext [OF Y1(1) Y2(2) Y1(3)] ext_valid [OF Y2(2) Y1(3)]
      ext_nth [OF Y2(2) Y1(3)]
    by auto
  have "enat v < topVar (nodes s2 ! h)"
    using Y2(5) assms(5) by simp
  from mk_yields [OF Y2(1) l(1) Y2(3) l(3) this mk]
  have "yields s2 s3 r (\<lambda>\<rho>. if \<rho> v then g \<rho> else f \<rho>) (enat v)"
    by (simp only: l(2) Y2(4))
  then show ?thesis
    by (rule yields_trans [OF ext_trans [OF Y1(2) Y2(2)]])
qed

lemma neg_yields:
  "robdd_ok s \<Longrightarrow> valid s i \<Longrightarrow>
    \<exists>r s'. neg i s = Some (r, s') \<and>
      yields s s' r (\<lambda>\<rho>. \<not> den s i \<rho>) (topVar (nodes s ! i))"
proof (induction i arbitrary: s rule: less_induct)
  case (less i)
  note ok = less.prems(1) and i = less.prems(2)
  show ?case
  proof (cases "negMemo s (show_nat i)")
    case (Some r)
    then have "yields s s r (\<lambda>\<rho>. \<not> den s i \<rho>) (topVar (nodes s ! i))"
      using robdd_okD(3) [OF ok] ok by (auto simp: neg_sound_def yields_def)
    then show ?thesis
      using Some by (subst neg.simps) simp
  next
    case None
    note memo = yields_neg_memo [OF ok i]
    from robdd_okD(1) [OF ok] i show ?thesis
    proof (cases rule: nodes_ok_cases)
      case F
      then have "yields s s TRUE (\<lambda>\<rho>. \<not> den s i \<rho>) (topVar (nodes s ! i))"
        using ok by (auto simp: yields_def valid_terminals robdd_okD FALSE_def [symmetric])
      from memo [OF this] show ?thesis
        using None F i by (subst neg.simps) (simp add: getNode_valid)
    next
      case T
      then have "yields s s FALSE (\<lambda>\<rho>. \<not> den s i \<rho>) (topVar (nodes s ! i))"
        using ok by (auto simp: yields_def valid_terminals robdd_okD TRUE_def [unfolded One_nat_def, symmetric])
      from memo [OF this] show ?thesis
        using None T i by (subst neg.simps) (simp add: getNode_valid)
    next
      case (N v l h)
      have l: "valid s l" and h: "valid s h" using N i by auto
      from less.IH [OF N(3) ok l] obtain nl s1 where
        1: "neg l s = Some (nl, s1)" "yields s s1 nl (\<lambda>\<rho>. \<not> den s l \<rho>) (topVar (nodes s ! l))"
        by blast
      note Y1 = yieldsD [OF 1(2)]
      from less.IH [OF N(4) Y1(1) ext_valid [OF Y1(2) h]] obtain nh s2 where
        2: "neg h s1 = Some (nh, s2)" "yields s1 s2 nh (\<lambda>\<rho>. \<not> den s h \<rho>) (topVar (nodes s ! h))"
        by (auto simp: den_ext [OF ok Y1(2) h] ext_nth [OF Y1(2) h])
      obtain r s3 where m: "mk v nl nh s2 = (r, s3)" by fastforce
      have "yields s s3 r (\<lambda>\<rho>. \<not> den s i \<rho>) (topVar (nodes s ! i))"
        using mk_after [OF ok 1(2) 2(2) N(6) N(7) m]
        by (rule yields_mono) (use N in \<open>auto simp: bdd_eval_Node\<close>)
      from memo [OF this] show ?thesis
        using None N(2) i 1(1) 2(1) m by (subst neg.simps) (simp add: getNode_valid)
    qed
  qed
qed

lemma isTerminal_cases: "isTerminal i \<Longrightarrow> (i = FALSE \<Longrightarrow> P) \<Longrightarrow> (i = TRUE \<Longrightarrow> P) \<Longrightarrow> P"
  by (auto simp: isTerminal_def)

lemma not_isTerminalD:
  assumes "robdd_ok s" "valid s i" "\<not> isTerminal i"
  obtains v l h where "nodes s ! i = Node v l h" "l < i" "h < i" "l \<noteq> h"
    "enat v < topVar (nodes s ! l)" "enat v < topVar (nodes s ! h)"
  using robdd_okD(1) [OF assms(1)] assms(2,3)
  by (elim nodes_ok_cases) (auto simp: isTerminal_def FALSE_def TRUE_def)

text \<open>Shannon expansion of a node with respect to a variable at or above its own.\<close>

lemma cofactors_den:
  assumes ok: "robdd_ok s" and i: "valid s i" and t: "enat v \<le> topVar (nodes s ! i)"
    and c: "cofactors (nodes s ! i) i (enat v) = (lo, hi)"
  shows "den s i \<rho> = (if \<rho> v then den s hi \<rho> else den s lo \<rho>)"
    and "valid s lo" "valid s hi" "lo \<le> i" "hi \<le> i"
    and "enat v < topVar (nodes s ! lo)" "enat v < topVar (nodes s ! hi)"
    and "topVar (nodes s ! i) = enat v \<Longrightarrow> lo < i \<and> hi < i"
proof -
  show "den s i \<rho> = (if \<rho> v then den s hi \<rho> else den s lo \<rho>)"
    and "valid s lo" "valid s hi" "lo \<le> i" "hi \<le> i"
    and "enat v < topVar (nodes s ! lo)" "enat v < topVar (nodes s ! hi)"
    and "topVar (nodes s ! i) = enat v \<Longrightarrow> lo < i \<and> hi < i"
    using robdd_okD(1) [OF ok] i t c
    by (cases rule: nodes_ok_cases; auto simp: cofactors_def bdd_eval_Node split: if_splits)+
qed

lemma topVar_infinity:
  assumes "robdd_ok s" "valid s i"
  shows "topVar (nodes s ! i) = \<infinity> \<longleftrightarrow> isTerminal i"
  using robdd_okD(1) [OF assms(1)] assms(2)
  by (cases rule: nodes_ok_cases) (auto simp: isTerminal_def FALSE_def TRUE_def)

lemma bop_sem_if:
  "bop_sem op (if c then p else q) (if c then p' else q') = (if c then bop_sem op p p' else bop_sem op q q')"
  by auto

lemma apply_terminals:
  assumes ok: "robdd_ok s" and "isTerminal a" "isTerminal b"
  shows "yields s s (if opEval op (if a = TRUE then 1 else 0) (if b = TRUE then 1 else 0) = 1
      then TRUE else FALSE) (\<lambda>\<rho>. bop_sem op (den s a \<rho>) (den s b \<rho>))
    (min (topVar (nodes s ! a)) (topVar (nodes s ! b)))"
proof -
  have "TRUE \<noteq> FALSE" by (simp add: TRUE_def FALSE_def)
  then show ?thesis
    using assms robdd_okD(1) [OF ok]
    by (cases op) (auto elim!: isTerminal_cases simp: yields_def opEval_def valid_terminals)
qed

lemma apply_yields:
  "robdd_ok s \<Longrightarrow> valid s a \<Longrightarrow> valid s b \<Longrightarrow>
    \<exists>r s'. bdd_apply op a b s = Some (r, s') \<and>
      yields s s' r (\<lambda>\<rho>. bop_sem op (den s a \<rho>) (den s b \<rho>))
        (min (topVar (nodes s ! a)) (topVar (nodes s ! b)))"
proof (induction "a + b" arbitrary: a b s rule: less_induct)
  case less
  note ok = less.prems(1) and ab = less.prems(2,3)
  let ?f = "\<lambda>\<rho>. bop_sem op (den s a \<rho>) (den s b \<rho>)"
  let ?t = "min (topVar (nodes s ! a)) (topVar (nodes s ! b))"
  consider (eq) "a = b" | (terms) "a \<noteq> b" "isTerminal a" "isTerminal b"
    | (memo) r where "a \<noteq> b" "\<not> (isTerminal a \<and> isTerminal b)" "applyMemo s (applyKey op a b) = Some r"
    | (rec) "a \<noteq> b" "\<not> (isTerminal a \<and> isTerminal b)" "applyMemo s (applyKey op a b) = None"
    by fastforce
  then show ?case
  proof cases
    case eq
    then have "yields s s a ?f ?t"
      using ok ab by (cases op) (auto simp: yields_def)
    then show ?thesis
      using eq by (subst bdd_apply.simps) simp
  next
    case terms
    then show ?thesis
      using apply_terminals [OF ok terms(2,3), of op] by (subst bdd_apply.simps) (simp add: Let_def)
  next
    case memo
    then have "yields s s r ?f ?t"
      using robdd_okD(4) [OF ok] ok by (auto simp: apply_sound_def yields_def)
    then show ?thesis
      using memo by (subst bdd_apply.simps) auto
  next
    case rec
    have "?t \<noteq> \<infinity>"
      using rec(2) topVar_infinity [OF ok ab(1)] topVar_infinity [OF ok ab(2)]
      by (auto simp: min_def split: if_splits)
    then obtain v where v: "?t = enat v" by auto
    obtain aLow aHigh where ca: "cofactors (nodes s ! a) a (enat v) = (aLow, aHigh)" by fastforce
    obtain bLow bHigh where cb: "cofactors (nodes s ! b) b (enat v) = (bLow, bHigh)" by fastforce
    have tv: "enat v \<le> topVar (nodes s ! a)" "enat v \<le> topVar (nodes s ! b)"
      by (simp_all flip: v)
    note A = cofactors_den [OF ok ab(1) tv(1) ca] and B = cofactors_den [OF ok ab(2) tv(2) cb]
    have "topVar (nodes s ! a) = enat v \<or> topVar (nodes s ! b) = enat v"
      using v by (metis min_def)
    then have dec: "aLow + bLow < a + b" "aHigh + bHigh < a + b"
      using A(4,5,8) B(4,5,8) by linarith+
    from less.hyps [OF dec(1) ok A(2) B(2)] obtain lo s1 where
      1: "bdd_apply op aLow bLow s = Some (lo, s1)"
        "yields s s1 lo (\<lambda>\<rho>. bop_sem op (den s aLow \<rho>) (den s bLow \<rho>))
          (min (topVar (nodes s ! aLow)) (topVar (nodes s ! bLow)))"
      by blast
    note Y1 = yieldsD [OF 1(2)]
    from less.hyps [OF dec(2) Y1(1) ext_valid [OF Y1(2) A(3)] ext_valid [OF Y1(2) B(3)]]
    obtain hi s2 where
      2: "bdd_apply op aHigh bHigh s1 = Some (hi, s2)"
        "yields s1 s2 hi (\<lambda>\<rho>. bop_sem op (den s aHigh \<rho>) (den s bHigh \<rho>))
          (min (topVar (nodes s ! aHigh)) (topVar (nodes s ! bHigh)))"
      by (auto simp: den_ext [OF ok Y1(2) A(3)] den_ext [OF ok Y1(2) B(3)]
          ext_nth [OF Y1(2) A(3)] ext_nth [OF Y1(2) B(3)])
    obtain r s3 where m: "mk v lo hi s2 = (r, s3)" by fastforce
    have "yields s s3 r ?f ?t"
    proof (rule yields_mono [OF mk_after [OF ok 1(2) 2(2) _ _ m]])
      show "enat v < min (topVar (nodes s ! aLow)) (topVar (nodes s ! bLow))"
        "enat v < min (topVar (nodes s ! aHigh)) (topVar (nodes s ! bHigh))"
        using A(6,7) B(6,7) by simp_all
    qed (simp_all add: v A(1) B(1) bop_sem_if fun_eq_iff)
    from yields_apply_memo [OF ok ab this] show ?thesis
      using rec ab 1(1) 2(1) m v ca cb
      by (subst bdd_apply.simps) (auto simp: getNode_valid Let_def)
  qed
qed

lemma restrict_yields:
  "robdd_ok s \<Longrightarrow> valid s i \<Longrightarrow> jm_wf bs \<Longrightarrow>
    \<exists>r s'. bdd_restrict i bs s = Some (r, s') \<and>
      yields s s' r (\<lambda>\<rho>. den s i (override bs \<rho>)) (topVar (nodes s ! i))"
proof (induction i arbitrary: s rule: less_induct)
  case (less i)
  note ok = less.prems(1) and i = less.prems(2) and wf = less.prems(3)
  let ?f = "\<lambda>\<rho>. den s i (override bs \<rho>)"
  let ?t = "topVar (nodes s ! i)"
  consider (triv) "isTerminal i \<or> bs = []"
    | (memo) r where "\<not> isTerminal i" "bs \<noteq> []" "restrictMemo s (restrictKey i bs) = Some r"
    | (rec) "\<not> isTerminal i" "bs \<noteq> []" "restrictMemo s (restrictKey i bs) = None"
    by fastforce
  then show ?case
  proof cases
    case triv
    have "yields s s i ?f ?t"
      using triv ok i robdd_okD(1) [OF ok]
      by (auto simp: yields_def isTerminal_def fun_eq_iff)
    then show ?thesis
      using triv by (subst bdd_restrict.simps) simp
  next
    case memo
    then have "yields s s r ?f ?t"
      using robdd_okD(5) [OF ok] ok wf by (auto simp: restrict_sound_def yields_def)
    then show ?thesis
      using memo by (subst bdd_restrict.simps) simp
  next
    case rec
    from not_isTerminalD [OF ok i rec(1)] obtain v l h where
      N: "nodes s ! i = Node v l h" "l < i" "h < i" "l \<noteq> h"
        "enat v < topVar (nodes s ! l)" "enat v < topVar (nodes s ! h)" .
    have l: "valid s l" and h: "valid s h" using N i by auto
    note memo = yields_restrict_memo [OF ok i wf]
    show ?thesis
    proof (cases "jm_get bs v")
      case (Some b)
      let ?c = "if b then h else l"
      have c: "?c < i" "valid s ?c" using N l h by auto
      from less.IH [OF c(1) ok c(2) wf] obtain r s1 where
        1: "bdd_restrict ?c bs s = Some (r, s1)"
          "yields s s1 r (\<lambda>\<rho>. den s ?c (override bs \<rho>)) (topVar (nodes s ! ?c))"
        by blast
      have "yields s s1 r ?f ?t"
        using 1(2) by (rule yields_mono)
          (use N Some in \<open>auto simp: bdd_eval_Node override_def intro: order_less_imp_le\<close>)
      from memo [OF this] show ?thesis
        using rec N(1) i Some 1(1) by (subst bdd_restrict.simps) (simp add: getNode_valid)
    next
      case None
      from less.IH [OF N(2) ok l wf] obtain rl s1 where
        1: "bdd_restrict l bs s = Some (rl, s1)"
          "yields s s1 rl (\<lambda>\<rho>. den s l (override bs \<rho>)) (topVar (nodes s ! l))"
        by blast
      note Y1 = yieldsD [OF 1(2)]
      from less.IH [OF N(3) Y1(1) ext_valid [OF Y1(2) h] wf] obtain rh s2 where
        2: "bdd_restrict h bs s1 = Some (rh, s2)"
          "yields s1 s2 rh (\<lambda>\<rho>. den s h (override bs \<rho>)) (topVar (nodes s ! h))"
        by (auto simp: den_ext [OF ok Y1(2) h] ext_nth [OF Y1(2) h])
      obtain r s3 where m: "mk v rl rh s2 = (r, s3)" by fastforce
      have "yields s s3 r ?f ?t"
        using mk_after [OF ok 1(2) 2(2) N(5) N(6) m]
        by (rule yields_mono) (use N None in \<open>auto simp: bdd_eval_Node override_def fun_eq_iff\<close>)
      from memo [OF this] show ?thesis
        using rec N(1) i None 1(1) 2(1) m
        by (subst bdd_restrict.simps) (simp add: getNode_valid)
    qed
  qed
qed

subsection \<open>Support\<close>

lemma support_go_correct:
  "robdd_ok s \<Longrightarrow> valid s i \<Longrightarrow>
    (\<And>j. j \<in> set vis \<Longrightarrow> j \<le> i \<Longrightarrow> bdd_vars (nodes s) j \<subseteq> set vs) \<Longrightarrow>
    \<exists>vs' vis'. support_go s i (vs, vis) = Some (vs', vis') \<and>
      set vs' = set vs \<union> bdd_vars (nodes s) i \<and> (distinct vs \<longrightarrow> distinct vs') \<and>
      set vis \<subseteq> set vis' \<and> set vis' \<subseteq> set vis \<union> {..i} \<and>
      (\<forall>j \<in> set vis'. j \<le> i \<longrightarrow> bdd_vars (nodes s) j \<subseteq> set vs')"
proof (induction i arbitrary: vs vis rule: less_induct)
  case (less i)
  note ok = less.prems(1) and i = less.prems(2) and vis = less.prems(3)
  consider (triv) "isTerminal i \<or> i \<in> set vis" | (new) "\<not> isTerminal i" "i \<notin> set vis"
    by blast
  then show ?case
  proof cases
    case triv
    then have "bdd_vars (nodes s) i \<subseteq> set vs"
      using vis [of i] robdd_okD(1) [OF ok]
      by (auto simp: isTerminal_def FALSE_def TRUE_def)
    then show ?thesis
      using triv vis by (subst support_go.simps) auto
  next
    case new
    from not_isTerminalD [OF ok i new(1)] obtain v l h where
      N: "nodes s ! i = Node v l h" "l < i" "h < i" .
    have l: "valid s l" and h: "valid s h" using N i by auto
    let ?vis = "set_add i vis" and ?vs = "set_add v vs"
    have "bdd_vars (nodes s) j \<subseteq> set ?vs" if "j \<in> set ?vis" "j \<le> l" for j
      using vis [of j] that N by auto
    from less.IH [OF N(2) ok l this] obtain vs1 vis1 where
      1: "support_go s l (?vs, ?vis) = Some (vs1, vis1)"
        "set vs1 = set ?vs \<union> bdd_vars (nodes s) l" "distinct ?vs \<longrightarrow> distinct vs1"
        "set ?vis \<subseteq> set vis1" "set vis1 \<subseteq> set ?vis \<union> {..l}"
        "\<forall>j \<in> set vis1. j \<le> l \<longrightarrow> bdd_vars (nodes s) j \<subseteq> set vs1"
      by blast
    have "bdd_vars (nodes s) j \<subseteq> set vs1" if "j \<in> set vis1" "j \<le> h" for j
      using vis [of j] that N 1 by fastforce
    from less.IH [OF N(3) ok h this] obtain vs2 vis2 where
      2: "support_go s h (vs1, vis1) = Some (vs2, vis2)"
        "set vs2 = set vs1 \<union> bdd_vars (nodes s) h" "distinct vs1 \<longrightarrow> distinct vs2"
        "set vis1 \<subseteq> set vis2" "set vis2 \<subseteq> set vis1 \<union> {..h}"
        "\<forall>j \<in> set vis2. j \<le> h \<longrightarrow> bdd_vars (nodes s) j \<subseteq> set vs2"
      by blast
    have i_vars: "bdd_vars (nodes s) i = insert v (bdd_vars (nodes s) l \<union> bdd_vars (nodes s) h)"
      using N by (simp add: bdd_vars_Node)
    have "bdd_vars (nodes s) j \<subseteq> set vs2" if j: "j \<in> set vis2" "j \<le> i" for j
    proof -
      consider "j \<le> h" | "j \<in> set vis1" "j \<le> l" | "j = i" | "j \<in> set vis"
        using j(1) 2(5) 1(5) by auto
      then show ?thesis
        using 1(2,6) 2(2,6) j i_vars vis [of j] by cases auto
    qed
    moreover have "support_go s i (vs, vis) = Some (vs2, vis2)"
      using new N i 1(1) 2(1) by (subst support_go.simps) (simp add: getNode_valid Let_def)
    moreover have "set vis2 \<subseteq> set vis \<union> {..i}"
      using 1(5) 2(5) N(2,3) by fastforce
    ultimately show ?thesis
      using 1(2,3,4) 2(2,3,4) i_vars by auto
  qed
qed

lemma support_correct:
  assumes "robdd_ok s" "valid s i"
  obtains vs where "support s i = Some vs" "set vs = bdd_vars (nodes s) i" "distinct vs"
  using support_go_correct [OF assms, of "[]" "[]"] that by (auto simp: support_def)

subsection \<open>Canonicity\<close>

definition depends_on :: "((nat \<Rightarrow> bool) \<Rightarrow> bool) \<Rightarrow> nat \<Rightarrow> bool" where
  "depends_on f v \<longleftrightarrow> (\<exists>\<rho>. f (\<rho>(v := True)) \<noteq> f (\<rho>(v := False)))"

lemma den_below_top:
  "robdd_ok s \<Longrightarrow> valid s i \<Longrightarrow> (\<And>w. topVar (nodes s ! i) \<le> enat w \<Longrightarrow> \<rho> w = \<sigma> w) \<Longrightarrow>
    den s i \<rho> = den s i \<sigma>"
proof (induction i rule: less_induct)
  case (less i)
  from robdd_okD(1) [OF less.prems(1)] less.prems(2) show ?case
  proof (cases rule: nodes_ok_cases)
    case (N v l h)
    have *: "den s k \<rho> = den s k \<sigma>" if k: "k < i" "enat v < topVar (nodes s ! k)" for k
    proof (rule less.IH [OF k(1) less.prems(1)])
      show "valid s k" using k less.prems(2) by simp
      fix w assume "topVar (nodes s ! k) \<le> enat w"
      then have "enat v \<le> enat w" using k(2) by order
      then show "\<rho> w = \<sigma> w" using N(2) less.prems(3) by simp
    qed
    have "den s l \<rho> = den s l \<sigma>" "den s h \<rho> = den s h \<sigma>"
      by (rule * [OF N(3,6)]) (rule * [OF N(4,7)])
    then show ?thesis
      using N less.prems(3) [of v] by (simp add: bdd_eval_Node)
  qed (simp_all add: bdd_eval.simps [of _ 0] bdd_eval.simps [of _ "Suc 0"])
qed

lemma den_upd_below:
  assumes "robdd_ok s" "valid s i" "enat v < topVar (nodes s ! i)"
  shows "den s i (\<rho>(v := b)) = den s i \<rho>"
  by (rule den_below_top [OF assms(1,2)]) (use assms(3) in auto)

lemma den_Node_cofactor:
  assumes "robdd_ok s" "valid s i" "nodes s ! i = Node v l h" "l < i" "h < i"
    "enat v < topVar (nodes s ! l)" "enat v < topVar (nodes s ! h)"
  shows "den s i (\<rho>(v := True)) = den s h \<rho>" "den s i (\<rho>(v := False)) = den s l \<rho>"
  using assms by (simp_all add: bdd_eval_Node den_upd_below)

lemma canonical:
  "robdd_ok s \<Longrightarrow> valid s i \<Longrightarrow> valid s j \<Longrightarrow> (\<And>\<rho>. den s i \<rho> = den s j \<rho>) \<Longrightarrow> i = j"
proof (induction "max i j" arbitrary: i j rule: less_induct)
  case less
  note ok = less.prems(1)
  note nok = robdd_okD(1) [OF ok]
  text \<open>A node whose variable is strictly above the other diagram would have equal children.\<close>
  have above: False
    if N: "nodes s ! a = Node v l h" "l < a" "h < a" "l \<noteq> h"
        "enat v < topVar (nodes s ! l)" "enat v < topVar (nodes s ! h)"
      and b: "enat v < topVar (nodes s ! b)" and ab: "valid s a" "valid s b" "a \<le> max i j"
      and eq: "\<And>\<rho>. den s a \<rho> = den s b \<rho>" for a b v l h
  proof -
    have "den s l \<rho> = den s h \<rho>" for \<rho>
      using den_Node_cofactor [OF ok ab(1) N(1,2,3,5,6), of \<rho>] den_upd_below [OF ok ab(2) b] eq
      by metis
    moreover have "max l h < max i j" "valid s l" "valid s h"
      using N ab by auto
    ultimately show False
      using less.hyps [OF _ ok] N(4) by blast
  qed
  show ?case
  proof (cases "isTerminal i \<and> isTerminal j")
    case True
    then show ?thesis
      using less.prems(4) nok by (auto elim!: isTerminal_cases)
  next
    case False
    consider (lt) "topVar (nodes s ! i) < topVar (nodes s ! j)"
      | (gt) "topVar (nodes s ! j) < topVar (nodes s ! i)"
      | (eq) "topVar (nodes s ! i) = topVar (nodes s ! j)" by fastforce
    then show ?thesis
    proof cases
      case lt
      then have "\<not> isTerminal i" using topVar_infinity [OF ok less.prems(2)] by auto
      from not_isTerminalD [OF ok less.prems(2) this] show ?thesis
        using above [of i _ _ _ j] lt less.prems by (metis max.cobounded1 topVar_Node)
    next
      case gt
      then have "\<not> isTerminal j" using topVar_infinity [OF ok less.prems(3)] by auto
      from not_isTerminalD [OF ok less.prems(3) this] show ?thesis
        using above [of j _ _ _ i] gt less.prems by (metis max.cobounded2 topVar_Node)
    next
      case eq
      then have nt: "\<not> isTerminal i" "\<not> isTerminal j"
        using False topVar_infinity [OF ok less.prems(2)] topVar_infinity [OF ok less.prems(3)] by auto
      from not_isTerminalD [OF ok less.prems(2) nt(1)] obtain v l h where
        N: "nodes s ! i = Node v l h" "l < i" "h < i"
          "enat v < topVar (nodes s ! l)" "enat v < topVar (nodes s ! h)" .
      from not_isTerminalD [OF ok less.prems(3) nt(2)] obtain v' l' h' where
        N': "nodes s ! j = Node v' l' h'" "l' < j" "h' < j"
          "enat v' < topVar (nodes s ! l')" "enat v' < topVar (nodes s ! h')" .
      have v: "v' = v" using eq N N' by simp
      note C = den_Node_cofactor [OF ok less.prems(2) N]
        and C' = den_Node_cofactor [OF ok less.prems(3) N']
      have "den s l \<rho> = den s l' \<rho>" "den s h \<rho> = den s h' \<rho>" for \<rho>
        using C C' less.prems(4) v by metis+
      moreover have "max l l' < max i j" "max h h' < max i j"
        "valid s l" "valid s l'" "valid s h" "valid s h'"
        using N N' less.prems(2,3) by auto
      ultimately have "l = l'" "h = h'"
        using less.hyps [OF _ ok] by blast+
      then have "nodes s ! i = nodes s ! j" using N N' v by simp
      then show ?thesis
        using robdd_okD(2) [OF ok] N(1) less.prems(2,3) by (metis option.inject table_ok_def)
    qed
  qed
qed

lemma bdd_vars_depends:
  "robdd_ok s \<Longrightarrow> valid s i \<Longrightarrow> v \<in> bdd_vars (nodes s) i \<longleftrightarrow> depends_on (den s i) v"
proof (induction i rule: less_induct)
  case (less i)
  note ok = less.prems(1)
  from robdd_okD(1) [OF ok] less.prems(2) show ?case
  proof (cases rule: nodes_ok_cases)
    case (N w l h)
    then have lh: "valid s l" "valid s h" using less.prems(2) by auto
    note C = den_Node_cofactor [OF ok less.prems(2) N(2-4) N(6,7)]
    have split: "den s i \<rho> = (if \<rho> w then den s h \<rho> else den s l \<rho>)" for \<rho>
      using N by (simp add: bdd_eval_Node)
    have "depends_on (den s i) w"
    proof (rule ccontr)
      assume "\<not> depends_on (den s i) w"
      then have "den s h \<rho> = den s l \<rho>" for \<rho>
        using C by (metis depends_on_def)
      then show False
        using canonical [OF ok lh(2,1)] N(5) by blast
    qed
    moreover have "depends_on (den s i) v \<longleftrightarrow> depends_on (den s l) v \<or> depends_on (den s h) v"
      if "v \<noteq> w"
    proof
      assume "depends_on (den s i) v"
      then show "depends_on (den s l) v \<or> depends_on (den s h) v"
        unfolding depends_on_def split using that by (auto split: if_splits)
    next
      assume "depends_on (den s l) v \<or> depends_on (den s h) v"
      then obtain \<rho> where "den s l (\<rho>(v := True)) \<noteq> den s l (\<rho>(v := False)) \<or>
          den s h (\<rho>(v := True)) \<noteq> den s h (\<rho>(v := False))"
        by (auto simp: depends_on_def)
      then have "den s i ((\<rho>(w := False))(v := True)) \<noteq> den s i ((\<rho>(w := False))(v := False)) \<or>
          den s i ((\<rho>(w := True))(v := True)) \<noteq> den s i ((\<rho>(w := True))(v := False))"
        using that C fun_upd_twist [of v w] by metis
      then show "depends_on (den s i) v"
        unfolding depends_on_def by blast
    qed
    ultimately show ?thesis
      using less.IH [OF N(3) ok lh(1)] less.IH [OF N(4) ok lh(2)] N by (auto simp: bdd_vars_Node)
  next
    case F
    then show ?thesis using robdd_okD(1) [OF ok] by (simp add: depends_on_def bdd_eval.simps)
  next
    case T
    then show ?thesis using robdd_okD(1) [OF ok] by (simp add: depends_on_def bdd_eval.simps)
  qed
qed

subsection \<open>Variables\<close>

lemma bdd_var_law:
  assumes ok: "robdd_ok s" and v: "bdd_var v s = (r, s')"
  shows "robdd_ok s' \<and> ext s s' \<and> valid s' r \<and> den s' r = (\<lambda>\<rho>. \<rho> v)"
proof -
  have "yields s s' r (\<lambda>\<rho>. if \<rho> v then den s TRUE \<rho> else den s FALSE \<rho>) (enat v)"
    using mk_yields [OF ok valid_terminals(1,2) [OF ok]] ok v by (simp add: bdd_var_def)
  then show ?thesis
    using robdd_okD(1) [OF ok] by (simp add: yields_def)
qed


subsection \<open>Properties\<close>

text \<open>C1: from a well-formed store, \<open>apply\<close> returns without the internal error; its result denotes the
  conjunction or disjunction of the operands, the store stays well formed, and every node that was in
  it still denotes what it denoted.\<close>

theorem apply_correct:
  assumes "robdd_ok s" "valid s a" "valid s b"
  shows "\<exists>r s'. bdd_apply op a b s = Some (r, s') \<and> robdd_ok s' \<and> valid s' r \<and>
    den s' r = (\<lambda>\<rho>. bop_sem op (den s a \<rho>) (den s b \<rho>)) \<and>
    (\<forall>i < nodeCount s. i < nodeCount s' \<and> den s' i = den s i)"
proof -
  obtain r s' where r: "bdd_apply op a b s = Some (r, s')" "robdd_ok s'" "ext s s'" "valid s' r"
      "den s' r = (\<lambda>\<rho>. bop_sem op (den s a \<rho>) (den s b \<rho>))"
    using apply_yields [OF assms, of op] unfolding yields_def by blast
  have "\<forall>i < nodeCount s. i < nodeCount s' \<and> den s' i = den s i"
    using den_ext [OF assms(1) r(3)] ext_valid [OF r(3)] by (simp add: nodeCount_def)
  then show ?thesis
    using r by blast
qed

text \<open>\<open>restrict\<close> with known answers returns; its result denotes the restricted condition, and it
  tests none of the bound variables any more.\<close>

theorem restrict_correct:
  assumes "robdd_ok s" "valid s i" "jm_wf bindings"
  shows "\<exists>r s'. bdd_restrict i bindings s = Some (r, s') \<and> robdd_ok s' \<and> valid s' r \<and>
    den s' r = (\<lambda>\<rho>. den s i (override bindings \<rho>)) \<and>
    (\<forall>vs. support s' r = Some vs \<longrightarrow> set vs \<inter> fst ` set bindings = {})"
proof -
  obtain r s' where r: "bdd_restrict i bindings s = Some (r, s')" "robdd_ok s'" "valid s' r"
      "den s' r = (\<lambda>\<rho>. den s i (override bindings \<rho>))"
    using restrict_yields [OF assms] by (auto simp: yields_def)
  have "\<not> depends_on (den s' r) v" if v: "v \<in> fst ` set bindings" for v
  proof -
    obtain b where "map_of bindings v = Some b"
      using v by (cases "map_of bindings v") (simp_all add: map_of_eq_None_iff)
    then have "override bindings (\<rho>(v := x)) = override bindings (\<rho>(v := y))" for \<rho> x y
      by (simp add: fun_eq_iff override_def split: option.split)
    then show ?thesis
      unfolding depends_on_def r(4) by metis
  qed
  moreover obtain vs where "support s' r = Some vs" "set vs = bdd_vars (nodes s') r"
    by (rule support_correct [OF r(2,3)])
  ultimately show ?thesis
    using r bdd_vars_depends [OF r(2,3)] by auto
qed

text \<open>C34: the diagrams are canonical and \<open>support\<close> is exact: two nodes of a well-formed store denote
  the same condition only if they are the same node, and \<open>support\<close> returns, without repetition,
  exactly the variables the condition depends on.\<close>

theorem canonical_support:
  assumes "robdd_ok s" "valid s i" "valid s j"
  shows "(den s i = den s j \<longleftrightarrow> i = j) \<and>
    (\<exists>vs. support s i = Some vs \<and> distinct vs \<and> set vs = {v. depends_on (den s i) v})"
proof -
  obtain vs where "support s i = Some vs" "set vs = bdd_vars (nodes s) i" "distinct vs"
    by (rule support_correct [OF assms(1,2)])
  then show ?thesis
    using canonical [OF assms] bdd_vars_depends [OF assms(1,2)] by auto
qed

subsection \<open>Witnesses\<close>

text \<open>A store with the diagrams of two variables.\<close>

definition two_vars :: robdd where
  "two_vars = snd (bdd_var 1 (snd (bdd_var 0 new_robdd)))"

lemma two_vars_nodes: "nodes two_vars = [Terminal 0, Terminal 1, Node 0 0 1, Node 1 0 1]"
  by (simp add: two_vars_def bdd_var_def mk_def new_robdd_def FALSE_def TRUE_def)

lemma two_vars_ok: "robdd_ok two_vars"
proof -
  obtain r s where 1: "bdd_var 0 new_robdd = (r, s)" by fastforce
  obtain r' s' where 2: "bdd_var 1 s = (r', s')" by fastforce
  show ?thesis
    using bdd_var_law [OF new_robdd_ok 1] bdd_var_law [OF _ 2] 1 2 by (simp add: two_vars_def)
qed

lemma two_vars_valid: "valid two_vars 2" "valid two_vars 3"
  by (simp_all add: two_vars_nodes)

lemma two_vars_den: "den two_vars 2 = (\<lambda>\<rho>. \<rho> 0)" "den two_vars 3 = (\<lambda>\<rho>. \<rho> 1)"
  using bdd_eval_FALSE bdd_eval_TRUE robdd_okD(1) [OF two_vars_ok]
  by (simp_all add: fun_eq_iff bdd_eval.simps [of _ "Suc _"] bdd_eval.simps [of _ 0]
    bdd_eval.simps [of _ "numeral _"] two_vars_nodes)

theorem apply_correct_witness:
  "\<exists>r s'. bdd_apply op_and 2 3 two_vars = Some (r, s') \<and> den s' r = (\<lambda>\<rho>. \<rho> 0 \<and> \<rho> 1)"
  using apply_correct [OF two_vars_ok two_vars_valid, of op_and] by (auto simp: two_vars_den)

theorem restrict_correct_witness:
  "\<exists>r s'. bdd_restrict 2 [(0, True)] two_vars = Some (r, s') \<and> den s' r = (\<lambda>\<rho>. True)"
  using restrict_correct [OF two_vars_ok two_vars_valid(1), of "[(0, True)]"]
  by (auto simp: two_vars_den jm_wf_def override_def)

theorem canonical_support_witness:
  "den two_vars 2 \<noteq> den two_vars 3"
  using canonical_support [OF two_vars_ok two_vars_valid] by simp

end
