(* ===== verification/DecisionQuery.thy ===== *)
theory DecisionQuery
  imports Robdd "HOL-Library.Product_Lexorder" "HOL-Library.Multiset"
begin

text \<open>
  Decision queries over a compiled expression:
  \<^verbatim>\<open>ts-shared/boolean-analysis/src/decision-query.ts\<close>.

  \<open>compileDecisionQuery\<close> turns an expression into a node of one diagram store; \<open>query\<close> restricts
  that node by the known answers and reports whether the outcome is determined, which variables it
  still depends on, and in which order to ask for them. The closure the code returns keeps its
  store between queries, so \<open>compiled\<close> is a value every query takes and returns.
  The locale \<open>diagram_store\<close> is the interface \<open>compile\<close> relies on; it is interpreted on \<open>robdd\<close>.
\<close>

subsection \<open>The interface the compiler uses\<close>

locale diagram_store =
  fixes ok :: "'s \<Rightarrow> bool"
    and extends :: "'s \<Rightarrow> 's \<Rightarrow> bool"
    and is_node :: "'s \<Rightarrow> nat \<Rightarrow> bool"
    and denotes :: "'s \<Rightarrow> nat \<Rightarrow> (nat \<Rightarrow> bool) \<Rightarrow> bool"
    and var_op :: "nat \<Rightarrow> 's \<Rightarrow> nat \<times> 's"
    and neg_op :: "nat \<Rightarrow> 's \<Rightarrow> (nat \<times> 's) option"
    and apply_op :: "bop \<Rightarrow> nat \<Rightarrow> nat \<Rightarrow> 's \<Rightarrow> (nat \<times> 's) option"
  assumes extends_refl: "extends s s"
    and extends_trans: "extends s s' \<Longrightarrow> extends s' s'' \<Longrightarrow> extends s s''"
    and node_kept: "extends s s' \<Longrightarrow> is_node s i \<Longrightarrow> is_node s' i"
    and denotes_kept: "ok s \<Longrightarrow> extends s s' \<Longrightarrow> is_node s i \<Longrightarrow> denotes s' i = denotes s i"
    and var_law: "ok s \<Longrightarrow> var_op v s = (r, s') \<Longrightarrow>
      ok s' \<and> extends s s' \<and> is_node s' r \<and> denotes s' r = (\<lambda>\<rho>. \<rho> v)"
    and neg_law: "ok s \<Longrightarrow> is_node s i \<Longrightarrow>
      \<exists>r s'. neg_op i s = Some (r, s') \<and> ok s' \<and> extends s s' \<and> is_node s' r \<and>
        denotes s' r = (\<lambda>\<rho>. \<not> denotes s i \<rho>)"
    and apply_law: "ok s \<Longrightarrow> is_node s a \<Longrightarrow> is_node s b \<Longrightarrow>
      \<exists>r s'. apply_op op a b s = Some (r, s') \<and> ok s' \<and> extends s s' \<and> is_node s' r \<and>
        denotes s' r = (\<lambda>\<rho>. bop_sem op (denotes s a \<rho>) (denotes s b \<rho>))"
begin

text \<open>Negating an operand that was built from an earlier store.\<close>

lemma neg_after:
  assumes "ok s1" "extends s s1" "is_node s1 x" "denotes s1 x = f"
  shows "\<exists>r s2. neg_op x s1 = Some (r, s2) \<and> ok s2 \<and> extends s s2 \<and> is_node s2 r \<and>
    denotes s2 r = (\<lambda>\<rho>. \<not> f \<rho>)"
  using neg_law [OF assms(1,3)] extends_trans [OF assms(2)] assms(4) by metis

text \<open>One round of a \<^verbatim>\<open>reduce\<close>: the accumulator is a node of the store the operand started from.\<close>

lemma apply_after:
  assumes "ok s" "is_node s acc" "denotes s acc = f"
    and "ok s1" "extends s s1" "is_node s1 x" "denotes s1 x = g"
  shows "\<exists>r s2. apply_op op acc x s1 = Some (r, s2) \<and> ok s2 \<and> extends s s2 \<and> is_node s2 r \<and>
    denotes s2 r = (\<lambda>\<rho>. bop_sem op (f \<rho>) (g \<rho>))"
proof -
  have acc: "is_node s1 acc" "denotes s1 acc = f"
    using node_kept [OF assms(5,2)] denotes_kept [OF assms(1,5,2)] assms(3) by auto
  obtain r s2 where r: "apply_op op acc x s1 = Some (r, s2)" "ok s2" "extends s1 s2" "is_node s2 r"
      "denotes s2 r = (\<lambda>\<rho>. bop_sem op (denotes s1 acc \<rho>) (denotes s1 x \<rho>))"
    using apply_law [OF assms(4) acc(1) assms(6), of op] by blast
  then show ?thesis
    using extends_trans [OF assms(5) r(3)] by (simp only: acc(2) assms(7)) blast
qed

end

interpretation bdd: diagram_store robdd_ok ext valid den bdd_var neg bdd_apply
proof
  fix s s' s'' :: robdd
  show "ext s s" by simp
  show "ext s s' \<Longrightarrow> ext s' s'' \<Longrightarrow> ext s s''" by (rule ext_trans)
next
  fix s s' i
  show "ext s s' \<Longrightarrow> valid s i \<Longrightarrow> valid s' i" by (rule ext_valid)
  show "robdd_ok s \<Longrightarrow> ext s s' \<Longrightarrow> valid s i \<Longrightarrow> den s' i = den s i" by (rule den_ext)
next
  fix s v r s'
  show "robdd_ok s \<Longrightarrow> bdd_var v s = (r, s') \<Longrightarrow>
      robdd_ok s' \<and> ext s s' \<and> valid s' r \<and> den s' r = (\<lambda>\<rho>. \<rho> v)"
    by (rule bdd_var_law)
next
  fix s i
  show "robdd_ok s \<Longrightarrow> valid s i \<Longrightarrow> \<exists>r s'. neg i s = Some (r, s') \<and> robdd_ok s' \<and> ext s s' \<and>
      valid s' r \<and> den s' r = (\<lambda>\<rho>. \<not> den s i \<rho>)"
    using neg_yields by (fastforce simp: yields_def)
next
  fix s a b op
  show "robdd_ok s \<Longrightarrow> valid s a \<Longrightarrow> valid s b \<Longrightarrow> \<exists>r s'. bdd_apply op a b s = Some (r, s') \<and>
      robdd_ok s' \<and> ext s s' \<and> valid s' r \<and>
      den s' r = (\<lambda>\<rho>. bop_sem op (den s a \<rho>) (den s b \<rho>))"
    using apply_yields by (fastforce simp: yields_def)
qed

subsection \<open>Definitions\<close>

datatype dq_error =
    AppNodesUnsupported            \<comment> \<open>thrown by \<open>collectVarOrder\<close>\<close>
  | AppUnsupported string          \<comment> \<open>thrown by \<open>compile\<close>, with the function's label\<close>
  | MissingVarIndex unique
  | BddInternal

text \<open>\<open>seen\<close> and \<open>out\<close> always hold the same uniques; \<open>out\<close> keeps their order.\<close>

fun collectVarOrder_go :: "irexpr \<Rightarrow> unique list \<Rightarrow> dq_error + unique list"
and collectVarOrder_forEach :: "irexpr list \<Rightarrow> unique list \<Rightarrow> dq_error + unique list" where
  "collectVarOrder_go (UBoolVar _ nm _ _ _) out = Inr (set_add (unique_of nm) out)"
| "collectVarOrder_go (Not _ n) out = collectVarOrder_go n out"
| "collectVarOrder_go (And _ as) out = collectVarOrder_forEach as out"
| "collectVarOrder_go (Or _ as) out = collectVarOrder_forEach as out"
| "collectVarOrder_go (App _ _ _ _) out = Inl AppNodesUnsupported"
| "collectVarOrder_go _ out = Inr out"
| "collectVarOrder_forEach [] out = Inr out"
| "collectVarOrder_forEach (a # as) out =
     (case collectVarOrder_go a out of Inl e \<Rightarrow> Inl e | Inr out' \<Rightarrow> collectVarOrder_forEach as out')"

definition collectVarOrder :: "irexpr \<Rightarrow> dq_error + unique list" where
  "collectVarOrder e = collectVarOrder_go e []"

definition isDeterminedId :: "nat \<Rightarrow> bool option" where
  "isDeterminedId i = (if i = TRUE then Some True else if i = FALSE then Some False else None)"

definition uniqueToVarIndex :: "unique list \<Rightarrow> unique \<rightharpoonup> nat" where
  "uniqueToVarIndex varOrder = foldl (\<lambda>m (i, u). m(u \<mapsto> i)) Map.empty (List.enumerate 0 varOrder)"

definition lift_bdd :: "'a option \<Rightarrow> dq_error + 'a" where
  "lift_bdd r = (case r of None \<Rightarrow> Inl BddInternal | Some x \<Rightarrow> Inr x)"

fun compile :: "(unique \<rightharpoonup> nat) \<Rightarrow> irexpr \<Rightarrow> robdd \<Rightarrow> dq_error + nat \<times> robdd"
and compile_reduce :: "(unique \<rightharpoonup> nat) \<Rightarrow> bop \<Rightarrow> nat \<Rightarrow> irexpr list \<Rightarrow> robdd \<Rightarrow> dq_error + nat \<times> robdd" where
  "compile ix (TrueE _ _) s = Inr (TRUE, s)"
| "compile ix (FalseE _ _) s = Inr (FALSE, s)"
| "compile ix (UBoolVar _ nm _ _ _) s =
     (case ix (unique_of nm) of
        None \<Rightarrow> Inl (MissingVarIndex (unique_of nm))
      | Some idx \<Rightarrow> Inr (bdd_var idx s))"
| "compile ix (Not _ n) s =
     (case compile ix n s of
        Inl e \<Rightarrow> Inl e
      | Inr (x, s1) \<Rightarrow> lift_bdd (neg x s1))"
| "compile ix (And _ as) s = compile_reduce ix op_and TRUE as s"
| "compile ix (Or _ as) s = compile_reduce ix op_or FALSE as s"
| "compile ix (App _ nm _ _) s = Inl (AppUnsupported (label nm))"
| "compile ix (InertE _ _ c) s = Inr (if c = InertAnd then TRUE else FALSE, s)"
| "compile_reduce ix op acc [] s = Inr (acc, s)"
| "compile_reduce ix op acc (x # xs) s =
     (case compile ix x s of
        Inl e \<Rightarrow> Inl e
      | Inr (i, s1) \<Rightarrow>
          (case lift_bdd (bdd_apply op acc i s1) of
             Inl e \<Rightarrow> Inl e
           | Inr (acc', s2) \<Rightarrow> compile_reduce ix op acc' xs s2))"

record compiled =
  varOrder :: "unique list"
  varIndex :: "unique \<rightharpoonup> nat"
  bdd :: robdd
  root :: nat

definition compileDecisionQuery :: "irexpr \<Rightarrow> unique list option \<Rightarrow> dq_error + compiled" where
  "compileDecisionQuery expr given =
     (case (case given of None \<Rightarrow> collectVarOrder expr | Some vo \<Rightarrow> Inr vo) of
        Inl e \<Rightarrow> Inl e
      | Inr vo \<Rightarrow>
          (let ix = uniqueToVarIndex vo
           in case compile ix expr new_robdd of
                Inl e \<Rightarrow> Inl e
              | Inr (r, s) \<Rightarrow> Inr \<lparr>varOrder = vo, varIndex = ix, bdd = s, root = r\<rparr>))"

record outcome =
  o_determined :: "bool option"
  o_support :: "unique list"

record var_impact =
  ifTrue :: outcome
  ifFalse :: outcome

record query_result =
  determined :: "bool option"
  qsupport :: "unique list"
  ranked :: "unique list"
  impact :: "(unique, var_impact) jsmap"
  stats_nodes :: nat
  stats_support :: nat

definition supportFromRestricted :: "unique list \<Rightarrow> robdd \<Rightarrow> nat \<Rightarrow> unique list option" where
  "supportFromRestricted vo s r =
     map_option (\<lambda>idxs. uniqSorted (map (\<lambda>i. vo ! i) (filter (\<lambda>i. i < length vo) idxs))) (support s r)"

definition outcomeFromRestricted :: "unique list \<Rightarrow> robdd \<Rightarrow> nat \<Rightarrow> outcome option" where
  "outcomeFromRestricted vo s r =
     map_option (\<lambda>supp. \<lparr>o_determined = isDeterminedId r, o_support = supp\<rparr>) (supportFromRestricted vo s r)"

text \<open>A variable with no impact counts as decided both ways: \<^verbatim>\<open>imp?.ifTrue.determined\<close> is then
  \<^verbatim>\<open>undefined\<close>, which is not \<^verbatim>\<open>null\<close>.\<close>

definition score :: "(unique \<rightharpoonup> nat) \<Rightarrow> (unique, var_impact) jsmap \<Rightarrow> unique \<Rightarrow> int \<times> nat" where
  "score ix imps u =
     (let determinableCount =
            (case jm_get imps u of
               None \<Rightarrow> 2
             | Some imp \<Rightarrow> (if o_determined (ifTrue imp) \<noteq> None then 1 else 0) +
                           (if o_determined (ifFalse imp) \<noteq> None then 1 else 0));
          level = (case ix u of None \<Rightarrow> 1000000 | Some i \<Rightarrow> i)
      in (- determinableCount, level))"

definition rank :: "(unique \<rightharpoonup> nat) \<Rightarrow> unique list \<Rightarrow> (unique, var_impact) jsmap \<Rightarrow> unique list" where
  "rank ix supp imps = sort_key (score ix imps) supp"

definition idxBindings :: "(unique \<rightharpoonup> nat) \<Rightarrow> (unique, bool) jsmap \<Rightarrow> (nat, bool) jsmap" where
  "idxBindings ix bindings =
     foldl (\<lambda>m (u, b). case ix u of None \<Rightarrow> m | Some idx \<Rightarrow> jm_set idx b m) [] bindings"

fun impact_loop :: "compiled \<Rightarrow> nat \<Rightarrow> unique list \<Rightarrow> (unique, var_impact) jsmap \<Rightarrow> robdd \<Rightarrow>
    ((unique, var_impact) jsmap \<times> robdd) option" where
  "impact_loop c r [] imps s = Some (imps, s)"
| "impact_loop c r (u # us) imps s =
     (case varIndex c u of
        None \<Rightarrow> impact_loop c r us imps s
      | Some idx \<Rightarrow>
          bdd_restrict r [(idx, True)] s \<bind> (\<lambda>(withTrue, s1).
          bdd_restrict r [(idx, False)] s1 \<bind> (\<lambda>(withFalse, s2).
          outcomeFromRestricted (varOrder c) s2 withTrue \<bind> (\<lambda>t.
          outcomeFromRestricted (varOrder c) s2 withFalse \<bind> (\<lambda>f.
          impact_loop c r us (jm_set u \<lparr>ifTrue = t, ifFalse = f\<rparr> imps) s2)))))"

definition query :: "compiled \<Rightarrow> (unique, bool) jsmap \<Rightarrow> (query_result \<times> compiled) option" where
  "query c bindings =
     bdd_restrict (root c) (idxBindings (varIndex c) bindings) (bdd c) \<bind> (\<lambda>(restricted, s1).
     supportFromRestricted (varOrder c) s1 restricted \<bind> (\<lambda>supp.
     impact_loop c restricted supp [] s1 \<bind> (\<lambda>(imps, s2).
     Some (\<lparr>determined = isDeterminedId restricted, qsupport = supp,
            ranked = rank (varIndex c) supp imps, impact = imps,
            stats_nodes = nodeCount s2, stats_support = length supp\<rparr>,
           c\<lparr>bdd := s2\<rparr>))))"

subsection \<open>Variable order and index\<close>

lemma collectVarOrder_go_correct:
  "(has_app e \<longrightarrow> collectVarOrder_go e out = Inl AppNodesUnsupported) \<and>
   (\<not> has_app e \<longrightarrow> (\<exists>out'. collectVarOrder_go e out = Inr out' \<and>
     set out' = set out \<union> expr_vars e \<and> distinct out' = distinct out))"
  "((\<exists>a \<in> set as. has_app a) \<longrightarrow> collectVarOrder_forEach as out = Inl AppNodesUnsupported) \<and>
   ((\<forall>a \<in> set as. \<not> has_app a) \<longrightarrow> (\<exists>out'. collectVarOrder_forEach as out = Inr out' \<and>
     set out' = set out \<union> (\<Union>a \<in> set as. expr_vars a) \<and> distinct out' = distinct out))"
proof (induction e out and as out rule: collectVarOrder_go_collectVarOrder_forEach.induct)
  case (8 a as out)
  then show ?case
    by (cases "has_app a"; cases "\<exists>b \<in> set as. has_app b")
      (simp_all split: sum.splits, auto)
qed auto

lemma collectVarOrder_correct:
  "has_app e \<Longrightarrow> collectVarOrder e = Inl AppNodesUnsupported"
  "\<not> has_app e \<Longrightarrow> \<exists>vo. collectVarOrder e = Inr vo \<and> set vo = expr_vars e \<and> distinct vo"
  using collectVarOrder_go_correct(1) [of e "[]"] by (auto simp: collectVarOrder_def)

lemma uniqueToVarIndex_snoc:
  "uniqueToVarIndex (vo @ [u]) = (uniqueToVarIndex vo)(u \<mapsto> length vo)"
  by (simp add: uniqueToVarIndex_def enumerate_append_eq)

lemma uniqueToVarIndex_Some:
  "uniqueToVarIndex vo u = Some i \<Longrightarrow> i < length vo \<and> vo ! i = u"
  by (induction vo rule: rev_induct)
    (auto simp: uniqueToVarIndex_snoc nth_append uniqueToVarIndex_def [of "[]"] split: if_splits)

lemma dom_uniqueToVarIndex: "dom (uniqueToVarIndex vo) = set vo"
  by (induction vo rule: rev_induct)
    (simp_all del: fun_upd_apply add: uniqueToVarIndex_snoc uniqueToVarIndex_def [of "[]"])

subsection \<open>Compilation\<close>

text \<open>The diagram \<open>r\<close> of \<open>s'\<close> denotes \<open>f\<close>, and \<open>s'\<close> extends \<open>s\<close>.\<close>

definition built :: "robdd \<Rightarrow> robdd \<Rightarrow> nat \<Rightarrow> ((nat \<Rightarrow> bool) \<Rightarrow> bool) \<Rightarrow> bool" where
  "built s s' r f \<longleftrightarrow> robdd_ok s' \<and> ext s s' \<and> valid s' r \<and> den s' r = f"

definition at_index :: "(unique \<rightharpoonup> nat) \<Rightarrow> (nat \<Rightarrow> bool) \<Rightarrow> unique \<Rightarrow> bool" where
  "at_index ix \<sigma> u = \<sigma> (the (ix u))"

lemma built_refl:
  "robdd_ok s \<Longrightarrow> valid s r \<Longrightarrow> built s s r (den s r)"
  by (simp add: built_def)

lemma built_terminal [simp]:
  "robdd_ok s \<Longrightarrow> built s s TRUE (\<lambda>\<sigma>. True)" "robdd_ok s \<Longrightarrow> built s s FALSE (\<lambda>\<sigma>. False)"
  using valid_terminals robdd_okD(1) by (auto simp: built_def fun_eq_iff)

lemma foldl_bop_sem:
  "foldl (\<lambda>b a. bop_sem op_and b (P a)) b as \<longleftrightarrow> b \<and> (\<forall>a \<in> set as. P a)"
  "foldl (\<lambda>b a. bop_sem op_or b (P a)) b as \<longleftrightarrow> b \<or> (\<exists>a \<in> set as. P a)"
  by (induction as arbitrary: b) auto

lemma compile_correct:
  "robdd_ok s \<Longrightarrow> \<not> has_app e \<Longrightarrow> expr_vars e \<subseteq> dom ix \<Longrightarrow>
    \<exists>r s'. compile ix e s = Inr (r, s') \<and> built s s' r (\<lambda>\<sigma>. holds app (at_index ix \<sigma>) e)"
  "robdd_ok s \<Longrightarrow> valid s acc \<Longrightarrow> (\<forall>a \<in> set as. \<not> has_app a) \<Longrightarrow>
    (\<Union>a \<in> set as. expr_vars a) \<subseteq> dom ix \<Longrightarrow>
    \<exists>r s'. compile_reduce ix op acc as s = Inr (r, s') \<and> built s s' r
      (\<lambda>\<sigma>. foldl (\<lambda>b a. bop_sem op b (holds app (at_index ix \<sigma>) a)) (den s acc \<sigma>) as)"
proof (induction ix e s and ix op acc as s rule: compile_compile_reduce.induct)
  case (5 ix i as s)
  then show ?case
    using valid_terminals [OF "5.prems"(1)] robdd_okD(1) [OF "5.prems"(1)]
    by (simp add: foldl_bop_sem del: bop_sem.simps)
next
  case (6 ix i as s)
  then show ?case
    using valid_terminals [OF "6.prems"(1)] robdd_okD(1) [OF "6.prems"(1)]
    by (simp add: foldl_bop_sem del: bop_sem.simps)
next
  case (3 ix i nm v cn at s)
  obtain r s' where *: "bdd_var (the (ix (unique_of nm))) s = (r, s')" by fastforce
  show ?case
    using 3 * bdd.var_law [OF 3(1) *] by (auto simp: built_def at_index_def)
next
  case (4 ix i n s)
  then obtain r s1 where *: "compile ix n s = Inr (r, s1)"
    "built s s1 r (\<lambda>\<sigma>. holds app (at_index ix \<sigma>) n)" by auto
  obtain q s2 where "neg r s1 = Some (q, s2) \<and> robdd_ok s2 \<and> ext s s2 \<and> valid s2 q \<and>
      den s2 q = (\<lambda>\<sigma>. \<not> holds app (at_index ix \<sigma>) n)"
    using bdd.neg_after [of s1 s r] *(2) unfolding built_def by blast
  then show ?case using *(1) by (simp add: lift_bdd_def built_def)
next
  case (10 ix op acc x xs s)
  then obtain i s1 where 1: "compile ix x s = Inr (i, s1)"
    "built s s1 i (\<lambda>\<sigma>. holds app (at_index ix \<sigma>) x)" by auto
  obtain acc' s2 where 2: "bdd_apply op acc i s1 = Some (acc', s2)" "robdd_ok s2" "ext s s2" "valid s2 acc'"
      "den s2 acc' = (\<lambda>\<sigma>. bop_sem op (den s acc \<sigma>) (holds app (at_index ix \<sigma>) x))"
    using bdd.apply_after [OF "10.prems"(1,2) refl, of s1 i _ op] 1(2) unfolding built_def by blast
  have "\<exists>r s'. compile_reduce ix op acc' xs s2 = Inr (r, s') \<and> built s2 s' r
      (\<lambda>\<sigma>. foldl (\<lambda>b a. bop_sem op b (holds app (at_index ix \<sigma>) a)) (den s2 acc' \<sigma>) xs)"
    by (rule "10.IH"(2) [OF 1(1) refl _ refl 2(2,4)]) (use 2(1) "10.prems"(3,4) in \<open>auto simp: lift_bdd_def\<close>)
  then show ?case
    using 1(1) 2 bdd.extends_trans [OF 2(3)] by (auto simp: lift_bdd_def built_def)
qed (auto simp: built_refl)

text \<open>Which expressions compilation rejects.\<close>

lemma compile_Inr:
  "compile ix e s = Inr p \<Longrightarrow> \<not> has_app e \<and> expr_vars e \<subseteq> dom ix"
  "compile_reduce ix op acc as s = Inr p \<Longrightarrow>
    (\<forall>a \<in> set as. \<not> has_app a) \<and> (\<Union>a \<in> set as. expr_vars a) \<subseteq> dom ix"
proof (induction ix e s and ix op acc as s arbitrary: p and p rule: compile_compile_reduce.induct)
  case (10 ix op acc x xs s)
  from "10.prems" obtain i s1 r s2 where
    *: "compile ix x s = Inr (i, s1)" "lift_bdd (bdd_apply op acc i s1) = Inr (r, s2)"
      "compile_reduce ix op r xs s2 = Inr p"
    by (auto split: sum.splits)
  then show ?case
    using "10.IH"(1) [OF *(1)] "10.IH"(2) [OF *(1) refl *(2) refl *(3)] by simp
qed (auto split: option.splits sum.splits)

text \<open>What stands in the way of compiling, from left to right.\<close>

fun obstacles :: "unique list \<Rightarrow> irexpr \<Rightarrow> dq_error list" where
  "obstacles vo (UBoolVar _ nm _ _ _) = (if unique_of nm \<in> set vo then [] else [MissingVarIndex (unique_of nm)])"
| "obstacles vo (Not _ n) = obstacles vo n"
| "obstacles vo (And _ as) = concat (map (obstacles vo) as)"
| "obstacles vo (Or _ as) = concat (map (obstacles vo) as)"
| "obstacles vo (App _ nm _ _) = [AppUnsupported (label nm)]"
| "obstacles vo _ = []"

lemma obstacles_Nil: "obstacles vo e = [] \<longleftrightarrow> \<not> has_app e \<and> expr_vars e \<subseteq> set vo"
  by (induction e) (auto simp: concat_eq_Nil_conv)

lemma compile_first:
  "compile ix e s = Inl err \<Longrightarrow> robdd_ok s \<Longrightarrow> dom ix = set vo \<Longrightarrow> \<exists>rest. obstacles vo e = err # rest"
  "compile_reduce ix op acc as s = Inl err \<Longrightarrow> robdd_ok s \<Longrightarrow> valid s acc \<Longrightarrow> dom ix = set vo \<Longrightarrow>
    \<exists>rest. concat (map (obstacles vo) as) = err # rest"
proof (induction ix e s and ix op acc as s arbitrary: err and err rule: compile_compile_reduce.induct)
  case (4 ix i n s)
  show ?case
  proof (cases "compile ix n s")
    case (Inr p)
    note ok = compile_Inr(1) [OF Inr]
    obtain r s1 where *: "compile ix n s = Inr (r, s1)" "built s s1 r (\<lambda>\<sigma>. holds undefined (at_index ix \<sigma>) n)"
      using compile_correct(1) [OF "4.prems"(2)] ok by blast
    then have "\<exists>q. neg r s1 = Some q"
      using bdd.neg_law [of s1 r] by (auto simp: built_def)
    then show ?thesis using * "4.prems" by (auto simp: lift_bdd_def)
  qed (use 4 in auto)
next
  case (10 ix op acc x xs s)
  show ?case
  proof (cases "compile ix x s")
    case (Inr p)
    note ok = compile_Inr(1) [OF Inr]
    have none: "obstacles vo x = []" using ok "10.prems"(4) by (simp add: obstacles_Nil)
    obtain i s1 where 1: "compile ix x s = Inr (i, s1)"
      "built s s1 i (\<lambda>\<sigma>. holds undefined (at_index ix \<sigma>) x)"
      using compile_correct(1) [OF "10.prems"(2)] ok by blast
    obtain acc' s2 where 2: "bdd_apply op acc i s1 = Some (acc', s2)" "robdd_ok s2" "valid s2 acc'"
      using bdd.apply_after [OF "10.prems"(2,3) refl, of s1 i _ op] 1(2) unfolding built_def by blast
    have lift: "lift_bdd (bdd_apply op acc i s1) = Inr (acc', s2)" by (simp add: 2 lift_bdd_def)
    then have "compile_reduce ix op acc' xs s2 = Inl err" using "10.prems"(1) 1(1) by simp
    from "10.IH"(2) [OF 1(1) refl lift refl this 2(2,3) "10.prems"(4)] show ?thesis by (simp add: none)
  next
    case (Inl e)
    then have "err = e" using "10.prems"(1) by simp
    with "10.IH"(1) [OF Inl "10.prems"(2,4)] show ?thesis by auto
  qed
next
  case (5 ix i as s)
  then show ?case using valid_terminals [OF "5.prems"(2)] by simp
next
  case (6 ix i as s)
  then show ?case using valid_terminals [OF "6.prems"(2)] by simp
qed (auto split: option.splits)

lemma no_internal_obstacle: "BddInternal \<notin> set (obstacles vo e)"
  by (induction e) auto

subsection \<open>A node and the condition on the variables it stands for\<close>

text \<open>
  \<open>depends_only V F\<close>: the condition \<open>F\<close> looks at the variables of \<open>V\<close> only. \<open>denotes_cond\<close>: node
  \<open>n\<close> is the diagram of \<open>F\<close> when variable \<open>u\<close> is read at its index.
\<close>

type_synonym cond = "(unique \<Rightarrow> bool) \<Rightarrow> bool"

definition depends_only :: "unique set \<Rightarrow> cond \<Rightarrow> bool" where
  "depends_only V F \<longleftrightarrow> (\<forall>\<rho> \<sigma>. (\<forall>u \<in> V. \<rho> u = \<sigma> u) \<longrightarrow> F \<rho> = F \<sigma>)"

definition denotes_cond :: "unique list \<Rightarrow> robdd \<Rightarrow> nat \<Rightarrow> cond \<Rightarrow> bool" where
  "denotes_cond vo s n F \<longleftrightarrow> robdd_ok s \<and> valid s n \<and> depends_only (set vo) F \<and>
     den s n = (\<lambda>\<sigma>. F (at_index (uniqueToVarIndex vo) \<sigma>))"

lemma index_nth:
  assumes "u \<in> set vo"
  shows "\<exists>i. uniqueToVarIndex vo u = Some i \<and> i < length vo \<and> vo ! i = u"
  using assms uniqueToVarIndex_Some dom_uniqueToVarIndex by (metis domD)

lemma at_index_nth: "u \<in> set vo \<Longrightarrow> at_index (uniqueToVarIndex vo) (\<lambda>i. \<rho> (vo ! i)) u = \<rho> u"
  using index_nth [of u vo] by (auto simp: at_index_def)

lemma denotes_cond_den:
  assumes "denotes_cond vo s n F"
  shows "den s n (\<lambda>i. \<rho> (vo ! i)) = F \<rho>"
  using assms at_index_nth [of _ vo \<rho>] by (simp add: denotes_cond_def depends_only_def)

lemma isDeterminedId_cond:
  assumes "denotes_cond vo s n F"
  shows "isDeterminedId n = Some b \<longleftrightarrow> (\<forall>\<rho>. F \<rho> = b)"
proof -
  have ok: "robdd_ok s" "valid s n" using assms by (auto simp: denotes_cond_def)
  note t = valid_terminals [OF ok(1)] and nok = robdd_okD(1) [OF ok(1)]
  have F: "F \<rho> = den s n (\<lambda>i. \<rho> (vo ! i))" for \<rho>
    using denotes_cond_den [OF assms] by simp
  have "n = (if b then TRUE else FALSE)" if "\<forall>\<rho>. F \<rho> = b"
  proof -
    have "den s n \<sigma> = b" for \<sigma>
      using assms that by (simp add: denotes_cond_def)
    then show ?thesis
      by (intro canonical [OF ok]) (use t nok in auto)
  qed
  moreover have "isDeterminedId n = Some b \<longleftrightarrow> n = (if b then TRUE else FALSE)"
    by (auto simp: isDeterminedId_def TRUE_def FALSE_def)
  moreover have "F \<rho> = b" if "n = (if b then TRUE else FALSE)" for \<rho>
    using that F [of \<rho>] nok by (simp split: if_splits)
  ultimately show ?thesis
    by blast
qed

lemma depends_on_cond:
  assumes "denotes_cond vo s n F"
  shows "depends_on (den s n) i \<longleftrightarrow>
    (\<exists>u. uniqueToVarIndex vo u = Some i \<and> depends_on F u)"
proof
  let ?ix = "uniqueToVarIndex vo"
  have F: "den s n \<sigma> = F (at_index ?ix \<sigma>)" and V: "depends_only (set vo) F" for \<sigma>
    using assms by (auto simp: denotes_cond_def)
  assume "depends_on (den s n) i"
  then obtain \<sigma> where ne: "F (at_index ?ix (\<sigma>(i := True))) \<noteq> F (at_index ?ix (\<sigma>(i := False)))"
    by (auto simp: depends_on_def F)
  then obtain w where "w \<in> set vo" "at_index ?ix (\<sigma>(i := True)) w \<noteq> at_index ?ix (\<sigma>(i := False)) w"
    using V unfolding depends_only_def by blast
  then have w: "?ix w = Some i"
    using index_nth [of w vo] by (auto simp: at_index_def split: if_splits)
  have "at_index ?ix (\<sigma>(i := b)) u = ((at_index ?ix \<sigma>)(w := b)) u" if "u \<in> set vo" for u b
    using index_nth [OF that] uniqueToVarIndex_Some [OF w] w by (auto simp: at_index_def)
  then have "F (at_index ?ix (\<sigma>(i := b))) = F ((at_index ?ix \<sigma>)(w := b))" for b
    using V unfolding depends_only_def by blast
  then show "\<exists>u. ?ix u = Some i \<and> depends_on F u"
    using ne w unfolding depends_on_def by blast
next
  let ?ix = "uniqueToVarIndex vo"
  assume "\<exists>u. ?ix u = Some i \<and> depends_on F u"
  then obtain u \<rho> where u: "?ix u = Some i" and ne: "F (\<rho>(u := True)) \<noteq> F (\<rho>(u := False))"
    by (auto simp: depends_on_def)
  have F: "den s n \<sigma> = F (at_index ?ix \<sigma>)" and V: "depends_only (set vo) F" for \<sigma>
    using assms by (auto simp: denotes_cond_def)
  have "at_index ?ix ((\<lambda>j. \<rho> (vo ! j))(i := b)) w = (\<rho>(u := b)) w" if "w \<in> set vo" for w b
    using index_nth [OF that] uniqueToVarIndex_Some [OF u] u by (auto simp: at_index_def)
  then have "F (at_index ?ix ((\<lambda>j. \<rho> (vo ! j))(i := b))) = F (\<rho>(u := b))" for b
    using V unfolding depends_only_def by blast
  then show "depends_on (den s n) i"
    using ne F unfolding depends_on_def by metis
qed

lemma depends_only_on:
  assumes "depends_only V F" "depends_on F u"
  shows "u \<in> V"
  using assms unfolding depends_only_def depends_on_def by (metis fun_upd_apply)


subsection \<open>Restriction, support and impact in terms of the condition\<close>

lemma denotes_cond_kept:
  "denotes_cond vo s n F \<Longrightarrow> robdd_ok s' \<Longrightarrow> ext s s' \<Longrightarrow> denotes_cond vo s' n F"
  using bdd.denotes_kept [of s s' n] bdd.node_kept [of s s' n] by (auto simp: denotes_cond_def)

lemma idxBindings_snoc:
  "idxBindings ix (bs @ [(u, b)]) =
    (case ix u of None \<Rightarrow> idxBindings ix bs | Some i \<Rightarrow> jm_set i b (idxBindings ix bs))"
  by (cases "ix u") (simp_all add: idxBindings_def)

lemma jm_wf_idxBindings: "jm_wf (idxBindings ix bs)"
proof (induction bs rule: rev_induct)
  case (snoc ub bs)
  then show ?case
    by (cases ub) (auto simp: idxBindings_snoc split: option.splits)
qed (simp add: idxBindings_def)

lemma jm_get_idxBindings:
  "jm_wf bs \<Longrightarrow> uniqueToVarIndex vo u = Some i \<Longrightarrow>
    jm_get (idxBindings (uniqueToVarIndex vo) bs) i = jm_get bs u"
proof (induction bs rule: rev_induct)
  case (snoc wb bs)
  obtain w b where wb: "wb = (w, b)" by fastforce
  have "w \<notin> fst ` set bs" using snoc.prems(1) wb by (auto simp: jm_wf_def)
  then have get: "jm_get (bs @ [wb]) u = (if u = w then Some b else jm_get bs u)"
    using wb map_of_eq_None_iff [of bs w] by (cases "u = w") (simp_all add: map_add_def split: option.split)
  have "jm_wf bs" using snoc.prems(1) by (simp add: jm_wf_def)
  note IH = snoc.IH [OF this snoc.prems(2)]
  have "j = i \<longleftrightarrow> w = u" if "uniqueToVarIndex vo w = Some j" for j
    using that snoc.prems(2) uniqueToVarIndex_Some by (metis option.inject)
  then show ?case
    using IH get snoc.prems(2) wb by (auto simp: idxBindings_snoc js_simps split: option.splits)
qed (simp add: idxBindings_def)

lemma at_index_override:
  assumes "\<And>u i. uniqueToVarIndex vo u = Some i \<Longrightarrow> jm_get m i = jm_get bs u" and "u \<in> set vo"
  shows "at_index (uniqueToVarIndex vo) (override m \<sigma>) u = override bs (at_index (uniqueToVarIndex vo) \<sigma>) u"
  using index_nth [OF assms(2)] assms(1) by (auto simp: at_index_def override_def split: option.splits)

lemma restrict_cond:
  assumes n: "denotes_cond vo s n F" and m: "jm_wf m"
    and bs: "\<And>u i. uniqueToVarIndex vo u = Some i \<Longrightarrow> jm_get m i = jm_get bs u"
  shows "\<exists>r s'. bdd_restrict n m s = Some (r, s') \<and> ext s s' \<and>
    denotes_cond vo s' r (\<lambda>\<rho>. F (override bs \<rho>))"
proof -
  have ok: "robdd_ok s" "valid s n" "depends_only (set vo) F"
    using n by (auto simp: denotes_cond_def)
  obtain r s' where r: "bdd_restrict n m s = Some (r, s')" "robdd_ok s'" "ext s s'" "valid s' r"
      "den s' r = (\<lambda>\<sigma>. den s n (override m \<sigma>))"
    using restrict_yields [OF ok(1,2) m] by (auto simp: yields_def)
  have "F (at_index (uniqueToVarIndex vo) (override m \<sigma>)) =
      F (override bs (at_index (uniqueToVarIndex vo) \<sigma>))" for \<sigma>
    using ok(3) at_index_override [OF bs] unfolding depends_only_def by blast
  moreover have "depends_only (set vo) (\<lambda>\<rho>. F (override bs \<rho>))"
    using ok(3) by (simp add: depends_only_def override_def split: option.splits)
  ultimately show ?thesis
    using r n by (simp add: denotes_cond_def)
qed

definition outcome_of :: "cond \<Rightarrow> outcome" where
  "outcome_of F =
     \<lparr>o_determined = (if \<forall>\<rho>. F \<rho> then Some True else if \<forall>\<rho>. \<not> F \<rho> then Some False else None),
      o_support = sorted_list_of_set {u. depends_on F u}\<rparr>"

lemma isDeterminedId_outcome:
  assumes "denotes_cond vo s n F"
  shows "isDeterminedId n = o_determined (outcome_of F)"
proof (cases "isDeterminedId n")
  case None
  then show ?thesis
    using isDeterminedId_cond [OF assms, of True] isDeterminedId_cond [OF assms, of False]
    by (simp add: outcome_of_def)
next
  case (Some b)
  then show ?thesis
    using isDeterminedId_cond [OF assms, of b] by (cases b) (simp_all add: outcome_of_def)
qed

lemma supportFromRestricted_cond:
  assumes n: "denotes_cond vo s n F"
  shows "supportFromRestricted vo s n = Some (o_support (outcome_of F))"
proof -
  have ok: "robdd_ok s" "valid s n" using n by (auto simp: denotes_cond_def)
  obtain vs where vs: "support s n = Some vs" "set vs = bdd_vars (nodes s) n"
    by (rule support_correct [OF ok])
  let ?xs = "uniqSorted (map (\<lambda>i. vo ! i) (filter (\<lambda>i. i < length vo) vs))"
  have mem: "i \<in> set vs \<longleftrightarrow> (\<exists>u. uniqueToVarIndex vo u = Some i \<and> depends_on F u)" for i
    using vs(2) bdd_vars_depends [OF ok] depends_on_cond [OF n] by auto
  have "set ?xs = {u. depends_on F u}"
  proof (intro set_eqI iffI)
    fix u assume "u \<in> set ?xs"
    then obtain i where i: "i \<in> set vs" "u = vo ! i" by auto
    then obtain w where w: "uniqueToVarIndex vo w = Some i" "depends_on F w" using mem by blast
    then show "u \<in> {u. depends_on F u}" using i uniqueToVarIndex_Some [OF w(1)] by simp
  next
    fix u assume "u \<in> {u. depends_on F u}"
    moreover from this have "u \<in> set vo"
      using n depends_only_on by (auto simp: denotes_cond_def)
    ultimately show "u \<in> set ?xs" using index_nth [of u vo] mem by force
  qed
  then have "?xs = sorted_list_of_set {u. depends_on F u}"
    by (metis distinct_uniqSorted sorted_list_of_set.idem_if_sorted_distinct sorted_uniqSorted)
  then show ?thesis
    using vs(1) by (simp add: supportFromRestricted_def outcome_of_def)
qed

lemma outcomeFromRestricted_cond:
  "denotes_cond vo s n F \<Longrightarrow> outcomeFromRestricted vo s n = Some (outcome_of F)"
  using supportFromRestricted_cond isDeterminedId_outcome by (simp add: outcomeFromRestricted_def)

lemma override_single: "override [(u, b)] \<rho> = \<rho>(u := b)"
  by (auto simp: override_def fun_eq_iff)

definition impact_of :: "cond \<Rightarrow> unique \<Rightarrow> var_impact" where
  "impact_of F u = \<lparr>ifTrue = outcome_of (\<lambda>\<rho>. F (\<rho>(u := True))),
                    ifFalse = outcome_of (\<lambda>\<rho>. F (\<rho>(u := False)))\<rparr>"

lemma restrict_one:
  assumes n: "denotes_cond vo s n F" and u: "uniqueToVarIndex vo u = Some i"
  shows "\<exists>r s'. bdd_restrict n [(i, b)] s = Some (r, s') \<and> ext s s' \<and>
    denotes_cond vo s' r (\<lambda>\<rho>. F (\<rho>(u := b)))"
proof -
  have get: "jm_get [(i, b)] j = jm_get [(u, b)] w" if "uniqueToVarIndex vo w = Some j" for w j
    using that u uniqueToVarIndex_Some [OF u] uniqueToVarIndex_Some [OF that] by auto
  show ?thesis
    using restrict_cond [OF n, of "[(i, b)]" "[(u, b)]", OF _ get]
    by (simp add: jm_wf_def override_single)
qed

lemma impact_loop_correct:
  "denotes_cond (varOrder c) s r F \<Longrightarrow> varIndex c = uniqueToVarIndex (varOrder c) \<Longrightarrow>
    set us \<subseteq> set (varOrder c) \<Longrightarrow>
    \<exists>imps' s'. impact_loop c r us imps s = Some (imps', s') \<and> ext s s' \<and> robdd_ok s' \<and>
      (\<forall>u. jm_get imps' u = (if u \<in> set us then Some (impact_of F u) else jm_get imps u))"
proof (induction c r us imps s rule: impact_loop.induct)
  case (1 c r imps s)
  then show ?case by (auto simp: denotes_cond_def)
next
  case (2 c r u us imps s)
  note n = "2.prems"(1) and ix = "2.prems"(2)
  obtain i where i: "uniqueToVarIndex (varOrder c) u = Some i"
    using "2.prems"(3) index_nth [of u "varOrder c"] by auto
  obtain t s1 where 1: "bdd_restrict r [(i, True)] s = Some (t, s1)" "ext s s1"
      "denotes_cond (varOrder c) s1 t (\<lambda>\<rho>. F (\<rho>(u := True)))"
    using restrict_one [OF n i] by blast
  then have ok1: "robdd_ok s1" by (simp add: denotes_cond_def)
  obtain f s2 where 2: "bdd_restrict r [(i, False)] s1 = Some (f, s2)" "ext s1 s2"
      "denotes_cond (varOrder c) s2 f (\<lambda>\<rho>. F (\<rho>(u := False)))"
    using restrict_one [OF denotes_cond_kept [OF n ok1 1(2)] i] by blast
  then have ok2: "robdd_ok s2" by (simp add: denotes_cond_def)
  have s2: "ext s s2" by (rule bdd.extends_trans [OF 1(2) 2(2)])
  note out = outcomeFromRestricted_cond [OF denotes_cond_kept [OF 1(3) ok2 2(2)]]
    outcomeFromRestricted_cond [OF 2(3)]
  have loop: "impact_loop c r (u # us) imps s =
      impact_loop c r us (jm_set u (impact_of F u) imps) s2"
    using i ix 1(1) 2(1) out by (simp add: impact_of_def)
  have "\<exists>imps' s'. impact_loop c r us (jm_set u (impact_of F u) imps) s2 = Some (imps', s') \<and>
      ext s2 s' \<and> robdd_ok s' \<and> (\<forall>w. jm_get imps' w =
        (if w \<in> set us then Some (impact_of F w) else jm_get (jm_set u (impact_of F u) imps) w))"
    unfolding impact_of_def [of F u]
    by (rule "2.IH"(2) [OF _ 1(1) refl 2(1) refl out denotes_cond_kept [OF n ok2 s2] ix])
      (use i ix "2.prems"(3) in auto)
  then obtain imps' s' where 3: "impact_loop c r (u # us) imps s = Some (imps', s')"
      "ext s2 s'" "robdd_ok s'" "\<forall>w. jm_get imps' w =
        (if w \<in> set us then Some (impact_of F w) else jm_get (jm_set u (impact_of F u) imps) w)"
    unfolding loop by blast
  have "\<forall>w. jm_get imps' w = (if w \<in> set (u # us) then Some (impact_of F w) else jm_get imps w)"
    using 3(4) by (auto simp: js_simps)
  then show ?case
    using bdd.extends_trans [OF s2 3(2)] 3(1,3) by blast
qed


subsection \<open>Compiled queries\<close>

text \<open>
  \<open>compiled_for e c\<close>: \<open>c\<close> is what compiling \<open>e\<close> gave, after any number of queries on it. The
  code's queries share one diagram store, so each may add nodes and memo entries to it.
\<close>

inductive compiled_for :: "irexpr \<Rightarrow> compiled \<Rightarrow> bool" where
  compiled: "compileDecisionQuery e given = Inr c \<Longrightarrow> compiled_for e c"
| queried: "compiled_for e c \<Longrightarrow> jm_wf bs \<Longrightarrow> query c bs = Some (res, c') \<Longrightarrow> compiled_for e c'"

definition compiled_ok :: "irexpr \<Rightarrow> compiled \<Rightarrow> bool" where
  "compiled_ok e c \<longleftrightarrow> \<not> has_app e \<and> varIndex c = uniqueToVarIndex (varOrder c) \<and>
     (\<forall>app. denotes_cond (varOrder c) (bdd c) (root c) (\<lambda>\<rho>. holds app \<rho> e))"

definition cond_given :: "(irid \<Rightarrow> bool list \<Rightarrow> bool) \<Rightarrow> irexpr \<Rightarrow> (unique, bool) jsmap \<Rightarrow> cond" where
  "cond_given app e bs = (\<lambda>\<rho>. holds app (override bs \<rho>) e)"

lemma new_compiled_ok:
  assumes "compileDecisionQuery e given = Inr c"
  shows "compiled_ok e c"
proof -
  obtain vo r s where c: "compile (uniqueToVarIndex vo) e new_robdd = Inr (r, s)"
      "c = \<lparr>varOrder = vo, varIndex = uniqueToVarIndex vo, bdd = s, root = r\<rparr>"
    using assms by (auto simp: compileDecisionQuery_def Let_def split: sum.splits option.splits)
  note fine = compile_Inr(1) [OF c(1)]
  have "built new_robdd s r (\<lambda>\<sigma>. holds app (at_index (uniqueToVarIndex vo) \<sigma>) e)" for app
    using compile_correct(1) [OF new_robdd_ok, of e "uniqueToVarIndex vo" app] fine c(1) by auto
  moreover have "depends_only (set vo) (\<lambda>\<rho>. holds app \<rho> e)" for app
    unfolding depends_only_def
    using fine dom_uniqueToVarIndex [of vo] by (auto intro!: holds_cong)
  ultimately have "denotes_cond vo s r (\<lambda>\<rho>. holds app \<rho> e)" for app
    unfolding denotes_cond_def built_def by blast
  then show ?thesis
    using fine c(2) by (simp add: compiled_ok_def)
qed

lemma query_correct:
  fixes app :: "irid \<Rightarrow> bool list \<Rightarrow> bool"
  assumes c: "compiled_ok e c" and bs: "jm_wf bs"
  defines "F \<equiv> cond_given app e bs"
  shows "\<exists>res c'. query c bs = Some (res, c') \<and> compiled_ok e c' \<and>
    determined res = o_determined (outcome_of F) \<and> qsupport res = o_support (outcome_of F) \<and>
    (\<forall>u. jm_get (impact res) u = (if depends_on F u then Some (impact_of F u) else None)) \<and>
    ranked res = rank (varIndex c) (qsupport res) (impact res) \<and>
    varIndex c' = varIndex c \<and> varOrder c' = varOrder c"
proof -
  have fine: "\<not> has_app e" and ix: "varIndex c = uniqueToVarIndex (varOrder c)"
    and root: "denotes_cond (varOrder c) (bdd c) (root c) (\<lambda>\<rho>. holds app' \<rho> e)" for app'
    using c by (auto simp: compiled_ok_def)
  obtain r s1 where 1: "bdd_restrict (root c) (idxBindings (varIndex c) bs) (bdd c) = Some (r, s1)"
      "ext (bdd c) s1" "denotes_cond (varOrder c) s1 r F"
    using restrict_cond [OF root [of app] jm_wf_idxBindings, of "varIndex c" bs bs]
      jm_get_idxBindings [OF bs] unfolding ix F_def cond_given_def by blast
  note supp = supportFromRestricted_cond [OF 1(3)]
  have "finite {u. depends_on F u}"
    using 1(3) depends_only_on by (auto simp: denotes_cond_def intro: finite_subset [OF _ finite_set])
  then have set_supp: "set (o_support (outcome_of F)) = {u. depends_on F u}"
    by (simp add: outcome_of_def)
  then have "set (o_support (outcome_of F)) \<subseteq> set (varOrder c)"
    using 1(3) depends_only_on by (auto simp: denotes_cond_def)
  from impact_loop_correct [OF 1(3) ix this, of "[]"] obtain imps s2 where
    2: "impact_loop c r (o_support (outcome_of F)) [] s1 = Some (imps, s2)" "ext s1 s2" "robdd_ok s2"
      "\<forall>u. jm_get imps u = (if depends_on F u then Some (impact_of F u) else None)"
    using set_supp by auto
  have "compiled_ok e (c\<lparr>bdd := s2\<rparr>)"
    using c denotes_cond_kept [OF root 2(3) bdd.extends_trans [OF 1(2) 2(2)]]
    by (simp add: compiled_ok_def)
  then show ?thesis
    using 1(1) supp 2(1,4) isDeterminedId_outcome [OF 1(3)] by (simp add: query_def)
qed

lemma compiled_for_ok: "compiled_for e c \<Longrightarrow> compiled_ok e c"
proof (induction rule: compiled_for.induct)
  case (queried e c bs res c')
  then show ?case
    using query_correct [OF queried.IH queried.hyps(2)] by auto
qed (rule new_compiled_ok)


subsection \<open>Ranking and errors\<close>

definition decided :: "cond \<Rightarrow> bool" where
  "decided F \<longleftrightarrow> (\<exists>b. \<forall>\<rho>. F \<rho> = b)"

text \<open>How many of a variable's two answers decide the condition.\<close>

definition decisive :: "cond \<Rightarrow> unique \<Rightarrow> nat" where
  "decisive F u = of_bool (decided (\<lambda>\<rho>. F (\<rho>(u := True)))) + of_bool (decided (\<lambda>\<rho>. F (\<rho>(u := False))))"

lemma o_determined_outcome_of: "o_determined (outcome_of F) \<noteq> None \<longleftrightarrow> decided F"
  unfolding outcome_of_def decided_def by (simp; metis)

lemma score_impact:
  assumes "jm_get imps u = Some (impact_of F u)" "ix u = Some i"
  shows "score ix imps u = (- int (decisive F u), i)"
  using assms o_determined_outcome_of by (simp add: score_def impact_of_def decisive_def Let_def)

lemma finite_depends:
  "depends_only V F \<Longrightarrow> finite V \<Longrightarrow> finite {u. depends_on F u}"
  using depends_only_on by (auto intro: finite_subset)

lemma cond_given_depends:
  assumes "compiled_ok e c"
  shows "depends_only (set (varOrder c)) (cond_given app e bs)"
proof -
  have "depends_only (set (varOrder c)) (\<lambda>\<rho>. holds app \<rho> e)"
    using assms by (auto simp: compiled_ok_def denotes_cond_def)
  then show ?thesis
    by (simp add: depends_only_def cond_given_def override_def split: option.split)
qed

lemma compileDecisionQuery_order:
  "compileDecisionQuery e given = Inr c \<Longrightarrow> (case given of None \<Rightarrow> collectVarOrder e | Some vo \<Rightarrow> Inr vo) = Inr (varOrder c)"
  unfolding compileDecisionQuery_def by (auto simp: Let_def split: sum.splits)

lemma compileDecisionQuery_outcome:
  assumes vo: "(case given of None \<Rightarrow> collectVarOrder e | Some vo \<Rightarrow> Inr vo) = Inr vo"
  shows "(\<exists>c. compileDecisionQuery e given = Inr c) \<longleftrightarrow> \<not> has_app e \<and> expr_vars e \<subseteq> set vo"
    and "compileDecisionQuery e given \<noteq> Inl BddInternal"
proof -
  let ?r = "compile (uniqueToVarIndex vo) e new_robdd"
  have "(\<exists>c. compileDecisionQuery e given = Inr c) \<longleftrightarrow> (\<exists>p. ?r = Inr p)"
    "compileDecisionQuery e given = Inl err \<longleftrightarrow> ?r = Inl err" for err
    unfolding compileDecisionQuery_def vo by (auto simp: Let_def split: sum.splits)
  moreover have "(\<exists>p. ?r = Inr p) \<longleftrightarrow> \<not> has_app e \<and> expr_vars e \<subseteq> set vo"
    using compile_Inr(1) [of "uniqueToVarIndex vo" e new_robdd]
      compile_correct(1) [OF new_robdd_ok, of e "uniqueToVarIndex vo"]
    by (simp add: dom_uniqueToVarIndex) blast
  moreover have "?r \<noteq> Inl BddInternal"
    using compile_first(1) [OF _ new_robdd_ok dom_uniqueToVarIndex, of vo e] no_internal_obstacle [of vo e] by fastforce
  ultimately show "(\<exists>c. compileDecisionQuery e given = Inr c) \<longleftrightarrow> \<not> has_app e \<and> expr_vars e \<subseteq> set vo"
    "compileDecisionQuery e given \<noteq> Inl BddInternal" by auto
qed

subsection \<open>Properties\<close>

text \<open>C4: however many queries were made before, a query returns without an internal error, leaves a
  compiled query for the same expression, and answers exactly: its outcome, its support and each
  variable's impact are those of the condition the expression is under the given answers.\<close>

theorem query_exact:
  fixes app :: "irid \<Rightarrow> bool list \<Rightarrow> bool"
  assumes "compiled_for e c" "jm_wf bs"
  shows "\<exists>res c'. query c bs = Some (res, c') \<and> compiled_for e c' \<and>
    determined res = o_determined (outcome_of (cond_given app e bs)) \<and>
    qsupport res = o_support (outcome_of (cond_given app e bs)) \<and>
    (\<forall>u. jm_get (impact res) u =
      (if depends_on (cond_given app e bs) u then Some (impact_of (cond_given app e bs) u) else None))"
  using query_correct [OF compiled_for_ok [OF assms(1)] assms(2), of app]
    compiled_for.queried [OF assms] by blast

text \<open>the variables are ranked in the order the user should be asked: the ranking is a permutation
  of the support in which a variable comes before another if more of its two answers decide the
  outcome, or as many do and it comes first in the variable order.\<close>

theorem query_ranked:
  fixes app :: "irid \<Rightarrow> bool list \<Rightarrow> bool"
  assumes "compiled_for e c" "jm_wf bs" "query c bs = Some (res, c')" "i < j" "j < length (ranked res)"
  shows "mset (ranked res) = mset (qsupport res) \<and>
    (let n = decisive (cond_given app e bs); u = ranked res ! i; v = ranked res ! j
     in n v < n u \<or> n v = n u \<and> the (varIndex c u) < the (varIndex c v))"
proof -
  let ?F = "cond_given app e bs" and ?k = "score (varIndex c) (impact res)"
  note ok = compiled_for_ok [OF assms(1)]
  have res: "qsupport res = o_support (outcome_of ?F)"
    "\<And>u. depends_on ?F u \<Longrightarrow> jm_get (impact res) u = Some (impact_of ?F u)"
    "ranked res = sort_key ?k (qsupport res)"
    using query_correct [OF ok assms(2), of app] assms(3) by (auto simp: rank_def)
  have supp: "set (qsupport res) = {u. depends_on ?F u}" "distinct (qsupport res)"
    using finite_depends [OF cond_given_depends [OF ok]] by (simp_all add: res(1) outcome_of_def)
  have score: "\<exists>i. ?k u = (- int (decisive ?F u), i) \<and> varIndex c u = Some i \<and> varOrder c ! i = u"
    if "u \<in> set (qsupport res)" for u
  proof -
    have "u \<in> set (varOrder c)"
      using that supp depends_only_on [OF cond_given_depends [OF ok]] by auto
    then show ?thesis
      using index_nth [of u "varOrder c"] ok that supp res(2) score_impact
      by (fastforce simp: compiled_ok_def)
  qed
  let ?u = "ranked res ! i" and ?v = "ranked res ! j"
  have "?u \<in> set (qsupport res)" "?v \<in> set (qsupport res)"
    using assms(4,5) nth_mem [of i "ranked res"] nth_mem [of j "ranked res"] by (simp_all add: res(3))
  from score [OF this(1)] score [OF this(2)] obtain a b where
    ab: "?k ?u = (- int (decisive ?F ?u), a)" "varIndex c ?u = Some a" "varOrder c ! a = ?u"
      "?k ?v = (- int (decisive ?F ?v), b)" "varIndex c ?v = Some b" "varOrder c ! b = ?v"
    by blast
  have "?u \<noteq> ?v"
    using assms(4,5) supp(2) by (simp add: nth_eq_iff_index_eq res(3))
  then have "a \<noteq> b" using ab by auto
  moreover have "?k ?u \<le> ?k ?v"
    using sorted_nth_mono [of "map ?k (ranked res)" i j] assms(4,5) by (simp add: res(3))
  ultimately show ?thesis
    using ab by (auto simp: res(3) Let_def)
qed

text \<open>C39: compiling throws exactly when it must, and the error names the first thing from the left that stands in the way: with a
  given variable order, a call or a variable that is not in the order; with none, the expression's own order is taken, which
  has each of its variables once, and only a call is in the way, by the error of the variable collector. It never fails
  otherwise.\<close>

theorem compile_outcome:
  "(case obstacles vo e of
      [] \<Rightarrow> \<exists>c. compileDecisionQuery e (Some vo) = Inr c \<and> varOrder c = vo
    | err # _ \<Rightarrow> compileDecisionQuery e (Some vo) = Inl err) \<and>
   (if has_app e then compileDecisionQuery e None = Inl AppNodesUnsupported
    else \<exists>c. compileDecisionQuery e None = Inr c \<and> distinct (varOrder c) \<and> set (varOrder c) = expr_vars e)"
proof
  show "case obstacles vo e of
      [] \<Rightarrow> \<exists>c. compileDecisionQuery e (Some vo) = Inr c \<and> varOrder c = vo
    | err # _ \<Rightarrow> compileDecisionQuery e (Some vo) = Inl err"
  proof (cases "obstacles vo e")
    case Nil
    then have "\<exists>c. compileDecisionQuery e (Some vo) = Inr c"
      using compileDecisionQuery_outcome(1) [of e "Some vo" vo] by (simp add: obstacles_Nil)
    then show ?thesis using Nil compileDecisionQuery_order [of e "Some vo"] by auto
  next
    case (Cons err rest)
    then have "\<not> (\<exists>c. compileDecisionQuery e (Some vo) = Inr c)"
      using compileDecisionQuery_outcome(1) [of e "Some vo" vo] obstacles_Nil [of vo e] by auto
    then obtain err' where err': "compileDecisionQuery e (Some vo) = Inl err'" by (cases "compileDecisionQuery e (Some vo)") auto
    then have "compile (uniqueToVarIndex vo) e new_robdd = Inl err'"
      by (auto simp: compileDecisionQuery_def Let_def split: sum.splits)
    from compile_first(1) [OF this new_robdd_ok, of vo] show ?thesis using Cons err' by (simp add: dom_uniqueToVarIndex)
  qed
  show "if has_app e then compileDecisionQuery e None = Inl AppNodesUnsupported
    else \<exists>c. compileDecisionQuery e None = Inr c \<and> distinct (varOrder c) \<and> set (varOrder c) = expr_vars e"
  proof (cases "has_app e")
    case True
    then show ?thesis by (simp add: compileDecisionQuery_def collectVarOrder_correct(1))
  next
    case False
    then obtain own where own: "collectVarOrder e = Inr own" "set own = expr_vars e" "distinct own"
      using collectVarOrder_correct(2) by blast
    then obtain c where "compileDecisionQuery e None = Inr c"
      using compileDecisionQuery_outcome(1) [of e None own] False by auto
    then show ?thesis using False own compileDecisionQuery_order [of e None] by auto
  qed
qed

subsection \<open>Witnesses\<close>

definition dq_var :: "nat \<Rightarrow> unique \<Rightarrow> irexpr" where
  "dq_var i u = UBoolVar i \<lparr>unique_of = u, label = ''v''\<rparr> UnknownV False ''''"

definition dq_example :: irexpr where
  "dq_example = And 0 [dq_var 1 7, Or 2 [dq_var 3 8, dq_var 4 9], InertE 5 ''provided'' InertAnd]"

lemma dq_example_compiles: "\<exists>c. compileDecisionQuery dq_example (Some [9, 7, 8]) = Inr c"
  using compileDecisionQuery_outcome(1) [of dq_example "Some [9, 7, 8]" "[9, 7, 8]"]
  by (simp add: dq_example_def dq_var_def)

theorem query_exact_witness:
  "\<exists>c res c'. compileDecisionQuery dq_example (Some [9, 7, 8]) = Inr c \<and>
    query c [(7, False)] = Some (res, c') \<and> determined res = Some False"
proof -
  obtain c where c: "compileDecisionQuery dq_example (Some [9, 7, 8]) = Inr c"
    using dq_example_compiles by blast
  show ?thesis
    using query_exact [OF compiled_for.compiled [OF c], of "[(7, False)]" "\<lambda>_ _. False"] c
    by (fastforce simp: jm_wf_def outcome_of_def cond_given_def override_def dq_example_def dq_var_def)
qed

definition dq_compiled :: compiled where
  "dq_compiled = projr (compileDecisionQuery dq_example (Some [9, 7, 8]))"

lemma dq_compiled_for: "compiled_for dq_example dq_compiled"
  using dq_example_compiles compiled_for.compiled by (auto simp: dq_compiled_def)

lemma dq_ranked: "map_option (\<lambda>(res, _). ranked res) (query dq_compiled []) = Some [7, 9, 8]"
  by code_simp

theorem query_ranked_witness:
  "\<exists>res c'. query dq_compiled [] = Some (res, c') \<and> ranked res = [7, 9, 8] \<and>
    (let n = decisive (cond_given (\<lambda>_ _. False) dq_example [])
     in n 9 < n 7 \<or> n 9 = n 7 \<and> the (varIndex dq_compiled 7) < the (varIndex dq_compiled 9))"
proof -
  obtain res c' where r: "query dq_compiled [] = Some (res, c')" "ranked res = [7, 9, 8]"
    using dq_ranked by auto
  show ?thesis
    using query_ranked [OF dq_compiled_for _ r(1), of 0 1 "\<lambda>_ _. False"] r by (simp add: Let_def)
qed

end
