(* ===== verification/PartialEval.thy ===== *)
theory PartialEval
  imports LadderEval DecisionQuery
begin

text \<open>
  The analysis behind the ladder's questions:
  \<^verbatim>\<open>ts-shared/l4-ladder-visualizer/src/lib/eval/partial-eval.ts\<close>.

  \<open>analyzer\<close> is the state of a \<^verbatim>\<open>PartialEvalAnalyzer\<close>. \<open>analyze\<close> returns it updated, because the
  compiled query keeps its diagram store; \<open>None\<close> is a throw: an internal error of that store, or an
  evaluation result that is \<^verbatim>\<open>undefined\<close>. Text is a list
  of UTF-16 code units, as the connectives are outside the 8-bit characters of \<open>string\<close>.
\<close>

subsection \<open>Restriction\<close>

fun is_TrueE :: "irexpr \<Rightarrow> bool" where
  "is_TrueE (TrueE _ _) = True"
| "is_TrueE _ = False"

fun is_FalseE :: "irexpr \<Rightarrow> bool" where
  "is_FalseE (FalseE _ _) = True"
| "is_FalseE _ = False"

fun restrictExpr :: "irexpr \<Rightarrow> assignment \<Rightarrow> irexpr" where
  "restrictExpr (UBoolVar i nm v inl atom) a =
     (case assign_get a (unique_of nm) of
        None \<Rightarrow> UBoolVar i nm v inl atom
      | Some TrueV \<Rightarrow> TrueE i None
      | Some FalseV \<Rightarrow> FalseE i None
      | Some UnknownV \<Rightarrow> UBoolVar i nm v inl atom)"
| "restrictExpr (TrueE i nm) a = TrueE i nm"
| "restrictExpr (FalseE i nm) a = FalseE i nm"
| "restrictExpr (Not i n) a =
     (case restrictExpr n a of
        TrueE _ _ \<Rightarrow> FalseE i None
      | FalseE _ _ \<Rightarrow> TrueE i None
      | Not _ nn \<Rightarrow> nn
      | inner \<Rightarrow> Not i inner)"
| "restrictExpr (And i as) a =
     (let args = map (\<lambda>x. restrictExpr x a) as
      in if \<exists>x \<in> set args. is_FalseE x then FalseE i None
         else (case filter (\<lambda>x. \<not> is_TrueE x) args of
                 [] \<Rightarrow> TrueE i None
               | [x] \<Rightarrow> x
               | filtered \<Rightarrow> And i filtered))"
| "restrictExpr (Or i as) a =
     (let args = map (\<lambda>x. restrictExpr x a) as
      in if \<exists>x \<in> set args. is_TrueE x then TrueE i None
         else (case filter (\<lambda>x. \<not> is_FalseE x) args of
                 [] \<Rightarrow> FalseE i None
               | [x] \<Rightarrow> x
               | filtered \<Rightarrow> Or i filtered))"
| "restrictExpr (App i nm as atom) a = App i nm (map (\<lambda>x. restrictExpr x a) as) atom"
| "restrictExpr (InertE i t c) a = InertE i t c"

subsection \<open>Text\<close>

fun exprToText :: "irexpr \<Rightarrow> text16" where
  "exprToText (TrueE _ _) = ascii ''TRUE''"
| "exprToText (FalseE _ _) = ascii ''FALSE''"
| "exprToText (UBoolVar _ nm _ _ _) = ascii (label nm)"
| "exprToText (Not _ n) = [0xAC] @ ascii ''('' @ exprToText n @ ascii '')''"
| "exprToText (And _ as) = ascii ''('' @ join (ascii '' '' @ [0x2227] @ ascii '' '') (map exprToText as) @ ascii '')''"
| "exprToText (Or _ as) = ascii ''('' @ join (ascii '' '' @ [0x2228] @ ascii '' '') (map exprToText as) @ ascii '')''"
| "exprToText (App _ nm as _) = ascii (label nm) @ ascii ''('' @ join (ascii '', '') (map exprToText as) @ ascii '')''"
| "exprToText (InertE _ t _) = ascii ''... '' @ [34] @ ascii t @ [34]"

subsection \<open>What the constructor collects\<close>

fun pe_collectVarOrder_go :: "irexpr \<Rightarrow> unique list \<Rightarrow> unique list" where
  "pe_collectVarOrder_go (UBoolVar _ nm _ _ _) out = set_add (unique_of nm) out"
| "pe_collectVarOrder_go (Not _ n) out = pe_collectVarOrder_go n out"
| "pe_collectVarOrder_go (And _ as) out = fold pe_collectVarOrder_go as out"
| "pe_collectVarOrder_go (Or _ as) out = fold pe_collectVarOrder_go as out"
| "pe_collectVarOrder_go (App _ _ as _) out = fold pe_collectVarOrder_go as out"
| "pe_collectVarOrder_go _ out = out"

definition pe_collectVarOrder :: "irexpr \<Rightarrow> unique list" where
  "pe_collectVarOrder e = pe_collectVarOrder_go e []"

fun containsApp_go :: "irexpr \<Rightarrow> bool \<Rightarrow> bool" where
  "containsApp_go (App _ _ _ _) found = True"
| "containsApp_go (Not _ n) found = (if found then True else containsApp_go n found)"
| "containsApp_go (And _ as) found = (if found then True else fold containsApp_go as found)"
| "containsApp_go (Or _ as) found = (if found then True else fold containsApp_go as found)"
| "containsApp_go _ found = found"

definition containsApp :: "irexpr \<Rightarrow> bool" where
  "containsApp e = containsApp_go e False"

text \<open>The memo tables are filled children first, and a node whose id is in the table is not visited.\<close>

fun subtreeVars_go :: "irexpr \<Rightarrow> (irid, unique list) jsmap \<Rightarrow> unique list \<times> (irid, unique list) jsmap"
and subtreeVars_list :: "irexpr list \<Rightarrow> (irid, unique list) jsmap \<Rightarrow> unique list list \<times> (irid, unique list) jsmap" where
  "subtreeVars_go e memo =
     (case jm_get memo (expr_id e) of
        Some existing \<Rightarrow> (existing, memo)
      | None \<Rightarrow>
          let (vars, memo') =
            (case e of
               UBoolVar _ nm _ _ _ \<Rightarrow> ([unique_of nm], memo)
             | Not _ n \<Rightarrow> (let (v, m) = subtreeVars_go n memo in (set_of v, m))
             | And _ as \<Rightarrow> (let (vs, m) = subtreeVars_list as memo in (unionSets vs, m))
             | Or _ as \<Rightarrow> (let (vs, m) = subtreeVars_list as memo in (unionSets vs, m))
             | App _ _ as _ \<Rightarrow> (let (vs, m) = subtreeVars_list as memo in (unionSets vs, m))
             | _ \<Rightarrow> ([], memo))
          in (vars, jm_set (expr_id e) vars memo'))"
| "subtreeVars_list [] memo = ([], memo)"
| "subtreeVars_list (x # xs) memo =
     (let (v, m1) = subtreeVars_go x memo; (vs, m2) = subtreeVars_list xs m1 in (v # vs, m2))"

definition collectSubtreeVars :: "irexpr \<Rightarrow> (irid, unique list) jsmap" where
  "collectSubtreeVars e = snd (subtreeVars_go e [])"

function subtreeIds_go :: "irexpr \<Rightarrow> (irid, irid list) jsmap \<Rightarrow> irid list \<times> (irid, irid list) jsmap"
and subtreeIds_list :: "irexpr list \<Rightarrow> irid list \<Rightarrow> (irid, irid list) jsmap \<Rightarrow> irid list \<times> (irid, irid list) jsmap" where
  "subtreeIds_go e memo =
     (case jm_get memo (expr_id e) of
        Some existing \<Rightarrow> (existing, memo)
      | None \<Rightarrow>
          let (out, memo') = subtreeIds_list (children e) [expr_id e] memo
          in (out, jm_set (expr_id e) out memo'))"
| "subtreeIds_list [] out memo = (out, memo)"
| "subtreeIds_list (c # cs) out memo =
     (let (cids, m) = subtreeIds_go c memo in subtreeIds_list cs (set_union out cids) m)"
  by pat_completeness auto
termination
proof (relation "measure (\<lambda>x. case x of Inl (e, _) \<Rightarrow> 2 * size e + 1 | Inr (cs, _, _) \<Rightarrow> 2 * size_list size cs)")
qed (auto simp: less_Suc_eq_le children_size_list)

definition collectSubtreeIds :: "irexpr \<Rightarrow> (irid, irid list) jsmap" where
  "collectSubtreeIds e = snd (subtreeIds_go e [])"

function parentMap_go :: "irexpr \<Rightarrow> irid option \<Rightarrow> (irid, irid option) jsmap \<Rightarrow> (irid, irid option) jsmap" where
  "parentMap_go e p parent =
     (let parent' = (if jm_get parent (expr_id e) = None then jm_set (expr_id e) p parent else parent)
      in fold (\<lambda>c. parentMap_go c (Some (expr_id e))) (children e) parent')"
  by pat_completeness auto
termination
  by (relation "measure (\<lambda>(e, _, _). size e)") (auto dest: children_size)

definition collectParentMap :: "irexpr \<Rightarrow> (irid, irid option) jsmap" where
  "collectParentMap e = parentMap_go e None []"

declare subtreeVars_go.simps [simp del] subtreeIds_go.simps [simp del] parentMap_go.simps [simp del]

subsection \<open>The analyzer\<close>

record analyzer =
  an_expr :: irexpr
  allVarsInOrder :: "unique list"
  subtreeVars :: "(irid, unique list) jsmap"
  subtreeIds :: "(irid, irid list) jsmap"
  parentMap :: "(irid, irid option) jsmap"
  usedBdd :: bool
  an_compiled :: "compiled option"

definition new_analyzer :: "irexpr \<Rightarrow> unique list option \<Rightarrow> dq_error + analyzer" where
  "new_analyzer e given =
     (let order = (case given of None \<Rightarrow> pe_collectVarOrder e | Some vo \<Rightarrow> vo);
          base = \<lparr>an_expr = e, allVarsInOrder = order, subtreeVars = collectSubtreeVars e,
            subtreeIds = collectSubtreeIds e, parentMap = collectParentMap e,
            usedBdd = False, an_compiled = None\<rparr>
      in if containsApp e then Inr base
         else (case compileDecisionQuery e (Some order) of
                 Inl err \<Rightarrow> Inl err
               | Inr c \<Rightarrow> Inr (base\<lparr>usedBdd := True, an_compiled := Some c\<rparr>)))"

datatype relevance = Unknown | Determined | Relevant | Irrelevant | ShortCircuited

record elicitation_ask =
  ask_container :: string
  ask_path :: "string list"
  ask_label :: string
  ask_schemaSummary :: "string option"

record analysis =
  overallResult :: js_val
  isDetermined :: bool
  notAsked :: "unique list"
  next_asked :: "unique list"
  stillNeeded :: "unique list"
  dontCare :: "unique list"
  ranked_needed :: "unique list"
  askByUnique :: "(unique, elicitation_ask list) jsmap"
  nodeRelevance :: "(irid, relevance) jsmap"
  irrelevantRootIds :: "irid list"
  an_consultedUniques :: "unique list"
  an_shortCircuitedRoots :: "irid list"
  shortCircuitedNodeIds :: "irid list"
  restrictedExpr :: irexpr
  restrictedExprText :: text16
  bddStats :: "(nat \<times> nat) option"
  an_usedBdd :: bool
  declined :: "string option"

definition isDeterminedValue :: "ubool \<Rightarrow> bool" where
  "isDeterminedValue v \<longleftrightarrow> v = TrueV \<or> v = FalseV"

definition knownBindings :: "assignment \<Rightarrow> (unique, bool) jsmap" where
  "knownBindings a =
     foldl (\<lambda>m (u, v). if v = TrueV then jm_set u True m else if v = FalseV then jm_set u False m else m)
       [] (getEntries a)"

definition isNotAsked :: "assignment \<Rightarrow> unique \<Rightarrow> bool" where
  "isNotAsked a u \<longleftrightarrow> assign_get a u = None \<or> assign_get a u = Some UnknownV"

definition expandRoots :: "(irid, irid list) jsmap \<Rightarrow> irid list \<Rightarrow> irid list" where
  "expandRoots idsOf roots =
     foldl (\<lambda>acc r. case jm_get idsOf r of None \<Rightarrow> acc | Some cids \<Rightarrow> set_union acc cids) [] roots"

definition relevanceOf :: "irid list \<Rightarrow> value_map \<Rightarrow> unique list \<Rightarrow> irid \<Rightarrow> unique list \<Rightarrow> relevance" where
  "relevanceOf scIds im supp nodeId vars =
     (if nodeId \<in> set scIds then ShortCircuited
      else case im nodeId of
        Some (Some v) \<Rightarrow>
          if isDeterminedValue v then Determined
          else if set vars \<inter> set supp = {} then Irrelevant else Relevant
      | _ \<Rightarrow> if set vars \<inter> set supp = {} then Irrelevant else Relevant)"

definition irrelevantRoots :: "(irid, irid option) jsmap \<Rightarrow> (irid, relevance) jsmap \<Rightarrow> irid list" where
  "irrelevantRoots parents rel =
     set_of (map fst (filter (\<lambda>(nodeId, status). status = Irrelevant \<and>
       (case jm_get parents nodeId of
          Some (Some p) \<Rightarrow> jm_get rel p \<noteq> Some Irrelevant
        | _ \<Rightarrow> True)) rel))"

text \<open>The support and the ranking the analysis works with, and the statistics of the diagrams.\<close>

definition supportAndRanking :: "analyzer \<Rightarrow> assignment \<Rightarrow> irexpr \<Rightarrow>
    (unique list \<times> unique list \<times> (nat \<times> nat) option \<times> analyzer) option" where
  "supportAndRanking an a restr =
     (case (usedBdd an, an_compiled an) of
        (True, Some c) \<Rightarrow>
          query c (knownBindings a) \<bind> (\<lambda>(q, c').
          Some (set_of (qsupport q), ranked q, Some (stats_nodes q, stats_support q),
            an\<lparr>an_compiled := Some c'\<rparr>))
      | _ \<Rightarrow> (let vars = pe_collectVarOrder restr in Some (set_of vars, vars, None, an)))"

text \<open>The analysis, once the support and the ranking are known.\<close>

definition analysis_of :: "analyzer \<Rightarrow> assignment \<Rightarrow> eval_result \<Rightarrow> ubool \<Rightarrow>
    unique list \<Rightarrow> unique list \<Rightarrow> (nat \<times> nat) option \<Rightarrow> analysis" where
  "analysis_of an a r v supp rnk stats =
     (let restr = restrictExpr (an_expr an) a;
          asked = filter (isNotAsked a) (allVarsInOrder an);
          rankedNeeded = filter (\<lambda>u. u \<in> set supp \<and> u \<in> set asked) rnk;
          scIds = expandRoots (subtreeIds an) (shortCircuitedRoots r);
          rel = map (\<lambda>(i, vars). (i, relevanceOf scIds (intermediate r) supp i vars)) (subtreeVars an)
      in \<lparr>overallResult = result r,
          isDetermined = isDeterminedValue v,
          notAsked = uniqSorted asked,
          next_asked = (case rankedNeeded of [] \<Rightarrow> [] | u # _ \<Rightarrow> [u]),
          stillNeeded = uniqSorted (filter (\<lambda>u. u \<in> set supp) asked),
          dontCare = uniqSorted (filter (\<lambda>u. u \<notin> set supp) asked),
          ranked_needed = rankedNeeded,
          askByUnique = [],
          nodeRelevance = rel,
          irrelevantRootIds = irrelevantRoots (parentMap an) rel,
          an_consultedUniques = consultedUniques r,
          an_shortCircuitedRoots = shortCircuitedRoots r,
          shortCircuitedNodeIds = scIds,
          restrictedExpr = restr,
          restrictedExprText = exprToText restr,
          bddStats = stats,
          an_usedBdd = usedBdd an,
          declined = None\<rparr>)"

definition analyze :: "analyzer \<Rightarrow> assignment \<Rightarrow> eval_result \<Rightarrow> (analysis \<times> analyzer) option" where
  "analyze an a r =
     supportAndRanking an a (restrictExpr (an_expr an) a) \<bind> (\<lambda>(supp, rnk, stats, an').
     result r \<bind> (\<lambda>v. Some (analysis_of an a r v supp rnk stats, an')))"

subsection \<open>Restriction is sound\<close>

text \<open>\<open>\<rho>\<close> gives every answered variable its answer.\<close>

definition completes :: "(unique \<Rightarrow> bool) \<Rightarrow> assignment \<Rightarrow> bool" where
  "completes \<rho> a \<longleftrightarrow> (\<forall>u. (assign_get a u = Some TrueV \<longrightarrow> \<rho> u) \<and> (assign_get a u = Some FalseV \<longrightarrow> \<not> \<rho> u))"

lemma holds_is_True [simp]: "is_TrueE e \<Longrightarrow> holds app \<rho> e"
  by (cases e) auto

lemma holds_is_False [simp]: "is_FalseE e \<Longrightarrow> \<not> holds app \<rho> e"
  by (cases e) auto

text \<open>What is left of an operator's arguments.\<close>

lemma holds_collapse:
  "holds app \<rho> (case xs of [] \<Rightarrow> TrueE i None | [x] \<Rightarrow> x | y # z # ys \<Rightarrow> And i (y # z # ys)) =
    (\<forall>x \<in> set xs. holds app \<rho> x)"
  "holds app \<rho> (case xs of [] \<Rightarrow> FalseE i None | [x] \<Rightarrow> x | y # z # ys \<Rightarrow> Or i (y # z # ys)) =
    (\<exists>x \<in> set xs. holds app \<rho> x)"
  by (auto split: list.split)

lemma vars_collapse:
  "expr_vars (case xs of [] \<Rightarrow> TrueE i None | [x] \<Rightarrow> x | y # z # ys \<Rightarrow> And i (y # z # ys)) =
    (\<Union>x \<in> set xs. expr_vars x)"
  "expr_vars (case xs of [] \<Rightarrow> FalseE i None | [x] \<Rightarrow> x | y # z # ys \<Rightarrow> Or i (y # z # ys)) =
    (\<Union>x \<in> set xs. expr_vars x)"
  by (auto split: list.split)

lemma holds_restrictExpr:
  assumes "completes \<rho> a"
  shows "holds app \<rho> (restrictExpr e a) = holds app \<rho> e"
proof (induction e)
  case (UBoolVar i nm v b t)
  then show ?case
    using assms by (auto simp: completes_def split: option.split ubool.split)
next
  case (Not i n)
  then show ?case by (auto split: irexpr.split)
next
  case (And i as)
  let ?args = "map (\<lambda>x. restrictExpr x a) as"
  have eq: "holds app \<rho> (And i as) = (\<forall>x \<in> set ?args. holds app \<rho> x)"
    using And.IH by auto
  also have "\<dots> = holds app \<rho> (restrictExpr (And i as) a)"
  proof (cases "\<exists>x \<in> set ?args. is_FalseE x")
    case False
    have "(\<forall>x \<in> set ?args. holds app \<rho> x) = (\<forall>x \<in> set (filter (\<lambda>x. \<not> is_TrueE x) ?args). holds app \<rho> x)"
      by (auto simp del: set_map)
    then show ?thesis using False by (simp only: restrictExpr.simps Let_def holds_collapse if_False)
  next
    case True
    then obtain x where "x \<in> set ?args" "\<not> holds app \<rho> x" using holds_is_False by blast
    then show ?thesis using True by (auto simp: Let_def)
  qed
  finally show ?case by simp
next
  case (Or i as)
  let ?args = "map (\<lambda>x. restrictExpr x a) as"
  have eq: "holds app \<rho> (Or i as) = (\<exists>x \<in> set ?args. holds app \<rho> x)"
    using Or.IH by auto
  also have "\<dots> = holds app \<rho> (restrictExpr (Or i as) a)"
  proof (cases "\<exists>x \<in> set ?args. is_TrueE x")
    case False
    have "(\<exists>x \<in> set ?args. holds app \<rho> x) = (\<exists>x \<in> set (filter (\<lambda>x. \<not> is_FalseE x) ?args). holds app \<rho> x)"
      by (auto simp del: set_map)
    then show ?thesis using False by (simp only: restrictExpr.simps Let_def holds_collapse if_False)
  next
    case True
    then obtain x where "x \<in> set ?args" "holds app \<rho> x" using holds_is_True by blast
    then show ?thesis using True by (auto simp: Let_def)
  qed
  finally show ?case by simp
next
  case (App i nm as t)
  then have "map (holds app \<rho>) (map (\<lambda>x. restrictExpr x a) as) = map (holds app \<rho>) as" by simp
  then show ?case by (simp only: restrictExpr.simps holds.simps)
qed simp_all

lemma vars_restrictExpr:
  "expr_vars (restrictExpr e a) \<subseteq> {u \<in> expr_vars e. isNotAsked a u}"
proof (induction e)
  case (UBoolVar i nm v b t)
  then show ?case by (auto simp: isNotAsked_def split: option.splits ubool.splits)
next
  case (Not i n)
  then show ?case by (cases "restrictExpr n a") auto
next
  case (And i as)
  have "(\<Union>x \<in> set (filter (\<lambda>x. \<not> is_TrueE x) (map (\<lambda>x. restrictExpr x a) as)). expr_vars x)
      \<subseteq> {u \<in> expr_vars (And i as). isNotAsked a u}"
    using And.IH by fastforce
  then show ?case by (simp only: restrictExpr.simps Let_def vars_collapse split: if_split) simp
next
  case (Or i as)
  have "(\<Union>x \<in> set (filter (\<lambda>x. \<not> is_FalseE x) (map (\<lambda>x. restrictExpr x a) as)). expr_vars x)
      \<subseteq> {u \<in> expr_vars (Or i as). isNotAsked a u}"
    using Or.IH by fastforce
  then show ?case by (simp only: restrictExpr.simps Let_def vars_collapse split: if_split) simp
next
  case (App i nm as t)
  then show ?case by fastforce
qed auto

subsection \<open>The collectors\<close>

lemma fold_vars:
  "(\<And>x out. x \<in> set xs \<Longrightarrow> set (f x out) = set out \<union> V x \<and> distinct (f x out) = distinct out) \<Longrightarrow>
    set (fold f xs out) = set out \<union> (\<Union>x \<in> set xs. V x) \<and> distinct (fold f xs out) = distinct out"
  by (induction xs arbitrary: out) auto

lemma pe_collectVarOrder_go:
  "set (pe_collectVarOrder_go e out) = set out \<union> expr_vars e \<and>
    distinct (pe_collectVarOrder_go e out) = distinct out"
proof (induction e arbitrary: out)
  case (And i as)
  then show ?case using fold_vars [of as pe_collectVarOrder_go expr_vars out] by auto
next
  case (Or i as)
  then show ?case using fold_vars [of as pe_collectVarOrder_go expr_vars out] by auto
next
  case (App i nm as t)
  then show ?case using fold_vars [of as pe_collectVarOrder_go expr_vars out] by auto
qed auto

lemma pe_collectVarOrder [simp]:
  "set (pe_collectVarOrder e) = expr_vars e" "distinct (pe_collectVarOrder e)"
  using pe_collectVarOrder_go [of e "[]"] by (auto simp: pe_collectVarOrder_def)

lemma containsApp_go: "containsApp_go e found = (found \<or> has_app e)"
proof (induction e arbitrary: found)
  case (And i as)
  have "fold containsApp_go as b = (b \<or> (\<exists>a \<in> set as. has_app a))" for b
    using And.IH by (induction as arbitrary: b) auto
  then show ?case by simp
next
  case (Or i as)
  have "fold containsApp_go as b = (b \<or> (\<exists>a \<in> set as. has_app a))" for b
    using Or.IH by (induction as arbitrary: b) auto
  then show ?case by simp
qed auto

lemma containsApp [simp]: "containsApp e = has_app e"
  by (simp add: containsApp_def containsApp_go)

lemma distinct_getEntries: "distinct (map fst (getEntries a))"
proof -
  have "map fst (getEntries a) = map fst (filter (\<lambda>(i, v). v \<noteq> None) (List.enumerate 0 (subst a)))"
    by (auto simp: getEntries_def List.map_filter_def intro!: map_cong filter_cong)
  then show ?thesis by (simp add: distinct_map_filter)
qed

lemma knownBindings_fold:
  "jm_wf m \<Longrightarrow> distinct (map fst es) \<Longrightarrow>
    jm_wf (foldl (\<lambda>m (u, v). if v = TrueV then jm_set u True m else if v = FalseV then jm_set u False m else m) m es) \<and>
    jm_get (foldl (\<lambda>m (u, v). if v = TrueV then jm_set u True m else if v = FalseV then jm_set u False m else m) m es) u =
      (case map_of es u of Some TrueV \<Rightarrow> Some True | Some FalseV \<Rightarrow> Some False | _ \<Rightarrow> jm_get m u)"
proof (induction es arbitrary: m)
  case (Cons e es)
  obtain w v where e: "e = (w, v)" by fastforce
  then have "map_of es w = None" using Cons.prems(2) by (simp add: map_of_eq_None_iff)
  then show ?case
    using Cons.IH [of "jm_set w True m"] Cons.IH [of "jm_set w False m"] Cons.IH [of m] Cons.prems
    by (cases v) (auto simp: e js_simps split: option.splits ubool.splits)
qed simp

lemma knownBindings_get:
  "jm_get (knownBindings a) u =
    (case assign_get a u of Some TrueV \<Rightarrow> Some True | Some FalseV \<Rightarrow> Some False | _ \<Rightarrow> None)"
  "jm_wf (knownBindings a)"
proof -
  have "map_of (getEntries a) u = assign_get a u"
    using getEntries_get [of u _ a] distinct_getEntries [of a]
    by (metis map_of_eq_Some_iff not_None_eq)
  then show "jm_get (knownBindings a) u =
      (case assign_get a u of Some TrueV \<Rightarrow> Some True | Some FalseV \<Rightarrow> Some False | _ \<Rightarrow> None)"
    "jm_wf (knownBindings a)"
    using knownBindings_fold [OF _ distinct_getEntries, of "[]" a u]
    by (auto simp: knownBindings_def split: option.splits ubool.splits)
qed

text \<open>
  A memo table of the subtree collectors: every entry is right for the node with that id, and the
  table has all the nodes below the nodes in it.
\<close>

definition memo_ok :: "(irexpr \<Rightarrow> nat set) \<Rightarrow> irexpr \<Rightarrow> (irid, nat list) jsmap \<Rightarrow> bool" where
  "memo_ok F R m \<longleftrightarrow> (\<forall>j vs. jm_get m j = Some vs \<longrightarrow>
     (\<exists>s \<in> set (subexprs R). expr_id s = j \<and> set vs = F s \<and> set (node_ids s) \<subseteq> dom (jm_get m)))"

lemma dom_jm_set [simp]: "dom (jm_get (jm_set k v m)) = insert k (dom (jm_get m))"
  by (auto simp: dom_def js_simps)

lemma memo_ok_set:
  assumes "memo_ok F R m" "e \<in> set (subexprs R)" "set vs = F e"
    and "set (concat (map node_ids (children e))) \<subseteq> dom (jm_get m)"
  shows "memo_ok F R (jm_set (expr_id e) vs m) \<and> set (node_ids e) \<subseteq> dom (jm_get (jm_set (expr_id e) vs m))"
proof -
  have e: "set (node_ids e) \<subseteq> dom (jm_get (jm_set (expr_id e) vs m))"
    unfolding node_ids_children [of e] using assms(4) by auto
  moreover have "memo_ok F R (jm_set (expr_id e) vs m)"
    unfolding memo_ok_def
  proof (intro allI impI)
    fix j ws assume j: "jm_get (jm_set (expr_id e) vs m) j = Some ws"
    show "\<exists>s \<in> set (subexprs R). expr_id s = j \<and> set ws = F s \<and>
        set (node_ids s) \<subseteq> dom (jm_get (jm_set (expr_id e) vs m))"
    proof (cases "j = expr_id e")
      case True
      then show ?thesis using j assms(2,3) e by (auto simp: js_simps simp del: dom_jm_set)
    next
      case False
      then show ?thesis
        using j assms(1) unfolding memo_ok_def by (fastforce simp: js_simps)
    qed
  qed
  ultimately show ?thesis by blast
qed

lemma memo_ok_hit:
  assumes "memo_ok F R m" "unique_ids R" "e \<in> set (subexprs R)" "jm_get m (expr_id e) = Some vs"
  shows "set vs = F e" "set (node_ids e) \<subseteq> dom (jm_get m)"
proof -
  obtain s where s: "s \<in> set (subexprs R)" "expr_id s = expr_id e" "set vs = F s"
      "set (node_ids s) \<subseteq> dom (jm_get m)"
    using assms(1,4) unfolding memo_ok_def by blast
  have "s = e" by (rule unique_ids_same [OF assms(2) s(1) assms(3) s(2)])
  then show "set vs = F e" "set (node_ids e) \<subseteq> dom (jm_get m)" using s by auto
qed


text \<open>What a visit of \<open>e\<close> does to the table.\<close>

definition memo_step :: "(irexpr \<Rightarrow> nat set) \<Rightarrow> irexpr \<Rightarrow> irid set \<Rightarrow> (irid, nat list) jsmap \<Rightarrow> (irid, nat list) jsmap \<Rightarrow> bool" where
  "memo_step F R new m m' \<longleftrightarrow> memo_ok F R m' \<and> dom (jm_get m) \<union> new \<subseteq> dom (jm_get m')"

lemma below_subexprs: "s \<in> set (subexprs R) \<Longrightarrow> set (subexprs s) \<subseteq> set (subexprs R)"
proof (induction R)
  case (Not i n)
  then show ?case by auto
next
  case (And i as)
  then show ?case by (cases "s = And i as") auto
next
  case (Or i as)
  then show ?case by (cases "s = Or i as") auto
next
  case (App i nm as t)
  then show ?case by (cases "s = App i nm as t") auto
qed auto

lemma children_subexprs: "c \<in> set (children e) \<Longrightarrow> set (subexprs c) \<subseteq> set (subexprs e)"
  by (subst subexprs_children [of e]) auto

lemma subtreeVars_correct:
  "unique_ids R \<Longrightarrow> memo_ok expr_vars R memo \<Longrightarrow> set (subexprs e) \<subseteq> set (subexprs R) \<Longrightarrow>
    set (fst (subtreeVars_go e memo)) = expr_vars e \<and>
    memo_step expr_vars R (set (node_ids e)) memo (snd (subtreeVars_go e memo))"
  "unique_ids R \<Longrightarrow> memo_ok expr_vars R memo \<Longrightarrow> \<forall>x \<in> set xs. set (subexprs x) \<subseteq> set (subexprs R) \<Longrightarrow>
    (\<Union>v \<in> set (fst (subtreeVars_list xs memo)). set v) = (\<Union>x \<in> set xs. expr_vars x) \<and>
    memo_step expr_vars R (set (concat (map node_ids xs))) memo (snd (subtreeVars_list xs memo))"
proof (induction e memo and xs memo rule: subtreeVars_go_subtreeVars_list.induct)
  case (1 e memo)
  note prems = "1.prems"
  have e: "e \<in> set (subexprs R)" using prems(3) by auto
  have sub: "\<forall>c \<in> set (children e). set (subexprs c) \<subseteq> set (subexprs R)"
    using prems(3) children_subexprs by blast
  show ?case
  proof (cases "jm_get memo (expr_id e)")
    case (Some vs)
    then show ?thesis
      using memo_ok_hit [OF prems(2,1) e Some] prems(2) by (simp add: subtreeVars_go.simps [of e] memo_step_def)
  next
    case None
    have store: "set vars = expr_vars e \<and> memo_step expr_vars R (set (node_ids e)) memo (jm_set (expr_id e) vars m)"
      if "set vars = expr_vars e" "memo_step expr_vars R (set (concat (map node_ids (children e)))) memo m" for vars m
      using memo_ok_set [where F = expr_vars, OF _ e that(1), of m] that unfolding memo_step_def by auto
    have leaf: "memo_step expr_vars R {} memo memo" using prems(2) by (simp add: memo_step_def)
    show ?thesis
    proof (cases e)
      case (Not i n)
      then have "set (fst (subtreeVars_go n memo)) = expr_vars n \<and>
          memo_step expr_vars R (set (node_ids n)) memo (snd (subtreeVars_go n memo))"
        using "1.IH"(3) None prems sub by simp
      then show ?thesis
        using Not None store [of "set_of (fst (subtreeVars_go n memo))" "snd (subtreeVars_go n memo)"]
        by (simp add: subtreeVars_go.simps [of "Not i n"] case_prod_beta Let_def)
    next
      case (And i as)
      then have "(\<Union>v \<in> set (fst (subtreeVars_list as memo)). set v) = expr_vars e \<and>
          memo_step expr_vars R (set (concat (map node_ids as))) memo (snd (subtreeVars_list as memo))"
        using "1.IH"(1) None prems sub by simp
      then show ?thesis
        using And None store [of "unionSets (fst (subtreeVars_list as memo))" "snd (subtreeVars_list as memo)"]
        by (simp add: subtreeVars_go.simps [of "And i as"] case_prod_beta Let_def)
    next
      case (Or i as)
      then have "(\<Union>v \<in> set (fst (subtreeVars_list as memo)). set v) = expr_vars e \<and>
          memo_step expr_vars R (set (concat (map node_ids as))) memo (snd (subtreeVars_list as memo))"
        using "1.IH"(2) None prems sub by simp
      then show ?thesis
        using Or None store [of "unionSets (fst (subtreeVars_list as memo))" "snd (subtreeVars_list as memo)"]
        by (simp add: subtreeVars_go.simps [of "Or i as"] case_prod_beta Let_def)
    next
      case (App i nm as t)
      then have "(\<Union>v \<in> set (fst (subtreeVars_list as memo)). set v) = expr_vars e \<and>
          memo_step expr_vars R (set (concat (map node_ids as))) memo (snd (subtreeVars_list as memo))"
        using "1.IH"(4) None prems sub by simp
      then show ?thesis
        using App None store [of "unionSets (fst (subtreeVars_list as memo))" "snd (subtreeVars_list as memo)"]
        by (simp add: subtreeVars_go.simps [of "App i nm as t"] case_prod_beta Let_def)
    qed (use None store leaf in \<open>simp_all add: subtreeVars_go.simps [of "UBoolVar _ _ _ _ _"]
      subtreeVars_go.simps [of "TrueE _ _"] subtreeVars_go.simps [of "FalseE _ _"]
      subtreeVars_go.simps [of "InertE _ _ _"]\<close>)
  qed
next
  case (2 memo)
  then show ?case by (simp add: memo_step_def)
next
  case (3 x xs memo)
  let ?m = "snd (subtreeVars_go x memo)"
  have x: "set (fst (subtreeVars_go x memo)) = expr_vars x" "memo_step expr_vars R (set (node_ids x)) memo ?m"
    using "3.IH"(1) "3.prems" by auto
  have "(\<Union>v \<in> set (fst (subtreeVars_list xs ?m)). set v) = (\<Union>x \<in> set xs. expr_vars x) \<and>
      memo_step expr_vars R (set (concat (map node_ids xs))) ?m (snd (subtreeVars_list xs ?m))"
    by (rule "3.IH"(2) [OF refl prod.collapse]) (use "3.prems" x in \<open>auto simp: memo_step_def\<close>)
  then show ?case
    using x by (simp add: case_prod_beta Let_def memo_step_def) blast
qed

lemma subtreeIds_correct:
  "unique_ids R \<Longrightarrow> memo_ok (\<lambda>s. set (node_ids s)) R memo \<Longrightarrow> set (subexprs e) \<subseteq> set (subexprs R) \<Longrightarrow>
    set (fst (subtreeIds_go e memo)) = set (node_ids e) \<and>
    memo_step (\<lambda>s. set (node_ids s)) R (set (node_ids e)) memo (snd (subtreeIds_go e memo))"
  "unique_ids R \<Longrightarrow> memo_ok (\<lambda>s. set (node_ids s)) R memo \<Longrightarrow> \<forall>x \<in> set xs. set (subexprs x) \<subseteq> set (subexprs R) \<Longrightarrow>
    set (fst (subtreeIds_list xs out memo)) = set out \<union> (\<Union>x \<in> set xs. set (node_ids x)) \<and>
    memo_step (\<lambda>s. set (node_ids s)) R (set (concat (map node_ids xs))) memo (snd (subtreeIds_list xs out memo))"
proof (induction e memo and xs out memo rule: subtreeIds_go_subtreeIds_list.induct)
  case (1 e memo)
  note prems = "1.prems"
  have e: "e \<in> set (subexprs R)" using prems(3) by auto
  have sub: "\<forall>c \<in> set (children e). set (subexprs c) \<subseteq> set (subexprs R)"
    using prems(3) children_subexprs by blast
  show ?case
  proof (cases "jm_get memo (expr_id e)")
    case (Some vs)
    then show ?thesis
      using memo_ok_hit [OF prems(2,1) e Some] prems(2) by (simp add: subtreeIds_go.simps [of e] memo_step_def)
  next
    case None
    let ?r = "subtreeIds_list (children e) [expr_id e] memo"
    have r: "set (fst ?r) = set (node_ids e)"
      "memo_step (\<lambda>s. set (node_ids s)) R (set (concat (map node_ids (children e)))) memo (snd ?r)"
      using "1.IH" [OF None prems(1,2) sub] by (auto simp: node_ids_children [of e])
    have "memo_ok (\<lambda>s. set (node_ids s)) R (jm_set (expr_id e) (fst ?r) (snd ?r)) \<and>
        set (node_ids e) \<subseteq> dom (jm_get (jm_set (expr_id e) (fst ?r) (snd ?r)))"
      by (rule memo_ok_set [where F = "\<lambda>s. set (node_ids s)", OF _ e]) (use r in \<open>auto simp: memo_step_def\<close>)
    then show ?thesis
      using None r by (auto simp: subtreeIds_go.simps [of e] case_prod_beta Let_def memo_step_def)
  qed
next
  case (2 out memo)
  then show ?case by (simp add: memo_step_def)
next
  case (3 c cs out memo)
  let ?m = "snd (subtreeIds_go c memo)"
  have x: "set (fst (subtreeIds_go c memo)) = set (node_ids c)" "memo_step (\<lambda>s. set (node_ids s)) R (set (node_ids c)) memo ?m"
    using "3.IH"(1) "3.prems" by auto
  have "set (fst (subtreeIds_list cs (set_union out (fst (subtreeIds_go c memo))) ?m)) =
        set (set_union out (fst (subtreeIds_go c memo))) \<union> (\<Union>x \<in> set cs. set (node_ids x)) \<and>
      memo_step (\<lambda>s. set (node_ids s)) R (set (concat (map node_ids cs))) ?m
        (snd (subtreeIds_list cs (set_union out (fst (subtreeIds_go c memo))) ?m))"
    by (rule "3.IH"(2) [OF refl prod.collapse]) (use "3.prems" x in \<open>auto simp: memo_step_def\<close>)
  then show ?case
    using x by (simp add: case_prod_beta Let_def memo_step_def) blast
qed


lemma jm_get_mem: "jm_get m k = Some v \<Longrightarrow> (k, v) \<in> set m"
  by (rule map_of_SomeD)

lemma collectSubtreeVars_get:
  assumes "unique_ids e" "s \<in> set (subexprs e)"
  shows "\<exists>vs. jm_get (collectSubtreeVars e) (expr_id s) = Some vs \<and> set vs = expr_vars s"
proof -
  let ?m = "collectSubtreeVars e"
  have m: "memo_ok expr_vars e ?m" "set (node_ids e) \<subseteq> dom (jm_get ?m)"
    using subtreeVars_correct(1) [of e "[]" e] assms(1)
    by (simp_all add: memo_ok_def memo_step_def collectSubtreeVars_def)
  moreover have "expr_id s \<in> set (node_ids e)" using assms(2) by (simp add: node_ids_def)
  ultimately obtain vs where "jm_get ?m (expr_id s) = Some vs" by blast
  then show ?thesis using memo_ok_hit(1) [OF m(1) assms] by blast
qed

lemma collectSubtreeIds_get:
  assumes "unique_ids e" "s \<in> set (subexprs e)"
  shows "\<exists>cids. jm_get (collectSubtreeIds e) (expr_id s) = Some cids \<and> set cids = set (node_ids s)"
proof -
  let ?m = "collectSubtreeIds e"
  have m: "memo_ok (\<lambda>s. set (node_ids s)) e ?m" "set (node_ids e) \<subseteq> dom (jm_get ?m)"
    using subtreeIds_correct(1) [of e "[]" e] assms(1)
    by (simp_all add: memo_ok_def memo_step_def collectSubtreeIds_def)
  moreover have "expr_id s \<in> set (node_ids e)" using assms(2) by (simp add: node_ids_def)
  ultimately obtain cids where "jm_get ?m (expr_id s) = Some cids" by blast
  then show ?thesis using memo_ok_hit(1) [OF m(1) assms] by blast
qed

lemma collectSubtreeIds_dom:
  assumes "unique_ids e" "jm_get (collectSubtreeIds e) j = Some cids"
  shows "\<exists>s \<in> set (subexprs e). expr_id s = j"
  using subtreeIds_correct(1) [of e "[]" e] assms
  by (fastforce simp: memo_ok_def memo_step_def collectSubtreeIds_def)

text \<open>The parent map, over ids not seen before.\<close>

definition parent_spec :: "irexpr \<Rightarrow> irid option \<Rightarrow> (irid, irid option) jsmap \<Rightarrow> (irid, irid option) jsmap \<Rightarrow> bool" where
  "parent_spec e p m m' \<longleftrightarrow> (\<forall>j. j \<notin> set (node_ids e) \<longrightarrow> jm_get m' j = jm_get m j) \<and>
     jm_get m' (expr_id e) = Some p \<and>
     (\<forall>s \<in> set (subexprs e). \<forall>d \<in> set (children s). jm_get m' (expr_id d) = Some (Some (expr_id s)))"

lemma child_id_below:
  "s \<in> set (subexprs e) \<Longrightarrow> d \<in> set (children s) \<Longrightarrow> expr_id d \<in> set (node_ids e)"
  using below_subexprs [of s e] children_subexprs [of d s] by (fastforce simp: node_ids_def)

lemma parent_fold:
  assumes "\<And>c m. c \<in> set cs \<Longrightarrow> unique_ids c \<Longrightarrow> set (node_ids c) \<inter> dom (jm_get m) = {} \<Longrightarrow>
      parent_spec c p m (f c m)"
    and "distinct (concat (map node_ids cs))" "set (concat (map node_ids cs)) \<inter> dom (jm_get m) = {}"
  shows "(\<forall>j. j \<notin> set (concat (map node_ids cs)) \<longrightarrow> jm_get (fold f cs m) j = jm_get m j) \<and>
    (\<forall>c \<in> set cs. jm_get (fold f cs m) (expr_id c) = Some p \<and>
      (\<forall>s \<in> set (subexprs c). \<forall>d \<in> set (children s). jm_get (fold f cs m) (expr_id d) = Some (Some (expr_id s))))"
  using assms
proof (induction cs arbitrary: m)
  case (Cons c cs)
  have c: "parent_spec c p m (f c m)"
    using Cons.prems by (auto simp: unique_ids_def)
  have disj: "set (node_ids c) \<inter> set (concat (map node_ids cs)) = {}"
    using Cons.prems(2) by auto
  have "set (concat (map node_ids cs)) \<inter> dom (jm_get (f c m)) = {}"
  proof -
    have "jm_get (f c m) j = None" if "j \<in> set (concat (map node_ids cs))" for j
    proof -
      have "j \<notin> set (node_ids c)" using disj that by blast
      then have "jm_get (f c m) j = jm_get m j" using c unfolding parent_spec_def by blast
      moreover have "j \<notin> dom (jm_get m)" using Cons.prems(3) that by auto
      ultimately show ?thesis by auto
    qed
    then show ?thesis by (metis disjoint_iff domIff)
  qed
  with Cons have IH: "(\<forall>j. j \<notin> set (concat (map node_ids cs)) \<longrightarrow> jm_get (fold f cs (f c m)) j = jm_get (f c m) j) \<and>
    (\<forall>c' \<in> set cs. jm_get (fold f cs (f c m)) (expr_id c') = Some p \<and>
      (\<forall>s \<in> set (subexprs c'). \<forall>d \<in> set (children s).
        jm_get (fold f cs (f c m)) (expr_id d) = Some (Some (expr_id s))))"
    by simp
  have keep: "jm_get (fold f cs (f c m)) j = jm_get (f c m) j" if "j \<in> set (node_ids c)" for j
    using IH disj that by blast
  have "jm_get (fold f cs (f c m)) (expr_id c) = Some p"
    using keep [OF expr_id_node_ids] c by (simp add: parent_spec_def)
  moreover have "jm_get (fold f cs (f c m)) (expr_id d) = Some (Some (expr_id s))"
    if "s \<in> set (subexprs c)" "d \<in> set (children s)" for s d
    using keep [OF child_id_below [OF that]] c that by (simp add: parent_spec_def)
  ultimately show ?case
    using IH c by (simp add: parent_spec_def)
qed simp

lemma parentMap_correct:
  "unique_ids e \<Longrightarrow> set (node_ids e) \<inter> dom (jm_get m) = {} \<Longrightarrow> parent_spec e p m (parentMap_go e p m)"
proof (induction e p m rule: parentMap_go.induct)
  case (1 e p m)
  have new: "jm_get m (expr_id e) = None"
    using "1.prems"(2) expr_id_node_ids [of e] by (metis disjoint_iff domIff)
  let ?m = "jm_set (expr_id e) p m"
  let ?f = "\<lambda>c. parentMap_go c (Some (expr_id e))"
  have d: "distinct (concat (map node_ids (children e)))" "expr_id e \<notin> set (concat (map node_ids (children e)))"
    using "1.prems"(1) unfolding unique_ids_def node_ids_children [of e] by auto
  have "set (concat (map node_ids (children e))) \<inter> dom (jm_get ?m) = {}"
    using "1.prems"(2) d(2) below_ids [of e] by auto
  then have F: "(\<forall>j. j \<notin> set (concat (map node_ids (children e))) \<longrightarrow> jm_get (fold ?f (children e) ?m) j = jm_get ?m j) \<and>
    (\<forall>c \<in> set (children e). jm_get (fold ?f (children e) ?m) (expr_id c) = Some (Some (expr_id e)) \<and>
      (\<forall>s \<in> set (subexprs c). \<forall>d \<in> set (children s).
        jm_get (fold ?f (children e) ?m) (expr_id d) = Some (Some (expr_id s))))"
    using d(1) by (intro parent_fold) (auto intro!: "1.IH" [OF refl])
  have go: "parentMap_go e p m = fold ?f (children e) ?m"
    using new by (simp add: parentMap_go.simps [of e])
  have subs: "s = e \<or> (\<exists>c \<in> set (children e). s \<in> set (subexprs c))" if "s \<in> set (subexprs e)" for s
    using that subexprs_children [of e] by auto
  show ?case
    unfolding parent_spec_def go
  proof (intro conjI allI impI ballI)
    fix j assume "j \<notin> set (node_ids e)"
    then show "jm_get (fold ?f (children e) ?m) j = jm_get m j"
      using F unfolding node_ids_children [of e] by (simp add: js_simps)
  next
    show "jm_get (fold ?f (children e) ?m) (expr_id e) = Some p"
      using F d(2) by (simp add: js_simps)
  next
    fix s d assume "s \<in> set (subexprs e)" "d \<in> set (children s)"
    then show "jm_get (fold ?f (children e) ?m) (expr_id d) = Some (Some (expr_id s))"
      using F subs by blast
  qed
qed

lemma collectParentMap_get:
  assumes "unique_ids e"
  shows "jm_get (collectParentMap e) (expr_id e) = Some None"
    and "s \<in> set (subexprs e) \<Longrightarrow> d \<in> set (children s) \<Longrightarrow>
      jm_get (collectParentMap e) (expr_id d) = Some (Some (expr_id s))"
  using parentMap_correct [OF assms, of "[]" None] by (simp_all add: collectParentMap_def parent_spec_def)


subsection \<open>The analyzer's state\<close>

text \<open>An analyzer of \<open>e\<close>, after any number of analyses.\<close>

inductive analyzer_for :: "irexpr \<Rightarrow> analyzer \<Rightarrow> bool" where
  created: "new_analyzer e given = Inr an \<Longrightarrow> analyzer_for e an"
| analyzed: "analyzer_for e an \<Longrightarrow> analyze an a r = Some (x, an') \<Longrightarrow> analyzer_for e an'"

definition analyzer_ok :: "irexpr \<Rightarrow> analyzer \<Rightarrow> bool" where
  "analyzer_ok e an \<longleftrightarrow> an_expr an = e \<and> subtreeVars an = collectSubtreeVars e \<and>
     subtreeIds an = collectSubtreeIds e \<and> parentMap an = collectParentMap e \<and>
     usedBdd an = (\<not> has_app e) \<and>
     (\<not> has_app e \<longrightarrow> (\<exists>c. an_compiled an = Some c \<and> compiled_ok e c \<and> varOrder c = allVarsInOrder an))"

lemma cond_given_known:
  assumes "completes \<rho> a"
  shows "cond_given app e (knownBindings a) \<rho> = holds app \<rho> e"
proof -
  have "override (knownBindings a) \<rho> = \<rho>"
    using assms by (auto simp: override_def knownBindings_get completes_def fun_eq_iff
      split: option.split ubool.split)
  then show ?thesis by (simp add: cond_given_def)
qed

lemma completes_override: "completes (override (knownBindings a) \<rho>) a"
  by (auto simp: completes_def override_def knownBindings_get)

lemma cond_given_restricted:
  "cond_given app e (knownBindings a) \<rho> = holds app (override (knownBindings a) \<rho>) (restrictExpr e a)"
  using holds_restrictExpr [OF completes_override] by (simp add: cond_given_def)

lemma depends_given:
  assumes "depends_on (cond_given app e (knownBindings a)) u"
  shows "u \<in> expr_vars (restrictExpr e a)"
proof (rule ccontr)
  assume u: "u \<notin> expr_vars (restrictExpr e a)"
  have "cond_given app e (knownBindings a) (\<rho>(u := b)) = cond_given app e (knownBindings a) \<rho>" for \<rho> b
    unfolding cond_given_restricted
    by (rule holds_cong) (use u in \<open>auto simp: override_def split: option.split\<close>)
  then show False using assms by (simp add: depends_on_def)
qed

lemma supportAndRanking_correct:
  fixes app :: "irid \<Rightarrow> bool list \<Rightarrow> bool"
  assumes "analyzer_ok e an"
  shows "\<exists>supp rnk stats an'. supportAndRanking an a (restrictExpr e a) = Some (supp, rnk, stats, an') \<and>
    analyzer_ok e an' \<and> allVarsInOrder an' = allVarsInOrder an \<and>
    distinct rnk \<and> set rnk = set supp \<and> set supp \<subseteq> expr_vars (restrictExpr e a) \<and>
    {u. depends_on (cond_given app e (knownBindings a)) u} \<subseteq> set supp \<and>
    (\<not> has_app e \<longrightarrow> set supp = {u. depends_on (cond_given app e (knownBindings a)) u})"
proof (cases "has_app e")
  case True
  then show ?thesis
    using assms depends_given [of app e a] by (auto simp: supportAndRanking_def analyzer_ok_def Let_def)
next
  case False
  let ?F = "cond_given app e (knownBindings a)"
  obtain c where c: "usedBdd an" "an_compiled an = Some c" "compiled_ok e c" "varOrder c = allVarsInOrder an"
    using assms False by (auto simp: analyzer_ok_def)
  obtain q c' where q: "query c (knownBindings a) = Some (q, c')" "compiled_ok e c'"
      "qsupport q = o_support (outcome_of ?F)" "ranked q = rank (varIndex c) (qsupport q) (impact q)"
      "varOrder c' = varOrder c"
    using query_correct [OF c(3) knownBindings_get(2), of a app] by blast
  have supp: "set (qsupport q) = {u. depends_on ?F u}" "distinct (qsupport q)"
    using finite_depends [OF cond_given_depends [OF c(3)]] by (simp_all add: q(3) outcome_of_def)
  have "analyzer_ok e (an\<lparr>an_compiled := Some c'\<rparr>)"
    using assms c q(2,5) False by (simp add: analyzer_ok_def)
  then show ?thesis
    using False c(1,2) q(1,4) supp depends_given [of app e a]
    by (auto simp: supportAndRanking_def rank_def)
qed

lemma new_analyzer_ok:
  assumes "new_analyzer e given = Inr an"
  shows "analyzer_ok e an"
proof (cases "has_app e")
  case True
  then show ?thesis using assms by (auto simp: new_analyzer_def analyzer_ok_def Let_def)
next
  case False
  let ?vo = "case given of None \<Rightarrow> pe_collectVarOrder e | Some vo \<Rightarrow> vo"
  obtain c where c: "compileDecisionQuery e (Some ?vo) = Inr c" "an_compiled an = Some c"
    using assms False by (auto simp: new_analyzer_def Let_def split: sum.splits)
  have "varOrder c = ?vo"
    using c(1) by (auto simp: compileDecisionQuery_def Let_def split: sum.splits)
  then show ?thesis
    using assms False new_compiled_ok [OF c(1)] c
    by (auto simp: new_analyzer_def analyzer_ok_def Let_def split: sum.splits)
qed

text \<open>What the analysis is made of.\<close>

definition support_for :: "irexpr \<Rightarrow> assignment \<Rightarrow> unique list \<Rightarrow> unique list \<Rightarrow> bool" where
  "support_for e a supp rnk \<longleftrightarrow> distinct rnk \<and> set rnk = set supp \<and>
     set supp \<subseteq> expr_vars (restrictExpr e a) \<and>
     (\<forall>app. {u. depends_on (cond_given app e (knownBindings a)) u} \<subseteq> set supp) \<and>
     (\<not> has_app e \<longrightarrow> (\<forall>app. set supp = {u. depends_on (cond_given app e (knownBindings a)) u}))"

lemma analyze_Some:
  assumes ok: "analyzer_ok e an" and "analyze an a r = Some (x, an')"
  shows "analyzer_ok e an' \<and> allVarsInOrder an' = allVarsInOrder an \<and> (\<exists>supp rnk stats v.
    result r = Some v \<and> x = analysis_of an a r v supp rnk stats \<and> support_for e a supp rnk)"
proof -
  have e: "an_expr an = e" using ok by (simp add: analyzer_ok_def)
  obtain supp rnk stats an1 where 1: "supportAndRanking an a (restrictExpr e a) = Some (supp, rnk, stats, an1)"
    "analyzer_ok e an1" "allVarsInOrder an1 = allVarsInOrder an"
    using supportAndRanking_correct [OF ok] by blast
  then have "support_for e a supp rnk"
    using supportAndRanking_correct [OF ok, of a] unfolding support_for_def by auto
  then show ?thesis
    using assms(2) 1 by (auto simp: analyze_def e bind_eq_Some_conv)
qed

lemma analyzer_for_ok: "analyzer_for e an \<Longrightarrow> analyzer_ok e an"
  by (induction rule: analyzer_for.induct) (use new_analyzer_ok analyze_Some in blast)+

lemma analyze_returns:
  assumes "analyzer_ok e an" "result r = Some v"
  shows "\<exists>x an'. analyze an a r = Some (x, an')"
proof -
  have "an_expr an = e" using assms(1) by (simp add: analyzer_ok_def)
  moreover obtain supp rnk stats an1 where
    "supportAndRanking an a (restrictExpr e a) = Some (supp, rnk, stats, an1)"
    using supportAndRanking_correct [OF assms(1), of a] by blast
  ultimately show ?thesis
    using assms(2) by (simp add: analyze_def)
qed


lemma completes_upd: "completes \<rho> a \<Longrightarrow> isNotAsked a u \<Longrightarrow> completes (\<rho>(u := b)) a"
  by (auto simp: completes_def isNotAsked_def)

lemma not_depends_given:
  assumes "\<not> depends_on (cond_given app e (knownBindings a)) u" "isNotAsked a u" "completes \<rho> a"
  shows "holds app (\<rho>(u := True)) e = holds app (\<rho>(u := False)) e"
proof -
  have "cond_given app e (knownBindings a) (\<rho>(u := True)) = cond_given app e (knownBindings a) (\<rho>(u := False))"
    using assms(1) unfolding depends_on_def by blast
  then show ?thesis
    by (simp add: cond_given_known completes_upd [OF assms(3,2)])
qed

lemma depends_given_iff:
  assumes u: "isNotAsked a u"
  shows "depends_on (cond_given app e (knownBindings a)) u \<longleftrightarrow>
    (\<exists>\<rho>. completes \<rho> a \<and> holds app (\<rho>(u := True)) e \<noteq> holds app (\<rho>(u := False)) e)"
proof
  assume "depends_on (cond_given app e (knownBindings a)) u"
  then obtain \<rho> where "holds app (override (knownBindings a) (\<rho>(u := True))) e \<noteq>
      holds app (override (knownBindings a) (\<rho>(u := False))) e"
    by (auto simp: depends_on_def cond_given_def)
  moreover have "override (knownBindings a) (\<rho>(u := b)) = (override (knownBindings a) \<rho>)(u := b)" for b
    using u by (auto simp: override_def knownBindings_get isNotAsked_def fun_eq_iff split: option.split)
  ultimately show "\<exists>\<rho>. completes \<rho> a \<and> holds app (\<rho>(u := True)) e \<noteq> holds app (\<rho>(u := False)) e"
    using completes_override [of a \<rho>] by metis
qed (use not_depends_given [OF _ u] in blast)

text \<open>A node under a short-circuited root.\<close>

lemma set_expandRoots:
  "set (expandRoots m roots) = (\<Union>r \<in> set roots. case jm_get m r of None \<Rightarrow> {} | Some cids \<Rightarrow> set cids)"
proof -
  have "set (foldl (\<lambda>acc r. case jm_get m r of None \<Rightarrow> acc | Some cids \<Rightarrow> set_union acc cids) acc roots) =
      set acc \<union> (\<Union>r \<in> set roots. case jm_get m r of None \<Rightarrow> {} | Some cids \<Rightarrow> set cids)" for acc
    by (induction roots arbitrary: acc) (auto split: option.split)
  then show ?thesis by (simp add: expandRoots_def)
qed

lemma expandRoots_node:
  assumes u: "unique_ids e" and s: "s \<in> set (subexprs e)"
  shows "expr_id s \<in> set (expandRoots (collectSubtreeIds e) roots) \<longleftrightarrow>
    (\<exists>t \<in> set (subexprs e). expr_id t \<in> set roots \<and> s \<in> set (subexprs t))"
proof
  assume "expr_id s \<in> set (expandRoots (collectSubtreeIds e) roots)"
  then obtain rt cids where rt: "rt \<in> set roots" "jm_get (collectSubtreeIds e) rt = Some cids" "expr_id s \<in> set cids"
    by (auto simp: set_expandRoots split: option.splits)
  then obtain t where t: "t \<in> set (subexprs e)" "expr_id t = rt"
    using collectSubtreeIds_dom [OF u] by blast
  then have "expr_id s \<in> set (node_ids t)"
    using collectSubtreeIds_get [OF u t(1)] rt by auto
  then obtain s' where s': "s' \<in> set (subexprs t)" "expr_id s' = expr_id s"
    by (auto simp: node_ids_def)
  then have "s' = s"
    using unique_ids_same [OF u _ s] below_subexprs [OF t(1)] by blast
  then show "\<exists>t \<in> set (subexprs e). expr_id t \<in> set roots \<and> s \<in> set (subexprs t)"
    using t rt(1) s'(1) by auto
next
  assume "\<exists>t \<in> set (subexprs e). expr_id t \<in> set roots \<and> s \<in> set (subexprs t)"
  then obtain t where t: "t \<in> set (subexprs e)" "expr_id t \<in> set roots" "s \<in> set (subexprs t)" by blast
  then have "expr_id s \<in> set (node_ids t)" by (simp add: node_ids_def)
  then show "expr_id s \<in> set (expandRoots (collectSubtreeIds e) roots)"
    using collectSubtreeIds_get [OF u t(1)] t(2) by (force simp: set_expandRoots)
qed

lemma relevance_get:
  "jm_get (map (\<lambda>(i, vars). (i, f i vars)) m) j = map_option (f j) (jm_get m j)"
  by (induction m) auto

lemma subtreeVars_wf:
  "jm_wf memo \<Longrightarrow> jm_wf (snd (subtreeVars_go e memo))"
  "jm_wf memo \<Longrightarrow> jm_wf (snd (subtreeVars_list xs memo))"
proof (induction e memo and xs memo rule: subtreeVars_go_subtreeVars_list.induct)
  case (1 e memo)
  then show ?case
    by (cases e) (auto simp: subtreeVars_go.simps [of "Not _ _"] subtreeVars_go.simps [of "And _ _"]
      subtreeVars_go.simps [of "Or _ _"] subtreeVars_go.simps [of "App _ _ _ _"]
      subtreeVars_go.simps [of "UBoolVar _ _ _ _ _"] subtreeVars_go.simps [of "TrueE _ _"]
      subtreeVars_go.simps [of "FalseE _ _"] subtreeVars_go.simps [of "InertE _ _ _"]
      case_prod_beta Let_def split: option.split)
next
  case (3 x xs memo)
  have "jm_wf (snd (subtreeVars_go x memo))" by (rule "3.IH"(1) [OF "3.prems"])
  from "3.IH"(2) [OF refl prod.collapse this] show ?case
    by (simp add: case_prod_beta Let_def)
qed simp

lemma collectSubtreeVars_wf: "jm_wf (collectSubtreeVars e)"
  by (simp add: collectSubtreeVars_def subtreeVars_wf)

lemma irrelevantRoots_iff:
  assumes "jm_wf rel"
  shows "j \<in> set (irrelevantRoots parents rel) \<longleftrightarrow> jm_get rel j = Some Irrelevant \<and>
    (case jm_get parents j of Some (Some p) \<Rightarrow> jm_get rel p \<noteq> Some Irrelevant | _ \<Rightarrow> True)"
  using jm_get_iff [OF assms] by (auto simp: irrelevantRoots_def image_iff)

lemma kleene_cong:
  "(\<And>u. u \<in> expr_vars e \<Longrightarrow> \<sigma> u = \<sigma>' u) \<Longrightarrow> kleene call \<sigma> e = kleene call \<sigma>' e"
proof (induction e)
  case (And i as)
  have "map (kleene call \<sigma>) as = map (kleene call \<sigma>') as" using And by auto
  then show ?case by (simp only: kleene.simps)
next
  case (Or i as)
  have "map (kleene call \<sigma>) as = map (kleene call \<sigma>') as" using Or by auto
  then show ?case by (simp only: kleene.simps)
next
  case (App i nm as t)
  have "map (kleene call \<sigma>) as = map (kleene call \<sigma>') as" using App by auto
  then show ?case by (simp only: kleene.simps)
qed auto

lemma kleene_no_app: "\<not> has_app e \<Longrightarrow> kleene call \<sigma> e = kleene call' \<sigma> e"
proof (induction e)
  case (And i as)
  then have "map (kleene call \<sigma>) as = map (kleene call' \<sigma>) as" by auto
  then show ?case by (simp only: kleene.simps)
next
  case (Or i as)
  then have "map (kleene call \<sigma>) as = map (kleene call' \<sigma>) as" by auto
  then show ?case by (simp only: kleene.simps)
qed auto

lemma kleene_determines:
  assumes "\<not> has_app e" "assigned a e" "kleene call (val_of a) e = (if b then TrueV else FalseV)" "completes \<rho> a"
  shows "holds app \<rho> e = b"
proof -
  let ?\<sigma> = "\<lambda>u. case assign_get a u of None \<Rightarrow> UnknownV | Some v \<Rightarrow> v"
  have "val_of a u = ?\<sigma> u" if "u \<in> expr_vars e" for u
    using assms(2) that by (auto simp: assigned_def val_of_def)
  then have "kleene (\<lambda>_ _. UnknownV) ?\<sigma> e = kleene call (val_of a) e"
    using kleene_cong [of e "val_of a" ?\<sigma> call] kleene_no_app [OF assms(1), of call ?\<sigma>] by metis
  moreover have "approx (?\<sigma> u) (\<rho> u)" for u
  proof (cases "assign_get a u")
    case (Some v)
    then show ?thesis using assms(4) by (cases v) (auto simp: completes_def)
  qed simp
  then have "approx (kleene (\<lambda>_ _. UnknownV) ?\<sigma> e) (holds app \<rho> e)"
    by (intro kleene_sound) (auto simp: call_sound_def)
  ultimately show ?thesis using assms(3) by (cases b) auto
qed

text \<open>What the shading should be.\<close>

definition relevance_spec :: "connection \<Rightarrow> assignment \<Rightarrow> irexpr \<Rightarrow> irid list \<Rightarrow> unique set \<Rightarrow> irexpr \<Rightarrow> relevance" where
  "relevance_spec conn a e roots needed s =
     (if \<exists>t \<in> set (subexprs e). expr_id t \<in> set roots \<and> s \<in> set (subexprs t) then ShortCircuited
      else if kleene (call_of conn) (val_of a) s \<noteq> UnknownV then Determined
      else if expr_vars s \<inter> needed = {} then Irrelevant else Relevant)"

lemma relevance_node:
  assumes u: "unique_ids e" and s: "s \<in> set (subexprs e)" and e: "an_expr an = e" "subtreeVars an = collectSubtreeVars e"
      "subtreeIds an = collectSubtreeIds e"
    and r: "\<And>s. s \<in> set (subexprs e) \<Longrightarrow> intermediate r (expr_id s) = Some (Some (kleene (call_of conn) (val_of a) s))"
  shows "jm_get (nodeRelevance (analysis_of an a r v supp rnk stats)) (expr_id s) =
    Some (relevance_spec conn a e (shortCircuitedRoots r) (set supp) s)"
proof -
  obtain vs where vs: "jm_get (collectSubtreeVars e) (expr_id s) = Some vs" "set vs = expr_vars s"
    using collectSubtreeVars_get [OF u s] by blast
  show ?thesis
    using vs r [OF s] expandRoots_node [OF u s]
    by (cases "kleene (call_of conn) (val_of a) s")
      (simp_all add: analysis_of_def Let_def relevance_get e relevanceOf_def relevance_spec_def isDeterminedValue_def)
qed

subsection \<open>Properties\<close>

text \<open>restricting an expression to an assignment does not change its truth value under any
  completion of the assignment, and the restricted expression mentions only variables of the original
  that have no answer yet.\<close>

theorem restrictExpr_sound:
  "(completes \<rho> a \<longrightarrow> holds app \<rho> (restrictExpr e a) = holds app \<rho> e) \<and>
   expr_vars (restrictExpr e a) \<subseteq> {u \<in> expr_vars e. isNotAsked a u}"
  using holds_restrictExpr vars_restrictExpr by blast

text \<open>C3: an analysis splits the variables not answered yet into those still needed and those that do not
  matter; the outcome is the same for both answers to one that does not matter, whatever the other
  answers are, and, without calls, some answers make it different for each one still needed. What is
  asked next is the first of the ranking, which lists exactly the variables still needed.\<close>

theorem analyze_partition:
  assumes "analyzer_for e an" "analyze an a r = Some (x, an')" "expr_vars e \<subseteq> set (allVarsInOrder an)"
  shows "analyzer_for e an' \<and>
    set (notAsked x) = {u \<in> set (allVarsInOrder an). isNotAsked a u} \<and>
    set (notAsked x) = set (stillNeeded x) \<union> set (dontCare x) \<and>
    set (stillNeeded x) \<inter> set (dontCare x) = {} \<and>
    (\<forall>u \<in> set (dontCare x). \<forall>app \<rho>. completes \<rho> a \<longrightarrow>
      holds app (\<rho>(u := True)) e = holds app (\<rho>(u := False)) e) \<and>
    (\<not> has_app e \<longrightarrow> (\<forall>u \<in> set (stillNeeded x). \<forall>app. \<exists>\<rho>. completes \<rho> a \<and>
      holds app (\<rho>(u := True)) e \<noteq> holds app (\<rho>(u := False)) e)) \<and>
    set (ranked_needed x) = set (stillNeeded x) \<and> distinct (ranked_needed x) \<and>
    next_asked x = take 1 (ranked_needed x)"
proof -
  obtain supp rnk stats v where x: "x = analysis_of an a r v supp rnk stats" and supp: "support_for e a supp rnk"
    using analyze_Some [OF analyzer_for_ok [OF assms(1)] assms(2)] by blast
  have sub: "set supp \<subseteq> {u \<in> set (allVarsInOrder an). isNotAsked a u}"
    using supp vars_restrictExpr [of e a] assms(3) by (auto simp: support_for_def)
  have moot: "holds app (\<rho>(u := True)) e = holds app (\<rho>(u := False)) e"
    if "isNotAsked a u" "u \<notin> set supp" "completes \<rho> a" for u app \<rho>
    using not_depends_given [OF _ that(1,3), of app e] supp that(2) unfolding support_for_def by blast
  have needed: "\<exists>\<rho>. completes \<rho> a \<and> holds app (\<rho>(u := True)) e \<noteq> holds app (\<rho>(u := False)) e"
    if "isNotAsked a u" "u \<in> set supp" "\<not> has_app e" for u app
    using depends_given_iff [OF that(1), of app e] supp that(2,3) unfolding support_for_def by blast
  have "next_asked x = take 1 (ranked_needed x)"
    by (simp add: x analysis_of_def Let_def split: list.split)
  moreover have "set (ranked_needed x) = set (stillNeeded x)" "distinct (ranked_needed x)"
    using supp sub by (auto simp: x analysis_of_def Let_def support_for_def)
  ultimately show ?thesis
    using moot needed analyzer_for.analyzed [OF assms(1,2)]
    by (simp add: x analysis_of_def Let_def) (auto simp: isNotAsked_def)
qed

text \<open>once the evaluator has a definite result for an expression without calls, the analysis asks
  for nothing more.\<close>

theorem determined_needs_nothing:
  assumes "analyzer_for e an" "\<not> has_app e" "answers conn" "assigned a e"
    and "eval conn a e = Some r" "analyze an a r = Some (x, an')" "isDetermined x"
  shows "stillNeeded x = [] \<and> next_asked x = []"
proof -
  obtain supp rnk stats v where x: "x = analysis_of an a r v supp rnk stats" "result r = Some v"
    and supp: "support_for e a supp rnk"
    using analyze_Some [OF analyzer_for_ok [OF assms(1)] assms(6)] by blast
  have "kleene (call_of conn) (val_of a) e = v"
    using eval_spec [OF assms(3,4)] assms(5) x(2) by (auto simp: eval_def)
  then obtain b where b: "kleene (call_of conn) (val_of a) e = (if b then TrueV else FalseV)"
    using assms(7) x(1) by (cases v) (auto simp: analysis_of_def Let_def isDeterminedValue_def intro: that [of True] that [of False])
  have "holds app \<rho> e = b" if "completes \<rho> a" for \<rho> and app :: "irid \<Rightarrow> bool list \<Rightarrow> bool"
    by (rule kleene_determines [OF assms(2,4) b that])
  then have "cond_given app e (knownBindings a) \<rho> = b" for \<rho> and app :: "irid \<Rightarrow> bool list \<Rightarrow> bool"
    using completes_override [of a \<rho>] by (simp add: cond_given_def)
  then have "\<not> depends_on (cond_given (\<lambda>_ _. True) e (knownBindings a)) u" for u
    by (simp add: depends_on_def)
  then have "set supp = {}"
    using supp assms(2) unfolding support_for_def by (metis (no_types, lifting) empty_Collect_eq)
  moreover from this have "rnk = []" using supp by (simp add: support_for_def)
  ultimately show ?thesis
    by (simp add: x(1) analysis_of_def Let_def uniqSorted_def set_of_def)
qed

text \<open>the shading of the ladder is right at every node: a node under a short-circuited root is shown
  as short-circuited, one whose value is known as determined, one none of whose variables can matter as
  irrelevant; and the roots marked irrelevant are the outermost irrelevant nodes.\<close>

theorem relevance_exact:
  assumes "analyzer_for e an" "unique_ids e" "answers conn" "assigned a e"
    and "expr_vars e \<subseteq> set (allVarsInOrder an)"
    and "eval conn a e = Some r" "analyze an a r = Some (x, an')" "s \<in> set (subexprs e)"
  defines "rel \<equiv> relevance_spec conn a e (shortCircuitedRoots r) (set (stillNeeded x))"
  shows "jm_get (nodeRelevance x) (expr_id s) = Some (rel s) \<and>
    (expr_id e \<in> set (irrelevantRootIds x) \<longleftrightarrow> rel e = Irrelevant) \<and>
    (\<forall>c \<in> set (children s). expr_id c \<in> set (irrelevantRootIds x) \<longleftrightarrow> rel c = Irrelevant \<and> rel s \<noteq> Irrelevant)"
proof -
  have ok: "analyzer_ok e an" by (rule analyzer_for_ok [OF assms(1)])
  then have e: "an_expr an = e" "subtreeVars an = collectSubtreeVars e" "subtreeIds an = collectSubtreeIds e"
      "parentMap an = collectParentMap e" by (auto simp: analyzer_ok_def)
  obtain supp rnk stats v where x: "x = analysis_of an a r v supp rnk stats" and supp: "support_for e a supp rnk"
    using analyze_Some [OF ok assms(7)] by blast
  have "set supp \<subseteq> {u \<in> set (allVarsInOrder an). isNotAsked a u}"
    using supp vars_restrictExpr [of e a] assms(5) by (auto simp: support_for_def)
  then have needed: "set (stillNeeded x) = set supp"
    by (auto simp: x analysis_of_def Let_def)
  have node: "jm_get (nodeRelevance x) (expr_id t) = Some (rel t)" if "t \<in> set (subexprs e)" for t
    using relevance_node [OF assms(2) that e(1-3) eval_intermediate [OF assms(3,4,2,6)]]
    unfolding x rel_def needed [unfolded x] .
  have "jm_wf (nodeRelevance x)"
    using collectSubtreeVars_wf [of e] by (simp add: x analysis_of_def Let_def e jm_wf_def case_prod_beta comp_def)
  note roots = irrelevantRoots_iff [OF this, of _ "collectParentMap e"]
  have "irrelevantRootIds x = irrelevantRoots (collectParentMap e) (nodeRelevance x)"
    by (simp add: x analysis_of_def Let_def e)
  moreover have "c \<in> set (subexprs e)" if "c \<in> set (children s)" for c
    using children_subexprs [OF that] below_subexprs [OF assms(8)] subexprs_self [of c] by blast
  ultimately show ?thesis
    using node node [OF assms(8)] roots collectParentMap_get [OF assms(2)] assms(8) by simp
qed


subsection \<open>Witnesses\<close>

definition pe_example :: irexpr where
  "pe_example = Or 0 [And 1 [ev_var 2 0, ev_var 3 1], And 4 [Not 5 (ev_var 6 0), ev_var 7 2]]"

definition pe_assign :: assignment where
  "pe_assign = fromEntries [(0, TrueV), (1, UnknownV), (2, UnknownV)]"

definition pe_decided :: assignment where
  "pe_decided = fromEntries [(0, TrueV), (1, TrueV), (2, UnknownV)]"

lemma pe_example_facts:
  "unique_ids pe_example" "\<not> has_app pe_example" "expr_vars pe_example = {0, 1, 2}"
  by (auto simp: unique_ids_def pe_example_def ev_var_def)

lemma pe_assigned: "assigned pe_assign pe_example" "assigned pe_decided pe_example"
  by (auto simp: assigned_def pe_assign_def pe_decided_def pe_example_def ev_var_def assign_get_fromEntries)

lemma pe_analyzer: "\<exists>an. new_analyzer pe_example None = Inr an \<and> allVarsInOrder an = [0, 1, 2]"
proof -
  have "\<exists>c. compileDecisionQuery pe_example (Some [0, 1, 2]) = Inr c"
    using compileDecisionQuery_outcome(1) [of pe_example "Some [0, 1, 2]" "[0, 1, 2]"] pe_example_facts
    by simp
  moreover have "pe_collectVarOrder pe_example = [0, 1, 2]" by code_simp
  ultimately show ?thesis
    using pe_example_facts(2) by (auto simp: new_analyzer_def Let_def)
qed

lemma pe_eval:
  "map_option result (eval ev_conn pe_assign pe_example) = Some (Some UnknownV)"
  "map_option result (eval ev_conn pe_decided pe_example) = Some (Some TrueV)"
  by code_simp+

theorem analyze_partition_witness:
  "\<exists>an r x an'. new_analyzer pe_example None = Inr an \<and> analyze an pe_assign r = Some (x, an') \<and>
    set (notAsked x) = {1, 2} \<and> set (notAsked x) = set (stillNeeded x) \<union> set (dontCare x)"
proof -
  obtain an where an: "new_analyzer pe_example None = Inr an" "allVarsInOrder an = [0, 1, 2]"
    using pe_analyzer by blast
  obtain r :: eval_result where r: "result r = Some UnknownV" using pe_eval(1) by auto
  obtain x an' where x: "analyze an pe_assign r = Some (x, an')"
    using analyze_returns [OF new_analyzer_ok [OF an(1)] r] by blast
  have "{u \<in> {0, 1, 2}. isNotAsked pe_assign u} = {1, 2}"
    by (auto simp: isNotAsked_def pe_assign_def assign_get_fromEntries)
  moreover have "expr_vars pe_example \<subseteq> set (allVarsInOrder an)"
    using an(2) pe_example_facts(3) by simp
  note analyze_partition [OF analyzer_for.created [OF an(1)] x this]
  ultimately have "set (notAsked x) = {1, 2} \<and> set (notAsked x) = set (stillNeeded x) \<union> set (dontCare x)"
    unfolding an(2) list.set by blast
  then show ?thesis using an(1) x by blast
qed

theorem determined_needs_nothing_witness:
  "\<exists>an r x an'. new_analyzer pe_example None = Inr an \<and> eval ev_conn pe_decided pe_example = Some r \<and>
    analyze an pe_decided r = Some (x, an') \<and> stillNeeded x = []"
proof -
  obtain an where an: "new_analyzer pe_example None = Inr an" "allVarsInOrder an = [0, 1, 2]"
    using pe_analyzer by blast
  obtain r where r: "eval ev_conn pe_decided pe_example = Some r" "result r = Some TrueV" using pe_eval(2) by auto
  obtain x an' where x: "analyze an pe_decided r = Some (x, an')"
    using analyze_returns [OF new_analyzer_ok [OF an(1)] r(2)] by blast
  have "isDetermined x"
    using analyze_Some [OF new_analyzer_ok [OF an(1)] x] r(2)
    by (auto simp: analysis_of_def Let_def isDeterminedValue_def)
  then show ?thesis
    using determined_needs_nothing [OF analyzer_for.created [OF an(1)] pe_example_facts(2) ev_answers pe_assigned(2) r(1) x]
      an(1) r(1) x by blast
qed

theorem relevance_exact_witness:
  "\<exists>an r x an'. new_analyzer pe_example None = Inr an \<and> eval ev_conn pe_assign pe_example = Some r \<and>
    analyze an pe_assign r = Some (x, an') \<and> jm_get (nodeRelevance x) 4 = Some Determined"
proof -
  obtain an where an: "new_analyzer pe_example None = Inr an" "allVarsInOrder an = [0, 1, 2]"
    using pe_analyzer by blast
  obtain r where r: "eval ev_conn pe_assign pe_example = Some r" "result r = Some UnknownV" using pe_eval(1) by auto
  have "map_option shortCircuitedRoots (eval ev_conn pe_assign pe_example) = Some [7]" by code_simp
  then have roots: "shortCircuitedRoots r = [7]" using r(1) by simp
  obtain x an' where x: "analyze an pe_assign r = Some (x, an')"
    using analyze_returns [OF new_analyzer_ok [OF an(1)] r(2)] by blast
  let ?s = "And 4 [Not 5 (ev_var 6 0), ev_var 7 2]"
  have "?s \<in> set (subexprs pe_example)" by (simp add: pe_example_def)
  from relevance_exact [OF analyzer_for.created [OF an(1)] pe_example_facts(1) ev_answers pe_assigned(1) _ r(1) x this]
  have "jm_get (nodeRelevance x) (expr_id ?s) = Some (relevance_spec ev_conn pe_assign pe_example [7] (set (stillNeeded x)) ?s)"
    using an(2) pe_example_facts(3) roots by simp
  moreover have "relevance_spec ev_conn pe_assign pe_example [7] S ?s = Determined" for S
    by (auto simp: relevance_spec_def pe_example_def ev_var_def kleene_and_def val_of_def pe_assign_def assign_get_fromEntries)
  ultimately show ?thesis using an(1) r(1) x by auto
qed


theorem restrictExpr_sound_witness:
  "restrictExpr pe_example pe_assign = ev_var 3 1 \<and> holds (\<lambda>_ _. False) (\<lambda>_. True) (ev_var 3 1) = holds (\<lambda>_ _. False) (\<lambda>_. True) pe_example"
proof -
  have "restrictExpr pe_example pe_assign = ev_var 3 1" by code_simp
  moreover have "completes (\<lambda>_. True) pe_assign"
    by (auto simp: completes_def pe_assign_def assign_get_fromEntries)
  ultimately show ?thesis
    using restrictExpr_sound [of "\<lambda>_. True" pe_assign "\<lambda>_ _. False" pe_example] by metis
qed

end
