(* ===== verification/QueryPlan.thy ===== *)
theory QueryPlan
  imports PartialEval
begin

text \<open>
  The query planner's answer, as the ladder shows it:
  \<^verbatim>\<open>ts-shared/l4-ladder-visualizer/src/lib/eval/query-plan-override.ts\<close> and the response types of
  \<^verbatim>\<open>ts-shared/jl4-client-rpc/custom-protocol.ts\<close> (the fields the override reads).

  The lookups of the ladder graph (\<^verbatim>\<open>getUniquesForAtomId\<close>, \<^verbatim>\<open>getUniquesForLabel\<close>) are the
  parameters \<open>byAtomId\<close> and \<open>byLabel\<close>, as they are in the code.
\<close>

record atom_like =
  atomId :: string
  atom_label :: string

record query_ask =
  qa_container :: string
  qa_path :: "string list"
  qa_label :: string
  qa_atoms :: "atom_like list"

datatype query_plan =
    Plan (qp_stillNeeded: "atom_like list") (qp_ranked: "atom_like list") (qp_asks: "query_ask list")
  | Decline (qp_error: string)

record elicitation_override =
  eo_ranked :: "unique list"
  eo_stillNeeded :: "unique list"
  eo_next :: "unique list option"
  eo_askByUnique :: "(unique, elicitation_ask list) jsmap option"
  eo_declined :: "string option"

definition withElicitationOverride :: "analysis \<Rightarrow> elicitation_override option \<Rightarrow> analysis" where
  "withElicitationOverride an ovr =
     (case ovr of
        None \<Rightarrow> an
      | Some ov \<Rightarrow>
          (let shown = an\<lparr>next_asked := (case eo_next ov of None \<Rightarrow> next_asked an | Some xs \<Rightarrow> xs),
                 ranked_needed := eo_ranked ov,
                 stillNeeded := eo_stillNeeded ov,
                 askByUnique := (case eo_askByUnique ov of None \<Rightarrow> askByUnique an | Some m \<Rightarrow> m),
                 declined := eo_declined ov\<rparr>
           in if eo_declined ov = None then shown
              else shown\<lparr>dontCare := [], irrelevantRootIds := [], overallResult := Some UnknownV,
                         isDetermined := False, restrictedExprText := []\<rparr>))"

text \<open>An atom's variables, by its id if the ladder has it, else by its label.\<close>

definition uniquesForAtom :: "(string \<Rightarrow> unique list) \<Rightarrow> (string \<Rightarrow> unique list) \<Rightarrow> atom_like \<Rightarrow> unique list" where
  "uniquesForAtom byAtomId byLabel a =
     (let found = byAtomId (atomId a) in if found \<noteq> [] then found else byLabel (atom_label a))"

definition uniquesForAtoms :: "(string \<Rightarrow> unique list) \<Rightarrow> (string \<Rightarrow> unique list) \<Rightarrow> atom_like list \<Rightarrow> unique list" where
  "uniquesForAtoms byAtomId byLabel as =
     fold (\<lambda>a out. fold set_add (uniquesForAtom byAtomId byLabel a) out) as []"

definition ask_entry :: "query_ask \<Rightarrow> elicitation_ask" where
  "ask_entry ask = \<lparr>ask_container = qa_container ask, ask_path = qa_path ask, ask_label = qa_label ask,
     ask_schemaSummary = None\<rparr>"

text \<open>One turn of the innermost loop; the state is the map of asks and the labels seen by variable.\<close>

definition add_ask :: "query_ask \<Rightarrow> unique \<Rightarrow>
    (unique, elicitation_ask list) jsmap \<times> (unique, string list) jsmap \<Rightarrow>
    (unique, elicitation_ask list) jsmap \<times> (unique, string list) jsmap" where
  "add_ask ask u st =
     (let (asks, seenBy) = st;
          seen = (case jm_get seenBy u of None \<Rightarrow> [] | Some xs \<Rightarrow> xs)
      in if qa_label ask \<in> set seen then (asks, jm_set u seen seenBy)
         else (jm_set u ((case jm_get asks u of None \<Rightarrow> [] | Some xs \<Rightarrow> xs) @ [ask_entry ask]) asks,
               jm_set u (seen @ [qa_label ask]) seenBy))"

definition collectAsks :: "(string \<Rightarrow> unique list) \<Rightarrow> (string \<Rightarrow> unique list) \<Rightarrow> query_ask list \<Rightarrow>
    (unique, elicitation_ask list) jsmap" where
  "collectAsks byAtomId byLabel asks =
     fst (fold (\<lambda>ask. fold (\<lambda>atom. fold (add_ask ask) (uniquesForAtom byAtomId byLabel atom)) (qa_atoms ask))
       asks ([], []))"

definition elicitationOverrideFromQueryPlan ::
    "(string \<Rightarrow> unique list) \<Rightarrow> (string \<Rightarrow> unique list) \<Rightarrow> query_plan \<Rightarrow> elicitation_override" where
  "elicitationOverrideFromQueryPlan byAtomId byLabel resp =
     (case resp of
        Decline err \<Rightarrow>
          \<lparr>eo_ranked = [], eo_stillNeeded = [], eo_next = Some [], eo_askByUnique = Some [], eo_declined = Some err\<rparr>
      | Plan needed rnk asks \<Rightarrow>
          (let rankedAtoms = (if asks \<noteq> [] then concat (map qa_atoms asks) else rnk)
           in \<lparr>eo_ranked = uniquesForAtoms byAtomId byLabel rankedAtoms,
               eo_stillNeeded = uniquesForAtoms byAtomId byLabel needed,
               eo_next = Some (if asks \<noteq> [] then uniquesForAtoms byAtomId byLabel (qa_atoms (hd asks)) else []),
               eo_askByUnique = Some (collectAsks byAtomId byLabel asks),
               eo_declined = None\<rparr>))"

subsection \<open>Lemmas\<close>

lemma uniquesForAtoms_concat:
  "uniquesForAtoms f g as = set_of (concat (map (uniquesForAtom f g) as))"
proof -
  have "fold (\<lambda>a out. fold set_add (uniquesForAtom f g a) out) as out =
      fold set_add (concat (map (uniquesForAtom f g) as)) out" for out
    by (induction as arbitrary: out) auto
  then show ?thesis by (simp add: uniquesForAtoms_def set_of_def)
qed

text \<open>The asks that have an atom of variable \<open>u\<close>, the first of each label.\<close>

fun first_by :: "('a \<Rightarrow> 'b) \<Rightarrow> 'b set \<Rightarrow> 'a list \<Rightarrow> 'a list" where
  "first_by f seen [] = []"
| "first_by f seen (x # xs) = (if f x \<in> seen then first_by f seen xs else x # first_by f (insert (f x) seen) xs)"

definition asks_of :: "(string \<Rightarrow> unique list) \<Rightarrow> (string \<Rightarrow> unique list) \<Rightarrow> unique \<Rightarrow> query_ask list \<Rightarrow> query_ask list" where
  "asks_of f g u asks = filter (\<lambda>ask. \<exists>atom \<in> set (qa_atoms ask). u \<in> set (uniquesForAtom f g atom)) asks"

definition list_at :: "(unique, 'a list) jsmap \<Rightarrow> unique \<Rightarrow> 'a list" where
  "list_at m u = (case jm_get m u of None \<Rightarrow> [] | Some xs \<Rightarrow> xs)"

lemma add_ask_at:
  assumes "add_ask ask w (m, sm) = (m', sm')"
  shows "list_at sm' u = (if u = w \<and> qa_label ask \<notin> set (list_at sm u) then list_at sm u @ [qa_label ask] else list_at sm u)"
    and "list_at m' u = (if u = w \<and> qa_label ask \<notin> set (list_at sm u) then list_at m u @ [ask_entry ask] else list_at m u)"
  using assms by (auto simp: add_ask_def list_at_def Let_def js_simps split: if_splits option.splits)

lemma add_asks_at:
  "fold (add_ask ask) us (m, sm) = (m', sm') \<Longrightarrow>
    list_at sm' u = (if u \<in> set us \<and> qa_label ask \<notin> set (list_at sm u) then list_at sm u @ [qa_label ask] else list_at sm u) \<and>
    list_at m' u = (if u \<in> set us \<and> qa_label ask \<notin> set (list_at sm u) then list_at m u @ [ask_entry ask] else list_at m u)"
proof (induction us arbitrary: m sm)
  case (Cons w us)
  obtain m1 sm1 where 1: "add_ask ask w (m, sm) = (m1, sm1)" by fastforce
  then show ?case
    using Cons.IH [of m1 sm1] Cons.prems add_ask_at [OF 1, of u] by (auto split: if_splits)
qed simp

lemma collectAsks_at:
  "list_at (collectAsks f g asks) u = map ask_entry (first_by qa_label {} (asks_of f g u asks))"
proof -
  let ?step = "\<lambda>ask. fold (\<lambda>atom. fold (add_ask ask) (uniquesForAtom f g atom)) (qa_atoms ask)"
  have step: "?step ask st = fold (add_ask ask) (concat (map (uniquesForAtom f g) (qa_atoms ask))) st" for ask st
  proof -
    have "fold (\<lambda>atom. fold (add_ask ask) (uniquesForAtom f g atom)) as st =
        fold (add_ask ask) (concat (map (uniquesForAtom f g) as)) st" for as
      by (induction as arbitrary: st) auto
    then show ?thesis .
  qed
  have "list_at (fst (fold ?step asks (m, sm))) u =
      list_at m u @ map ask_entry (first_by qa_label (set (list_at sm u)) (asks_of f g u asks))" for m sm
  proof (induction asks arbitrary: m sm)
    case Nil
    show ?case by (simp add: asks_of_def)
  next
    case (Cons ask asks)
    obtain m1 sm1 where 1: "?step ask (m, sm) = (m1, sm1)" by fastforce
    have "u \<in> set (concat (map (uniquesForAtom f g) (qa_atoms ask))) \<longleftrightarrow>
        (\<exists>atom \<in> set (qa_atoms ask). u \<in> set (uniquesForAtom f g atom))" by auto
    then show ?case
      using Cons.IH [of m1 sm1] add_asks_at [OF 1 [unfolded step], of u] 1
      by (auto simp: asks_of_def split: if_splits)
  qed
  then show ?thesis by (simp add: collectAsks_def list_at_def)
qed

subsection \<open>Properties\<close>

text \<open>the override lists each variable of the planner's atoms once, in the planner's order; an input's
  annotations are the planner's asks that have one of its atoms, the first of each label; and a declined
  plan, put over any analysis, leaves no answer, nothing to ask, nothing moot and nothing ranked, and
  carries the planner's sentence.\<close>

theorem override_shows_plan:
  "(let ov = elicitationOverrideFromQueryPlan f g (Plan needed rnk asks)
    in eo_stillNeeded ov = set_of (concat (map (uniquesForAtom f g) needed)) \<and>
       eo_ranked ov = set_of (concat (map (uniquesForAtom f g) (if asks = [] then rnk else concat (map qa_atoms asks)))) \<and>
       list_at (the (eo_askByUnique ov)) u = map ask_entry (first_by qa_label {} (asks_of f g u asks)) \<and>
       declined (withElicitationOverride an (Some ov)) = None) \<and>
   (let shown = withElicitationOverride an (Some (elicitationOverrideFromQueryPlan f g (Decline err)))
    in stillNeeded shown = [] \<and> dontCare shown = [] \<and> ranked_needed shown = [] \<and> next_asked shown = [] \<and>
       askByUnique shown = [] \<and> irrelevantRootIds shown = [] \<and> \<not> isDetermined shown \<and>
       overallResult shown = Some UnknownV \<and> restrictedExprText shown = [] \<and> declined shown = Some err)"
  by (simp add: elicitationOverrideFromQueryPlan_def withElicitationOverride_def Let_def
      uniquesForAtoms_concat collectAsks_at)

end
