(* ===== verification/Permissions.thy ===== *)
theory Permissions
  imports L4Prelude
begin

text \<open>
  The permission gate of the agent's tools: \<^verbatim>\<open>ts-shared/legalese-agent/src/permissions.ts\<close>.

  The categories, their defaults, which of them a tool call needs, which paths are sensitive, and how
  the values of several levels combine. Strings are code units below 256. The policy port of the host
  is a parameter: the function from categories to values.
\<close>

subsection \<open>Values and categories\<close>

datatype permission_value = Always | Ask | Never

definition strictness :: "permission_value \<Rightarrow> nat" where
  "strictness v = (case v of Always \<Rightarrow> 0 | Ask \<Rightarrow> 1 | Never \<Rightarrow> 2)"

text \<open>The code compares values by strictness, so that is their order here.\<close>

instantiation permission_value :: linorder
begin

definition less_eq_permission_value :: "permission_value \<Rightarrow> permission_value \<Rightarrow> bool" where
  "v \<le> w \<longleftrightarrow> strictness v \<le> strictness w"

definition less_permission_value :: "permission_value \<Rightarrow> permission_value \<Rightarrow> bool" where
  "v < w \<longleftrightarrow> strictness v < strictness w"

instance
  by standard (auto simp: less_eq_permission_value_def less_permission_value_def strictness_def
    split: permission_value.splits)

end

datatype category =
    FsRead | FsCreate | FsEdit | FsDelete | L4Evaluate | L4Refactor | McpL4Rules | McpVscode
  | MetaAskUser | MetaStatusUpdate

definition PERMISSION_CATEGORIES :: "category list" where
  "PERMISSION_CATEGORIES = [FsRead, FsCreate, FsEdit, FsDelete, L4Evaluate, L4Refactor, McpL4Rules,
     McpVscode, MetaAskUser, MetaStatusUpdate]"

definition DEFAULT_PERMISSIONS :: "category \<Rightarrow> permission_value" where
  "DEFAULT_PERMISSIONS c = (if c = FsDelete then Ask else Always)"


subsection \<open>What a call needs\<close>

definition categoryForTool :: "string \<Rightarrow> category option" where
  "categoryForTool toolName =
     (if toolName = ''fs__read_file'' then Some FsRead
      else if toolName = ''fs__create_file'' then Some FsCreate
      else if toolName = ''fs__edit_file'' then Some FsEdit
      else if toolName = ''fs__delete_file'' then Some FsDelete
      else if toolName = ''fs__copy_file'' then Some FsEdit
      else if toolName = ''l4__evaluate'' then Some L4Evaluate
      else if toolName = ''l4__refactor'' then Some L4Refactor
      else if toolName = ''meta__ask_user'' then Some MetaAskUser
      else if toolName = ''meta__post_status_update'' then Some MetaStatusUpdate
      else if starts_with ''l4-rules__'' toolName then Some McpL4Rules
      else if starts_with ''vsmcp__'' toolName then Some McpVscode
      else None)"

definition categoriesForCall :: "string \<Rightarrow> jsval \<Rightarrow> category list" where
  "categoriesForCall toolName args =
     (if toolName = ''fs__copy_file'' then
        [FsCreate] @ (if truthy (js_prop args ''overwrite'') then [FsEdit] else [])
          @ (if truthy (js_prop args ''deleteSource'') then [FsDelete] else [])
      else if toolName = ''fs__create_file'' then
        (case js_prop args ''content'' of
           JStr content \<Rightarrow> if length content > 0 then [FsCreate, FsEdit] else [FsCreate]
         | _ \<Rightarrow> [FsCreate])
      else (case categoryForTool toolName of None \<Rightarrow> [] | Some c \<Rightarrow> [c]))"

subsection \<open>Sensitive paths\<close>

definition SENSITIVE_DIRS :: "string list" where
  "SENSITIVE_DIRS = [''.git'', ''.vscode'', ''.claude'', ''.cursor'', ''.husky'', ''.devcontainer'']"

definition SENSITIVE_FILES :: "string list" where
  "SENSITIVE_FILES = [''.devcontainer.json'', ''.mcp.json'', ''.envrc'', ''.gitmodules'', ''.gitconfig'']"

definition path_parts :: "string \<Rightarrow> string list" where
  "path_parts p =
     filter (\<lambda>s. s \<noteq> [])
       (split_on (CHR ''/'') (toLowerCase (map (\<lambda>c. if c = CHR 0x5C then CHR ''/'' else c) p)))"

definition isSensitivePath :: "string \<Rightarrow> bool" where
  "isSensitivePath p =
     (let parts = path_parts p;
          name = (if parts = [] then [] else last parts)
      in if name \<in> set SENSITIVE_FILES \<or> ends_with ''.code-workspace'' name then True
         else \<exists>i < length parts. parts ! i \<in> set SENSITIVE_DIRS \<or>
                (parts ! i = ''.github'' \<and> i + 1 < length parts \<and> parts ! (i + 1) = ''workflows''))"

subsection \<open>Levels and policies\<close>


text \<open>One turn of the loop over the categories.\<close>

definition stricter :: "(category \<Rightarrow> permission_value) \<Rightarrow> (category \<times> permission_value) option \<Rightarrow>
    category \<Rightarrow> (category \<times> permission_value) option" where
  "stricter getPermission worst c =
     (case worst of
        None \<Rightarrow> Some (c, getPermission c)
      | Some (_, w) \<Rightarrow>
          if strictness (getPermission c) > strictness w then Some (c, getPermission c) else worst)"

definition strictestPermission ::
    "(category \<Rightarrow> permission_value) \<Rightarrow> category list \<Rightarrow> (category \<times> permission_value) option" where
  "strictestPermission getPermission categories = foldl (stricter getPermission) None categories"

definition fixedPermissionPolicy :: "(category \<rightharpoonup> permission_value) \<Rightarrow> category \<Rightarrow> permission_value" where
  "fixedPermissionPolicy overrides c =
     (case overrides c of None \<Rightarrow> DEFAULT_PERMISSIONS c | Some v \<Rightarrow> v)"

subsection \<open>Lemmas\<close>

lemma strictness_less: "strictness v < strictness w \<longleftrightarrow> v < w"
  by (simp add: less_permission_value_def)




lemma stricter_Some:
  "stricter f (Some (c, f c)) d = (if f c < f d then Some (d, f d) else Some (c, f c))"
  by (simp add: stricter_def strictness_less)

lemma foldl_strictest:
  "\<exists>pre c suf. foldl (stricter f) (Some (c0, f c0)) cs = Some (c, f c) \<and> c0 # cs = pre @ c # suf \<and>
    (\<forall>d \<in> set (c0 # cs). f d \<le> f c) \<and> (\<forall>d \<in> set pre. f d < f c)"
proof (induction cs arbitrary: c0)
  case Nil
  then show ?case by (auto intro: exI [of _ "[]"])
next
  case (Cons c1 cs)
  show ?case
  proof (cases "f c0 < f c1")
    case True
    obtain pre c suf where *: "foldl (stricter f) (Some (c1, f c1)) cs = Some (c, f c)"
        "c1 # cs = pre @ c # suf" "\<forall>d \<in> set (c1 # cs). f d \<le> f c" "\<forall>d \<in> set pre. f d < f c"
      using Cons.IH [of c1] by blast
    have c0: "f c0 < f c" using True *(3) by (auto intro: less_le_trans)
    have "foldl (stricter f) (Some (c0, f c0)) (c1 # cs) = Some (c, f c)"
      using True *(1) by (simp add: stricter_Some)
    moreover have "c0 # c1 # cs = (c0 # pre) @ c # suf" using *(2) by simp
    moreover have "\<forall>d \<in> set (c0 # c1 # cs). f d \<le> f c" "\<forall>d \<in> set (c0 # pre). f d < f c"
      using *(3,4) c0 by auto
    ultimately show ?thesis by blast
  next
    case False
    obtain pre c suf where *: "foldl (stricter f) (Some (c0, f c0)) cs = Some (c, f c)"
        "c0 # cs = pre @ c # suf" "\<forall>d \<in> set (c0 # cs). f d \<le> f c" "\<forall>d \<in> set pre. f d < f c"
      using Cons.IH [of c0] by blast
    have res: "foldl (stricter f) (Some (c0, f c0)) (c1 # cs) = Some (c, f c)"
      using False *(1) by (simp add: stricter_Some)
    have all: "\<forall>d \<in> set (c0 # c1 # cs). f d \<le> f c" using False *(3) by auto
    show ?thesis
    proof (cases pre)
      case Nil
      then have "c0 # c1 # cs = [] @ c # c1 # suf" using *(2) by simp
      then show ?thesis using res all by (metis empty_iff empty_set)
    next
      case (Cons p pre')
      have p: "p = c0" "cs = pre' @ c # suf" using *(2) Cons by auto
      have "f c1 < f c" using False *(4) Cons p(1) by auto
      moreover have "c0 # c1 # cs = (c0 # c1 # pre') @ c # suf" using p by simp
      moreover have "\<forall>d \<in> set (c0 # c1 # pre'). f d < f c"
        using *(4) Cons p(1) \<open>f c1 < f c\<close> by auto
      ultimately show ?thesis using res all by blast
    qed
  qed
qed

lemma path_parts_slash: "path_parts (p @ CHR ''/'' # q) = path_parts p @ path_parts q"
proof -
  have "lower_char (CHR ''/'') = CHR ''/''" by (simp add: lower_char_def)
  then show ?thesis by (simp add: path_parts_def toLowerCase_def split_on_append)
qed

lemma path_parts_one:
  assumes "CHR ''/'' \<notin> set d" "CHR 0x5C \<notin> set d" "d \<noteq> []" "toLowerCase d = d"
  shows "path_parts d = [d]"
proof -
  have "map (\<lambda>c. if c = CHR 0x5C then CHR ''/'' else c) d = d"
    using assms(2) by (auto intro!: map_idI)
  then show ?thesis
    using assms by (simp add: path_parts_def split_on_none)
qed

lemma sensitive_dirs_plain:
  "list_all (\<lambda>d. CHR ''/'' \<notin> set d \<and> CHR 0x5C \<notin> set d \<and> d \<noteq> [] \<and> toLowerCase d = d) SENSITIVE_DIRS"
  by code_simp

text \<open>Two spellings of a path that a case-insensitive file system, or Windows, does not distinguish.\<close>

definition same_spelling :: "string \<Rightarrow> string \<Rightarrow> bool" where
  "same_spelling p q \<longleftrightarrow>
     map (\<lambda>c. lower_char (if c = CHR 0x5C then CHR ''/'' else c)) p =
     map (\<lambda>c. lower_char (if c = CHR 0x5C then CHR ''/'' else c)) q"

lemma path_parts_spelling: "same_spelling p q \<Longrightarrow> path_parts p = path_parts q"
  by (simp add: same_spelling_def path_parts_def toLowerCase_def comp_def)

lemma isSensitivePath_dir:
  assumes "d \<in> set SENSITIVE_DIRS" "d \<in> set (path_parts p)"
  shows "isSensitivePath p"
proof -
  obtain i where "i < length (path_parts p)" "path_parts p ! i = d"
    using assms(2) by (auto simp: in_set_conv_nth)
  then show ?thesis using assms(1) unfolding isSensitivePath_def Let_def by auto
qed

lemma isSensitivePath_suffix:
  assumes "isSensitivePath q"
  shows "isSensitivePath (p @ CHR ''/'' # q)"
proof (cases "path_parts q = []")
  case True
  then show ?thesis using assms by (simp add: isSensitivePath_def SENSITIVE_FILES_def ends_with_def)
next
  case False
  let ?b = "path_parts q" and ?ab = "path_parts p @ path_parts q"
  have "(\<exists>i < length ?ab. ?ab ! i \<in> set SENSITIVE_DIRS \<or>
      (?ab ! i = ''.github'' \<and> i + 1 < length ?ab \<and> ?ab ! (i + 1) = ''workflows''))"
    if "i < length ?b" "?b ! i \<in> set SENSITIVE_DIRS \<or>
      (?b ! i = ''.github'' \<and> i + 1 < length ?b \<and> ?b ! (i + 1) = ''workflows'')" for i
    using that by (intro exI [of _ "length (path_parts p) + i"]) (auto simp: nth_append)
  then show ?thesis
    using assms False unfolding isSensitivePath_def path_parts_slash Let_def
    by (auto split: if_splits)
qed

subsection \<open>Properties\<close>


text \<open>what a call is gated on is the strictest value among the categories it needs, with the first
  category that has it; only a call that needs none is not gated. A copy needs \<open>fs.delete\<close> exactly when it
  deletes its source and \<open>fs.edit\<close> exactly when it overwrites, and a create with text needs \<open>fs.edit\<close>.\<close>

theorem strictest_of_call:
  "(case strictestPermission policy (categoriesForCall tool args) of
      None \<Rightarrow> categoriesForCall tool args = []
    | Some (c, v) \<Rightarrow> v = policy c \<and> (\<forall>d \<in> set (categoriesForCall tool args). policy d \<le> v) \<and>
        (\<exists>pre suf. categoriesForCall tool args = pre @ c # suf \<and> (\<forall>d \<in> set pre. policy d < v))) \<and>
   (tool = ''fs__copy_file'' \<longrightarrow>
      (FsDelete \<in> set (categoriesForCall tool args)) = truthy (js_prop args ''deleteSource'') \<and>
      (FsEdit \<in> set (categoriesForCall tool args)) = truthy (js_prop args ''overwrite'') \<and>
      FsCreate \<in> set (categoriesForCall tool args)) \<and>
   (tool = ''fs__create_file'' \<longrightarrow>
      (FsEdit \<in> set (categoriesForCall tool args)) = (\<exists>s. js_prop args ''content'' = JStr s \<and> s \<noteq> []))"
proof -
  have strict: "case strictestPermission policy cs of
      None \<Rightarrow> cs = []
    | Some (c, v) \<Rightarrow> v = policy c \<and> (\<forall>d \<in> set cs. policy d \<le> v) \<and>
        (\<exists>pre suf. cs = pre @ c # suf \<and> (\<forall>d \<in> set pre. policy d < v))" for cs
  proof (cases cs)
    case (Cons c0 cs')
    have "strictestPermission policy cs = foldl (stricter policy) (Some (c0, policy c0)) cs'"
      by (simp add: strictestPermission_def Cons stricter_def)
    with foldl_strictest [of policy c0 cs'] obtain pre c suf where
      "strictestPermission policy cs = Some (c, policy c)" "cs = pre @ c # suf"
      "\<forall>d \<in> set cs. policy d \<le> policy c" "\<forall>d \<in> set pre. policy d < policy c"
      unfolding Cons by metis
    then show ?thesis by auto
  qed (simp add: strictestPermission_def)
  show ?thesis
    by (intro conjI, rule strict) (auto simp: categoriesForCall_def split: jsval.splits if_splits)
qed

text \<open>a path is sensitive whatever the case of its letters and the kind of its slashes, when it has a
  component that is a sensitive directory, and below any directory if it is sensitive by itself.\<close>

theorem isSensitivePath_robust:
  "(same_spelling p q \<longrightarrow> isSensitivePath p = isSensitivePath q) \<and>
   (d \<in> set SENSITIVE_DIRS \<longrightarrow> isSensitivePath (p @ CHR ''/'' # d @ CHR ''/'' # q)) \<and>
   (isSensitivePath q \<longrightarrow> isSensitivePath (p @ CHR ''/'' # q))"
proof (intro conjI impI)
  show "isSensitivePath p = isSensitivePath q" if "same_spelling p q"
    using path_parts_spelling [OF that] by (simp add: isSensitivePath_def)
  show "isSensitivePath (p @ CHR ''/'' # q)" if "isSensitivePath q"
    by (rule isSensitivePath_suffix [OF that])
  assume d: "d \<in> set SENSITIVE_DIRS"
  then have "path_parts d = [d]"
    using sensitive_dirs_plain by (intro path_parts_one) (auto simp: list_all_iff)
  then show "isSensitivePath (p @ CHR ''/'' # d @ CHR ''/'' # q)"
    by (intro isSensitivePath_dir [OF d]) (simp add: path_parts_slash)
qed

subsection \<open>Witnesses\<close>

theorem strictest_of_call_witness:
  "strictestPermission (fixedPermissionPolicy Map.empty)
     (categoriesForCall ''fs__copy_file'' (JObj [(''deleteSource'', JNum 1)])) = Some (FsDelete, Ask) \<and>
   FsDelete \<in> set (categoriesForCall ''fs__copy_file'' (JObj [(''deleteSource'', JNum 1)]))"
  using strictest_of_call [where policy = "fixedPermissionPolicy Map.empty" and tool = "''fs__copy_file''"
      and args = "JObj [(''deleteSource'', JNum 1)]"]
  by (simp add: strictestPermission_def stricter_def categoriesForCall_def fixedPermissionPolicy_def
      DEFAULT_PERMISSIONS_def strictness_def)

theorem isSensitivePath_robust_witness:
  "isSensitivePath ''a/.git/hooks/x'' \<and> isSensitivePath (''A'' @ [CHR 0x5C] @ ''.GIT/hooks/x'')"
proof -
  have "isSensitivePath ''a/.git/hooks/x''"
    using isSensitivePath_robust [where p = "''a''" and q = "''hooks/x''" and d = "''.git''"] by (simp add: SENSITIVE_DIRS_def)
  moreover have "same_spelling (''A'' @ [CHR 0x5C] @ ''.GIT/hooks/x'') ''a/.git/hooks/x''"
    by code_simp
  ultimately show ?thesis using isSensitivePath_robust by blast
qed

end
