(* ===== verification/PendingInteractions.thy ===== *)
theory PendingInteractions
  imports L4Prelude
begin

text \<open>
  Approvals and questions waiting for the user:
  \<^verbatim>\<open>ts-shared/legalese-agent/src/pending-interactions.ts\<close>.

  A \<^verbatim>\<open>Promise\<close> is a number; \<open>settled\<close> is the log of the calls of \<^verbatim>\<open>resolve\<close>, in order. A promise
  that is resolved when it is made (\<^verbatim>\<open>Promise.resolve\<close>) is logged at once. The maps keep insertion
  order, which is the order the cancellations resolve in.
\<close>

subsection \<open>State\<close>

datatype decision = Allow | Deny

record call_ctx =
  conversationId :: string
  turnId :: string

type_synonym promise = nat

datatype settlement = Decided decision | Answered string

record early_decision =
  e_decision :: decision
  e_conversationId :: "string option"

record pending =
  approvals :: "(string, promise \<times> call_ctx) jsmap"
  questions :: "(string, promise \<times> call_ctx) jsmap"
  early :: "(string, early_decision) jsmap"
  next_promise :: promise
  settled :: "(promise \<times> settlement) list"

definition new_pending :: pending where
  "new_pending = \<lparr>approvals = [], questions = [], early = [], next_promise = 0, settled = []\<rparr>"

subsection \<open>Operations\<close>

definition settle :: "promise \<Rightarrow> settlement \<Rightarrow> pending \<Rightarrow> pending" where
  "settle p v s = s\<lparr>settled := settled s @ [(p, v)]\<rparr>"

definition requestApproval :: "string \<Rightarrow> call_ctx \<Rightarrow> pending \<Rightarrow> promise \<times> pending" where
  "requestApproval callId ctx s =
     (let p = next_promise s; s' = s\<lparr>next_promise := p + 1\<rparr>
      in case jm_get (early s) callId of
           Some e \<Rightarrow> (p, settle p (Decided (e_decision e)) (s'\<lparr>early := jm_delete callId (early s)\<rparr>))
         | None \<Rightarrow> (p, s'\<lparr>approvals := jm_set callId (p, ctx) (approvals s)\<rparr>))"

definition decide :: "string \<Rightarrow> decision \<Rightarrow> string option \<Rightarrow> pending \<Rightarrow> bool \<times> pending" where
  "decide callId d conv s =
     (case jm_get (approvals s) callId of
        None \<Rightarrow> (False, s\<lparr>early := jm_set callId \<lparr>e_decision = d, e_conversationId = conv\<rparr> (early s)\<rparr>)
      | Some (p, _) \<Rightarrow> (True, settle p (Decided d) (s\<lparr>approvals := jm_delete callId (approvals s)\<rparr>)))"

definition askUser :: "string \<Rightarrow> call_ctx \<Rightarrow> pending \<Rightarrow> promise \<times> pending" where
  "askUser callId ctx s =
     (let p = next_promise s
      in (p, s\<lparr>next_promise := p + 1, questions := jm_set callId (p, ctx) (questions s)\<rparr>))"

definition answer :: "string \<Rightarrow> string \<Rightarrow> pending \<Rightarrow> bool \<times> pending" where
  "answer callId ans s =
     (case jm_get (questions s) callId of
        None \<Rightarrow> (False, s)
      | Some (p, _) \<Rightarrow> (True, settle p (Answered ans) (s\<lparr>questions := jm_delete callId (questions s)\<rparr>)))"

definition contextFor :: "string \<Rightarrow> pending \<Rightarrow> call_ctx option" where
  "contextFor callId s =
     (case jm_get (approvals s) callId of
        Some (_, ctx) \<Rightarrow> Some ctx
      | None \<Rightarrow> map_option snd (jm_get (questions s) callId))"

definition pendingApprovalCount :: "pending \<Rightarrow> nat" where
  "pendingApprovalCount s = length (approvals s)"

definition pendingQuestionCount :: "pending \<Rightarrow> nat" where
  "pendingQuestionCount s = length (questions s)"

text \<open>A \<^verbatim>\<open>for\<close> over a map that deletes the current entry visits every entry once, in order.\<close>

definition cancelWhere :: "(call_ctx \<Rightarrow> bool) \<Rightarrow> pending \<Rightarrow> nat \<times> pending" where
  "cancelWhere matches s =
     (let as = filter (\<lambda>x. matches (snd (snd x))) (approvals s);
          qs = filter (\<lambda>x. matches (snd (snd x))) (questions s)
      in (length as + length qs,
          s\<lparr>approvals := filter (\<lambda>x. \<not> matches (snd (snd x))) (approvals s),
            questions := filter (\<lambda>x. \<not> matches (snd (snd x))) (questions s),
            settled := settled s @ map (\<lambda>x. (fst (snd x), Decided Deny)) as
                                 @ map (\<lambda>x. (fst (snd x), Answered [])) qs\<rparr>))"

definition cancelConversation :: "string \<Rightarrow> pending \<Rightarrow> nat \<times> pending" where
  "cancelConversation conv s =
     cancelWhere (\<lambda>ctx. conversationId ctx = conv)
       (s\<lparr>early := filter (\<lambda>x. e_conversationId (snd x) \<noteq> Some conv) (early s)\<rparr>)"

definition cancelTurn :: "string \<Rightarrow> pending \<Rightarrow> nat \<times> pending" where
  "cancelTurn turn s =
     (let conversations = map (\<lambda>(_, _, ctx). conversationId ctx)
            (filter (\<lambda>(_, _, ctx). turnId ctx = turn) (approvals s @ questions s))
      in cancelWhere (\<lambda>ctx. turnId ctx = turn)
           (s\<lparr>early := filter (\<lambda>(_, e). case e_conversationId e of None \<Rightarrow> True
                 | Some c \<Rightarrow> c \<notin> set conversations) (early s)\<rparr>))"

definition cancelAll :: "pending \<Rightarrow> nat \<times> pending" where
  "cancelAll s = cancelWhere (\<lambda>_. True) (s\<lparr>early := []\<rparr>)"

subsection \<open>Any sequence of calls\<close>

inductive pending_step :: "pending \<Rightarrow> pending \<Rightarrow> bool" where
  "pending_step s (snd (requestApproval callId ctx s))"
| "pending_step s (snd (decide callId d conv s))"
| "pending_step s (snd (askUser callId ctx s))"
| "pending_step s (snd (answer callId ans s))"
| "pending_step s (snd (cancelConversation conv s))"
| "pending_step s (snd (cancelTurn turn s))"
| "pending_step s (snd (cancelAll s))"

inductive reachable :: "pending \<Rightarrow> bool" where
  initial: "reachable new_pending"
| step: "reachable s \<Longrightarrow> pending_step s s' \<Longrightarrow> reachable s'"

inductive_cases pending_stepE: "pending_step s s'"

subsection \<open>The invariant\<close>

abbreviation promise_of :: "string \<times> promise \<times> call_ctx \<Rightarrow> promise" where
  "promise_of x \<equiv> fst (snd x)"

text \<open>The promises that are waiting or have been resolved, with repetitions.\<close>

definition used :: "pending \<Rightarrow> promise multiset" where
  "used s = mset (map promise_of (approvals s)) + mset (map promise_of (questions s)) + mset (map fst (settled s))"

definition pending_ok :: "pending \<Rightarrow> bool" where
  "pending_ok s \<longleftrightarrow> jm_wf (approvals s) \<and> jm_wf (questions s) \<and> jm_wf (early s) \<and>
     used s \<subseteq># mset [0..<next_promise s]"

lemma new_pending_ok: "pending_ok new_pending"
  by (simp add: pending_ok_def new_pending_def used_def)

lemma mset_partition:
  "mset (map f (filter P xs)) + mset (map f (filter (\<lambda>x. \<not> P x) xs)) = mset (map f xs)"
  by (induction xs) auto

lemma cancelWhere_used: "used (snd (cancelWhere matches s)) = used s"
proof -
  let ?P = "\<lambda>x :: string \<times> promise \<times> call_ctx. matches (snd (snd x))"
  have "used (snd (cancelWhere matches s)) =
      (mset (map promise_of (filter ?P (approvals s))) + mset (map promise_of (filter (\<lambda>x. \<not> ?P x) (approvals s)))) +
      (mset (map promise_of (filter ?P (questions s))) + mset (map promise_of (filter (\<lambda>x. \<not> ?P x) (questions s)))) +
      mset (map fst (settled s))"
    by (simp add: used_def cancelWhere_def Let_def case_prod_beta comp_def add_ac image_mset.compositionality)
  then show ?thesis unfolding mset_partition by (simp add: used_def)
qed

lemma cancelWhere_ok:
  assumes "pending_ok s"
  shows "pending_ok (snd (cancelWhere matches s))"
  using assms cancelWhere_used [of matches s] by (simp add: pending_ok_def cancelWhere_def Let_def)

lemma fresh_subset:
  "A \<subseteq># add_mset (n :: nat) U \<Longrightarrow> U \<subseteq># mset [0..<n] \<Longrightarrow> A \<subseteq># mset [0..<n + 1]"
  using subset_mset.order_trans [of A "add_mset n U" "add_mset n (mset [0..<n])"] by simp

lemma requestApproval_ok:
  assumes "pending_ok s"
  shows "pending_ok (snd (requestApproval callId ctx s))"
proof (cases "jm_get (early s) callId")
  case None
  have "used (snd (requestApproval callId ctx s)) \<subseteq># add_mset (next_promise s) (used s)"
    using assms None mset_jm_set [of "approvals s" promise_of callId "(next_promise s, ctx)"]
    by (simp add: requestApproval_def Let_def used_def pending_ok_def)
  from fresh_subset [OF this] show ?thesis
    using assms None by (simp add: pending_ok_def requestApproval_def Let_def)
next
  case (Some e)
  have "used (snd (requestApproval callId ctx s)) = add_mset (next_promise s) (used s)"
    using Some by (simp add: requestApproval_def Let_def used_def settle_def)
  then show ?thesis
    using assms Some by (simp add: pending_ok_def requestApproval_def Let_def settle_def)
qed

lemma askUser_ok:
  assumes "pending_ok s"
  shows "pending_ok (snd (askUser callId ctx s))"
proof -
  have "used (snd (askUser callId ctx s)) \<subseteq># add_mset (next_promise s) (used s)"
    using assms mset_jm_set [of "questions s" promise_of callId "(next_promise s, ctx)"]
    by (simp add: askUser_def Let_def used_def pending_ok_def)
  from fresh_subset [OF this] show ?thesis
    using assms by (simp add: pending_ok_def askUser_def Let_def)
qed

lemma decide_ok:
  assumes "pending_ok s"
  shows "pending_ok (snd (decide callId d conv s))"
proof (cases "jm_get (approvals s) callId")
  case None
  then show ?thesis using assms by (simp add: pending_ok_def decide_def used_def)
next
  case (Some pc)
  obtain p ctx where pc: "pc = (p, ctx)" by fastforce
  have "used (snd (decide callId d conv s)) = used s"
    using assms Some mset_jm_delete [of "approvals s" callId pc promise_of] pc
    by (simp add: decide_def used_def settle_def pending_ok_def)
  then show ?thesis
    using assms Some pc by (simp add: pending_ok_def decide_def settle_def)
qed

lemma answer_ok:
  assumes "pending_ok s"
  shows "pending_ok (snd (answer callId ans s))"
proof (cases "jm_get (questions s) callId")
  case None
  then show ?thesis using assms by (simp add: answer_def)
next
  case (Some pc)
  obtain p ctx where pc: "pc = (p, ctx)" by fastforce
  have "used (snd (answer callId ans s)) = used s"
    using assms Some mset_jm_delete [of "questions s" callId pc promise_of] pc
    by (simp add: answer_def used_def settle_def pending_ok_def)
  then show ?thesis
    using assms Some pc by (simp add: pending_ok_def answer_def settle_def)
qed

lemma early_ok: "pending_ok s \<Longrightarrow> jm_wf e \<Longrightarrow> pending_ok (s\<lparr>early := e\<rparr>)"
  by (simp add: pending_ok_def used_def)

lemma step_ok:
  assumes "pending_step s s'" "pending_ok s"
  shows "pending_ok s'"
proof -
  have "jm_wf (early s)" using assms(2) by (simp add: pending_ok_def)
  then show ?thesis
    using assms
    by (elim pending_stepE)
      (simp_all add: requestApproval_ok askUser_ok decide_ok answer_ok cancelWhere_ok early_ok
        cancelConversation_def cancelTurn_def cancelAll_def Let_def)
qed

lemma reachable_ok: "reachable s \<Longrightarrow> pending_ok s"
  by (induction rule: reachable.induct) (auto intro: new_pending_ok step_ok)

lemma count_used:
  assumes "pending_ok s"
  shows "count (used s) p \<le> (if p < next_promise s then 1 else 0)"
proof -
  have "count (used s) p \<le> count (mset [0..<next_promise s]) p"
    using assms by (intro mset_subset_eq_count) (simp add: pending_ok_def del: mset_upt)
  then show ?thesis by (simp add: count_mset_set')
qed

lemma used_once:
  assumes "pending_ok s"
  shows "count (mset (map promise_of (approvals s @ questions s))) p + count (mset (map fst (settled s))) p \<le> 1"
  using count_used [OF assms, of p] by (auto simp: used_def split: if_splits)

lemma count_map_0: "count (mset (map f xs)) p = 0 \<longleftrightarrow> p \<notin> f ` set xs"
  by (simp only: count_mset_0_iff set_map)

lemma distinct_count:
  assumes "\<And>a. count (mset xs) a \<le> 1"
  shows "distinct xs"
  using assms
proof (induction xs)
  case (Cons x xs)
  have "count (mset xs) a \<le> 1" for a 
    by (rule order_trans [OF _ Cons.prems [of a]]) simp
  moreover have "x \<notin> set xs" using Cons.prems [of x] by (simp add: count_mset_0_iff)
  ultimately show ?case using Cons.IH by simp
qed simp

subsection \<open>Accounting for promises\<close>

datatype pending_call =
    RequestApproval string call_ctx | Decide string decision "string option"
  | AskUser string call_ctx | Answer string string
  | CancelConversation string | CancelTurn string | CancelAll

fun pending_exec :: "pending_call \<Rightarrow> pending \<Rightarrow> pending" where
  "pending_exec (RequestApproval i ctx) s = snd (requestApproval i ctx s)"
| "pending_exec (Decide i d conv) s = snd (decide i d conv s)"
| "pending_exec (AskUser i ctx) s = snd (askUser i ctx s)"
| "pending_exec (Answer i ans) s = snd (answer i ans s)"
| "pending_exec (CancelConversation conv) s = snd (cancelConversation conv s)"
| "pending_exec (CancelTurn turn) s = snd (cancelTurn turn s)"
| "pending_exec CancelAll s = snd (cancelAll s)"

definition pending_run :: "pending_call list \<Rightarrow> pending" where
  "pending_run cs = fold pending_exec cs new_pending"

lemma pending_run_simps [simp]: "pending_run [] = new_pending" "pending_run (cs @ [c]) = pending_exec c (pending_run cs)"
  by (simp_all add: pending_run_def)

lemma pending_exec_step: "pending_step s (pending_exec c s)"
  by (cases c) (simp_all add: pending_step.intros)

lemma pending_run_reachable: "reachable (pending_run cs)"
  by (induction cs rule: rev_induct) (auto intro: reachable.intros pending_exec_step)

text \<open>The calls that made a promise, in order: the promise is the position.\<close>

fun asks :: "pending_call \<Rightarrow> bool" where
  "asks (RequestApproval i ctx) \<longleftrightarrow> True"
| "asks (AskUser i ctx) \<longleftrightarrow> True"
| "asks c \<longleftrightarrow> False"

definition asked :: "pending_call list \<Rightarrow> pending_call list" where
  "asked cs = filter asks cs"

text \<open>The promise a call takes the place of: one that waits under the call's id.\<close>

definition waiting_at :: "string \<Rightarrow> (string, promise \<times> call_ctx) jsmap \<Rightarrow> promise list" where
  "waiting_at i m = (case jm_get m i of None \<Rightarrow> [] | Some (p, _) \<Rightarrow> [p])"

fun replaced_by :: "pending_call \<Rightarrow> pending \<Rightarrow> promise list" where
  "replaced_by (RequestApproval i ctx) s = (if jm_get (early s) i = None then waiting_at i (approvals s) else [])"
| "replaced_by (AskUser i ctx) s = waiting_at i (questions s)"
| "replaced_by c s = []"

fun replaced_from :: "pending \<Rightarrow> pending_call list \<Rightarrow> promise list" where
  "replaced_from s [] = []"
| "replaced_from s (c # cs) = replaced_by c s @ replaced_from (pending_exec c s) cs"

definition replaced_in :: "pending_call list \<Rightarrow> promise list" where
  "replaced_in cs = replaced_from new_pending cs"

lemma replaced_from_snoc: "replaced_from s (cs @ [c]) = replaced_from s cs @ replaced_by c (fold pending_exec cs s)"
  by (induction cs arbitrary: s) simp_all

lemma replaced_in_simps [simp]: "replaced_in [] = []" "replaced_in (cs @ [c]) = replaced_in cs @ replaced_by c (pending_run cs)"
  by (simp_all add: replaced_in_def pending_run_def replaced_from_snoc)

lemma mset_set_waiting:
  assumes "jm_wf m"
  shows "mset (map promise_of (jm_set i (p, ctx) m)) + mset (waiting_at i m) = add_mset p (mset (map promise_of m))"
proof (cases "jm_get m i")
  case None
  then show ?thesis by (simp add: waiting_at_def jm_set_new)
next
  case (Some pc)
  obtain q c where pc: "pc = (q, c)" by fastforce
  from jm_set_old [OF assms Some] obtain xs ys where "m = xs @ (i, pc) # ys" "jm_set i (p, ctx) m = xs @ (i, p, ctx) # ys" by blast
  then show ?thesis using Some by (simp add: waiting_at_def pc)
qed

lemma early_used [simp]: "used (s\<lparr>early := e\<rparr>) = used s"
  by (simp add: used_def)

lemma exec_used:
  assumes "pending_ok s"
  shows "used (pending_exec c s) + mset (replaced_by c s) = used s + mset (if asks c then [next_promise s] else []) \<and>
    next_promise (pending_exec c s) = next_promise s + (if asks c then 1 else 0)"
proof -
  have wf: "jm_wf (approvals s)" "jm_wf (questions s)" using assms by (simp_all add: pending_ok_def)
  note set_waiting = mset_set_waiting [OF wf(1)] mset_set_waiting [OF wf(2)]
  show ?thesis
  proof (cases c)
    case (RequestApproval i ctx)
    show ?thesis
    proof (cases "jm_get (early s) i")
      case None
      then show ?thesis using set_waiting(1) [of i "next_promise s" ctx]
        by (simp add: RequestApproval requestApproval_def Let_def used_def ac_simps)
    next
      case (Some e)
      then show ?thesis by (simp add: RequestApproval requestApproval_def Let_def used_def settle_def)
    qed
  next
    case (AskUser i ctx)
    then show ?thesis using set_waiting(2) [of i "next_promise s" ctx]
      by (simp add: askUser_def Let_def used_def ac_simps)
  next
    case (Decide i d conv)
    then show ?thesis using mset_jm_delete [OF wf(1), of i _ promise_of]
      by (auto simp: decide_def settle_def used_def ac_simps split: option.split)
  next
    case (Answer i ans)
    then show ?thesis using mset_jm_delete [OF wf(2), of i _ promise_of]
      by (auto simp: answer_def settle_def used_def ac_simps split: option.split)
  qed (simp_all add: cancelConversation_def cancelTurn_def cancelAll_def Let_def cancelWhere_used, simp_all add: cancelWhere_def Let_def)
qed

lemma accounted:
  "used (pending_run cs) + mset (replaced_in cs) = mset [0..<length (asked cs)] \<and> next_promise (pending_run cs) = length (asked cs)"
proof (induction cs rule: rev_induct)
  case Nil
  then show ?case by (simp add: used_def new_pending_def asked_def)
next
  case (snoc c cs)
  note step = exec_used [OF reachable_ok [OF pending_run_reachable [of cs]], of c]
  have "used (pending_run (cs @ [c])) + mset (replaced_in (cs @ [c])) =
      used (pending_run cs) + mset (replaced_in cs) + mset (if asks c then [next_promise (pending_run cs)] else [])"
    using conjunct1 [OF step] by (simp add: ac_simps)
  then show ?case using snoc step by (simp add: asked_def atLeast0_lessThan_Suc)
qed

subsection \<open>What a promise is resolved with\<close>

text \<open>A cancellation that covers a call: of its conversation, of its turn, or of everything.\<close>

fun covers :: "call_ctx \<Rightarrow> pending_call \<Rightarrow> bool" where
  "covers ctx (CancelConversation conv) \<longleftrightarrow> conversationId ctx = conv"
| "covers ctx (CancelTurn turn) \<longleftrightarrow> turnId ctx = turn"
| "covers ctx CancelAll \<longleftrightarrow> True"
| "covers ctx c \<longleftrightarrow> False"

definition decided_as :: "pending_call list \<Rightarrow> string \<Rightarrow> decision \<Rightarrow> bool" where
  "decided_as cs i d \<longleftrightarrow> list_ex (\<lambda>c. case c of Decide j d' _ \<Rightarrow> j = i \<and> d' = d | _ \<Rightarrow> False) cs"

fun rightly_settled :: "pending_call list \<Rightarrow> pending_call \<Rightarrow> settlement \<Rightarrow> bool" where
  "rightly_settled cs (RequestApproval i ctx) (Decided d) \<longleftrightarrow> decided_as cs i d \<or> d = Deny \<and> list_ex (covers ctx) cs"
| "rightly_settled cs (AskUser i ctx) (Answered a) \<longleftrightarrow> Answer i a \<in> set cs \<or> a = [] \<and> list_ex (covers ctx) cs"
| "rightly_settled cs _ _ \<longleftrightarrow> False"

definition approval_asked :: "pending_call list \<Rightarrow> string \<times> promise \<times> call_ctx \<Rightarrow> bool" where
  "approval_asked cs x \<longleftrightarrow> promise_of x < length (asked cs) \<and> asked cs ! promise_of x = RequestApproval (fst x) (snd (snd x))"

definition question_asked :: "pending_call list \<Rightarrow> string \<times> promise \<times> call_ctx \<Rightarrow> bool" where
  "question_asked cs x \<longleftrightarrow> promise_of x < length (asked cs) \<and> asked cs ! promise_of x = AskUser (fst x) (snd (snd x))"

definition settled_well :: "pending_call list \<Rightarrow> promise \<times> settlement \<Rightarrow> bool" where
  "settled_well cs x \<longleftrightarrow> fst x < length (asked cs) \<and> rightly_settled cs (asked cs ! fst x) (snd x)"

definition trace_ok :: "pending_call list \<Rightarrow> pending \<Rightarrow> bool" where
  "trace_ok cs s \<longleftrightarrow> Ball (set (approvals s)) (approval_asked cs) \<and> Ball (set (questions s)) (question_asked cs) \<and>
     (\<forall>(i, e)\<in>set (early s). decided_as cs i (e_decision e)) \<and> Ball (set (settled s)) (settled_well cs)"

lemma asked_snoc: "asked (cs @ [c]) = asked cs @ (if asks c then [c] else [])"
  by (simp add: asked_def)

lemma decided_later: "decided_as cs i d \<Longrightarrow> decided_as (cs @ [c]) i d"
  by (simp add: decided_as_def)

lemma rightly_settled_later: "rightly_settled cs a v \<Longrightarrow> rightly_settled (cs @ [c]) a v"
  by (cases "(cs, a, v)" rule: rightly_settled.cases) (auto simp: decided_later)

lemma traced_later:
  "approval_asked cs x \<Longrightarrow> approval_asked (cs @ [c]) x" "question_asked cs x \<Longrightarrow> question_asked (cs @ [c]) x"
  "settled_well cs y \<Longrightarrow> settled_well (cs @ [c]) y"
  by (auto simp: approval_asked_def question_asked_def settled_well_def asked_snoc nth_append rightly_settled_later)

lemma trace_ok_later: "trace_ok cs s \<Longrightarrow> trace_ok (cs @ [c]) s"
  unfolding trace_ok_def using traced_later decided_later by blast

lemma set_jm_set: "x \<in> set (jm_set k v m) \<Longrightarrow> x = (k, v) \<or> x \<in> set m"
  by (induction m) (auto split: if_splits)

lemma set_jm_delete: "x \<in> set (jm_delete k m) \<Longrightarrow> x \<in> set m"
  by (induction m) (auto split: if_splits)

text \<open>Resolving what waits, and cancelling.\<close>

lemma settled_approval: "approval_asked cs x \<Longrightarrow> rightly_settled cs (RequestApproval (fst x) (snd (snd x))) v \<Longrightarrow> settled_well cs (promise_of x, v)"
  by (simp add: approval_asked_def settled_well_def)

lemma settled_question: "question_asked cs x \<Longrightarrow> rightly_settled cs (AskUser (fst x) (snd (snd x))) v \<Longrightarrow> settled_well cs (promise_of x, v)"
  by (simp add: question_asked_def settled_well_def)

lemma trace_cancel:
  assumes "trace_ok cs s" "\<And>ctx. matches ctx \<Longrightarrow> list_ex (covers ctx) cs" "set e \<subseteq> set (early s)"
  shows "trace_ok cs (snd (cancelWhere matches (s\<lparr>early := e\<rparr>)))"
proof -
  have "settled_well cs (promise_of x, Decided Deny)" if "x \<in> set (approvals s)" "matches (snd (snd x))" for x
    using assms(1,2) that by (intro settled_approval) (auto simp: trace_ok_def)
  moreover have "settled_well cs (promise_of x, Answered [])" if "x \<in> set (questions s)" "matches (snd (snd x))" for x
    using assms(1,2) that by (intro settled_question) (auto simp: trace_ok_def)
  ultimately show ?thesis using assms(1,3) by (auto simp: trace_ok_def cancelWhere_def Let_def)
qed

lemma trace_step:
  assumes ok: "trace_ok cs s" and n: "next_promise s = length (asked cs)"
  shows "trace_ok (cs @ [c]) (pending_exec c s)"
proof -
  note later = trace_ok_later [OF ok, of c]
  have filtered: "set (filter P xs) \<subseteq> set xs" for P and xs :: "'x list" by auto
  show ?thesis
  proof (cases c)
    case (RequestApproval i ctx)
    have new: "approval_asked (cs @ [c]) (i, next_promise s, ctx)"
      by (simp add: approval_asked_def asked_snoc RequestApproval n)
    show ?thesis
    proof (cases "jm_get (early s) i")
      case None
      then show ?thesis using later new
        by (auto simp: trace_ok_def RequestApproval requestApproval_def Let_def dest!: set_jm_set)
    next
      case (Some e)
      then have "decided_as (cs @ [c]) i (e_decision e)" using later map_of_SomeD [OF Some] by (auto simp: trace_ok_def)
      then have "settled_well (cs @ [c]) (next_promise s, Decided (e_decision e))"
        using settled_approval [OF new] by simp
      then show ?thesis using later Some
        by (auto simp: trace_ok_def RequestApproval requestApproval_def Let_def settle_def dest!: set_jm_delete)
    qed
  next
    case (AskUser i ctx)
    have "question_asked (cs @ [c]) (i, next_promise s, ctx)"
      by (simp add: question_asked_def asked_snoc AskUser n)
    then show ?thesis using later by (auto simp: trace_ok_def AskUser askUser_def Let_def dest!: set_jm_set)
  next
    case (Decide i d conv)
    have d: "decided_as (cs @ [c]) i d" by (simp add: decided_as_def Decide)
    show ?thesis
    proof (cases "jm_get (approvals s) i")
      case None
      then show ?thesis using later d by (auto simp: trace_ok_def Decide decide_def dest!: set_jm_set)
    next
      case (Some pc)
      then have "approval_asked (cs @ [c]) (i, pc)" using later map_of_SomeD [OF Some] by (auto simp: trace_ok_def)
      from settled_approval [OF this, of "Decided d"] d have "settled_well (cs @ [c]) (fst pc, Decided d)" by simp
      then show ?thesis using later Some
        by (auto simp: trace_ok_def Decide decide_def settle_def split: prod.split dest!: set_jm_delete)
    qed
  next
    case (Answer i ans)
    show ?thesis
    proof (cases "jm_get (questions s) i")
      case None
      then show ?thesis using later by (simp add: Answer answer_def)
    next
      case (Some pc)
      then have "question_asked (cs @ [c]) (i, pc)" using later map_of_SomeD [OF Some] by (auto simp: trace_ok_def)
      from settled_question [OF this, of "Answered ans"] have "settled_well (cs @ [c]) (fst pc, Answered ans)"
        by (simp add: Answer)
      then show ?thesis using later Some
        by (auto simp: trace_ok_def Answer answer_def settle_def split: prod.split dest!: set_jm_delete)
    qed
  next
    case (CancelConversation conv)
    show ?thesis unfolding CancelConversation pending_exec.simps cancelConversation_def
      by (rule trace_cancel [OF later [unfolded CancelConversation] _ filtered]) simp
  next
    case (CancelTurn turn)
    show ?thesis unfolding CancelTurn pending_exec.simps cancelTurn_def Let_def
      by (rule trace_cancel [OF later [unfolded CancelTurn] _ filtered]) simp
  next
    case CancelAll
    show ?thesis unfolding CancelAll pending_exec.simps cancelAll_def
      by (rule trace_cancel [OF later [unfolded CancelAll]]) simp_all
  qed
qed

lemma traced: "trace_ok cs (pending_run cs)"
proof (induction cs rule: rev_induct)
  case Nil
  then show ?case by (simp add: trace_ok_def new_pending_def)
next
  case (snoc c cs)
  then show ?case using trace_step [of cs "pending_run cs" c] accounted [of cs] by simp
qed

subsection \<open>Properties\<close>

text \<open>C9: every promise that was made is accounted for after any calls: it was resolved, once, or it waits, in one place, or a
  later request or question with the same call id took its place; the n-th call that asks gets promise n. And one that was resolved got what was decided or answered
  for its own call id, or was denied or skipped by a cancellation that covers its call; so nothing is ever allowed that the
  user did not allow.\<close>

theorem resolved_once:
  "let s = pending_run cs
   in mset (map fst (settled s)) + mset (map promise_of (approvals s @ questions s)) + mset (replaced_in cs) =
        mset [0..<length (asked cs)] \<and>
      list_all (\<lambda>(p, v). rightly_settled cs (asked cs ! p) v) (settled s) \<and>
      fst (requestApproval i ctx s) = length (asked cs) \<and> fst (askUser i ctx s) = length (asked cs)"
proof -
  have "list_all (\<lambda>(p, v). rightly_settled cs (asked cs ! p) v) (settled (pending_run cs))"
    using traced [of cs] by (auto simp: trace_ok_def settled_well_def list_all_iff)
  moreover have "mset (map fst (settled (pending_run cs))) +
      mset (map promise_of (approvals (pending_run cs) @ questions (pending_run cs))) + mset (replaced_in cs) = mset [0..<length (asked cs)]"
    using accounted [of cs] by (simp add: used_def ac_simps)
  moreover have "fst (requestApproval i ctx (pending_run cs)) = length (asked cs)" "fst (askUser i ctx (pending_run cs)) = length (asked cs)"
    using accounted [of cs] by (simp_all add: requestApproval_def askUser_def Let_def split: option.split)
  ultimately show ?thesis unfolding Let_def by blast
qed

text \<open>a new message in a conversation denies every approval and skips every question raised in it,
  each once and in order, drops the early decisions attributed to it, and leaves every other
  conversation's approvals, questions and early decisions as they were.\<close>

theorem cancelConversation_scope:
  "let (n, s') = cancelConversation conv s;
       mine = (\<lambda>x :: string \<times> promise \<times> call_ctx. conversationId (snd (snd x)) = conv)
   in settled s' = settled s @ map (\<lambda>x. (promise_of x, Decided Deny)) (filter mine (approvals s))
                             @ map (\<lambda>x. (promise_of x, Answered [])) (filter mine (questions s)) \<and>
      n = length (settled s') - length (settled s) \<and>
      approvals s' = filter (\<lambda>x. \<not> mine x) (approvals s) \<and>
      questions s' = filter (\<lambda>x. \<not> mine x) (questions s) \<and>
      early s' = filter (\<lambda>x. e_conversationId (snd x) \<noteq> Some conv) (early s)"
  by (simp add: cancelConversation_def cancelWhere_def Let_def case_prod_beta)

text \<open>the user's decision reaches the tool call whichever comes first: made before the dispatcher asks,
  it is stashed and resolves the request at once, and is used up; made after, it resolves the waiting
  request. Either way the request is resolved with that decision and nothing is left waiting.\<close>

theorem decision_delivered:
  assumes "reachable s" "jm_get (approvals s) callId = None" "jm_get (early s) callId = None"
  shows "(let (b, s1) = decide callId d conv s; (p, s2) = requestApproval callId ctx s1
          in \<not> b \<and> (p, Decided d) \<in> set (settled s2) \<and> jm_get (early s2) callId = None \<and>
             approvals s2 = approvals s) \<and>
         (let (p, s1) = requestApproval callId ctx s; (b, s2) = decide callId d conv s1
          in b \<and> (p, Decided d) \<in> set (settled s2) \<and> early s2 = early s \<and>
             approvals s2 = approvals s \<and> (p, Decided d) \<notin> set (settled s1))"
proof -
  have "count (used s) (next_promise s) \<le> 0"
    using count_used [OF reachable_ok [OF assms(1)], of "next_promise s"] by simp
  then have "count (mset (map fst (settled s))) (next_promise s) = 0"
    unfolding used_def by simp
  then have "next_promise s \<notin> fst ` set (settled s)"
    by (simp only: count_map_0 not_False_eq_True)
  then have new: "(next_promise s, v) \<notin> set (settled s)" for v by force
  have del: "jm_delete callId (approvals s @ [(callId, v)]) = approvals s" for v
    by (rule jm_delete_new [OF assms(2)])
  show ?thesis
    using assms(2,3) new del
    by (simp add: decide_def requestApproval_def Let_def settle_def js_simps jm_set_new jm_delete_new map_add_def)
qed

subsection \<open>Witnesses\<close>

definition pi_asked :: pending where
  "pi_asked = snd (askUser ''q1'' \<lparr>conversationId = ''B'', turnId = ''u''\<rparr> new_pending)"

definition pi_waiting :: pending where
  "pi_waiting = snd (requestApproval ''c1'' \<lparr>conversationId = ''A'', turnId = ''t''\<rparr> pi_asked)"

definition pi_example :: pending where
  "pi_example = snd (decide ''c1'' Deny None pi_waiting)"

lemma pi_example_reachable: "reachable pi_example"
proof -
  have "reachable pi_asked"
    unfolding pi_asked_def by (rule reachable.step [OF reachable.initial pending_step.intros(3)])
  then have "reachable pi_waiting"
    unfolding pi_waiting_def by (rule reachable.step [OF _ pending_step.intros(1)])
  then show ?thesis
    unfolding pi_example_def by (rule reachable.step [OF _ pending_step.intros(2)])
qed

theorem decision_delivered_witness:
  "let (b, s1) = decide ''c2'' Allow None pi_example;
       (p, s2) = requestApproval ''c2'' \<lparr>conversationId = ''A'', turnId = ''t''\<rparr> s1
   in \<not> b \<and> (p, Decided Allow) \<in> set (settled s2)"
proof -
  have "jm_get (approvals pi_example) ''c2'' = None" "jm_get (early pi_example) ''c2'' = None"
    by code_simp+
  from decision_delivered [OF pi_example_reachable this, where d = Allow and conv = None
      and ctx = "\<lparr>conversationId = ''A'', turnId = ''t''\<rparr>"]
  show ?thesis by (auto simp: case_prod_beta Let_def)
qed

end
