(* ===== verification/TextPositions.thy ===== *)
theory TextPositions
  imports L4Prelude "HOL-Library.Word"
begin

text \<open>
  Offsets and (line, character) positions in a document:
  \<^verbatim>\<open>ts-shared/legalese-agent/src/text-positions.ts\<close>.

  A document is its list of UTF-16 code units, 16-bit words. Offsets and positions the host
  sends are integers (they may be negative or past the end); what the functions return is a natural
  number.
\<close>

subsection \<open>Definitions\<close>

type_synonym code_unit = "16 word"

type_synonym document = "code_unit list"

record lsp_position =
  line :: int
  character :: int

definition char_at_is :: "document \<Rightarrow> nat \<Rightarrow> code_unit \<Rightarrow> bool" where
  "char_at_is doc i c \<longleftrightarrow> i < length doc \<and> doc ! i = c"

text \<open>The loop of \<^verbatim>\<open>lineStarts\<close>, from index \<open>i\<close>: what it still pushes.\<close>

function lineStarts_from :: "document \<Rightarrow> nat \<Rightarrow> nat list" where
  "lineStarts_from doc i =
     (if i < length doc then
        (if char_at_is doc i 13 then
           (let i' = (if char_at_is doc (i + 1) 10 then i + 1 else i)
            in (i' + 1) # lineStarts_from doc (i' + 1))
         else if char_at_is doc i 10 then (i + 1) # lineStarts_from doc (i + 1)
         else lineStarts_from doc (i + 1))
      else [])"
  by pat_completeness auto
termination
  by (relation "measure (\<lambda>(doc, i). length doc - i)") (auto split: if_splits)

declare lineStarts_from.simps [simp del]

definition lineStarts :: "document \<Rightarrow> nat list" where
  "lineStarts doc = 0 # lineStarts_from doc 0"

definition lineEnd :: "document \<Rightarrow> nat list \<Rightarrow> nat \<Rightarrow> nat" where
  "lineEnd doc starts l =
     (if l + 1 < length starts then
        (let e = starts ! (l + 1);
             e = (if 0 < e \<and> char_at_is doc (e - 1) 10 then e - 1 else e)
         in if 0 < e \<and> char_at_is doc (e - 1) 13 then e - 1 else e)
      else length doc)"

text \<open>The binary search of \<^verbatim>\<open>positionAt\<close>.\<close>

function bsearch :: "nat list \<Rightarrow> nat \<Rightarrow> nat \<Rightarrow> nat \<Rightarrow> nat" where
  "bsearch starts clamped lo hi =
     (if lo < hi then
        (let mid = (lo + hi + 1) div 2
         in if starts ! mid \<le> clamped then bsearch starts clamped mid hi
            else bsearch starts clamped lo (mid - 1))
      else lo)"
  by pat_completeness auto
termination
  by (relation "measure (\<lambda>(starts, clamped, lo, hi). hi - lo)") auto

declare bsearch.simps [simp del]

definition positionAt :: "document \<Rightarrow> int \<Rightarrow> lsp_position" where
  "positionAt doc offset =
     (let clamped = nat (max 0 (min offset (int (length doc))));
          starts = lineStarts doc;
          lo = bsearch starts clamped 0 (length starts - 1)
      in \<lparr>line = int lo, character = int (min clamped (lineEnd doc starts lo)) - int (starts ! lo)\<rparr>)"

definition offsetAt :: "document \<Rightarrow> lsp_position \<Rightarrow> nat" where
  "offsetAt doc p =
     (let starts = lineStarts doc
      in if line p < 0 then 0
         else if line p \<ge> int (length starts) then length doc
         else min (starts ! nat (line p) + nat (max 0 (character p))) (lineEnd doc starts (nat (line p))))"

definition textInRange :: "document \<Rightarrow> lsp_position \<Rightarrow> lsp_position \<Rightarrow> document" where
  "textInRange doc p q =
     (let a = offsetAt doc p; b = offsetAt doc q in take (b - a) (drop a doc))"

subsection \<open>Where lines start\<close>

text \<open>An offset just after a line terminator, and one between the two halves of one.\<close>

definition after_break :: "document \<Rightarrow> nat \<Rightarrow> bool" where
  "after_break doc i \<longleftrightarrow> 0 < i \<and>
     (char_at_is doc (i - 1) 10 \<or> char_at_is doc (i - 1) 13 \<and> \<not> char_at_is doc i 10)"

definition inside_crlf :: "document \<Rightarrow> nat \<Rightarrow> bool" where
  "inside_crlf doc i \<longleftrightarrow> 0 < i \<and> char_at_is doc (i - 1) 13 \<and> char_at_is doc i 10"

lemma after_break_le: "after_break doc i \<Longrightarrow> i \<le> length doc"
  by (auto simp: after_break_def char_at_is_def)

lemma after_break_not_inside: "after_break doc i \<Longrightarrow> \<not> inside_crlf doc i"
  by (auto simp: after_break_def inside_crlf_def char_at_is_def)


lemma lineStarts_from_gt: "j \<in> set (lineStarts_from doc i) \<Longrightarrow> i < j"
proof (induction doc i rule: lineStarts_from.induct)
  case (1 doc i)
  then show ?case
    by (subst (asm) (3) lineStarts_from.simps) (fastforce simp: Let_def split: if_splits)
qed

lemma lineStarts_from_sorted: "sorted_wrt (<) (lineStarts_from doc i)"
proof (induction doc i rule: lineStarts_from.induct)
  case (1 doc i)
  then show ?case
    by (subst lineStarts_from.simps) (auto simp: Let_def dest: lineStarts_from_gt)
qed

lemma set_lineStarts_from:
  "\<not> inside_crlf doc i \<Longrightarrow> set (lineStarts_from doc i) = {j. i < j \<and> after_break doc j}"
proof (induction doc i rule: lineStarts_from.induct)
  case (1 doc i)
  have step: "{j. i < j \<and> after_break doc j} =
      (if after_break doc (i + 1) then {i + 1} else {}) \<union> {j. i + 1 < j \<and> after_break doc j}"
    by (auto simp: Suc_lessI le_less_Suc_eq) (metis Suc_lessI)
  have step2: "char_at_is doc i 13 \<Longrightarrow> char_at_is doc (i + 1) 10 \<Longrightarrow>
      {j. i + 1 < j \<and> after_break doc j} = {i + 2} \<union> {j. i + 2 < j \<and> after_break doc j}"
    by (auto simp: after_break_def)
  consider "\<not> i < length doc" | (crlf) "char_at_is doc i 13" "char_at_is doc (i + 1) 10"
    | (cr) "char_at_is doc i 13" "\<not> char_at_is doc (i + 1) 10" | (lf) "char_at_is doc i 10"
    | (other) "i < length doc" "\<not> char_at_is doc i 13" "\<not> char_at_is doc i 10"
    by blast
  then show ?case
  proof cases
    case 1
    then have "{j. i < j \<and> after_break doc j} = {}" using after_break_le by fastforce
    then show ?thesis using 1 by (subst lineStarts_from.simps) simp
  next
    case crlf
    then have "i < length doc" "\<not> inside_crlf doc (i + 2)" "\<not> after_break doc (i + 1)"
      by (auto simp: char_at_is_def inside_crlf_def after_break_def)
    then show ?thesis using crlf 1(1) step step2 by (subst lineStarts_from.simps) (simp add: Let_def)
  next
    case cr
    then have "i < length doc" "\<not> inside_crlf doc (i + 1)" "after_break doc (i + 1)"
      by (auto simp: char_at_is_def inside_crlf_def after_break_def)
    then show ?thesis using cr 1(1) step by (subst lineStarts_from.simps) (simp add: Let_def)
  next
    case lf
    then have "i < length doc" "\<not> inside_crlf doc (i + 1)" "after_break doc (i + 1)" "\<not> char_at_is doc i 13"
      by (auto simp: char_at_is_def inside_crlf_def after_break_def)
    then show ?thesis using lf 1(2) step by (subst lineStarts_from.simps) simp
  next
    case other
    then have "\<not> inside_crlf doc (i + 1)" "\<not> after_break doc (i + 1)"
      by (auto simp: char_at_is_def inside_crlf_def after_break_def)
    then show ?thesis using other 1(3) step by (subst lineStarts_from.simps) simp
  qed
qed


lemma lineStarts_sorted: "sorted_wrt (<) (lineStarts d)"
  by (auto simp: lineStarts_def lineStarts_from_sorted dest: lineStarts_from_gt)

lemma set_lineStarts: "set (lineStarts d) = {j. j = 0 \<or> after_break d j}"
  using set_lineStarts_from [of d 0]
  by (auto simp: lineStarts_def inside_crlf_def after_break_def)

lemma lineStarts_0 [simp]: "lineStarts d ! 0 = 0" "lineStarts d \<noteq> []"
  by (simp_all add: lineStarts_def)

lemma lineStarts_less: "i < j \<Longrightarrow> j < length (lineStarts d) \<Longrightarrow> lineStarts d ! i < lineStarts d ! j"
  by (rule sorted_wrt_nth_less [OF lineStarts_sorted])

text \<open>The line an offset is in.\<close>

definition in_line :: "document \<Rightarrow> nat \<Rightarrow> nat \<Rightarrow> bool" where
  "in_line d l p \<longleftrightarrow> l < length (lineStarts d) \<and> lineStarts d ! l \<le> p \<and>
     (l + 1 < length (lineStarts d) \<longrightarrow> p < lineStarts d ! (l + 1))"

lemma bsearch_line:
  assumes "sorted_wrt (<) starts" "lo \<le> hi" "hi < length starts" "starts ! lo \<le> c"
    "\<And>k. hi < k \<Longrightarrow> k < length starts \<Longrightarrow> c < starts ! k"
  shows "bsearch starts c lo hi < length starts \<and> starts ! bsearch starts c lo hi \<le> c \<and>
    (\<forall>k. bsearch starts c lo hi < k \<and> k < length starts \<longrightarrow> c < starts ! k)"
  using assms
proof (induction starts c lo hi rule: bsearch.induct)
  case (1 starts c lo hi)
  let ?mid = "(lo + hi + 1) div 2"
  show ?case
  proof (cases "lo < hi")
    case True
    show ?thesis
    proof (cases "starts ! ?mid \<le> c")
      case le: True
      have "?mid \<le> hi" using True by simp
      then show ?thesis
        using 1(1) [OF True refl le] 1(3-) le by (subst (1 2 3) bsearch.simps) (simp add: True Let_def)
    next
      case False
      have "c < starts ! k" if "?mid - 1 < k" "k < length starts" for k
      proof (cases "k = ?mid")
        case False
        then have "starts ! ?mid < starts ! k"
          using that by (intro sorted_wrt_nth_less [OF \<open>sorted_wrt (<) starts\<close>]) auto
        then show ?thesis using \<open>\<not> starts ! ?mid \<le> c\<close> by simp
      qed (use \<open>\<not> starts ! ?mid \<le> c\<close> in simp)
      moreover have "lo \<le> ?mid - 1" "?mid - 1 < length starts" using True 1(5) by auto
      ultimately show ?thesis
        using 1(2) [OF True refl False] 1(3) 1(6) False by (subst (1 2 3) bsearch.simps) (simp add: True Let_def)
    qed
  next
    case False
    then show ?thesis using 1(3-) by (subst (1 2 3) bsearch.simps) simp
  qed
qed

abbreviation line_of :: "document \<Rightarrow> nat \<Rightarrow> nat" where
  "line_of d p \<equiv> bsearch (lineStarts d) p 0 (length (lineStarts d) - 1)"

lemma in_line_line_of: "in_line d (line_of d p) p"
proof -
  have "length (lineStarts d) - 1 < length (lineStarts d)" by simp
  from bsearch_line [OF lineStarts_sorted _ this, of 0 p] show ?thesis
    by (auto simp: in_line_def)
qed

lemma line_interval:
  assumes "l < length (lineStarts d)" "lineStarts d ! l < j" "after_break d j"
  shows "l + 1 < length (lineStarts d) \<and> lineStarts d ! (l + 1) \<le> j"
proof -
  from assms(3) have "j \<in> set (lineStarts d)" by (simp add: set_lineStarts)
  then obtain k where k: "k < length (lineStarts d)" "lineStarts d ! k = j" by (auto simp: in_set_conv_nth)
  have "l < k"
  proof (rule ccontr)
    assume "\<not> l < k"
    then have "lineStarts d ! k \<le> lineStarts d ! l"
      using lineStarts_less [of k l d] assms(1) by (cases "k = l") auto
    then show False using k assms(2) by simp
  qed
  then show ?thesis using k lineStarts_less [of "l + 1" k d] by (cases "k = l + 1") auto
qed

lemma in_line_unique:
  assumes "in_line d l p" "in_line d m p"
  shows "l = m"
proof -
  have "\<not> a < b" if "in_line d a p" "in_line d b p" for a b
  proof
    assume "a < b"
    then have "lineStarts d ! (a + 1) \<le> lineStarts d ! b"
      using lineStarts_less [of "a + 1" b d] that(2) by (cases "a + 1 = b") (auto simp: in_line_def)
    then show False using that \<open>a < b\<close> by (auto simp: in_line_def)
  qed
  then show ?thesis using assms by (metis linorder_neqE_nat)
qed


subsection \<open>Where lines end\<close>

lemma inside_crlf_line:
  assumes "in_line d l p" "inside_crlf d p"
  shows "l + 1 < length (lineStarts d) \<and> lineStarts d ! (l + 1) = p + 1"
proof -
  have "after_break d (p + 1)" "lineStarts d ! l < p + 1" "l < length (lineStarts d)"
    using assms by (auto simp: inside_crlf_def after_break_def in_line_def)
  from line_interval [OF this(3,2,1)] show ?thesis using assms(1) by (auto simp: in_line_def)
qed

lemma line_start_not_inside:
  assumes "l < length (lineStarts d)" shows "\<not> inside_crlf d (lineStarts d ! l)"
proof -
  have "lineStarts d ! l \<in> set (lineStarts d)" using assms by simp
  then have "lineStarts d ! l = 0 \<or> after_break d (lineStarts d ! l)" by (simp add: set_lineStarts)
  then show ?thesis using after_break_not_inside [of d "lineStarts d ! l"] by (auto simp: inside_crlf_def)
qed

lemma line_start_le:
  assumes "l < length (lineStarts d)" shows "lineStarts d ! l \<le> length d"
proof -
  have "lineStarts d ! l \<in> set (lineStarts d)" using assms by simp
  then show ?thesis using after_break_le by (auto simp: set_lineStarts)
qed

text \<open>The end of a line that is not the last: its terminator is one code unit, or the two of a CRLF.\<close>

lemma lineEnd_next:
  assumes "l + 1 < length (lineStarts d)"
  defines "n \<equiv> lineStarts d ! (l + 1)"
  shows "lineEnd d (lineStarts d) l = (if inside_crlf d (n - 1) then n - 2 else n - 1)"
    and "lineStarts d ! l \<le> lineEnd d (lineStarts d) l" and "0 < n"
proof -
  have "n \<in> set (lineStarts d)" using assms by simp
  moreover have lt: "lineStarts d ! l < n" using assms lineStarts_less [of l "l + 1" d] by simp
  ultimately have br: "after_break d n" by (auto simp: set_lineStarts)
  then show "0 < n" by (simp add: after_break_def)
  show eq: "lineEnd d (lineStarts d) l = (if inside_crlf d (n - 1) then n - 2 else n - 1)"
    using br assms(1) unfolding n_def
    by (auto simp: lineEnd_def Let_def after_break_def inside_crlf_def char_at_is_def)
  have "lineStarts d ! l \<noteq> n - 1" if "inside_crlf d (n - 1)"
    using line_start_not_inside [of l d] assms(1) that by auto
  then show "lineStarts d ! l \<le> lineEnd d (lineStarts d) l" using lt eq by auto
qed

lemma lineEnd_ge: "l < length (lineStarts d) \<Longrightarrow> lineStarts d ! l \<le> lineEnd d (lineStarts d) l"
  using lineEnd_next(2) [of l d] line_start_le [of l d]
  by (cases "l + 1 < length (lineStarts d)") (auto simp: lineEnd_def)

lemma lineEnd_in_line:
  assumes "l < length (lineStarts d)" "lineStarts d ! l \<le> p" "p \<le> lineEnd d (lineStarts d) l"
  shows "in_line d l p \<and> \<not> inside_crlf d p"
proof (cases "l + 1 < length (lineStarts d)")
  case True
  note e = lineEnd_next [OF True]
  have "in_line d l p" using assms e(1,3) True by (auto simp: in_line_def split: if_splits)
  moreover have "\<not> inside_crlf d p"
    using inside_crlf_line [OF \<open>in_line d l p\<close>] e(1,3) assms(3) by (auto simp: inside_crlf_def split: if_splits)
  ultimately show ?thesis by simp
next
  case False
  then have "in_line d l p" using assms by (simp add: in_line_def)
  moreover have "\<not> inside_crlf d p" using inside_crlf_line [OF \<open>in_line d l p\<close>] False by auto
  ultimately show ?thesis by simp
qed

text \<open>Clamping an offset to its line's text changes it only between the halves of a CRLF.\<close>

lemma min_lineEnd:
  assumes "in_line d l p" "p \<le> length d"
  shows "min p (lineEnd d (lineStarts d) l) = (if inside_crlf d p then p - 1 else p)"
proof (cases "l + 1 < length (lineStarts d)")
  case True
  note e = lineEnd_next [OF True]
  have "p < lineStarts d ! (l + 1)" using assms True by (simp add: in_line_def)
  show ?thesis
  proof (cases "inside_crlf d p")
    case inside: True
    then have "lineStarts d ! (l + 1) = p + 1" using inside_crlf_line [OF assms(1)] by simp
    moreover have "0 < p" using inside by (simp add: inside_crlf_def)
    ultimately show ?thesis using e(1) inside by simp
  next
    case False
    then show ?thesis
      using e(1) \<open>p < lineStarts d ! (l + 1)\<close>
      by (cases "p = lineStarts d ! (l + 1) - 1") (auto simp: min_def)
  qed
next
  case False
  then have "\<not> inside_crlf d p" using inside_crlf_line [OF assms(1)] by auto
  then show ?thesis using False assms by (simp add: lineEnd_def)
qed

lemma clamp_line: "s \<le> min p e \<Longrightarrow> min (s + nat (max 0 (int (min p e) - int s))) e = min p e"
  by (auto simp: min_def max_def)

text \<open>The clamped offset of \<^verbatim>\<open>positionAt\<close>.\<close>

definition clamp_offset :: "document \<Rightarrow> int \<Rightarrow> nat" where
  "clamp_offset d offset = nat (max 0 (min offset (int (length d))))"

lemma clamp_offset_le: "clamp_offset d offset \<le> length d"
  by (auto simp: clamp_offset_def)

lemma clamp_offset_of_nat [simp]: "p \<le> length d \<Longrightarrow> clamp_offset d (int p) = p"
  by (simp add: clamp_offset_def)

lemma positionAt_clamp:
  "positionAt d offset =
     (let p = clamp_offset d offset; l = line_of d p; s = lineStarts d ! l
      in \<lparr>line = int l, character = int (if inside_crlf d p then p - 1 else p) - int s\<rparr>)"
  using min_lineEnd [OF in_line_line_of clamp_offset_le]
  by (simp add: positionAt_def Let_def clamp_offset_def)

lemma line_of_start:
  "lineStarts d ! line_of d p \<le> (if inside_crlf d p then p - 1 else p)" if "p \<le> length d"
proof -
  note il = in_line_line_of [of d p]
  have "lineStarts d ! line_of d p \<le> min p (lineEnd d (lineStarts d) (line_of d p))"
    using lineEnd_ge [of "line_of d p" d] il by (simp add: in_line_def)
  then show ?thesis by (simp only: min_lineEnd [OF il that])
qed

lemma offsetAt_positionAt:
  "offsetAt d (positionAt d offset) =
     (let p = clamp_offset d offset in if inside_crlf d p then p - 1 else p)"
proof -
  define p where "p = clamp_offset d offset"
  define s where "s = lineStarts d ! line_of d p"
  note il = in_line_line_of [of d p]
  have p: "p \<le> length d" by (simp add: p_def clamp_offset_le)
  have l: "line_of d p < length (lineStarts d)" using il by (simp add: in_line_def)
  have eq: "(if inside_crlf d p then p - 1 else p) = min p (lineEnd d (lineStarts d) (line_of d p))"
    by (rule min_lineEnd [OF il p, symmetric])
  have "s \<le> min p (lineEnd d (lineStarts d) (line_of d p))"
    using line_of_start [OF p] by (simp only: eq s_def)
  from clamp_line [OF this]
  have "offsetAt d (positionAt d offset) = min p (lineEnd d (lineStarts d) (line_of d p))"
    using l unfolding offsetAt_def positionAt_clamp p_def [symmetric] s_def [symmetric] eq Let_def
    by (simp add: s_def)
  from trans [OF this eq [symmetric]] show ?thesis by (simp only: p_def Let_def)
qed

subsection \<open>Properties\<close>

text \<open>the line \<^verbatim>\<open>positionAt\<close> finds by binary search is the one the offset is in, for every offset
  clamped to the document: it starts at the beginning or just after a line terminator, at or before
  the offset, and no other line does so between them; the character counts code units from its start.\<close>

theorem positionAt_line:
  "let p = nat (max 0 (min offset (int (length d)))); pos = positionAt d offset
   in 0 \<le> line pos \<and> in_line d (nat (line pos)) p \<and>
      (\<forall>j. lineStarts d ! nat (line pos) < j \<and> after_break d j \<longrightarrow> p < j) \<and>
      (\<forall>l. in_line d l p \<longrightarrow> l = nat (line pos)) \<and>
      character pos = int (if inside_crlf d p then p - 1 else p) - int (lineStarts d ! nat (line pos)) \<and>
      0 \<le> character pos"
proof -
  define p where "p = clamp_offset d offset"
  note il = in_line_line_of [of d p]
  have p: "p \<le> length d" by (simp add: p_def clamp_offset_le)
  have next_line: "p < j" if "lineStarts d ! line_of d p < j" "after_break d j" for j
    using line_interval [OF _ that] il by (auto simp: in_line_def)
  have "int (lineStarts d ! line_of d p) \<le> int (if inside_crlf d p then p - 1 else p)"
    using line_of_start [OF p] by (simp only: of_nat_le_iff)
  then have start: "0 \<le> int (if inside_crlf d p then p - 1 else p) - int (lineStarts d ! line_of d p)"
    by linarith
  have pos: "positionAt d offset = \<lparr>line = int (line_of d p),
      character = int (if inside_crlf d p then p - 1 else p) - int (lineStarts d ! line_of d p)\<rparr>"
    by (simp add: positionAt_clamp p_def Let_def)
  show ?thesis
    unfolding Let_def clamp_offset_def [symmetric] p_def [symmetric] pos lsp_position.simps nat_int
    using il next_line start in_line_unique [OF _ il] by (intro conjI allI impI refl of_nat_0_le_iff) blast+
qed

text \<open>an offset survives the trip to a position and back, except inside a CRLF, where it comes back
  as the offset before it; offsets outside the document come back as its nearest end.\<close>

theorem offset_round_trip:
  "offsetAt d (positionAt d offset) =
     (let p = nat (max 0 (min offset (int (length d)))) in if inside_crlf d p then p - 1 else p)"
  using offsetAt_positionAt [of d offset] by (simp only: clamp_offset_def)

text \<open>a position on a line of the document, at or before the end of the line's text, survives the
  trip to an offset and back.\<close>

theorem position_round_trip:
  assumes "0 \<le> l" "l < int (length (lineStarts d))" "0 \<le> c"
    "lineStarts d ! nat l + nat c \<le> lineEnd d (lineStarts d) (nat l)"
  shows "positionAt d (int (offsetAt d \<lparr>line = l, character = c\<rparr>)) = \<lparr>line = l, character = c\<rparr>"
proof -
  define p where "p = lineStarts d ! nat l + nat c"
  have off: "offsetAt d \<lparr>line = l, character = c\<rparr> = p"
    using assms by (simp add: offsetAt_def Let_def p_def)
  have il: "in_line d (nat l) p" and "\<not> inside_crlf d p"
    using lineEnd_in_line [of "nat l" d p] assms by (auto simp: p_def)
  have "lineEnd d (lineStarts d) (nat l) \<le> length d"
  proof (cases "nat l + 1 < length (lineStarts d)")
    case True
    then show ?thesis using lineEnd_next(1) [OF True] line_start_le [OF True] by (auto split: if_splits)
  qed (simp add: lineEnd_def)
  then have p: "p \<le> length d" using assms by (simp add: p_def)
  have "line_of d p = nat l" by (rule in_line_unique [OF in_line_line_of il])
  then show ?thesis
    using \<open>\<not> inside_crlf d p\<close> assms unfolding off positionAt_clamp clamp_offset_of_nat [OF p]
    by (simp add: Let_def p_def)
qed


text \<open>the text between the positions of two offsets that are not inside a CRLF is the slice between
  the offsets: with what precedes and follows it, it makes up the document.\<close>

theorem textInRange_slice:
  assumes "0 \<le> a" "a \<le> b" "b \<le> int (length d)" "\<not> inside_crlf d (nat a)" "\<not> inside_crlf d (nat b)"
  shows "take (nat a) d @ textInRange d (positionAt d a) (positionAt d b) @ drop (nat b) d = d"
proof -
  have "offsetAt d (positionAt d a) = nat a" "offsetAt d (positionAt d b) = nat b"
    using assms offsetAt_positionAt [of d a] offsetAt_positionAt [of d b] by (simp_all add: clamp_offset_def)
  then have "textInRange d (positionAt d a) (positionAt d b) @ drop (nat b) d = drop (nat a) d"
    using assms by (simp add: textInRange_def) (metis append_take_drop_id drop_drop le_add_diff_inverse2 nat_mono)
  then show ?thesis by simp
qed

subsection \<open>Witnesses\<close>

text \<open>Two lines, the first ended by a CRLF: \<open>ab\<close>, \<open>c\<close>.\<close>

definition tp_example :: document where
  "tp_example = [97, 98, 13, 10, 99]"

theorem position_round_trip_witness:
  "positionAt tp_example (int (offsetAt tp_example \<lparr>line = 1, character = 1\<rparr>)) = \<lparr>line = 1, character = 1\<rparr>"
  by (rule position_round_trip) (simp, code_simp+)

theorem textInRange_slice_witness:
  "take 1 tp_example @ textInRange tp_example (positionAt tp_example 1) (positionAt tp_example 4) @ drop 4 tp_example
     = tp_example"
proof -
  have "\<not> inside_crlf tp_example 1" "\<not> inside_crlf tp_example 4" "(4 :: int) \<le> int (length tp_example)" by code_simp+
  then show ?thesis using textInRange_slice [of 1 4 tp_example] by simp
qed

theorem positionAt_line_witness:
  "in_line tp_example (nat (line (positionAt tp_example 4))) 4 \<and> character (positionAt tp_example 4) = 0 \<and>
   \<not> inside_crlf tp_example 4"
proof -
  have "line (positionAt tp_example 4) = 1" "lineStarts tp_example ! 1 = 4" "\<not> inside_crlf tp_example 4"
    "(min 4 (int (length tp_example))) = 4" by code_simp+
  then show ?thesis using positionAt_line [of 4 tp_example] by (simp add: Let_def)
qed

end
