(* ===== verification/FileState.thy ===== *)
theory FileState
  imports L4Prelude
begin

text \<open>
  How broken an L4 file is, from its diagnostics: \<^verbatim>\<open>ts-shared/legalese-agent/src/tools/lsp.ts\<close>, and the
  diagnostic types of \<^verbatim>\<open>ports.ts\<close>.

  Messages are texts of code units, because a diagnostics block has characters outside ASCII.
\<close>

subsection \<open>Diagnostics\<close>

datatype severity = SevError | SevWarning | SevInfo | SevHint

record l4_diagnostic =
  d_severity :: severity
  d_line :: nat
  d_message :: text16
  d_source :: "string option"
  d_code :: "string option"

record checked_diagnostics =
  diagnostics :: "l4_diagnostic list"
  cd_pending :: bool

record diagnostics_limit =
  maxEntries :: nat
  maxChars :: nat

subsection \<open>Levels\<close>

text \<open>\<^verbatim>\<open>FILE_LEVEL\<close>, in its numeric order.\<close>

datatype file_level = parseFailure | compileErrors | failedChecks | cleanFile

fun level_number :: "file_level \<Rightarrow> nat" where
  "level_number parseFailure = 0"
| "level_number compileErrors = 1"
| "level_number failedChecks = 2"
| "level_number cleanFile = 3"

instantiation file_level :: linorder
begin

definition less_eq_file_level :: "file_level \<Rightarrow> file_level \<Rightarrow> bool" where
  "a \<le> b \<longleftrightarrow> level_number a \<le> level_number b"

definition less_file_level :: "file_level \<Rightarrow> file_level \<Rightarrow> bool" where
  "a < b \<longleftrightarrow> level_number a < level_number b"

instance
proof
  fix x y :: file_level
  show "x \<le> y \<Longrightarrow> y \<le> x \<Longrightarrow> x = y"
    by (cases x; cases y) (simp_all add: less_eq_file_level_def)
qed (auto simp: less_eq_file_level_def less_file_level_def)

end

record l4_file_state =
  level :: file_level
  errors :: nat
  warnings :: nat
  fs_pending :: bool
  firstErrorLine :: "nat option"

definition severe :: "severity \<Rightarrow> l4_diagnostic list \<Rightarrow> l4_diagnostic list" where
  "severe sev ds = filter (\<lambda>d. d_severity d = sev) ds"

definition l4FileState :: "checked_diagnostics \<Rightarrow> l4_file_state" where
  "l4FileState checked =
     (let errs = severe SevError (diagnostics checked)
      in \<lparr>level =
            (if list_ex (\<lambda>d. d_source d = Some ''parser'' \<or> d_source d = Some ''lexer'') errs then parseFailure
             else if list_ex (\<lambda>d. d_source d \<noteq> Some ''eval'') errs then compileErrors
             else if errs \<noteq> [] then failedChecks
             else cleanFile),
          errors = length errs,
          warnings = length (severe SevWarning (diagnostics checked)),
          fs_pending = cd_pending checked,
          firstErrorLine =
            (case map d_line errs of [] \<Rightarrow> None | l # ls \<Rightarrow> Some (fold min ls l))\<rparr>)"

definition isWorse :: "l4_file_state \<Rightarrow> l4_file_state \<Rightarrow> bool" where
  "isWorse before after =
     (if level after \<noteq> level before then level after < level before
      else errors before < errors after)"

text \<open>\<^verbatim>\<open>firstErrorLine ?? -1\<close>.\<close>

definition first_line :: "l4_file_state \<Rightarrow> int" where
  "first_line s = (case firstErrorLine s of None \<Rightarrow> - 1 | Some n \<Rightarrow> int n)"

definition madeProgress :: "l4_file_state \<Rightarrow> l4_file_state \<Rightarrow> bool" where
  "madeProgress start finish =
     (if isWorse finish start then True
      else level start = parseFailure \<and> level finish = parseFailure \<and>
        errors finish = errors start \<and> first_line start < first_line finish)"

subsection \<open>Wording\<close>

definition plural :: "nat \<Rightarrow> string" where
  "plural n = (if n = 1 then [] else ''s'')"

definition describeFileState :: "l4_file_state \<Rightarrow> string" where
  "describeFileState state =
     (let n = errors state; errs = show_nat n @ '' error'' @ plural n
      in case level state of
           parseFailure \<Rightarrow> ''does not parse ('' @ errs @ '')''
         | compileErrors \<Rightarrow> ''does not compile ('' @ errs @ '')''
         | failedChecks \<Rightarrow> ''compiles, with '' @ show_nat n @ '' failed check'' @ plural n
         | cleanFile \<Rightarrow> ''compiles'')"

fun severity_word :: "severity \<Rightarrow> string" where
  "severity_word SevError = ''error''"
| "severity_word SevWarning = ''warning''"
| "severity_word SevInfo = ''info''"
| "severity_word SevHint = ''hint''"

definition summary :: "l4_diagnostic list \<Rightarrow> string" where
  "summary ds =
     (let e = length (severe SevError ds); w = length (severe SevWarning ds);
          i = length (severe SevInfo ds); h = length (severe SevHint ds)
      in join '', '' (filter (\<lambda>t. t \<noteq> [])
           [if e \<noteq> 0 then show_nat e @ '' error'' @ plural e else [],
            if w \<noteq> 0 then show_nat w @ '' warning'' @ plural w else [],
            if i \<noteq> 0 then show_nat i @ '' info'' else [],
            if h \<noteq> 0 then show_nat h @ '' hint'' @ plural h else []]))"

definition header :: "l4_diagnostic list \<Rightarrow> text16" where
  "header ds = ascii (''--- L4 diagnostics: '' @ show_nat (length ds) @ '' issue'' @ plural (length ds) @
     '' ('' @ summary ds @ '') ---'')"

text \<open>\<open>8594\<close> is the arrow between the line and the message.\<close>

definition render :: "l4_diagnostic \<Rightarrow> text16" where
  "render d =
     (let source = (case d_source d of None \<Rightarrow> [] | Some t \<Rightarrow> t);
          code = (case d_code d of None \<Rightarrow> [] | Some t \<Rightarrow> t);
          tag = (if source \<noteq> [] \<or> code \<noteq> []
                 then '' ['' @ join '':'' (filter (\<lambda>t. t \<noteq> []) [source, code]) @ '']'' else [])
      in ascii (severity_word (d_severity d) @ '' '' @ show_nat (d_line d + 1) @ '' '') @ [8594] @ ascii '' '' @
         d_message d @ ascii tag)"

definition diag_rank :: "l4_diagnostic \<Rightarrow> nat" where
  "diag_rank d =
     (case d_severity d of
        SevError \<Rightarrow> if d_source d = Some ''eval'' then 0 else 1
      | SevWarning \<Rightarrow> 2
      | SevInfo \<Rightarrow> 3
      | SevHint \<Rightarrow> 4)"

text \<open>The loop that fills a block, over the diagnostics still to show, with what it has shown and the
  characters it has used.\<close>

fun fill_block :: "diagnostics_limit \<Rightarrow> l4_diagnostic list \<Rightarrow> text16 list \<Rightarrow> nat \<Rightarrow> text16 list" where
  "fill_block limit [] shown chars = shown"
| "fill_block limit (d # ds) shown chars =
     (let t = render d
      in if maxEntries limit \<le> length shown then shown
         else if 0 < length shown \<and> maxChars limit < chars + length t then shown
         else fill_block limit ds (shown @ [t]) (chars + length t + 1))"

definition newline :: text16 where
  "newline = [10]"

definition formatL4Diagnostics :: "l4_diagnostic list \<Rightarrow> diagnostics_limit option \<Rightarrow> text16" where
  "formatL4Diagnostics filtered lim =
     (if filtered = [] then ascii ''--- L4 diagnostics: clean ---''
      else (case lim of
        None \<Rightarrow> header filtered @ newline @ join newline (map render filtered)
      | Some limit \<Rightarrow>
          (let ordered = sort_key diag_rank filtered;
               shown = fill_block limit ordered [] 0;
               hidden = length ordered - length shown;
               tail = (if 0 < hidden
                       then newline @ ascii (''... and '' @ show_nat hidden @
                         '' more. Fix the ones above first; l4__evaluate lists everything.'')
                       else [])
           in header filtered @ newline @ join newline shown @ tail)))"

definition formatChecked :: "checked_diagnostics \<Rightarrow> diagnostics_limit option \<Rightarrow> text16" where
  "formatChecked checked limit =
     (let block = formatL4Diagnostics (diagnostics checked) limit
      in if \<not> cd_pending checked then block
         else ascii ''--- L4 diagnostics: pending. The check has not finished, so this may be out of date ---'' @
           newline @ block)"

subsection \<open>The order of states\<close>

lemma not_isWorse_refl [simp]: "\<not> isWorse s s"
  by (simp add: isWorse_def)

lemma isWorse_trans: "isWorse a b \<Longrightarrow> isWorse b c \<Longrightarrow> isWorse a c"
  by (auto simp: isWorse_def split: if_splits)

lemma isWorse_cotrans: "isWorse a c \<Longrightarrow> isWorse a b \<or> isWorse b c"
  by (auto simp: isWorse_def split: if_splits)

lemma not_madeProgress_refl [simp]: "\<not> madeProgress s s"
  by (simp add: madeProgress_def)

text \<open>Progress is the lexicographic order on the level, then fewer errors, then, for a file that does not
  parse, a later first error.\<close>

lemma madeProgress_lex:
  "madeProgress a b \<longleftrightarrow> level a < level b \<or> level a = level b \<and>
     (errors b < errors a \<or> errors b = errors a \<and> level a = parseFailure \<and> first_line a < first_line b)"
  by (auto simp: madeProgress_def isWorse_def)

lemma madeProgress_trans: "madeProgress a b \<Longrightarrow> madeProgress b c \<Longrightarrow> madeProgress a c"
  unfolding madeProgress_lex by force

subsection \<open>States of diagnostics\<close>

lemma fold_min: "fold min ls l = Min (insert l (set ls))" for l :: "'a :: linorder"
  by (metis Min.set_eq_fold list.simps(15))

lemma level_monotone:
  assumes "set (severe SevError ds) \<subseteq> set (severe SevError ds')"
  shows "level (l4FileState \<lparr>diagnostics = ds', cd_pending = q\<rparr>) \<le> level (l4FileState \<lparr>diagnostics = ds, cd_pending = p\<rparr>)"
  using assms
  by (auto simp: l4FileState_def Let_def list_ex_iff less_eq_file_level_def)

subsection \<open>Filling a block\<close>

abbreviation block_length :: "text16 list \<Rightarrow> nat" where
  "block_length ts \<equiv> sum_list (map (\<lambda>t. length t + 1) ts)"

lemma length_join_newline: "ts \<noteq> [] \<Longrightarrow> length (join newline ts) + 1 = block_length ts"
  by (induction newline ts rule: join.induct) (auto simp: newline_def)

lemma fill_block_spec:
  "chars = block_length shown \<Longrightarrow>
     \<exists>j \<le> length ds. fill_block limit ds shown chars = shown @ map render (take j ds) \<and>
       length shown + j \<le> max (length shown) (maxEntries limit) \<and>
       (0 < j \<and> 1 < length shown + j \<longrightarrow> block_length (shown @ map render (take j ds)) \<le> maxChars limit + 1) \<and>
       (j < length ds \<longrightarrow> maxEntries limit \<le> length shown + j \<or>
          0 < length shown + j \<and> maxChars limit + 1 < block_length (shown @ map render (take (j + 1) ds)))"
proof (induction limit ds shown chars rule: fill_block.induct)
  case (2 limit d ds shown chars)
  let ?t = "render d"
  show ?case
  proof (cases "maxEntries limit \<le> length shown \<or> 0 < length shown \<and> maxChars limit < chars + length ?t")
    case True
    then show ?thesis using 2(2) by (intro exI [of _ 0]) (auto simp: Let_def)
  next
    case False
    then have "\<exists>j \<le> length ds. fill_block limit ds (shown @ [?t]) (chars + length ?t + 1)
          = (shown @ [?t]) @ map render (take j ds) \<and>
        length (shown @ [?t]) + j \<le> max (length (shown @ [?t])) (maxEntries limit) \<and>
        (0 < j \<and> 1 < length (shown @ [?t]) + j \<longrightarrow>
           block_length ((shown @ [?t]) @ map render (take j ds)) \<le> maxChars limit + 1) \<and>
        (j < length ds \<longrightarrow> maxEntries limit \<le> length (shown @ [?t]) + j \<or>
           0 < length (shown @ [?t]) + j \<and>
           maxChars limit + 1 < block_length ((shown @ [?t]) @ map render (take (j + 1) ds)))"
      using 2(1) [OF refl] 2(2) by simp
    then obtain j where j: "j \<le> length ds"
      "fill_block limit ds (shown @ [?t]) (chars + length ?t + 1) = (shown @ [?t]) @ map render (take j ds)"
      "length (shown @ [?t]) + j \<le> max (length (shown @ [?t])) (maxEntries limit)"
      "0 < j \<and> 1 < length (shown @ [?t]) + j \<longrightarrow>
         block_length ((shown @ [?t]) @ map render (take j ds)) \<le> maxChars limit + 1"
      "j < length ds \<longrightarrow> maxEntries limit \<le> length (shown @ [?t]) + j \<or>
         0 < length (shown @ [?t]) + j \<and>
         maxChars limit + 1 < block_length ((shown @ [?t]) @ map render (take (j + 1) ds))"
      by blast
    have "block_length (shown @ [?t]) \<le> maxChars limit + 1" if "0 < length shown"
      using False 2(2) that by simp
    then show ?thesis
      using False j by (intro exI [of _ "j + 1"]) (cases "j = 0", auto simp: Let_def)
  qed
qed (auto intro: exI [of _ 0])

lemma fill_block_from_start:
  "\<exists>k \<le> length ds. fill_block limit ds [] 0 = map render (take k ds) \<and> k \<le> maxEntries limit \<and>
     (1 < k \<longrightarrow> block_length (map render (take k ds)) \<le> maxChars limit + 1) \<and>
     (k < length ds \<longrightarrow> maxEntries limit \<le> k \<or>
        0 < k \<and> maxChars limit + 1 < block_length (map render (take (k + 1) ds)))"
proof -
  have "(0 :: nat) = block_length []" by simp
  from fill_block_spec [OF this, of ds limit] show ?thesis
    by (elim exE conjE) (rule exI, auto)
qed

subsection \<open>Properties\<close>

text \<open>worse is a strict weak order of states and progress a strict partial order that extends its
  converse, so a file that made progress and then got no worse has not come back to where it was.\<close>

theorem progress_order:
  "irreflp isWorse \<and> transp isWorse \<and> transp (\<lambda>a b. \<not> isWorse a b) \<and>
   irreflp madeProgress \<and> transp madeProgress \<and> (\<lambda>a b. isWorse b a) \<le> madeProgress \<and>
   (\<lambda>a b. madeProgress a b) \<le> (\<lambda>a b. \<not> isWorse a b)"
proof (intro conjI)
  show "irreflp isWorse" "irreflp madeProgress" by (simp_all add: irreflp_def)
  show "transp isWorse" by (rule transpI) (rule isWorse_trans)
  show "transp madeProgress" by (rule transpI) (rule madeProgress_trans)
  show "transp (\<lambda>a b. \<not> isWorse a b)" by (rule transpI) (metis isWorse_cotrans)
  show "(\<lambda>a b. isWorse b a) \<le> madeProgress" by (simp add: le_fun_def madeProgress_def)
  show "(\<lambda>a b. madeProgress a b) \<le> (\<lambda>a b. \<not> isWorse a b)"
    by (auto simp: le_fun_def madeProgress_lex isWorse_def)
qed

lemma error_levels:
  fixes ds :: "l4_diagnostic list" and p :: bool
  defines "errs \<equiv> {d \<in> set ds. d_severity d = SevError}"
    and "s \<equiv> l4FileState \<lparr>diagnostics = ds, cd_pending = p\<rparr>"
  shows "level s = cleanFile \<longleftrightarrow> errs = {}"
    and "failedChecks \<le> level s \<longleftrightarrow> (\<forall>d\<in>errs. d_source d = Some ''eval'')"
    and "level s = parseFailure \<longleftrightarrow> (\<exists>d\<in>errs. d_source d \<in> {Some ''parser'', Some ''lexer''})"
    and "firstErrorLine s = (if errs = {} then None else Some (Min (d_line ` errs)))"
proof -
  have errs: "errs = set (severe SevError ds)" by (simp add: errs_def severe_def)
  then have nil: "errs = {} \<longleftrightarrow> severe SevError ds = []" by simp
  have ex: "list_ex P (severe SevError ds) \<longleftrightarrow> (\<exists>d\<in>errs. P d)" for P by (simp add: errs list_ex_iff)
  show "level s = cleanFile \<longleftrightarrow> errs = {}" "failedChecks \<le> level s \<longleftrightarrow> (\<forall>d\<in>errs. d_source d = Some ''eval'')"
    "level s = parseFailure \<longleftrightarrow> (\<exists>d\<in>errs. d_source d \<in> {Some ''parser'', Some ''lexer''})"
    using nil by (auto simp: s_def l4FileState_def Let_def ex less_eq_file_level_def)
  show "firstErrorLine s = (if errs = {} then None else Some (Min (d_line ` errs)))"
  proof (cases "severe SevError ds")
    case Nil
    then show ?thesis by (simp add: s_def l4FileState_def Let_def errs)
  next
    case (Cons d ds')
    then show ?thesis by (simp add: s_def l4FileState_def Let_def errs fold_min del: Min_insert)
  qed
qed

text \<open>the level of a file is clean exactly when it has no error, above the compile errors exactly when
  all its errors are failed evaluations, and a parse failure exactly when one comes from the lexer or
  the parser; the first error line is the least.\<close>

theorem l4FileState_levels:
  "let errs = {d \<in> set ds. d_severity d = SevError}; s = l4FileState \<lparr>diagnostics = ds, cd_pending = p\<rparr>
   in (level s = cleanFile \<longleftrightarrow> errs = {}) \<and>
      (failedChecks \<le> level s \<longleftrightarrow> (\<forall>d\<in>errs. d_source d = Some ''eval'')) \<and>
      (level s = parseFailure \<longleftrightarrow> (\<exists>d\<in>errs. d_source d \<in> {Some ''parser'', Some ''lexer''})) \<and>
      firstErrorLine s = (if errs = {} then None else Some (Min (d_line ` errs)))"
  unfolding Let_def by (intro conjI error_levels)

text \<open>reporting more diagnostics, in any order, never makes a file look better.\<close>

theorem more_diagnostics_no_better:
  assumes "mset ds \<subseteq># mset ds'"
  shows "\<not> isWorse (l4FileState \<lparr>diagnostics = ds', cd_pending = q\<rparr>) (l4FileState \<lparr>diagnostics = ds, cd_pending = p\<rparr>)"
proof -
  have sub: "mset (severe SevError ds) \<subseteq># mset (severe SevError ds')"
    using assms by (simp add: severe_def multiset_filter_mono)
  then have "set (severe SevError ds) \<subseteq> set (severe SevError ds')"
    by (metis set_mset_mono set_mset_mset)
  from level_monotone [OF this, of q p] have "\<not> level (l4FileState \<lparr>diagnostics = ds, cd_pending = p\<rparr>)
      < level (l4FileState \<lparr>diagnostics = ds', cd_pending = q\<rparr>)" by simp
  moreover have "length (severe SevError ds) \<le> length (severe SevError ds')"
    using size_mset_mono [OF sub] by simp
  ultimately show ?thesis by (simp add: isWorse_def l4FileState_def Let_def)
qed

text \<open>a limited block keeps the header with the real counts and then shows as many diagnostics as fit,
  the most severe first, at least one if any entry is allowed; the rest are counted in its last line.\<close>

theorem limited_block:
  assumes "ds \<noteq> []" "0 < maxEntries limit"
  defines "ordered \<equiv> sort_key diag_rank ds"
  shows "\<exists>k. 0 < k \<and> k \<le> length ds \<and> k \<le> maxEntries limit \<and>
    formatL4Diagnostics ds (Some limit) = header ds @ newline @ join newline (map render (take k ordered)) @
      (if k = length ds then [] else newline @ ascii (''... and '' @ show_nat (length ds - k) @
         '' more. Fix the ones above first; l4__evaluate lists everything.'')) \<and>
    mset ordered = mset ds \<and>
    (\<forall>d\<in>set (take k ordered). \<forall>d'\<in>set (drop k ordered). diag_rank d \<le> diag_rank d') \<and>
    (1 < k \<longrightarrow> length (join newline (map render (take k ordered))) \<le> maxChars limit) \<and>
    (k < length ds \<and> k < maxEntries limit \<longrightarrow>
       maxChars limit < length (join newline (map render (take (k + 1) ordered))))"
proof -
  have len: "length ordered = length ds" by (simp add: ordered_def)
  have blk: "block_length (map render (take k ordered)) = length (join newline (map render (take k ordered))) + 1"
    if "0 < k" for k
  proof (rule length_join_newline [symmetric])
    show "map render (take k ordered) \<noteq> []" using assms(1) that len by auto
  qed
  obtain k where k: "k \<le> length ordered"
    "fill_block limit ordered [] 0 = map render (take k ordered)" "k \<le> maxEntries limit"
    "1 < k \<longrightarrow> block_length (map render (take k ordered)) \<le> maxChars limit + 1"
    "k < length ordered \<longrightarrow> maxEntries limit \<le> k \<or>
       0 < k \<and> maxChars limit + 1 < block_length (map render (take (k + 1) ordered))"
    using fill_block_from_start [of ordered limit] by blast
  have "0 < k" using k(5) assms(1,2) len by (cases k) auto
  moreover have "\<forall>d\<in>set (take k ordered). \<forall>d'\<in>set (drop k ordered). diag_rank d \<le> diag_rank d'"
  proof -
    have "sorted (map diag_rank (take k ordered @ drop k ordered))" by (simp add: ordered_def)
    then show ?thesis unfolding map_append sorted_append by simp
  qed
  moreover have "formatL4Diagnostics ds (Some limit) = header ds @ newline @
      join newline (map render (take k ordered)) @
      (if k = length ds then [] else newline @ ascii (''... and '' @ show_nat (length ds - k) @
         '' more. Fix the ones above first; l4__evaluate lists everything.''))"
    using assms(1) k(1,2) len
    by (simp add: formatL4Diagnostics_def Let_def ordered_def [symmetric])
  moreover have "1 < k \<longrightarrow> length (join newline (map render (take k ordered))) \<le> maxChars limit"
    using k(4) blk [of k] by auto
  moreover have "k < length ds \<and> k < maxEntries limit \<longrightarrow>
      maxChars limit < length (join newline (map render (take (k + 1) ordered)))"
    using k(5) blk [of "k + 1"] len by auto
  ultimately show ?thesis
    using k(1,3) len by (intro exI [of _ k]) (simp add: ordered_def)
qed

subsection \<open>Witnesses\<close>

definition fs_example :: "l4_diagnostic list" where
  "fs_example =
     [\<lparr>d_severity = SevInfo, d_line = 3, d_message = ascii ''3'', d_source = Some ''eval'', d_code = None\<rparr>,
      \<lparr>d_severity = SevError, d_line = 0, d_message = ascii ''no such name'', d_source = Some ''check'', d_code = None\<rparr>]"

theorem more_diagnostics_no_better_witness:
  "\<not> isWorse (l4FileState \<lparr>diagnostics = fs_example, cd_pending = False\<rparr>)
     (l4FileState \<lparr>diagnostics = drop 1 fs_example, cd_pending = False\<rparr>)"
  by (rule more_diagnostics_no_better) (simp add: fs_example_def)

theorem limited_block_witness:
  "\<exists>k. 0 < k \<and> k \<le> 1 \<and>
    formatL4Diagnostics fs_example (Some \<lparr>maxEntries = 1, maxChars = 50\<rparr>) = header fs_example @ newline @
      join newline (map render (take k (sort_key diag_rank fs_example))) @
      (if k = length fs_example then [] else newline @ ascii (''... and '' @ show_nat (length fs_example - k) @
         '' more. Fix the ones above first; l4__evaluate lists everything.''))"
proof -
  have "fs_example \<noteq> []" "0 < maxEntries \<lparr>maxEntries = 1, maxChars = 50\<rparr>" by (simp_all add: fs_example_def)
  from limited_block [OF this] show ?thesis
    unfolding diagnostics_limit.simps by (elim exE conjE) (intro exI conjI, assumption+)
qed

theorem l4FileState_levels_witness:
  "\<not> failedChecks \<le> level (l4FileState \<lparr>diagnostics = fs_example, cd_pending = False\<rparr>) \<and>
   firstErrorLine (l4FileState \<lparr>diagnostics = fs_example, cd_pending = False\<rparr>) = Some 0"
proof -
  have "{d \<in> set fs_example. d_severity d = SevError} = {fs_example ! 1}" by (auto simp: fs_example_def)
  then show ?thesis
    using l4FileState_levels [of fs_example False] by (simp add: Let_def) (simp add: fs_example_def)
qed

end
