(* ===== verification/EditGuard.thy ===== *)
theory EditGuard
  imports FileState
begin

text \<open>
  What a turn has done to its L4 files: \<^verbatim>\<open>ts-shared/legalese-agent/src/edit-guard.ts\<close>.

  An \<^verbatim>\<open>EditGuard\<close> is its map of turns. A method takes the guard and returns it changed; a missing
  argument has its default written out. The \<^verbatim>\<open>EditSequence\<close> of \<^verbatim>\<open>tools/fs.ts\<close> is a record the guard only
  creates and hands out.
\<close>

subsection \<open>State\<close>

record check_row =
  directiveId :: string
  prettyText :: string
  cr_body :: string
  success :: "bool option"

record file_snapshot =
  snap_state :: "l4_file_state option"
  checks :: "check_row list"

record tracked_file =
  uri :: string
  relative :: string
  baseline :: file_snapshot
  best :: "l4_file_state option"
  brokenEdits :: nat

record edit_sequence =
  applied :: nat
  seq_state :: "l4_file_state option option"
  stopped :: "string option"

record turn_record =
  files :: "(string, tracked_file) jsmap"
  sequences :: "(string, edit_sequence) jsmap"
  nudged :: bool
  errorsBefore :: "(string, nat) jsmap option"

record knock_on_file =
  ko_relative :: string
  ko_errors :: nat

type_synonym edit_guard = "(string, turn_record) jsmap"

definition MAX_BROKEN_EDITS :: nat where
  "MAX_BROKEN_EDITS = 15"

definition TURN_STATUS_HEADING :: string where
  "TURN_STATUS_HEADING = ''File status from the language server (not a review of the rules):''"

definition NEW_FILE :: file_snapshot where
  "NEW_FILE = \<lparr>snap_state = Some \<lparr>level = cleanFile, errors = 0, warnings = 0, fs_pending = False,
     firstErrorLine = None\<rparr>, checks = []\<rparr>"

subsection \<open>Reading a status back\<close>

text \<open>\<^verbatim>\<open>lastIndexOf\<close>.\<close>

definition lastIndexOf :: "string \<Rightarrow> string \<Rightarrow> nat option" where
  "lastIndexOf s pat =
     (case filter (\<lambda>i. starts_with pat (drop i s)) (rev [0..<length s + 1]) of
        [] \<Rightarrow> None
      | i # _ \<Rightarrow> Some i)"

text \<open>\<^verbatim>\<open>trim\<close>, with the white space among the characters below 256.\<close>

definition white :: "char \<Rightarrow> bool" where
  "white c = (let n = of_char c :: nat in n = 9 \<or> n = 10 \<or> n = 11 \<or> n = 12 \<or> n = 13 \<or> n = 32 \<or> n = 160)"

definition trim :: "string \<Rightarrow> string" where
  "trim s = rev (dropWhile white (rev (dropWhile white s)))"

definition turnStatusLines :: "string option \<Rightarrow> string list" where
  "turnStatusLines reply =
     (case reply of
        None \<Rightarrow> []
      | Some r \<Rightarrow>
          (case lastIndexOf r TURN_STATUS_HEADING of
             None \<Rightarrow> []
           | Some at \<Rightarrow>
               filter (\<lambda>l. l \<noteq> [])
                 (map (\<lambda>l. trim (if starts_with ''- '' l then drop 2 l else l))
                   (split_on (CHR 0x0A) (drop (at + length TURN_STATUS_HEADING) r)))))"

subsection \<open>Turns\<close>

definition turn_of :: "string \<Rightarrow> edit_guard \<Rightarrow> turn_record" where
  "turn_of turnId g =
     (case jm_get g turnId of
        None \<Rightarrow> \<lparr>files = [], sequences = [], nudged = False, errorsBefore = None\<rparr>
      | Some t \<Rightarrow> t)"

text \<open>One sequence for every URI that has several edit calls.\<close>

fun round_sequences :: "string list \<Rightarrow> string list \<Rightarrow> (string, edit_sequence) jsmap \<Rightarrow> (string, edit_sequence) jsmap" where
  "round_sequences [] seen acc = acc"
| "round_sequences (u # us) seen acc =
     round_sequences us (set_add u seen)
       (if u \<in> set seen then jm_set u \<lparr>applied = 0, seq_state = None, stopped = None\<rparr> acc else acc)"

definition beginRound :: "string \<Rightarrow> string list \<Rightarrow> edit_guard \<Rightarrow> edit_guard" where
  "beginRound turnId uris g =
     jm_set turnId ((turn_of turnId g)\<lparr>sequences := round_sequences uris [] []\<rparr>) g"

definition sequenceFor :: "string \<Rightarrow> string \<Rightarrow> edit_guard \<Rightarrow> edit_sequence option" where
  "sequenceFor turnId u g = Option.bind (jm_get g turnId) (\<lambda>t. jm_get (sequences t) u)"

definition fileOf :: "string \<Rightarrow> string \<Rightarrow> edit_guard \<Rightarrow> tracked_file option" where
  "fileOf turnId u g = Option.bind (jm_get g turnId) (\<lambda>t. jm_get (files t) u)"

definition isTracked :: "string \<Rightarrow> string \<Rightarrow> edit_guard \<Rightarrow> bool" where
  "isTracked turnId u g \<longleftrightarrow> fileOf turnId u g \<noteq> None"

definition track :: "string \<Rightarrow> string \<Rightarrow> string \<Rightarrow> file_snapshot \<Rightarrow> edit_guard \<Rightarrow> edit_guard" where
  "track turnId u rel base g =
     (let t = turn_of turnId g
      in if jm_get (files t) u \<noteq> None then jm_set turnId t g
         else jm_set turnId (t\<lparr>files := jm_set u \<lparr>uri = u, relative = rel, baseline = base,
                best = snap_state base, brokenEdits = 0\<rparr> (files t)\<rparr>) g)"

definition noteErrorsBefore :: "string \<Rightarrow> (string, nat) jsmap option \<Rightarrow> edit_guard \<Rightarrow> edit_guard" where
  "noteErrorsBefore turnId counts g =
     (let t = turn_of turnId g
      in jm_set turnId (if counts \<noteq> None \<and> errorsBefore t = None then t\<lparr>errorsBefore := counts\<rparr> else t) g)"

definition knockOnFiles ::
    "string \<Rightarrow> (string, nat) jsmap option \<Rightarrow> (string \<Rightarrow> string) \<Rightarrow> edit_guard \<Rightarrow> knock_on_file list" where
  "knockOnFiles turnId now relativeOf g =
     (case jm_get g turnId of
        None \<Rightarrow> []
      | Some t \<Rightarrow>
          (case (errorsBefore t, now) of
             (Some before, Some counts) \<Rightarrow>
               map (\<lambda>(u, n). \<lparr>ko_relative = relativeOf u, ko_errors = n\<rparr>)
                 (filter (\<lambda>(u, n). jm_get (files t) u = None \<and>
                    (case jm_get before u of None \<Rightarrow> False | Some b \<Rightarrow> b < n)) counts)
           | _ \<Rightarrow> []))"

definition blocked :: "string \<Rightarrow> string \<Rightarrow> edit_guard \<Rightarrow> string option" where
  "blocked turnId u g =
     (case fileOf turnId u g of
        None \<Rightarrow> None
      | Some f \<Rightarrow>
          if brokenEdits f < MAX_BROKEN_EDITS then None
          else Some (relative f @ '' has had '' @ show_nat (brokenEdits f) @
            '' edits in a row without getting closer to compiling, so no more edits to it were applied. '' @
            ''Stop and tell the user what is still wrong and what you tried.''))"

text \<open>The body of \<^verbatim>\<open>recordState\<close>, on the tracked file.\<close>

definition record_edit :: "tracked_file \<Rightarrow> l4_file_state \<Rightarrow> nat \<Rightarrow> tracked_file" where
  "record_edit f s n =
     (if failedChecks \<le> level s then f\<lparr>brokenEdits := 0, best := Some s\<rparr>
      else (case best f of
        None \<Rightarrow> f\<lparr>brokenEdits := n, best := Some s\<rparr>
      | Some b \<Rightarrow>
          if failedChecks \<le> level b then f\<lparr>brokenEdits := n, best := Some s\<rparr>
          else if madeProgress b s then f\<lparr>brokenEdits := 0, best := Some s\<rparr>
          else f\<lparr>brokenEdits := brokenEdits f + n\<rparr>))"

definition recordState :: "string \<Rightarrow> string \<Rightarrow> l4_file_state \<Rightarrow> nat \<Rightarrow> edit_guard \<Rightarrow> edit_guard" where
  "recordState turnId u s n g =
     (case jm_get g turnId of
        None \<Rightarrow> g
      | Some t \<Rightarrow>
          (case jm_get (files t) u of
             None \<Rightarrow> g
           | Some f \<Rightarrow> jm_set turnId (t\<lparr>files := jm_set u (record_edit f s n) (files t)\<rparr>) g))"

definition trackedFiles :: "string \<Rightarrow> edit_guard \<Rightarrow> tracked_file list" where
  "trackedFiles turnId g = (case jm_get g turnId of None \<Rightarrow> [] | Some t \<Rightarrow> map snd (files t))"

subsection \<open>The nudge and the status\<close>

type_synonym current_snapshots = "(string, file_snapshot option) jsmap"

definition snapshot_now :: "current_snapshots \<Rightarrow> tracked_file \<Rightarrow> file_snapshot option" where
  "snapshot_now current f = Option.bind (jm_get current (uri f)) id"

definition errorCount :: "nat \<Rightarrow> string" where
  "errorCount n = show_nat n @ '' error'' @ plural n"

text \<open>The state a nudge reports for a tracked file, if it reports one.\<close>

definition introduced :: "current_snapshots \<Rightarrow> tracked_file \<Rightarrow> l4_file_state option" where
  "introduced current f =
     (case Option.bind (snapshot_now current f) snap_state of
        None \<Rightarrow> None
      | Some now \<Rightarrow>
          if fs_pending now \<or> failedChecks \<le> level now then None
          else if MAX_BROKEN_EDITS \<le> brokenEdits f then None
          else (case snap_state (baseline f) of
                  None \<Rightarrow> None
                | Some b \<Rightarrow> if isWorse b now then Some now else None))"

definition broken_parts :: "current_snapshots \<Rightarrow> tracked_file list \<Rightarrow> knock_on_file list \<Rightarrow> string list" where
  "broken_parts current fs knockOn =
     concat (map (\<lambda>f. case introduced current f of
         None \<Rightarrow> [] | Some now \<Rightarrow> [relative f @ '' '' @ describeFileState now]) fs) @
     map (\<lambda>k. ko_relative k @ '', which this turn didn't edit, now has '' @ errorCount (ko_errors k)) knockOn"

definition stopNudge ::
    "string \<Rightarrow> current_snapshots \<Rightarrow> knock_on_file list \<Rightarrow> edit_guard \<Rightarrow> string option \<times> edit_guard" where
  "stopNudge turnId current knockOn g =
     (case jm_get g turnId of
        None \<Rightarrow> (None, g)
      | Some t \<Rightarrow>
          if nudged t then (None, g)
          else (let broken = broken_parts current (map snd (files t)) knockOn
                in if broken = [] then (None, g)
                   else (Some (''Automatic check, not a message from the user: '' @ join ''; '' broken @
                       '', and this turn introduced that. Fix it if you can. If you can't, stop and say '' @
                       ''plainly what is still wrong. Do not delete code or tests just to clear an error.''),
                     jm_set turnId (t\<lparr>nudged := True\<rparr>) g)))"

definition statusOf :: "tracked_file \<Rightarrow> file_snapshot \<Rightarrow> string" where
  "statusOf f now =
     (case snap_state now of
        None \<Rightarrow> ''status unknown''
      | Some st \<Rightarrow>
          if fs_pending st then ''the check did not finish, so this is unknown''
          else (let total = length (checks now);
                    passed = length (filter (\<lambda>c. success c = Some True) (checks now));
                    after = map cr_body (checks now);
                    changed = length (filter (\<lambda>c. cr_body c \<notin> set after) (checks (baseline f)))
                in join ''; ''
                  ([describeFileState st] @
                   (if failedChecks \<le> level st
                    then (if 0 < total then [show_nat passed @ '' of '' @ show_nat total @ '' checks pass''] else []) @
                         (if 0 < changed
                          then [show_nat changed @ '' check'' @ plural changed @ '' changed or removed this turn'']
                          else [])
                    else []) @
                   (if 0 < warnings st then [show_nat (warnings st) @ '' warning'' @ plural (warnings st)] else []))))"

text \<open>The lines of a status, without their dashes.\<close>

definition status_lines :: "current_snapshots \<Rightarrow> tracked_file list \<Rightarrow> knock_on_file list \<Rightarrow> string list" where
  "status_lines current fs knockOn =
     concat (map (\<lambda>f. case snapshot_now current f of
         None \<Rightarrow> [] | Some now \<Rightarrow> [''`'' @ relative f @ ''`: '' @ statusOf f now]) fs) @
     map (\<lambda>k. ''`'' @ ko_relative k @ ''`: not edited, but now has '' @ errorCount (ko_errors k)) knockOn"

definition dash :: "string \<Rightarrow> string" where
  "dash l = ''- '' @ l"

definition takeStatus ::
    "string \<Rightarrow> current_snapshots \<Rightarrow> knock_on_file list \<Rightarrow> edit_guard \<Rightarrow> string option \<times> edit_guard" where
  "takeStatus turnId current knockOn g =
     (case jm_get g turnId of
        None \<Rightarrow> (None, g)
      | Some t \<Rightarrow>
          if files t = [] then (None, g)
          else (let ls = map dash (status_lines current (map snd (files t)) knockOn);
                    g' = jm_set turnId (t\<lparr>files := []\<rparr>) g
                in (if ls = [] then None
                    else Some ([CHR 0x0A, CHR 0x0A] @ ''---'' @ [CHR 0x0A] @ TURN_STATUS_HEADING @ [CHR 0x0A] @
                           join [CHR 0x0A] ls), g')))"

definition endTurn :: "string \<Rightarrow> edit_guard \<Rightarrow> edit_guard" where
  "endTurn turnId g = jm_delete turnId g"


subsection \<open>Any sequence of calls\<close>

text \<open>A call that changes the guard.\<close>

datatype guard_call =
    BeginRound string "string list"
  | Track string string string file_snapshot
  | NoteErrorsBefore string "(string, nat) jsmap option"
  | RecordState string string l4_file_state nat
  | StopNudge string current_snapshots "knock_on_file list"
  | TakeStatus string current_snapshots "knock_on_file list"
  | EndTurn string

fun call_turn :: "guard_call \<Rightarrow> string" where
  "call_turn (BeginRound t _) = t"
| "call_turn (Track t _ _ _) = t"
| "call_turn (NoteErrorsBefore t _) = t"
| "call_turn (RecordState t _ _ _) = t"
| "call_turn (StopNudge t _ _) = t"
| "call_turn (TakeStatus t _ _) = t"
| "call_turn (EndTurn t) = t"

fun guard_exec :: "guard_call \<Rightarrow> edit_guard \<Rightarrow> string option \<times> edit_guard" where
  "guard_exec (BeginRound t us) g = (None, beginRound t us g)"
| "guard_exec (Track t u rel b) g = (None, track t u rel b g)"
| "guard_exec (NoteErrorsBefore t cs) g = (None, noteErrorsBefore t cs g)"
| "guard_exec (RecordState t u s n) g = (None, recordState t u s n g)"
| "guard_exec (StopNudge t cur ko) g = stopNudge t cur ko g"
| "guard_exec (TakeStatus t cur ko) g = takeStatus t cur ko g"
| "guard_exec (EndTurn t) g = (None, endTurn t g)"

text \<open>The results of a sequence of calls, and the guard after it.\<close>

fun guard_run :: "guard_call list \<Rightarrow> edit_guard \<Rightarrow> (guard_call \<times> string option) list \<times> edit_guard" where
  "guard_run [] g = ([], g)"
| "guard_run (c # cs) g =
     (let (out, g') = guard_exec c g; (outs, g'') = guard_run cs g' in ((c, out) # outs, g''))"

fun is_nudge :: "string \<Rightarrow> guard_call \<times> string option \<Rightarrow> bool" where
  "is_nudge t (StopNudge t' _ _, Some _) = (t = t')"
| "is_nudge t _ = False"

lemma guard_exec_other:
  "call_turn c \<noteq> t \<Longrightarrow> jm_get (snd (guard_exec c g)) t = jm_get g t"
  by (cases c) (auto simp: js_simps beginRound_def track_def noteErrorsBefore_def recordState_def stopNudge_def
      takeStatus_def endTurn_def Let_def split: option.splits)

subsection \<open>The nudge\<close>

definition nudged_in :: "string \<Rightarrow> edit_guard \<Rightarrow> bool" where
  "nudged_in t g \<longleftrightarrow> (case jm_get g t of None \<Rightarrow> False | Some r \<Rightarrow> nudged r)"

lemma is_nudge_turn: "is_nudge t (c, out) \<Longrightarrow> call_turn c = t"
  by (cases "(t, c, out)" rule: is_nudge.cases) auto

lemma nudged_in_kept:
  assumes "c \<noteq> EndTurn t" "nudged_in t g"
  shows "nudged_in t (snd (guard_exec c g)) \<and> \<not> is_nudge t (c, fst (guard_exec c g))"
proof (cases "call_turn c = t")
  case True
  then show ?thesis
    using assms
    by (cases c) (auto simp: nudged_in_def js_simps beginRound_def track_def noteErrorsBefore_def recordState_def
        stopNudge_def takeStatus_def turn_of_def Let_def split: option.splits if_splits)
next
  case False
  then show ?thesis using assms guard_exec_other [OF False, of g] is_nudge_turn by (auto simp: nudged_in_def)
qed

lemma nudge_sets: "is_nudge t (c, fst (guard_exec c g)) \<Longrightarrow> nudged_in t (snd (guard_exec c g))"
  by (cases c) (auto simp: nudged_in_def stopNudge_def Let_def js_simps split: option.splits if_splits)

lemma no_nudge_after:
  "EndTurn t \<notin> set cs \<Longrightarrow> nudged_in t g \<Longrightarrow> filter (is_nudge t) (fst (guard_run cs g)) = []"
proof (induction cs arbitrary: g)
  case (Cons c cs)
  then show ?case using nudged_in_kept [of c t g] by (auto simp: case_prod_beta Let_def)
qed simp

lemma at_most_one_nudge:
  "EndTurn t \<notin> set cs \<Longrightarrow> length (filter (is_nudge t) (fst (guard_run cs g))) \<le> 1"
proof (induction cs arbitrary: g)
  case (Cons c cs)
  show ?case
  proof (cases "is_nudge t (c, fst (guard_exec c g))")
    case True
    then have "filter (is_nudge t) (fst (guard_run cs (snd (guard_exec c g)))) = []"
      using Cons.prems by (intro no_nudge_after nudge_sets) auto
    then show ?thesis by (simp add: case_prod_beta Let_def)
  next
    case False
    then show ?thesis using Cons by (auto simp: case_prod_beta Let_def)
  qed
qed simp

subsection \<open>The breaker\<close>

text \<open>States are in layers: one that made progress over another did so over each state between them or beside them.\<close>

lemma madeProgress_cotrans: "madeProgress a c \<Longrightarrow> madeProgress a b \<or> madeProgress b c"
  unfolding madeProgress_lex by (cases "level a" "level b" rule: linorder_cases; cases "level b" "level c" rule: linorder_cases) auto

text \<open>What the breaker needs of the order of states, and of the update of a counter by an edit.\<close>

locale streak_counter =
  fixes compiles :: "'s \<Rightarrow> bool"
    and progress :: "'s \<Rightarrow> 's \<Rightarrow> bool"
    and advance :: "'f \<Rightarrow> 's \<Rightarrow> nat \<Rightarrow> 'f"
    and counted :: "'f \<Rightarrow> nat"
    and best_of :: "'f \<Rightarrow> 's option"
  assumes no_self_progress: "\<not> progress s s"
    and progress_cotrans: "progress a c \<Longrightarrow> progress a b \<or> progress b c"
    and on_compiles: "compiles s \<Longrightarrow> counted (advance f s n) = 0 \<and> best_of (advance f s n) = Some s"
    and on_start: "\<not> compiles s \<Longrightarrow> (\<forall>b. best_of f = Some b \<longrightarrow> compiles b) \<Longrightarrow>
      counted (advance f s n) = n \<and> best_of (advance f s n) = Some s"
    and on_progress: "\<not> compiles s \<Longrightarrow> best_of f = Some b \<Longrightarrow> \<not> compiles b \<Longrightarrow> progress b s \<Longrightarrow>
      counted (advance f s n) = 0 \<and> best_of (advance f s n) = Some s"
    and on_stuck: "\<not> compiles s \<Longrightarrow> best_of f = Some b \<Longrightarrow> \<not> compiles b \<Longrightarrow> \<not> progress b s \<Longrightarrow>
      counted (advance f s n) = counted f + n \<and> best_of (advance f s n) = Some b"
begin

abbreviation run :: "'f \<Rightarrow> ('s \<times> nat) list \<Rightarrow> 'f" where
  "run f edits \<equiv> fold (\<lambda>(s, n) f. advance f s n) edits f"

text \<open>The state before a stretch of edits, and the one it is measured from.\<close>

definition before :: "'f \<Rightarrow> ('s \<times> nat) list \<Rightarrow> 's option" where
  "before f pre = (if pre = [] then best_of f else Some (fst (last pre)))"

definition measured_from :: "'f \<Rightarrow> ('s \<times> nat) list \<Rightarrow> ('s \<times> nat) list \<Rightarrow> 's" where
  "measured_from f pre suf =
     (case before f pre of None \<Rightarrow> fst (hd suf) | Some s \<Rightarrow> if compiles s then fst (hd suf) else s)"

definition stalled :: "'f \<Rightarrow> ('s \<times> nat) list \<Rightarrow> ('s \<times> nat) list \<Rightarrow> bool" where
  "stalled f pre suf \<longleftrightarrow> (\<forall>(s, n)\<in>set suf. \<not> compiles s \<and> \<not> progress (measured_from f pre suf) s)"

text \<open>The counter is the number of edits of a stretch that stalled.\<close>

lemma streak:
  assumes "counted f = 0"
  shows "\<exists>pre suf. edits = pre @ suf \<and> counted (run f edits) = sum_list (map snd suf) \<and> stalled f pre suf \<and>
    best_of (run f edits) = (if suf = [] then before f pre else Some (measured_from f pre suf)) \<and>
    (suf \<noteq> [] \<longrightarrow> \<not> compiles (measured_from f pre suf))"
proof (induction edits rule: rev_induct)
  case Nil
  then show ?case using assms by (simp add: before_def stalled_def)
next
  case (snoc e edits)
  obtain s n where e: "e = (s, n)" by fastforce
  from snoc obtain pre suf where IH: "edits = pre @ suf" "counted (run f edits) = sum_list (map snd suf)" "stalled f pre suf"
    "best_of (run f edits) = (if suf = [] then before f pre else Some (measured_from f pre suf))"
    "suf \<noteq> [] \<Longrightarrow> \<not> compiles (measured_from f pre suf)"
    by blast
  have step: "run f (edits @ [e]) = advance (run f edits) s n" by (simp add: e)
  have reset: ?case if "counted (advance (run f edits) s n) = 0" "best_of (advance (run f edits) s n) = Some s"
    using that unfolding step by (intro exI [of _ "edits @ [e]"] exI [of _ "[]"]) (simp add: e before_def stalled_def)
  consider (compiles) "compiles s" | (start) "\<not> compiles s" "\<forall>b. best_of (run f edits) = Some b \<longrightarrow> compiles b"
    | (progress) b where "\<not> compiles s" "best_of (run f edits) = Some b" "\<not> compiles b" "progress b s"
    | (stuck) b where "\<not> compiles s" "best_of (run f edits) = Some b" "\<not> compiles b" "\<not> progress b s"
    by blast
  then show ?case
  proof cases
    case compiles
    from on_compiles [OF this, of "run f edits" n] show ?thesis by (intro reset) simp_all
  next
    case progress
    from on_progress [OF this, of n] show ?thesis by (intro reset) simp_all
  next
    case start
    then have "suf = []" using IH(4,5) by (auto split: if_splits)
    then have "measured_from f pre [e] = s"
      using start(2) IH(4) by (auto simp: measured_from_def e split: option.split)
    then show ?thesis
      using on_start [OF start, of n] start(1) IH(1) \<open>suf = []\<close> unfolding step
      by (intro exI [of _ pre] exI [of _ "[e]"]) (simp add: e stalled_def no_self_progress)
  next
    case stuck
    have same: "measured_from f pre (suf @ [e]) = b"
      using stuck(2,3) IH(4) by (cases "suf = []") (auto simp: measured_from_def before_def split: option.splits if_splits)
    then have "stalled f pre (suf @ [e])"
      using stuck IH(3,4) by (cases "suf = []") (auto simp: stalled_def e)
    then show ?thesis
      using on_stuck [OF stuck, of n] IH(1,2) stuck(3) same unfolding step
      by (intro exI [of _ pre] exI [of _ "suf @ [e]"]) (simp add: e)
  qed
qed

lemma stuck_adds:
  assumes "best_of f = Some b" "\<not> compiles b" "\<forall>(s, n)\<in>set edits. \<not> compiles s \<and> \<not> progress b s"
  shows "counted (fold (\<lambda>(s, n) f. advance f s n) edits f) = counted f + sum_list (map snd edits)"
  using assms
proof (induction edits arbitrary: f)
  case (Cons e edits)
  obtain s n where e: "e = (s, n)" by fastforce
  then show ?case using Cons on_stuck [of s f b n] by simp
qed simp

text \<open>After an edit that left it broken, the best state is broken and no worse to measure from than the edit's.\<close>

lemma best_after:
  assumes "\<not> compiles s"
  shows "\<exists>b. best_of (advance f s n) = Some b \<and> \<not> compiles b \<and> \<not> progress b s"
proof -
  consider (start) "\<forall>b. best_of f = Some b \<longrightarrow> compiles b"
    | (progress) b where "best_of f = Some b" "\<not> compiles b" "progress b s"
    | (stuck) b where "best_of f = Some b" "\<not> compiles b" "\<not> progress b s" by blast
  then show ?thesis
  proof cases
    case start
    from on_start [OF assms this] show ?thesis using assms no_self_progress by simp
  next
    case progress
    from on_progress [OF assms progress] show ?thesis using assms no_self_progress by simp
  next
    case stuck
    from on_stuck [OF assms stuck] show ?thesis using stuck by simp
  qed
qed

text \<open>So a stretch that stalled is counted in full.\<close>

lemma stalled_counts:
  assumes "stalled f pre suf" "suf \<noteq> []"
  shows "sum_list (map snd suf) \<le> counted (run f (pre @ suf))"
proof -
  obtain s n rest where suf: "suf = (s, n) # rest" using assms(2) by (cases suf) auto
  define m where "m = measured_from f pre suf"
  have st: "\<forall>(s, n)\<in>set suf. \<not> compiles s \<and> \<not> progress m s" using assms(1) by (simp add: stalled_def m_def)
  have grows: "counted (run g es) = counted g + sum_list (map snd es)"
    if "best_of g = Some b" "\<not> compiles b" "\<not> progress b m" "set es \<subseteq> set suf" for g b es
    using that st progress_cotrans by (intro stuck_adds [OF that(1,2)]) blast
  show ?thesis
  proof (cases "\<exists>b. best_of (run f pre) = Some b \<and> \<not> compiles b \<and> \<not> progress b m")
    case True
    then obtain b where "best_of (run f pre) = Some b" "\<not> compiles b" "\<not> progress b m" by blast
    from grows [OF this, of suf] show ?thesis by simp
  next
    case False
    have fresh: "\<forall>b. best_of (run f pre) = Some b \<longrightarrow> compiles b" and m: "m = s"
    proof -
      have "(\<forall>b. best_of (run f pre) = Some b \<longrightarrow> compiles b) \<and> m = s"
      proof (cases pre rule: rev_cases)
        case Nil
        have "compiles b" if "best_of f = Some b" for b
        proof (rule ccontr)
          assume "\<not> compiles b"
          then have "m = b" using that Nil by (simp add: m_def measured_from_def before_def)
          then show False using False that Nil \<open>\<not> compiles b\<close> no_self_progress by auto
        qed
        then show ?thesis using Nil
          by (cases "best_of f") (simp_all add: m_def measured_from_def before_def suf)
      next
        case (snoc pre' e)
        obtain s' n' where e: "e = (s', n')" by fastforce
        then have r: "run f pre = advance (run f pre') s' n'" by (simp add: snoc)
        show ?thesis
        proof (cases "compiles s'")
          case True
          then show ?thesis using on_compiles [OF True, of "run f pre'" n'] unfolding r
            by (simp add: m_def measured_from_def before_def suf snoc e)
        next
          case broken: False
          then have "m = s'" by (simp add: m_def measured_from_def before_def snoc e)
          then show ?thesis using best_after [OF broken, of "run f pre'" n'] False unfolding r by blast
        qed
      qed
      then show "\<forall>b. best_of (run f pre) = Some b \<longrightarrow> compiles b" "m = s" by blast+
    qed
    have "\<not> compiles s" using st suf by auto
    note start = on_start [OF this fresh, of n]
    have "counted (run (advance (run f pre) s n) rest) = n + sum_list (map snd rest)"
      using grows [of "advance (run f pre) s n" s rest] start \<open>\<not> compiles s\<close> no_self_progress m suf by simp blast
    then show ?thesis by (simp add: suf)
  qed
qed

end

interpretation breaker: streak_counter "\<lambda>s. failedChecks \<le> level s" madeProgress record_edit brokenEdits best
  by unfold_locales (simp, rule madeProgress_cotrans, auto simp: record_edit_def split: option.splits)

text \<open>Recording states in the guard is recording them in the tracked file.\<close>

lemma fileOf_recordState:
  "fileOf t u g = Some f \<Longrightarrow> fileOf t u (recordState t u s n g) = Some (record_edit f s n)"
  by (auto simp: fileOf_def recordState_def js_simps bind_eq_Some_conv)

lemma fileOf_records:
  "fileOf t u g = Some f \<Longrightarrow>
     fileOf t u (fold (\<lambda>(s, n). recordState t u s n) edits g) = Some (fold (\<lambda>(s, n) f. record_edit f s n) edits f)"
  by (induction edits arbitrary: g f) (auto simp: fileOf_recordState)

lemma relative_record_edit [simp]: "relative (record_edit f s n) = relative f"
  by (auto simp: record_edit_def split: option.splits)

lemma relative_records [simp]: "relative (fold (\<lambda>(s, n) f. record_edit f s n) edits f) = relative f"
  by (induction edits arbitrary: f) auto


subsection \<open>Reading a status back\<close>

lemma lastIndexOf_eq:
  assumes "starts_with p (drop i s)" "\<And>j. i < j \<Longrightarrow> j \<le> length s \<Longrightarrow> \<not> starts_with p (drop j s)" "i \<le> length s"
  shows "lastIndexOf s p = Some i"
proof -
  have "[0..<length s + 1] = [0..<i] @ [i..<length s + 1]"
    using upt_add_eq_append [of 0 i "length s + 1 - i"] assms(3) by simp
  moreover have "[i..<length s + 1] = i # [i + 1..<length s + 1]"
    using assms(3) by (simp add: upt_conv_Cons)
  ultimately have "[0..<length s + 1] = [0..<i] @ i # [i + 1..<length s + 1]" by simp
  then have "rev [0..<length s + 1] = rev [i + 1..<length s + 1] @ i # rev [0..<i]" by simp
  moreover have "filter (\<lambda>i. starts_with p (drop i s)) (rev [i + 1..<length s + 1]) = []"
    using assms(2) assms(2) [of "length s"] by (auto simp: filter_empty_conv)
  ultimately show ?thesis using assms(1) by (simp add: lastIndexOf_def del: upt_Suc)
qed

text \<open>A text with no occurrence of the pattern after its start, whose first character does not recur in it,
  is the last occurrence.\<close>

lemma lastIndexOf_last:
  assumes "hd p \<notin> set (tl p)" "p \<noteq> []" "\<And>j. \<not> starts_with p (drop j tl')"
  shows "lastIndexOf (pre @ p @ tl') p = Some (length pre)"
proof (rule lastIndexOf_eq)
  show "starts_with p (drop (length pre) (pre @ p @ tl'))" by (simp add: starts_with_def)
  fix j
  assume j: "length pre < j" "j \<le> length (pre @ p @ tl')"
  show "\<not> starts_with p (drop j (pre @ p @ tl'))"
  proof (cases "j < length pre + length p")
    case True
    obtain k where k: "j = length pre + Suc k" using j(1) less_iff_Suc_add by auto
    obtain c cs where p: "p = c # cs" using assms(2) by (cases p) auto
    have "drop j (pre @ p @ tl') = drop k cs @ tl'" "k < length cs" using True by (simp_all add: k p)
    moreover have "hd (drop k cs @ tl') \<noteq> c"
      using assms(1) \<open>k < length cs\<close> by (simp add: p hd_append hd_drop_conv_nth) (metis nth_mem)
    ultimately show ?thesis by (simp only: starts_with_append_iff p) (metis append_Cons list.sel(1))
  next
    case False
    then have "drop j (pre @ p @ tl') = drop (j - length pre - length p) tl'" by simp
    then show ?thesis using assms(3) by metis
  qed
qed simp

lemma split_on_join:
  "\<forall>l\<in>set ls. c \<notin> set l \<Longrightarrow> ls \<noteq> [] \<Longrightarrow> split_on c (join [c] ls) = ls"
proof (induction "[c]" ls rule: join.induct)
  case (3 x y ys)
  then show ?case using split_on_append [of c x] by (simp add: split_on_none)
qed (simp_all add: split_on_none)

lemma trim_id: "s \<noteq> [] \<Longrightarrow> \<not> white (hd s) \<Longrightarrow> \<not> white (last s) \<Longrightarrow> trim s = s"
  by (simp add: trim_def dropWhile_hd hd_rev)

subsection \<open>The text of a status\<close>

definition ends_plain :: "string \<Rightarrow> bool" where
  "ends_plain s \<longleftrightarrow> s \<noteq> [] \<and> \<not> white (last s) \<and> CHR 0x0A \<notin> set s"

lemma not_newline_show_nat [simp]: "CHR 0x0A \<notin> set (show_nat n)"
  by (rule not_digit_show_nat) (simp add: digits_def digit_char_def)

lemma ends_plain_append: "CHR 0x0A \<notin> set s \<Longrightarrow> ends_plain t \<Longrightarrow> ends_plain (s @ t)"
  by (auto simp: ends_plain_def)

lemma ends_plain_join:
  "\<forall>t\<in>set ts. ends_plain t \<Longrightarrow> ts \<noteq> [] \<Longrightarrow> ends_plain (join ''; '' ts)"
proof (induction "''; ''" ts rule: join.induct)
  case (3 x y ys)
  then show ?case by (auto intro!: ends_plain_append) (auto simp: ends_plain_def)
qed auto

lemma ends_plain_describe: "ends_plain (describeFileState st)"
  by (cases "level st") (auto simp: ends_plain_def describeFileState_def Let_def plural_def white_def)

lemma ends_plain_statusOf: "ends_plain (statusOf f now)"
proof -
  have "ends_plain ''status unknown''" "ends_plain ''the check did not finish, so this is unknown''"
    by (auto simp: ends_plain_def white_def)
  moreover have "ends_plain (show_nat p @ '' of '' @ show_nat n @ '' checks pass'')"
    "ends_plain (show_nat p @ '' check'' @ plural n @ '' changed or removed this turn'')"
    "ends_plain (show_nat p @ '' warning'' @ plural n)" for p n
    by (auto simp: ends_plain_def white_def plural_def)
  ultimately show ?thesis
    by (auto simp: statusOf_def Let_def ends_plain_describe simp del: append_Cons
        intro!: ends_plain_join split: option.splits)
qed


lemma status_lines_plain:
  assumes "\<forall>f\<in>set fs. CHR 0x0A \<notin> set (relative f)" "\<forall>k\<in>set ko. CHR 0x0A \<notin> set (ko_relative k)"
    "l \<in> set (status_lines cur fs ko)"
  shows "ends_plain l \<and> hd l = CHR ''`''"
proof -
  have "ends_plain (''`'' @ rel @ ''`: '' @ st)" if "CHR 0x0A \<notin> set rel" "ends_plain st" for rel st
    using that by (auto simp: ends_plain_def)
  moreover have "ends_plain (''not edited, but now has '' @ errorCount n)" for n
    by (auto simp: ends_plain_def errorCount_def plural_def white_def)
  ultimately have "ends_plain (''`'' @ ko_relative k @ ''`: not edited, but now has '' @ errorCount n)"
    if "k \<in> set ko" for k n
    using assms(2) that by (metis append.assoc append_Cons append_Nil)
  then show ?thesis
    using assms ends_plain_statusOf \<open>\<And>st rel. CHR 0x0A \<notin> set rel \<Longrightarrow> ends_plain st \<Longrightarrow> ends_plain (''`'' @ rel @ ''`: '' @ st)\<close>
    unfolding status_lines_def by (fastforce split: option.splits)
qed

subsection \<open>Calls of one turn\<close>

lemma guard_exec_local:
  assumes "jm_get g (call_turn c) = jm_get g' (call_turn c)"
  shows "fst (guard_exec c g) = fst (guard_exec c g') \<and>
    jm_get (snd (guard_exec c g)) (call_turn c) = jm_get (snd (guard_exec c g')) (call_turn c)"
  using assms
  by (cases c) (simp_all add: js_simps beginRound_def track_def noteErrorsBefore_def recordState_def stopNudge_def
      takeStatus_def endTurn_def turn_of_def Let_def split: option.splits)

subsection \<open>Properties\<close>

text \<open>however the calls are ordered, a turn is sent the nudge at most once until it ends.\<close>

theorem nudged_once:
  assumes "EndTurn t \<notin> set cs"
  shows "length (filter (is_nudge t) (fst (guard_run cs g))) \<le> 1"
  by (rule at_most_one_nudge [OF assms])

text \<open>turns do not interfere: what a turn's calls return, and what the guard holds of it afterwards, is
  what they would be with every other turn's calls left out.\<close>

theorem turns_independent:
  "let mine = filter (\<lambda>c. call_turn c = t) cs
   in filter (\<lambda>x. call_turn (fst x) = t) (fst (guard_run cs g)) = fst (guard_run mine g) \<and>
      jm_get (snd (guard_run cs g)) t = jm_get (snd (guard_run mine g)) t"
proof -
  have "jm_get g t = jm_get g' t \<Longrightarrow>
      filter (\<lambda>x. call_turn (fst x) = t) (fst (guard_run cs g)) = fst (guard_run (filter (\<lambda>c. call_turn c = t) cs) g') \<and>
      jm_get (snd (guard_run cs g)) t = jm_get (snd (guard_run (filter (\<lambda>c. call_turn c = t) cs) g')) t" for g'
  proof (induction cs arbitrary: g g')
    case (Cons c cs)
    show ?case
    proof (cases "call_turn c = t")
      case True
      then show ?thesis using guard_exec_local [of g c g'] Cons by (simp add: case_prod_beta Let_def)
    next
      case False
      then show ?thesis using guard_exec_other [OF False, of g] Cons by (simp add: case_prod_beta Let_def)
    qed
  qed simp
  then show ?thesis by simp
qed

text \<open>C12: the breaker stops a turn from editing a file exactly when its last edits, as many as the limit or more, all left it not
  compiling and no closer to compiling than it was before the first of them; or, where it compiled then or was not known,
  than the first of them left it. Whatever was recorded earlier, a file that compiled or got closer in between starts anew.\<close>

theorem blocked_iff_stuck:
  assumes "fileOf t u g = Some f" "brokenEdits f = 0"
  shows "blocked t u (fold (\<lambda>(s, n). recordState t u s n) edits g) \<noteq> None \<longleftrightarrow>
    (\<exists>pre suf. edits = pre @ suf \<and> 15 \<le> sum_list (map snd suf) \<and>
       (let start = (if pre = [] then best f else Some (fst (last pre)));
            from = (case start of None \<Rightarrow> fst (hd suf)
                    | Some s \<Rightarrow> if failedChecks \<le> level s then fst (hd suf) else s)
        in list_all (\<lambda>(s, n). level s < failedChecks \<and> \<not> madeProgress from s) suf))"
    (is "?blocked \<longleftrightarrow> ?stuck")
proof -
  let ?run = "fold (\<lambda>(s, n) f. record_edit f s n)"
  have stalled: "(let start = (if pre = [] then best f else Some (fst (last pre)));
      from = (case start of None \<Rightarrow> fst (hd suf) | Some s \<Rightarrow> if failedChecks \<le> level s then fst (hd suf) else s)
      in list_all (\<lambda>(s, n). level s < failedChecks \<and> \<not> madeProgress from s) suf) = breaker.stalled f pre suf" for pre suf
    by (simp add: breaker.stalled_def breaker.measured_from_def breaker.before_def Let_def list_all_iff not_le)
  have "?blocked \<longleftrightarrow> 15 \<le> brokenEdits (?run edits f)"
    by (simp add: blocked_def fileOf_records [OF assms(1)] MAX_BROKEN_EDITS_def)
  also have "\<dots> \<longleftrightarrow> ?stuck"
  proof
    assume many: "15 \<le> brokenEdits (?run edits f)"
    obtain pre suf where "edits = pre @ suf" "brokenEdits (?run edits f) = sum_list (map snd suf)" "breaker.stalled f pre suf"
      using breaker.streak [OF assms(2), of edits] by blast
    with many show ?stuck unfolding stalled by (intro exI [of _ pre] exI [of _ suf]) simp
  next
    assume ?stuck
    then obtain pre suf where "edits = pre @ suf" "15 \<le> sum_list (map snd suf)" "breaker.stalled f pre suf"
      unfolding stalled by blast
    moreover from this have "suf \<noteq> []" by auto
    ultimately show "15 \<le> brokenEdits (?run edits f)"
      using breaker.stalled_counts [of f pre suf] by (simp del: fold_append)
  qed
  finally show ?thesis .
qed

text \<open>the breaker does stop them: once the edits since the best state that left the file broken and no
  closer to compiling reach the limit, the file is blocked.\<close>

theorem stuck_is_blocked:
  assumes "fileOf t u g = Some f" "best f = Some b" "level b < failedChecks"
    and "\<forall>(s, n)\<in>set edits. level s < failedChecks \<and> \<not> madeProgress b s"
    and "MAX_BROKEN_EDITS \<le> brokenEdits f + sum_list (map snd edits)"
  shows "blocked t u (fold (\<lambda>(s, n). recordState t u s n) edits g) \<noteq> None"
proof -
  have "brokenEdits (fold (\<lambda>(s, n) f. record_edit f s n) edits f) = brokenEdits f + sum_list (map snd edits)"
    using assms(2-4) by (intro breaker.stuck_adds) (auto simp: not_le)
  then show ?thesis using assms(5) by (simp add: blocked_def fileOf_records [OF assms(1)])
qed

text \<open>a turn is not nudged for errors that were already there: when no tracked file is worse than its
  baseline and no other file has more errors than before the turn's first edit, the nudge is null.\<close>

theorem no_nudge_for_old_errors:
  assumes "\<forall>f\<in>set (trackedFiles t g). \<forall>now b. Option.bind (snapshot_now cur f) snap_state = Some now \<longrightarrow>
      snap_state (baseline f) = Some b \<longrightarrow> \<not> isWorse b now"
    and "\<forall>r before u n b. jm_get g t = Some r \<longrightarrow> errorsBefore r = Some before \<longrightarrow> (u, n) \<in> set counts \<longrightarrow>
      jm_get before u = Some b \<longrightarrow> n \<le> b"
  shows "stopNudge t cur (knockOnFiles t (Some counts) relativeOf g) g = (None, g)"
proof (cases "jm_get g t")
  case (Some r)
  have "introduced cur f = None" if "f \<in> set (map snd (files r))" for f
    using assms(1) that Some by (auto simp: introduced_def trackedFiles_def split: option.splits)
  moreover have "knockOnFiles t (Some counts) relativeOf g = []"
    using assms(2) Some by (fastforce simp: knockOnFiles_def filter_empty_conv split: option.splits)
  ultimately have "broken_parts cur (map snd (files r)) (knockOnFiles t (Some counts) relativeOf g) = []"
    by (auto simp: broken_parts_def)
  then show ?thesis using Some by (simp add: stopNudge_def)
qed (simp add: stopNudge_def)


text \<open>a reply with a status appended gives back the status lines, one per tracked file with a snapshot
  and per knock-on file, in order, whatever the reply says before; and taking the status forgets the
  files, so a second one is null.\<close>

theorem status_round_trip:
  assumes "takeStatus t cur ko g = (Some status, g')"
    and "\<forall>f\<in>set (trackedFiles t g). CHR 0x0A \<notin> set (relative f)" "\<forall>k\<in>set ko. CHR 0x0A \<notin> set (ko_relative k)"
    and "\<forall>j. \<not> starts_with TURN_STATUS_HEADING
           (drop j (CHR 0x0A # join [CHR 0x0A] (map dash (status_lines cur (trackedFiles t g) ko))))"
  shows "turnStatusLines (Some (reply @ status)) = status_lines cur (trackedFiles t g) ko \<and>
    takeStatus t cur' ko' g' = (None, g')"
proof -
  define ls where "ls = status_lines cur (trackedFiles t g) ko"
  define pre where "pre = reply @ [CHR 0x0A, CHR 0x0A] @ ''---'' @ [CHR 0x0A]"
  define body where "body = CHR 0x0A # join [CHR 0x0A] (map dash ls)"
  obtain r where r: "jm_get g t = Some r" "files r \<noteq> []"
    using assms(1) by (auto simp: takeStatus_def split: option.splits if_splits)
  have taken: "ls \<noteq> []" "reply @ status = pre @ TURN_STATUS_HEADING @ body" "g' = jm_set t (r\<lparr>files := []\<rparr>) g"
    using assms(1) r
    by (auto simp: takeStatus_def trackedFiles_def ls_def body_def pre_def Let_def split: if_splits)
  have plain: "ends_plain l \<and> hd l = CHR ''`''" if "l \<in> set ls" for l
    using status_lines_plain [OF assms(2,3)] that by (simp add: ls_def)
  have "hd TURN_STATUS_HEADING \<notin> set (tl TURN_STATUS_HEADING)" "TURN_STATUS_HEADING \<noteq> []"
    by (simp_all add: TURN_STATUS_HEADING_def)
  then have "lastIndexOf (reply @ status) TURN_STATUS_HEADING = Some (length pre)"
    unfolding taken(2) using assms(4) by (intro lastIndexOf_last) (auto simp: body_def ls_def)
  moreover have "split_on (CHR 0x0A) body = [] # map dash ls"
    using taken(1) plain by (simp add: body_def split_on_join ends_plain_def dash_def)
  moreover have "trim l = l" if "l \<in> set ls" for l
    using plain [OF that] by (intro trim_id) (auto simp: ends_plain_def white_def)
  moreover have "trim [] = []" by (simp add: trim_def)
  ultimately have "turnStatusLines (Some (reply @ status)) = filter (\<lambda>l. l \<noteq> []) ls"
    by (simp add: turnStatusLines_def taken(2) starts_with_def dash_def cong: map_cong)
  also have "\<dots> = ls" using plain by (auto simp: filter_id_conv ends_plain_def)
  finally have "turnStatusLines (Some (reply @ status)) = ls" .
  moreover have "takeStatus t cur' ko' g' = (None, g')"
    unfolding taken(3) by (simp add: takeStatus_def js_simps)
  ultimately show ?thesis by (simp add: ls_def)
qed

subsection \<open>Witnesses\<close>

definition broken_state :: "nat \<Rightarrow> l4_file_state" where
  "broken_state n = \<lparr>level = compileErrors, errors = n, warnings = 0, fs_pending = False, firstErrorLine = Some 0\<rparr>"

definition eg_example :: edit_guard where
  "eg_example = track ''t'' ''file:///a'' ''a.l4'' NEW_FILE []"

definition eg_current :: current_snapshots where
  "eg_current = [(''file:///a'', Some \<lparr>snap_state = Some (broken_state 1), checks = []\<rparr>)]"

theorem nudged_once_witness:
  "let calls = [StopNudge ''t'' eg_current [], TakeStatus ''u'' [] [], StopNudge ''t'' eg_current []]
   in map (is_nudge ''t'') (fst (guard_run calls eg_example)) = [True, False, False] \<and>
      length (filter (is_nudge ''t'') (fst (guard_run calls eg_example))) \<le> 1"
proof -
  have "map (is_nudge ''t'') (fst (guard_run [StopNudge ''t'' eg_current [], TakeStatus ''u'' [] [],
      StopNudge ''t'' eg_current []] eg_example)) = [True, False, False]"
    by code_simp
  moreover have "length (filter (is_nudge ''t'') (fst (guard_run [StopNudge ''t'' eg_current [], TakeStatus ''u'' [] [],
      StopNudge ''t'' eg_current []] eg_example))) \<le> 1"
    by (rule nudged_once) simp
  ultimately show ?thesis by (simp add: Let_def)
qed

lemma eg_example_file:
  "fileOf ''t'' ''file:///a'' eg_example = Some \<lparr>uri = ''file:///a'', relative = ''a.l4'', baseline = NEW_FILE,
     best = snap_state NEW_FILE, brokenEdits = 0\<rparr>"
  by (simp add: eg_example_def track_def turn_of_def fileOf_def)

text \<open>Three calls of five edits that do not help; with progress in the last one the file stays open.\<close>

theorem blocked_iff_stuck_witness:
  "blocked ''t'' ''file:///a'' (fold (\<lambda>(s, n). recordState ''t'' ''file:///a'' s n) (replicate 3 (broken_state 2, 5)) eg_example) \<noteq> None"
proof -
  have "replicate 3 (broken_state 2, 5) = [] @ replicate 3 (broken_state 2, 5 :: nat)" "15 \<le> sum_list (map snd (replicate 3 (broken_state 2, 5 :: nat)))"
    by (simp_all add: sum_list_replicate)
  then show ?thesis
    unfolding blocked_iff_stuck [OF eg_example_file tracked_file.select_convs(5)]
    by (intro exI [of _ "[]"] exI [of _ "replicate 3 (broken_state 2, 5)"])
      (simp add: NEW_FILE_def broken_state_def numeral_3_eq_3 less_file_level_def less_eq_file_level_def madeProgress_def isWorse_def)
qed

definition eg_broken :: edit_guard where
  "eg_broken = recordState ''t'' ''file:///a'' (broken_state 1) 1 eg_example"

theorem stuck_is_blocked_witness:
  "blocked ''t'' ''file:///a'' (fold (\<lambda>(s, n). recordState ''t'' ''file:///a'' s n)
     (replicate 14 (broken_state 2, 1)) eg_broken) \<noteq> None"
proof -
  have "fileOf ''t'' ''file:///a'' eg_broken = Some (record_edit \<lparr>uri = ''file:///a'', relative = ''a.l4'',
      baseline = NEW_FILE, best = snap_state NEW_FILE, brokenEdits = 0\<rparr> (broken_state 1) 1)"
    unfolding eg_broken_def by (rule fileOf_recordState [OF eg_example_file])
  then show ?thesis
    by (rule stuck_is_blocked [where b = "broken_state 1"])
      (simp_all add: record_edit_def broken_state_def NEW_FILE_def MAX_BROKEN_EDITS_def less_eq_file_level_def
        less_file_level_def madeProgress_def isWorse_def sum_list_replicate)
qed

theorem no_nudge_for_old_errors_witness:
  "stopNudge ''t'' [(''file:///a'', Some NEW_FILE)] (knockOnFiles ''t'' (Some [(''file:///b'', 2)]) id eg_example) eg_example
     = (None, eg_example)"
proof (rule no_nudge_for_old_errors)
  show "\<forall>f\<in>set (trackedFiles ''t'' eg_example). \<forall>now b.
      Option.bind (snapshot_now [(''file:///a'', Some NEW_FILE)] f) snap_state = Some now \<longrightarrow>
      snap_state (baseline f) = Some b \<longrightarrow> \<not> isWorse b now"
    by (simp add: eg_example_def track_def turn_of_def trackedFiles_def snapshot_now_def NEW_FILE_def)
  show "\<forall>r before u n b. jm_get eg_example ''t'' = Some r \<longrightarrow> errorsBefore r = Some before \<longrightarrow>
      (u, n) \<in> set [(''file:///b'', 2)] \<longrightarrow> jm_get before u = Some b \<longrightarrow> n \<le> b"
    by (simp add: eg_example_def track_def turn_of_def)
qed

theorem status_round_trip_witness:
  "let (status, g) = takeStatus ''t'' eg_current [] eg_example
   in turnStatusLines (map_option (\<lambda>s. ''Done.'' @ s) status) = [''`a.l4`: does not compile (1 error)'']"
proof -
  obtain status where st: "takeStatus ''t'' eg_current [] eg_example = (Some status, snd (takeStatus ''t'' eg_current [] eg_example))"
    by (simp add: eg_example_def track_def turn_of_def takeStatus_def eg_current_def status_lines_def snapshot_now_def)
  have ls: "status_lines eg_current (trackedFiles ''t'' eg_example) [] = [''`a.l4`: does not compile (1 error)'']"
    by code_simp
  have "\<not> starts_with TURN_STATUS_HEADING (drop j (CHR 0x0A # ''- `a.l4`: does not compile (1 error)''))" for j
  proof
    assume "starts_with TURN_STATUS_HEADING (drop j (CHR 0x0A # ''- `a.l4`: does not compile (1 error)''))"
    then have "length TURN_STATUS_HEADING \<le> length (CHR 0x0A # ''- `a.l4`: does not compile (1 error)'')"
      by (auto simp: starts_with_append_iff dest!: arg_cong [of _ _ length])
    then show False by (simp add: TURN_STATUS_HEADING_def)
  qed
  then have "turnStatusLines (Some (''Done.'' @ status)) = status_lines eg_current (trackedFiles ''t'' eg_example) []"
    using status_round_trip [OF st, where reply = "''Done.''" and cur' = "[]" and ko' = "[]"] unfolding ls
    by (simp add: eg_example_def track_def turn_of_def trackedFiles_def dash_def)
  then show ?thesis using st ls by (simp add: case_prod_beta) (metis fst_conv option.map(2) st)
qed

end
