(* ===== verification/Validate.thy ===== *)
theory Validate
  imports L4Prelude
begin

text \<open>
  The protocol's run-time validators: \<^verbatim>\<open>ts-shared/legalese-agent/src/protocol/validate.ts\<close>.

  A \<^verbatim>\<open>Check<T>\<close> maps a value and a path to the error it throws (\<open>Inl\<close>) or the clean value (\<open>Inr\<close>); at
  run time a \<^verbatim>\<open>T\<close> is a JavaScript value, so the clean value is one too. A missing option of a
  combinator is given as its default.
\<close>

subsection \<open>Checks\<close>

record protocol_error =
  pe_message :: string
  pe_path :: string

type_synonym check = "jsval \<Rightarrow> string \<Rightarrow> protocol_error + jsval"

text \<open>The message of the thrown error.\<close>

definition error_text :: "protocol_error \<Rightarrow> string" where
  "error_text e = (if pe_path e \<noteq> [] then pe_path e @ '': '' @ pe_message e else pe_message e)"

definition tryParse :: "check \<Rightarrow> jsval \<Rightarrow> string + jsval" where
  "tryParse c v = (case c v [] of Inl e \<Rightarrow> Inl (error_text e) | Inr w \<Rightarrow> Inr w)"

definition fail :: "string \<Rightarrow> string \<Rightarrow> protocol_error + 'a" where
  "fail path message = Inl \<lparr>pe_message = message, pe_path = path\<rparr>"

subsection \<open>Values without parts\<close>

text \<open>\<open>min\<close>, \<open>max\<close> and the pattern of \<^verbatim>\<open>str\<close>; the defaults are 0, a million and none.\<close>

record str_opts =
  s_min :: nat
  s_max :: nat
  s_pattern :: "(string \<Rightarrow> bool) option"

definition any_str :: str_opts where
  "any_str = \<lparr>s_min = 0, s_max = 1000000, s_pattern = None\<rparr>"

definition str_check :: "str_opts \<Rightarrow> check" where
  "str_check opts v path =
     (case v of
        JStr s \<Rightarrow>
          if length s < s_min opts then fail path (''shorter than '' @ show_nat (s_min opts))
          else if s_max opts < length s then fail path (''longer than '' @ show_nat (s_max opts))
          else (case s_pattern opts of
                  None \<Rightarrow> Inr v
                | Some p \<Rightarrow> if p s then Inr v else fail path ''has an invalid format'')
      | _ \<Rightarrow> fail path ''expected a string'')"

definition MAX_SAFE_INTEGER :: int where
  "MAX_SAFE_INTEGER = 2 ^ 53 - 1"

definition show_int :: "int \<Rightarrow> string" where
  "show_int n = (if n < 0 then ''-'' @ show_nat (nat (- n)) else show_nat (nat n))"

definition int_check :: "int \<Rightarrow> int \<Rightarrow> check" where
  "int_check lo hi v path =
     (case v of
        JNum n \<Rightarrow>
          if MAX_SAFE_INTEGER < \<bar>n\<bar> then fail path ''expected an integer''
          else if n < lo \<or> hi < n then fail path (''out of range '' @ show_int lo @ ''..'' @ show_int hi)
          else Inr v
      | _ \<Rightarrow> fail path ''expected an integer'')"

definition num_check :: check where
  "num_check v path =
     (case v of
        JNum _ \<Rightarrow> Inr v
      | JFrac _ \<Rightarrow> Inr v
      | _ \<Rightarrow> fail path ''expected a number'')"

definition bool_check :: check where
  "bool_check v path = (case v of JBool _ \<Rightarrow> Inr v | _ \<Rightarrow> fail path ''expected a boolean'')"

subsection \<open>JSON\<close>

definition hex_digit :: "nat \<Rightarrow> char" where
  "hex_digit d = ''0123456789abcdef'' ! (d mod 16)"

definition escape_char :: "char \<Rightarrow> string" where
  "escape_char c =
     (let n = of_char c :: nat
      in if n = 34 then [CHR 0x5C, CHR 0x22]
         else if n = 92 then [CHR 0x5C, CHR 0x5C]
         else if n = 8 then [CHR 0x5C, CHR ''b'']
         else if n = 9 then [CHR 0x5C, CHR ''t'']
         else if n = 10 then [CHR 0x5C, CHR ''n'']
         else if n = 12 then [CHR 0x5C, CHR ''f'']
         else if n = 13 then [CHR 0x5C, CHR ''r'']
         else if n < 32 then [CHR 0x5C, CHR ''u'', CHR ''0'', CHR ''0'', hex_digit (n div 16), hex_digit n]
         else [c])"

definition json_string :: "string \<Rightarrow> string" where
  "json_string s = [CHR 0x22] @ concat (map escape_char s) @ [CHR 0x22]"

text \<open>
  \<^verbatim>\<open>JSON.stringify\<close>: nothing for \<^verbatim>\<open>undefined\<close>, which an array shows as \<^verbatim>\<open>null\<close> and an object leaves out. And
  what \<^verbatim>\<open>JSON.parse\<close> makes of that text.
\<close>

fun stringify :: "jsval \<Rightarrow> string option" where
  "stringify JUndefined = None"
| "stringify JNull = Some ''null''"
| "stringify (JBool b) = Some (if b then ''true'' else ''false'')"
| "stringify (JNum n) = Some (show_int n)"
| "stringify (JFrac t) = Some t"
| "stringify JNaN = Some ''null''"
| "stringify (JStr s) = Some (json_string s)"
| "stringify (JArray vs) =
     Some (''['' @ join '','' (map (\<lambda>v. case stringify v of None \<Rightarrow> ''null'' | Some t \<Rightarrow> t) vs) @ '']'')"
| "stringify (JObj fs) =
     Some (''{'' @ join '','' (concat (map (\<lambda>(k, v). case stringify v of
        None \<Rightarrow> [] | Some t \<Rightarrow> [json_string k @ '':'' @ t]) fs)) @ ''}'')"

fun reparse :: "jsval \<Rightarrow> jsval" where
  "reparse (JArray vs) = JArray (map (\<lambda>v. if v = JUndefined then JNull else reparse v) vs)"
| "reparse (JObj fs) =
     JObj (concat (map (\<lambda>(k, v). if v = JUndefined then [] else [(k, reparse v)]) fs))"
| "reparse JNaN = JNull"
| "reparse v = v"

definition json_check :: "nat \<Rightarrow> check" where
  "json_check maxBytes v path =
     (case stringify v of
        None \<Rightarrow> Inr JUndefined
      | Some t \<Rightarrow>
          if maxBytes < length t then fail path (''larger than '' @ show_nat maxBytes @ '' bytes'')
          else Inr (reparse v))"

definition literal_check :: "jsval list \<Rightarrow> check" where
  "literal_check values v path =
     (if v \<in> set values then Inr v
      else fail path (''expected one of '' @
        join '', '' (map (\<lambda>x. case stringify x of None \<Rightarrow> ''undefined'' | Some t \<Rightarrow> t) values)))"

definition literals :: "string list \<Rightarrow> check" where
  "literals values = literal_check (map JStr values)"

subsection \<open>Arrays and objects\<close>

fun check_items :: "check \<Rightarrow> string \<Rightarrow> nat \<Rightarrow> jsval list \<Rightarrow> protocol_error + jsval list" where
  "check_items item path i [] = Inr []"
| "check_items item path i (x # xs) =
     (case item x (path @ ''['' @ show_nat i @ '']'') of
        Inl e \<Rightarrow> Inl e
      | Inr y \<Rightarrow> (case check_items item path (i + 1) xs of Inl e \<Rightarrow> Inl e | Inr ys \<Rightarrow> Inr (y # ys)))"

definition arr :: "check \<Rightarrow> nat \<Rightarrow> check" where
  "arr item maxItems v path =
     (case v of
        JArray xs \<Rightarrow>
          if maxItems < length xs then fail path (''more than '' @ show_nat maxItems @ '' items'')
          else (case check_items item path 0 xs of Inl e \<Rightarrow> Inl e | Inr ys \<Rightarrow> Inr (JArray ys))
      | _ \<Rightarrow> fail path ''expected an array'')"

fun check_entries ::
    "check \<Rightarrow> check \<Rightarrow> string \<Rightarrow> (string \<times> jsval) list \<Rightarrow> (string \<times> jsval) list \<Rightarrow>
     protocol_error + (string \<times> jsval) list" where
  "check_entries key val path [] out = Inr out"
| "check_entries key val path ((k, v) # es) out =
     (case key (JStr k) (path @ ''{key}'') of
        Inl e \<Rightarrow> Inl e
      | Inr _ \<Rightarrow>
          (case val v (path @ ''.'' @ k) of
             Inl e \<Rightarrow> Inl e
           | Inr w \<Rightarrow> check_entries key val path es (jm_set k w out)))"

definition stringMap :: "nat \<Rightarrow> check \<Rightarrow> check \<Rightarrow> check" where
  "stringMap maxEntries key val v path =
     (case v of
        JObj entries \<Rightarrow>
          if maxEntries < length entries then fail path (''more than '' @ show_nat maxEntries @ '' entries'')
          else (case check_entries key val path entries [] of Inl e \<Rightarrow> Inl e | Inr out \<Rightarrow> Inr (JObj out))
      | _ \<Rightarrow> fail path ''expected an object'')"

datatype field = Required check | Optional check

type_synonym shape = "(string \<times> field) list"

fun check_fields ::
    "string \<Rightarrow> (string \<times> jsval) list \<Rightarrow> shape \<Rightarrow> (string \<times> jsval) list \<Rightarrow>
     protocol_error + (string \<times> jsval) list" where
  "check_fields path v [] out = Inr out"
| "check_fields path v ((key, f) # sh) out =
     (let sub = (if path \<noteq> [] then path @ ''.'' @ key else key);
          raw = (case map_of v key of None \<Rightarrow> JUndefined | Some x \<Rightarrow> x)
      in case f of
           Optional c \<Rightarrow>
             if raw = JUndefined \<or> raw = JNull then check_fields path v sh out
             else (case c raw sub of
                     Inl e \<Rightarrow> Inl e
                   | Inr w \<Rightarrow> check_fields path v sh (jm_set key w out))
         | Required c \<Rightarrow>
             (case c raw sub of
                Inl e \<Rightarrow> Inl e
              | Inr w \<Rightarrow> check_fields path v sh (jm_set key w out)))"

definition obj :: "shape \<Rightarrow> check" where
  "obj sh v path =
     (case v of
        JObj fs \<Rightarrow>
          (case check_fields path fs sh [] of Inl e \<Rightarrow> Inl e | Inr out \<Rightarrow> Inr (JObj out))
      | _ \<Rightarrow> fail path ''expected an object'')"

definition json_text :: "jsval \<Rightarrow> string" where
  "json_text v = (case stringify v of None \<Rightarrow> ''undefined'' | Some t \<Rightarrow> t)"

definition union_check :: "string \<Rightarrow> (string \<times> check) list \<Rightarrow> check" where
  "union_check tag variants v path =
     (case v of
        JObj fs \<Rightarrow>
          (let t = (case map_of fs tag of None \<Rightarrow> JUndefined | Some x \<Rightarrow> x);
               bad = fail (if path \<noteq> [] then path @ ''.'' @ tag else tag) (''unknown '' @ tag @ '' '' @ json_text t)
           in case t of
                JStr name \<Rightarrow> (case map_of variants name of None \<Rightarrow> bad | Some c \<Rightarrow> c v path)
              | _ \<Rightarrow> bad)
      | _ \<Rightarrow> fail path ''expected an object'')"

text \<open>\<^verbatim>\<open>{ ...a, ...b }\<close>.\<close>

definition spread :: "(string \<times> jsval) list \<Rightarrow> (string \<times> jsval) list \<Rightarrow> (string \<times> jsval) list" where
  "spread a b = fold (\<lambda>(k, v). jm_set k v) b (fold (\<lambda>(k, v). jm_set k v) a [])"

definition own_fields :: "jsval \<Rightarrow> (string \<times> jsval) list" where
  "own_fields v = (case v of JObj fs \<Rightarrow> fs | _ \<Rightarrow> [])"

definition both :: "check \<Rightarrow> check \<Rightarrow> check" where
  "both a b v path =
     (case a v path of
        Inl e \<Rightarrow> Inl e
      | Inr x \<Rightarrow> (case b v path of
          Inl e \<Rightarrow> Inl e
        | Inr y \<Rightarrow> Inr (JObj (spread (own_fields x) (own_fields y)))))"


subsection \<open>Contracts\<close>

text \<open>What checking a clean value again gives: the same, on any path.\<close>

locale check_law =
  fixes c :: check
  assumes idem: "c v p = Inr w \<Longrightarrow> c w q = Inr w"
begin

lemma tryParse_again: "tryParse c v = Inr w \<Longrightarrow> tryParse c w = Inr w"
  using idem by (auto simp: tryParse_def split: sum.splits)

end

text \<open>A check whose values an optional field can hold.\<close>

locale field_law = check_law +
  assumes defined: "c v p = Inr w \<Longrightarrow> w \<noteq> JUndefined \<and> w \<noteq> JNull"

text \<open>A check that passes values through.\<close>

locale scalar_law =
  fixes c :: check
  assumes same: "c v p = Inr w \<Longrightarrow> w = v \<and> c v q = Inr v"
    and not_null: "c v p = Inr w \<Longrightarrow> v \<noteq> JUndefined \<and> v \<noteq> JNull"

sublocale scalar_law \<subseteq> field_law
  by unfold_locales (use same not_null in blast)+

text \<open>A check of an object that keeps some of the keys of a set and looks at no other key.\<close>

locale object_law =
  fixes c :: check and keys :: "string set"
  assumes clean: "c v p = Inr w \<Longrightarrow> \<exists>out. w = JObj out \<and> distinct (map fst out) \<and> fst ` set out \<subseteq> keys"
    and stable: "c v p = Inr (JObj out) \<Longrightarrow> (\<And>k. k \<in> keys \<Longrightarrow> map_of fs k = map_of out k) \<Longrightarrow>
      c (JObj fs) q = Inr (JObj out)"
begin

lemma again: "c v p = Inr w \<Longrightarrow> c w q = Inr w"
  using clean [of v p w] stable [of v p _ _ q] by auto

text \<open>Fields the check does not know change nothing.\<close>

lemma unknown_ignored:
  assumes "c v p = Inr (JObj out)" "fst ` set extra \<inter> keys = {}"
  shows "c (JObj (extra @ out)) q = Inr (JObj out)"
proof (rule stable [OF assms(1)])
  fix k assume "k \<in> keys"
  then have "map_of extra k = None" using assms(2) by (auto simp: map_of_eq_None_iff)
  then show "map_of (extra @ out) k = map_of out k" by (simp add: map_add_def)
qed

end

sublocale object_law \<subseteq> field_law c
proof unfold_locales
  show "c v p = Inr w \<Longrightarrow> c w q = Inr w" for v p w q by (rule again)
  show "c v p = Inr w \<Longrightarrow> w \<noteq> JUndefined \<and> w \<noteq> JNull" for v p w
    using clean [of v p w] by auto
qed

subsection \<open>The combinators keep their contracts\<close>

lemma fail_Inl [simp]: "fail path msg \<noteq> Inr w"
  by (simp add: fail_def)

lemma str_law: "scalar_law (str_check opts)"
  by unfold_locales (auto simp: str_check_def split: jsval.splits if_splits option.splits)

lemma int_law: "scalar_law (int_check lo hi)"
  by unfold_locales (auto simp: int_check_def split: jsval.splits if_splits)

lemma bool_law: "scalar_law bool_check"
  by unfold_locales (auto simp: bool_check_def split: jsval.splits)

lemma num_law: "scalar_law num_check"
  by unfold_locales (auto simp: num_check_def split: jsval.splits)

lemma literals_law: "scalar_law (literals values)"
  by unfold_locales (auto simp: literals_def literal_check_def split: if_splits)

lemma check_items_again:
  assumes "check_law item"
  shows "check_items item p i xs = Inr ys \<Longrightarrow> length ys = length xs \<and> check_items item q j ys = Inr ys"
proof (induction xs arbitrary: i j ys)
  case (Cons x xs)
  from Cons.prems obtain y zs where "item x (p @ ''['' @ show_nat i @ '']'') = Inr y"
    "check_items item p (i + 1) xs = Inr zs" "ys = y # zs"
    by (auto split: sum.splits)
  then show ?case using Cons.IH check_law.idem [OF assms] by simp
qed simp

lemma arr_law:
  assumes "check_law item"
  shows "field_law (arr item n)"
proof -
  have *: "\<exists>xs ys. v = JArray xs \<and> length xs \<le> n \<and> check_items item p 0 xs = Inr ys \<and> w = JArray ys"
    if "arr item n v p = Inr w" for v p w
    using that by (auto simp: arr_def split: jsval.splits if_splits sum.splits)
  show ?thesis
  proof
    fix v p w q
    assume "arr item n v p = Inr w"
    from * [OF this] obtain xs ys where "length xs \<le> n" "check_items item p 0 xs = Inr ys" "w = JArray ys" by blast
    then show "arr item n w q = Inr w" using check_items_again [OF assms, of p 0 xs ys q 0] by (simp add: arr_def)
  next
    show "arr item n v p = Inr w \<Longrightarrow> w \<noteq> JUndefined \<and> w \<noteq> JNull" for v p w using * by blast
  qed
qed

lemma stringify_None [simp]: "stringify v = None \<longleftrightarrow> v = JUndefined"
  by (cases v) auto

lemma reparse_undefined [simp]: "reparse v = JUndefined \<longleftrightarrow> v = JUndefined"
  by (cases v) auto

lemma stringify_reparse: "stringify (reparse v) = stringify v"
proof (induction v)
  case (JArray vs)
  have "(case stringify (if v = JUndefined then JNull else reparse v) of None \<Rightarrow> ''null'' | Some t \<Rightarrow> t) =
      (case stringify v of None \<Rightarrow> ''null'' | Some t \<Rightarrow> t)" if "v \<in> set vs" for v
    using JArray.IH [OF that] by (cases "v = JUndefined") auto
  then show ?case by (simp add: comp_def cong: map_cong)
next
  case (JObj fs)
  let ?clean = "\<lambda>(k, v). if v = JUndefined then [] else [(k, reparse v)]"
  let ?show = "\<lambda>(k, v). case stringify v of None \<Rightarrow> [] | Some t \<Rightarrow> [json_string k @ '':'' @ t]"
  have one: "concat (map ?show (?clean kv)) = ?show kv" if "kv \<in> set fs" for kv
  proof -
    obtain k v where kv: "kv = (k, v)" by fastforce
    then have "v \<in> Basic_BNFs.snds kv" by simp
    then show ?thesis using JObj.IH [OF that] unfolding kv by (cases "v = JUndefined") auto
  qed
  have "set gs \<subseteq> set fs \<Longrightarrow> concat (map ?show (concat (map ?clean gs))) = concat (map ?show gs)" for gs
    using one by (induction gs) auto
  then show ?case by simp
qed auto

lemma reparse_reparse: "reparse (reparse v) = reparse v"
proof (induction v)
  case (JArray vs)
  have "(if (if v = JUndefined then JNull else reparse v) = JUndefined then JNull
        else reparse (if v = JUndefined then JNull else reparse v)) =
      (if v = JUndefined then JNull else reparse v)" if "v \<in> set vs" for v
    using JArray.IH [OF that] by (cases "v = JUndefined") auto
  then show ?case by (simp add: comp_def cong: map_cong)
next
  case (JObj fs)
  let ?clean = "\<lambda>(k, v). if v = JUndefined then [] else [(k, reparse v)]"
  have one: "concat (map ?clean (?clean kv)) = ?clean kv" if "kv \<in> set fs" for kv
  proof -
    obtain k v where kv: "kv = (k, v)" by fastforce
    then have "v \<in> Basic_BNFs.snds kv" by simp
    then show ?thesis using JObj.IH [OF that] unfolding kv by (cases "v = JUndefined") auto
  qed
  have "set gs \<subseteq> set fs \<Longrightarrow> concat (map ?clean (concat (map ?clean gs))) = concat (map ?clean gs)" for gs
    using one by (induction gs) auto
  then show ?case by simp
qed auto

lemma json_law: "check_law (json_check n)"
proof
  fix v p w q
  assume "json_check n v p = Inr w"
  then show "json_check n w q = Inr w"
    using stringify_reparse [of v] reparse_reparse [of v]
    by (cases "stringify v") (auto simp: json_check_def split: if_splits)
qed

interpretation json: check_law "json_check n" for n
  by (rule json_law)


subsection \<open>Objects keep the contract\<close>

definition field_ok :: "field \<Rightarrow> bool" where
  "field_ok f \<longleftrightarrow> (case f of Required c \<Rightarrow> check_law c | Optional c \<Rightarrow> field_law c)"

definition shape_ok :: "shape \<Rightarrow> bool" where
  "shape_ok sh \<longleftrightarrow> distinct (map fst sh) \<and> (\<forall>f\<in>snd ` set sh. field_ok f)"

lemma shape_ok_Nil [simp]: "shape_ok []"
  by (simp add: shape_ok_def)

lemma shape_ok_Cons: "shape_ok ((k, f) # sh) \<longleftrightarrow> k \<notin> fst ` set sh \<and> field_ok f \<and> shape_ok sh"
  by (auto simp: shape_ok_def)

abbreviation raw_field :: "(string \<times> jsval) list \<Rightarrow> string \<Rightarrow> jsval" where
  "raw_field fs k \<equiv> (case map_of fs k of None \<Rightarrow> JUndefined | Some x \<Rightarrow> x)"

lemma check_fields_stable:
  assumes "check_fields p fs sh acc = Inr out" "shape_ok sh" "fst ` set sh \<inter> fst ` set acc = {}"
  shows "\<exists>more. out = acc @ more \<and> distinct (map fst more) \<and> fst ` set more \<subseteq> fst ` set sh \<and>
    (\<forall>fs' q acc'. (\<forall>k\<in>fst ` set sh. map_of fs' k = map_of more k) \<longrightarrow> fst ` set sh \<inter> fst ` set acc' = {} \<longrightarrow>
       check_fields q fs' sh acc' = Inr (acc' @ more))"
  using assms
proof (induction sh arbitrary: acc)
  case (Cons kf sh)
  obtain key f where kf: "kf = (key, f)" by fastforce
  from Cons.prems have ok: "shape_ok sh" "key \<notin> fst ` set sh" "field_ok f" and new: "key \<notin> fst ` set acc"
    "fst ` set sh \<inter> fst ` set acc = {}"
    by (auto simp: kf shape_ok_Cons)
  have set_new: "jm_set key w a = a @ [(key, w)]" if "key \<notin> fst ` set a" for w :: jsval and a
    using that by (intro jm_set_new) (simp add: map_of_eq_None_iff)
  show ?case
  proof (cases "(\<exists>c. f = Optional c) \<and> (raw_field fs key = JUndefined \<or> raw_field fs key = JNull)")
    case True
    then obtain c where f: "f = Optional c" by blast
    have "check_fields p fs sh acc = Inr out" using Cons.prems(1) True by (auto simp: kf f Let_def)
    from Cons.IH [OF this ok(1) new(2)] obtain more where m: "out = acc @ more" "distinct (map fst more)"
      "fst ` set more \<subseteq> fst ` set sh" "\<And>fs' q acc'. (\<forall>k\<in>fst ` set sh. map_of fs' k = map_of more k) \<Longrightarrow>
        fst ` set sh \<inter> fst ` set acc' = {} \<Longrightarrow> check_fields q fs' sh acc' = Inr (acc' @ more)" by blast
    have "map_of more key = None" using m(3) ok(2) by (auto simp: map_of_eq_None_iff)
    then show ?thesis using m(1-3) m(4) by (intro exI [of _ more]) (auto simp: kf f Let_def)
  next
    case False
    define c where "c = (case f of Required c \<Rightarrow> c | Optional c \<Rightarrow> c)"
    obtain w where w: "c (raw_field fs key) (if p \<noteq> [] then p @ ''.'' @ key else key) = Inr w"
      "check_fields p fs sh (acc @ [(key, w)]) = Inr out"
      using Cons.prems(1) False set_new [OF new(1)]
      by (auto simp: kf c_def Let_def split: field.splits sum.splits if_splits)
    have again: "c w q = Inr w" for q
      using ok(3) w(1) check_law.idem [of c] field_law.axioms(1) [of c]
      by (auto simp: field_ok_def c_def split: field.splits)
    have some: "f = Optional c \<Longrightarrow> w \<noteq> JUndefined \<and> w \<noteq> JNull"
      using ok(3) w(1) field_law.defined [of c] by (auto simp: field_ok_def)
    have "fst ` set sh \<inter> fst ` set (acc @ [(key, w)]) = {}" using new ok(2) by auto
    from Cons.IH [OF w(2) ok(1) this] obtain more where m: "out = (acc @ [(key, w)]) @ more" "distinct (map fst more)"
      "fst ` set more \<subseteq> fst ` set sh" "\<And>fs' q acc'. (\<forall>k\<in>fst ` set sh. map_of fs' k = map_of more k) \<Longrightarrow>
        fst ` set sh \<inter> fst ` set acc' = {} \<Longrightarrow> check_fields q fs' sh acc' = Inr (acc' @ more)" by blast
    have "check_fields q fs' ((key, f) # sh) acc' = Inr (acc' @ (key, w) # more)"
      if eq: "\<forall>k\<in>insert key (fst ` set sh). map_of fs' k = map_of ((key, w) # more) k"
        and disj: "insert key (fst ` set sh) \<inter> fst ` set acc' = {}" for fs' q acc'
    proof -
      have "\<forall>k\<in>fst ` set sh. map_of fs' k = map_of more k" using eq ok(2) by auto
      moreover have "fst ` set sh \<inter> fst ` set (acc' @ [(key, w)]) = {}" using disj ok(2) by auto
      ultimately have rest: "check_fields q fs' sh (acc' @ [(key, w)]) = Inr ((acc' @ [(key, w)]) @ more)" by (rule m(4))
      have raw: "map_of fs' key = Some w" using eq by simp
      have put: "jm_set key w acc' = acc' @ [(key, w)]" using disj by (intro set_new) auto
      show ?thesis
      proof (cases f)
        case (Required d)
        then have "c = d" by (simp add: c_def)
        then show ?thesis using again rest raw put Required by (simp add: Let_def)
      next
        case (Optional d)
        then have "c = d" by (simp add: c_def)
        then show ?thesis using again rest raw put Optional some by (simp add: Let_def)
      qed
    qed
    moreover have "distinct (map fst ((key, w) # more))" using m(2,3) ok(2) by auto
    ultimately show ?thesis using m(1,3) by (intro exI [of _ "(key, w) # more"]) (auto simp: kf)
  qed
qed auto

lemma obj_law:
  assumes "shape_ok sh"
  shows "object_law (obj sh) (fst ` set sh)"
proof -
  have *: "\<exists>out. w = JObj out \<and> distinct (map fst out) \<and> fst ` set out \<subseteq> fst ` set sh \<and>
      (\<forall>fs q. (\<forall>k\<in>fst ` set sh. map_of fs k = map_of out k) \<longrightarrow> obj sh (JObj fs) q = Inr (JObj out))"
    if "obj sh v p = Inr w" for v p w
  proof -
    from that obtain fs out where v: "check_fields p fs sh [] = Inr out" "w = JObj out"
      by (auto simp: obj_def split: jsval.splits sum.splits)
    from check_fields_stable [OF v(1) assms] show ?thesis using v(2) by (auto simp: obj_def)
  qed
  show ?thesis
  proof
    show "obj sh v p = Inr w \<Longrightarrow> \<exists>out. w = JObj out \<and> distinct (map fst out) \<and> fst ` set out \<subseteq> fst ` set sh" for v p w
      using * by blast
  next
    fix v p out fs q
    assume c: "obj sh v p = Inr (JObj out)" and eq: "\<And>k. k \<in> fst ` set sh \<Longrightarrow> map_of fs k = map_of out k"
    from * [OF c] obtain out' where "JObj out = JObj out'"
      "\<And>fs q. \<forall>k\<in>fst ` set sh. map_of fs k = map_of out' k \<Longrightarrow> obj sh (JObj fs) q = Inr (JObj out')" by blast
    then show "obj sh (JObj fs) q = Inr (JObj out)" using eq by simp
  qed
qed


lemma object_law_mono:
  assumes "object_law c K" "K \<subseteq> L"
  shows "object_law c L"
proof
  show "c v p = Inr w \<Longrightarrow> \<exists>out. w = JObj out \<and> distinct (map fst out) \<and> fst ` set out \<subseteq> L" for v p w
    using object_law.clean [OF assms(1), of v p w] assms(2) by blast
  show "c (JObj fs) q = Inr (JObj out)"
    if "c v p = Inr (JObj out)" "\<And>k. k \<in> L \<Longrightarrow> map_of fs k = map_of out k" for v p out fs q
    using object_law.stable [OF assms(1) that(1)] that(2) assms(2) by blast
qed

text \<open>A variant of a union: its clean objects carry its tag.\<close>

definition tagged :: "string \<Rightarrow> string \<Rightarrow> check \<Rightarrow> bool" where
  "tagged tag name c \<longleftrightarrow> (\<forall>v p out. c v p = Inr (JObj out) \<longrightarrow> map_of out tag = Some (JStr name))"

lemma tagged_obj:
  assumes "shape_ok sh" "map_of sh tag = Some (Required (literals [name]))"
  shows "tagged tag name (obj sh)"
proof -
  have "map_of out tag = Some (JStr name)"
    if "check_fields p fs sh acc = Inr out" "fst ` set sh \<inter> fst ` set acc = {}" "shape_ok sh"
      "map_of sh tag = Some (Required (literals [name]))" for p fs sh acc out
    using that
  proof (induction sh arbitrary: acc)
    case (Cons kf sh)
    obtain key f where kf: "kf = (key, f)" by fastforce
    from Cons.prems have ok: "shape_ok sh" "key \<notin> fst ` set sh" "fst ` set sh \<inter> fst ` set acc = {}" "key \<notin> fst ` set acc"
      by (auto simp: kf shape_ok_Cons)
    have set_new: "jm_set key w acc = acc @ [(key, w)]" for w :: jsval
      using ok(4) by (intro jm_set_new) (simp add: map_of_eq_None_iff)
    have disj: "fst ` set sh \<inter> fst ` set (acc @ [(key, w)]) = {}" for w :: jsval using ok by auto
    show ?case
    proof (cases "key = tag")
      case True
      then have f: "f = Required (literals [name])" using Cons.prems(4) by (simp add: kf)
      obtain w where w: "w = JStr name" "check_fields p fs sh (acc @ [(key, w)]) = Inr out"
        using Cons.prems(1)
        by (auto simp: kf f Let_def set_new literals_def literal_check_def fail_def split: if_splits)
      from check_fields_stable [OF w(2) ok(1) disj] obtain more where
        more: "out = (acc @ [(key, w)]) @ more" "fst ` set more \<subseteq> fst ` set sh" by blast
      moreover have "map_of more tag = None" "map_of acc tag = None"
        using more(2) ok True by (auto simp: map_of_eq_None_iff)
      ultimately show ?thesis using True w(1) by (simp add: map_add_def)
    next
      case False
      then have "map_of sh tag = Some (Required (literals [name]))" using Cons.prems(4) by (simp add: kf)
      then show ?thesis
        using Cons.prems(1) Cons.IH [OF _ ok(3) ok(1)] Cons.IH [OF _ disj ok(1)]
        by (auto simp: kf Let_def set_new split: field.splits sum.splits if_splits)
    qed
  qed simp
  from this [OF _ _ assms, of _ _ "[]"] show ?thesis
    by (auto simp: tagged_def obj_def split: jsval.splits sum.splits)
qed

lemma union_law:
  assumes "\<And>name c. (name, c) \<in> set variants \<Longrightarrow> object_law c K \<and> tagged tag name c" "tag \<in> K"
  shows "object_law (union_check tag variants) K"
proof -
  have *: "\<exists>name c fs. v = JObj fs \<and> map_of variants name = Some c \<and> c v p = Inr w"
    if "union_check tag variants v p = Inr w" for v p w
    using that by (auto simp: union_check_def Let_def fail_def split: jsval.splits option.splits if_splits)
  have law: "object_law c K" "tagged tag name c" if "map_of variants name = Some c" for name c
    using assms(1) [OF map_of_SomeD [OF that]] by auto
  show ?thesis
  proof
    fix v p w
    assume "union_check tag variants v p = Inr w"
    from * [OF this] show "\<exists>out. w = JObj out \<and> distinct (map fst out) \<and> fst ` set out \<subseteq> K"
      using law(1) object_law.clean by blast
  next
    fix v p out fs q
    assume u: "union_check tag variants v p = Inr (JObj out)" and eq: "\<And>k. k \<in> K \<Longrightarrow> map_of fs k = map_of out k"
    from * [OF u] obtain name c where c: "map_of variants name = Some c" "c v p = Inr (JObj out)" by blast
    have "c (JObj fs) q = Inr (JObj out)" by (rule object_law.stable [OF law(1) [OF c(1)] c(2) eq])
    moreover have "map_of fs tag = Some (JStr name)"
      using law(2) [OF c(1)] c(2) eq [OF assms(2)] by (simp add: tagged_def)
    ultimately show "union_check tag variants (JObj fs) q = Inr (JObj out)" using c(1) by (simp add: union_check_def)
  qed
qed

lemma fold_jm_set_new:
  "distinct (map fst b) \<Longrightarrow> fst ` set a \<inter> fst ` set b = {} \<Longrightarrow> fold (\<lambda>(k, v). jm_set k v) b a = a @ b"
proof (induction b arbitrary: a)
  case (Cons kv b)
  obtain k v where kv: "kv = (k, v)" by fastforce
  then have "jm_set k v a = a @ [(k, v)]" using Cons.prems by (intro jm_set_new) (auto simp: map_of_eq_None_iff)
  then show ?case using Cons by (auto simp: kv)
qed simp

lemma spread_disjoint:
  "distinct (map fst a) \<Longrightarrow> distinct (map fst b) \<Longrightarrow> fst ` set a \<inter> fst ` set b = {} \<Longrightarrow> spread a b = a @ b"
  using fold_jm_set_new [of a "[]"] by (simp add: spread_def fold_jm_set_new)

lemma both_parts:
  assumes a: "\<And>w. a v p = Inr w \<Longrightarrow> \<exists>out. w = JObj out \<and> distinct (map fst out) \<and> fst ` set out \<subseteq> K"
    and b: "\<And>w. b v p = Inr w \<Longrightarrow> \<exists>out. w = JObj out \<and> distinct (map fst out) \<and> fst ` set out \<subseteq> L"
    and disj: "K \<inter> L = {}" and w: "both a b v p = Inr w"
  shows "\<exists>x y. a v p = Inr (JObj x) \<and> b v p = Inr (JObj y) \<and> w = JObj (x @ y) \<and> distinct (map fst (x @ y)) \<and>
      fst ` set x \<subseteq> K \<and> fst ` set y \<subseteq> L"
proof -
  from w obtain x y where xy: "a v p = Inr x" "b v p = Inr y" "w = JObj (spread (own_fields x) (own_fields y))"
    by (auto simp: both_def split: sum.splits)
  from a [OF xy(1)] obtain fx where fx: "x = JObj fx" "distinct (map fst fx)" "fst ` set fx \<subseteq> K" by blast
  from b [OF xy(2)] obtain fy where fy: "y = JObj fy" "distinct (map fst fy)" "fst ` set fy \<subseteq> L" by blast
  have "fst ` set fx \<inter> fst ` set fy = {}" using fx(3) fy(3) disj by blast
  then show ?thesis using xy fx fy spread_disjoint [of fx fy] by (auto simp: own_fields_def)
qed

lemma both_objects:
  assumes a: "object_law a K" and b: "object_law b L" and disj: "K \<inter> L = {}" and w: "both a b v p = Inr w"
  shows "\<exists>x y. a v p = Inr (JObj x) \<and> b v p = Inr (JObj y) \<and> w = JObj (x @ y) \<and> distinct (map fst (x @ y)) \<and>
      fst ` set x \<subseteq> K \<and> fst ` set y \<subseteq> L"
  by (rule both_parts [OF _ _ disj w]) (erule object_law.clean [OF a] object_law.clean [OF b])+

lemma both_law:
  assumes a: "object_law a K" and b: "object_law b L" and disj: "K \<inter> L = {}"
  shows "object_law (both a b) (K \<union> L)"
proof -
  note * = both_objects [OF a b disj]
  show ?thesis
  proof
    fix v p w
    assume "both a b v p = Inr w"
    from * [OF this] show "\<exists>out. w = JObj out \<and> distinct (map fst out) \<and> fst ` set out \<subseteq> K \<union> L"
      by (elim exE conjE) (intro exI conjI, assumption, assumption, auto)
  next
    fix v p out fs q
    assume u: "both a b v p = Inr (JObj out)" and eq: "\<And>k. k \<in> K \<union> L \<Longrightarrow> map_of fs k = map_of out k"
    from * [OF u] obtain x y where xy: "a v p = Inr (JObj x)" "b v p = Inr (JObj y)" "out = x @ y"
      "distinct (map fst (x @ y))" "fst ` set x \<subseteq> K" "fst ` set y \<subseteq> L" by blast
    have "map_of y k = None" if "k \<in> K" for k using that xy(6) disj by (auto simp: map_of_eq_None_iff)
    then have ax: "a (JObj fs) q = Inr (JObj x)"
      using eq xy(3) by (intro object_law.stable [OF a xy(1)]) (simp add: map_add_def split: option.split)
    have "map_of x k = None" if "k \<in> L" for k using that xy(5) disj by (auto simp: map_of_eq_None_iff)
    then have bx: "b (JObj fs) q = Inr (JObj y)"
      using eq xy(3) by (intro object_law.stable [OF b xy(2)]) (simp add: map_add_def)
    have "spread x y = x @ y" using xy(4) by (intro spread_disjoint) auto
    then show "both a b (JObj fs) q = Inr (JObj out)" using ax bx xy(3) by (simp add: both_def own_fields_def)
  qed
qed


lemma scalar_field: "scalar_law c \<Longrightarrow> field_law c"
  by unfold_locales (use scalar_law.same scalar_law.not_null in blast)+

lemmas field_check = field_law.axioms(1)
lemmas scalar_fields = str_law [THEN scalar_field] int_law [THEN scalar_field] bool_law [THEN scalar_field]
  num_law [THEN scalar_field] literals_law [THEN scalar_field]
lemmas scalar_checks = scalar_fields [THEN field_check]

lemma object_field: "object_law c K \<Longrightarrow> field_law c"
  by unfold_locales (use object_law.again object_law.clean in blast)+

text \<open>Whatever its fields, an object check keeps declared keys only, each once.\<close>

lemma check_fields_keys:
  "check_fields p v sh acc = Inr out \<Longrightarrow> distinct (map fst acc) \<Longrightarrow>
     distinct (map fst out) \<and> fst ` set out \<subseteq> fst ` set acc \<union> fst ` set sh \<and>
     (\<forall>k. k \<notin> fst ` set sh \<longrightarrow> map_of out k = map_of acc k)"
proof (induction sh arbitrary: acc)
  case (Cons kf sh)
  obtain key f where kf: "kf = (key, f)" by fastforce
  consider "check_fields p v sh acc = Inr out" | w where "check_fields p v sh (jm_set key w acc) = Inr out"
    using Cons.prems(1) by (auto simp: kf Let_def split: field.splits sum.splits if_splits)
  then show ?case
  proof cases
    case 1
    then show ?thesis using Cons.IH [OF 1 Cons.prems(2)] by (auto simp: kf)
  next
    case (2 w)
    have "distinct (map fst (jm_set key w acc))" using Cons.prems(2) by (rule distinct_update)
    from Cons.IH [OF 2 this] show ?thesis by (auto simp: kf dom_update update_conv')
  qed
qed auto

lemma obj_clean:
  assumes "obj sh v p = Inr w"
  shows "\<exists>out. w = JObj out \<and> distinct (map fst out) \<and> fst ` set out \<subseteq> fst ` set sh"
  using assms check_fields_keys [of _ _ sh "[]"] by (fastforce simp: obj_def split: jsval.splits sum.splits)

subsection \<open>Clean values are JSON\<close>

text \<open>What \<^verbatim>\<open>JSON.parse\<close> gives back for the text \<^verbatim>\<open>JSON.stringify\<close> writes.\<close>

definition json_value :: "jsval \<Rightarrow> bool" where
  "json_value v \<longleftrightarrow> v \<noteq> JUndefined \<and> reparse v = v"

text \<open>A check whose clean values are JSON: of any value, or of any but \<^verbatim>\<open>undefined\<close> (in an optional field).\<close>

definition json_out :: "check \<Rightarrow> bool" where
  "json_out c \<longleftrightarrow> (\<forall>v p w. c v p = Inr w \<longrightarrow> json_value w)"

definition json_opt :: "check \<Rightarrow> bool" where
  "json_opt c \<longleftrightarrow> (\<forall>v p w. v \<noteq> JUndefined \<and> c v p = Inr w \<longrightarrow> json_value w)"

named_theorems json_intros \<open>checks whose clean values are JSON\<close>

lemma json_opt_of [json_intros]: "json_out c \<Longrightarrow> json_opt c"
  by (auto simp: json_out_def json_opt_def)

lemma json_out_str [json_intros]: "json_out (str_check opts)"
  by (auto simp: json_out_def json_value_def str_check_def split: jsval.splits if_splits option.splits)

lemma json_out_int [json_intros]: "json_out (int_check lo hi)"
  by (auto simp: json_out_def json_value_def int_check_def split: jsval.splits if_splits)

lemma json_out_literals [json_intros]: "json_out (literals values)"
  by (auto simp: json_out_def json_value_def literals_def literal_check_def split: if_splits)

lemma json_opt_json [json_intros]: "json_opt (json_check n)"
  by (auto simp: json_opt_def json_value_def json_check_def reparse_reparse split: option.splits if_splits)

lemma json_value_array: "json_value (JArray ys) \<longleftrightarrow> list_all json_value ys"
proof -
  have "map (\<lambda>v. if v = JUndefined then JNull else reparse v) ys = ys \<longleftrightarrow> list_all json_value ys"
    by (induction ys) (auto simp: json_value_def)
  then show ?thesis by (simp add: json_value_def)
qed

lemma reparse_fields:
  "list_all (\<lambda>kv. json_value (snd kv)) fs \<Longrightarrow>
     concat (map (\<lambda>(k, v). if v = JUndefined then [] else [(k, reparse v)]) fs) = fs"
  by (induction fs) (auto simp: json_value_def)

lemma json_value_obj: "list_all (\<lambda>kv. json_value (snd kv)) fs \<Longrightarrow> json_value (JObj fs)"
  by (simp add: json_value_def reparse_fields)

lemma json_out_arr [json_intros]:
  assumes "json_out item"
  shows "json_out (arr item n)"
proof -
  have "check_items item p i xs = Inr ys \<Longrightarrow> list_all json_value ys" for p i xs ys
    using assms
  proof (induction xs arbitrary: i ys)
    case (Cons x xs)
    then obtain y zs where "item x (p @ ''['' @ show_nat i @ '']'') = Inr y"
      "check_items item p (i + 1) xs = Inr zs" "ys = y # zs"
      by (auto split: sum.splits)
    then show ?case using Cons.IH [of "i + 1" zs] Cons.prems(2) by (auto simp: json_out_def)
  qed simp
  then show ?thesis
    by (auto simp: json_out_def arr_def json_value_array split: jsval.splits if_splits sum.splits)
qed

definition json_field :: "field \<Rightarrow> bool" where
  "json_field f \<longleftrightarrow> (case f of Required c \<Rightarrow> json_out c | Optional c \<Rightarrow> json_opt c)"

lemma check_fields_json:
  assumes "check_fields p v sh acc = Inr out" "\<forall>f\<in>snd ` set sh. json_field f"
    "list_all (\<lambda>kv. json_value (snd kv)) acc"
  shows "list_all (\<lambda>kv. json_value (snd kv)) out"
  using assms
proof (induction sh arbitrary: acc)
  case (Cons kf sh)
  obtain key f where kf: "kf = (key, f)" by fastforce
  have put: "list_all (\<lambda>kv. json_value (snd kv)) (jm_set key w acc)" if "json_value w" for w
    using Cons.prems(3) that by (induction acc) auto
  show ?case
  proof (cases f)
    case (Required c)
    then obtain w where w: "check_fields p v sh (jm_set key w acc) = Inr out" "json_value w"
      using Cons.prems(1,2) by (auto simp: kf Let_def json_field_def json_out_def split: sum.splits)
    then show ?thesis using Cons.IH [OF w(1)] Cons.prems(2) put by (simp add: kf)
  next
    case (Optional c)
    show ?thesis
    proof (cases "raw_field v key = JUndefined \<or> raw_field v key = JNull")
      case True
      then have "check_fields p v sh acc = Inr out" using Cons.prems(1) by (auto simp: kf Optional Let_def)
      then show ?thesis using Cons.IH Cons.prems(2,3) by (simp add: kf)
    next
      case False
      then obtain w where w: "check_fields p v sh (jm_set key w acc) = Inr out" "json_value w"
        using Cons.prems(1,2) by (auto simp: kf Optional Let_def json_field_def json_opt_def split: sum.splits)
      then show ?thesis using Cons.IH [OF w(1)] Cons.prems(2) put by (simp add: kf)
    qed
  qed
qed simp

lemma json_out_obj [json_intros]:
  "\<forall>f\<in>snd ` set sh. json_field f \<Longrightarrow> json_out (obj sh)"
  using check_fields_json [of _ _ sh "[]"]
  by (auto simp: json_out_def obj_def intro!: json_value_obj split: jsval.splits sum.splits)

lemma json_out_union [json_intros]:
  "(\<And>name c. (name, c) \<in> set variants \<Longrightarrow> json_out c) \<Longrightarrow> json_out (union_check tag variants)"
  unfolding json_out_def
  by (auto simp: union_check_def Let_def fail_def split: jsval.splits option.splits dest!: map_of_SomeD)

subsection \<open>Properties\<close>

text \<open>a clean value is a fixed point of every check built from the combinators: here an object of strings,
  numbers, literals, arrays of them, and an optional nested object; checking it again, on any path and
  with any fields the shape does not declare, gives the same value.\<close>

theorem obj_idempotent:
  assumes "shape_ok sh" "obj sh v p = Inr (JObj out)" "fst ` set extra \<inter> fst ` set sh = {}"
  shows "obj sh (JObj (extra @ out)) q = Inr (JObj out) \<and> fst ` set out \<subseteq> fst ` set sh \<and> distinct (map fst out)"
  using object_law.unknown_ignored [OF obj_law [OF assms(1)] assms(2,3), of q]
    object_law.clean [OF obj_law [OF assms(1)] assms(2)] by simp

subsection \<open>Witnesses\<close>

definition va_shape :: shape where
  "va_shape = [(''type'', Required (literals [''stop''])), (''n'', Optional (int_check 0 10))]"

lemma va_shape_ok: "shape_ok va_shape"
  by (simp add: va_shape_def shape_ok_def field_ok_def scalar_fields scalar_checks)

theorem obj_idempotent_witness:
  "obj va_shape (JObj [(''n'', JNum 3), (''__proto__'', JNull), (''type'', JStr ''stop'')]) ''command'' =
     Inr (JObj [(''type'', JStr ''stop''), (''n'', JNum 3)]) \<and>
   obj va_shape (JObj [(''x'', JNull), (''type'', JStr ''stop''), (''n'', JNum 3)]) [] =
     Inr (JObj [(''type'', JStr ''stop''), (''n'', JNum 3)])"
proof -
  have "obj va_shape (JObj [(''n'', JNum 3), (''__proto__'', JNull), (''type'', JStr ''stop'')]) ''command'' =
      Inr (JObj [(''type'', JStr ''stop''), (''n'', JNum 3)])"
    by (simp add: obj_def va_shape_def literals_def literal_check_def int_check_def MAX_SAFE_INTEGER_def Let_def)
  moreover from obj_idempotent [OF va_shape_ok this, of "[(''x'', JNull)]" "[]"]
  have "obj va_shape (JObj [(''x'', JNull), (''type'', JStr ''stop''), (''n'', JNum 3)]) [] =
      Inr (JObj [(''type'', JStr ''stop''), (''n'', JNum 3)])"
    by (simp add: va_shape_def)
  ultimately show ?thesis by simp
qed

end
