(* ===== verification/SessionFiles.thy ===== *)
theory SessionFiles
  imports Validate
begin

text \<open>
  The files of a session folder: \<^verbatim>\<open>ts-shared/legalese-agent/src/protocol/common.ts\<close> and \<^verbatim>\<open>files.ts\<close>.

  A regular expression is a predicate on strings. The content of a JSON file is what \<^verbatim>\<open>JSON.parse\<close> makes of
  its text, \<open>None\<close> when it throws. A function that throws an \<^verbatim>\<open>Error\<close> returns its message as \<open>Inl\<close>.
\<close>

subsection \<open>Identifiers\<close>

definition code :: "char \<Rightarrow> nat" where
  "code c = of_char c"

definition is_digit :: "char \<Rightarrow> bool" where
  "is_digit c \<longleftrightarrow> 48 \<le> code c \<and> code c \<le> 57"

definition is_upper :: "char \<Rightarrow> bool" where
  "is_upper c \<longleftrightarrow> 65 \<le> code c \<and> code c \<le> 90"

definition is_lower :: "char \<Rightarrow> bool" where
  "is_lower c \<longleftrightarrow> 97 \<le> code c \<and> code c \<le> 122"

definition alnum :: "char \<Rightarrow> bool" where
  "alnum c \<longleftrightarrow> is_digit c \<or> is_upper c \<or> is_lower c"

text \<open>Crockford's digits and letters: no I, L, O or U.\<close>

definition crockford :: "char \<Rightarrow> bool" where
  "crockford c \<longleftrightarrow> is_digit c \<or> is_upper c \<and> c \<notin> set ''ILOU''"

definition ULID_RE :: "string \<Rightarrow> bool" where
  "ULID_RE s \<longleftrightarrow> length s = 26 \<and> hd s \<in> set ''01234567'' \<and> list_all crockford (tl s)"

definition isSessionId :: "jsval \<Rightarrow> bool" where
  "isSessionId v = (case v of JStr s \<Rightarrow> ULID_RE s | _ \<Rightarrow> False)"

definition OPAQUE_ID_RE :: "string \<Rightarrow> bool" where
  "OPAQUE_ID_RE s \<longleftrightarrow> 1 \<le> length s \<and> length s \<le> 128 \<and> list_all (\<lambda>c. alnum c \<or> c \<in> set ''_.:-'') s"

text \<open>No slash, backslash, NUL, CR or LF, and no leading dot.\<close>

definition plain_char :: "char \<Rightarrow> bool" where
  "plain_char c \<longleftrightarrow> c \<noteq> CHR ''/'' \<and> c \<noteq> CHR 0x5C \<and> c \<noteq> CHR 0x00 \<and> c \<noteq> CHR 0x0D \<and> c \<noteq> CHR 0x0A"

definition FILE_NAME_RE :: "string \<Rightarrow> bool" where
  "FILE_NAME_RE s \<longleftrightarrow> 1 \<le> length s \<and> length s \<le> 255 \<and> hd s \<noteq> CHR ''.'' \<and> list_all plain_char s"

definition pattern_str :: "(string \<Rightarrow> bool) \<Rightarrow> check" where
  "pattern_str p = str_check (any_str\<lparr>s_pattern := Some p\<rparr>)"

definition sessionId :: check where
  "sessionId = pattern_str ULID_RE"

definition opaqueId :: check where
  "opaqueId = pattern_str OPAQUE_ID_RE"

definition fileName :: check where
  "fileName = pattern_str FILE_NAME_RE"

definition epochMs :: check where
  "epochMs = int_check 0 MAX_SAFE_INTEGER"

definition sessionState :: check where
  "sessionState = literals [''sleeping'', ''starting'', ''running'', ''busy'', ''waiting'', ''parked'']"

definition MCP_SERVER_NAME_RE :: "string \<Rightarrow> bool" where
  "MCP_SERVER_NAME_RE s \<longleftrightarrow> 1 \<le> length s \<and> length s \<le> 64 \<and> list_all (\<lambda>c. alnum c \<or> c \<in> set ''_-'') s"

definition white_space :: "char \<Rightarrow> bool" where
  "white_space c \<longleftrightarrow> code c \<in> {9, 10, 11, 12, 13, 32, 160}"

definition https_url :: "string \<Rightarrow> bool" where
  "https_url s \<longleftrightarrow> starts_with ''https://'' s \<and> drop 8 s \<noteq> [] \<and> list_all (\<lambda>c. \<not> white_space c) (drop 8 s)"

definition mcpServerConfig :: check where
  "mcpServerConfig = obj
     [(''name'', Required (pattern_str MCP_SERVER_NAME_RE)),
      (''url'', Required (str_check \<lparr>s_min = 0, s_max = 2048, s_pattern = Some https_url\<rparr>)),
      (''transport'', Optional (literals [''http'', ''sse''])),
      (''enabledTools'', Optional (arr (str_check \<lparr>s_min = 1, s_max = 256, s_pattern = None\<rparr>) 1000))]"

definition MAX_ATTACHMENT_BYTES :: int where
  "MAX_ATTACHMENT_BYTES = 10 * 1024 * 1024"

definition mime_char :: "char \<Rightarrow> bool" where
  "mime_char c \<longleftrightarrow> alnum c \<or> c \<in> set ''_.+-''"

definition mime_type :: "string \<Rightarrow> bool" where
  "mime_type s = (case split_on (CHR ''/'') s of
     [a, b] \<Rightarrow> a \<noteq> [] \<and> b \<noteq> [] \<and> list_all mime_char a \<and> list_all mime_char b
   | _ \<Rightarrow> False)"

definition attachmentRef :: check where
  "attachmentRef = obj
     [(''name'', Required fileName),
      (''contentType'', Required (str_check \<lparr>s_min = 1, s_max = 255, s_pattern = Some mime_type\<rparr>)),
      (''size'', Required (int_check 0 MAX_ATTACHMENT_BYTES))]"

definition seedBase :: check where
  "seedBase v path =
     (case obj
        [(''workspaceFolder'', Required (str_check \<lparr>s_min = 1, s_max = 255, s_pattern = Some (list_all plain_char)\<rparr>)),
         (''path'', Required (str_check \<lparr>s_min = 0, s_max = 1024, s_pattern = None\<rparr>))] v path of
        Inl e \<Rightarrow> Inl e
      | Inr w \<Rightarrow>
          (case (js_prop w ''workspaceFolder'', js_prop w ''path'') of
             (JStr folder, JStr p) \<Rightarrow>
               if p \<noteq> [] \<and>
                  ((2 \<le> length p \<and> (is_upper (p ! 0) \<or> is_lower (p ! 0)) \<and> p ! 1 = CHR '':'') \<or>
                   list_ex (\<lambda>x. x = [] \<or> x = ''.'' \<or> x = ''..'' \<or> 255 < length x \<or>
                     list_ex (\<lambda>c. c \<in> {CHR 0x00, CHR 0x0D, CHR 0x0A, CHR 0x5C}) x) (split_on (CHR ''/'') p))
               then fail (path @ ''.path'') ''expected a relative /-separated path without . or ..''
               else if folder = ''.'' \<or> folder = ''..''
               then fail (path @ ''.workspaceFolder'') ''invalid workspace folder name''
               else Inr w
           | _ \<Rightarrow> Inr w))"

subsection \<open>The session file\<close>

fun duplicate_name :: "jsval list \<Rightarrow> jsval list \<Rightarrow> jsval option" where
  "duplicate_name [] seen = None"
| "duplicate_name (s # ss) seen =
     (let n = js_prop s ''name'' in if n \<in> set seen then Some n else duplicate_name ss (n # seen))"

definition mcpServers :: check where
  "mcpServers v path =
     (case arr mcpServerConfig 32 v path of
        Inl e \<Rightarrow> Inl e
      | Inr w \<Rightarrow>
          (case w of
             JArray servers \<Rightarrow>
               (case duplicate_name servers [] of
                  Some (JStr n) \<Rightarrow> fail path (''duplicate MCP server name '' @ n)
                | _ \<Rightarrow> Inr w)
           | _ \<Rightarrow> Inr w))"

definition sessionFile :: check where
  "sessionFile = obj
     [(''sessionId'', Required sessionId),
      (''ownerUserId'', Required (str_check \<lparr>s_min = 1, s_max = 128, s_pattern = None\<rparr>)),
      (''orgId'', Optional (str_check \<lparr>s_min = 1, s_max = 128, s_pattern = None\<rparr>)),
      (''title'', Required (str_check \<lparr>s_min = 0, s_max = 200, s_pattern = None\<rparr>)),
      (''created'', Required epochMs),
      (''lastActivity'', Required epochMs),
      (''conversationId'', Optional opaqueId),
      (''status'', Required (literals [''new'', ''running'', ''sleeping'', ''parked''])),
      (''parkedReason'', Optional (literals [''invalid_key'', ''chain_expired'', ''chain_forked''])),
      (''seedBase'', Optional seedBase),
      (''mcpServers'', Required mcpServers)]"

subsection \<open>Runs and leases\<close>

definition isRunNumber :: "int \<Rightarrow> bool" where
  "isRunNumber n \<longleftrightarrow> 1 \<le> n \<and> n \<le> 999999999"

definition runNumber :: check where
  "runNumber = int_check 1 999999999"

definition runRecordFile :: check where
  "runRecordFile = obj [(''run'', Required runNumber), (''createdAt'', Required epochMs)]"

definition task_id_char :: "char \<Rightarrow> bool" where
  "task_id_char c \<longleftrightarrow> alnum c \<or> c \<in> set ''_.:/-''"

definition runLeaseFile :: check where
  "runLeaseFile = obj
     [(''run'', Required runNumber),
      (''taskId'', Required (str_check \<lparr>s_min = 1, s_max = 128, s_pattern = Some (\<lambda>s. s \<noteq> [] \<and> list_all task_id_char s)\<rparr>)),
      (''state'', Required (literals [''starting'', ''running'', ''busy'', ''waiting''])),
      (''turnId'', Optional opaqueId),
      (''expiresAt'', Required epochMs)]"

definition START_GRACE_MS :: int where
  "START_GRACE_MS = 3 * 60 * 1000"

definition LEASE_TTL_MS :: int where
  "LEASE_TTL_MS = 90000"

definition LEASE_RENEW_MS :: int where
  "LEASE_RENEW_MS = 30000"

definition isLeaseLive :: "int \<Rightarrow> int \<Rightarrow> bool" where
  "isLeaseLive expiresAt now \<longleftrightarrow> now < expiresAt"

subsection \<open>The event head and cursors\<close>

definition EVENT_SEGMENT_MAX_BYTES :: nat where
  "EVENT_SEGMENT_MAX_BYTES = 1024 * 1024"

definition FIRST_EVENT_SEGMENT :: nat where
  "FIRST_EVENT_SEGMENT = 1"

definition headFile :: check where
  "headFile = obj
     [(''segment'', Required (int_check (int FIRST_EVENT_SEGMENT) 1000000)),
      (''length'', Required (int_check 0 (64 * 1024 * 1024)))]"

record event_cursor =
  segment :: nat
  cursor_offset :: nat

definition CURSOR_START :: event_cursor where
  "CURSOR_START = \<lparr>segment = 0, cursor_offset = 0\<rparr>"

definition formatCursor :: "event_cursor \<Rightarrow> string" where
  "formatCursor c =
     (if segment c = 0 \<and> cursor_offset c = 0 then ''0''
      else show_nat (segment c) @ '':'' @ show_nat (cursor_offset c))"

text \<open>\<open>k\<close> decimal digits at most, and one at least.\<close>

definition digits_upto :: "nat \<Rightarrow> string \<Rightarrow> bool" where
  "digits_upto k s \<longleftrightarrow> s \<noteq> [] \<and> length s \<le> k \<and> list_all is_digit s"

definition parseCursor :: "string \<Rightarrow> event_cursor option" where
  "parseCursor text =
     (case split_on (CHR '':'') text of
        [a] \<Rightarrow> if digits_upto 7 a then Some \<lparr>segment = read_nat a, cursor_offset = 0\<rparr> else None
      | [a, b] \<Rightarrow>
          if digits_upto 7 a \<and> digits_upto 9 b
          then Some \<lparr>segment = read_nat a, cursor_offset = read_nat b\<rparr> else None
      | _ \<Rightarrow> None)"

subsection \<open>The command sequence\<close>

definition formatCommandSeq :: "int \<Rightarrow> string + string" where
  "formatCommandSeq n =
     (if MAX_SAFE_INTEGER < \<bar>n\<bar> \<or> n < 0 then Inl ''invalid sequence'' else Inr (show_nat (nat n) @ [CHR 0x0A]))"

definition parseCommandSeq :: "string \<Rightarrow> nat option" where
  "parseCommandSeq text =
     (let s = rev (dropWhile white_space (rev (dropWhile white_space text)))
      in if digits_upto 12 s then Some (read_nat s) else None)"

subsection \<open>Parsing\<close>

definition parseJsonText :: "jsval option \<Rightarrow> protocol_error + jsval" where
  "parseJsonText text = (case text of None \<Rightarrow> fail [] ''not valid JSON'' | Some v \<Rightarrow> Inr v)"

definition parse_with :: "check \<Rightarrow> string \<Rightarrow> jsval option \<Rightarrow> protocol_error + jsval" where
  "parse_with c path text = (case parseJsonText text of Inl e \<Rightarrow> Inl e | Inr v \<Rightarrow> c v path)"

definition parseSessionFile :: "jsval option \<Rightarrow> protocol_error + jsval" where
  "parseSessionFile text = parse_with sessionFile ''session.json'' text"

definition parseRunRecordFile :: "jsval option \<Rightarrow> int \<Rightarrow> protocol_error + jsval" where
  "parseRunRecordFile text n =
     (let path = ''runs/'' @ show_int n @ ''.json''
      in case parse_with runRecordFile path text of
           Inl e \<Rightarrow> Inl e
         | Inr r \<Rightarrow>
             (case js_prop r ''run'' of
                JNum m \<Rightarrow> if m \<noteq> n then fail path (''run '' @ show_int m @ '', not '' @ show_int n) else Inr r
              | _ \<Rightarrow> Inr r))"

definition parseRunLeaseFile :: "jsval option \<Rightarrow> int \<Rightarrow> protocol_error + jsval" where
  "parseRunLeaseFile text n =
     (let path = ''runs/'' @ show_int n @ ''.lease.json''
      in case parse_with runLeaseFile path text of
           Inl e \<Rightarrow> Inl e
         | Inr r \<Rightarrow>
             (case js_prop r ''run'' of
                JNum m \<Rightarrow> if m \<noteq> n then fail path (''run '' @ show_int m @ '', not '' @ show_int n) else Inr r
              | _ \<Rightarrow> Inr r))"

definition parseHeadFile :: "jsval option \<Rightarrow> protocol_error + jsval" where
  "parseHeadFile text = parse_with headFile ''head.json'' text"


subsection \<open>Paths in the repository\<close>

definition slash_parts :: "string \<Rightarrow> string list" where
  "slash_parts p = split_on (CHR ''/'') p"

definition dot_part :: "string \<Rightarrow> bool" where
  "dot_part x \<longleftrightarrow> x = [] \<or> x = ''.'' \<or> x = ''..''"

definition REPO_DATA_DIR :: string where
  "REPO_DATA_DIR = ''data''"

definition REPO_TMP_DIR :: string where
  "REPO_TMP_DIR = ''tmp''"

definition REPO_DELETED_DIR :: string where
  "REPO_DELETED_DIR = ''tmp/deleted''"

definition MODEL_WRITABLE_REPO_DIRS :: "string list" where
  "MODEL_WRITABLE_REPO_DIRS = [REPO_DATA_DIR, REPO_TMP_DIR]"

definition relativePath :: "string \<Rightarrow> string \<Rightarrow> string + string" where
  "relativePath p what =
     (if p = [] \<or> 4096 < length p \<or> CHR 0x00 \<in> set p \<or> list_ex dot_part (slash_parts p)
      then Inl (''invalid '' @ what) else Inr p)"

definition deletedCopyPath :: "string \<Rightarrow> string \<Rightarrow> string + string" where
  "deletedCopyPath turnId pathUnderData =
     (if \<not> OPAQUE_ID_RE turnId then Inl ''invalid turn id''
      else (case relativePath pathUnderData ''path under data/'' of
              Inl e \<Rightarrow> Inl e
            | Inr p \<Rightarrow> Inr (REPO_DELETED_DIR @ ''/t-'' @ turnId @ ''/'' @ p)))"

text \<open>\<^verbatim>\<open>replace(/^(?:\.\/)+/, '')\<close>.\<close>

fun strip_dot_slash :: "string \<Rightarrow> string" where
  "strip_dot_slash (a # b # s) = (if a = CHR ''.'' \<and> b = CHR ''/'' then strip_dot_slash s else a # b # s)"
| "strip_dot_slash s = s"

definition isModelWritableRepoPath :: "string \<Rightarrow> bool" where
  "isModelWritableRepoPath pathInRepo =
     (let parts = slash_parts (strip_dot_slash pathInRepo)
      in if length parts < 2 then False
         else if list_ex (\<lambda>x. dot_part x \<or> CHR 0x00 \<in> set x) parts then False
         else hd parts \<in> set MODEL_WRITABLE_REPO_DIRS)"

definition repoRelativePath :: "string \<Rightarrow> string + string" where
  "repoRelativePath p =
     (if p = [] \<or> 1024 < length p \<or>
         list_ex (\<lambda>x. dot_part x \<or> 255 < length x \<or>
           list_ex (\<lambda>c. c \<in> {CHR 0x00, CHR 0x0D, CHR 0x0A, CHR 0x5C}) x) (slash_parts p)
      then Inl ''invalid path'' else Inr p)"

definition isRepoDataPath :: "jsval \<Rightarrow> bool" where
  "isRepoDataPath v =
     (case v of
        JStr p \<Rightarrow>
          (case repoRelativePath p of
             Inl _ \<Rightarrow> False
           | Inr _ \<Rightarrow> 2 \<le> length (slash_parts p) \<and> hd (slash_parts p) = REPO_DATA_DIR)
      | _ \<Rightarrow> False)"

definition BUNDLE_NAME_RE :: "string \<Rightarrow> bool" where
  "BUNDLE_NAME_RE s \<longleftrightarrow> length s = 33 \<and> ULID_RE (take 26 s) \<and> drop 26 s = ''.bundle''"

definition isIncomingBundleName :: "jsval \<Rightarrow> bool" where
  "isIncomingBundleName v = (case v of JStr s \<Rightarrow> BUNDLE_NAME_RE s | _ \<Rightarrow> False)"

definition nonNegInt :: "int \<Rightarrow> string \<Rightarrow> string + int" where
  "nonNegInt n what = (if MAX_SAFE_INTEGER < \<bar>n\<bar> \<or> n < 0 then Inl (''invalid '' @ what) else Inr n)"

definition runNum :: "int \<Rightarrow> string + int" where
  "runNum n = (if \<not> isRunNumber n then Inl ''invalid run number'' else Inr n)"

subsection \<open>Paths of a session\<close>

type_synonym path_result = "string + string"

record session_paths =
  sp_dir :: string
  sp_sessionJson :: string
  sp_repo :: string
  sp_repoData :: string
  sp_repoTmp :: string
  sp_repoDeleted :: string
  sp_deletedCopy :: "string \<Rightarrow> string \<Rightarrow> path_result"
  sp_attachments :: string
  sp_attachment :: "string \<Rightarrow> path_result"
  sp_state :: string
  sp_runs :: string
  sp_runRecord :: "int \<Rightarrow> path_result"
  sp_runLease :: "int \<Rightarrow> path_result"
  sp_runsSeq :: string
  sp_head :: string
  sp_eventSegment :: "int \<Rightarrow> path_result"
  sp_commandSeq :: string
  sp_command :: "int \<Rightarrow> path_result"
  sp_mainBundle :: string
  sp_initMarker :: string
  sp_stopRequested :: string
  sp_gitLocal :: string
  sp_incomingFiles :: string
  sp_incomingFilesBatch :: "string \<Rightarrow> path_result"
  sp_incomingFile :: "string \<Rightarrow> string \<Rightarrow> path_result"
  sp_incomingBundle :: "string \<Rightarrow> path_result"

definition sessionPaths :: "string \<Rightarrow> string + session_paths" where
  "sessionPaths sid =
     (if \<not> ULID_RE sid then Inl ''invalid session id''
      else
        (let dir = ''sessions/'' @ sid; state = dir @ ''/state''
         in Inr \<lparr>
           sp_dir = dir,
           sp_sessionJson = dir @ ''/session.json'',
           sp_repo = dir @ ''/repo'',
           sp_repoData = dir @ ''/repo/'' @ REPO_DATA_DIR,
           sp_repoTmp = dir @ ''/repo/'' @ REPO_TMP_DIR,
           sp_repoDeleted = dir @ ''/repo/'' @ REPO_DELETED_DIR,
           sp_deletedCopy = (\<lambda>turnId p. map_sum id (\<lambda>q. dir @ ''/repo/'' @ q) (deletedCopyPath turnId p)),
           sp_attachments = dir @ ''/attachments'',
           sp_attachment = (\<lambda>name. if \<not> FILE_NAME_RE name then Inl ''invalid attachment name''
             else Inr (dir @ ''/attachments/'' @ name)),
           sp_state = state,
           sp_runs = state @ ''/runs'',
           sp_runRecord = (\<lambda>n. map_sum id (\<lambda>m. state @ ''/runs/'' @ show_int m @ ''.json'') (runNum n)),
           sp_runLease = (\<lambda>n. map_sum id (\<lambda>m. state @ ''/runs/'' @ show_int m @ ''.lease.json'') (runNum n)),
           sp_runsSeq = state @ ''/runs.seq'',
           sp_head = state @ ''/head.json'',
           sp_eventSegment = (\<lambda>n. map_sum id (\<lambda>m. state @ ''/events/'' @ show_int m @ ''.jsonl'') (nonNegInt n ''segment'')),
           sp_commandSeq = state @ ''/commands.seq'',
           sp_command = (\<lambda>n. map_sum id (\<lambda>m. state @ ''/commands/'' @ show_int m @ ''.json'') (nonNegInt n ''command number'')),
           sp_mainBundle = state @ ''/git/main.bundle'',
           sp_initMarker = state @ ''/init.json'',
           sp_stopRequested = state @ ''/stop-requested.json'',
           sp_gitLocal = state @ ''/git/local.json'',
           sp_incomingFiles = dir @ ''/incoming/files'',
           sp_incomingFilesBatch = (\<lambda>batchId. if \<not> ULID_RE batchId then Inl ''invalid batch id''
             else Inr (dir @ ''/incoming/files/'' @ batchId)),
           sp_incomingFile = (\<lambda>batchId p. if \<not> ULID_RE batchId then Inl ''invalid batch id''
             else if \<not> isRepoDataPath (JStr p) then Inl ''invalid path under data/''
             else Inr (dir @ ''/incoming/files/'' @ batchId @ ''/'' @ p)),
           sp_incomingBundle = (\<lambda>name. if \<not> isIncomingBundleName (JStr name) then Inl ''invalid bundle name''
             else Inr (state @ ''/git/incoming/'' @ name))\<rparr>))"

subsection \<open>Clean paths\<close>

text \<open>A path whose parts are all names: it stays where it starts.\<close>

definition clean_path :: "string \<Rightarrow> bool" where
  "clean_path p \<longleftrightarrow> list_all (\<lambda>x. \<not> dot_part x) (slash_parts p)"

lemma slash_parts_append: "slash_parts (a @ ''/'' @ b) = slash_parts a @ slash_parts b"
  unfolding slash_parts_def using split_on_append [of "CHR ''/''" a b] by simp

lemma clean_path_join: "clean_path (a @ ''/'' @ b) \<longleftrightarrow> clean_path a \<and> clean_path b"
  by (simp only: clean_path_def slash_parts_append list_all_append)

lemma clean_path_name: "CHR ''/'' \<notin> set s \<Longrightarrow> clean_path s \<longleftrightarrow> \<not> dot_part s"
  by (simp add: clean_path_def slash_parts_def split_on_none)

lemma clean_repoRelative: "repoRelativePath p = Inr q \<Longrightarrow> q = p \<and> clean_path p"
  by (auto simp: repoRelativePath_def clean_path_def list_all_iff list_ex_iff split: if_splits)

lemma clean_relative: "relativePath p w = Inr q \<Longrightarrow> q = p \<and> clean_path p"
  by (auto simp: relativePath_def clean_path_def list_all_iff list_ex_iff split: if_splits)

lemma crockford_plain: "crockford c \<Longrightarrow> c \<noteq> CHR ''/'' \<and> c \<noteq> CHR ''.''"
  by (auto simp: crockford_def is_digit_def is_upper_def code_def)

lemma ULID_char: "ULID_RE s \<Longrightarrow> c \<in> set s \<Longrightarrow> c \<noteq> CHR ''/'' \<and> c \<noteq> CHR ''.''"
  by (cases s) (auto simp: ULID_RE_def list_all_iff dest: crockford_plain)

lemma ULID_clean: "ULID_RE s \<Longrightarrow> clean_path s"
  using ULID_char [of s] by (subst clean_path_name) (auto simp: dot_part_def ULID_RE_def)

lemma OPAQUE_no_slash: "OPAQUE_ID_RE s \<Longrightarrow> CHR ''/'' \<notin> set s"
  by (auto simp: OPAQUE_ID_RE_def list_all_iff alnum_def is_digit_def is_upper_def is_lower_def code_def)

lemma not_slash_show_nat [simp]: "CHR ''/'' \<notin> set (show_nat n)"
  by (rule not_digit_show_nat) (auto simp: digits_def digit_char_def)

lemma not_slash_show_int [simp]: "CHR ''/'' \<notin> set (show_int n)"
  by (simp add: show_int_def)

lemma dot_part_short: "dot_part x \<Longrightarrow> length x \<le> 2"
  by (auto simp: dot_part_def)

lemma clean_long_name: "CHR ''/'' \<notin> set s \<Longrightarrow> 3 \<le> length s \<Longrightarrow> clean_path s"
  using dot_part_short [of s] by (subst clean_path_name) auto

lemma FILE_NAME_clean:
  assumes "FILE_NAME_RE s"
  shows "clean_path s"
proof -
  have "CHR ''/'' \<notin> set s" "s \<noteq> []" "hd s \<noteq> CHR ''.''"
    using assms unfolding FILE_NAME_RE_def list_all_iff plain_char_def by fastforce+
  then show ?thesis by (subst clean_path_name) (auto simp: dot_part_def)
qed

lemma BUNDLE_clean:
  assumes "BUNDLE_NAME_RE s"
  shows "clean_path s"
proof -
  have parts: "take 26 s @ ''.bundle'' = s"
    using assms append_take_drop_id [of 26 s] unfolding BUNDLE_NAME_RE_def by simp
  have "set s = set (take 26 s) \<union> set ''.bundle''"
    using arg_cong [OF parts, of set] by (simp only: set_append)
  moreover have "CHR ''/'' \<notin> set (take 26 s)"
    using assms ULID_char [of "take 26 s" "CHR ''/''"] unfolding BUNDLE_NAME_RE_def by blast
  moreover have "CHR ''/'' \<notin> set ''.bundle''" by simp
  ultimately have "CHR ''/'' \<notin> set s" by blast
  moreover have "length s = 33" using assms by (simp add: BUNDLE_NAME_RE_def)
  ultimately show ?thesis by (intro clean_long_name) simp_all
qed

definition inside :: "string \<Rightarrow> string \<Rightarrow> bool" where
  "inside sid p \<longleftrightarrow> clean_path p \<and> starts_with (''sessions/'' @ sid @ ''/'') p"

lemma inside_I:
  assumes "ULID_RE sid" "clean_path q"
  shows "inside sid (''sessions/'' @ sid @ ''/'' @ q)"
proof -
  have "clean_path (''sessions'' @ ''/'' @ sid @ ''/'' @ q)"
    using assms by (simp only: clean_path_join) (simp add: ULID_clean clean_path_name dot_part_def)
  moreover have "''sessions/'' @ sid @ ''/'' @ q = ''sessions'' @ ''/'' @ sid @ ''/'' @ q" by simp
  ultimately have "clean_path (''sessions/'' @ sid @ ''/'' @ q)" by (simp only:)
  then show ?thesis by (simp add: inside_def starts_with_def)
qed

text \<open>Two names and a clean path below them.\<close>

lemma clean_below:
  assumes "CHR ''/'' \<notin> set a" "3 \<le> length a" "CHR ''/'' \<notin> set b" "3 \<le> length b" "clean_path q"
  shows "clean_path (a @ ''/'' @ b @ ''/'' @ q)"
proof -
  have "clean_path a" "clean_path b" using assms by (simp_all add: clean_long_name)
  then show ?thesis using assms(5) by (simp only: clean_path_join)
qed

subsection \<open>Numbers in texts\<close>

lemma is_digit_digits: "is_digit c \<longleftrightarrow> c \<in> digits"
  by (auto simp: is_digit_def digits_def code_def)

lemma all_digits_show_nat [simp]: "list_all is_digit (show_nat n)"
  using set_show_nat [of n] by (auto simp: list_all_iff is_digit_digits)

lemma length_show_nat: "0 < k \<Longrightarrow> length (show_nat n) \<le> k \<longleftrightarrow> n < 10 ^ k"
proof (induction n arbitrary: k rule: show_nat.induct)
  case (1 n)
  show ?case
  proof (cases "n < 10")
    case True
    have "(10 :: nat) \<le> 10 ^ k" using power_increasing [of 1 k "10 :: nat"] 1(2) by simp
    then have "n < 10 ^ k" using True by simp
    moreover have "length (show_nat n) = 1" using True by (subst show_nat.simps) simp
    ultimately show ?thesis using 1(2) by simp
  next
    case False
    obtain j where k: "k = Suc j" using 1(2) by (cases k) auto
    have "n < 10 ^ k \<longleftrightarrow> n div 10 < 10 ^ j" by (simp add: k div_less_iff_less_mult mult.commute)
    moreover have "length (show_nat n) \<le> k \<longleftrightarrow> length (show_nat (n div 10)) \<le> j"
      using False by (subst show_nat.simps) (simp add: k)
    ultimately show ?thesis
      using 1(1) [OF False, of j] False by (cases "j = 0") auto
  qed
qed

lemma digits_upto_show_nat: "0 < k \<Longrightarrow> digits_upto k (show_nat n) \<longleftrightarrow> n < 10 ^ k"
  by (simp add: digits_upto_def length_show_nat)

lemma not_colon_show_nat [simp]: "CHR '':'' \<notin> set (show_nat n)"
  by (rule not_digit_show_nat) (auto simp: digits_def digit_char_def)

lemma not_white_show_nat: "c \<in> set (show_nat n) \<Longrightarrow> \<not> white_space c"
  using all_digits_show_nat [of n] by (auto simp: list_all_iff is_digit_def white_space_def)

lemma join_split_on: "join [c] (split_on c s) = s"
proof (induction s)
  case (Cons x s)
  obtain y ys where "split_on c s = y # ys" by (cases "split_on c s") auto
  then show ?case using Cons by (cases ys) auto
qed simp

lemma fixed_paths_inside:
  assumes "sessionPaths sid = Inr sp"
  shows "\<forall>p\<in>{sp_sessionJson sp, sp_repo sp, sp_repoData sp, sp_repoTmp sp, sp_repoDeleted sp, sp_attachments sp,
        sp_state sp, sp_runs sp, sp_runsSeq sp, sp_head sp, sp_commandSeq sp, sp_mainBundle sp, sp_initMarker sp,
        sp_stopRequested sp, sp_gitLocal sp, sp_incomingFiles sp}. inside sid p"
proof -
  have sid: "ULID_RE sid" using assms by (simp add: sessionPaths_def split: if_splits)
  note below = inside_I [OF sid]
  have valid: "\<not> \<not> ULID_RE sid" using sid by simp
  note sp = Inr_inject [OF assms [unfolded sessionPaths_def Let_def if_not_P [OF valid]], symmetric]
  note select = sp session_paths.select_convs
  have fixed_clean: "clean_path ''session.json''" "clean_path ''repo''" "clean_path ''repo/data''" "clean_path ''repo/tmp''"
    "clean_path ''repo/tmp/deleted''" "clean_path ''attachments''" "clean_path ''state''" "clean_path ''state/runs''"
    "clean_path ''state/runs.seq''" "clean_path ''state/head.json''" "clean_path ''state/commands.seq''"
    "clean_path ''state/git/main.bundle''" "clean_path ''state/init.json''" "clean_path ''state/stop-requested.json''"
    "clean_path ''state/git/local.json''" "clean_path ''incoming/files''"
    by (simp_all add: clean_path_def slash_parts_def dot_part_def)
  show ?thesis
    using fixed_clean [THEN below] unfolding select
    by (simp add: REPO_DATA_DIR_def REPO_TMP_DIR_def REPO_DELETED_DIR_def)
qed

lemma numbered_paths_inside:
  assumes "sessionPaths sid = Inr sp" "sp_runRecord sp n = Inr p \<or> sp_runLease sp n = Inr p \<or> sp_eventSegment sp n = Inr p \<or>
    sp_command sp n = Inr p"
  shows "inside sid p"
proof -
  have sid: "ULID_RE sid" using assms(1) by (simp add: sessionPaths_def split: if_splits)
  note below = inside_I [OF sid]
  have valid: "\<not> \<not> ULID_RE sid" using sid by simp
  note sp = Inr_inject [OF assms(1) [unfolded sessionPaths_def Let_def if_not_P [OF valid]], symmetric]
  note select = sp session_paths.select_convs
  have numbered: "clean_path (a @ ''/'' @ b @ ''/'' @ show_int n @ e)"
    if "CHR ''/'' \<notin> set a" "3 \<le> length a" "CHR ''/'' \<notin> set b" "3 \<le> length b" "CHR ''/'' \<notin> set e" "3 \<le> length e"
    for a b e n
    using that by (intro clean_below) (auto intro!: clean_long_name)
  have num: "inside sid (''sessions/'' @ sid @ ''/'' @ (''state'' @ ''/'' @ b @ ''/'' @ show_int n @ e))"
    if "CHR ''/'' \<notin> set b" "3 \<le> length b" "CHR ''/'' \<notin> set e" "3 \<le> length e" for b e
    using that by (intro below numbered) auto
  show ?thesis
    using assms(2) [unfolded select] num [of "''runs''" "''.json''"] num [of "''runs''" "''.lease.json''"]
      num [of "''events''" "''.jsonl''"] num [of "''commands''" "''.json''"]
    by (auto simp: runNum_def nonNegInt_def split: if_splits)
qed

lemma named_paths_inside:
  assumes "sessionPaths sid = Inr sp"
  shows "sp_deletedCopy sp t q = Inr p \<Longrightarrow> inside sid p" "sp_attachment sp n = Inr p \<Longrightarrow> inside sid p"
    "sp_incomingFilesBatch sp b = Inr p \<Longrightarrow> inside sid p" "sp_incomingBundle sp b = Inr p \<Longrightarrow> inside sid p"
    "sp_incomingFile sp b q = Inr p \<Longrightarrow> inside sid p"
proof -
  have sid: "ULID_RE sid" using assms by (simp add: sessionPaths_def split: if_splits)
  note below = inside_I [OF sid]
  have valid: "\<not> \<not> ULID_RE sid" using sid by simp
  note sp = Inr_inject [OF assms [unfolded sessionPaths_def Let_def if_not_P [OF valid]], symmetric]
  note select = sp session_paths.select_convs
  show "inside sid p" if "sp_deletedCopy sp t q = Inr p"
  proof -
    have p: "p = ''sessions/'' @ sid @ ''/'' @ (''repo'' @ ''/'' @ ''tmp'' @ ''/'' @ ''deleted'' @ ''/'' @ (''t-'' @ t) @ ''/'' @ q)"
      "OPAQUE_ID_RE t" "clean_path q"
      using that [unfolded select] clean_relative [of q]
      by (auto simp: deletedCopyPath_def REPO_DELETED_DIR_def split: if_splits sum.splits)
    have "clean_path (''t-'' @ t)" "clean_path ''repo''" "clean_path ''tmp''" "clean_path ''deleted''"
      using OPAQUE_no_slash [OF p(2)] p(2) by (auto intro!: clean_long_name simp: OPAQUE_ID_RE_def)
    then show ?thesis unfolding p(1) using p(3) by (intro below) (simp only: clean_path_join)
  qed
  show "inside sid p" if "sp_attachment sp n = Inr p"
  proof -
    have p: "p = ''sessions/'' @ sid @ ''/'' @ (''attachments'' @ ''/'' @ n)" "FILE_NAME_RE n"
      using that [unfolded select] by (auto split: if_splits)
    have "clean_path ''attachments''" by (simp add: clean_long_name)
    then show ?thesis
      unfolding p(1) using FILE_NAME_clean [OF p(2)] by (intro below) (simp only: clean_path_join)
  qed
  show "inside sid p" if "sp_incomingFilesBatch sp b = Inr p"
  proof -
    have p: "p = ''sessions/'' @ sid @ ''/'' @ (''incoming'' @ ''/'' @ ''files'' @ ''/'' @ b)" "ULID_RE b"
      using that [unfolded select] by (auto split: if_splits)
    show ?thesis unfolding p(1) by (intro below clean_below ULID_clean p(2)) auto
  qed
  show "inside sid p" if "sp_incomingBundle sp b = Inr p"
  proof -
    have p: "p = ''sessions/'' @ sid @ ''/'' @ (''state'' @ ''/'' @ ''git'' @ ''/'' @ ''incoming'' @ ''/'' @ b)" "BUNDLE_NAME_RE b"
      using that [unfolded select] by (auto simp: isIncomingBundleName_def split: if_splits)
    have "clean_path ''incoming''" by (simp add: clean_long_name)
    then show ?thesis
      unfolding p(1) using BUNDLE_clean [OF p(2)] by (intro below clean_below) (auto simp only: clean_path_join, simp_all)
  qed
  show "inside sid p" if "sp_incomingFile sp b q = Inr p"
  proof -
    have p: "p = ''sessions/'' @ sid @ ''/'' @ (''incoming'' @ ''/'' @ ''files'' @ ''/'' @ b @ ''/'' @ q)" "ULID_RE b"
      "clean_path q"
      using that [unfolded select] clean_repoRelative [of q] by (auto simp: isRepoDataPath_def split: if_splits sum.splits)
    then have "clean_path (b @ ''/'' @ q)" using ULID_clean by (simp only: clean_path_join)
    then show ?thesis unfolding p(1) by (intro below clean_below) auto
  qed
qed

subsection \<open>Properties\<close>

text \<open>C10: every path \<^verbatim>\<open>sessionPaths\<close> gives, whatever ids, numbers, names and relative paths it is asked for,
  lies strictly inside \<open>sessions/<sid>/\<close>: it starts with it, and none of its parts is empty, a dot or
  two dots.\<close>

theorem sessionPaths_inside:
  assumes "sessionPaths sid = Inr sp"
  shows "(\<forall>p\<in>{sp_sessionJson sp, sp_repo sp, sp_repoData sp, sp_repoTmp sp, sp_repoDeleted sp, sp_attachments sp,
        sp_state sp, sp_runs sp, sp_runsSeq sp, sp_head sp, sp_commandSeq sp, sp_mainBundle sp, sp_initMarker sp,
        sp_stopRequested sp, sp_gitLocal sp, sp_incomingFiles sp}. inside sid p) \<and>
    (\<forall>t q p. sp_deletedCopy sp t q = Inr p \<longrightarrow> inside sid p) \<and>
    (\<forall>n p. sp_attachment sp n = Inr p \<longrightarrow> inside sid p) \<and>
    (\<forall>n p. sp_runRecord sp n = Inr p \<or> sp_runLease sp n = Inr p \<or> sp_eventSegment sp n = Inr p \<or>
       sp_command sp n = Inr p \<longrightarrow> inside sid p) \<and>
    (\<forall>b p. sp_incomingFilesBatch sp b = Inr p \<or> sp_incomingBundle sp b = Inr p \<longrightarrow> inside sid p) \<and>
    (\<forall>b q p. sp_incomingFile sp b q = Inr p \<longrightarrow> inside sid p)"
  using fixed_paths_inside [OF assms] numbered_paths_inside [OF assms] named_paths_inside [OF assms]
  by (intro conjI allI impI) (blast+)?

text \<open>a cursor survives being formatted and parsed exactly when its segment has at most seven digits and
  its offset nine; otherwise its text is rejected.\<close>

theorem cursor_round_trip:
  "parseCursor (formatCursor c) =
     (if segment c < 10 ^ 7 \<and> cursor_offset c < 10 ^ 9 then Some c else None)"
proof (cases "segment c = 0 \<and> cursor_offset c = 0")
  case True
  have "show_nat 0 = ''0''" by code_simp
  then have "formatCursor c = show_nat 0" using True by (simp add: formatCursor_def)
  then show ?thesis
    using True digits_upto_show_nat [of 7 0] by (simp add: parseCursor_def split_on_none del: show_nat.simps)
next
  case False
  then have "formatCursor c = show_nat (segment c) @ CHR '':'' # show_nat (cursor_offset c)"
    unfolding formatCursor_def by (simp only: if_False append.simps)
  then show ?thesis by (simp add: parseCursor_def split_on_append split_on_none digits_upto_show_nat)
qed

lemma command_seq_written:
  "case formatCommandSeq n of
     Inl _ \<Rightarrow> n < 0 \<or> MAX_SAFE_INTEGER < n
   | Inr text \<Rightarrow> 0 \<le> n \<and> parseCommandSeq text = (if n < 10 ^ 12 then Some (nat n) else None)"
proof (cases "0 \<le> n \<and> n \<le> MAX_SAFE_INTEGER")
  case True
  let ?t = "show_nat (nat n)"
  have "\<not> white_space (hd (?t @ [CHR 0x0A]))" "\<not> white_space (last ?t)"
    using not_white_show_nat [of "hd ?t" "nat n"] not_white_show_nat [of "last ?t" "nat n"] by simp_all
  moreover have "white_space (CHR 0x0A)" by (simp add: white_space_def code_def)
  ultimately have trim: "rev (dropWhile white_space (rev (dropWhile white_space (?t @ [CHR 0x0A])))) = ?t"
    by (simp add: dropWhile_hd hd_rev)
  have "nat n < 10 ^ 12 \<longleftrightarrow> n < 10 ^ 12" using True by (simp add: nat_less_iff)
  then show ?thesis
    using True trim by (auto simp: formatCommandSeq_def parseCommandSeq_def digits_upto_show_nat)
qed (auto simp: formatCommandSeq_def)

text \<open>a command number survives \<^verbatim>\<open>commands.seq\<close> and \<^verbatim>\<open>commands.done\<close> up to twelve digits; a larger one
  is written but reads as malformed, and a negative or unsafe one is not written.\<close>

theorem command_seq_round_trip:
  "case formatCommandSeq n of
     Inl _ \<Rightarrow> n < 0 \<or> MAX_SAFE_INTEGER < n
   | Inr text \<Rightarrow> 0 \<le> n \<and> parseCommandSeq text = (if n < 10 ^ 12 then Some (nat n) else None)"
  by (rule command_seq_written)

lemma modelWritable_parts:
  "isModelWritableRepoPath p \<longleftrightarrow>
     (\<exists>d rest. strip_dot_slash p = d @ ''/'' @ rest \<and> d \<in> {''data'', ''tmp''} \<and> clean_path rest \<and> CHR 0x00 \<notin> set rest)"
proof -
  define q where "q = strip_dot_slash p"
  have nul: "CHR 0x00 \<notin> set r \<longleftrightarrow> list_all (\<lambda>x. CHR 0x00 \<notin> set x) (slash_parts r)" for r
  proof -
    have "set (join [CHR ''/''] ps) = (\<Union>x\<in>set ps. set x) \<union> (if length ps \<le> 1 then {} else {CHR ''/''})" for ps
      by (induction "[CHR ''/'']" ps rule: join.induct) auto
    from this [of "slash_parts r"] show ?thesis
      by (auto simp: slash_parts_def join_split_on list_all_iff split: if_splits)
  qed
  have dirs: "slash_parts d = [d] \<and> \<not> dot_part d \<and> CHR 0x00 \<notin> set d" if "d \<in> {''data'', ''tmp''}" for d
    using that by (auto simp: slash_parts_def split_on_none dot_part_def)
  show ?thesis
  proof
    assume "isModelWritableRepoPath p"
    then have w: "2 \<le> length (slash_parts q)" "list_all (\<lambda>x. \<not> dot_part x \<and> CHR 0x00 \<notin> set x) (slash_parts q)"
      "hd (slash_parts q) \<in> {''data'', ''tmp''}"
      by (auto simp: isModelWritableRepoPath_def Let_def q_def list_all_iff list_ex_iff MODEL_WRITABLE_REPO_DIRS_def
          REPO_DATA_DIR_def REPO_TMP_DIR_def split: if_splits)
    then obtain d x xs where ps: "slash_parts q = d # x # xs" by (cases "slash_parts q"; cases "tl (slash_parts q)") auto
    have q: "q = d @ ''/'' @ join ''/'' (x # xs)"
      using join_split_on [of "CHR ''/''" q] ps by (simp add: slash_parts_def)
    have "slash_parts q = slash_parts d @ slash_parts (join ''/'' (x # xs))"
      unfolding q by (rule slash_parts_append)
    moreover have "slash_parts d = [d]" using ps dirs [of d] w(3) by simp
    ultimately have "slash_parts (join ''/'' (x # xs)) = x # xs" unfolding ps by simp
    then have "clean_path (join ''/'' (x # xs))" "CHR 0x00 \<notin> set (join ''/'' (x # xs))"
      using w(2) unfolding clean_path_def nul [of "join ''/'' (x # xs)"] ps by (simp_all add: list_all_iff)
    then show "\<exists>d rest. strip_dot_slash p = d @ ''/'' @ rest \<and> d \<in> {''data'', ''tmp''} \<and> clean_path rest \<and> CHR 0x00 \<notin> set rest"
      using q w(3) ps unfolding q_def by (intro exI [of _ d] exI [of _ "join ''/'' (x # xs)"]) simp
  next
    assume "\<exists>d rest. strip_dot_slash p = d @ ''/'' @ rest \<and> d \<in> {''data'', ''tmp''} \<and> clean_path rest \<and> CHR 0x00 \<notin> set rest"
    then obtain d rest where q: "q = d @ ''/'' @ rest" and d: "d \<in> {''data'', ''tmp''}"
      and rest: "clean_path rest" "CHR 0x00 \<notin> set rest"
      unfolding q_def by blast
    have ps: "slash_parts q = d # slash_parts rest"
      using dirs [OF d] unfolding q slash_parts_append by simp
    have "slash_parts rest \<noteq> []" by (simp add: slash_parts_def)
    then show "isModelWritableRepoPath p"
      using ps d rest dirs [OF d] unfolding isModelWritableRepoPath_def Let_def q_def [symmetric]
      by (auto simp: clean_path_def nul [of rest] list_all_iff list_ex_iff MODEL_WRITABLE_REPO_DIRS_def REPO_DATA_DIR_def
          REPO_TMP_DIR_def Suc_le_eq)
  qed
qed

text \<open>the model may write exactly the paths strictly inside \<open>data/\<close> or \<open>tmp/\<close> with no part that is
  empty, a dot or two dots and no NUL, after any leading \<open>./\<close>.\<close>

theorem modelWritable_iff:
  "isModelWritableRepoPath p \<longleftrightarrow>
     (\<exists>d rest. strip_dot_slash p = d @ ''/'' @ rest \<and> d \<in> {''data'', ''tmp''} \<and> clean_path rest \<and> CHR 0x00 \<notin> set rest)"
  by (rule modelWritable_parts)

text \<open>a copy of a deleted file is put where the model may write, under the turn's own folder, and no two
  turns or files share a copy.\<close>

theorem deletedCopy_writable:
  assumes "deletedCopyPath t p = Inr q"
  shows "isModelWritableRepoPath q \<and> slash_parts q = [''tmp'', ''deleted'', ''t-'' @ t] @ slash_parts p \<and>
    (\<forall>t' p'. deletedCopyPath t' p' = Inr q \<longrightarrow> t' = t \<and> p' = p)"
proof -
  have copy: "q = ''tmp'' @ ''/'' @ ''deleted'' @ ''/'' @ (''t-'' @ t) @ ''/'' @ p \<and> t \<noteq> [] \<and> CHR ''/'' \<notin> set t \<and> CHR 0x00 \<notin> set t \<and>
      clean_path p \<and> CHR 0x00 \<notin> set p" if "deletedCopyPath t p = Inr q" for t p
    using that OPAQUE_no_slash [of t] clean_relative [of p]
    by (auto simp: deletedCopyPath_def REPO_DELETED_DIR_def relativePath_def OPAQUE_ID_RE_def list_all_iff alnum_def
        is_digit_def is_upper_def is_lower_def code_def split: if_splits sum.splits)
  have parts: "slash_parts q = [''tmp'', ''deleted'', ''t-'' @ t] @ slash_parts p" if "deletedCopyPath t p = Inr q" for t p
  proof -
    have "slash_parts ''tmp'' = [''tmp'']" "slash_parts ''deleted'' = [''deleted'']" "slash_parts (''t-'' @ t) = [''t-'' @ t]"
      using copy [OF that] by (auto simp: slash_parts_def split_on_none)
    moreover have q: "q = ''tmp'' @ ''/'' @ ''deleted'' @ ''/'' @ (''t-'' @ t) @ ''/'' @ p" using copy [OF that] by blast
    ultimately show ?thesis unfolding q slash_parts_append by (simp only: append.simps)
  qed
  have "clean_path (''deleted'' @ ''/'' @ (''t-'' @ t) @ ''/'' @ p)"
    using copy [OF assms] by (intro clean_below) (auto simp: Suc_le_eq)
  moreover have "CHR 0x00 \<notin> set (''deleted'' @ ''/'' @ (''t-'' @ t) @ ''/'' @ p)"
    using copy [OF assms] by auto
  moreover have "strip_dot_slash q = ''tmp'' @ ''/'' @ (''deleted'' @ ''/'' @ (''t-'' @ t) @ ''/'' @ p)"
    using copy [OF assms] by simp
  ultimately have "isModelWritableRepoPath q" unfolding modelWritable_parts by blast
  moreover have "t' = t \<and> p' = p" if "deletedCopyPath t' p' = Inr q" for t' p'
  proof -
    have "[''tmp'', ''deleted'', ''t-'' @ t'] @ slash_parts p' = [''tmp'', ''deleted'', ''t-'' @ t] @ slash_parts p"
      by (rule trans [OF sym [OF parts [OF that]] parts [OF assms]])
    then have "t' = t" "slash_parts p' = slash_parts p" by simp_all
    moreover from this(2) have "join ''/'' (slash_parts p') = join ''/'' (slash_parts p)" by (rule arg_cong)
    ultimately show ?thesis unfolding slash_parts_def join_split_on by blast
  qed
  ultimately show ?thesis using parts [OF assms] by blast
qed

subsection \<open>Witnesses\<close>

definition sf_sid :: string where
  "sf_sid = ''01ARZ3NDEKTSV4RRFFQ69G5FAV''"

theorem sessionPaths_inside_witness:
  "\<exists>sp. sessionPaths sf_sid = Inr sp \<and> sp_attachment sp ''a.pdf'' = Inr (''sessions/'' @ sf_sid @ ''/attachments/a.pdf'') \<and>
     inside sf_sid (''sessions/'' @ sf_sid @ ''/attachments/a.pdf'')"
proof -
  have "ULID_RE sf_sid" by code_simp
  then have valid: "\<not> \<not> ULID_RE sf_sid" by simp
  obtain sp where sp: "sessionPaths sf_sid = Inr sp"
    unfolding sessionPaths_def Let_def if_not_P [OF valid] by blast
  have "FILE_NAME_RE ''a.pdf''" by code_simp
  then have "sp_attachment sp ''a.pdf'' = Inr (''sessions/'' @ sf_sid @ ''/attachments/a.pdf'')"
    unfolding Inr_inject [OF sp [unfolded sessionPaths_def Let_def if_not_P [OF valid]], symmetric]
      session_paths.select_convs by simp
  then show ?thesis using sessionPaths_inside [OF sp] sp by blast
qed

theorem deletedCopy_writable_witness:
  "isModelWritableRepoPath ''tmp/deleted/t-T1/rules/tax.l4''"
proof -
  have "deletedCopyPath ''T1'' ''rules/tax.l4'' = Inr ''tmp/deleted/t-T1/rules/tax.l4''" by code_simp
  from deletedCopy_writable [OF this] show ?thesis by blast
qed

end
