(* ===== verification/RunLease.thy ===== *)
theory RunLease
  imports SessionFiles
begin

text \<open>
  Who runs a cloud session: \<^verbatim>\<open>ts-apps/cloud-agent/src/lease.ts\<close>.

  The fence and the lease are records of their fields. A write of the lease is a task in the promise chain
  \<^verbatim>\<open>writing\<close>: it begins (the fence is checked and the content made), the file is replaced, and it ends (the
  fence is re-armed); between these steps other code runs. The run directory is two maps from run numbers to
  the content of a file, \<open>None\<close> when there is none, the content as \<^verbatim>\<open>JSON.parse\<close> gives it.
\<close>

subsection \<open>The fence\<close>

definition FENCE_MARGIN_MS :: int where
  "FENCE_MARGIN_MS = 15000"

record fence =
  validUntil :: int
  closed :: bool
  violated :: bool

definition new_fence :: fence where
  "new_fence = \<lparr>validUntil = 0, closed = False, violated = False\<rparr>"

definition renewed :: "int \<Rightarrow> fence \<Rightarrow> fence" where
  "renewed expiresAt f = (if \<not> closed f then f\<lparr>validUntil := expiresAt\<rparr> else f)"

text \<open>The message of the \<^verbatim>\<open>SupersededError\<close> when the write is refused, the reason \<^verbatim>\<open>onViolation\<close> is called with.\<close>

record fence_answer =
  refused :: "string option"
  onViolation :: "string option"

definition fence_check :: "string \<Rightarrow> int \<Rightarrow> fence \<Rightarrow> fence_answer \<times> fence" where
  "fence_check what now f =
     (if closed f then (\<lparr>refused = Some (what @ '': the run has ended''), onViolation = None\<rparr>, f)
      else if now < validUntil f - FENCE_MARGIN_MS then (\<lparr>refused = None, onViolation = None\<rparr>, f)
      else (let reason = what @ '': the run'' @ [CHR 0x27] @ ''s lease is no longer valid''
            in (\<lparr>refused = Some reason, onViolation = (if \<not> violated f then Some reason else None)\<rparr>,
                f\<lparr>violated := True\<rparr>)))"

definition fence_close :: "fence \<Rightarrow> fence" where
  "fence_close f = f\<lparr>closed := True\<rparr>"

definition passes :: "fence \<Rightarrow> int \<Rightarrow> bool" where
  "passes f now \<longleftrightarrow> refused (fst (fence_check [] now f)) = None"

subsection \<open>The run directory\<close>

record run_dir =
  run_records :: "int \<Rightarrow> jsval option option"
  run_leases :: "int \<Rightarrow> jsval option option"

definition newerRunExists :: "run_dir \<Rightarrow> int \<Rightarrow> bool" where
  "newerRunExists d run \<longleftrightarrow> run_records d (run + 1) \<noteq> None"

definition expiry_of :: "jsval \<Rightarrow> int option" where
  "expiry_of lease = (case js_prop lease ''expiresAt'' of JNum e \<Rightarrow> Some e | _ \<Rightarrow> None)"

definition read_lease :: "run_dir \<Rightarrow> int \<Rightarrow> jsval option" where
  "read_lease d run =
     (case run_leases d run of
        None \<Rightarrow> None
      | Some content \<Rightarrow> (case parseRunLeaseFile content run of Inl _ \<Rightarrow> None | Inr l \<Rightarrow> Some l))"

definition checkRun :: "run_dir \<Rightarrow> int \<Rightarrow> int \<Rightarrow> string + int" where
  "checkRun d run now =
     (case run_records d run of
        None \<Rightarrow> Inl (''run '' @ show_int run @ '' has no record'')
      | Some record \<Rightarrow>
          (case parseRunRecordFile record run of
             Inl _ \<Rightarrow> Inl (''run '' @ show_int run @ [CHR 0x27] @ ''s record is invalid'')
           | Inr _ \<Rightarrow>
               if newerRunExists d run then Inl (''run '' @ show_int (run + 1) @ '' exists'')
               else (case Option.bind (read_lease d run) expiry_of of
                       None \<Rightarrow> Inl (''run '' @ show_int run @ '' has no valid lease'')
                     | Some expiresAt \<Rightarrow>
                         if now \<ge> expiresAt - FENCE_MARGIN_MS
                         then Inl (''run '' @ show_int run @ [CHR 0x27] @ ''s lease ran out before the harness started'')
                         else Inr expiresAt)))"

subsection \<open>The lease\<close>

datatype harness_lease_state = LeaseRunning | LeaseBusy | LeaseWaiting

fun state_text :: "harness_lease_state \<Rightarrow> string" where
  "state_text LeaseRunning = ''running''"
| "state_text LeaseBusy = ''busy''"
| "state_text LeaseWaiting = ''waiting''"

text \<open>
  \<open>queue\<close> are the writes that wait in the chain (of the expired lease or not), \<open>writing\<close> the content and expiry
  of the one under way, \<open>releasing\<close> that \<^verbatim>\<open>release\<close> waits for its write.
\<close>

record run_lease =
  run :: int
  taskId :: string
  lease_state :: harness_lease_state
  lease_turn :: "string option"
  timer :: bool
  held :: bool
  queue :: "bool list"
  writing :: "(jsval \<times> int \<times> bool) option"
  releasing :: bool
  the_fence :: fence

definition new_lease :: "int \<Rightarrow> string \<Rightarrow> fence \<Rightarrow> run_lease" where
  "new_lease n task f = \<lparr>run = n, taskId = task, lease_state = LeaseRunning, lease_turn = None, timer = False,
     held = False, queue = [], writing = None, releasing = False, the_fence = f\<rparr>"

definition lease_write :: "bool \<Rightarrow> run_lease \<Rightarrow> run_lease" where
  "lease_write expired l = l\<lparr>queue := queue l @ [expired]\<rparr>"

definition start :: "run_lease \<Rightarrow> run_lease" where
  "start l = lease_write False (l\<lparr>held := True\<rparr>)"

definition started :: "run_lease \<Rightarrow> run_lease" where
  "started l = l\<lparr>timer := True\<rparr>"

definition stop :: "run_lease \<Rightarrow> run_lease" where
  "stop l = l\<lparr>timer := False, held := False\<rparr>"

text \<open>\<^verbatim>\<open>renew\<close>: whether it goes on to look for a newer run, and what it does with the answer.\<close>

definition renew_begin :: "run_lease \<Rightarrow> bool" where
  "renew_begin l = held l"

definition renew_end :: "bool \<Rightarrow> run_lease \<Rightarrow> string option \<times> run_lease" where
  "renew_end newer l =
     (if newer then (Some (''run '' @ show_int (run l + 1) @ '' exists''), stop l) else (None, lease_write False l))"

definition set_state :: "harness_lease_state \<Rightarrow> string option \<Rightarrow> run_lease \<Rightarrow> run_lease" where
  "set_state st turn l =
     (if lease_state l = st \<and> lease_turn l = turn then l
      else (let l' = l\<lparr>lease_state := st, lease_turn := (if st = LeaseRunning then None else turn)\<rparr>
            in if held l' then lease_write False l' else l'))"

definition release :: "run_lease \<Rightarrow> run_lease" where
  "release l =
     (let l' = stop l
      in if held l then lease_write True (l'\<lparr>releasing := True\<rparr>)
         else l'\<lparr>the_fence := fence_close (the_fence l')\<rparr>)"

definition lease_value :: "run_lease \<Rightarrow> int \<Rightarrow> jsval" where
  "lease_value l expiresAt =
     JObj ([(''run'', JNum (run l)), (''taskId'', JStr (taskId l)), (''state'', JStr (state_text (lease_state l)))] @
       (case lease_turn l of None \<Rightarrow> [] | Some t \<Rightarrow> if t = [] then [] else [(''turnId'', JStr t)]) @
       [(''expiresAt'', JNum expiresAt)])"

text \<open>What follows the write of an expired lease: \<^verbatim>\<open>release\<close> closes the fence, whatever became of it.\<close>

definition after_write :: "bool \<Rightarrow> run_lease \<Rightarrow> run_lease" where
  "after_write expired l =
     (if expired then l\<lparr>releasing := False, the_fence := fence_close (the_fence l)\<rparr> else l)"

definition write_begin :: "int \<Rightarrow> run_lease \<Rightarrow> fence_answer option \<times> run_lease" where
  "write_begin now l =
     (case (writing l, queue l) of
        (None, expired # more_writes) \<Rightarrow>
          (let (answer, f) = fence_check ''lease'' now (the_fence l);
               l' = l\<lparr>queue := more_writes, the_fence := f\<rparr>
           in if refused answer \<noteq> None then (Some answer, after_write expired l')
              else (let expiresAt = now + (if expired then 0 else LEASE_TTL_MS)
                    in (Some answer, l'\<lparr>writing := Some (lease_value l expiresAt, expiresAt, expired)\<rparr>)))
      | _ \<Rightarrow> (None, l))"

definition write_end :: "bool \<Rightarrow> run_lease \<Rightarrow> run_lease" where
  "write_end ok l =
     (case writing l of
        None \<Rightarrow> l
      | Some (content, expiresAt, expired) \<Rightarrow>
          after_write expired
            (if ok \<and> \<not> expired then l\<lparr>writing := None, the_fence := renewed expiresAt (the_fence l)\<rparr>
             else l\<lparr>writing := None\<rparr>))"

subsection \<open>Runs, their harnesses and the Sessions API\<close>

text \<open>
  The time of the API's clock, how far each harness's clock is ahead of it, the run directory, the harness of
  each run, and of each run whether a renewal is looking for a newer run and whether the write under way has
  replaced the file. The Sessions API is not part of the repository: that it creates run \<open>n + 1\<close> only when
  run \<open>n\<close>'s lease is dead by its clock is its documented behaviour, in \<open>admissible\<close>.
\<close>

record world =
  api_clock :: int
  clock_ahead :: "int \<Rightarrow> int"
  dir :: run_dir
  last_run :: int
  harness :: "int \<Rightarrow> run_lease option"
  renewing :: "int \<Rightarrow> bool"
  landed :: "int \<Rightarrow> bool"

definition new_world :: "int \<Rightarrow> (int \<Rightarrow> int) \<Rightarrow> world" where
  "new_world t ahead = \<lparr>api_clock = t, clock_ahead = ahead,
     dir = \<lparr>run_records = (\<lambda>_. None), run_leases = (\<lambda>_. None)\<rparr>, last_run = 0,
     harness = (\<lambda>_. None), renewing = (\<lambda>_. False), landed = (\<lambda>_. False)\<rparr>"

definition local_now :: "world \<Rightarrow> int \<Rightarrow> int" where
  "local_now w r = api_clock w + clock_ahead w r"

definition lease_expiry :: "world \<Rightarrow> int \<Rightarrow> int option" where
  "lease_expiry w r = Option.bind (read_lease (dir w) r) expiry_of"

datatype action =
    Tick int
  | ApiStart
  | Boot int string
  | Started int
  | RenewBegin int
  | RenewEnd int
  | SetState int harness_lease_state "string option"
  | Release int
  | Begin int
  | Land int
  | End int bool
  | CheckWrite int string

definition with_harness :: "int \<Rightarrow> (run_lease \<Rightarrow> run_lease) \<Rightarrow> world \<Rightarrow> world" where
  "with_harness r g w =
     (case harness w r of None \<Rightarrow> w | Some l \<Rightarrow> w\<lparr>harness := (harness w)(r \<mapsto> g l)\<rparr>)"

definition record_value :: "int \<Rightarrow> int \<Rightarrow> jsval" where
  "record_value n t = JObj [(''run'', JNum n), (''createdAt'', JNum t)]"

definition starting_lease :: "int \<Rightarrow> int \<Rightarrow> jsval" where
  "starting_lease n t = JObj [(''run'', JNum n), (''taskId'', JStr ''sessions-api''), (''state'', JStr ''starting''),
     (''expiresAt'', JNum (t + START_GRACE_MS))]"

fun act :: "action \<Rightarrow> world \<Rightarrow> world" where
  "act (Tick d) w = w\<lparr>api_clock := api_clock w + d\<rparr>"
| "act ApiStart w =
     (let n = last_run w + 1
      in w\<lparr>last_run := n,
           dir := \<lparr>run_records = (run_records (dir w))(n \<mapsto> Some (record_value n (api_clock w))),
                   run_leases = (run_leases (dir w))(n \<mapsto> Some (starting_lease n (api_clock w)))\<rparr>\<rparr>)"
| "act (Boot r task) w =
     (case checkRun (dir w) r (local_now w r) of
        Inl _ \<Rightarrow> w
      | Inr e \<Rightarrow> w\<lparr>harness := (harness w)(r \<mapsto> start (new_lease r task (renewed e new_fence)))\<rparr>)"
| "act (Started r) w = with_harness r started w"
| "act (RenewBegin r) w =
     (case harness w r of None \<Rightarrow> w | Some l \<Rightarrow> w\<lparr>renewing := (renewing w)(r := renew_begin l)\<rparr>)"
| "act (RenewEnd r) w =
     (if renewing w r
      then with_harness r (\<lambda>l. snd (renew_end (newerRunExists (dir w) r) l)) (w\<lparr>renewing := (renewing w)(r := False)\<rparr>)
      else w)"
| "act (SetState r st turn) w = with_harness r (set_state st turn) w"
| "act (Release r) w = with_harness r release w"
| "act (Begin r) w = with_harness r (\<lambda>l. snd (write_begin (local_now w r) l)) w"
| "act (Land r) w =
     (case Option.bind (harness w r) writing of
        None \<Rightarrow> w
      | Some (content, _, _) \<Rightarrow>
          if landed w r then w
          else w\<lparr>dir := (dir w)\<lparr>run_leases := (run_leases (dir w))(r \<mapsto> Some content)\<rparr>,
                 landed := (landed w)(r := True)\<rparr>)"
| "act (End r ok) w = (with_harness r (write_end ok) w)\<lparr>landed := (landed w)(r := False)\<rparr>"
| "act (CheckWrite r what) w =
     with_harness r (\<lambda>l. l\<lparr>the_fence := snd (fence_check what (local_now w r) (the_fence l))\<rparr>) w"

definition task_ok :: "string \<Rightarrow> bool" where
  "task_ok t \<longleftrightarrow> 1 \<le> length t \<and> length t \<le> 128 \<and> list_all task_id_char t"

definition in_range :: "int \<Rightarrow> bool" where
  "in_range t \<longleftrightarrow> 0 \<le> t \<and> t + START_GRACE_MS \<le> MAX_SAFE_INTEGER"

text \<open>Is the lease that has just been written acknowledged before it runs out?\<close>

definition tick_ok :: "world \<Rightarrow> int \<Rightarrow> bool" where
  "tick_ok w t =
     list_all (\<lambda>r. landed w r \<longrightarrow>
       (case Option.bind (harness w r) writing of
          Some (_, e, expired) \<Rightarrow> \<not> expired \<longrightarrow> t < e
        | None \<Rightarrow> True)) [1..last_run w]"

text \<open>
  What may happen: time goes forward, the API starts a run when there is none or the last one's lease is dead,
  a run has one harness, ids are well formed, a write ends well exactly if it replaced the file. And a write of the lease is
  timely: it replaces the file while the lease there is live, and is acknowledged before its own runs out.
\<close>

fun admissible :: "world \<Rightarrow> action \<Rightarrow> bool" where
  "admissible w (Tick d) \<longleftrightarrow> 0 \<le> d \<and> tick_ok w (api_clock w + d)"
| "admissible w ApiStart \<longleftrightarrow>
     isRunNumber (last_run w + 1) \<and> in_range (api_clock w) \<and>
     (last_run w = 0 \<or> (case lease_expiry w (last_run w) of None \<Rightarrow> False | Some e \<Rightarrow> \<not> isLeaseLive e (api_clock w)))"
| "admissible w (Boot r task) \<longleftrightarrow> harness w r = None \<and> task_ok task"
| "admissible w (SetState r st turn) \<longleftrightarrow> (case turn of None \<Rightarrow> True | Some t \<Rightarrow> OPAQUE_ID_RE t)"
| "admissible w (Begin r) \<longleftrightarrow> in_range (local_now w r)"
| "admissible w (Land r) \<longleftrightarrow>
     (case Option.bind (harness w r) writing of
        None \<Rightarrow> True
      | Some (_, e, expired) \<Rightarrow>
          (case lease_expiry w r of None \<Rightarrow> False | Some old \<Rightarrow> isLeaseLive old (api_clock w)) \<and>
          (expired \<or> isLeaseLive e (api_clock w)))"
| "admissible w (End r ok) \<longleftrightarrow> ok = landed w r"
| "admissible w _ \<longleftrightarrow> True"

fun exec :: "action list \<Rightarrow> world \<Rightarrow> world" where
  "exec [] w = w"
| "exec (a # as) w = exec as (act a w)"

fun all_admissible :: "action list \<Rightarrow> world \<Rightarrow> bool" where
  "all_admissible [] w \<longleftrightarrow> True"
| "all_admissible (a # as) w \<longleftrightarrow> admissible w a \<and> all_admissible as (act a w)"

text \<open>A writer of run \<open>r\<close> gets past the fence (the expired lease is the run's last write: nobody writes beside it).\<close>

definition may_write :: "world \<Rightarrow> int \<Rightarrow> bool" where
  "may_write w r =
     (case harness w r of
        None \<Rightarrow> False
      | Some l \<Rightarrow> passes (the_fence l) (local_now w r) \<and>
          \<not> (landed w r \<and> (case writing l of Some (_, _, expired) \<Rightarrow> expired | None \<Rightarrow> False)))"

subsection \<open>The fence as an interface\<close>

text \<open>What the writers of a run rely on.\<close>

locale write_permission =
  fixes may :: "'f \<Rightarrow> int \<Rightarrow> bool" and extend :: "int \<Rightarrow> 'f \<Rightarrow> 'f" and shut :: "'f \<Rightarrow> 'f"
    and look :: "int \<Rightarrow> 'f \<Rightarrow> 'f"
  assumes earlier: "may f t \<Longrightarrow> u \<le> t \<Longrightarrow> may f u"
    and shut_for_good: "\<not> may (shut f) t" "\<not> may (extend e (shut f)) t"
    and looking: "may (look u f) t = may f t"
begin

text \<open>Once refused, a writer stays refused, however often it asks, until the permission is extended.\<close>

lemma stays_refused:
  assumes "\<not> may f t" "t \<le> u"
  shows "\<not> may (fold look us f) u"
proof -
  have "may (fold look us f) u = may f u" using looking by (induction us arbitrary: f) simp_all
  then show ?thesis using assms earlier by blast
qed

end

interpretation fence: write_permission passes renewed fence_close "\<lambda>u f. snd (fence_check what u f)" for what
  by unfold_locales
    (auto simp: passes_def fence_check_def renewed_def fence_close_def Let_def split: if_splits)

subsection \<open>What is written is read\<close>

definition lease_ok :: "run_lease \<Rightarrow> bool" where
  "lease_ok l \<longleftrightarrow> isRunNumber (run l) \<and> task_ok (taskId l) \<and>
     (case lease_turn l of None \<Rightarrow> True | Some t \<Rightarrow> OPAQUE_ID_RE t)"

lemma lease_value_parsed:
  assumes "lease_ok l" "0 \<le> e" "e \<le> MAX_SAFE_INTEGER"
  shows "parseRunLeaseFile (Some (lease_value l e)) (run l) = Inr (lease_value l e)"
proof -
  have st: "state_text (lease_state l) \<in> {''running'', ''busy'', ''waiting''}" by (cases "lease_state l") auto
  have "\<bar>run l\<bar> \<le> MAX_SAFE_INTEGER" using assms(1) by (auto simp: lease_ok_def isRunNumber_def MAX_SAFE_INTEGER_def)
  then show ?thesis
    using assms st
    by (cases "lease_turn l")
      (auto simp: parseRunLeaseFile_def parse_with_def parseJsonText_def runLeaseFile_def obj_def Let_def lease_value_def
        runNumber_def int_check_def lease_ok_def isRunNumber_def str_check_def task_ok_def literals_def literal_check_def
        opaqueId_def pattern_str_def any_str_def OPAQUE_ID_RE_def epochMs_def)
qed

lemma expiry_of_lease_value [simp]: "expiry_of (lease_value l e) = Some e"
  by (cases "lease_turn l") (auto simp: expiry_of_def lease_value_def)

lemma starting_lease_parsed:
  assumes "isRunNumber n" "in_range t"
  shows "parseRunLeaseFile (Some (starting_lease n t)) n = Inr (starting_lease n t)"
proof -
  have "\<bar>n\<bar> \<le> MAX_SAFE_INTEGER" using assms(1) by (auto simp: isRunNumber_def MAX_SAFE_INTEGER_def)
  moreover have "list_all task_id_char ''sessions-api''" by code_simp
  ultimately show ?thesis
    using assms
    by (auto simp: parseRunLeaseFile_def parse_with_def parseJsonText_def runLeaseFile_def obj_def Let_def
        starting_lease_def runNumber_def int_check_def isRunNumber_def str_check_def literals_def literal_check_def
        epochMs_def in_range_def START_GRACE_MS_def)
qed

lemma expiry_of_starting [simp]: "expiry_of (starting_lease n t) = Some (t + START_GRACE_MS)"
  by (simp add: expiry_of_def starting_lease_def)

subsection \<open>The invariant\<close>

definition run_inv :: "world \<Rightarrow> int \<Rightarrow> run_lease \<Rightarrow> bool" where
  "run_inv w r l \<longleftrightarrow> run l = r \<and> 1 \<le> r \<and> r \<le> last_run w \<and> lease_ok l \<and>
     (landed w r \<longrightarrow> writing l \<noteq> None) \<and>
     (\<forall>c e x. writing l = Some (c, e, x) \<longrightarrow>
        parseRunLeaseFile (Some c) r = Inr c \<and> expiry_of c = Some e \<and>
        (landed w r \<longrightarrow> lease_expiry w r = Some e \<and> (x \<or> api_clock w < e))) \<and>
     (closed (the_fence l) \<or> landed w r \<or> (\<exists>e. lease_expiry w r = Some e \<and> validUntil (the_fence l) \<le> e))"

definition world_inv :: "world \<Rightarrow> bool" where
  "world_inv w \<longleftrightarrow> 0 \<le> last_run w \<and> last_run w \<le> 999999999 \<and>
     (\<forall>r. 1 \<le> r \<and> r \<le> last_run w \<longrightarrow> (\<exists>e. lease_expiry w r = Some e \<and> (r < last_run w \<longrightarrow> e \<le> api_clock w))) \<and>
     (\<forall>r. run_records (dir w) r \<noteq> None \<longleftrightarrow> 1 \<le> r \<and> r \<le> last_run w) \<and>
     (\<forall>r l. harness w r = Some l \<longrightarrow> run_inv w r l) \<and>
     (\<forall>r. harness w r = None \<longrightarrow> \<not> landed w r)"

lemma world_inv_harness: "world_inv w \<Longrightarrow> harness w r = Some l \<Longrightarrow> run_inv w r l"
  by (simp add: world_inv_def)

lemma new_world_inv: "world_inv (new_world t ahead)"
  by (auto simp: world_inv_def new_world_def)

lemma with_harness_inv:
  assumes "world_inv w" "\<And>l. harness w r = Some l \<Longrightarrow> run_inv w r (g l)"
  shows "world_inv (with_harness r g w)"
proof (cases "harness w r")
  case (Some l)
  have "run_inv (w\<lparr>harness := h\<rparr>) = run_inv w" for h
    by (intro ext) (simp add: run_inv_def lease_expiry_def)
  then show ?thesis
    using assms Some by (auto simp: world_inv_def with_harness_def lease_expiry_def)
qed (use assms in \<open>simp add: with_harness_def\<close>)

text \<open>An operation that leaves the fence and the write under way alone.\<close>

lemma run_inv_same:
  assumes "run_inv w r l" "run l' = run l" "lease_ok l'" "writing l' = writing l" "the_fence l' = the_fence l"
  shows "run_inv w r l'"
  using assms by (simp add: run_inv_def)

lemma run_inv_fence:
  assumes "run_inv w r l" "validUntil f = validUntil (the_fence l)" "closed (the_fence l) \<longrightarrow> closed f"
  shows "run_inv w r (l\<lparr>the_fence := f\<rparr>)"
  using assms by (auto simp: run_inv_def lease_ok_def)

lemma run_inv_ok: "run_inv w r l \<Longrightarrow> lease_ok l"
  by (simp add: run_inv_def)

lemma release_inv:
  assumes "run_inv w r l"
  shows "run_inv w r (release l)"
proof -
  have "run_inv w r (stop l)"
    by (rule run_inv_same [OF assms]) (use run_inv_ok [OF assms] in \<open>auto simp: stop_def lease_ok_def\<close>)
  note s = this
  have "run_inv w r ((stop l)\<lparr>the_fence := fence_close (the_fence (stop l))\<rparr>)"
    by (rule run_inv_fence [OF s]) (auto simp: fence_close_def)
  moreover have "run_inv w r (lease_write True ((stop l)\<lparr>releasing := True\<rparr>))"
    by (rule run_inv_same [OF s]) (use run_inv_ok [OF s] in \<open>auto simp: lease_write_def lease_ok_def\<close>)
  ultimately show ?thesis by (simp add: release_def Let_def)
qed

lemma fence_check_same:
  "validUntil (snd (fence_check what t f)) = validUntil f" "closed (snd (fence_check what t f)) = closed f"
  by (auto simp: fence_check_def Let_def)

lemma write_begin_inv:
  assumes "run_inv w r l" "in_range t"
  shows "run_inv w r (snd (write_begin t l))"
proof (cases "writing l = None \<and> queue l \<noteq> []")
  case True
  then obtain x xs where q: "writing l = None" "queue l = x # xs" by (cases "queue l") auto
  define f where "f = snd (fence_check ''lease'' t (the_fence l))"
  define l1 where "l1 = l\<lparr>queue := xs, the_fence := f\<rparr>"
  have f: "validUntil f = validUntil (the_fence l)" "closed f = closed (the_fence l)"
    by (simp_all add: f_def fence_check_same)
  have notlanded: "\<not> landed w r" using assms(1) q(1) by (auto simp: run_inv_def)
  have "run_inv w r (l\<lparr>the_fence := f\<rparr>)" by (rule run_inv_fence [OF assms(1)]) (simp_all add: f)
  then have l1: "run_inv w r l1"
    by (rule run_inv_same) (use run_inv_ok [OF assms(1)] in \<open>auto simp: l1_def lease_ok_def\<close>)
  have "run_inv w r (l1\<lparr>the_fence := fence_close f\<rparr>)"
    by (rule run_inv_fence [OF l1]) (auto simp: l1_def fence_close_def)
  then have "run_inv w r (l1\<lparr>releasing := False, the_fence := fence_close f\<rparr>)"
    by (rule run_inv_same) (use run_inv_ok [OF assms(1)] in \<open>auto simp: l1_def lease_ok_def\<close>)
  then have refused: "run_inv w r (after_write x l1)"
    using l1 by (simp add: after_write_def l1_def)
  define e where "e = t + (if x then 0 else LEASE_TTL_MS)"
  have "0 \<le> e" "e \<le> MAX_SAFE_INTEGER"
    using assms(2) by (auto simp: e_def in_range_def LEASE_TTL_MS_def START_GRACE_MS_def)
  from lease_value_parsed [OF run_inv_ok [OF assms(1)] this] have
    "parseRunLeaseFile (Some (lease_value l e)) r = Inr (lease_value l e)"
    using assms(1) by (simp add: run_inv_def)
  then have begun: "run_inv w r (l1\<lparr>writing := Some (lease_value l e, e, x)\<rparr>)"
    using l1 notlanded by (auto simp: run_inv_def lease_ok_def)
  show ?thesis
    using refused begun q
    by (auto simp: write_begin_def Let_def f_def l1_def e_def split: prod.split)
next
  case False
  then have "snd (write_begin t l) = l"
    by (cases "writing l"; cases "queue l") (auto simp: write_begin_def)
  then show ?thesis using assms(1) by simp
qed

text \<open>A harness has a live lease whenever its fence lets it write.\<close>

lemma passes_iff: "passes f t \<longleftrightarrow> \<not> closed f \<and> t < validUntil f - FENCE_MARGIN_MS"
  by (auto simp: passes_def fence_check_def Let_def)

lemma may_write_live:
  assumes "world_inv w" "- FENCE_MARGIN_MS \<le> clock_ahead w r" "may_write w r"
  shows "r = last_run w \<and> (\<exists>e. lease_expiry w r = Some e \<and> isLeaseLive e (api_clock w))"
proof -
  from assms(3) obtain l where l: "harness w r = Some l" "passes (the_fence l) (local_now w r)"
    "landed w r \<Longrightarrow> \<not> (case writing l of Some (_, _, x) \<Rightarrow> x | None \<Rightarrow> False)"
    by (auto simp: may_write_def split: option.splits)
  have inv: "run_inv w r l" by (rule world_inv_harness [OF assms(1) l(1)])
  have "\<exists>e. lease_expiry w r = Some e \<and> api_clock w < e"
  proof (cases "landed w r")
    case True
    then obtain c e x where wr: "writing l = Some (c, e, x)" using inv by (auto simp: run_inv_def)
    then show ?thesis using inv True l(3) by (auto simp: run_inv_def)
  next
    case False
    then obtain e where "lease_expiry w r = Some e" "validUntil (the_fence l) \<le> e"
      using inv l(2) by (auto simp: run_inv_def passes_iff)
    then show ?thesis using l(2) assms(2) by (auto simp: passes_iff local_now_def)
  qed
  moreover have "1 \<le> r" "r \<le> last_run w" using inv by (auto simp: run_inv_def)
  ultimately show ?thesis using assms(1) by (force simp: world_inv_def isLeaseLive_def)
qed

subsection \<open>Every step keeps the invariant\<close>

lemma tick_inv:
  assumes "world_inv w" "0 \<le> d" "tick_ok w (api_clock w + d)"
  shows "world_inv (w\<lparr>api_clock := api_clock w + d\<rparr>)"
proof -
  let ?w = "w\<lparr>api_clock := api_clock w + d\<rparr>"
  have expiry: "lease_expiry ?w = lease_expiry w" by (intro ext) (simp add: lease_expiry_def)
  have "run_inv ?w r l" if "harness w r = Some l" for r l
  proof -
    have inv: "run_inv w r l" by (rule world_inv_harness [OF assms(1) that])
    have "x \<or> api_clock w + d < e" if wr: "writing l = Some (c, e, x)" and "landed w r" for c e x
    proof -
      have "r \<in> set [1..last_run w]" using inv by (simp add: run_inv_def)
      then show ?thesis
        using assms(3) wr that(2) \<open>harness w r = Some l\<close> by (fastforce simp: tick_ok_def list_all_iff)
    qed
    then show ?thesis using inv by (auto simp: run_inv_def expiry)
  qed
  then show ?thesis using assms(1,2) by (fastforce simp: world_inv_def expiry)
qed

lemma start_inv:
  assumes "world_inv w" "admissible w ApiStart"
  shows "world_inv (act ApiStart w)"
proof -
  define n where "n = last_run w + 1"
  define w' where "w' = act ApiStart w"
  have n: "isRunNumber n" "in_range (api_clock w)" using assms(2) by (simp_all add: n_def)
  have w': "api_clock w' = api_clock w" "last_run w' = n" "harness w' = harness w" "landed w' = landed w"
    "run_records (dir w') = (run_records (dir w))(n \<mapsto> Some (record_value n (api_clock w)))"
    by (simp_all add: w'_def Let_def n_def)
  have "lease_expiry w' n = Some (api_clock w + START_GRACE_MS)"
    using starting_lease_parsed [OF n] by (simp add: w'_def Let_def lease_expiry_def read_lease_def n_def)
  moreover have other: "lease_expiry w' r = lease_expiry w r" if "r \<noteq> n" for r
    using that by (simp add: w'_def Let_def lease_expiry_def read_lease_def n_def)
  moreover have "e \<le> api_clock w" if "1 \<le> r" "r \<le> last_run w" "lease_expiry w r = Some e" for r e
  proof (cases "r = last_run w")
    case True
    then show ?thesis using assms(2) that by (auto simp: isLeaseLive_def)
  next
    case False
    then show ?thesis using assms(1) that by (fastforce simp: world_inv_def)
  qed
  moreover have "run_inv w' r l" if "harness w r = Some l" for r l
  proof -
    have inv: "run_inv w r l" by (rule world_inv_harness [OF assms(1) that])
    then have "r \<noteq> n" by (auto simp: run_inv_def n_def)
    then show ?thesis using inv other by (auto simp: run_inv_def w' n_def)
  qed
  ultimately have parts: "lease_expiry w' n = Some (api_clock w + START_GRACE_MS)" "\<And>r. r \<noteq> n \<Longrightarrow> lease_expiry w' r = lease_expiry w r"
    "\<And>r e. 1 \<le> r \<Longrightarrow> r \<le> last_run w \<Longrightarrow> lease_expiry w r = Some e \<Longrightarrow> e \<le> api_clock w"
    "\<And>r l. harness w r = Some l \<Longrightarrow> run_inv w' r l" by blast+
  have "\<exists>e. lease_expiry w' r = Some e \<and> (r < n \<longrightarrow> e \<le> api_clock w)" if r: "1 \<le> r" "r \<le> n" for r
  proof (cases "r = n")
    case False
    then have "r \<le> last_run w" using r(2) by (simp add: n_def)
    moreover from this obtain e where "lease_expiry w r = Some e" using assms(1) r(1) by (auto simp: world_inv_def)
    ultimately show ?thesis using parts(2) [OF False] parts(3) [OF r(1)] by simp
  qed (simp add: parts(1))
  moreover have "run_records (dir w') r \<noteq> None \<longleftrightarrow> 1 \<le> r \<and> r \<le> n" for r
    using assms(1) by (cases "r = n") (auto simp: world_inv_def w' n_def)
  ultimately show ?thesis
    using assms(1) n(1) parts(4) unfolding w'_def [symmetric] by (simp add: world_inv_def w' isRunNumber_def)
qed

lemma boot_inv:
  assumes "world_inv w" "admissible w (Boot r task)"
  shows "world_inv (act (Boot r task) w)"
proof (cases "checkRun (dir w) r (local_now w r)")
  case (Inr e)
  then have rec: "run_records (dir w) r \<noteq> None" and e: "lease_expiry w r = Some e"
    by (auto simp: checkRun_def lease_expiry_def split: option.splits sum.splits if_splits)
  define l where "l = start (new_lease r task (renewed e new_fence))"
  have r: "1 \<le> r" "r \<le> last_run w" "last_run w \<le> 999999999" using assms(1) rec by (auto simp: world_inv_def)
  have "\<not> landed w r" using assms by (simp add: world_inv_def)
  then have "run_inv w r l"
    using r e assms(2)
    by (simp add: l_def start_def lease_write_def new_lease_def renewed_def new_fence_def run_inv_def lease_ok_def isRunNumber_def)
  moreover have "run_inv (w\<lparr>harness := h\<rparr>) = run_inv w" for h
    by (intro ext) (simp add: run_inv_def lease_expiry_def)
  ultimately show ?thesis
    using assms(1) unfolding l_def by (auto simp: Inr world_inv_def lease_expiry_def)
qed (use assms in simp)

lemma land_inv:
  assumes "world_inv w" "admissible w (Land r)"
  shows "world_inv (act (Land r) w)"
proof (cases "landed w r \<or> Option.bind (harness w r) writing = None")
  case True
  then show ?thesis using assms(1) by (auto split: option.splits)
next
  case False
  then obtain l c e x where l: "harness w r = Some l" "writing l = Some (c, e, x)" "\<not> landed w r"
    by (cases "harness w r") auto
  have inv: "run_inv w r l" by (rule world_inv_harness [OF assms(1) l(1)])
  define w' where "w' = act (Land r) w"
  have w': "api_clock w' = api_clock w" "last_run w' = last_run w" "harness w' = harness w"
    "landed w' = (landed w)(r := True)" "run_records (dir w') = run_records (dir w)"
    using l by (simp_all add: w'_def)
  have new: "lease_expiry w' r = Some e"
    using l inv by (simp add: w'_def run_inv_def lease_expiry_def read_lease_def)
  have other: "lease_expiry w' s = lease_expiry w s" if "s \<noteq> r" for s
    using l that by (simp add: w'_def lease_expiry_def read_lease_def)
  obtain old where old: "lease_expiry w r = Some old" "api_clock w < old" and live: "x \<or> api_clock w < e"
    using assms(2) l by (auto simp: isLeaseLive_def split: option.splits)
  have "1 \<le> r" "r \<le> last_run w" using inv by (auto simp: run_inv_def)
  then have last: "r = last_run w" using assms(1) old by (force simp: world_inv_def)
  have "run_inv w' s m" if "harness w s = Some m" for s m
  proof (cases "s = r")
    case True
    then have "m = l" using that l(1) by simp
    then show ?thesis using True inv l new live by (simp add: run_inv_def w')
  next
    case False
    then show ?thesis using world_inv_harness [OF assms(1) that] other [OF False] by (simp add: run_inv_def w')
  qed
  moreover have "\<exists>e. lease_expiry w' s = Some e \<and> (s < last_run w \<longrightarrow> e \<le> api_clock w)" if "1 \<le> s" "s \<le> last_run w" for s
    using assms(1) that new other last by (cases "s = r") (auto simp: world_inv_def)
  ultimately show ?thesis
    using assms(1) l(1) unfolding w'_def [symmetric] by (auto simp: world_inv_def w')
qed

lemma end_inv:
  assumes "world_inv w" "admissible w (End r ok)"
  shows "world_inv (act (End r ok) w)"
proof (cases "harness w r")
  case None
  then show ?thesis using assms(1) by (auto simp: with_harness_def world_inv_def run_inv_def lease_expiry_def)
next
  case (Some l)
  define w' where "w' = act (End r ok) w"
  have inv: "run_inv w r l" by (rule world_inv_harness [OF assms(1) Some])
  have w': "api_clock w' = api_clock w" "last_run w' = last_run w" "harness w' = (harness w)(r \<mapsto> write_end ok l)"
    "landed w' = (landed w)(r := False)" "dir w' = dir w" "lease_expiry w' = lease_expiry w"
    by (simp_all add: w'_def with_harness_def Some lease_expiry_def fun_eq_iff)
  have "run_inv w' r (write_end ok l)"
  proof (cases "writing l")
    case None
    then show ?thesis using inv by (auto simp: write_end_def run_inv_def w')
  next
    case (Some wr)
    then obtain c e x where wr: "writing l = Some (c, e, x)" by (cases wr) auto
    have ok: "ok = landed w r" using assms(2) by simp
    have after: "lease_ok (write_end ok l)" "run (write_end ok l) = r" "writing (write_end ok l) = None"
      using inv by (auto simp: write_end_def wr after_write_def lease_ok_def run_inv_def)
    have "closed (the_fence (write_end ok l)) \<or> (\<exists>e. lease_expiry w r = Some e \<and> validUntil (the_fence (write_end ok l)) \<le> e)"
    proof (cases "ok \<and> \<not> x")
      case True
      then have "lease_expiry w r = Some e" using inv wr ok unfolding run_inv_def by blast
      then show ?thesis using True by (auto simp: write_end_def wr after_write_def renewed_def)
    next
      case False
      then show ?thesis using inv ok by (auto simp: write_end_def wr after_write_def fence_close_def run_inv_def)
    qed
    then show ?thesis using inv after by (simp add: run_inv_def w')
  qed
  moreover have "run_inv w' s m" if "harness w s = Some m" "s \<noteq> r" for s m
    using world_inv_harness [OF assms(1) that(1)] that(2) by (simp add: run_inv_def w')
  ultimately show ?thesis
    using assms(1) unfolding w'_def [symmetric] by (auto simp: world_inv_def w')
qed

lemma started_inv:
  assumes "run_inv w r l"
  shows "run_inv w r (started l)"
  by (rule run_inv_same [OF assms]) (use run_inv_ok [OF assms] in \<open>auto simp: started_def lease_ok_def\<close>)

lemma renew_end_inv:
  assumes "run_inv w r l"
  shows "run_inv w r (snd (renew_end newer l))"
  by (rule run_inv_same [OF assms])
    (use run_inv_ok [OF assms] in \<open>auto simp: renew_end_def stop_def lease_write_def lease_ok_def\<close>)

lemma act_inv:
  assumes "world_inv w" "admissible w a"
  shows "world_inv (act a w)"
proof (cases a)
  case (Tick d)
  then show ?thesis using tick_inv [OF assms(1)] assms(2) by simp
next
  case ApiStart
  then show ?thesis using start_inv [OF assms(1)] assms(2) by simp
next
  case (Boot r task)
  then show ?thesis using boot_inv [OF assms(1)] assms(2) by blast
next
  case (Land r)
  then show ?thesis using land_inv [OF assms(1)] assms(2) by blast
next
  case (End r ok)
  then show ?thesis using end_inv [OF assms(1)] assms(2) by blast
next
  case (Started r)
  show ?thesis unfolding Started act.simps
    by (rule with_harness_inv [OF assms(1)])
      (rule started_inv [OF world_inv_harness [OF assms(1)]])
next
  case (Release r)
  show ?thesis unfolding Release act.simps
    by (rule with_harness_inv [OF assms(1)]) (rule release_inv [OF world_inv_harness [OF assms(1)]])
next
  case (Begin r)
  show ?thesis unfolding Begin act.simps
    by (rule with_harness_inv [OF assms(1)])
      (rule write_begin_inv [OF world_inv_harness [OF assms(1)]], assumption, use assms(2) Begin in simp)
next
  case (CheckWrite r what)
  show ?thesis unfolding CheckWrite act.simps
    by (rule with_harness_inv [OF assms(1)])
      (rule run_inv_fence [OF world_inv_harness [OF assms(1)]], simp_all add: fence_check_same)
next
  case (RenewBegin r)
  have "run_inv (w\<lparr>renewing := h\<rparr>) = run_inv w" for h by (intro ext) (simp add: run_inv_def lease_expiry_def)
  then show ?thesis using assms(1) by (auto simp: RenewBegin world_inv_def lease_expiry_def split: option.split)
next
  case (RenewEnd r)
  let ?w = "w\<lparr>renewing := (renewing w)(r := False)\<rparr>"
  have "run_inv (w\<lparr>renewing := h\<rparr>) = run_inv w" for h by (intro ext) (simp add: run_inv_def lease_expiry_def)
  then have w: "world_inv ?w" using assms(1) by (auto simp: world_inv_def lease_expiry_def)
  have "world_inv (with_harness r (\<lambda>l. snd (renew_end (newerRunExists (dir w) r) l)) ?w)"
    by (rule with_harness_inv [OF w])
      (rule renew_end_inv [OF world_inv_harness [OF w]])
  then show ?thesis using assms(1) by (simp add: RenewEnd)
next
  case (SetState r st turn)
  show ?thesis unfolding SetState act.simps
  proof (rule with_harness_inv [OF assms(1)])
    fix l assume l: "harness w r = Some l"
    from run_inv_ok [OF world_inv_harness [OF assms(1) l]] assms(2) show "run_inv w r (set_state st turn l)"
      by (intro run_inv_same [OF world_inv_harness [OF assms(1) l]])
        (auto simp: set_state_def Let_def lease_write_def lease_ok_def SetState)
  qed
qed

lemma exec_inv: "world_inv w \<Longrightarrow> all_admissible as w \<Longrightarrow> world_inv (exec as w)"
  by (induction as arbitrary: w) (auto simp: act_inv)

lemma exec_ahead: "clock_ahead (exec as w) = clock_ahead w"
proof (induction as arbitrary: w)
  case (Cons a as)
  have "clock_ahead (act a w) = clock_ahead w"
    by (cases a) (auto simp: with_harness_def Let_def split: option.splits sum.splits)
  then show ?case using Cons by simp
qed simp

subsection \<open>Properties\<close>

text \<open>C15: at most one run writes: whatever the order of renewals, state changes, releases, failed and delayed
  writes of leases, as long as a lease is replaced while it is live and acknowledged before it runs out,
  and no harness's clock is more than the margin behind the API's, a harness whose fence lets it write is the last
  run, and its lease is live by the API's clock, so that no newer run can be started.\<close>

theorem one_writer:
  assumes "all_admissible as (new_world t ahead)" "\<And>r. - FENCE_MARGIN_MS \<le> ahead r"
    and "w = exec as (new_world t ahead)" "may_write w r"
  shows "r = last_run w \<and> (\<forall>s. may_write w s \<longrightarrow> s = r) \<and>
    (\<exists>e. lease_expiry w r = Some e \<and> isLeaseLive e (api_clock w)) \<and> \<not> admissible w ApiStart"
proof -
  have inv: "world_inv w" unfolding assms(3) by (rule exec_inv [OF new_world_inv assms(1)])
  have ahead: "- FENCE_MARGIN_MS \<le> clock_ahead w s" for s
    using assms(2) [of s] by (simp add: assms(3) exec_ahead new_world_def)
  from may_write_live [OF inv ahead assms(4)] obtain e
    where e: "r = last_run w" "lease_expiry w r = Some e" "isLeaseLive e (api_clock w)" by blast
  moreover have "s = r" if "may_write w s" for s
    using may_write_live [OF inv ahead that] e(1) by simp
  moreover have "last_run w \<noteq> 0"
  proof -
    obtain l where "harness w r = Some l" using assms(4) by (auto simp: may_write_def split: option.splits)
    from world_inv_harness [OF inv this] show ?thesis using e(1) by (simp add: run_inv_def)
  qed
  then have "\<not> admissible w ApiStart" using e by simp
  ultimately show ?thesis by blast
qed

text \<open>the lease a harness writes is read by the Sessions API, and by a harness that starts, as exactly what was
  written, with its expiry.\<close>

theorem lease_round_trip:
  assumes "lease_ok l" "0 \<le> e" "e \<le> MAX_SAFE_INTEGER" "run_leases d (run l) = Some (Some (lease_value l e))"
  shows "read_lease d (run l) = Some (lease_value l e) \<and> expiry_of (lease_value l e) = Some e \<and>
    js_prop (lease_value l e) ''state'' = JStr (state_text (lease_state l))"
proof -
  have "js_prop (lease_value l e) ''state'' = JStr (state_text (lease_state l))"
    by (cases "lease_turn l") (auto simp: lease_value_def)
  then show ?thesis using lease_value_parsed [OF assms(1-3)] assms(4) by (simp add: read_lease_def)
qed

text \<open>a run that was released never writes again: its fence is closed whatever became of the expired lease, and
  no lease that arrives late opens it.\<close>

theorem released_for_good:
  assumes "writing l = Some (c, e, True)"
  shows "\<not> passes (renewed x (the_fence (write_end ok l))) now \<and>
    (\<not> held m \<longrightarrow> \<not> passes (renewed x (the_fence (release m))) now)"
  using assms fence.shut_for_good(2)
  by (auto simp: write_end_def after_write_def release_def Let_def stop_def)

subsection \<open>A late write\<close>

text \<open>
  Without the timeliness of \<open>admissible\<close>, two runs may write. Run 1 renews its lease at 70 s; the write takes until
  the lease of the first renewal, of 0 s, is dead, and run 2 is started meanwhile. When the write is done, the fence of run
  1 opens again for the rest of its 90 s.
\<close>

definition late_write :: "action list" where
  "late_write =
     [ApiStart, Boot 1 ''t1'', Begin 1, Land 1, End 1 True, Started 1,
      Tick 70000, RenewBegin 1, RenewEnd 1, Begin 1,
      Tick 25000, ApiStart, Boot 2 ''t2'', Begin 2, Land 2, End 2 True,
      Land 1, End 1 True]"

text \<open>Evaluation: what is read back is known from above.\<close>

lemma record_parsed: "isRunNumber n \<Longrightarrow> in_range t \<Longrightarrow> parseRunRecordFile (Some (record_value n t)) n = Inr (record_value n t)"
  by (auto simp: parseRunRecordFile_def parse_with_def parseJsonText_def runRecordFile_def obj_def Let_def record_value_def
      runNumber_def int_check_def isRunNumber_def epochMs_def in_range_def MAX_SAFE_INTEGER_def START_GRACE_MS_def)

lemma lease_value_read:
  "run l = n \<Longrightarrow> lease_ok l \<Longrightarrow> 0 \<le> e \<Longrightarrow> e \<le> MAX_SAFE_INTEGER \<Longrightarrow>
     parseRunLeaseFile (Some (lease_value l e)) n = Inr (lease_value l e)"
  using lease_value_parsed by blast

lemma rl_tasks: "task_ok ''t1''" "task_ok ''t2''"
  by code_simp+

lemmas rl_eval = Let_def with_harness_def checkRun_def read_lease_def record_parsed starting_lease_parsed lease_value_read
  newerRunExists_def start_def started_def new_lease_def lease_write_def renewed_def new_fence_def write_begin_def
  fence_check_def write_end_def after_write_def renew_begin_def renew_end_def local_now_def new_world_def
  lease_ok_def isRunNumber_def rl_tasks in_range_def FENCE_MARGIN_MS_def LEASE_TTL_MS_def START_GRACE_MS_def
  MAX_SAFE_INTEGER_def tick_ok_def lease_expiry_def isLeaseLive_def may_write_def passes_def

lemma late_write_two_writers:
  "may_write (exec late_write (new_world 1000 (\<lambda>_. 0))) 1 \<and> may_write (exec late_write (new_world 1000 (\<lambda>_. 0))) 2"
  by (simp add: late_write_def rl_eval)

subsection \<open>Witnesses\<close>

definition rl_actions :: "action list" where
  "rl_actions = [ApiStart, Boot 1 ''t1'', Begin 1, Land 1, End 1 True, Started 1, Tick 30000, CheckWrite 1 ''events'']"

theorem one_writer_witness:
  "\<exists>e. lease_expiry (exec rl_actions (new_world 1000 (\<lambda>_. 0))) 1 = Some e \<and> isLeaseLive e 31000"
proof -
  have "all_admissible rl_actions (new_world 1000 (\<lambda>_. 0))" "may_write (exec rl_actions (new_world 1000 (\<lambda>_. 0))) 1"
    "api_clock (exec rl_actions (new_world 1000 (\<lambda>_. 0))) = 31000" by (simp_all add: rl_actions_def rl_eval)
  with one_writer [of rl_actions 1000 "\<lambda>_. 0" _ 1] show ?thesis by (simp add: FENCE_MARGIN_MS_def)
qed

definition rl_lease :: run_lease where
  "rl_lease = new_lease 7 ''t7'' new_fence"

theorem lease_round_trip_witness:
  "read_lease \<lparr>run_records = (\<lambda>_. None), run_leases = (\<lambda>_. Some (Some (lease_value rl_lease 90000)))\<rparr> 7 =
     Some (lease_value rl_lease 90000)"
proof -
  have ok: "lease_ok rl_lease" by code_simp
  have "run rl_lease = 7" by (simp add: rl_lease_def new_lease_def)
  with lease_round_trip [OF ok, of 90000 "\<lparr>run_records = (\<lambda>_. None), run_leases = (\<lambda>_. Some (Some (lease_value rl_lease 90000)))\<rparr>"]
  show ?thesis by (simp add: MAX_SAFE_INTEGER_def)
qed

theorem released_for_good_witness:
  "\<not> passes (the_fence (write_end False (rl_lease\<lparr>writing := Some (JNull, 5, True), the_fence := renewed 1000000 new_fence\<rparr>))) 0"
proof -
  let ?l = "rl_lease\<lparr>writing := Some (JNull, 5, True), the_fence := renewed 1000000 new_fence\<rparr>"
  have "renewed 0 (the_fence (write_end False ?l)) = the_fence (write_end False ?l)"
    by (simp add: write_end_def after_write_def renewed_def fence_close_def)
  with released_for_good [of ?l JNull 5 0 False 0] show ?thesis by simp
qed

end
