(* ===== verification/Commands.thy ===== *)
theory Commands
  imports SessionFiles
begin

text \<open>
  The commands a client sends to a cloud session and the Sessions API stores:
  \<^verbatim>\<open>ts-shared/legalese-agent/src/protocol/commands.ts\<close>, with the sealed strings of \<^verbatim>\<open>sealed.ts\<close> that
  one of them carries. The cryptography behind a sealed string is not modelled, only its form.
\<close>

subsection \<open>Sealed strings\<close>

definition b64url :: "char \<Rightarrow> bool" where
  "b64url c \<longleftrightarrow> alnum c \<or> c \<in> set ''_-''"

definition B64URL_RE :: "string \<Rightarrow> bool" where
  "B64URL_RE s \<longleftrightarrow> s \<noteq> [] \<and> list_all b64url s"

definition SEALED_ALG :: string where
  "SEALED_ALG = ''X25519-HKDF-SHA256-A256GCM''"

record sealed_envelope =
  epk :: string
  iv :: string
  ct :: string
  tag :: string

definition envelope_value :: "sealed_envelope \<Rightarrow> jsval" where
  "envelope_value e = JObj
     [(''v'', JNum 1), (''alg'', JStr SEALED_ALG), (''epk'', JStr (epk e)), (''iv'', JStr (iv e)),
      (''ct'', JStr (ct e)), (''tag'', JStr (tag e))]"

definition sealedEnvelope :: check where
  "sealedEnvelope = obj
     [(''v'', Required (literal_check [JNum 1])),
      (''alg'', Required (literals [SEALED_ALG])),
      (''epk'', Required (str_check \<lparr>s_min = 43, s_max = 43, s_pattern = Some B64URL_RE\<rparr>)),
      (''iv'', Required (str_check \<lparr>s_min = 16, s_max = 16, s_pattern = Some B64URL_RE\<rparr>)),
      (''ct'', Required (str_check \<lparr>s_min = 0, s_max = 1000000, s_pattern = Some (list_all b64url)\<rparr>)),
      (''tag'', Required (str_check \<lparr>s_min = 22, s_max = 22, s_pattern = Some B64URL_RE\<rparr>))]"

definition SEALED_STRING_RE :: "string \<Rightarrow> bool" where
  "SEALED_STRING_RE s =
     (case split_on (CHR ''.'') s of
        [v, e, i, c, t] \<Rightarrow> v = ''v1'' \<and> length e = 43 \<and> length i = 16 \<and> length t = 22 \<and>
          list_all b64url (e @ i @ c @ t)
      | _ \<Rightarrow> False)"

definition SEALED_STRING_MAX :: nat where
  "SEALED_STRING_MAX = 1000100"

definition encodeSealed :: "sealed_envelope \<Rightarrow> protocol_error + string" where
  "encodeSealed env =
     (case sealedEnvelope (envelope_value env) ''sealed'' of
        Inl err \<Rightarrow> Inl err
      | Inr _ \<Rightarrow> Inr (''v1.'' @ epk env @ ''.'' @ iv env @ ''.'' @ ct env @ ''.'' @ tag env))"

definition decodeSealed :: "string \<Rightarrow> protocol_error + sealed_envelope" where
  "decodeSealed t =
     (if SEALED_STRING_MAX < length t \<or> \<not> SEALED_STRING_RE t then fail ''sealed'' ''not a sealed string''
      else (let ps = split_on (CHR ''.'') t
            in Inr \<lparr>epk = ps ! 1, iv = ps ! 2, ct = ps ! 3, tag = ps ! 4\<rparr>))"

definition sealedString :: check where
  "sealedString v path =
     (case v of
        JStr s \<Rightarrow>
          if SEALED_STRING_MAX < length s \<or> \<not> SEALED_STRING_RE s then fail path ''expected a sealed string'' else Inr v
      | _ \<Rightarrow> fail path ''expected a sealed string'')"

subsection \<open>The payload of each command\<close>

definition MAX_BATCH_FILES :: nat where
  "MAX_BATCH_FILES = 500"

definition repoPath :: check where
  "repoPath v path =
     (case v of
        JStr s \<Rightarrow> (case repoRelativePath s of Inl _ \<Rightarrow> fail path ''invalid repo-relative path'' | Inr p \<Rightarrow> Inr (JStr p))
      | _ \<Rightarrow> fail path ''expected a path'')"

definition repoDataPath :: check where
  "repoDataPath v path = (if \<not> isRepoDataPath v then fail path ''expected a path under data/'' else Inr v)"

definition bundleName :: check where
  "bundleName v path = (if \<not> isIncomingBundleName v then fail path ''expected <ulid>.bundle'' else Inr v)"

definition PROMPT_MAX :: nat where
  "PROMPT_MAX = 200000"

definition prompt_text :: check where
  "prompt_text = str_check \<lparr>s_min = 0, s_max = PROMPT_MAX, s_pattern = None\<rparr>"

definition message_shape :: shape where
  "message_shape =
     [(''type'', Required (literals [''message''])),
      (''turnId'', Required opaqueId),
      (''text'', Required prompt_text),
      (''attachments'', Optional (arr (pattern_str FILE_NAME_RE) 50)),
      (''context'', Optional (obj
         [(''activeFile'', Optional repoPath),
          (''mentions'', Optional (arr repoPath 200))]))]"

definition inject_shape :: shape where
  "inject_shape =
     [(''type'', Required (literals [''inject''])),
      (''turnId'', Required opaqueId),
      (''injectionId'', Optional opaqueId),
      (''text'', Required prompt_text)]"

definition add_files_shape :: shape where
  "add_files_shape =
     [(''type'', Required (literals [''add-files''])),
      (''batchId'', Required (pattern_str ULID_RE)),
      (''files'', Required (arr (obj [(''path'', Required repoDataPath)]) MAX_BATCH_FILES))]"

definition command_shapes :: "(string \<times> shape) list" where
  "command_shapes =
     [(''message'', message_shape),
      (''inject'', inject_shape),
      (''abort'', [(''type'', Required (literals [''abort''])), (''turnId'', Required opaqueId)]),
      (''answer'', [(''type'', Required (literals [''answer''])), (''callId'', Required opaqueId),
         (''answer'', Required prompt_text)]),
      (''rollback'', [(''type'', Required (literals [''rollback''])), (''turnId'', Required opaqueId)]),
      (''mcp-credentials'', [(''type'', Required (literals [''mcp-credentials''])), (''sealed'', Required sealedString)]),
      (''stop'', [(''type'', Required (literals [''stop'']))]),
      (''apply-bundle'', [(''type'', Required (literals [''apply-bundle''])), (''file'', Required bundleName)]),
      (''add-files'', add_files_shape)]"

definition variants_of :: "(string \<times> shape) list \<Rightarrow> (string \<times> check) list" where
  "variants_of shapes = map (\<lambda>x. (fst x, obj (snd x))) shapes"

definition COMMAND_TYPES :: "string list" where
  "COMMAND_TYPES = map fst command_shapes"

definition INTERNAL_COMMAND_TYPES :: "string list" where
  "INTERNAL_COMMAND_TYPES = [''apply-bundle'', ''add-files'']"

definition commandPayload :: check where
  "commandPayload = union_check ''type'' (variants_of command_shapes)"

definition clientCommand :: check where
  "clientCommand v path =
     (case commandPayload v path of
        Inl e \<Rightarrow> Inl e
      | Inr c \<Rightarrow>
          (case js_prop c ''type'' of
             JStr t \<Rightarrow> if t = ''apply-bundle'' \<or> t = ''add-files'' then fail path (t @ '' is not a client command'') else Inr c
           | _ \<Rightarrow> Inr c))"

definition commandEnvelope_shape :: shape where
  "commandEnvelope_shape = [(''id'', Required (int_check 1 MAX_SAFE_INTEGER)), (''ts'', Required epochMs)]"

definition cloudCommand :: check where
  "cloudCommand = both (obj commandEnvelope_shape) commandPayload"

definition parseCloudCommand :: "jsval \<Rightarrow> protocol_error + jsval" where
  "parseCloudCommand v = cloudCommand v ''command''"

definition mcpCredentials :: check where
  "mcpCredentials = obj
     [(''servers'', Required (arr (obj
        [(''name'', Required (pattern_str MCP_SERVER_NAME_RE)),
         (''headers'', Required (stringMap 16 (str_check \<lparr>s_min = 1, s_max = 256, s_pattern = None\<rparr>)
            (str_check \<lparr>s_min = 0, s_max = 16384, s_pattern = None\<rparr>))),
         (''expiresAt'', Optional epochMs)]) 32))]"

subsection \<open>The laws of the checks\<close>

named_theorems check_intros \<open>which law a check obeys\<close>

lemma pattern_law: "scalar_law (pattern_str p)"
  unfolding pattern_str_def by (rule str_law)

lemma opaqueId_law: "scalar_law opaqueId"
  unfolding opaqueId_def by (rule pattern_law)

interpretation opaque_id: scalar_law opaqueId
  by (rule opaqueId_law)

lemma epochMs_law: "scalar_law epochMs"
  unfolding epochMs_def by (rule int_law)

lemma prompt_law: "scalar_law prompt_text"
  unfolding prompt_text_def by (rule str_law)

lemma repoPath_law: "scalar_law repoPath"
  by unfold_locales (auto simp: repoPath_def repoRelativePath_def split: jsval.splits sum.splits if_splits)

lemma repoDataPath_law: "scalar_law repoDataPath"
  by unfold_locales (auto simp: repoDataPath_def isRepoDataPath_def split: if_splits)

lemma bundleName_law: "scalar_law bundleName"
  by unfold_locales (auto simp: bundleName_def isIncomingBundleName_def split: if_splits)

lemma sealedString_law: "scalar_law sealedString"
  by unfold_locales (auto simp: sealedString_def split: jsval.splits if_splits)

lemmas scalar_laws = str_law int_law literals_law pattern_law opaqueId_law epochMs_law prompt_law repoPath_law
  repoDataPath_law bundleName_law sealedString_law

lemmas [check_intros] = scalar_laws [THEN scalar_field] scalar_laws [THEN scalar_field, THEN field_check]

lemma arr_fields [check_intros]: "check_law item \<Longrightarrow> field_law (arr item n)" "check_law item \<Longrightarrow> check_law (arr item n)"
  using arr_law field_check by blast+

lemma obj_fields [check_intros]: "shape_ok sh \<Longrightarrow> field_law (obj sh)" "shape_ok sh \<Longrightarrow> check_law (obj sh)"
  using obj_law object_field field_check by blast+

lemma shape_ok_step [check_intros]:
  "k \<notin> fst ` set sh \<Longrightarrow> check_law c \<Longrightarrow> shape_ok sh \<Longrightarrow> shape_ok ((k, Required c) # sh)"
  "k \<notin> fst ` set sh \<Longrightarrow> field_law c \<Longrightarrow> shape_ok sh \<Longrightarrow> shape_ok ((k, Optional c) # sh)"
  by (simp_all add: shape_ok_Cons field_ok_def)

lemma shape_ok_nil [check_intros]: "shape_ok []"
  by simp

interpretation path_list: field_law "arr repoPath n" for n
  by (intro check_intros)

lemma command_shapes_ok: "(name, sh) \<in> set command_shapes \<Longrightarrow> shape_ok sh \<and> map_of sh ''type'' = Some (Required (literals [name]))"
  unfolding command_shapes_def message_shape_def inject_shape_def add_files_shape_def
  by (auto intro!: check_intros)

subsection \<open>Unions of shapes\<close>

definition shape_keys :: "(string \<times> shape) list \<Rightarrow> string set" where
  "shape_keys shapes = (\<Union>x\<in>set shapes. fst ` set (snd x))"

text \<open>Each variant names its type, as a union on the tag \<^verbatim>\<open>type\<close> needs.\<close>

definition typed_shapes :: "(string \<times> shape) list \<Rightarrow> bool" where
  "typed_shapes shapes \<longleftrightarrow> shapes \<noteq> [] \<and>
     (\<forall>x\<in>set shapes. shape_ok (snd x) \<and> map_of (snd x) ''type'' = Some (Required (literals [fst x])))"

lemma typed_variant:
  assumes "typed_shapes shapes" "(name, c) \<in> set (variants_of shapes)"
  shows "object_law c (shape_keys shapes) \<and> tagged ''type'' name c"
proof -
  from assms(2) obtain sh where sh: "(name, sh) \<in> set shapes" "c = obj sh" by (auto simp: variants_of_def)
  then have ok: "shape_ok sh" "map_of sh ''type'' = Some (Required (literals [name]))"
    using assms(1) by (auto simp: typed_shapes_def)
  have "fst ` set sh \<subseteq> shape_keys shapes" using sh(1) unfolding shape_keys_def by force
  then show ?thesis unfolding sh(2) using object_law_mono [OF obj_law [OF ok(1)]] tagged_obj [OF ok] by blast
qed

lemma typed_union_law:
  assumes "typed_shapes shapes"
  shows "object_law (union_check ''type'' (variants_of shapes)) (shape_keys shapes)"
proof (rule union_law)
  obtain name sh where "(name, sh) \<in> set shapes" using assms by (cases shapes) (auto simp: typed_shapes_def)
  then show "''type'' \<in> shape_keys shapes"
    using assms unfolding shape_keys_def typed_shapes_def by (fastforce dest!: map_of_SomeD intro!: rev_image_eqI)
qed (rule typed_variant [OF assms])

lemma map_of_variants: "map_of (variants_of shapes) name = map_option obj (map_of shapes name)"
  by (induction shapes) (auto simp: variants_of_def)

lemma union_check_iff:
  "union_check k (variants_of shapes) v p = Inr w \<longleftrightarrow>
     (\<exists>fs name sh. v = JObj fs \<and> map_of fs k = Some (JStr name) \<and> map_of shapes name = Some sh \<and> obj sh v p = Inr w)"
  by (cases v) (auto simp: union_check_def Let_def fail_def map_of_variants split: option.splits jsval.splits)

text \<open>The type of a clean value is the name of the variant that checked it.\<close>

lemma union_variant:
  assumes "typed_shapes shapes" "union_check ''type'' (variants_of shapes) v p = Inr w"
  shows "\<exists>name sh. map_of shapes name = Some sh \<and> obj sh v p = Inr w \<and> js_prop w ''type'' = JStr name"
proof -
  from assms(2) obtain name sh where sh: "map_of shapes name = Some sh" "obj sh v p = Inr w"
    unfolding union_check_iff by blast
  from map_of_SomeD [OF sh(1)] have "shape_ok sh" "map_of sh ''type'' = Some (Required (literals [name]))"
    using assms(1) by (force simp: typed_shapes_def)+
  then have "tagged ''type'' name (obj sh)" by (rule tagged_obj)
  moreover obtain out where "w = JObj out" using obj_clean [OF sh(2)] by blast
  ultimately have "js_prop w ''type'' = JStr name" using sh(2) by (simp add: tagged_def)
  then show ?thesis using sh by blast
qed

lemma command_shapes_typed: "typed_shapes command_shapes"
  using command_shapes_ok by (fastforce simp: typed_shapes_def command_shapes_def)

lemma envelope_law: "object_law (obj commandEnvelope_shape) {''id'', ''ts''}"
proof -
  have "shape_ok commandEnvelope_shape" unfolding commandEnvelope_shape_def by (intro check_intros) auto
  from obj_law [OF this] show ?thesis by (simp add: commandEnvelope_shape_def)
qed

definition command_keys :: "string set" where
  "command_keys = {''id'', ''ts''} \<union> shape_keys command_shapes"

lemma commandPayload_law: "object_law commandPayload (shape_keys command_shapes)"
  unfolding commandPayload_def by (rule typed_union_law [OF command_shapes_typed])

lemma shape_keys_command: "{''id'', ''ts''} \<inter> shape_keys command_shapes = {}"
  by (simp add: shape_keys_def command_shapes_def message_shape_def inject_shape_def add_files_shape_def)

lemma cloudCommand_law: "object_law cloudCommand command_keys"
  unfolding cloudCommand_def command_keys_def
  by (rule both_law [OF envelope_law commandPayload_law shape_keys_command])

interpretation command: object_law cloudCommand command_keys
  by (rule cloudCommand_law)

interpretation payload: object_law commandPayload "shape_keys command_shapes"
  by (rule commandPayload_law)

text \<open>What an accepted \<^verbatim>\<open>add-files\<close> payload holds.\<close>

lemma check_items_all:
  "check_items item p i xs = Inr ys \<Longrightarrow> (\<And>x q y. item x q = Inr y \<Longrightarrow> P y) \<Longrightarrow> list_all P ys"
proof (induction xs arbitrary: i ys)
  case (Cons x xs)
  from Cons.prems(1) obtain y zs where "item x (p @ ''['' @ show_nat i @ '']'') = Inr y"
    "check_items item p (i + 1) xs = Inr zs" "ys = y # zs"
    by (auto split: sum.splits)
  then show ?case using Cons.IH [of "i + 1" zs] Cons.prems(2) by auto
qed simp

lemma isRepoDataPath_JStr: "isRepoDataPath v \<Longrightarrow> \<exists>s. v = JStr s"
  by (cases v) (auto simp: isRepoDataPath_def)

lemma check_items_length: "check_items item p i xs = Inr ys \<Longrightarrow> length ys = length xs"
  by (induction xs arbitrary: i ys) (auto split: sum.splits)

lemma add_files_parts:
  assumes "obj add_files_shape v p = Inr (JObj y)"
  shows "\<exists>batch fs. map_of y ''batchId'' = Some (JStr batch) \<and> map_of y ''files'' = Some (JArray fs) \<and> ULID_RE batch \<and>
    length fs \<le> MAX_BATCH_FILES \<and>
    list_all (\<lambda>f. \<exists>path. f = JObj [(''path'', JStr path)] \<and> isRepoDataPath (JStr path)) fs"
proof -
  define item where "item = obj [(''path'', Required repoDataPath)]"
  have path: "\<exists>s. w = JStr s \<and> isRepoDataPath (JStr s)" if "repoDataPath x q = Inr w" for x q w
    using that isRepoDataPath_JStr by (auto simp: repoDataPath_def fail_def split: if_splits)
  have one: "\<exists>path. f = JObj [(''path'', JStr path)] \<and> isRepoDataPath (JStr path)" if "item x q = Inr f" for x q f
    using that path by (fastforce simp: item_def obj_def Let_def split: jsval.splits sum.splits)
  from assms obtain b fs q q' x x' where fields: "pattern_str ULID_RE x q = Inr b" "arr item MAX_BATCH_FILES x' q' = Inr fs"
    "map_of y ''batchId'' = Some b" "map_of y ''files'' = Some fs"
    by (auto simp: obj_def add_files_shape_def item_def Let_def split: jsval.splits sum.splits)
  obtain batch where "b = JStr batch" "ULID_RE batch"
    using fields(1) by (auto simp: pattern_str_def str_check_def split: jsval.splits if_splits)
  moreover obtain xs ys where "length xs \<le> MAX_BATCH_FILES" "check_items item q' 0 xs = Inr ys" "fs = JArray ys"
    using fields(2) that by (cases x') (auto simp: arr_def fail_def not_less split: if_splits sum.splits)
  moreover from this have "length ys = length xs"
    using check_items_length by blast
  moreover have "list_all (\<lambda>f. \<exists>path. f = JObj [(''path'', JStr path)] \<and> isRepoDataPath (JStr path)) ys"
    by (rule check_items_all [OF \<open>check_items item q' 0 xs = Inr ys\<close>]) (rule one)
  ultimately show ?thesis using fields(3,4) by auto
qed

text \<open>A well formed envelope.\<close>

definition sealed_parts :: "sealed_envelope \<Rightarrow> bool" where
  "sealed_parts e \<longleftrightarrow> length (epk e) = 43 \<and> length (iv e) = 16 \<and> length (tag e) = 22 \<and> length (ct e) \<le> 1000000 \<and>
     list_all b64url (epk e) \<and> list_all b64url (iv e) \<and> list_all b64url (ct e) \<and> list_all b64url (tag e)"

lemma sealed_accepted:
  assumes "sealed_parts env"
  shows "sealedEnvelope (envelope_value env) r = Inr (envelope_value env)"
  using assms by (auto simp: sealed_parts_def sealedEnvelope_def envelope_value_def obj_def Let_def literals_def
      literal_check_def str_check_def B64URL_RE_def)

subsection \<open>Properties\<close>

text \<open>C13: a command the Sessions API accepted from a client and stored with its number and time is read by the
  harness as exactly that, and it is never one of the internal commands; unknown fields change nothing.\<close>

theorem stored_command:
  assumes "clientCommand v p = Inr (JObj body)" "1 \<le> n" "n \<le> MAX_SAFE_INTEGER" "0 \<le> t" "t \<le> MAX_SAFE_INTEGER"
    and "fst ` set extra \<inter> command_keys = {}"
  shows "parseCloudCommand (JObj (extra @ (''id'', JNum n) # (''ts'', JNum t) # body)) =
      Inr (JObj ((''id'', JNum n) # (''ts'', JNum t) # body)) \<and>
    (\<exists>ty. map_of body ''type'' = Some (JStr ty) \<and> ty \<in> set COMMAND_TYPES \<and> ty \<notin> set INTERNAL_COMMAND_TYPES)"
proof -
  let ?env = "[(''id'', JNum n), (''ts'', JNum t)]"
  have pay: "commandPayload v p = Inr (JObj body)"
    using assms(1) by (auto simp: clientCommand_def fail_def split: sum.splits jsval.splits if_splits)
  from payload.clean [OF pay] have b: "distinct (map fst body)" "fst ` set body \<subseteq> shape_keys command_shapes" by auto
  have keys: "{''id'', ''ts''} \<inter> fst ` set body = {}" using b(2) shape_keys_command by blast
  have env: "obj commandEnvelope_shape (JObj ?env) q = Inr (JObj ?env)" for q
    using assms(2-5) by (simp add: obj_def commandEnvelope_shape_def int_check_def epochMs_def Let_def)
  have "obj commandEnvelope_shape (JObj (?env @ body)) q = Inr (JObj ?env)" for q
    by (rule object_law.stable [OF envelope_law env]) auto
  moreover have "commandPayload (JObj (?env @ body)) q = Inr (JObj body)" for q
    by (rule payload.stable [OF pay]) (use shape_keys_command in auto)
  moreover have "spread ?env body = ?env @ body"
    using b(1) keys by (intro spread_disjoint) auto
  ultimately have "cloudCommand (JObj (?env @ body)) q = Inr (JObj (?env @ body))" for q
    by (simp add: cloudCommand_def both_def own_fields_def)
  from command.unknown_ignored [OF this assms(6)]
  have stored: "parseCloudCommand (JObj (extra @ ?env @ body)) = Inr (JObj (?env @ body))"
    by (simp add: parseCloudCommand_def)
  from union_variant [OF command_shapes_typed pay [unfolded commandPayload_def]] obtain ty sh
    where ty: "map_of command_shapes ty = Some sh" "js_prop (JObj body) ''type'' = JStr ty" by blast
  have "ty \<notin> set INTERNAL_COMMAND_TYPES"
    using assms(1) ty(2) pay by (auto simp: clientCommand_def INTERNAL_COMMAND_TYPES_def)
  moreover have "ty \<in> set COMMAND_TYPES"
    using map_of_SomeD [OF ty(1)] by (force simp: COMMAND_TYPES_def)
  ultimately show ?thesis using stored ty(2) by (auto split: option.splits)
qed

text \<open>an accepted \<^verbatim>\<open>add-files\<close> command can be carried out and touches nothing else: every file of it
  has a source below its batch's folder in the session, and a target that the model may write, in
  \<open>data/\<close>.\<close>

theorem add_files_inside:
  assumes "parseCloudCommand v = Inr w" "js_prop w ''type'' = JStr ''add-files''" "sessionPaths sid = Inr sp"
  shows "\<exists>batch fs. js_prop w ''batchId'' = JStr batch \<and> js_prop w ''files'' = JArray fs \<and> length fs \<le> MAX_BATCH_FILES \<and>
    list_all (\<lambda>f. \<exists>path. f = JObj [(''path'', JStr path)] \<and>
      sp_incomingFile sp batch path = Inr (sp_incomingFiles sp @ ''/'' @ batch @ ''/'' @ path) \<and>
      isRepoDataPath (JStr path)) fs"
proof -
  from both_objects [OF envelope_law commandPayload_law shape_keys_command
      assms(1) [unfolded parseCloudCommand_def cloudCommand_def]]
  obtain x y where pay: "commandPayload v ''command'' = Inr (JObj y)" and w: "w = JObj (x @ y)"
    and keys: "fst ` set x \<subseteq> {''id'', ''ts''}" by blast
  have skip: "map_of (x @ y) k = map_of y k" if "k \<notin> {''id'', ''ts''}" for k
  proof -
    have "k \<notin> fst ` set x" using keys that by blast
    then have "map_of x k = None" by (simp only: map_of_eq_None_iff not_False_eq_True)
    then show ?thesis by (simp add: map_add_def split: option.split)
  qed
  from union_variant [OF command_shapes_typed pay [unfolded commandPayload_def]] obtain ty sh
    where ty: "map_of command_shapes ty = Some sh" "obj sh v ''command'' = Inr (JObj y)" "js_prop (JObj y) ''type'' = JStr ty"
    by blast
  have "ty = ''add-files''" using assms(2) ty(3) skip [of "''type''"] unfolding w by simp
  then have "obj add_files_shape v ''command'' = Inr (JObj y)" using ty(1,2) by (simp add: command_shapes_def)
  from add_files_parts [OF this] obtain batch fs where y: "map_of y ''batchId'' = Some (JStr batch)"
    "map_of y ''files'' = Some (JArray fs)" "ULID_RE batch" "length fs \<le> MAX_BATCH_FILES"
    "list_all (\<lambda>f. \<exists>path. f = JObj [(''path'', JStr path)] \<and> isRepoDataPath (JStr path)) fs"
    by blast
  have valid: "\<not> \<not> ULID_RE sid"
  proof
    assume "\<not> ULID_RE sid"
    then have "sessionPaths sid = Inl ''invalid session id''" unfolding sessionPaths_def by (rule if_P)
    then show False using assms(3) by simp
  qed
  have paths: "sp_incomingFile sp batch path = Inr (sp_incomingFiles sp @ ''/'' @ batch @ ''/'' @ path)"
    if "isRepoDataPath (JStr path)" for path
    unfolding Inr_inject [OF assms(3) [unfolded sessionPaths_def Let_def if_not_P [OF valid]], symmetric]
      session_paths.select_convs
    using that y(3) by simp
  have "js_prop w ''batchId'' = JStr batch" "js_prop w ''files'' = JArray fs"
    unfolding w js_prop.simps using y(1,2) skip [of "''batchId''"] skip [of "''files''"] by simp_all
  moreover have "list_all (\<lambda>f. \<exists>path. f = JObj [(''path'', JStr path)] \<and>
      sp_incomingFile sp batch path = Inr (sp_incomingFiles sp @ ''/'' @ batch @ ''/'' @ path) \<and>
      isRepoDataPath (JStr path)) fs"
    by (rule list.pred_mono_strong [OF y(5)]) (use paths in blast)
  ultimately show ?thesis using y(4) by blast
qed

text \<open>what the extension seals survives the compact form it travels in: the text of an encoded envelope
  decodes to the same envelope and passes the check of the command that carries it.\<close>

theorem sealed_round_trip:
  assumes "encodeSealed env = Inr s"
  shows "decodeSealed s = Inr env \<and> sealedString (JStr s) p = Inr (JStr s) \<and>
    sealedEnvelope (envelope_value env) q = Inr (envelope_value env)"
proof -
  have parts: "sealed_parts env"
    using assms
    by (auto simp: encodeSealed_def sealed_parts_def sealedEnvelope_def envelope_value_def obj_def Let_def literals_def
        literal_check_def str_check_def B64URL_RE_def fail_def split: if_splits)
  have s: "s = ''v1'' @ ''.'' @ epk env @ ''.'' @ iv env @ ''.'' @ ct env @ ''.'' @ tag env"
    using assms by (simp add: encodeSealed_def split: sum.splits)
  have "CHR ''.'' \<notin> set x" if "list_all b64url x" for x
    using that by (auto simp: list_all_iff b64url_def alnum_def is_digit_def is_upper_def is_lower_def code_def)
  then have split: "split_on (CHR ''.'') s = [''v1'', epk env, iv env, ct env, tag env]"
    using parts unfolding s by (simp add: sealed_parts_def split_on_append split_on_none)
  have "length s \<le> SEALED_STRING_MAX" using parts by (simp add: s sealed_parts_def SEALED_STRING_MAX_def)
  moreover have "SEALED_STRING_RE s"
    using parts by (simp add: SEALED_STRING_RE_def split sealed_parts_def)
  ultimately show ?thesis
    using sealed_accepted [OF parts, of q] by (simp add: decodeSealed_def sealedString_def split Let_def not_less)
qed

subsection \<open>Witnesses\<close>

theorem stored_command_witness:
  "parseCloudCommand (JObj [(''type'', JStr ''abort''), (''x'', JNull), (''turnId'', JStr ''T1'')]) = Inl
     \<lparr>pe_message = ''expected an integer'', pe_path = ''command.id''\<rparr> \<and>
   parseCloudCommand (JObj [(''id'', JNum 7), (''ts'', JNum 99), (''type'', JStr ''abort''), (''turnId'', JStr ''T1'')]) =
     Inr (JObj [(''id'', JNum 7), (''ts'', JNum 99), (''type'', JStr ''abort''), (''turnId'', JStr ''T1'')])"
proof -
  have "clientCommand (JObj [(''type'', JStr ''abort''), (''x'', JNull), (''turnId'', JStr ''T1'')]) [] =
      Inr (JObj [(''type'', JStr ''abort''), (''turnId'', JStr ''T1'')])"
  proof -
    have "OPAQUE_ID_RE ''T1''" by code_simp
    then show ?thesis
      by (simp add: clientCommand_def commandPayload_def union_check_def variants_of_def command_shapes_def obj_def Let_def
          literals_def literal_check_def opaqueId_def pattern_str_def str_check_def any_str_def)
  qed
  from stored_command [OF this, of 7 99 "[]"] show ?thesis
    by (simp add: MAX_SAFE_INTEGER_def) (simp add: parseCloudCommand_def cloudCommand_def both_def commandEnvelope_shape_def
        obj_def Let_def int_check_def fail_def)
qed

definition cm_batch :: string where
  "cm_batch = ''01ARZ3NDEKTSV4RRFFQ69G5FAV''"

theorem add_files_inside_witness:
  "\<exists>w sp batch path. parseCloudCommand (JObj [(''id'', JNum 1), (''ts'', JNum 1), (''type'', JStr ''add-files''),
      (''batchId'', JStr cm_batch), (''files'', JArray [JObj [(''path'', JStr ''data/a.l4'')]])]) = Inr w \<and>
    sessionPaths cm_batch = Inr sp \<and> js_prop w ''batchId'' = JStr batch \<and>
    sp_incomingFile sp batch path = Inr (sp_incomingFiles sp @ ''/'' @ batch @ ''/'' @ path)"
proof -
  have w: "parseCloudCommand (JObj [(''id'', JNum 1), (''ts'', JNum 1), (''type'', JStr ''add-files''),
      (''batchId'', JStr cm_batch), (''files'', JArray [JObj [(''path'', JStr ''data/a.l4'')]])]) =
    Inr (JObj [(''id'', JNum 1), (''ts'', JNum 1), (''type'', JStr ''add-files''),
      (''batchId'', JStr cm_batch), (''files'', JArray [JObj [(''path'', JStr ''data/a.l4'')]])])" (is "_ = Inr ?w")
  proof -
    have "ULID_RE cm_batch" "length cm_batch = 26" by code_simp+
    moreover have "isRepoDataPath (JStr ''data/a.l4'')"
      by (simp add: isRepoDataPath_def repoRelativePath_def slash_parts_def dot_part_def REPO_DATA_DIR_def)
    ultimately show ?thesis
      by (simp add: parseCloudCommand_def cloudCommand_def both_def commandEnvelope_shape_def commandPayload_def
          union_check_def variants_of_def command_shapes_def obj_def Let_def literals_def literal_check_def add_files_shape_def
          pattern_str_def str_check_def any_str_def int_check_def epochMs_def MAX_SAFE_INTEGER_def arr_def repoDataPath_def
          MAX_BATCH_FILES_def spread_def own_fields_def)
  qed
  have ty: "js_prop ?w ''type'' = JStr ''add-files''" by simp
  have files: "js_prop ?w ''files'' = JArray [JObj [(''path'', JStr ''data/a.l4'')]]" by simp
  have "ULID_RE cm_batch" by code_simp
  then obtain sp where sp: "sessionPaths cm_batch = Inr sp"
    unfolding sessionPaths_def Let_def by simp
  from add_files_inside [OF w ty sp] files show ?thesis
    using w sp by auto
qed

definition cm_envelope :: sealed_envelope where
  "cm_envelope = \<lparr>epk = replicate 43 CHR ''A'', iv = replicate 16 CHR ''b'', ct = ''c-_9'', tag = replicate 22 CHR ''z''\<rparr>"

theorem sealed_round_trip_witness:
  "\<exists>s. encodeSealed cm_envelope = Inr s \<and> decodeSealed s = Inr cm_envelope"
proof -
  have "list_all b64url (replicate 43 CHR ''A'')" "list_all b64url (replicate 16 CHR ''b'')" "list_all b64url ''c-_9''"
    "list_all b64url (replicate 22 CHR ''z'')" by code_simp+
  then have "sealed_parts cm_envelope" by (simp add: sealed_parts_def cm_envelope_def)
  from sealed_accepted [OF this] obtain s where "encodeSealed cm_envelope = Inr s" by (auto simp: encodeSealed_def)
  with sealed_round_trip [OF this] show ?thesis by blast
qed

end
