(* ===== verification/CommandReader.thy ===== *)
theory CommandReader
  imports Commands
begin

text \<open>
  The queue of commands a session reads: \<^verbatim>\<open>ts-apps/cloud-agent/src/command-reader.ts\<close>.

  A file is what reading it gave: nothing there, the text (as \<^verbatim>\<open>JSON.parse\<close> gives it, \<open>None\<close> when it throws), or an
  error with its code. The writes of \<^verbatim>\<open>commands.done\<close> wait in a promise chain; each writes the latest number when it
  is its turn. Logging is not modelled.
\<close>

definition MAX_COMMAND_BYTES :: nat where
  "MAX_COMMAND_BYTES = 1100000"

definition COMMAND_GRACE_MS :: int where
  "COMMAND_GRACE_MS = 15000"

definition COMMAND_TRANSIENT_GRACE_MS :: int where
  "COMMAND_TRANSIENT_GRACE_MS = 60000"

definition TRANSIENT_ERRNOS :: "string list" where
  "TRANSIENT_ERRNOS = [''ESTALE'', ''EIO'', ''EAGAIN'', ''EBUSY'', ''EINTR'', ''ETIMEDOUT'', ''ENOTCONN'', ''EHOSTDOWN'',
     ''EHOSTUNREACH'', ''ECONNRESET'']"

datatype file_read = NoFile | FileText "jsval option" | ReadError "string option"

text \<open>\<open>done_upto\<close> is the field \<^verbatim>\<open>done\<close>; \<open>done_writes\<close> counts the writes that wait in the chain.\<close>

record reader =
  highWater :: nat
  done_upto :: nat
  delivered :: nat
  handledAbove :: "nat list"
  stuckSince :: "(nat \<times> int) option"
  done_writes :: nat

text \<open>\<^verbatim>\<open>open\<close>, of a new reader, with the text of \<^verbatim>\<open>commands.done\<close>.\<close>

definition open_reader :: "string option \<Rightarrow> reader" where
  "open_reader text =
     (let n = (case text of None \<Rightarrow> Some 0 | Some t \<Rightarrow> parseCommandSeq t);
          d = (case n of None \<Rightarrow> 0 | Some m \<Rightarrow> m)
      in \<lparr>highWater = d, done_upto = d, delivered = d, handledAbove = [], stuckSince = None, done_writes = 0\<rparr>)"

definition persist :: "nat \<Rightarrow> reader \<Rightarrow> reader" where
  "persist next r =
     (if next \<le> done_upto r then r
      else r\<lparr>done_upto := next, done_writes := done_writes r + 1\<rparr>)"

text \<open>The loop of \<^verbatim>\<open>markHandled\<close>: the contiguous numbers from \<open>next\<close> on are taken out of the set.\<close>

function advance :: "nat \<Rightarrow> nat list \<Rightarrow> nat \<times> nat list" where
  "advance next hs =
     (if next + 1 \<in> set hs then advance (next + 1) (removeAll (next + 1) hs) else (next, hs))"
  by pat_completeness auto
termination
  by (relation "measure (\<lambda>(_, hs). length hs)") (auto intro: length_removeAll_less)

declare advance.simps [simp del]

definition markHandled :: "nat \<Rightarrow> reader \<Rightarrow> reader" where
  "markHandled n r =
     (if n \<le> done_upto r then r
      else (let (next, hs) = advance (done_upto r) (set_add n (handledAbove r))
            in persist next (r\<lparr>handledAbove := hs\<rparr>)))"

definition markHandledThrough :: "nat \<Rightarrow> reader \<Rightarrow> reader" where
  "markHandledThrough n r =
     persist (max (done_upto r) (min n (delivered r)))
       (r\<lparr>handledAbove := filter (\<lambda>k. \<not> k \<le> n) (handledAbove r)\<rparr>)"

text \<open>One write of the chain: it fails when the fence refuses it or the file cannot be written.\<close>

definition write_done :: "bool \<Rightarrow> string option \<Rightarrow> reader \<Rightarrow> string option \<times> reader" where
  "write_done ok text r =
     (if done_writes r = 0 then (text, r)
      else (case formatCommandSeq (int (done_upto r)) of
              Inl _ \<Rightarrow> (text, r\<lparr>done_writes := done_writes r - 1\<rparr>)
            | Inr t \<Rightarrow> (if ok then Some t else text, r\<lparr>done_writes := done_writes r - 1\<rparr>)))"

datatype command_read = Wait | Skip | Command jsval

definition stuck :: "nat \<Rightarrow> int \<Rightarrow> int \<Rightarrow> reader \<Rightarrow> command_read \<times> reader" where
  "stuck n graceMs now r =
     (case stuckSince r of
        None \<Rightarrow> (Wait, r\<lparr>stuckSince := Some (n, now)\<rparr>)
      | Some (m, since) \<Rightarrow>
          if m \<noteq> n then (Wait, r\<lparr>stuckSince := Some (n, now)\<rparr>)
          else if now - since < graceMs then (Wait, r)
          else (Skip, r\<lparr>stuckSince := None\<rparr>))"

definition read_command :: "nat \<Rightarrow> file_read \<Rightarrow> int \<Rightarrow> reader \<Rightarrow> command_read \<times> reader" where
  "read_command n file now r =
     (case file of
        ReadError errno \<Rightarrow>
          if (case errno of None \<Rightarrow> False | Some c \<Rightarrow> c \<noteq> [] \<and> c \<in> set TRANSIENT_ERRNOS)
          then stuck n COMMAND_TRANSIENT_GRACE_MS now r
          else (Skip, r\<lparr>stuckSince := None\<rparr>)
      | NoFile \<Rightarrow> stuck n COMMAND_GRACE_MS now r
      | FileText json \<Rightarrow>
          (case json of
             None \<Rightarrow> stuck n COMMAND_GRACE_MS now r
           | Some v \<Rightarrow>
               (case parseCloudCommand v of
                  Inl _ \<Rightarrow> (Skip, r)
                | Inr cmd \<Rightarrow>
                    if js_prop cmd ''id'' \<noteq> JNum (int n) then (Skip, r)
                    else (Command cmd, r\<lparr>stuckSince := None\<rparr>))))"

definition see_seq :: "string option \<Rightarrow> reader \<Rightarrow> reader" where
  "see_seq text r =
     (case (case text of None \<Rightarrow> Some 0 | Some t \<Rightarrow> parseCommandSeq t) of
        None \<Rightarrow> r
      | Some seq \<Rightarrow> if seq > highWater r then r\<lparr>highWater := seq\<rparr> else r)"

text \<open>One round of \<^verbatim>\<open>poll\<close>'s loop.\<close>

definition poll_step :: "file_read \<Rightarrow> int \<Rightarrow> reader \<Rightarrow> command_read \<times> reader" where
  "poll_step file now r =
     (let n = delivered r + 1; (result, r') = read_command n file now r
      in case result of
           Wait \<Rightarrow> (Wait, r')
         | Skip \<Rightarrow> (Skip, markHandled n (r'\<lparr>delivered := n\<rparr>))
         | Command cmd \<Rightarrow> (Command cmd, r'\<lparr>delivered := n\<rparr>))"

text \<open>
  The loop, with what reading each file gives, the time, and whether the write of \<^verbatim>\<open>commands.done\<close> after skipping a number
  succeeds: the commands, or nothing when the write threw.
\<close>

function poll_loop :: "(nat \<Rightarrow> file_read) \<Rightarrow> int \<Rightarrow> (nat \<Rightarrow> bool) \<Rightarrow> jsval list \<Rightarrow> reader \<Rightarrow> string option \<Rightarrow>
    jsval list option \<times> reader \<times> string option" where
  "poll_loop files now ok out r text =
     (if \<not> delivered r < highWater r then (Some out, r, text)
      else (let n = delivered r + 1
            in case poll_step (files n) now r of
                 (Wait, r') \<Rightarrow> (Some out, r', text)
               | (Skip, r') \<Rightarrow>
                   if done_writes r' = done_writes r then poll_loop files now ok out r' text
                   else (let (text', r'') = write_done (ok n) text r'
                         in if \<not> ok n then (None, r'', text') else poll_loop files now ok out r'' text')
               | (Command cmd, r') \<Rightarrow> poll_loop files now ok (out @ [cmd]) r' text))"
  by pat_completeness auto

lemma read_command_keeps:
  "read_command n file now r = (res, r') \<Longrightarrow> highWater r' = highWater r \<and> delivered r' = delivered r \<and>
     done_upto r' = done_upto r \<and> handledAbove r' = handledAbove r \<and> done_writes r' = done_writes r"
  by (auto simp: read_command_def stuck_def split: file_read.splits option.splits sum.splits if_splits prod.splits)

lemma markHandled_keeps [simp]:
  "highWater (markHandled n r) = highWater r" "delivered (markHandled n r) = delivered r" "stuckSince (markHandled n r) = stuckSince r"
  by (auto simp: markHandled_def persist_def split: prod.splits)

lemma poll_step_keeps:
  assumes "poll_step file now r = (res, r')"
  shows "highWater r' = highWater r \<and> delivered r' = (if res = Wait then delivered r else delivered r + 1)"
  using assms read_command_keeps by (fastforce simp: poll_step_def Let_def split: prod.splits command_read.splits)

lemma write_done_keeps:
  "highWater (snd (write_done ok text r)) = highWater r" "delivered (snd (write_done ok text r)) = delivered r"
  by (auto simp: write_done_def split: sum.splits)

lemma poll_step_moves:
  assumes "(res, r') = poll_step file now r" "res \<noteq> Wait" "delivered r < highWater r"
  shows "highWater r' - delivered r' < highWater r - delivered r"
  using poll_step_keeps [OF assms(1) [symmetric]] assms(2,3) by simp

lemma write_done_moves:
  assumes "(t', r') = write_done ok t r"
  shows "highWater r' - delivered r' = highWater r - delivered r"
  using write_done_keeps [of ok t r] assms [symmetric] by simp

termination poll_loop
  by (relation "measure (\<lambda>(files, now, ok, out, r, t). highWater r - delivered r)")
    (auto dest!: poll_step_moves write_done_moves)

declare poll_loop.simps [simp del]

definition poll :: "string option \<Rightarrow> (nat \<Rightarrow> file_read) \<Rightarrow> int \<Rightarrow> (nat \<Rightarrow> bool) \<Rightarrow> reader \<Rightarrow> string option \<Rightarrow>
    jsval list option \<times> reader \<times> string option" where
  "poll seq_text files now ok r done_text = poll_loop files now ok [] (see_seq seq_text r) done_text"

subsection \<open>A session's reader over its life\<close>

text \<open>
  What may happen to the queue, in any order: a poll reads \<^verbatim>\<open>commands.seq\<close> or the next file, the runner reports commands, a write
  of \<^verbatim>\<open>commands.done\<close> is carried out, and the harness is restarted with what that file holds. The world keeps beside
  the reader and the file: the number this reader started from, what was read out since, the numbers
  \<^verbatim>\<open>commands.seq\<close> showed since, and all numbers ever handled.
\<close>

datatype reader_action =
    SeeSeq "string option"
  | ReadNext file_read int
  | Handled nat
  | HandledThrough nat
  | WriteDone bool
  | Restart

record reader_world =
  the_reader :: reader
  done_file :: "string option"
  started_at :: nat
  read_out :: "(nat \<times> command_read) list"
  shown :: "nat set"
  handled :: "nat set"

definition seq_value :: "string option \<Rightarrow> nat option" where
  "seq_value t = (case t of None \<Rightarrow> Some 0 | Some s \<Rightarrow> parseCommandSeq s)"

definition restart :: "string option \<Rightarrow> nat set \<Rightarrow> reader_world" where
  "restart t h = \<lparr>the_reader = open_reader t, done_file = t, started_at = done_upto (open_reader t), read_out = [],
     shown = {}, handled = h\<rparr>"

fun reader_act :: "reader_action \<Rightarrow> reader_world \<Rightarrow> reader_world" where
  "reader_act (SeeSeq t) w =
     w\<lparr>the_reader := see_seq t (the_reader w),
       shown := shown w \<union> (case seq_value t of None \<Rightarrow> {} | Some n \<Rightarrow> {n})\<rparr>"
| "reader_act (ReadNext file now) w =
     (if \<not> delivered (the_reader w) < highWater (the_reader w) then w
      else (let n = delivered (the_reader w) + 1; (res, r) = poll_step file now (the_reader w)
            in w\<lparr>the_reader := r,
                 read_out := read_out w @ (if res = Wait then [] else [(n, res)]),
                 handled := handled w \<union> (if res = Skip then {n} else {})\<rparr>))"
| "reader_act (Handled n) w = w\<lparr>the_reader := markHandled n (the_reader w), handled := insert n (handled w)\<rparr>"
| "reader_act (HandledThrough n) w =
     w\<lparr>the_reader := markHandledThrough n (the_reader w), handled := handled w \<union> {1..min n (delivered (the_reader w))}\<rparr>"
| "reader_act (WriteDone ok) w =
     (let (t, r) = write_done ok (done_file w) (the_reader w) in w\<lparr>the_reader := r, done_file := t\<rparr>)"
| "reader_act Restart w = restart (done_file w) (handled w)"

text \<open>The runner reports commands it was given.\<close>

definition reports_given :: "reader_world \<Rightarrow> reader_action \<Rightarrow> bool" where
  "reports_given w a \<longleftrightarrow> (case a of Handled n \<Rightarrow> n \<le> delivered (the_reader w) | _ \<Rightarrow> True)"

fun reader_run :: "reader_action list \<Rightarrow> reader_world \<Rightarrow> reader_world" where
  "reader_run [] w = w"
| "reader_run (a # as) w = reader_run as (reader_act a w)"

fun all_given :: "reader_action list \<Rightarrow> reader_world \<Rightarrow> bool" where
  "all_given [] w \<longleftrightarrow> True"
| "all_given (a # as) w \<longleftrightarrow> reports_given w a \<and> all_given as (reader_act a w)"

subsection \<open>The invariant\<close>

lemma advance_spec:
  "advance next hs = (m, hs') \<Longrightarrow> next \<le> m \<and> {next<..m} \<subseteq> set hs \<and> set hs' = set hs - {next<..m} \<and> m + 1 \<notin> set hs'"
proof (induction "next" hs arbitrary: m hs' rule: advance.induct)
  case (1 n hs)
  show ?case
  proof (cases "n + 1 \<in> set hs")
    case True
    then have "advance (n + 1) (removeAll (n + 1) hs) = (m, hs')"
      using 1(2) by (subst (asm) advance.simps) simp
    from 1(1) [OF True this] have "n + 1 \<le> m" "{n + 1<..m} \<subseteq> set hs - {n + 1}" "set hs' = set hs - {n + 1} - {n + 1<..m}"
      "m + 1 \<notin> set hs'" by auto
    moreover have "{n<..m} = insert (n + 1) {n + 1<..m}" using \<open>n + 1 \<le> m\<close> by auto
    ultimately show ?thesis using True by auto
  next
    case False
    then show ?thesis using 1(2) by (subst (asm) advance.simps) auto
  qed
qed

definition file_value :: "string option \<Rightarrow> nat" where
  "file_value t = (case seq_value t of None \<Rightarrow> 0 | Some n \<Rightarrow> n)"

definition reader_inv :: "reader_world \<Rightarrow> bool" where
  "reader_inv w \<longleftrightarrow>
     (let r = the_reader w
      in started_at w \<le> done_upto r \<and> done_upto r \<le> delivered r \<and> delivered r \<le> highWater r \<and>
         {1..done_upto r} \<subseteq> handled w \<and> set (handledAbove r) \<subseteq> handled w \<inter> {done_upto r<..delivered r} \<and>
         file_value (done_file w) \<le> done_upto r \<and>
         map fst (read_out w) = [started_at w + 1..<delivered r + 1] \<and>
         (\<forall>(n, res)\<in>set (read_out w). res \<noteq> Wait \<and> (\<forall>cmd. res = Command cmd \<longrightarrow> js_prop cmd ''id'' = JNum (int n))) \<and>
         highWater r \<in> insert (started_at w) (shown w) \<and> (\<forall>n\<in>shown w. n \<le> highWater r))"

lemma open_reader_simps [simp]:
  "done_upto (open_reader t) = file_value t" "delivered (open_reader t) = file_value t" "highWater (open_reader t) = file_value t"
  "handledAbove (open_reader t) = []"
  by (auto simp: open_reader_def file_value_def seq_value_def Let_def split: option.splits)

lemma restart_inv: "{1..file_value t} \<subseteq> h \<Longrightarrow> reader_inv (restart t h)"
  by (simp add: reader_inv_def restart_def Let_def)

lemma persist_simps [simp]:
  "done_upto (persist n r) = max n (done_upto r)" "delivered (persist n r) = delivered r" "highWater (persist n r) = highWater r"
  "handledAbove (persist n r) = handledAbove r"
  by (auto simp: persist_def)

text \<open>Marking one command, given it was read out.\<close>

lemma mark_spec:
  assumes "n \<le> delivered r" "done_upto r \<le> delivered r" "set (handledAbove r) \<subseteq> {done_upto r<..delivered r}"
  shows "let r' = markHandled n r
    in done_upto r \<le> done_upto r' \<and> done_upto r' \<le> delivered r \<and> delivered r' = delivered r \<and> highWater r' = highWater r \<and>
       {done_upto r<..done_upto r'} \<subseteq> insert n (set (handledAbove r)) \<and>
       set (handledAbove r') \<subseteq> insert n (set (handledAbove r)) \<inter> {done_upto r'<..delivered r}"
proof (cases "n \<le> done_upto r")
  case True
  then show ?thesis using assms by (auto simp: markHandled_def Let_def)
next
  case False
  obtain m hs where adv: "advance (done_upto r) (set_add n (handledAbove r)) = (m, hs)" by fastforce
  have s: "set (set_add n (handledAbove r)) = insert n (set (handledAbove r))" by (auto simp: set_add_def)
  note a = advance_spec [OF adv, unfolded s]
  have "m \<le> delivered r"
  proof (rule ccontr)
    assume "\<not> m \<le> delivered r"
    then have "m \<in> {done_upto r<..m}" using assms(2) by auto
    then have "m \<in> insert n (set (handledAbove r))" using a by blast
    then show False using \<open>\<not> m \<le> delivered r\<close> assms(1,3) by auto
  qed
  then show ?thesis using a False assms by (auto simp: markHandled_def adv Let_def max_def)
qed

lemma written_value:
  assumes "formatCommandSeq (int n) = Inr t"
  shows "file_value (Some t) \<le> n"
  using command_seq_written [of "int n"] assms by (auto simp: file_value_def seq_value_def)

lemma write_done_spec:
  assumes "write_done ok t r = (t', r')"
  shows "(t' = t \<or> file_value t' \<le> done_upto r) \<and> done_upto r' = done_upto r \<and> delivered r' = delivered r \<and>
    highWater r' = highWater r \<and> handledAbove r' = handledAbove r"
  using assms written_value by (auto simp: write_done_def split: if_splits sum.splits)

lemma see_seq_spec:
  "done_upto (see_seq t r) = done_upto r" "delivered (see_seq t r) = delivered r" "handledAbove (see_seq t r) = handledAbove r"
  "highWater (see_seq t r) = (case seq_value t of None \<Rightarrow> highWater r | Some n \<Rightarrow> max (highWater r) n)"
  by (auto simp: see_seq_def seq_value_def max_def split: option.splits)

lemma read_command_id:
  "read_command n file now r = (Command cmd, r') \<Longrightarrow> js_prop cmd ''id'' = JNum (int n)"
  by (auto simp: read_command_def stuck_def split: file_read.splits option.splits sum.splits if_splits prod.splits)

text \<open>Reading the next number out.\<close>

lemma poll_step_spec:
  assumes "poll_step file now r = (res, r')" "done_upto r \<le> delivered r" "set (handledAbove r) \<subseteq> {done_upto r<..delivered r}"
  defines "n \<equiv> delivered r + 1"
  shows "highWater r' = highWater r \<and> delivered r' = (if res = Wait then delivered r else n) \<and>
    done_upto r \<le> done_upto r' \<and> done_upto r' \<le> delivered r' \<and>
    {done_upto r<..done_upto r'} \<subseteq> set (handledAbove r) \<union> (if res = Skip then {n} else {}) \<and>
    set (handledAbove r') \<subseteq> (set (handledAbove r) \<union> (if res = Skip then {n} else {})) \<inter> {done_upto r'<..delivered r'} \<and>
    (\<forall>cmd. res = Command cmd \<longrightarrow> js_prop cmd ''id'' = JNum (int n))"
proof -
  obtain res1 r1 where rd: "read_command n file now r = (res1, r1)" by fastforce
  note keeps = read_command_keeps [OF rd]
  show ?thesis
  proof (cases res1)
    case Skip
    then have r': "r' = markHandled n (r1\<lparr>delivered := n\<rparr>)" "res = Skip"
      using assms(1) rd by (auto simp: poll_step_def n_def Let_def)
    have "set (handledAbove (r1\<lparr>delivered := n\<rparr>)) \<subseteq> {done_upto (r1\<lparr>delivered := n\<rparr>)<..delivered (r1\<lparr>delivered := n\<rparr>)}"
      using assms(3) keeps by (auto simp: n_def)
    with mark_spec [of n "r1\<lparr>delivered := n\<rparr>"] show ?thesis
      using assms(2) keeps r' by (simp add: Let_def n_def)
  next
    case Wait
    then have "r' = r1" "res = Wait" using assms(1) rd by (auto simp: poll_step_def n_def Let_def)
    then show ?thesis using keeps assms(2,3) by auto
  next
    case (Command cmd)
    then have "r' = r1\<lparr>delivered := n\<rparr>" "res = Command cmd" using assms(1) rd by (auto simp: poll_step_def n_def Let_def)
    then show ?thesis using keeps assms(2,3) read_command_id [OF rd [unfolded Command]] by (auto simp: n_def)
  qed
qed

lemma reader_inv_step:
  assumes inv: "reader_inv w" and given: "reports_given w a"
  shows "reader_inv (reader_act a w)"
proof -
  let ?r = "the_reader w"
  have i: "started_at w \<le> done_upto ?r" "done_upto ?r \<le> delivered ?r" "delivered ?r \<le> highWater ?r"
    "{1..done_upto ?r} \<subseteq> handled w" "set (handledAbove ?r) \<subseteq> handled w" "set (handledAbove ?r) \<subseteq> {done_upto ?r<..delivered ?r}"
    "file_value (done_file w) \<le> done_upto ?r" "map fst (read_out w) = [started_at w + 1..<delivered ?r + 1]"
    "\<forall>(n, res)\<in>set (read_out w). res \<noteq> Wait \<and> (\<forall>cmd. res = Command cmd \<longrightarrow> js_prop cmd ''id'' = JNum (int n))"
    "highWater ?r \<in> insert (started_at w) (shown w)" "\<forall>n\<in>shown w. n \<le> highWater ?r"
    using inv by (auto simp: reader_inv_def Let_def)
  have up: "{1..b} \<subseteq> S \<union> T" if "{1..a} \<subseteq> S" "{a<..b} \<subseteq> T" "a \<le> b" for a b :: nat and S T
  proof -
    have "{1..b} \<subseteq> {1..a} \<union> {a<..b}" by auto
    then show ?thesis using that by blast
  qed
  show ?thesis
  proof (cases a)
    case (SeeSeq t)
    then show ?thesis
      using i by (auto simp: reader_inv_def Let_def see_seq_spec max_def split: option.splits)
  next
    case (ReadNext f now)
    show ?thesis
    proof (cases "delivered ?r < highWater ?r")
      case False
      then show ?thesis using inv by (simp add: ReadNext)
    next
      case True
      obtain res r' where st: "poll_step f now ?r = (res, r')" by fastforce
      note s = poll_step_spec [OF st i(2,6)]
      let ?S = "if res = Skip then {delivered ?r + 1} else {}"
      have "{1..done_upto r'} \<subseteq> handled w \<union> (set (handledAbove ?r) \<union> ?S)"
        using up [OF i(4), of "done_upto r'" "set (handledAbove ?r) \<union> ?S"] s by blast
      then have "{1..done_upto r'} \<subseteq> handled w \<union> ?S" using i(5) by blast
      moreover have "set (handledAbove r') \<subseteq> (handled w \<union> ?S) \<inter> {done_upto r'<..delivered r'}" using s i(5) by blast
      moreover have "map fst (read_out w @ (if res = Wait then [] else [(delivered ?r + 1, res)])) = [started_at w + 1..<delivered r' + 1]"
        using s i(1,2,8) by (cases "res = Wait") simp_all
      ultimately show ?thesis
        using True i s by (auto simp: ReadNext st reader_inv_def Let_def)
    qed
  next
    case (Handled n)
    have n: "n \<le> delivered ?r" using given by (simp add: Handled reports_given_def)
    note m = mark_spec [OF n i(2,6), unfolded Let_def]
    have "{1..done_upto (markHandled n ?r)} \<subseteq> handled w \<union> insert n (set (handledAbove ?r))"
      using up [OF i(4), of "done_upto (markHandled n ?r)"] m by blast
    then show ?thesis using i m by (auto simp: Handled reader_inv_def Let_def)
  next
    case (HandledThrough n)
    let ?d = "max (done_upto ?r) (min n (delivered ?r))"
    have "{1..?d} \<subseteq> handled w \<union> {1..min n (delivered ?r)}"
      using i(4) by (auto simp: max_def)
    then show ?thesis using i
      by (auto simp: HandledThrough reader_inv_def Let_def markHandledThrough_def)
  next
    case (WriteDone ok)
    obtain t' r' where wd: "write_done ok (done_file w) ?r = (t', r')" by fastforce
    from write_done_spec [OF wd] show ?thesis
      using i by (auto simp: WriteDone wd reader_inv_def Let_def)
  next
    case Restart
    have "{1..file_value (done_file w)} \<subseteq> handled w" using i(4,7) by auto
    then show ?thesis by (simp add: Restart restart_inv)
  qed
qed

lemma reader_run_inv: "reader_inv w \<Longrightarrow> all_given as w \<Longrightarrow> reader_inv (reader_run as w)"
  by (induction as arbitrary: w) (auto simp: reader_inv_step)

subsection \<open>Polls\<close>

lemma waits_again:
  assumes "poll_step file now r = (Wait, r')"
  shows "fst (poll_step file now r') = Wait"
proof -
  have "read_command (delivered r + 1) file now r = (Wait, r')"
    using assms by (auto simp: poll_step_def Let_def split: prod.splits command_read.splits)
  moreover from this have "delivered r' = delivered r" using read_command_keeps by blast
  moreover have again: "fst (read_command n file now s') = Wait" if "read_command n file now s = (Wait, s')" for n s s'
    using that
    by (auto simp: read_command_def stuck_def COMMAND_GRACE_MS_def COMMAND_TRANSIENT_GRACE_MS_def
        split: file_read.splits option.splits sum.splits if_splits prod.splits)
  ultimately have "fst (read_command (delivered r' + 1) file now r') = Wait" by simp
  then show ?thesis
    by (cases "read_command (delivered r' + 1) file now r'") (simp add: poll_step_def Let_def)
qed

lemma poll_loop_spec:
  assumes "\<And>n. ok n"
  shows "\<exists>cmds ns r' t'. poll_loop files now ok out r t = (Some (out @ cmds), r', t') \<and>
    highWater r' = highWater r \<and> (delivered r \<le> highWater r \<longrightarrow> delivered r \<le> delivered r' \<and> delivered r' \<le> highWater r) \<and>
    map (\<lambda>c. js_prop c ''id'') cmds = map (\<lambda>n. JNum (int n)) ns \<and> sorted_wrt (<) ns \<and> set ns \<subseteq> {delivered r<..delivered r'} \<and>
    (\<not> delivered r' < highWater r' \<or> fst (poll_step (files (delivered r' + 1)) now r') = Wait)"
  using assms
proof (induction files now ok out r t rule: poll_loop.induct)
  case (1 files now ok out r t)
  have okn: "ok n" for n by (rule 1(4))
  show ?case
  proof (cases "delivered r < highWater r")
    case False
    then show ?thesis by (subst poll_loop.simps) auto
  next
    case True
    obtain res r1 where st: "poll_step (files (delivered r + 1)) now r = (res, r1)" by fastforce
    note keeps = poll_step_keeps [OF st]
    show ?thesis
    proof (cases res)
      case Wait
      then have "poll_loop files now ok out r t = (Some out, r1, t)"
        using True st by (subst poll_loop.simps) (simp add: Let_def)
      moreover have "fst (poll_step (files (delivered r1 + 1)) now r1) = Wait"
        using waits_again [OF st [unfolded Wait]] keeps Wait by simp
      ultimately show ?thesis
        using keeps Wait by (intro exI [of _ "[]"] exI [of _ r1] exI [of _ t]) auto
    next
      case (Command cmd)
      then have next_round: "poll_loop files now ok out r t = poll_loop files now ok (out @ [cmd]) r1 t"
        using True st by (subst poll_loop.simps) (simp add: Let_def)
      from Command True st obtain cmds ns r' t' where ih: "poll_loop files now ok (out @ [cmd]) r1 t = (Some ((out @ [cmd]) @ cmds), r', t')"
        "highWater r' = highWater r1" "delivered r1 \<le> highWater r1 \<longrightarrow> delivered r1 \<le> delivered r' \<and> delivered r' \<le> highWater r1"
        "map (\<lambda>c. js_prop c ''id'') cmds = map (\<lambda>n. JNum (int n)) ns" "sorted_wrt (<) ns" "set ns \<subseteq> {delivered r1<..delivered r'}"
        "\<not> delivered r' < highWater r' \<or> fst (poll_step (files (delivered r' + 1)) now r') = Wait"
        using 1(3) [OF _ refl st [symmetric] Command okn] by auto
      have "js_prop cmd ''id'' = JNum (int (delivered r + 1))"
        using st Command read_command_id by (fastforce simp: poll_step_def Let_def split: prod.splits command_read.splits)
      then show ?thesis
        using ih keeps Command True
        by (intro exI [of _ "cmd # cmds"] exI [of _ "(delivered r + 1) # ns"] exI [of _ r'] exI [of _ t'])
          (auto simp: next_round)
    next
      case Skip
      define r2t where "r2t = (if done_writes r1 = done_writes r then (t, r1) else write_done (ok (delivered r + 1)) t r1)"
      obtain t2 r2 where r2: "r2t = (t2, r2)" by fastforce
      have next_round: "poll_loop files now ok out r t = poll_loop files now ok out r2 t2"
        using True st Skip r2 by (subst poll_loop.simps) (auto simp: Let_def r2t_def okn split: if_splits prod.splits)
      have r2_keeps: "highWater r2 = highWater r1" "delivered r2 = delivered r1"
        using r2 write_done_keeps [of "ok (delivered r + 1)" t r1] by (auto simp: r2t_def split: if_splits)
      have "\<exists>cmds ns r' t'. poll_loop files now ok out r2 t2 = (Some (out @ cmds), r', t') \<and>
          highWater r' = highWater r2 \<and> (delivered r2 \<le> highWater r2 \<longrightarrow> delivered r2 \<le> delivered r' \<and> delivered r' \<le> highWater r2) \<and>
          map (\<lambda>c. js_prop c ''id'') cmds = map (\<lambda>n. JNum (int n)) ns \<and> sorted_wrt (<) ns \<and> set ns \<subseteq> {delivered r2<..delivered r'} \<and>
          (\<not> delivered r' < highWater r' \<or> fst (poll_step (files (delivered r' + 1)) now r') = Wait)"
      proof (cases "done_writes r1 = done_writes r")
        case same: True
        then have "r2 = r1" "t2 = t" using r2 by (simp_all add: r2t_def)
        then show ?thesis using 1(1) [OF _ refl st [symmetric] Skip same okn] True by simp
      next
        case False
        then have wd: "(t2, r2) = write_done (ok (delivered r + 1)) t r1" using r2 by (simp add: r2t_def)
        have go: "\<not> \<not> delivered r < highWater r" "\<not> \<not> ok (delivered r + 1)" using True okn by simp_all
        show ?thesis by (rule 1(2) [OF go(1) refl st [symmetric] Skip False refl wd go(2) okn])
      qed
      then show ?thesis
        unfolding next_round using r2_keeps keeps Skip True
        by (elim exE conjE) (intro exI conjI, assumption, auto)
    qed
  qed
qed

subsection \<open>Properties\<close>

text \<open>C35: over any life of a session, with restarts, numbers that go back, failed writes and reports in any order, the
  commands are read out in number order, each number once since the last start, each with the command that
  carries it, and exactly up to where the reader is; it goes as far as the highest number seen and no further.\<close>

theorem commands_in_order:
  assumes "all_given as (restart t h)" "{1..file_value t} \<subseteq> h" "w = reader_run as (restart t h)"
  shows "map fst (read_out w) = [started_at w + 1..<delivered (the_reader w) + 1] \<and>
    list_all (\<lambda>(n, res). res = Skip \<or> (\<exists>cmd. res = Command cmd \<and> js_prop cmd ''id'' = JNum (int n))) (read_out w) \<and>
    delivered (the_reader w) \<le> highWater (the_reader w) \<and> highWater (the_reader w) = Max (insert (highWater (the_reader w)) (shown w)) \<and>
    highWater (the_reader w) \<in> insert (started_at w) (shown w)"
proof -
  have "reader_inv w" unfolding assms(3) by (rule reader_run_inv [OF restart_inv [OF assms(2)] assms(1)])
  then have i: "map fst (read_out w) = [started_at w + 1..<delivered (the_reader w) + 1]"
    "\<forall>(n, res)\<in>set (read_out w). res \<noteq> Wait \<and> (\<forall>cmd. res = Command cmd \<longrightarrow> js_prop cmd ''id'' = JNum (int n))"
    "delivered (the_reader w) \<le> highWater (the_reader w)" "highWater (the_reader w) \<in> insert (started_at w) (shown w)"
    "\<forall>n\<in>shown w. n \<le> highWater (the_reader w)"
    by (simp_all add: reader_inv_def Let_def)
  have "res = Skip \<or> (\<exists>cmd. res = Command cmd \<and> js_prop cmd ''id'' = JNum (int n))" if "(n, res) \<in> set (read_out w)" for n res
    using i(2) that by (cases res) auto
  moreover have "highWater (the_reader w) = Max (insert (highWater (the_reader w)) (shown w))"
  proof -
    have "finite (shown w)" by (rule finite_subset [of _ "{..highWater (the_reader w)}"]) (use i(5) in auto)
    then show ?thesis using i(5) by (intro Max_eqI [symmetric]) auto
  qed
  ultimately show ?thesis using i(1,3,4) by (auto simp: list_all_iff)
qed

text \<open>C14: no command is lost by a restart: everything up to the number in \<^verbatim>\<open>commands.done\<close>, and up to the reader's own, has
  been handled, so a reader that starts from the file reads every command not handled yet.\<close>

theorem nothing_unhandled_skipped:
  assumes "all_given as (restart t h)" "{1..file_value t} \<subseteq> h" "w = reader_run as (restart t h)"
  shows "{1..done_upto (the_reader w)} \<subseteq> handled w \<and> file_value (done_file w) \<le> done_upto (the_reader w) \<and>
    set (handledAbove (the_reader w)) \<subseteq> handled w \<and>
    {n. 1 \<le> n} - handled w \<subseteq> {n. delivered (the_reader (reader_act Restart w)) < n}"
proof -
  have "reader_inv w" unfolding assms(3) by (rule reader_run_inv [OF restart_inv [OF assms(2)] assms(1)])
  then have i: "{1..done_upto (the_reader w)} \<subseteq> handled w" "file_value (done_file w) \<le> done_upto (the_reader w)"
    "set (handledAbove (the_reader w)) \<subseteq> handled w"
    by (auto simp: reader_inv_def Let_def)
  then have "{1..file_value (done_file w)} \<subseteq> handled w" by auto
  then have "{n. 1 \<le> n} - handled w \<subseteq> {n. file_value (done_file w) < n}"
    by (fastforce simp: subset_iff not_less)
  then show ?thesis using i by (simp add: restart_def)
qed

text \<open>a poll whose writes succeed returns: its commands carry ascending numbers after the last one read out, and it stops
  only at the highest number seen or at a command that is not readable yet.\<close>

theorem poll_takes_all_ready:
  assumes "\<And>n. ok n" "delivered r \<le> highWater r"
  shows "\<exists>cmds ns r' t'. poll seq_text files now ok r t = (Some cmds, r', t') \<and>
    map (\<lambda>c. js_prop c ''id'') cmds = map (\<lambda>n. JNum (int n)) ns \<and> sorted_wrt (<) ns \<and>
    set ns \<subseteq> {delivered r<..delivered r'} \<and> delivered r' \<le> highWater r' \<and> highWater r \<le> highWater r' \<and>
    (delivered r' = highWater r' \<or> fst (poll_step (files (delivered r' + 1)) now r') = Wait)"
proof -
  have s: "delivered (see_seq seq_text r) = delivered r" "highWater r \<le> highWater (see_seq seq_text r)"
    by (auto simp: see_seq_spec split: option.split)
  from poll_loop_spec [where ok = ok and files = files and now = now and out = "[]" and r = "see_seq seq_text r" and t = t, OF assms(1)]
  obtain cmds ns r' t' where p: "poll_loop files now ok [] (see_seq seq_text r) t = (Some cmds, r', t')"
    "highWater r' = highWater (see_seq seq_text r)"
    "delivered r \<le> highWater (see_seq seq_text r) \<longrightarrow> delivered r' \<le> highWater (see_seq seq_text r)"
    "map (\<lambda>c. js_prop c ''id'') cmds = map (\<lambda>n. JNum (int n)) ns" "sorted_wrt (<) ns" "set ns \<subseteq> {delivered r<..delivered r'}"
    "\<not> delivered r' < highWater r' \<or> fst (poll_step (files (delivered r' + 1)) now r') = Wait"
    by (auto simp: s(1))
  have "delivered r' \<le> highWater r'" using p(2,3) s(2) assms(2) by simp
  then have "delivered r' = highWater r' \<or> fst (poll_step (files (delivered r' + 1)) now r') = Wait" using p(7) by linarith
  then show ?thesis
    using p(1,2,4,5,6) s(2) \<open>delivered r' \<le> highWater r'\<close> unfolding poll_def
    by (intro exI [of _ cmds] exI [of _ ns] exI [of _ r'] exI [of _ t']) simp
qed

text \<open>Reading a number again and again, at the times of a list.\<close>

fun read_all :: "nat \<Rightarrow> file_read \<Rightarrow> int list \<Rightarrow> reader \<Rightarrow> command_read list" where
  "read_all n file [] r = []"
| "read_all n file (t # ts) r = (let (res, r') = read_command n file t r in res # read_all n file ts r')"

lemma read_all_stuck:
  assumes "file = NoFile \<or> file = FileText None" "stuckSince r = Some (n, t0)" "list_all (\<lambda>s. s - t0 < COMMAND_GRACE_MS) ts"
  shows "read_all n file (ts @ [t]) r = replicate (length ts) Wait @ [if t - t0 < COMMAND_GRACE_MS then Wait else Skip]"
  using assms(3)
proof (induction ts)
  case Nil
  then show ?case using assms(1,2) by (auto simp: read_command_def stuck_def)
next
  case (Cons s ts)
  have "read_command n file s r = (Wait, r)" using Cons.prems assms(1,2) by (auto simp: read_command_def stuck_def)
  then show ?case using Cons by simp
qed

text \<open>C40: a command that is announced but not there, or half written, is waited for through the grace period, from when it was
  first missed, and skipped at the first look after it.\<close>

theorem skipped_after_grace:
  assumes "file = NoFile \<or> file = FileText None" "stuckSince r = None \<or> fst (the (stuckSince r)) \<noteq> n"
    and "list_all (\<lambda>s. s - t0 < COMMAND_GRACE_MS) ts"
  shows "read_all n file (t0 # ts @ [t]) r =
    replicate (length ts + 1) Wait @ [if t - t0 < COMMAND_GRACE_MS then Wait else Skip]"
proof -
  have "read_command n file t0 r = (Wait, r\<lparr>stuckSince := Some (n, t0)\<rparr>)"
    using assms(1,2) by (auto simp: read_command_def stuck_def split: option.split)
  then show ?thesis using read_all_stuck [OF assms(1) _ assms(3), of "r\<lparr>stuckSince := Some (n, t0)\<rparr>" n t] by simp
qed

subsection \<open>A poll that throws\<close>

definition no_gap :: "reader \<Rightarrow> bool" where
  "no_gap r \<longleftrightarrow> done_upto r \<le> delivered r \<and> set (handledAbove r) \<subseteq> {done_upto r<..delivered r} \<and>
     done_upto r + 1 \<notin> set (handledAbove r)"

text \<open>Skipping the next number writes only when everything before it is handled.\<close>

lemma skip_spec:
  assumes "no_gap r" "poll_step file now r = (Skip, r')"
  shows "no_gap r' \<and> (done_writes r' \<noteq> done_writes r \<longrightarrow> done_upto r' = delivered r')"
proof -
  define n where "n = delivered r + 1"
  obtain r1 where rd: "read_command n file now r = (Skip, r1)" and r': "r' = markHandled n (r1\<lparr>delivered := n\<rparr>)"
    using assms(2) by (auto simp: poll_step_def Let_def n_def split: prod.splits command_read.splits)
  note keeps = read_command_keeps [OF rd]
  obtain m hs where adv: "advance (done_upto r) (set_add n (handledAbove r)) = (m, hs)" by fastforce
  have s: "set (set_add n (handledAbove r)) = insert n (set (handledAbove r))" by (auto simp: set_add_def)
  note a = advance_spec [OF adv, unfolded s]
  have new: "\<not> n \<le> done_upto r" using assms(1) by (simp add: no_gap_def n_def)
  then have r'_eq: "done_upto r' = m" "delivered r' = n" "handledAbove r' = hs"
    "done_writes r' \<noteq> done_writes r \<longleftrightarrow> done_upto r < m"
    using a keeps adv by (auto simp: r' markHandled_def Let_def persist_def)
  have sub: "insert n (set (handledAbove r)) \<subseteq> {done_upto r<..n}" using assms(1) new by (auto simp: no_gap_def n_def)
  have "m \<le> n"
  proof (rule ccontr)
    assume "\<not> m \<le> n"
    then have "m \<in> {done_upto r<..m}" using new by auto
    then have "m \<in> insert n (set (handledAbove r))" using a by blast
    then show False using sub \<open>\<not> m \<le> n\<close> by auto
  qed
  moreover have "n = m" if "done_upto r < m"
  proof -
    have "done_upto r + 1 \<in> {done_upto r<..m}" using that by simp
    then have "done_upto r + 1 \<in> insert n (set (handledAbove r))" using a by blast
    then have "n = done_upto r + 1" using assms(1) by (auto simp: no_gap_def)
    then show ?thesis using that \<open>m \<le> n\<close> by simp
  qed
  moreover have "set hs \<subseteq> {m<..n}" using a sub by auto
  ultimately show ?thesis using a by (auto simp: no_gap_def r'_eq)
qed

lemma read_spec:
  assumes "no_gap r" "poll_step file now r = (Command cmd, r')"
  shows "no_gap r'"
  using assms read_command_keeps
  by (fastforce simp: poll_step_def Let_def no_gap_def split: prod.splits command_read.splits)

lemma write_done_no_gap: "write_done ok t r = (t', r') \<Longrightarrow> no_gap r' = no_gap r"
  using write_done_spec [of ok t r t' r'] by (simp add: no_gap_def)

lemma poll_loop_throws:
  "no_gap r \<Longrightarrow> poll_loop files now ok out r t = (None, r', t') \<Longrightarrow> done_upto r' = delivered r'"
proof (induction files now ok out r t rule: poll_loop.induct)
  case (1 files now ok out r t)
  have more_to_do: "delivered r < highWater r" using 1(5) by (subst (asm) poll_loop.simps) (auto split: if_splits)
  then have go: "\<not> \<not> delivered r < highWater r" by simp
  obtain res r1 where st: "poll_step (files (delivered r + 1)) now r = (res, r1)" by fastforce
  show ?case
  proof (cases res)
    case Wait
    then show ?thesis using 1(5) more_to_do st by (subst (asm) poll_loop.simps) (simp add: Let_def)
  next
    case (Command cmd)
    then have "poll_loop files now ok (out @ [cmd]) r1 t = (None, r', t')"
      using 1(5) more_to_do st by (subst (asm) poll_loop.simps) (simp add: Let_def)
    from 1(3) [OF go refl st [symmetric] Command read_spec [OF 1(4) st [unfolded Command]] this] show ?thesis .
  next
    case Skip
    note skip = skip_spec [OF 1(4) st [unfolded Skip]]
    show ?thesis
    proof (cases "done_writes r1 = done_writes r")
      case True
      then have "poll_loop files now ok out r1 t = (None, r', t')"
        using 1(5) more_to_do st Skip by (subst (asm) poll_loop.simps) (simp add: Let_def)
      from 1(1) [OF go refl st [symmetric] Skip True conjunct1 [OF skip] this] show ?thesis .
    next
      case False
      obtain t2 r2 where wd: "(t2, r2) = write_done (ok (delivered r + 1)) t r1"
        by (cases "write_done (ok (delivered r + 1)) t r1") simp
      note spec = write_done_spec [OF wd [symmetric]]
      have res: "(if \<not> ok (delivered r + 1) then (None, r2, t2) else poll_loop files now ok out r2 t2) = (None, r', t')"
        using 1(5) more_to_do st Skip False wd by (subst (asm) poll_loop.simps) (auto simp: Let_def split: prod.splits if_splits)
      show ?thesis
      proof (cases "ok (delivered r + 1)")
        case True
        then have "poll_loop files now ok out r2 t2 = (None, r', t')" using res by simp
        moreover have "no_gap r2" using write_done_no_gap [OF wd [symmetric]] skip by simp
        ultimately show ?thesis using 1(2) [OF go refl st [symmetric] Skip False refl wd _ \<open>no_gap r2\<close>] True by blast
      next
        case no: False
        then have "r' = r2" using res by simp
        then show ?thesis using skip False spec by simp
      qed
    qed
  qed
qed

text \<open>a poll throws only when it could not write that a command was skipped, and then nothing it read out is lost: every
  command up to the one it skipped has been handled.\<close>

theorem failed_poll_loses_nothing:
  assumes "no_gap r" "poll seq_text files now ok r t = (None, r', t')"
  shows "done_upto r' = delivered r' \<and> (\<exists>n. \<not> ok n)"
proof -
  have "no_gap (see_seq seq_text r)" using assms(1) by (simp add: no_gap_def see_seq_spec)
  then have "done_upto r' = delivered r'" using assms(2) poll_loop_throws unfolding poll_def by blast
  moreover have "\<exists>n. \<not> ok n"
  proof (rule ccontr)
    assume "\<nexists>n. \<not> ok n"
    then have "ok n" for n by blast
    from poll_loop_spec [where ok = ok and files = files and now = now and out = "[]" and r = "see_seq seq_text r" and t = t, OF this]
    show False using assms(2) unfolding poll_def by auto
  qed
  ultimately show ?thesis by blast
qed

subsection \<open>A gap\<close>

definition cr_start :: reader where
  "cr_start = \<lparr>highWater = 3, done_upto = 1, delivered = 3, handledAbove = [], stuckSince = None, done_writes = 0\<rparr>"

text \<open>Reporting a later command first, and then everything up to an earlier one, leaves a gap: command 3 is handled and
  \<^verbatim>\<open>commands.done\<close> stays at 2, so a restart reads command 3 out again.\<close>

lemma through_keeps_gap:
  "let r = markHandledThrough 2 (markHandled 3 cr_start) in done_upto r = 2 \<and> handledAbove r = [3] \<and> \<not> no_gap r"
proof -
  have "advance (Suc 0) [3] = (1, [3])" by (subst advance.simps) simp
  then show ?thesis
    by (simp add: cr_start_def markHandled_def set_add_def markHandledThrough_def persist_def Let_def no_gap_def)
qed

subsection \<open>Witnesses\<close>

definition cr_cmd :: jsval where
  "cr_cmd = JObj [(''id'', JNum 2), (''ts'', JNum 5), (''type'', JStr ''stop'')]"

lemma cr_parse: "parseCloudCommand cr_cmd = Inr cr_cmd" "\<exists>e. parseCloudCommand JNull = Inl e"
  by (simp_all add: cr_cmd_def parseCloudCommand_def cloudCommand_def both_def commandEnvelope_shape_def commandPayload_def
      union_check_def variants_of_def command_shapes_def obj_def Let_def literals_def literal_check_def int_check_def epochMs_def
      MAX_SAFE_INTEGER_def spread_def own_fields_def fail_def)

text \<open>The number is shown as 2, then as 1; command 1 is bad and command 2 good; the harness restarts after handling both and writing.\<close>

definition cr_actions :: "reader_action list" where
  "cr_actions = [SeeSeq (Some ''2''), ReadNext (FileText (Some JNull)) 0, SeeSeq (Some ''1''), ReadNext (FileText (Some cr_cmd)) 0,
     WriteDone True]"

lemma cr_seq: "parseCommandSeq ''2'' = Some 2" "parseCommandSeq ''1'' = Some 1"
  by code_simp+

lemma cr_run:
  "reader_run cr_actions (restart None {}) =
     \<lparr>the_reader = \<lparr>highWater = 2, done_upto = 1, delivered = 2, handledAbove = [], stuckSince = None, done_writes = 0\<rparr>,
      done_file = Some ([CHR ''1'', CHR 0x0A]), started_at = 0,
      read_out = [(1, Skip), (2, Command cr_cmd)], shown = {1, 2}, handled = {1}\<rparr>"
proof -
  have 1: "advance 0 [1] = (1, [])" by (simp add: advance.simps)
  have 2: "poll_step (FileText (Some JNull)) 0 \<lparr>highWater = 2, done_upto = 0, delivered = 0, handledAbove = [], stuckSince = None,
      done_writes = 0\<rparr> = (Skip, \<lparr>highWater = 2, done_upto = 1, delivered = 1, handledAbove = [], stuckSince = None, done_writes = 1\<rparr>)"
    using cr_parse(2) 1
    by (auto simp: poll_step_def read_command_def markHandled_def set_add_def persist_def)
  have 3: "poll_step (FileText (Some cr_cmd)) 0 \<lparr>highWater = 2, done_upto = Suc 0, delivered = Suc 0, handledAbove = [], stuckSince = None,
      done_writes = Suc 0\<rparr> = (Command cr_cmd, \<lparr>highWater = 2, done_upto = 1, delivered = 2, handledAbove = [], stuckSince = None, done_writes = 1\<rparr>)"
    by (simp add: poll_step_def read_command_def cr_parse) (simp add: cr_cmd_def)
  have 4: "formatCommandSeq 1 = Inr [CHR ''1'', CHR 0x0A]" by (simp add: formatCommandSeq_def MAX_SAFE_INTEGER_def) code_simp
  show ?thesis
    by (simp add: cr_actions_def restart_def open_reader_def see_seq_def seq_value_def cr_seq 2 3 write_done_def 4 Let_def insert_commute)
qed

theorem commands_in_order_witness:
  "map fst (read_out (reader_run cr_actions (restart None {}))) = [1, 2]"
proof -
  have "all_given cr_actions (restart None {})" by (simp add: cr_actions_def reports_given_def)
  from commands_in_order [OF this _ refl] show ?thesis by (simp add: cr_run file_value_def seq_value_def)
qed

theorem nothing_unhandled_skipped_witness:
  "2 \<notin> handled (reader_run cr_actions (restart None {})) \<and> delivered (the_reader (reader_act Restart (reader_run cr_actions (restart None {})))) < 2"
proof -
  have "all_given cr_actions (restart None {})" by (simp add: cr_actions_def reports_given_def)
  from nothing_unhandled_skipped [OF this _ refl]
  have "{n. 1 \<le> n} - handled (reader_run cr_actions (restart None {})) \<subseteq>
      {n. delivered (the_reader (reader_act Restart (reader_run cr_actions (restart None {})))) < n}"
    by (simp add: file_value_def seq_value_def)
  moreover have "2 \<notin> handled (reader_run cr_actions (restart None {}))" by (simp add: cr_run)
  moreover from this have "2 \<in> {n. 1 \<le> n} - handled (reader_run cr_actions (restart None {}))" by simp
  ultimately show ?thesis by blast
qed

theorem poll_takes_all_ready_witness:
  "\<exists>cmds r' t'. poll (Some ''2'') (\<lambda>_. NoFile) 0 (\<lambda>_. True) (open_reader None) None = (Some cmds, r', t') \<and> cmds = []"
proof -
  from poll_takes_all_ready [of "\<lambda>_. True" "open_reader None" "Some ''2''" "\<lambda>_. NoFile" 0 None]
  obtain cmds ns r' t' where p: "poll (Some ''2'') (\<lambda>_. NoFile) 0 (\<lambda>_. True) (open_reader None) None = (Some cmds, r', t')" by auto
  moreover from this have "cmds = []"
    by (simp add: poll_def see_seq_def cr_seq open_reader_def poll_loop.simps poll_step_def read_command_def stuck_def Let_def)
  ultimately show ?thesis by blast
qed

theorem skipped_after_grace_witness:
  "read_all 1 NoFile [0, 5000, 14999, 15000] (open_reader None) = [Wait, Wait, Wait, Skip]"
  using skipped_after_grace [of NoFile "open_reader None" 1 0 "[5000, 14999]" 15000]
  by (simp add: open_reader_def COMMAND_GRACE_MS_def)

theorem failed_poll_loses_nothing_witness:
  "\<exists>r' t'. poll (Some ''1'') (\<lambda>_. FileText (Some JNull)) 0 (\<lambda>_. False) (open_reader None) None = (None, r', t') \<and>
     done_upto r' = delivered r'"
proof -
  have "advance 0 [1] = (1, [])" by (simp add: advance.simps)
  then obtain r' t' where "poll (Some ''1'') (\<lambda>_. FileText (Some JNull)) 0 (\<lambda>_. False) (open_reader None) None = (None, r', t')"
    using cr_parse(2)
    by (auto simp: poll_def see_seq_def cr_seq open_reader_def poll_loop.simps poll_step_def read_command_def markHandled_def
        set_add_def persist_def write_done_def formatCommandSeq_def MAX_SAFE_INTEGER_def Let_def)
  moreover have "no_gap (open_reader None)" by (simp add: no_gap_def)
  ultimately show ?thesis using failed_poll_loses_nothing by blast
qed

end
