(* ===== verification/CloudEvents.thy ===== *)
theory CloudEvents
  imports Commands
begin

text \<open>
  The events a cloud session logs and clients read:
  \<^verbatim>\<open>ts-shared/legalese-agent/src/protocol/events.ts\<close>, with the chat events of \<^verbatim>\<open>src/events.ts\<close>.

  Bytes and text are both lists of characters. \<^verbatim>\<open>JSON.parse\<close> (\<open>J\<close>, \<open>None\<close> when it throws) and the decoding of
  UTF-8 (\<open>D\<close>) are parameters.
\<close>

subsection \<open>The payload of each event\<close>

definition GIT_SUMMARY_MAX :: nat where
  "GIT_SUMMARY_MAX = 200"

definition lower_hex :: "char \<Rightarrow> bool" where
  "lower_hex c \<longleftrightarrow> is_digit c \<or> c \<in> set ''abcdef''"

definition GIT_SHA_RE :: "string \<Rightarrow> bool" where
  "GIT_SHA_RE s \<longleftrightarrow> (length s = 40 \<or> length s = 64) \<and> list_all lower_hex s"

definition upto :: "nat \<Rightarrow> check" where
  "upto n = str_check \<lparr>s_min = 0, s_max = n, s_pattern = None\<rparr>"

definition text_check :: check where
  "text_check = upto 1000000"

definition sha_check :: check where
  "sha_check = pattern_str GIT_SHA_RE"

definition toolStatus :: check where
  "toolStatus = literals [''running'', ''done'', ''error'']"

definition of_type :: "string \<Rightarrow> shape" where
  "of_type t = [(''type'', Required (literals [t]))]"

definition in_conversation :: "string \<Rightarrow> shape" where
  "in_conversation t = [(''type'', Required (literals [t])), (''conversationId'', Required opaqueId)]"

definition tool_activity_shape :: shape where
  "tool_activity_shape = in_conversation ''tool-activity'' @
     [(''tool'', Required (upto 256)),
      (''status'', Required toolStatus),
      (''label'', Optional (upto 256)),
      (''message'', Required text_check),
      (''input'', Optional (json_check 1000000)),
      (''output'', Optional (json_check 1000000)),
      (''ruleId'', Optional (upto 512)),
      (''deploymentId'', Optional (upto 256)),
      (''error'', Optional text_check),
      (''sources'', Optional (arr (obj [(''url'', Required (upto 4096)), (''title'', Optional (upto 1024))]) 200))]"

definition tool_call_shape :: shape where
  "tool_call_shape = in_conversation ''tool-call'' @
     [(''callId'', Required opaqueId),
      (''name'', Required (upto 256)),
      (''argsJson'', Required text_check),
      (''status'', Required (literals [''pending-approval'', ''running'', ''done'', ''error''])),
      (''result'', Optional text_check),
      (''error'', Optional text_check),
      (''ruleFnName'', Optional (upto 512)),
      (''deploymentId'', Optional (upto 256))]"

text \<open>The events of the chat service.\<close>

definition chat_shapes :: "(string \<times> shape) list" where
  "chat_shapes =
     [(''started'', in_conversation ''started'' @ [(''turnId'', Required opaqueId), (''model'', Required (upto 256))]),
      (''text-delta'', in_conversation ''text-delta'' @ [(''text'', Required text_check)]),
      (''thinking-delta'', in_conversation ''thinking-delta'' @ [(''text'', Required text_check)]),
      (''tool-activity'', tool_activity_shape),
      (''tool-call'', tool_call_shape),
      (''done'', in_conversation ''done'' @
        [(''finishReason'', Required (upto 64)),
         (''usage'', Optional (obj
            [(''promptTokens'', Required (int_check 0 MAX_SAFE_INTEGER)),
             (''completionTokens'', Required (int_check 0 MAX_SAFE_INTEGER))]))]),
      (''error'', in_conversation ''error'' @ [(''message'', Required text_check), (''code'', Optional (upto 128))]),
      (''turn-spawn'', in_conversation ''turn-spawn'' @ [(''subTurnId'', Required opaqueId)]),
      (''queue-consumed'', in_conversation ''queue-consumed'' @ [(''injectionIds'', Required (arr opaqueId 1000))])]"

text \<open>The events only a cloud session has.\<close>

definition cloud_shapes :: "(string \<times> shape) list" where
  "cloud_shapes =
     [(''user-message'', of_type ''user-message'' @
        [(''turnId'', Required opaqueId), (''text'', Required text_check),
         (''attachments'', Required (arr attachmentRef 50))]),
      (''ask-user'', in_conversation ''ask-user'' @
        [(''turnId'', Required opaqueId), (''callId'', Required opaqueId), (''question'', Required text_check),
         (''choices'', Optional (arr (upto 4096) 50))]),
      (''session-state'', of_type ''session-state'' @
        [(''state'', Required sessionState),
         (''publicKey'', Optional (str_check \<lparr>s_min = 43, s_max = 43, s_pattern = Some B64URL_RE\<rparr>))]),
      (''git-committed'', of_type ''git-committed'' @
        [(''turnId'', Required opaqueId), (''sha'', Required sha_check), (''parent'', Required sha_check),
         (''summary'', Optional (str_check \<lparr>s_min = 1, s_max = GIT_SUMMARY_MAX, s_pattern = None\<rparr>))]),
      (''rolled-back'', of_type ''rolled-back'' @ [(''turnId'', Required opaqueId), (''sha'', Required sha_check)]),
      (''local-merged'', of_type ''local-merged'' @ [(''sha'', Required sha_check)]),
      (''files-added'', of_type ''files-added'' @
        [(''batchId'', Required (pattern_str ULID_RE)),
         (''files'', Required (arr (obj [(''path'', Required repoDataPath), (''sha'', Optional sha_check)]) 500))]),
      (''local-merge-conflict'', of_type ''local-merge-conflict'' @
        [(''files'', Required (arr (str_check \<lparr>s_min = 1, s_max = 4096, s_pattern = None\<rparr>) 1000))]),
      (''auth-required'', of_type ''auth-required'' @
        [(''reason'', Required (literals [''invalid_key'', ''chain_expired'', ''chain_forked'', ''mcp''])),
         (''server'', Optional (upto 64))])]"

definition CLOUD_EVENT_TYPES :: "string list" where
  "CLOUD_EVENT_TYPES = map fst (chat_shapes @ cloud_shapes)"

definition envelope_shape :: shape where
  "envelope_shape = [(''seq'', Required (int_check 1 MAX_SAFE_INTEGER)), (''ts'', Required epochMs)]"

definition event_payload :: check where
  "event_payload = union_check ''type'' (variants_of (chat_shapes @ cloud_shapes))"

definition cloudEvent :: check where
  "cloudEvent = both (obj envelope_shape) event_payload"

definition parseCloudEvent :: "jsval \<Rightarrow> protocol_error + jsval" where
  "parseCloudEvent v = cloudEvent v ''event''"

subsection \<open>Chat events and cloud events\<close>

definition chatEventToPayload :: "jsval \<Rightarrow> jsval" where
  "chatEventToPayload event =
     JObj (spread [(''type'', js_prop event ''kind'')] (jm_delete ''kind'' (own_fields event)))"

definition CHAT_KINDS :: "string list" where
  "CHAT_KINDS = [''started'', ''text-delta'', ''thinking-delta'', ''tool-activity'', ''tool-call'', ''done'', ''error'',
     ''turn-spawn'', ''queue-consumed'']"

definition cloudEventToChatEvent :: "jsval \<Rightarrow> jsval option" where
  "cloudEventToChatEvent event =
     (if js_prop event ''type'' \<notin> JStr ` set CHAT_KINDS then None
      else Some (JObj (spread [(''kind'', js_prop event ''type'')]
        (jm_delete ''type'' (jm_delete ''ts'' (jm_delete ''seq'' (own_fields event)))))))"

subsection \<open>Lines\<close>

abbreviation LF :: char where
  "LF \<equiv> CHR 0x0A"

definition formatEventLine :: "jsval \<Rightarrow> string" where
  "formatEventLine event = json_text event @ [LF]"

text \<open>\<^verbatim>\<open>!line.trim()\<close>.\<close>

definition blank :: "string \<Rightarrow> bool" where
  "blank l \<longleftrightarrow> list_all white_space l"

text \<open>\<^verbatim>\<open>buf.lastIndexOf(0x0a)\<close>.\<close>

definition lastLF :: "string \<Rightarrow> nat option" where
  "lastLF buf =
     (if LF \<in> set buf then Some (length buf - 1 - length (takeWhile (\<lambda>c. c \<noteq> LF) (rev buf))) else None)"

fun parse_lines :: "(string \<Rightarrow> jsval option) \<Rightarrow> string list \<Rightarrow> jsval list \<times> nat" where
  "parse_lines J [] = ([], 0)"
| "parse_lines J (l # ls) =
     (let (es, invalid) = parse_lines J ls
      in if blank l then (es, invalid)
         else (case J l of
                 None \<Rightarrow> (es, invalid + 1)
               | Some v \<Rightarrow> (case parseCloudEvent v of Inl _ \<Rightarrow> (es, invalid + 1) | Inr e \<Rightarrow> (e # es, invalid))))"

definition parseEventChunk :: "(string \<Rightarrow> jsval option) \<Rightarrow> (string \<Rightarrow> string) \<Rightarrow> string \<Rightarrow> jsval list \<times> nat \<times> nat" where
  "parseEventChunk J D chunk =
     (case lastLF chunk of
        None \<Rightarrow> ([], 0, 0)
      | Some e \<Rightarrow>
          (let (es, invalid) = parse_lines J (split_on LF (D (take e chunk)))
           in (es, e + 1, invalid)))"

subsection \<open>The laws of the checks\<close>

lemma upto_law: "scalar_law (upto n)"
  unfolding upto_def by (rule str_law)

lemma text_law: "scalar_law text_check"
  unfolding text_check_def by (rule upto_law)

lemma sha_law: "scalar_law sha_check"
  unfolding sha_check_def by (rule pattern_law)

lemma toolStatus_law: "scalar_law toolStatus"
  unfolding toolStatus_def by (rule literals_law)

lemma sessionState_law: "scalar_law sessionState"
  unfolding sessionState_def by (rule literals_law)

lemma fileName_law: "scalar_law fileName"
  unfolding fileName_def by (rule pattern_law)

lemmas event_scalars = upto_law text_law sha_law toolStatus_law sessionState_law fileName_law

lemmas [check_intros] = event_scalars [THEN scalar_field] event_scalars [THEN scalar_field, THEN field_check]

lemma attachmentRef_law [check_intros]: "check_law attachmentRef"
  unfolding attachmentRef_def by (auto intro!: check_intros)

text \<open>
  A value that is not JSON, \<^verbatim>\<open>NaN\<close>, becomes null in an \<^verbatim>\<open>input\<close> or \<^verbatim>\<open>output\<close>, and null is no value of an
  optional field. The checks that refuse it there obey the laws, and agree with the code's on every event
  without such a null.
\<close>

definition strict_json :: check where
  "strict_json v p = (case json_check 1000000 v p of
     Inl e \<Rightarrow> Inl e
   | Inr w \<Rightarrow> if w = JUndefined \<or> w = JNull then fail p ''null'' else Inr w)"

definition free_keys :: "string set" where
  "free_keys = {''input'', ''output''}"

definition strict_field :: "string \<times> field \<Rightarrow> string \<times> field" where
  "strict_field x = (if fst x \<in> free_keys then (fst x, Optional strict_json) else x)"

definition strict_shapes :: "(string \<times> shape) list" where
  "strict_shapes = map (\<lambda>x. if fst x = ''tool-activity'' then (fst x, map strict_field (snd x)) else x)
     (chat_shapes @ cloud_shapes)"

definition strict_payload :: check where
  "strict_payload = union_check ''type'' (variants_of strict_shapes)"

lemma strict_json_law: "field_law strict_json"
  unfolding strict_json_def using json.idem
  by unfold_locales (fastforce split: sum.splits if_splits)+

lemmas [check_intros] = strict_json_law strict_json_law [THEN field_check]

lemma strict_shapes_typed: "typed_shapes strict_shapes"
  unfolding typed_shapes_def strict_shapes_def chat_shapes_def cloud_shapes_def tool_activity_shape_def tool_call_shape_def
    in_conversation_def of_type_def
  by (auto simp: strict_field_def free_keys_def intro!: check_intros)

text \<open>Swapping the check of some optional fields, when both give what the field has in the end.\<close>

lemma check_fields_swap:
  assumes "check_fields p v sh acc = Inr out" "distinct (map fst acc)" "distinct (map fst sh)"
    and "\<And>k f. (k, f) \<in> set sh \<Longrightarrow> g (k, f) = (k, f) \<or> (\<exists>c d. f = Optional c \<and> g (k, f) = (k, Optional d) \<and>
      (\<forall>x q w. x \<noteq> JUndefined \<longrightarrow> c x q = Inr w \<longrightarrow> map_of out k = Some w \<longrightarrow> d x q = Inr w))"
  shows "check_fields p v (map g sh) acc = Inr out"
  using assms
proof (induction sh arbitrary: acc)
  case (Cons kf sh)
  obtain key f where kf: "kf = (key, f)" by fastforce
  have IH: "check_fields p v (map g sh) a = Inr out" if "check_fields p v sh a = Inr out" "distinct (map fst a)" for a
    using Cons.IH [OF that] Cons.prems(3,4) by simp
  have put: "distinct (map fst (jm_set key w acc))" for w using Cons.prems(2) by (rule distinct_update)
  consider (same) "g (key, f) = (key, f)"
    | (swap) c d where "f = Optional c" "g (key, f) = (key, Optional d)"
      "\<And>x q w. x \<noteq> JUndefined \<Longrightarrow> c x q = Inr w \<Longrightarrow> map_of out key = Some w \<Longrightarrow> d x q = Inr w"
    using Cons.prems(4) [of key f] unfolding kf by auto
  then show ?case
  proof cases
    case same
    then show ?thesis
      using Cons.prems(1,2) IH put
      by (auto simp: kf Let_def split: field.splits sum.splits if_splits)
  next
    case swap
    show ?thesis
    proof (cases "raw_field v key = JUndefined \<or> raw_field v key = JNull")
      case True
      then show ?thesis using Cons.prems(1,2) IH by (auto simp: kf Let_def swap(1) swap(2) [unfolded swap(1)])
    next
      case False
      then obtain w where w: "c (raw_field v key) (if p \<noteq> [] then p @ ''.'' @ key else key) = Inr w"
        "check_fields p v sh (jm_set key w acc) = Inr out"
        using Cons.prems(1) by (auto simp: kf Let_def swap(1) split: sum.splits)
      have "map_of out key = Some w"
        using check_fields_keys [OF w(2) put] Cons.prems(3) by (simp add: kf update_conv')
      then have "d (raw_field v key) (if p \<noteq> [] then p @ ''.'' @ key else key) = Inr w"
        using swap(3) False w(1) by blast
      then show ?thesis using False IH [OF w(2) put] by (simp add: kf Let_def swap(1) swap(2) [unfolded swap(1)])
    qed
  qed
qed simp

lemma obj_swap:
  assumes "obj sh v p = Inr (JObj out)" "distinct (map fst sh)"
    and "\<And>k f. (k, f) \<in> set sh \<Longrightarrow> g (k, f) = (k, f) \<or> (\<exists>c d. f = Optional c \<and> g (k, f) = (k, Optional d) \<and>
      (\<forall>x q w. x \<noteq> JUndefined \<longrightarrow> c x q = Inr w \<longrightarrow> map_of out k = Some w \<longrightarrow> d x q = Inr w))"
  shows "obj (map g sh) v p = Inr (JObj out)"
  using assms(1) check_fields_swap [OF _ _ assms(2,3), of p _ "[]"]
  by (auto simp: obj_def split: jsval.splits sum.splits)

lemma map_of_strict: "map_of strict_shapes name =
    (if name = ''tool-activity'' then Some (map strict_field tool_activity_shape) else map_of (chat_shapes @ cloud_shapes) name)"
proof -
  have "map_of (chat_shapes @ cloud_shapes) ''tool-activity'' = Some tool_activity_shape"
    by (simp add: chat_shapes_def)
  moreover have "map_of (map (\<lambda>x. if fst x = t then (fst x, h (snd x)) else x) xs) name =
      (if name = t then map_option h (map_of xs name) else map_of xs name)" for t and h :: "shape \<Rightarrow> shape" and xs
    by (induction xs) auto
  ultimately show ?thesis unfolding strict_shapes_def by (simp del: map_append map_of_append)
qed

definition no_null :: "(string \<times> jsval) list \<Rightarrow> bool" where
  "no_null out \<longleftrightarrow> (\<forall>k\<in>free_keys. map_of out k \<noteq> Some JNull)"

lemma obj_strict_iff:
  assumes "no_null out"
  shows "obj tool_activity_shape v p = Inr (JObj out) \<longleftrightarrow> obj (map strict_field tool_activity_shape) v p = Inr (JObj out)"
proof
  have "\<forall>x\<in>set tool_activity_shape. fst x \<in> free_keys \<longrightarrow> snd x = Optional (json_check 1000000)"
    by (simp add: tool_activity_shape_def in_conversation_def free_keys_def)
  then have free: "k \<in> free_keys \<Longrightarrow> f = Optional (json_check 1000000)" if "(k, f) \<in> set tool_activity_shape" for k f
    using that by fastforce
  have keys: "distinct (map fst tool_activity_shape)"
    by (simp add: tool_activity_shape_def in_conversation_def)
  have strict: "strict_json x q = Inr w" if "x \<noteq> JUndefined" "json_check 1000000 x q = Inr w" "w \<noteq> JNull" for x q w
    using that by (auto simp: strict_json_def json_check_def split: option.splits if_splits)
  have json: "json_check 1000000 x q = Inr w" if "strict_json x q = Inr w" for x q w
    using that by (auto simp: strict_json_def split: sum.splits if_splits)
  show "obj (map strict_field tool_activity_shape) v p = Inr (JObj out)" if a: "obj tool_activity_shape v p = Inr (JObj out)"
  proof (rule obj_swap [OF a keys])
    fix k f assume k: "(k, f) \<in> set tool_activity_shape"
    show "strict_field (k, f) = (k, f) \<or> (\<exists>c d. f = Optional c \<and> strict_field (k, f) = (k, Optional d) \<and>
        (\<forall>x q w. x \<noteq> JUndefined \<longrightarrow> c x q = Inr w \<longrightarrow> map_of out k = Some w \<longrightarrow> d x q = Inr w))"
    proof (cases "k \<in> free_keys")
      case True
      then have "map_of out k \<noteq> Some JNull" using assms by (simp add: no_null_def)
      then show ?thesis using strict free [OF k True] True
        by (intro disjI2 exI [of _ "json_check 1000000"] exI [of _ strict_json]) (auto simp: strict_field_def)
    qed (simp add: strict_field_def)
  qed
  let ?undo = "\<lambda>x. if fst x \<in> free_keys then (fst x, Optional (json_check 1000000)) else x"
  have undo: "map ?undo (map strict_field tool_activity_shape) = tool_activity_shape"
    using free by (auto simp: strict_field_def intro!: map_idI)
  have dist: "distinct (map fst (map strict_field tool_activity_shape))"
    using keys by (simp add: comp_def strict_field_def if_distrib cong: if_cong)
  have "obj (map ?undo (map strict_field tool_activity_shape)) v p = Inr (JObj out)"
    if a: "obj (map strict_field tool_activity_shape) v p = Inr (JObj out)"
  proof (rule obj_swap [OF a dist])
    fix k f assume k: "(k, f) \<in> set (map strict_field tool_activity_shape)"
    show "?undo (k, f) = (k, f) \<or> (\<exists>c d. f = Optional c \<and> ?undo (k, f) = (k, Optional d) \<and>
        (\<forall>x q w. x \<noteq> JUndefined \<longrightarrow> c x q = Inr w \<longrightarrow> map_of out k = Some w \<longrightarrow> d x q = Inr w))"
    proof (cases "k \<in> free_keys")
      case True
      then have "f = Optional strict_json" using k by (auto simp: strict_field_def split: if_splits)
      then show ?thesis using json True
        by (intro disjI2 exI [of _ strict_json] exI [of _ "json_check 1000000"]) auto
    qed simp
  qed
  then show "obj tool_activity_shape v p = Inr (JObj out)" if "obj (map strict_field tool_activity_shape) v p = Inr (JObj out)"
    using that unfolding undo .
qed

lemma payload_strict_iff:
  assumes "no_null out"
  shows "event_payload v p = Inr (JObj out) \<longleftrightarrow> strict_payload v p = Inr (JObj out)"
proof -
  have "map_of (chat_shapes @ cloud_shapes) ''tool-activity'' = Some tool_activity_shape" by (simp add: chat_shapes_def)
  then have "(\<exists>sh. map_of (chat_shapes @ cloud_shapes) name = Some sh \<and> obj sh v p = Inr (JObj out)) \<longleftrightarrow>
      (\<exists>sh. map_of strict_shapes name = Some sh \<and> obj sh v p = Inr (JObj out))" for name
    using obj_strict_iff [OF assms] by (auto simp: map_of_strict)
  then show ?thesis unfolding event_payload_def strict_payload_def union_check_iff by blast
qed

lemma strict_payload_law: "object_law strict_payload (shape_keys strict_shapes)"
  unfolding strict_payload_def by (rule typed_union_law [OF strict_shapes_typed])

interpretation strict: object_law strict_payload "shape_keys strict_shapes"
  by (rule strict_payload_law)

lemma event_envelope_law: "object_law (obj envelope_shape) {''seq'', ''ts''}"
proof -
  have "shape_ok envelope_shape" unfolding envelope_shape_def by (intro check_intros) auto
  from obj_law [OF this] show ?thesis by (simp add: envelope_shape_def)
qed

interpretation event_envelope: object_law "obj envelope_shape" "{''seq'', ''ts''}"
  by (rule event_envelope_law)

lemma event_keys: "shape_keys strict_shapes = shape_keys (chat_shapes @ cloud_shapes)"
  "{''seq'', ''ts''} \<inter> shape_keys strict_shapes = {}"
proof -
  have field: "fst ` strict_field ` A = fst ` A" for A
  proof -
    have "fst (strict_field x) = fst x" for x by (simp add: strict_field_def)
    then show ?thesis unfolding image_image by (rule image_cong [OF refl])
  qed
  have "fst ` set (snd (if fst x = ''tool-activity'' then (fst x, map strict_field (snd x)) else x)) = fst ` set (snd x)"
    for x :: "string \<times> shape"
    using field [of "set (snd x)"] by simp
  then show "shape_keys strict_shapes = shape_keys (chat_shapes @ cloud_shapes)"
    unfolding shape_keys_def strict_shapes_def set_map by (simp only: UN_simps(10))
  then show "{''seq'', ''ts''} \<inter> shape_keys strict_shapes = {}"
    by (simp add: shape_keys_def chat_shapes_def cloud_shapes_def tool_activity_shape_def tool_call_shape_def
        in_conversation_def of_type_def)
qed

lemma payload_clean:
  "event_payload v p = Inr w \<Longrightarrow>
     \<exists>out. w = JObj out \<and> distinct (map fst out) \<and> fst ` set out \<subseteq> shape_keys (chat_shapes @ cloud_shapes)"
  unfolding event_payload_def union_check_iff
proof (elim exE conjE)
  fix fs name sh
  assume sh: "map_of (chat_shapes @ cloud_shapes) name = Some sh" "obj sh v p = Inr w"
  have "fst ` set sh \<subseteq> shape_keys (chat_shapes @ cloud_shapes)"
    using UN_upper [OF map_of_SomeD [OF sh(1)], of "\<lambda>x. fst ` set (snd x)"] by (simp add: shape_keys_def)
  moreover from obj_clean [OF sh(2)] obtain out where
    "w = JObj out" "distinct (map fst out)" "fst ` set out \<subseteq> fst ` set sh" by blast
  ultimately show "\<exists>out. w = JObj out \<and> distinct (map fst out) \<and> fst ` set out \<subseteq> shape_keys (chat_shapes @ cloud_shapes)"
    by (intro exI [of _ out] conjI) (assumption | erule (1) subset_trans)+
qed

lemma payload_stable:
  assumes "event_payload v p = Inr (JObj out)" "no_null out"
    and "\<And>k. k \<in> shape_keys (chat_shapes @ cloud_shapes) \<Longrightarrow> map_of fs k = map_of out k"
  shows "event_payload (JObj fs) q = Inr (JObj out)"
  using assms strict.stable [of v p out fs q] by (simp add: payload_strict_iff event_keys(1))

text \<open>What the log holds and its reader checks: an envelope, then a payload.\<close>

lemma cloudEvent_parts:
  assumes "cloudEvent v p = Inr w"
  shows "\<exists>x y. obj envelope_shape v p = Inr (JObj x) \<and> event_payload v p = Inr (JObj y) \<and> w = JObj (x @ y) \<and>
    distinct (map fst (x @ y)) \<and> fst ` set x \<subseteq> {''seq'', ''ts''} \<and> fst ` set y \<subseteq> shape_keys (chat_shapes @ cloud_shapes)"
  by (rule both_parts [OF event_envelope.clean payload_clean event_keys(2) [unfolded event_keys(1)]
      assms [unfolded cloudEvent_def]])

lemma cloudEvent_join:
  assumes "obj envelope_shape v p = Inr (JObj x)" "event_payload v' p' = Inr (JObj y)" "no_null y"
  shows "cloudEvent (JObj (x @ y)) q = Inr (JObj (x @ y))"
proof -
  from event_envelope.clean [OF assms(1)] have x: "distinct (map fst x)" "fst ` set x \<subseteq> {''seq'', ''ts''}" by auto
  from payload_clean [OF assms(2)] have y: "distinct (map fst y)" "fst ` set y \<subseteq> shape_keys (chat_shapes @ cloud_shapes)" by auto
  note keys = event_keys(2) [unfolded event_keys(1)]
  have "map_of y k = None" if "k \<in> {''seq'', ''ts''}" for k
    using that y(2) keys by (intro map_of_eq_None_iff [THEN iffD2]) blast
  then have "obj envelope_shape (JObj (x @ y)) q = Inr (JObj x)"
    by (intro event_envelope.stable [OF assms(1)]) (simp add: map_add_def split: option.split)
  moreover have "map_of x k = None" if "k \<in> shape_keys (chat_shapes @ cloud_shapes)" for k
    using that x(2) keys by (intro map_of_eq_None_iff [THEN iffD2]) blast
  then have "event_payload (JObj (x @ y)) q = Inr (JObj y)"
    by (intro payload_stable [OF assms(2,3)]) (simp add: map_add_def)
  moreover have "spread x y = x @ y" using x y keys by (intro spread_disjoint) blast+
  ultimately show ?thesis by (simp add: cloudEvent_def both_def own_fields_def)
qed

lemma cloudEvent_again:
  assumes "cloudEvent v p = Inr w" "\<And>k. k \<in> free_keys \<Longrightarrow> js_prop w k \<noteq> JNull"
  shows "cloudEvent w q = Inr w"
proof -
  from cloudEvent_parts [OF assms(1)] obtain x y where xy: "obj envelope_shape v p = Inr (JObj x)"
    "event_payload v p = Inr (JObj y)" "w = JObj (x @ y)" "distinct (map fst (x @ y))" by blast
  have "map_of (x @ y) k = Some z" if "map_of y k = Some z" for k z
  proof -
    have "k \<in> fst ` set y" using map_of_SomeD [OF that] by force
    then have "k \<notin> fst ` set x" using xy(4) by auto
    then show ?thesis using that by (simp add: map_add_def map_of_eq_None_iff [THEN iffD2])
  qed
  then have "no_null y" using assms(2) unfolding xy(3) no_null_def by fastforce
  then show ?thesis using cloudEvent_join [OF xy(1,2)] unfolding xy(3) by blast
qed

text \<open>An event with a null \<^verbatim>\<open>input\<close> or \<^verbatim>\<open>output\<close>, which only a value that is not JSON leads to, is read back without that field.\<close>

definition drop_nulls :: "(string \<times> jsval) list \<Rightarrow> (string \<times> jsval) list" where
  "drop_nulls fs = filter (\<lambda>kv. \<not> (fst kv \<in> free_keys \<and> snd kv = JNull)) fs"

definition without_nulls :: "jsval \<Rightarrow> jsval" where
  "without_nulls e = JObj (drop_nulls (own_fields e))"

lemma drop_nulls_simps [simp]:
  "drop_nulls [] = []" "drop_nulls (xs @ ys) = drop_nulls xs @ drop_nulls ys"
  "drop_nulls [(k, v)] = (if k \<in> free_keys \<and> v = JNull then [] else [(k, v)])"
  by (simp_all add: drop_nulls_def)

lemma drop_nulls_keys: "fst ` set (drop_nulls fs) \<subseteq> fst ` set fs"
  by (auto simp: drop_nulls_def)

lemma map_of_drop_nulls:
  "distinct (map fst fs) \<Longrightarrow>
     map_of (drop_nulls fs) k = (if k \<in> free_keys \<and> map_of fs k = Some JNull then None else map_of fs k)"
  by (induction fs) (auto simp: drop_nulls_def map_of_eq_None_iff split: if_splits)

lemma no_null_drop: "distinct (map fst fs) \<Longrightarrow> no_null (drop_nulls fs)"
  by (simp add: no_null_def map_of_drop_nulls)

definition free_optional :: "shape \<Rightarrow> bool" where
  "free_optional sh \<longleftrightarrow> distinct (map fst sh) \<and> (\<forall>(k, f)\<in>set sh. k \<in> free_keys \<longrightarrow> (\<exists>c. f = Optional c))"

lemma shapes_free_optional: "map_of (chat_shapes @ cloud_shapes) name = Some sh \<Longrightarrow> free_optional sh"
proof -
  have "\<forall>x\<in>set (chat_shapes @ cloud_shapes). free_optional (snd x)"
    by (simp add: chat_shapes_def cloud_shapes_def tool_activity_shape_def tool_call_shape_def in_conversation_def of_type_def
        free_optional_def free_keys_def)
  then show "map_of (chat_shapes @ cloud_shapes) name = Some sh \<Longrightarrow> free_optional sh"
    by (metis map_of_SomeD snd_conv)
qed

text \<open>Without the value that became null the check gives the rest.\<close>

lemma check_fields_nulled:
  assumes "check_fields p v sh acc = Inr out" "free_optional sh" "fst ` set sh \<inter> fst ` set acc = {}" "distinct (map fst acc)"
    and "\<And>k. k \<in> fst ` set sh \<Longrightarrow>
      if k \<in> free_keys \<and> map_of out k = Some JNull then raw_field v' k \<in> {JUndefined, JNull} else raw_field v' k = raw_field v k"
  shows "check_fields p v' sh (drop_nulls acc) = Inr (drop_nulls out)"
  using assms
proof (induction sh arbitrary: acc)
  case (Cons kf sh)
  obtain key f where kf: "kf = (key, f)" by fastforce
  have sh: "free_optional sh" "key \<notin> fst ` set sh" "key \<in> free_keys \<Longrightarrow> \<exists>c. f = Optional c"
    using Cons.prems(2) by (auto simp: kf free_optional_def)
  have new: "key \<notin> fst ` set acc" using Cons.prems(3) by (simp add: kf)
  have raw: "if k \<in> free_keys \<and> map_of out k = Some JNull then raw_field v' k \<in> {JUndefined, JNull} else raw_field v' k = raw_field v k"
    if "k \<in> fst ` set sh \<or> k = key" for k
  proof -
    have "k \<in> fst ` set (kf # sh)" using that by (simp add: kf) blast
    then show ?thesis by (rule Cons.prems(5))
  qed
  note IH = Cons.IH [OF _ sh(1) _ _ raw [OF disjI1]]
  show ?case
  proof (cases "(\<exists>c. f = Optional c) \<and> (raw_field v key = JUndefined \<or> raw_field v key = JNull)")
    case True
    then obtain c where f: "f = Optional c" by blast
    have rest: "check_fields p v sh acc = Inr out" using Cons.prems(1) True by (auto simp: kf f Let_def)
    have "map_of out key = None"
      using check_fields_keys [OF rest Cons.prems(4)] sh(2) new by (simp add: map_of_eq_None_iff)
    then have "raw_field v' key = raw_field v key" using raw [of key] by simp
    then have "check_fields p v' ((key, f) # sh) (drop_nulls acc) = check_fields p v' sh (drop_nulls acc)"
      using True by (auto simp: f Let_def)
    then show ?thesis using IH [OF rest] Cons.prems(3,4) by (simp add: kf)
  next
    case False
    define c where "c = (case f of Required c \<Rightarrow> c | Optional c \<Rightarrow> c)"
    have set_new: "jm_set key w a = a @ [(key, w)]" if "key \<notin> fst ` set a" for w :: jsval and a
      using that by (intro jm_set_new) (simp add: map_of_eq_None_iff)
    obtain w where w: "c (raw_field v key) (if p \<noteq> [] then p @ ''.'' @ key else key) = Inr w"
      "check_fields p v sh (acc @ [(key, w)]) = Inr out"
      using Cons.prems(1) False set_new [OF new]
      by (auto simp: kf c_def Let_def split: field.splits sum.splits if_splits)
    have acc: "distinct (map fst (acc @ [(key, w)]))" "fst ` set sh \<inter> fst ` set (acc @ [(key, w)]) = {}"
      using Cons.prems(3,4) new sh(2) by (auto simp: kf)
    have "map_of out key = Some w"
      using check_fields_keys [OF w(2) acc(1)] sh(2) new by (simp add: map_add_def map_of_eq_None_iff [THEN iffD2])
    note here = raw [OF disjI2 [OF refl], unfolded this] and IH = IH [OF w(2) acc(2,1)]
    show ?thesis
    proof (cases "key \<in> free_keys \<and> w = JNull")
      case True
      then obtain c' where "f = Optional c'" using sh(3) by blast
      then show ?thesis using here True IH by (auto simp: kf Let_def)
    next
      case keep: False
      then have "raw_field v' key = raw_field v key" using here by auto
      moreover have "jm_set key w (drop_nulls acc) = drop_nulls (acc @ [(key, w)])"
        using keep new drop_nulls_keys [of acc] by (subst set_new) auto
      ultimately show ?thesis using IH w(1) False
        by (auto simp: kf c_def Let_def simp del: drop_nulls_simps split: field.splits)
    qed
  qed
qed simp

text \<open>To a check, null in an optional field is no field.\<close>

lemma check_fields_same:
  assumes "\<And>k f. (k, f) \<in> set sh \<Longrightarrow>
      raw_field v' k = raw_field v k \<or> (\<exists>c. f = Optional c) \<and> raw_field v k \<in> {JUndefined, JNull} \<and> raw_field v' k \<in> {JUndefined, JNull}"
  shows "check_fields p v' sh acc = check_fields p v sh acc"
  using assms
proof (induction sh arbitrary: acc)
  case (Cons kf sh)
  obtain key f where kf: "kf = (key, f)" by fastforce
  have "check_fields p v' sh a = check_fields p v sh a" for a using Cons by simp
  moreover have "raw_field v' key = raw_field v key \<or>
      (\<exists>c. f = Optional c) \<and> raw_field v key \<in> {JUndefined, JNull} \<and> raw_field v' key \<in> {JUndefined, JNull}"
    using Cons.prems [of key f] by (simp add: kf)
  ultimately show ?case by (elim disjE) (auto simp: kf Let_def split: field.split sum.split)
qed simp

lemma payload_nulled:
  assumes "event_payload v p = Inr (JObj y)"
  shows "\<exists>v'. event_payload v' p = Inr (JObj (drop_nulls y))"
proof -
  from assms obtain fs name sh where sh: "v = JObj fs" "map_of fs ''type'' = Some (JStr name)"
    "map_of (chat_shapes @ cloud_shapes) name = Some sh" "obj sh v p = Inr (JObj y)"
    unfolding event_payload_def union_check_iff by blast
  define fs' where "fs' = map (\<lambda>(k, z). (k, if k \<in> free_keys \<and> map_of y k = Some JNull then JNull else z)) fs"
  have get: "map_of fs' k = map_option (\<lambda>z. if k \<in> free_keys \<and> map_of y k = Some JNull then JNull else z) (map_of fs k)" for k
    unfolding fs'_def by (induction fs) auto
  have "check_fields p fs sh [] = Inr y" using sh(4) by (auto simp: sh(1) obj_def split: sum.splits)
  from check_fields_nulled [OF this shapes_free_optional [OF sh(3)], of fs']
  have "check_fields p fs' sh [] = Inr (drop_nulls y)" by (simp add: get split: option.split)
  then have "obj sh (JObj fs') p = Inr (JObj (drop_nulls y))" by (simp add: obj_def)
  moreover have "map_of fs' ''type'' = Some (JStr name)" by (simp add: get sh(2) free_keys_def)
  ultimately show ?thesis unfolding event_payload_def union_check_iff using sh(3) by blast
qed

lemma payload_same:
  assumes "event_payload (JObj fs) q = Inr w" "\<And>k. map_of fs' k = map_of fs k \<or> k \<in> free_keys \<and> raw_field fs k \<in> {JUndefined, JNull} \<and> raw_field fs' k \<in> {JUndefined, JNull}"
  shows "event_payload (JObj fs') q = Inr w"
proof -
  from assms(1) obtain name sh where sh: "map_of fs ''type'' = Some (JStr name)"
    "map_of (chat_shapes @ cloud_shapes) name = Some sh" "obj sh (JObj fs) q = Inr w"
    unfolding event_payload_def union_check_iff by blast
  have "raw_field fs' k = raw_field fs k \<or> (\<exists>c. f = Optional c) \<and> raw_field fs k \<in> {JUndefined, JNull} \<and> raw_field fs' k \<in> {JUndefined, JNull}"
    if "(k, f) \<in> set sh" for k f
    using assms(2) [of k] bspec [OF conjunct2 [OF shapes_free_optional [OF sh(2), unfolded free_optional_def]] that] by fastforce
  then have "check_fields q fs' sh [] = check_fields q fs sh []" by (rule check_fields_same)
  then have "obj sh (JObj fs') q = Inr w" using sh(3) by (simp add: obj_def)
  moreover have "map_of fs' ''type'' = Some (JStr name)" using assms(2) [of "''type''"] sh(1) by (auto simp: free_keys_def)
  ultimately show ?thesis unfolding event_payload_def union_check_iff using sh(2) by blast
qed

lemma cloudEvent_reread:
  assumes "cloudEvent v p = Inr e"
  shows "cloudEvent e q = Inr (without_nulls e)"
proof -
  from cloudEvent_parts [OF assms] obtain x y where xy: "obj envelope_shape v p = Inr (JObj x)" "event_payload v p = Inr (JObj y)"
    "e = JObj (x @ y)" "distinct (map fst (x @ y))" "fst ` set x \<subseteq> {''seq'', ''ts''}"
    "fst ` set y \<subseteq> shape_keys (chat_shapes @ cloud_shapes)" by blast
  note keys = event_keys(2) [unfolded event_keys(1)]
  obtain v' where v': "event_payload v' p = Inr (JObj (drop_nulls y))" using payload_nulled [OF xy(2)] by blast
  have dy: "distinct (map fst y)" using xy(4) by simp
  have none: "map_of y k = None" if "k \<in> {''seq'', ''ts''}" for k
    using that xy(6) keys by (intro map_of_eq_None_iff [THEN iffD2]) blast
  have none': "map_of x k = None" if "k \<in> shape_keys (chat_shapes @ cloud_shapes)" for k
    using that xy(5) keys by (intro map_of_eq_None_iff [THEN iffD2]) blast
  have env: "obj envelope_shape (JObj (x @ y)) q = Inr (JObj x)"
    by (intro event_envelope.stable [OF xy(1)]) (simp add: map_add_def none split: option.split)
  have "event_payload (JObj (x @ drop_nulls y)) q = Inr (JObj (drop_nulls y))"
    by (intro payload_stable [OF v' no_null_drop [OF dy]]) (simp add: map_add_def none' split: option.split)
  then have pay: "event_payload (JObj (x @ y)) q = Inr (JObj (drop_nulls y))"
  proof (rule payload_same)
    fix k
    have "map_of x k = None" if "k \<in> free_keys" using that xy(5) by (intro map_of_eq_None_iff [THEN iffD2]) (auto simp: free_keys_def)
    then show "map_of (x @ y) k = map_of (x @ drop_nulls y) k \<or>
        k \<in> free_keys \<and> raw_field (x @ drop_nulls y) k \<in> {JUndefined, JNull} \<and> raw_field (x @ y) k \<in> {JUndefined, JNull}"
      by (auto simp: map_add_def map_of_drop_nulls [OF dy] split: option.split)
  qed
  have "spread x (drop_nulls y) = x @ drop_nulls y"
    using xy(4) drop_nulls_keys [of y] distinct_map_filter [of fst y] by (intro spread_disjoint) (auto simp: drop_nulls_def)
  moreover have "drop_nulls x = x" using xy(5) by (auto simp: drop_nulls_def free_keys_def intro!: filter_True)
  ultimately show ?thesis using env pay by (simp add: cloudEvent_def both_def own_fields_def without_nulls_def xy(3))
qed

subsection \<open>Lines and chunks\<close>

text \<open>Decoding UTF-8 is by lines: no byte of a longer sequence is a line feed, and a malformed one does not
  swallow it.\<close>

definition by_lines :: "(string \<Rightarrow> string) \<Rightarrow> bool" where
  "by_lines D \<longleftrightarrow> D [] = [] \<and> (\<forall>a b. D (a @ LF # b) = D a @ LF # D b) \<and> (\<forall>a. LF \<notin> set a \<longrightarrow> LF \<notin> set (D a))"

lemma lastLF_append: "LF \<notin> set b \<Longrightarrow> lastLF (a @ LF # b) = Some (length a)"
proof -
  assume "LF \<notin> set b"
  then have "takeWhile (\<lambda>c. c \<noteq> LF) (rev b @ LF # rev a) = rev b"
    by (subst takeWhile_append2) auto
  then show ?thesis by (simp add: lastLF_def)
qed

lemma lastLF_none: "LF \<notin> set b \<Longrightarrow> lastLF b = None"
  by (simp add: lastLF_def)

lemma split_at_lastLF: "LF \<in> set s \<Longrightarrow> \<exists>a b. s = a @ LF # b \<and> LF \<notin> set b"
  by (rule split_list_last)

text \<open>A chunk is what its complete lines hold.\<close>

lemma parseEventChunk_lines:
  assumes "LF \<notin> set b"
  shows "parseEventChunk J D (a @ LF # b) =
    (let (es, invalid) = parse_lines J (split_on LF (D a)) in (es, length a + 1, invalid))"
  using assms by (simp add: parseEventChunk_def lastLF_append)

lemma parseEventChunk_none: "LF \<notin> set b \<Longrightarrow> parseEventChunk J D b = ([], 0, 0)"
  by (simp add: parseEventChunk_def lastLF_none)

lemma parse_lines_append:
  "parse_lines J (as @ bs) = (let (e1, i1) = parse_lines J as; (e2, i2) = parse_lines J bs in (e1 @ e2, i1 + i2))"
  by (induction as) (auto simp: Let_def split: prod.splits option.splits sum.splits)

lemma parse_lines_decoded:
  assumes "by_lines D"
  shows "parse_lines J (split_on LF (D (a @ LF # b))) =
    (let (e1, i1) = parse_lines J (split_on LF (D a)); (e2, i2) = parse_lines J (split_on LF (D b)) in (e1 @ e2, i1 + i2))"
  using assms by (simp add: by_lines_def split_on_append parse_lines_append)

lemma chunk_append:
  assumes "by_lines D"
  shows "parseEventChunk J D (a @ b) =
    (let (e1, n1, i1) = parseEventChunk J D a; (e2, n2, i2) = parseEventChunk J D (drop n1 a @ b)
     in (e1 @ e2, n1 + n2, i1 + i2))"
proof (cases "LF \<in> set a")
  case False
  then show ?thesis by (simp add: parseEventChunk_none split: prod.split)
next
  case True
  then obtain a1 a2 where a: "a = a1 @ LF # a2" "LF \<notin> set a2" using split_at_lastLF by blast
  show ?thesis
  proof (cases "LF \<in> set b")
    case False
    then have "parseEventChunk J D (a2 @ b) = ([], 0, 0)" "parseEventChunk J D (a @ b) = parseEventChunk J D a"
      using a(2) by (simp_all add: a(1) parseEventChunk_none parseEventChunk_lines)
    then show ?thesis by (simp add: a parseEventChunk_lines Let_def split: prod.split)
  next
    case True
    then obtain b1 b2 where b: "b = b1 @ LF # b2" "LF \<notin> set b2" using split_at_lastLF by blast
    have "parseEventChunk J D ((a1 @ LF # (a2 @ b1)) @ LF # b2) =
        (let (es, invalid) = parse_lines J (split_on LF (D (a1 @ LF # (a2 @ b1))))
         in (es, length (a1 @ LF # (a2 @ b1)) + 1, invalid))"
      by (rule parseEventChunk_lines [OF b(2)])
    moreover have "parseEventChunk J D ((a2 @ b1) @ LF # b2) =
        (let (es, invalid) = parse_lines J (split_on LF (D (a2 @ b1))) in (es, length (a2 @ b1) + 1, invalid))"
      by (rule parseEventChunk_lines [OF b(2)])
    ultimately show ?thesis
      by (simp add: a b parseEventChunk_lines parse_lines_decoded [OF assms] Let_def split: prod.split)
  qed
qed

subsection \<open>Written and read\<close>

text \<open>The text of a number that is no integer, which the model takes as it is, has no line feed.\<close>

fun numbers_ok :: "jsval \<Rightarrow> bool" where
  "numbers_ok (JFrac t) \<longleftrightarrow> LF \<notin> set t"
| "numbers_ok (JArray vs) \<longleftrightarrow> list_all numbers_ok vs"
| "numbers_ok (JObj fs) \<longleftrightarrow> list_all (\<lambda>kv. numbers_ok (snd kv)) fs"
| "numbers_ok _ \<longleftrightarrow> True"

text \<open>\<^verbatim>\<open>JSON.parse\<close> of the bytes of what \<^verbatim>\<open>JSON.stringify\<close> wrote, for some values.\<close>

definition reads_json :: "(string \<Rightarrow> jsval option) \<Rightarrow> (string \<Rightarrow> string) \<Rightarrow> jsval set \<Rightarrow> bool" where
  "reads_json J D vs \<longleftrightarrow> (\<forall>v\<in>vs. json_value v \<longrightarrow> J (D (json_text v)) = Some v \<and> \<not> blank (D (json_text v)))"

lemma no_LF_hex: "hex_digit d \<noteq> LF"
proof -
  have "hex_digit d \<in> set ''0123456789abcdef''" unfolding hex_digit_def by (rule nth_mem) simp
  then show ?thesis by auto
qed

lemma no_LF_escape: "LF \<notin> set (escape_char c)"
  by (auto simp: escape_char_def Let_def no_LF_hex no_LF_hex [symmetric])

lemma no_LF_json_string: "LF \<notin> set (json_string s)"
  using no_LF_escape by (auto simp: json_string_def)

lemma no_LF_show_nat: "LF \<notin> set (show_nat n)"
  by (rule not_digit_show_nat) (simp add: digits_def digit_char_def)

lemma no_LF_join: "LF \<notin> set sep \<Longrightarrow> \<forall>x\<in>set xs. LF \<notin> set x \<Longrightarrow> LF \<notin> set (join sep xs)"
  by (induction sep xs rule: join.induct) auto

lemma no_LF_stringify: "numbers_ok v \<Longrightarrow> stringify v = Some t \<Longrightarrow> LF \<notin> set t"
proof (induction v arbitrary: t)
  case (JNum n)
  then show ?case by (auto simp: show_int_def no_LF_show_nat split: if_splits)
next
  case (JArray vs)
  have "LF \<notin> set (case stringify v of None \<Rightarrow> ''null'' | Some t \<Rightarrow> t)" if "v \<in> set vs" for v
    using JArray.IH [OF that] JArray.prems(1) that by (auto simp: list_all_iff split: option.split)
  then have "\<forall>x\<in>set (map (\<lambda>v. case stringify v of None \<Rightarrow> ''null'' | Some t \<Rightarrow> t) vs). LF \<notin> set x" by simp
  from no_LF_join [OF _ this, of "'',''"] JArray.prems(2) show ?case by auto
next
  case (JObj fs)
  have "LF \<notin> set u" if "(k, v) \<in> set fs" "stringify v = Some u" for k v u
    using JObj.IH [of "(k, v)" v] JObj.prems(1) that by (auto simp: list_all_iff)
  then have "\<forall>x\<in>set (concat (map (\<lambda>(k, v). case stringify v of None \<Rightarrow> [] | Some t \<Rightarrow> [json_string k @ '':'' @ t]) fs)). LF \<notin> set x"
    using no_LF_json_string by (fastforce split: option.splits)
  from no_LF_join [OF _ this, of "'',''"] JObj.prems(2) show ?case by auto
qed (auto simp: no_LF_json_string)

text \<open>Accepted events are JSON.\<close>

lemma json_out_scalars [json_intros]:
  "json_out (pattern_str q)" "json_out opaqueId" "json_out epochMs" "json_out (upto n)" "json_out text_check"
  "json_out sha_check" "json_out toolStatus" "json_out sessionState" "json_out fileName"
  by (simp_all add: pattern_str_def opaqueId_def epochMs_def upto_def text_check_def sha_check_def toolStatus_def
      sessionState_def fileName_def json_intros)

lemma json_out_data [json_intros]: "json_out repoDataPath"
  unfolding json_out_def repoDataPath_def json_value_def
  using isRepoDataPath_JStr by (fastforce split: if_splits)

lemma json_fields:
  "json_field (Required c) \<longleftrightarrow> json_out c" "json_field (Optional c) \<longleftrightarrow> json_opt c"
  by (simp_all add: json_field_def)

lemma json_out_attachment [json_intros]: "json_out attachmentRef"
  unfolding attachmentRef_def by (auto simp: json_fields intro!: json_intros)

lemma shapes_json: "x \<in> set (chat_shapes @ cloud_shapes) \<Longrightarrow> \<forall>f\<in>snd ` set (snd x). json_field f"
  unfolding chat_shapes_def cloud_shapes_def tool_activity_shape_def tool_call_shape_def in_conversation_def of_type_def
  by (auto simp: json_fields intro!: json_intros)

lemma obj_json_fields:
  assumes "obj sh v p = Inr (JObj out)" "\<forall>f\<in>snd ` set sh. json_field f"
  shows "list_all (\<lambda>kv. json_value (snd kv)) out"
  using assms check_fields_json [of p _ sh "[]"] by (auto simp: obj_def split: jsval.splits sum.splits)

lemma cloudEvent_json:
  assumes "cloudEvent v p = Inr e"
  shows "json_value e"
proof -
  from cloudEvent_parts [OF assms] obtain x y where xy: "obj envelope_shape v p = Inr (JObj x)"
    "event_payload v p = Inr (JObj y)" "e = JObj (x @ y)" by blast
  have "list_all (\<lambda>kv. json_value (snd kv)) x"
    by (rule obj_json_fields [OF xy(1)]) (auto simp: envelope_shape_def json_fields intro!: json_intros)
  moreover from xy(2) obtain name sh where "map_of (chat_shapes @ cloud_shapes) name = Some sh" "obj sh v p = Inr (JObj y)"
    unfolding event_payload_def union_check_iff by blast
  then have "list_all (\<lambda>kv. json_value (snd kv)) y"
    using shapes_json [OF map_of_SomeD] obj_json_fields by fastforce
  ultimately show ?thesis unfolding xy(3) by (intro json_value_obj) simp
qed

text \<open>One line.\<close>

lemma read_line:
  assumes "by_lines D" "reads_json J D {e}" "cloudEvent v p = Inr e" "numbers_ok e"
  shows "parseEventChunk J D (formatEventLine e) = ([without_nulls e], length (formatEventLine e), 0)"
proof -
  have json: "json_value e" by (rule cloudEvent_json [OF assms(3)])
  then obtain t where t: "stringify e = Some t" by (cases "stringify e") (auto simp: json_value_def)
  have "LF \<notin> set (json_text e)" using no_LF_stringify [OF assms(4) t] by (simp add: json_text_def t)
  then have "split_on LF (D (json_text e)) = [D (json_text e)]"
    using assms(1) by (simp add: by_lines_def split_on_none)
  moreover have "J (D (json_text e)) = Some e" "\<not> blank (D (json_text e))"
    using assms(2) json by (simp_all add: reads_json_def)
  moreover have "parseCloudEvent e = Inr (without_nulls e)" unfolding parseCloudEvent_def by (rule cloudEvent_reread [OF assms(3)])
  ultimately show ?thesis
    using parseEventChunk_lines [of "[]" J D "json_text e"] by (simp add: formatEventLine_def)
qed

subsection \<open>A whole log\<close>

lemma parse_accepted:
  assumes "by_lines D" "reads_json J D (set es)" "LF \<notin> set tail"
    and "\<And>e. e \<in> set es \<Longrightarrow> (\<exists>v p. cloudEvent v p = Inr e) \<and> numbers_ok e"
  shows "parseEventChunk J D (concat (map formatEventLine es) @ tail) =
    (map without_nulls es, length (concat (map formatEventLine es)), 0)"
  using assms(2,4)
proof (induction es)
  case Nil
  then show ?case using parseEventChunk_none [OF assms(3)] by simp
next
  case (Cons e es)
  then obtain v p where e: "cloudEvent v p = Inr e" "numbers_ok e" by (meson list.set_intros(1))
  have "reads_json J D {e}" "reads_json J D (set es)" using Cons.prems(1) by (auto simp: reads_json_def)
  then have "parseEventChunk J D (formatEventLine e) = ([without_nulls e], length (formatEventLine e), 0)"
    "parseEventChunk J D (concat (map formatEventLine es) @ tail) = (map without_nulls es, length (concat (map formatEventLine es)), 0)"
    using read_line [OF assms(1) _ e] Cons.IH Cons.prems(2) by simp_all
  with chunk_append [OF assms(1), of J "formatEventLine e"] show ?case by simp
qed

lemma without_nulls_id:
  assumes "cloudEvent v p = Inr e" "js_prop e ''input'' \<noteq> JNull" "js_prop e ''output'' \<noteq> JNull"
  shows "without_nulls e = e"
proof -
  from cloudEvent_parts [OF assms(1)] obtain fs where fs: "e = JObj fs" "distinct (map fst fs)" by blast
  have "\<not> (fst x \<in> free_keys \<and> snd x = JNull)" if "x \<in> set fs" for x
    using assms(2,3) map_of_is_SomeI [OF fs(2), of "fst x" "snd x"] that by (auto simp: fs(1) free_keys_def)
  then show ?thesis by (simp add: without_nulls_def drop_nulls_def own_fields_def fs(1))
qed

lemma parse_log:
  assumes "by_lines D" "reads_json J D (set es)" "LF \<notin> set tail"
    and "\<And>e. e \<in> set es \<Longrightarrow> (\<exists>v p. cloudEvent v p = Inr e) \<and> numbers_ok e \<and> js_prop e ''input'' \<noteq> JNull \<and> js_prop e ''output'' \<noteq> JNull"
  shows "parseEventChunk J D (concat (map formatEventLine es) @ tail) =
    (es, length (concat (map formatEventLine es)), 0)"
proof -
  have "map without_nulls es = es" using assms(4) without_nulls_id by (intro map_idI) blast
  then show ?thesis using parse_accepted [OF assms(1-3)] assms(4) by simp
qed

subsection \<open>Properties\<close>

text \<open>C22: reading the log in pieces is reading it at once: whatever a piece ends in, its complete lines are
  parsed, and reading on from there gives the rest of the events, in order and each once.\<close>

theorem parse_stream:
  assumes "by_lines D"
  shows "parseEventChunk J D (a @ b) =
    (let (e1, n1, i1) = parseEventChunk J D a; (e2, n2, i2) = parseEventChunk J D (drop n1 a @ b)
     in (e1 @ e2, n1 + n2, i1 + i2))"
  by (rule chunk_append [OF assms])

text \<open>C36: what the session wrote its readers get: the lines of accepted events, after whatever was read before and followed by a line
  that is not complete yet, are parsed to these events, in order, with none invalid and every byte of them counted. Each is
  read as it was written, except that a tool activity whose input or output the check had made null (it was not JSON, like
  \<^verbatim>\<open>NaN\<close>) is read without that field.\<close>

theorem log_round_trip:
  assumes "by_lines D" "reads_json J D (set es)" "LF \<notin> set tail"
    and "\<And>e. e \<in> set es \<Longrightarrow> (\<exists>v p. cloudEvent v p = Inr e) \<and> numbers_ok e"
  shows "parseEventChunk J D (concat (map formatEventLine es) @ tail) =
      (map without_nulls es, length (concat (map formatEventLine es)), 0) \<and>
    list_all (\<lambda>e. js_prop e ''input'' = JNull \<or> js_prop e ''output'' = JNull \<or> without_nulls e = e) es"
  using parse_accepted [OF assms] assms(4) without_nulls_id unfolding list_all_iff by blast

text \<open>an event of the chat service survives being logged: numbered and written, it is accepted by the log's
  check, and the clients that read it get the same chat event back.\<close>

theorem chat_event_round_trip:
  assumes "e = JObj ((''kind'', JStr k) # rest)" "k \<in> set CHAT_KINDS" "distinct (map fst rest)"
    and "fst ` set rest \<inter> {''kind'', ''type'', ''seq'', ''ts''} = {}"
    and "event_payload (chatEventToPayload e) p = Inr (chatEventToPayload e)"
    and "map_of rest ''input'' \<noteq> Some JNull" "map_of rest ''output'' \<noteq> Some JNull"
    and "1 \<le> n" "n \<le> MAX_SAFE_INTEGER" "0 \<le> t" "t \<le> MAX_SAFE_INTEGER"
  shows "let logged = JObj ([(''seq'', JNum n), (''ts'', JNum t)] @ own_fields (chatEventToPayload e))
    in cloudEvent logged q = Inr logged \<and> cloudEventToChatEvent logged = Some e"
proof -
  let ?env = "[(''seq'', JNum n), (''ts'', JNum t)]"
  have out: "fst x \<notin> {''kind'', ''type'', ''seq'', ''ts''}" if "x \<in> set rest" for x
    using that assms(4) by blast
  have del: "AList.delete j rest = rest" if "j \<in> {''kind'', ''type'', ''seq'', ''ts''}" for j
    using out that by (intro delete_id) blast
  have spread: "spread [(j, w)] rest = (j, w) # rest" if "j \<in> {''kind'', ''type''}" for j w
    using spread_disjoint [of "[(j, w)]" rest] assms(3) out that by fastforce
  have payload: "chatEventToPayload e = JObj ((''type'', JStr k) # rest)"
    by (simp add: chatEventToPayload_def assms(1) own_fields_def del spread)
  have env: "obj envelope_shape (JObj ?env) q = Inr (JObj ?env)"
    using assms(8-11) by (simp add: obj_def envelope_shape_def int_check_def epochMs_def Let_def)
  have "no_null ((''type'', JStr k) # rest)" using assms(6,7) by (simp add: no_null_def free_keys_def)
  from cloudEvent_join [OF env assms(5) [unfolded payload] this]
  have "cloudEvent (JObj (?env @ (''type'', JStr k) # rest)) q = Inr (JObj (?env @ (''type'', JStr k) # rest))" .
  moreover have "cloudEventToChatEvent (JObj (?env @ (''type'', JStr k) # rest)) = Some e"
    using assms(2) by (simp add: cloudEventToChatEvent_def own_fields_def del spread assms(1))
  ultimately show ?thesis by (simp add: payload own_fields_def Let_def)
qed

subsection \<open>Witnesses\<close>

text \<open>A reader of one event's text, of ASCII bytes.\<close>

definition ce_event :: jsval where
  "ce_event = JObj [(''seq'', JNum 1), (''ts'', JNum 5), (''type'', JStr ''text-delta''),
     (''conversationId'', JStr ''A''), (''text'', JStr ''hi'')]"

lemma ce_accepted: "cloudEvent ce_event q = Inr ce_event"
proof -
  have "OPAQUE_ID_RE ''A''" by code_simp
  then show ?thesis
    by (simp add: ce_event_def cloudEvent_def both_def envelope_shape_def event_payload_def union_check_def variants_of_def
        chat_shapes_def in_conversation_def obj_def Let_def literals_def literal_check_def opaqueId_def pattern_str_def
        str_check_def any_str_def text_check_def upto_def int_check_def epochMs_def MAX_SAFE_INTEGER_def spread_def own_fields_def)
qed

theorem chat_event_round_trip_witness:
  "cloudEventToChatEvent ce_event = Some (JObj [(''kind'', JStr ''text-delta''), (''conversationId'', JStr ''A''), (''text'', JStr ''hi'')])"
proof -
  let ?rest = "[(''conversationId'', JStr ''A''), (''text'', JStr ''hi'')]"
  have payload: "chatEventToPayload (JObj ((''kind'', JStr ''text-delta'') # ?rest)) = JObj ((''type'', JStr ''text-delta'') # ?rest)"
    by (simp add: chatEventToPayload_def own_fields_def spread_def)
  have "OPAQUE_ID_RE ''A''" by code_simp
  then have "event_payload (JObj ((''type'', JStr ''text-delta'') # ?rest)) ''event'' = Inr (JObj ((''type'', JStr ''text-delta'') # ?rest))"
    by (simp add: event_payload_def union_check_def variants_of_def chat_shapes_def in_conversation_def obj_def Let_def
        literals_def literal_check_def opaqueId_def pattern_str_def str_check_def any_str_def text_check_def upto_def)
  from chat_event_round_trip [OF refl, of "''text-delta''" ?rest "''event''" 1 5 "''event''"] this
  show ?thesis by (simp add: payload CHAT_KINDS_def MAX_SAFE_INTEGER_def own_fields_def ce_event_def Let_def)
qed

theorem parse_stream_witness:
  "parseEventChunk (\<lambda>_. Some ce_event) id (''x'' @ [LF, CHR ''y''] @ [LF]) = ([ce_event, ce_event], 4, 0)"
proof -
  have D: "by_lines id" by (simp add: by_lines_def)
  have c: "parseCloudEvent ce_event = Inr ce_event" unfolding parseCloudEvent_def by (rule ce_accepted)
  have nb: "\<not> blank ''x''" "\<not> blank ''y''" by code_simp+
  have 1: "parseEventChunk (\<lambda>_. Some ce_event) id [CHR ''x'', LF, CHR ''y''] = ([ce_event], 2, 0)"
    using parseEventChunk_lines [of "''y''" "\<lambda>_. Some ce_event" id "''x''"] nb c by simp
  have 2: "parseEventChunk (\<lambda>_. Some ce_event) id [CHR ''y'', LF] = ([ce_event], 2, 0)"
    using parseEventChunk_lines [of "[]" "\<lambda>_. Some ce_event" id "''y''"] nb c by simp
  from parse_stream [OF D, of "\<lambda>_. Some ce_event" "[CHR ''x'', LF, CHR ''y'']" "[LF]"] 1 2
  show ?thesis by simp
qed

text \<open>The \<^verbatim>\<open>NaN\<close> of a tool's input becomes null, and the reader does not see the field.\<close>

definition ce_tool :: "jsval \<Rightarrow> jsval" where
  "ce_tool input = JObj [(''seq'', JNum 2), (''ts'', JNum 5), (''type'', JStr ''tool-activity''), (''conversationId'', JStr ''A''),
     (''tool'', JStr ''t''), (''status'', JStr ''done''), (''message'', JStr ''m''), (''input'', input)]"

lemma nan_input_lost:
  "cloudEvent (ce_tool JNaN) q = Inr (ce_tool JNull)" "js_prop (without_nulls (ce_tool JNull)) ''input'' = JUndefined"
proof -
  have "OPAQUE_ID_RE ''A''" by code_simp
  then show "cloudEvent (ce_tool JNaN) q = Inr (ce_tool JNull)"
    by (simp add: ce_tool_def cloudEvent_def both_def envelope_shape_def event_payload_def union_check_def variants_of_def
        chat_shapes_def tool_activity_shape_def toolStatus_def json_check_def in_conversation_def obj_def Let_def literals_def literal_check_def
        opaqueId_def pattern_str_def str_check_def any_str_def text_check_def upto_def int_check_def epochMs_def MAX_SAFE_INTEGER_def
        spread_def own_fields_def)
  show "js_prop (without_nulls (ce_tool JNull)) ''input'' = JUndefined"
    by (simp add: without_nulls_def ce_tool_def own_fields_def drop_nulls_def free_keys_def)
qed

theorem log_round_trip_witness:
  "\<exists>J. J [] = None \<and>
     parseEventChunk J id (formatEventLine ce_event @ formatEventLine (ce_tool JNull) @ ''partial'') =
       ([ce_event, without_nulls (ce_tool JNull)], length (formatEventLine ce_event) + length (formatEventLine (ce_tool JNull)), 0)"
proof -
  let ?J = "\<lambda>s. if s = json_text ce_event then Some ce_event else if s = json_text (ce_tool JNull) then Some (ce_tool JNull) else None"
  have start: "json_text ce_event = CHR 0x7B # drop 1 (json_text ce_event)"
    "json_text (ce_tool JNull) = CHR 0x7B # drop 1 (json_text (ce_tool JNull))"
    by (simp_all add: ce_event_def ce_tool_def json_text_def)
  have "\<not> white_space (CHR 0x7B)" by code_simp
  then have nb: "\<not> blank (json_text ce_event)" "\<not> blank (json_text (ce_tool JNull))"
    by (subst start, simp add: blank_def)+
  have "json_text ce_event \<noteq> json_text (ce_tool JNull)" by code_simp
  then have "reads_json ?J id (set [ce_event, ce_tool JNull])" using nb by (auto simp: reads_json_def)
  moreover have "by_lines id" by (simp add: by_lines_def)
  moreover have "numbers_ok ce_event" "numbers_ok (ce_tool JNull)" by (simp_all add: ce_event_def ce_tool_def)
  ultimately have "parseEventChunk ?J id (concat (map formatEventLine [ce_event, ce_tool JNull]) @ ''partial'') =
      (map without_nulls [ce_event, ce_tool JNull], length (concat (map formatEventLine [ce_event, ce_tool JNull])), 0)"
    using ce_accepted nan_input_lost(1) by (intro conjunct1 [OF log_round_trip]) auto
  moreover have "without_nulls ce_event = ce_event"
    by (simp add: without_nulls_def ce_event_def own_fields_def drop_nulls_def free_keys_def)
  moreover have "?J [] = None" using start by (metis list.distinct(1))
  ultimately show ?thesis by (intro exI [of _ ?J]) simp
qed

end
