(* ===== verification/EventShrink.thy ===== *)
theory EventShrink
  imports CloudEvents
begin

text \<open>
  What the event log does with an event before it is written: \<^verbatim>\<open>validated\<close> and \<^verbatim>\<open>shrinkField\<close> of
  \<^verbatim>\<open>ts-apps/cloud-agent/src/event-log.ts\<close>.

  A text of the log is its UTF-8 bytes, so the ellipsis is three characters. Where the code counts UTF-16 units
  (halving, the size of a note) the model counts bytes, which is the same for ASCII text.
\<close>

subsection \<open>The note of what was cut\<close>

definition SHRINK_ATTEMPTS :: nat where
  "SHRINK_ATTEMPTS = 24"

definition note_start :: string where
  "note_start = [CHR 0xE2, CHR 0x80, CHR 0xA6] @ ''[truncated ''"

definition note_end :: string where
  "note_end = '' chars]''"

definition truncationNote :: "nat \<Rightarrow> string" where
  "truncationNote dropped = note_start @ show_nat dropped @ note_end"

text \<open>\<^verbatim>\<open>NOTE_RE.exec\<close>: what comes before a note at the end of the text, and its number.\<close>

definition NOTE_RE :: "string \<Rightarrow> (string \<times> nat) option" where
  "NOTE_RE s =
     (if \<not> ends_with note_end s then None
      else let a = take (length s - length note_end) s;
               ds = rev (takeWhile (\<lambda>c. c \<in> digits) (rev a));
               b = take (length a - length ds) a
           in if ds = [] \<or> \<not> ends_with note_start b then None
              else Some (take (length b - length note_start) b, read_nat ds))"

definition stripNote :: "string \<Rightarrow> string" where
  "stripNote s = (case NOTE_RE s of None \<Rightarrow> s | Some (kept, _) \<Rightarrow> kept)"

definition originalLength :: "string \<Rightarrow> nat" where
  "originalLength s = (case NOTE_RE s of None \<Rightarrow> length s | Some (_, dropped) \<Rightarrow> length (stripNote s) + dropped)"

subsection \<open>Making a field smaller\<close>

definition letter :: "char \<Rightarrow> bool" where
  "letter c \<longleftrightarrow> (let n = of_char c :: nat in 65 \<le> n \<and> n \<le> 90 \<or> 97 \<le> n \<and> n \<le> 122)"

text \<open>The field and the index of an item that a path like \<^verbatim>\<open>event.files[3].path\<close> starts with.\<close>

definition error_field :: "string \<Rightarrow> (string \<times> nat option) option" where
  "error_field p =
     (if \<not> starts_with ''event.'' p then None
      else let rest = drop 6 p; f = takeWhile letter rest; r = dropWhile letter rest
           in if f = [] then None
              else Some (f, case r of
                     c # r' \<Rightarrow>
                       (let ds = takeWhile (\<lambda>d. d \<in> digits) r'; e = dropWhile (\<lambda>d. d \<in> digits) r'
                        in if c = CHR ''['' \<and> ds \<noteq> [] \<and> starts_with '']'' e then Some (read_nat ds) else None)
                   | [] \<Rightarrow> None))"

text \<open>Nothing when halving drops nothing.\<close>

definition shrink_text :: "string \<Rightarrow> string option" where
  "shrink_text s =
     (let kept = take (length (stripNote s) div 2) (stripNote s)
      in if length kept = length (stripNote s) then None
         else Some (kept @ truncationNote (originalLength s - length kept)))"

definition PREVIEW_MAX :: nat where
  "PREVIEW_MAX = 10000"

definition shrink_value :: "jsval \<Rightarrow> nat option \<Rightarrow> jsval option" where
  "shrink_value v index =
     (case v of
        JArray xs \<Rightarrow>
          (case index of
             Some i \<Rightarrow>
               (if i < length xs then
                  case xs ! i of
                    JStr item \<Rightarrow> (case shrink_text item of None \<Rightarrow> None | Some short \<Rightarrow> Some (JArray (xs[i := JStr short])))
                  | _ \<Rightarrow> None
                else None)
           | None \<Rightarrow> if xs = [] then None else Some (JArray (take (length xs div 2) xs)))
      | JStr s \<Rightarrow> map_option JStr (shrink_text s)
      | JObj _ \<Rightarrow>
          (let t = json_text v
           in if length t \<le> PREVIEW_MAX then None
              else Some (JObj [(''truncated'', JBool True),
                     (''preview'', JStr (take PREVIEW_MAX t @ truncationNote (length t - PREVIEW_MAX)))]))
      | _ \<Rightarrow> None)"

definition shrinkField :: "(string \<times> jsval) list \<Rightarrow> string \<Rightarrow> (string \<times> jsval) list option" where
  "shrinkField event errPath =
     (case error_field errPath of
        None \<Rightarrow> None
      | Some (field, index) \<Rightarrow>
          (case jm_get event field of
             None \<Rightarrow> None
           | Some v \<Rightarrow>
               if field = ''type'' then None
               else (case shrink_value v index of None \<Rightarrow> None | Some w \<Rightarrow> Some (jm_set field w event))))"

subsection \<open>The event as it is written\<close>

fun contains :: "string \<Rightarrow> string \<Rightarrow> bool" where
  "contains needle [] \<longleftrightarrow> needle = []"
| "contains needle (c # cs) \<longleftrightarrow> starts_with needle (c # cs) \<or> contains needle cs"

definition SIZE_ERROR_RE :: "string \<Rightarrow> bool" where
  "SIZE_ERROR_RE s \<longleftrightarrow> contains '': longer than '' s \<or> contains '': larger than '' s \<or> contains '': more than '' s"

text \<open>\<open>n\<close> counts the attempts that are left.\<close>

fun shrink_loop :: "nat \<Rightarrow> (string \<times> jsval) list \<Rightarrow> jsval option" where
  "shrink_loop n candidate =
     (case cloudEvent (JObj candidate) ''event'' of
        Inr e \<Rightarrow> Some e
      | Inl err \<Rightarrow>
          (case n of
             0 \<Rightarrow> None
           | Suc m \<Rightarrow>
               (if SIZE_ERROR_RE (error_text err) then
                  case shrinkField candidate (pe_path err) of None \<Rightarrow> None | Some smaller \<Rightarrow> shrink_loop m smaller
                else None)))"

declare shrink_loop.simps [simp del]

definition validated :: "jsval \<Rightarrow> int \<Rightarrow> int \<Rightarrow> jsval option" where
  "validated payload seq ts =
     shrink_loop SHRINK_ATTEMPTS (spread [(''seq'', JNum seq), (''ts'', JNum ts)] (own_fields payload))"

subsection \<open>Notes\<close>

lemma ends_with_append [simp]: "ends_with s (a @ s)"
  by (simp add: ends_with_def)

lemma takeWhile_digits: "ds \<subseteq> digits \<Longrightarrow> set xs \<subseteq> ds \<Longrightarrow> y \<notin> digits \<Longrightarrow>
    takeWhile (\<lambda>c. c \<in> digits) (xs @ y # zs) = xs"
  by (induction xs) auto

lemma note_start_end: "note_start = butlast note_start @ [CHR '' '']" "CHR '' '' \<notin> digits"
  by (simp_all add: note_start_def digits_def digit_char_def)

text \<open>A note is found again, whatever it follows.\<close>

lemma NOTE_RE_note: "NOTE_RE (kept @ truncationNote n) = Some (kept, n)"
proof -
  have "set (rev (show_nat n)) \<subseteq> digits" using set_show_nat by simp
  from takeWhile_digits [OF subset_refl this note_start_end(2)]
  have "takeWhile (\<lambda>c. c \<in> digits) (rev (kept @ note_start @ show_nat n)) = rev (show_nat n)"
    by (subst note_start_end(1)) simp
  then show ?thesis by (simp add: NOTE_RE_def truncationNote_def Let_def flip: append_assoc)
qed

lemma strip_note [simp]: "stripNote (kept @ truncationNote n) = kept"
  by (simp add: stripNote_def NOTE_RE_note)

lemma original_note [simp]: "originalLength (kept @ truncationNote n) = length kept + n"
  by (simp add: originalLength_def NOTE_RE_note)

lemma strip_le: "length (stripNote s) \<le> originalLength s"
  by (simp add: originalLength_def stripNote_def split: option.split)

text \<open>The text after \<open>k\<close> cuts.\<close>

definition shortened :: "string \<Rightarrow> nat \<Rightarrow> string" where
  "shortened s k = (if k = 0 then s
     else let kept = take (length (stripNote s) div 2 ^ k) (stripNote s) in kept @ truncationNote (originalLength s - length kept))"

lemma half_less: "0 < n \<Longrightarrow> n div 2 < (n :: nat)"
  by simp

lemma shrink_text_cut:
  assumes "stripNote s \<noteq> []"
  shows "shrink_text s = Some (take (length (stripNote s) div 2) (stripNote s) @
    truncationNote (originalLength s - length (stripNote s) div 2))"
proof -
  have "length (stripNote s) div 2 < length (stripNote s)" using assms by (intro half_less) simp
  then show ?thesis by (simp add: shrink_text_def Let_def min_absorb2)
qed

lemma strip_shortened: "stripNote (shortened s k) = take (length (stripNote s) div 2 ^ k) (stripNote s)"
  by (simp add: shortened_def Let_def)

lemma original_shortened: "originalLength (shortened s k) = originalLength s"
  using strip_le [of s] by (simp add: shortened_def Let_def min_def)

lemma shrink_shortened:
  assumes "0 < length (stripNote s) div 2 ^ k"
  shows "shrink_text (shortened s k) = Some (shortened s (Suc k))"
proof -
  define L where "L = length (stripNote s)"
  have half: "L div 2 ^ k div 2 = L div 2 ^ Suc k" by (simp add: div_mult2_eq mult.commute [of 2])
  have le: "min L (L div 2 ^ k) = L div 2 ^ k" "min L (L div 2 ^ Suc k) = L div 2 ^ Suc k" 
    "min (L div 2 ^ Suc k) (L div 2 ^ k) = L div 2 ^ Suc k"
    unfolding half [symmetric] by (auto intro: min_absorb2 order.trans [OF div_le_dividend div_le_dividend])
  have strip: "stripNote (shortened s k) = take (L div 2 ^ k) (stripNote s)" by (simp add: strip_shortened L_def)
  then have len: "length (stripNote (shortened s k)) = L div 2 ^ k" using le(1) by (simp add: L_def)
  then have "stripNote (shortened s k) \<noteq> []" using assms by (auto simp: L_def)
  from shrink_text_cut [OF this, unfolded len half strip original_shortened take_take le] show ?thesis
    using le by (simp add: shortened_def [of s "Suc k"] Let_def half flip: L_def del: power_Suc)
qed

subsection \<open>A check with one text of its input replaced\<close>

definition text_field :: "shape \<Rightarrow> string \<Rightarrow> nat \<Rightarrow> bool" where
  "text_field sh f m \<longleftrightarrow> map_of sh f \<in> {Some (Required (upto m)), Some (Optional (upto m))}"

lemma check_fields_other:
  assumes "check_fields p fs sh acc = Inr out" "f \<notin> fst ` set sh" "map_of acc' = (map_of acc)(f \<mapsto> x)"
  shows "\<exists>out'. check_fields p (jm_set f y fs) sh acc' = Inr out' \<and> map_of out' = (map_of out)(f \<mapsto> x)"
  using assms
proof (induction sh arbitrary: acc acc')
  case (Cons kf sh)
  obtain key fld where kf: "kf = (key, fld)" by fastforce
  have ne: "f \<noteq> key" "f \<notin> fst ` set sh" using Cons.prems(2) by (auto simp: kf)
  have raw: "map_of (jm_set f y fs) key = map_of fs key" using ne(1) by (simp add: js_simps)
  have acc: "map_of (jm_set key w acc') = (map_of (jm_set key w acc))(f \<mapsto> x)" for w
    using ne(1) by (auto simp: update_conv' Cons.prems(3) fun_eq_iff)
  show ?case
  proof (cases fld)
    case (Required c)
    then obtain w where "c (raw_field fs key) (if p \<noteq> [] then p @ ''.'' @ key else key) = Inr w"
      "check_fields p fs sh (jm_set key w acc) = Inr out"
      using Cons.prems(1) by (auto simp: kf Let_def split: sum.splits)
    then show ?thesis using Cons.IH [OF _ ne(2) acc, of w] by (simp add: kf Required Let_def raw)
  next
    case (Optional c)
    show ?thesis
    proof (cases "raw_field fs key = JUndefined \<or> raw_field fs key = JNull")
      case True
      then show ?thesis using Cons.IH [OF _ ne(2) Cons.prems(3)] Cons.prems(1) by (auto simp: kf Optional Let_def raw)
    next
      case False
      then obtain w where "c (raw_field fs key) (if p \<noteq> [] then p @ ''.'' @ key else key) = Inr w"
        "check_fields p fs sh (jm_set key w acc) = Inr out"
        using Cons.prems(1) by (auto simp: kf Optional Let_def split: sum.splits)
      then show ?thesis using Cons.IH [OF _ ne(2) acc, of w] False by (simp add: kf Optional Let_def raw)
    qed
  qed
qed auto

lemma check_fields_step:
  assumes "check_fields p fs ((key, fld) # sh) acc = Inr out" "p \<noteq> []"
  shows "(\<exists>c. fld = Optional c \<and> (raw_field fs key = JUndefined \<or> raw_field fs key = JNull) \<and> check_fields p fs sh acc = Inr out) \<or>
    (\<exists>c w. (fld = Required c \<or> fld = Optional c \<and> raw_field fs key \<noteq> JUndefined \<and> raw_field fs key \<noteq> JNull) \<and>
       c (raw_field fs key) (p @ ''.'' @ key) = Inr w \<and> check_fields p fs sh (jm_set key w acc) = Inr out)"
proof (cases fld)
  case (Required c)
  then show ?thesis using assms by (cases "c (raw_field fs key) (p @ ''.'' @ key)") (simp_all add: Let_def)
next
  case (Optional c)
  show ?thesis
  proof (cases "raw_field fs key = JUndefined \<or> raw_field fs key = JNull")
    case True
    then have "check_fields p fs sh acc = Inr out" using assms(1) by (simp only: check_fields.simps Let_def Optional field.case if_True)
    then show ?thesis using True Optional by blast
  next
    case False
    then show ?thesis using assms Optional by (cases "c (raw_field fs key) (p @ ''.'' @ key)") (simp_all add: Let_def)
  qed
qed

lemma check_fields_text:
  assumes "check_fields p fs sh acc = Inr out" "text_field sh f m" "distinct (map fst sh)" "p \<noteq> []"
    and "map_of acc' = map_of acc"
  shows "if length s \<le> m
    then \<exists>out'. check_fields p (jm_set f (JStr s) fs) sh acc' = Inr out' \<and> map_of out' = (map_of out)(f \<mapsto> JStr s)
    else check_fields p (jm_set f (JStr s) fs) sh acc' = fail (p @ ''.'' @ f) (''longer than '' @ show_nat m)"
  using assms
proof (induction sh arbitrary: acc acc')
  case (Cons kf sh)
  obtain key fld where kf: "kf = (key, fld)" by fastforce
  show ?case
  proof (cases "f = key")
    case True
    then have f: "fld = Required (upto m) \<or> fld = Optional (upto m)" "f \<notin> fst ` set sh"
      using Cons.prems(2,3) by (auto simp: text_field_def kf)
    have raw: "map_of (jm_set f (JStr s) fs) key = Some (JStr s)" using True by (simp add: js_simps)
    obtain acc2 where rest: "check_fields p fs sh acc2 = Inr out" "\<And>k. k \<noteq> f \<Longrightarrow> map_of acc2 k = map_of acc k"
    proof -
      have "check_fields p fs sh acc = Inr out \<or> (\<exists>w. check_fields p fs sh (jm_set key w acc) = Inr out)"
        using check_fields_step [OF Cons.prems(1) [unfolded kf] Cons.prems(4)] by blast
      then show thesis
      proof (elim disjE exE)
        assume "check_fields p fs sh acc = Inr out"
        then show thesis by (rule that) simp
      next
        fix w
        assume "check_fields p fs sh (jm_set key w acc) = Inr out"
        then show thesis by (rule that) (simp add: js_simps True)
      qed
    qed
    have "map_of (jm_set f (JStr s) acc') = (map_of acc2)(f \<mapsto> JStr s)"
      by (auto simp: update_conv' Cons.prems(5) rest(2) fun_eq_iff)
    from check_fields_other [OF rest(1) f(2) this, of "JStr s"] show ?thesis
      using f(1) raw True Cons.prems(4) by (auto simp: kf Let_def upto_def str_check_def fail_def)
  next
    case False
    then have f: "text_field sh f m" "distinct (map fst sh)" using Cons.prems(2,3) by (auto simp: text_field_def kf)
    have raw: "map_of (jm_set f (JStr s) fs) key = map_of fs key" using False by (simp add: js_simps)
    consider (skip) c where "fld = Optional c" "raw_field fs key = JUndefined \<or> raw_field fs key = JNull" "check_fields p fs sh acc = Inr out"
      | (put) c w where "fld = Required c \<or> fld = Optional c \<and> raw_field fs key \<noteq> JUndefined \<and> raw_field fs key \<noteq> JNull"
        "c (raw_field fs key) (p @ ''.'' @ key) = Inr w" "check_fields p fs sh (jm_set key w acc) = Inr out"
      using check_fields_step [OF Cons.prems(1) [unfolded kf] Cons.prems(4)] by blast
    then show ?thesis
    proof cases
      case skip
      then show ?thesis using Cons.IH [OF skip(3) f Cons.prems(4,5)] by (auto simp: kf Let_def raw fun_eq_iff)
    next
      case put
      have "map_of (jm_set key w acc') = map_of (jm_set key w acc)" by (simp add: update_conv' Cons.prems(5))
      note Cons.IH [OF put(3) f Cons.prems(4) this]
      then show ?thesis using put Cons.prems(4) by (auto simp: kf Let_def raw fun_eq_iff)
    qed
  qed
qed (simp add: text_field_def)


lemma check_fields_cong:
  "(\<And>k. k \<in> fst ` set sh \<Longrightarrow> map_of fs k = map_of fs' k) \<Longrightarrow> check_fields p fs sh acc = check_fields p fs' sh acc"
  by (induction p fs sh acc rule: check_fields.induct) (auto simp: Let_def split: field.split sum.split)

lemma obj_cong:
  "(\<And>k. k \<in> fst ` set sh \<Longrightarrow> map_of fs k = map_of fs' k) \<Longrightarrow> obj sh (JObj fs) p = obj sh (JObj fs') p"
  using check_fields_cong [of sh fs fs'] by (simp add: obj_def)

text \<open>A payload and its log event, with one text given.\<close>

definition log_event :: "int \<Rightarrow> int \<Rightarrow> (string \<times> jsval) list \<Rightarrow> (string \<times> jsval) list" where
  "log_event n t fs = [(''seq'', JNum n), (''ts'', JNum t)] @ fs"

definition payload_ok :: "(string \<times> jsval) list \<Rightarrow> bool" where
  "payload_ok fs \<longleftrightarrow> distinct (map fst fs) \<and> ''seq'' \<notin> fst ` set fs \<and> ''ts'' \<notin> fst ` set fs"

definition stamps_ok :: "int \<Rightarrow> int \<Rightarrow> bool" where
  "stamps_ok n t \<longleftrightarrow> 1 \<le> n \<and> n \<le> MAX_SAFE_INTEGER \<and> 0 \<le> t \<and> t \<le> MAX_SAFE_INTEGER"

lemma envelope_ok:
  assumes "map_of c ''seq'' = Some (JNum n)" "map_of c ''ts'' = Some (JNum t)" "stamps_ok n t"
  shows "obj envelope_shape (JObj c) p = Inr (JObj [(''seq'', JNum n), (''ts'', JNum t)])"
  using assms by (simp add: obj_def envelope_shape_def Let_def int_check_def epochMs_def stamps_ok_def MAX_SAFE_INTEGER_def)

lemma shapes_plain:
  "x \<in> set (chat_shapes @ cloud_shapes) \<Longrightarrow> distinct (map fst (snd x)) \<and> (\<forall>k\<in>fst ` set (snd x). k \<noteq> [] \<and> list_all letter k)"
  unfolding chat_shapes_def cloud_shapes_def tool_activity_shape_def tool_call_shape_def in_conversation_def of_type_def
  by (auto simp: letter_def)

lemma cloudEvent_text:
  assumes w: "event_payload (JObj fs) ''event'' = Inr (JObj out)"
    and ty: "map_of fs ''type'' = Some (JStr ty)" "map_of (chat_shapes @ cloud_shapes) ty = Some sh"
    and f: "text_field sh f m" "f \<noteq> ''type''" and ok: "stamps_ok n t"
    and c: "map_of c = (map_of (log_event n t fs))(f \<mapsto> JStr s)" and keys: "''seq'' \<notin> fst ` set fs" "''ts'' \<notin> fst ` set fs"
  shows "if length s \<le> m
    then \<exists>e. cloudEvent (JObj c) ''event'' = Inr (JObj e) \<and>
      map_of e = (map_of out)(f \<mapsto> JStr s, ''seq'' \<mapsto> JNum n, ''ts'' \<mapsto> JNum t)
    else cloudEvent (JObj c) ''event'' = fail (''event.'' @ f) (''longer than '' @ show_nat m)"
proof -
  have sh_keys: "fst ` set sh \<subseteq> shape_keys (chat_shapes @ cloud_shapes)"
    using map_of_SomeD [OF ty(2)] unfolding shape_keys_def by force
  then have no_stamps: "''seq'' \<notin> fst ` set sh" "''ts'' \<notin> fst ` set sh"
    using event_keys(2) [unfolded event_keys(1)] by blast+
  have f_key: "f \<in> fst ` set sh" using f(1) by (auto simp: text_field_def dest!: map_of_SomeD intro: rev_image_eqI)
  have distinct: "distinct (map fst sh)"
    using shapes_plain [OF map_of_SomeD [OF ty(2)]] by simp
  have "obj sh (JObj fs) ''event'' = Inr (JObj out)"
    using w ty unfolding event_payload_def union_check_iff by auto
  then have "check_fields ''event'' fs sh [] = Inr out" by (simp add: obj_def split: sum.splits)
  note replaced = check_fields_text [OF this f(1) distinct _ refl, of s]
  have "map_of c k = map_of (jm_set f (JStr s) fs) k" if "k \<in> fst ` set sh" for k
  proof -
    have "k \<noteq> ''seq''" "k \<noteq> ''ts''" using that no_stamps by blast+
    then show ?thesis by (simp add: c log_event_def js_simps)
  qed
  from check_fields_cong [OF this, of sh] have same: "check_fields p c sh acc = check_fields p (jm_set f (JStr s) fs) sh acc" for p acc
    by blast
  have stamps: "map_of c ''seq'' = Some (JNum n)" "map_of c ''ts'' = Some (JNum t)" "map_of c ''type'' = Some (JStr ty)"
    using f_key no_stamps f(2) ty(1) by (auto simp: c log_event_def)
  have env: "obj envelope_shape (JObj c) ''event'' = Inr (JObj [(''seq'', JNum n), (''ts'', JNum t)])"
    by (rule envelope_ok [OF stamps(1,2) ok])
  have pay: "event_payload (JObj c) ''event'' = obj sh (JObj c) ''event''"
    using stamps(3) ty(2) by (simp add: event_payload_def union_check_def map_of_variants del: map_of_append)
  show ?thesis
  proof (cases "length s \<le> m")
    case True
    then obtain out' where out': "check_fields ''event'' c sh [] = Inr out'" "map_of out' = (map_of out)(f \<mapsto> JStr s)"
      using replaced same by auto
    from check_fields_keys [OF out'(1)] have "distinct (map fst out')" "fst ` set out' \<subseteq> fst ` set sh" by auto
    then have spread: "spread [(''seq'', JNum n), (''ts'', JNum t)] out' = [(''seq'', JNum n), (''ts'', JNum t)] @ out'"
      using no_stamps by (intro spread_disjoint) auto
    have "cloudEvent (JObj c) ''event'' = Inr (JObj ([(''seq'', JNum n), (''ts'', JNum t)] @ out'))"
      using out'(1) spread by (simp add: cloudEvent_def both_def env pay own_fields_def obj_def [of sh])
    moreover have "map_of ([(''seq'', JNum n), (''ts'', JNum t)] @ out') = (map_of out)(f \<mapsto> JStr s, ''seq'' \<mapsto> JNum n, ''ts'' \<mapsto> JNum t)"
      by (auto simp: out'(2) fun_eq_iff)
    ultimately show ?thesis using True by simp
  next
    case False
    then show ?thesis using replaced same by (simp add: cloudEvent_def both_def env pay obj_def [of sh] fail_def)
  qed
qed

subsection \<open>Cutting down until it fits\<close>

lemma contains_middle: "contains n (a @ n @ b)"
proof (induction a)
  case Nil
  show ?case by (cases n; cases b) (auto simp: starts_with_def)
qed simp

lemma error_field_plain: "f \<noteq> [] \<Longrightarrow> list_all letter f \<Longrightarrow> error_field (''event.'' @ f) = Some (f, None)"
  by (simp add: error_field_def starts_with_def list_all_iff Let_def takeWhile_eq_all_conv [THEN iffD2] dropWhile_eq_Nil_conv [THEN iffD2])

lemma size_error: "SIZE_ERROR_RE (error_text \<lparr>pe_message = ''longer than '' @ x, pe_path = q\<rparr>)" if "q \<noteq> []"
  using contains_middle [of "'': longer than ''" q x] that by (simp add: SIZE_ERROR_RE_def error_text_def)

lemma shrink_loop_fits:
  assumes f: "f \<noteq> []" "list_all letter f" "f \<noteq> ''type''"
    and check: "\<And>c s. map_of c = base(f \<mapsto> JStr s) \<Longrightarrow> if length s \<le> m then \<exists>e. cloudEvent (JObj c) ''event'' = Inr e \<and> R s e
      else cloudEvent (JObj c) ''event'' = fail (''event.'' @ f) (''longer than '' @ show_nat m)"
    and cut: "\<And>i. i < j \<Longrightarrow> m < length (shortened s i) \<and> 0 < length (stripNote s) div 2 ^ i"
    and fits: "length (shortened s j) \<le> m" and c: "map_of c = base(f \<mapsto> JStr (shortened s k))" "k \<le> j" "j - k \<le> n"
  shows "\<exists>e. shrink_loop n c = Some e \<and> R (shortened s j) e"
  using c
proof (induction "j - k" arbitrary: k n c)
  case 0
  then have "k = j" by simp
  then show ?case using check [OF 0(2)] fits by (subst shrink_loop.simps) auto
next
  case (Suc d)
  then have k: "k < j" by simp
  then obtain n' where n: "n = Suc n'" using Suc.prems(3) by (cases n) auto
  have long: "cloudEvent (JObj c) ''event'' = fail (''event.'' @ f) (''longer than '' @ show_nat m)"
    using check [OF Suc.prems(1)] cut [OF k] by auto
  have "shrinkField c (''event.'' @ f) = Some (jm_set f (JStr (shortened s (Suc k))) c)"
    using error_field_plain [OF f(1,2)] Suc.prems(1) f(3) shrink_shortened [of s k] cut [OF k]
    by (simp add: shrinkField_def shrink_value_def)
  then have loop: "shrink_loop n c = shrink_loop n' (jm_set f (JStr (shortened s (Suc k))) c)"
    using size_error [of "''event.'' @ f"] by (subst shrink_loop.simps) (simp add: long fail_def n)
  have "map_of (jm_set f (JStr (shortened s (Suc k))) c) = base(f \<mapsto> JStr (shortened s (Suc k)))"
    by (simp add: update_conv' Suc.prems(1))
  then show ?case unfolding loop using Suc.hyps(2) Suc.prems(3) k n by (intro Suc.hyps(1)) auto
qed

lemma length_note: "n < 10 ^ 20 \<Longrightarrow> length (truncationNote n) \<le> 41"
  using length_show_nat [of 20 n] by (simp add: truncationNote_def note_start_def note_end_def)

lemma length_shortened:
  assumes "NOTE_RE s = None" "length s < 10 ^ 20" "0 < k"
  shows "length (shortened s k) \<le> length s div 2 ^ k + 41"
proof -
  have plain: "stripNote s = s" "originalLength s = length s" using assms(1) by (simp_all add: stripNote_def originalLength_def)
  have "length s - min (length s) (length s div 2 ^ k) < 10 ^ 20" using assms(2) by linarith
  from length_note [OF this] show ?thesis using assms(3) by (simp add: shortened_def plain Let_def)
qed

lemma first_fit:
  assumes "NOTE_RE s = None" "length s < 2 ^ 28" "64 \<le> m"
  shows "\<exists>j \<le> SHRINK_ATTEMPTS. length (shortened s j) \<le> m \<and>
    (\<forall>i<j. m < length (shortened s i) \<and> 0 < length (stripNote s) div 2 ^ i)"
proof -
  have small: "length s < 10 ^ 20" using assms(2) by (rule less_le_trans) simp
  have plain: "stripNote s = s" using assms(1) by (simp add: stripNote_def)
  have "length s div 2 ^ 24 < 16" using assms(2) by (simp add: div_less_iff_less_mult)
  then have "length (shortened s 24) \<le> m" using length_shortened [OF assms(1) small, of 24] assms(3) by simp
  then obtain j where j: "length (shortened s j) \<le> m" "\<And>i. i < j \<Longrightarrow> \<not> length (shortened s i) \<le> m" "j \<le> 24"
    using exists_least_iff [of "\<lambda>j. length (shortened s j) \<le> m"] by (metis not_le)
  have "0 < length s div 2 ^ i" if "i < j" for i
  proof (rule ccontr)
    assume "\<not> 0 < length s div 2 ^ i"
    then have zero: "length s div 2 ^ i = 0" by simp
    have long: "m < length (shortened s i)" using j(2) [OF that] by simp
    show False
    proof (cases "i = 0")
      case True
      then show False using zero long by (simp add: shortened_def)
    next
      case False
      then show False using length_shortened [OF assms(1) small, of i] zero long assms(3) by simp
    qed
  qed
  then show ?thesis using j by (auto simp: plain SHRINK_ATTEMPTS_def not_le intro!: exI [of _ j])
qed

lemma shrinkField_keeps:
  assumes "shrinkField c p = Some d" "map_of c k = Some (JNum i)"
  shows "map_of d k = map_of c k"
proof -
  from assms(1) obtain f index v w where f: "map_of c f = Some v" "f \<noteq> ''type''" "shrink_value v index = Some w" "d = jm_set f w c"
    by (auto simp: shrinkField_def split: option.splits prod.splits if_splits)
  have "v \<noteq> JNum i" using f(3) by (auto simp: shrink_value_def)
  then have "f \<noteq> k" using f(1,2) assms(2) by auto
  then show ?thesis by (simp add: f(4) js_simps)
qed

lemma shrink_loop_event:
  "shrink_loop n c = Some e \<Longrightarrow> map_of c ''seq'' = Some (JNum a) \<Longrightarrow> map_of c ''ts'' = Some (JNum b) \<Longrightarrow>
   \<exists>c'. cloudEvent (JObj c') ''event'' = Inr e \<and> map_of c' ''seq'' = Some (JNum a) \<and> map_of c' ''ts'' = Some (JNum b)"
proof (induction n c rule: shrink_loop.induct)
  case (1 n c)
  show ?case
  proof (cases "cloudEvent (JObj c) ''event''")
    case (Inr w)
    then show ?thesis using 1(2-) by (subst (asm) shrink_loop.simps) auto
  next
    case (Inl err)
    then obtain m d where d: "n = Suc m" "SIZE_ERROR_RE (error_text err)" "shrinkField c (pe_path err) = Some d" "shrink_loop m d = Some e"
      using 1(2) by (subst (asm) shrink_loop.simps) (auto split: nat.splits if_splits option.splits)
    have "map_of d ''seq'' = Some (JNum a)" "map_of d ''ts'' = Some (JNum b)"
      using shrinkField_keeps [OF d(3)] 1(3,4) by auto
    from 1(1) [OF Inl d(1-4) this] show ?thesis .
  qed
qed

text \<open>An event that is written carries its number and its time, and the log's check accepted it.\<close>

lemma validated_event:
  assumes "validated p n t = Some e" "payload_ok (own_fields p)"
  shows "(\<exists>v. cloudEvent v ''event'' = Inr e) \<and> js_prop e ''seq'' = JNum n \<and> js_prop e ''ts'' = JNum t \<and> 1 \<le> n"
proof -
  let ?c = "[(''seq'', JNum n), (''ts'', JNum t)] @ own_fields p"
  have c: "spread [(''seq'', JNum n), (''ts'', JNum t)] (own_fields p) = ?c"
    using assms(2) by (intro spread_disjoint) (auto simp: payload_ok_def)
  from shrink_loop_event [OF assms(1) [unfolded validated_def c]] obtain c' where c': "cloudEvent (JObj c') ''event'' = Inr e"
    "map_of c' ''seq'' = Some (JNum n)" "map_of c' ''ts'' = Some (JNum t)"
    by auto
  from cloudEvent_parts [OF c'(1)] obtain x y where e: "obj envelope_shape (JObj c') ''event'' = Inr (JObj x)"
    "event_payload (JObj c') ''event'' = Inr (JObj y)" "e = JObj (x @ y)" "fst ` set x \<subseteq> {''seq'', ''ts''}" by blast
  have x: "x = [(''seq'', JNum n), (''ts'', JNum t)] \<and> 1 \<le> n"
    using e(1) c'(2,3) by (auto simp: obj_def envelope_shape_def Let_def int_check_def epochMs_def fail_def split: if_splits)
  then show ?thesis using c'(1) e(3) by auto
qed

subsection \<open>Properties\<close>

text \<open>C38: a text that is too long does not lose its event: of an event that is right but for the length of one text,
  the log writes everything else as it was, and of that text a beginning, with a note of exactly how much
  is missing.\<close>

theorem long_text_logged:
  assumes "event_payload (JObj fs) ''event'' = Inr (JObj out)" "payload_ok fs" "stamps_ok n t"
    and "map_of fs ''type'' = Some (JStr ty)" "map_of (chat_shapes @ cloud_shapes) ty = Some sh"
    and "text_field sh f m" "f \<noteq> ''type''" "64 \<le> m" "NOTE_RE s = None" "length s < 2 ^ 28"
  shows "\<exists>e text. validated (JObj (jm_set f (JStr s) fs)) n t = Some (JObj e) \<and>
    map_of e = (map_of out)(f \<mapsto> JStr text, ''seq'' \<mapsto> JNum n, ''ts'' \<mapsto> JNum t) \<and> length text \<le> m \<and>
    (text = s \<or> m < length s \<and> (\<exists>k<length s. text = take k s @ truncationNote (length s - k)))"
proof -
  have f: "f \<in> fst ` set sh" using assms(6) by (auto simp: text_field_def dest!: map_of_SomeD intro: rev_image_eqI)
  have letters: "f \<noteq> []" "list_all letter f" using shapes_plain [OF map_of_SomeD [OF assms(5)]] f by auto
  have keys: "''seq'' \<notin> fst ` set fs" "''ts'' \<notin> fst ` set fs" "distinct (map fst fs)"
    using assms(2) by (simp_all add: payload_ok_def)
  have "f \<in> shape_keys (chat_shapes @ cloud_shapes)"
    using f map_of_SomeD [OF assms(5)] unfolding shape_keys_def by force
  then have ne: "f \<noteq> ''seq''" "f \<noteq> ''ts''" using event_keys(2) [unfolded event_keys(1)] by blast+
  let ?c = "spread [(''seq'', JNum n), (''ts'', JNum t)] (jm_set f (JStr s) fs)"
  have "spread [(''seq'', JNum n), (''ts'', JNum t)] (jm_set f (JStr s) fs) =
      [(''seq'', JNum n), (''ts'', JNum t)] @ jm_set f (JStr s) fs"
    using keys ne by (intro spread_disjoint distinct_update) (auto simp: dom_update)
  then have c: "map_of ?c = (map_of (log_event n t fs))(f \<mapsto> JStr (shortened s 0))"
    using ne by (auto simp: log_event_def shortened_def update_conv' fun_eq_iff)
  obtain j where j: "j \<le> SHRINK_ATTEMPTS" "length (shortened s j) \<le> m"
    "\<And>i. i < j \<Longrightarrow> m < length (shortened s i) \<and> 0 < length (stripNote s) div 2 ^ i"
    using first_fit [OF assms(9,10,8)] by blast
  define R where "R x v \<longleftrightarrow> (\<exists>e. v = JObj e \<and> map_of e = (map_of out)(f \<mapsto> JStr x, ''seq'' \<mapsto> JNum n, ''ts'' \<mapsto> JNum t))"
    for x v
  have check: "if length x \<le> m then \<exists>v. cloudEvent (JObj c) ''event'' = Inr v \<and> R x v
      else cloudEvent (JObj c) ''event'' = fail (''event.'' @ f) (''longer than '' @ show_nat m)"
    if "map_of c = (map_of (log_event n t fs))(f \<mapsto> JStr x)" for c x
    using cloudEvent_text [OF assms(1,4-7,3) that keys(1,2)] by (auto simp: R_def split: if_splits)
  from shrink_loop_fits [OF letters assms(7) check j(3,2) c _ , of SHRINK_ATTEMPTS] j(1)
  obtain v where v: "shrink_loop SHRINK_ATTEMPTS ?c = Some v" "R (shortened s j) v" by auto
  have plain: "stripNote s = s" "originalLength s = length s" using assms(9) by (simp_all add: stripNote_def originalLength_def)
  have "shortened s j = s \<or> m < length s \<and> (\<exists>k<length s. shortened s j = take k s @ truncationNote (length s - k))"
  proof (cases "j = 0")
    case False
    then have "m < length s" using j(3) [of 0] by (simp add: shortened_def)
    moreover have "length s div 2 ^ j < length s"
      using False calculation assms(8) one_less_power [of "2 :: nat" j] by (intro div_less_dividend) auto
    ultimately show ?thesis using False by (intro disjI2) (auto simp: shortened_def plain Let_def)
  qed (simp add: shortened_def)
  then show ?thesis using v j(2) by (auto simp: validated_def own_fields_def R_def)
qed

subsection \<open>Witnesses\<close>

theorem long_text_logged_witness:
  "\<exists>e t. validated (JObj [(''type'', JStr ''done''), (''conversationId'', JStr ''A''), (''finishReason'', JStr (replicate 70 (CHR ''x'')))]) 1 5 =
       Some (JObj e) \<and> map_of e ''finishReason'' = Some (JStr t) \<and> length t \<le> 64"
proof -
  let ?fs = "[(''type'', JStr ''done''), (''conversationId'', JStr ''A''), (''finishReason'', JStr ''stop'')]"
  have "OPAQUE_ID_RE ''A''" by code_simp
  then have pay: "event_payload (JObj ?fs) ''event'' = Inr (JObj ?fs)"
    by (simp add: event_payload_def union_check_def variants_of_def chat_shapes_def in_conversation_def obj_def Let_def
        literals_def literal_check_def opaqueId_def pattern_str_def str_check_def any_str_def upto_def)
  have ty: "map_of ?fs ''type'' = Some (JStr ''done'')" by simp
  obtain sh where sh: "map_of (chat_shapes @ cloud_shapes) ''done'' = Some sh" "text_field sh ''finishReason'' 64"
    by (simp add: chat_shapes_def in_conversation_def text_field_def)
  have plain: "NOTE_RE (replicate 70 (CHR ''x'')) = None" by code_simp
  have "payload_ok ?fs" "stamps_ok 1 5" by (simp_all add: payload_ok_def stamps_ok_def MAX_SAFE_INTEGER_def)
  from long_text_logged [OF pay this ty sh _ _ plain] obtain e t where
    "validated (JObj (jm_set ''finishReason'' (JStr (replicate 70 (CHR ''x''))) ?fs)) 1 5 = Some (JObj e)"
    "map_of e = (map_of ?fs)(''finishReason'' \<mapsto> JStr t, ''seq'' \<mapsto> JNum 1, ''ts'' \<mapsto> JNum 5)" "length t \<le> 64"
    by auto
  then show ?thesis by (intro exI [of _ e] exI [of _ t]) simp
qed

end
