(* ===== verification/EventLog.thy ===== *)
theory EventLog
  imports EventShrink
begin

text \<open>
  The session's append-only event log: \<^verbatim>\<open>ts-apps/cloud-agent/src/event-log.ts\<close>.

  The log is the record of its fields. A timer is whether it is set (the retry timer: its delay). \<open>writes\<close>
  counts the writes that wait in the promise chain \<^verbatim>\<open>writing\<close>, and \<open>running\<close> is the batch of the one whose turn
  it is. A text is its UTF-8 bytes, so that \<^verbatim>\<open>Buffer.byteLength\<close> is its length; the content of \<^verbatim>\<open>head.json\<close> is
  what \<^verbatim>\<open>JSON.parse\<close> makes of it.

  Every call that may throw, of the file system or of the fence, takes one outcome from a list that is an input.
  A call that throws may have had a part of its effect; a run that stops in the middle (a crash) leaves the
  files as a call that throws does. A file that was renamed into place is assumed to be the new one only when
  the call succeeded.
\<close>

subsection \<open>Files\<close>

record log_files =
  segment_files :: "nat \<Rightarrow> string option"
  head_file :: "jsval option option"

definition seg_bytes :: "log_files \<Rightarrow> nat \<Rightarrow> string" where
  "seg_bytes fs n = (case segment_files fs n of None \<Rightarrow> [] | Some b \<Rightarrow> b)"

text \<open>\<open>Broken k\<close> throws; an append that throws has written \<open>k\<close> bytes, another call has had its effect if \<open>k\<close> is
  not 0.\<close>

datatype io = Fine | Broken nat

type_synonym io_world = "log_files \<times> io list"

definition io_call :: "(log_files \<Rightarrow> log_files) \<Rightarrow> (nat \<Rightarrow> log_files \<Rightarrow> log_files) \<Rightarrow> io_world \<Rightarrow> bool \<times> io_world" where
  "io_call full part w =
     (case snd w of
        [] \<Rightarrow> (False, w)
      | Fine # rest \<Rightarrow> (True, (full (fst w), rest))
      | Broken k # rest \<Rightarrow> (False, (part k (fst w), rest)))"

definition maybe_done :: "(log_files \<Rightarrow> log_files) \<Rightarrow> nat \<Rightarrow> log_files \<Rightarrow> log_files" where
  "maybe_done f k fs = (if k = 0 then fs else f fs)"

definition fence_call :: "io_world \<Rightarrow> bool \<times> io_world" where
  "fence_call = io_call id (\<lambda>_. id)"

definition append_bytes :: "nat \<Rightarrow> string \<Rightarrow> log_files \<Rightarrow> log_files" where
  "append_bytes n data fs = fs\<lparr>segment_files := (segment_files fs)(n \<mapsto> seg_bytes fs n @ data)\<rparr>"

definition append_call :: "nat \<Rightarrow> string \<Rightarrow> io_world \<Rightarrow> bool \<times> io_world" where
  "append_call n data = io_call (append_bytes n data) (\<lambda>k. append_bytes n (take k data))"

definition remove_segment :: "nat \<Rightarrow> log_files \<Rightarrow> log_files" where
  "remove_segment n fs = fs\<lparr>segment_files := (segment_files fs)(n := None)\<rparr>"

definition remove_call :: "nat \<Rightarrow> io_world \<Rightarrow> bool \<times> io_world" where
  "remove_call n = io_call (remove_segment n) (maybe_done (remove_segment n))"

definition truncate_segment :: "nat \<Rightarrow> nat \<Rightarrow> log_files \<Rightarrow> log_files" where
  "truncate_segment n len fs =
     (case segment_files fs n of
        None \<Rightarrow> fs
      | Some b \<Rightarrow> if len < length b then fs\<lparr>segment_files := (segment_files fs)(n \<mapsto> take len b)\<rparr> else fs)"

definition truncateTo :: "nat \<Rightarrow> nat \<Rightarrow> io_world \<Rightarrow> bool \<times> io_world" where
  "truncateTo n len = io_call (truncate_segment n len) (maybe_done (truncate_segment n len))"

definition head_value :: "nat \<Rightarrow> nat \<Rightarrow> jsval" where
  "head_value seg len = JObj [(''segment'', JNum (int seg)), (''length'', JNum (int len))]"

definition write_head_call :: "nat \<Rightarrow> nat \<Rightarrow> io_world \<Rightarrow> bool \<times> io_world" where
  "write_head_call seg len = io_call (\<lambda>fs. fs\<lparr>head_file := Some (Some (head_value seg len))\<rparr>) (\<lambda>_. id)"

subsection \<open>The log and its queue\<close>

definition DELTA_COALESCE_MS :: nat where
  "DELTA_COALESCE_MS = 250"

definition WRITE_RETRY_DELAYS_MS :: "nat list" where
  "WRITE_RETRY_DELAYS_MS = [500, 1000, 2000, 5000, 10000]"

record event_log =
  head_segment :: nat
  head_length :: nat
  last_seq :: int
  pending :: "jsval list"
  delta :: "jsval option"
  deltaTimer :: bool
  flushTimer :: bool
  retryTimer :: "nat option"
  failures :: nat
  unclean :: bool
  log_closed :: bool
  writes :: nat
  running :: "jsval list option"

definition new_log :: event_log where
  "new_log = \<lparr>head_segment = FIRST_EVENT_SEGMENT, head_length = 0, last_seq = 0, pending = [], delta = None,
     deltaTimer = False, flushTimer = False, retryTimer = None, failures = 0, unclean = False, log_closed = False,
     writes = 0, running = None\<rparr>"

definition takeDelta :: "event_log \<Rightarrow> event_log" where
  "takeDelta l = l\<lparr>deltaTimer := False, pending := pending l @ (case delta l of None \<Rightarrow> [] | Some d \<Rightarrow> [d]), delta := None\<rparr>"

definition scheduleFlush :: "event_log \<Rightarrow> event_log" where
  "scheduleFlush l = (if flushTimer l \<or> retryTimer l \<noteq> None then l else l\<lparr>flushTimer := True\<rparr>)"

definition is_delta :: "jsval \<Rightarrow> bool" where
  "is_delta p \<longleftrightarrow> js_prop p ''type'' = JStr ''text-delta'' \<or> js_prop p ''type'' = JStr ''thinking-delta''"

definition text_of :: "jsval \<Rightarrow> string" where
  "text_of p = (case js_prop p ''text'' of JStr s \<Rightarrow> s | _ \<Rightarrow> [])"

definition same_stream :: "jsval \<Rightarrow> jsval \<Rightarrow> bool" where
  "same_stream d p \<longleftrightarrow> js_prop d ''type'' = js_prop p ''type'' \<and> js_prop d ''conversationId'' = js_prop p ''conversationId''"

definition merge_delta :: "jsval \<Rightarrow> jsval \<Rightarrow> jsval" where
  "merge_delta d p = JObj (jm_set ''text'' (JStr (text_of d @ text_of p)) (own_fields d))"

definition emit :: "jsval \<Rightarrow> event_log \<Rightarrow> event_log" where
  "emit payload l =
     (if log_closed l then l
      else if is_delta payload then
        (case delta l of
           None \<Rightarrow> l\<lparr>delta := Some payload\<rparr>
         | Some d \<Rightarrow>
             (if same_stream d payload then l\<lparr>delta := Some (merge_delta d payload)\<rparr>
              else (scheduleFlush (takeDelta l))\<lparr>delta := Some payload\<rparr>))\<lparr>deltaTimer := True\<rparr>
      else (let l' = takeDelta l in scheduleFlush (l'\<lparr>pending := pending l' @ [payload]\<rparr>)))"

definition delta_fires :: "event_log \<Rightarrow> event_log" where
  "delta_fires l = scheduleFlush (takeDelta (l\<lparr>deltaTimer := False\<rparr>))"

definition writePending :: "event_log \<Rightarrow> event_log" where
  "writePending l = l\<lparr>flushTimer := False, writes := writes l + 1\<rparr>"

definition flush_fires :: "event_log \<Rightarrow> event_log" where
  "flush_fires l = writePending (l\<lparr>flushTimer := False\<rparr>)"

definition retry_fires :: "event_log \<Rightarrow> event_log" where
  "retry_fires l = writePending (l\<lparr>retryTimer := None\<rparr>)"

definition flush :: "event_log \<Rightarrow> event_log" where
  "flush l = writePending (takeDelta l)"

definition retry_delay :: "nat list \<Rightarrow> nat \<Rightarrow> nat" where
  "retry_delay delays n = (if delays = [] then 0 else delays ! min n (length delays - 1))"

definition scheduleRetry :: "nat list \<Rightarrow> event_log \<Rightarrow> event_log" where
  "scheduleRetry delays l =
     (if retryTimer l \<noteq> None then l
      else l\<lparr>retryTimer := Some (retry_delay delays (failures l)), failures := failures l + 1\<rparr>)"

definition close_log :: "event_log \<Rightarrow> event_log" where
  "close_log l = l\<lparr>log_closed := True, flushTimer := False, retryTimer := None, deltaTimer := False, pending := [], delta := None\<rparr>"

subsection \<open>Writing a batch\<close>

text \<open>The accepted events of a batch, numbered on; \<open>now i\<close> is the time at which payload \<open>i\<close> is.\<close>

fun number_batch :: "(nat \<Rightarrow> int) \<Rightarrow> nat \<Rightarrow> int \<Rightarrow> jsval list \<Rightarrow> jsval list \<times> int" where
  "number_batch now i s [] = ([], s)"
| "number_batch now i s (payload # batch) =
     (case validated payload (s + 1) (now i) of
        None \<Rightarrow> number_batch now (i + 1) s batch
      | Some event \<Rightarrow> (let (es, s') = number_batch now (i + 1) (s + 1) batch in (event # es, s')))"

text \<open>Append what was collected; the new head, or nothing when a call threw.\<close>

definition commit :: "nat \<times> nat \<Rightarrow> string \<Rightarrow> io_world \<Rightarrow> (nat \<times> nat) option \<times> io_world" where
  "commit head chunk w =
     (if chunk = [] then (Some head, w)
      else case fence_call w of
             (False, w') \<Rightarrow> (None, w')
           | (True, w') \<Rightarrow>
               (case append_call (fst head) chunk w' of
                  (False, w'') \<Rightarrow> (None, w'')
                | (True, w'') \<Rightarrow> (Some (fst head, snd head + length chunk), w'')))"

fun place_lines :: "string list \<Rightarrow> nat \<times> nat \<Rightarrow> string \<Rightarrow> io_world \<Rightarrow> (nat \<times> nat) option \<times> io_world" where
  "place_lines [] head chunk w = commit head chunk w"
| "place_lines (line # lines) head chunk w =
     (let used = snd head + length chunk
      in if 0 < used \<and> EVENT_SEGMENT_MAX_BYTES < used + length line then
           (case commit head chunk w of
              (None, w') \<Rightarrow> (None, w')
            | (Some head', w') \<Rightarrow>
                (case remove_call (fst head' + 1) w' of
                   (False, w'') \<Rightarrow> (None, w'')
                 | (True, w'') \<Rightarrow> place_lines lines (fst head' + 1, 0) line w''))
         else place_lines lines head (chunk @ line) w)"

definition write_batch :: "(nat \<Rightarrow> int) \<Rightarrow> jsval list \<Rightarrow> event_log \<Rightarrow> io_world \<Rightarrow> bool \<times> event_log \<times> io_world" where
  "write_batch now batch l w =
     (case fence_call w of
        (False, w1) \<Rightarrow> (False, l, w1)
      | (True, w1) \<Rightarrow>
          (case (if unclean l then truncateTo (head_segment l) (head_length l) w1 else (True, w1)) of
             (False, w2) \<Rightarrow> (False, l, w2)
           | (True, w2) \<Rightarrow>
               (let l' = l\<lparr>unclean := False\<rparr>; (es, s) = number_batch now 0 (last_seq l) batch
                in if es = [] then (True, l', w2)
                   else
                     (case place_lines (map formatEventLine es) (head_segment l, head_length l) [] w2 of
                        (None, w3) \<Rightarrow> (False, l', w3)
                      | (Some head, w3) \<Rightarrow>
                          (case fence_call w3 of
                             (False, w4) \<Rightarrow> (False, l', w4)
                           | (True, w4) \<Rightarrow>
                               (case write_head_call (fst head) (snd head) w4 of
                                  (False, w5) \<Rightarrow> (False, l', w5)
                                | (True, w5) \<Rightarrow>
                                    (True, l'\<lparr>head_segment := fst head, head_length := snd head, last_seq := s\<rparr>, w5)))))))"

text \<open>A write whose turn it is, up to its calls, and from what they gave.\<close>

definition begin_write :: "event_log \<Rightarrow> event_log" where
  "begin_write l =
     (if writes l = 0 \<or> running l \<noteq> None then l
      else if log_closed l \<or> pending l = [] then l\<lparr>writes := writes l - 1\<rparr>
      else l\<lparr>running := Some (pending l), pending := []\<rparr>)"

definition write_failed :: "nat list \<Rightarrow> jsval list \<Rightarrow> event_log \<Rightarrow> event_log" where
  "write_failed delays batch l =
     (let l' = l\<lparr>pending := batch @ pending l, unclean := True\<rparr> in if log_closed l then l' else scheduleRetry delays l')"

definition end_write :: "nat list \<Rightarrow> (nat \<Rightarrow> int) \<Rightarrow> event_log \<Rightarrow> io_world \<Rightarrow> event_log \<times> io_world" where
  "end_write delays now l w =
     (case running l of
        None \<Rightarrow> (l, w)
      | Some batch \<Rightarrow>
          (let (ok, l', w') = write_batch now batch l w;
               l'' = (if ok then l'\<lparr>failures := 0, retryTimer := None\<rparr> else write_failed delays batch l')
           in (l''\<lparr>running := None, writes := writes l'' - 1\<rparr>, w')))"

subsection \<open>Opening a log\<close>

definition trim :: "string \<Rightarrow> string" where
  "trim s = rev (dropWhile white_space (rev (dropWhile white_space s)))"

text \<open>Over the lines from the last.\<close>

fun last_seq_of :: "(string \<Rightarrow> jsval option) \<Rightarrow> string list \<Rightarrow> int" where
  "last_seq_of J [] = 0"
| "last_seq_of J (l # ls) =
     (if trim l = [] then last_seq_of J ls
      else case J (trim l) of
             None \<Rightarrow> last_seq_of J ls
           | Some v \<Rightarrow>
               (case js_prop v ''seq'' of
                  JNum n \<Rightarrow> if \<bar>n\<bar> \<le> MAX_SAFE_INTEGER then n else last_seq_of J ls
                | _ \<Rightarrow> last_seq_of J ls))"

definition lastSeqIn :: "(string \<Rightarrow> jsval option) \<Rightarrow> (string \<Rightarrow> string) \<Rightarrow> string \<Rightarrow> int" where
  "lastSeqIn J D buf = last_seq_of J (rev (split_on LF (D buf)))"

definition SEGMENT_READ_MAX :: nat where
  "SEGMENT_READ_MAX = EVENT_SEGMENT_MAX_BYTES * 64"

text \<open>\<^verbatim>\<open>readKnownFile\<close>: nothing when the file is too large and the call throws.\<close>

definition read_segment :: "log_files \<Rightarrow> nat \<Rightarrow> string option option" where
  "read_segment fs n =
     (case segment_files fs n of
        None \<Rightarrow> Some None
      | Some b \<Rightarrow> if SEGMENT_READ_MAX < length b then None else Some (Some b))"

text \<open>From segment \<open>n\<close> down; nothing when a call throws.\<close>

fun seq_before :: "(string \<Rightarrow> jsval option) \<Rightarrow> (string \<Rightarrow> string) \<Rightarrow> log_files \<Rightarrow> nat \<Rightarrow> nat \<Rightarrow> int option" where
  "seq_before J D fs seg 0 = Some 0"
| "seq_before J D fs seg (Suc n) =
     (if Suc n < FIRST_EVENT_SEGMENT then Some 0
      else case read_segment fs (Suc n) of
             None \<Rightarrow> None
           | Some prev \<Rightarrow>
               (let s = (case prev of None \<Rightarrow> 0 | Some b \<Rightarrow> lastSeqIn J D b)
                in if 0 < s then Some s
                   else if Suc n + 2 < seg then Some 0
                   else seq_before J D fs seg n))"

definition lastSeqBefore :: "(string \<Rightarrow> jsval option) \<Rightarrow> (string \<Rightarrow> string) \<Rightarrow> log_files \<Rightarrow> nat \<Rightarrow> int option" where
  "lastSeqBefore J D fs seg = seq_before J D fs seg (seg - 1)"

text \<open>The log with this head and this number.\<close>

definition log_at :: "nat \<Rightarrow> nat \<Rightarrow> int \<Rightarrow> event_log" where
  "log_at seg len s = new_log\<lparr>head_segment := seg, head_length := len, last_seq := s\<rparr>"

definition seq_or_before ::
    "(string \<Rightarrow> jsval option) \<Rightarrow> (string \<Rightarrow> string) \<Rightarrow> log_files \<Rightarrow> nat \<Rightarrow> int \<Rightarrow> int option" where
  "seq_or_before J D fs seg s = (if s = 0 then lastSeqBefore J D fs seg else Some s)"

text \<open>A head whose segment holds less than it says: go on in a new segment.\<close>

definition open_short ::
    "(string \<Rightarrow> jsval option) \<Rightarrow> (string \<Rightarrow> string) \<Rightarrow> nat \<Rightarrow> string option \<Rightarrow> io_world \<Rightarrow> event_log option \<times> io_world" where
  "open_short J D seg buf w =
     (case seq_or_before J D (fst w) seg (case buf of None \<Rightarrow> 0 | Some b \<Rightarrow> lastSeqIn J D b) of
        None \<Rightarrow> (None, w)
      | Some s \<Rightarrow>
          (case remove_call (seg + 1) w of
             (False, w1) \<Rightarrow> (None, w1)
           | (True, w1) \<Rightarrow>
               (case write_head_call (seg + 1) 0 w1 of
                  (False, w2) \<Rightarrow> (None, w2)
                | (True, w2) \<Rightarrow> (Some (log_at (seg + 1) 0 s), w2))))"

definition open_at ::
    "(string \<Rightarrow> jsval option) \<Rightarrow> (string \<Rightarrow> string) \<Rightarrow> nat \<Rightarrow> nat \<Rightarrow> io_world \<Rightarrow> event_log option \<times> io_world" where
  "open_at J D seg len w =
     (case read_segment (fst w) seg of
        None \<Rightarrow> (None, w)
      | Some buf \<Rightarrow>
          (if buf = None \<and> len = 0 then
             (case lastSeqBefore J D (fst w) seg of None \<Rightarrow> (None, w) | Some s \<Rightarrow> (Some (log_at seg len s), w))
           else
             (case buf of
                None \<Rightarrow> open_short J D seg None w
              | Some b \<Rightarrow>
                  (if length b < len then open_short J D seg (Some b) w
                   else
                     (case (if len < length b then truncateTo seg len w else (True, w)) of
                        (False, w1) \<Rightarrow> (None, w1)
                      | (True, w1) \<Rightarrow>
                          (case seq_or_before J D (fst w1) seg (lastSeqIn J D (take len b)) of
                             None \<Rightarrow> (None, w1)
                           | Some s \<Rightarrow> (Some (log_at seg len s), w1)))))))"

definition nat_prop :: "jsval \<Rightarrow> string \<Rightarrow> nat" where
  "nat_prop v k = (case js_prop v k of JNum n \<Rightarrow> nat n | _ \<Rightarrow> 0)"

definition open_log ::
    "(string \<Rightarrow> jsval option) \<Rightarrow> (string \<Rightarrow> string) \<Rightarrow> io_world \<Rightarrow> event_log option \<times> io_world" where
  "open_log J D w =
     (case fence_call w of
        (False, w1) \<Rightarrow> (None, w1)
      | (True, w1) \<Rightarrow>
          (case head_file (fst w1) of
             None \<Rightarrow>
               (case remove_call FIRST_EVENT_SEGMENT w1 of (False, w2) \<Rightarrow> (None, w2) | (True, w2) \<Rightarrow> (Some new_log, w2))
           | Some content \<Rightarrow>
               (case parseHeadFile content of
                  Inl _ \<Rightarrow> (None, w1)
                | Inr head \<Rightarrow> open_at J D (nat_prop head ''segment'') (nat_prop head ''length'') w1)))"

subsection \<open>What the files hold\<close>

definition lines_of :: "jsval list \<Rightarrow> string" where
  "lines_of es = concat (map formatEventLine es)"

lemma lines_of_simps [simp]:
  "lines_of [] = []" "lines_of (e # es) = formatEventLine e @ lines_of es" "lines_of (es @ fs) = lines_of es @ lines_of fs"
  by (simp_all add: lines_of_def)

lemma formatEventLine_nonempty [simp]: "formatEventLine e \<noteq> []"
  by (simp add: formatEventLine_def)

lemma lines_of_empty [simp]: "lines_of es = [] \<longleftrightarrow> es = []"
  by (cases es) simp_all

text \<open>A segment is within its limit, or holds one line.\<close>

definition fits :: "jsval list \<Rightarrow> bool" where
  "fits es \<longleftrightarrow> length (lines_of es) \<le> EVENT_SEGMENT_MAX_BYTES \<or> length es \<le> 1"

text \<open>The segments before segment \<open>seg\<close> hold \<open>full\<close>, and segment \<open>seg\<close> holds \<open>cur\<close> in its first \<open>len\<close> bytes.\<close>

definition stored :: "log_files \<Rightarrow> nat \<Rightarrow> nat \<Rightarrow> jsval list list \<Rightarrow> jsval list \<Rightarrow> bool" where
  "stored fs seg len full cur \<longleftrightarrow>
     seg = length full + FIRST_EVENT_SEGMENT \<and> len = length (lines_of cur) \<and>
     take len (seg_bytes fs seg) = lines_of cur \<and>
     (\<forall>i<length full. segment_files fs (i + FIRST_EVENT_SEGMENT) = Some (lines_of (full ! i))) \<and>
     [] \<notin> set full \<and> (\<forall>g\<in>set full. fits g) \<and> fits cur"

text \<open>What a write of the segments from \<open>k\<close> on leaves alone.\<close>

definition keeps :: "nat \<Rightarrow> log_files \<Rightarrow> log_files \<Rightarrow> bool" where
  "keeps k fs fs' \<longleftrightarrow> head_file fs' = head_file fs \<and> (\<forall>n<k. segment_files fs' n = segment_files fs n) \<and>
     (\<exists>x. seg_bytes fs' k = seg_bytes fs k @ x)"

lemma keeps_refl [simp]: "keeps k fs fs"
  by (simp add: keeps_def)

lemma keeps_trans: "keeps k a b \<Longrightarrow> keeps k b c \<Longrightarrow> keeps k a c"
  by (auto simp: keeps_def)

lemma keeps_later: "keeps m a b \<Longrightarrow> k \<le> m \<Longrightarrow> keeps k a b"
  by (cases "k = m") (auto simp: keeps_def seg_bytes_def)

lemma keeps_stored:
  assumes "keeps seg fs fs'" "stored fs seg len full cur"
  shows "stored fs' seg len full cur"
proof -
  have "take len (seg_bytes fs' seg) = take len (seg_bytes fs seg)"
    using assms by (auto simp: keeps_def stored_def) (metis append_Nil2 diff_is_0_eq length_take min.absorb_iff2 min_def take_0 take_append)
  then show ?thesis using assms by (auto simp: keeps_def stored_def)
qed

text \<open>Calls.\<close>

lemma fence_call_files: "fence_call w = (ok, w') \<Longrightarrow> fst w' = fst w"
  by (auto simp: fence_call_def io_call_def split: list.splits io.splits)

lemma append_call_keeps: "append_call n data w = (ok, w') \<Longrightarrow> k \<le> n \<Longrightarrow> keeps k (fst w) (fst w')"
  by (auto simp: append_call_def io_call_def append_bytes_def keeps_def seg_bytes_def split: list.splits io.splits)

lemma append_call_ok: "append_call n data w = (True, w') \<Longrightarrow> fst w' = append_bytes n data (fst w)"
  by (auto simp: append_call_def io_call_def split: list.splits io.splits)

lemma remove_call_keeps: "remove_call n w = (ok, w') \<Longrightarrow> k < n \<Longrightarrow> keeps k (fst w) (fst w')"
  by (auto simp: remove_call_def io_call_def maybe_done_def remove_segment_def keeps_def seg_bytes_def split: list.splits io.splits)

lemma remove_call_ok: "remove_call n w = (True, w') \<Longrightarrow> fst w' = remove_segment n (fst w)"
  by (auto simp: remove_call_def io_call_def split: list.splits io.splits)

lemma truncateTo_files: "truncateTo n len w = (ok, w') \<Longrightarrow>
    fst w' = truncate_segment n len (fst w) \<or> \<not> ok \<and> fst w' = fst w"
  by (auto simp: truncateTo_def io_call_def maybe_done_def split: list.splits io.splits)

lemma write_head_call_files: "write_head_call seg len w = (ok, w') \<Longrightarrow>
    fst w' = (if ok then (fst w)\<lparr>head_file := Some (Some (head_value seg len))\<rparr> else fst w)"
  by (auto simp: write_head_call_def io_call_def split: list.splits io.splits)

lemma truncate_stored:
  assumes "stored fs seg len full cur"
  shows "stored (truncate_segment seg len fs) seg len full cur" "seg_bytes (truncate_segment seg len fs) seg = lines_of cur"
    "head_file (truncate_segment seg len fs) = head_file fs"
proof -
  have b: "seg_bytes (truncate_segment seg len fs) seg = take len (seg_bytes fs seg)"
    by (auto simp: truncate_segment_def seg_bytes_def split: option.split)
  then show "seg_bytes (truncate_segment seg len fs) seg = lines_of cur" using assms by (auto simp: stored_def)
  have "segment_files (truncate_segment seg len fs) n = segment_files fs n" if "n \<noteq> seg" for n
    using that by (auto simp: truncate_segment_def split: option.split)
  then show "stored (truncate_segment seg len fs) seg len full cur" using assms b by (auto simp: stored_def)
  show "head_file (truncate_segment seg len fs) = head_file fs" by (auto simp: truncate_segment_def split: option.split)
qed

text \<open>Committing a chunk, and placing lines.\<close>

definition ends_at :: "log_files \<Rightarrow> nat \<Rightarrow> nat \<Rightarrow> jsval list list \<Rightarrow> jsval list \<Rightarrow> bool" where
  "ends_at fs seg len full cur \<longleftrightarrow> stored fs seg len full cur \<and> seg_bytes fs seg = lines_of cur"

lemma commit_spec:
  assumes "ends_at (fst w) seg len full cur" "fits (cur @ es)" "commit (seg, len) (lines_of es) w = (r, w')"
  shows "keeps seg (fst w) (fst w') \<and>
    (\<forall>h. r = Some h \<longrightarrow> h = (seg, length (lines_of (cur @ es))) \<and> ends_at (fst w') seg (snd h) full (cur @ es))"
proof (cases "es = []")
  case True
  then show ?thesis using assms by (auto simp: commit_def ends_at_def stored_def)
next
  case False
  obtain ok1 w1 where f: "fence_call w = (ok1, w1)" by (cases "fence_call w")
  show ?thesis
  proof (cases ok1)
    case False
    then have "w' = w1" "r = None" using assms(3) f \<open>es \<noteq> []\<close> by (auto simp: commit_def)
    then show ?thesis using fence_call_files [OF f] by simp
  next
    case True
    obtain ok2 w2 where a: "append_call seg (lines_of es) w1 = (ok2, w2)"
      by (cases "append_call seg (lines_of es) w1")
    have k: "keeps seg (fst w) (fst w2)" using append_call_keeps [OF a order_refl] fence_call_files [OF f] by simp
    show ?thesis
    proof (cases ok2)
      case False
      then show ?thesis using assms(3) f True a k \<open>es \<noteq> []\<close> by (auto simp: commit_def)
    next
      case ok2: True
      then have r: "r = Some (seg, len + length (lines_of es))" "w' = w2"
        using assms(3) f True a \<open>es \<noteq> []\<close> by (auto simp: commit_def)
      have w2: "fst w2 = append_bytes seg (lines_of es) (fst w)"
        using append_call_ok [of seg _ w1 w2] a ok2 fence_call_files [OF f] by simp
      have "seg_bytes (fst w2) seg = lines_of (cur @ es)"
        using assms(1) by (simp add: w2 append_bytes_def seg_bytes_def ends_at_def)
      then have "ends_at (fst w2) seg (length (lines_of (cur @ es))) full (cur @ es)"
        using assms(1,2) by (auto simp: ends_at_def stored_def w2 append_bytes_def)
      moreover have "len = length (lines_of cur)" using assms(1) by (simp add: ends_at_def stored_def)
      ultimately show ?thesis using r k by simp
    qed
  qed
qed

lemma place_lines_spec:
  assumes "ends_at (fst w) seg len full cur" "fits (cur @ es)"
    and "place_lines (map formatEventLine new) (seg, len) (lines_of es) w = (r, w')"
  shows "keeps seg (fst w) (fst w') \<and>
    (\<forall>h. r = Some h \<longrightarrow> (\<exists>full' cur'. ends_at (fst w') (fst h) (snd h) full' cur' \<and>
       concat full' @ cur' = concat full @ cur @ es @ new \<and> (cur @ es @ new \<noteq> [] \<longrightarrow> cur' \<noteq> [])))"
  using assms
proof (induction new arbitrary: seg len es w full cur)
  case Nil
  note commit_spec [OF Nil.prems(1,2), of r w']
  with Nil.prems(3) have k: "keeps seg (fst w) (fst w')"
    and e: "\<And>h. r = Some h \<Longrightarrow> h = (seg, length (lines_of (cur @ es))) \<and> ends_at (fst w') seg (snd h) full (cur @ es)" by auto
  show ?case using k e by (intro conjI allI impI exI [of _ full] exI [of _ "cur @ es"]) fastforce+
next
  case (Cons e new)
  define used where "used = len + length (lines_of es)"
  have used: "used = length (lines_of (cur @ es))" using Cons.prems(1) by (simp add: used_def ends_at_def stored_def)
  show ?case
  proof (cases "0 < used \<and> EVENT_SEGMENT_MAX_BYTES < used + length (formatEventLine e)")
    case False
    then have "fits (cur @ (es @ [e]))" using used by (auto simp: fits_def)
    moreover have "place_lines (map formatEventLine new) (seg, len) (lines_of (es @ [e])) w = (r, w')"
      using Cons.prems(3) False by (auto simp: used_def Let_def split: if_splits)
    ultimately show ?thesis using Cons.IH [OF Cons.prems(1), of "es @ [e]"] by simp
  next
    case True
    obtain r1 w1 where c: "commit (seg, len) (lines_of es) w = (r1, w1)" by (cases "commit (seg, len) (lines_of es) w")
    note spec = commit_spec [OF Cons.prems(1,2) c]
    show ?thesis
    proof (cases r1)
      case None
      then show ?thesis using Cons.prems(3) True spec c by (auto simp: used_def Let_def)
    next
      case (Some h1)
      with spec have h1: "h1 = (seg, length (lines_of (cur @ es)))" "ends_at (fst w1) seg (snd h1) full (cur @ es)" by auto
      obtain ok w2 where rm: "remove_call (seg + 1) w1 = (ok, w2)" by (cases "remove_call (seg + 1) w1")
      have k: "keeps seg (fst w) (fst w2)"
        using spec remove_call_keeps [OF rm, of seg] by (auto intro: keeps_trans)
      show ?thesis
      proof (cases ok)
        case False
        then show ?thesis using Cons.prems(3) True c Some h1 rm k by (auto simp: used_def Let_def)
      next
        case ok: True
        have w2: "fst w2 = remove_segment (seg + 1) (fst w1)" using remove_call_ok [of _ w1 w2] rm ok by simp
        have nonempty: "cur @ es \<noteq> []" using True used by auto
        then have on_disk: "segment_files (fst w1) seg = Some (lines_of (cur @ es))"
          using h1(2) by (auto simp: ends_at_def seg_bytes_def split: option.splits)
        have "segment_files (fst w2) (i + FIRST_EVENT_SEGMENT) = Some (lines_of ((full @ [cur @ es]) ! i))"
          if "i < length (full @ [cur @ es])" for i
          using that on_disk h1(2) by (auto simp: w2 remove_segment_def ends_at_def stored_def nth_append less_Suc_eq)
        then have "ends_at (fst w2) (seg + 1) 0 (full @ [cur @ es]) []"
          using h1(2) nonempty by (auto simp: ends_at_def stored_def fits_def w2 remove_segment_def seg_bytes_def)
        moreover have "fits ([] @ [e])" by (simp add: fits_def)
        moreover have "place_lines (map formatEventLine new) (seg + 1, 0) (lines_of [e]) w2 = (r, w')"
          using Cons.prems(3) True c Some h1 rm ok by (simp add: used_def Let_def)
        ultimately have "keeps (seg + 1) (fst w2) (fst w') \<and>
            (\<forall>h. r = Some h \<longrightarrow> (\<exists>full' cur'. ends_at (fst w') (fst h) (snd h) full' cur' \<and>
              concat full' @ cur' = concat (full @ [cur @ es]) @ [] @ [e] @ new \<and> ([] @ [e] @ new \<noteq> [] \<longrightarrow> cur' \<noteq> [])))"
          by (rule Cons.IH)
        then show ?thesis using k keeps_later [of "seg + 1" "fst w2" "fst w'" seg] by (auto intro: keeps_trans)
      qed
    qed
  qed
qed

subsection \<open>Writes keep the log right\<close>

definition numbered :: "jsval list \<Rightarrow> bool" where
  "numbered es \<longleftrightarrow> (\<forall>i<length es. js_prop (es ! i) ''seq'' = JNum (int i + 1) \<and> (\<exists>v. cloudEvent v ''event'' = Inr (es ! i)))"

definition payloads_ok :: "jsval list \<Rightarrow> bool" where
  "payloads_ok ps \<longleftrightarrow> (\<forall>p\<in>set ps. payload_ok (own_fields p))"

lemma payloads_ok_simps [simp]:
  "payloads_ok []" "payloads_ok (p # ps) \<longleftrightarrow> payload_ok (own_fields p) \<and> payloads_ok ps"
  "payloads_ok (ps @ qs) \<longleftrightarrow> payloads_ok ps \<and> payloads_ok qs"
  by (auto simp: payloads_ok_def)

lemma number_batch_spec:
  "number_batch now i s batch = (es, s') \<Longrightarrow> payloads_ok batch \<Longrightarrow>
     s' = s + int (length es) \<and>
     (\<forall>j<length es. js_prop (es ! j) ''seq'' = JNum (s + int j + 1) \<and> (\<exists>v. cloudEvent v ''event'' = Inr (es ! j)))"
proof (induction batch arbitrary: i s es)
  case (Cons p batch)
  show ?case
  proof (cases "validated p (s + 1) (now i)")
    case None
    then show ?thesis using Cons by auto
  next
    case (Some e)
    obtain es1 where es1: "number_batch now (i + 1) (s + 1) batch = (es1, s')" "es = e # es1"
      using Cons.prems(1) Some by (auto split: prod.splits)
    from Cons.IH [OF es1(1)] Cons.prems(2) validated_event [OF Some] show ?thesis
      by (auto simp: es1(2) nth_Cons algebra_simps split: nat.split)
  qed
qed simp

text \<open>What \<open>head.json\<close> says, and what it is when nothing was published.\<close>

definition head_right :: "log_files \<Rightarrow> nat \<Rightarrow> nat \<Rightarrow> jsval list list \<Rightarrow> jsval list \<Rightarrow> bool" where
  "head_right fs seg len full cur \<longleftrightarrow>
     (if cur = [] then head_file fs = None \<and> full = [] else head_file fs = Some (Some (head_value seg len)))"

definition log_inv :: "event_log \<Rightarrow> log_files \<Rightarrow> jsval list \<Rightarrow> bool" where
  "log_inv l fs es \<longleftrightarrow> last_seq l = int (length es) \<and> numbered es \<and>
     (\<exists>full cur. stored fs (head_segment l) (head_length l) full cur \<and> concat full @ cur = es \<and>
        (unclean l \<or> seg_bytes fs (head_segment l) = lines_of cur) \<and>
        head_right fs (head_segment l) (head_length l) full cur)"

lemma log_inv_cong:
  "log_inv l fs es \<Longrightarrow> head_segment l' = head_segment l \<Longrightarrow> head_length l' = head_length l \<Longrightarrow> last_seq l' = last_seq l \<Longrightarrow>
     unclean l \<longrightarrow> unclean l' \<Longrightarrow> log_inv l' fs es"
  by (auto simp: log_inv_def)

lemma numbered_append:
  "numbered es \<Longrightarrow> \<forall>j<length new. js_prop (new ! j) ''seq'' = JNum (int (length es) + int j + 1) \<and>
     (\<exists>v. cloudEvent v ''event'' = Inr (new ! j)) \<Longrightarrow> numbered (es @ new)"
  by (auto simp: numbered_def nth_append)

lemma write_batch_spec:
  assumes inv: "log_inv l (fst w) es" and ok: "payloads_ok batch"
    and run: "write_batch now batch l w = (good, l', w')" "number_batch now 0 (last_seq l) batch = (new, s)"
  shows "if good then log_inv l' (fst w') (es @ new) else log_inv (l'\<lparr>unclean := True\<rparr>) (fst w') es"
proof -
  from inv obtain full cur where st: "stored (fst w) (head_segment l) (head_length l) full cur" "concat full @ cur = es"
    "unclean l \<or> seg_bytes (fst w) (head_segment l) = lines_of cur" "head_right (fst w) (head_segment l) (head_length l) full cur"
    "last_seq l = int (length es)" "numbered es" by (auto simp: log_inv_def)
  note nb = number_batch_spec [OF run(2) ok]
  have failed: "log_inv (l'\<lparr>unclean := True\<rparr>) fs es"
    if "stored fs (head_segment l) (head_length l) full cur" "head_file fs = head_file (fst w)"
      "head_segment l' = head_segment l" "head_length l' = head_length l" "last_seq l' = last_seq l" for fs l'
  proof -
    have "head_right fs (head_segment l) (head_length l) full cur"
      using that(2) st(4) by (simp only: head_right_def)
    then show ?thesis unfolding log_inv_def using that st(2,5,6) by (intro conjI exI [of _ full] exI [of _ cur]) simp_all
  qed
  obtain ok1 w1 where f1: "fence_call w = (ok1, w1)" by (cases "fence_call w")
  note w1 = fence_call_files [OF f1]
  show ?thesis
  proof (cases ok1)
    case False
    then have "good = False" "l' = l" "w' = w1" using run(1) f1 by (auto simp: write_batch_def)
    then show ?thesis using failed [of "fst w" l] st(1) w1 by simp
  next
    case ok1: True
    obtain ok2 w2 where t: "(if unclean l then truncateTo (head_segment l) (head_length l) w1 else (True, w1)) = (ok2, w2)"
      by (cases "if unclean l then truncateTo (head_segment l) (head_length l) w1 else (True, w1)")
    have t_files: "fst w2 = truncate_segment (head_segment l) (head_length l) (fst w) \<or> (ok2 \<longrightarrow> \<not> unclean l) \<and> fst w2 = fst w"
      using t truncateTo_files [of "head_segment l" "head_length l" w1 ok2 w2] w1 by (auto split: if_splits)
    have st2: "stored (fst w2) (head_segment l) (head_length l) full cur" "head_file (fst w2) = head_file (fst w)"
      using t_files st(1) truncate_stored [OF st(1)] by auto
    show ?thesis
    proof (cases ok2)
      case False
      then have "good = False" "l' = l" "w' = w2" using run(1) f1 ok1 t by (auto simp: write_batch_def)
      then show ?thesis using failed st2 by simp
    next
      case ok2: True
      have at2: "ends_at (fst w2) (head_segment l) (head_length l) full cur"
        using t_files ok2 st2(1) st(3) truncate_stored(2) [OF st(1)] by (auto simp: ends_at_def)
      define m where "m = l\<lparr>unclean := False\<rparr>"
      show ?thesis
      proof (cases "new = []")
        case True
        then have "good = True" "l' = m" "w' = w2" using run f1 ok1 t ok2 by (auto simp: write_batch_def m_def)
        moreover have "head_right (fst w2) (head_segment l) (head_length l) full cur"
          using st2(2) st(4) by (simp only: head_right_def)
        then have "log_inv m (fst w2) es" unfolding log_inv_def m_def using at2 st(2,5,6)
          by (intro conjI exI [of _ full] exI [of _ cur]) (simp_all add: ends_at_def)
        ultimately show ?thesis using True by simp
      next
        case False
        obtain r w3 where pl: "place_lines (map formatEventLine new) (head_segment l, head_length l) [] w2 = (r, w3)"
          by (cases "place_lines (map formatEventLine new) (head_segment l, head_length l) [] w2")
        have "fits (cur @ [])" using at2 by (simp add: ends_at_def stored_def)
        note placed = place_lines_spec [OF at2 this, of new r w3]
        have k: "keeps (head_segment l) (fst w2) (fst w3)" using placed pl by simp
        have st3: "stored (fst w3) (head_segment l) (head_length l) full cur" "head_file (fst w3) = head_file (fst w)"
          using keeps_stored [OF k st2(1)] k st2(2) by (auto simp: keeps_def)
        show ?thesis
        proof (cases r)
          case None
          then have "good = False" "l' = m" "w' = w3" using run f1 ok1 t ok2 pl False by (auto simp: write_batch_def m_def Let_def)
          then show ?thesis using failed st3 by (simp add: m_def)
        next
          case (Some h)
          then obtain full' cur' where p: "ends_at (fst w3) (fst h) (snd h) full' cur'"
            "concat full' @ cur' = es @ new" "cur' \<noteq> []"
            using placed pl False st(2) by (auto simp flip: append_assoc)
          obtain ok4 w4 where f4: "fence_call w3 = (ok4, w4)" by (cases "fence_call w3")
          obtain ok5 w5 where h5: "write_head_call (fst h) (snd h) w4 = (ok5, w5)" by (cases "write_head_call (fst h) (snd h) w4")
          note files = fence_call_files [OF f4] write_head_call_files [OF h5]
          consider (fence) "\<not> ok4" | (head) "ok4" "\<not> ok5" | (fine) ok4 ok5 by blast
          then show ?thesis
          proof cases
            case fence
            then have "good = False" "l' = m" "w' = w4"
              using run f1 ok1 t ok2 pl False Some f4 by (auto simp: write_batch_def m_def Let_def)
            then show ?thesis using failed st3 files by (simp add: m_def)
          next
            case head
            then have "good = False" "l' = m" "w' = w5"
              using run f1 ok1 t ok2 pl False Some f4 h5 by (auto simp: write_batch_def m_def Let_def)
            then show ?thesis using failed st3 files head by (simp add: m_def)
          next
            case fine
            then have l': "good = True" "l' = m\<lparr>head_segment := fst h, head_length := snd h, last_seq := s\<rparr>" "w' = w5"
              using run f1 ok1 t ok2 pl False Some f4 h5 by (auto simp: write_batch_def m_def Let_def)
            have "numbered (es @ new)" by (rule numbered_append [OF st(6)]) (use nb st(5) in auto)
            moreover have "stored (fst w5) (fst h) (snd h) full' cur'" "seg_bytes (fst w5) (fst h) = lines_of cur'"
              using p(1) files fine by (auto simp: ends_at_def stored_def seg_bytes_def)
            moreover have "head_right (fst w5) (fst h) (snd h) full' cur'" using files fine p(3) by (simp add: head_right_def)
            ultimately show ?thesis using l' p(2) nb st(5) by (auto simp: log_inv_def m_def)
          qed
        qed
      qed
    qed
  qed
qed

subsection \<open>Opening finds the log again\<close>

text \<open>What reading a line of the log needs of \<^verbatim>\<open>JSON.parse\<close> and of decoding.\<close>

definition readable :: "(string \<Rightarrow> jsval option) \<Rightarrow> (string \<Rightarrow> string) \<Rightarrow> jsval \<Rightarrow> bool" where
  "readable J D e \<longleftrightarrow> LF \<notin> set (json_text e) \<and> J (trim (D (json_text e))) = Some e \<and> trim (D (json_text e)) \<noteq> []"

lemma split_decoded:
  assumes "by_lines D" "\<forall>e\<in>set es. readable J D e"
  shows "split_on LF (D (lines_of es)) = map (\<lambda>e. D (json_text e)) es @ [[]]"
  using assms(2)
proof (induction es)
  case Nil
  then show ?case using assms(1) by (simp add: by_lines_def)
next
  case (Cons e es)
  have "D (lines_of (e # es)) = D (json_text e) @ LF # D (lines_of es)"
    using assms(1) by (simp add: by_lines_def formatEventLine_def)
  moreover have "LF \<notin> set (D (json_text e))" using assms(1) Cons.prems by (simp add: by_lines_def readable_def)
  ultimately show ?case using Cons by (simp add: split_on_append split_on_none)
qed

lemma lastSeqIn_lines:
  assumes "by_lines D" "\<forall>e\<in>set es. readable J D e" "es \<noteq> []" "js_prop (last es) ''seq'' = JNum n" "\<bar>n\<bar> \<le> MAX_SAFE_INTEGER"
  shows "lastSeqIn J D (lines_of es) = n"
proof -
  obtain e rest where es: "es = rest @ [e]" using assms(3) by (cases es rule: rev_cases) auto
  have "readable J D e" using assms(2) by (simp add: es)
  moreover have "trim [] = []" by (simp add: trim_def)
  ultimately show ?thesis using assms(4,5)
    by (simp add: lastSeqIn_def split_decoded [OF assms(1,2)]) (simp add: es readable_def)
qed

lemma accepted_seq: "cloudEvent v p = Inr e \<Longrightarrow> js_prop e ''seq'' = JNum n \<Longrightarrow> 1 \<le> n \<and> n \<le> MAX_SAFE_INTEGER"
proof -
  assume c: "cloudEvent v p = Inr e" and n: "js_prop e ''seq'' = JNum n"
  from cloudEvent_parts [OF c] obtain x y where e: "obj envelope_shape v p = Inr (JObj x)" "e = JObj (x @ y)" by blast
  from e(1) obtain fs where "check_fields p fs envelope_shape [] = Inr x" by (auto simp: obj_def split: jsval.splits sum.splits)
  then obtain i j where "x = [(''seq'', JNum i), (''ts'', JNum j)]" "1 \<le> i" "i \<le> MAX_SAFE_INTEGER"
    by (cases "raw_field fs ''seq''"; cases "raw_field fs ''ts''")
      (auto simp: envelope_shape_def Let_def int_check_def epochMs_def fail_def split: if_splits)
  then show ?thesis using n e(2) by simp
qed

lemma parseHead_value:
  assumes "parseHeadFile (Some (head_value seg len)) = Inr h"
  shows "nat_prop h ''segment'' = seg \<and> nat_prop h ''length'' = len"
proof -
  have "h = head_value seg len"
    using assms by (auto simp: parseHeadFile_def parse_with_def parseJsonText_def headFile_def head_value_def obj_def Let_def
        int_check_def split: if_splits sum.splits)
  then show ?thesis by (simp add: head_value_def nat_prop_def)
qed

lemma numbered_last: "numbered es \<Longrightarrow> es \<noteq> [] \<Longrightarrow> js_prop (last es) ''seq'' = JNum (int (length es)) \<and> int (length es) \<le> MAX_SAFE_INTEGER"
proof -
  assume n: "numbered es" "es \<noteq> []"
  then have l: "length es - 1 < length es" "last es = es ! (length es - 1)" by (simp_all add: last_conv_nth)
  moreover have "int (length es - 1) + 1 = int (length es)" using n(2) by (cases es) simp_all
  ultimately have "js_prop (last es) ''seq'' = JNum (int (length es))" "\<exists>v. cloudEvent v ''event'' = Inr (last es)"
    using n unfolding numbered_def by auto
  then show ?thesis using accepted_seq by blast
qed

lemma open_spec:
  assumes inv: "log_inv l (fst w) es" and D: "by_lines D" "\<forall>e\<in>set es. readable J D e"
    and run: "open_log J D w = (r, w')"
  shows "log_inv (l\<lparr>unclean := True\<rparr>) (fst w') es \<and>
    (\<forall>l'. r = Some l' \<longrightarrow> log_inv l' (fst w') es \<and> l' = log_at (head_segment l) (head_length l) (last_seq l))"
proof -
  define seg len where d: "seg = head_segment l" "len = head_length l"
  from inv obtain full cur where st: "stored (fst w) seg len full cur" "concat full @ cur = es"
    "head_right (fst w) seg len full cur" "last_seq l = int (length es)" "numbered es" by (auto simp: log_inv_def d)
  have later: "log_inv (l\<lparr>unclean := True\<rparr>) fs es \<and> (seg_bytes fs seg = lines_of cur \<longrightarrow> log_inv (log_at seg len (last_seq l)) fs es)"
    if "stored fs seg len full cur" "head_file fs = head_file (fst w)" for fs
  proof -
    have h: "head_right fs seg len full cur" using that(2) st(3) by (simp only: head_right_def)
    have "log_inv (l\<lparr>unclean := True\<rparr>) fs es" unfolding log_inv_def using that h st(2,4,5)
      by (intro conjI exI [of _ full] exI [of _ cur]) (simp_all add: d)
    moreover have "log_inv (log_at seg len (last_seq l)) fs es" if "seg_bytes fs seg = lines_of cur"
      unfolding log_inv_def using \<open>stored fs seg len full cur\<close> that h st(2,4,5)
      by (intro conjI exI [of _ full] exI [of _ cur]) (simp_all add: log_at_def)
    ultimately show ?thesis by blast
  qed
  obtain ok1 w1 where f1: "fence_call w = (ok1, w1)" by (cases "fence_call w")
  note w1 = fence_call_files [OF f1]
  show ?thesis
  proof (cases ok1)
    case False
    then have "r = None" "w' = w1" using run f1 by (simp_all add: open_log_def)
    then show ?thesis using later [of "fst w"] st(1) w1 by simp
  next
    case ok1: True
    show ?thesis
    proof (cases "cur = []")
      case True
      then have first: "full = []" "head_file (fst w) = None" "seg = FIRST_EVENT_SEGMENT" "len = 0"
        using st(1,3) by (auto simp: head_right_def stored_def)
      obtain ok2 w2 where rm: "remove_call FIRST_EVENT_SEGMENT w1 = (ok2, w2)" by (cases "remove_call FIRST_EVENT_SEGMENT w1")
      have res: "r = (if ok2 then Some new_log else None)" "w' = w2"
        using run f1 ok1 first(2) w1 rm by (auto simp: open_log_def split: bool.splits)
      have w2: "fst w2 = fst w \<or> fst w2 = remove_segment FIRST_EVENT_SEGMENT (fst w)" "ok2 \<Longrightarrow> fst w2 = remove_segment FIRST_EVENT_SEGMENT (fst w)"
        using rm w1 by (auto simp: remove_call_def io_call_def maybe_done_def split: list.splits io.splits if_splits)
      have "stored (fst w2) seg len full cur" "head_file (fst w2) = head_file (fst w)"
        using st(1) w2(1) first True by (auto simp: stored_def remove_segment_def)
      note l2 = later [OF this]
      moreover have "seg_bytes (fst w2) seg = lines_of cur" if ok2
        using w2(2) [OF that] True first(3) by (simp add: seg_bytes_def remove_segment_def)
      moreover have "new_log = log_at seg len (last_seq l)"
        using first st(2,4) True by (simp add: log_at_def new_log_def)
      ultimately show ?thesis using res by (auto simp flip: d split: if_splits)
    next
      case False
      then have head: "head_file (fst w) = Some (Some (head_value seg len))" using st(3) by (simp add: head_right_def)
      show ?thesis
      proof (cases "parseHeadFile (Some (head_value seg len))")
        case (Inl err)
        then have "r = None" "w' = w1" using run f1 ok1 head w1 by (auto simp: open_log_def)
        then show ?thesis using later [of "fst w"] st(1) w1 by simp
      next
        case (Inr h)
        then have at: "open_at J D seg len w1 = (r, w')"
          using run f1 ok1 head w1 parseHead_value [OF Inr] by (simp add: open_log_def)
        have cur: "len = length (lines_of cur)" "take len (seg_bytes (fst w) seg) = lines_of cur" "lines_of cur \<noteq> []"
          using st(1) False by (auto simp: stored_def)
        then have "seg_bytes (fst w) seg \<noteq> []" by (metis take_Nil)
        then obtain b where b1: "segment_files (fst w) seg = Some b"
          by (cases "segment_files (fst w) seg") (simp_all add: seg_bytes_def)
        then have b2: "take len b = lines_of cur" using cur(2) by (simp add: seg_bytes_def)
        then have "length (take len b) = len" by (simp add: cur(1))
        then have "len \<le> length b" by simp
        note b = b1 b2 this
        show ?thesis
        proof (cases "read_segment (fst w) seg")
          case None
          then have "r = None" "w' = w1" using at w1 by (simp_all add: open_at_def)
          then show ?thesis using later [of "fst w"] st(1) w1 by simp
        next
          case (Some buf)
          then have buf: "buf = Some b" using b(1) by (simp add: read_segment_def split: if_splits)
          obtain ok2 w2 where t: "(if len < length b then truncateTo seg len w1 else (True, w1)) = (ok2, w2)"
            by (cases "if len < length b then truncateTo seg len w1 else (True, w1)")
          have t_files: "fst w2 = truncate_segment seg len (fst w) \<or> (ok2 \<longrightarrow> \<not> len < length b) \<and> fst w2 = fst w"
            using t truncateTo_files [of seg len w1 ok2 w2] w1 by (auto split: if_splits)
          have st2: "stored (fst w2) seg len full cur" "head_file (fst w2) = head_file (fst w)"
            using t_files st(1) truncate_stored [OF st(1)] by auto
          have "seg_bytes (fst w2) seg = lines_of cur" if ok2
            using t_files that truncate_stored(2) [OF st(1)] b by (auto simp: seg_bytes_def)
          note l2 = later [OF st2] this
          have "last cur = last es" "cur \<noteq> []" "es \<noteq> []" "\<forall>e\<in>set cur. readable J D e" using False st(2) D(2) by auto
          then have "lastSeqIn J D (take len b) = last_seq l" "last_seq l \<noteq> 0"
            using lastSeqIn_lines [OF D(1), of cur J] numbered_last [OF st(5)] b(2) st(4) by auto
          then have "r = (if ok2 then Some (log_at seg len (last_seq l)) else None)" "w' = w2"
            using at Some w1 t b(3) by (auto simp: open_at_def buf seq_or_before_def split: if_splits bool.splits)
          then show ?thesis using l2 by (auto simp flip: d split: if_splits)
        qed
      qed
    qed
  qed
qed

subsection \<open>The life of a session's log\<close>

text \<open>
  The files and the log, with the history: the events emitted, those whose batch was published, and the numbered
  events of those. A timer can fire when it is set. Reopening is the next run's start, after a crash at any point:
  what was not published then is lost.
\<close>

datatype log_action =
    Emit jsval
  | DeltaFires
  | FlushFires
  | RetryFires
  | Flush
  | BeginWrite
  | EndWrite "nat \<Rightarrow> int" "io list"
  | CloseLog
  | Reopen "io list"

record log_world =
  the_files :: log_files
  the_log :: event_log
  emitted :: "jsval list"
  published :: "jsval list"
  log_events :: "jsval list"

definition empty_world :: log_world where
  "empty_world = \<lparr>the_files = \<lparr>segment_files = (\<lambda>_. None), head_file = None\<rparr>, the_log = new_log,
     emitted = [], published = [], log_events = []\<rparr>"

definition queued :: "event_log \<Rightarrow> jsval list" where
  "queued l = (case running l of None \<Rightarrow> [] | Some batch \<Rightarrow> batch) @ pending l @ (case delta l of None \<Rightarrow> [] | Some d \<Rightarrow> [d])"

fun log_act ::
    "(string \<Rightarrow> jsval option) \<Rightarrow> (string \<Rightarrow> string) \<Rightarrow> nat list \<Rightarrow> log_action \<Rightarrow> log_world \<Rightarrow> log_world" where
  "log_act J D delays (Emit p) w =
     w\<lparr>the_log := emit p (the_log w), emitted := emitted w @ (if log_closed (the_log w) then [] else [p])\<rparr>"
| "log_act J D delays DeltaFires w = (if deltaTimer (the_log w) then w\<lparr>the_log := delta_fires (the_log w)\<rparr> else w)"
| "log_act J D delays FlushFires w = (if flushTimer (the_log w) then w\<lparr>the_log := flush_fires (the_log w)\<rparr> else w)"
| "log_act J D delays RetryFires w = (if retryTimer (the_log w) \<noteq> None then w\<lparr>the_log := retry_fires (the_log w)\<rparr> else w)"
| "log_act J D delays Flush w = w\<lparr>the_log := flush (the_log w)\<rparr>"
| "log_act J D delays BeginWrite w = w\<lparr>the_log := begin_write (the_log w)\<rparr>"
| "log_act J D delays (EndWrite now io) w =
     (let l = the_log w; (l', fs, _) = end_write delays now l (the_files w, io);
          batch = (case running l of Some b \<Rightarrow> b | None \<Rightarrow> []);
          good = running l \<noteq> None \<and> fst (write_batch now batch l (the_files w, io))
      in w\<lparr>the_log := l', the_files := fs,
           published := published w @ (if good then batch else []),
           log_events := log_events w @ (if good then fst (number_batch now 0 (last_seq l) batch) else [])\<rparr>)"
| "log_act J D delays CloseLog w =
     (let l = close_log (the_log w) in w\<lparr>the_log := l, emitted := published w @ queued l\<rparr>)"
| "log_act J D delays (Reopen io) w =
     (let (opened, fs, _) = open_log J D (the_files w, io)
      in w\<lparr>the_files := fs, the_log := (case opened of Some l \<Rightarrow> l
             | None \<Rightarrow> (the_log w)\<lparr>pending := [], delta := None, deltaTimer := False, flushTimer := False,
                 retryTimer := None, failures := 0, unclean := True, log_closed := True, writes := 0, running := None\<rparr>),
           emitted := published w\<rparr>)"

fun log_run ::
    "(string \<Rightarrow> jsval option) \<Rightarrow> (string \<Rightarrow> string) \<Rightarrow> nat list \<Rightarrow> log_action list \<Rightarrow> log_world \<Rightarrow> log_world" where
  "log_run J D delays [] w = w"
| "log_run J D delays (a # as) w = log_run J D delays as (log_act J D delays a w)"

definition action_ok :: "log_action \<Rightarrow> bool" where
  "action_ok a \<longleftrightarrow> (case a of Emit p \<Rightarrow> payload_ok (own_fields p) | _ \<Rightarrow> True)"

text \<open>Events but for how deltas are cut: a delta is its characters, each in its stream.\<close>

datatype piece = Whole jsval | Piece jsval jsval char

definition pieces :: "jsval \<Rightarrow> piece list" where
  "pieces p = (if is_delta p then map (Piece (js_prop p ''type'') (js_prop p ''conversationId'')) (text_of p) else [Whole p])"

definition all_pieces :: "jsval list \<Rightarrow> piece list" where
  "all_pieces ps = concat (map pieces ps)"

lemma all_pieces_simps [simp]:
  "all_pieces [] = []" "all_pieces (p # ps) = pieces p @ all_pieces ps" "all_pieces (ps @ qs) = all_pieces ps @ all_pieces qs"
  by (simp_all add: all_pieces_def)

lemma js_prop_own: "js_prop (JObj fs) k = raw_field fs k"
  by simp

lemma merge_delta_props: "k \<noteq> ''text'' \<Longrightarrow> is_delta d \<Longrightarrow> js_prop (merge_delta d p) k = js_prop d k"
  by (cases d) (auto simp: merge_delta_def own_fields_def js_simps is_delta_def)

lemma text_of_merge: "text_of (merge_delta d p) = text_of d @ text_of p"
  by (simp add: text_of_def merge_delta_def js_simps)

lemma pieces_merge: "is_delta d \<Longrightarrow> same_stream d p \<Longrightarrow> pieces (merge_delta d p) = pieces d @ pieces p"
  by (auto simp: pieces_def is_delta_def same_stream_def text_of_merge merge_delta_props)

lemma payload_ok_merge: "is_delta d \<Longrightarrow> payload_ok (own_fields d) \<Longrightarrow> payload_ok (own_fields (merge_delta d p))"
  by (auto simp: merge_delta_def own_fields_def payload_ok_def dom_update intro: distinct_update)

lemma number_batch_index: "number_batch now (i + k) s batch = number_batch (\<lambda>j. now (j + k)) i s batch"
proof (induction batch arbitrary: i s)
  case (Cons p batch)
  then show ?case using Cons [of "Suc i"] by (simp split: option.split)
qed simp

lemma number_batch_cong: "(\<And>j. i \<le> j \<Longrightarrow> j < i + length batch \<Longrightarrow> now j = now' j) \<Longrightarrow> number_batch now i s batch = number_batch now' i s batch"
  by (induction batch arbitrary: i s) (auto split: option.split)

lemma number_batch_append:
  "number_batch now i s as = (es, s1) \<Longrightarrow> number_batch now (i + length as) s1 bs = (fs, s2) \<Longrightarrow>
     number_batch now i s (as @ bs) = (es @ fs, s2)"
  by (induction as arbitrary: i s es) (auto split: option.splits prod.splits)

lemma number_batch_join:
  assumes "number_batch now1 0 s as = (es, s1)" "number_batch now2 0 s1 bs = (fs, s2)"
  shows "\<exists>now. number_batch now 0 s (as @ bs) = (es @ fs, s2)"
proof -
  define now where "now j = (if j < length as then now1 j else now2 (j - length as))" for j
  have "number_batch now 0 s as = (es, s1)"
    using assms(1) by (subst number_batch_cong [of _ _ _ now1]) (simp_all add: now_def)
  moreover have "number_batch now (0 + length as) s1 bs = (fs, s2)"
    unfolding number_batch_index using assms(2) by (simp add: now_def)
  ultimately show ?thesis using number_batch_append by blast
qed

definition world_inv :: "log_world \<Rightarrow> bool" where
  "world_inv w \<longleftrightarrow> log_inv (the_log w) (the_files w) (log_events w) \<and>
     all_pieces (emitted w) = all_pieces (published w @ queued (the_log w)) \<and>
     payloads_ok (published w @ queued (the_log w)) \<and> (\<forall>d. delta (the_log w) = Some d \<longrightarrow> is_delta d) \<and>
     (\<exists>now s. number_batch now 0 0 (published w) = (log_events w, s))"

text \<open>What an operation on the queue must show.\<close>

lemma queue_step:
  assumes "world_inv w" "all_pieces (queued l) = all_pieces (queued (the_log w) @ ps)"
    and "payloads_ok (queued l)" "\<And>d. delta l = Some d \<Longrightarrow> is_delta d"
    and "head_segment l = head_segment (the_log w)" "head_length l = head_length (the_log w)" "last_seq l = last_seq (the_log w)"
    "unclean l = unclean (the_log w)"
  shows "world_inv (w\<lparr>the_log := l, emitted := emitted w @ ps\<rparr>)"
  using assms(1) log_inv_cong [OF _ assms(5-7)] assms(2-4,8) by (simp add: world_inv_def)

lemmas queue_ops = takeDelta_def scheduleFlush_def delta_fires_def writePending_def flush_fires_def retry_fires_def flush_def
  begin_write_def close_log_def

lemma emit_fields:
  "head_segment (emit p l) = head_segment l" "head_length (emit p l) = head_length l" "last_seq (emit p l) = last_seq l"
  "unclean (emit p l) = unclean l" "running (emit p l) = running l" "log_closed (emit p l) = log_closed l" "writes (emit p l) = writes l"
  by (simp_all add: emit_def queue_ops Let_def split: option.split)

lemma emit_queued:
  assumes "payload_ok (own_fields p)" "payloads_ok (queued l)" "\<And>d. delta l = Some d \<Longrightarrow> is_delta d"
  shows "all_pieces (queued (emit p l)) = all_pieces (queued l @ (if log_closed l then [] else [p])) \<and>
    payloads_ok (queued (emit p l)) \<and> (\<forall>d. delta (emit p l) = Some d \<longrightarrow> is_delta d)"
proof (cases "log_closed l")
  case True
  then show ?thesis using assms by (simp add: emit_def)
next
  case opened: False
  show ?thesis
  proof (cases "is_delta p")
    case False
    then show ?thesis using opened assms by (simp add: emit_def queue_ops queued_def Let_def split: option.splits)
  next
    case True
    show ?thesis
    proof (cases "delta l")
      case None
      then show ?thesis using opened True assms by (simp add: emit_def queued_def)
    next
      case (Some d)
      note d = assms(3) [OF Some]
      show ?thesis
      proof (cases "same_stream d p")
        case False
        then show ?thesis using opened True Some assms by (simp add: emit_def queue_ops queued_def)
      next
        case same: True
        have "is_delta (merge_delta d p)" using d merge_delta_props [of "''type''" d p] by (simp add: is_delta_def)
        then show ?thesis
          using opened True Some same assms pieces_merge [OF d same] payload_ok_merge [OF d] by (simp add: emit_def queued_def)
      qed
    qed
  qed
qed

lemma write_batch_queue:
  assumes "write_batch now batch l w = (ok, l', w')"
  shows "pending l' = pending l" "delta l' = delta l" "running l' = running l" "log_closed l' = log_closed l" "writes l' = writes l"
    "retryTimer l' = retryTimer l" "flushTimer l' = flushTimer l" "deltaTimer l' = deltaTimer l" "failures l' = failures l"
  using assms by (auto simp: write_batch_def Let_def split: prod.splits bool.splits if_splits option.splits)

lemma end_write_inv:
  assumes inv: "world_inv w" and batch: "running (the_log w) = Some batch"
    and run: "write_batch now batch (the_log w) (the_files w, io) = (good, l', fs, io')"
      "number_batch now 0 (last_seq (the_log w)) batch = (new, s)"
    and l: "l = (if good then l'\<lparr>failures := 0, retryTimer := None\<rparr> else write_failed delays batch l')"
  shows "world_inv (w\<lparr>the_log := l\<lparr>running := None, writes := writes l - 1\<rparr>, the_files := fs,
    published := published w @ (if good then batch else []), log_events := log_events w @ (if good then new else [])\<rparr>)"
proof -
  have log: "log_inv (the_log w) (the_files w) (log_events w)" and queue: "payloads_ok (published w)" "payloads_ok batch"
      "payloads_ok (pending (the_log w))" "payloads_ok (case delta (the_log w) of None \<Rightarrow> [] | Some d \<Rightarrow> [d])"
      "\<And>d. delta (the_log w) = Some d \<Longrightarrow> is_delta d"
      and pieces: "all_pieces (emitted w) = all_pieces (published w @ queued (the_log w))"
    using inv batch by (simp_all add: world_inv_def queued_def)
  obtain now0 s0 where nb: "number_batch now0 0 0 (published w) = (log_events w, s0)" using inv by (auto simp: world_inv_def)
  note q = write_batch_queue [OF run(1)]
  have spec: "if good then log_inv l' fs (log_events w @ new) else log_inv (l'\<lparr>unclean := True\<rparr>) fs (log_events w)"
  proof -
    have "log_inv (the_log w) (fst (the_files w, io)) (log_events w)" using log by simp
    from write_batch_spec [OF this queue(2) run] show ?thesis by (simp only: fst_conv)
  qed
  have l_queue: "delta l = delta (the_log w)" "pending l = (if good then [] else batch) @ pending (the_log w)"
    by (simp_all add: l write_failed_def scheduleRetry_def Let_def q)
  have "log_inv (l\<lparr>running := None, writes := writes l - 1\<rparr>) fs (log_events w @ (if good then new else []))"
  proof (cases good)
    case True
    then have "log_inv l' fs (log_events w @ new)" using spec by simp
    from log_inv_cong [OF this] True show ?thesis by (simp add: l)
  next
    case False
    then have "log_inv (l'\<lparr>unclean := True\<rparr>) fs (log_events w)" using spec by simp
    from log_inv_cong [OF this] False show ?thesis by (simp add: l write_failed_def scheduleRetry_def Let_def)
  qed
  moreover have "\<exists>now s. number_batch now 0 0 (published w @ (if good then batch else [])) = (log_events w @ (if good then new else []), s)"
  proof (cases good)
    case True
    have "s0 = last_seq (the_log w)" using number_batch_spec [OF nb queue(1)] log by (simp add: log_inv_def)
    then show ?thesis using number_batch_join [OF nb, of now batch new s] run(2) True by auto
  qed (use nb in auto)
  ultimately show ?thesis
    using queue pieces batch by (auto simp: world_inv_def queued_def l_queue)
qed

lemma log_act_inv:
  assumes inv: "world_inv w" and D: "by_lines D" "\<forall>e\<in>set (log_events w). readable J D e" and ok: "action_ok a"
  shows "world_inv (log_act J D delays a w)"
proof -
  have queue: "payloads_ok (queued (the_log w))" "\<And>d. delta (the_log w) = Some d \<Longrightarrow> is_delta d"
    using inv by (simp_all add: world_inv_def)
  show ?thesis
  proof (cases a)
    case (Emit p)
    have "payload_ok (own_fields p)" "payloads_ok (queued (the_log w))" "\<And>d. delta (the_log w) = Some d \<Longrightarrow> is_delta d"
      using ok Emit inv by (simp_all add: action_ok_def world_inv_def)
    note e = emit_queued [OF this]
    have "world_inv (w\<lparr>the_log := emit p (the_log w), emitted := emitted w @ (if log_closed (the_log w) then [] else [p])\<rparr>)"
      by (rule queue_step [OF inv]) (use e in \<open>simp_all add: emit_fields\<close>)
    then show ?thesis by (simp only: Emit log_act.simps)
  next
    case DeltaFires
    have "world_inv (w\<lparr>the_log := delta_fires (the_log w), emitted := emitted w @ []\<rparr>)"
      by (rule queue_step [OF inv]) (use queue in \<open>auto simp: queue_ops queued_def split: option.splits if_splits\<close>)
    then show ?thesis using DeltaFires inv by simp
  next
    case FlushFires
    have "world_inv (w\<lparr>the_log := flush_fires (the_log w), emitted := emitted w @ []\<rparr>)"
      by (rule queue_step [OF inv]) (use queue in \<open>auto simp: queue_ops queued_def split: option.splits if_splits\<close>)
    then show ?thesis using FlushFires inv by simp
  next
    case RetryFires
    have "world_inv (w\<lparr>the_log := retry_fires (the_log w), emitted := emitted w @ []\<rparr>)"
      by (rule queue_step [OF inv]) (use queue in \<open>auto simp: queue_ops queued_def split: option.splits if_splits\<close>)
    then show ?thesis using RetryFires inv by simp
  next
    case Flush
    have "world_inv (w\<lparr>the_log := flush (the_log w), emitted := emitted w @ []\<rparr>)"
      by (rule queue_step [OF inv]) (use queue in \<open>auto simp: queue_ops queued_def split: option.splits if_splits\<close>)
    then show ?thesis using Flush by simp
  next
    case BeginWrite
    have "world_inv (w\<lparr>the_log := begin_write (the_log w), emitted := emitted w @ []\<rparr>)"
      by (rule queue_step [OF inv]) (use queue in \<open>auto simp: queue_ops queued_def split: option.splits if_splits\<close>)
    then show ?thesis using BeginWrite by simp
  next
    case (EndWrite now io)
    show ?thesis
    proof (cases "running (the_log w)")
      case None
      then show ?thesis using inv by (simp add: EndWrite end_write_def)
    next
      case (Some batch)
      obtain good l' fs io' where run: "write_batch now batch (the_log w) (the_files w, io) = (good, l', fs, io')"
        by (cases "write_batch now batch (the_log w) (the_files w, io)") auto
      obtain new s where nb: "number_batch now 0 (last_seq (the_log w)) batch = (new, s)" by fastforce
      show ?thesis using end_write_inv [OF inv Some run nb refl, of delays]
        by (simp only: EndWrite log_act.simps Let_def end_write_def Some run nb prod.case option.case fst_conv simp_thms option.distinct)
    qed
  next
    case CloseLog
    then show ?thesis using inv log_inv_cong [of "the_log w" _ _ "close_log (the_log w)"] queue
      by (auto simp: world_inv_def close_log_def queued_def split: option.splits)
  next
    case (Reopen io)
    obtain r fs io' where run: "open_log J D (the_files w, io) = (r, fs, io')"
      by (cases "open_log J D (the_files w, io)") auto
    have log: "log_inv (the_log w) (fst (the_files w, io)) (log_events w)" using inv by (simp add: world_inv_def)
    note spec = open_spec [OF log D run]
    show ?thesis
    proof (cases r)
      case None
      have "log_inv ((the_log w)\<lparr>unclean := True\<rparr>) fs (log_events w)" using spec by simp
      from log_inv_cong [OF this] show ?thesis using inv
        by (simp add: Reopen run None world_inv_def queued_def)
    next
      case (Some l)
      then have "log_inv l fs (log_events w)" "l = log_at (head_segment (the_log w)) (head_length (the_log w)) (last_seq (the_log w))"
        using spec by auto
      then show ?thesis using inv by (simp add: Reopen run Some world_inv_def queued_def log_at_def new_log_def)
    qed
  qed
qed

lemma log_events_grow: "set (log_events w) \<subseteq> set (log_events (log_run J D delays as w))"
proof (induction as arbitrary: w)
  case (Cons a as)
  have "set (log_events w) \<subseteq> set (log_events (log_act J D delays a w))"
    by (cases a) (auto simp: Let_def split: prod.split)
  then show ?case using Cons by fastforce
qed simp

lemma run_inv:
  "world_inv w \<Longrightarrow> list_all action_ok as \<Longrightarrow> by_lines D \<Longrightarrow> \<forall>e\<in>set (log_events (log_run J D delays as w)). readable J D e \<Longrightarrow>
     world_inv (log_run J D delays as w)"
proof (induction as arbitrary: w)
  case (Cons a as)
  have "\<forall>e\<in>set (log_events w). readable J D e" using Cons.prems(4) log_events_grow [of w J D delays "a # as"] by blast
  from log_act_inv [OF Cons.prems(1,3) this] Cons.prems(2) have "world_inv (log_act J D delays a w)" by simp
  from Cons.IH [OF this] Cons.prems show ?case by simp
qed simp

lemma empty_inv: "world_inv empty_world"
proof -
  have "stored (the_files empty_world) FIRST_EVENT_SEGMENT 0 [] []" by (simp add: stored_def fits_def)
  then show ?thesis
    by (auto simp: world_inv_def log_inv_def empty_world_def numbered_def head_right_def new_log_def queued_def seg_bytes_def)
qed

subsection \<open>What a reader finds\<close>

text \<open>The bytes a reader that follows \<^verbatim>\<open>head.json\<close> reads.\<close>

definition published_bytes :: "log_files \<Rightarrow> string" where
  "published_bytes fs =
     (case head_file fs of
        Some (Some h) \<Rightarrow>
          concat (map (seg_bytes fs) [FIRST_EVENT_SEGMENT..<nat_prop h ''segment'']) @
          take (nat_prop h ''length'') (seg_bytes fs (nat_prop h ''segment''))
      | _ \<Rightarrow> [])"

lemma concat_lines: "lines_of (concat ess) = concat (map lines_of ess)"
  by (induction ess) simp_all

lemma map_upt_offset: "map f [k..<length xs + k] = map (\<lambda>i. f (i + k)) [0..<length xs]"
  by (rule nth_equalityI) (simp_all add: add.commute)

lemma published_right:
  assumes "log_inv l fs es"
  shows "published_bytes fs = lines_of es"
proof -
  from assms obtain full cur where st: "stored fs (head_segment l) (head_length l) full cur" "concat full @ cur = es"
    "head_right fs (head_segment l) (head_length l) full cur" by (auto simp: log_inv_def)
  show ?thesis
  proof (cases "cur = []")
    case True
    then show ?thesis using st by (auto simp: head_right_def published_bytes_def)
  next
    case False
    have "map (seg_bytes fs) [FIRST_EVENT_SEGMENT..<length full + FIRST_EVENT_SEGMENT] = map lines_of full"
      unfolding map_upt_offset using st(1) by (intro nth_equalityI) (auto simp: stored_def seg_bytes_def)
    then have "concat (map (seg_bytes fs) [FIRST_EVENT_SEGMENT..<head_segment l]) @ take (head_length l) (seg_bytes fs (head_segment l)) =
        concat (map lines_of full) @ lines_of cur"
      using st(1) by (auto simp: stored_def)
    then show ?thesis using st False
      by (simp add: published_bytes_def head_right_def head_value_def nat_prop_def concat_lines flip: st(2))
  qed
qed

text \<open>Every published segment is within its limit, or holds a single line.\<close>

definition segments_bounded :: "log_files \<Rightarrow> bool" where
  "segments_bounded fs \<longleftrightarrow>
     (case head_file fs of
        Some (Some h) \<Rightarrow>
          list_all (\<lambda>n. length (seg_bytes fs n) \<le> EVENT_SEGMENT_MAX_BYTES \<or> length (filter (\<lambda>c. c = LF) (seg_bytes fs n)) \<le> 1)
            [FIRST_EVENT_SEGMENT..<nat_prop h ''segment''] \<and>
          (nat_prop h ''length'' \<le> EVENT_SEGMENT_MAX_BYTES \<or>
           length (filter (\<lambda>c. c = LF) (take (nat_prop h ''length'') (seg_bytes fs (nat_prop h ''segment'')))) \<le> 1)
      | _ \<Rightarrow> True)"

lemma one_line:
  assumes "fits es" "\<forall>e\<in>set es. LF \<notin> set (json_text e)"
  shows "length (lines_of es) \<le> EVENT_SEGMENT_MAX_BYTES \<or> length (filter (\<lambda>c. c = LF) (lines_of es)) \<le> 1"
proof (cases "length es \<le> 1")
  case True
  then consider "es = []" | e where "es = [e]" by (cases es) auto
  then show ?thesis
  proof cases
    case (2 e)
    then have "filter (\<lambda>c. c = LF) (json_text e) = []" using assms(2) by (auto simp: filter_empty_conv)
    then show ?thesis using 2 by (simp add: formatEventLine_def)
  qed simp
qed (use assms(1) in \<open>simp add: fits_def\<close>)

lemma bounded_right:
  assumes "log_inv l fs es" "\<forall>e\<in>set es. LF \<notin> set (json_text e)"
  shows "segments_bounded fs"
proof -
  from assms obtain full cur where st: "stored fs (head_segment l) (head_length l) full cur" "concat full @ cur = es"
    "head_right fs (head_segment l) (head_length l) full cur" by (auto simp: log_inv_def)
  show ?thesis
  proof (cases "cur = []")
    case True
    then show ?thesis using st by (auto simp: head_right_def segments_bounded_def)
  next
    case False
    have bounded: "length (lines_of g) \<le> EVENT_SEGMENT_MAX_BYTES \<or> length (filter (\<lambda>c. c = LF) (lines_of g)) \<le> 1"
      if "g \<in> set full \<or> g = cur" for g
      by (rule one_line) (use that st(1) assms(2) st(2) in \<open>auto simp: stored_def\<close>)
    have "length (seg_bytes fs n) \<le> EVENT_SEGMENT_MAX_BYTES \<or> length (filter (\<lambda>c. c = LF) (seg_bytes fs n)) \<le> 1"
      if "FIRST_EVENT_SEGMENT \<le> n" "n < head_segment l" for n
    proof -
      have n: "n - FIRST_EVENT_SEGMENT < length full" "n = n - FIRST_EVENT_SEGMENT + FIRST_EVENT_SEGMENT"
        using that st(1) by (auto simp: stored_def)
      then have "segment_files fs n = Some (lines_of (full ! (n - FIRST_EVENT_SEGMENT)))" using st(1) unfolding stored_def by metis
      then show ?thesis using bounded [of "full ! (n - FIRST_EVENT_SEGMENT)"] n(1) by (simp add: seg_bytes_def)
    qed
    moreover have "head_length l \<le> EVENT_SEGMENT_MAX_BYTES \<or>
        length (filter (\<lambda>c. c = LF) (take (head_length l) (seg_bytes fs (head_segment l)))) \<le> 1"
      using bounded [of cur] st(1) by (auto simp: stored_def)
    ultimately show ?thesis using st False
      by (auto simp: segments_bounded_def head_right_def head_value_def nat_prop_def list_all_iff)
  qed
qed

subsection \<open>The log as an append-only list\<close>

text \<open>The specification: the events of the log, and the pieces that wait.\<close>

inductive append_only :: "jsval list \<times> piece list \<Rightarrow> jsval list \<times> piece list \<Rightarrow> bool" where
  enqueue: "append_only (es, ps) (es, ps @ qs)"
| publish: "number_batch now 0 (int (length es)) batch = (new, n) \<Longrightarrow> append_only (es, all_pieces batch @ ps) (es @ new, ps)"
| forget: "append_only (es, ps @ qs) (es, ps)"

inductive_cases append_onlyE: "append_only (es, ps) (es', ps')"

definition spec_of :: "log_world \<Rightarrow> jsval list \<times> piece list" where
  "spec_of w = (log_events w, all_pieces (queued (the_log w)))"

lemma append_only_stay: "append_only s s"
  using enqueue [of "fst s" "snd s" "[]"] by simp

lemma spec_stay: "log_events w' = log_events w \<Longrightarrow> queued (the_log w') = queued (the_log w) \<Longrightarrow> append_only (spec_of w) (spec_of w')"
  by (simp add: spec_of_def append_only_stay)

definition idle :: "event_log option \<Rightarrow> bool" where
  "idle r \<longleftrightarrow> (case r of None \<Rightarrow> True | Some l \<Rightarrow> l = log_at (head_segment l) (head_length l) (last_seq l))"

lemma idle_simps [simp]: "idle None" "idle (Some new_log)" "idle (Some (log_at n m s))"
  by (simp_all add: idle_def log_at_def new_log_def)

lemma queued_at: "l = log_at n m s \<Longrightarrow> queued l = []"
  by (simp add: log_at_def new_log_def queued_def)

lemma open_idle: "idle (fst (open_log J D w))"
proof -
  have short: "idle (fst (open_short J D seg buf w))" for seg buf w
    unfolding open_short_def by (simp split: option.split prod.split bool.split)
  have "idle (fst (open_at J D seg len w))" for seg len w
    unfolding open_at_def by (simp add: short split: option.split prod.split bool.split)
  then show ?thesis unfolding open_log_def by (simp split: option.split prod.split bool.split sum.split)
qed

lemma act_refines:
  assumes "world_inv w" "action_ok a"
  shows "append_only (spec_of w) (spec_of (log_act J D delays a w))"
proof -
  have queue: "payloads_ok (queued (the_log w))" "\<And>d. delta (the_log w) = Some d \<Longrightarrow> is_delta d"
    using assms(1) by (simp_all add: world_inv_def)
  show ?thesis
  proof (cases a)
    case (Emit p)
    then have "payload_ok (own_fields p)" using assms(2) by (simp add: action_ok_def)
    from emit_queued [OF this queue] Emit show ?thesis by (auto simp: spec_of_def intro: enqueue append_only_stay)
  next
    case DeltaFires
    then show ?thesis by (intro spec_stay) (auto simp: queue_ops queued_def split: option.splits)
  next
    case FlushFires
    then show ?thesis by (intro spec_stay) (auto simp: queue_ops queued_def split: option.splits)
  next
    case RetryFires
    then show ?thesis by (intro spec_stay) (auto simp: queue_ops queued_def split: option.splits)
  next
    case Flush
    then show ?thesis by (intro spec_stay) (auto simp: queue_ops queued_def split: option.splits)
  next
    case BeginWrite
    then show ?thesis by (intro spec_stay) (auto simp: queue_ops queued_def split: option.splits)
  next
    case (EndWrite now io)
    show ?thesis
    proof (cases "running (the_log w)")
      case None
      then show ?thesis using EndWrite by (intro spec_stay) (simp_all add: end_write_def)
    next
      case (Some batch)
      obtain good l' fs io' where run: "write_batch now batch (the_log w) (the_files w, io) = (good, l', fs, io')"
        by (cases "write_batch now batch (the_log w) (the_files w, io)") auto
      obtain new s where nb: "number_batch now 0 (last_seq (the_log w)) batch = (new, s)" by fastforce
      note q = write_batch_queue [OF run]
      show ?thesis
      proof (cases good)
        case True
        have seqs: "last_seq (the_log w) = int (length (log_events w))" using assms(1) by (simp add: world_inv_def log_inv_def)
        from publish [OF nb [unfolded seqs]] show ?thesis
          using EndWrite Some run nb True q by (simp add: spec_of_def end_write_def queued_def Let_def)
      next
        case False
        then show ?thesis using EndWrite Some run q
          by (intro spec_stay) (simp_all add: end_write_def queued_def Let_def write_failed_def scheduleRetry_def)
      qed
    qed
  next
    case CloseLog
    have "queued (close_log (the_log w)) @ drop (length (queued (close_log (the_log w)))) (queued (the_log w)) = queued (the_log w)"
      by (simp add: close_log_def queued_def split: option.split)
    from forget [of "log_events w" "all_pieces (queued (close_log (the_log w)))"
        "all_pieces (drop (length (queued (close_log (the_log w)))) (queued (the_log w)))", folded all_pieces_simps(3), unfolded this]
    show ?thesis using CloseLog by (simp add: spec_of_def Let_def)
  next
    case (Reopen io)
    have "queued (the_log (log_act J D delays a w)) = []"
    proof -
      obtain r fs io' where run: "open_log J D (the_files w, io) = (r, fs, io')"
        by (cases "open_log J D (the_files w, io)") auto
      show ?thesis
      proof (cases r)
        case None
        then show ?thesis by (simp add: Reopen run queued_def)
      next
        case (Some l)
        then have "l = log_at (head_segment l) (head_length l) (last_seq l)"
          using open_idle [of J D "(the_files w, io)"] by (simp add: run idle_def)
        from queued_at [OF this] show ?thesis by (simp add: Reopen run Some)
      qed
    qed
    moreover have "log_events (log_act J D delays a w) = log_events w" by (simp add: Reopen Let_def split: prod.split)
    ultimately show ?thesis using forget [of "log_events w" "[]"] by (simp add: spec_of_def)
  qed
qed

subsection \<open>Writes whose calls succeed\<close>

lemma call_fine: "io_call full part (fs, replicate (Suc k) Fine) = (True, full fs, replicate k Fine)"
  by (simp add: io_call_def)

lemma calls_fine:
  "fence_call (fs, replicate (Suc k) Fine) = (True, fs, replicate k Fine)"
  "append_call n data (fs, replicate (Suc k) Fine) = (True, append_bytes n data fs, replicate k Fine)"
  "remove_call n (fs, replicate (Suc k) Fine) = (True, remove_segment n fs, replicate k Fine)"
  "truncateTo n m (fs, replicate (Suc k) Fine) = (True, truncate_segment n m fs, replicate k Fine)"
  "write_head_call n m (fs, replicate (Suc k) Fine) = (True, fs\<lparr>head_file := Some (Some (head_value n m))\<rparr>, replicate k Fine)"
  unfolding fence_call_def append_call_def remove_call_def truncateTo_def write_head_call_def call_fine by simp_all

lemma commit_fine:
  assumes "2 \<le> k"
  shows "\<exists>h fs' k'. commit head chunk (fs, replicate k Fine) = (Some h, fs', replicate k' Fine) \<and> k \<le> k' + 2"
proof -
  obtain j where k: "k = Suc (Suc j)" using assms by (metis add_2_eq_Suc le_Suc_ex)
  show ?thesis
  proof (cases "chunk = []")
    case False
    then have "commit head chunk (fs, replicate k Fine) =
        (Some (fst head, snd head + length chunk), append_bytes (fst head) chunk fs, replicate j Fine)"
      by (simp add: commit_def k calls_fine del: replicate_Suc)
    then show ?thesis using k by auto
  qed (auto simp: commit_def)
qed

lemma place_fine:
  "3 * length lines + 2 \<le> k \<Longrightarrow>
     \<exists>h fs' k'. place_lines lines head chunk (fs, replicate k Fine) = (Some h, fs', replicate k' Fine) \<and> k \<le> k' + 3 * length lines + 2"
proof (induction lines arbitrary: head chunk fs k)
  case Nil
  then show ?case using commit_fine [of k head chunk fs] by simp
next
  case (Cons line lines)
  show ?case
  proof (cases "0 < snd head + length chunk \<and> EVENT_SEGMENT_MAX_BYTES < snd head + length chunk + length line")
    case False
    then show ?thesis using Cons.IH [of k head "chunk @ line" fs] Cons.prems by (auto simp: Let_def)
  next
    case True
    have "2 \<le> k" using Cons.prems by simp
    from commit_fine [OF this] obtain h fs' k' where c: "commit head chunk (fs, replicate k Fine) = (Some h, fs', replicate k' Fine)"
      "k \<le> k' + 2" by blast
    then obtain j where k': "k' = Suc j" using Cons.prems by (cases k') auto
    from Cons.IH [of j "(fst h + 1, 0)" line "remove_segment (fst h + 1) fs'"] Cons.prems c(2) k'
    show ?thesis using True c(1) calls_fine(3) [of "fst h + 1" fs' j] by (auto simp: Let_def k' simp del: replicate_Suc)
  qed
qed

lemma length_number_batch: "length (fst (number_batch now i s batch)) \<le> length batch"
  by (induction batch arbitrary: i s) (auto simp: split_def Let_def le_SucI split: option.split)

lemma write_fine:
  assumes "3 * length batch + 6 \<le> k"
  shows "fst (write_batch now batch l (fs, replicate k Fine))"
proof -
  obtain j where k: "k = Suc (Suc j)" "3 * length batch + 4 \<le> j" using assms by (cases k; cases "k - 1") auto
  define u where "u = (if unclean l then truncateTo (head_segment l) (head_length l) (fs, replicate (Suc j) Fine)
      else (True, fs, replicate (Suc j) Fine))"
  obtain fs1 k1 where u: "u = (True, fs1, replicate k1 Fine)" "3 * length batch + 4 \<le> k1"
  proof (cases "unclean l")
    case True
    then show thesis by (intro that [of "truncate_segment (head_segment l) (head_length l) fs" j] k(2)) (simp only: u_def calls_fine if_True)
  next
    case False
    then show thesis using k(2) by (intro that [of fs "Suc j"]) (simp_all only: u_def if_False)
  qed
  obtain es s where nb: "number_batch now 0 (last_seq l) batch = (es, s)" by fastforce
  have "length es \<le> length batch" using length_number_batch [of now 0 "last_seq l" batch] nb by simp
  then have "3 * length (map formatEventLine es) + 2 \<le> k1" using u(2) by simp
  from place_fine [OF this] obtain h fs2 k2 where p: "place_lines (map formatEventLine es) (head_segment l, head_length l) [] (fs1, replicate k1 Fine) =
      (Some h, fs2, replicate k2 Fine)" "k1 \<le> k2 + 3 * length (map formatEventLine es) + 2" by blast
  obtain i where k2: "k2 = Suc (Suc i)"
    using p(2) u(2) \<open>length es \<le> length batch\<close> by (cases k2; cases "k2 - 1") auto
  show ?thesis unfolding write_batch_def k(1) calls_fine
    by (simp add: u_def [symmetric] u(1) nb p(1) k2 calls_fine Let_def del: replicate_Suc)
qed

subsection \<open>Who writes what waits\<close>

text \<open>Something is on its way that writes what is queued.\<close>

definition scheduled :: "event_log \<Rightarrow> bool" where
  "scheduled l \<longleftrightarrow> log_closed l \<or>
     (pending l \<noteq> [] \<longrightarrow> flushTimer l \<or> retryTimer l \<noteq> None \<or> (if running l = None then 0 else 1) < writes l) \<and>
     (delta l \<noteq> None \<longrightarrow> deltaTimer l) \<and> (running l \<noteq> None \<longrightarrow> 0 < writes l)"

text \<open>
  A write that succeeds cancels the retry timer: of an earlier write's failure, and with it the only thing that
  would write events queued meanwhile.
\<close>

definition cancels_retry :: "log_world \<Rightarrow> log_action \<Rightarrow> bool" where
  "cancels_retry w a \<longleftrightarrow>
     (case a of
        EndWrite now io \<Rightarrow> retryTimer (the_log w) \<noteq> None \<and> pending (the_log w) \<noteq> [] \<and>
          (case running (the_log w) of None \<Rightarrow> False | Some batch \<Rightarrow> fst (write_batch now batch (the_log w) (the_files w, io)))
      | _ \<Rightarrow> False)"

fun never_cancels ::
    "(string \<Rightarrow> jsval option) \<Rightarrow> (string \<Rightarrow> string) \<Rightarrow> nat list \<Rightarrow> log_action list \<Rightarrow> log_world \<Rightarrow> bool" where
  "never_cancels J D delays [] w \<longleftrightarrow> True"
| "never_cancels J D delays (a # as) w \<longleftrightarrow> \<not> cancels_retry w a \<and> never_cancels J D delays as (log_act J D delays a w)"

lemma scheduled_new [simp]: "scheduled new_log" "scheduled (log_at n m s)"
  by (simp_all add: scheduled_def new_log_def log_at_def)

lemma act_scheduled:
  assumes "scheduled (the_log w)" "\<not> cancels_retry w a"
  shows "scheduled (the_log (log_act J D delays a w))"
proof (cases a)
  case (Emit p)
  then show ?thesis using assms(1) by (auto simp: scheduled_def emit_def queue_ops Let_def split: option.splits if_splits)
next
  case DeltaFires
  then show ?thesis using assms(1) by (auto simp: scheduled_def queue_ops split: option.splits if_splits)
next
  case FlushFires
  then show ?thesis using assms(1) by (auto simp: scheduled_def queue_ops split: if_splits)
next
  case RetryFires
  then show ?thesis using assms(1) by (auto simp: scheduled_def queue_ops split: if_splits)
next
  case Flush
  then show ?thesis using assms(1) by (auto simp: scheduled_def queue_ops split: option.splits if_splits)
next
  case BeginWrite
  then show ?thesis using assms(1) by (auto simp: scheduled_def queue_ops split: if_splits)
next
  case (EndWrite now io)
  show ?thesis
  proof (cases "running (the_log w)")
    case None
    then show ?thesis using assms(1) by (simp add: EndWrite end_write_def)
  next
    case (Some batch)
    obtain good l' fs io' where run: "write_batch now batch (the_log w) (the_files w, io) = (good, l', fs, io')"
      by (cases "write_batch now batch (the_log w) (the_files w, io)") auto
    note q = write_batch_queue [OF run]
    have "good \<Longrightarrow> retryTimer (the_log w) = None \<or> pending (the_log w) = []"
      using assms(2) Some run by (simp add: cancels_retry_def EndWrite)
    then show ?thesis using assms(1) Some run q
      by (cases good) (auto simp: EndWrite end_write_def Let_def scheduled_def write_failed_def scheduleRetry_def split: if_splits)
  qed
next
  case CloseLog
  then show ?thesis by (simp add: scheduled_def close_log_def Let_def)
next
  case (Reopen io)
  obtain r fs io' where run: "open_log J D (the_files w, io) = (r, fs, io')"
    by (cases "open_log J D (the_files w, io)") auto
  show ?thesis
  proof (cases r)
    case None
    then show ?thesis by (simp add: Reopen run scheduled_def)
  next
    case (Some l)
    then have "l = log_at (head_segment l) (head_length l) (last_seq l)"
      using open_idle [of J D "(the_files w, io)"] by (simp add: run idle_def)
    then have "scheduled l" by (metis scheduled_new(2))
    then show ?thesis by (simp add: Reopen run Some)
  qed
qed

text \<open>The queue and the files after a flush whose calls succeed.\<close>

lemma flush_written:
  assumes "\<not> log_closed l" "running l = None" "last_seq l = n" "l1 = begin_write (flush l)"
    and "3 * length (queued l) + 6 \<le> k" "end_write delays now l1 (fs, replicate k Fine) = (l2, w')"
  shows "queued l2 = [] \<and> (if queued l = [] then running l1 = None
    else running l1 = Some (queued l) \<and> last_seq l1 = n \<and> fst (write_batch now (queued l) l1 (fs, replicate k Fine)))"
proof -
  have q: "queued l = pending l @ (case delta l of None \<Rightarrow> [] | Some d \<Rightarrow> [d])" using assms(2) by (simp add: queued_def)
  have f: "log_closed (flush l) = False" "running (flush l) = None" "pending (flush l) = queued l" "delta (flush l) = None"
    "0 < writes (flush l)" "last_seq (flush l) = n"
    using assms(1-3) q by (simp_all add: queue_ops)
  show ?thesis
  proof (cases "queued l = []")
    case True
    then have l1: "running l1 = None" "pending l1 = []" "delta l1 = None" using f assms(4) by (simp_all add: begin_write_def)
    then have "l2 = l1" using assms(6) by (simp add: end_write_def)
    then show ?thesis using l1 True by (simp add: queued_def)
  next
    case False
    then have l1: "running l1 = Some (queued l)" "pending l1 = []" "delta l1 = None" "last_seq l1 = n"
      using f assms(4) by (simp_all add: begin_write_def)
    obtain good l' w'' where run: "write_batch now (queued l) l1 (fs, replicate k Fine) = (good, l', w'')"
      by (cases "write_batch now (queued l) l1 (fs, replicate k Fine)") auto
    have "good" using write_fine [OF assms(5), of now l1 fs] run by simp
    then show ?thesis using False l1 run assms(6) write_batch_queue [OF run] by (auto simp: end_write_def Let_def queued_def)
  qed
qed

subsection \<open>Readers follow a growing log\<close>

text \<open>What a client of an append-only store may rely on.\<close>

locale growing =
  fixes content :: "'s \<Rightarrow> 'a list" and step :: "'s \<Rightarrow> 's \<Rightarrow> bool"
  assumes grows: "step s t \<Longrightarrow> \<exists>x. content t = content s @ x"
begin

lemma grows_steps: "step\<^sup>*\<^sup>* s t \<Longrightarrow> \<exists>x. content t = content s @ x"
proof (induction rule: rtranclp_induct)
  case (step t u)
  then show ?case using grows [OF step(2)] by auto
qed simp

text \<open>What was read stays, and reading on from there gives the rest.\<close>

lemma read_on:
  assumes "step\<^sup>*\<^sup>* s t"
  shows "take (length (content s)) (content t) = content s"
    "content t = content s @ drop (length (content s)) (content t)"
  using grows_steps [OF assms] by auto

end

definition log_step ::
    "(string \<Rightarrow> jsval option) \<Rightarrow> (string \<Rightarrow> string) \<Rightarrow> nat list \<Rightarrow> log_world \<Rightarrow> log_world \<Rightarrow> bool" where
  "log_step J D delays w w' \<longleftrightarrow> (\<exists>a. w' = log_act J D delays a w)"

interpretation events: growing log_events "log_step J D delays" for J D delays
proof
  fix w w'
  assume "log_step J D delays w w'"
  then obtain a where "w' = log_act J D delays a w" by (auto simp: log_step_def)
  then show "\<exists>x. log_events w' = log_events w @ x" by (cases a) (auto simp: Let_def split: prod.split)
qed

lemma run_steps: "(log_step J D delays)\<^sup>*\<^sup>* w (log_run J D delays as w)"
proof (induction as arbitrary: w)
  case (Cons a as)
  have "log_step J D delays w (log_act J D delays a w)" by (auto simp: log_step_def)
  then show ?case using Cons by (simp add: converse_rtranclp_into_rtranclp)
qed simp

lemma numbered_accepted: "numbered es \<Longrightarrow> e \<in> set es \<Longrightarrow> \<exists>v p. cloudEvent v p = Inr e"
  by (metis in_set_conv_nth numbered_def)

lemma world_published: "world_inv w \<Longrightarrow> published_bytes (the_files w) = lines_of (log_events w) \<and> numbered (log_events w)"
proof -
  assume "world_inv w"
  then have l: "log_inv (the_log w) (the_files w) (log_events w)" by (simp add: world_inv_def)
  then show ?thesis using published_right [OF l] by (simp add: log_inv_def)
qed

subsection \<open>Properties\<close>

text \<open>C16: whatever happens to a session's log -- events in any order, timers, writes that fail in any call after a part
  of its effect, crashes and restarts -- what a reader that follows \<^verbatim>\<open>head.json\<close> finds are the lines of
  accepted events numbered 1, 2, 3 and so on, the events of the batches that were published, in segments
  within their limit or of one line.\<close>

theorem log_always_whole:
  assumes "w = log_run J D delays as empty_world" "list_all action_ok as" "by_lines D"
    and "\<forall>e\<in>set (log_events w). readable J D e"
  shows "published_bytes (the_files w) = lines_of (log_events w) \<and> numbered (log_events w) \<and>
    (\<exists>now s. number_batch now 0 0 (published w) = (log_events w, s)) \<and> segments_bounded (the_files w)"
proof -
  have inv: "world_inv w" unfolding assms(1)
    by (rule run_inv [OF empty_inv assms(2,3)]) (use assms(1,4) in simp)
  then have log: "log_inv (the_log w) (the_files w) (log_events w)" by (simp add: world_inv_def)
  have "\<forall>e\<in>set (log_events w). LF \<notin> set (json_text e)" using assms(4) by (simp add: readable_def)
  from bounded_right [OF log this] published_right [OF log] show ?thesis
    using inv by (simp add: world_inv_def log_inv_def)
qed

text \<open>C18: nothing is lost, doubled or reordered: what was emitted since the session started, but for what a restart or
  a close dropped, is what was published followed by what still waits, character by character.\<close>

theorem nothing_lost_in_order:
  assumes "w = log_run J D delays as empty_world" "list_all action_ok as" "by_lines D"
    and "\<forall>e\<in>set (log_events w). readable J D e"
  shows "all_pieces (emitted w) = all_pieces (published w) @ all_pieces (queued (the_log w))"
proof -
  have "world_inv w" unfolding assms(1)
    by (rule run_inv [OF empty_inv assms(2,3)]) (use assms(1,4) in simp)
  then show ?thesis by (simp add: world_inv_def)
qed

text \<open>C17: the log implements an append-only list: each step of it, crashes and failed writes included, is a step of the
  specification, and the list is what the files hold.\<close>

theorem log_refines_list:
  assumes "w = log_run J D delays as empty_world" "w' = log_act J D delays a w" "list_all action_ok (as @ [a])" "by_lines D"
    and "\<forall>e\<in>set (log_events w'). readable J D e"
  shows "append_only (spec_of w) (spec_of w') \<and> published_bytes (the_files w) = lines_of (fst (spec_of w)) \<and>
    published_bytes (the_files w') = lines_of (fst (spec_of w'))"
proof -
  have r: "\<forall>e\<in>set (log_events w). readable J D e"
    using assms(5) log_events_grow [of w J D delays "[a]"] by (auto simp: assms(2))
  have inv: "world_inv w" unfolding assms(1)
    by (rule run_inv [OF empty_inv _ assms(4)]) (use assms(1,3) r in auto)
  then have "world_inv w'" unfolding assms(2) using assms(3) by (intro log_act_inv [OF inv assms(4) r]) simp
  with inv have "log_inv (the_log w) (the_files w) (log_events w)" "log_inv (the_log w') (the_files w') (log_events w')"
    by (simp_all add: world_inv_def)
  then show ?thesis using act_refines [OF inv] assms(2,3) published_right by (simp add: spec_of_def)
qed

text \<open>a flush writes everything that waits: once no other write is running, a flush whose calls succeed publishes all
  of it, with the delta that was still collecting.\<close>

theorem flush_publishes:
  assumes "\<not> log_closed (the_log w)" "running (the_log w) = None" "3 * length (queued (the_log w)) + 6 \<le> k"
    and "w' = log_run J D delays [Flush, BeginWrite, EndWrite now (replicate k Fine)] w"
  shows "queued (the_log w') = [] \<and> published w' = published w @ queued (the_log w) \<and>
    (queued (the_log w) \<noteq> [] \<longrightarrow>
       log_events w' = log_events w @ fst (number_batch now 0 (last_seq (the_log w)) (queued (the_log w))))"
proof -
  define l1 where "l1 = begin_write (flush (the_log w))"
  obtain l2 fs io where run: "end_write delays now l1 (the_files w, replicate k Fine) = (l2, fs, io)"
    by (cases "end_write delays now l1 (the_files w, replicate k Fine)") auto
  note f = flush_written [OF assms(1,2) refl l1_def assms(3) run]
  have "the_log w' = l2" by (simp add: assms(4) Let_def run flip: l1_def)
  moreover have "published w' = published w @ queued (the_log w)"
    using f by (cases "queued (the_log w) = []") (simp_all add: assms(4) Let_def run flip: l1_def)
  ultimately show ?thesis using f
    by (cases "queued (the_log w) = []") (simp_all add: assms(4) Let_def run flip: l1_def)
qed

text \<open>C37: events that wait are on their way: unless a write's success cancelled the retry timer while events were
  queued, whatever waits has a timer set or a write in line, through failures, closes and restarts.\<close>

theorem waiting_is_scheduled:
  assumes "never_cancels J D delays as empty_world"
  shows "scheduled (the_log (log_run J D delays as empty_world))"
proof -
  have "scheduled (the_log w) \<Longrightarrow> never_cancels J D delays as w \<Longrightarrow> scheduled (the_log (log_run J D delays as w))" for w
    by (induction as arbitrary: w) (simp_all add: act_scheduled)
  then show ?thesis using assms by (simp add: empty_world_def)
qed

text \<open>C19: a reader that follows the log gets every event once and in order: what it parses of the bytes published at
  one time, and later from there on, whatever failed, crashed or restarted in between, are the log's events.\<close>

theorem reader_follows:
  assumes "w = log_run J D delays as empty_world" "w' = log_run J D delays bs w" "list_all action_ok (as @ bs)" "by_lines D"
    and "\<forall>e\<in>set (log_events w'). readable J D e \<and> numbers_ok e \<and> js_prop e ''input'' \<noteq> JNull \<and> js_prop e ''output'' \<noteq> JNull"
    and "reads_json J D (set (log_events w'))"
  shows "let (e1, n1, i1) = parseEventChunk J D (published_bytes (the_files w));
             (e2, n2, i2) = parseEventChunk J D (drop n1 (published_bytes (the_files w')))
         in e1 = log_events w \<and> e1 @ e2 = log_events w' \<and> i1 = 0 \<and> i2 = 0 \<and> n1 + n2 = length (published_bytes (the_files w'))"
proof -
  obtain new where new: "log_events w' = log_events w @ new"
    using events.grows_steps [OF run_steps [of J D delays w bs]] by (auto simp: assms(2))
  have inv: "world_inv w" unfolding assms(1)
    by (rule run_inv [OF empty_inv _ assms(4)]) (use assms(1,3,5) new in auto)
  then have inv': "world_inv w'" unfolding assms(2)
    by (rule run_inv [OF _ _ assms(4)]) (use assms(2,3,5) in auto)
  note bytes = world_published [OF inv] world_published [OF inv']
  have parse: "parseEventChunk J D (lines_of es) = (es, length (lines_of es), 0)" if "set es \<subseteq> set (log_events w')" for es
  proof -
    have "reads_json J D (set es)" using assms(6) that by (auto simp: reads_json_def)
    moreover have "(\<exists>v p. cloudEvent v p = Inr e) \<and> numbers_ok e \<and> js_prop e ''input'' \<noteq> JNull \<and> js_prop e ''output'' \<noteq> JNull"
      if "e \<in> set es" for e
      using that \<open>set es \<subseteq> set (log_events w')\<close> assms(5) bytes(2) numbered_accepted by blast
    ultimately show ?thesis using parse_log [OF assms(4), of J es "[]"] by (simp add: lines_of_def)
  qed
  from parse [of "log_events w"] parse [of new] bytes show ?thesis by (simp add: new)
qed

subsection \<open>An event that is stranded\<close>

text \<open>
  The second write was in line when the first one failed and takes its events along. What is emitted while it runs
  finds the retry timer set, so no flush is scheduled; its success cancels that timer. Nothing will write the
  event until another one comes.
\<close>

lemma the_log_act:
  "the_log (log_act J D delays (Emit p) w) = emit p (the_log w)"
  "the_log (log_act J D delays FlushFires w) = (if flushTimer (the_log w) then flush_fires (the_log w) else the_log w)"
  "the_log (log_act J D delays Flush w) = flush (the_log w)"
  "the_log (log_act J D delays BeginWrite w) = begin_write (the_log w)"
  "the_log (log_act J D delays (EndWrite now io) w) = fst (end_write delays now (the_log w) (the_files w, io))"
  "the_files (log_act J D delays (Emit p) w) = the_files w"
  "the_files (log_act J D delays FlushFires w) = the_files w"
  "the_files (log_act J D delays Flush w) = the_files w"
  "the_files (log_act J D delays BeginWrite w) = the_files w"
  "the_files (log_act J D delays (EndWrite now io) w) = fst (snd (end_write delays now (the_log w) (the_files w, io)))"
  by (simp_all add: Let_def split: prod.split)

lemma empty_world_log: "the_log empty_world = new_log"
  by (simp add: empty_world_def)

lemma stranded_event:
  fixes x y z :: jsval
  assumes "\<not> is_delta x" "\<not> is_delta y" "\<not> is_delta z"
    and "as = [Emit x, FlushFires, BeginWrite, Emit y, FlushFires, EndWrite now [], BeginWrite, Emit z, EndWrite now (replicate 12 Fine)]"
    and "w = log_run J D delays as empty_world"
  shows "pending (the_log w) = [z] \<and> \<not> scheduled (the_log w) \<and> \<not> flushTimer (the_log w) \<and> retryTimer (the_log w) = None \<and>
    writes (the_log w) = 0 \<and> running (the_log w) = None"
proof -
  let ?l0 = "new_log"
  define l1 where "l1 = begin_write (flush_fires (emit x ?l0))"
  have l1: "l1 = new_log\<lparr>running := Some [x], writes := 1\<rparr>"
    using assms(1) by (simp add: l1_def emit_def queue_ops new_log_def)
  define fs where "fs = the_files empty_world"
  have failed: "end_write delays now (flush_fires (emit y l1)) (fs, []) =
      (new_log\<lparr>pending := [x, y], unclean := True, retryTimer := Some (retry_delay delays 0), failures := 1, writes := 1\<rparr>, fs, [])"
    using assms(2) by (simp add: l1 emit_def queue_ops new_log_def end_write_def write_batch_def fence_call_def io_call_def
        write_failed_def scheduleRetry_def)
  define l2 where "l2 = emit z (begin_write (new_log\<lparr>pending := [x, y], unclean := True, retryTimer := Some (retry_delay delays 0),
    failures := Suc 0, writes := Suc 0\<rparr>))"
  have l2: "l2 = new_log\<lparr>pending := [z], running := Some [x, y], unclean := True, retryTimer := Some (retry_delay delays 0),
      failures := 1, writes := 1\<rparr>"
    using assms(3) by (simp add: l2_def emit_def queue_ops new_log_def)
  obtain good l' fs' io' where run: "write_batch now [x, y] l2 (fs, replicate 12 Fine) = (good, l', fs', io')"
    by (cases "write_batch now [x, y] l2 (fs, replicate 12 Fine)") auto
  have good: "good" using write_fine [of "[x, y]" 12 now l2 fs] run by simp
  note q = write_batch_queue [OF run]
  have "the_log w = l'\<lparr>failures := 0, retryTimer := None, running := None, writes := writes l' - 1\<rparr>"
  proof -
    have "running l2 = Some [x, y]" by (simp add: l2)
    then have "end_write delays now l2 (fs, replicate 12 Fine) =
        (l'\<lparr>failures := 0, retryTimer := None, running := None, writes := writes l' - 1\<rparr>, fs', io')"
      using run good by (simp add: end_write_def Let_def)
    moreover have "flushTimer (emit x new_log)" "flushTimer (emit y l1)" using assms(1,2)
      by (simp_all add: l1 emit_def queue_ops new_log_def)
    ultimately show ?thesis unfolding assms(4,5) fs_def
      by (simp add: the_log_act failed [unfolded fs_def] empty_world_log del: log_act.simps replicate.simps
          flip: l1_def l2_def)
  qed
  then show ?thesis using q by (simp add: l2 new_log_def scheduled_def)
qed

subsection \<open>Witnesses\<close>

definition el_payload :: jsval where
  "el_payload = JObj [(''type'', JStr ''done''), (''conversationId'', JStr ''A''), (''finishReason'', JStr ''stop'')]"

definition el_event :: jsval where
  "el_event = JObj [(''seq'', JNum 1), (''ts'', JNum 5), (''type'', JStr ''done''), (''conversationId'', JStr ''A''),
     (''finishReason'', JStr ''stop'')]"

definition el_J :: "string \<Rightarrow> jsval option" where
  "el_J s = (if s = json_text el_event then Some el_event else None)"

definition el_actions :: "log_action list" where
  "el_actions = [Emit el_payload, Flush, BeginWrite, EndWrite (\<lambda>_. 5) (replicate 9 Fine)]"

lemma el_validated: "validated el_payload 1 5 = Some el_event"
proof -
  have "OPAQUE_ID_RE ''A''" by code_simp
  then have "cloudEvent el_event ''event'' = Inr el_event"
    by (simp add: el_event_def cloudEvent_def both_def envelope_shape_def event_payload_def union_check_def variants_of_def
        chat_shapes_def in_conversation_def obj_def Let_def literals_def literal_check_def opaqueId_def pattern_str_def
        str_check_def any_str_def upto_def int_check_def epochMs_def MAX_SAFE_INTEGER_def spread_def own_fields_def)
  then show ?thesis unfolding validated_def
    by (subst shrink_loop.simps) (simp add: el_payload_def el_event_def own_fields_def spread_def)
qed

lemma el_run: "log_events (log_run el_J id [] el_actions empty_world) = [el_event]"
  "queued (the_log (log_run el_J id [] el_actions empty_world)) = []"
proof -
  let ?w = "log_act el_J id [] (Emit el_payload) empty_world"
  have w: "\<not> log_closed (the_log ?w)" "running (the_log ?w) = None" "queued (the_log ?w) = [el_payload]" "last_seq (the_log ?w) = 0"
    "log_events ?w = []"
    by (simp_all add: empty_world_def new_log_def emit_def queue_ops queued_def Let_def el_payload_def is_delta_def)
  define l1 where "l1 = begin_write (flush (the_log ?w))"
  obtain l2 fs io where run: "end_write [] (\<lambda>_. 5) l1 (the_files ?w, replicate 9 Fine) = (l2, fs, io)"
    by (cases "end_write [] (\<lambda>_. 5) l1 (the_files ?w, replicate 9 Fine)") auto
  from flush_written [OF w(1,2) refl l1_def _ run] w(3,4)
  have f: "queued l2 = []" "running l1 = Some [el_payload]" "last_seq l1 = 0"
    "fst (write_batch (\<lambda>_. 5) [el_payload] l1 (the_files ?w, replicate 9 Fine))" by simp_all
  have step: "log_run el_J id [] el_actions empty_world = log_act el_J id [] (EndWrite (\<lambda>_. 5) (replicate 9 Fine)) (?w\<lparr>the_log := l1\<rparr>)"
    by (simp add: el_actions_def l1_def del: log_act.simps(1,7))
  show "log_events (log_run el_J id [] el_actions empty_world) = [el_event]"
    unfolding step using w(5) f run by (simp add: Let_def el_validated del: replicate.simps)
  show "queued (the_log (log_run el_J id [] el_actions empty_world)) = []"
    unfolding step using f run by (simp add: Let_def)
qed

lemma el_text: "\<exists>s. json_text el_event = CHR 0x7B # s @ [CHR 0x7D]"
  by (simp only: el_event_def json_text_def stringify.simps option.case) simp

lemma el_readable: "readable el_J id el_event" "reads_json el_J id {el_event}"
proof -
  have ends: "\<not> white_space (CHR 0x7B)" "\<not> white_space (CHR 0x7D)" by code_simp+
  have "trim (CHR 0x7B # s @ [CHR 0x7D]) = CHR 0x7B # s @ [CHR 0x7D]" for s using ends by (simp add: trim_def)
  with el_text have "trim (json_text el_event) = json_text el_event" by metis
  moreover have "json_text el_event \<noteq> []" using el_text by auto
  moreover have "LF \<notin> set (json_text el_event)"
  proof -
    obtain t where "stringify el_event = Some t" "json_text el_event = t" by (simp add: el_event_def json_text_def)
    moreover have "numbers_ok el_event" by (simp add: el_event_def)
    ultimately show ?thesis using no_LF_stringify by blast
  qed
  ultimately show "readable el_J id el_event" by (simp add: readable_def el_J_def)
  have "\<not> blank (json_text el_event)" using el_text ends by (auto simp: blank_def)
  then show "reads_json el_J id {el_event}" by (simp add: reads_json_def el_J_def)
qed

lemma el_ok: "list_all action_ok el_actions" "by_lines id"
  by (simp_all add: el_actions_def action_ok_def payload_ok_def el_payload_def own_fields_def by_lines_def)

theorem log_always_whole_witness:
  "published_bytes (the_files (log_run el_J id [] el_actions empty_world)) = formatEventLine el_event"
  using log_always_whole [OF refl el_ok, of el_J "[]"] el_readable by (simp add: el_run)

theorem nothing_lost_in_order_witness:
  "all_pieces (emitted (log_run el_J id [] el_actions empty_world)) = all_pieces (published (log_run el_J id [] el_actions empty_world))"
  using nothing_lost_in_order [OF refl el_ok, of el_J "[]"] el_readable by (simp add: el_run)

theorem log_refines_list_witness:
  "append_only (spec_of (log_run el_J id [] el_actions empty_world))
     (spec_of (log_act el_J id [] CloseLog (log_run el_J id [] el_actions empty_world)))"
proof -
  let ?w = "log_run el_J id [] el_actions empty_world"
  have "log_events (log_act el_J id [] CloseLog ?w) = [el_event]" by (simp add: el_run Let_def)
  moreover have "list_all action_ok (el_actions @ [CloseLog])" using el_ok by (simp add: action_ok_def)
  ultimately show ?thesis using log_refines_list [OF refl refl _ el_ok(2), of el_actions CloseLog el_J "[]"] el_readable by simp
qed

theorem flush_publishes_witness:
  "published (log_run el_J id [] [Flush, BeginWrite, EndWrite (\<lambda>_. 5) (replicate 9 Fine)] (log_act el_J id [] (Emit el_payload) empty_world)) =
     [el_payload]"
proof -
  let ?w = "log_act el_J id [] (Emit el_payload) empty_world"
  have w: "\<not> log_closed (the_log ?w)" "running (the_log ?w) = None" "queued (the_log ?w) = [el_payload]" "published ?w = []"
    by (simp_all add: empty_world_def new_log_def emit_def queue_ops queued_def Let_def el_payload_def is_delta_def)
  from flush_publishes [OF w(1,2) _ refl, of 9 el_J id "[]" "\<lambda>_. 5"] w(3,4) show ?thesis by simp
qed

theorem waiting_is_scheduled_witness:
  "scheduled (the_log (log_run el_J id [] [Emit el_payload, FlushFires, BeginWrite, EndWrite (\<lambda>_. 5) []] empty_world))"
proof (rule waiting_is_scheduled)
  show "never_cancels el_J id [] [Emit el_payload, FlushFires, BeginWrite, EndWrite (\<lambda>_. 5) []] empty_world"
    by (simp add: cancels_retry_def empty_world_def new_log_def emit_def queue_ops Let_def el_payload_def is_delta_def)
qed

theorem reader_follows_witness:
  "fst (parseEventChunk el_J id (published_bytes (the_files (log_run el_J id [] el_actions empty_world)))) = [el_event]"
proof -
  let ?w = "log_run el_J id [] el_actions empty_world"
  have "numbers_ok el_event \<and> js_prop el_event ''input'' \<noteq> JNull \<and> js_prop el_event ''output'' \<noteq> JNull"
    by (simp add: el_event_def)
  then show ?thesis
    using reader_follows [OF refl refl, of el_actions "[]" id el_J "[]"] el_ok el_readable
    by (auto simp: el_run Let_def split: prod.splits)
qed

end
