(* ===== verification/AlgaGraph.thy ===== *)
theory AlgaGraph
  imports L4Prelude "HOL-Library.Char_ord" "HOL-Library.List_Lexorder" "HOL-Library.Product_Lexorder"
begin

text \<open>
  The algebra of directed acyclic graphs the ladder is built with: \<^verbatim>\<open>algebraic-graphs\<close> of
  \<^verbatim>\<open>ts-shared/l4-ladder-visualizer/src/lib\<close> and \<^verbatim>\<open>edge-attributes.ts\<close>.

  A vertex is a \<^verbatim>\<open>LirId\<close> (\<^verbatim>\<open>ts-shared/layout-ir/core.ts\<close>): a symbol whose description is a number that is counted up, so
  the number itself; ids are compared by their text. A graph object keeps how it was built, its adjacency map and the
  labels of its edges, under the text of the edge. The topological sort is \<^verbatim>\<open>graphology-dag\<close>'s, a parameter: it is
  given the names of the nodes and the edges, and throws on a cycle. The recursion over paths, which does not end on a
  cycle, has fuel; that one more than the number of vertices is enough is proved.
\<close>

subsection \<open>Graph objects\<close>

type_synonym lir_id = nat

datatype dag = Dag (shape: shape) (adjMap: "(lir_id, lir_id list) jsmap") (edgeAttributes: "(string, string) jsmap")
and shape = Empty | Vertex lir_id | Overlay dag dag | Connect dag dag

definition mergeEdgeLabels :: "string \<Rightarrow> string \<Rightarrow> string" where
  "mergeEdgeLabels l1 l2 = (if l1 = [] then l2 else if l2 = [] then l1 else l2)"

definition mergeEdgeAttributeMaps ::
    "(string, string) jsmap \<Rightarrow> (string, string) jsmap \<Rightarrow> (string, string) jsmap" where
  "mergeEdgeAttributeMaps l r =
     fold (\<lambda>(edge, label) merged.
       jm_set edge (mergeEdgeLabels (case jm_get merged edge of None \<Rightarrow> [] | Some old \<Rightarrow> old) label) merged) r l"

definition neighbors_in :: "(lir_id, lir_id list) jsmap \<Rightarrow> lir_id \<Rightarrow> lir_id list" where
  "neighbors_in m v = (case jm_get m v of None \<Rightarrow> [] | Some ns \<Rightarrow> ns)"

definition graphUnion ::
    "(lir_id, lir_id list) jsmap \<Rightarrow> (lir_id, lir_id list) jsmap \<Rightarrow> (lir_id, lir_id list) jsmap" where
  "graphUnion x y = fold (\<lambda>(v, ns) m. jm_set v (set_union (neighbors_in m v) ns) m) y x"

definition appendVerticesToSourceNeighbors ::
    "(lir_id, lir_id list) jsmap \<Rightarrow> lir_id list \<Rightarrow> lir_id list \<Rightarrow> (lir_id, lir_id list) jsmap" where
  "appendVerticesToSourceNeighbors m sources targets =
     fold (\<lambda>v m. jm_set v (set_union (neighbors_in m v) (set_of targets)) m) sources m"

definition makeDirectedConnectAdjacencyMap ::
    "(lir_id, lir_id list) jsmap \<Rightarrow> (lir_id, lir_id list) jsmap \<Rightarrow> (lir_id, lir_id list) jsmap" where
  "makeDirectedConnectAdjacencyMap from to =
     appendVerticesToSourceNeighbors (graphUnion from to) (map fst from) (map fst to)"

definition empty :: dag where
  "empty = Dag Empty [] []"

definition vertex :: "lir_id \<Rightarrow> dag" where
  "vertex a = Dag (Vertex a) [(a, [])] []"

definition overlay :: "dag \<Rightarrow> dag \<Rightarrow> dag" where
  "overlay x y = Dag (Overlay x y) (graphUnion (adjMap x) (adjMap y))
     (mergeEdgeAttributeMaps (edgeAttributes x) (edgeAttributes y))"

definition connect :: "dag \<Rightarrow> dag \<Rightarrow> dag" where
  "connect x y = Dag (Connect x y) (makeDirectedConnectAdjacencyMap (adjMap x) (adjMap y))
     (mergeEdgeAttributeMaps (edgeAttributes x) (edgeAttributes y))"

definition isVertex :: "dag \<Rightarrow> bool" where
  "isVertex g = (case shape g of Vertex _ \<Rightarrow> True | _ \<Rightarrow> False)"

definition overlays :: "dag list \<Rightarrow> dag" where
  "overlays graphs = foldl overlay empty graphs"

definition vertices :: "lir_id list \<Rightarrow> dag" where
  "vertices vs = foldl overlay empty (map vertex vs)"

text \<open>A path graph: the edges between successive vertices.\<close>

definition pathFromValues :: "lir_id list \<Rightarrow> dag" where
  "pathFromValues vs =
     (case map vertex vs of
        [] \<Rightarrow> empty
      | [v] \<Rightarrow> v
      | v # w # rest \<Rightarrow> foldl overlay (connect v w) (map2 connect (w # rest) rest))"

subsection \<open>Reading a graph\<close>

definition hasVertex :: "dag \<Rightarrow> lir_id \<Rightarrow> bool" where
  "hasVertex g v \<longleftrightarrow> jm_get (adjMap g) v \<noteq> None"

definition hasEdge :: "dag \<Rightarrow> lir_id \<Rightarrow> lir_id \<Rightarrow> bool" where
  "hasEdge g u v \<longleftrightarrow> v \<in> set (neighbors_in (adjMap g) u)"

definition getVertices :: "dag \<Rightarrow> lir_id list" where
  "getVertices g = sort_key show_nat (map fst (adjMap g))"

definition edge_order :: "lir_id \<times> lir_id \<Rightarrow> string \<times> string" where
  "edge_order e = (show_nat (fst e), show_nat (snd e))"

definition getAllEdges :: "dag \<Rightarrow> (lir_id \<times> lir_id) list" where
  "getAllEdges g = sort_key edge_order (concat (map (\<lambda>v. map (Pair v) (neighbors_in (adjMap g) v)) (getVertices g)))"

definition getEdges :: "dag \<Rightarrow> (lir_id \<times> lir_id) list" where
  "getEdges g = sort_key edge_order (getAllEdges g)"

definition graph_text :: "dag \<Rightarrow> string" where
  "graph_text g =
     (let vs = map show_nat (getVertices g);
          es = map (\<lambda>(u, v). ''<'' @ show_nat u @ '','' @ show_nat v @ ''>'') (getAllEdges g);
          vt = ''vertices ['' @ join '', '' vs @ '']''
      in if vs = [] then ''empty''
         else if es = [] then vt
         else vt @ [CHR 0x0A] @ '' edges ['' @ join '', '' es @ '']'')"

definition isEqualTo :: "dag \<Rightarrow> dag \<Rightarrow> bool" where
  "isEqualTo g h \<longleftrightarrow> graph_text g = graph_text h"

definition stringifyEdge :: "lir_id \<times> lir_id \<Rightarrow> string" where
  "stringifyEdge e = ''<'' @ show_nat (fst e) @ '', '' @ show_nat (snd e) @ ''>''"

text \<open>Asking for the label of an edge that has none gives it the empty one.\<close>

definition getAttributesForEdge :: "lir_id \<times> lir_id \<Rightarrow> dag \<Rightarrow> string \<times> dag" where
  "getAttributesForEdge edge g =
     (case jm_get (edgeAttributes g) (stringifyEdge edge) of
        Some label \<Rightarrow> (label, g)
      | None \<Rightarrow> ([], Dag (shape g) (adjMap g) (jm_set (stringifyEdge edge) [] (edgeAttributes g))))"

definition setEdgeAttributes :: "lir_id \<times> lir_id \<Rightarrow> string \<Rightarrow> dag \<Rightarrow> dag option" where
  "setEdgeAttributes edge label g =
     (if \<not> hasEdge g (fst edge) (snd edge) then None
      else Some (Dag (shape g) (adjMap g) (jm_set (stringifyEdge edge) label (edgeAttributes g))))"

subsection \<open>Folding a graph\<close>

fun foldg :: "'b \<Rightarrow> (lir_id \<Rightarrow> 'b) \<Rightarrow> ('b \<Rightarrow> 'b \<Rightarrow> 'b) \<Rightarrow> ('b \<Rightarrow> 'b \<Rightarrow> 'b) \<Rightarrow> dag \<Rightarrow> 'b" where
  "foldg e v ov c (Dag Empty _ _) = e"
| "foldg e v ov c (Dag (Vertex a) _ _) = v a"
| "foldg e v ov c (Dag (Overlay l r) _ _) = ov (foldg e v ov c l) (foldg e v ov c r)"
| "foldg e v ov c (Dag (Connect l r) _ _) = c (foldg e v ov c l) (foldg e v ov c r)"

definition removeEdge :: "lir_id \<Rightarrow> lir_id \<Rightarrow> (lir_id, lir_id list) jsmap \<Rightarrow> (lir_id, lir_id list) jsmap" where
  "removeEdge u v m =
     (case jm_get m u of
        None \<Rightarrow> m
      | Some ns \<Rightarrow> jm_set u (filter (\<lambda>n. show_nat n \<noteq> show_nat v) ns) m)"

definition removeSelfLoops :: "dag \<Rightarrow> dag" where
  "removeSelfLoops g =
     fold (\<lambda>(u, v) h.
       if u = v then Dag (shape h) (removeEdge u v (adjMap h)) (jm_delete (stringifyEdge (u, v)) (edgeAttributes h))
       else h) (getEdges g) g"

definition bind :: "(lir_id \<Rightarrow> dag) \<Rightarrow> dag \<Rightarrow> dag" where
  "bind f g = removeSelfLoops (foldg empty (\<lambda>a. foldg empty vertex overlay connect (f a)) overlay connect g)"

definition gmap :: "(lir_id \<Rightarrow> lir_id) \<Rightarrow> dag \<Rightarrow> dag" where
  "gmap f = bind (\<lambda>a. vertex (f a))"

definition induce :: "(lir_id \<Rightarrow> bool) \<Rightarrow> dag \<Rightarrow> dag" where
  "induce P = bind (\<lambda>a. if P a then vertex a else empty)"

definition partition_dag :: "(lir_id \<Rightarrow> bool) \<Rightarrow> dag \<Rightarrow> dag \<times> dag" where
  "partition_dag P g = (induce P g, induce (\<lambda>a. \<not> P a) g)"

subsection \<open>Orders and paths\<close>

type_synonym sorter = "string list \<Rightarrow> (string \<times> string) list \<Rightarrow> string list option"

definition gy_nodes :: "dag \<Rightarrow> string list" where
  "gy_nodes g = map (\<lambda>(v, _). show_nat v) (adjMap g)"

definition gy_edges :: "dag \<Rightarrow> (string \<times> string) list" where
  "gy_edges g = concat (map (\<lambda>(v, ns). map (\<lambda>n. (show_nat v, show_nat n)) ns) (adjMap g))"

definition idToVertex :: "dag \<Rightarrow> (string, lir_id) jsmap" where
  "idToVertex g = fold (\<lambda>(v, _). jm_set (show_nat v) v) (adjMap g) []"

text \<open>Nothing when the sort throws.\<close>

definition getTopSort :: "sorter \<Rightarrow> dag \<Rightarrow> lir_id list option" where
  "getTopSort topologicalSort g =
     (case topologicalSort (gy_nodes g) (gy_edges g) of
        None \<Rightarrow> None
      | Some order \<Rightarrow> those (map (jm_get (idToVertex g)) order))"

definition getSource :: "sorter \<Rightarrow> dag \<Rightarrow> dag option" where
  "getSource topologicalSort g =
     map_option (\<lambda>order. case order of [] \<Rightarrow> empty | v # _ \<Rightarrow> vertex v) (getTopSort topologicalSort g)"

definition getSink :: "sorter \<Rightarrow> dag \<Rightarrow> dag option" where
  "getSink topologicalSort g =
     map_option (\<lambda>order. if order = [] then empty else vertex (last order)) (getTopSort topologicalSort g)"

definition connectSinkToNode :: "sorter \<Rightarrow> dag \<Rightarrow> lir_id \<Rightarrow> dag option" where
  "connectSinkToNode topologicalSort g node =
     map_option (\<lambda>t. overlay g (connect t (vertex node))) (getSink topologicalSort g)"

fun getAllPathsFromVertex :: "nat \<Rightarrow> dag \<Rightarrow> lir_id \<Rightarrow> lir_id list list option" where
  "getAllPathsFromVertex 0 g v = None"
| "getAllPathsFromVertex (Suc fuel) g v =
     (let neighbors = neighbors_in (adjMap g) v
      in if neighbors = [] then Some [[v]]
         else map_option (\<lambda>pss. map (Cons v) (concat pss)) (those (map (getAllPathsFromVertex fuel g) neighbors)))"

text \<open>The path graphs, with the labels of their edges, and the graph, which may have been given empty labels.\<close>

definition label_edge :: "lir_id \<times> lir_id \<Rightarrow> dag \<times> dag \<Rightarrow> (dag \<times> dag) option" where
  "label_edge edge gs =
     (let (label, g') = getAttributesForEdge edge (snd gs)
      in map_option (\<lambda>p'. (p', g')) (setEdgeAttributes edge label (fst gs)))"

fun label_edges :: "(lir_id \<times> lir_id) list \<Rightarrow> dag \<times> dag \<Rightarrow> (dag \<times> dag) option" where
  "label_edges [] gs = Some gs"
| "label_edges (e # es) gs = (case label_edge e gs of None \<Rightarrow> None | Some gs' \<Rightarrow> label_edges es gs')"

fun label_paths :: "dag list \<Rightarrow> dag \<Rightarrow> (dag list \<times> dag) option" where
  "label_paths [] g = Some ([], g)"
| "label_paths (p # ps) g =
     (case label_edges (getEdges p) (p, g) of
        None \<Rightarrow> None
      | Some (p', g') \<Rightarrow> map_option (\<lambda>(ps', g''). (p' # ps', g'')) (label_paths ps g'))"

definition barePaths :: "sorter \<Rightarrow> dag \<Rightarrow> lir_id list list option" where
  "barePaths topologicalSort g =
     (case getSource topologicalSort g of
        None \<Rightarrow> None
      | Some source \<Rightarrow>
          (case shape source of
             Vertex v \<Rightarrow> getAllPathsFromVertex (Suc (length (adjMap g))) g v
           | _ \<Rightarrow> Some []))"

definition getAllPaths :: "sorter \<Rightarrow> dag \<Rightarrow> (dag list \<times> dag) option" where
  "getAllPaths topologicalSort g =
     (case barePaths topologicalSort g of None \<Rightarrow> None | Some ps \<Rightarrow> label_paths (map pathFromValues ps) g)"

subsection \<open>What a graph denotes\<close>

definition verts :: "dag \<Rightarrow> lir_id set" where
  "verts g = fst ` set (adjMap g)"

definition arcs :: "dag \<Rightarrow> (lir_id \<times> lir_id) set" where
  "arcs g = {(u, v). v \<in> set (neighbors_in (adjMap g) u)}"

definition map_ok :: "(lir_id, lir_id list) jsmap \<Rightarrow> bool" where
  "map_ok m \<longleftrightarrow> jm_wf m \<and> (\<forall>v. distinct (neighbors_in m v) \<and> set (neighbors_in m v) \<subseteq> fst ` set m)"

definition graph_ok :: "dag \<Rightarrow> bool" where
  "graph_ok g \<longleftrightarrow> map_ok (adjMap g)"

lemma neighbors_set: "neighbors_in (jm_set k v m) u = (if u = k then v else neighbors_in m u)"
  by (simp add: neighbors_in_def js_simps)

lemma neighbors_Nil [simp]: "neighbors_in [] v = []"
  by (simp add: neighbors_in_def)

lemma neighbors_Cons: "neighbors_in ((k, ns) # m) v = (if v = k then ns else neighbors_in m v)"
  by (simp add: neighbors_in_def)

lemma neighbors_new: "v \<notin> fst ` set m \<Longrightarrow> neighbors_in m v = []"
  by (simp add: neighbors_in_def map_of_eq_None_iff [THEN iffD2])

lemma keys_jm_set [simp]: "fst ` set (jm_set k v m) = insert k (fst ` set m)"
  using dom_update [of k v m] by (simp only: dom_map_of_conv_image_fst insert_is_Un [symmetric])

lemma graphUnion_Cons:
  "graphUnion x ((v, ns) # y) = graphUnion (jm_set v (set_union (neighbors_in x v) ns) x) y"
  by (simp add: graphUnion_def)

lemma keys_graphUnion [simp]: "fst ` set (graphUnion x y) = fst ` set x \<union> fst ` set y"
proof (induction y arbitrary: x)
  case (Cons p y) then show ?case by (cases p) (auto simp: graphUnion_Cons)
qed (simp add: graphUnion_def)

lemma neighbors_graphUnion:
  "jm_wf y \<Longrightarrow> set (neighbors_in (graphUnion x y) v) = set (neighbors_in x v) \<union> set (neighbors_in y v)"
proof (induction y arbitrary: x)
  case (Cons p y)
  obtain k ns where p: "p = (k, ns)" by (cases p)
  then have "jm_wf y" "k \<notin> fst ` set y" using Cons.prems by (auto simp: jm_wf_def)
  then show ?case using Cons.IH [of "jm_set k (set_union (neighbors_in x k) ns) x"] neighbors_new [of k y]
    by (auto simp: p graphUnion_Cons neighbors_set neighbors_Cons split: if_splits)
qed (simp add: graphUnion_def)

lemma graphUnion_wf: "jm_wf x \<Longrightarrow> jm_wf (graphUnion x y)"
proof (induction y arbitrary: x)
  case (Cons p y) then show ?case by (cases p) (simp add: graphUnion_Cons)
qed (simp add: graphUnion_def)

lemma distinct_graphUnion: "distinct (neighbors_in x v) \<Longrightarrow> distinct (neighbors_in (graphUnion x y) v)"
proof (induction y arbitrary: x)
  case (Cons p y)
  show ?case using Cons.prems by (cases p) (auto simp: graphUnion_Cons neighbors_set intro!: Cons.IH)
qed (simp add: graphUnion_def)

lemma graphUnion_ok: "map_ok x \<Longrightarrow> map_ok y \<Longrightarrow> map_ok (graphUnion x y)"
  unfolding map_ok_def by (simp add: graphUnion_wf distinct_graphUnion neighbors_graphUnion) blast

lemma append_Cons_sources:
  "appendVerticesToSourceNeighbors m (v # vs) ts =
     appendVerticesToSourceNeighbors (jm_set v (set_union (neighbors_in m v) (set_of ts)) m) vs ts"
  by (simp add: appendVerticesToSourceNeighbors_def)

lemma append_Nil_sources [simp]: "appendVerticesToSourceNeighbors m [] ts = m"
  by (simp add: appendVerticesToSourceNeighbors_def)

lemma keys_append [simp]: "fst ` set (appendVerticesToSourceNeighbors m vs ts) = fst ` set m \<union> set vs"
  by (induction vs arbitrary: m) (auto simp: append_Cons_sources)

lemma neighbors_append:
  "set (neighbors_in (appendVerticesToSourceNeighbors m vs ts) v) =
     set (neighbors_in m v) \<union> (if v \<in> set vs then set ts else {})"
  by (induction vs arbitrary: m) (auto simp: append_Cons_sources neighbors_set)

lemma append_wf: "jm_wf m \<Longrightarrow> jm_wf (appendVerticesToSourceNeighbors m vs ts)"
  by (induction vs arbitrary: m) (auto simp: append_Cons_sources)

lemma distinct_append_sources:
  "(\<And>v. distinct (neighbors_in m v)) \<Longrightarrow> distinct (neighbors_in (appendVerticesToSourceNeighbors m vs ts) v)"
  by (induction vs arbitrary: m) (auto simp: append_Cons_sources neighbors_set)

lemma connect_map_ok: "map_ok x \<Longrightarrow> map_ok y \<Longrightarrow> map_ok (makeDirectedConnectAdjacencyMap x y)"
  using graphUnion_ok [of x y] unfolding map_ok_def makeDirectedConnectAdjacencyMap_def
  by (auto simp: append_wf distinct_append_sources neighbors_append split: if_splits)

text \<open>The four constructors.\<close>

lemma graph_ok_simps [simp]:
  "graph_ok empty" "graph_ok (vertex a)"
  "graph_ok x \<Longrightarrow> graph_ok y \<Longrightarrow> graph_ok (overlay x y)"
  "graph_ok x \<Longrightarrow> graph_ok y \<Longrightarrow> graph_ok (connect x y)"
  unfolding graph_ok_def
  by (simp_all add: empty_def vertex_def overlay_def connect_def graphUnion_ok connect_map_ok)
    (simp_all add: map_ok_def neighbors_Cons jm_wf_def)

lemma verts_simps [simp]:
  "verts empty = {}" "verts (vertex a) = {a}" "verts (overlay x y) = verts x \<union> verts y"
  "verts (connect x y) = verts x \<union> verts y"
  by (auto simp: verts_def empty_def vertex_def overlay_def connect_def makeDirectedConnectAdjacencyMap_def simp flip: image_Un)

lemma arcs_empty [simp]: "arcs empty = {}"
  by (simp add: arcs_def empty_def)

lemma arcs_vertex [simp]: "arcs (vertex a) = {}"
  by (auto simp: arcs_def vertex_def neighbors_Cons)

lemma arcs_overlay [simp]: "graph_ok y \<Longrightarrow> arcs (overlay x y) = arcs x \<union> arcs y"
  by (auto simp: arcs_def overlay_def neighbors_graphUnion graph_ok_def map_ok_def)

lemma arcs_connect [simp]:
  assumes "graph_ok y"
  shows "arcs (connect x y) = arcs x \<union> arcs y \<union> verts x \<times> verts y"
proof -
  have "(u, v) \<in> arcs (connect x y) \<longleftrightarrow> (u, v) \<in> arcs x \<union> arcs y \<union> verts x \<times> verts y" for u v
    using assms by (simp add: arcs_def connect_def makeDirectedConnectAdjacencyMap_def neighbors_append
        neighbors_graphUnion graph_ok_def map_ok_def verts_def)
  then show ?thesis by (simp add: set_eq_iff split_paired_all)
qed

lemma arcs_verts:
  assumes "graph_ok g" "(u, v) \<in> arcs g"
  shows "u \<in> verts g" "v \<in> verts g"
proof -
  have "v \<in> set (neighbors_in (adjMap g) u)" using assms(2) by (simp add: arcs_def)
  then show "v \<in> verts g" "u \<in> verts g"
    using assms(1) neighbors_new [of u "adjMap g"]
    by (auto simp only: graph_ok_def map_ok_def verts_def) (metis empty_iff list.set(1))
qed

lemma finite_verts [simp]: "finite (verts g)"
  by (simp add: verts_def)

lemma card_verts: "graph_ok g \<Longrightarrow> card (verts g) = length (adjMap g)"
  using distinct_card [of "map fst (adjMap g)"] by (simp add: graph_ok_def map_ok_def jm_wf_def verts_def)

lemma hasVertex_iff: "hasVertex g v \<longleftrightarrow> v \<in> verts g"
  by (simp add: hasVertex_def verts_def map_of_eq_None_iff)

lemma hasEdge_iff: "hasEdge g u v \<longleftrightarrow> (u, v) \<in> arcs g"
  by (simp add: hasEdge_def arcs_def)

lemma foldl_overlay:
  assumes "graph_ok g" "\<forall>h\<in>set gs. graph_ok h"
  shows "graph_ok (foldl overlay g gs) \<and> verts (foldl overlay g gs) = verts g \<union> (\<Union>h\<in>set gs. verts h) \<and>
    arcs (foldl overlay g gs) = arcs g \<union> (\<Union>h\<in>set gs. arcs h)"
  using assms by (induction gs arbitrary: g) (simp_all, blast+)

lemma overlays_ok:
  assumes "\<forall>h\<in>set gs. graph_ok h"
  shows "graph_ok (overlays gs)" "verts (overlays gs) = (\<Union>h\<in>set gs. verts h)" "arcs (overlays gs) = (\<Union>h\<in>set gs. arcs h)"
  using foldl_overlay [OF _ assms, of empty] by (simp_all add: overlays_def)

subsection \<open>Topological orders\<close>

definition before :: "'a list \<Rightarrow> 'a \<Rightarrow> 'a \<Rightarrow> bool" where
  "before xs u v \<longleftrightarrow> (\<exists>as bs cs. xs = as @ u # bs @ v # cs)"

text \<open>What the library promises: an order of the nodes in which every edge goes forward, or an error on a cycle.\<close>

definition sorts :: "sorter \<Rightarrow> bool" where
  "sorts ts \<longleftrightarrow> (\<forall>nodes edges. distinct nodes \<and> distinct edges \<and> set edges \<subseteq> set nodes \<times> set nodes \<longrightarrow>
     (case ts nodes edges of
        None \<Rightarrow> \<not> acyclic (set edges)
      | Some order \<Rightarrow> distinct order \<and> set order = set nodes \<and> (\<forall>(u, v)\<in>set edges. before order u v)))"

lemma before_hd: "before xs u v \<Longrightarrow> distinct xs \<Longrightarrow> v \<noteq> hd xs"
  by (auto simp: before_def hd_append split: if_splits)

lemma before_last: "before xs u v \<Longrightarrow> distinct xs \<Longrightarrow> u \<noteq> last xs"
  by (auto simp: before_def) (metis last_in_set)

lemma before_map:
  assumes "inj f"
  shows "before (map f xs) (f u) (f v) \<longleftrightarrow> before xs u v"
proof
  assume "before (map f xs) (f u) (f v)"
  then obtain as bs cs where "map f xs = as @ f u # bs @ f v # cs" by (auto simp: before_def)
  then have "map (inv f) (map f xs) = map (inv f) (as @ f u # bs @ f v # cs)" by (rule arg_cong)
  then have "xs = map (inv f) as @ u # map (inv f) bs @ v # map (inv f) cs" using assms by (simp add: comp_def)
  then show "before xs u v" by (auto simp: before_def)
next
  assume "before xs u v"
  then obtain as bs cs where "xs = as @ u # bs @ v # cs" by (auto simp: before_def)
  then have "map f xs = map f as @ f u # map f bs @ f v # map f cs" by simp
  then show "before (map f xs) (f u) (f v)" unfolding before_def by blast
qed

lemma show_nat_inj: "inj show_nat"
  by (rule injI) simp

lemma set_gy_edges: "graph_ok g \<Longrightarrow> set (gy_edges g) = map_prod show_nat show_nat ` arcs g"
proof -
  assume "graph_ok g"
  then have "jm_wf (adjMap g)" by (simp add: graph_ok_def map_ok_def)
  note get = jm_get_iff [OF this]
  have "(\<Union>(v, ns)\<in>set (adjMap g). Pair v ` set ns) = arcs g"
  proof (intro set_eqI iffI)
    fix e assume "e \<in> (\<Union>(v, ns)\<in>set (adjMap g). Pair v ` set ns)"
    then obtain v ns n where "(v, ns) \<in> set (adjMap g)" "n \<in> set ns" "e = (v, n)" by blast
    then show "e \<in> arcs g" by (simp add: arcs_def neighbors_in_def flip: get)
  next
    fix e assume "e \<in> arcs g"
    then obtain v n where e: "e = (v, n)" "n \<in> set (neighbors_in (adjMap g) v)" by (auto simp: arcs_def)
    then obtain ns where "jm_get (adjMap g) v = Some ns" "n \<in> set ns"
      by (cases "jm_get (adjMap g) v") (simp_all add: neighbors_in_def)
    then show "e \<in> (\<Union>(v, ns)\<in>set (adjMap g). Pair v ` set ns)" unfolding get e(1) by blast
  qed
  moreover have "set (gy_edges g) = map_prod show_nat show_nat ` (\<Union>(v, ns)\<in>set (adjMap g). Pair v ` set ns)"
    by (simp add: gy_edges_def image_UN image_image case_prod_beta)
  ultimately show ?thesis by simp
qed

lemma distinct_gy_edges:
  assumes "graph_ok g"
  shows "distinct (gy_edges g)"
proof -
  have *: "distinct (concat (map (\<lambda>(v, ns). map (\<lambda>n. (show_nat v, show_nat n)) ns) m))"
    if "distinct (map fst m)" "\<forall>(v, ns)\<in>set m. distinct ns" for m :: "(lir_id, lir_id list) jsmap"
    using that by (induction m) (auto simp: distinct_map inj_on_def image_iff)
  have "distinct ns" if "(v, ns) \<in> set (adjMap g)" for v ns
  proof -
    have "jm_get (adjMap g) v = Some ns" using that assms by (simp add: jm_get_iff graph_ok_def map_ok_def)
    moreover have "distinct (neighbors_in (adjMap g) v)" using assms by (simp add: graph_ok_def map_ok_def)
    ultimately show ?thesis by (simp add: neighbors_in_def)
  qed
  then show ?thesis unfolding gy_edges_def using assms by (intro *) (auto simp: graph_ok_def map_ok_def jm_wf_def)
qed

lemma gy_nodes_eq: "gy_nodes g = map show_nat (map fst (adjMap g))"
  by (simp add: gy_nodes_def case_prod_beta comp_def)

lemma idToVertex_get: "jm_get (idToVertex g) (show_nat v) = (if v \<in> verts g then Some v else None)"
proof -
  have "jm_get (fold (\<lambda>(v, _). jm_set (show_nat v) v) m acc) (show_nat v) =
      (if v \<in> fst ` set m then Some v else jm_get acc (show_nat v))" for m :: "(lir_id, lir_id list) jsmap" and acc
    by (induction m arbitrary: acc) (auto simp: js_simps)
  then show ?thesis by (simp add: idToVertex_def verts_def)
qed

lemma those_map_get: "\<forall>x\<in>set xs. f x = Some (h x) \<Longrightarrow> those (map f xs) = Some (map h xs)"
  by (induction xs) simp_all

lemma topSort_ordered:
  assumes "sorts ts" "graph_ok g" "acyclic (arcs g)"
  obtains order where "getTopSort ts g = Some order" "distinct order" "set order = verts g"
    "\<And>u v. (u, v) \<in> arcs g \<Longrightarrow> before order u v"
proof -
  have "finite (arcs g)" by (rule finite_subset [of _ "verts g \<times> verts g"]) (auto dest: arcs_verts [OF assms(2)])
  then have "wf (map_prod show_nat show_nat ` arcs g)"
    using assms(3) by (intro wf_map_prod_image finite_acyclic_wf show_nat_inj)
  then have acyclic: "acyclic (set (gy_edges g))" using set_gy_edges [OF assms(2)] by (simp add: wf_acyclic)
  have sub: "set (gy_edges g) \<subseteq> set (gy_nodes g) \<times> set (gy_nodes g)"
    unfolding set_gy_edges [OF assms(2)] gy_nodes_eq
    by (force simp: verts_def dest: arcs_verts [OF assms(2)])
  have "distinct (gy_nodes g)" unfolding gy_nodes_eq
    using assms(2) by (simp only: distinct_map [of show_nat "map fst (adjMap g)"])
      (simp add: graph_ok_def map_ok_def jm_wf_def inj_on_def)
  then obtain order where o: "ts (gy_nodes g) (gy_edges g) = Some order" "distinct order" "set order = set (gy_nodes g)"
      "\<forall>(u, v)\<in>set (gy_edges g). before order u v"
    using assms(1) [unfolded sorts_def, rule_format, OF conjI [OF _ conjI [OF distinct_gy_edges [OF assms(2)] sub]]] acyclic
    by (simp split: option.split_asm)
  have texts: "set order = show_nat ` verts g" using o(3) by (simp add: gy_nodes_eq verts_def image_image)
  have "map (show_nat \<circ> read_nat) order = order" by (rule map_idI) (use texts in auto)
  then have order: "order = map show_nat (map read_nat order)" by simp
  define vs where "vs = map read_nat order"
  have vs: "order = map show_nat vs" "set vs = verts g"
    using order texts by (simp_all only: vs_def set_map) (simp add: image_image)
  have "getTopSort ts g = Some vs"
    using o(1) vs(2) by (simp add: getTopSort_def vs(1) comp_def idToVertex_get those_map_get [where h = id, simplified])
  moreover have "distinct vs" using o(2) by (simp add: vs(1) distinct_map)
  moreover have "before vs u v" if "(u, v) \<in> arcs g" for u v
  proof -
    have "before order (show_nat u) (show_nat v)" using o(4) that by (force simp: set_gy_edges [OF assms(2)])
    then show ?thesis by (simp add: vs(1) before_map show_nat_inj)
  qed
  ultimately show thesis using that vs(2) by blast
qed

text \<open>A graph with one vertex that no edge goes into has that as its source; likewise the sink.\<close>

lemma getSource_unique:
  assumes "sorts ts" "graph_ok g" "acyclic (arcs g)" "s \<in> verts g" "\<And>v. v \<in> verts g \<Longrightarrow> v \<noteq> s \<Longrightarrow> \<exists>u. (u, v) \<in> arcs g"
  shows "getSource ts g = Some (vertex s)"
proof -
  obtain order where o: "getTopSort ts g = Some order" "distinct order" "set order = verts g"
    "\<And>u v. (u, v) \<in> arcs g \<Longrightarrow> before order u v" using topSort_ordered [OF assms(1-3)] by blast
  then obtain x xs where order: "order = x # xs" using assms(4) by (cases order) auto
  have "x = s" using assms(5) [of x] o(3) before_hd [OF o(4) o(2), of _ x] by (auto simp: order)
  then show ?thesis by (simp add: getSource_def o(1) order)
qed

lemma getSink_unique:
  assumes "sorts ts" "graph_ok g" "acyclic (arcs g)" "t \<in> verts g" "\<And>v. v \<in> verts g \<Longrightarrow> v \<noteq> t \<Longrightarrow> \<exists>w. (v, w) \<in> arcs g"
  shows "getSink ts g = Some (vertex t)"
proof -
  obtain order where o: "getTopSort ts g = Some order" "distinct order" "set order = verts g"
    "\<And>u v. (u, v) \<in> arcs g \<Longrightarrow> before order u v" using topSort_ordered [OF assms(1-3)] by blast
  then have ne: "order \<noteq> []" using assms(4) by auto
  then have v: "last order \<in> verts g" using last_in_set [OF ne] by (simp only: o(3))
  have "last order = t"
  proof (rule ccontr)
    assume "last order \<noteq> t"
    then obtain w where "(last order, w) \<in> arcs g" using assms(5) v by blast
    from before_last [OF o(4) [OF this] o(2)] show False by simp
  qed
  then show ?thesis using ne by (simp add: getSink_def o(1))
qed

subsection \<open>Paths\<close>

fun walk :: "(lir_id \<times> lir_id) set \<Rightarrow> lir_id list \<Rightarrow> bool" where
  "walk E [] \<longleftrightarrow> False"
| "walk E [v] \<longleftrightarrow> True"
| "walk E (u # v # p) \<longleftrightarrow> (u, v) \<in> E \<and> walk E (v # p)"

lemma walk_Cons: "p \<noteq> [] \<Longrightarrow> walk E (u # p) \<longleftrightarrow> (u, hd p) \<in> E \<and> walk E p"
  by (cases p) auto

lemma walk_nonempty: "walk E p \<Longrightarrow> p \<noteq> []"
  by auto

lemma walk_append:
  "p \<noteq> [] \<Longrightarrow> q \<noteq> [] \<Longrightarrow> walk E (p @ q) \<longleftrightarrow> walk E p \<and> (last p, hd q) \<in> E \<and> walk E q"
proof (induction p)
  case (Cons u p) then show ?case by (cases "p = []") (auto simp: walk_Cons)
qed simp

lemma walk_mono: "walk E p \<Longrightarrow> E \<subseteq> F \<Longrightarrow> walk F p"
  by (induction E p rule: walk.induct) auto

lemma walk_reaches: "walk E p \<Longrightarrow> x \<in> set p \<Longrightarrow> (hd p, x) \<in> E\<^sup>*"
  by (induction E p rule: walk.induct) (auto intro: converse_rtrancl_into_rtrancl)

lemma walk_tl_reaches: "walk E (u # p) \<Longrightarrow> x \<in> set p \<Longrightarrow> (u, x) \<in> E\<^sup>+"
  by (cases p) (auto intro: rtrancl_into_trancl2 dest: walk_reaches)

lemma walk_distinct: "walk E p \<Longrightarrow> acyclic E \<Longrightarrow> distinct p"
proof (induction E p rule: walk.induct)
  case (3 E u v p)
  then show ?case using walk_tl_reaches [of E u "v # p"] by (auto simp: acyclic_def)
qed auto

lemma walk_verts: "graph_ok g \<Longrightarrow> walk (arcs g) p \<Longrightarrow> hd p \<in> verts g \<Longrightarrow> set p \<subseteq> verts g"
proof (induction "arcs g" p rule: walk.induct)
  case (3 u v p) then show ?case using arcs_verts(2) [of g u v] by simp
qed auto

text \<open>The walks from a vertex that cannot be continued are what the recursion over the neighbors finds, with fuel for
  the vertices that are reached.\<close>

definition full_walks :: "(lir_id \<times> lir_id) set \<Rightarrow> lir_id \<Rightarrow> lir_id list set" where
  "full_walks E v = {p. walk E p \<and> hd p = v \<and> (\<forall>w. (last p, w) \<notin> E)}"

lemma full_walks_step:
  assumes "\<exists>w. (v, w) \<in> E"
  shows "full_walks E v = (\<Union>w\<in>{w. (v, w) \<in> E}. Cons v ` full_walks E w)"
proof -
  have "p \<in> full_walks E v \<longleftrightarrow> (\<exists>w q. (v, w) \<in> E \<and> p = v # q \<and> q \<in> full_walks E w)" for p
  proof (cases p)
    case (Cons u q)
    then show ?thesis using assms by (cases "q = []") (auto simp: full_walks_def walk_Cons dest: walk_nonempty)
  qed (simp add: full_walks_def)
  then show ?thesis unfolding image_def by blast
qed

lemma those_Some: "those xs = Some ys \<longleftrightarrow> xs = map Some ys"
proof (induction xs arbitrary: ys)
  case (Cons x xs) then show ?case by (cases x; cases ys) auto
qed auto

lemma distinct_concat_map:
  assumes "distinct xs" "\<And>x. x \<in> set xs \<Longrightarrow> distinct (f x)" "\<And>x y. x \<in> set xs \<Longrightarrow> y \<in> set xs \<Longrightarrow> x \<noteq> y \<Longrightarrow> set (f x) \<inter> set (f y) = {}"
  shows "distinct (concat (map f xs))"
  using assms by (induction xs) auto

lemma allPaths_from:
  assumes "graph_ok g" "acyclic (arcs g)" "card ((arcs g)\<^sup>* `` {v}) \<le> fuel" "v \<in> verts g"
  shows "\<exists>ps. getAllPathsFromVertex fuel g v = Some ps \<and> set ps = full_walks (arcs g) v \<and> distinct ps"
  using assms(3,4)
proof (induction fuel arbitrary: v)
  case 0
  have "finite ((arcs g)\<^sup>* `` {v})"
    by (rule finite_subset [of _ "insert v (verts g)"]) (auto elim: rtranclE dest: arcs_verts [OF assms(1)])
  then show ?case using 0 by auto
next
  case (Suc fuel)
  let ?ns = "neighbors_in (adjMap g) v"
  have ns: "set ?ns = {w. (v, w) \<in> arcs g}" by (simp add: arcs_def)
  have fin: "finite ((arcs g)\<^sup>* `` {v})"
    by (rule finite_subset [of _ "insert v (verts g)"]) (auto elim: rtranclE dest: arcs_verts [OF assms(1)])
  show ?case
  proof (cases "?ns = []")
    case True
    then have none: "\<forall>w. (v, w) \<notin> arcs g" using ns by simp
    have "p \<in> full_walks (arcs g) v \<longleftrightarrow> p = [v]" for p
      using none by (cases "(arcs g, p)" rule: walk.cases) (auto simp: full_walks_def)
    then show ?thesis using True by auto
  next
    case False
    have "\<exists>ps. getAllPathsFromVertex fuel g w = Some ps \<and> set ps = full_walks (arcs g) w \<and> distinct ps" if "(v, w) \<in> arcs g" for w
    proof (rule Suc.IH)
      have "(w, v) \<notin> (arcs g)\<^sup>*" using assms(2) that by (meson acyclic_def rtrancl_into_trancl2)
      then have "(arcs g)\<^sup>* `` {w} \<subset> (arcs g)\<^sup>* `` {v}" using that by (auto intro: converse_rtrancl_into_rtrancl)
      then have "card ((arcs g)\<^sup>* `` {w}) < card ((arcs g)\<^sup>* `` {v})" by (rule psubset_card_mono [OF fin])
      then show "card ((arcs g)\<^sup>* `` {w}) \<le> fuel" using Suc.prems(1) by simp
    qed (use that arcs_verts [OF assms(1)] in blast)
    then obtain f where f: "\<And>w. w \<in> set ?ns \<Longrightarrow> getAllPathsFromVertex fuel g w = Some (f w) \<and> set (f w) = full_walks (arcs g) w \<and> distinct (f w)"
      using ns by (metis mem_Collect_eq)
    have "distinct ?ns" using assms(1) by (simp add: graph_ok_def map_ok_def)
    then have dist: "distinct (concat (map f ?ns))" using f by (intro distinct_concat_map) (auto simp: full_walks_def)
    have "those (map (getAllPathsFromVertex fuel g) ?ns) = Some (map f ?ns)"
      using f by (intro those_map_get) blast
    moreover have "set (map (Cons v) (concat (map f ?ns))) = full_walks (arcs g) v"
    proof -
      have "\<exists>w. (v, w) \<in> arcs g" using False ns by (auto simp: neq_Nil_conv)
      from full_walks_step [OF this] show ?thesis using f ns by (auto simp: image_UN)
    qed
    ultimately show ?thesis using False dist by (auto simp: distinct_map)
  qed
qed

lemma enough_fuel:
  assumes "graph_ok g" "v \<in> verts g"
  shows "card ((arcs g)\<^sup>* `` {v}) \<le> Suc (length (adjMap g))"
proof -
  have "(arcs g)\<^sup>* `` {v} \<subseteq> verts g" using assms by (auto elim: rtranclE dest: arcs_verts)
  then have "card ((arcs g)\<^sup>* `` {v}) \<le> card (verts g)" by (rule card_mono [OF finite_verts])
  then show ?thesis using card_verts [OF assms(1)] by simp
qed

lemma barePaths_walks:
  assumes "graph_ok g" "acyclic (arcs g)" "s \<in> verts g" "getSource ts g = Some (vertex s)"
  shows "\<exists>ps. barePaths ts g = Some ps \<and> set ps = full_walks (arcs g) s \<and> distinct ps"
  using allPaths_from [OF assms(1,2) enough_fuel [OF assms(1,3)] assms(3)] assms(4)
  by (simp add: barePaths_def vertex_def)

subsection \<open>Path graphs\<close>

definition steps_of :: "lir_id list \<Rightarrow> (lir_id \<times> lir_id) set" where
  "steps_of p = set (zip p (tl p))"

lemma steps_of_simps [simp]:
  "steps_of [] = {}" "steps_of [v] = {}" "steps_of (u # v # p) = insert (u, v) (steps_of (v # p))"
  by (simp_all add: steps_of_def)

lemma steps_in: "(u, v) \<in> steps_of p \<Longrightarrow> u \<in> set p \<and> v \<in> set p"
  by (cases p) (auto simp: steps_of_def dest: set_zip_leftD set_zip_rightD)

lemma walk_steps: "walk E p \<longleftrightarrow> p \<noteq> [] \<and> steps_of p \<subseteq> E"
  by (induction E p rule: walk.induct) auto

definition is_path_graph :: "lir_id list \<Rightarrow> dag \<Rightarrow> bool" where
  "is_path_graph vs g \<longleftrightarrow> graph_ok g \<and> verts g = set vs \<and> arcs g = steps_of vs"

lemma path_graph_list:
  assumes "graph_ok g" "v \<in> verts g"
  shows "graph_ok (foldl overlay g (map2 connect (map vertex (v # rest)) (map vertex rest))) \<and>
    verts (foldl overlay g (map2 connect (map vertex (v # rest)) (map vertex rest))) = verts g \<union> set rest \<and>
    arcs (foldl overlay g (map2 connect (map vertex (v # rest)) (map vertex rest))) = arcs g \<union> steps_of (v # rest)"
  using assms
proof (induction rest arbitrary: g v)
  case (Cons w rest)
  then show ?case using Cons.IH [of "overlay g (connect (vertex v) (vertex w))" w] by auto
qed simp

lemma pathFromValues_graph: "is_path_graph vs (pathFromValues vs)"
proof -
  consider "vs = []" | u where "vs = [u]" | u v rest where "vs = u # v # rest" by (cases vs rule: remdups_adj.cases) auto
  then show ?thesis
  proof cases
    case (3 u v rest)
    then show ?thesis using path_graph_list [of "connect (vertex u) (vertex v)" v rest]
      by (auto simp: is_path_graph_def pathFromValues_def)
  qed (simp_all add: is_path_graph_def pathFromValues_def)
qed

lemma step_orders:
  assumes "distinct order" "distinct vs" "set order = set vs" "\<And>u v. (u, v) \<in> steps_of vs \<Longrightarrow> before order u v"
  shows "order = vs"
  using assms
proof (induction vs arbitrary: order)
  case (Cons u vs)
  then obtain x xs where order: "order = x # xs" by (cases order) auto
  have "x = u"
  proof (rule ccontr)
    assume "x \<noteq> u"
    then have "x \<in> set vs" using Cons.prems(3) order by (metis list.set_intros(1) set_ConsD)
    then obtain as bs where vs: "vs = as @ x # bs" by (meson split_list)
    then have "(last (u # as), x) \<in> steps_of (u # vs)"
      by (induction as arbitrary: u vs) (auto simp: steps_of_def)
    from before_hd [OF Cons.prems(4) [OF this] Cons.prems(1)] show False by (simp add: order)
  qed
  moreover have "xs = vs"
  proof (rule Cons.IH)
    show "set xs = set vs" using Cons.prems(1-3) \<open>x = u\<close> order by (metis distinct.simps(2) insert_ident list.simps(15))
    fix a b assume ab: "(a, b) \<in> steps_of vs"
    then have "a \<in> set vs" by (rule steps_in [THEN conjunct1])
    then have "a \<noteq> x" using Cons.prems(2) \<open>x = u\<close> by auto
    moreover have "before order a b" using ab by (intro Cons.prems(4)) (cases vs; auto)
    ultimately show "before xs a b" by (auto simp: before_def order Cons_eq_append_conv)
  qed (use Cons.prems(1,2) order in auto)
  ultimately show ?case by (simp add: order)
qed simp

lemma steps_acyclic: "distinct vs \<Longrightarrow> acyclic (steps_of vs)"
proof (induction vs)
  case (Cons u vs)
  show ?case
  proof (cases vs)
    case (Cons v p)
    have "(v, u) \<notin> (steps_of vs)\<^sup>*"
    proof
      assume "(v, u) \<in> (steps_of vs)\<^sup>*"
      then have "u = v \<or> (\<exists>w. (w, u) \<in> steps_of vs)" by (metis rtranclE)
      then show False using Cons.prems Cons steps_in [of _ u vs] by auto
    qed
    then show ?thesis using Cons.IH Cons.prems Cons by (simp add: acyclic_insert)
  qed (simp add: acyclic_def)
qed (simp add: acyclic_def)

lemma path_graph_order:
  assumes "sorts ts" "is_path_graph vs g" "distinct vs"
  shows "getTopSort ts g = Some vs"
proof -
  note g = assms(2) [unfolded is_path_graph_def]
  obtain order where o: "getTopSort ts g = Some order" "distinct order" "set order = verts g"
    "\<And>u v. (u, v) \<in> arcs g \<Longrightarrow> before order u v"
    using topSort_ordered [OF assms(1), of g] g steps_acyclic [OF assms(3)] by auto
  have "order = vs" by (rule step_orders) (use g o assms(3) in auto)
  then show ?thesis using o(1) by simp
qed

text \<open>Labels leave the edges alone.\<close>

definition same_graph :: "dag \<Rightarrow> dag \<Rightarrow> bool" where
  "same_graph g h \<longleftrightarrow> shape g = shape h \<and> adjMap g = adjMap h"

lemma same_graph_facts:
  assumes "same_graph g h"
  shows "verts g = verts h" "arcs g = arcs h" "graph_ok g = graph_ok h" "getTopSort ts g = getTopSort ts h"
    "getSource ts g = getSource ts h" "getSink ts g = getSink ts h" "getEdges g = getEdges h" "hasEdge g = hasEdge h"
  using assms by (simp_all add: same_graph_def verts_def arcs_def graph_ok_def getTopSort_def gy_nodes_def gy_edges_def
      idToVertex_def getSource_def getSink_def getEdges_def getAllEdges_def getVertices_def hasEdge_def fun_eq_iff
      cong: option.case_cong)

lemma same_graph_refl [simp]: "same_graph g g"
  by (simp add: same_graph_def)

lemma same_graph_trans: "same_graph f g \<Longrightarrow> same_graph g h \<Longrightarrow> same_graph f h"
  by (simp add: same_graph_def)

lemma getAttributes_same: "getAttributesForEdge e g = (l, g') \<Longrightarrow> same_graph g' g"
  by (auto simp: getAttributesForEdge_def same_graph_def split: option.splits)

lemma set_getEdges [simp]: "set (getEdges g) = arcs g \<inter> verts g \<times> UNIV"
  by (auto simp: getEdges_def getAllEdges_def getVertices_def verts_def arcs_def)

lemma label_edges_some:
  assumes "\<forall>e\<in>set es. hasEdge p (fst e) (snd e)"
  shows "\<exists>p' g'. label_edges es (p, g) = Some (p', g') \<and> same_graph p' p \<and> same_graph g' g"
  using assms
proof (induction es arbitrary: p g)
  case (Cons e es)
  obtain l g1 where a: "getAttributesForEdge e g = (l, g1)" by (cases "getAttributesForEdge e g")
  define p1 where "p1 = Dag (shape p) (adjMap p) (jm_set (stringifyEdge e) l (edgeAttributes p))"
  have "same_graph p1 p" "same_graph g1 g" using getAttributes_same [OF a] by (simp_all add: p1_def same_graph_def)
  moreover from this obtain p' g' where "label_edges es (p1, g1) = Some (p', g')" "same_graph p' p1" "same_graph g' g1"
    using Cons.IH [of p1 g1] Cons.prems by (auto simp: same_graph_facts(8))
  ultimately show ?case using Cons.prems
    by (auto simp: label_edge_def a setEdgeAttributes_def p1_def intro: same_graph_trans)
qed simp

lemma label_paths_some:
  "\<exists>ps' g'. label_paths ps g = Some (ps', g') \<and> list_all2 same_graph ps' ps \<and> same_graph g' g"
proof (induction ps arbitrary: g)
  case (Cons p ps)
  obtain p' g1 where "label_edges (getEdges p) (p, g) = Some (p', g1)" "same_graph p' p" "same_graph g1 g"
    using label_edges_some [of "getEdges p" p g] by (auto simp: hasEdge_iff)
  moreover from Cons.IH [of g1] obtain ps' g' where "label_paths ps g1 = Some (ps', g')"
    "list_all2 same_graph ps' ps" "same_graph g' g1" by blast
  ultimately show ?case by (auto intro: same_graph_trans)
qed simp

lemma getAllPaths_walks:
  assumes "sorts ts" "graph_ok g" "acyclic (arcs g)" "s \<in> verts g" "getSource ts g = Some (vertex s)"
  shows "\<exists>ps g' bare. getAllPaths ts g = Some (ps, g') \<and> same_graph g' g \<and> set bare = full_walks (arcs g) s \<and> distinct bare \<and>
    list_all2 is_path_graph bare ps \<and> map (getTopSort ts) ps = map Some bare"
proof -
  obtain bare where bare: "barePaths ts g = Some bare" "set bare = full_walks (arcs g) s" "distinct bare"
    using barePaths_walks [OF assms(2-5)] by blast
  obtain ps g' where ps: "label_paths (map pathFromValues bare) g = Some (ps, g')"
    "list_all2 same_graph ps (map pathFromValues bare)" "same_graph g' g" using label_paths_some by blast
  have len: "length ps = length bare" using list_all2_lengthD [OF ps(2)] by simp
  have dist: "distinct vs" if "vs \<in> full_walks (arcs g) s" for vs
    using that walk_distinct [OF _ assms(3)] by (simp add: full_walks_def)
  have each: "is_path_graph (bare ! i) (ps ! i) \<and> distinct (bare ! i) \<and> bare ! i \<in> full_walks (arcs g) s" if "i < length bare" for i
  proof -
    have "same_graph (ps ! i) (pathFromValues (bare ! i))" using list_all2_nthD [OF ps(2), of i] that len by simp
    moreover have "bare ! i \<in> full_walks (arcs g) s" using nth_mem [OF that] by (simp only: bare(2))
    moreover have "is_path_graph (bare ! i) (ps ! i)"
      using pathFromValues_graph [of "bare ! i"] same_graph_facts(1-3) [OF calculation(1)] by (simp add: is_path_graph_def)
    ultimately show ?thesis using dist by blast
  qed
  have "map (getTopSort ts) ps = map Some bare"
    using path_graph_order [OF assms(1)] each len by (intro nth_equalityI) simp_all
  moreover have "list_all2 is_path_graph bare ps" using each len by (simp add: list_all2_conv_all_nth)
  ultimately show ?thesis using bare ps(1,3) by (simp add: getAllPaths_def)
qed

subsection \<open>Graphs that only constructors made\<close>

fun built :: "dag \<Rightarrow> bool" where
  "built (Dag Empty m a) \<longleftrightarrow> Dag Empty m a = empty"
| "built (Dag (Vertex v) m a) \<longleftrightarrow> Dag (Vertex v) m a = vertex v"
| "built (Dag (Overlay x y) m a) \<longleftrightarrow> Dag (Overlay x y) m a = overlay x y \<and> built x \<and> built y"
| "built (Dag (Connect x y) m a) \<longleftrightarrow> Dag (Connect x y) m a = connect x y \<and> built x \<and> built y"

lemma built_simps [simp]:
  "built empty" "built (vertex v)" "built (overlay x y) \<longleftrightarrow> built x \<and> built y" "built (connect x y) \<longleftrightarrow> built x \<and> built y"
  by (simp_all add: empty_def vertex_def overlay_def connect_def)

lemma built_cases:
  assumes "built g"
  obtains "g = empty" | v where "g = vertex v" | x y where "g = overlay x y" "built x" "built y"
  | x y where "g = connect x y" "built x" "built y"
  using assms by (cases g rule: built.cases) auto

lemma built_induct [consumes 1, case_names empty vertex overlay connect]:
  assumes "built g" "Q empty" "\<And>v. Q (vertex v)" "\<And>x y. built x \<Longrightarrow> built y \<Longrightarrow> Q x \<Longrightarrow> Q y \<Longrightarrow> Q (overlay x y)"
    and "\<And>x y. built x \<Longrightarrow> built y \<Longrightarrow> Q x \<Longrightarrow> Q y \<Longrightarrow> Q (connect x y)"
  shows "Q g"
  using assms(1) by (induction g rule: built.induct) (use assms(2-) in auto)

lemma built_ok [simp]: "built g \<Longrightarrow> graph_ok g"
  by (induction rule: built_induct) simp_all

lemma built_overlays: "built (foldl overlay g gs) \<longleftrightarrow> built g \<and> (\<forall>h\<in>set gs. built h)"
  by (induction gs arbitrary: g) auto

lemma foldg_simps [simp]:
  "foldg e f ov c empty = e" "foldg e f ov c (vertex v) = f v"
  "foldg e f ov c (overlay x y) = ov (foldg e f ov c x) (foldg e f ov c y)"
  "foldg e f ov c (connect x y) = c (foldg e f ov c x) (foldg e f ov c y)"
  by (simp_all add: empty_def vertex_def overlay_def connect_def)

text \<open>Folding with the constructors gives the graph back.\<close>

lemma foldg_id: "built g \<Longrightarrow> foldg empty vertex overlay connect g = g"
  by (induction rule: built_induct) simp_all

lemma removeSelfLoops_none:
  assumes "\<And>v. (v, v) \<notin> arcs g"
  shows "removeSelfLoops g = g"
proof -
  have "fold (\<lambda>(u, v) h. if u = v then Dag (shape h) (removeEdge u v (adjMap h)) (jm_delete (stringifyEdge (u, v)) (edgeAttributes h))
      else h) es g = g" if "\<forall>(u, v)\<in>set es. u \<noteq> v" for es
    using that by (induction es) auto
  moreover have "\<forall>(u, v)\<in>set (getEdges g). u \<noteq> v" using assms by auto
  ultimately show ?thesis by (simp add: removeSelfLoops_def)
qed

lemma induce_graph:
  assumes "built g" "acyclic (arcs g)"
  shows "graph_ok (induce P g)" "verts (induce P g) = {v \<in> verts g. P v}"
    "arcs (induce P g) = {(u, v) \<in> arcs g. P u \<and> P v}"
proof -
  define h where "h = foldg empty (\<lambda>a. if P a then vertex a else empty) overlay connect g"
  have h: "graph_ok h \<and> verts h = {v \<in> verts g. P v} \<and> arcs h = {(u, v) \<in> arcs g. P u \<and> P v}"
    unfolding h_def using assms(1) by (induction rule: built_induct) auto
  have "foldg empty vertex overlay connect (if P a then vertex a else empty) = (if P a then vertex a else empty)" for a
    by simp
  then have "induce P g = removeSelfLoops h" by (simp add: induce_def bind_def h_def)
  moreover have "(v, v) \<notin> arcs h" for v using h assms(2) by (auto simp: acyclic_def)
  ultimately have "induce P g = h" by (simp add: removeSelfLoops_none)
  then show "graph_ok (induce P g)" "verts (induce P g) = {v \<in> verts g. P v}"
    "arcs (induce P g) = {(u, v) \<in> arcs g. P u \<and> P v}" using h by simp_all
qed

end
