(* ===== verification/TwoTerminal.thy ===== *)
theory TwoTerminal
  imports AlgaGraph
begin

text \<open>
  Graphs with one source and one sink, and how the two ways of the ladder to put them together act on their walks: in
  series walks are concatenated, in parallel (and in a sandwich) a walk is one of a part's between the new ends.
\<close>

subsection \<open>Ranks\<close>

definition ranked :: "(lir_id \<times> lir_id) set \<Rightarrow> bool" where
  "ranked E \<longleftrightarrow> (\<exists>f n. \<forall>(u, v)\<in>E. f u < (f v :: nat) \<and> f v < n)"

lemma ranked_acyclic:
  assumes "ranked E"
  shows "acyclic E"
proof -
  obtain f n where "\<forall>(u, v)\<in>E. f u < (f v :: nat) \<and> f v < n" using assms by (auto simp: ranked_def)
  then have "E \<subseteq> measure f" by auto
  then show ?thesis by (meson wf_measure wf_subset wf_acyclic)
qed

lemma ranked_empty [simp]: "ranked {}"
  by (simp add: ranked_def)

lemma ranked_disjoint:
  assumes "ranked E" "ranked F" "E \<subseteq> V \<times> V" "F \<subseteq> W \<times> W" "V \<inter> W = {}"
  shows "ranked (E \<union> F)"
proof -
  obtain f n where f: "\<forall>(u, v)\<in>E. f u < (f v :: nat) \<and> f v < n" using assms(1) by (auto simp: ranked_def)
  obtain g m where g: "\<forall>(u, v)\<in>F. g u < (g v :: nat) \<and> g v < m" using assms(2) by (auto simp: ranked_def)
  define h where "h v = (if v \<in> V then f v else g v)" for v
  have "h u < h v \<and> h v < max n m" if uv: "(u, v) \<in> E \<union> F" for u v
  proof (cases "(u, v) \<in> E")
    case True
    then have "u \<in> V" "v \<in> V" using assms(3) by auto
    then show ?thesis using bspec [OF f True] by (simp add: h_def less_max_iff_disj)
  next
    case False
    then have F: "(u, v) \<in> F" using uv by simp
    then have "u \<notin> V" "v \<notin> V" using assms(4,5) by auto
    then show ?thesis using bspec [OF g F] by (simp add: h_def less_max_iff_disj)
  qed
  then show ?thesis unfolding ranked_def by (intro exI [of _ h] exI [of _ "max n m"]) auto
qed

lemma ranked_joined:
  assumes "ranked E" "ranked F" "E \<subseteq> V \<times> V" "F \<subseteq> W \<times> W" "V \<inter> W = {}" "J \<subseteq> V \<times> W"
  shows "ranked (E \<union> F \<union> J)"
proof -
  obtain f n where f: "\<forall>(u, v)\<in>E. f u < (f v :: nat) \<and> f v < n" using assms(1) by (auto simp: ranked_def)
  obtain g m where g: "\<forall>(u, v)\<in>F. g u < (g v :: nat) \<and> g v < m" using assms(2) by (auto simp: ranked_def)
  define h where "h v = (if v \<in> V then min n (f v) else Suc n + min m (g v))" for v
  have "h u < h v \<and> h v < Suc (Suc (n + m))" if uv: "(u, v) \<in> E \<union> F \<union> J" for u v
  proof (cases "(u, v) \<in> E")
    case True
    then have "u \<in> V" "v \<in> V" using assms(3) by auto
    then show ?thesis using bspec [OF f True] by (simp add: h_def)
  next
    case False
    show ?thesis
    proof (cases "(u, v) \<in> F")
      case True
      then have "u \<notin> V" "v \<notin> V" using assms(4,5) by auto
      then show ?thesis using bspec [OF g True] by (simp add: h_def)
    next
      case False
      then have "u \<in> V" "v \<in> W" using \<open>(u, v) \<notin> E\<close> uv assms(6) by auto
      moreover from this have "v \<notin> V" using assms(5) by auto
      ultimately show ?thesis by (auto simp: h_def min_def)
    qed
  qed
  then show ?thesis unfolding ranked_def by (intro exI [of _ h] exI [of _ "Suc (Suc (n + m))"]) auto
qed

subsection \<open>Graphs with two ends\<close>

definition two_terminal :: "dag \<Rightarrow> lir_id \<Rightarrow> lir_id \<Rightarrow> bool" where
  "two_terminal g s t \<longleftrightarrow> graph_ok g \<and> ranked (arcs g) \<and> s \<in> verts g \<and> t \<in> verts g \<and>
     (\<forall>v\<in>verts g. (v = s) = (\<forall>u. (u, v) \<notin> arcs g)) \<and> (\<forall>v\<in>verts g. (v = t) = (\<forall>w. (v, w) \<notin> arcs g))"

definition st_walks :: "dag \<Rightarrow> lir_id \<Rightarrow> lir_id \<Rightarrow> lir_id list set" where
  "st_walks g s t = {p. walk (arcs g) p \<and> hd p = s \<and> last p = t}"

lemma two_terminal_vertex: "two_terminal (vertex v) v v"
  by (simp add: two_terminal_def)

lemma two_terminal_facts:
  assumes "two_terminal g s t"
  shows "graph_ok g" "acyclic (arcs g)" "s \<in> verts g" "t \<in> verts g" "arcs g \<subseteq> verts g \<times> verts g" "ranked (arcs g)"
  using assms arcs_verts [of g] by (auto simp: two_terminal_def ranked_acyclic)

lemma two_terminal_ends:
  assumes "two_terminal g s t"
  shows "v \<in> verts g \<Longrightarrow> v \<noteq> s \<Longrightarrow> \<exists>u. (u, v) \<in> arcs g" "v \<in> verts g \<Longrightarrow> v \<noteq> t \<Longrightarrow> \<exists>w. (v, w) \<in> arcs g"
    "(u, s) \<notin> arcs g" "(t, w) \<notin> arcs g"
  using assms unfolding two_terminal_def by blast+

lemma two_terminal_source: "sorts ts \<Longrightarrow> two_terminal g s t \<Longrightarrow> getSource ts g = Some (vertex s)"
  by (rule getSource_unique) (auto dest: two_terminal_facts two_terminal_ends)

lemma two_terminal_sink: "sorts ts \<Longrightarrow> two_terminal g s t \<Longrightarrow> getSink ts g = Some (vertex t)"
  by (rule getSink_unique) (auto dest: two_terminal_facts two_terminal_ends)

lemma two_terminal_full:
  assumes "two_terminal g s t"
  shows "full_walks (arcs g) s = st_walks g s t"
proof -
  note f = two_terminal_facts [OF assms] and e = two_terminal_ends [OF assms]
  have "(\<forall>w. (last p, w) \<notin> arcs g) \<longleftrightarrow> last p = t" if "walk (arcs g) p" "hd p = s" for p
  proof -
    have "last p \<in> verts g" using walk_verts [OF f(1) that(1)] that(2) f(3) last_in_set [OF walk_nonempty [OF that(1)]] by auto
    then show ?thesis using e(2,4) by blast
  qed
  then show ?thesis by (auto simp: full_walks_def st_walks_def)
qed

lemma two_terminal_paths:
  assumes "sorts ts" "two_terminal g s t"
  shows "\<exists>ps g' bare. getAllPaths ts g = Some (ps, g') \<and> same_graph g' g \<and> set bare = st_walks g s t \<and> distinct bare \<and>
    list_all2 is_path_graph bare ps \<and> map (getTopSort ts) ps = map Some bare"
  using getAllPaths_walks [OF assms(1) two_terminal_facts(1-3) [OF assms(2)] two_terminal_source [OF assms]]
  by (simp add: two_terminal_full [OF assms(2)])

lemma st_walks_vertex: "st_walks (vertex v) v v = {[v]}"
proof -
  have "walk {} p \<longleftrightarrow> length p = 1" for p by (cases "({} :: (lir_id \<times> lir_id) set, p)" rule: walk.cases) auto
  then show ?thesis by (auto simp: st_walks_def length_Suc_conv)
qed

text \<open>Every vertex is on a walk from end to end.\<close>

lemma two_terminal_reach:
  assumes "two_terminal g s t" "v \<in> verts g"
  shows "(s, v) \<in> (arcs g)\<^sup>*"
proof -
  have "wf (arcs g)"
    using two_terminal_facts [OF assms(1)] by (intro finite_acyclic_wf) (auto intro: finite_subset)
  then show ?thesis using assms(2)
  proof (induction v rule: wf_induct_rule)
    case (less v)
    show ?case
    proof (cases "v = s")
      case False
      then obtain u where u: "(u, v) \<in> arcs g" using two_terminal_ends(1) [OF assms(1) less.prems] by blast
      then have "u \<in> verts g" using two_terminal_facts(5) [OF assms(1)] by auto
      with less.IH [OF u] u show ?thesis by auto
    qed simp
  qed
qed

subsection \<open>In series\<close>

definition series :: "dag \<Rightarrow> dag \<Rightarrow> lir_id \<Rightarrow> lir_id \<Rightarrow> dag" where
  "series g h t s = overlay (overlay (connect (vertex t) (vertex s)) g) h"

lemma series_graph:
  assumes "graph_ok g" "graph_ok h" "t \<in> verts g" "s \<in> verts h"
  shows "graph_ok (series g h t s)" "verts (series g h t s) = verts g \<union> verts h"
    "arcs (series g h t s) = insert (t, s) (arcs g \<union> arcs h)"
  using assms by (auto simp: series_def)

lemma series_two_terminal:
  assumes "two_terminal g s t" "two_terminal h s' t'" "verts g \<inter> verts h = {}"
  shows "two_terminal (series g h t s') s t'"
proof -
  note g = two_terminal_facts [OF assms(1)] and h = two_terminal_facts [OF assms(2)]
  note ge = two_terminal_ends [OF assms(1)] and he = two_terminal_ends [OF assms(2)]
  note sg = series_graph [OF g(1) h(1) g(4) h(3)]
  have rk: "ranked (arcs g \<union> arcs h \<union> {(t, s')})"
    by (rule ranked_joined [OF g(6) h(6) g(5) h(5) assms(3)]) (use g h in auto)
  have arcs: "arcs (series g h t s') = arcs g \<union> arcs h \<union> {(t, s')}" using sg(3) by simp
  have src: "(v = s) = (\<forall>u. (u, v) \<notin> arcs g \<union> arcs h \<union> {(t, s')})" if v: "v \<in> verts g \<union> verts h" for v
  proof (cases "v \<in> verts g")
    case True
    then have "(u, v) \<notin> arcs h" "v \<noteq> s'" for u using h(3,5) assms(3) by auto
    then show ?thesis using ge(1) [OF True] ge(3) by blast
  next
    case False
    then have "v \<in> verts h" "v \<noteq> s" using v g(3) by auto
    then show ?thesis using he(1) by blast
  qed
  have snk: "(v = t') = (\<forall>w. (v, w) \<notin> arcs g \<union> arcs h \<union> {(t, s')})" if v: "v \<in> verts g \<union> verts h" for v
  proof (cases "v \<in> verts h")
    case True
    then have "(v, w) \<notin> arcs g" "v \<noteq> t" for w using g(4,5) assms(3) by auto
    then show ?thesis using he(2) [OF True] he(4) by blast
  next
    case False
    then have "v \<in> verts g" "v \<noteq> t'" using v h(4) by auto
    then show ?thesis using ge(2) by blast
  qed
  show ?thesis unfolding two_terminal_def sg(2) arcs
    by (intro conjI ballI sg(1) rk src snk UnI1 [OF g(3)] UnI2 [OF h(4)])
qed

lemma walk_splits:
  assumes "walk (E \<union> F \<union> {(t, s)}) p" "E \<subseteq> V \<times> V" "F \<subseteq> W \<times> W" "V \<inter> W = {}" "t \<in> V" "s \<in> W" "hd p \<in> V" "last p \<in> W"
  shows "\<exists>q r. p = q @ r \<and> walk E q \<and> last q = t \<and> walk F r \<and> hd r = s"
  using assms(1,7,8)
proof (induction p)
  case (Cons u p)
  have ne: "p \<noteq> []" using Cons.prems assms(4) by auto
  have stay: "walk F r" if "walk (E \<union> F \<union> {(t, s)}) r" "hd r \<in> W" for r
    using that
  proof (induction r)
    case (Cons x r)
    show ?case
    proof (cases "r = []")
      case False
      then have step: "(x, hd r) \<in> E \<union> F \<union> {(t, s)}" "walk (E \<union> F \<union> {(t, s)}) r" using Cons.prems by (auto simp: walk_Cons)
      then have "(x, hd r) \<in> F" using Cons.prems(2) assms(2,4,5) by auto
      moreover from this have "hd r \<in> W" using assms(3) by auto
      ultimately show ?thesis using Cons.IH [OF step(2)] False by (simp add: walk_Cons)
    qed simp
  qed simp
  have step: "(u, hd p) \<in> E \<union> F \<union> {(t, s)}" and p: "walk (E \<union> F \<union> {(t, s)}) p" "last p \<in> W"
    using Cons.prems ne by (auto simp: walk_Cons)
  have u: "u \<in> V" using Cons.prems(2) by simp
  show ?case
  proof (cases "hd p \<in> V")
    case True
    then have "(u, hd p) \<in> E" using step u assms(3,4,6) by auto
    moreover obtain q r where "p = q @ r" "walk E q" "last q = t" "walk F r" "hd r = s" using Cons.IH [OF p(1) True p(2)] by blast
    ultimately have "u # p = (u # q) @ r \<and> walk E (u # q) \<and> last (u # q) = t \<and> walk F r \<and> hd r = s"
      using walk_nonempty [of E q] by (auto simp: walk_Cons)
    then show ?thesis by blast
  next
    case False
    then have "(u, hd p) = (t, s)" using step u assms(2,3,4) by auto
    then have "u # p = [u] @ p \<and> walk E [u] \<and> last [u] = t \<and> walk F p \<and> hd p = s" using stay [OF p(1)] assms(6) by auto
    then show ?thesis by blast
  qed
qed simp

lemma series_walks:
  assumes "two_terminal g s t" "two_terminal h s' t'" "verts g \<inter> verts h = {}"
  shows "st_walks (series g h t s') s t' = {q @ r |q r. q \<in> st_walks g s t \<and> r \<in> st_walks h s' t'}"
proof -
  note g = two_terminal_facts [OF assms(1)] and h = two_terminal_facts [OF assms(2)]
  have arcs: "arcs (series g h t s') = arcs g \<union> arcs h \<union> {(t, s')}"
    using series_graph(3) [OF g(1) h(1) g(4) h(3)] by auto
  show ?thesis
  proof (intro set_eqI iffI)
    fix p assume "p \<in> st_walks (series g h t s') s t'"
    then have p: "walk (arcs g \<union> arcs h \<union> {(t, s')}) p" "hd p = s" "last p = t'" by (auto simp: st_walks_def arcs)
    obtain q r where qr: "p = q @ r" "walk (arcs g) q" "last q = t" "walk (arcs h) r" "hd r = s'"
      using walk_splits [OF p(1) g(5) h(5) assms(3) g(4) h(3)] p(2,3) g(3) h(4) by auto
    then have "hd q = s" "last r = t'" using p(2,3) by (auto dest: walk_nonempty)
    then show "p \<in> {q @ r |q r. q \<in> st_walks g s t \<and> r \<in> st_walks h s' t'}" using qr by (auto simp: st_walks_def)
  next
    fix p assume "p \<in> {q @ r |q r. q \<in> st_walks g s t \<and> r \<in> st_walks h s' t'}"
    then obtain q r where "p = q @ r" "q \<in> st_walks g s t" "r \<in> st_walks h s' t'" by blast
    then show "p \<in> st_walks (series g h t s') s t'"
      by (auto simp: st_walks_def arcs walk_append walk_nonempty intro: walk_mono)
  qed
qed

subsection \<open>In parallel\<close>

text \<open>A graph whose parts, with ends of their own, lie between two new vertices.\<close>

type_synonym part = "dag \<times> lir_id \<times> lir_id"

definition parts_ok :: "part set \<Rightarrow> bool" where
  "parts_ok P \<longleftrightarrow> finite P \<and> P \<noteq> {} \<and> (\<forall>(h, a, b)\<in>P. two_terminal h a b) \<and>
     (\<forall>x\<in>P. \<forall>y\<in>P. x \<noteq> y \<longrightarrow> verts (fst x) \<inter> verts (fst y) = {})"

definition between :: "dag \<Rightarrow> lir_id \<Rightarrow> lir_id \<Rightarrow> part set \<Rightarrow> bool" where
  "between g s t P \<longleftrightarrow> parts_ok P \<and> graph_ok g \<and> s \<noteq> t \<and> (\<forall>(h, a, b)\<in>P. s \<notin> verts h \<and> t \<notin> verts h) \<and>
     verts g = {s, t} \<union> (\<Union>(h, a, b)\<in>P. verts h) \<and>
     arcs g = (\<Union>(h, a, b)\<in>P. {(s, a)} \<union> arcs h \<union> {(b, t)})"

lemma ranked_parts:
  assumes "finite P" "\<forall>(h, a, b)\<in>P. two_terminal h a b" "\<forall>x\<in>P. \<forall>y\<in>P. x \<noteq> y \<longrightarrow> verts (fst x) \<inter> verts (fst y) = {}"
  shows "ranked (\<Union>x\<in>P. arcs (fst x))"
  using assms
proof (induction P)
  case (insert x P)
  have sub: "arcs (fst y) \<subseteq> verts (fst y) \<times> verts (fst y)" if "y \<in> insert x P" for y
    using bspec [OF insert.prems(1) that] by (cases y) (auto dest: two_terminal_facts(5))
  have "ranked (\<Union>x\<in>P. arcs (fst x))" using insert.IH insert.prems by blast
  moreover have "ranked (arcs (fst x))"
    using bspec [OF insert.prems(1), of x] by (cases x) (auto dest: two_terminal_facts(6))
  moreover have "verts (fst x) \<inter> verts (fst y) = {}" if "y \<in> P" for y
    using insert.prems(2) insert.hyps(2) that by (metis insertCI)
  then have "verts (fst x) \<inter> (\<Union>y\<in>P. verts (fst y)) = {}" by blast
  moreover have "arcs (fst x) \<subseteq> verts (fst x) \<times> verts (fst x)" using sub by simp
  moreover have "(\<Union>y\<in>P. arcs (fst y)) \<subseteq> (\<Union>y\<in>P. verts (fst y)) \<times> (\<Union>y\<in>P. verts (fst y))"
  proof -
    have "arcs (fst y) \<subseteq> (\<Union>y\<in>P. verts (fst y)) \<times> (\<Union>y\<in>P. verts (fst y))" if "y \<in> P" for y
      using sub [of y] that by blast
    then show ?thesis by (rule UN_least)
  qed
  ultimately have "ranked (arcs (fst x) \<union> (\<Union>y\<in>P. arcs (fst y)))"
    by (intro ranked_disjoint [where V = "verts (fst x)" and W = "\<Union>y\<in>P. verts (fst y)"])
  then show ?case by simp
qed simp

lemma between_facts:
  assumes "between g s t P" "(h, a, b) \<in> P"
  shows "two_terminal h a b" "s \<notin> verts h" "t \<notin> verts h" "(s, a) \<in> arcs g" "(b, t) \<in> arcs g" "arcs h \<subseteq> arcs g"
    "verts h \<subseteq> verts g" "a \<in> verts h" "b \<in> verts h"
proof -
  note A = assms(1) [unfolded between_def parts_ok_def]
  show tt: "two_terminal h a b" using A assms(2) by fast
  show "s \<notin> verts h" "t \<notin> verts h" using A assms(2) by fast+
  have arcs: "arcs g = (\<Union>(h, a, b)\<in>P. {(s, a)} \<union> arcs h \<union> {(b, t)})"
    and verts: "verts g = {s, t} \<union> (\<Union>(h, a, b)\<in>P. verts h)" using A by blast+
  have "{(s, a)} \<union> arcs h \<union> {(b, t)} \<subseteq> arcs g" unfolding arcs using assms(2) by force
  then show "(s, a) \<in> arcs g" "(b, t) \<in> arcs g" "arcs h \<subseteq> arcs g" by simp_all
  show "verts h \<subseteq> verts g" unfolding verts using assms(2) by force
  show "a \<in> verts h" "b \<in> verts h" by (rule two_terminal_facts(3,4) [OF tt])+
qed

lemma between_arcs:
  assumes "between g s t P" "(u, v) \<in> arcs g"
  obtains h a b where "(h, a, b) \<in> P" "u = s \<and> v = a \<or> (u, v) \<in> arcs h \<or> u = b \<and> v = t"
proof -
  have "arcs g = (\<Union>(h, a, b)\<in>P. {(s, a)} \<union> arcs h \<union> {(b, t)})" using assms(1) by (simp add: between_def)
  then show thesis using assms(2) that by force
qed

lemma between_same_part:
  assumes "between g s t P" "x \<in> P" "y \<in> P" "v \<in> verts (fst x)" "v \<in> verts (fst y)"
  shows "x = y"
proof (rule ccontr)
  assume "x \<noteq> y"
  moreover have "\<forall>x\<in>P. \<forall>y\<in>P. x \<noteq> y \<longrightarrow> verts (fst x) \<inter> verts (fst y) = {}"
    using assms(1) by (simp add: between_def parts_ok_def)
  ultimately have "verts (fst x) \<inter> verts (fst y) = {}" using assms(2,3) by simp
  then show False using assms(4,5) by blast
qed

text \<open>An arc from a vertex of a part stays in it or leaves it for the end.\<close>

lemma between_step:
  assumes "between g s t P" "(h, a, b) \<in> P" "u \<in> verts h" "(u, v) \<in> arcs g"
  shows "(u, v) \<in> arcs h \<or> u = b \<and> v = t"
proof -
  obtain h' a' b' where p: "(h', a', b') \<in> P" "u = s \<and> v = a' \<or> (u, v) \<in> arcs h' \<or> u = b' \<and> v = t"
    using between_arcs [OF assms(1,4)] by blast
  have "u \<noteq> s" using assms(3) between_facts(2) [OF assms(1,2)] by auto
  then have "u \<in> verts h'"
    using p(2) between_facts(9) [OF assms(1) p(1)] two_terminal_facts(5) [OF between_facts(1) [OF assms(1) p(1)]] by auto
  then have "(h', a', b') = (h, a, b)"
    using between_same_part [OF assms(1) p(1) assms(2)] assms(3) by simp
  then show ?thesis using p(2) \<open>u \<noteq> s\<close> by simp
qed

lemma between_back:
  assumes "between g s t P" "(h, a, b) \<in> P" "v \<in> verts h" "(u, v) \<in> arcs g"
  shows "(u, v) \<in> arcs h \<or> u = s \<and> v = a"
proof -
  obtain h' a' b' where p: "(h', a', b') \<in> P" "u = s \<and> v = a' \<or> (u, v) \<in> arcs h' \<or> u = b' \<and> v = t"
    using between_arcs [OF assms(1,4)] by blast
  have "v \<noteq> t" using assms(3) between_facts(3) [OF assms(1,2)] by auto
  then have "v \<in> verts h'"
    using p(2) between_facts(8) [OF assms(1) p(1)] two_terminal_facts(5) [OF between_facts(1) [OF assms(1) p(1)]] by auto
  then have "(h', a', b') = (h, a, b)"
    using between_same_part [OF assms(1) p(1) assms(2)] assms(3) by simp
  then show ?thesis using p(2) \<open>v \<noteq> t\<close> by blast
qed

lemma between_ranked:
  assumes "between g s t P"
  shows "ranked (arcs g)"
proof -
  let ?V = "\<Union>x\<in>P. verts (fst x)" and ?E = "\<Union>x\<in>P. arcs (fst x)"
  have P: "finite P" "\<forall>(h, a, b)\<in>P. two_terminal h a b" "\<forall>x\<in>P. \<forall>y\<in>P. x \<noteq> y \<longrightarrow> verts (fst x) \<inter> verts (fst y) = {}"
    using assms by (auto simp: between_def parts_ok_def)
  have sub: "?E \<subseteq> ?V \<times> ?V" using P(2) two_terminal_facts(5) by (fastforce simp: case_prod_beta)
  have ends: "fst (snd x) \<in> ?V" "snd (snd x) \<in> ?V" if "x \<in> P" for x
    using between_facts(8,9) [OF assms, of "fst x" "fst (snd x)" "snd (snd x)"] that by auto
  have out: "s \<notin> ?V" "t \<notin> ?V" "s \<noteq> t" using assms by (auto simp: between_def)
  have "ranked ({} \<union> ?E \<union> (\<lambda>x. (s, fst (snd x))) ` P)"
    by (rule ranked_joined [where V = "{s}" and W = ?V]) (use ranked_parts [OF P] sub ends out in auto)
  then have "ranked (({} \<union> ?E \<union> (\<lambda>x. (s, fst (snd x))) ` P) \<union> {} \<union> (\<lambda>x. (snd (snd x), t)) ` P)"
    by (rule ranked_joined [where V = "insert s ?V" and W = "{t}"]) (use sub ends out in auto)
  moreover have "arcs g = ({} \<union> ?E \<union> (\<lambda>x. (s, fst (snd x))) ` P) \<union> {} \<union> (\<lambda>x. (snd (snd x), t)) ` P"
    using assms unfolding between_def by (auto simp: case_prod_beta)
  ultimately show ?thesis by simp
qed

lemma between_two_terminal:
  assumes "between g s t P"
  shows "two_terminal g s t"
proof -
  have g: "graph_ok g" "verts g = {s, t} \<union> (\<Union>(h, a, b)\<in>P. verts h)" "s \<noteq> t" "P \<noteq> {}"
    using assms by (simp_all add: between_def parts_ok_def)
  have src: "(v = s) = (\<forall>u. (u, v) \<notin> arcs g)" if v: "v \<in> verts g" for v
  proof
    assume "v = s"
    then show "\<forall>u. (u, v) \<notin> arcs g"
      using between_arcs [OF assms] between_facts(2,8) [OF assms] g(3) two_terminal_facts(5) [OF between_facts(1) [OF assms]]
      by (metis SigmaD2 subsetD)
  next
    assume none: "\<forall>u. (u, v) \<notin> arcs g"
    have "v \<noteq> t" using none between_facts(5) [OF assms] g(4) by fastforce
    show "v = s"
    proof (rule ccontr)
      assume "v \<noteq> s"
      then obtain h a b where p: "(h, a, b) \<in> P" "v \<in> verts h" using v g(2) \<open>v \<noteq> t\<close> by auto
      then show False
        using none two_terminal_ends(1) [OF between_facts(1) [OF assms p(1)] p(2)] between_facts(4,6) [OF assms p(1)] by blast
    qed
  qed
  have snk: "(v = t) = (\<forall>w. (v, w) \<notin> arcs g)" if v: "v \<in> verts g" for v
  proof
    assume "v = t"
    then show "\<forall>w. (v, w) \<notin> arcs g"
      using between_arcs [OF assms] between_facts(3,9) [OF assms] g(3) two_terminal_facts(5) [OF between_facts(1) [OF assms]]
      by (metis SigmaD1 subsetD)
  next
    assume none: "\<forall>w. (v, w) \<notin> arcs g"
    have "v \<noteq> s" using none between_facts(4) [OF assms] g(4) by fastforce
    show "v = t"
    proof (rule ccontr)
      assume "v \<noteq> t"
      then obtain h a b where p: "(h, a, b) \<in> P" "v \<in> verts h" using v g(2) \<open>v \<noteq> s\<close> by auto
      then show False
        using none two_terminal_ends(2) [OF between_facts(1) [OF assms p(1)] p(2)] between_facts(5,6) [OF assms p(1)] by blast
    qed
  qed
  show ?thesis unfolding two_terminal_def
    by (intro conjI ballI g(1) between_ranked [OF assms] src snk) (simp_all add: g(2))
qed

lemma between_walk_out:
  assumes "between g s t P" "(h, a, b) \<in> P" "walk (arcs g) p" "hd p \<in> verts h" "last p = t"
  shows "\<exists>q. p = q @ [t] \<and> walk (arcs h) q \<and> last q = b"
  using assms(3-5)
proof (induction p)
  case (Cons u p)
  have ne: "p \<noteq> []" using Cons.prems(2,3) between_facts(3) [OF assms(1,2)] by auto
  then have step: "(u, hd p) \<in> arcs g" "walk (arcs g) p" "last p = t" using Cons.prems by (auto simp: walk_Cons)
  have u: "u \<in> verts h" using Cons.prems(2) by simp
  consider "(u, hd p) \<in> arcs h" | "u = b" "hd p = t" using between_step [OF assms(1,2) u step(1)] by blast
  then show ?case
  proof cases
    case 1
    then have "hd p \<in> verts h" using two_terminal_facts(5) [OF between_facts(1) [OF assms(1,2)]] by auto
    then obtain q where q: "p = q @ [t]" "walk (arcs h) q" "last q = b" using Cons.IH [OF step(2) _ step(3)] by blast
    then have "q \<noteq> []" by auto
    then have "u # p = (u # q) @ [t] \<and> walk (arcs h) (u # q) \<and> last (u # q) = b" using q 1 by (simp add: walk_Cons)
    then show ?thesis by blast
  next
    case 2
    have "tl p = []"
    proof (rule ccontr)
      assume "tl p \<noteq> []"
      then have "(t, hd (tl p)) \<in> arcs g" using step(2) 2(2) ne by (metis list.collapse walk_Cons)
      then show False using two_terminal_ends(4) [OF between_two_terminal [OF assms(1)]] by blast
    qed
    then have "p = [t]" using ne 2(2) by (metis list.collapse)
    then have "u # p = [u] @ [t] \<and> walk (arcs h) [u] \<and> last [u] = b" using 2(1) by simp
    then show ?thesis by blast
  qed
qed simp

lemma between_walks:
  assumes "between g s t P"
  shows "st_walks g s t = {s # p @ [t] |p h a b. (h, a, b) \<in> P \<and> p \<in> st_walks h a b}"
proof (intro set_eqI iffI)
  fix p assume p: "p \<in> st_walks g s t"
  then obtain q where q: "p = s # q" by (cases p) (auto simp: st_walks_def)
  have "s \<noteq> t" using assms by (simp add: between_def)
  then have ne: "q \<noteq> []" using p q by (auto simp: st_walks_def)
  then have w: "(s, hd q) \<in> arcs g" "walk (arcs g) q" "last q = t" using p q by (auto simp: st_walks_def walk_Cons)
  obtain h a b where P: "(h, a, b) \<in> P" and "hd q = a"
    using between_arcs [OF assms w(1)] between_facts(2,9) [OF assms] two_terminal_facts(5) [OF between_facts(1) [OF assms]]
    by (metis SigmaD1 subsetD)
  moreover obtain r where "q = r @ [t]" "walk (arcs h) r" "last r = b"
    using between_walk_out [OF assms P w(2) _ w(3)] between_facts(8) [OF assms P] \<open>hd q = a\<close> by blast
  moreover from this have "hd r = a" using \<open>hd q = a\<close> by (auto dest: walk_nonempty)
  ultimately show "p \<in> {s # p @ [t] |p h a b. (h, a, b) \<in> P \<and> p \<in> st_walks h a b}" by (auto simp: q st_walks_def)
next
  fix p assume "p \<in> {s # p @ [t] |p h a b. (h, a, b) \<in> P \<and> p \<in> st_walks h a b}"
  then obtain q h a b where q: "p = s # q @ [t]" "(h, a, b) \<in> P" "q \<in> st_walks h a b" by blast
  then have "walk (arcs g) q" "q \<noteq> []" "hd q = a" "last q = b"
    using walk_mono [OF _ between_facts(6) [OF assms q(2)]] by (auto simp: st_walks_def dest: walk_nonempty)
  then show "p \<in> st_walks g s t"
    using between_facts(4,5) [OF assms q(2)] by (simp add: q(1) st_walks_def walk_Cons walk_append)
qed

end
