(* ===== verification/LadderGraph.thy ===== *)
theory LadderGraph
  imports TwoTerminal VizExpr
begin

text \<open>
  From a ladder expression to the graph that is drawn: \<^verbatim>\<open>data/viz-expr-to-lir.ts\<close>, the nodes of
  \<^verbatim>\<open>layout-ir/ladder-graph/ladder.svelte.ts\<close> and \<^verbatim>\<open>ladder-dag-helpers.ts\<close>, all in
  \<^verbatim>\<open>ts-shared/l4-ladder-visualizer/src/lib\<close>.

  A node of the drawing has an id that is counted up and is stored in a context. Positions and sizes, which belong to
  the displayer, are left out. \<^verbatim>\<open>None\<close> is a throw: a conjunction without parts (\<^verbatim>\<open>reduce\<close> of an empty array) or a sort
  that finds a cycle.
\<close>

subsection \<open>Nodes and their context\<close>

datatype lir_node =
    UBoolVarNode irexpr
  | TrueExprNode "name option"
  | FalseExprNode "name option"
  | InertExprNode string inert_context
  | NotStartNode dag irexpr
  | NotEndNode
  | SourceNoAnnoNode
  | SourceWithOrAnnoNode string
  | SinkNode
  | AppNode name "lir_id list"
  | LinPathNode dag
  | PathsListNode "lir_id list"
  | LadderGraphNode

record lir =
  counter :: nat
  context_of :: "lir_id \<rightharpoonup> lir_node"

record ladder_env =
  andEdgeLabel :: string
  orBundlingNodeLabel :: string

definition new_node :: "lir_node \<Rightarrow> lir \<Rightarrow> lir_id \<times> lir" where
  "new_node n l = (counter l, l\<lparr>counter := counter l + 1, context_of := (context_of l)(counter l \<mapsto> n)\<rparr>)"

definition isUBoolVarNode :: "lir_node option \<Rightarrow> bool" where
  "isUBoolVarNode n \<longleftrightarrow> (case n of Some (UBoolVarNode _) \<Rightarrow> True | _ \<Rightarrow> False)"

definition isNotStartNode :: "lir_node option \<Rightarrow> bool" where
  "isNotStartNode n \<longleftrightarrow> (case n of Some (NotStartNode _ _) \<Rightarrow> True | _ \<Rightarrow> False)"

definition isAppNode :: "lir_node option \<Rightarrow> bool" where
  "isAppNode n \<longleftrightarrow> (case n of Some (AppNode _ _) \<Rightarrow> True | _ \<Rightarrow> False)"

definition isSourceWithOrAnnoNode :: "lir_node option \<Rightarrow> bool" where
  "isSourceWithOrAnnoNode n \<longleftrightarrow> (case n of Some (SourceWithOrAnnoNode _) \<Rightarrow> True | _ \<Rightarrow> False)"

definition isBundlingNode :: "lir_node option \<Rightarrow> bool" where
  "isBundlingNode n \<longleftrightarrow> (case n of Some (SourceWithOrAnnoNode _) \<Rightarrow> True | Some SourceNoAnnoNode \<Rightarrow> True | Some SinkNode \<Rightarrow> True | _ \<Rightarrow> False)"

definition isSelectableNode :: "lir_node option \<Rightarrow> bool" where
  "isSelectableNode n \<longleftrightarrow>
     (case n of
        Some (UBoolVarNode _) \<Rightarrow> True | Some (AppNode _ _) \<Rightarrow> True | Some (NotStartNode _ _) \<Rightarrow> True | Some NotEndNode \<Rightarrow> True
      | Some (TrueExprNode _) \<Rightarrow> True | Some (FalseExprNode _) \<Rightarrow> True | Some (InertExprNode _ _) \<Rightarrow> True | _ \<Rightarrow> False)"

text \<open>A graph is in negation normal form when every \<^verbatim>\<open>NOT\<close> is of one variable.\<close>

definition isNnf :: "(lir_id \<rightharpoonup> lir_node) \<Rightarrow> dag \<Rightarrow> bool" where
  "isNnf context g =
     list_all (\<lambda>v. case context v of
        Some (NotStartNode negand _) \<Rightarrow> (case shape negand of Vertex x \<Rightarrow> isUBoolVarNode (context x) | _ \<Rightarrow> False)
      | _ \<Rightarrow> True) (getVertices g)"

subsection \<open>The transformation\<close>

record to_lir =
  lir_graph :: dag
  vizExprToLir :: "(irid, dag) jsmap"
  noBundlingGraph :: dag

type_synonym viz_env = "(irid, dag) jsmap"

definition combineEnvs :: "viz_env list \<Rightarrow> viz_env" where
  "combineEnvs envs = fold (\<lambda>(i, g). jm_set i g) (concat envs) []"

definition sandwich :: "sorter \<Rightarrow> dag \<Rightarrow> dag \<Rightarrow> dag \<Rightarrow> dag option" where
  "sandwich ts overallSource overallSink middle =
     (case (getSource ts middle, getSink ts middle) of
        (Some s, Some t) \<Rightarrow> Some (overlay (overlay (connect overallSource s) middle) (connect t overallSink))
      | _ \<Rightarrow> None)"

definition makeAndGraph :: "sorter \<Rightarrow> dag option \<Rightarrow> dag \<Rightarrow> dag option" where
  "makeAndGraph ts acc right =
     (case acc of
        None \<Rightarrow> None
      | Some left \<Rightarrow>
          (case (getSource ts right, getSink ts left) of
             (Some rightSource, Some leftSink) \<Rightarrow> Some (overlay (overlay (connect leftSink rightSource) left) right)
           | _ \<Rightarrow> None))"

text \<open>\<^verbatim>\<open>reduce\<close> without an initial value throws on an empty array.\<close>

definition and_graph :: "sorter \<Rightarrow> dag list \<Rightarrow> dag option" where
  "and_graph ts gs = (case gs of [] \<Rightarrow> None | g # rest \<Rightarrow> foldl (makeAndGraph ts) (Some g) rest)"

definition and_flat :: "dag list \<Rightarrow> dag option" where
  "and_flat gs = (case gs of [] \<Rightarrow> None | g # rest \<Rightarrow> Some (foldl connect g rest))"

definition or_graph :: "sorter \<Rightarrow> dag \<Rightarrow> dag \<Rightarrow> dag list \<Rightarrow> dag option" where
  "or_graph ts overallSource overallSink gs =
     (case (those (map (getSource ts) gs), those (map (getSink ts) gs)) of
        (Some ss, Some ks) \<Rightarrow>
          Some (overlays (overallSource # map (connect overallSource) ss @ gs @ map (\<lambda>k. connect k overallSink) ks))
      | _ \<Rightarrow> None)"

definition vertex_value :: "dag \<Rightarrow> lir_id list" where
  "vertex_value g = (case shape g of Vertex v \<Rightarrow> [v] | _ \<Rightarrow> [])"

definition is_var :: "irexpr \<Rightarrow> bool" where
  "is_var e = (case e of UBoolVar _ _ _ _ _ \<Rightarrow> True | _ \<Rightarrow> False)"

definition leaf_lir :: "viz_env \<Rightarrow> irid \<Rightarrow> lir_node \<Rightarrow> lir \<Rightarrow> to_lir \<times> lir" where
  "leaf_lir veToLir i n l =
     (let (v, l') = new_node n l
      in (\<lparr>lir_graph = vertex v, vizExprToLir = jm_set i (vertex v) veToLir, noBundlingGraph = vertex v\<rparr>, l'))"

definition not_lir :: "sorter \<Rightarrow> viz_env \<Rightarrow> irexpr \<Rightarrow> to_lir \<Rightarrow> lir \<Rightarrow> (to_lir \<times> lir) option" where
  "not_lir ts veToLir neg negand l =
     (let (s, l1) = new_node (NotStartNode (lir_graph negand) neg) l; (t, l2) = new_node NotEndNode l1
      in case (sandwich ts (vertex s) (vertex t) (lir_graph negand), sandwich ts (vertex s) (vertex t) (noBundlingGraph negand)) of
           (Some notGraph, Some flat) \<Rightarrow>
             Some (\<lparr>lir_graph = notGraph,
               vizExprToLir = jm_set (expr_id neg) notGraph (combineEnvs [veToLir, vizExprToLir negand]),
               noBundlingGraph = flat\<rparr>, l2)
         | _ \<Rightarrow> None)"

definition and_lir :: "sorter \<Rightarrow> viz_env \<Rightarrow> irid \<Rightarrow> to_lir list \<Rightarrow> to_lir option" where
  "and_lir ts veToLir i rs =
     (case (and_graph ts (map lir_graph rs), and_flat (map noBundlingGraph rs)) of
        (Some g, Some flat) \<Rightarrow>
          Some \<lparr>lir_graph = g, vizExprToLir = jm_set i g (combineEnvs (veToLir # map vizExprToLir rs)), noBundlingGraph = flat\<rparr>
      | _ \<Rightarrow> None)"

definition or_lir :: "sorter \<Rightarrow> ladder_env \<Rightarrow> viz_env \<Rightarrow> irid \<Rightarrow> to_lir list \<Rightarrow> lir \<Rightarrow> (to_lir \<times> lir) option" where
  "or_lir ts env veToLir i rs l =
     (let (s, l1) = new_node (SourceWithOrAnnoNode (orBundlingNodeLabel env)) l; (t, l2) = new_node SinkNode l1
      in case or_graph ts (vertex s) (vertex t) (map lir_graph rs) of
           None \<Rightarrow> None
         | Some g \<Rightarrow>
             Some (\<lparr>lir_graph = g, vizExprToLir = jm_set i g (combineEnvs (veToLir # map vizExprToLir rs)),
               noBundlingGraph = overlays (map noBundlingGraph rs)\<rparr>, l2))"

definition app_lir :: "viz_env \<Rightarrow> irid \<Rightarrow> name \<Rightarrow> to_lir list \<Rightarrow> lir \<Rightarrow> to_lir \<times> lir" where
  "app_lir veToLir i fnName rs l =
     (let (v, l') = new_node (AppNode fnName (concat (map (vertex_value \<circ> lir_graph) rs))) l
      in (\<lparr>lir_graph = vertex v, vizExprToLir = jm_set i (vertex v) (combineEnvs (veToLir # map vizExprToLir rs)),
           noBundlingGraph = vertex v\<rparr>, l'))"

lemma size_filter_list: "size_list f (filter P xs) \<le> size_list f xs"
  by (induction xs) auto

function (sequential) transform :: "sorter \<Rightarrow> ladder_env \<Rightarrow> viz_env \<Rightarrow> irexpr \<Rightarrow> lir \<Rightarrow> (to_lir \<times> lir) option"
  and transform_list :: "sorter \<Rightarrow> ladder_env \<Rightarrow> viz_env \<Rightarrow> irexpr list \<Rightarrow> lir \<Rightarrow> (to_lir list \<times> lir) option" where
  "transform ts env veToLir (UBoolVar i nm v c a) l = Some (leaf_lir veToLir i (UBoolVarNode (UBoolVar i nm v c a)) l)"
| "transform ts env veToLir (TrueE i nm) l = Some (leaf_lir veToLir i (TrueExprNode nm) l)"
| "transform ts env veToLir (FalseE i nm) l = Some (leaf_lir veToLir i (FalseExprNode nm) l)"
| "transform ts env veToLir (InertE i t c) l = Some (leaf_lir veToLir i (InertExprNode t c) l)"
| "transform ts env veToLir (Not i n) l =
     (case transform ts env veToLir n l of None \<Rightarrow> None | Some (negand, l') \<Rightarrow> not_lir ts veToLir (Not i n) negand l')"
| "transform ts env veToLir (And i as) l =
     (case transform_list ts env veToLir as l of
        None \<Rightarrow> None
      | Some (rs, l') \<Rightarrow> map_option (\<lambda>r. (r, l')) (and_lir ts veToLir i rs))"
| "transform ts env veToLir (Or i as) l =
     (case transform_list ts env veToLir as l of None \<Rightarrow> None | Some (rs, l') \<Rightarrow> or_lir ts env veToLir i rs l')"
| "transform ts env veToLir (App i nm as a) l =
     (case transform_list ts env veToLir (filter is_var as) l of
        None \<Rightarrow> None
      | Some (rs, l') \<Rightarrow> Some (app_lir veToLir i nm rs l'))"
| "transform_list ts env veToLir [] l = Some ([], l)"
| "transform_list ts env veToLir (e # es) l =
     (case transform ts env veToLir e l of
        None \<Rightarrow> None
      | Some (r, l') \<Rightarrow> map_option (\<lambda>(rs, l''). (r # rs, l'')) (transform_list ts env veToLir es l'))"
  by pat_completeness auto

termination
  by (relation "measure (case_sum (\<lambda>(_, _, _, e, _). size e) (\<lambda>(_, _, _, es, _). size_list size es))")
    (use size_filter_list [of size is_var] in \<open>auto simp: less_Suc_eq_le intro: order.trans\<close>)

subsection \<open>Current through the ladder\<close>

text \<open>
  How a ladder is read: current flows along a path if every node on it lets it pass. A variable or a literal does when
  it is true, the node after the start of a \<^verbatim>\<open>NOT\<close> when it is not, and the nodes that only bundle always do.
\<close>

fun node_true :: "(unique \<Rightarrow> bool) \<Rightarrow> lir_node option \<Rightarrow> bool" where
  "node_true \<rho> (Some (UBoolVarNode e)) \<longleftrightarrow> holds (\<lambda>_ _. False) \<rho> e"
| "node_true \<rho> (Some (FalseExprNode _)) \<longleftrightarrow> False"
| "node_true \<rho> (Some (InertExprNode _ c)) \<longleftrightarrow> c = InertAnd"
| "node_true \<rho> n \<longleftrightarrow> True"

fun conducts :: "(lir_id \<rightharpoonup> lir_node) \<Rightarrow> (unique \<Rightarrow> bool) \<Rightarrow> lir_id list \<Rightarrow> bool" where
  "conducts C \<rho> [] \<longleftrightarrow> True"
| "conducts C \<rho> (v # p) \<longleftrightarrow>
     (if isNotStartNode (C v) then (case p of x # e # q \<Rightarrow> \<not> node_true \<rho> (C x) \<and> conducts C \<rho> q | _ \<Rightarrow> False)
      else node_true \<rho> (C v) \<and> conducts C \<rho> p)"

text \<open>A graph between two ends conducts exactly when \<open>b\<close>, if its context is in negation normal form.\<close>

definition good :: "(lir_id \<rightharpoonup> lir_node) \<Rightarrow> (unique \<Rightarrow> bool) \<Rightarrow> dag \<Rightarrow> lir_id \<Rightarrow> lir_id \<Rightarrow> bool \<Rightarrow> bool" where
  "good C \<rho> g s t b \<longleftrightarrow> (isNnf C g \<longrightarrow>
     (\<forall>p\<in>st_walks g s t. \<forall>q. conducts C \<rho> (p @ q) = (conducts C \<rho> p \<and> conducts C \<rho> q)) \<and>
     (\<exists>p\<in>st_walks g s t. conducts C \<rho> p) = b)"

lemma isNnf_verts:
  "isNnf C g \<longleftrightarrow> (\<forall>v\<in>verts g. case C v of
      Some (NotStartNode negand _) \<Rightarrow> (case shape negand of Vertex x \<Rightarrow> isUBoolVarNode (C x) | _ \<Rightarrow> False)
    | _ \<Rightarrow> True)"
  by (simp add: isNnf_def list_all_iff getVertices_def verts_def)

lemma isNnf_mono: "isNnf C g \<Longrightarrow> verts h \<subseteq> verts g \<Longrightarrow> isNnf C h"
  unfolding isNnf_verts by blast

lemma good_series:
  assumes "two_terminal g s t" "two_terminal h s' t'" "verts g \<inter> verts h = {}" "good C \<rho> g s t a" "good C \<rho> h s' t' b"
  shows "good C \<rho> (series g h t s') s t' (a \<and> b)"
proof -
  note sg = series_graph [OF two_terminal_facts(1) [OF assms(1)] two_terminal_facts(1) [OF assms(2)]
      two_terminal_facts(4) [OF assms(1)] two_terminal_facts(3) [OF assms(2)]]
  show ?thesis unfolding good_def
  proof
    assume "isNnf C (series g h t s')"
    then have "isNnf C g" "isNnf C h" using sg(2) by (auto elim: isNnf_mono)
    then have g: "\<And>p q. p \<in> st_walks g s t \<Longrightarrow> conducts C \<rho> (p @ q) = (conducts C \<rho> p \<and> conducts C \<rho> q)"
        "(\<exists>p\<in>st_walks g s t. conducts C \<rho> p) = a"
      and h: "\<And>p q. p \<in> st_walks h s' t' \<Longrightarrow> conducts C \<rho> (p @ q) = (conducts C \<rho> p \<and> conducts C \<rho> q)"
        "(\<exists>p\<in>st_walks h s' t'. conducts C \<rho> p) = b"
      using assms(4,5) by (simp_all add: good_def)
    have "conducts C \<rho> (p @ q) = (conducts C \<rho> p \<and> conducts C \<rho> q)" if "p \<in> st_walks (series g h t s') s t'" for p q
      using that unfolding series_walks [OF assms(1-3)] by (auto simp: g(1) h(1))
    moreover have "(\<exists>p\<in>st_walks (series g h t s') s t'. conducts C \<rho> p) \<longleftrightarrow>
        (\<exists>p\<in>st_walks g s t. \<exists>q\<in>st_walks h s' t'. conducts C \<rho> (p @ q))"
      unfolding series_walks [OF assms(1-3)] by blast
    ultimately show "(\<forall>p\<in>st_walks (series g h t s') s t'. \<forall>q. conducts C \<rho> (p @ q) = (conducts C \<rho> p \<and> conducts C \<rho> q)) \<and>
        (\<exists>p\<in>st_walks (series g h t s') s t'. conducts C \<rho> p) = (a \<and> b)"
      unfolding g(2) [symmetric] h(2) [symmetric] using g(1) by blast
  qed
qed

lemma good_between:
  assumes "between g s t P" "\<And>h a b. (h, a, b) \<in> P \<Longrightarrow> good C \<rho> h a b (f (h, a, b))"
    and "\<not> isNotStartNode (C s)" "node_true \<rho> (C s)" "\<not> isNotStartNode (C t)" "node_true \<rho> (C t)"
  shows "good C \<rho> g s t (\<exists>p\<in>P. f p)"
  unfolding good_def
proof
  assume nnf: "isNnf C g"
  have part: "(\<forall>p\<in>st_walks h a b. \<forall>q. conducts C \<rho> (p @ q) = (conducts C \<rho> p \<and> conducts C \<rho> q)) \<and>
      (\<exists>p\<in>st_walks h a b. conducts C \<rho> p) = f (h, a, b)" if "(h, a, b) \<in> P" for h a b
    using assms(2) [OF that] isNnf_mono [OF nnf between_facts(7) [OF assms(1) that]] by (simp add: good_def)
  have 1: "conducts C \<rho> (s # (p @ [t]) @ q) = (conducts C \<rho> p \<and> conducts C \<rho> q)"
    if "(h, a, b) \<in> P" "p \<in> st_walks h a b" for h a b p q
    using part [OF that(1)] that(2) assms(3-6) by simp
  have 2: "conducts C \<rho> (s # p @ [t]) = conducts C \<rho> p" if "(h, a, b) \<in> P" "p \<in> st_walks h a b" for h a b p
    using 1 [OF that, of "[]"] by simp
  show "(\<forall>p\<in>st_walks g s t. \<forall>q. conducts C \<rho> (p @ q) = (conducts C \<rho> p \<and> conducts C \<rho> q)) \<and>
      (\<exists>p\<in>st_walks g s t. conducts C \<rho> p) = (\<exists>p\<in>P. f p)"
  proof (intro conjI ballI allI)
    fix p q assume "p \<in> st_walks g s t"
    then obtain r h a b where "p = s # r @ [t]" "(h, a, b) \<in> P" "r \<in> st_walks h a b"
      unfolding between_walks [OF assms(1)] by blast
    then show "conducts C \<rho> (p @ q) = (conducts C \<rho> p \<and> conducts C \<rho> q)" using 1 2 by auto
  next
    have "(\<exists>p\<in>st_walks g s t. conducts C \<rho> p) \<longleftrightarrow> (\<exists>(h, a, b)\<in>P. \<exists>p\<in>st_walks h a b. conducts C \<rho> p)"
      unfolding between_walks [OF assms(1)] using 2 by fast
    then show "(\<exists>p\<in>st_walks g s t. conducts C \<rho> p) = (\<exists>p\<in>P. f p)" using part by fast
  qed
qed

text \<open>
  What the user can select of a path are its nodes that do not only bundle. They are a walk of the graph without
  bundling nodes, and tell the path.
\<close>

definition key :: "(lir_id \<rightharpoonup> lir_node) \<Rightarrow> lir_id list \<Rightarrow> lir_id list" where
  "key C p = filter (\<lambda>v. isSelectableNode (C v)) p"

definition keyed :: "(lir_id \<rightharpoonup> lir_node) \<Rightarrow> dag \<Rightarrow> dag \<Rightarrow> bool" where
  "keyed C flat g \<longleftrightarrow> (\<forall>s t. two_terminal g s t \<and> isNnf C g \<longrightarrow>
     (\<forall>p\<in>st_walks g s t. walk (arcs flat) (key C p) \<and> set (key C p) \<subseteq> verts flat) \<and> inj_on (key C) (st_walks g s t))"

lemma two_terminal_unique: "two_terminal g s t \<Longrightarrow> two_terminal g s' t' \<Longrightarrow> s' = s \<and> t' = t"
  unfolding two_terminal_def by metis

lemma key_append [simp]: "key C (p @ q) = key C p @ key C q"
  by (simp add: key_def)

lemma st_walks_verts: "two_terminal g s t \<Longrightarrow> p \<in> st_walks g s t \<Longrightarrow> set p \<subseteq> verts g"
  using walk_verts [of g p] two_terminal_facts(1,3) [of g s t] by (auto simp: st_walks_def)

lemma key_part:
  assumes "set q \<subseteq> V" "set r \<inter> V = {}"
  shows "filter (\<lambda>v. v \<in> V) (key C q @ key C r) = key C q" "filter (\<lambda>v. v \<notin> V) (key C q @ key C r) = key C r"
proof -
  have "filter (\<lambda>v. v \<in> V) (key C q) = key C q" "filter (\<lambda>v. v \<notin> V) (key C q) = []" using assms(1)
    by (auto simp: key_def filter_empty_conv intro!: filter_cong)
  moreover have "filter (\<lambda>v. v \<in> V) (key C r) = []" "filter (\<lambda>v. v \<notin> V) (key C r) = key C r" using assms(2)
    by (auto simp: key_def filter_empty_conv intro!: filter_cong)
  ultimately show "filter (\<lambda>v. v \<in> V) (key C q @ key C r) = key C q" "filter (\<lambda>v. v \<notin> V) (key C q @ key C r) = key C r"
    by simp_all
qed

lemma keyed_series:
  assumes "two_terminal g s t" "two_terminal h s' t'" "verts g \<inter> verts h = {}" "keyed C f g" "keyed C f' h" "graph_ok f'"
  shows "keyed C (connect f f') (series g h t s')"
  unfolding keyed_def
proof (intro allI impI)
  note sg = series_graph [OF two_terminal_facts(1) [OF assms(1)] two_terminal_facts(1) [OF assms(2)]
      two_terminal_facts(4) [OF assms(1)] two_terminal_facts(3) [OF assms(2)]]
  fix a b assume ab: "two_terminal (series g h t s') a b \<and> isNnf C (series g h t s')"
  then have ends: "a = s" "b = t'" using two_terminal_unique [OF series_two_terminal [OF assms(1-3)]] by blast+
  have "isNnf C g" "isNnf C h" using ab sg(2) by (auto elim: isNnf_mono)
  then have g: "\<And>p. p \<in> st_walks g s t \<Longrightarrow> walk (arcs f) (key C p) \<and> set (key C p) \<subseteq> verts f" "inj_on (key C) (st_walks g s t)"
    and h: "\<And>p. p \<in> st_walks h s' t' \<Longrightarrow> walk (arcs f') (key C p) \<and> set (key C p) \<subseteq> verts f'" "inj_on (key C) (st_walks h s' t')"
    using assms(1,2,4,5) unfolding keyed_def by blast+
  have walks: "walk (arcs (connect f f')) (key C (q @ r)) \<and> set (key C (q @ r)) \<subseteq> verts (connect f f')"
    if qr: "q \<in> st_walks g s t" "r \<in> st_walks h s' t'" for q r
  proof -
    have w: "walk (arcs f) (key C q)" "walk (arcs f') (key C r)" "set (key C q) \<subseteq> verts f" "set (key C r) \<subseteq> verts f'"
      using g(1) [OF qr(1)] h(1) [OF qr(2)] by simp_all
    then have "key C q \<noteq> []" "key C r \<noteq> []" by (auto dest: walk_nonempty)
    moreover from this have "(last (key C q), hd (key C r)) \<in> verts f \<times> verts f'" using w(3,4) by auto
    moreover have "walk (arcs (connect f f')) (key C q)" "walk (arcs (connect f f')) (key C r)"
      using w(1,2) assms(6) by (auto elim: walk_mono)
    ultimately show ?thesis using w(3,4) assms(6) by (auto simp: walk_append)
  qed
  have "q = q' \<and> r = r'"
    if qr: "q \<in> st_walks g s t" "r \<in> st_walks h s' t'" "q' \<in> st_walks g s t" "r' \<in> st_walks h s' t'"
      "key C (q @ r) = key C (q' @ r')" for q r q' r'
  proof -
    have V: "set q \<subseteq> verts g" "set q' \<subseteq> verts g" "set r \<inter> verts g = {}" "set r' \<inter> verts g = {}"
      using qr(1-4) st_walks_verts [OF assms(1)] st_walks_verts [OF assms(2)] assms(3) by blast+
    have "key C q = key C q'" "key C r = key C r'"
      using qr(5) key_part [OF V(1,3), of C] key_part [OF V(2,4), of C] by simp_all
    then show ?thesis using g(2) h(2) qr(1-4) by (auto dest: inj_onD)
  qed
  then have "inj_on (key C) (st_walks (series g h t s') s t')"
    unfolding series_walks [OF assms(1-3)] inj_on_def by blast
  moreover have "\<forall>p\<in>st_walks (series g h t s') s t'. walk (arcs (connect f f')) (key C p) \<and> set (key C p) \<subseteq> verts (connect f f')"
    unfolding series_walks [OF assms(1-3)] using walks by blast
  ultimately show "(\<forall>p\<in>st_walks (series g h t s') a b. walk (arcs (connect f f')) (key C p) \<and>
      set (key C p) \<subseteq> verts (connect f f')) \<and> inj_on (key C) (st_walks (series g h t s') a b)"
    unfolding ends by blast
qed

lemma keyed_between:
  assumes "between g s t P" "\<not> isSelectableNode (C s)" "\<not> isSelectableNode (C t)" "graph_ok f"
    and "\<And>h a b. (h, a, b) \<in> P \<Longrightarrow> \<exists>f'. keyed C f' h \<and> arcs f' \<subseteq> arcs f \<and> verts f' \<subseteq> verts f"
  shows "keyed C f g"
  unfolding keyed_def
proof (intro allI impI)
  fix a b assume ab: "two_terminal g a b \<and> isNnf C g"
  then have ends: "a = s" "b = t" using two_terminal_unique [OF between_two_terminal [OF assms(1)]] by blast+
  have part: "(\<forall>p\<in>st_walks h a b. walk (arcs f) (key C p) \<and> set (key C p) \<subseteq> verts f) \<and> inj_on (key C) (st_walks h a b)"
    if P: "(h, a, b) \<in> P" for h a b
  proof -
    obtain f' where f': "keyed C f' h" "arcs f' \<subseteq> arcs f" "verts f' \<subseteq> verts f" using assms(5) [OF P] by blast
    have "isNnf C h" using ab isNnf_mono between_facts(7) [OF assms(1) P] by blast
    then show ?thesis using f' between_facts(1) [OF assms(1) P] walk_mono [OF _ f'(2)] unfolding keyed_def by blast
  qed
  have k: "key C (s # p @ [t]) = key C p" for p using assms(2,3) by (simp add: key_def)
  have "p = p'" if p: "(h, a, b) \<in> P" "p \<in> st_walks h a b" "(h', a', b') \<in> P" "p' \<in> st_walks h' a' b'" "key C p = key C p'"
    for h a b h' a' b' p p'
  proof -
    have "walk (arcs f) (key C p)" using part [OF p(1)] p(2) by blast
    then obtain v where v: "v \<in> set (key C p)" using walk_nonempty by (cases "key C p") auto
    have "v \<in> set p" using v by (simp add: key_def)
    moreover have "v \<in> set p'" using v unfolding p(5) by (simp add: key_def)
    ultimately have "v \<in> set p" "v \<in> set p'" .
    then have "v \<in> verts h" "v \<in> verts h'"
      using p st_walks_verts between_facts(1) [OF assms(1)] by blast+
    then have "(h, a, b) = (h', a', b')" using between_same_part [OF assms(1) p(1,3)] by simp
    then show ?thesis using part [OF p(1)] p(2,4,5) by (auto dest: inj_onD)
  qed
  then have "inj_on (key C) (st_walks g s t)" unfolding between_walks [OF assms(1)] inj_on_def using k by auto
  moreover have "\<forall>p\<in>st_walks g s t. walk (arcs f) (key C p) \<and> set (key C p) \<subseteq> verts f"
    unfolding between_walks [OF assms(1)] using part k by fastforce
  ultimately show "(\<forall>p\<in>st_walks g a b. walk (arcs f) (key C p) \<and> set (key C p) \<subseteq> verts f) \<and> inj_on (key C) (st_walks g a b)"
    unfolding ends by blast
qed

lemma keyed_vertex:
  assumes "isSelectableNode (C v)"
  shows "keyed C (vertex v) (vertex v)"
  unfolding keyed_def
proof (intro allI impI)
  fix s t assume "two_terminal (vertex v) s t \<and> isNnf C (vertex v)"
  then have "s = v" "t = v" using two_terminal_unique [OF two_terminal_vertex [of v]] by blast+
  then show "(\<forall>p\<in>st_walks (vertex v) s t. walk (arcs (vertex v)) (key C p) \<and> set (key C p) \<subseteq> verts (vertex v)) \<and>
      inj_on (key C) (st_walks (vertex v) s t)"
    using assms by (simp add: st_walks_vertex key_def)
qed

lemma keyed_not:
  assumes "between g s t {(h, a, b)}" "C s = Some (NotStartNode h e)" "isSelectableNode (C t)"
    and "\<And>x. shape h = Vertex x \<Longrightarrow> h = vertex x"
    and "\<And>x. verts h = {x} \<Longrightarrow> (s, x) \<in> arcs f \<and> (x, t) \<in> arcs f" "verts f = {s, t} \<union> verts f'" "verts f' \<subseteq> verts h"
      "graph_ok f"
  shows "keyed C f g"
  unfolding keyed_def
proof (intro allI impI)
  fix c d assume ab: "two_terminal g c d \<and> isNnf C g"
  then have ends: "c = s" "d = t" using two_terminal_unique [OF between_two_terminal [OF assms(1)]] by blast+
  have "s \<in> verts g" using two_terminal_facts(3) [OF between_two_terminal [OF assms(1)]] .
  then obtain x where x: "shape h = Vertex x" "isUBoolVarNode (C x)"
    using ab assms(2) by (auto simp: isNnf_verts split: shape.splits)
  then have h: "h = vertex x" using assms(4) by blast
  then have "a = x" "b = x" using between_facts(8,9) [OF assms(1)] by auto
  then have walks: "st_walks g s t = {[s, x, t]}"
    using between_walks [OF assms(1)] by (auto simp: h st_walks_vertex)
  have sel: "isSelectableNode (C s)" "isSelectableNode (C x)"
    using assms(2) x(2) by (auto simp: isSelectableNode_def isUBoolVarNode_def split: option.splits lir_node.splits)
  have e: "(s, x) \<in> arcs f" "(x, t) \<in> arcs f" using assms(5) [of x] by (simp_all add: h)
  then have "x \<in> verts f" using arcs_verts [OF assms(8)] by blast
  then show "(\<forall>p\<in>st_walks g c d. walk (arcs f) (key C p) \<and> set (key C p) \<subseteq> verts f) \<and> inj_on (key C) (st_walks g c d)"
    unfolding ends walks using e sel assms(3,6) by (simp add: key_def)
qed

text \<open>
  A graph lies inside another: a path of the outer one that conducts avoids it or runs through it from end to end on
  a path that conducts.
\<close>

definition inner :: "(lir_id \<rightharpoonup> lir_node) \<Rightarrow> (unique \<Rightarrow> bool) \<Rightarrow> dag \<Rightarrow> dag \<Rightarrow> bool" where
  "inner C \<rho> h g \<longleftrightarrow> verts h \<subseteq> verts g \<and> arcs h \<subseteq> arcs g \<and> (\<exists>a b. two_terminal h a b) \<and>
     (\<forall>s t a b. two_terminal g s t \<and> two_terminal h a b \<and> isNnf C g \<longrightarrow>
       (\<forall>p\<in>st_walks g s t. conducts C \<rho> p \<and> set p \<inter> verts h \<noteq> {} \<longrightarrow>
          (\<exists>q\<in>st_walks h a b. conducts C \<rho> q \<and> set q = set p \<inter> verts h)))"

lemma inner_refl: "two_terminal g s t \<Longrightarrow> inner C \<rho> g g"
  unfolding inner_def using st_walks_verts two_terminal_unique by (metis inf.absorb1 order_refl)

lemma inner_trans:
  assumes "inner C \<rho> k h" "inner C \<rho> h g"
  shows "inner C \<rho> k g"
  unfolding inner_def
proof (intro conjI allI impI ballI)
  have sub: "verts k \<subseteq> verts h" "verts h \<subseteq> verts g" using assms by (simp_all add: inner_def)
  then show "verts k \<subseteq> verts g" by blast
  show "arcs k \<subseteq> arcs g" using assms unfolding inner_def by blast
  show "\<exists>a b. two_terminal k a b" using assms(1) by (simp add: inner_def)
  fix s t a b p
  assume tt: "two_terminal g s t \<and> two_terminal k a b \<and> isNnf C g" and p: "p \<in> st_walks g s t"
    and live: "conducts C \<rho> p \<and> set p \<inter> verts k \<noteq> {}"
  obtain c d where h: "two_terminal h c d" using assms(2) by (auto simp: inner_def)
  have "set p \<inter> verts h \<noteq> {}" using live sub by blast
  then obtain q where q: "q \<in> st_walks h c d" "conducts C \<rho> q" "set q = set p \<inter> verts h"
    using assms(2) tt h p live unfolding inner_def by blast
  moreover have "isNnf C h" using tt sub(2) isNnf_mono by blast
  moreover have "set q \<inter> verts k = set p \<inter> verts k" using q(3) sub(1) by blast
  ultimately show "\<exists>q\<in>st_walks k a b. conducts C \<rho> q \<and> set q = set p \<inter> verts k"
    using assms(1) tt h live unfolding inner_def by metis
qed

lemma inner_series:
  assumes "two_terminal g s t" "two_terminal h s' t'" "verts g \<inter> verts h = {}" "good C \<rho> g s t u"
  shows "inner C \<rho> g (series g h t s')" "inner C \<rho> h (series g h t s')"
proof -
  let ?k = "series g h t s'"
  note sg = series_graph [OF two_terminal_facts(1) [OF assms(1)] two_terminal_facts(1) [OF assms(2)]
      two_terminal_facts(4) [OF assms(1)] two_terminal_facts(3) [OF assms(2)]]
  have split: "\<exists>q\<in>st_walks g s t. \<exists>r\<in>st_walks h s' t'. conducts C \<rho> q \<and> conducts C \<rho> r \<and>
      set q = set p \<inter> verts g \<and> set r = set p \<inter> verts h"
    if k: "two_terminal ?k c d" "isNnf C ?k" "p \<in> st_walks ?k c d" "conducts C \<rho> p" for c d p
  proof -
    have "c = s" "d = t'" using two_terminal_unique [OF series_two_terminal [OF assms(1-3)] k(1)] by blast+
    then have "p \<in> st_walks ?k s t'" using k(3) by simp
    then obtain q r where qr: "p = q @ r" "q \<in> st_walks g s t" "r \<in> st_walks h s' t'"
      unfolding series_walks [OF assms(1-3)] by blast
    have "isNnf C g" using k(2) sg(2) by (auto elim: isNnf_mono)
    then have "conducts C \<rho> (q @ r) = (conducts C \<rho> q \<and> conducts C \<rho> r)" using assms(4) qr(2) by (simp add: good_def)
    then have live: "conducts C \<rho> q" "conducts C \<rho> r" using k(4) by (simp_all add: qr(1))
    have V: "set q \<subseteq> verts g" "set r \<subseteq> verts h"
      using st_walks_verts [OF assms(1) qr(2)] st_walks_verts [OF assms(2) qr(3)] .
    have "set q = set p \<inter> verts g" "set r = set p \<inter> verts h" unfolding qr(1) set_append using V assms(3) by blast+
    then show ?thesis using qr(2,3) live by blast
  qed
  show "inner C \<rho> g ?k" unfolding inner_def
    using split assms(1) two_terminal_unique [OF assms(1)] sg(2,3) by (metis Un_upper1 subset_insertI2)
  show "inner C \<rho> h ?k" unfolding inner_def
    using split assms(2) two_terminal_unique [OF assms(2)] sg(2,3) by (metis Un_upper2 subset_insertI2)
qed

lemma inner_between:
  assumes "between g s t P" "(h, a, b) \<in> P"
    and "\<not> isNotStartNode (C s)" "\<not> isNotStartNode (C t)" "\<And>h a b. (h, a, b) \<in> P \<Longrightarrow> \<exists>u. good C \<rho> h a b u"
  shows "inner C \<rho> h g"
  unfolding inner_def
proof (intro conjI allI impI ballI)
  show "verts h \<subseteq> verts g" by (rule between_facts(7) [OF assms(1,2)])
  show "arcs h \<subseteq> arcs g" by (rule between_facts(6) [OF assms(1,2)])
  show "\<exists>a b. two_terminal h a b" using between_facts(1) [OF assms(1,2)] by blast
  fix c d a' b' p
  assume tt: "two_terminal g c d \<and> two_terminal h a' b' \<and> isNnf C g" and p: "p \<in> st_walks g c d"
    and live: "conducts C \<rho> p \<and> set p \<inter> verts h \<noteq> {}"
  have ends: "c = s" "d = t" "a' = a" "b' = b"
    using tt two_terminal_unique [OF between_two_terminal [OF assms(1)]] two_terminal_unique [OF between_facts(1) [OF assms(1,2)]]
    by blast+
  obtain q h' a'' b'' where q: "p = s # q @ [t]" "(h', a'', b'') \<in> P" "q \<in> st_walks h' a'' b''"
    using p unfolding ends(1,2) between_walks [OF assms(1)] by blast
  have qv: "set q \<subseteq> verts h'" using q(3) st_walks_verts between_facts(1) [OF assms(1) q(2)] by blast
  have "isNnf C h'" using tt isNnf_mono between_facts(7) [OF assms(1) q(2)] by blast
  then have "conducts C \<rho> (q @ [t]) = (conducts C \<rho> q \<and> conducts C \<rho> [t])"
    using assms(5) [OF q(2)] q(3) by (auto simp: good_def)
  then have live_q: "conducts C \<rho> q" using live assms(3) by (simp add: q(1))
  have out: "s \<notin> verts h" "t \<notin> verts h" using between_facts(2,3) [OF assms(1,2)] .
  then obtain v where "v \<in> set q" "v \<in> verts h" using live by (auto simp: q(1))
  then have "(h', a'', b'') = (h, a, b)" using between_same_part [OF assms(1) q(2) assms(2), of v] qv by auto
  then have "q \<in> st_walks h a b" "set q \<subseteq> verts h" using q(3) qv by simp_all
  moreover from this(2) have "set q = set p \<inter> verts h" unfolding q(1) using out by auto
  ultimately show "\<exists>q\<in>st_walks h a' b'. conducts C \<rho> q \<and> set q = set p \<inter> verts h"
    unfolding ends using live_q by blast
qed

lemma good_not:
  assumes "between g s t {(h, a, b)}" "good C \<rho> h a b v" "C s = Some (NotStartNode h e)"
    and "\<And>x. shape h = Vertex x \<Longrightarrow> h = vertex x"
  shows "good C \<rho> g s t (\<not> v)"
  unfolding good_def
proof
  assume nnf: "isNnf C g"
  have "s \<in> verts g" using two_terminal_facts(3) [OF between_two_terminal [OF assms(1)]] .
  then obtain x where x: "shape h = Vertex x" "isUBoolVarNode (C x)"
    using nnf assms(3) by (auto simp: isNnf_verts split: shape.splits)
  then have h: "h = vertex x" using assms(4) by blast
  then have "a = x" "b = x" using between_facts(8,9) [OF assms(1)] by auto
  then have walks: "st_walks g s t = {[s, x, t]}"
    using between_walks [OF assms(1)] by (auto simp: h st_walks_vertex)
  have "\<not> isNotStartNode (C x)" using x(2) by (auto simp: isUBoolVarNode_def isNotStartNode_def split: option.splits lir_node.splits)
  moreover have "isNnf C h" using isNnf_mono [OF nnf between_facts(7) [OF assms(1)]] by simp
  ultimately have "node_true \<rho> (C x) = v"
    using assms(2) by (simp add: good_def h \<open>a = x\<close> \<open>b = x\<close> st_walks_vertex)
  then show "(\<forall>p\<in>st_walks g s t. \<forall>q. conducts C \<rho> (p @ q) = (conducts C \<rho> p \<and> conducts C \<rho> q)) \<and>
      (\<exists>p\<in>st_walks g s t. conducts C \<rho> p) = (\<not> v)"
    by (simp add: walks assms(3) isNotStartNode_def)
qed

subsection \<open>What the transformation makes\<close>

text \<open>Expressions whose conjunctions and disjunctions have parts.\<close>

fun drawable :: "irexpr \<Rightarrow> bool" where
  "drawable (And _ as) \<longleftrightarrow> as \<noteq> [] \<and> (\<forall>a\<in>set as. drawable a)"
| "drawable (Or _ as) \<longleftrightarrow> as \<noteq> [] \<and> (\<forall>a\<in>set as. drawable a)"
| "drawable (Not _ n) \<longleftrightarrow> drawable n"
| "drawable _ \<longleftrightarrow> True"

abbreviation truth :: "(unique \<Rightarrow> bool) \<Rightarrow> irexpr \<Rightarrow> bool" where
  "truth \<equiv> holds (\<lambda>_ _. False)"

definition grown :: "lir \<Rightarrow> lir \<Rightarrow> bool" where
  "grown l l' \<longleftrightarrow> counter l \<le> counter l' \<and> (\<forall>n<counter l. context_of l' n = context_of l n)"

definition agrees :: "(lir_id \<rightharpoonup> lir_node) \<Rightarrow> lir \<Rightarrow> lir \<Rightarrow> bool" where
  "agrees C l l' \<longleftrightarrow> (\<forall>n. counter l \<le> n \<and> n < counter l' \<longrightarrow> C n = context_of l' n)"

definition flat_ok :: "dag \<Rightarrow> dag \<Rightarrow> bool" where
  "flat_ok flat g \<longleftrightarrow> built flat \<and> ranked (arcs flat) \<and> verts flat \<noteq> {} \<and> verts flat \<subseteq> verts g"

definition selectable :: "(lir_id \<rightharpoonup> lir_node) \<Rightarrow> dag \<Rightarrow> bool" where
  "selectable C flat \<longleftrightarrow> (\<forall>v\<in>verts flat. isSelectableNode (C v))"

definition keyed_from :: "lir \<Rightarrow> lir \<Rightarrow> dag \<Rightarrow> dag \<Rightarrow> bool" where
  "keyed_from l l' flat g \<longleftrightarrow> (\<forall>C. agrees C l l' \<longrightarrow> keyed C flat g \<and> selectable C flat)"

definition holds_inner :: "irexpr \<Rightarrow> lir \<Rightarrow> lir \<Rightarrow> dag set \<Rightarrow> dag \<Rightarrow> bool" where
  "holds_inner e l l' hs g \<longleftrightarrow> (\<not> has_app e \<longrightarrow> (\<forall>C \<rho>. agrees C l l' \<longrightarrow> (\<forall>h\<in>hs. inner C \<rho> h g)))"

definition drawn :: "irexpr \<Rightarrow> lir \<Rightarrow> to_lir \<Rightarrow> lir \<Rightarrow> bool" where
  "drawn e l r l' \<longleftrightarrow> grown l l' \<and> verts (lir_graph r) \<subseteq> {counter l..<counter l'} \<and>
     (\<forall>x. shape (lir_graph r) = Vertex x \<longrightarrow> lir_graph r = vertex x) \<and>
     flat_ok (noBundlingGraph r) (lir_graph r) \<and> keyed_from l l' (noBundlingGraph r) (lir_graph r) \<and>
     (\<exists>s t. two_terminal (lir_graph r) s t \<and>
        (\<not> has_app e \<longrightarrow> (\<forall>C \<rho>. agrees C l l' \<longrightarrow> good C \<rho> (lir_graph r) s t (truth \<rho> e))))"

fun drawn_list :: "irexpr list \<Rightarrow> lir \<Rightarrow> to_lir list \<Rightarrow> lir \<Rightarrow> bool" where
  "drawn_list [] l rs l' \<longleftrightarrow> rs = [] \<and> l' = l"
| "drawn_list (e # es) l rs l' \<longleftrightarrow> (\<exists>r rs' l1. rs = r # rs' \<and> drawn e l r l1 \<and> drawn_list es l1 rs' l')"

lemma grown_refl [simp]: "grown l l"
  by (simp add: grown_def)

lemma grown_trans: "grown l l' \<Longrightarrow> grown l' l'' \<Longrightarrow> grown l l''"
  by (auto simp: grown_def)

lemma drawn_grown: "drawn e l r l' \<Longrightarrow> grown l l'"
  by (simp add: drawn_def)

lemma drawn_list_grown: "drawn_list es l rs l' \<Longrightarrow> grown l l'"
  by (induction es arbitrary: l rs) (auto intro: grown_trans dest: drawn_grown)

lemma agrees_part: "agrees C l l' \<Longrightarrow> grown l a \<Longrightarrow> grown a b \<Longrightarrow> grown b l' \<Longrightarrow> agrees C a b"
  by (simp add: agrees_def grown_def)

lemma new_node_grown:
  assumes "new_node n l = (v, l')"
  shows "v = counter l" "grown l l'" "counter l' = Suc (counter l)" "context_of l' (counter l) = Some n"
  using assms by (auto simp: new_node_def grown_def)

lemma transform_list_drawn:
  assumes "\<And>a l. a \<in> set es \<Longrightarrow> \<exists>r l'. transform ts env ve a l = Some (r, l') \<and> drawn a l r l'"
  shows "\<exists>rs l'. transform_list ts env ve es l = Some (rs, l') \<and> drawn_list es l rs l'"
  using assms
proof (induction es arbitrary: l)
  case (Cons e es)
  obtain r l1 where 1: "transform ts env ve e l = Some (r, l1)" "drawn e l r l1" using Cons.prems by fastforce
  obtain rs l2 where 2: "transform_list ts env ve es l1 = Some (rs, l2)" "drawn_list es l1 rs l2"
    using Cons.IH [of l1] Cons.prems by fastforce
  show ?case using 1 2 by auto
qed simp

text \<open>A graph with its ends, made between two states, that conducts when the expression holds.\<close>

definition is_part :: "irexpr \<Rightarrow> lir \<Rightarrow> lir \<Rightarrow> part \<Rightarrow> bool" where
  "is_part e l l' x \<longleftrightarrow> two_terminal (fst x) (fst (snd x)) (snd (snd x)) \<and> verts (fst x) \<subseteq> {counter l..<counter l'} \<and>
     (\<not> has_app e \<longrightarrow> (\<forall>C \<rho>. agrees C l l' \<longrightarrow> good C \<rho> (fst x) (fst (snd x)) (snd (snd x)) (truth \<rho> e)))"

lemma drawn_part: "drawn e l r l' \<Longrightarrow> \<exists>s t. is_part e l l' (lir_graph r, s, t)"
  unfolding drawn_def is_part_def by auto

lemma drawnI:
  assumes "is_part e l l' (lir_graph r, s, t)" "grown l l'" "flat_ok (noBundlingGraph r) (lir_graph r)"
    and "\<And>x. shape (lir_graph r) = Vertex x \<Longrightarrow> lir_graph r = vertex x"
    and "keyed_from l l' (noBundlingGraph r) (lir_graph r)"
  shows "drawn e l r l'"
  using assms unfolding drawn_def is_part_def by auto

lemma is_part_wider:
  assumes "is_part e a b x" "grown l a" "grown a b" "grown b l'"
  shows "is_part e l l' x"
proof -
  have "agrees C a b" if "agrees C l l'" for C using agrees_part [OF that assms(2-4)] .
  then show ?thesis using assms by (auto simp: is_part_def grown_def)
qed

subsection \<open>Leaves and calls\<close>

lemma leaf_drawn:
  assumes "leaf_lir ve i n l = (r, l')" "\<not> isNotStartNode (Some n)" "\<And>\<rho>. node_true \<rho> (Some n) = truth \<rho> e"
    "isSelectableNode (Some n)"
  shows "drawn e l r l'"
proof -
  obtain v where new: "new_node n l = (v, l')"
    "r = \<lparr>lir_graph = vertex v, vizExprToLir = jm_set i (vertex v) ve, noBundlingGraph = vertex v\<rparr>"
    using assms(1) by (cases "new_node n l") (auto simp: leaf_lir_def)
  note v = new_node_grown [OF new(1)]
  have 1: "is_part e l l' (lir_graph r, v, v)"
    using assms(2,3) v by (simp add: is_part_def new(2) two_terminal_vertex good_def st_walks_vertex agrees_def)
  have 2: "grown l l'" "flat_ok (noBundlingGraph r) (lir_graph r)" using v by (simp_all add: new(2) flat_ok_def)
  have 4: "lir_graph r = vertex x" if "shape (lir_graph r) = Vertex x" for x using that by (simp add: new(2) vertex_def)
  have 5: "keyed_from l l' (noBundlingGraph r) (lir_graph r)"
    using v assms(4) by (auto simp: keyed_from_def selectable_def new(2) agrees_def intro!: keyed_vertex)
  show ?thesis by (rule drawnI [OF 1 2 4 5])
qed

lemma app_drawn:
  assumes "app_lir ve i nm rs l1 = (r, l')" "grown l l1"
  shows "drawn (App i nm as a) l r l'"
proof -
  obtain v where new: "new_node (AppNode nm (concat (map (vertex_value \<circ> lir_graph) rs))) l1 = (v, l')"
    "r = \<lparr>lir_graph = vertex v, vizExprToLir = jm_set i (vertex v) (combineEnvs (ve # map vizExprToLir rs)), noBundlingGraph = vertex v\<rparr>"
    using assms(1) by (cases "new_node (AppNode nm (concat (map (vertex_value \<circ> lir_graph) rs))) l1") (auto simp: app_lir_def)
  note v = new_node_grown [OF new(1)]
  have 1: "is_part (App i nm as a) l l' (lir_graph r, v, v)"
    using v assms(2) by (simp add: is_part_def new(2) two_terminal_vertex grown_def)
  have 2: "grown l l'" using v assms(2) by (blast intro: grown_trans)
  have 3: "flat_ok (noBundlingGraph r) (lir_graph r)" by (simp add: new(2) flat_ok_def)
  have 4: "lir_graph r = vertex x" if "shape (lir_graph r) = Vertex x" for x using that by (simp add: new(2) vertex_def)
  have 5: "keyed_from l l' (noBundlingGraph r) (lir_graph r)"
    using v assms(2)
    by (auto simp: keyed_from_def selectable_def new(2) agrees_def grown_def isSelectableNode_def intro!: keyed_vertex)
  show ?thesis by (rule drawnI [OF 1 2 3 4 5])
qed

subsection \<open>Negations\<close>

lemma sandwich_part:
  assumes "sorts ts" "two_terminal h a b" "s \<notin> verts h" "t \<notin> verts h" "s \<noteq> t"
  shows "\<exists>g. sandwich ts (vertex s) (vertex t) h = Some g \<and> between g s t {(h, a, b)} \<and> (\<forall>x. shape g \<noteq> Vertex x)"
proof -
  have g: "sandwich ts (vertex s) (vertex t) h =
      Some (overlay (overlay (connect (vertex s) (vertex a)) h) (connect (vertex b) (vertex t)))"
    using two_terminal_source [OF assms(1,2)] two_terminal_sink [OF assms(1,2)] by (simp add: sandwich_def)
  have "between (overlay (overlay (connect (vertex s) (vertex a)) h) (connect (vertex b) (vertex t))) s t {(h, a, b)}"
    using assms(2-5) two_terminal_facts(1,3,4) [OF assms(2)] by (auto simp: between_def parts_ok_def)
  then show ?thesis using g by (auto simp: overlay_def)
qed

lemma sandwich_flat:
  assumes "sorts ts" "built f" "ranked (arcs f)" "verts f \<noteq> {}" "s \<notin> verts f" "t \<notin> verts f" "s \<noteq> t"
  shows "\<exists>g. sandwich ts (vertex s) (vertex t) f = Some g \<and> built g \<and> ranked (arcs g) \<and> verts g = {s, t} \<union> verts f \<and>
    (\<exists>a\<in>verts f. \<exists>b\<in>verts f. (s, a) \<in> arcs g \<and> (b, t) \<in> arcs g)"
proof -
  note ok = built_ok [OF assms(2)]
  obtain order where order: "getTopSort ts f = Some order" "set order = verts f"
    using topSort_ordered [OF assms(1) ok ranked_acyclic [OF assms(3)]] by metis
  then have ne: "order \<noteq> []" using assms(4) by auto
  then obtain a where a: "getSource ts f = Some (vertex a)" "a \<in> verts f"
    using order by (cases order) (auto simp: getSource_def)
  have b: "getSink ts f = Some (vertex (last order))" "last order \<in> verts f"
    using order(1) ne last_in_set [OF ne] by (simp_all add: getSink_def order(2))
  define g where "g = overlay (overlay (connect (vertex s) (vertex a)) f) (connect (vertex (last order)) (vertex t))"
  have g: "built g" "verts g = {s, t} \<union> verts f" "arcs g = {} \<union> arcs f \<union> {(s, a)} \<union> {} \<union> {(last order, t)}"
    using assms(2) a(2) b(2) ok by (auto simp: g_def)
  have sub: "arcs f \<subseteq> verts f \<times> verts f" using arcs_verts [OF ok] by auto
  have "ranked ({} \<union> arcs f \<union> {(s, a)})"
    by (rule ranked_joined [where V = "{s}" and W = "verts f"]) (use assms sub a(2) in auto)
  then have "ranked (({} \<union> arcs f \<union> {(s, a)}) \<union> {} \<union> {(last order, t)})"
    by (rule ranked_joined [where V = "insert s (verts f)" and W = "{t}"]) (use assms sub a(2) b(2) in auto)
  then have "ranked (arcs g)" by (simp only: g(3))
  moreover have "sandwich ts (vertex s) (vertex t) f = Some g" by (simp add: sandwich_def a b g_def)
  ultimately show ?thesis using g(1,2) a(2) b(2) by (auto simp: g(3))
qed

lemma not_drawn:
  assumes "sorts ts" "drawn n l r l1"
  shows "\<exists>r' l'. not_lir ts ve (Not i n) r l1 = Some (r', l') \<and> drawn (Not i n) l r' l' \<and> grown l1 l' \<and>
    verts (lir_graph r) \<subseteq> verts (lir_graph r') \<and> arcs (lir_graph r) \<subseteq> arcs (lir_graph r') \<and>
    (\<forall>x. lir_graph r = vertex x \<longrightarrow> (\<exists>s. (s, x) \<in> arcs (lir_graph r') \<and> isNotStartNode (context_of l' s)))"
proof -
  obtain s l2 where s: "new_node (NotStartNode (lir_graph r) (Not i n)) l1 = (s, l2)" by fastforce
  obtain t l3 where t: "new_node NotEndNode l2 = (t, l3)" by fastforce
  note s' = new_node_grown [OF s] and t' = new_node_grown [OF t]
  obtain a b where part: "is_part n l l1 (lir_graph r, a, b)" using drawn_part [OF assms(2)] by blast
  have low: "verts (lir_graph r) \<subseteq> {counter l..<counter l1}" and tt: "two_terminal (lir_graph r) a b"
    using part by (simp_all add: is_part_def)
  have fresh: "s \<notin> verts (lir_graph r)" "t \<notin> verts (lir_graph r)" "s \<noteq> t" using low s' t' by auto
  obtain g where g: "sandwich ts (vertex s) (vertex t) (lir_graph r) = Some g" "between g s t {(lir_graph r, a, b)}"
    "\<forall>x. shape g \<noteq> Vertex x" using sandwich_part [OF assms(1) tt fresh] by blast
  have flat: "flat_ok (noBundlingGraph r) (lir_graph r)" using assms(2) by (simp add: drawn_def)
  obtain f where f: "sandwich ts (vertex s) (vertex t) (noBundlingGraph r) = Some f" "built f" "ranked (arcs f)"
    "verts f = {s, t} \<union> verts (noBundlingGraph r)"
    "\<exists>c\<in>verts (noBundlingGraph r). \<exists>d\<in>verts (noBundlingGraph r). (s, c) \<in> arcs f \<and> (d, t) \<in> arcs f"
    using sandwich_flat [OF assms(1), of "noBundlingGraph r" s t] flat fresh by (auto simp: flat_ok_def)
  have vg: "verts g = {s, t} \<union> verts (lir_graph r)" using g(2) by (simp add: between_def)
  have grown: "grown l l1" "grown l1 l3" "grown l l3"
    using drawn_grown [OF assms(2)] s' t' by (blast intro: grown_trans)+
  have "is_part (Not i n) l l3 (g, s, t)"
    unfolding is_part_def
  proof (intro conjI impI allI)
    show "two_terminal (fst (g, s, t)) (fst (snd (g, s, t))) (snd (snd (g, s, t)))"
      using between_two_terminal [OF g(2)] by simp
    show "verts (fst (g, s, t)) \<subseteq> {counter l..<counter l3}" using vg low s' t' grown by (auto simp: grown_def)
    fix C \<rho> assume app: "\<not> has_app (Not i n)" and C: "agrees C l l3"
    have "agrees C l l1" using agrees_part [OF C grown_refl grown(1,2)] .
    then have "good C \<rho> (lir_graph r) a b (truth \<rho> n)" using part app by (simp add: is_part_def)
    moreover have "C s = context_of l3 s" using C s' t' grown(1) by (auto simp: agrees_def grown_def)
    then have "C s = Some (NotStartNode (lir_graph r) (Not i n))" using s' t' by (simp add: grown_def)
    moreover have "lir_graph r = vertex x" if "shape (lir_graph r) = Vertex x" for x
      using that assms(2) by (simp add: drawn_def)
    ultimately show "good C \<rho> (fst (g, s, t)) (fst (snd (g, s, t))) (snd (snd (g, s, t))) (truth \<rho> (Not i n))"
      using good_not [OF g(2)] by simp
  qed
  moreover have "keyed_from l l3 f g"
    unfolding keyed_from_def
  proof (intro allI impI)
    fix C assume C: "agrees C l l3"
    have "C s = context_of l3 s" "C t = context_of l3 t" using C s' t' grown(1) by (auto simp: agrees_def grown_def)
    then have ends: "C s = Some (NotStartNode (lir_graph r) (Not i n))" "isSelectableNode (C t)"
      using s' t' by (simp_all add: grown_def isSelectableNode_def)
    have "agrees C l l1" using agrees_part [OF C grown_refl grown(1,2)] .
    then have "selectable C (noBundlingGraph r)" using assms(2) by (simp add: drawn_def keyed_from_def)
    then have sel: "selectable C f" using ends f(4) by (simp add: selectable_def isSelectableNode_def)
    note ends
    moreover have "(s, x) \<in> arcs f \<and> (x, t) \<in> arcs f" if "verts (lir_graph r) = {x}" for x
    proof -
      have "verts (noBundlingGraph r) \<subseteq> {x}" using flat that by (auto simp: flat_ok_def)
      then show ?thesis using f(5) by blast
    qed
    moreover have "lir_graph r = vertex x" if "shape (lir_graph r) = Vertex x" for x
      using that assms(2) by (simp add: drawn_def)
    moreover have "verts (noBundlingGraph r) \<subseteq> verts (lir_graph r)" using flat by (simp add: flat_ok_def)
    ultimately have "keyed C f g" using f(4) built_ok [OF f(2)] by (intro keyed_not [OF g(2)])
    then show "keyed C f g \<and> selectable C f" using sel by simp
  qed
  moreover have "\<exists>s. (s, x) \<in> arcs g \<and> isNotStartNode (context_of l3 s)" if x: "lir_graph r = vertex x" for x
  proof -
    have "a = x" using between_facts(8) [OF g(2)] x by simp
    then have "(s, x) \<in> arcs g" using between_facts(4) [OF g(2)] by simp
    moreover have "isNotStartNode (context_of l3 s)" using s' t' by (simp add: grown_def isNotStartNode_def)
    ultimately show ?thesis by blast
  qed
  moreover have "verts (lir_graph r) \<subseteq> verts g" "arcs (lir_graph r) \<subseteq> arcs g" using between_facts(6,7) [OF g(2)] by simp_all
  ultimately show ?thesis using g(1,3) f grown(2,3) flat vg
    by (auto simp: not_lir_def s t flat_ok_def intro!: drawnI)
qed

subsection \<open>Conjunctions\<close>

lemma flat_connect:
  assumes "flat_ok f g" "flat_ok f' h" "verts g \<inter> verts h = {}" "verts g \<union> verts h \<subseteq> verts k"
  shows "flat_ok (connect f f') k"
proof -
  have f: "built f" "built f'" "ranked (arcs f)" "ranked (arcs f')" "verts f \<inter> verts f' = {}"
    "arcs f \<subseteq> verts f \<times> verts f" "arcs f' \<subseteq> verts f' \<times> verts f'"
    using assms(1-3) arcs_verts [OF built_ok] by (auto simp: flat_ok_def)
  have "ranked (arcs f \<union> arcs f' \<union> verts f \<times> verts f')" by (rule ranked_joined [OF f(3,4,6,7,5)]) simp
  then show ?thesis using assms f(1,2) by (auto simp: flat_ok_def)
qed

lemma and_step:
  assumes "sorts ts" "is_part (And i es) l l1 (g, s, t)" "drawn e l1 r l2" "grown l l1"
  shows "\<exists>g' t'. makeAndGraph ts (Some g) (lir_graph r) = Some g' \<and> is_part (And i (es @ [e])) l l2 (g', s, t') \<and>
    verts g' = verts g \<union> verts (lir_graph r) \<and> (\<forall>x. shape g' \<noteq> Vertex x) \<and> verts g \<inter> verts (lir_graph r) = {} \<and>
    (\<forall>f. keyed_from l l1 f g \<longrightarrow> keyed_from l l2 (connect f (noBundlingGraph r)) g') \<and>
    holds_inner (And i (es @ [e])) l l2 {g, lir_graph r} g'"
proof -
  obtain a b where part: "is_part e l1 l2 (lir_graph r, a, b)" using drawn_part [OF assms(3)] by blast
  note grown = drawn_grown [OF assms(3)]
  have tt: "two_terminal g s t" "two_terminal (lir_graph r) a b" and low: "verts g \<subseteq> {counter l..<counter l1}"
    and high: "verts (lir_graph r) \<subseteq> {counter l1..<counter l2}"
    using assms(2) part by (simp_all add: is_part_def)
  have disj: "verts g \<inter> verts (lir_graph r) = {}" using low high by fastforce
  let ?k = "series g (lir_graph r) t a"
  have vk: "verts ?k = verts g \<union> verts (lir_graph r)"
    using series_graph(2) [OF two_terminal_facts(1) [OF tt(1)] two_terminal_facts(1) [OF tt(2)]
        two_terminal_facts(4) [OF tt(1)] two_terminal_facts(3) [OF tt(2)]] .
  have "makeAndGraph ts (Some g) (lir_graph r) = Some ?k"
    using two_terminal_sink [OF assms(1) tt(1)] two_terminal_source [OF assms(1) tt(2)]
    by (simp add: makeAndGraph_def series_def)
  moreover have "is_part (And i (es @ [e])) l l2 (?k, s, b)"
    unfolding is_part_def
  proof (intro conjI impI allI)
    show "two_terminal (fst (?k, s, b)) (fst (snd (?k, s, b))) (snd (snd (?k, s, b)))"
      using series_two_terminal [OF tt disj] by simp
    show "verts (fst (?k, s, b)) \<subseteq> {counter l..<counter l2}"
      using vk low high grown assms(4) by (auto simp: grown_def)
    fix C \<rho> assume app: "\<not> has_app (And i (es @ [e]))" and C: "agrees C l l2"
    have "agrees C l l1" "agrees C l1 l2"
      using agrees_part [OF C grown_refl assms(4) grown] agrees_part [OF C assms(4) grown grown_refl] .
    then have "good C \<rho> g s t (truth \<rho> (And i es))" "good C \<rho> (lir_graph r) a b (truth \<rho> e)"
      using assms(2) part app by (simp_all add: is_part_def)
    from good_series [OF tt disj this]
    show "good C \<rho> (fst (?k, s, b)) (fst (snd (?k, s, b))) (snd (snd (?k, s, b))) (truth \<rho> (And i (es @ [e])))"
      by (simp add: ball_Un conj_commute)
  qed
  moreover have "keyed_from l l2 (connect f (noBundlingGraph r)) ?k" if f: "keyed_from l l1 f g" for f
    unfolding keyed_from_def
  proof (intro allI impI)
    fix C assume C: "agrees C l l2"
    have "agrees C l l1" "agrees C l1 l2"
      using agrees_part [OF C grown_refl assms(4) grown] agrees_part [OF C assms(4) grown grown_refl] .
    then have k: "keyed C f g" "keyed C (noBundlingGraph r) (lir_graph r)"
      and sel: "selectable C f" "selectable C (noBundlingGraph r)"
      using f assms(3) by (simp_all add: keyed_from_def drawn_def)
    have "graph_ok (noBundlingGraph r)" using assms(3) by (simp add: drawn_def flat_ok_def)
    from keyed_series [OF tt disj k this] sel
    show "keyed C (connect f (noBundlingGraph r)) ?k \<and> selectable C (connect f (noBundlingGraph r))"
      by (auto simp: selectable_def)
  qed
  moreover have "holds_inner (And i (es @ [e])) l l2 {g, lir_graph r} ?k"
    unfolding holds_inner_def
  proof (intro allI impI)
    fix C \<rho> assume app: "\<not> has_app (And i (es @ [e]))" and C: "agrees C l l2"
    have "agrees C l l1" using agrees_part [OF C grown_refl assms(4) grown] .
    then have "good C \<rho> g s t (truth \<rho> (And i es))" using assms(2) app by (simp add: is_part_def)
    from inner_series [OF tt disj this] show "\<forall>h\<in>{g, lir_graph r}. inner C \<rho> h ?k" by simp
  qed
  ultimately show ?thesis using vk disj by (auto simp: series_def overlay_def)
qed

lemma and_fold:
  assumes "sorts ts" "is_part (And i done) l l1 (g, s, t)" "drawn_list es l1 rs l2" "grown l l1" "flat_ok f g"
    and "\<And>x. shape g = Vertex x \<Longrightarrow> g = vertex x" "keyed_from l l1 f g"
  shows "\<exists>g' t'. foldl (makeAndGraph ts) (Some g) (map lir_graph rs) = Some g' \<and> is_part (And i (done @ es)) l l2 (g', s, t') \<and>
    flat_ok (foldl connect f (map noBundlingGraph rs)) g' \<and> keyed_from l l2 (foldl connect f (map noBundlingGraph rs)) g' \<and> (\<forall>x. shape g' = Vertex x \<longrightarrow> g' = vertex x) \<and>
    holds_inner (And i (done @ es)) l l2 (insert g (lir_graph ` set rs)) g'"
  using assms(2-)
proof (induction es arbitrary: "done" l1 g t rs f)
  case (Cons e es)
  then obtain r rs' l1' where rs: "rs = r # rs'" "drawn e l1 r l1'" "drawn_list es l1' rs' l2" by auto
  obtain g' t' where g': "makeAndGraph ts (Some g) (lir_graph r) = Some g'" "is_part (And i (done @ [e])) l l1' (g', s, t')"
    "verts g' = verts g \<union> verts (lir_graph r)" "\<forall>x. shape g' \<noteq> Vertex x" "verts g \<inter> verts (lir_graph r) = {}"
    "keyed_from l l1' (connect f (noBundlingGraph r)) g'" "holds_inner (And i (done @ [e])) l l1' {g, lir_graph r} g'"
    using and_step [OF assms(1) Cons.prems(1) rs(2) Cons.prems(3)] Cons.prems(6) by blast
  have "flat_ok (connect f (noBundlingGraph r)) g'"
    by (rule flat_connect [OF Cons.prems(4) _ g'(5)]) (use rs(2) g'(3) in \<open>auto simp: drawn_def\<close>)
  moreover have grown: "grown l l1'" "grown l1' l2"
    using grown_trans [OF Cons.prems(3) drawn_grown [OF rs(2)]] drawn_list_grown [OF rs(3)] .
  ultimately obtain g'' t'' where g'': "foldl (makeAndGraph ts) (Some g') (map lir_graph rs') = Some g''"
    "is_part (And i ((done @ [e]) @ es)) l l2 (g'', s, t'')"
    "flat_ok (foldl connect (connect f (noBundlingGraph r)) (map noBundlingGraph rs')) g''"
    "keyed_from l l2 (foldl connect (connect f (noBundlingGraph r)) (map noBundlingGraph rs')) g''"
    "\<forall>x. shape g'' = Vertex x \<longrightarrow> g'' = vertex x"
    "holds_inner (And i ((done @ [e]) @ es)) l l2 (insert g' (lir_graph ` set rs')) g''"
    using Cons.IH [OF g'(2) rs(3), of "connect f (noBundlingGraph r)"] g'(4,6) by blast
  have "holds_inner (And i (done @ e # es)) l l2 (insert g (lir_graph ` set rs)) g''"
    unfolding holds_inner_def
  proof (intro allI impI)
    fix C \<rho> assume app: "\<not> has_app (And i (done @ e # es))" and C: "agrees C l l2"
    have "inner C \<rho> g g'" "inner C \<rho> (lir_graph r) g'"
      using g'(7) app agrees_part [OF C grown_refl grown] by (simp_all add: holds_inner_def)
    moreover have "\<forall>h\<in>insert g' (lir_graph ` set rs'). inner C \<rho> h g''"
      using g''(6) app C by (auto simp: holds_inner_def)
    ultimately show "\<forall>h\<in>insert g (lir_graph ` set rs). inner C \<rho> h g''"
      using inner_trans [of C \<rho> _ g' g''] by (auto simp: rs(1))
  qed
  then show ?case using g'(1) g''(1-5) by (auto simp: rs(1))
next
  case Nil
  then have "two_terminal g s t" by (simp add: is_part_def)
  then show ?case using Nil inner_refl by (auto simp: holds_inner_def)
qed

lemma and_drawn:
  assumes "sorts ts" "drawn_list es l rs l'" "es \<noteq> []"
  shows "\<exists>r. and_lir ts ve i rs = Some r \<and> drawn (And i es) l r l' \<and>
    holds_inner (And i es) l l' (lir_graph ` set rs) (lir_graph r)"
proof -
  obtain e es' where es: "es = e # es'" using assms(3) by (cases es) auto
  then obtain r rs' l1 where rs: "rs = r # rs'" "drawn e l r l1" "drawn_list es' l1 rs' l'" using assms(2) by auto
  obtain s t where part: "is_part e l l1 (lir_graph r, s, t)" using drawn_part [OF rs(2)] by blast
  then have part': "is_part (And i [e]) l l1 (lir_graph r, s, t)" by (simp add: is_part_def)
  have r: "flat_ok (noBundlingGraph r) (lir_graph r)" "\<And>x. shape (lir_graph r) = Vertex x \<Longrightarrow> lir_graph r = vertex x"
      "keyed_from l l1 (noBundlingGraph r) (lir_graph r)"
    using rs(2) by (simp_all add: drawn_def)
  obtain g' t' where g': "foldl (makeAndGraph ts) (Some (lir_graph r)) (map lir_graph rs') = Some g'"
    "is_part (And i ([e] @ es')) l l' (g', s, t')"
    "flat_ok (foldl connect (noBundlingGraph r) (map noBundlingGraph rs')) g'"
    "keyed_from l l' (foldl connect (noBundlingGraph r) (map noBundlingGraph rs')) g'" "\<forall>x. shape g' = Vertex x \<longrightarrow> g' = vertex x"
    "holds_inner (And i ([e] @ es')) l l' (insert (lir_graph r) (lir_graph ` set rs')) g'"
    using and_fold [OF assms(1) part' rs(3) drawn_grown [OF rs(2)] r] by blast
  have "grown l l'" using drawn_list_grown [OF assms(2)] .
  then show ?thesis using g' by (auto simp: and_lir_def and_graph_def and_flat_def rs(1) es intro!: drawnI)
qed

subsection \<open>Disjunctions\<close>

lemma drawn_list_facts:
  "drawn_list es l rs l' \<Longrightarrow> r \<in> set rs \<Longrightarrow>
     flat_ok (noBundlingGraph r) (lir_graph r) \<and> verts (lir_graph r) \<subseteq> {counter l..<counter l'}"
proof (induction es arbitrary: l rs)
  case (Cons e es)
  then obtain r1 rs' l1 where rs: "rs = r1 # rs'" "drawn e l r1 l1" "drawn_list es l1 rs' l'" by auto
  have "grown l l1" "grown l1 l'" using drawn_grown [OF rs(2)] drawn_list_grown [OF rs(3)] .
  then show ?case using Cons.IH [OF rs(3)] Cons.prems(2) rs(2) by (fastforce simp: rs(1) drawn_def grown_def)
qed simp

lemma flat_within:
  assumes "flat_ok f g" "verts g \<subseteq> V"
  shows "arcs f \<subseteq> V \<times> V"
proof
  fix e assume e: "e \<in> arcs f"
  have "graph_ok f" "verts f \<subseteq> V" using assms built_ok by (auto simp: flat_ok_def)
  then show "e \<in> V \<times> V" using e arcs_verts [of f "fst e" "snd e"] by (cases e) auto
qed

lemma ranked_flats:
  "drawn_list es l rs l' \<Longrightarrow> ranked (\<Union>r\<in>set rs. arcs (noBundlingGraph r))"
proof (induction es arbitrary: l rs)
  case (Cons e es)
  then obtain r rs' l1 where rs: "rs = r # rs'" "drawn e l r l1" "drawn_list es l1 rs' l'" by auto
  have r: "flat_ok (noBundlingGraph r) (lir_graph r)" "verts (lir_graph r) \<subseteq> {counter l..<counter l1}"
    using rs(2) by (simp_all add: drawn_def)
  have "ranked (arcs (noBundlingGraph r) \<union> (\<Union>r\<in>set rs'. arcs (noBundlingGraph r)))"
  proof (rule ranked_disjoint [OF _ Cons.IH [OF rs(3)] flat_within [OF r]])
    show "ranked (arcs (noBundlingGraph r))" using r(1) by (simp add: flat_ok_def)
    show "(\<Union>r\<in>set rs'. arcs (noBundlingGraph r)) \<subseteq> {counter l1..<counter l'} \<times> {counter l1..<counter l'}"
    proof (rule UN_least)
      fix x assume "x \<in> set rs'"
      from drawn_list_facts [OF rs(3) this]
      show "arcs (noBundlingGraph x) \<subseteq> {counter l1..<counter l'} \<times> {counter l1..<counter l'}"
        using flat_within by blast
    qed
  qed auto
  then show ?case by (simp add: rs(1))
qed simp

lemma flat_overlays:
  assumes "drawn_list es l rs l'" "es \<noteq> []" "(\<Union>r\<in>set rs. verts (lir_graph r)) \<subseteq> verts g"
  shows "flat_ok (overlays (map noBundlingGraph rs)) g"
proof -
  have flats: "\<And>r. r \<in> set rs \<Longrightarrow> flat_ok (noBundlingGraph r) (lir_graph r)" using drawn_list_facts [OF assms(1)] by blast
  obtain r where r: "r \<in> set rs" using assms(1,2) by (cases es; cases rs) auto
  have "\<forall>h\<in>set (map noBundlingGraph rs). graph_ok h" using flats by (simp add: flat_ok_def)
  note ov = overlays_ok [OF this]
  have "verts (noBundlingGraph r) \<noteq> {}" using flats [OF r] by (simp add: flat_ok_def)
  then have "verts (overlays (map noBundlingGraph rs)) \<noteq> {}" using r by (auto simp: ov(2))
  moreover have "verts (noBundlingGraph x) \<subseteq> verts g" if "x \<in> set rs" for x
    using flats [OF that] assms(3) that by (auto simp: flat_ok_def)
  then have "verts (overlays (map noBundlingGraph rs)) \<subseteq> verts g" by (auto simp: ov(2))
  moreover have "built (overlays (map noBundlingGraph rs))"
    using flats by (auto simp: overlays_def built_overlays flat_ok_def)
  ultimately show ?thesis using ov(3) ranked_flats [OF assms(1)] by (simp add: flat_ok_def)
qed

lemma list_all2_right: "list_all2 P xs ys \<Longrightarrow> y \<in> set ys \<Longrightarrow> \<exists>x\<in>set xs. P x y"
  by (induction rule: list_all2_induct) auto

text \<open>The parts of a disjunction.\<close>

lemma drawn_parts:
  assumes "drawn_list es l rs l'"
  shows "\<exists>ps. list_all2 (\<lambda>r p. fst p = lir_graph r) rs ps \<and> list_all2 (\<lambda>e p. is_part e l l' p) es ps \<and>
    (\<forall>x\<in>set ps. \<forall>y\<in>set ps. x \<noteq> y \<longrightarrow> verts (fst x) \<inter> verts (fst y) = {})"
  using assms
proof (induction es arbitrary: l rs)
  case (Cons e es)
  then obtain r rs' l1 where rs: "rs = r # rs'" "drawn e l r l1" "drawn_list es l1 rs' l'" by auto
  obtain s t where part: "is_part e l l1 (lir_graph r, s, t)" using drawn_part [OF rs(2)] by blast
  obtain ps where ps: "list_all2 (\<lambda>r p. fst p = lir_graph r) rs' ps" "list_all2 (\<lambda>e p. is_part e l1 l' p) es ps"
    "\<forall>x\<in>set ps. \<forall>y\<in>set ps. x \<noteq> y \<longrightarrow> verts (fst x) \<inter> verts (fst y) = {}" using Cons.IH [OF rs(3)] by blast
  have grown: "grown l l1" "grown l1 l'" using drawn_grown [OF rs(2)] drawn_list_grown [OF rs(3)] .
  have "list_all2 (\<lambda>e p. is_part e l l' p) es ps"
    using ps(2) by (rule list_all2_mono) (rule is_part_wider [OF _ grown grown_refl])
  moreover have "is_part e l l' (lir_graph r, s, t)" by (rule is_part_wider [OF part grown_refl grown])
  moreover have "verts (lir_graph r) \<inter> verts (fst y) = {}" if "y \<in> set ps" for y
  proof -
    from list_all2_right [OF ps(2) that] obtain e' where "is_part e' l1 l' y" by blast
    then have "verts (fst y) \<subseteq> {counter l1..<counter l'}" by (simp add: is_part_def)
    moreover have "verts (lir_graph r) \<subseteq> {counter l..<counter l1}" using part by (simp add: is_part_def)
    ultimately show ?thesis by fastforce
  qed
  ultimately show ?case using ps(1,3)
    by (intro exI [of _ "(lir_graph r, s, t) # ps"]) (auto simp: rs(1) Int_commute)
qed simp

lemma or_graph_between:
  assumes "sorts ts" "ps \<noteq> []" "\<forall>p\<in>set ps. two_terminal (fst p) (fst (snd p)) (snd (snd p))"
    and "\<forall>x\<in>set ps. \<forall>y\<in>set ps. x \<noteq> y \<longrightarrow> verts (fst x) \<inter> verts (fst y) = {}"
    and "\<forall>p\<in>set ps. s \<notin> verts (fst p) \<and> t \<notin> verts (fst p)" "s \<noteq> t"
  shows "\<exists>g. or_graph ts (vertex s) (vertex t) (map fst ps) = Some g \<and> between g s t (set ps) \<and> (\<forall>x. shape g \<noteq> Vertex x)"
proof -
  let ?parts = "vertex s # map (\<lambda>p. connect (vertex s) (vertex (fst (snd p)))) ps @ map fst ps @
    map (\<lambda>p. connect (vertex (snd (snd p))) (vertex t)) ps"
  have "those (map (\<lambda>p. getSource ts (fst p)) ps) = Some (map (\<lambda>p. vertex (fst (snd p))) ps)"
    "those (map (\<lambda>p. getSink ts (fst p)) ps) = Some (map (\<lambda>p. vertex (snd (snd p))) ps)"
    using assms(3) two_terminal_source [OF assms(1)] two_terminal_sink [OF assms(1)]
    by (auto intro!: those_map_get)
  then have g: "or_graph ts (vertex s) (vertex t) (map fst ps) = Some (overlays ?parts)"
    by (simp add: or_graph_def comp_def)
  have ok: "\<forall>p\<in>set ps. graph_ok (fst p) \<and> fst (snd p) \<in> verts (fst p) \<and> snd (snd p) \<in> verts (fst p)"
    using assms(3) two_terminal_facts(1,3,4) by blast
  then have "\<forall>h\<in>set ?parts. graph_ok h" by auto
  note ov = overlays_ok [OF this]
  have "verts (overlays ?parts) = {s, t} \<union> (\<Union>p\<in>set ps. verts (fst p))"
    unfolding ov(2) using ok assms(2) by (auto simp: neq_Nil_conv)
  moreover have "arcs (overlays ?parts) = (\<Union>p\<in>set ps. {(s, fst (snd p))} \<union> arcs (fst p) \<union> {(snd (snd p), t)})"
    unfolding ov(3) by auto
  ultimately have "between (overlays ?parts) s t (set ps)"
    unfolding between_def parts_ok_def using ov(1) assms(2-6) by (simp add: case_prod_beta)
  moreover have "shape (overlays ?parts) \<noteq> Vertex x" for x
    using assms(2) by (cases ps rule: rev_cases) (simp_all add: overlays_def overlay_def)
  ultimately show ?thesis using g by blast
qed

lemma keyed_from_wider: "keyed_from a b f g \<Longrightarrow> grown l a \<Longrightarrow> grown a b \<Longrightarrow> grown b l' \<Longrightarrow> keyed_from l l' f g"
  unfolding keyed_from_def by (blast intro: agrees_part)

lemma drawn_list_keyed:
  "drawn_list es l rs l' \<Longrightarrow> r \<in> set rs \<Longrightarrow> keyed_from l l' (noBundlingGraph r) (lir_graph r)"
proof (induction es arbitrary: l rs)
  case (Cons e es)
  then obtain r1 rs' l1 where rs: "rs = r1 # rs'" "drawn e l r1 l1" "drawn_list es l1 rs' l'" by auto
  have grown: "grown l l1" "grown l1 l'" using drawn_grown [OF rs(2)] drawn_list_grown [OF rs(3)] .
  show ?case
  proof (cases "r = r1")
    case True
    then show ?thesis using rs(2) keyed_from_wider [OF _ grown_refl grown] by (simp add: drawn_def)
  next
    case False
    then have "keyed_from l1 l' (noBundlingGraph r) (lir_graph r)" using Cons.IH [OF rs(3)] Cons.prems(2) rs(1) by simp
    then show ?thesis by (rule keyed_from_wider [OF _ grown grown_refl])
  qed
qed simp

lemma or_drawn:
  assumes "sorts ts" "drawn_list es l rs l1" "es \<noteq> []"
  shows "\<exists>r l'. or_lir ts env ve i rs l1 = Some (r, l') \<and> drawn (Or i es) l r l' \<and> grown l1 l' \<and>
    holds_inner (Or i es) l l' (lir_graph ` set rs) (lir_graph r)"
proof -
  obtain s l2 where s: "new_node (SourceWithOrAnnoNode (orBundlingNodeLabel env)) l1 = (s, l2)" by fastforce
  obtain t l3 where t: "new_node SinkNode l2 = (t, l3)" by fastforce
  note s' = new_node_grown [OF s] and t' = new_node_grown [OF t]
  obtain ps where ps: "list_all2 (\<lambda>r p. fst p = lir_graph r) rs ps" "list_all2 (\<lambda>e p. is_part e l l1 p) es ps"
    "\<forall>x\<in>set ps. \<forall>y\<in>set ps. x \<noteq> y \<longrightarrow> verts (fst x) \<inter> verts (fst y) = {}" using drawn_parts [OF assms(2)] by blast
  have graphs: "map lir_graph rs = map fst ps" using ps(1) by (induction rule: list_all2_induct) simp_all
  have ne: "ps \<noteq> []" using ps(2) assms(3) by auto
  have part: "\<exists>e\<in>set es. is_part e l l1 p" if "p \<in> set ps" for p
    by (rule list_all2_right [OF ps(2) that])
  have tt: "\<forall>p\<in>set ps. two_terminal (fst p) (fst (snd p)) (snd (snd p))"
    and low: "\<forall>p\<in>set ps. verts (fst p) \<subseteq> {counter l..<counter l1}"
    using part unfolding is_part_def by blast+
  have out: "n \<notin> verts (fst p)" if "p \<in> set ps" "counter l1 \<le> n" for p n
    using bspec [OF low that(1)] that(2) by (meson atLeastLessThan_iff not_le subsetD)
  have "counter l1 \<le> s" "counter l1 \<le> t" and st: "s \<noteq> t" using s'(1,3) t'(1) by simp_all
  then have fresh: "\<forall>p\<in>set ps. s \<notin> verts (fst p) \<and> t \<notin> verts (fst p)" using out by blast
  obtain g where g: "or_graph ts (vertex s) (vertex t) (map lir_graph rs) = Some g" "between g s t (set ps)"
    "\<forall>x. shape g \<noteq> Vertex x" using or_graph_between [OF assms(1) ne tt ps(3) fresh st] by (auto simp: graphs)
  have vg: "verts g = {s, t} \<union> (\<Union>p\<in>set ps. verts (fst p))" using g(2) by (simp add: between_def case_prod_beta)
  have grown: "grown l l1" "grown l1 l3" "grown l l3"
    using drawn_list_grown [OF assms(2)] s'(2) t'(2) by (blast intro: grown_trans)+
  have "is_part (Or i es) l l3 (g, s, t)"
    unfolding is_part_def
  proof (intro conjI impI allI)
    show "two_terminal (fst (g, s, t)) (fst (snd (g, s, t))) (snd (snd (g, s, t)))"
      using between_two_terminal [OF g(2)] by simp
    show "verts (fst (g, s, t)) \<subseteq> {counter l..<counter l3}" using vg low s' t' grown by (fastforce simp: grown_def)
    fix C \<rho> assume app: "\<not> has_app (Or i es)" and C: "agrees C l l3"
    have "C s = context_of l3 s" "C t = context_of l3 t" using C s' t' grown(1) by (auto simp: agrees_def grown_def)
    then have ends: "\<not> isNotStartNode (C s)" "node_true \<rho> (C s)" "\<not> isNotStartNode (C t)" "node_true \<rho> (C t)"
      using s' t' by (simp_all add: grown_def isNotStartNode_def)
    have C1: "agrees C l l1" using agrees_part [OF C grown_refl grown(1,2)] .
    define f where "f p \<longleftrightarrow> (\<exists>q\<in>st_walks (fst p) (fst (snd p)) (snd (snd p)). conducts C \<rho> q)" for p
    have each: "good C \<rho> (fst p) (fst (snd p)) (snd (snd p)) (truth \<rho> e)" if "is_part e l l1 p" "e \<in> set es" for e p
      using that app C1 by (auto simp: is_part_def)
    have *: "list_all2 (\<lambda>e p. good C \<rho> (fst p) (fst (snd p)) (snd (snd p)) (truth \<rho> e)) es ps"
      using ps(2) each by (simp add: list_all2_conv_all_nth)
    show "good C \<rho> (fst (g, s, t)) (fst (snd (g, s, t))) (snd (snd (g, s, t))) (truth \<rho> (Or i es))"
    proof (cases "isNnf C g")
      case True
      have nnf: "isNnf C (fst p)" if "p \<in> set ps" for p
        using isNnf_mono [OF True] vg that by blast
      have f: "f p = truth \<rho> e" if "good C \<rho> (fst p) (fst (snd p)) (snd (snd p)) (truth \<rho> e)" "p \<in> set ps" for p e
        using that nnf by (simp add: good_def f_def)
      have "good C \<rho> h a b (\<exists>q\<in>st_walks h a b. conducts C \<rho> q)" if "(h, a, b) \<in> set ps" for h a b
        using part [OF that] each nnf [OF that] by (fastforce simp: good_def)
      then have "good C \<rho> g s t (\<exists>p\<in>set ps. f p)"
        using good_between [OF g(2) _ ends, of f] by (simp add: f_def)
      moreover have "(\<exists>p\<in>set ps. f p) \<longleftrightarrow> (\<exists>e\<in>set es. truth \<rho> e)"
        using * f by (induction rule: list_all2_induct) auto
      ultimately show ?thesis by (simp add: case_prod_beta)
    qed (simp add: good_def)
  qed
  moreover have "holds_inner (Or i es) l l3 (lir_graph ` set rs) g"
    unfolding holds_inner_def
  proof (intro allI impI ballI)
    fix C \<rho> h assume app: "\<not> has_app (Or i es)" and C: "agrees C l l3" and h: "h \<in> lir_graph ` set rs"
    have "C s = context_of l3 s" "C t = context_of l3 t" using C s' t' grown(1) by (auto simp: agrees_def grown_def)
    then have ends: "\<not> isNotStartNode (C s)" "\<not> isNotStartNode (C t)"
      using s' t' by (simp_all add: grown_def isNotStartNode_def)
    have C1: "agrees C l l1" using agrees_part [OF C grown_refl grown(1,2)] .
    have good: "\<exists>u. good C \<rho> a b c u" if p: "(a, b, c) \<in> set ps" for a b c
    proof -
      obtain e where "e \<in> set es" "is_part e l l1 (a, b, c)" using part [OF p] by blast
      then have "good C \<rho> a b c (truth \<rho> e)" using app C1 by (simp add: is_part_def)
      then show ?thesis by blast
    qed
    have "h \<in> set (map fst ps)" using h unfolding graphs [symmetric] by simp
    then obtain a b where "(h, a, b) \<in> set ps" by auto
    from inner_between [OF g(2) this ends good] show "inner C \<rho> h g" .
  qed
  moreover have "keyed_from l l3 (overlays (map noBundlingGraph rs)) g"
    unfolding keyed_from_def
  proof (intro allI impI)
    fix C assume C: "agrees C l l3"
    have "C s = context_of l3 s" "C t = context_of l3 t" using C s' t' grown(1) by (auto simp: agrees_def grown_def)
    then have ends: "\<not> isSelectableNode (C s)" "\<not> isSelectableNode (C t)"
      using s' t' by (simp_all add: grown_def isSelectableNode_def)
    have "\<forall>h\<in>set (map noBundlingGraph rs). graph_ok h"
      using drawn_list_facts [OF assms(2)] by (auto simp: flat_ok_def)
    note ov = overlays_ok [OF this]
    have low: "agrees C l l1" using agrees_part [OF C grown_refl grown(1,2)] .
    have "selectable C (overlays (map noBundlingGraph rs))"
      using drawn_list_keyed [OF assms(2)] low by (auto simp: selectable_def ov(2) keyed_from_def)
    moreover have "keyed C (overlays (map noBundlingGraph rs)) g"
    proof (rule keyed_between [OF g(2) ends ov(1)])
      fix h a b assume "(h, a, b) \<in> set ps"
      then obtain r where r: "r \<in> set rs" "h = lir_graph r" using list_all2_right [OF ps(1)] by fastforce
      have "keyed C (noBundlingGraph r) h"
        using drawn_list_keyed [OF assms(2) r(1)] low r(2) by (simp add: keyed_from_def)
      then show "\<exists>f'. keyed C f' h \<and> arcs f' \<subseteq> arcs (overlays (map noBundlingGraph rs)) \<and>
          verts f' \<subseteq> verts (overlays (map noBundlingGraph rs))"
        using r(1) by (intro exI [of _ "noBundlingGraph r"]) (auto simp: ov(2,3))
    qed
    ultimately show "keyed C (overlays (map noBundlingGraph rs)) g \<and> selectable C (overlays (map noBundlingGraph rs))"
      by simp
  qed
  moreover have "flat_ok (overlays (map noBundlingGraph rs)) g"
  proof (rule flat_overlays [OF assms(2,3)])
    have "(\<Union>r\<in>set rs. verts (lir_graph r)) = (\<Union>h\<in>set (map fst ps). verts h)" unfolding graphs [symmetric] by simp
    then show "(\<Union>r\<in>set rs. verts (lir_graph r)) \<subseteq> verts g" unfolding vg by auto
  qed
  ultimately show ?thesis using g(1,3) grown(2,3) by (auto simp: or_lir_def s t intro!: drawnI)
qed

subsection \<open>Every drawable expression is drawn\<close>

lemma transform_drawn:
  assumes "sorts ts" "drawable e"
  shows "\<exists>r l'. transform ts env ve e l = Some (r, l') \<and> drawn e l r l'"
  using assms(2)
proof (induction e arbitrary: l)
  case (And i es)
  then obtain rs l' where rs: "transform_list ts env ve es l = Some (rs, l')" "drawn_list es l rs l'"
    using transform_list_drawn [of es ts env ve l] by fastforce
  then show ?case using and_drawn [OF assms(1) rs(2), of ve i] And.prems by auto
next
  case (Or i es)
  then obtain rs l' where rs: "transform_list ts env ve es l = Some (rs, l')" "drawn_list es l rs l'"
    using transform_list_drawn [of es ts env ve l] by fastforce
  then show ?case using or_drawn [OF assms(1) rs(2), of env ve i] Or.prems by auto
next
  case (Not i n)
  then obtain r l' where "transform ts env ve n l = Some (r, l')" "drawn n l r l'" by fastforce
  then show ?case using not_drawn [OF assms(1), of n l r l' ve i] by auto
next
  case (UBoolVar i nm v c a)
  obtain r l' where r: "leaf_lir ve i (UBoolVarNode (UBoolVar i nm v c a)) l = (r, l')" by fastforce
  then show ?case using leaf_drawn [OF r, of "UBoolVar i nm v c a"] by (simp add: isNotStartNode_def isSelectableNode_def)
next
  case (TrueE i nm)
  obtain r l' where r: "leaf_lir ve i (TrueExprNode nm) l = (r, l')" by fastforce
  then show ?case using leaf_drawn [OF r, of "TrueE i nm"] by (simp add: isNotStartNode_def isSelectableNode_def)
next
  case (FalseE i nm)
  obtain r l' where r: "leaf_lir ve i (FalseExprNode nm) l = (r, l')" by fastforce
  then show ?case using leaf_drawn [OF r, of "FalseE i nm"] by (simp add: isNotStartNode_def isSelectableNode_def)
next
  case (InertE i t c)
  obtain r l' where r: "leaf_lir ve i (InertExprNode t c) l = (r, l')" by fastforce
  then show ?case using leaf_drawn [OF r, of "InertE i t c"] by (simp add: isNotStartNode_def isSelectableNode_def)
next
  case (App i nm as a)
  have "\<exists>r l'. transform ts env ve x l = Some (r, l') \<and> drawn x l r l'" if "x \<in> set (filter is_var as)" for x l
  proof -
    have "is_var x" using that by simp
    then obtain j n v c b where x: "x = UBoolVar j n v c b" by (cases x) (simp_all add: is_var_def)
    obtain r l' where r: "leaf_lir ve j (UBoolVarNode x) l = (r, l')" by fastforce
    then show ?thesis using leaf_drawn [OF r, of x] by (simp add: x isNotStartNode_def isSelectableNode_def)
  qed
  then obtain rs l1 where rs: "transform_list ts env ve (filter is_var as) l = Some (rs, l1)" "drawn_list (filter is_var as) l rs l1"
    using transform_list_drawn [of "filter is_var as" ts env ve l] by blast
  obtain r l' where r: "app_lir ve i nm rs l1 = (r, l')" by fastforce
  then show ?case using rs(1) app_drawn [OF r drawn_list_grown [OF rs(2)]] by simp
qed

end
