(* ===== verification/LadderView.thy ===== *)
theory LadderView
  imports LadderGraph
begin

text \<open>
  The drawn ladder: how it is put together (\<^verbatim>\<open>LadderGraphLirSource\<close> of \<^verbatim>\<open>data/viz-expr-to-lir.ts\<close>,
  \<^verbatim>\<open>makeLadderGraphLirNode\<close> of \<^verbatim>\<open>ladder.svelte.ts\<close>), its paths and what of it the user has selected
  (\<^verbatim>\<open>node-paths-selection.ts\<close>).

  \<^verbatim>\<open>ArrayKeyedMap\<close> is a map from lists. The subscribers that are told about a change only render again and are left out.
\<close>

subsection \<open>Labels\<close>

definition isEdgeToAddAndLabel :: "sorter \<Rightarrow> (lir_id \<rightharpoonup> lir_node) \<Rightarrow> dag \<Rightarrow> lir_id \<times> lir_id \<Rightarrow> bool option" where
  "isEdgeToAddAndLabel ts C g edge =
     (let (u, v) = edge;
          targetIsEligible = isUBoolVarNode (C v) \<or> isNotStartNode (C v) \<or> isSourceWithOrAnnoNode (C v) \<or> isAppNode (C v)
      in map_option (\<lambda>source. \<not> isSourceWithOrAnnoNode (C u) \<and> \<not> isEqualTo (vertex u) source \<and> \<not> isNotStartNode (C u) \<and>
           targetIsEligible) (getSource ts g))"

fun set_labels :: "string \<Rightarrow> (lir_id \<times> lir_id) list \<Rightarrow> dag \<Rightarrow> dag option" where
  "set_labels lab [] g = Some g"
| "set_labels lab (e # es) g =
     (let (_, g') = getAttributesForEdge e g
      in case setEdgeAttributes e lab g' of None \<Rightarrow> None | Some g'' \<Rightarrow> set_labels lab es g'')"

definition augmentEdgesWithExplanatoryLabel ::
    "sorter \<Rightarrow> (lir_id \<rightharpoonup> lir_node) \<Rightarrow> ladder_env \<Rightarrow> dag \<Rightarrow> dag option" where
  "augmentEdgesWithExplanatoryLabel ts C env g =
     (let edges = getEdges g
      in case those (map (isEdgeToAddAndLabel ts C g) edges) of
           None \<Rightarrow> None
         | Some flags \<Rightarrow> set_labels (andEdgeLabel env) (map fst (filter snd (zip edges flags))) g)"

subsection \<open>Paths\<close>

definition is_end :: "sorter \<Rightarrow> dag \<Rightarrow> lir_id \<Rightarrow> bool option" where
  "is_end ts g v =
     (case (getSource ts g, getSink ts g) of
        (Some s, Some t) \<Rightarrow> Some (isEqualTo s (vertex v) \<or> isEqualTo t (vertex v))
      | _ \<Rightarrow> None)"

definition makeNoIntermediateBundlingNodeDag :: "sorter \<Rightarrow> (lir_id \<rightharpoonup> lir_node) \<Rightarrow> dag \<Rightarrow> dag option" where
  "makeNoIntermediateBundlingNodeDag ts C g =
     (case those (map (is_end ts g) (getVertices g)) of
        None \<Rightarrow> None
      | Some flags \<Rightarrow>
          (if list_ex (\<lambda>v. isBundlingNode (C v)) (map fst (filter (\<lambda>x. \<not> snd x) (zip (getVertices g) flags)))
           then None else Some g))"

text \<open>A path of the list, with its id.\<close>

definition new_linPath :: "sorter \<Rightarrow> ladder_env \<Rightarrow> dag \<Rightarrow> lir \<Rightarrow> ((lir_id \<times> dag) \<times> lir) option" where
  "new_linPath ts env p l =
     (case augmentEdgesWithExplanatoryLabel ts (context_of l) env p of
        None \<Rightarrow> None
      | Some p' \<Rightarrow> (let (i, l') = new_node (LinPathNode p') l in Some ((i, p'), l')))"

fun new_linPaths :: "sorter \<Rightarrow> ladder_env \<Rightarrow> dag list \<Rightarrow> lir \<Rightarrow> ((lir_id \<times> dag) list \<times> lir) option" where
  "new_linPaths ts env [] l = Some ([], l)"
| "new_linPaths ts env (p # ps) l =
     (case new_linPath ts env p l of
        None \<Rightarrow> None
      | Some (q, l') \<Rightarrow> map_option (\<lambda>(qs, l''). (q # qs, l'')) (new_linPaths ts env ps l'))"

definition linPathToPath :: "sorter \<Rightarrow> (lir_id \<rightharpoonup> lir_node) \<Rightarrow> dag \<Rightarrow> dag \<Rightarrow> lir_id list option" where
  "linPathToPath ts C ladder p =
     (case getTopSort ts p of
        None \<Rightarrow> None
      | Some vs \<Rightarrow>
          (case those (map (is_end ts ladder) vs) of
             None \<Rightarrow> None
           | Some flags \<Rightarrow> Some (map fst (filter (\<lambda>(v, e). e \<or> isSelectableNode (C v)) (zip vs flags)))))"

record tracker =
  tr_selected :: "lir_id list"
  noBundlingDag :: dag
  pathIndex :: "(lir_id list, lir_id) jsmap"

definition new_tracker :: "sorter \<Rightarrow> (lir_id \<rightharpoonup> lir_node) \<Rightarrow> dag \<Rightarrow> dag \<Rightarrow> (lir_id \<times> dag) list \<Rightarrow> tracker option" where
  "new_tracker ts C ladder flat ps =
     (case those (map (\<lambda>(_, p). linPathToPath ts C ladder p) ps) of
        None \<Rightarrow> None
      | Some keys \<Rightarrow>
          Some \<lparr>tr_selected = [], noBundlingDag = flat, pathIndex = fold (\<lambda>(k, i). jm_set k i) (zip keys (map fst ps)) []\<rparr>)"

definition toggleNodeSelection :: "lir_id \<Rightarrow> tracker \<Rightarrow> tracker" where
  "toggleNodeSelection v t =
     t\<lparr>tr_selected := (if v \<in> set (tr_selected t) then filter (\<lambda>w. w \<noteq> v) (tr_selected t) else set_add v (tr_selected t))\<rparr>"

definition selectNodes :: "lir_id list \<Rightarrow> tracker \<Rightarrow> tracker" where
  "selectNodes vs t = t\<lparr>tr_selected := set_of vs\<rparr>"

text \<open>The paths through what is selected, looked up among the ladder's.\<close>

definition findCorrespondingLinPaths :: "sorter \<Rightarrow> tracker \<Rightarrow> lir_id list \<Rightarrow> lir_id list option" where
  "findCorrespondingLinPaths ts t selected =
     (case (getSource ts (noBundlingDag t), getSink ts (noBundlingDag t)) of
        (Some s, Some k) \<Rightarrow>
          (case getAllPaths ts (induce (\<lambda>v. v \<in> set selected \<or> isEqualTo s (vertex v) \<or> isEqualTo k (vertex v)) (noBundlingDag t)) of
             None \<Rightarrow> None
           | Some (ps, _) \<Rightarrow>
               map_option (\<lambda>orders. concat (map (\<lambda>vs. case jm_get (pathIndex t) vs of None \<Rightarrow> [] | Some i \<Rightarrow> [i]) orders))
                 (those (map (getTopSort ts) ps)))
      | _ \<Rightarrow> None)"

subsection \<open>The ladder\<close>

record ladder =
  ladder_id :: lir_id
  ladder_dag :: dag
  ladder_expr :: irexpr
  ladder_graphs :: "(irid, dag) jsmap"
  ladder_paths :: "(lir_id \<times> dag) list"
  ladder_tracker :: "tracker option"
  selected_paths :: "lir_id list"
  highlighted :: dag

text \<open>\<^verbatim>\<open>makeLadderGraphLirNode\<close>; a ladder that is not in negation normal form has no paths and no tracker.\<close>

definition makeLadderGraph ::
    "sorter \<Rightarrow> ladder_env \<Rightarrow> dag \<Rightarrow> (irid, dag) jsmap \<Rightarrow> irexpr \<Rightarrow> dag \<Rightarrow> lir \<Rightarrow> (ladder \<times> lir) option" where
  "makeLadderGraph ts env g graphs e flat l =
     (case augmentEdgesWithExplanatoryLabel ts (context_of l) env g of
        None \<Rightarrow> None
      | Some g1 \<Rightarrow>
          (if \<not> isNnf (context_of l) g1 then
             (let (i, l') = new_node LadderGraphNode l
              in Some (\<lparr>ladder_id = i, ladder_dag = g1, ladder_expr = e, ladder_graphs = graphs, ladder_paths = [],
                   ladder_tracker = None, selected_paths = [], highlighted = empty\<rparr>, l'))
           else
             (case getAllPaths ts g1 of
                None \<Rightarrow> None
              | Some (ps, g2) \<Rightarrow>
                  (case new_linPaths ts env ps l of
                     None \<Rightarrow> None
                   | Some (lps, l1) \<Rightarrow>
                       (let (_, l2) = new_node (PathsListNode (map fst lps)) l1
                        in case new_tracker ts (context_of l2) g2 flat lps of
                             None \<Rightarrow> None
                           | Some t \<Rightarrow>
                               (let (i, l3) = new_node LadderGraphNode l2
                                in Some (\<lparr>ladder_id = i, ladder_dag = g2, ladder_expr = e, ladder_graphs = graphs,
                                     ladder_paths = lps, ladder_tracker = Some t, selected_paths = [], highlighted = empty\<rparr>, l3)))))))"

definition toLir :: "sorter \<Rightarrow> ladder_env \<Rightarrow> irexpr \<Rightarrow> lir \<Rightarrow> (ladder \<times> lir) option" where
  "toLir ts env e l =
     (let (s, l1) = new_node SourceNoAnnoNode l; (t, l2) = new_node SinkNode l1
      in case transform ts env [] e l2 of
           None \<Rightarrow> None
         | Some (r, l3) \<Rightarrow>
             (case sandwich ts (vertex s) (vertex t) (lir_graph r) of
                None \<Rightarrow> None
              | Some g \<Rightarrow>
                  (case makeNoIntermediateBundlingNodeDag ts (context_of l3)
                          (connect (connect (vertex s) (noBundlingGraph r)) (vertex t)) of
                     None \<Rightarrow> None
                   | Some flat \<Rightarrow> makeLadderGraph ts env g (jm_set (expr_id e) g (vizExprToLir r)) e flat l3)))"

text \<open>Selecting a node, which selects paths and highlights their edges.\<close>

definition update_paths :: "sorter \<Rightarrow> tracker \<Rightarrow> ladder \<Rightarrow> ladder option" where
  "update_paths ts t d =
     map_option (\<lambda>found. d\<lparr>ladder_tracker := Some t, selected_paths := set_of found,
         highlighted := overlays (concat (map (\<lambda>i. map snd (filter (\<lambda>(j, _). j = i) (ladder_paths d))) found))\<rparr>)
       (findCorrespondingLinPaths ts t (tr_selected t))"

definition toggle_node :: "sorter \<Rightarrow> lir_id \<Rightarrow> ladder \<Rightarrow> ladder option" where
  "toggle_node ts v d =
     (case ladder_tracker d of None \<Rightarrow> None | Some t \<Rightarrow> update_paths ts (toggleNodeSelection v t) d)"

definition select_nodes :: "sorter \<Rightarrow> lir_id list \<Rightarrow> ladder \<Rightarrow> ladder option" where
  "select_nodes ts vs d =
     (case ladder_tracker d of None \<Rightarrow> None | Some t \<Rightarrow> update_paths ts (selectNodes vs t) d)"

definition edgeIsInHighlightedSubgraph :: "ladder \<Rightarrow> lir_id \<Rightarrow> lir_id \<Rightarrow> bool" where
  "edgeIsInHighlightedSubgraph d u v = hasEdge (highlighted d) u v"

subsection \<open>Labels leave the graph as it is\<close>

lemma set_labels_some:
  assumes "\<forall>e\<in>set es. hasEdge g (fst e) (snd e)"
  shows "\<exists>g'. set_labels lab es g = Some g' \<and> same_graph g' g"
  using assms
proof (induction es arbitrary: g)
  case (Cons e es)
  obtain x g1 where a: "getAttributesForEdge e g = (x, g1)" by (cases "getAttributesForEdge e g")
  define g2 where "g2 = Dag (shape g1) (adjMap g1) (jm_set (stringifyEdge e) lab (edgeAttributes g1))"
  have same: "same_graph g2 g" using getAttributes_same [OF a] by (simp add: g2_def same_graph_def)
  then obtain g' where "set_labels lab es g2 = Some g'" "same_graph g' g2"
    using Cons.IH [of g2] Cons.prems by (auto simp: same_graph_facts(8))
  moreover have "hasEdge g1 (fst e) (snd e)" using Cons.prems same_graph_facts(8) [OF getAttributes_same [OF a]] by simp
  ultimately show ?case using same by (auto simp: a setEdgeAttributes_def g2_def intro: same_graph_trans)
qed simp

lemma zip_kept:
  "map fst (filter snd (zip xs (map f xs))) = filter f xs"
  "map fst (filter (\<lambda>x. \<not> snd x) (zip xs (map f xs))) = filter (\<lambda>x. \<not> f x) xs"
  "map fst (filter (\<lambda>(x, b). b \<or> Q x) (zip xs (map f xs))) = filter (\<lambda>x. f x \<or> Q x) xs"
  by (induction xs) auto

lemma augment_same:
  assumes "getSource ts g = Some src"
  shows "\<exists>g'. augmentEdgesWithExplanatoryLabel ts C env g = Some g' \<and> same_graph g' g"
proof -
  have "\<exists>b. isEdgeToAddAndLabel ts C g e = Some b" for e
    using assms by (simp add: isEdgeToAddAndLabel_def split: prod.splits)
  then obtain f where f: "isEdgeToAddAndLabel ts C g = Some \<circ> f" by (metis comp_apply ext)
  have flags: "those (map (isEdgeToAddAndLabel ts C g) (getEdges g)) = Some (map f (getEdges g))"
    unfolding f by (rule those_map_get) simp
  have "\<forall>e\<in>set (filter f (getEdges g)). hasEdge g (fst e) (snd e)" by (auto simp: hasEdge_iff)
  from set_labels_some [OF this, of "andEdgeLabel env"] show ?thesis
    by (simp add: augmentEdgesWithExplanatoryLabel_def flags zip_kept)
qed

lemma isEqualTo_vertex [simp]: "isEqualTo (vertex a) (vertex b) \<longleftrightarrow> a = b"
  by (simp add: isEqualTo_def graph_text_def getVertices_def getAllEdges_def vertex_def neighbors_Cons)

lemma is_end_ends:
  assumes "getSource ts g = Some (vertex s)" "getSink ts g = Some (vertex t)"
  shows "is_end ts g v = Some (v = s \<or> v = t)"
  using assms by (auto simp: is_end_def)

lemma noIntermediate_some:
  assumes "getSource ts g = Some (vertex s)" "getSink ts g = Some (vertex t)"
    and "\<And>v. v \<in> verts g \<Longrightarrow> v \<noteq> s \<Longrightarrow> v \<noteq> t \<Longrightarrow> \<not> isBundlingNode (C v)"
  shows "makeNoIntermediateBundlingNodeDag ts C g = Some g"
proof -
  have flags: "those (map (is_end ts g) (getVertices g)) = Some (map (\<lambda>v. v = s \<or> v = t) (getVertices g))"
    by (rule those_map_get) (simp add: is_end_ends [OF assms(1,2)])
  have "\<not> list_ex (\<lambda>v. isBundlingNode (C v)) (filter (\<lambda>v. \<not> (v = s \<or> v = t)) (getVertices g))"
    using assms(3) by (auto simp: list_ex_iff getVertices_def verts_def)
  then show ?thesis by (simp add: makeNoIntermediateBundlingNodeDag_def flags zip_kept)
qed

subsection \<open>The frame\<close>

text \<open>
  In the graph without bundling nodes the source leads to every node and every node to the sink, so every walk of it
  becomes one from end to end, and stays one if other nodes are taken away.
\<close>

definition frame :: "lir_id \<Rightarrow> dag \<Rightarrow> lir_id \<Rightarrow> dag" where
  "frame s flat t = connect (connect (vertex s) flat) (vertex t)"

lemma frame_graph:
  assumes "built flat"
  shows "built (frame s flat t)" "verts (frame s flat t) = {s, t} \<union> verts flat"
    "arcs (frame s flat t) = {s} \<times> verts flat \<union> arcs flat \<union> insert s (verts flat) \<times> {t}"
  using assms by (auto simp: frame_def)

lemma frame_ranked:
  assumes "built flat" "ranked (arcs flat)" "s \<notin> verts flat" "t \<notin> verts flat" "s \<noteq> t"
  shows "ranked (arcs (frame s flat t))"
proof -
  let ?V = "verts flat"
  have sub: "arcs flat \<subseteq> ?V \<times> ?V" using arcs_verts [OF built_ok [OF assms(1)]] by auto
  have "ranked ({} \<union> arcs flat \<union> {s} \<times> ?V)"
    by (rule ranked_joined [where V = "{s}" and W = ?V]) (use assms sub in auto)
  then have "ranked (({} \<union> arcs flat \<union> {s} \<times> ?V) \<union> {} \<union> insert s ?V \<times> {t})"
    by (rule ranked_joined [where V = "insert s ?V" and W = "{t}"]) (use assms sub in auto)
  moreover have "({} \<union> arcs flat \<union> {s} \<times> ?V) \<union> {} \<union> insert s ?V \<times> {t} = arcs (frame s flat t)"
    unfolding frame_graph(3) [OF assms(1)] by auto
  ultimately show ?thesis by simp
qed

lemma frame_two_terminal:
  assumes "built flat" "ranked (arcs flat)" "s \<notin> verts flat" "t \<notin> verts flat" "s \<noteq> t"
  shows "two_terminal (frame s flat t) s t"
  unfolding two_terminal_def
  using frame_ranked [OF assms] frame_graph [OF assms(1), of s t] assms arcs_verts [OF built_ok [OF assms(1)]] by auto

lemma frame_induced:
  assumes "built flat" "ranked (arcs flat)" "s \<notin> verts flat" "t \<notin> verts flat" "s \<noteq> t" "P s" "P t"
  shows "verts (induce P (frame s flat t)) = {s, t} \<union> {v \<in> verts flat. P v}"
    "arcs (induce P (frame s flat t)) = {(u, v). ((u, v) \<in> arcs flat \<or> u = s \<and> v \<in> verts flat \<or>
       u \<in> insert s (verts flat) \<and> v = t) \<and> P u \<and> P v}"
    "two_terminal (induce P (frame s flat t)) s t"
proof -
  let ?F = "frame s flat t"
  note F = frame_graph [OF assms(1), of s t] and rk = frame_ranked [OF assms(1-5)]
  note I = induce_graph [OF F(1) ranked_acyclic [OF rk], of P]
  show v: "verts (induce P ?F) = {s, t} \<union> {v \<in> verts flat. P v}" using I(2) F(2) assms(6,7) by auto
  show a: "arcs (induce P ?F) = {(u, v). ((u, v) \<in> arcs flat \<or> u = s \<and> v \<in> verts flat \<or>
      u \<in> insert s (verts flat) \<and> v = t) \<and> P u \<and> P v}" unfolding I(3) F(3) by auto
  have "ranked (arcs (induce P ?F))" using rk unfolding ranked_def I(3) by blast
  then show "two_terminal (induce P ?F) s t"
    unfolding two_terminal_def v a using I(1) assms(3-7) arcs_verts [OF built_ok [OF assms(1)]] by auto
qed

lemma frame_walk_inside:
  assumes "built flat" "ranked (arcs flat)" "s \<notin> verts flat" "t \<notin> verts flat" "s \<noteq> t" "P s" "P t"
    and "p \<in> st_walks (induce P (frame s flat t)) s t"
  shows "\<exists>q. p = s # q @ [t] \<and> set q \<subseteq> verts flat \<and> (\<forall>v\<in>set q. P v)"
proof -
  note I = frame_induced [OF assms(1-7)]
  have p: "walk (arcs (induce P (frame s flat t))) p" "hd p = s" "last p = t" using assms(8) by (auto simp: st_walks_def)
  have dist: "distinct p" by (rule walk_distinct [OF p(1) two_terminal_facts(2) [OF I(3)]])
  have "p \<noteq> []" using walk_nonempty [OF p(1)] .
  then obtain r where r: "p = s # r" using p(2) by (cases p) auto
  moreover have "r \<noteq> []" using p(3) assms(5) r by auto
  ultimately have split: "r = butlast r @ [t]" using p(3) by (metis append_butlast_last_id last_ConsR)
  define q where "q = butlast r"
  have q: "p = s # q @ [t]" using split r unfolding q_def by metis
  have out: "s \<notin> set q" "t \<notin> set q" using dist unfolding q by simp_all
  have "set p \<subseteq> verts (induce P (frame s flat t))"
    using walk_verts [OF two_terminal_facts(1) [OF I(3)] p(1)] two_terminal_facts(3) [OF I(3)] p(2) by simp
  then have "set q \<subseteq> {s, t} \<union> {v \<in> verts flat. P v}" unfolding q I(1) by simp
  then have "set q \<subseteq> verts flat" "\<forall>v\<in>set q. P v" using out by blast+
  then show ?thesis using q by blast
qed

lemma frame_walks:
  assumes "built flat" "ranked (arcs flat)" "s \<notin> verts flat" "t \<notin> verts flat" "s \<noteq> t" "P s" "P t"
    and "walk (arcs flat) q" "set q \<subseteq> verts flat" "\<forall>v\<in>set q. P v"
  shows "s # q @ [t] \<in> st_walks (induce P (frame s flat t)) s t"
proof -
  note I = frame_induced [OF assms(1-7)]
  have "steps_of q \<subseteq> arcs (induce P (frame s flat t))"
  proof
    fix e assume e: "e \<in> steps_of q"
    obtain x y where xy: "e = (x, y)" by (cases e)
    then have "x \<in> set q" "y \<in> set q" using steps_in e by blast+
    then show "e \<in> arcs (induce P (frame s flat t))" using assms(8-10) e unfolding xy I(2) walk_steps by auto
  qed
  then have "walk (arcs (induce P (frame s flat t))) q" using assms(8) by (simp add: walk_steps)
  moreover have "q \<noteq> []" using walk_nonempty [OF assms(8)] .
  moreover from this have "hd q \<in> verts flat" "P (hd q)" "last q \<in> verts flat" "P (last q)" using assms(9,10) by auto
  ultimately show ?thesis using assms(6,7) by (simp add: st_walks_def walk_Cons walk_append I(2))
qed


subsection \<open>How a ladder is put together\<close>

definition laid_out :: "irexpr \<Rightarrow> lir \<Rightarrow> to_lir \<Rightarrow> lir \<Rightarrow> dag \<Rightarrow> bool" where
  "laid_out e l r l3 g \<longleftrightarrow> grown l l3 \<and>
     context_of l3 (counter l) = Some SourceNoAnnoNode \<and> context_of l3 (Suc (counter l)) = Some SinkNode \<and>
     (\<exists>l2. drawn e l2 r l3 \<and> counter l2 = Suc (Suc (counter l))) \<and>
     (\<exists>a b. between g (counter l) (Suc (counter l)) {(lir_graph r, a, b)})"

lemma laid_out_facts:
  assumes "laid_out e l r l3 g"
  shows "two_terminal g (counter l) (Suc (counter l))" "verts g \<subseteq> {counter l..<counter l3}"
    "verts g = {counter l, Suc (counter l)} \<union> verts (lir_graph r)" "counter l \<notin> verts (lir_graph r)"
    "Suc (counter l) \<notin> verts (lir_graph r)"
proof -
  obtain l2 a b where d: "drawn e l2 r l3" "counter l2 = Suc (Suc (counter l))"
    and b: "between g (counter l) (Suc (counter l)) {(lir_graph r, a, b)}" using assms by (auto simp: laid_out_def)
  show "two_terminal g (counter l) (Suc (counter l))" by (rule between_two_terminal [OF b])
  show v: "verts g = {counter l, Suc (counter l)} \<union> verts (lir_graph r)" using b by (simp add: between_def)
  have "verts (lir_graph r) \<subseteq> {Suc (Suc (counter l))..<counter l3}" "Suc (Suc (counter l)) \<le> counter l3"
    using d drawn_grown [OF d(1)] by (simp_all add: drawn_def grown_def)
  then show "verts g \<subseteq> {counter l..<counter l3}" "counter l \<notin> verts (lir_graph r)" "Suc (counter l) \<notin> verts (lir_graph r)"
    unfolding v by auto
qed

lemma laid_out_flat:
  assumes "laid_out e l r l3 g"
  shows "built (noBundlingGraph r)" "ranked (arcs (noBundlingGraph r))" "verts (noBundlingGraph r) \<subseteq> verts (lir_graph r)"
    "selectable (context_of l3) (noBundlingGraph r)" "keyed (context_of l3) (noBundlingGraph r) (lir_graph r)"
proof -
  obtain l2 where d: "drawn e l2 r l3" using assms by (auto simp: laid_out_def)
  then show "built (noBundlingGraph r)" "ranked (arcs (noBundlingGraph r))" "verts (noBundlingGraph r) \<subseteq> verts (lir_graph r)"
    by (simp_all add: drawn_def flat_ok_def)
  have "agrees (context_of l3) l2 l3" by (simp add: agrees_def)
  then show "selectable (context_of l3) (noBundlingGraph r)" "keyed (context_of l3) (noBundlingGraph r) (lir_graph r)"
    using d by (simp_all add: drawn_def keyed_from_def)
qed

lemma transform_laid_out:
  assumes "sorts ts" "drawable e"
  shows "\<exists>r l3 g. laid_out e l r l3 g \<and>
    toLir ts env e l = makeLadderGraph ts env g (jm_set (expr_id e) g (vizExprToLir r)) e
      (frame (counter l) (noBundlingGraph r) (Suc (counter l))) l3 \<and>
    (\<exists>l2. transform ts env [] e l2 = Some (r, l3) \<and> counter l2 = Suc (Suc (counter l)))"
proof -
  obtain s l1 where s: "new_node SourceNoAnnoNode l = (s, l1)" by fastforce
  obtain t l2 where t: "new_node SinkNode l1 = (t, l2)" by fastforce
  note s' = new_node_grown [OF s] and t' = new_node_grown [OF t]
  have st: "s = counter l" "t = Suc (counter l)" "counter l2 = Suc (Suc (counter l))" using s' t' by simp_all
  obtain r l3 where r: "transform ts env [] e l2 = Some (r, l3)" "drawn e l2 r l3"
    using transform_drawn [OF assms] by blast
  obtain a b where tt: "two_terminal (lir_graph r) a b" and low: "verts (lir_graph r) \<subseteq> {counter l2..<counter l3}"
    using r(2) by (auto simp: drawn_def)
  have fresh: "s \<notin> verts (lir_graph r)" "t \<notin> verts (lir_graph r)" "s \<noteq> t" using low st by auto
  obtain g where g: "sandwich ts (vertex s) (vertex t) (lir_graph r) = Some g" "between g s t {(lir_graph r, a, b)}"
    using sandwich_part [OF assms(1) tt fresh] by blast
  have ends: "context_of l3 s = Some SourceNoAnnoNode" "context_of l3 t = Some SinkNode"
    using s' t' drawn_grown [OF r(2)] by (simp_all add: grown_def)
  have "grown l l3" using s'(2) t'(2) drawn_grown [OF r(2)] by (blast intro: grown_trans)
  then have laid: "laid_out e l r l3 g" using ends g(2) r(2) st by (auto simp: laid_out_def)
  note flat = laid_out_flat [OF laid]
  have F: "two_terminal (frame s (noBundlingGraph r) t) s t"
    by (rule frame_two_terminal [OF flat(1,2)]) (use flat(3) fresh in auto)
  have "makeNoIntermediateBundlingNodeDag ts (context_of l3) (frame s (noBundlingGraph r) t) = Some (frame s (noBundlingGraph r) t)"
  proof (rule noIntermediate_some [OF two_terminal_source [OF assms(1) F] two_terminal_sink [OF assms(1) F]])
    fix v assume "v \<in> verts (frame s (noBundlingGraph r) t)" "v \<noteq> s" "v \<noteq> t"
    then have "isSelectableNode (context_of l3 v)" using flat(4) frame_graph(2) [OF flat(1)] by (simp add: selectable_def)
    then show "\<not> isBundlingNode (context_of l3 v)"
      by (auto simp: isSelectableNode_def isBundlingNode_def split: option.splits lir_node.splits)
  qed
  then have "toLir ts env e l = makeLadderGraph ts env g (jm_set (expr_id e) g (vizExprToLir r)) e
      (frame s (noBundlingGraph r) t) l3"
    by (simp add: toLir_def s t r(1) g(1) frame_def)
  then show ?thesis using laid r(1) st(3) unfolding st(1,2) by blast
qed

lemma new_linPaths_some:
  assumes "\<forall>p\<in>set ps. getSource ts p \<noteq> None"
  shows "\<exists>qs l'. new_linPaths ts env ps l = Some (qs, l') \<and> grown l l' \<and> list_all2 (\<lambda>p x. same_graph (snd x) p) ps qs \<and>
    distinct (map fst qs) \<and> fst ` set qs \<subseteq> {counter l..<counter l'}"
  using assms
proof (induction ps arbitrary: l)
  case (Cons p ps)
  obtain p' where p: "augmentEdgesWithExplanatoryLabel ts (context_of l) env p = Some p'" "same_graph p' p"
    using Cons.prems augment_same by fastforce
  obtain i l1 where i: "new_node (LinPathNode p') l = (i, l1)" by fastforce
  note i' = new_node_grown [OF i]
  obtain qs l' where "new_linPaths ts env ps l1 = Some (qs, l')" "grown l1 l'" "list_all2 (\<lambda>p x. same_graph (snd x) p) ps qs"
    "distinct (map fst qs)" "fst ` set qs \<subseteq> {counter l1..<counter l'}" using Cons.IH [of l1] Cons.prems by auto
  moreover from this have "i \<notin> fst ` set qs" using i'(1,3) by auto
  ultimately show ?case using p i i' by (auto simp: new_linPath_def grown_def)
qed simp


text \<open>A ladder in negation normal form has its paths and a tracker for them.\<close>

definition key_of :: "(lir_id \<rightharpoonup> lir_node) \<Rightarrow> lir_id \<Rightarrow> lir_id \<Rightarrow> lir_id list \<Rightarrow> lir_id list" where
  "key_of C s t vs = filter (\<lambda>v. (v = s \<or> v = t) \<or> isSelectableNode (C v)) vs"

definition shown :: "dag \<Rightarrow> lir_id \<Rightarrow> lir_id \<Rightarrow> dag \<Rightarrow> lir \<Rightarrow> ladder \<Rightarrow> lir \<Rightarrow> bool" where
  "shown g s t flat l d l' \<longleftrightarrow> grown l l' \<and> same_graph (ladder_dag d) g \<and> selected_paths d = [] \<and> highlighted d = empty \<and>
     (if isNnf (context_of l) g then
        (\<exists>bare. distinct bare \<and> set bare = st_walks g s t \<and> list_all2 (\<lambda>vs x. is_path_graph vs (snd x)) bare (ladder_paths d) \<and>
           distinct (map fst (ladder_paths d)) \<and>
           ladder_tracker d = Some \<lparr>tr_selected = [], noBundlingDag = flat,
             pathIndex = fold (\<lambda>(k, i). jm_set k i) (zip (map (key_of (context_of l) s t) bare) (map fst (ladder_paths d))) []\<rparr>)
      else ladder_paths d = [] \<and> ladder_tracker d = None)"

lemma isNnf_same: "same_graph h g \<Longrightarrow> isNnf C h = isNnf C g"
  by (simp add: isNnf_verts same_graph_facts(1))

lemma path_graph_same: "is_path_graph vs p \<Longrightarrow> same_graph q p \<Longrightarrow> is_path_graph vs q"
  by (simp add: is_path_graph_def same_graph_facts)

lemma new_tracker_some:
  assumes "getSource ts g = Some (vertex s)" "getSink ts g = Some (vertex t)"
    and "map (\<lambda>x. getTopSort ts (snd x)) ps = map Some bare"
  shows "new_tracker ts C g flat ps = Some \<lparr>tr_selected = [], noBundlingDag = flat,
    pathIndex = fold (\<lambda>(k, i). jm_set k i) (zip (map (key_of C s t) bare) (map fst ps)) []\<rparr>"
proof -
  have key: "linPathToPath ts C g p = Some (key_of C s t vs)" if "getTopSort ts p = Some vs" for p vs
  proof -
    have "those (map (is_end ts g) vs) = Some (map (\<lambda>v. v = s \<or> v = t) vs)"
      by (rule those_map_get) (simp add: is_end_ends [OF assms(1,2)])
    then show ?thesis by (simp add: linPathToPath_def that key_of_def zip_kept)
  qed
  have "map (\<lambda>(_, p). linPathToPath ts C g p) ps = map Some (map (key_of C s t) bare)"
  proof (rule nth_equalityI)
    have len: "length ps = length bare" using arg_cong [OF assms(3), of length] by simp
    then show "length (map (\<lambda>(_, p). linPathToPath ts C g p) ps) = length (map Some (map (key_of C s t) bare))" by simp
    fix i assume i: "i < length (map (\<lambda>(_, p). linPathToPath ts C g p) ps)"
    then have "getTopSort ts (snd (ps ! i)) = Some (bare ! i)" using len arg_cong [OF assms(3), of "\<lambda>xs. xs ! i"] by simp
    then show "map (\<lambda>(_, p). linPathToPath ts C g p) ps ! i = map Some (map (key_of C s t) bare) ! i"
      using i len key by (simp add: case_prod_beta)
  qed
  then have "those (map (\<lambda>(_, p). linPathToPath ts C g p) ps) = Some (map (key_of C s t) bare)"
    by (simp only: those_Some)
  then show ?thesis by (simp add: new_tracker_def)
qed

lemma makeLadderGraph_shown:
  assumes "sorts ts" "two_terminal g s t" "verts g \<subseteq> {..<counter l}"
  shows "\<exists>d l'. makeLadderGraph ts env g graphs e flat l = Some (d, l') \<and> shown g s t flat l d l' \<and>
    ladder_graphs d = graphs \<and> ladder_expr d = e"
proof -
  obtain g1 where g1: "augmentEdgesWithExplanatoryLabel ts (context_of l) env g = Some g1" "same_graph g1 g"
    using augment_same [OF two_terminal_source [OF assms(1,2)]] by blast
  note same = isNnf_same [OF g1(2)]
  show ?thesis
  proof (cases "isNnf (context_of l) g")
    case False
    obtain i l' where "new_node LadderGraphNode l = (i, l')" by fastforce
    then show ?thesis using g1 False same new_node_grown(2)
      by (auto simp: makeLadderGraph_def shown_def)
  next
    case True
    have tt1: "two_terminal g1 s t" using assms(2) by (simp add: two_terminal_def same_graph_facts [OF g1(2)])
    obtain ps g2 bare where ps: "getAllPaths ts g1 = Some (ps, g2)" "same_graph g2 g1" "set bare = st_walks g1 s t"
      "distinct bare" "list_all2 is_path_graph bare ps" "map (getTopSort ts) ps = map Some bare"
      using two_terminal_paths [OF assms(1) tt1] by blast
    have "getTopSort ts p \<noteq> None" if "p \<in> set ps" for p
    proof -
      have "getTopSort ts p \<in> set (map (getTopSort ts) ps)" using that by simp
      then show ?thesis unfolding ps(6) by auto
    qed
    then have src: "\<forall>p\<in>set ps. getSource ts p \<noteq> None" by (simp add: getSource_def)
    obtain lps l1 where lps: "new_linPaths ts env ps l = Some (lps, l1)" "grown l l1" "distinct (map fst lps)"
        "list_all2 (\<lambda>p x. same_graph (snd x) p) ps lps"
      using new_linPaths_some [OF src] by blast
    obtain j l2 where l2: "new_node (PathsListNode (map fst lps)) l1 = (j, l2)" by fastforce
    obtain i l3 where l3: "new_node LadderGraphNode l2 = (i, l3)" by fastforce
    have tops: "map (\<lambda>x. getTopSort ts (snd x)) lps = map Some bare"
      unfolding ps(6) [symmetric] using lps(4) by (induction rule: list_all2_induct) (simp_all add: same_graph_facts)
    have paths: "list_all2 (\<lambda>vs x. is_path_graph vs (snd x)) bare lps"
      by (rule list_all2_trans [OF _ ps(5) lps(4)]) (rule path_graph_same)
    have tt2: "two_terminal g2 s t" using tt1 by (simp add: two_terminal_def same_graph_facts [OF ps(2)])
    have tr: "new_tracker ts (context_of l2) g2 flat lps = Some \<lparr>tr_selected = [], noBundlingDag = flat,
        pathIndex = fold (\<lambda>(k, i). jm_set k i) (zip (map (key_of (context_of l2) s t) bare) (map fst lps)) []\<rparr>"
      by (rule new_tracker_some [OF two_terminal_source [OF assms(1) tt2] two_terminal_sink [OF assms(1) tt2] tops])
    have walks: "st_walks g1 s t = st_walks g s t" by (simp add: st_walks_def same_graph_facts [OF g1(2)])
    have grown: "grown l l2" "grown l l3"
      using lps(2) new_node_grown(2) [OF l2] new_node_grown(2) [OF l3] by (blast intro: grown_trans)+
    have "key_of (context_of l2) s t vs = key_of (context_of l) s t vs" if "vs \<in> set bare" for vs
    proof -
      have "set vs \<subseteq> {..<counter l}"
        using st_walks_verts [OF assms(2), of vs] that ps(3) walks assms(3) by blast
      then have "context_of l2 v = context_of l v" if "v \<in> set vs" for v using grown(1) that by (auto simp: grown_def)
      then show ?thesis unfolding key_of_def by (intro filter_cong) simp_all
    qed
    then have keys: "map (key_of (context_of l2) s t) bare = map (key_of (context_of l) s t) bare" by simp
    have "makeLadderGraph ts env g graphs e flat l = Some (\<lparr>ladder_id = i, ladder_dag = g2, ladder_expr = e,
        ladder_graphs = graphs, ladder_paths = lps, ladder_tracker = Some \<lparr>tr_selected = [], noBundlingDag = flat,
          pathIndex = fold (\<lambda>(k, i). jm_set k i) (zip (map (key_of (context_of l) s t) bare) (map fst lps)) []\<rparr>,
        selected_paths = [], highlighted = empty\<rparr>, l3)"
      using True same by (simp add: makeLadderGraph_def g1(1) ps(1) lps(1) l2 l3 tr keys)
    moreover have "same_graph g2 g" using same_graph_trans [OF ps(2) g1(2)] .
    ultimately show ?thesis using True ps(3,4) walks paths lps(3) grown(2) unfolding shown_def by auto
  qed
qed


subsection \<open>Negation normal form\<close>

fun nnf :: "irexpr \<Rightarrow> bool" where
  "nnf (And _ as) \<longleftrightarrow> (\<forall>a\<in>set as. nnf a)"
| "nnf (Or _ as) \<longleftrightarrow> (\<forall>a\<in>set as. nnf a)"
| "nnf (Not _ n) \<longleftrightarrow> is_var n"
| "nnf _ \<longleftrightarrow> True"

definition nots_of_vars :: "lir \<Rightarrow> lir \<Rightarrow> bool" where
  "nots_of_vars l l' \<longleftrightarrow> grown l l' \<and> (\<forall>n h neg. counter l \<le> n \<longrightarrow> n < counter l' \<longrightarrow> context_of l' n = Some (NotStartNode h neg) \<longrightarrow>
     (\<exists>x<counter l'. h = vertex x \<and> isUBoolVarNode (context_of l' x)))"

lemma nots_refl [simp]: "nots_of_vars l l"
  by (simp add: nots_of_vars_def)

lemma nots_trans:
  assumes "nots_of_vars l l1" "nots_of_vars l1 l2"
  shows "nots_of_vars l l2"
proof -
  have g: "grown l l1" "grown l1 l2" using assms by (simp_all add: nots_of_vars_def)
  have "\<exists>x<counter l2. h = vertex x \<and> isUBoolVarNode (context_of l2 x)"
    if n: "counter l \<le> n" "n < counter l2" "context_of l2 n = Some (NotStartNode h neg)" for n h neg
  proof (cases "n < counter l1")
    case True
    then have "context_of l1 n = Some (NotStartNode h neg)" using n(3) g(2) by (simp add: grown_def)
    then obtain x where "x < counter l1" "h = vertex x" "isUBoolVarNode (context_of l1 x)"
      using assms(1) n(1) True by (auto simp: nots_of_vars_def)
    then show ?thesis using g(2) by (intro exI [of _ x]) (simp add: grown_def)
  next
    case False
    then show ?thesis using assms(2) n unfolding nots_of_vars_def by (meson not_le)
  qed
  then show ?thesis using grown_trans [OF g] by (auto simp: nots_of_vars_def)
qed

lemma nots_new_node: "new_node n l = (v, l') \<Longrightarrow> \<not> isNotStartNode (Some n) \<Longrightarrow> nots_of_vars l l'"
  using new_node_grown [of n l v l'] by (auto simp: nots_of_vars_def isNotStartNode_def less_Suc_eq)

lemma leaf_nots: "leaf_lir ve i n l = (r, l') \<Longrightarrow> \<not> isNotStartNode (Some n) \<Longrightarrow> nots_of_vars l l'"
  using nots_new_node by (auto simp: leaf_lir_def split: prod.splits)

lemma not_nots:
  assumes "leaf_lir ve i (UBoolVarNode e) l = (r, l1)" "not_lir ts ve' neg r l1 = Some (r', l')"
  shows "nots_of_vars l l'"
proof -
  obtain x where x: "new_node (UBoolVarNode e) l = (x, l1)" "lir_graph r = vertex x"
    using assms(1) by (auto simp: leaf_lir_def split: prod.splits)
  obtain s l2 where s: "new_node (NotStartNode (lir_graph r) neg) l1 = (s, l2)" by fastforce
  obtain t l3 where t: "new_node NotEndNode l2 = (t, l3)" by fastforce
  have "l' = l3" using assms(2) by (auto simp: not_lir_def s t split: option.splits)
  note x' = new_node_grown [OF x(1)] and s' = new_node_grown [OF s] and t' = new_node_grown [OF t]
  have grown: "grown l l3" "grown l2 l3" using x' s' t' by (blast intro: grown_trans)+
  have nodes: "context_of l3 (counter l) = Some (UBoolVarNode e)" "context_of l3 (Suc (counter l)) = Some (NotStartNode (vertex x) neg)"
    "context_of l3 (Suc (Suc (counter l))) = Some NotEndNode" "counter l3 = Suc (Suc (Suc (counter l)))" "x = counter l"
    using x' s' t' by (simp_all add: grown_def x(2))
  show ?thesis unfolding nots_of_vars_def \<open>l' = l3\<close>
  proof (intro conjI allI impI)
    fix n h neg' assume n: "counter l \<le> n" "n < counter l3" "context_of l3 n = Some (NotStartNode h neg')"
    then consider "n = counter l" | "n = Suc (counter l)" | "n = Suc (Suc (counter l))" using nodes(4) by linarith
    then have "h = vertex x" using n(3) nodes(1-3) by cases simp_all
    then show "\<exists>x<counter l3. h = vertex x \<and> isUBoolVarNode (context_of l3 x)"
      using nodes by (intro exI [of _ x]) (simp add: isUBoolVarNode_def)
  qed (rule grown(1))
qed

lemma transform_nots:
  "transform ts env ve e l = Some (r, l') \<Longrightarrow> nnf e \<Longrightarrow> nots_of_vars l l'"
  "transform_list ts env ve es l = Some (rs, l') \<Longrightarrow> \<forall>e\<in>set es. nnf e \<Longrightarrow> nots_of_vars l l'"
proof (induction ts env ve e l and ts env ve es l arbitrary: r l' and rs l' rule: transform_transform_list.induct)
  case (5 ts env ve i n l)
  then obtain j nm v c a where n: "n = UBoolVar j nm v c a" by (cases n) (simp_all add: is_var_def)
  obtain q l1 where q: "leaf_lir ve j (UBoolVarNode n) l = (q, l1)" by fastforce
  then show ?case using 5(2) not_nots [of ve j n l q l1 ts ve "Not i n"] by (simp add: n)
next
  case (7 ts env ve i as l)
  then obtain rs l1 where 1: "transform_list ts env ve as l = Some (rs, l1)" "or_lir ts env ve i rs l1 = Some (r, l')"
    by (auto split: option.splits)
  obtain s l2 where s: "new_node (SourceWithOrAnnoNode (orBundlingNodeLabel env)) l1 = (s, l2)" by fastforce
  obtain t l3 where t: "new_node SinkNode l2 = (t, l3)" by fastforce
  have "l' = l3" using 1(2) by (auto simp: or_lir_def s t split: option.splits)
  moreover have "nots_of_vars l l1" using 7 1(1) by simp
  ultimately show ?case using nots_new_node [OF s] nots_new_node [OF t]
    by (auto simp: isNotStartNode_def intro: nots_trans)
next
  case (8 ts env ve i nm as a l)
  then obtain rs l1 where 1: "transform_list ts env ve (filter is_var as) l = Some (rs, l1)" "app_lir ve i nm rs l1 = (r, l')"
    by (auto split: option.splits)
  have "\<forall>e\<in>set (filter is_var as). nnf e" by (auto simp: is_var_def split: irexpr.splits)
  then have "nots_of_vars l l1" using 8(1) 1(1) by blast
  moreover have "nots_of_vars l1 l'" using 1(2) by (auto simp: app_lir_def isNotStartNode_def split: prod.splits intro: nots_new_node)
  ultimately show ?case by (rule nots_trans)
next
  case (10 ts env ve e es l)
  then obtain r1 l1 rs' where 1: "transform ts env ve e l = Some (r1, l1)" "transform_list ts env ve es l1 = Some (rs', l')"
    by (auto split: option.splits)
  then have "nots_of_vars l l1" "nots_of_vars l1 l'" using 10 by simp_all
  then show ?case by (rule nots_trans)
qed (auto simp: isNotStartNode_def split: option.splits intro: leaf_nots)

lemma laid_out_nnf:
  assumes "laid_out e l r l3 g" "nots_of_vars l2 l3" "counter l2 = Suc (Suc (counter l))" "grown l3 l'"
  shows "isNnf (context_of l') g"
  unfolding isNnf_verts
proof
  fix v assume v: "v \<in> verts g"
  have v': "v = counter l \<or> v = Suc (counter l) \<or> counter l2 \<le> v" "v < counter l3"
    using laid_out_facts(2) [OF assms(1)] v assms(3) by fastforce+
  have ends: "context_of l3 (counter l) = Some SourceNoAnnoNode" "context_of l3 (Suc (counter l)) = Some SinkNode"
    using assms(1) by (simp_all add: laid_out_def)
  have "\<exists>x<counter l3. h = vertex x \<and> isUBoolVarNode (context_of l3 x)" if "context_of l3 v = Some (NotStartNode h neg)" for h neg
    using assms(2) v' ends that unfolding nots_of_vars_def by (metis lir_node.distinct option.inject)
  then have "\<exists>x. h = vertex x \<and> isUBoolVarNode (context_of l' x)" if "context_of l' v = Some (NotStartNode h neg)" for h neg
    using assms(4) v'(2) that unfolding grown_def by metis
  then show "case context_of l' v of Some (NotStartNode negand x) \<Rightarrow> (case shape negand of Vertex x \<Rightarrow> isUBoolVarNode (context_of l' x) | _ \<Rightarrow> False)
      | _ \<Rightarrow> True"
    by (fastforce simp: vertex_def split: option.splits lir_node.splits)
qed


subsection \<open>What a ladder shows\<close>

lemma toLir_shown:
  assumes "sorts ts" "drawable e"
  obtains d l' r l3 g where "toLir ts env e l = Some (d, l')" "laid_out e l r l3 g"
    "shown g (counter l) (Suc (counter l)) (frame (counter l) (noBundlingGraph r) (Suc (counter l))) l3 d l'"
    "nnf e \<Longrightarrow> isNnf (context_of l3) g \<and> isNnf (context_of l') g" "ladder_expr d = e"
    "ladder_graphs d = jm_set (expr_id e) g (vizExprToLir r)"
    "\<exists>l2. transform ts env [] e l2 = Some (r, l3) \<and> counter l2 = Suc (Suc (counter l))"
proof -
  obtain r l3 g l2 where r: "laid_out e l r l3 g"
    "toLir ts env e l = makeLadderGraph ts env g (jm_set (expr_id e) g (vizExprToLir r)) e
      (frame (counter l) (noBundlingGraph r) (Suc (counter l))) l3"
    "transform ts env [] e l2 = Some (r, l3)" "counter l2 = Suc (Suc (counter l))"
    using transform_laid_out [OF assms, of l env] by blast
  have below: "verts g \<subseteq> {..<counter l3}" using laid_out_facts(2) [OF r(1)] by auto
  obtain d l' where "toLir ts env e l = Some (d, l')"
    "shown g (counter l) (Suc (counter l)) (frame (counter l) (noBundlingGraph r) (Suc (counter l))) l3 d l'"
    "ladder_graphs d = jm_set (expr_id e) g (vizExprToLir r)" "ladder_expr d = e"
    using makeLadderGraph_shown [OF assms(1) laid_out_facts(1) [OF r(1)] below] r(2) by metis
  moreover from this(2) have "isNnf (context_of l3) g \<and> isNnf (context_of l') g" if "nnf e"
    using laid_out_nnf [OF r(1) transform_nots(1) [OF r(3) that] r(4)] by (simp add: shown_def)
  ultimately show thesis using that r(1,3,4) by blast
qed

lemma laid_out_context:
  assumes "laid_out e l r l3 g" "grown l3 l'"
  shows "context_of l' (counter l) = Some SourceNoAnnoNode" "context_of l' (Suc (counter l)) = Some SinkNode"
    "\<And>v. v \<in> verts g \<Longrightarrow> context_of l' v = context_of l3 v"
proof -
  have low: "Suc (counter l) < counter l3"
    using laid_out_facts(1,2) [OF assms(1)] two_terminal_facts(4) by fastforce
  then show "context_of l' (counter l) = Some SourceNoAnnoNode" "context_of l' (Suc (counter l)) = Some SinkNode"
    using assms by (simp_all add: laid_out_def grown_def)
  show "context_of l' v = context_of l3 v" if "v \<in> verts g" for v
    using that laid_out_facts(2) [OF assms(1)] assms(2) by (auto simp: grown_def)
qed

lemma laid_out_good:
  assumes "laid_out e l r l3 g" "\<not> has_app e" "grown l3 l'"
  shows "good (context_of l') \<rho> g (counter l) (Suc (counter l)) (truth \<rho> e)"
proof -
  obtain l2 a b where d: "drawn e l2 r l3" and b: "between g (counter l) (Suc (counter l)) {(lir_graph r, a, b)}"
    using assms(1) by (auto simp: laid_out_def)
  have "agrees (context_of l') l2 l3" using assms(3) by (simp add: agrees_def grown_def)
  then obtain s t where st: "two_terminal (lir_graph r) s t" "good (context_of l') \<rho> (lir_graph r) s t (truth \<rho> e)"
    using d assms(2) by (auto simp: drawn_def)
  have "a = s" "b = t" using two_terminal_unique [OF st(1)] between_facts(1) [OF b] by blast+
  then have "good (context_of l') \<rho> g (counter l) (Suc (counter l)) (\<exists>p\<in>{(lir_graph r, a, b)}. truth \<rho> e)"
    using st(2) laid_out_context(1,2) [OF assms(1,3)]
    by (intro good_between [OF b]) (simp_all add: isNotStartNode_def)
  then show ?thesis by simp
qed

text \<open>The texts that are compared are those of the ids, which the sorter is given.\<close>

definition through :: "sorter \<Rightarrow> dag \<Rightarrow> lir_id list" where
  "through ts p = (case getTopSort ts p of None \<Rightarrow> [] | Some vs \<Rightarrow> vs)"

lemma path_order:
  assumes "sorts ts" "is_path_graph vs p" "vs \<in> st_walks g s t" "two_terminal g s t"
  shows "through ts p = vs"
proof -
  have "distinct vs" using assms(3) walk_distinct two_terminal_facts(2) [OF assms(4)] by (auto simp: st_walks_def)
  from path_graph_order [OF assms(1,2) this] show ?thesis by (simp add: through_def)
qed

text \<open>The paths of a ladder in negation normal form are the walks from its source to its sink.\<close>

lemma shown_paths:
  assumes "sorts ts" "two_terminal g s t" "shown g s t flat l d l'" "isNnf (context_of l) g"
  shows "(\<lambda>x. through ts (snd x)) ` set (ladder_paths d) = st_walks g s t"
    "distinct (map (\<lambda>x. through ts (snd x)) (ladder_paths d))"
proof -
  obtain bare where b: "distinct bare" "set bare = st_walks g s t"
    "list_all2 (\<lambda>vs x. is_path_graph vs (snd x)) bare (ladder_paths d)" using assms(3,4) by (auto simp: shown_def)
  have "map (\<lambda>x. through ts (snd x)) (ladder_paths d) = bare"
  proof (rule nth_equalityI)
    show "length (map (\<lambda>x. through ts (snd x)) (ladder_paths d)) = length bare" using list_all2_lengthD [OF b(3)] by simp
    fix i assume "i < length (map (\<lambda>x. through ts (snd x)) (ladder_paths d))"
    then have i: "i < length (ladder_paths d)" "i < length bare" using list_all2_lengthD [OF b(3)] by simp_all
    have "bare ! i \<in> st_walks g s t" using nth_mem [OF i(2)] by (simp only: b(2))
    from path_order [OF assms(1) list_all2_nthD [OF b(3) i(2)] this assms(2)] i(1)
    show "map (\<lambda>x. through ts (snd x)) (ladder_paths d) ! i = bare ! i" by simp
  qed
  then show "distinct (map (\<lambda>x. through ts (snd x)) (ladder_paths d))"
    "(\<lambda>x. through ts (snd x)) ` set (ladder_paths d) = st_walks g s t"
    using b(1,2) by (simp_all flip: set_map)
qed

lemma ladder_conducts:
  assumes "sorts ts" "drawable e" "nnf e" "\<not> has_app e"
  shows "\<exists>d l'. toLir ts env e l = Some (d, l') \<and>
    (\<forall>\<rho>. (\<exists>(i, p)\<in>set (ladder_paths d). conducts (context_of l') \<rho> (through ts p)) = truth \<rho> e)"
proof -
  obtain d l' r l3 g where d: "toLir ts env e l = Some (d, l')" "laid_out e l r l3 g"
    "shown g (counter l) (Suc (counter l)) (frame (counter l) (noBundlingGraph r) (Suc (counter l))) l3 d l'"
    "isNnf (context_of l3) g" "isNnf (context_of l') g"
    using toLir_shown [OF assms(1,2)] assms(3) by metis
  note tt = laid_out_facts(1) [OF d(2)]
  have grown: "grown l3 l'" using d(3) by (simp add: shown_def)
  have "(\<exists>(i, p)\<in>set (ladder_paths d). conducts (context_of l') \<rho> (through ts p)) \<longleftrightarrow>
      (\<exists>vs\<in>(\<lambda>x. through ts (snd x)) ` set (ladder_paths d). conducts (context_of l') \<rho> vs)" for \<rho> by force
  then show ?thesis
    using d(1,5) laid_out_good [OF d(2) assms(4) grown] unfolding shown_paths(1) [OF assms(1) tt d(3,4)] good_def by auto
qed


subsection \<open>Selections\<close>

datatype click = Toggle lir_id | SelectAll "lir_id list"

definition click_on :: "sorter \<Rightarrow> click \<Rightarrow> ladder \<Rightarrow> ladder option" where
  "click_on ts c d = (case c of Toggle v \<Rightarrow> toggle_node ts v d | SelectAll vs \<Rightarrow> select_nodes ts vs d)"

fun clicks :: "sorter \<Rightarrow> click list \<Rightarrow> ladder \<Rightarrow> ladder option" where
  "clicks ts [] d = Some d"
| "clicks ts (c # cs) d = (case click_on ts c d of None \<Rightarrow> None | Some d' \<Rightarrow> clicks ts cs d')"

definition chosen :: "click list \<Rightarrow> lir_id set \<Rightarrow> lir_id set" where
  "chosen cs S = fold (\<lambda>c S. case c of Toggle v \<Rightarrow> if v \<in> S then S - {v} else insert v S | SelectAll vs \<Rightarrow> set vs) cs S"

text \<open>The paths all of whose nodes that can be selected are.\<close>

definition covered :: "(lir_id \<rightharpoonup> lir_node) \<Rightarrow> lir_id set \<Rightarrow> (lir_id \<times> dag) list \<Rightarrow> (lir_id \<times> dag) set" where
  "covered C S ps = {x \<in> set ps. \<forall>v\<in>set (getVertices (snd x)). isSelectableNode (C v) \<longrightarrow> v \<in> S}"

lemma index_get:
  "distinct (map fst kis) \<Longrightarrow>
     jm_get (fold (\<lambda>(k, i). jm_set k i) kis m) k = (case jm_get kis k of None \<Rightarrow> jm_get m k | Some i \<Rightarrow> Some i)"
proof (induction kis arbitrary: m)
  case (Cons x kis)
  obtain k' i where x: "x = (k', i)" by (cases x)
  have none: "jm_get kis k' = None" using Cons.prems by (simp add: x map_of_eq_None_iff)
  have "jm_get (fold (\<lambda>(k, i). jm_set k i) kis (jm_set k' i m)) k =
      (case jm_get kis k of None \<Rightarrow> jm_get (jm_set k' i m) k | Some i \<Rightarrow> Some i)" using Cons by simp
  then show ?case using none by (cases "k = k'") (simp_all add: x js_simps cong: option.case_cong)
qed simp

lemma key_of_between:
  assumes "between g s t {(h, a, b)}" "q \<in> st_walks h a b" "\<not> isSelectableNode (C s)" "\<not> isSelectableNode (C t)"
  shows "key_of C s t (s # q @ [t]) = s # key C q @ [t]" "{v \<in> set (s # q @ [t]). isSelectableNode (C v)} = set (key C q)"
proof -
  have "set q \<subseteq> verts h" using st_walks_verts [OF between_facts(1) [OF assms(1)] assms(2)] by simp
  then have out: "s \<notin> set q" "t \<notin> set q" using between_facts(2,3) [OF assms(1)] by auto
  have "filter (\<lambda>v. (v = s \<or> v = t) \<or> isSelectableNode (C v)) q = key C q"
    unfolding key_def using out by (intro filter_cong) auto
  then show "key_of C s t (s # q @ [t]) = s # key C q @ [t]" by (simp add: key_of_def)
  show "{v \<in> set (s # q @ [t]). isSelectableNode (C v)} = set (key C q)" using assms(3,4) by (auto simp: key_def)
qed

text \<open>What the lookup of the walks through the selected nodes finds.\<close>

lemma frame_walk_selected:
  assumes "built flat" "ranked (arcs flat)" "s \<notin> verts flat" "t \<notin> verts flat" "s \<noteq> t"
    and "walk (arcs flat) q" "set q \<subseteq> verts flat"
  shows "s # q @ [t] \<in> st_walks (induce (\<lambda>v. v \<in> S \<or> s = v \<or> t = v) (frame s flat t)) s t \<longleftrightarrow> set q \<subseteq> S"
proof
  let ?P = "\<lambda>v. v \<in> S \<or> s = v \<or> t = v"
  assume "s # q @ [t] \<in> st_walks (induce ?P (frame s flat t)) s t"
  then obtain q' where q': "s # q @ [t] = s # q' @ [t]" "\<forall>v\<in>set q'. ?P v"
    using frame_walk_inside [OF assms(1-5), of ?P] by blast
  then have "\<forall>v\<in>set q. ?P v" by simp
  then show "set q \<subseteq> S" using assms(3,4,7) by auto
next
  assume "set q \<subseteq> S"
  then show "s # q @ [t] \<in> st_walks (induce (\<lambda>v. v \<in> S \<or> s = v \<or> t = v) (frame s flat t)) s t"
    using assms by (intro frame_walks) auto
qed

lemma found_paths:
  assumes "sorts ts" "built flat" "ranked (arcs flat)" "s \<notin> verts flat" "t \<notin> verts flat" "s \<noteq> t"
    and "noBundlingDag tr = frame s flat t"
  shows "\<exists>found. findCorrespondingLinPaths ts tr vs = Some found \<and>
    set found = {i. \<exists>p\<in>st_walks (induce (\<lambda>v. v \<in> set vs \<or> s = v \<or> t = v) (frame s flat t)) s t. jm_get (pathIndex tr) p = Some i}"
proof -
  let ?P = "\<lambda>v. v \<in> set vs \<or> s = v \<or> t = v"
  note F = frame_two_terminal [OF assms(2-6)] and I = frame_induced(3) [OF assms(2-6), of ?P]
  obtain ps g' bare where ps: "getAllPaths ts (induce ?P (frame s flat t)) = Some (ps, g')"
    "set bare = st_walks (induce ?P (frame s flat t)) s t" "map (getTopSort ts) ps = map Some bare"
    using two_terminal_paths [OF assms(1) I] by auto
  then have "findCorrespondingLinPaths ts tr vs =
      Some (concat (map (\<lambda>p. case jm_get (pathIndex tr) p of None \<Rightarrow> [] | Some i \<Rightarrow> [i]) bare))"
    using two_terminal_source [OF assms(1) F] two_terminal_sink [OF assms(1) F]
    by (simp add: findCorrespondingLinPaths_def assms(7) those_Some [THEN iffD2])
  moreover have "set (concat (map (\<lambda>p. case jm_get m p of None \<Rightarrow> [] | Some i \<Rightarrow> [i]) bare)) =
      {i. \<exists>p\<in>set bare. jm_get m p = Some i}" for m :: "(lir_id list, lir_id) jsmap"
    by (auto split: option.splits)
  ultimately show ?thesis unfolding ps(2) by blast
qed

text \<open>What stays when the user clicks: only the selection changes.\<close>

definition tracks :: "sorter \<Rightarrow> (lir_id \<rightharpoonup> lir_node) \<Rightarrow> ladder \<Rightarrow> bool" where
  "tracks ts C d \<longleftrightarrow> (\<exists>t. ladder_tracker d = Some t \<and> distinct (map fst (ladder_paths d)) \<and>
     (\<forall>(i, p)\<in>set (ladder_paths d). graph_ok p) \<and>
     (\<forall>S. \<exists>found. findCorrespondingLinPaths ts t S = Some found \<and> set found = fst ` covered C (set S) (ladder_paths d)))"

definition selects :: "(lir_id \<rightharpoonup> lir_node) \<Rightarrow> lir_id set \<Rightarrow> ladder \<Rightarrow> bool" where
  "selects C S d \<longleftrightarrow> set (selected_paths d) = fst ` covered C S (ladder_paths d) \<and>
     (\<forall>u v. edgeIsInHighlightedSubgraph d u v \<longleftrightarrow> (\<exists>x\<in>covered C S (ladder_paths d). hasEdge (snd x) u v))"

lemma update_paths_tracks:
  assumes "tracks ts C d" "ladder_tracker d = Some t" "noBundlingDag t' = noBundlingDag t" "pathIndex t' = pathIndex t"
  shows "\<exists>d'. update_paths ts t' d = Some d' \<and> tracks ts C d' \<and> selects C (set (tr_selected t')) d' \<and>
    ladder_paths d' = ladder_paths d \<and> ladder_tracker d' = Some t'"
proof -
  have find: "findCorrespondingLinPaths ts t' = findCorrespondingLinPaths ts t"
    by (intro ext) (simp only: findCorrespondingLinPaths_def assms(3,4))
  obtain found where found: "findCorrespondingLinPaths ts t (tr_selected t') = Some found"
    "set found = fst ` covered C (set (tr_selected t')) (ladder_paths d)"
    using assms(1,2) unfolding tracks_def by (metis option.inject)
  define d' where "d' = d\<lparr>ladder_tracker := Some t', selected_paths := set_of found,
    highlighted := overlays (concat (map (\<lambda>i. map snd (filter (\<lambda>(j, _). j = i) (ladder_paths d))) found))\<rparr>"
  have upd: "update_paths ts t' d = Some d'" by (simp add: update_paths_def find found(1) d'_def)
  have dist: "distinct (map fst (ladder_paths d))" and ok: "\<forall>(i, p)\<in>set (ladder_paths d). graph_ok p"
    using assms(1) by (auto simp: tracks_def)
  let ?gs = "concat (map (\<lambda>i. map snd (filter (\<lambda>(j, _). j = i) (ladder_paths d))) found)"
  have gs: "set ?gs = snd ` covered C (set (tr_selected t')) (ladder_paths d)"
  proof (intro set_eqI iffI)
    fix p assume "p \<in> set ?gs"
    then obtain i where i: "i \<in> set found" "(i, p) \<in> set (ladder_paths d)" by auto
    then obtain p' where p': "(i, p') \<in> covered C (set (tr_selected t')) (ladder_paths d)" using found(2) by auto
    then have "(i, p') \<in> set (ladder_paths d)" by (simp add: covered_def)
    then have "p' = p" using i(2) dist by (meson eq_key_imp_eq_value)
    then show "p \<in> snd ` covered C (set (tr_selected t')) (ladder_paths d)" using p' by force
  next
    fix p assume "p \<in> snd ` covered C (set (tr_selected t')) (ladder_paths d)"
    then obtain i where i: "(i, p) \<in> covered C (set (tr_selected t')) (ladder_paths d)" by auto
    then have "i \<in> set found" "(i, p) \<in> set (ladder_paths d)" unfolding found(2) by (force simp: covered_def)+
    then show "p \<in> set ?gs" by force
  qed
  have "\<forall>h\<in>set ?gs. graph_ok h" unfolding gs using ok by (auto simp: covered_def)
  note ov = overlays_ok(3) [OF this]
  have "highlighted d' = overlays ?gs" by (simp add: d'_def)
  then have high: "arcs (highlighted d') = (\<Union>p\<in>snd ` covered C (set (tr_selected t')) (ladder_paths d). arcs p)"
    by (simp only: ov gs)
  have paths: "ladder_paths d' = ladder_paths d" and picked: "set (selected_paths d') = fst ` covered C (set (tr_selected t')) (ladder_paths d)"
    by (simp_all add: d'_def found(2))
  have "selects C (set (tr_selected t')) d'"
    unfolding selects_def edgeIsInHighlightedSubgraph_def hasEdge_iff high paths picked by auto
  moreover have "tracks ts C d'" using assms(1,2) by (simp add: tracks_def d'_def find)
  ultimately show ?thesis using upd by (simp add: d'_def)
qed

lemma clicks_select:
  assumes "tracks ts C d" "ladder_tracker d = Some t" "selects C (set (tr_selected t)) d"
  shows "\<exists>d'. clicks ts cs d = Some d' \<and> selects C (chosen cs (set (tr_selected t))) d' \<and> ladder_paths d' = ladder_paths d"
  using assms
proof (induction cs arbitrary: d t)
  case (Cons c cs)
  obtain t' where t': "click_on ts c d = update_paths ts t' d" "noBundlingDag t' = noBundlingDag t" "pathIndex t' = pathIndex t"
    "set (tr_selected t') = (case c of Toggle v \<Rightarrow> if v \<in> set (tr_selected t) then set (tr_selected t) - {v}
       else insert v (set (tr_selected t)) | SelectAll vs \<Rightarrow> set vs)"
  proof (cases c)
    case (Toggle v)
    show thesis by (rule that [of "toggleNodeSelection v t"])
      (auto simp: Toggle click_on_def toggle_node_def Cons.prems(2) toggleNodeSelection_def)
  next
    case (SelectAll vs)
    show thesis by (rule that [of "selectNodes vs t"])
      (auto simp: SelectAll click_on_def select_nodes_def Cons.prems(2) selectNodes_def)
  qed
  obtain d1 where d1: "update_paths ts t' d = Some d1" "tracks ts C d1" "selects C (set (tr_selected t')) d1"
    "ladder_paths d1 = ladder_paths d" "ladder_tracker d1 = Some t'"
    using update_paths_tracks [OF Cons.prems(1,2) t'(2,3)] by blast
  have "chosen (c # cs) (set (tr_selected t)) = chosen cs (set (tr_selected t'))" by (simp add: chosen_def t'(4))
  then show ?case using Cons.IH [OF d1(2,5,3)] d1(1,4) t'(1) by simp
qed (simp add: chosen_def)


lemma walk_key:
  assumes "laid_out e l r l3 g" "isNnf (context_of l3) g"
  shows "vs \<in> st_walks g (counter l) (Suc (counter l)) \<Longrightarrow>
      \<exists>q. key_of (context_of l3) (counter l) (Suc (counter l)) vs = counter l # q @ [Suc (counter l)] \<and>
        walk (arcs (noBundlingGraph r)) q \<and> set q \<subseteq> verts (noBundlingGraph r) \<and>
        set q = {v \<in> set vs. isSelectableNode (context_of l3 v)}"
    "inj_on (key_of (context_of l3) (counter l) (Suc (counter l))) (st_walks g (counter l) (Suc (counter l)))"
proof -
  let ?C = "context_of l3" and ?s = "counter l" and ?t = "Suc (counter l)"
  obtain a b where b: "between g ?s ?t {(lir_graph r, a, b)}" using assms(1) by (auto simp: laid_out_def)
  have tt: "two_terminal (lir_graph r) a b" using between_facts(1) [OF b] by simp
  have "isNnf ?C (lir_graph r)" using isNnf_mono [OF assms(2) between_facts(7) [OF b]] by simp
  then have k: "\<And>q. q \<in> st_walks (lir_graph r) a b \<Longrightarrow>
        walk (arcs (noBundlingGraph r)) (key ?C q) \<and> set (key ?C q) \<subseteq> verts (noBundlingGraph r)"
    "inj_on (key ?C) (st_walks (lir_graph r) a b)"
    using laid_out_flat(5) [OF assms(1)] tt unfolding keyed_def by blast+
  have ends: "\<not> isSelectableNode (?C ?s)" "\<not> isSelectableNode (?C ?t)"
    using assms(1) by (simp_all add: laid_out_def isSelectableNode_def)
  have walks: "st_walks g ?s ?t = {?s # q @ [?t] |q. q \<in> st_walks (lir_graph r) a b}"
    using between_walks [OF b] by simp
  note key = key_of_between [OF b _ ends]
  show "\<exists>q. key_of ?C ?s ?t vs = ?s # q @ [?t] \<and> walk (arcs (noBundlingGraph r)) q \<and>
      set q \<subseteq> verts (noBundlingGraph r) \<and> set q = {v \<in> set vs. isSelectableNode (?C v)}"
    if "vs \<in> st_walks g ?s ?t"
  proof -
    obtain q where q: "vs = ?s # q @ [?t]" "q \<in> st_walks (lir_graph r) a b" using \<open>vs \<in> st_walks g ?s ?t\<close> walks by blast
    show ?thesis using key [OF q(2)] k(1) [OF q(2)] by (intro exI [of _ "key ?C q"]) (simp add: q(1))
  qed
  show "inj_on (key_of ?C ?s ?t) (st_walks g ?s ?t)"
    unfolding inj_on_def walks using key(1) k(2) by (auto dest: inj_onD)
qed

lemma index_iff:
  assumes "distinct (map fst kis)"
  shows "jm_get (fold (\<lambda>(k, i). jm_set k i) kis []) k = Some i \<longleftrightarrow> (k, i) \<in> set kis"
  using index_get [OF assms, of "[]" k] map_of_eq_Some_iff [OF assms, of k i] by (cases "jm_get kis k") simp_all

text \<open>The index of a new ladder leads from what can be selected of a path to the path.\<close>

lemma shown_index:
  assumes "laid_out e l r l3 g" "isNnf (context_of l3) g"
    and "shown g (counter l) (Suc (counter l)) (frame (counter l) (noBundlingGraph r) (Suc (counter l))) l3 d l'"
  obtains bare tr where "\<And>j. j < length (ladder_paths d) \<Longrightarrow> bare ! j \<in> st_walks g (counter l) (Suc (counter l))"
    "\<And>j. j < length (ladder_paths d) \<Longrightarrow> is_path_graph (bare ! j) (snd (ladder_paths d ! j))"
    "ladder_tracker d = Some tr" "tr_selected tr = []"
    "noBundlingDag tr = frame (counter l) (noBundlingGraph r) (Suc (counter l))"
    "\<And>k i. jm_get (pathIndex tr) k = Some i \<longleftrightarrow> (\<exists>j<length (ladder_paths d).
       k = key_of (context_of l3) (counter l) (Suc (counter l)) (bare ! j) \<and> i = fst (ladder_paths d ! j))"
    "distinct (map fst (ladder_paths d))"
proof -
  let ?s = "counter l" and ?t = "Suc (counter l)" and ?k = "key_of (context_of l3) (counter l) (Suc (counter l))"
  let ?ps = "ladder_paths d"
  obtain bare where bare: "distinct bare" "set bare = st_walks g ?s ?t" "list_all2 (\<lambda>vs x. is_path_graph vs (snd x)) bare ?ps"
    and dist: "distinct (map fst ?ps)" and tr: "ladder_tracker d = Some \<lparr>tr_selected = [],
      noBundlingDag = frame ?s (noBundlingGraph r) ?t,
      pathIndex = fold (\<lambda>(k, i). jm_set k i) (zip (map ?k bare) (map fst ?ps)) []\<rparr>"
    using assms(2,3) by (auto simp: shown_def)
  have len: "length bare = length ?ps" using list_all2_lengthD [OF bare(3)] .
  have mem: "bare ! j \<in> st_walks g ?s ?t" if "j < length ?ps" for j using nth_mem [of j bare] that len by (simp only: bare(2))
  have "distinct (map ?k bare)" using bare(1,2) walk_key(2) [OF assms(1,2)] by (simp add: distinct_map)
  then have dk: "distinct (map fst (zip (map ?k bare) (map fst ?ps)))" using len by simp
  have get: "jm_get (fold (\<lambda>(k, i). jm_set k i) (zip (map ?k bare) (map fst ?ps)) []) k = Some i \<longleftrightarrow>
      (\<exists>j<length ?ps. k = ?k (bare ! j) \<and> i = fst (?ps ! j))" for k i
    unfolding index_iff [OF dk] using len by (simp add: set_zip) (metis nth_map)
  show thesis by (rule that [OF mem _ tr _ _ _ dist]) (use get list_all2_nthD2 [OF bare(3)] in simp_all)
qed

lemma shown_selected:
  assumes "laid_out e l r l3 g" "isNnf (context_of l3) g" "grown l3 l'"
    and "vs \<in> st_walks g (counter l) (Suc (counter l))" "is_path_graph vs p" "(i, p) \<in> set ps"
  shows "key_of (context_of l3) (counter l) (Suc (counter l)) vs \<in>
      st_walks (induce (\<lambda>v. v \<in> S \<or> counter l = v \<or> Suc (counter l) = v)
        (frame (counter l) (noBundlingGraph r) (Suc (counter l)))) (counter l) (Suc (counter l)) \<longleftrightarrow>
    (i, p) \<in> covered (context_of l') S ps" "(i, p) \<notin> covered (context_of l') {} ps"
proof -
  let ?s = "counter l" and ?t = "Suc (counter l)"
  note flat = laid_out_flat [OF assms(1)]
  obtain q where q: "key_of (context_of l3) ?s ?t vs = ?s # q @ [?t]" "walk (arcs (noBundlingGraph r)) q"
    "set q \<subseteq> verts (noBundlingGraph r)" "set q = {v \<in> set vs. isSelectableNode (context_of l3 v)}"
    using walk_key(1) [OF assms(1,2,4)] by blast
  have sel: "isSelectableNode (context_of l' v) = isSelectableNode (context_of l3 v)" if "v \<in> set vs" for v
    using st_walks_verts [OF laid_out_facts(1) [OF assms(1)] assms(4)] that laid_out_context(3) [OF assms(1,3)] by auto
  have "set (getVertices p) = set vs" using assms(5) by (simp add: is_path_graph_def getVertices_def verts_def)
  then have cov: "(i, p) \<in> covered (context_of l') S ps \<longleftrightarrow> set q \<subseteq> S" for S
    unfolding covered_def q(4) using assms(6) sel by auto
  have out: "?s \<notin> verts (noBundlingGraph r)" "?t \<notin> verts (noBundlingGraph r)" "?s \<noteq> ?t"
    using flat(3) laid_out_facts(4,5) [OF assms(1)] by auto
  show "key_of (context_of l3) ?s ?t vs \<in> st_walks (induce (\<lambda>v. v \<in> S \<or> ?s = v \<or> ?t = v) (frame ?s (noBundlingGraph r) ?t)) ?s ?t \<longleftrightarrow>
      (i, p) \<in> covered (context_of l') S ps"
    unfolding q(1) cov by (rule frame_walk_selected [OF flat(1,2) out q(2,3)])
  show "(i, p) \<notin> covered (context_of l') {} ps" unfolding cov using walk_nonempty [OF q(2)] by simp
qed

lemma shown_tracks:
  assumes "sorts ts" "laid_out e l r l3 g" "isNnf (context_of l3) g"
    and "shown g (counter l) (Suc (counter l)) (frame (counter l) (noBundlingGraph r) (Suc (counter l))) l3 d l'"
  shows "tracks ts (context_of l') d" "selects (context_of l') {} d" "\<exists>t. ladder_tracker d = Some t \<and> tr_selected t = []"
proof -
  let ?s = "counter l" and ?t = "Suc (counter l)" and ?k = "key_of (context_of l3) (counter l) (Suc (counter l))"
  let ?ps = "ladder_paths d"
  obtain bare tr where b: "\<And>j. j < length ?ps \<Longrightarrow> bare ! j \<in> st_walks g ?s ?t"
    "\<And>j. j < length ?ps \<Longrightarrow> is_path_graph (bare ! j) (snd (?ps ! j))"
    and tr: "ladder_tracker d = Some tr" "tr_selected tr = []" "noBundlingDag tr = frame ?s (noBundlingGraph r) ?t"
    and get: "\<And>k i. jm_get (pathIndex tr) k = Some i \<longleftrightarrow> (\<exists>j<length ?ps. k = ?k (bare ! j) \<and> i = fst (?ps ! j))"
    and dist: "distinct (map fst ?ps)"
    by (rule shown_index [OF assms(2-4)]) blast
  have grown: "grown l3 l'" using assms(4) by (simp add: shown_def)
  note flat = laid_out_flat [OF assms(2)]
  have out: "?s \<notin> verts (noBundlingGraph r)" "?t \<notin> verts (noBundlingGraph r)" "?s \<noteq> ?t"
    using flat(3) laid_out_facts(4,5) [OF assms(2)] by auto
  have chosen: "?k (bare ! j) \<in> st_walks (induce (\<lambda>v. v \<in> S \<or> ?s = v \<or> ?t = v) (frame ?s (noBundlingGraph r) ?t)) ?s ?t \<longleftrightarrow>
      ?ps ! j \<in> covered (context_of l') S ?ps" "?ps ! j \<notin> covered (context_of l') {} ?ps" if j: "j < length ?ps" for j S
    using shown_selected [OF assms(2,3) grown b(1) [OF j] b(2) [OF j], of "fst (?ps ! j)" ?ps] nth_mem [OF j] by simp_all
  have at: "\<exists>j<length ?ps. x = ?ps ! j" if "x \<in> covered (context_of l') S ?ps" for x S
    using that unfolding covered_def by (metis (no_types, lifting) in_set_conv_nth mem_Collect_eq)
  have "\<exists>found. findCorrespondingLinPaths ts tr S = Some found \<and> set found = fst ` covered (context_of l') (set S) ?ps" for S
  proof -
    let ?W = "st_walks (induce (\<lambda>v. v \<in> set S \<or> ?s = v \<or> ?t = v) (frame ?s (noBundlingGraph r) ?t)) ?s ?t"
    have "{i. \<exists>p\<in>?W. \<exists>j<length ?ps. p = ?k (bare ! j) \<and> i = fst (?ps ! j)} = fst ` covered (context_of l') (set S) ?ps" (is "?L = _")
    proof (intro set_eqI iffI)
      fix i assume "i \<in> ?L"
      then show "i \<in> fst ` covered (context_of l') (set S) ?ps" using chosen(1) by blast
    next
      fix i assume "i \<in> fst ` covered (context_of l') (set S) ?ps"
      then obtain j where "j < length ?ps" "?ps ! j \<in> covered (context_of l') (set S) ?ps" "i = fst (?ps ! j)" using at by blast
      then show "i \<in> ?L" using chosen(1) by blast
    qed
    then show ?thesis using found_paths [OF assms(1) flat(1,2) out tr(3), of S] by (simp add: get)
  qed
  moreover have "\<forall>(i, p)\<in>set ?ps. graph_ok p"
    using b(2) by (fastforce simp: in_set_conv_nth is_path_graph_def)
  ultimately show "tracks ts (context_of l') d" using dist tr(1) by (simp add: tracks_def)
  show "\<exists>t. ladder_tracker d = Some t \<and> tr_selected t = []" using tr(1,2) by blast
  have "covered (context_of l') {} ?ps = {}" using at chosen(2) by blast
  then show "selects (context_of l') {} d" using assms(3,4)
    by (simp add: selects_def shown_def edgeIsInHighlightedSubgraph_def hasEdge_iff)
qed

lemma clicks_on_new:
  assumes "sorts ts" "drawable e" "nnf e"
  shows "\<exists>d l'. toLir ts env e l = Some (d, l') \<and>
    (\<forall>cs. \<exists>d'. clicks ts cs d = Some d' \<and> selects (context_of l') (chosen cs {}) d' \<and> ladder_paths d' = ladder_paths d)"
proof -
  obtain d l' r l3 g where d: "toLir ts env e l = Some (d, l')" "laid_out e l r l3 g"
    "shown g (counter l) (Suc (counter l)) (frame (counter l) (noBundlingGraph r) (Suc (counter l))) l3 d l'"
    "isNnf (context_of l3) g"
    using toLir_shown [OF assms(1,2)] assms(3) by metis
  note tracks = shown_tracks [OF assms(1) d(2,4,3)]
  obtain t where "ladder_tracker d = Some t" "tr_selected t = []" using tracks(3) by blast
  then show ?thesis using d(1) clicks_select [OF tracks(1)] tracks(2) by (metis empty_set)
qed


subsection \<open>A sort\<close>

text \<open>A sort that keeps the promise: take away a node that no edge goes into, as long as there is one.\<close>

fun kahn :: "nat \<Rightarrow> string list \<Rightarrow> (string \<times> string) list \<Rightarrow> string list option" where
  "kahn 0 ns es = (if ns = [] then Some [] else None)"
| "kahn (Suc fuel) ns es =
     (case find (\<lambda>v. list_all (\<lambda>e. snd e \<noteq> v) es) ns of
        None \<Rightarrow> (if ns = [] then Some [] else None)
      | Some v \<Rightarrow> map_option (Cons v) (kahn fuel (remove1 v ns) (filter (\<lambda>e. fst e \<noteq> v) es)))"

definition kahn_sort :: sorter where
  "kahn_sort ns es = kahn (length ns) ns es"

lemma kahn_orders:
  assumes "distinct ns" "set es \<subseteq> set ns \<times> set ns" "length ns \<le> fuel"
  shows "case kahn fuel ns es of None \<Rightarrow> \<not> acyclic (set es)
    | Some order \<Rightarrow> distinct order \<and> set order = set ns \<and> (\<forall>(u, v)\<in>set es. before order u v)"
  using assms
proof (induction fuel arbitrary: ns es)
  case (Suc fuel)
  show ?case
  proof (cases "find (\<lambda>v. list_all (\<lambda>e. snd e \<noteq> v) es) ns")
    case None
    have "\<not> acyclic (set es)" if "ns \<noteq> []"
    proof
      assume "acyclic (set es)"
      then have "wf (set es)" by (simp add: finite_acyclic_wf)
      then obtain z where z: "z \<in> set ns" "\<And>y. (y, z) \<in> set es \<Longrightarrow> y \<notin> set ns"
        using wfE_min [of "set es" "hd ns" "set ns"] \<open>ns \<noteq> []\<close> by auto
      then obtain y where "(y, z) \<in> set es" using None by (auto simp: find_None_iff list_all_iff)
      then show False using z(2) Suc.prems(2) by auto
    qed
    then show ?thesis using None Suc.prems(2) by auto
  next
    case (Some v)
    then have v: "v \<in> set ns" "\<forall>e\<in>set es. snd e \<noteq> v" by (auto simp: find_Some_iff list_all_iff)
    let ?ns = "remove1 v ns" and ?es = "filter (\<lambda>e. fst e \<noteq> v) es"
    have ns: "distinct ?ns" "set ?ns = set ns - {v}" "length ?ns \<le> fuel"
      using Suc.prems(1,3) v(1) by (simp_all add: length_remove1)
    have es: "set ?es \<subseteq> set ?ns \<times> set ?ns" using Suc.prems(2) v(2) unfolding ns(2) by fastforce
    note IH = Suc.IH [OF ns(1) es ns(3)]
    show ?thesis
    proof (cases "kahn fuel ?ns ?es")
      case None
      then have "\<not> acyclic (set ?es)" using IH by (simp only: option.case simp_thms)
      then have "\<not> acyclic (set es)" by (meson acyclic_subset filter_is_subset)
      then show ?thesis using Some None by simp
    next
      case (Some order)
      then have o: "distinct order" "set order = set ns - {v}" "\<forall>(u, v)\<in>set ?es. before order u v" using IH ns(2) by simp_all
      have "before (v # order) a b" if ab: "(a, b) \<in> set es" for a b
      proof (cases "a = v")
        case True
        have "b \<in> set order" using ab Suc.prems(2) v(2) o(2) by auto
        then obtain xs ys where "order = xs @ b # ys" by (meson split_list)
        then have "v # order = [] @ a # xs @ b # ys" using True by simp
        then show ?thesis unfolding before_def by blast
      next
        case False
        then have "before order a b" using o(3) ab by auto
        then show ?thesis unfolding before_def by (metis append_Cons)
      qed
      then show ?thesis using \<open>find _ ns = Some v\<close> Some o v(1) by auto
    qed
  qed
qed simp

lemma kahn_sorts: "sorts kahn_sort"
  unfolding sorts_def kahn_sort_def
proof (intro allI impI)
  fix ns :: "string list" and es
  assume "distinct ns \<and> distinct es \<and> set es \<subseteq> set ns \<times> set ns"
  then show "case kahn (length ns) ns es of None \<Rightarrow> \<not> acyclic (set es)
    | Some order \<Rightarrow> distinct order \<and> set order = set ns \<and> (\<forall>(u, v)\<in>set es. before order u v)"
    by (intro kahn_orders) simp_all
qed

subsection \<open>The drawn ladder\<close>

definition lv_var :: "irid \<Rightarrow> unique \<Rightarrow> irexpr" where
  "lv_var i u = UBoolVar i \<lparr>unique_of = u, label = ''v''\<rparr> UnknownV False ''a''"

definition lv_example :: irexpr where
  "lv_example = And 1 [lv_var 2 0, Or 3 [lv_var 4 1, Not 5 (lv_var 6 2)]]"

definition lv_env :: ladder_env where
  "lv_env = \<lparr>andEdgeLabel = ''AND'', orBundlingNodeLabel = ''ANY''\<rparr>"

definition lv_new :: lir where
  "lv_new = \<lparr>counter = 0, context_of = Map.empty\<rparr>"

lemma lv_example_ok: "drawable lv_example" "nnf lv_example" "\<not> has_app lv_example" "unique_ids lv_example"
  by (simp_all add: lv_example_def lv_var_def is_var_def unique_ids_def)

lemma two_terminal_sinks:
  assumes "two_terminal g s t" "v \<in> verts g"
  shows "(v, t) \<in> (arcs g)\<^sup>*"
proof -
  have "finite (arcs g)" using two_terminal_facts(5) [OF assms(1)] by (auto intro: finite_subset)
  then have "wf ((arcs g)\<inverse>)" using two_terminal_facts(2) [OF assms(1)] by (intro finite_acyclic_wf_converse)
  then show ?thesis using assms(2)
  proof (induction v rule: wf_induct_rule)
    case (less v)
    show ?case
    proof (cases "v = t")
      case False
      then obtain w where w: "(v, w) \<in> arcs g" using two_terminal_ends(2) [OF assms(1) less.prems] by blast
      then have "w \<in> verts g" using two_terminal_facts(5) [OF assms(1)] by auto
      with less.IH [of w] w show ?thesis by (auto intro: converse_rtrancl_into_rtrancl)
    qed simp
  qed
qed

text \<open>C7: every expression whose conjunctions and disjunctions have parts is drawn: the build returns, with a graph that
  has no cycle, one source and one sink with every node between them, and, when every negation is of a variable, with
  exactly the paths from the source to the sink, each once.\<close>

theorem ladder_drawn:
  assumes "sorts ts" "drawable e"
  shows "\<exists>d l' s t. toLir ts env e l = Some (d, l') \<and> acyclic (arcs (ladder_dag d)) \<and>
    getSource ts (ladder_dag d) = Some (vertex s) \<and> context_of l' s = Some SourceNoAnnoNode \<and>
    getSink ts (ladder_dag d) = Some (vertex t) \<and> context_of l' t = Some SinkNode \<and>
    (\<forall>v\<in>set (getVertices (ladder_dag d)). (s, v) \<in> (arcs (ladder_dag d))\<^sup>* \<and> (v, t) \<in> (arcs (ladder_dag d))\<^sup>*) \<and>
    (nnf e \<longrightarrow> distinct (map (\<lambda>x. through ts (snd x)) (ladder_paths d)) \<and>
       (\<lambda>x. through ts (snd x)) ` set (ladder_paths d) = {p. walk (arcs (ladder_dag d)) p \<and> hd p = s \<and> last p = t})"
proof -
  obtain d l' r l3 g where d: "toLir ts env e l = Some (d, l')" "laid_out e l r l3 g"
    "shown g (counter l) (Suc (counter l)) (frame (counter l) (noBundlingGraph r) (Suc (counter l))) l3 d l'"
    and nnf: "nnf e \<Longrightarrow> isNnf (context_of l3) g" using toLir_shown [OF assms] by metis
  have grown: "grown l3 l'" and same: "same_graph (ladder_dag d) g" using d(3) by (simp_all add: shown_def)
  note tt = laid_out_facts(1) [OF d(2)] and S = same_graph_facts [OF same]
  have "set (getVertices (ladder_dag d)) = verts g" using S(1) by (simp add: getVertices_def verts_def)
  then have mid: "\<forall>v\<in>set (getVertices (ladder_dag d)). (counter l, v) \<in> (arcs (ladder_dag d))\<^sup>* \<and>
      (v, Suc (counter l)) \<in> (arcs (ladder_dag d))\<^sup>*"
    unfolding S(2) using two_terminal_reach [OF tt] two_terminal_sinks [OF tt] by blast
  have paths: "nnf e \<longrightarrow> distinct (map (\<lambda>x. through ts (snd x)) (ladder_paths d)) \<and>
      (\<lambda>x. through ts (snd x)) ` set (ladder_paths d) =
        {p. walk (arcs (ladder_dag d)) p \<and> hd p = counter l \<and> last p = Suc (counter l)}"
    using shown_paths [OF assms(1) tt d(3) nnf] unfolding S(2) st_walks_def by blast
  have "acyclic (arcs (ladder_dag d))" unfolding S(2) by (rule two_terminal_facts(2) [OF tt])
  moreover have "getSource ts (ladder_dag d) = Some (vertex (counter l))"
    unfolding S(5) by (rule two_terminal_source [OF assms(1) tt])
  moreover have "getSink ts (ladder_dag d) = Some (vertex (Suc (counter l)))"
    unfolding S(6) by (rule two_terminal_sink [OF assms(1) tt])
  ultimately show ?thesis
    using d(1) laid_out_context(1,2) [OF d(2) grown] mid paths by blast
qed

theorem ladder_drawn_witness:
  "\<exists>d l' s t. toLir kahn_sort lv_env lv_example lv_new = Some (d, l') \<and> acyclic (arcs (ladder_dag d)) \<and>
     context_of l' s = Some SourceNoAnnoNode \<and> context_of l' t = Some SinkNode \<and>
     (\<lambda>x. through kahn_sort (snd x)) ` set (ladder_paths d) = {p. walk (arcs (ladder_dag d)) p \<and> hd p = s \<and> last p = t}"
  using ladder_drawn [OF kahn_sorts lv_example_ok(1), of lv_env lv_new] lv_example_ok(2) by blast

text \<open>C5: the drawn ladder says what the expression says: when every negation is of a variable, current flows along one
  of its paths from end to end exactly when the expression holds.\<close>

theorem ladder_correct:
  assumes "sorts ts" "drawable e" "nnf e" "\<not> has_app e"
  shows "\<exists>d l'. toLir ts env e l = Some (d, l') \<and>
    (\<forall>app \<rho>. (\<exists>(i, p)\<in>set (ladder_paths d). conducts (context_of l') \<rho> (through ts p)) = holds app \<rho> e)"
proof -
  obtain d l' where d: "toLir ts env e l = Some (d, l')"
    "\<forall>\<rho>. (\<exists>(i, p)\<in>set (ladder_paths d). conducts (context_of l') \<rho> (through ts p)) = truth \<rho> e"
    using ladder_conducts [OF assms] by blast
  show ?thesis
  proof (intro exI conjI allI)
    show "toLir ts env e l = Some (d, l')" by (rule d(1))
    fix app \<rho>
    have "holds app \<rho> e = truth \<rho> e" by (rule holds_no_app [OF assms(4)])
    then show "(\<exists>(i, p)\<in>set (ladder_paths d). conducts (context_of l') \<rho> (through ts p)) = holds app \<rho> e"
      using d(2) by simp
  qed
qed

theorem ladder_correct_witness:
  "\<exists>d l'. toLir kahn_sort lv_env lv_example lv_new = Some (d, l') \<and>
     (\<exists>(i, p)\<in>set (ladder_paths d). conducts (context_of l') (\<lambda>u. u = 0) (through kahn_sort p)) \<and>
     \<not> (\<exists>(i, p)\<in>set (ladder_paths d). conducts (context_of l') (\<lambda>u. u = 0 \<or> u = 2) (through kahn_sort p))"
proof -
  have "truth (\<lambda>u. u = 0) lv_example" "\<not> truth (\<lambda>u. u = 0 \<or> u = 2) lv_example"
    by (simp_all add: lv_example_def lv_var_def)
  moreover obtain d l' where "toLir kahn_sort lv_env lv_example lv_new = Some (d, l')"
    "\<forall>app \<rho>. (\<exists>(i, p)\<in>set (ladder_paths d). conducts (context_of l') \<rho> (through kahn_sort p)) = holds app \<rho> lv_example"
    using ladder_correct [OF kahn_sorts lv_example_ok(1-3), of lv_env lv_new] by blast
  ultimately show ?thesis by (intro exI [of _ d] exI [of _ l']) simp
qed

text \<open>C8: whatever the user has clicked, the paths that are selected in the list are those whose selectable nodes all
  are, and the highlighted edges are the edges of these paths.\<close>

theorem selection_exact:
  assumes "sorts ts" "drawable e" "nnf e" "toLir ts env e l = Some (d, l')"
  shows "\<exists>d'. clicks ts cs d = Some d' \<and>
    set (selected_paths d') = fst ` covered (context_of l') (chosen cs {}) (ladder_paths d) \<and>
    (\<forall>u v. edgeIsInHighlightedSubgraph d' u v \<longleftrightarrow>
       (\<exists>(i, p)\<in>covered (context_of l') (chosen cs {}) (ladder_paths d). hasEdge p u v))"
proof -
  obtain d1 l1 where 1: "toLir ts env e l = Some (d1, l1)"
    "\<forall>cs. \<exists>d'. clicks ts cs d1 = Some d' \<and> selects (context_of l1) (chosen cs {}) d' \<and> ladder_paths d' = ladder_paths d1"
    using clicks_on_new [OF assms(1-3)] by blast
  then have same: "d1 = d" "l1 = l'" using assms(4) by simp_all
  obtain d' where d': "clicks ts cs d = Some d'" "selects (context_of l') (chosen cs {}) d'" "ladder_paths d' = ladder_paths d"
    using 1(2) unfolding same by blast
  show ?thesis using d'(1,2) unfolding selects_def d'(3) by (intro exI [of _ d']) (simp add: case_prod_beta)
qed

theorem selection_exact_witness:
  "\<exists>d l' d'. toLir kahn_sort lv_env lv_example lv_new = Some (d, l') \<and>
     clicks kahn_sort [Toggle 2, SelectAll [2, 3], Toggle 3, Toggle 3] d = Some d' \<and>
     set (selected_paths d') = fst ` covered (context_of l') {2, 3} (ladder_paths d)"
proof -
  obtain d l' where d: "toLir kahn_sort lv_env lv_example lv_new = Some (d, l')"
    using ladder_conducts [OF kahn_sorts lv_example_ok(1-3)] by blast
  have "chosen [Toggle 2, SelectAll [2, 3], Toggle 3, Toggle 3] {} = {2, 3}" by (auto simp: chosen_def)
  then show ?thesis
    using selection_exact [OF kahn_sorts lv_example_ok(1,2) d, of "[Toggle 2, SelectAll [2, 3], Toggle 3, Toggle 3]"] d by auto
qed

end
