(* ===== verification/LadderState.thy ===== *)
theory LadderState
  imports LadderView QueryPlan
begin

text \<open>
  The ladder that the user answers: \<^verbatim>\<open>BaseLadderGraphLirNode\<close> and \<^verbatim>\<open>makeLadderGraphLirNode\<close> of
  \<^verbatim>\<open>ts-shared/l4-ladder-visualizer/src/lib/layout-ir/ladder-graph/ladder.svelte.ts\<close>. It puts together the
  drawing (\<^verbatim>\<open>LadderView\<close>), the evaluator, the partial evaluation and the query planner's override: an answer is
  bound, the expression evaluated, and the parts of the drawing that the answers so far have made moot are faded.

  \<^verbatim>\<open>None\<close> is a promise that is rejected. What subscribers are told and the zen mode are left out. The map of
  intermediate values has no order here; its keys are ids of the expression and are gone through in its order, which
  only decides how the overlay of the faded graphs is nested.
\<close>

subsection \<open>The state\<close>

record answers =
  bindings :: assignment
  evalResult :: eval_result
  nonViableSubgraph :: dag
  irrelevantSubgraph :: dag
  shortCircuitedSubgraph :: dag
  partialEvalAnalyzer :: analyzer
  partialEvalAnalysis :: "analysis option"
  elicitationOverride :: "elicitation_override option"
  uniqueToLabel :: "(unique, string) jsmap"
  uniqueToAtomId :: "(unique, string) jsmap"
  atomIdToUniques :: "(string, unique list) jsmap"

text \<open>The nodes of the graph, with the arguments of its calls, and the variables among them.\<close>

definition getChildren :: "(lir_id \<rightharpoonup> lir_node) \<Rightarrow> ladder \<Rightarrow> lir_id list" where
  "getChildren context d =
     (let topVertices = getVertices (ladder_dag d)
      in topVertices @ concat (map (\<lambda>v. case context v of Some (AppNode _ args) \<Rightarrow> args | _ \<Rightarrow> []) topVertices))"

definition varNodes :: "(lir_id \<rightharpoonup> lir_node) \<Rightarrow> ladder \<Rightarrow> (name \<times> ubool \<times> string) list" where
  "varNodes context d =
     concat (map (\<lambda>v. case context v of Some (UBoolVarNode (UBoolVar _ nm v _ atom)) \<Rightarrow> [(nm, v, atom)] | _ \<Rightarrow> [])
       (getChildren context d))"

definition groupByAtomId :: "(unique, string) jsmap \<Rightarrow> (string, unique list) jsmap" where
  "groupByAtomId m =
     fold (\<lambda>(u, aid) out. jm_set aid ((case jm_get out aid of None \<Rightarrow> [] | Some us \<Rightarrow> us) @ [u]) out) m []"

definition new_answers :: "(lir_id \<rightharpoonup> lir_node) \<Rightarrow> ladder \<Rightarrow> dq_error + answers" where
  "new_answers context d =
     (let vars = varNodes context d;
          atomIds = fold (\<lambda>(nm, _, atom). jm_set (unique_of nm) atom) vars []
      in case new_analyzer (ladder_expr d) None of
           Inl err \<Rightarrow> Inl err
         | Inr an \<Rightarrow>
             Inr \<lparr>bindings = fromEntries (map (\<lambda>(nm, v, _). (unique_of nm, v)) vars),
               evalResult = \<lparr>result = Some UnknownV, intermediate = Map.empty, consultedUniques = [], shortCircuitedRoots = []\<rparr>,
               nonViableSubgraph = empty, irrelevantSubgraph = empty, shortCircuitedSubgraph = empty,
               partialEvalAnalyzer = an, partialEvalAnalysis = None, elicitationOverride = None,
               uniqueToLabel = fold (\<lambda>(nm, _, _). jm_set (unique_of nm) (label nm)) vars [],
               uniqueToAtomId = atomIds, atomIdToUniques = groupByAtomId atomIds\<rparr>)"

subsection \<open>What is moot\<close>

text \<open>The subgraphs of some expressions, by their ids; those that have none are skipped.\<close>

definition overlay_of :: "(irid, dag) jsmap \<Rightarrow> irid list \<Rightarrow> dag" where
  "overlay_of graphs ids =
     foldr (\<lambda>g acc. overlay acc g) (concat (map (\<lambda>i. case jm_get graphs i of None \<Rightarrow> [] | Some g \<Rightarrow> [g]) ids)) empty"

definition computeNonViableSubgraph :: "ladder \<Rightarrow> eval_result \<Rightarrow> dag option" where
  "computeNonViableSubgraph d r =
     (let entries = filter (\<lambda>i. intermediate r i \<noteq> None) (node_ids (ladder_expr d))
      in case those (map (\<lambda>i. case intermediate r i of None \<Rightarrow> None | Some v \<Rightarrow> isFalseVal v) entries) of
           None \<Rightarrow> None
         | Some flags \<Rightarrow> Some (overlay_of (ladder_graphs d) (map fst (filter snd (zip entries flags)))))"

definition doEvalLadderExprWithVarBindings :: "connection \<Rightarrow> ladder \<Rightarrow> answers \<Rightarrow> answers option" where
  "doEvalLadderExprWithVarBindings conn d st =
     (case eval conn (bindings st) (ladder_expr d) of
        None \<Rightarrow> None
      | Some r \<Rightarrow>
          (case computeNonViableSubgraph d r of
             None \<Rightarrow> None
           | Some nonViable \<Rightarrow>
               (case analyze (partialEvalAnalyzer st) (bindings st) r of
                  None \<Rightarrow> None
                | Some (analysis, analyzer) \<Rightarrow>
                    Some (st\<lparr>evalResult := r, nonViableSubgraph := nonViable,
                      partialEvalAnalyzer := analyzer, partialEvalAnalysis := Some analysis,
                      irrelevantSubgraph := overlay_of (ladder_graphs d) (irrelevantRootIds analysis),
                      shortCircuitedSubgraph := overlay_of (ladder_graphs d) (an_shortCircuitedRoots analysis)\<rparr>))))"

text \<open>The ladder is made, and evaluated with the values the expression came with.\<close>

definition open_ladder :: "connection \<Rightarrow> sorter \<Rightarrow> ladder_env \<Rightarrow> irexpr \<Rightarrow> lir \<Rightarrow> (ladder \<times> answers \<times> lir) option" where
  "open_ladder conn ts env e l =
     (case toLir ts env e l of
        None \<Rightarrow> None
      | Some (d, l') \<Rightarrow>
          (case new_answers (context_of l') d of
             Inl _ \<Rightarrow> None
           | Inr st \<Rightarrow> map_option (\<lambda>st'. (d, st', l')) (doEvalLadderExprWithVarBindings conn d st)))"

subsection \<open>Operations\<close>

definition submitNewBinding :: "connection \<Rightarrow> ladder \<Rightarrow> unique \<Rightarrow> ubool \<Rightarrow> answers \<Rightarrow> answers option" where
  "submitNewBinding conn d u v st =
     doEvalLadderExprWithVarBindings conn d (st\<lparr>bindings := assign_set u v (bindings st)\<rparr>)"

definition resetBindings :: "connection \<Rightarrow> ladder \<Rightarrow> answers \<Rightarrow> answers option" where
  "resetBindings conn d st =
     doEvalLadderExprWithVarBindings conn d
       (st\<lparr>bindings := fold (\<lambda>(u, _). assign_set u UnknownV) (getEntries (bindings st)) (bindings st)\<rparr>)"

definition setElicitationOverride :: "elicitation_override option \<Rightarrow> answers \<Rightarrow> answers" where
  "setElicitationOverride ov st = st\<lparr>elicitationOverride := ov\<rparr>"

text \<open>The planner declines the rule.\<close>

definition isDeclined :: "answers \<Rightarrow> bool" where
  "isDeclined st \<longleftrightarrow> (case elicitationOverride st of None \<Rightarrow> False | Some ov \<Rightarrow> eo_declined ov \<noteq> None)"

definition getResult :: "answers \<Rightarrow> js_val" where
  "getResult st = (if isDeclined st then Some UnknownV else result (evalResult st))"

definition getPartialEvalAnalysis :: "answers \<Rightarrow> analysis option" where
  "getPartialEvalAnalysis st = map_option (\<lambda>an. withElicitationOverride an (elicitationOverride st)) (partialEvalAnalysis st)"

definition getValueOfUnique :: "unique \<Rightarrow> answers \<Rightarrow> ubool option" where
  "getValueOfUnique u st = assign_get (bindings st) u"

definition getLabelForUnique :: "answers \<Rightarrow> unique \<Rightarrow> string" where
  "getLabelForUnique st u = (case jm_get (uniqueToLabel st) u of None \<Rightarrow> show_nat u | Some lab \<Rightarrow> lab)"

definition getAtomIdForUnique :: "answers \<Rightarrow> unique \<Rightarrow> string option" where
  "getAtomIdForUnique st u = jm_get (uniqueToAtomId st) u"

definition getUniquesForLabel :: "answers \<Rightarrow> string \<Rightarrow> unique list" where
  "getUniquesForLabel st lab = map fst (filter (\<lambda>(_, lbl). lbl = lab) (uniqueToLabel st))"

definition getUniquesForAtomId :: "answers \<Rightarrow> string \<Rightarrow> unique list" where
  "getUniquesForAtomId st aid = (case jm_get (atomIdToUniques st) aid of None \<Rightarrow> [] | Some us \<Rightarrow> us)"

definition nodeIsInNonViableSubgraph :: "answers \<Rightarrow> lir_id \<Rightarrow> bool" where
  "nodeIsInNonViableSubgraph st v = hasVertex (nonViableSubgraph st) v"

definition nodeIsInIrrelevantSubgraph :: "answers \<Rightarrow> lir_id \<Rightarrow> bool" where
  "nodeIsInIrrelevantSubgraph st v = (if isDeclined st then False else hasVertex (irrelevantSubgraph st) v)"

definition nodeIsInShortCircuitedSubgraph :: "answers \<Rightarrow> lir_id \<Rightarrow> bool" where
  "nodeIsInShortCircuitedSubgraph st v = hasVertex (shortCircuitedSubgraph st) v"

definition edgeIsInNonViableSubgraph :: "answers \<Rightarrow> lir_id \<Rightarrow> lir_id \<Rightarrow> bool" where
  "edgeIsInNonViableSubgraph st u v = hasEdge (nonViableSubgraph st) u v"

definition edgeIsInIrrelevantSubgraph :: "answers \<Rightarrow> lir_id \<Rightarrow> lir_id \<Rightarrow> bool" where
  "edgeIsInIrrelevantSubgraph st u v = (if isDeclined st then False else hasEdge (irrelevantSubgraph st) u v)"

definition edgeIsInShortCircuitedSubgraph :: "answers \<Rightarrow> lir_id \<Rightarrow> lir_id \<Rightarrow> bool" where
  "edgeIsInShortCircuitedSubgraph st u v = hasEdge (shortCircuitedSubgraph st) u v"

subsection \<open>The graphs of the subexpressions\<close>

text \<open>The subexpressions that are not below a negation.\<close>

fun parts :: "irexpr \<Rightarrow> irexpr list" where
  "parts (And i as) = And i as # concat (map parts as)"
| "parts (Or i as) = Or i as # concat (map parts as)"
| "parts e = [e]"

text \<open>
  The graph of a subexpression: a variable's is its vertex; one of a part lies inside the graph and conducts when the part
  holds; one below a negation is, in negation normal form, the vertex after the start of the negation.
\<close>

definition chart :: "irexpr \<Rightarrow> lir \<Rightarrow> lir \<Rightarrow> dag \<Rightarrow> irexpr \<Rightarrow> dag \<Rightarrow> bool" where
  "chart e l l' g x h \<longleftrightarrow> verts h \<subseteq> verts g \<and> arcs h \<subseteq> arcs g \<and>
     (is_var x \<longrightarrow> (\<exists>v<counter l'. h = vertex v \<and> context_of l' v = Some (UBoolVarNode x))) \<and>
     (x \<in> set (parts e) \<longrightarrow> (\<forall>C \<rho>. agrees C l l' \<longrightarrow> inner C \<rho> h g \<and> (\<exists>s t. two_terminal h s t \<and> good C \<rho> h s t (truth \<rho> x)))) \<and>
     (nnf e \<longrightarrow> x \<in> set (parts e) \<or>
        (\<exists>v s. h = vertex v \<and> (s, v) \<in> arcs g \<and> s < counter l' \<and> isNotStartNode (context_of l' s)))"

definition mapped :: "irexpr \<Rightarrow> lir \<Rightarrow> to_lir \<Rightarrow> lir \<Rightarrow> bool" where
  "mapped e l r l' \<longleftrightarrow> jm_wf (vizExprToLir r) \<and> fst ` set (vizExprToLir r) \<subseteq> set (node_ids e) \<and>
     jm_get (vizExprToLir r) (expr_id e) = Some (lir_graph r) \<and>
     (\<forall>x\<in>set (subexprs e). \<exists>h. jm_get (vizExprToLir r) (expr_id x) = Some h \<and> chart e l l' (lir_graph r) x h)"

definition mapped_in :: "lir \<Rightarrow> lir \<Rightarrow> irexpr \<Rightarrow> to_lir \<Rightarrow> bool" where
  "mapped_in l l' e r \<longleftrightarrow> (\<exists>a b. grown l a \<and> grown a b \<and> grown b l' \<and> mapped e a r b)"

lemma agrees_self [simp]: "agrees (context_of l') l l'"
  by (simp add: agrees_def)

lemma mapped_in_wider: "mapped_in a b e r \<Longrightarrow> grown l a \<Longrightarrow> grown b l' \<Longrightarrow> mapped_in l l' e r"
  unfolding mapped_in_def by (meson grown_trans)

text \<open>The maps of subexpressions whose ids are different are put together without loss.\<close>

lemma combine_distinct:
  assumes "list_all2 (\<lambda>e m. jm_wf m \<and> fst ` set m \<subseteq> set (node_ids e)) es ms" "distinct (concat (map node_ids es))"
  shows "distinct (map fst (concat ms))" "fst ` set (concat ms) \<subseteq> set (concat (map node_ids es))"
  using assms
proof (induction es ms rule: list_all2_induct)
  case (Cons e es m ms)
  {
    case 1
    then have IH: "distinct (map fst (concat ms))" "fst ` set (concat ms) \<subseteq> set (concat (map node_ids es))"
      using Cons.IH by simp_all
    have "set (node_ids e) \<inter> set (concat (map node_ids es)) = {}" using 1 by auto
    then have "fst ` set m \<inter> fst ` set (concat ms) = {}" using IH(2) Cons.hyps(1) by blast
    then show ?case using Cons.hyps(1) IH(1) by (simp add: jm_wf_def)
  next
    case 2
    then show ?case using Cons by auto
  }
qed simp_all

lemma combine_get:
  assumes "distinct (map fst (concat ms))"
  shows "jm_get (combineEnvs ms) k = Some h \<longleftrightarrow> (k, h) \<in> set (concat ms)"
    "jm_wf (combineEnvs ms)" "fst ` set (combineEnvs ms) = fst ` set (concat ms)"
proof -
  show "jm_get (combineEnvs ms) k = Some h \<longleftrightarrow> (k, h) \<in> set (concat ms)"
    unfolding combineEnvs_def by (rule index_iff [OF assms])
  have "jm_wf (fold (\<lambda>(i, g). jm_set i g) kvs m)" if "jm_wf m" for kvs and m :: viz_env
    using that by (induction kvs arbitrary: m) (auto simp: case_prod_beta)
  then show "jm_wf (combineEnvs ms)" by (simp add: combineEnvs_def)
  have "fst ` set (fold (\<lambda>(i, g). jm_set i g) kvs m) = fst ` set m \<union> fst ` set kvs" for kvs and m :: viz_env
    by (induction kvs arbitrary: m) (auto simp: case_prod_beta)
  then show "fst ` set (combineEnvs ms) = fst ` set (concat ms)" by (simp add: combineEnvs_def)
qed

lemma combine_child:
  assumes "distinct (map fst (concat ms))" "m \<in> set ms" "jm_get m k = Some h" "jm_wf m"
  shows "jm_get (combineEnvs ms) k = Some h"
  using assms(2,3) jm_get_iff [OF assms(4)] unfolding combine_get(1) [OF assms(1)] by auto

text \<open>From an operand to its operator.\<close>

lemma chart_child:
  assumes "mapped_in l l' c r" "x \<in> set (subexprs c)"
    and "\<And>C \<rho>. agrees C l l' \<Longrightarrow> inner C \<rho> (lir_graph r) g"
    and "\<And>k h. jm_get (vizExprToLir r) k = Some h \<Longrightarrow> k \<noteq> i \<Longrightarrow> jm_get m k = Some h" "i \<notin> set (node_ids c)"
  shows "\<exists>h. jm_get m (expr_id x) = Some h \<and> verts h \<subseteq> verts g \<and> arcs h \<subseteq> arcs g \<and>
     (is_var x \<longrightarrow> (\<exists>v<counter l'. h = vertex v \<and> context_of l' v = Some (UBoolVarNode x))) \<and>
     (x \<in> set (parts c) \<longrightarrow> (\<forall>C \<rho>. agrees C l l' \<longrightarrow> inner C \<rho> h g \<and> (\<exists>s t. two_terminal h s t \<and> good C \<rho> h s t (truth \<rho> x)))) \<and>
     (nnf c \<longrightarrow> x \<in> set (parts c) \<or>
        (\<exists>v s. h = vertex v \<and> (s, v) \<in> arcs g \<and> s < counter l' \<and> isNotStartNode (context_of l' s)))"
proof -
  obtain a b where ab: "grown l a" "grown a b" "grown b l'" "mapped c a r b" using assms(1) by (auto simp: mapped_in_def)
  then obtain h where h: "jm_get (vizExprToLir r) (expr_id x) = Some h" "chart c a b (lir_graph r) x h"
    using assms(2) by (auto simp: mapped_def)
  have "expr_id x \<in> set (node_ids c)" using assms(2) by (simp add: node_ids_def)
  then have "expr_id x \<noteq> i" using assms(5) by auto
  then have get: "jm_get m (expr_id x) = Some h" using assms(4) h(1) by blast
  have low: "agrees C a b" if "agrees C l l'" for C using agrees_part [OF that ab(1-3)] .
  have sub: "verts (lir_graph r) \<subseteq> verts g" "arcs (lir_graph r) \<subseteq> arcs g"
    using assms(3) [OF agrees_self] by (simp_all add: inner_def)
  have up: "v < counter b \<Longrightarrow> v < counter l' \<and> context_of l' v = context_of b v" for v
    using ab(3) by (simp add: grown_def)
  have "verts h \<subseteq> verts g" "arcs h \<subseteq> arcs g" using h(2) sub unfolding chart_def by blast+
  moreover have "is_var x \<longrightarrow> (\<exists>v<counter l'. h = vertex v \<and> context_of l' v = Some (UBoolVarNode x))"
    using h(2) up unfolding chart_def by metis
  moreover have "inner C \<rho> h g \<and> (\<exists>s t. two_terminal h s t \<and> good C \<rho> h s t (truth \<rho> x))"
    if "x \<in> set (parts c)" "agrees C l l'" for C \<rho>
    using h(2) that low [OF that(2)] inner_trans [OF _ assms(3) [OF that(2)]] unfolding chart_def by blast
  moreover have "x \<in> set (parts c) \<or> (\<exists>v s. h = vertex v \<and> (s, v) \<in> arcs g \<and> s < counter l' \<and> isNotStartNode (context_of l' s))"
    if "nnf c"
    using h(2) that up sub(2) unfolding chart_def by (metis subsetD)
  ultimately show ?thesis using get by blast
qed


lemma parts_subexprs: "set (parts e) \<subseteq> set (subexprs e)"
  by (induction e) auto

lemma chart_self:
  assumes "drawn e l r l'" "\<not> has_app e" "\<not> is_var e" "e \<in> set (parts e)"
  shows "chart e l l' (lir_graph r) e (lir_graph r)"
proof -
  obtain s t where "two_terminal (lir_graph r) s t" "\<forall>C \<rho>. agrees C l l' \<longrightarrow> good C \<rho> (lir_graph r) s t (truth \<rho> e)"
    using assms(1,2) by (auto simp: drawn_def)
  then show ?thesis using assms(3,4) inner_refl unfolding chart_def by blast
qed

lemma mapped_operator:
  assumes "p = And i es \<or> p = Or i es" "unique_ids p" "\<not> has_app p"
    and "list_all2 (mapped_in l l') es rs" "drawn p l r l'" "holds_inner p l l' (lir_graph ` set rs) (lir_graph r)"
    and "vizExprToLir r = jm_set i (lir_graph r) (combineEnvs ([] # map vizExprToLir rs))"
  shows "mapped p l r l'"
proof -
  let ?ms = "[] # map vizExprToLir rs" and ?m = "vizExprToLir r"
  have p: "subexprs p = p # concat (map subexprs es)" "parts p = p # concat (map parts es)" "expr_id p = i" "\<not> is_var p"
    "node_ids p = i # concat (map node_ids es)" "nnf p \<longrightarrow> (\<forall>e\<in>set es. nnf e)" using assms(1) by (auto simp: is_var_def)
  have ids: "distinct (concat (map node_ids es))" "i \<notin> set (concat (map node_ids es))"
    using assms(2) unfolding unique_ids_def p(5) by simp_all
  have "list_all2 (\<lambda>e m. jm_wf m \<and> fst ` set m \<subseteq> set (node_ids e)) es (map vizExprToLir rs)"
    unfolding list_all2_map2 using assms(4)
    by (rule list_all2_mono) (simp add: mapped_in_def mapped_def, blast)
  note maps = combine_distinct [OF this ids(1)]
  have dist: "distinct (map fst (concat ?ms))" using maps(1) by simp
  note get = combine_get [OF dist] and child = combine_child [OF dist]
  have keys: "fst ` set ?m \<subseteq> set (node_ids p)" using maps(2) by (auto simp: assms(7) get(3) p(5))
  have wf: "jm_wf ?m" using get(2) by (simp add: assms(7))
  have own: "jm_get ?m (expr_id p) = Some (lir_graph r)" by (simp add: assms(7) p(3) js_simps)
  have kid: "\<exists>h. jm_get ?m (expr_id x) = Some h \<and> verts h \<subseteq> verts (lir_graph r) \<and> arcs h \<subseteq> arcs (lir_graph r) \<and>
      (is_var x \<longrightarrow> (\<exists>v<counter l'. h = vertex v \<and> context_of l' v = Some (UBoolVarNode x))) \<and>
      (x \<in> set (parts c) \<longrightarrow> (\<forall>C \<rho>. agrees C l l' \<longrightarrow> inner C \<rho> h (lir_graph r) \<and>
        (\<exists>s t. two_terminal h s t \<and> good C \<rho> h s t (truth \<rho> x)))) \<and>
      (nnf c \<longrightarrow> x \<in> set (parts c) \<or> (\<exists>v s. h = vertex v \<and> (s, v) \<in> arcs (lir_graph r) \<and> s < counter l' \<and>
        isNotStartNode (context_of l' s)))"
    if c: "c \<in> set es" "x \<in> set (subexprs c)" for c x
  proof -
    obtain q where q: "q \<in> set rs" "mapped_in l l' c q"
      using assms(4) c(1) by (metis list_all2_conv_all_nth in_set_conv_nth)
    show ?thesis
    proof (rule chart_child [OF q(2) c(2)])
      fix C \<rho> assume "agrees C l l'"
      then show "inner C \<rho> (lir_graph q) (lir_graph r)" using assms(3,6) q(1) by (simp add: holds_inner_def)
    next
      fix k h assume "jm_get (vizExprToLir q) k = Some h" "k \<noteq> i"
      moreover have "jm_wf (vizExprToLir q)" using q(2) by (auto simp: mapped_in_def mapped_def)
      ultimately show "jm_get ?m k = Some h" using child [of "vizExprToLir q"] q(1) by (simp add: assms(7) js_simps)
    qed (use ids(2) c(1) in auto)
  qed
  have "\<exists>h. jm_get ?m (expr_id x) = Some h \<and> chart p l l' (lir_graph r) x h" if x: "x \<in> set (subexprs p)" for x
  proof (cases "x = p")
    case True
    then show ?thesis using own chart_self [OF assms(5,3) p(4)] p(2) by simp
  next
    case False
    then obtain c where c: "c \<in> set es" "x \<in> set (subexprs c)" using x p(1) by auto
    obtain h where h: "jm_get ?m (expr_id x) = Some h" "verts h \<subseteq> verts (lir_graph r)" "arcs h \<subseteq> arcs (lir_graph r)"
      "is_var x \<longrightarrow> (\<exists>v<counter l'. h = vertex v \<and> context_of l' v = Some (UBoolVarNode x))"
      "nnf c \<longrightarrow> x \<in> set (parts c) \<or> (\<exists>v s. h = vertex v \<and> (s, v) \<in> arcs (lir_graph r) \<and> s < counter l' \<and>
        isNotStartNode (context_of l' s))" using kid [OF c] by blast
    have "inner C \<rho> h (lir_graph r) \<and> (\<exists>s t. two_terminal h s t \<and> good C \<rho> h s t (truth \<rho> x))"
      if part: "x \<in> set (parts p)" "agrees C l l'" for C \<rho>
    proof -
      obtain c' where c': "c' \<in> set es" "x \<in> set (parts c')" using part(1) False p(2) by auto
      have "set (parts c') \<subseteq> set (subexprs c')" by (rule parts_subexprs)
      then obtain h' where "jm_get ?m (expr_id x) = Some h'"
        "inner C \<rho> h' (lir_graph r) \<and> (\<exists>s t. two_terminal h' s t \<and> good C \<rho> h' s t (truth \<rho> x))"
        using kid [OF c'(1), of x] c'(2) part(2) by blast
      then show ?thesis using h(1) by simp
    qed
    moreover have "x \<in> set (parts p)" if "x \<in> set (parts c)" using that c(1) p(2) by auto
    moreover have "nnf p \<longrightarrow> nnf c" using p(6) c(1) by blast
    ultimately show ?thesis using h unfolding chart_def by blast
  qed
  then show ?thesis using wf keys own by (simp add: mapped_def)
qed

lemma mapped_not:
  assumes "mapped n l q l1" "grown l l1" "not_lir ts [] (Not i n) q l1 = Some (r, l')" "drawn (Not i n) l r l'" "grown l1 l'"
    and "verts (lir_graph q) \<subseteq> verts (lir_graph r)" "arcs (lir_graph q) \<subseteq> arcs (lir_graph r)"
    and "\<forall>x. lir_graph q = vertex x \<longrightarrow> (\<exists>s. (s, x) \<in> arcs (lir_graph r) \<and> isNotStartNode (context_of l' s))"
    and "unique_ids (Not i n)" "\<not> has_app n"
  shows "mapped (Not i n) l r l'"
proof -
  have viz: "vizExprToLir r = jm_set i (lir_graph r) (combineEnvs [[], vizExprToLir q])"
    using assms(3) by (auto simp: not_lir_def split: prod.splits option.splits)
  have q: "jm_wf (vizExprToLir q)" "fst ` set (vizExprToLir q) \<subseteq> set (node_ids n)" using assms(1) by (simp_all add: mapped_def)
  have dist: "distinct (map fst (concat [[], vizExprToLir q]))" using q(1) by (simp add: jm_wf_def)
  note get = combine_get [OF dist]
  have i: "i \<notin> set (node_ids n)" using assms(9) by (simp add: unique_ids_def)
  have own: "jm_get (vizExprToLir r) (expr_id (Not i n)) = Some (lir_graph r)" by (simp add: viz js_simps)
  have "\<exists>h. jm_get (vizExprToLir r) (expr_id x) = Some h \<and> chart (Not i n) l l' (lir_graph r) x h"
    if x: "x \<in> set (subexprs (Not i n))" for x
  proof (cases "x = Not i n")
    case True
    then show ?thesis using own chart_self [OF assms(4)] assms(10) by (simp add: is_var_def)
  next
    case False
    then have sub: "x \<in> set (subexprs n)" using x by simp
    then have "expr_id x \<in> set (node_ids n)" by (simp add: node_ids_def)
    then have ne: "expr_id x \<noteq> i" using i by auto
    obtain h where h: "jm_get (vizExprToLir q) (expr_id x) = Some h" "chart n l l1 (lir_graph q) x h"
      using assms(1) sub by (auto simp: mapped_def)
    have "jm_get (vizExprToLir r) (expr_id x) = Some h"
      using combine_child [OF dist _ h(1) q(1)] ne by (simp add: viz js_simps)
    moreover have "verts h \<subseteq> verts (lir_graph r)" "arcs h \<subseteq> arcs (lir_graph r)"
      using h(2) assms(6,7) unfolding chart_def by blast+
    moreover have var: "is_var x \<longrightarrow> (\<exists>v<counter l'. h = vertex v \<and> context_of l' v = Some (UBoolVarNode x))"
      using h(2) assms(5) unfolding chart_def grown_def by (metis order_less_le_trans)
    moreover have "\<exists>v s. h = vertex v \<and> (s, v) \<in> arcs (lir_graph r) \<and> s < counter l' \<and> isNotStartNode (context_of l' s)"
      if "nnf (Not i n)"
    proof -
      have n: "is_var n" using that by simp
      then have "x = n" using sub by (cases n) (simp_all add: is_var_def)
      then have "h = lir_graph q" using h(1) assms(1) by (simp add: mapped_def)
      then obtain v s where s: "h = vertex v" "(s, v) \<in> arcs (lir_graph r)" "isNotStartNode (context_of l' s)"
        using assms(8) var n \<open>x = n\<close> by blast
      obtain a b where "two_terminal (lir_graph r) a b" "verts (lir_graph r) \<subseteq> {counter l..<counter l'}"
        using assms(4) by (auto simp: drawn_def)
      then have "s < counter l'" using s(2) two_terminal_facts(5) by fastforce
      then show ?thesis using s by blast
    qed
    ultimately show ?thesis using False unfolding chart_def by simp
  qed
  then show ?thesis using own get(2,3) q(2) by (auto simp: mapped_def viz)
qed

lemma mapped_leaf:
  assumes "leaf_lir [] i n l = (r, l')" "drawn e l r l'" "\<not> has_app e" "subexprs e = [e]" "parts e = [e]" "expr_id e = i"
    and "is_var e \<Longrightarrow> n = UBoolVarNode e"
  shows "mapped e l r l'"
proof -
  obtain v where new: "new_node n l = (v, l')"
    "r = \<lparr>lir_graph = vertex v, vizExprToLir = jm_set i (vertex v) [], noBundlingGraph = vertex v\<rparr>"
    using assms(1) by (cases "new_node n l") (auto simp: leaf_lir_def)
  note v = new_node_grown [OF new(1)]
  obtain s t where "two_terminal (lir_graph r) s t" "\<forall>C \<rho>. agrees C l l' \<longrightarrow> good C \<rho> (lir_graph r) s t (truth \<rho> e)"
    using assms(2,3) by (auto simp: drawn_def)
  then have "chart e l l' (lir_graph r) e (lir_graph r)"
    using v assms(5,7) inner_refl unfolding chart_def by (auto simp: new(2))
  then show ?thesis using assms(4,6) by (simp add: mapped_def new(2) js_simps node_ids_def jm_wf_def)
qed

lemma transform_list_mapped:
  assumes "\<And>a l. a \<in> set es \<Longrightarrow> \<exists>r l'. transform ts env [] a l = Some (r, l') \<and> drawn a l r l' \<and> mapped a l r l'"
  shows "\<exists>rs l'. transform_list ts env [] es l = Some (rs, l') \<and> drawn_list es l rs l' \<and> list_all2 (mapped_in l l') es rs"
  using assms
proof (induction es arbitrary: l)
  case (Cons e es)
  obtain r l1 where 1: "transform ts env [] e l = Some (r, l1)" "drawn e l r l1" "mapped e l r l1" using Cons.prems by fastforce
  obtain rs l2 where 2: "transform_list ts env [] es l1 = Some (rs, l2)" "drawn_list es l1 rs l2" "list_all2 (mapped_in l1 l2) es rs"
    using Cons.IH [of l1] Cons.prems by fastforce
  have "grown l l1" "grown l1 l2" using drawn_grown [OF 1(2)] drawn_list_grown [OF 2(2)] .
  then have "mapped_in l l2 e r" using 1(3) grown_refl unfolding mapped_in_def by blast
  moreover have "list_all2 (mapped_in l l2) es rs"
    using 2(3) by (rule list_all2_mono) (rule mapped_in_wider [OF _ \<open>grown l l1\<close> grown_refl])
  ultimately show ?case using 1(1,2) 2(1,2) by auto
qed simp


lemma transform_mapped:
  assumes "sorts ts" "drawable e" "\<not> has_app e" "unique_ids e"
  shows "\<exists>r l'. transform ts env [] e l = Some (r, l') \<and> drawn e l r l' \<and> mapped e l r l'"
  using assms(2-4)
proof (induction e arbitrary: l)
  case (And i es)
  have "\<exists>r l'. transform ts env [] a l = Some (r, l') \<and> drawn a l r l' \<and> mapped a l r l'" if "a \<in> set es" for a l
    using And.IH [OF that] And.prems unique_ids_children [OF And.prems(3), of a] that by simp
  then obtain rs l' where rs: "transform_list ts env [] es l = Some (rs, l')" "drawn_list es l rs l'"
    "list_all2 (mapped_in l l') es rs" using transform_list_mapped [of es ts env l] by blast
  obtain r where r: "and_lir ts [] i rs = Some r" "drawn (And i es) l r l'" "holds_inner (And i es) l l' (lir_graph ` set rs) (lir_graph r)"
    using and_drawn [OF assms(1) rs(2), of "[]" i] And.prems(1) by auto
  have "vizExprToLir r = jm_set i (lir_graph r) (combineEnvs ([] # map vizExprToLir rs))"
    using r(1) by (auto simp: and_lir_def split: option.splits)
  from mapped_operator [OF _ And.prems(3,2) rs(3) r(2,3) this] show ?case using rs(1) r(1,2) by simp
next
  case (Or i es)
  have "\<exists>r l'. transform ts env [] a l = Some (r, l') \<and> drawn a l r l' \<and> mapped a l r l'" if "a \<in> set es" for a l
    using Or.IH [OF that] Or.prems unique_ids_children [OF Or.prems(3), of a] that by simp
  then obtain rs l1 where rs: "transform_list ts env [] es l = Some (rs, l1)" "drawn_list es l rs l1"
    "list_all2 (mapped_in l l1) es rs" using transform_list_mapped [of es ts env l] by blast
  obtain r l' where r: "or_lir ts env [] i rs l1 = Some (r, l')" "drawn (Or i es) l r l'" "grown l1 l'"
    "holds_inner (Or i es) l l' (lir_graph ` set rs) (lir_graph r)"
    using or_drawn [OF assms(1) rs(2), of env "[]" i] Or.prems(1) by auto
  have "vizExprToLir r = jm_set i (lir_graph r) (combineEnvs ([] # map vizExprToLir rs))"
    using r(1) by (auto simp: or_lir_def split: prod.splits option.splits)
  moreover have "list_all2 (mapped_in l l') es rs"
    using rs(3) by (rule list_all2_mono) (rule mapped_in_wider [OF _ grown_refl r(3)])
  ultimately have "mapped (Or i es) l r l'" using Or.prems(2,3) r(2,4) by (intro mapped_operator) simp_all
  then show ?case using rs(1) r(1,2) by simp
next
  case (Not i n)
  have "unique_ids n" using unique_ids_children [OF Not.prems(3), of n] by simp
  then obtain q l1 where q: "transform ts env [] n l = Some (q, l1)" "drawn n l q l1" "mapped n l q l1"
    using Not.IH [of l] Not.prems by auto
  obtain r l' where r: "not_lir ts [] (Not i n) q l1 = Some (r, l')" "drawn (Not i n) l r l'" "grown l1 l'"
    "verts (lir_graph q) \<subseteq> verts (lir_graph r)" "arcs (lir_graph q) \<subseteq> arcs (lir_graph r)"
    "\<forall>x. lir_graph q = vertex x \<longrightarrow> (\<exists>s. (s, x) \<in> arcs (lir_graph r) \<and> isNotStartNode (context_of l' s))"
    using not_drawn [OF assms(1) q(2), of "[]" i] by blast
  have "mapped (Not i n) l r l'"
    using mapped_not [OF q(3) drawn_grown [OF q(2)] r(1-6) Not.prems(3)] Not.prems(2) by simp
  then show ?case using q(1) r(1,2) by auto
next
  case (UBoolVar i nm v c a)
  obtain r l' where r: "leaf_lir [] i (UBoolVarNode (UBoolVar i nm v c a)) l = (r, l')" by fastforce
  from transform_drawn [OF assms(1) UBoolVar.prems(1), of env "[]" l] r
  show ?case using mapped_leaf [OF r, of "UBoolVar i nm v c a"] by simp
next
  case (TrueE i nm)
  obtain r l' where r: "leaf_lir [] i (TrueExprNode nm) l = (r, l')" by fastforce
  from transform_drawn [OF assms(1) TrueE.prems(1), of env "[]" l] r
  show ?case using mapped_leaf [OF r, of "TrueE i nm"] by (simp add: is_var_def)
next
  case (FalseE i nm)
  obtain r l' where r: "leaf_lir [] i (FalseExprNode nm) l = (r, l')" by fastforce
  from transform_drawn [OF assms(1) FalseE.prems(1), of env "[]" l] r
  show ?case using mapped_leaf [OF r, of "FalseE i nm"] by (simp add: is_var_def)
next
  case (InertE i t c)
  obtain r l' where r: "leaf_lir [] i (InertExprNode t c) l = (r, l')" by fastforce
  from transform_drawn [OF assms(1) InertE.prems(1), of env "[]" l] r
  show ?case using mapped_leaf [OF r, of "InertE i t c"] by (simp add: is_var_def)
qed simp

text \<open>The graphs of a ladder.\<close>

definition charts :: "irexpr \<Rightarrow> ladder \<Rightarrow> lir \<Rightarrow> dag \<Rightarrow> bool" where
  "charts e d l' g \<longleftrightarrow> (\<forall>x\<in>set (subexprs e). \<exists>h. jm_get (ladder_graphs d) (expr_id x) = Some h \<and> verts h \<subseteq> verts g \<and>
     (is_var x \<longrightarrow> (\<exists>v\<in>verts h. context_of l' v = Some (UBoolVarNode x))) \<and>
     (x \<in> set (parts e) \<longrightarrow> (\<forall>\<rho>. inner (context_of l') \<rho> h g \<and>
        (\<exists>s t. two_terminal h s t \<and> good (context_of l') \<rho> h s t (truth \<rho> x)))) \<and>
     (nnf e \<longrightarrow> x \<in> set (parts e) \<or> (\<exists>v s. h = vertex v \<and> (s, v) \<in> arcs g \<and> isNotStartNode (context_of l' s))))"

lemma toLir_charts:
  assumes "sorts ts" "drawable e" "\<not> has_app e" "unique_ids e" "toLir ts env e l = Some (d, l')"
  obtains g s t where "same_graph (ladder_dag d) g" "two_terminal g s t" "charts e d l' g" "ladder_expr d = e"
    "jm_get (ladder_graphs d) (expr_id e) = Some g"
    "nnf e \<Longrightarrow> isNnf (context_of l') g \<and> (\<lambda>x. through ts (snd x)) ` set (ladder_paths d) = st_walks g s t"
proof -
  obtain r l3 g l2 where d: "laid_out e l r l3 g"
    "shown g (counter l) (Suc (counter l)) (frame (counter l) (noBundlingGraph r) (Suc (counter l))) l3 d l'"
    "nnf e \<Longrightarrow> isNnf (context_of l3) g \<and> isNnf (context_of l') g"
    "ladder_graphs d = jm_set (expr_id e) g (vizExprToLir r)" "transform ts env [] e l2 = Some (r, l3)"
    "ladder_expr d = e" using toLir_shown [OF assms(1,2), of env l] assms(5) by (metis (no_types) option.inject prod.inject)
  have m: "mapped e l2 r l3" using transform_mapped [OF assms(1-4), of env l2] d(5) by auto
  obtain a b where b: "between g (counter l) (Suc (counter l)) {(lir_graph r, a, b)}" using d(1) by (auto simp: laid_out_def)
  have grown: "grown l3 l'" and same: "same_graph (ladder_dag d) g" using d(2) by (simp_all add: shown_def)
  note tt = laid_out_facts(1) [OF d(1)] and ends = laid_out_context(1,2) [OF d(1) grown]
  have C: "agrees (context_of l') l2 l3" using grown by (simp add: agrees_def grown_def)
  obtain s' t' where own: "two_terminal (lir_graph r) s' t'" "\<And>\<rho>. good (context_of l') \<rho> (lir_graph r) s' t' (truth \<rho> e)"
    using transform_drawn [OF assms(1,2), of env "[]" l2] d(5) assms(3) C unfolding drawn_def by (metis option.inject prod.inject)
  have good: "\<exists>u. good (context_of l') \<rho> h x y u" if p: "(h, x, y) \<in> {(lir_graph r, a, b)}" for \<rho> h x y
  proof -
    have h: "h = lir_graph r" "x = a" "y = b" using p by simp_all
    have "s' = a" "t' = b" using own(1) two_terminal_unique between_facts(1) [OF b] by blast+
    then show ?thesis using own(2) h by blast
  qed
  have whole: "inner (context_of l') \<rho> (lir_graph r) g" for \<rho>
    using ends good by (intro inner_between [OF b]) (simp_all add: isNotStartNode_def)
  have sub: "verts (lir_graph r) \<subseteq> verts g" "arcs (lir_graph r) \<subseteq> arcs g" using whole by (simp_all add: inner_def)
  have low: "context_of l' v = context_of l3 v" if "v < counter l3" for v using that grown by (simp add: grown_def)
  have "charts e d l' g"
    unfolding charts_def
  proof
    fix x assume x: "x \<in> set (subexprs e)"
    obtain h where h: "jm_get (vizExprToLir r) (expr_id x) = Some h" "chart e l2 l3 (lir_graph r) x h"
      using m x by (auto simp: mapped_def)
    have var: "\<exists>v\<in>verts h. context_of l' v = Some (UBoolVarNode x)" if "is_var x"
    proof -
      obtain v where "v < counter l3" "h = vertex v" "context_of l3 v = Some (UBoolVarNode x)"
        using h(2) \<open>is_var x\<close> unfolding chart_def by blast
      then show ?thesis using low by simp
    qed
    have up: "verts h \<subseteq> verts g" using h(2) sub(1) unfolding chart_def by blast
    show "\<exists>h. jm_get (ladder_graphs d) (expr_id x) = Some h \<and> verts h \<subseteq> verts g \<and>
        (is_var x \<longrightarrow> (\<exists>v\<in>verts h. context_of l' v = Some (UBoolVarNode x))) \<and>
        (x \<in> set (parts e) \<longrightarrow> (\<forall>\<rho>. inner (context_of l') \<rho> h g \<and>
          (\<exists>s t. two_terminal h s t \<and> good (context_of l') \<rho> h s t (truth \<rho> x)))) \<and>
        (nnf e \<longrightarrow> x \<in> set (parts e) \<or> (\<exists>v s. h = vertex v \<and> (s, v) \<in> arcs g \<and> isNotStartNode (context_of l' s)))"
    proof (cases "expr_id x = expr_id e")
      case True
      then have "x = e" using unique_ids_same [OF assms(4) x subexprs_self] by simp
      have "e \<in> set (parts e)" by (cases e) simp_all
      have "\<exists>s t. two_terminal g s t \<and> good (context_of l') \<rho> g s t (truth \<rho> e)" for \<rho>
        using laid_out_good [OF d(1) assms(3) grown] tt by blast
      moreover have "jm_get (ladder_graphs d) (expr_id e) = Some g" by (simp add: d(4) js_simps)
      ultimately show ?thesis using \<open>e \<in> set (parts e)\<close> var up inner_refl [OF tt] unfolding \<open>x = e\<close> by blast
    next
      case False
      have "inner (context_of l') \<rho> h g \<and> (\<exists>s t. two_terminal h s t \<and> good (context_of l') \<rho> h s t (truth \<rho> x))"
        if "x \<in> set (parts e)" for \<rho>
        using h(2) that C inner_trans [OF _ whole] unfolding chart_def by blast
      moreover have "x \<in> set (parts e) \<or> (\<exists>v s. h = vertex v \<and> (s, v) \<in> arcs g \<and> isNotStartNode (context_of l' s))" if "nnf e"
        using h(2) that low sub(2) unfolding chart_def by (metis subsetD)
      moreover have "jm_get (ladder_graphs d) (expr_id x) = Some h" using h(1) False by (simp add: d(4) js_simps)
      ultimately show ?thesis using var up by blast
    qed
  qed
  moreover have "(\<lambda>x. through ts (snd x)) ` set (ladder_paths d) = st_walks g (counter l) (Suc (counter l))" if "nnf e"
    using shown_paths(1) [OF assms(1) tt d(2)] d(3) [OF that] by simp
  moreover have "jm_get (ladder_graphs d) (expr_id e) = Some g" by (simp add: d(4) js_simps)
  ultimately show thesis using that [OF same tt] d(3,6) by blast
qed


subsection \<open>The answers so far\<close>

text \<open>A ladder that is answered, in any way.\<close>

inductive ladder_run :: "connection \<Rightarrow> ladder \<Rightarrow> answers \<Rightarrow> answers \<Rightarrow> bool" for conn d st0 where
  opened: "ladder_run conn d st0 st0"
| submitted: "ladder_run conn d st0 st \<Longrightarrow> submitNewBinding conn d u v st = Some st' \<Longrightarrow> ladder_run conn d st0 st'"
| reset: "ladder_run conn d st0 st \<Longrightarrow> resetBindings conn d st = Some st' \<Longrightarrow> ladder_run conn d st0 st'"
| overridden: "ladder_run conn d st0 st \<Longrightarrow> ladder_run conn d st0 (setElicitationOverride ov st)"

text \<open>What is shown is of the answers that are bound now.\<close>

definition current :: "connection \<Rightarrow> irexpr \<Rightarrow> ladder \<Rightarrow> answers \<Rightarrow> bool" where
  "current conn e d st \<longleftrightarrow> assigned (bindings st) e \<and> analyzer_for e (partialEvalAnalyzer st) \<and>
     eval conn (bindings st) e = Some (evalResult st) \<and> computeNonViableSubgraph d (evalResult st) = Some (nonViableSubgraph st) \<and>
     (\<exists>az an. analyzer_for e az \<and> analyze az (bindings st) (evalResult st) = Some (an, partialEvalAnalyzer st) \<and>
        partialEvalAnalysis st = Some an \<and> irrelevantSubgraph st = overlay_of (ladder_graphs d) (irrelevantRootIds an) \<and>
        shortCircuitedSubgraph st = overlay_of (ladder_graphs d) (an_shortCircuitedRoots an))"

lemma overlay_of_verts: "verts (overlay_of graphs ids) = (\<Union>i\<in>set ids. case jm_get graphs i of None \<Rightarrow> {} | Some g \<Rightarrow> verts g)"
proof -
  have "verts (foldr (\<lambda>g acc. overlay acc g) gs empty) = (\<Union>g\<in>set gs. verts g)" for gs
    by (induction gs) auto
  moreover have "(\<Union>g\<in>set (concat (map (\<lambda>i. case jm_get graphs i of None \<Rightarrow> [] | Some g \<Rightarrow> [g]) ids)). verts g) =
      (\<Union>i\<in>set ids. case jm_get graphs i of None \<Rightarrow> {} | Some g \<Rightarrow> verts g)"
    by (induction ids) (simp_all split: option.split)
  ultimately show ?thesis by (simp only: overlay_of_def)
qed

lemma nonViable_verts:
  assumes "\<And>x. x \<in> set (subexprs (ladder_expr d)) \<Longrightarrow> intermediate r (expr_id x) = Some (Some (val x))"
  shows "\<exists>g. computeNonViableSubgraph d r = Some g \<and>
    verts g = (\<Union>x\<in>{x \<in> set (subexprs (ladder_expr d)). val x = FalseV}.
      case jm_get (ladder_graphs d) (expr_id x) of None \<Rightarrow> {} | Some h \<Rightarrow> verts h)"
proof -
  let ?e = "ladder_expr d"
  define f where "f i = (intermediate r i = Some (Some FalseV))" for i
  have at: "\<exists>x\<in>set (subexprs ?e). i = expr_id x \<and> intermediate r i = Some (Some (val x))" if "i \<in> set (node_ids ?e)" for i
    using that assms by (auto simp: node_ids_def)
  then have all: "filter (\<lambda>i. intermediate r i \<noteq> None) (node_ids ?e) = node_ids ?e" by (fastforce simp: filter_id_conv)
  have "those (map (\<lambda>i. case intermediate r i of None \<Rightarrow> None | Some v \<Rightarrow> isFalseVal v) (node_ids ?e)) = Some (map f (node_ids ?e))"
    by (rule those_map_get) (use at in \<open>fastforce simp: isFalseVal_def f_def\<close>)
  then have "computeNonViableSubgraph d r = Some (overlay_of (ladder_graphs d) (filter f (node_ids ?e)))"
    unfolding computeNonViableSubgraph_def Let_def all by (simp add: zip_kept)
  moreover have "set (filter f (node_ids ?e)) = expr_id ` {x \<in> set (subexprs ?e). val x = FalseV}"
    using assms by (auto simp: node_ids_def f_def)
  ultimately show ?thesis by (simp add: overlay_of_verts)
qed

lemma doEval_current:
  assumes "answers conn" "assigned (bindings st) e" "unique_ids e" "analyzer_for e (partialEvalAnalyzer st)" "ladder_expr d = e"
  shows "\<exists>st'. doEvalLadderExprWithVarBindings conn d st = Some st' \<and> current conn e d st' \<and> bindings st' = bindings st"
proof -
  obtain r where r: "eval conn (bindings st) e = Some r" "result r = Some (kleene (call_of conn) (val_of (bindings st)) e)"
    using eval_spec [OF assms(1,2)] by (auto simp: eval_def)
  have "\<And>x. x \<in> set (subexprs (ladder_expr d)) \<Longrightarrow>
      intermediate r (expr_id x) = Some (Some (kleene (call_of conn) (val_of (bindings st)) x))"
    using eval_intermediate [OF assms(1-3) r(1)] assms(5) by simp
  from nonViable_verts [OF this] obtain g where g: "computeNonViableSubgraph d r = Some g" by blast
  obtain an az where az: "analyze (partialEvalAnalyzer st) (bindings st) r = Some (an, az)"
    using analyze_returns [OF analyzer_for_ok [OF assms(4)] r(2)] by blast
  then have "analyzer_for e az" using analyzer_for.analyzed [OF assms(4)] by blast
  then show ?thesis using r(1) g az assms(2,4) by (auto simp: doEvalLadderExprWithVarBindings_def assms(5) current_def)
qed

lemma assigned_set: "assigned a e \<Longrightarrow> assigned (assign_set u v a) e"
  by (simp add: assigned_def)

lemma assigned_reset: "assigned a e \<Longrightarrow> assigned (fold (\<lambda>(u, _). assign_set u UnknownV) es a) e"
  by (induction es arbitrary: a) (auto intro: assigned_set)

lemma run_current:
  assumes "ladder_run conn d st0 st" "current conn e d st0" "answers conn" "unique_ids e" "ladder_expr d = e"
  shows "current conn e d st"
  using assms(1)
proof (induction rule: ladder_run.induct)
  case (submitted st u v st')
  have "assigned (assign_set u v (bindings st)) e" "analyzer_for e (partialEvalAnalyzer st)"
    using submitted.IH assigned_set by (auto simp: current_def)
  then show ?case
    using doEval_current [OF assms(3), of "st\<lparr>bindings := assign_set u v (bindings st)\<rparr>" e d] assms(4,5) submitted.hyps(2)
    by (simp add: submitNewBinding_def)
next
  case (reset st st')
  let ?b = "fold (\<lambda>(u, _). assign_set u UnknownV) (getEntries (bindings st)) (bindings st)"
  have "assigned ?b e" "analyzer_for e (partialEvalAnalyzer st)"
    using reset.IH assigned_reset by (auto simp: current_def)
  then show ?case
    using doEval_current [OF assms(3), of "st\<lparr>bindings := ?b\<rparr>" e d] assms(4,5) reset.hyps(2)
    by (simp add: resetBindings_def)
next
  case (overridden st ov)
  then show ?case by (simp add: current_def setElicitationOverride_def)
qed (rule assms(2))

lemma vars_subexprs: "u \<in> expr_vars e \<Longrightarrow> \<exists>i nm v c a. UBoolVar i nm v c a \<in> set (subexprs e) \<and> unique_of nm = u"
  by (induction e) fastforce+

lemma new_answers_ready:
  assumes "\<not> has_app e" "ladder_expr d = e"
    and "\<And>x. x \<in> set (subexprs e) \<Longrightarrow> is_var x \<Longrightarrow> \<exists>v\<in>set (getVertices (ladder_dag d)). C v = Some (UBoolVarNode x)"
  shows "\<exists>st. new_answers C d = Inr st \<and> assigned (bindings st) e \<and> analyzer_for e (partialEvalAnalyzer st)"
proof -
  obtain c where "compileDecisionQuery e (Some (pe_collectVarOrder e)) = Inr c"
    using compileDecisionQuery_outcome(1) [of e "Some (pe_collectVarOrder e)" "pe_collectVarOrder e"] assms(1)
    by auto
  then obtain an where an: "new_analyzer e None = Inr an" using assms(1) by (auto simp: new_analyzer_def Let_def)
  have "assign_get (fromEntries (map (\<lambda>(nm, v, _). (unique_of nm, v)) (varNodes C d))) u \<noteq> None" if "u \<in> expr_vars e" for u
  proof -
    obtain i nm v c a where x: "UBoolVar i nm v c a \<in> set (subexprs e)" "unique_of nm = u" using vars_subexprs [OF \<open>u \<in> expr_vars e\<close>] by blast
    then obtain n where n: "n \<in> set (getVertices (ladder_dag d))" "C n = Some (UBoolVarNode (UBoolVar i nm v c a))"
      using assms(3) [OF x(1)] by (auto simp: is_var_def)
    then have "(nm, v, a) \<in> set (varNodes C d)" by (force simp: varNodes_def getChildren_def Let_def)
    then have "u \<in> fst ` set (map (\<lambda>(nm, v, _). (unique_of nm, v)) (varNodes C d))" using x(2) by force
    then show ?thesis unfolding assign_get_fromEntries by (simp add: map_of_eq_None_iff)
  qed
  then show ?thesis using an assms(2) by (auto simp: new_answers_def Let_def assigned_def intro: analyzer_for.created)
qed


lemma open_current:
  assumes "sorts ts" "drawable e" "\<not> has_app e" "unique_ids e" "answers conn"
  shows "\<exists>d st l'. open_ladder conn ts env e l = Some (d, st, l') \<and> toLir ts env e l = Some (d, l') \<and> ladder_expr d = e \<and>
    current conn e d st"
proof -
  obtain d l' where d: "toLir ts env e l = Some (d, l')" using toLir_shown [OF assms(1,2), of env l] by metis
  obtain g s t where g: "same_graph (ladder_dag d) g" "charts e d l' g" "ladder_expr d = e"
    using toLir_charts [OF assms(1-4) d] by metis
  have "set (getVertices (ladder_dag d)) = verts g" using same_graph_facts(1) [OF g(1)] by (simp add: getVertices_def verts_def)
  then have "\<exists>v\<in>set (getVertices (ladder_dag d)). context_of l' v = Some (UBoolVarNode x)"
    if "x \<in> set (subexprs e)" "is_var x" for x
    using g(2) that unfolding charts_def by blast
  from new_answers_ready [OF assms(3) g(3) this]
  obtain st where st: "new_answers (context_of l') d = Inr st" "assigned (bindings st) e" "analyzer_for e (partialEvalAnalyzer st)"
    by blast
  obtain st' where "doEvalLadderExprWithVarBindings conn d st = Some st'" "current conn e d st'"
    using doEval_current [OF assms(5) st(2) assms(4) st(3) g(3)] by blast
  then show ?thesis using d st(1) g(3) by (auto simp: open_ladder_def)
qed

lemma opened_run:
  assumes "sorts ts" "drawable e" "\<not> has_app e" "unique_ids e" "answers conn"
    and "open_ladder conn ts env e l = Some (d, st0, l')" "ladder_run conn d st0 st"
  shows "toLir ts env e l = Some (d, l')" "ladder_expr d = e" "current conn e d st"
proof -
  have 1: "toLir ts env e l = Some (d, l') \<and> ladder_expr d = e \<and> current conn e d st0"
    using open_current [OF assms(1-5), of env l] assms(6) by auto
  then show "toLir ts env e l = Some (d, l')" "ladder_expr d = e" by simp_all
  show "current conn e d st" using run_current [OF assms(7) _ assms(5,4)] 1 by blast
qed

lemma current_value:
  assumes "current conn e d st" "answers conn"
  shows "result (evalResult st) = Some (kleene (call_of conn) (val_of (bindings st)) e)"
proof -
  have st: "assigned (bindings st) e" "eval conn (bindings st) e = Some (evalResult st)" using assms(1) by (simp_all add: current_def)
  have "evalResult st = spec_result (call_of conn) (val_of (bindings st)) (leaf_writes (bindings st) e Map.empty) e"
    using eval_spec [OF assms(2) st(1)] st(2) by (simp add: eval_def)
  then show ?thesis by simp
qed

lemma current_result:
  assumes "current conn e d st" "answers conn" "\<not> has_app e" "getResult st = Some (if b then TrueV else FalseV)"
    "completes \<rho> (bindings st)"
  shows "holds app \<rho> e = b"
proof -
  have st: "assigned (bindings st) e" using assms(1) by (simp add: current_def)
  have "result (evalResult st) = Some (if b then TrueV else FalseV)"
    using assms(4) by (auto simp: getResult_def split: if_splits)
  then have "kleene (call_of conn) (val_of (bindings st)) e = (if b then TrueV else FalseV)"
    using current_value [OF assms(1,2)] by simp
  from kleene_determines [OF assms(3) st this assms(5)] show ?thesis .
qed

lemma has_app_subexprs: "\<not> has_app e \<Longrightarrow> x \<in> set (subexprs e) \<Longrightarrow> \<not> has_app x \<and> expr_vars x \<subseteq> expr_vars e"
  by (induction e) auto

lemma current_nonViable:
  assumes "current conn e d st" "answers conn" "unique_ids e" "ladder_expr d = e"
  shows "verts (nonViableSubgraph st) =
    (\<Union>x\<in>{x \<in> set (subexprs e). kleene (call_of conn) (val_of (bindings st)) x = FalseV}.
      case jm_get (ladder_graphs d) (expr_id x) of None \<Rightarrow> {} | Some h \<Rightarrow> verts h)"
proof -
  let ?val = "kleene (call_of conn) (val_of (bindings st))"
  have st: "assigned (bindings st) e" "eval conn (bindings st) e = Some (evalResult st)"
    "computeNonViableSubgraph d (evalResult st) = Some (nonViableSubgraph st)" using assms(1) by (simp_all add: current_def)
  have "\<exists>g. computeNonViableSubgraph d (evalResult st) = Some g \<and>
      verts g = (\<Union>x\<in>{x \<in> set (subexprs (ladder_expr d)). ?val x = FalseV}.
        case jm_get (ladder_graphs d) (expr_id x) of None \<Rightarrow> {} | Some h \<Rightarrow> verts h)"
    by (rule nonViable_verts) (use eval_intermediate [OF assms(2) st(1) assms(3) st(2)] assms(4) in simp)
  then show ?thesis using st(3) assms(4) by simp
qed

lemma submitted_current:
  assumes "current conn e d st" "answers conn" "unique_ids e" "ladder_expr d = e"
  shows "\<exists>st'. submitNewBinding conn d u v st = Some st' \<and> current conn e d st' \<and> bindings st' = assign_set u v (bindings st)"
proof -
  have "assigned (assign_set u v (bindings st)) e" "analyzer_for e (partialEvalAnalyzer st)"
    using assms(1) assigned_set by (simp_all add: current_def)
  then show ?thesis
    using doEval_current [OF assms(2), of "st\<lparr>bindings := assign_set u v (bindings st)\<rparr>" e d] assms(3,4)
    by (simp add: submitNewBinding_def)
qed

lemma faded_part:
  assumes "current conn e d st" "answers conn" "\<not> has_app e" "unique_ids e" "ladder_expr d = e" "charts e d l' g"
    and "nodeIsInNonViableSubgraph st v" "completes \<rho> (bindings st)"
  obtains x h where "x \<in> set (subexprs e)" "jm_get (ladder_graphs d) (expr_id x) = Some h" "v \<in> verts h" "\<not> truth \<rho> x"
proof -
  have "v \<in> verts (nonViableSubgraph st)" using assms(7) by (simp add: nodeIsInNonViableSubgraph_def hasVertex_iff)
  then obtain x where x: "x \<in> set (subexprs e)" "kleene (call_of conn) (val_of (bindings st)) x = FalseV"
    "v \<in> (case jm_get (ladder_graphs d) (expr_id x) of None \<Rightarrow> {} | Some h \<Rightarrow> verts h)"
    unfolding current_nonViable [OF assms(1,2,4,5)] by blast
  obtain h where h: "jm_get (ladder_graphs d) (expr_id x) = Some h" using assms(6) x(1) by (auto simp: charts_def)
  have "\<not> has_app x" "expr_vars x \<subseteq> expr_vars e" using has_app_subexprs [OF assms(3) x(1)] by simp_all
  moreover from this have "assigned (bindings st) x" using assms(1) by (auto simp: assigned_def current_def)
  ultimately have "\<not> truth \<rho> x"
    using kleene_determines [of x "bindings st" "call_of conn" False \<rho>] x(2) assms(8) by simp
  then show thesis using that x(1,3) h by simp
qed

subsection \<open>Properties\<close>

lemma reset_get:
  "assign_get (fold (\<lambda>(u, _). assign_set u UnknownV) es a) u = (if u \<in> fst ` set es then Some UnknownV else assign_get a u)"
  by (induction es arbitrary: a) auto

text \<open>a ladder without calls opens and takes every answer: submitting one or taking all back always returns, whatever
  was done before, with what was submitted bound, or nothing known.\<close>

theorem answers_always_taken:
  assumes "sorts ts" "drawable e" "\<not> has_app e" "unique_ids e" "answers conn"
  shows "\<exists>d st0 l'. open_ladder conn ts env e l = Some (d, st0, l') \<and>
    (\<forall>st. ladder_run conn d st0 st \<longrightarrow>
       (\<forall>u v. \<exists>st'. submitNewBinding conn d u v st = Some st' \<and> getValueOfUnique u st' = Some v \<and>
          (\<forall>w. w \<noteq> u \<longrightarrow> getValueOfUnique w st' = getValueOfUnique w st)) \<and>
       (\<exists>st'. resetBindings conn d st = Some st' \<and>
          (\<forall>u. getValueOfUnique u st' = map_option (\<lambda>_. UnknownV) (getValueOfUnique u st))))"
proof -
  obtain d st0 l' where o: "open_ladder conn ts env e l = Some (d, st0, l')" "ladder_expr d = e" "current conn e d st0"
    using open_current [OF assms] by blast
  have "(\<forall>u v. \<exists>st'. submitNewBinding conn d u v st = Some st' \<and> getValueOfUnique u st' = Some v \<and>
        (\<forall>w. w \<noteq> u \<longrightarrow> getValueOfUnique w st' = getValueOfUnique w st)) \<and>
     (\<exists>st'. resetBindings conn d st = Some st' \<and>
        (\<forall>u. getValueOfUnique u st' = map_option (\<lambda>_. UnknownV) (getValueOfUnique u st)))"
    if run: "ladder_run conn d st0 st" for st
  proof -
    have cur: "current conn e d st" by (rule run_current [OF run o(3) assms(5,4) o(2)])
    then have st: "assigned (bindings st) e" "analyzer_for e (partialEvalAnalyzer st)" by (simp_all add: current_def)
    have "\<exists>st'. submitNewBinding conn d u v st = Some st' \<and> bindings st' = assign_set u v (bindings st)" for u v
      using submitted_current [OF cur assms(5,4) o(2), of u v] by blast
    then have 1: "\<exists>st'. submitNewBinding conn d u v st = Some st' \<and> getValueOfUnique u st' = Some v \<and>
        (\<forall>w. w \<noteq> u \<longrightarrow> getValueOfUnique w st' = getValueOfUnique w st)" for u v
      unfolding getValueOfUnique_def by (metis assign_get_set)
    obtain st' where st': "resetBindings conn d st = Some st'"
      "bindings st' = fold (\<lambda>(u, _). assign_set u UnknownV) (getEntries (bindings st)) (bindings st)"
      using doEval_current [OF assms(5), of "st\<lparr>bindings := fold (\<lambda>(u, _). assign_set u UnknownV) (getEntries (bindings st)) (bindings st)\<rparr>" e d]
        st assigned_reset assms(4) o(2) by (auto simp: resetBindings_def)
    have "u \<in> fst ` set (getEntries (bindings st)) \<longleftrightarrow> (\<exists>v. (u, v) \<in> set (getEntries (bindings st)))" for u by force
    then have "getValueOfUnique u st' = map_option (\<lambda>_. UnknownV) (getValueOfUnique u st)" for u
      by (cases "assign_get (bindings st) u") (simp_all add: getValueOfUnique_def st'(2) reset_get getEntries_get)
    then show ?thesis using 1 st'(1) by blast
  qed
  then show ?thesis using o(1) by blast
qed

text \<open>C6: what the ladder answers is what its paths say: when every negation is of a variable, and however the questions
  were answered, an answer of TRUE or FALSE means that for every way to answer the rest current does, or does not, flow
  along a path.\<close>

theorem ladder_answer_right:
  assumes "sorts ts" "drawable e" "nnf e" "\<not> has_app e" "unique_ids e" "answers conn"
    and "open_ladder conn ts env e l = Some (d, st0, l')" "ladder_run conn d st0 st"
    and "getResult st = Some (if b then TrueV else FalseV)" "completes \<rho> (bindings st)"
  shows "(\<exists>(i, p)\<in>set (ladder_paths d). conducts (context_of l') \<rho> (through ts p)) = b"
proof -
  note run = opened_run [OF assms(1,2,4-8)]
  have "truth \<rho> e = b" by (rule current_result [OF run(3) assms(6,4,9,10)])
  then show ?thesis using ladder_conducts [OF assms(1-4), of env l] run(1) by auto
qed

text \<open>what is faded is dead: no path through a node of the non-viable subgraph, unless it is a negated variable, lets
  current flow, however the rest is answered.\<close>

theorem faded_is_dead:
  assumes "sorts ts" "drawable e" "nnf e" "\<not> has_app e" "unique_ids e" "answers conn"
    and "open_ladder conn ts env e l = Some (d, st0, l')" "ladder_run conn d st0 st"
    and "nodeIsInNonViableSubgraph st v" "\<And>s. isNotStartNode (context_of l' s) \<Longrightarrow> \<not> hasEdge (ladder_dag d) s v"
    and "completes \<rho> (bindings st)" "(i, p) \<in> set (ladder_paths d)" "v \<in> set (through ts p)"
  shows "\<not> conducts (context_of l') \<rho> (through ts p)"
proof
  assume live: "conducts (context_of l') \<rho> (through ts p)"
  note run = opened_run [OF assms(1,2,4-8)]
  obtain g s t where g: "same_graph (ladder_dag d) g" "two_terminal g s t" "charts e d l' g"
    "isNnf (context_of l') g \<and> (\<lambda>x. through ts (snd x)) ` set (ladder_paths d) = st_walks g s t"
    using toLir_charts [OF assms(1,2,4,5) run(1)] assms(3) by metis
  obtain x h where x: "x \<in> set (subexprs e)" "jm_get (ladder_graphs d) (expr_id x) = Some h" "v \<in> verts h" "\<not> truth \<rho> x"
    by (rule faded_part [OF run(3) assms(6,4,5) run(2) g(3) assms(9,11)])
  have "x \<in> set (parts e)"
  proof (rule ccontr)
    assume "x \<notin> set (parts e)"
    then obtain w s' where "h = vertex w" "(s', w) \<in> arcs g" "isNotStartNode (context_of l' s')"
      using g(3) x(1,2) assms(3) unfolding charts_def by (metis option.inject)
    then show False using assms(10) x(3) same_graph_facts(2) [OF g(1)] by (auto simp: hasEdge_iff)
  qed
  then obtain a b where ab: "inner (context_of l') \<rho> h g" "two_terminal h a b" "good (context_of l') \<rho> h a b (truth \<rho> x)"
    using g(3) x(1,2) unfolding charts_def by (metis option.inject)
  have "through ts p \<in> st_walks g s t" using g(4) assms(12) by force
  then obtain q where "q \<in> st_walks h a b" "conducts (context_of l') \<rho> q"
    using ab(1,2) g(2,4) live x(3) assms(13) unfolding inner_def by blast
  moreover have "isNnf (context_of l') h" using isNnf_mono g(4) ab(1) unfolding inner_def by blast
  ultimately show False using ab(3) x(4) unfolding good_def by blast
qed


subsection \<open>Witnesses\<close>

theorem answers_always_taken_witness:
  "\<exists>d st0 l' st. open_ladder ev_conn kahn_sort lv_env lv_example lv_new = Some (d, st0, l') \<and>
     submitNewBinding ev_conn d 0 FalseV st0 = Some st \<and> getValueOfUnique 0 st = Some FalseV"
  using answers_always_taken [OF kahn_sorts lv_example_ok(1,3,4) ev_answers, of lv_env lv_new] ladder_run.opened by blast

lemma doEval_override:
  "doEvalLadderExprWithVarBindings conn d st = Some st' \<Longrightarrow> elicitationOverride st' = elicitationOverride st"
  by (auto simp: doEvalLadderExprWithVarBindings_def split: option.splits prod.splits)

lemma open_override: "open_ladder conn ts env e l = Some (d, st, l') \<Longrightarrow> elicitationOverride st = None"
  by (auto simp: open_ladder_def new_answers_def Let_def dest!: doEval_override split: option.splits sum.splits)

text \<open>The example once its first question is answered with FALSE: it is false, and its source is faded.\<close>

lemma lv_answered:
  obtains d st0 l' st g s t where "open_ladder ev_conn kahn_sort lv_env lv_example lv_new = Some (d, st0, l')"
    "ladder_run ev_conn d st0 st" "getResult st = Some FalseV" "nodeIsInNonViableSubgraph st s"
    "\<And>v. \<not> hasEdge (ladder_dag d) v s" "\<And>x. x \<in> set (ladder_paths d) \<Longrightarrow> s \<in> set (through kahn_sort (snd x))"
    "ladder_paths d \<noteq> []"
proof -
  note ok = kahn_sorts lv_example_ok(1,3,4)
  obtain d st0 l' where d: "open_ladder ev_conn kahn_sort lv_env lv_example lv_new = Some (d, st0, l')"
    "toLir kahn_sort lv_env lv_example lv_new = Some (d, l')" "ladder_expr d = lv_example" "current ev_conn lv_example d st0"
    using open_current [OF ok ev_answers] by blast
  obtain g s t where g: "same_graph (ladder_dag d) g" "two_terminal g s t" "jm_get (ladder_graphs d) (expr_id lv_example) = Some g"
    "(\<lambda>x. through kahn_sort (snd x)) ` set (ladder_paths d) = st_walks g s t"
    using toLir_charts [OF ok d(2)] lv_example_ok(2) by metis
  obtain st where st: "submitNewBinding ev_conn d 0 FalseV st0 = Some st" "current ev_conn lv_example d st"
    "bindings st = assign_set 0 FalseV (bindings st0)"
    using submitted_current [OF d(4) ev_answers lv_example_ok(4) d(3)] by blast
  have run: "ladder_run ev_conn d st0 st" by (rule ladder_run.submitted [OF ladder_run.opened st(1)])
  have k: "kleene (call_of ev_conn) (val_of (bindings st)) lv_example = FalseV"
    by (simp add: lv_example_def lv_var_def st(3) val_of_def kleene_and_def)
  note verts = current_nonViable [OF st(2) ev_answers lv_example_ok(4) d(3)]
  have "lv_example \<in> {x \<in> set (subexprs lv_example). kleene (call_of ev_conn) (val_of (bindings st)) x = FalseV}" using k by simp
  then have "verts g \<subseteq> verts (nonViableSubgraph st)" unfolding verts using g(3) by force
  then have 1: "nodeIsInNonViableSubgraph st s"
    using two_terminal_facts(3) [OF g(2)] by (auto simp: nodeIsInNonViableSubgraph_def hasVertex_iff)
  have 2: "\<not> hasEdge (ladder_dag d) v s" for v
    using two_terminal_ends(3) [OF g(2)] same_graph_facts(2) [OF g(1)] by (simp add: hasEdge_iff)
  have 3: "s \<in> set (through kahn_sort (snd x))" if "x \<in> set (ladder_paths d)" for x
  proof -
    have "through kahn_sort (snd x) \<in> st_walks g s t" using g(4) that by force
    then show ?thesis using walk_nonempty by (fastforce simp: st_walks_def)
  qed
  have "elicitationOverride st = None"
    using open_override [OF d(1)] doEval_override st(1) unfolding submitNewBinding_def by fastforce
  then have 4: "getResult st = Some FalseV" using current_value [OF st(2) ev_answers] k by (simp add: getResult_def isDeclined_def)
  have "truth (\<lambda>u. u < 2) lv_example" by (simp add: lv_example_def lv_var_def)
  then have "ladder_paths d \<noteq> []" using ladder_conducts [OF kahn_sorts lv_example_ok(1-3), of lv_env lv_new] d(2) by fastforce
  with that [OF d(1) run 4 1 2 3] show thesis by blast
qed

lemma completes_itself: "completes (\<lambda>u. assign_get a u = Some TrueV) a"
  by (simp add: completes_def)

theorem ladder_answer_right_witness:
  "\<exists>d st0 l' st \<rho>. open_ladder ev_conn kahn_sort lv_env lv_example lv_new = Some (d, st0, l') \<and> completes \<rho> (bindings st) \<and>
     getResult st = Some FalseV \<and> \<not> (\<exists>(i, p)\<in>set (ladder_paths d). conducts (context_of l') \<rho> (through kahn_sort p))"
proof -
  obtain d st0 l' st where d: "open_ladder ev_conn kahn_sort lv_env lv_example lv_new = Some (d, st0, l')"
    "ladder_run ev_conn d st0 st" "getResult st = Some FalseV" using lv_answered by metis
  then have "getResult st = Some (if False then TrueV else FalseV)" by simp
  from ladder_answer_right [OF kahn_sorts lv_example_ok ev_answers d(1,2) this completes_itself] d(1,3)
  show ?thesis using completes_itself by blast
qed

theorem faded_is_dead_witness:
  "\<exists>d st0 l' st s i p. open_ladder ev_conn kahn_sort lv_env lv_example lv_new = Some (d, st0, l') \<and>
     nodeIsInNonViableSubgraph st s \<and> (i, p) \<in> set (ladder_paths d) \<and> s \<in> set (through kahn_sort p) \<and>
     \<not> conducts (context_of l') (\<lambda>u. assign_get (bindings st) u = Some TrueV) (through kahn_sort p)"
proof -
  obtain d st0 l' st s where d: "open_ladder ev_conn kahn_sort lv_env lv_example lv_new = Some (d, st0, l')"
    "ladder_run ev_conn d st0 st" "nodeIsInNonViableSubgraph st s" "\<And>v. \<not> hasEdge (ladder_dag d) v s"
    "\<And>x. x \<in> set (ladder_paths d) \<Longrightarrow> s \<in> set (through kahn_sort (snd x))" "ladder_paths d \<noteq> []"
    using lv_answered by metis
  obtain i p where p: "(i, p) \<in> set (ladder_paths d)" using d(6) by (cases "ladder_paths d") auto
  then have s: "s \<in> set (through kahn_sort p)" using d(5) by fastforce
  from faded_is_dead [OF kahn_sorts lv_example_ok ev_answers d(1,2,3) _ completes_itself p s] d(1,3,4) p s
  show ?thesis by blast
qed

subsection \<open>Where the ladder says something else\<close>

definition lv_negated :: irexpr where
  "lv_negated = Not 1 (lv_var 2 0)"

lemma lv_negated_drawn:
  "case toLir kahn_sort lv_env lv_negated lv_new of None \<Rightarrow> False
   | Some (d, l') \<Rightarrow> map_option getVertices (jm_get (ladder_graphs d) 2) = Some [2] \<and>
       list_ex (\<lambda>x. 2 \<in> set (through kahn_sort (snd x)) \<and> conducts (context_of l') (\<lambda>_. False) (through kahn_sort (snd x)))
         (ladder_paths d)"
  by code_simp

lemma lv_negated_faded:
  "\<exists>d st0 l' st. open_ladder ev_conn kahn_sort lv_env lv_negated lv_new = Some (d, st0, l') \<and>
     submitNewBinding ev_conn d 0 FalseV st0 = Some st \<and> nodeIsInNonViableSubgraph st 2 \<and>
     list_ex (\<lambda>x. 2 \<in> set (through kahn_sort (snd x)) \<and> conducts (context_of l') (\<lambda>_. False) (through kahn_sort (snd x)))
       (ladder_paths d)"
proof -
  let ?x = "lv_var 2 0"
  have ok: "drawable lv_negated" "\<not> has_app lv_negated" "unique_ids lv_negated" "?x \<in> set (subexprs lv_negated)" "expr_id ?x = 2"
    by (simp_all add: lv_negated_def lv_var_def unique_ids_def)
  obtain d st0 l' where d: "open_ladder ev_conn kahn_sort lv_env lv_negated lv_new = Some (d, st0, l')"
    "toLir kahn_sort lv_env lv_negated lv_new = Some (d, l')" "ladder_expr d = lv_negated" "current ev_conn lv_negated d st0"
    using open_current [OF kahn_sorts ok(1-3) ev_answers] by blast
  have drawn: "map_option getVertices (jm_get (ladder_graphs d) 2) = Some [2]"
    "list_ex (\<lambda>x. 2 \<in> set (through kahn_sort (snd x)) \<and> conducts (context_of l') (\<lambda>_. False) (through kahn_sort (snd x)))
       (ladder_paths d)" using lv_negated_drawn d(2) by simp_all
  then obtain h where h: "jm_get (ladder_graphs d) 2 = Some h" "getVertices h = [2]" by auto
  have "set (getVertices h) = verts h" by (simp add: getVertices_def verts_def)
  then have v: "2 \<in> verts h" unfolding h(2) by auto
  obtain st where st: "submitNewBinding ev_conn d 0 FalseV st0 = Some st" "current ev_conn lv_negated d st"
    "bindings st = assign_set 0 FalseV (bindings st0)"
    using submitted_current [OF d(4) ev_answers ok(3) d(3)] by blast
  have "2 \<in> verts (nonViableSubgraph st)"
    unfolding current_nonViable [OF st(2) ev_answers ok(3) d(3)]
    using ok(4,5) h(1) v by (intro UN_I [of ?x]) (simp_all add: lv_var_def st(3) val_of_def)
  then show ?thesis using d(1) st(1) drawn(2) by (auto simp: nodeIsInNonViableSubgraph_def hasVertex_iff)
qed

text \<open>Outside the assumptions above the ladder goes wrong: a conjunction without parts is not drawn, one path of a
  disjunction without parts always conducts although it is false, a call with an argument that is not a variable cannot
  be opened, because the variables in it are bound to nothing, and a negated variable that is FALSE is faded although the
  path through it conducts.\<close>

lemma ladder_limits:
  "toLir kahn_sort lv_env (And 1 []) lv_new = None \<and>
   (case toLir kahn_sort lv_env (Or 1 []) lv_new of None \<Rightarrow> False
    | Some (d, l') \<Rightarrow> list_ex (\<lambda>x. conducts (context_of l') \<rho> (through kahn_sort (snd x))) (ladder_paths d)) \<and>
   open_ladder ev_conn kahn_sort lv_env (App 1 \<lparr>unique_of = 9, label = ''f''\<rparr> [Not 2 (lv_var 3 0)] ''a'') lv_new = None \<and>
   (\<exists>d st0 l' st. open_ladder ev_conn kahn_sort lv_env lv_negated lv_new = Some (d, st0, l') \<and>
      submitNewBinding ev_conn d 0 FalseV st0 = Some st \<and> nodeIsInNonViableSubgraph st 2 \<and>
      list_ex (\<lambda>x. 2 \<in> set (through kahn_sort (snd x)) \<and> conducts (context_of l') (\<lambda>_. False) (through kahn_sort (snd x)))
        (ladder_paths d))"
proof (intro conjI)
  show "toLir kahn_sort lv_env (And 1 []) lv_new = None" by code_simp
  show "case toLir kahn_sort lv_env (Or 1 []) lv_new of None \<Rightarrow> False
    | Some (d, l') \<Rightarrow> list_ex (\<lambda>x. conducts (context_of l') \<rho> (through kahn_sort (snd x))) (ladder_paths d)" by code_simp
  show "open_ladder ev_conn kahn_sort lv_env (App 1 \<lparr>unique_of = 9, label = ''f''\<rparr> [Not 2 (lv_var 3 0)] ''a'') lv_new = None"
    by code_simp
  show "\<exists>d st0 l' st. open_ladder ev_conn kahn_sort lv_env lv_negated lv_new = Some (d, st0, l') \<and>
      submitNewBinding ev_conn d 0 FalseV st0 = Some st \<and> nodeIsInNonViableSubgraph st 2 \<and>
      list_ex (\<lambda>x. 2 \<in> set (through kahn_sort (snd x)) \<and> conducts (context_of l') (\<lambda>_. False) (through kahn_sort (snd x)))
        (ladder_paths d)" by (rule lv_negated_faded)
qed

end
