(* ===== verification/FileChecks.thy ===== *)
theory FileChecks
  imports L4Prelude
begin

text \<open>
  What the language server has said about each document, and who waits for it:
  \<^verbatim>\<open>ts-shared/legalese-agent/src/file-checks.ts\<close>.

  A promise is a number: the \<open>w\<close>-th call of \<^verbatim>\<open>wait\<close>, the \<open>c\<close>-th call of \<^verbatim>\<open>settle\<close>. What a promise was
  resolved with is an entry of a list. A timer that was neither cleared nor has fired is in \<open>timers\<close>; when it fires
  is an action of its own, and so is the moment at which \<^verbatim>\<open>settle\<close> goes on after its \<^verbatim>\<open>await\<close>. The type of a
  diagnostic is a parameter, as in the code.
\<close>

subsection \<open>State\<close>

datatype check_outcome = Checked | Pending | Unsupported

record 'd file_checks =
  checks_of :: "(string, int option \<times> 'd list) jsmap"
  waiters_of :: "(string, nat list) jsmap"
  seen :: bool
  gaveUp :: bool
  waits :: "(string \<times> int) list"
  timers :: "nat list"
  wait_answers :: "(nat \<times> bool) list"
  settles :: "nat option list"
  outcomes :: "(nat \<times> check_outcome) list"

definition new_file_checks :: "'d file_checks" where
  "new_file_checks = \<lparr>checks_of = [], waiters_of = [], seen = False, gaveUp = False, waits = [], timers = [],
     wait_answers = [], settles = [], outcomes = []\<rparr>"

definition isChecked :: "'d file_checks \<Rightarrow> string \<Rightarrow> int \<Rightarrow> bool" where
  "isChecked s k version \<longleftrightarrow>
     (case jm_get (checks_of s) k of
        None \<Rightarrow> False
      | Some (v, _) \<Rightarrow> (case v of None \<Rightarrow> True | Some n \<Rightarrow> version \<le> n))"

definition latest :: "'d file_checks \<Rightarrow> string \<Rightarrow> 'd list option" where
  "latest s k = map_option snd (jm_get (checks_of s) k)"

definition errorCounts :: "('d \<Rightarrow> bool) \<Rightarrow> 'd file_checks \<Rightarrow> (string, nat) jsmap" where
  "errorCounts isError s = map (\<lambda>(k, _, ds). (k, length (filter isError ds))) (checks_of s)"

subsection \<open>Operations\<close>

definition listen :: "string \<Rightarrow> nat \<Rightarrow> 'd file_checks \<Rightarrow> 'd file_checks" where
  "listen k w s =
     s\<lparr>waiters_of := jm_set k ((case jm_get (waiters_of s) k of None \<Rightarrow> [] | Some ws \<Rightarrow> ws) @ [w]) (waiters_of s)\<rparr>"

text \<open>The callback of a wait.\<close>

definition onChange :: "nat \<Rightarrow> 'd file_checks \<Rightarrow> 'd file_checks" where
  "onChange w s =
     (let (k, version) = waits s ! w
      in if isChecked s k version \<or> jm_get (checks_of s) k = None
         then s\<lparr>timers := filter (\<lambda>t. t \<noteq> w) (timers s), wait_answers := wait_answers s @ [(w, isChecked s k version)]\<rparr>
         else listen k w s)"

definition wake :: "string \<Rightarrow> 'd file_checks \<Rightarrow> 'd file_checks" where
  "wake k s =
     (case jm_get (waiters_of s) k of
        None \<Rightarrow> s
      | Some waiting \<Rightarrow> fold onChange waiting (s\<lparr>waiters_of := jm_delete k (waiters_of s)\<rparr>))"

definition record_check :: "string \<Rightarrow> int option \<Rightarrow> 'd list \<Rightarrow> 'd file_checks \<Rightarrow> 'd file_checks" where
  "record_check k version ds s =
     wake k (s\<lparr>seen := True, gaveUp := False, checks_of := jm_set k (version, ds) (checks_of s)\<rparr>)"

definition forget :: "string \<Rightarrow> 'd file_checks \<Rightarrow> 'd file_checks" where
  "forget k s = wake k (s\<lparr>checks_of := jm_delete k (checks_of s)\<rparr>)"

definition clear :: "'d file_checks \<Rightarrow> 'd file_checks" where
  "clear s = fold wake (map fst (waiters_of s)) (s\<lparr>checks_of := []\<rparr>)"

definition wait :: "string \<Rightarrow> int \<Rightarrow> 'd file_checks \<Rightarrow> 'd file_checks" where
  "wait k version s =
     (let w = length (waits s); s = s\<lparr>waits := waits s @ [(k, version)]\<rparr>
      in if isChecked s k version then s\<lparr>wait_answers := wait_answers s @ [(w, True)]\<rparr>
         else listen k w (s\<lparr>timers := timers s @ [w]\<rparr>))"

definition wait_timeout :: "nat \<Rightarrow> 'd file_checks \<Rightarrow> 'd file_checks" where
  "wait_timeout w s =
     (let k = fst (waits s ! w);
          ws = (case jm_get (waiters_of s) k of
                  None \<Rightarrow> waiters_of s
                | Some still \<Rightarrow> jm_set k (filter (\<lambda>f. f \<noteq> w) still) (waiters_of s))
      in s\<lparr>waiters_of := ws, timers := filter (\<lambda>t. t \<noteq> w) (timers s), wait_answers := wait_answers s @ [(w, False)]\<rparr>)"

text \<open>\<^verbatim>\<open>settle\<close> up to its \<^verbatim>\<open>await\<close>, and from there on.\<close>

definition settle_begin :: "string \<Rightarrow> int \<Rightarrow> 'd file_checks \<Rightarrow> 'd file_checks" where
  "settle_begin k version s =
     (if gaveUp s \<and> \<not> seen s
      then s\<lparr>settles := settles s @ [None], outcomes := outcomes s @ [(length (settles s), Unsupported)]\<rparr>
      else (wait k version s)\<lparr>settles := settles s @ [Some (length (waits s))]\<rparr>)"

definition settle_end :: "nat \<Rightarrow> bool \<Rightarrow> 'd file_checks \<Rightarrow> 'd file_checks" where
  "settle_end c answer s =
     (if answer then s\<lparr>outcomes := outcomes s @ [(c, Checked)]\<rparr>
      else s\<lparr>gaveUp := (if \<not> seen s then True else gaveUp s), outcomes := outcomes s @ [(c, Pending)]\<rparr>)"

subsection \<open>Runs\<close>

datatype 'd check_action =
  Record string "int option" "'d list" | Forget string | Clear | Wait string int | Timeout nat | Settle string int | Resume nat

text \<open>The actions of a run, the last one first.\<close>

inductive checks_run :: "'d check_action list \<Rightarrow> 'd file_checks \<Rightarrow> bool" where
  start: "checks_run [] new_file_checks"
| recorded: "checks_run tr s \<Longrightarrow> checks_run (Record k v ds # tr) (record_check k v ds s)"
| forgotten: "checks_run tr s \<Longrightarrow> checks_run (Forget k # tr) (forget k s)"
| cleared: "checks_run tr s \<Longrightarrow> checks_run (Clear # tr) (clear s)"
| waiting: "checks_run tr s \<Longrightarrow> checks_run (Wait k v # tr) (wait k v s)"
| timed_out: "checks_run tr s \<Longrightarrow> w \<in> set (timers s) \<Longrightarrow> checks_run (Timeout w # tr) (wait_timeout w s)"
| settling: "checks_run tr s \<Longrightarrow> checks_run (Settle k v # tr) (settle_begin k v s)"
| resumed: "checks_run tr s \<Longrightarrow> c < length (settles s) \<Longrightarrow> settles s ! c = Some w \<Longrightarrow> (w, b) \<in> set (wait_answers s) \<Longrightarrow>
    c \<notin> fst ` set (outcomes s) \<Longrightarrow> checks_run (Resume c # tr) (settle_end c b s)"

text \<open>What the notifications so far say of a document: the last one about it covers the version, and it was not closed
  since.\<close>

fun vouches :: "'d check_action list \<Rightarrow> string \<Rightarrow> int \<Rightarrow> bool" where
  "vouches [] k n = False"
| "vouches (Record k' v ds # tr) k n = (if k' = k then (case v of None \<Rightarrow> True | Some m \<Rightarrow> n \<le> m) else vouches tr k n)"
| "vouches (Forget k' # tr) k n = (if k' = k then False else vouches tr k n)"
| "vouches (Clear # tr) k n = False"
| "vouches (_ # tr) k n = vouches tr k n"

fun is_record :: "'d check_action \<Rightarrow> bool" where
  "is_record (Record _ _ _) = True"
| "is_record _ = False"


subsection \<open>What one operation does\<close>

definition waiting_for :: "'d file_checks \<Rightarrow> string \<Rightarrow> nat list" where
  "waiting_for s k = (case jm_get (waiters_of s) k of None \<Rightarrow> [] | Some ws \<Rightarrow> ws)"

definition covered_wait :: "'d file_checks \<Rightarrow> nat \<Rightarrow> bool" where
  "covered_wait s w = (case waits s ! w of (k, version) \<Rightarrow> isChecked s k version)"

definition decided :: "'d file_checks \<Rightarrow> string \<Rightarrow> nat \<Rightarrow> bool" where
  "decided s k w \<longleftrightarrow> covered_wait s w \<or> jm_get (checks_of s) k = None"

text \<open>What the callbacks do not touch.\<close>

definition same_but_waiting :: "'d file_checks \<Rightarrow> 'd file_checks \<Rightarrow> bool" where
  "same_but_waiting s s' \<longleftrightarrow> checks_of s' = checks_of s \<and> waits s' = waits s \<and> seen s' = seen s \<and> gaveUp s' = gaveUp s \<and>
     settles s' = settles s \<and> outcomes s' = outcomes s"

lemma same_but_waiting_refl [simp]: "same_but_waiting s s"
  by (simp add: same_but_waiting_def)

lemma same_but_waiting_trans: "same_but_waiting s t \<Longrightarrow> same_but_waiting t u \<Longrightarrow> same_but_waiting s u"
  by (simp add: same_but_waiting_def)

lemma isChecked_same: "checks_of s' = checks_of s \<Longrightarrow> isChecked s' k n = isChecked s k n"
  by (simp add: isChecked_def)

lemma same_but_waiting_reads:
  assumes "same_but_waiting s s'"
  shows "isChecked s' k n = isChecked s k n" "covered_wait s' w = covered_wait s w" "decided s' k w = decided s k w"
  using assms by (simp_all add: same_but_waiting_def covered_wait_def decided_def isChecked_same [of s' s])

lemma waiting_for_listen: "waiting_for (listen k w s) k' = (if k' = k then waiting_for s k @ [w] else waiting_for s k')"
  by (simp add: waiting_for_def listen_def jm_get_set)

lemma listen_same [simp]: "same_but_waiting s (listen k w s)" "timers (listen k w s) = timers s"
    "wait_answers (listen k w s) = wait_answers s"
  by (simp_all add: same_but_waiting_def listen_def)

lemma onChange_effect:
  assumes "fst (waits s ! w) = k"
  shows "same_but_waiting s (onChange w s)"
    "waiting_for (onChange w s) k' = (if k' = k \<and> \<not> decided s k w then waiting_for s k @ [w] else waiting_for s k')"
    "timers (onChange w s) = filter (\<lambda>t. \<not> (t = w \<and> decided s k w)) (timers s)"
    "wait_answers (onChange w s) = wait_answers s @ (if decided s k w then [(w, covered_wait s w)] else [])"
proof -
  obtain version where w: "waits s ! w = (k, version)" using assms by (cases "waits s ! w") auto
  have d: "decided s k w \<longleftrightarrow> isChecked s k version \<or> jm_get (checks_of s) k = None" "covered_wait s w = isChecked s k version"
    by (simp_all add: decided_def covered_wait_def w)
  show "same_but_waiting s (onChange w s)"
    by (simp add: onChange_def w Let_def) (simp add: same_but_waiting_def)
  show "waiting_for (onChange w s) k' = (if k' = k \<and> \<not> decided s k w then waiting_for s k @ [w] else waiting_for s k')"
    "timers (onChange w s) = filter (\<lambda>t. \<not> (t = w \<and> decided s k w)) (timers s)"
    "wait_answers (onChange w s) = wait_answers s @ (if decided s k w then [(w, covered_wait s w)] else [])"
    unfolding d by (simp_all add: onChange_def w Let_def waiting_for_listen) (simp_all add: waiting_for_def)
qed

lemma fold_onChange_effect:
  assumes "\<forall>w\<in>set ws. fst (waits s ! w) = k"
  shows "same_but_waiting s (fold onChange ws s) \<and>
    waiting_for (fold onChange ws s) k' = (if k' = k then waiting_for s k @ filter (\<lambda>w. \<not> decided s k w) ws else waiting_for s k') \<and>
    timers (fold onChange ws s) = filter (\<lambda>t. \<not> (t \<in> set ws \<and> decided s k t)) (timers s) \<and>
    wait_answers (fold onChange ws s) = wait_answers s @ map (\<lambda>w. (w, covered_wait s w)) (filter (decided s k) ws)"
  using assms
proof (induction ws arbitrary: s)
  case (Cons w ws)
  have w: "fst (waits s ! w) = k" using Cons.prems by simp
  note one = onChange_effect [OF w]
  have same: "waits (onChange w s) = waits s" using one(1) by (simp add: same_but_waiting_def)
  have IH: "same_but_waiting (onChange w s) (fold onChange ws (onChange w s))"
    "waiting_for (fold onChange ws (onChange w s)) k' = (if k' = k then waiting_for (onChange w s) k @
        filter (\<lambda>w. \<not> decided s k w) ws else waiting_for (onChange w s) k')"
    "timers (fold onChange ws (onChange w s)) = filter (\<lambda>t. \<not> (t \<in> set ws \<and> decided s k t)) (timers (onChange w s))"
    "wait_answers (fold onChange ws (onChange w s)) =
        wait_answers (onChange w s) @ map (\<lambda>w. (w, covered_wait s w)) (filter (decided s k) ws)"
    using Cons.IH [of "onChange w s"] Cons.prems same_but_waiting_reads [OF one(1)] by (simp_all add: same)
  show ?case
  proof (intro conjI)
    show "same_but_waiting s (fold onChange (w # ws) s)"
      using IH(1) one(1) same_but_waiting_trans by (simp, blast)
    show "waiting_for (fold onChange (w # ws) s) k' =
        (if k' = k then waiting_for s k @ filter (\<lambda>w. \<not> decided s k w) (w # ws) else waiting_for s k')"
      using IH(2) one(2) by simp
    show "timers (fold onChange (w # ws) s) = filter (\<lambda>t. \<not> (t \<in> set (w # ws) \<and> decided s k t)) (timers s)"
      using IH(3) by (auto simp: one(3) intro!: filter_cong)
    show "wait_answers (fold onChange (w # ws) s) =
        wait_answers s @ map (\<lambda>w. (w, covered_wait s w)) (filter (decided s k) (w # ws))"
      using IH(4) one(4) by simp
  qed
qed simp

lemma wake_effect:
  assumes "\<forall>w\<in>set (waiting_for s k). fst (waits s ! w) = k"
  shows "same_but_waiting s (wake k s)"
    "waiting_for (wake k s) k' = (if k' = k then filter (\<lambda>w. \<not> decided s k w) (waiting_for s k) else waiting_for s k')"
    "timers (wake k s) = filter (\<lambda>t. \<not> (t \<in> set (waiting_for s k) \<and> decided s k t)) (timers s)"
    "wait_answers (wake k s) = wait_answers s @ map (\<lambda>w. (w, covered_wait s w)) (filter (decided s k) (waiting_for s k))"
proof -
  let ?s0 = "s\<lparr>waiters_of := jm_delete k (waiters_of s)\<rparr>"
  have s0: "same_but_waiting s ?s0" "waits ?s0 = waits s" by (simp_all add: same_but_waiting_def)
  note reads = same_but_waiting_reads [OF s0(1)]
  have w0: "waiting_for ?s0 k' = (if k' = k then [] else waiting_for s k')" for k'
    by (simp add: waiting_for_def jm_get_delete)
  have wake: "wake k s = (if jm_get (waiters_of s) k = None then s else fold onChange (waiting_for s k) ?s0)"
    by (auto simp: wake_def waiting_for_def split: option.split)
  note all = fold_onChange_effect [of "waiting_for s k" ?s0 k, unfolded reads w0 s0(2), OF assms]
  have none: "waiting_for s k = []" if "jm_get (waiters_of s) k = None" using that by (simp add: waiting_for_def)
  show "same_but_waiting s (wake k s)" using all s0(1) same_but_waiting_trans unfolding wake by (simp, blast)
  show "waiting_for (wake k s) k' = (if k' = k then filter (\<lambda>w. \<not> decided s k w) (waiting_for s k) else waiting_for s k')"
    using all none unfolding wake by auto
  show "timers (wake k s) = filter (\<lambda>t. \<not> (t \<in> set (waiting_for s k) \<and> decided s k t)) (timers s)"
    using all none unfolding wake by (auto simp del: not_None_eq)
  show "wait_answers (wake k s) = wait_answers s @ map (\<lambda>w. (w, covered_wait s w)) (filter (decided s k) (waiting_for s k))"
    using all none unfolding wake by auto
qed

subsection \<open>The invariant\<close>

text \<open>A wait that was not answered has its timer and stands once in the line of its document, and no check covers it,
  except those of the documents in \<open>K\<close>, whose line is still to be woken.\<close>

definition waits_ok :: "string set \<Rightarrow> 'd file_checks \<Rightarrow> bool" where
  "waits_ok K s \<longleftrightarrow>
     (\<forall>w<length (waits s). w \<in> set (timers s) \<longleftrightarrow> w \<notin> fst ` set (wait_answers s)) \<and>
     set (timers s) \<union> fst ` set (wait_answers s) \<subseteq> {..<length (waits s)} \<and>
     distinct (map fst (wait_answers s)) \<and>
     (\<forall>k. distinct (waiting_for s k) \<and> set (waiting_for s k) = {w \<in> set (timers s). fst (waits s ! w) = k}) \<and>
     (\<forall>w\<in>set (timers s). fst (waits s ! w) \<in> K \<or> \<not> covered_wait s w)"

lemma waits_ok_line: "waits_ok K s \<Longrightarrow> \<forall>w\<in>set (waiting_for s k). fst (waits s ! w) = k"
  by (simp add: waits_ok_def)

text \<open>What is answered in a step is answered as the state it leads to says.\<close>

definition answers_truly :: "'d file_checks \<Rightarrow> 'd file_checks \<Rightarrow> bool" where
  "answers_truly s s' \<longleftrightarrow> (\<exists>new. wait_answers s' = wait_answers s @ new \<and> (\<forall>(w, b)\<in>set new. b = covered_wait s' w))"

lemma answers_truly_trans:
  assumes "answers_truly s t" "answers_truly t u" "checks_of u = checks_of t" "waits u = waits t"
  shows "answers_truly s u"
proof -
  have "covered_wait u = covered_wait t" using assms(3,4) by (auto simp: covered_wait_def isChecked_def fun_eq_iff)
  then show ?thesis using assms(1,2) unfolding answers_truly_def by (auto simp: ball_Un)
qed

lemma wake_ok:
  assumes "waits_ok (insert k K) s"
  shows "waits_ok K (wake k s)" "answers_truly s (wake k s)"
proof -
  note line = waits_ok_line [OF assms, of k] and inv = assms [unfolded waits_ok_def]
  note e = wake_effect [OF line] and reads = same_but_waiting_reads [OF e(1)]
  have waits: "waits (wake k s) = waits s" using e(1) by (simp add: same_but_waiting_def)
  have set_line: "set (waiting_for s k) = {w \<in> set (timers s). fst (waits s ! w) = k}" "distinct (waiting_for s k)"
    using inv by blast+
  have timers: "set (timers (wake k s)) = {t \<in> set (timers s). \<not> (fst (waits s ! t) = k \<and> decided s k t)}"
    unfolding e(3) by (auto simp: set_line)
  have answered: "fst ` set (wait_answers (wake k s)) =
      fst ` set (wait_answers s) \<union> {t \<in> set (timers s). fst (waits s ! t) = k \<and> decided s k t}"
    unfolding e(4) set_append set_map image_Un image_image fst_conv image_ident set_filter set_line by blast
  have 1: "\<forall>w<length (waits s). w \<in> set (timers s) \<longleftrightarrow> w \<notin> fst ` set (wait_answers s)"
    and 2: "set (timers s) \<union> fst ` set (wait_answers s) \<subseteq> {..<length (waits s)}"
    and 3: "distinct (map fst (wait_answers s))"
    and 4: "\<And>k. distinct (waiting_for s k) \<and> set (waiting_for s k) = {w \<in> set (timers s). fst (waits s ! w) = k}"
    and 5: "\<forall>w\<in>set (timers s). fst (waits s ! w) \<in> insert k K \<or> \<not> covered_wait s w"
    using inv by blast+
  have disj: "set (waiting_for s k) \<inter> fst ` set (wait_answers s) = {}" using 1 2 set_line by blast
  have "distinct (map fst (wait_answers (wake k s)))"
    using 3 disj set_line(2) unfolding e(4) by (auto simp: comp_def)
  moreover have "\<forall>w<length (waits s). w \<in> set (timers (wake k s)) \<longleftrightarrow> w \<notin> fst ` set (wait_answers (wake k s))"
    using 1 unfolding timers answered by auto
  moreover have "set (timers (wake k s)) \<union> fst ` set (wait_answers (wake k s)) \<subseteq> {..<length (waits s)}"
    using 2 unfolding timers answered by auto
  moreover have "distinct (waiting_for (wake k s) k') \<and>
      set (waiting_for (wake k s) k') = {w \<in> set (timers (wake k s)). fst (waits s ! w) = k'}" for k'
    using 4 [of k'] unfolding e(2) timers by (auto simp: set_line)
  moreover have "\<forall>w\<in>set (timers (wake k s)). fst (waits s ! w) \<in> K \<or> \<not> covered_wait s w"
    using 5 unfolding timers by (auto simp: decided_def)
  ultimately show "waits_ok K (wake k s)" unfolding waits_ok_def waits reads by blast
  show "answers_truly s (wake k s)" unfolding answers_truly_def e(4) reads by auto
qed

lemma waits_ok_mono: "waits_ok K s \<Longrightarrow> K \<subseteq> K' \<Longrightarrow> waits_ok K' s"
  unfolding waits_ok_def by blast

lemma wake_same: "waits_ok K s \<Longrightarrow> same_but_waiting s (wake k s)"
  by (rule wake_effect(1) [OF waits_ok_line])

lemma fold_wake_ok:
  assumes "waits_ok {} s"
  shows "waits_ok {} (fold wake ks s) \<and> answers_truly s (fold wake ks s) \<and> same_but_waiting s (fold wake ks s)"
  using assms
proof (induction ks arbitrary: s)
  case (Cons k ks)
  have ok: "waits_ok {} (wake k s)" "answers_truly s (wake k s)"
    using wake_ok [OF waits_ok_mono [OF Cons.prems]] by blast+
  note same = wake_same [OF Cons.prems, of k] and IH = Cons.IH [OF ok(1)]
  have "answers_truly s (fold wake ks (wake k s))"
    using IH by (intro answers_truly_trans [OF ok(2)]) (auto simp: same_but_waiting_def)
  then show ?case using IH same_but_waiting_trans [OF same] by simp
qed (auto simp: answers_truly_def)


subsection \<open>Every operation keeps it\<close>

lemma waits_ok_checks:
  assumes "waits_ok K s" "waits s' = waits s" "timers s' = timers s" "wait_answers s' = wait_answers s"
    "waiters_of s' = waiters_of s" "\<And>w. w \<in> set (timers s) \<Longrightarrow> covered_wait s' w \<Longrightarrow> covered_wait s w \<or> fst (waits s ! w) \<in> K'"
  shows "waits_ok (K \<union> K') s'"
proof -
  have line: "waiting_for s' = waiting_for s" using assms(5) by (simp add: waiting_for_def fun_eq_iff)
  have "\<forall>w\<in>set (timers s). fst (waits s ! w) \<in> K \<union> K' \<or> \<not> covered_wait s' w"
    using assms(1,6) unfolding waits_ok_def by (metis Un_iff)
  then show ?thesis
    using assms(1) unfolding waits_ok_def assms(2-4) line by (elim conjE) (intro conjI, assumption+)
qed

lemma answers_truly_same: "wait_answers s' = wait_answers s \<Longrightarrow> answers_truly s s'"
  by (simp add: answers_truly_def)

lemma answers_truly_after:
  assumes "answers_truly t u" "wait_answers t = wait_answers s"
  shows "answers_truly s u"
  using assms by (simp add: answers_truly_def)

lemma covered_wait_set:
  "checks_of s' = jm_set k x (checks_of s) \<Longrightarrow> waits s' = waits s \<Longrightarrow> covered_wait s' w \<Longrightarrow>
     covered_wait s w \<or> fst (waits s ! w) = k"
  by (cases "waits s ! w") (auto simp: covered_wait_def isChecked_def jm_get_set split: if_splits)

lemma covered_wait_delete:
  "checks_of s' = jm_delete k (checks_of s) \<Longrightarrow> waits s' = waits s \<Longrightarrow> covered_wait s' w \<Longrightarrow> covered_wait s w"
  by (cases "waits s ! w") (auto simp: covered_wait_def isChecked_def jm_get_delete split: if_splits)

lemma record_ok:
  assumes "waits_ok {} s"
  shows "waits_ok {} (record_check k v ds s)" "answers_truly s (record_check k v ds s)"
    "same_but_waiting (s\<lparr>seen := True, gaveUp := False, checks_of := jm_set k (v, ds) (checks_of s)\<rparr>) (record_check k v ds s)"
proof -
  let ?t = "s\<lparr>seen := True, gaveUp := False, checks_of := jm_set k (v, ds) (checks_of s)\<rparr>"
  have "waits_ok ({} \<union> {k}) ?t"
  proof (rule waits_ok_checks [OF assms])
    show "covered_wait s w \<or> fst (waits s ! w) \<in> {k}" if "covered_wait ?t w" for w
      using covered_wait_set [OF _ _ that, of k "(v, ds)" s] by simp
  qed simp_all
  then have t: "waits_ok (insert k {}) ?t" by simp
  show "waits_ok {} (record_check k v ds s)" "same_but_waiting ?t (record_check k v ds s)"
    unfolding record_check_def by (rule wake_ok(1) [OF t], rule wake_same [OF t])
  show "answers_truly s (record_check k v ds s)"
    unfolding record_check_def by (rule answers_truly_after [OF wake_ok(2) [OF t]]) simp
qed

lemma forget_ok:
  assumes "waits_ok {} s"
  shows "waits_ok {} (forget k s)" "answers_truly s (forget k s)"
    "same_but_waiting (s\<lparr>checks_of := jm_delete k (checks_of s)\<rparr>) (forget k s)"
proof -
  let ?t = "s\<lparr>checks_of := jm_delete k (checks_of s)\<rparr>"
  have "waits_ok ({} \<union> {k}) ?t"
  proof (rule waits_ok_checks [OF assms])
    show "covered_wait s w \<or> fst (waits s ! w) \<in> {k}" if "covered_wait ?t w" for w
      using covered_wait_delete [OF _ _ that, of k s] by simp
  qed simp_all
  then have t: "waits_ok (insert k {}) ?t" by simp
  show "waits_ok {} (forget k s)" "same_but_waiting ?t (forget k s)"
    unfolding forget_def by (rule wake_ok(1) [OF t], rule wake_same [OF t])
  show "answers_truly s (forget k s)"
    unfolding forget_def by (rule answers_truly_after [OF wake_ok(2) [OF t]]) simp
qed

lemma clear_ok:
  assumes "waits_ok {} s"
  shows "waits_ok {} (clear s)" "answers_truly s (clear s)" "same_but_waiting (s\<lparr>checks_of := []\<rparr>) (clear s)"
proof -
  let ?t = "s\<lparr>checks_of := []\<rparr>"
  have "waits_ok ({} \<union> {}) ?t"
    by (rule waits_ok_checks [OF assms]) (auto simp: covered_wait_def isChecked_def split: prod.splits)
  then have t: "waits_ok {} ?t" by simp
  note f = fold_wake_ok [OF t, of "map fst (waiters_of s)"]
  show "waits_ok {} (clear s)" "same_but_waiting ?t (clear s)" using f by (simp_all add: clear_def)
  show "answers_truly s (clear s)"
    unfolding clear_def by (rule answers_truly_after [of ?t]) (use f in simp_all)
qed

lemma wait_ok:
  assumes "waits_ok {} s"
  shows "waits_ok {} (wait k v s)" "answers_truly s (wait k v s)"
    "checks_of (wait k v s) = checks_of s" "waits (wait k v s) = waits s @ [(k, v)]"
    "seen (wait k v s) = seen s" "gaveUp (wait k v s) = gaveUp s" "settles (wait k v s) = settles s" "outcomes (wait k v s) = outcomes s"
proof -
  let ?w = "length (waits s)" and ?t = "s\<lparr>waits := waits s @ [(k, v)]\<rparr>"
  have chk: "isChecked ?t k n = isChecked s k n" for k n by (simp add: isChecked_def)
  let ?u = "?t\<lparr>timers := timers s @ [?w]\<rparr>"
  have w: "wait k v s = (if isChecked s k v then ?t\<lparr>wait_answers := wait_answers s @ [(?w, True)]\<rparr> else listen k ?w ?u)"
    unfolding wait_def Let_def chk by simp
  have l: "waits (listen k ?w ?u) = waits s @ [(k, v)]" "timers (listen k ?w ?u) = timers s @ [?w]"
    "wait_answers (listen k ?w ?u) = wait_answers s" "checks_of (listen k ?w ?u) = checks_of s"
    by (simp_all add: listen_def)
  show reads: "checks_of (wait k v s) = checks_of s" "waits (wait k v s) = waits s @ [(k, v)]"
    "seen (wait k v s) = seen s" "gaveUp (wait k v s) = gaveUp s" "settles (wait k v s) = settles s" "outcomes (wait k v s) = outcomes s"
    unfolding w by (simp_all add: listen_def)
  have timers: "timers (wait k v s) = timers s @ (if isChecked s k v then [] else [?w])"
    and answers: "wait_answers (wait k v s) = wait_answers s @ (if isChecked s k v then [(?w, True)] else [])"
    unfolding w by (simp_all add: l)
  have line: "waiting_for (wait k v s) k' = waiting_for s k' @ (if k' = k \<and> \<not> isChecked s k v then [?w] else [])" for k'
  proof (cases "isChecked s k v")
    case False
    have "waiting_for ?u k'' = waiting_for s k''" for k'' by (simp add: waiting_for_def)
    with False show ?thesis unfolding w by (simp add: waiting_for_listen)
  qed (simp add: w waiting_for_def)
  have cov: "covered_wait (wait k v s) x = (if x = ?w then isChecked s k v else covered_wait s x)" if "x \<le> ?w" for x
    using that by (auto simp: covered_wait_def reads isChecked_same [OF reads(1)] nth_append)
  have 1: "\<forall>w<length (waits s). w \<in> set (timers s) \<longleftrightarrow> w \<notin> fst ` set (wait_answers s)"
    and 2: "set (timers s) \<union> fst ` set (wait_answers s) \<subseteq> {..<length (waits s)}"
    and 3: "distinct (map fst (wait_answers s))"
    and 4: "\<And>k. distinct (waiting_for s k) \<and> set (waiting_for s k) = {w \<in> set (timers s). fst (waits s ! w) = k}"
    and 5: "\<forall>w\<in>set (timers s). \<not> covered_wait s w"
    using assms unfolding waits_ok_def by blast+
  have new: "?w \<notin> set (timers s)" "?w \<notin> fst ` set (wait_answers s)" using 2 by blast+
  have "x \<in> set (timers (wait k v s)) \<longleftrightarrow> x \<notin> fst ` set (wait_answers (wait k v s))" if "x < length (waits (wait k v s))" for x
    using that 1 new unfolding timers answers reads(2) by (cases "x = ?w") (auto simp: less_Suc_eq)
  moreover have "set (timers (wait k v s)) \<union> fst ` set (wait_answers (wait k v s)) \<subseteq> {..<length (waits (wait k v s))}"
    using 2 unfolding timers answers reads(2) by auto
  moreover have "distinct (map fst (wait_answers (wait k v s)))" using 3 new unfolding answers by auto
  moreover have "distinct (waiting_for (wait k v s) k')" for k'
    using 4 [of k'] new(1) unfolding line by auto
  moreover have "set (waiting_for (wait k v s) k') = {x \<in> set (timers (wait k v s)). fst (waits (wait k v s) ! x) = k'}" for k'
  proof -
    have "x < ?w" if "x \<in> set (timers s)" for x using 2 that by blast
    then have old: "{x \<in> set (timers s). fst ((waits s @ [(k, v)]) ! x) = k'} = set (waiting_for s k')"
      using 4 [of k'] by (auto simp: nth_append)
    have new: "{x \<in> set (if isChecked s k v then [] else [?w]). fst ((waits s @ [(k, v)]) ! x) = k'} =
        set (if k' = k \<and> \<not> isChecked s k v then [?w] else [])" by auto
    have "{x \<in> set (xs @ ys). P x} = {x \<in> set xs. P x} \<union> {x \<in> set ys. P x}" for xs ys :: "nat list" and P by auto
    then show ?thesis unfolding line timers reads(2) by (simp only: old new set_append)
  qed
  moreover have "\<not> covered_wait (wait k v s) x" if "x \<in> set (timers (wait k v s))" for x
  proof -
    have "x \<le> ?w" using that 2 unfolding timers by (auto split: if_splits)
    then show ?thesis using that 5 new(1) unfolding cov [OF \<open>x \<le> ?w\<close>] timers by (auto split: if_splits)
  qed
  ultimately show "waits_ok {} (wait k v s)" unfolding waits_ok_def by blast
  show "answers_truly s (wait k v s)" unfolding answers_truly_def answers by (auto simp: cov)
qed

lemma timeout_ok:
  assumes "waits_ok {} s" "w \<in> set (timers s)"
  shows "waits_ok {} (wait_timeout w s)" "answers_truly s (wait_timeout w s)" "same_but_waiting s (wait_timeout w s)"
proof -
  let ?s = "wait_timeout w s"
  show same: "same_but_waiting s ?s" by (simp add: same_but_waiting_def wait_timeout_def Let_def)
  note reads = same_but_waiting_reads [OF same]
  have waits: "waits ?s = waits s" using same by (simp add: same_but_waiting_def)
  have timers: "timers ?s = filter (\<lambda>t. t \<noteq> w) (timers s)" and answers: "wait_answers ?s = wait_answers s @ [(w, False)]"
    by (simp_all add: wait_timeout_def Let_def)
  have 1: "\<forall>w<length (waits s). w \<in> set (timers s) \<longleftrightarrow> w \<notin> fst ` set (wait_answers s)"
    and 2: "set (timers s) \<union> fst ` set (wait_answers s) \<subseteq> {..<length (waits s)}"
    and 3: "distinct (map fst (wait_answers s))"
    and 4: "\<And>k. distinct (waiting_for s k) \<and> set (waiting_for s k) = {w \<in> set (timers s). fst (waits s ! w) = k}"
    and 5: "\<forall>w\<in>set (timers s). \<not> covered_wait s w"
    using assms(1) unfolding waits_ok_def by blast+
  have w: "w < length (waits s)" "w \<notin> fst ` set (wait_answers s)" using 1 2 assms(2) by blast+
  have line: "waiting_for ?s k' = filter (\<lambda>f. f \<noteq> w) (waiting_for s k')" for k'
  proof -
    have "w \<notin> set (waiting_for s k')" if "k' \<noteq> fst (waits s ! w)" using 4 [of k'] that by auto
    then have "filter (\<lambda>f. f \<noteq> w) (waiting_for s k') = waiting_for s k'" if "k' \<noteq> fst (waits s ! w)"
      using that by (metis (mono_tags, lifting) filter_True)
    then show ?thesis
      by (cases "k' = fst (waits s ! w)")
        (auto simp: waiting_for_def wait_timeout_def Let_def jm_get_set split: option.splits)
  qed
  have "x \<in> set (timers ?s) \<longleftrightarrow> x \<notin> fst ` set (wait_answers ?s)" if "x < length (waits s)" for x
    using that 1 unfolding timers answers by auto
  moreover have "set (timers ?s) \<union> fst ` set (wait_answers ?s) \<subseteq> {..<length (waits s)}"
    using 2 w(1) unfolding timers answers by auto
  moreover have "distinct (map fst (wait_answers ?s))" using 3 w(2) unfolding answers by auto
  moreover have "distinct (waiting_for ?s k') \<and> set (waiting_for ?s k') = {x \<in> set (timers ?s). fst (waits s ! x) = k'}" for k'
    using 4 [of k'] unfolding line timers by auto
  moreover have "\<not> covered_wait s x" if "x \<in> set (timers ?s)" for x using that 5 unfolding timers by auto
  ultimately show "waits_ok {} ?s" unfolding waits_ok_def waits reads by blast
  show "answers_truly s ?s" unfolding answers_truly_def answers reads using 5 assms(2) by auto
qed


lemma settle_begin_ok:
  assumes "waits_ok {} s"
  shows "waits_ok {} (settle_begin k v s)" "answers_truly s (settle_begin k v s)" "checks_of (settle_begin k v s) = checks_of s"
    "seen (settle_begin k v s) = seen s" "gaveUp (settle_begin k v s) = gaveUp s"
    "\<exists>new. waits (settle_begin k v s) = waits s @ new"
    "gaveUp s \<and> \<not> seen s \<Longrightarrow> settle_begin k v s = s\<lparr>settles := settles s @ [None],
       outcomes := outcomes s @ [(length (settles s), Unsupported)]\<rparr>"
    "\<not> (gaveUp s \<and> \<not> seen s) \<Longrightarrow> settles (settle_begin k v s) = settles s @ [Some (length (waits s))] \<and>
       outcomes (settle_begin k v s) = outcomes s \<and> waits (settle_begin k v s) = waits s @ [(k, v)]"
proof -
  let ?u = "s\<lparr>settles := settles s @ [None], outcomes := outcomes s @ [(length (settles s), Unsupported)]\<rparr>"
  let ?w = "wait k v s" let ?v = "?w\<lparr>settles := settles s @ [Some (length (waits s))]\<rparr>"
  have s: "settle_begin k v s = (if gaveUp s \<and> \<not> seen s then ?u else ?v)" by (simp add: settle_begin_def)
  note w = wait_ok [OF assms, of k v]
  have cov: "covered_wait ?u = covered_wait s" "covered_wait ?v = covered_wait ?w"
    by (auto simp: fun_eq_iff covered_wait_def isChecked_def)
  have "waits_ok {} ?u" using waits_ok_checks [OF assms, of ?u "{}"] by (simp add: cov)
  moreover have "waits_ok {} ?v" using waits_ok_checks [OF w(1), of ?v "{}"] by (simp add: cov)
  ultimately show "waits_ok {} (settle_begin k v s)" by (simp add: s)
  have "answers_truly s ?v" using w(2) by (simp add: answers_truly_def cov)
  then show "answers_truly s (settle_begin k v s)" by (simp add: s answers_truly_same)
  show "checks_of (settle_begin k v s) = checks_of s" "seen (settle_begin k v s) = seen s" "gaveUp (settle_begin k v s) = gaveUp s"
    "\<exists>new. waits (settle_begin k v s) = waits s @ new"
    "gaveUp s \<and> \<not> seen s \<Longrightarrow> settle_begin k v s = s\<lparr>settles := settles s @ [None],
       outcomes := outcomes s @ [(length (settles s), Unsupported)]\<rparr>"
    "\<not> (gaveUp s \<and> \<not> seen s) \<Longrightarrow> settles (settle_begin k v s) = settles s @ [Some (length (waits s))] \<and>
       outcomes (settle_begin k v s) = outcomes s \<and> waits (settle_begin k v s) = waits s @ [(k, v)]"
    using w(3-8) by (simp_all add: s)
qed

lemma settle_end_ok:
  assumes "waits_ok {} s"
  shows "waits_ok {} (settle_end c b s)" "answers_truly s (settle_end c b s)"
    "checks_of (settle_end c b s) = checks_of s" "waits (settle_end c b s) = waits s" "settles (settle_end c b s) = settles s"
    "seen (settle_end c b s) = seen s" "wait_answers (settle_end c b s) = wait_answers s"
    "outcomes (settle_end c b s) = outcomes s @ [(c, if b then Checked else Pending)]"
    "gaveUp (settle_end c b s) \<Longrightarrow> gaveUp s \<or> \<not> b"
proof -
  show reads: "checks_of (settle_end c b s) = checks_of s" "waits (settle_end c b s) = waits s" "settles (settle_end c b s) = settles s"
    "seen (settle_end c b s) = seen s" "wait_answers (settle_end c b s) = wait_answers s"
    "outcomes (settle_end c b s) = outcomes s @ [(c, if b then Checked else Pending)]"
    "gaveUp (settle_end c b s) \<Longrightarrow> gaveUp s \<or> \<not> b"
    by (auto simp: settle_end_def split: if_splits)
  have "covered_wait (settle_end c b s) w = covered_wait s w" for w
    by (simp add: covered_wait_def isChecked_def reads)
  moreover have "timers (settle_end c b s) = timers s" "waiters_of (settle_end c b s) = waiters_of s"
    by (simp_all add: settle_end_def)
  ultimately show "waits_ok {} (settle_end c b s)"
    using waits_ok_checks [OF assms, of "settle_end c b s" "{}"] reads by simp
  show "answers_truly s (settle_end c b s)" by (rule answers_truly_same [OF reads(5)])
qed

lemma new_file_checks_ok: "waits_ok {} new_file_checks"
  by (simp add: waits_ok_def new_file_checks_def waiting_for_def)

subsection \<open>Along a run\<close>

lemma run_waits_ok: "checks_run tr s \<Longrightarrow> waits_ok {} s"
proof (induction rule: checks_run.induct)
  case start
  show ?case by (rule new_file_checks_ok)
qed (auto intro: record_ok forget_ok clear_ok wait_ok timeout_ok settle_begin_ok settle_end_ok)

lemma isChecked_reads:
  "isChecked (s\<lparr>seen := x, gaveUp := y, checks_of := jm_set k' (ver, ds) (checks_of s)\<rparr>) k n =
     (if k' = k then (case ver of None \<Rightarrow> True | Some m \<Rightarrow> n \<le> m) else isChecked s k n)"
  "isChecked (s\<lparr>checks_of := jm_delete k' (checks_of s)\<rparr>) k n = (if k' = k then False else isChecked s k n)"
  "isChecked (s\<lparr>checks_of := []\<rparr>) k n = False"
  by (simp_all add: isChecked_def jm_get_set jm_get_delete)

lemma run_isChecked: "checks_run tr s \<Longrightarrow> isChecked s k n = vouches tr k n"
proof (induction rule: checks_run.induct)
  case start
  show ?case by (simp add: new_file_checks_def isChecked_def)
next
  case (recorded tr s k' v ds)
  note same = record_ok(3) [OF run_waits_ok [OF recorded(1)], of k' v ds]
  show ?case using recorded(2) unfolding same_but_waiting_reads(1) [OF same] isChecked_reads by simp
next
  case (forgotten tr s k')
  note same = forget_ok(3) [OF run_waits_ok [OF forgotten(1)], of k']
  show ?case using forgotten(2) unfolding same_but_waiting_reads(1) [OF same] isChecked_reads by simp
next
  case (cleared tr s)
  note same = clear_ok(3) [OF run_waits_ok [OF cleared(1)]]
  show ?case unfolding same_but_waiting_reads(1) [OF same] isChecked_reads by simp
next
  case (waiting tr s k' v)
  then show ?case using wait_ok(3) [OF run_waits_ok] isChecked_same by (metis vouches.simps(5))
next
  case (timed_out tr s w)
  then show ?case using same_but_waiting_reads(1) [OF timeout_ok(3) [OF run_waits_ok]] by (metis vouches.simps(6))
next
  case (settling tr s k' v)
  then show ?case using settle_begin_ok(3) [OF run_waits_ok] isChecked_same by (metis vouches.simps(7))
next
  case (resumed tr s c w b)
  then show ?case using settle_end_ok(3) [OF run_waits_ok] isChecked_same by (metis vouches.simps(8))
qed

definition step_ok :: "'d file_checks \<Rightarrow> 'd file_checks \<Rightarrow> bool" where
  "step_ok s s' \<longleftrightarrow> answers_truly s s' \<and> (\<exists>new. waits s' = waits s @ new)"

lemma step_ok_same: "answers_truly s s' \<Longrightarrow> waits s' = waits s \<Longrightarrow> step_ok s s'"
  by (simp add: step_ok_def)

lemma steps_ok:
  assumes "waits_ok {} s"
  shows "step_ok s (record_check k v ds s)" "step_ok s (forget k s)" "step_ok s (clear s)" "step_ok s (wait k n s)"
    "w \<in> set (timers s) \<Longrightarrow> step_ok s (wait_timeout w s)" "step_ok s (settle_begin k n s)" "step_ok s (settle_end c b s)"
proof -
  show "step_ok s (record_check k v ds s)"
    by (rule step_ok_same [OF record_ok(2) [OF assms]]) (use record_ok(3) [OF assms, of k v ds] in \<open>simp add: same_but_waiting_def\<close>)
  show "step_ok s (forget k s)"
    by (rule step_ok_same [OF forget_ok(2) [OF assms]]) (use forget_ok(3) [OF assms, of k] in \<open>simp add: same_but_waiting_def\<close>)
  show "step_ok s (clear s)"
    by (rule step_ok_same [OF clear_ok(2) [OF assms]]) (use clear_ok(3) [OF assms] in \<open>simp add: same_but_waiting_def\<close>)
  show "step_ok s (wait k n s)" "step_ok s (settle_begin k n s)"
    using wait_ok(2,4) [OF assms, of k n] settle_begin_ok(2,6) [OF assms, of k n] by (simp_all add: step_ok_def)
  show "step_ok s (wait_timeout w s)" if "w \<in> set (timers s)"
    by (rule step_ok_same [OF timeout_ok(2) [OF assms that]])
      (use timeout_ok(3) [OF assms that] in \<open>simp add: same_but_waiting_def\<close>)
  show "step_ok s (settle_end c b s)" by (rule step_ok_same [OF settle_end_ok(2,4) [OF assms]])
qed

text \<open>What a run looked like before its last action.\<close>

inductive_cases checks_stepE: "checks_run (a # tr) s'"

lemma run_step: "checks_run (a # tr) s' \<Longrightarrow> \<exists>s. checks_run tr s \<and> step_ok s s'"
  by (erule checks_stepE) (intro exI conjI, assumption, simp add: steps_ok run_waits_ok)+

text \<open>Every answer was given at a moment of the run after the call, and says whether a check covers the version there.\<close>

lemma run_answered:
  "checks_run tr s \<Longrightarrow> (w, b) \<in> set (wait_answers s) \<Longrightarrow>
     \<exists>later earlier s0. tr = later @ earlier \<and> checks_run earlier s0 \<and> w < length (waits s0) \<and> waits s0 ! w = waits s ! w \<and>
       b = covered_wait s0 w"
proof (induction tr arbitrary: s)
  case Nil
  then have "s = new_file_checks" using checks_run.cases by blast
  then show ?case using Nil by (simp add: new_file_checks_def)
next
  case (Cons a tr)
  obtain s1 where s1: "checks_run tr s1" "step_ok s1 s" using run_step [OF Cons.prems(1)] by blast
  obtain new more where step: "wait_answers s = wait_answers s1 @ new" "\<forall>(w, b)\<in>set new. b = covered_wait s w"
    "waits s = waits s1 @ more"
    using s1(2) unfolding step_ok_def answers_truly_def by blast
  have len: "w < length (waits s)"
    using run_waits_ok [OF Cons.prems(1)] Cons.prems(2) unfolding waits_ok_def by force
  show ?case
  proof (cases "(w, b) \<in> set (wait_answers s1)")
    case True
    then have "w < length (waits s1)" using run_waits_ok [OF s1(1)] unfolding waits_ok_def by force
    then have "waits s1 ! w = waits s ! w" by (simp add: step(3) nth_append)
    then show ?thesis using Cons.IH [OF s1(1) True] by (metis append_Cons)
  next
    case False
    then have "b = covered_wait s w" using step(1,2) Cons.prems(2) by auto
    then show ?thesis using len Cons.prems(1)
      by (intro exI [of _ "[]"] exI [of _ "a # tr"] exI [of _ s]) simp
  qed
qed

subsection \<open>What a call of settle is told\<close>

text \<open>What a run knows of its \<^verbatim>\<open>settle\<close> calls.\<close>

definition settles_ok :: "'d check_action list \<Rightarrow> 'd file_checks \<Rightarrow> bool" where
  "settles_ok tr s \<longleftrightarrow>
     distinct (map fst (outcomes s)) \<and> seen s = (\<exists>a\<in>set tr. is_record a) \<and>
     (gaveUp s \<longrightarrow> (\<exists>c. (c, Pending) \<in> set (outcomes s))) \<and>
     (\<forall>c<length (settles s). case settles s ! c of None \<Rightarrow> (c, Unsupported) \<in> set (outcomes s) | Some w \<Rightarrow> w < length (waits s)) \<and>
     (\<forall>(c, r)\<in>set (outcomes s). c < length (settles s) \<and>
       (case settles s ! c of
          None \<Rightarrow> r = Unsupported \<and> (\<exists>c' < c. (c', Pending) \<in> set (outcomes s)) \<and>
            (\<exists>later k n earlier. tr = later @ Settle k n # earlier \<and> (\<forall>a\<in>set earlier. \<not> is_record a))
        | Some w \<Rightarrow> (w, r = Checked) \<in> set (wait_answers s) \<and> r \<noteq> Unsupported))"


lemma settles_ok_facts:
  assumes "settles_ok tr s"
  shows "distinct (map fst (outcomes s))" "seen s \<longleftrightarrow> (\<exists>a\<in>set tr. is_record a)"
    "gaveUp s \<Longrightarrow> \<exists>c. (c, Pending) \<in> set (outcomes s)"
    "c < length (settles s) \<Longrightarrow> settles s ! c = None \<Longrightarrow> (c, Unsupported) \<in> set (outcomes s)"
    "c < length (settles s) \<Longrightarrow> settles s ! c = Some w \<Longrightarrow> w < length (waits s)"
    "(c, r) \<in> set (outcomes s) \<Longrightarrow> c < length (settles s)"
    "(c, r) \<in> set (outcomes s) \<Longrightarrow> settles s ! c = None \<Longrightarrow> r = Unsupported \<and> (\<exists>c' < c. (c', Pending) \<in> set (outcomes s)) \<and>
       (\<exists>later k n earlier. tr = later @ Settle k n # earlier \<and> (\<forall>a\<in>set earlier. \<not> is_record a))"
    "(c, r) \<in> set (outcomes s) \<Longrightarrow> settles s ! c = Some w \<Longrightarrow> (w, r = Checked) \<in> set (wait_answers s) \<and> r \<noteq> Unsupported"
  using assms unfolding settles_ok_def by (blast, blast, blast, fastforce, fastforce, fastforce, fastforce, fastforce)

lemma settles_okI:
  assumes "distinct (map fst (outcomes s))" "seen s \<longleftrightarrow> (\<exists>a\<in>set tr. is_record a)"
    "gaveUp s \<Longrightarrow> \<exists>c. (c, Pending) \<in> set (outcomes s)"
    "\<And>c. c < length (settles s) \<Longrightarrow> case settles s ! c of None \<Rightarrow> (c, Unsupported) \<in> set (outcomes s) | Some w \<Rightarrow> w < length (waits s)"
    "\<And>c r. (c, r) \<in> set (outcomes s) \<Longrightarrow> c < length (settles s)"
    "\<And>c r. (c, r) \<in> set (outcomes s) \<Longrightarrow> case settles s ! c of
          None \<Rightarrow> r = Unsupported \<and> (\<exists>c' < c. (c', Pending) \<in> set (outcomes s)) \<and>
            (\<exists>later k n earlier. tr = later @ Settle k n # earlier \<and> (\<forall>a\<in>set earlier. \<not> is_record a))
        | Some w \<Rightarrow> (w, r = Checked) \<in> set (wait_answers s) \<and> r \<noteq> Unsupported"
  shows "settles_ok tr s"
  unfolding settles_ok_def using assms by (intro conjI) (blast, blast, blast, blast, fast)

lemma settles_ok_frame:
  assumes "settles_ok tr s" "outcomes s' = outcomes s" "settles s' = settles s" "waits s' = waits s @ added"
    "set (wait_answers s) \<subseteq> set (wait_answers s')" "seen s' \<longleftrightarrow> seen s \<or> is_record a" "gaveUp s' \<Longrightarrow> gaveUp s"
  shows "settles_ok (a # tr) s'"
proof -
  note f = settles_ok_facts [OF assms(1)]
  have "\<exists>later k n earlier. a # tr = later @ Settle k n # earlier \<and> (\<forall>a\<in>set earlier. \<not> is_record a)"
    if "\<exists>later k n earlier. tr = later @ Settle k n # earlier \<and> (\<forall>a\<in>set earlier. \<not> is_record a)"
    using that by (metis append_Cons)
  then have "case settles s ! c of
          None \<Rightarrow> r = Unsupported \<and> (\<exists>c' < c. (c', Pending) \<in> set (outcomes s)) \<and>
            (\<exists>later k n earlier. a # tr = later @ Settle k n # earlier \<and> (\<forall>a\<in>set earlier. \<not> is_record a))
        | Some w \<Rightarrow> (w, r = Checked) \<in> set (wait_answers s') \<and> r \<noteq> Unsupported" if "(c, r) \<in> set (outcomes s)" for c r
    using f(7,8) [OF that] assms(5) by (auto split: option.split)
  moreover have "case settles s ! c of None \<Rightarrow> (c, Unsupported) \<in> set (outcomes s) | Some w \<Rightarrow> w < length (waits s')"
    if "c < length (settles s)" for c using f(4,5) [OF that] assms(4) by (fastforce split: option.split)
  ultimately show ?thesis
    by (intro settles_okI; (simp only: assms(2,3))?) (use f(1-3,6) assms(6,7) in auto)
qed

lemma answers_kept: "step_ok s s' \<Longrightarrow> set (wait_answers s) \<subseteq> set (wait_answers s')"
  by (auto simp: step_ok_def answers_truly_def)

lemma run_settles_ok: "checks_run tr s \<Longrightarrow> settles_ok tr s"
proof (induction rule: checks_run.induct)
  case start
  show ?case by (simp add: settles_ok_def new_file_checks_def)
next
  case (recorded tr s k v ds)
  note ok = run_waits_ok [OF recorded(1)]
  show ?case
    by (rule settles_ok_frame [OF recorded(2) _ _ _ answers_kept [OF steps_ok(1) [OF ok]], where added = "[]"])
      (use record_ok(3) [OF ok, of k v ds] in \<open>simp_all add: same_but_waiting_def\<close>)
next
  case (forgotten tr s k)
  note ok = run_waits_ok [OF forgotten(1)]
  show ?case
    by (rule settles_ok_frame [OF forgotten(2) _ _ _ answers_kept [OF steps_ok(2) [OF ok]], where added = "[]"])
      (use forget_ok(3) [OF ok, of k] in \<open>simp_all add: same_but_waiting_def\<close>)
next
  case (cleared tr s)
  note ok = run_waits_ok [OF cleared(1)]
  show ?case
    by (rule settles_ok_frame [OF cleared(2) _ _ _ answers_kept [OF steps_ok(3) [OF ok]], where added = "[]"])
      (use clear_ok(3) [OF ok] in \<open>simp_all add: same_but_waiting_def\<close>)
next
  case (waiting tr s k v)
  note ok = run_waits_ok [OF waiting(1)]
  show ?case
    by (rule settles_ok_frame [OF waiting(2) _ _ _ answers_kept [OF steps_ok(4) [OF ok]], where added = "[(k, v)]"])
      (use wait_ok [OF ok, of k v] in simp_all)
next
  case (timed_out tr s w)
  note ok = run_waits_ok [OF timed_out(1)]
  show ?case
    by (rule settles_ok_frame [OF timed_out(3) _ _ _ answers_kept [OF steps_ok(5) [OF ok timed_out(2)]], where added = "[]"])
      (use timeout_ok(3) [OF ok timed_out(2)] in \<open>simp_all add: same_but_waiting_def\<close>)
next
  case (settling tr s k v)
  note ok = run_waits_ok [OF settling(1)] and f = settles_ok_facts [OF settling(2)]
  note b = settle_begin_ok [OF ok, of k v]
  show ?case
  proof (cases "gaveUp s \<and> \<not> seen s")
    case True
    obtain c0 where c0: "(c0, Pending) \<in> set (outcomes s)" using f(3) True by blast
    then have "c0 < length (settles s)" by (rule f(6))
    have none: "\<forall>a\<in>set tr. \<not> is_record a" using True f(2) by blast
    let ?t = "s\<lparr>settles := settles s @ [None], outcomes := outcomes s @ [(length (settles s), Unsupported)]\<rparr>"
    have moment: "\<exists>later k' n earlier. Settle k v # tr = later @ Settle k' n # earlier \<and> (\<forall>a\<in>set earlier. \<not> is_record a)"
      using none by (metis append_Nil)
    have F: "case settles ?t ! c of
          None \<Rightarrow> r = Unsupported \<and> (\<exists>c' < c. (c', Pending) \<in> set (outcomes ?t)) \<and>
            (\<exists>later k' n earlier. Settle k v # tr = later @ Settle k' n # earlier \<and> (\<forall>a\<in>set earlier. \<not> is_record a))
        | Some w \<Rightarrow> (w, r = Checked) \<in> set (wait_answers ?t) \<and> r \<noteq> Unsupported" if "(c, r) \<in> set (outcomes ?t)" for c r
    proof (cases "(c, r) \<in> set (outcomes s)")
      case True
      show ?thesis using f(6-8) [OF True] moment by (auto simp: nth_append split: option.split)
    next
      case False
      then have "c = length (settles s)" "r = Unsupported" using that by auto
      then show ?thesis using c0 \<open>c0 < length (settles s)\<close> moment by auto
    qed
    have D: "case settles ?t ! c of None \<Rightarrow> (c, Unsupported) \<in> set (outcomes ?t) | Some w \<Rightarrow> w < length (waits ?t)"
      if "c < length (settles ?t)" for c
      using that f(4,5) [of c] by (cases "c = length (settles s)") (auto simp: nth_append less_Suc_eq split: option.split)
    have A: "distinct (map fst (outcomes ?t))" using f(1,6) by fastforce
    have E: "c < length (settles ?t)" if "(c, r) \<in> set (outcomes ?t)" for c r using that f(6) by fastforce
    have B: "seen ?t \<longleftrightarrow> (\<exists>a\<in>set (Settle k v # tr). is_record a)" "\<exists>c. (c, Pending) \<in> set (outcomes ?t)"
      using f(2) c0 by auto
    show ?thesis unfolding b(7) [OF True] by (rule settles_okI, rule A, rule B(1), rule B(2), erule D, erule E, erule F)
  next
    case False
    note nb = b(8) [OF False]
    let ?t = "settle_begin k v s"
    have t: "settles ?t = settles s @ [Some (length (waits s))]" "outcomes ?t = outcomes s" "waits ?t = waits s @ [(k, v)]"
      using nb by blast+
    have kept: "set (wait_answers s) \<subseteq> set (wait_answers ?t)" by (rule answers_kept [OF steps_ok(6) [OF ok]])
    have "case settles ?t ! c of
          None \<Rightarrow> r = Unsupported \<and> (\<exists>c' < c. (c', Pending) \<in> set (outcomes ?t)) \<and>
            (\<exists>later k' n earlier. Settle k v # tr = later @ Settle k' n # earlier \<and> (\<forall>a\<in>set earlier. \<not> is_record a))
        | Some w \<Rightarrow> (w, r = Checked) \<in> set (wait_answers ?t) \<and> r \<noteq> Unsupported" if "(c, r) \<in> set (outcomes ?t)" for c r
    proof -
      have c: "(c, r) \<in> set (outcomes s)" using that t(2) by simp
      have "\<exists>later k' n earlier. Settle k v # tr = later @ Settle k' n # earlier \<and> (\<forall>a\<in>set earlier. \<not> is_record a)"
        if "\<exists>later k n earlier. tr = later @ Settle k n # earlier \<and> (\<forall>a\<in>set earlier. \<not> is_record a)"
        using that by (metis append_Cons)
      then show ?thesis using f(6-8) [OF c] kept unfolding t(1,2) by (auto simp: nth_append split: option.split)
    qed
    moreover have "case settles ?t ! c of None \<Rightarrow> (c, Unsupported) \<in> set (outcomes ?t) | Some w \<Rightarrow> w < length (waits ?t)"
      if "c < length (settles ?t)" for c
      using that f(4,5) [of c] unfolding t
      by (cases "c = length (settles s)") (auto simp: nth_append less_Suc_eq split: option.split)
    moreover have "c < length (settles ?t)" if "(c, r) \<in> set (outcomes ?t)" for c r using that f(6) unfolding t by fastforce
    moreover have "seen ?t \<longleftrightarrow> (\<exists>a\<in>set (Settle k v # tr). is_record a)" "gaveUp ?t \<Longrightarrow> \<exists>c. (c, Pending) \<in> set (outcomes ?t)"
      "distinct (map fst (outcomes ?t))"
      using f(1-3) b(4,5) t(2) by auto
    ultimately show ?thesis by (rule_tac settles_okI) blast+
  qed
next
  case (resumed tr s c w b)
  note ok = run_waits_ok [OF resumed(1)] and f = settles_ok_facts [OF resumed(6)]
  note e = settle_end_ok [OF ok, of c b]
  let ?t = "settle_end c b s"
  have "case settles ?t ! c' of
        None \<Rightarrow> r = Unsupported \<and> (\<exists>d < c'. (d, Pending) \<in> set (outcomes ?t)) \<and>
          (\<exists>later k n earlier. Resume c # tr = later @ Settle k n # earlier \<and> (\<forall>a\<in>set earlier. \<not> is_record a))
      | Some w \<Rightarrow> (w, r = Checked) \<in> set (wait_answers ?t) \<and> r \<noteq> Unsupported" if "(c', r) \<in> set (outcomes ?t)" for c' r
  proof (cases "(c', r) \<in> set (outcomes s)")
    case True
    have "\<exists>later k n earlier. Resume c # tr = later @ Settle k n # earlier \<and> (\<forall>a\<in>set earlier. \<not> is_record a)"
      if "\<exists>later k n earlier. tr = later @ Settle k n # earlier \<and> (\<forall>a\<in>set earlier. \<not> is_record a)"
      using that by (metis append_Cons)
    then show ?thesis using f(7,8) [OF True] unfolding e(5,7,8) by (auto split: option.split)
  next
    case False
    then have "c' = c" "r = (if b then Checked else Pending)" using that unfolding e(8) by auto
    then show ?thesis using resumed(3,4) unfolding e(5,7) by (cases b) simp_all
  qed
  moreover have "case settles ?t ! c' of None \<Rightarrow> (c', Unsupported) \<in> set (outcomes ?t) | Some w \<Rightarrow> w < length (waits ?t)"
    if "c' < length (settles ?t)" for c'
    using that f(4,5) [of c'] unfolding e(4,5,8) by (auto split: option.split)
  moreover have "distinct (map fst (outcomes ?t))" using f(1) resumed(5) unfolding e(8) by auto
  moreover have "\<exists>d. (d, Pending) \<in> set (outcomes ?t)" if "gaveUp ?t"
    using e(9) [OF that] f(3) unfolding e(8) by auto
  moreover have "c' < length (settles ?t)" if "(c', r) \<in> set (outcomes ?t)" for c' r
    using that f(6) resumed(2) unfolding e(5,8) by auto
  moreover have "seen ?t \<longleftrightarrow> (\<exists>a\<in>set (Resume c # tr). is_record a)" using f(2) e(6) by auto
  ultimately show ?case by (rule_tac settles_okI) blast+
qed


subsection \<open>Properties\<close>

text \<open>C32: what the tracker says of a document is what the last notification about it says, every call of wait is answered at
  most once and with what holds at a moment after the call, and a call that is not answered yet has a running timer that
  answers it, and no check that covers it stands: one that arrives answers it at once.\<close>

theorem waits_answered_truly:
  assumes "checks_run tr s"
  shows "isChecked s k n = vouches tr k n \<and> distinct (map fst (wait_answers s)) \<and>
    (\<forall>(w, b)\<in>set (wait_answers s). \<exists>later earlier s0. tr = later @ earlier \<and> checks_run earlier s0 \<and>
       w < length (waits s0) \<and> waits s0 ! w = waits s ! w \<and> b = vouches earlier (fst (waits s ! w)) (snd (waits s ! w))) \<and>
    (\<forall>w<length (waits s). w \<notin> fst ` set (wait_answers s) \<longrightarrow>
       \<not> vouches tr (fst (waits s ! w)) (snd (waits s ! w)) \<and>
       checks_run (Timeout w # tr) (wait_timeout w s) \<and> (w, False) \<in> set (wait_answers (wait_timeout w s)))"
proof (intro conjI)
  show "isChecked s k n = vouches tr k n" by (rule run_isChecked [OF assms])
  show "distinct (map fst (wait_answers s))" using run_waits_ok [OF assms] by (simp add: waits_ok_def)
  have "\<exists>later earlier s0. tr = later @ earlier \<and> checks_run earlier s0 \<and> w < length (waits s0) \<and> waits s0 ! w = waits s ! w \<and>
       b = vouches earlier (fst (waits s ! w)) (snd (waits s ! w))" if "(w, b) \<in> set (wait_answers s)" for w b
  proof -
    obtain later earlier s0 where m: "tr = later @ earlier" "checks_run earlier s0" "w < length (waits s0)"
      "waits s0 ! w = waits s ! w" "b = covered_wait s0 w"
      using run_answered [OF assms \<open>(w, b) \<in> set (wait_answers s)\<close>] by blast
    have "b = vouches earlier (fst (waits s ! w)) (snd (waits s ! w))"
      unfolding m(5) covered_wait_def m(4) by (simp add: case_prod_beta run_isChecked [OF m(2)])
    then show ?thesis using m(1-4) by blast
  qed
  then show "\<forall>(w, b)\<in>set (wait_answers s). \<exists>later earlier s0. tr = later @ earlier \<and> checks_run earlier s0 \<and>
       w < length (waits s0) \<and> waits s0 ! w = waits s ! w \<and> b = vouches earlier (fst (waits s ! w)) (snd (waits s ! w))"
    by blast
  have "covered_wait s w = vouches tr (fst (waits s ! w)) (snd (waits s ! w))" for w
    by (simp add: covered_wait_def case_prod_beta run_isChecked [OF assms])
  then show "\<forall>w<length (waits s). w \<notin> fst ` set (wait_answers s) \<longrightarrow>
       \<not> vouches tr (fst (waits s ! w)) (snd (waits s ! w)) \<and>
       checks_run (Timeout w # tr) (wait_timeout w s) \<and> (w, False) \<in> set (wait_answers (wait_timeout w s))"
    using run_waits_ok [OF assms] timed_out [OF assms] unfolding waits_ok_def by (auto simp: wait_timeout_def Let_def)
qed

text \<open>A server that is slow to start: the first call ends as pending, the second finds the check.\<close>

definition fc_run :: "nat check_action list" where
  "fc_run = [Settle ''a'' 2, Record ''a'' (Some 2) [7], Resume 0, Timeout 0, Settle ''a'' 1]"

definition fc_end :: "nat file_checks" where
  "fc_end = settle_begin ''a'' 2 (record_check ''a'' (Some 2) [7] (settle_end 0 False (wait_timeout 0 (settle_begin ''a'' 1 new_file_checks))))"

lemma fc_run_ok: "checks_run fc_run fc_end"
proof -
  let ?s1 = "settle_begin ''a'' 1 (new_file_checks :: nat file_checks)"
  have 1: "timers ?s1 = [0]" "settles ?s1 = [Some 0]" "outcomes ?s1 = []" by code_simp+
  have 2: "(0, False) \<in> set (wait_answers (wait_timeout 0 ?s1))" "settles (wait_timeout 0 ?s1) = [Some 0]"
    "outcomes (wait_timeout 0 ?s1) = []" by code_simp+
  have r: "checks_run [Settle ''a'' 1] ?s1" by (rule settling [OF start])
  have "checks_run [Timeout 0, Settle ''a'' 1] (wait_timeout 0 ?s1)" by (rule timed_out [OF r]) (simp add: 1)
  from resumed [OF this, of 0 0 False] 2
  have "checks_run [Resume 0, Timeout 0, Settle ''a'' 1] (settle_end 0 False (wait_timeout 0 ?s1))" by simp
  then show ?thesis unfolding fc_run_def fc_end_def by (intro settling recorded)
qed

theorem waits_answered_truly_witness:
  "isChecked fc_end ''a'' 2 \<and> \<not> isChecked fc_end ''a'' 3 \<and> wait_answers fc_end = [(0, False), (1, True)]"
proof -
  have "wait_answers fc_end = [(0, False), (1, True)]" by code_simp
  then show ?thesis
    using waits_answered_truly [OF fc_run_ok, of "''a''" 2] waits_answered_truly [OF fc_run_ok, of "''a''" 3]
    by (simp add: fc_run_def)
qed

text \<open>a call of settle is told that its version was checked only if, after the call, a check of that document and at least
  that version stood and the document was not closed since; that it is pending only if none did; that the server is
  unsupported only if no check at all had arrived before the call and an earlier call had ended as pending.\<close>

theorem settled_truly:
  assumes "checks_run tr s" "(c, r) \<in> set (outcomes s)"
  shows "case settles s ! c of
      None \<Rightarrow> r = Unsupported \<and> (\<exists>c' < c. (c', Pending) \<in> set (outcomes s)) \<and>
        (\<exists>later k n earlier. tr = later @ Settle k n # earlier \<and> (\<forall>a\<in>set earlier. \<not> is_record a))
    | Some w \<Rightarrow> r \<noteq> Unsupported \<and> (\<exists>later earlier s0. tr = later @ earlier \<and> checks_run earlier s0 \<and> w < length (waits s0) \<and>
        (r = Checked) = vouches earlier (fst (waits s ! w)) (snd (waits s ! w)))"
proof (cases "settles s ! c")
  case None
  then show ?thesis using settles_ok_facts(7) [OF run_settles_ok [OF assms(1)] assms(2)] by simp
next
  case (Some w)
  have w: "(w, r = Checked) \<in> set (wait_answers s)" "r \<noteq> Unsupported"
    using settles_ok_facts(8) [OF run_settles_ok [OF assms(1)] assms(2) Some] by blast+
  obtain later earlier s0 where m: "tr = later @ earlier" "checks_run earlier s0" "w < length (waits s0)"
    "waits s0 ! w = waits s ! w" "(r = Checked) = covered_wait s0 w"
    using run_answered [OF assms(1) w(1)] by blast
  have "(r = Checked) = vouches earlier (fst (waits s ! w)) (snd (waits s ! w))"
    unfolding m(5) covered_wait_def m(4) by (simp add: case_prod_beta run_isChecked [OF m(2)])
  with Some w(2) m(1-3) show ?thesis by auto
qed

theorem settled_truly_witness:
  "(0, Pending) \<in> set (outcomes fc_end) \<and> (\<exists>later earlier. fc_run = later @ earlier \<and> \<not> vouches earlier ''a'' 1)"
proof -
  have e: "(0, Pending) \<in> set (outcomes fc_end)" "settles fc_end ! 0 = Some 0" "waits fc_end ! 0 = (''a'', 1)" by code_simp+
  show ?thesis using settled_truly [OF fc_run_ok e(1)] e by auto
qed

text \<open>Closing the document of the first call, or a server that goes away, counts as a full timeout: the next call is told
  that the server does not send checks, although none timed out.\<close>

lemma closed_counts_as_timeout:
  "\<exists>s :: nat file_checks. checks_run [Settle ''b'' 1, Resume 0, Forget ''a'', Settle ''a'' 1] s \<and> outcomes s = [(0, Pending), (1, Unsupported)]"
proof -
  let ?s1 = "settle_begin ''a'' 1 (new_file_checks :: nat file_checks)"
  let ?s2 = "forget ''a'' ?s1"
  let ?s = "settle_begin ''b'' 1 (settle_end 0 False ?s2)"
  have 1: "checks_run [Forget ''a'', Settle ''a'' 1] ?s2" by (intro forgotten settling start)
  have 2: "settles ?s2 = [Some 0]" "outcomes ?s2 = []" "wait_answers ?s2 = [(0, False)]" by code_simp+
  have "checks_run [Resume 0, Forget ''a'', Settle ''a'' 1] (settle_end 0 False ?s2)"
    using resumed [OF 1, of 0 0 False] 2 by simp
  then have "checks_run [Settle ''b'' 1, Resume 0, Forget ''a'', Settle ''a'' 1] ?s" by (rule settling)
  moreover have "outcomes ?s = [(0, Pending), (1, Unsupported)]" by code_simp
  ultimately show ?thesis by blast
qed

end
