(* ===== verification/FsText.thy ===== *)
theory FsText
  imports TextPositions FileState "HOL-Library.Sublist"
begin

text \<open>
  What the file tools use of JavaScript's strings, on texts of UTF-16 code units: searching, splitting, line ends, white
  space. A text of the agent's own words is \<open>words\<close> of an ASCII string.
\<close>

subsection \<open>Texts\<close>

definition words :: "string \<Rightarrow> document" where
  "words s = map (\<lambda>c. of_nat (of_char c)) s"

definition show_num :: "nat \<Rightarrow> document" where
  "show_num n = words (show_nat n)"

text \<open>A text of the other kind, of code units as numbers.\<close>

definition of_units :: "text16 \<Rightarrow> document" where
  "of_units t = map of_nat t"

definition LF :: document where
  "LF = [10]"

definition CRLF :: document where
  "CRLF = [13, 10]"

text \<open>White space, as \<^verbatim>\<open>\s\<close> and \<^verbatim>\<open>trim\<close> take it.\<close>

definition js_space :: "code_unit \<Rightarrow> bool" where
  "js_space c \<longleftrightarrow> c \<in> {9, 10, 11, 12, 13, 32, 160, 0x1680, 0x2028, 0x2029, 0x202F, 0x205F, 0x3000, 0xFEFF} \<or>
     (0x2000 \<le> c \<and> c \<le> 0x200A)"

definition js_trim :: "document \<Rightarrow> document" where
  "js_trim t = rev (dropWhile js_space (rev (dropWhile js_space t)))"

text \<open>\<^verbatim>\<open>replace(/\s+/g, ' ')\<close>.\<close>

function squeeze :: "document \<Rightarrow> document" where
  "squeeze [] = []"
| "squeeze (c # cs) = (if js_space c then 32 # squeeze (dropWhile js_space cs) else c # squeeze cs)"
  by pat_completeness auto
termination
  by (relation "measure length") (auto simp: le_imp_less_Suc length_dropWhile_le)

subsection \<open>Searching\<close>

fun indexOf :: "document \<Rightarrow> document \<Rightarrow> nat option" where
  "indexOf needle [] = (if needle = [] then Some 0 else None)"
| "indexOf needle (c # cs) = (if starts_with needle (c # cs) then Some 0 else map_option Suc (indexOf needle cs))"

text \<open>\<^verbatim>\<open>countOccurrences\<close>: it goes on after the end of the last one it found.\<close>

function count_from :: "document \<Rightarrow> document \<Rightarrow> nat" where
  "count_from needle t =
     (case indexOf needle t of
        None \<Rightarrow> 0
      | Some i \<Rightarrow> if needle = [] then 0 else 1 + count_from needle (drop (i + length needle) t))"
  by pat_completeness auto

definition occurs_at :: "document \<Rightarrow> document \<Rightarrow> nat \<Rightarrow> bool" where
  "occurs_at needle t i \<longleftrightarrow> i \<le> length t \<and> starts_with needle (drop i t)"

lemma occurs_at_end: "occurs_at needle t i \<Longrightarrow> i + length needle \<le> length t"
  unfolding occurs_at_def starts_with_append_iff by (metis le_add_diff_inverse length_append length_drop nat_add_left_cancel_le le_add1)

lemma occurs_at_split: "occurs_at needle t i \<Longrightarrow> t = take i t @ needle @ drop (i + length needle) t"
  unfolding occurs_at_def starts_with_append_iff
  by (metis append_take_drop_id append_eq_conv_conj drop_drop add.commute)

lemma occurs_at_Suc: "occurs_at needle (c # cs) (Suc i) = occurs_at needle cs i"
  by (simp add: occurs_at_def)

lemma indexOf_Some: "indexOf needle t = Some i \<longleftrightarrow> occurs_at needle t i \<and> (\<forall>j<i. \<not> occurs_at needle t j)"
proof (induction t arbitrary: i)
  case Nil
  then show ?case by (auto simp: occurs_at_def starts_with_def)
next
  case (Cons c cs)
  show ?case
  proof (cases "starts_with needle (c # cs)")
    case True
    then show ?thesis by (auto simp: occurs_at_def)
  next
    case False
    then have 0: "\<not> occurs_at needle (c # cs) 0" by (simp add: occurs_at_def)
    show ?thesis
    proof (cases i)
      case 0
      then show ?thesis using False \<open>\<not> occurs_at needle (c # cs) 0\<close> by auto
    next
      case (Suc k)
      have "(\<forall>j<Suc k. \<not> occurs_at needle (c # cs) j) \<longleftrightarrow> (\<forall>j<k. \<not> occurs_at needle cs j)"
        using 0 by (metis Suc_less_eq less_Suc_eq_0_disj occurs_at_Suc)
      then show ?thesis using Cons.IH [of k] False by (simp add: Suc occurs_at_Suc)
    qed
  qed
qed

lemma indexOf_None: "indexOf needle t = None \<longleftrightarrow> (\<forall>i. \<not> occurs_at needle t i)"
proof
  assume "indexOf needle t = None"
  show "\<forall>i. \<not> occurs_at needle t i"
  proof (rule ccontr)
    assume "\<not> (\<forall>i. \<not> occurs_at needle t i)"
    then obtain i where "occurs_at needle t i" "\<forall>j<i. \<not> occurs_at needle t j" using exists_least_iff [of "occurs_at needle t"] by blast
    then have "indexOf needle t = Some i" by (simp add: indexOf_Some)
    with \<open>indexOf needle t = None\<close> show False by simp
  qed
next
  assume "\<forall>i. \<not> occurs_at needle t i"
  then show "indexOf needle t = None" using indexOf_Some by (cases "indexOf needle t") auto
qed

termination count_from
proof (relation "measure (\<lambda>(n, t). length t)")
  fix needle t :: document and i
  assume "indexOf needle t = Some i" "needle \<noteq> []"
  then have "i + length needle \<le> length t" using occurs_at_end by (simp add: indexOf_Some)
  then show "((needle, drop (i + length needle) t), needle, t) \<in> measure (\<lambda>(n, t). length t)"
    using \<open>needle \<noteq> []\<close> by (cases needle) simp_all
qed simp


declare count_from.simps [simp del]

lemma count_from_0: "needle \<noteq> [] \<Longrightarrow> count_from needle t = 0 \<longleftrightarrow> (\<forall>i. \<not> occurs_at needle t i)"
  by (subst count_from.simps) (simp add: indexOf_None [symmetric] split: option.split)

lemma occurs_at_drop: "occurs_at needle (drop k t) i \<Longrightarrow> k \<le> length t \<Longrightarrow> occurs_at needle t (k + i)"
  by (auto simp: occurs_at_def add.commute)

lemma occurs_at_dropI: "occurs_at needle t i \<Longrightarrow> k \<le> i \<Longrightarrow> occurs_at needle (drop k t) (i - k)"
  by (auto simp: occurs_at_def)

text \<open>Counted once: one first occurrence, and every other overlaps it.\<close>

lemma count_from_1:
  assumes "needle \<noteq> []"
  shows "count_from needle t = 1 \<longleftrightarrow>
    (\<exists>i. indexOf needle t = Some i \<and> (\<forall>j. occurs_at needle t j \<longrightarrow> i \<le> j \<and> j < i + length needle))"
proof (cases "indexOf needle t")
  case None
  then show ?thesis by (subst count_from.simps) simp
next
  case (Some i)
  note first = Some [unfolded indexOf_Some]
  have len: "i + length needle \<le> length t" using first occurs_at_end by blast
  have "count_from needle t = 1 \<longleftrightarrow> (\<forall>j. \<not> occurs_at needle (drop (i + length needle) t) j)"
    using assms by (subst count_from.simps) (simp add: Some count_from_0)
  also have "\<dots> \<longleftrightarrow> (\<forall>j. occurs_at needle t j \<longrightarrow> j < i + length needle)"
    using occurs_at_drop [OF _ len] occurs_at_dropI [of needle t _ "i + length needle"]
    by (metis le_add1 linorder_not_less)
  finally show ?thesis using first Some by (metis linorder_not_less option.inject)
qed

subsection \<open>Splitting and line ends\<close>

text \<open>\<^verbatim>\<open>split(sep)\<close> for a separator that is not empty.\<close>

function split_sep :: "document \<Rightarrow> document \<Rightarrow> document list" where
  "split_sep sep t =
     (case indexOf sep t of
        None \<Rightarrow> [t]
      | Some i \<Rightarrow> if sep = [] then [t] else take i t # split_sep sep (drop (i + length sep) t))"
  by pat_completeness auto
termination
proof (relation "measure (\<lambda>(n, t). length t)")
  fix sep t :: document and i
  assume "indexOf sep t = Some i" "sep \<noteq> []"
  then have "i + length sep \<le> length t" using occurs_at_end by (simp add: indexOf_Some)
  then show "((sep, drop (i + length sep) t), sep, t) \<in> measure (\<lambda>(n, t). length t)" using \<open>sep \<noteq> []\<close> by (cases sep) simp_all
qed simp

declare split_sep.simps [simp del]

text \<open>\<^verbatim>\<open>replace(/\r?\n/g, eol)\<close> and \<^verbatim>\<open>split(/\r?\n/)\<close>.\<close>

fun set_eol :: "document \<Rightarrow> document \<Rightarrow> document" where
  "set_eol eol [] = []"
| "set_eol eol (c # cs) =
     (if c = 10 then eol @ set_eol eol cs
      else if c = 13 \<and> cs \<noteq> [] \<and> hd cs = 10 then eol @ set_eol eol (tl cs)
      else c # set_eol eol cs)"

text \<open>\<^verbatim>\<open>replace(/\r\n/g, '\n')\<close>.\<close>

fun to_lf :: "document \<Rightarrow> document" where
  "to_lf [] = []"
| "to_lf (c # cs) = (if c = 13 \<and> cs \<noteq> [] \<and> hd cs = 10 then 10 # to_lf (tl cs) else c # to_lf cs)"

definition lines_of :: "document \<Rightarrow> document list" where
  "lines_of t = split_sep LF (set_eol LF t)"

lemma split_sep_ne [simp]: "split_sep sep t \<noteq> []"
  by (subst split_sep.simps) (simp split: option.split)

lemma join_split_sep: "join sep (split_sep sep t) = t"
proof (induction sep t rule: split_sep.induct)
  case (1 sep t)
  show ?case
  proof (cases "indexOf sep t")
    case None
    then show ?thesis by (subst split_sep.simps) simp
  next
    case (Some i)
    show ?thesis
    proof (cases "sep = []")
      case True
      then have "split_sep sep t = [t]" by (subst split_sep.simps) (simp split: option.split)
      then show ?thesis by simp
    next
      case False
      have "t = take i t @ sep @ drop (i + length sep) t" using Some occurs_at_split by (simp add: indexOf_Some)
      moreover have "split_sep sep t = take i t # split_sep sep (drop (i + length sep) t)"
        by (subst split_sep.simps) (simp add: Some False)
      ultimately show ?thesis using 1 [OF Some False] by (simp add: join_Cons)
    qed
  qed
qed

lemma length_join: "xs \<noteq> [] \<Longrightarrow> length (join sep xs) = sum_list (map length xs) + (length xs - 1) * length sep"
  by (induction sep xs rule: join.induct) auto

lemma join_append: "xs \<noteq> [] \<Longrightarrow> ys \<noteq> [] \<Longrightarrow> join sep (xs @ ys) = join sep xs @ sep @ join sep ys"
  by (induction xs rule: induct_list012) (auto simp: join_Cons)

text \<open>Where the text goes on after its first lines.\<close>

lemma drop_lines:
  assumes "n < length (split_sep sep t)" "0 < n"
  shows "drop (sum_list (map length (take n (split_sep sep t))) + n * length sep) t = join sep (drop n (split_sep sep t))"
proof -
  let ?ls = "split_sep sep t"
  have "t = join sep (take n ?ls @ drop n ?ls)" by (simp add: join_split_sep)
  also have "\<dots> = join sep (take n ?ls) @ sep @ join sep (drop n ?ls)" using assms by (intro join_append) auto
  finally have t: "t = (join sep (take n ?ls) @ sep) @ join sep (drop n ?ls)" by simp
  have "length (join sep (take n ?ls) @ sep) = sum_list (map length (take n ?ls)) + n * length sep"
    using assms by (cases n) (simp_all add: length_join)
  then show ?thesis by (metis t append_eq_conv_conj)
qed

end
