(* ===== verification/DirectiveResults.thy ===== *)
theory DirectiveResults
  imports EditGuard "HOL-Library.Sublist"
begin

text \<open>
  The results of an L4 file's directives, and what of them a tool reports:
  \<^verbatim>\<open>ts-shared/legalese-agent/src/tools/directive-snapshot.ts\<close> and \<^verbatim>\<open>tools/l4-evaluate.ts\<close>.

  The cache of what the server pushed numbers its promises; one is resolved when it stands in \<open>resolved\<close>. A snapshot is
  the map from keys to counts the code keeps; what it stands for is a multiset. A value or body is a string of code units
  below 256, a report is a text of code units, because it has an arrow in it. \<open>js_int\<close> is \<^verbatim>\<open>Number\<close> on the ids the server
  writes (a line number in decimal, perhaps with a sign); it takes other notations for malformed.

  What the tool asks the editor and the server (does the path resolve, does the document open, what did the check say,
  what results are there) is a record of answers.
\<close>

subsection \<open>The cache\<close>

record directive_cache =
  cached :: "(string, check_row list) jsmap"
  dc_waiters :: "(string, nat list) jsmap"
  dc_calls :: "string list"
  resolved :: "nat list"

definition new_directive_cache :: directive_cache where
  "new_directive_cache = \<lparr>cached = [], dc_waiters = [], dc_calls = [], resolved = []\<rparr>"

text \<open>Resolving a promise again does nothing.\<close>

definition record_results :: "string \<Rightarrow> check_row list \<Rightarrow> directive_cache \<Rightarrow> directive_cache" where
  "record_results u results c =
     (let c = c\<lparr>cached := jm_set u results (cached c)\<rparr>
      in case jm_get (dc_waiters c) u of
           None \<Rightarrow> c
         | Some list \<Rightarrow> c\<lparr>dc_waiters := jm_delete u (dc_waiters c), resolved := fold set_add list (resolved c)\<rparr>)"

definition get_results :: "directive_cache \<Rightarrow> string \<Rightarrow> check_row list option" where
  "get_results c u = jm_get (cached c) u"

definition has_results :: "directive_cache \<Rightarrow> string \<Rightarrow> bool" where
  "has_results c u \<longleftrightarrow> jm_get (cached c) u \<noteq> None"

definition waitForNext :: "string \<Rightarrow> directive_cache \<Rightarrow> directive_cache" where
  "waitForNext u c =
     c\<lparr>dc_calls := dc_calls c @ [u],
       dc_waiters := jm_set u ((case jm_get (dc_waiters c) u of None \<Rightarrow> [] | Some list \<Rightarrow> list) @ [length (dc_calls c)]) (dc_waiters c)\<rparr>"

definition results_timeout :: "nat \<Rightarrow> directive_cache \<Rightarrow> directive_cache" where
  "results_timeout w c =
     (let u = dc_calls c ! w;
          ws = (case jm_get (dc_waiters c) u of
                  None \<Rightarrow> dc_waiters c
                | Some still \<Rightarrow> jm_set u (filter (\<lambda>f. f \<noteq> w) still) (dc_waiters c))
      in c\<lparr>dc_waiters := ws, resolved := set_add w (resolved c)\<rparr>)"

subsection \<open>Rows\<close>

definition lf :: char where
  "lf = CHR 0x0A"

text \<open>\<^verbatim>\<open>split(/\r?\n/)\<close>.\<close>

definition drop_cr :: "string \<Rightarrow> string" where
  "drop_cr l = (if l \<noteq> [] \<and> last l = CHR 0x0D then butlast l else l)"

definition split_lines :: "string \<Rightarrow> string list" where
  "split_lines t = (let ls = split_on lf t in map drop_cr (butlast ls) @ [last ls])"

definition firstLineOfBody :: "string \<Rightarrow> string" where
  "firstLineOfBody body = (case filter (\<lambda>t. t \<noteq> []) (map trim (split_lines body)) of [] \<Rightarrow> [] | t # _ \<Rightarrow> t)"

definition js_int :: "string \<Rightarrow> int option" where
  "js_int t =
     (let s = trim t;
          n = (\<lambda>d. if d \<noteq> [] \<and> set d \<subseteq> digits then Some (int (read_nat d)) else None)
      in case s of
           [] \<Rightarrow> Some 0
         | c # d \<Rightarrow> if c = CHR ''-'' then map_option uminus (n d) else if c = CHR ''+'' then n d else n s)"

definition parseLineFromDirectiveId :: "string \<Rightarrow> int" where
  "parseLineFromDirectiveId i = (case js_int (hd (split_on (CHR '':'') i)) of Some n \<Rightarrow> n | None \<Rightarrow> 0)"

record directive_out =
  out_line :: int
  out_value :: string
  out_success :: "bool option"

definition toOut :: "check_row \<Rightarrow> directive_out" where
  "toOut r = \<lparr>out_line = parseLineFromDirectiveId (directiveId r), out_value = prettyText r, out_success = success r\<rparr>"

definition keyOf :: "check_row \<Rightarrow> string" where
  "keyOf r = cr_body r @ [CHR 0x00] @ prettyText r"

subsection \<open>Snapshots and their difference\<close>

type_synonym key_counts = "(string, nat) jsmap"

type_synonym snapshots = "(string, key_counts) jsmap"

definition count_in :: "key_counts \<Rightarrow> string \<Rightarrow> nat" where
  "count_in m k = (case jm_get m k of None \<Rightarrow> 0 | Some n \<Rightarrow> n)"

definition bump :: "string \<Rightarrow> key_counts \<Rightarrow> key_counts" where
  "bump k m = jm_set k (count_in m k + 1) m"

definition count_rows :: "check_row list \<Rightarrow> key_counts" where
  "count_rows results = fold (\<lambda>r. bump (keyOf r)) results []"

record directive_diff =
  added :: "directive_out list"
  removedCount :: nat
  unchangedCount :: nat

text \<open>The rows beyond the prior snapshot's count of their key, and how many are within it.\<close>

fun added_rows :: "key_counts \<Rightarrow> key_counts \<Rightarrow> check_row list \<Rightarrow> check_row list \<times> nat" where
  "added_rows prior seen_so_far [] = ([], 0)"
| "added_rows prior seen_so_far (r # rs) =
     (let k = keyOf r; (rows, unchanged) = added_rows prior (bump k seen_so_far) rs
      in if count_in seen_so_far k < count_in prior k then (rows, unchanged + 1) else (r # rows, unchanged))"

definition removed_in :: "key_counts \<Rightarrow> key_counts \<Rightarrow> nat" where
  "removed_in prior current =
     sum_list (map (\<lambda>(k, have). if count_in current k < have then have - count_in current k else 0) prior)"

definition diff :: "string \<Rightarrow> check_row list \<Rightarrow> snapshots \<Rightarrow> directive_diff \<times> snapshots" where
  "diff u results sn =
     (let prior = (case jm_get sn u of None \<Rightarrow> [] | Some m \<Rightarrow> m); current = count_rows results;
          (rows, unchanged) = added_rows prior [] results
      in (\<lparr>added = map toOut rows, removedCount = removed_in prior current, unchangedCount = unchanged\<rparr>, jm_set u current sn))"

definition hasSnapshot :: "string \<Rightarrow> snapshots \<Rightarrow> bool" where
  "hasSnapshot u sn \<longleftrightarrow> jm_get sn u \<noteq> None"

definition forget_snapshot :: "string \<Rightarrow> snapshots \<Rightarrow> snapshots" where
  "forget_snapshot u sn = jm_delete u sn"

subsection \<open>The report\<close>

datatype render_mode = Changed | Full

text \<open>\<^verbatim>\<open>replace(/\s*\n+\s*/g, ' ')\<close>: white space with a line break in it becomes a space.\<close>

function collapse :: "string \<Rightarrow> string" where
  "collapse [] = []"
| "collapse (c # cs) =
     (if white c then
        (let blanks = c # takeWhile white cs
         in (if lf \<in> set blanks then '' '' else blanks) @ collapse (dropWhile white cs))
      else c # collapse cs)"
  by pat_completeness auto
termination
  by (relation "measure length") (auto simp: le_imp_less_Suc length_dropWhile_le)

definition show_int :: "int \<Rightarrow> string" where
  "show_int n = (if n < 0 then ''-'' @ show_nat (nat (- n)) else show_nat (nat n))"

definition formatDirectiveRow :: "directive_out \<Rightarrow> text16" where
  "formatDirectiveRow d =
     ascii ((case out_success d of Some False \<Rightarrow> ''!'' | None \<Rightarrow> ''~'' | Some True \<Rightarrow> '' '') @ '' '' @ show_int (out_line d) @ '' '') @
     [8594] @ ascii ('' '' @ trim (collapse (out_value d)))"

definition directive_summary :: "render_mode \<Rightarrow> nat \<Rightarrow> directive_diff \<Rightarrow> string" where
  "directive_summary mode results d =
     (let n = length (added d)
      in if results = 0 then ''no directives''
         else if mode = Full then show_nat results @ '' (full)''
         else if n = 0 \<and> removedCount d = 0 then show_nat results @ '' unchanged''
         else join '', ''
           ((if 0 < n then [show_nat n @ '' changed''] else []) @
            (if 0 < removedCount d then [show_nat (removedCount d) @ '' removed''] else []) @
            (if 0 < unchangedCount d then [show_nat (unchangedCount d) @ '' unchanged''] else [])))"

definition renderDirectiveResults :: "check_row list \<Rightarrow> string \<Rightarrow> render_mode \<Rightarrow> snapshots \<Rightarrow> text16 \<times> snapshots" where
  "renderDirectiveResults results u mode sn =
     (let (d, sn') = diff u results sn;
          head_line = ascii (''--- L4 directives: '' @ directive_summary mode (length results) d @ '' ---'');
          rows = (if mode = Full then map (\<lambda>r. formatDirectiveRow (toOut r)) results else map formatDirectiveRow (added d))
      in (if results = [] \<or> rows = [] then head_line else head_line @ newline @ join newline rows, sn'))"

subsection \<open>\<^verbatim>\<open>l4__evaluate\<close>\<close>

text \<open>What the workspace and the language server answer: \<open>results_after\<close> is given how long the tool waits.\<close>

record l4_answers =
  resolves_to :: "string option"
  opens :: "string + nat"
  check_said :: "checked_diagnostics option"
  results_now :: "check_row list option"
  results_after :: "nat \<Rightarrow> check_row list option"
  shown_path :: string

definition buildHeader :: "string \<Rightarrow> int list \<Rightarrow> nat \<Rightarrow> string" where
  "buildHeader rel ls lineCount =
     (if ls = [] then ''['' @ rel @ '' 0/'' @ show_nat lineCount @ '']''
      else ''['' @ rel @ '' '' @ show_int (Min (set ls)) @ ''-'' @ show_int (Max (set ls)) @ ''/'' @ show_nat lineCount @ '']'')"

definition wait_time :: "nat option \<Rightarrow> nat" where
  "wait_time t = min (case t of None \<Rightarrow> 6000 | Some n \<Rightarrow> n) 15000"

definition l4Evaluate :: "l4_answers \<Rightarrow> string \<Rightarrow> nat option \<Rightarrow> render_mode option \<Rightarrow> snapshots \<Rightarrow> (string + text16) \<times> snapshots" where
  "l4Evaluate a path timeoutMs mode sn =
     (if path = [] then (Inl ''l4__evaluate: `path` is required'', sn)
      else case resolves_to a of
        None \<Rightarrow> (Inl (''l4__evaluate: cannot resolve path '' @ path @
          ''. Only files inside a loaded workspace folder are supported.''), sn)
      | Some u \<Rightarrow>
          (case opens a of
             Inl msg \<Rightarrow> (Inl (''l4__evaluate: failed to open '' @ path @ '': '' @ msg), sn)
           | Inr lineCount \<Rightarrow>
               (let gate = (case check_said a of None \<Rightarrow> False | Some ch \<Rightarrow> cd_pending ch \<or> errors (l4FileState ch) > 0)
                in if gate then (Inr (formatChecked (the (check_said a)) None), sn)
                   else
                     (let ws = (case check_said a of None \<Rightarrow> [] | Some ch \<Rightarrow> severe SevWarning (diagnostics ch));
                          warningBlock = (if ws \<noteq> [] then newline @ formatL4Diagnostics ws None else []);
                          found = (case results_now a of None \<Rightarrow> results_after a (wait_time timeoutMs) | Some rs \<Rightarrow> Some rs);
                          results = (case found of None \<Rightarrow> [] | Some rs \<Rightarrow> rs);
                          ls = filter (\<lambda>n. 0 < n) (map (\<lambda>r. parseLineFromDirectiveId (directiveId r)) results);
                          (block, sn') = renderDirectiveResults results u (case mode of None \<Rightarrow> Full | Some m \<Rightarrow> m) sn
                      in (Inr (ascii (buildHeader (shown_path a) ls lineCount) @ newline @ block @ warningBlock), sn')))))"


subsection \<open>Counts are multisets\<close>

definition counted :: "key_counts \<Rightarrow> string multiset" where
  "counted m = sum_list (map (\<lambda>(k, n). replicate_mset n k) m)"

definition keys_of :: "check_row list \<Rightarrow> string multiset" where
  "keys_of rs = mset (map keyOf rs)"

lemma keys_of_simps [simp]: "keys_of [] = {#}" "keys_of (r # rs) = add_mset (keyOf r) (keys_of rs)"
  by (simp_all add: keys_of_def)

lemma size_diff_inter: "size (A - B) + size (A \<inter># B) = size A"
proof -
  have "A - B + (A \<inter># B) = A" by (rule multiset_eqI) simp
  then show ?thesis by (metis size_union)
qed

lemma size_keys_of [simp]: "size (keys_of rs) = length rs"
  by (simp add: keys_of_def)

lemma counted_absent: "k \<notin> fst ` set m \<Longrightarrow> count (counted m) k = 0"
  by (induction m) (auto simp: counted_def)

lemma count_counted: "jm_wf m \<Longrightarrow> count (counted m) k = count_in m k"
proof (induction m)
  case (Cons x m)
  obtain k' n where x: "x = (k', n)" by (cases x)
  have "k' \<notin> fst ` set m" "jm_wf m" using Cons.prems by (auto simp: x jm_wf_def)
  then show ?case using Cons.IH counted_absent [of k' m] by (auto simp: x counted_def count_in_def)
qed (simp add: counted_def count_in_def)

lemma bump_wf [simp]: "jm_wf m \<Longrightarrow> jm_wf (bump k m)"
  by (simp add: bump_def)

lemma count_in_bump: "count_in (bump k m) j = (if j = k then count_in m k + 1 else count_in m j)"
  by (simp add: bump_def count_in_def jm_get_set)

lemma fold_bump:
  "jm_wf m \<Longrightarrow> jm_wf (fold (\<lambda>r. bump (keyOf r)) rs m) \<and>
     count_in (fold (\<lambda>r. bump (keyOf r)) rs m) k = count_in m k + count (keys_of rs) k"
  by (induction rs arbitrary: m) (auto simp: count_in_bump)

lemma count_rows_counted: "jm_wf (count_rows rs)" "counted (count_rows rs) = keys_of rs"
proof -
  show wf: "jm_wf (count_rows rs)" using fold_bump [of "[]"] by (simp add: count_rows_def)
  show "counted (count_rows rs) = keys_of rs"
    by (rule multiset_eqI, unfold count_counted [OF wf])
      (use fold_bump [of "[]" rs] in \<open>simp add: count_rows_def count_in_def\<close>)
qed

lemma added_rows_spec:
  "subseq (fst (added_rows prior sf rs)) rs \<and>
   snd (added_rows prior sf rs) + length (fst (added_rows prior sf rs)) = length rs \<and>
   count (keys_of (fst (added_rows prior sf rs))) k = count (keys_of rs) k - (count_in prior k - count_in sf k)"
proof (induction rs arbitrary: sf)
  case (Cons r rs)
  obtain rows un where rec: "added_rows prior (bump (keyOf r) sf) rs = (rows, un)" by fastforce
  note IH = Cons.IH [of "bump (keyOf r) sf", unfolded rec fst_conv snd_conv]
  show ?case
  proof (cases "count_in sf (keyOf r) < count_in prior (keyOf r)")
    case True
    then have "added_rows prior sf (r # rs) = (rows, un + 1)" by (simp add: rec Let_def)
    then show ?thesis using IH True by (auto simp: count_in_bump intro: list_emb.intros)
  next
    case False
    then have "added_rows prior sf (r # rs) = (r # rows, un)" by (simp add: rec Let_def)
    then show ?thesis using IH False by (auto simp: count_in_bump intro: list_emb.intros)
  qed
qed simp

lemma removed_in_size: "jm_wf prior \<Longrightarrow> jm_wf current \<Longrightarrow> removed_in prior current = size (counted prior - counted current)"
proof (induction prior)
  case (Cons x prior)
  obtain k n where x: "x = (k, n)" by (cases x)
  have fresh: "count (counted prior) k = 0" and wf: "jm_wf prior"
    using Cons.prems(1) counted_absent by (auto simp: x jm_wf_def)
  have "counted (x # prior) - counted current = replicate_mset (n - count_in current k) k + (counted prior - counted current)"
    by (rule multiset_eqI) (use fresh in \<open>auto simp: x counted_def [of "_ # _"] counted_def [symmetric] count_counted [OF Cons.prems(2)]\<close>)
  then show ?case using Cons.IH [OF wf Cons.prems(2)] by (simp add: removed_in_def x)
qed (simp add: removed_in_def counted_def)

subsection \<open>The contract of a snapshot store\<close>

text \<open>What a tool relies on: the store remembers, of every document, the rows last reported, and a report says how they
  differ as multisets.\<close>

locale snapshot_store =
  fixes remembered :: "'s \<Rightarrow> string \<Rightarrow> string multiset"
    and report :: "string \<Rightarrow> check_row list \<Rightarrow> 's \<Rightarrow> directive_diff \<times> 's"
    and drop_doc :: "string \<Rightarrow> 's \<Rightarrow> 's"
    and valid :: "'s \<Rightarrow> bool"
  assumes report_valid: "valid s \<Longrightarrow> valid (snd (report u rs s))"
    and drop_valid: "valid s \<Longrightarrow> valid (drop_doc u s)"
    and report_remembers: "valid s \<Longrightarrow> remembered (snd (report u rs s)) v = (if v = u then keys_of rs else remembered s v)"
    and drop_forgets: "valid s \<Longrightarrow> remembered (drop_doc u s) v = (if v = u then {#} else remembered s v)"
    and report_added: "valid s \<Longrightarrow> \<exists>rows. subseq rows rs \<and> added (fst (report u rs s)) = map toOut rows \<and>
      keys_of rows = keys_of rs - remembered s u"
    and report_removed: "valid s \<Longrightarrow> removedCount (fst (report u rs s)) = size (remembered s u - keys_of rs)"
    and report_unchanged: "valid s \<Longrightarrow> unchangedCount (fst (report u rs s)) = size (keys_of rs \<inter># remembered s u)"
begin

lemma report_balance:
  assumes "valid s"
  shows "length (added (fst (report u rs s))) + unchangedCount (fst (report u rs s)) = length rs"
    "removedCount (fst (report u rs s)) + unchangedCount (fst (report u rs s)) = size (remembered s u)"
proof -
  obtain rows where rows: "added (fst (report u rs s)) = map toOut rows" "keys_of rows = keys_of rs - remembered s u"
    using report_added [OF assms] by blast
  have "length rows = size (keys_of rs - remembered s u)" by (metis rows(2) size_keys_of)
  then show "length (added (fst (report u rs s))) + unchangedCount (fst (report u rs s)) = length rs"
    using size_diff_inter [of "keys_of rs" "remembered s u"] by (simp add: rows(1) report_unchanged [OF assms])
  show "removedCount (fst (report u rs s)) + unchangedCount (fst (report u rs s)) = size (remembered s u)"
    using size_diff_inter [of "remembered s u" "keys_of rs"]
    by (simp add: report_unchanged [OF assms] report_removed [OF assms] subset_mset.inf.commute)
qed

text \<open>Reporting the same rows again, in any order, reports no change.\<close>

lemma report_again:
  assumes "valid s" "keys_of rs' = keys_of rs"
  shows "added (fst (report u rs' (snd (report u rs s)))) = []"
    "removedCount (fst (report u rs' (snd (report u rs s)))) = 0"
proof -
  have v: "valid (snd (report u rs s))" by (rule report_valid [OF assms(1)])
  obtain rows where rows: "added (fst (report u rs' (snd (report u rs s)))) = map toOut rows"
    "keys_of rows = keys_of rs' - remembered (snd (report u rs s)) u"
    using report_added [OF v] by blast
  have "size (keys_of rows) = 0" by (simp add: rows(2) report_remembers [OF assms(1)] assms(2))
  then show "added (fst (report u rs' (snd (report u rs s)))) = []" by (simp add: rows(1))
  show "removedCount (fst (report u rs' (snd (report u rs s)))) = 0"
    by (simp add: report_removed [OF v] report_remembers [OF assms(1)] assms(2))
qed

end

subsection \<open>The code's store obeys it\<close>

definition snapshot_of :: "snapshots \<Rightarrow> string \<Rightarrow> string multiset" where
  "snapshot_of sn u = (case jm_get sn u of None \<Rightarrow> {#} | Some m \<Rightarrow> counted m)"

definition snapshots_ok :: "snapshots \<Rightarrow> bool" where
  "snapshots_ok sn \<longleftrightarrow> (\<forall>u m. jm_get sn u = Some m \<longrightarrow> jm_wf m)"

lemma diff_parts:
  assumes "snapshots_ok sn" and d: "diff u rs sn = (d, sn')"
  shows "sn' = jm_set u (count_rows rs) sn" "removedCount d = size (snapshot_of sn u - keys_of rs)"
    "unchangedCount d = size (keys_of rs \<inter># snapshot_of sn u)"
    "\<exists>rows. subseq rows rs \<and> added d = map toOut rows \<and> keys_of rows = keys_of rs - snapshot_of sn u"
proof -
  define prior where "prior = (case jm_get sn u of None \<Rightarrow> [] | Some m \<Rightarrow> m)"
  have prior: "jm_wf prior" "counted prior = snapshot_of sn u"
    using assms(1) by (auto simp: prior_def snapshots_ok_def snapshot_of_def counted_def split: option.split)
  obtain rows un where rows: "added_rows prior [] rs = (rows, un)" by fastforce
  have parts: "added d = map toOut rows" "removedCount d = removed_in prior (count_rows rs)" "unchangedCount d = un"
    and sn': "sn' = jm_set u (count_rows rs) sn"
    using d unfolding diff_def Let_def prior_def [symmetric] rows by auto
  note spec = added_rows_spec [of prior "[]" rs, unfolded rows fst_conv snd_conv]
  have keys: "keys_of rows = keys_of rs - snapshot_of sn u"
    by (rule multiset_eqI) (use spec in \<open>simp add: prior(2) [symmetric] count_counted [OF prior(1)] count_in_def [of "[]"]\<close>)
  show "sn' = jm_set u (count_rows rs) sn" by (rule sn')
  show "removedCount d = size (snapshot_of sn u - keys_of rs)"
    unfolding parts(2) removed_in_size [OF prior(1) count_rows_counted(1)] prior(2) count_rows_counted(2) ..
  have "size (keys_of rs) = size (keys_of rs - snapshot_of sn u) + size (keys_of rs \<inter># snapshot_of sn u)"
    by (rule size_diff_inter [symmetric])
  then show "unchangedCount d = size (keys_of rs \<inter># snapshot_of sn u)"
    using spec by (simp add: parts(3) keys [symmetric])
  show "\<exists>rows. subseq rows rs \<and> added d = map toOut rows \<and> keys_of rows = keys_of rs - snapshot_of sn u"
    using spec keys parts(1) by blast
qed


interpretation directive_store: snapshot_store snapshot_of diff forget_snapshot snapshots_ok
proof
  fix sn :: snapshots and u v rs
  obtain d sn' where d: "diff u rs sn = (d, sn')" by fastforce
  show "snapshots_ok (forget_snapshot u sn)" "snapshot_of (forget_snapshot u sn) v = (if v = u then {#} else snapshot_of sn v)"
    if "snapshots_ok sn" using that by (auto simp: snapshots_ok_def snapshot_of_def forget_snapshot_def jm_get_delete split: if_splits)
  assume ok: "snapshots_ok sn"
  note parts = diff_parts [OF ok d]
  show "snapshots_ok (snd (diff u rs sn))"
    using ok count_rows_counted(1) by (simp add: d parts(1) snapshots_ok_def jm_get_set)
  show "snapshot_of (snd (diff u rs sn)) v = (if v = u then keys_of rs else snapshot_of sn v)"
    using count_rows_counted(2) by (simp add: d parts(1) snapshot_of_def jm_get_set)
  show "\<exists>rows. subseq rows rs \<and> added (fst (diff u rs sn)) = map toOut rows \<and> keys_of rows = keys_of rs - snapshot_of sn u"
    "removedCount (fst (diff u rs sn)) = size (snapshot_of sn u - keys_of rs)"
    "unchangedCount (fst (diff u rs sn)) = size (keys_of rs \<inter># snapshot_of sn u)"
    using parts(2-4) by (simp_all add: d)
qed

subsection \<open>A conversation's reports\<close>

datatype store_use = Report string "check_row list" | Closed string

definition use_store :: "store_use \<Rightarrow> snapshots \<Rightarrow> snapshots" where
  "use_store x sn = (case x of Report u rs \<Rightarrow> snd (diff u rs sn) | Closed u \<Rightarrow> forget_snapshot u sn)"

text \<open>The rows last reported of a document, the uses in order.\<close>

fun last_reported :: "string \<Rightarrow> store_use list \<Rightarrow> check_row list \<Rightarrow> check_row list" where
  "last_reported u [] rows = rows"
| "last_reported u (Report v rs # xs) rows = last_reported u xs (if v = u then rs else rows)"
| "last_reported u (Closed v # xs) rows = last_reported u xs (if v = u then [] else rows)"

lemma fold_use_store:
  "snapshots_ok sn \<Longrightarrow> snapshot_of sn u = keys_of rows \<Longrightarrow>
     snapshots_ok (fold use_store xs sn) \<and> snapshot_of (fold use_store xs sn) u = keys_of (last_reported u xs rows)"
proof (induction xs arbitrary: sn rows)
  case (Cons x xs)
  show ?case
  proof (cases x)
    case (Report v rs)
    have "snapshot_of (use_store x sn) u = keys_of (if v = u then rs else rows)"
      using Cons.prems directive_store.report_remembers [OF Cons.prems(1), of v rs u] by (simp add: Report use_store_def)
    with Cons.IH [of "use_store x sn"] show ?thesis
      using directive_store.report_valid [OF Cons.prems(1)] by (simp add: Report use_store_def)
  next
    case (Closed v)
    have "snapshot_of (use_store x sn) u = keys_of (if v = u then [] else rows)"
      using Cons.prems directive_store.drop_forgets [OF Cons.prems(1), of v u] by (simp add: Closed use_store_def)
    with Cons.IH [of "use_store x sn"] show ?thesis
      using directive_store.drop_valid [OF Cons.prems(1)] by (simp add: Closed use_store_def)
  qed
qed simp

text \<open>C33: a tool reports exactly what changed since its last report of the document: the rows it shows are those that are new,
  as a multiset and in the order of the file, and its counts are those of the rows gone and kept.\<close>

theorem reports_what_changed:
  "let sn = fold use_store xs []; before = last_reported u xs []; d = fst (diff u rs sn)
   in (\<exists>rows. subseq rows rs \<and> added d = map toOut rows \<and> keys_of rows = keys_of rs - keys_of before) \<and>
      removedCount d = size (keys_of before - keys_of rs) \<and> unchangedCount d = size (keys_of rs \<inter># keys_of before) \<and>
      length (added d) + unchangedCount d = length rs \<and> removedCount d + unchangedCount d = length before"
proof -
  have ok: "snapshots_ok (fold use_store xs [])" and snap: "snapshot_of (fold use_store xs []) u = keys_of (last_reported u xs [])"
    using fold_use_store [of "[]" u "[]" xs] by (simp_all add: snapshots_ok_def snapshot_of_def)
  show ?thesis
    using directive_store.report_added [OF ok, of rs u] directive_store.report_removed [OF ok, of u rs]
      directive_store.report_unchanged [OF ok, of u rs] directive_store.report_balance [OF ok, of u rs]
    by (simp add: Let_def snap)
qed

text \<open>A file that does not compile, or whose check has not finished, is answered with its diagnostics alone, and what the
  tool last reported is kept.\<close>

lemma evaluate_gated:
  assumes "path \<noteq> []" "resolves_to a = Some u" "opens a = Inr n" "check_said a = Some ch"
    and "cd_pending ch \<or> errors (l4FileState ch) > 0"
  shows "l4Evaluate a path t mode sn = (Inr (formatChecked ch None), sn)"
  using assms by (simp add: l4Evaluate_def)

subsection \<open>The cache's promises\<close>

definition dc_waiting :: "directive_cache \<Rightarrow> string \<Rightarrow> nat list" where
  "dc_waiting c u = (case jm_get (dc_waiters c) u of None \<Rightarrow> [] | Some list \<Rightarrow> list)"

lemma record_results_wakes:
  "dc_waiting (record_results u rs c) u = [] \<and> set (dc_waiting c u) \<subseteq> set (resolved (record_results u rs c)) \<and>
   get_results (record_results u rs c) u = Some rs"
  by (auto simp: record_results_def dc_waiting_def get_results_def Let_def jm_get_set jm_get_delete split: option.splits)

lemma timeout_resolves: "w \<in> set (resolved (results_timeout w c))"
  by (simp add: results_timeout_def Let_def)

lemma resolved_once_each:
  "distinct (resolved c) \<Longrightarrow> distinct (resolved (record_results u rs c)) \<and> distinct (resolved (results_timeout w c))"
  by (auto simp: record_results_def results_timeout_def Let_def split: option.splits)

end
