(* ===== verification/FsEdit.thy ===== *)
theory FsEdit
  imports FsText DirectiveResults
begin

text \<open>
  The agent's tools that change files: \<^verbatim>\<open>fs__edit_file\<close>, \<^verbatim>\<open>fs__create_file\<close>, \<^verbatim>\<open>fs__copy_file\<close> and
  \<^verbatim>\<open>fs__delete_file\<close> of \<^verbatim>\<open>ts-shared/legalese-agent/src/tools/fs.ts\<close>.

  The workspace (\<^verbatim>\<open>ports.ts\<close>) is a map from paths to what is there: a file with its text and line ends, or a
  directory. What depends on the host is a record of answers, each given the number of the call it answers: what the
  language server says of a file after a change, which directive results there are, whether a change is refused, what
  becomes of a file that is to be created (another process may be first). A call that is refused has had no effect. A
  document that exists and is a file can be read. \<^verbatim>\<open>resolvePath\<close>, which throws on a path outside the workspace, is a
  parameter. A tool that throws gives the left of a sum.
\<close>

subsection \<open>The workspace\<close>

record resolved_path =
  r_relative :: string
  r_uri :: string
  r_fsPath :: string

record file_doc =
  doc_text :: document
  crlf :: bool

datatype entry = File file_doc | Folder

datatype create_answer = CreateOk | CreateRaced entry | CreateRefused string

datatype delete_answer = Trashed | Deleted | DeleteRefused string

record host =
  check_answer :: "nat \<Rightarrow> (checked_diagnostics \<times> bool) option"
  directive_answer :: "nat \<Rightarrow> check_row list option"
  apply_answer :: "nat \<Rightarrow> string option"
  create_answer :: "nat \<Rightarrow> create_answer"
  delete_answer :: "nat \<Rightarrow> delete_answer"
  read_refusal :: string
  has_crlf :: "document \<Rightarrow> bool"
  same_file :: "string \<Rightarrow> string \<Rightarrow> bool"

record fs_state =
  entries :: "string \<rightharpoonup> entry"
  checks_asked :: nat
  directives_asked :: nat
  applies_asked :: nat
  creates_asked :: nat
  deletes_asked :: nat
  edit_snapshots :: snapshots

definition eol_of :: "file_doc \<Rightarrow> document" where
  "eol_of d = (if crlf d then CRLF else LF)"

text \<open>A replacement, in offsets of the text that was read.\<close>

definition splice :: "nat \<Rightarrow> nat \<Rightarrow> document \<Rightarrow> document \<Rightarrow> document" where
  "splice a b new t = take a t @ new @ drop b t"

definition applyEdit :: "host \<Rightarrow> resolved_path \<Rightarrow> nat \<Rightarrow> nat \<Rightarrow> document \<Rightarrow> fs_state \<Rightarrow> string option \<times> fs_state" where
  "applyEdit h r a b new st =
     (let st1 = st\<lparr>applies_asked := applies_asked st + 1\<rparr>
      in case apply_answer h (applies_asked st) of
           Some msg \<Rightarrow> (Some msg, st1)
         | None \<Rightarrow>
             (case entries st (r_fsPath r) of
                Some (File d) \<Rightarrow> (None, st1\<lparr>entries := (entries st)(r_fsPath r \<mapsto> File (d\<lparr>doc_text := splice a b new (doc_text d)\<rparr>))\<rparr>)
              | _ \<Rightarrow> (Some (read_refusal h), st1)))"

definition createFile :: "host \<Rightarrow> resolved_path \<Rightarrow> document \<Rightarrow> fs_state \<Rightarrow> string option \<times> fs_state" where
  "createFile h r content st =
     (let st1 = st\<lparr>creates_asked := creates_asked st + 1\<rparr>
      in if entries st (r_fsPath r) \<noteq> None then (Some (read_refusal h), st1)
         else case create_answer h (creates_asked st) of
           CreateOk \<Rightarrow> (None, st1\<lparr>entries := (entries st)(r_fsPath r \<mapsto> File \<lparr>doc_text = content, crlf = has_crlf h content\<rparr>)\<rparr>)
         | CreateRaced e \<Rightarrow> (Some (read_refusal h), st1\<lparr>entries := (entries st)(r_fsPath r \<mapsto> e)\<rparr>)
         | CreateRefused msg \<Rightarrow> (Some msg, st1))"

definition deleteFile :: "host \<Rightarrow> resolved_path \<Rightarrow> fs_state \<Rightarrow> (string + bool) \<times> fs_state" where
  "deleteFile h r st =
     (let st1 = st\<lparr>deletes_asked := deletes_asked st + 1\<rparr>
      in case delete_answer h (deletes_asked st) of
           DeleteRefused msg \<Rightarrow> (Inl msg, st1)
         | Trashed \<Rightarrow> (Inr True, st1\<lparr>entries := (entries st)(r_fsPath r := None)\<rparr>)
         | Deleted \<Rightarrow> (Inr False, st1\<lparr>entries := (entries st)(r_fsPath r := None)\<rparr>))"

subsection \<open>Reporting a file after a change\<close>

definition EDIT_DIAGNOSTICS_LIMIT :: diagnostics_limit where
  "EDIT_DIAGNOSTICS_LIMIT = \<lparr>maxEntries = 8, maxChars = 1500\<rparr>"

definition isL4Path :: "string \<Rightarrow> bool" where
  "isL4Path p = ends_with ''.l4'' (toLowerCase p)"

definition fileState :: "host \<Rightarrow> fs_state \<Rightarrow> (checked_diagnostics \<times> bool) option \<times> fs_state" where
  "fileState h st = (check_answer h (checks_asked st), st\<lparr>checks_asked := checks_asked st + 1\<rparr>)"

definition computeEditDiff :: "host \<Rightarrow> resolved_path \<Rightarrow> fs_state \<Rightarrow> document \<times> fs_state" where
  "computeEditDiff h r st =
     (let results = (case directive_answer h (directives_asked st) of None \<Rightarrow> [] | Some rs \<Rightarrow> rs);
          (t, sn) = renderDirectiveResults results (r_uri r) Changed (edit_snapshots st)
      in (of_units t, st\<lparr>directives_asked := directives_asked st + 1, edit_snapshots := sn\<rparr>))"

definition reportL4File ::
    "host \<Rightarrow> resolved_path \<Rightarrow> document \<Rightarrow> (checked_diagnostics \<times> bool) option \<Rightarrow> fs_state \<Rightarrow>
     (document \<times> l4_file_state option) \<times> fs_state" where
  "reportL4File h r body known st =
     (if \<not> isL4Path (r_fsPath r) then ((body, None), st)
      else
        (let (said, st1) = (case known of Some ch \<Rightarrow> (Some ch, st) | None \<Rightarrow> fileState h st)
         in case said of
              None \<Rightarrow> ((body, None), st1)
            | Some (checked, confirmed) \<Rightarrow>
                (let s = l4FileState checked
                 in if cd_pending checked \<or> errors s > 0
                    then ((body @ LF @ of_units (formatChecked checked (Some EDIT_DIAGNOSTICS_LIMIT)), Some s), st1)
                    else
                      (let (diffBlock, st2) = computeEditDiff h r st1;
                           ws = severe SevWarning (diagnostics checked);
                           warningBlock = (if ws \<noteq> [] then LF @ of_units (formatL4Diagnostics ws (Some EDIT_DIAGNOSTICS_LIMIT)) else [])
                       in ((body @ LF @ diffBlock @ warningBlock, Some s), st2)))))"

subsection \<open>One edit\<close>

text \<open>\<open>None\<close> is a value that is not a text; a start line that is not a finite number is none.\<close>

record edit_item =
  old_text :: "document option"
  new_text :: "document option"
  start_line :: "int option"

record applied_edit =
  startLine :: nat
  endLine :: nat
  oldLines :: nat
  newLines :: nat

definition squash :: "document \<Rightarrow> document" where
  "squash t = js_trim (squeeze t)"

definition clip :: "document \<Rightarrow> document" where
  "clip t = (if 600 < length t then take 600 t @ words ''...'' else t)"

text \<open>The advice that comes with a snippet that was not found; it never changes anything.\<close>

definition describeNearestText :: "document \<Rightarrow> document \<Rightarrow> document option" where
  "describeNearestText t old =
     (let wanted = squash old; ls = lines_of t; span = length (lines_of (js_trim old));
          window = (\<lambda>i. join LF (take span (drop i ls)))
      in if wanted = [] then None
         else case filter (\<lambda>i. squash (window i) = wanted) [0..<length ls + 1 - span] of
           i # _ \<Rightarrow> Some (words ''The text at line '' @ show_num (i + 1) @
             words '' differs only in whitespace. Copy it exactly, because whitespace can change what the code means:'' @ LF @
             clip (window i))
         | [] \<Rightarrow>
             (let firstLine = squash (hd (lines_of (js_trim old)))
              in if firstLine = [] then None
                 else
                   (let same = take 3 (filter (\<lambda>(i, l). squash l = firstLine) (enumerate 0 ls))
                    in if same = [] then None
                       else Some (words ''The first line of 'old' appears at:'' @ LF @
                         join LF (map (\<lambda>(i, l). show_num (i + 1) @ words '': '' @ clip l) same)))))"

definition notFoundHint :: "bool \<Rightarrow> document \<Rightarrow> document \<Rightarrow> document" where
  "notFoundHint mayQuote t old =
     (if mayQuote then (case describeNearestText t old of None \<Rightarrow> [] | Some n \<Rightarrow> if n = [] then [] else LF @ n) else [])"

text \<open>Where the search starts: after the first \<open>n\<close> lines.\<close>

definition anchor_offset :: "document \<Rightarrow> document \<Rightarrow> nat \<Rightarrow> nat option" where
  "anchor_offset eol t n =
     (if n = 0 then Some 0
      else (let allLines = split_sep eol t
            in if length allLines \<le> n then None
               else Some (sum_list (map length (take n allLines)) + n * length eol)))"

definition anchor_line :: "edit_item \<Rightarrow> nat" where
  "anchor_line item = (case start_line item of None \<Rightarrow> 0 | Some n \<Rightarrow> nat (max 0 n))"

definition tool :: "string \<Rightarrow> document" where
  "tool s = words (''fs__edit_file: '' @ s)"

text \<open>Where the snippet is, or why it is not replaced.\<close>

definition find_snippet :: "bool \<Rightarrow> resolved_path \<Rightarrow> edit_item \<Rightarrow> file_doc \<Rightarrow> document \<Rightarrow> document + nat" where
  "find_snippet mayQuote r item d old =
     (let t = doc_text d; n = anchor_line item
      in case anchor_offset (eol_of d) t n of
           None \<Rightarrow> Inl (tool (''startLine='' @ show_int (the (start_line item)) @ '' is past the end of '' @ r_relative r @ '' ('' @
             show_nat (length (split_sep (eol_of d) t)) @ '' lines).''))
         | Some offset \<Rightarrow>
             (let window = drop offset t; count = count_from old window
              in if n = 0 \<and> count = 0 then
                   Inl (tool (''the 'old' snippet was not found in '' @ r_relative r) @ notFoundHint mayQuote t old)
                 else if n = 0 \<and> 1 < count then
                   Inl (tool (''the 'old' snippet appears '' @ show_nat count @ '' times in '' @ r_relative r @
                     ''. Include more surrounding lines to make it unique, or pass startLine=<line> to anchor.''))
                 else case indexOf old window of
                   None \<Rightarrow> Inl ((if n = 0 then words (''fs__edit_file: 'old' snippet not found in '' @ r_relative r)
                       else words (''fs__edit_file: 'old' snippet not found in '' @ r_relative r @ '' after line '' @ show_nat n)) @
                       notFoundHint mayQuote t old)
                 | Some hit \<Rightarrow> Inr (offset + hit)))"


definition seed_line :: string where
  "seed_line = ''// new file in progress ...''"

text \<open>\<^verbatim>\<open>FS_CREATE_FILE_SEED\<close>.\<close>

definition FS_CREATE_FILE_SEED :: document where
  "FS_CREATE_FILE_SEED = words seed_line @ LF"

definition applyOneEdit :: "host \<Rightarrow> bool \<Rightarrow> resolved_path \<Rightarrow> edit_item \<Rightarrow> fs_state \<Rightarrow> (document + applied_edit) \<times> fs_state" where
  "applyOneEdit h mayQuote r item st =
     (case old_text item of
        None \<Rightarrow> (Inl (words ''fs__edit_file: 'old' must be a non-empty string identifying the snippet to replace.''), st)
      | Some old0 \<Rightarrow>
          (if old0 = [] then (Inl (words (''fs__edit_file: 'old' must be a non-empty anchor snippet. Whole-file replacement is not supported '') @
               of_units [8212] @ words ('' for a new file, pass `content` to fs__create_file; for a seeded file, replace the seed line '' @
               [CHR 0x22] @ seed_line @ [CHR 0x22] @ '' first. For large rewrites, split into multiple smaller edits.'')), st)
           else case new_text item of
             None \<Rightarrow> (Inl (words ''fs__edit_file: 'new' is required (as a string). Pass an empty string to delete the 'old' snippet.''), st)
           | Some new0 \<Rightarrow>
               (case entries st (r_fsPath r) of
                  None \<Rightarrow> (Inl (tool (r_relative r @
                    '' does not exist. Use fs__create_file to create it first, then call fs__edit_file to add content.'')), st)
                | Some Folder \<Rightarrow> (Inl (words (read_refusal h)), st)
                | Some (File d) \<Rightarrow>
                    (let old = set_eol (eol_of d) old0; new = set_eol (eol_of d) new0
                     in case find_snippet mayQuote r item d old of
                          Inl msg \<Rightarrow> (Inl msg, st)
                        | Inr start \<Rightarrow>
                            (case applyEdit h r start (start + length old) new st of
                               (Some msg, st') \<Rightarrow> (Inl (tool (''could not apply edit to '' @ r_relative r @
                                 '' (file may be read-only): '' @ msg)), st')
                             | (None, st') \<Rightarrow>
                                 (let first = nat (line (positionAt (doc_text d) (int start))) + 1
                                  in (Inr \<lparr>startLine = first, endLine = first + length (split_sep LF new0) - 1,
                                       oldLines = length (split_sep LF old0), newLines = length (split_sep LF new0)\<rparr>, st')))))))"

subsection \<open>Several edits\<close>

definition MAX_EDITS_PER_FILE :: nat where
  "MAX_EDITS_PER_FILE = 5"

record edit_result =
  tool_output :: document
  edits_done :: nat
  result_state :: "l4_file_state option"

record edit_progress =
  ep_notes :: "document list"
  ep_first :: "nat option"
  ep_last :: "nat option"
  ep_checked :: "(checked_diagnostics \<times> bool) option"
  ep_done :: nat
  ep_failed :: bool
  ep_stop :: bool

definition known_state :: "(checked_diagnostics \<times> bool) option \<Rightarrow> l4_file_state option" where
  "known_state now = (case now of None \<Rightarrow> None | Some (ch, _) \<Rightarrow> if cd_pending ch then None else Some (l4FileState ch))"

definition quoted :: "string \<Rightarrow> string" where
  "quoted s = [CHR 0x22] @ s @ [CHR 0x22]"

text \<open>Why the run stops after an edit, if it does.\<close>

definition stop_reason :: "l4_file_state option option \<Rightarrow> l4_file_state option \<Rightarrow> string option" where
  "stop_reason before after =
     (case after of
        None \<Rightarrow> Some ''the check did not finish, so the next edit would be blind''
      | Some now \<Rightarrow>
          (case before of
             Some (Some was) \<Rightarrow>
               if isWorse was now
               then Some (''the file went from '' @ quoted (describeFileState was) @ '' to '' @ quoted (describeFileState now))
               else None
           | _ \<Rightarrow> None))"

definition min_line :: "nat option \<Rightarrow> nat \<Rightarrow> nat option" where
  "min_line old n = Some (case old of None \<Rightarrow> n | Some m \<Rightarrow> min m n)"

definition max_line :: "nat option \<Rightarrow> nat \<Rightarrow> nat option" where
  "max_line old n = Some (case old of None \<Rightarrow> n | Some m \<Rightarrow> max m n)"

definition note_edit :: "nat \<Rightarrow> applied_edit \<Rightarrow> string option \<Rightarrow> (checked_diagnostics \<times> bool) option \<Rightarrow> edit_progress \<Rightarrow> edit_progress" where
  "note_edit i edit stop now p =
     p\<lparr>ep_notes := ep_notes p @ [words (''Edit '' @ show_nat (i + 1) @ '': lines '' @ show_nat (startLine edit) @ ''-'' @
           show_nat (endLine edit) @ (case stop of None \<Rightarrow> [] | Some s \<Rightarrow> ''. Stopped here: '' @ s))],
       ep_first := min_line (ep_first p) (startLine edit), ep_last := max_line (ep_last p) (endLine edit),
       ep_checked := now, ep_done := ep_done p + 1, ep_stop := stop \<noteq> None\<rparr>"

definition count_edit :: "resolved_path \<Rightarrow> l4_file_state option option \<Rightarrow> string option \<Rightarrow> edit_sequence \<Rightarrow> edit_sequence" where
  "count_edit r after stop run =
     run\<lparr>applied := applied run + 1, seq_state := after,
       stopped := (case stop of None \<Rightarrow> stopped run
         | Some s \<Rightarrow> Some (''An earlier edit to '' @ r_relative r @ '' in this response '' @ s @ ''. Fix that first.''))\<rparr>"

text \<open>The loop over the batch, from the edit with index \<open>i\<close>; the left is a throw.\<close>

fun edit_loop :: "host \<Rightarrow> bool \<Rightarrow> resolved_path \<Rightarrow> edit_item list \<Rightarrow> nat \<Rightarrow> edit_progress \<Rightarrow> edit_sequence \<Rightarrow> fs_state \<Rightarrow>
     (document + edit_progress) \<times> edit_sequence \<times> fs_state" where
  "edit_loop h q r [] i p run st = (Inr p, run, st)"
| "edit_loop h q r (item # rest) i p run st =
     (case applyOneEdit h q r item st of
        (Inl message, st1) \<Rightarrow>
          (let run1 = run\<lparr>stopped := Some (''An earlier edit to '' @ r_relative r @ '' in this response failed. Look at the file again first.'')\<rparr>
           in if ep_done p = 0 then (Inl message, run1, st1)
              else (Inr (p\<lparr>ep_failed := True, ep_stop := True,
                      ep_notes := ep_notes p @ [words (''Edit '' @ show_nat (i + 1) @ '': not applied. '') @ message]\<rparr>), run1, st1))
      | (Inr edit, st1) \<Rightarrow>
          (let isL4 = isL4Path (r_fsPath r);
               (now, st2) = (if isL4 then fileState h st1 else (ep_checked p, st1));
               after = (if isL4 then Some (known_state now) else seq_state run);
               stop = (if isL4 then stop_reason (seq_state run) (known_state now) else None);
               p1 = note_edit i edit stop now p; run1 = count_edit r after stop run
           in if stop \<noteq> None then (Inr p1, run1, st2) else edit_loop h q r rest (i + 1) p1 run1 st2))"

definition new_progress :: edit_progress where
  "new_progress = \<lparr>ep_notes = [], ep_first = None, ep_last = None, ep_checked = None, ep_done = 0, ep_failed = False, ep_stop = False\<rparr>"

text \<open>What is said of the edits that were not tried.\<close>

definition left_over :: "edit_progress \<Rightarrow> nat \<Rightarrow> document list" where
  "left_over p items =
     (let rest = items - ep_done p - (if ep_failed p then 1 else 0); start = items - rest + 1;
          which = (if rest = 1 then ''Edit '' @ show_nat start else ''Edits '' @ show_nat start @ ''-'' @ show_nat items)
      in if rest = 0 then []
         else [words (which @ (if ep_stop p then '': not applied. Send what's still needed once the file is fixed.''
           else '': not applied. A file takes at most '' @ show_nat MAX_EDITS_PER_FILE @ '' edits in one response.''))])"

definition js_number :: "nat option \<Rightarrow> string" where
  "js_number n = (case n of None \<Rightarrow> ''undefined'' | Some k \<Rightarrow> show_nat k)"

text \<open>The reply, from where the loop ended.\<close>

definition finish_sequence :: "host \<Rightarrow> resolved_path \<Rightarrow> nat \<Rightarrow> (document + edit_progress) \<times> edit_sequence \<times> fs_state \<Rightarrow>
     (document + edit_result) \<times> edit_sequence \<times> fs_state" where
  "finish_sequence h r items ended =
     (case ended of
        (Inl message, run, st) \<Rightarrow> (Inl message, run, st)
      | (Inr p, run, st) \<Rightarrow>
          (let head_line = words (''['' @ r_relative r @ '' '' @ js_number (ep_first p) @ ''-'' @ js_number (ep_last p) @
                 ''] (Applied '' @ show_nat (ep_done p) @ '' of '' @ show_nat items @ '' edits)'');
               ((t, s), st') = reportL4File h r (head_line @ LF @ join LF (ep_notes p @ left_over p items)) (ep_checked p) st
           in (Inr \<lparr>tool_output = t, edits_done = ep_done p, result_state = s\<rparr>, run, st')))"

definition applySequence :: "host \<Rightarrow> bool \<Rightarrow> resolved_path \<Rightarrow> edit_item list \<Rightarrow> edit_sequence \<Rightarrow> fs_state \<Rightarrow>
     (document + edit_result) \<times> edit_sequence \<times> fs_state" where
  "applySequence h q r items run st =
     (case stopped run of
        Some why \<Rightarrow> (Inl (tool (''not applied. '' @ why)), run, st)
      | None \<Rightarrow>
          (if MAX_EDITS_PER_FILE \<le> applied run then
             (Inl (tool (''not applied. A file takes at most '' @ show_nat MAX_EDITS_PER_FILE @
               '' edits in one response; send the rest once you've seen the result.'')), run, st)
           else
             (let (run0, st0) = (if isL4Path (r_fsPath r) \<and> seq_state run = None
                    then (let (before, st') = fileState h st in (run\<lparr>seq_state := Some (known_state before)\<rparr>, st')) else (run, st));
                  batch = take (MAX_EDITS_PER_FILE - applied run) items
              in finish_sequence h r (length items) (edit_loop h q r batch 0 new_progress run0 st0))))"

datatype edits_arg = NoEdits | BadEdits | Edits "edit_item list"

definition editItems :: "edits_arg \<Rightarrow> edit_item \<Rightarrow> document + edit_item list" where
  "editItems edits single =
     (case edits of
        NoEdits \<Rightarrow> Inr [single]
      | BadEdits \<Rightarrow> Inl (words ''fs__edit_file: 'edits' must be a non-empty list of { old, new } changes.'')
      | Edits items \<Rightarrow>
          (if items = [] then Inl (words ''fs__edit_file: 'edits' must be a non-empty list of { old, new } changes.'') else Inr items))"

definition fsEditFileDetailed ::
    "host \<Rightarrow> (string \<Rightarrow> document + resolved_path) \<Rightarrow> bool \<Rightarrow> string \<Rightarrow> edits_arg \<Rightarrow> edit_item \<Rightarrow> edit_sequence option \<Rightarrow> fs_state \<Rightarrow>
     (document + edit_result) \<times> edit_sequence option \<times> fs_state" where
  "fsEditFileDetailed h resolve q path edits single run st =
     (case resolve path of
        Inl msg \<Rightarrow> (Inl msg, run, st)
      | Inr r \<Rightarrow>
          (case editItems edits single of
             Inl msg \<Rightarrow> (Inl msg, run, st)
           | Inr items \<Rightarrow>
               (if 1 < length items \<or> run \<noteq> None then
                  (case applySequence h q r items (case run of None \<Rightarrow> \<lparr>applied = 0, seq_state = None, stopped = None\<rparr> | Some s \<Rightarrow> s) st of
                     (res, run1, st1) \<Rightarrow> (res, (case run of None \<Rightarrow> None | Some _ \<Rightarrow> Some run1), st1))
                else
                  (case applyOneEdit h q r (hd items) st of
                     (Inl msg, st1) \<Rightarrow> (Inl msg, run, st1)
                   | (Inr e, st1) \<Rightarrow>
                       (let head_line = words (''['' @ r_relative r @ '' '' @ show_nat (startLine e) @ ''-'' @ show_nat (endLine e) @
                              ''] (Edited '' @ show_nat (oldLines e) @ '' '') @ of_units [8594] @
                              words ('' '' @ show_nat (newLines e) @ '' lines)'');
                            ((t, s), st2) = reportL4File h r head_line None st1
                        in (Inr \<lparr>tool_output = t, edits_done = 1, result_state = s\<rparr>, run, st2))))))"


subsection \<open>What an edit is\<close>

text \<open>Where a snippet is replaced, the messages aside: at its first occurrence after the anchor, or at the only one counted.\<close>

definition snippet_at :: "edit_item \<Rightarrow> file_doc \<Rightarrow> document \<Rightarrow> nat option" where
  "snippet_at item d old =
     (case anchor_offset (eol_of d) (doc_text d) (anchor_line item) of
        None \<Rightarrow> None
      | Some offset \<Rightarrow>
          if anchor_line item = 0 \<and> count_from old (doc_text d) \<noteq> 1 then None
          else map_option (\<lambda>hit. offset + hit) (indexOf old (drop offset (doc_text d))))"

definition edited :: "edit_item \<Rightarrow> file_doc \<Rightarrow> file_doc option" where
  "edited item d =
     (case (old_text item, new_text item) of
        (Some old, Some new) \<Rightarrow>
          if old = [] then None
          else map_option (\<lambda>start. d\<lparr>doc_text := splice start (start + length (set_eol (eol_of d) old)) (set_eol (eol_of d) new) (doc_text d)\<rparr>)
                 (snippet_at item d (set_eol (eol_of d) old))
      | _ \<Rightarrow> None)"

fun edited_by :: "edit_item list \<Rightarrow> file_doc \<Rightarrow> file_doc option" where
  "edited_by [] d = Some d"
| "edited_by (item # items) d = (case edited item d of None \<Rightarrow> None | Some d' \<Rightarrow> edited_by items d')"

lemma eol_of_ne [simp]: "eol_of d \<noteq> []"
  by (simp add: eol_of_def CRLF_def LF_def)

lemma set_eol_ne: "eol \<noteq> [] \<Longrightarrow> t \<noteq> [] \<Longrightarrow> set_eol eol t \<noteq> []"
  by (cases t) auto

lemma count_from_pos: "needle \<noteq> [] \<Longrightarrow> indexOf needle t = None \<longleftrightarrow> count_from needle t = 0"
  by (simp add: count_from_0 indexOf_None)

lemma find_snippet_at:
  assumes "old \<noteq> []"
  shows "find_snippet q r item d old = Inr s \<longleftrightarrow> snippet_at item d old = Some s"
proof (cases "anchor_offset (eol_of d) (doc_text d) (anchor_line item)")
  case None
  then show ?thesis by (simp add: find_snippet_def snippet_at_def Let_def)
next
  case (Some offset)
  have "offset = 0" if "anchor_line item = 0" using Some that by (simp add: anchor_offset_def)
  then show ?thesis
    using Some count_from_pos [OF assms, of "drop offset (doc_text d)"]
    by (auto simp: find_snippet_def snippet_at_def Let_def split: option.splits)
qed

lemma applyEdit_effect:
  assumes "applyEdit h r a b new st = (res, st')"
  shows "res \<noteq> None \<Longrightarrow> entries st' = entries st"
    "res = None \<Longrightarrow> \<exists>d. entries st (r_fsPath r) = Some (File d) \<and>
       entries st' = (entries st)(r_fsPath r \<mapsto> File (d\<lparr>doc_text := splice a b new (doc_text d)\<rparr>))"
    "checks_asked st' = checks_asked st"
  using assms by (auto simp: applyEdit_def Let_def split: option.splits entry.splits)

lemma applyOneEdit_effect:
  assumes "applyOneEdit h q r item st = (res, st')"
  shows "\<And>msg. res = Inl msg \<Longrightarrow> entries st' = entries st"
    "\<And>e. res = Inr e \<Longrightarrow> \<exists>d d'. entries st (r_fsPath r) = Some (File d) \<and> edited item d = Some d' \<and>
       entries st' = (entries st)(r_fsPath r \<mapsto> File d')"
    "checks_asked st' = checks_asked st"
proof -
  have all: "(case res of Inl _ \<Rightarrow> entries st' = entries st
      | Inr e \<Rightarrow> \<exists>d d'. entries st (r_fsPath r) = Some (File d) \<and> edited item d = Some d' \<and>
          entries st' = (entries st)(r_fsPath r \<mapsto> File d')) \<and> checks_asked st' = checks_asked st"
  proof (cases "\<exists>old new d. old_text item = Some old \<and> old \<noteq> [] \<and> new_text item = Some new \<and> entries st (r_fsPath r) = Some (File d)")
    case False
    then have "(\<exists>msg. res = Inl msg) \<and> st' = st"
      using assms by (auto simp: applyOneEdit_def split: option.splits entry.splits if_splits)
    then show ?thesis by auto
  next
    case True
    then obtain old new d where item: "old_text item = Some old" "old \<noteq> []" "new_text item = Some new"
      "entries st (r_fsPath r) = Some (File d)" by blast
    let ?old = "set_eol (eol_of d) old" and ?new = "set_eol (eol_of d) new"
    note step = assms [unfolded applyOneEdit_def item option.case entry.case Let_def, simplified item(2), simplified]
    show ?thesis
    proof (cases "find_snippet q r item d ?old")
      case (Inl msg)
      then show ?thesis using step by auto
    next
      case (Inr start)
      have at: "snippet_at item d ?old = Some start"
        using Inr find_snippet_at [OF set_eol_ne [OF eol_of_ne item(2)]] by blast
      obtain refused st1 where ap: "applyEdit h r start (start + length ?old) ?new st = (refused, st1)" by fastforce
      note eff = applyEdit_effect [OF ap]
      show ?thesis
      proof (cases refused)
        case None
        then have "res = Inr e \<and> st' = st1" if "res = Inr e" for e using step Inr ap that by simp
        moreover have "\<exists>e. res = Inr e" using step Inr ap None by auto
        moreover have "edited item d = Some (d\<lparr>doc_text := splice start (start + length ?old) ?new (doc_text d)\<rparr>)"
          using item at by (simp add: edited_def)
        ultimately show ?thesis using eff(2) [OF None] eff(3) item(4) by auto
      next
        case (Some msg)
        then show ?thesis using step Inr ap eff(1,3) by auto
      qed
    qed
  qed
  then show "\<And>msg. res = Inl msg \<Longrightarrow> entries st' = entries st"
    "\<And>e. res = Inr e \<Longrightarrow> \<exists>d d'. entries st (r_fsPath r) = Some (File d) \<and> edited item d = Some d' \<and>
       entries st' = (entries st)(r_fsPath r \<mapsto> File d')"
    "checks_asked st' = checks_asked st"
    by auto
qed

lemma splice_at: "t = pre @ old @ post \<Longrightarrow> splice (length pre) (length pre + length old) new t = pre @ new @ post"
  by (simp add: splice_def)



subsection \<open>What a run of edits does\<close>

text \<open>The file after the first \<open>k\<close> edits of a list, and nothing else changed.\<close>

definition after_edits :: "resolved_path \<Rightarrow> edit_item list \<Rightarrow> nat \<Rightarrow> (string \<rightharpoonup> entry) \<Rightarrow> (string \<rightharpoonup> entry) \<Rightarrow> bool" where
  "after_edits r items k before after \<longleftrightarrow>
     (if k = 0 then after = before
      else \<exists>d d'. before (r_fsPath r) = Some (File d) \<and> edited_by (take k items) d = Some d' \<and>
        after = before(r_fsPath r \<mapsto> File d'))"

lemma after_edits_take: "take k xs = take k ys \<Longrightarrow> after_edits r xs k before after = after_edits r ys k before after"
  unfolding after_edits_def by simp

lemma after_edits_Suc:
  assumes "before (r_fsPath r) = Some (File d)" "edited item d = Some d1" "after_edits r items k (before(r_fsPath r \<mapsto> File d1)) after"
  shows "after_edits r (item # items) (Suc k) before after"
proof (cases "k = 0")
  case True
  then show ?thesis using assms by (simp add: after_edits_def)
next
  case False
  then obtain d' where "edited_by (take k items) d1 = Some d'" "after = (before(r_fsPath r \<mapsto> File d1))(r_fsPath r \<mapsto> File d')"
    using assms(3) by (auto simp: after_edits_def)
  then show ?thesis using assms(1,2) by (simp add: after_edits_def)
qed

text \<open>A state that is known and not worse than the one before, if that was known.\<close>

definition held :: "l4_file_state option option \<Rightarrow> l4_file_state option option \<Rightarrow> bool" where
  "held before after \<longleftrightarrow> (\<exists>now. after = Some (Some now) \<and> (\<forall>was. before = Some (Some was) \<longrightarrow> \<not> isWorse was now))"

lemma held_trans: "held a b \<Longrightarrow> held b c \<Longrightarrow> held a c"
  unfolding held_def using isWorse_cotrans by blast

lemma stop_reason_None: "stop_reason before after = None \<longleftrightarrow> held before (Some after)"
  by (auto simp: stop_reason_def held_def split: option.splits)

definition loop_effect :: "resolved_path \<Rightarrow> edit_item list \<Rightarrow> edit_progress \<Rightarrow> edit_sequence \<Rightarrow> fs_state \<Rightarrow>
    document + edit_progress \<Rightarrow> edit_sequence \<Rightarrow> fs_state \<Rightarrow> bool" where
  "loop_effect r items p run st res run' st' \<longleftrightarrow>
     (stopped run \<noteq> None \<longrightarrow> stopped run' \<noteq> None) \<and>
     (case res of
        Inl _ \<Rightarrow> ep_done p = 0 \<and> entries st' = entries st \<and> applied run' = applied run \<and> stopped run' \<noteq> None
      | Inr p' \<Rightarrow>
          (\<exists>k\<le>length items. ep_done p' = ep_done p + k \<and> applied run' = applied run + k \<and>
             after_edits r items k (entries st) (entries st') \<and> (k < length items \<longrightarrow> stopped run' \<noteq> None) \<and>
             (ep_done p = 0 \<and> items \<noteq> [] \<longrightarrow> 0 < k) \<and>
             (isL4Path (r_fsPath r) \<and> stopped run' = None \<longrightarrow>
                (if k = 0 then seq_state run' = seq_state run else held (seq_state run) (seq_state run')))))"

lemma edit_loop_effect:
  "edit_loop h q r items i p run st = (res, run', st') \<Longrightarrow> loop_effect r items p run st res run' st'"
proof (induction items arbitrary: i p run st)
  case Nil
  then show ?case by (auto simp: loop_effect_def after_edits_def)
next
  case (Cons item rest)
  obtain one st1 where one: "applyOneEdit h q r item st = (one, st1)" by fastforce
  note eff = applyOneEdit_effect [OF one]
  show ?case
  proof (cases one)
    case (Inl message)
    have "entries st1 = entries st" by (rule eff(1) [OF Inl])
    then show ?thesis
      using Cons.prems by (auto simp: one Inl Let_def loop_effect_def after_edits_def split: if_splits intro!: exI [of _ 0])
  next
    case (Inr edit)
    obtain d d1 where d: "entries st (r_fsPath r) = Some (File d)" "edited item d = Some d1"
      "entries st1 = (entries st)(r_fsPath r \<mapsto> File d1)" using eff(2) [OF Inr] by blast
    let ?l4 = "isL4Path (r_fsPath r)"
    obtain now st2 where now: "(if ?l4 then fileState h st1 else (ep_checked p, st1)) = (now, st2)" by fastforce
    have st2: "entries st2 = entries st1" using now by (auto simp: fileState_def split: if_splits)
    define after where "after = (if ?l4 then Some (known_state now) else seq_state run)"
    define stop where "stop = (if ?l4 then stop_reason (seq_state run) (known_state now) else None)"
    obtain p1 run1 where 1: "ep_done p1 = ep_done p + 1" "applied run1 = applied run + 1" "seq_state run1 = after"
      "stopped run1 \<noteq> None \<longleftrightarrow> stopped run \<noteq> None \<or> stop \<noteq> None"
      "(res, run', st') = (if stop \<noteq> None then (Inr p1, run1, st2) else edit_loop h q r rest (i + 1) p1 run1 st2)"
      using Cons.prems unfolding edit_loop.simps one prod.case Inr sum.case Let_def now stop_def [symmetric] after_def [symmetric]
      by (intro that [of "note_edit i edit stop now p" "count_edit r after stop run"])
        (auto simp: note_edit_def count_edit_def split: option.splits)
    have first: "after_edits r (item # rest) (Suc k) (entries st) e" if "after_edits r rest k (entries st2) e" for k e
      using after_edits_Suc [of "entries st" r d item d1 rest k e] d that by (simp add: st2)
    have l4: "held (seq_state run) after" if "?l4" "stop = None"
      using that by (simp add: stop_def after_def stop_reason_None)
    show ?thesis
    proof (cases "stop = None")
      case False
      then have r: "res = Inr p1" "run' = run1" "st' = st2" using 1(5) by simp_all
      have "after_edits r (item # rest) (Suc 0) (entries st) (entries st2)" by (rule first) (simp add: after_edits_def)
      then show ?thesis using 1(1-4) False unfolding r loop_effect_def by (auto intro!: exI [of _ "Suc 0"])
    next
      case True
      have loop: "loop_effect r rest p1 run1 st2 res run' st'" using Cons.IH 1(5) True by simp
      then obtain p' where p': "res = Inr p'" using 1(1) by (cases res) (auto simp: loop_effect_def)
      obtain k where k: "k \<le> length rest" "ep_done p' = ep_done p1 + k" "applied run' = applied run1 + k"
        "after_edits r rest k (entries st2) (entries st')" "k < length rest \<longrightarrow> stopped run' \<noteq> None"
        "?l4 \<and> stopped run' = None \<longrightarrow> (if k = 0 then seq_state run' = seq_state run1 else held (seq_state run1) (seq_state run'))"
        using loop unfolding loop_effect_def p' sum.case by blast
      have kept: "stopped run \<noteq> None \<longrightarrow> stopped run' \<noteq> None" using loop 1(4) unfolding loop_effect_def by blast
      have "held (seq_state run) (seq_state run')" if "?l4" "stopped run' = None"
        using k(6) l4 [OF that(1) True] that held_trans unfolding 1(3) by (auto split: if_splits)
      then show ?thesis
        unfolding loop_effect_def p' sum.case using kept k(1-3,5) first [OF k(4)] 1(1,2)
        by (intro conjI exI [of _ "Suc k"]) auto
    qed
  qed
qed


lemma computeEditDiff_entries: "computeEditDiff h r st = (t, st') \<Longrightarrow> entries st' = entries st"
  by (auto simp: computeEditDiff_def Let_def split: prod.splits)

lemma reportL4File_entries: "reportL4File h r body known st = (res, st') \<Longrightarrow> entries st' = entries st"
  by (auto simp: reportL4File_def fileState_def Let_def dest!: computeEditDiff_entries split: option.splits prod.splits if_splits)

text \<open>The state an edit is compared with: the file's before the first edit of the response, if none was read yet.\<close>

definition state_before :: "host \<Rightarrow> resolved_path \<Rightarrow> edit_sequence \<Rightarrow> fs_state \<Rightarrow> l4_file_state option option" where
  "state_before h r run st =
     (if isL4Path (r_fsPath r) \<and> seq_state run = None then Some (known_state (check_answer h (checks_asked st))) else seq_state run)"

lemma applySequence_effect:
  assumes "applySequence h q r items run st = (res, run', st')"
  obtains k where "k \<le> length items" "applied run' = applied run + k" "0 < k \<Longrightarrow> applied run' \<le> MAX_EDITS_PER_FILE"
    "after_edits r items k (entries st) (entries st')"
    "k < length items \<Longrightarrow> stopped run' \<noteq> None \<or> MAX_EDITS_PER_FILE \<le> applied run'"
    "stopped run \<noteq> None \<Longrightarrow> k = 0 \<and> run' = run \<and> st' = st"
    "isL4Path (r_fsPath r) \<Longrightarrow> stopped run' = None \<Longrightarrow> 0 < k \<Longrightarrow> held (state_before h r run st) (seq_state run')"
    "k = 0 \<Longrightarrow> stopped run' = None \<Longrightarrow> items = [] \<or> run' = run \<and> st' = st"
    "\<And>msg. res = Inl msg \<Longrightarrow> k = 0" "\<And>e. res = Inr e \<Longrightarrow> edits_done e = k"
proof (cases "stopped run \<noteq> None \<or> MAX_EDITS_PER_FILE \<le> applied run")
  case True
  then have "(\<exists>msg. res = Inl msg) \<and> run' = run \<and> st' = st"
    using assms by (auto simp: applySequence_def split: option.splits if_splits)
  then show thesis using that [of 0] True by (auto simp: after_edits_def)
next
  case False
  let ?path = "r_fsPath r"
  obtain run0 st0 where 0: "(if isL4Path ?path \<and> seq_state run = None
      then (let (before, st') = fileState h st in (run\<lparr>seq_state := Some (known_state before)\<rparr>, st')) else (run, st)) = (run0, st0)"
    by fastforce
  then have run0: "entries st0 = entries st" "applied run0 = applied run" "stopped run0 = None" "seq_state run0 = state_before h r run st"
    using False by (auto simp: fileState_def state_before_def split: if_splits)
  define batch where "batch = take (MAX_EDITS_PER_FILE - applied run) items"
  obtain one run1 st1 where loop: "edit_loop h q r batch 0 new_progress run0 st0 = (one, run1, st1)" by (metis prod_cases3)
  have step: "finish_sequence h r (length items) (one, run1, st1) = (res, run', st')"
    using assms False unfolding applySequence_def by (simp add: 0 batch_def [symmetric] loop)
  note eff = edit_loop_effect [OF loop, unfolded loop_effect_def run0]
  show thesis
  proof (cases one)
    case (Inl message)
    then have "entries st' = entries st" "applied run' = applied run" "stopped run' \<noteq> None" "res = Inl message"
      using eff step by (auto simp: finish_sequence_def)
    then show thesis using that [of 0] False by (auto simp: after_edits_def)
  next
    case (Inr p)
    obtain k where k: "k \<le> length batch" "ep_done p = k" "applied run1 = applied run + k"
      "after_edits r batch k (entries st) (entries st1)" "k < length batch \<longrightarrow> stopped run1 \<noteq> None" "batch \<noteq> [] \<longrightarrow> 0 < k"
      "isL4Path ?path \<and> stopped run1 = None \<longrightarrow> (if k = 0 then seq_state run1 = state_before h r run st else held (state_before h r run st) (seq_state run1))"
      using eff unfolding Inr sum.case by (auto simp: new_progress_def)
    have r: "run' = run1" "entries st' = entries st1" "\<exists>e. res = Inr e \<and> edits_done e = k"
      using step k(2) unfolding Inr by (auto simp: finish_sequence_def Let_def dest: reportL4File_entries split: prod.splits)
    have take: "take k batch = take k items" using k(1) by (simp add: batch_def)
    have "k \<le> length items" "k < length items \<Longrightarrow> stopped run1 \<noteq> None \<or> MAX_EDITS_PER_FILE \<le> applied run1"
      using k(1,3,5) by (auto simp: batch_def)
    moreover have "applied run1 \<le> MAX_EDITS_PER_FILE" if "0 < k" using k(1,3) False by (auto simp: batch_def)
    moreover have "after_edits r items k (entries st) (entries st1)" using k(4) after_edits_take [OF take] by simp
    moreover have "items = []" if "k = 0" using k(6) that False by (auto simp: batch_def)
    ultimately show thesis using that [of k] k(3,7) r False by auto
  qed
qed

subsection \<open>The edits of one response\<close>

text \<open>Successive calls for one file, which share what the guard keeps for the response.\<close>

fun edit_calls :: "host \<Rightarrow> bool \<Rightarrow> resolved_path \<Rightarrow> edit_item list list \<Rightarrow> edit_sequence \<Rightarrow> fs_state \<Rightarrow> edit_sequence \<times> fs_state" where
  "edit_calls h q r [] run st = (run, st)"
| "edit_calls h q r (items # calls) run st =
     (case applySequence h q r items run st of (_, run', st') \<Rightarrow> edit_calls h q r calls run' st')"

lemma after_edits_append:
  assumes "after_edits r items (length items) before mid" "after_edits r later n mid after"
  shows "after_edits r (items @ later) (length items + n) before after"
proof (cases "n = 0 \<or> items = []")
  case True
  then show ?thesis using assms by (cases "items = []") (auto simp: after_edits_def)
next
  case False
  have comp: "edited_by (xs @ ys) d = (case edited_by xs d of None \<Rightarrow> None | Some d' \<Rightarrow> edited_by ys d')" for xs ys d
    by (induction xs arbitrary: d) (auto split: option.split)
  show ?thesis using False assms by (auto simp: after_edits_def comp)
qed

text \<open>A response's edits of a file that has been stopped, or has used up its edits, do nothing more.\<close>

lemma edit_calls_closed:
  assumes "stopped run \<noteq> None \<or> MAX_EDITS_PER_FILE \<le> applied run"
  shows "edit_calls h q r calls run st = (run, st)"
proof (induction calls)
  case (Cons items calls)
  have "\<exists>msg. applySequence h q r items run st = (Inl msg, run, st)"
    using assms by (auto simp: applySequence_def split: option.split)
  then show ?case using Cons by auto
qed simp


definition response_effect :: "host \<Rightarrow> resolved_path \<Rightarrow> edit_item list \<Rightarrow> edit_sequence \<Rightarrow> fs_state \<Rightarrow> edit_sequence \<Rightarrow> fs_state \<Rightarrow> bool" where
  "response_effect h r items run st run' st' \<longleftrightarrow>
     (\<exists>k\<le>length items. applied run' = applied run + k \<and> (0 < k \<longrightarrow> applied run' \<le> MAX_EDITS_PER_FILE) \<and>
        after_edits r items k (entries st) (entries st') \<and>
        (k < length items \<longrightarrow> stopped run' \<noteq> None \<or> MAX_EDITS_PER_FILE \<le> applied run') \<and>
        (isL4Path (r_fsPath r) \<and> stopped run' = None \<and> 0 < k \<longrightarrow> held (state_before h r run st) (seq_state run')))"

lemma edit_calls_effect:
  "edit_calls h q r calls run st = (run', st') \<Longrightarrow> [] \<notin> set calls \<Longrightarrow> response_effect h r (concat calls) run st run' st'"
proof (induction calls arbitrary: run st)
  case Nil
  then show ?case by (simp add: response_effect_def after_edits_def)
next
  case (Cons items calls)
  obtain res run1 st1 where one: "applySequence h q r items run st = (res, run1, st1)" by (metis prod_cases3)
  obtain k where k: "k \<le> length items" "applied run1 = applied run + k" "0 < k \<Longrightarrow> applied run1 \<le> MAX_EDITS_PER_FILE"
    "after_edits r items k (entries st) (entries st1)"
    "k < length items \<Longrightarrow> stopped run1 \<noteq> None \<or> MAX_EDITS_PER_FILE \<le> applied run1"
    "isL4Path (r_fsPath r) \<Longrightarrow> stopped run1 = None \<Longrightarrow> 0 < k \<Longrightarrow> held (state_before h r run st) (seq_state run1)"
    "k = 0 \<Longrightarrow> stopped run1 = None \<Longrightarrow> items = [] \<or> run1 = run \<and> st1 = st"
    using applySequence_effect [OF one] by metis
  have later: "edit_calls h q r calls run1 st1 = (run', st')" using Cons.prems one by simp
  show ?case
  proof (cases "stopped run1 \<noteq> None \<or> MAX_EDITS_PER_FILE \<le> applied run1")
    case True
    then have same: "run' = run1" "st' = st1" using later edit_calls_closed by simp_all
    have "after_edits r (concat (items # calls)) k (entries st) (entries st1)"
      using k(1,4) after_edits_take [of k items "concat (items # calls)"] by simp
    then show ?thesis
      unfolding response_effect_def same using k(1-3,6) True by (intro exI [of _ k]) auto
  next
    case False
    then have all: "k = length items" using k(1,5) by fastforce
    have not_in: "[] \<notin> set calls" using Cons.prems(2) by simp
    obtain n where n: "n \<le> length (concat calls)" "applied run' = applied run1 + n" "0 < n \<longrightarrow> applied run' \<le> MAX_EDITS_PER_FILE"
      "after_edits r (concat calls) n (entries st1) (entries st')"
      "n < length (concat calls) \<longrightarrow> stopped run' \<noteq> None \<or> MAX_EDITS_PER_FILE \<le> applied run'"
      "isL4Path (r_fsPath r) \<and> stopped run' = None \<and> 0 < n \<longrightarrow> held (state_before h r run1 st1) (seq_state run')"
      using Cons.IH [OF later not_in] unfolding response_effect_def by blast
    have pos: "0 < k" using Cons.prems(2) all by auto
    have "after_edits r (concat (items # calls)) (k + n) (entries st) (entries st')"
      using after_edits_append [OF k(4) [unfolded all] n(4)] by (simp add: all)
    moreover have "held (state_before h r run st) (seq_state run')" if "isL4Path (r_fsPath r)" "stopped run' = None"
    proof -
      have one: "held (state_before h r run st) (seq_state run1)" using k(6) that(1) False pos by blast
      then have "state_before h r run1 st1 = seq_state run1" by (auto simp: held_def state_before_def)
      with one show ?thesis
      proof (cases "n = 0")
        case True
        then have "concat calls = []" using n(2,5) that(2) False by auto
        then have "calls = []" using Cons.prems(2) by (cases calls) auto
        then show ?thesis using one later by simp
      next
        case False
        then show ?thesis using n(6) that held_trans [OF one] \<open>state_before h r run1 st1 = seq_state run1\<close> by simp
      qed
    qed
    ultimately show ?thesis
      unfolding response_effect_def using n(1-3,5) k(2,3) all pos by (intro exI [of _ "k + n"]) auto
  qed
qed

subsection \<open>Properties\<close>


text \<open>C23: over all the calls of one response for a file, at most five edits are made; the file is the one it was with the
  first so many of the edits made in their order, and nothing else changed; edits that were held back, though fewer than
  five were made, were held back because the run was stopped; and a run on an \<^verbatim>\<open>.l4\<close> file that was not stopped leaves a
  file that is known to be no worse than before the response.\<close>

theorem response_edits_held:
  assumes "edit_calls h q r calls \<lparr>applied = 0, seq_state = None, stopped = None\<rparr> st = (run, st')" "[] \<notin> set calls"
  shows "applied run \<le> min MAX_EDITS_PER_FILE (length (concat calls)) \<and>
     after_edits r (concat calls) (applied run) (entries st) (entries st') \<and>
     (applied run < min MAX_EDITS_PER_FILE (length (concat calls)) \<longrightarrow> stopped run \<noteq> None) \<and>
     (isL4Path (r_fsPath r) \<and> stopped run = None \<and> 0 < applied run \<longrightarrow>
        held (Some (known_state (check_answer h (checks_asked st)))) (seq_state run))"
proof -
  obtain k where k: "k \<le> length (concat calls)" "applied run = k" "0 < k \<longrightarrow> k \<le> MAX_EDITS_PER_FILE"
    "after_edits r (concat calls) k (entries st) (entries st')"
    "k < length (concat calls) \<longrightarrow> stopped run \<noteq> None \<or> MAX_EDITS_PER_FILE \<le> k"
    "isL4Path (r_fsPath r) \<and> stopped run = None \<and> 0 < k \<longrightarrow>
       held (Some (known_state (check_answer h (checks_asked st)))) (seq_state run)"
    using edit_calls_effect [OF assms] unfolding response_effect_def by (auto simp: state_before_def)
  show ?thesis unfolding k(2) using k(1,3-6) by (cases "k = 0") auto
qed

definition quiet_host :: host where
  "quiet_host = \<lparr>check_answer = (\<lambda>_. Some (\<lparr>diagnostics = [], cd_pending = False\<rparr>, True)), directive_answer = (\<lambda>_. None),
     apply_answer = (\<lambda>_. None), create_answer = (\<lambda>_. CreateOk), delete_answer = (\<lambda>_. Deleted), read_refusal = ''EISDIR'',
     has_crlf = (\<lambda>_. False), same_file = (\<lambda>_ _. False)\<rparr>"

definition one_file :: "string \<Rightarrow> document \<Rightarrow> fs_state" where
  "one_file p t = \<lparr>entries = [p \<mapsto> File \<lparr>doc_text = t, crlf = False\<rparr>], checks_asked = 0, directives_asked = 0, applies_asked = 0,
     creates_asked = 0, deletes_asked = 0, edit_snapshots = []\<rparr>"

theorem response_edits_held_witness:
  "\<exists>run st'. edit_calls quiet_host True \<lparr>r_relative = ''a.l4'', r_uri = ''file:///a.l4'', r_fsPath = ''/a.l4''\<rparr>
       [[\<lparr>old_text = Some (words ''b''), new_text = Some (words ''xy''), start_line = None\<rparr>]]
       \<lparr>applied = 0, seq_state = None, stopped = None\<rparr> (one_file ''/a.l4'' (words ''abc'')) = (run, st') \<and>
     applied run = 1 \<and> entries st' ''/a.l4'' = Some (File \<lparr>doc_text = words ''axyc'', crlf = False\<rparr>) \<and>
     held (Some (known_state (check_answer quiet_host 0))) (seq_state run)"
proof -
  let ?r = "\<lparr>r_relative = ''a.l4'', r_uri = ''file:///a.l4'', r_fsPath = ''/a.l4''\<rparr>"
  let ?item = "\<lparr>old_text = Some (words ''b''), new_text = Some (words ''xy''), start_line = None\<rparr>"
  obtain run st' where e: "edit_calls quiet_host True ?r [[?item]] \<lparr>applied = 0, seq_state = None, stopped = None\<rparr>
      (one_file ''/a.l4'' (words ''abc'')) = (run, st')" by fastforce
  have "applied (fst (edit_calls quiet_host True ?r [[?item]] \<lparr>applied = 0, seq_state = None, stopped = None\<rparr>
      (one_file ''/a.l4'' (words ''abc'')))) = 1" by code_simp
  moreover have "stopped (fst (edit_calls quiet_host True ?r [[?item]] \<lparr>applied = 0, seq_state = None, stopped = None\<rparr>
      (one_file ''/a.l4'' (words ''abc'')))) = None" by code_simp
  moreover have "entries (snd (edit_calls quiet_host True ?r [[?item]] \<lparr>applied = 0, seq_state = None, stopped = None\<rparr>
      (one_file ''/a.l4'' (words ''abc'')))) ''/a.l4'' = Some (File \<lparr>doc_text = words ''axyc'', crlf = False\<rparr>)" by code_simp
  moreover have "isL4Path (r_fsPath ?r)" by code_simp
  ultimately show ?thesis using response_edits_held [OF e] unfolding e by (simp add: one_file_def)
qed

text \<open>A snippet that overlaps itself is counted once, though it occurs twice: the edit goes through.\<close>

lemma overlap_counts_once:
  "let d = \<lparr>doc_text = words ''aaa'', crlf = False\<rparr>
   in find_snippet q r \<lparr>old_text = Some (words ''aa''), new_text = Some [], start_line = None\<rparr> d (words ''aa'') = Inr 0 \<and>
      occurs_at (words ''aa'') (doc_text d) 0 \<and> occurs_at (words ''aa'') (doc_text d) 1"
proof -
  have "count_from (words ''aa'') (words ''aaa'') = 1"
    by (subst count_from.simps, simp add: words_def starts_with_def, subst count_from.simps, simp add: starts_with_def)
  moreover have "indexOf (words ''aa'') (words ''aaa'') = Some 0" by (simp add: words_def starts_with_def)
  ultimately have "snippet_at \<lparr>old_text = Some (words ''aa''), new_text = Some [], start_line = None\<rparr>
      \<lparr>doc_text = words ''aaa'', crlf = False\<rparr> (words ''aa'') = Some 0"
    by (simp add: snippet_at_def anchor_offset_def anchor_line_def)
  then show ?thesis by (simp add: find_snippet_at words_def occurs_at_def starts_with_def)
qed

end
