(* ===== verification/FsFiles.thy ===== *)
theory FsFiles
  imports FsEdit
begin

text \<open>
  Creating, copying and deleting a file: \<^verbatim>\<open>fs__create_file\<close>, \<^verbatim>\<open>fs__copy_file\<close> and \<^verbatim>\<open>fs__delete_file\<close> of
  \<^verbatim>\<open>ts-shared/legalese-agent/src/tools/fs.ts\<close>, on the workspace of \<open>FsEdit\<close>. A path is absolute and normalised, with
  \<^verbatim>\<open>/\<close> between its parts, as \<^verbatim>\<open>resolvePath\<close> gives it on a POSIX host.
\<close>

subsection \<open>Paths\<close>

definition basename :: "string \<Rightarrow> string" where
  "basename p = rev (takeWhile (\<lambda>c. c \<noteq> CHR ''/'') (rev p))"

text \<open>What comes before the last part, with its slash.\<close>

definition folder_part :: "string \<Rightarrow> string" where
  "folder_part p = rev (dropWhile (\<lambda>c. c \<noteq> CHR ''/'') (rev p))"

text \<open>A dot that begins the name does not begin an extension, nor does the last of \<^verbatim>\<open>..\<close>.\<close>

definition extname :: "string \<Rightarrow> string" where
  "extname p =
     (let b = basename p; tail = rev (takeWhile (\<lambda>c. c \<noteq> CHR ''.'') (rev b))
      in if b = ''..'' \<or> length b \<le> length tail + 1 then '''' else CHR ''.'' # tail)"

definition isHtmlPath :: "string \<Rightarrow> bool" where
  "isHtmlPath p = (let ext = toLowerCase (extname p) in ext = ''.html'' \<or> ext = ''.htm'')"

definition numberedPath :: "string \<Rightarrow> nat \<Rightarrow> string" where
  "numberedPath p n =
     (let ext = extname p; b = basename p; stem = take (length b - length ext) b
      in folder_part p @ stem @ ''-'' @ show_nat n @ ext)"

lemma path_parts: "folder_part p @ basename p = p"
  unfolding folder_part_def basename_def
  by (metis rev_append rev_rev_ident takeWhile_dropWhile_id)

lemma extname_end:
  shows "\<exists>stem. basename p = stem @ extname p" and "basename p \<noteq> [] \<Longrightarrow> extname p \<noteq> basename p"
proof -
  let ?b = "basename p" and ?tail = "rev (takeWhile (\<lambda>c. c \<noteq> CHR ''.'') (rev (basename p)))"
  have b: "?b = rev (dropWhile (\<lambda>c. c \<noteq> CHR ''.'') (rev ?b)) @ ?tail"
    by (metis rev_append rev_rev_ident takeWhile_dropWhile_id)
  show "\<exists>stem. ?b = stem @ extname p"
  proof (cases "?b = ''..'' \<or> length ?b \<le> length ?tail + 1")
    case True
    then show ?thesis by (simp add: extname_def Let_def)
  next
    case False
    then have "dropWhile (\<lambda>c. c \<noteq> CHR ''.'') (rev ?b) \<noteq> []" using b by (metis append_Nil le_add1 rev.simps(1))
    then obtain c cs where d: "dropWhile (\<lambda>c. c \<noteq> CHR ''.'') (rev ?b) = c # cs" by (meson neq_Nil_conv)
    then have "c = CHR ''.''" using hd_dropWhile [of "\<lambda>c. c \<noteq> CHR ''.''" "rev ?b"] by simp
    then have "?b = rev cs @ CHR ''.'' # ?tail" using b d by simp
    then show ?thesis using False by (auto simp: extname_def Let_def)
  qed
  show "extname p \<noteq> ?b" if "?b \<noteq> []"
    using that by (auto simp: extname_def Let_def split: if_splits dest: arg_cong [where f = length])
qed

lemma numberedPath_parts:
  assumes "basename p = stem @ extname p"
  shows "numberedPath p n = folder_part p @ stem @ ''-'' @ show_nat n @ extname p"
  unfolding numberedPath_def Let_def by (simp add: assms)

subsection \<open>Creating a file\<close>

definition FS_CREATE_HTML_SEED :: document where
  "FS_CREATE_HTML_SEED =
     join LF (map words
       [''<!DOCTYPE html>'',
        ''<html lang='' @ quoted ''en'' @ ''>'',
        ''  <head>'',
        ''    <meta charset='' @ quoted ''utf-8'' @ '' />'',
        ''    <meta name='' @ quoted ''viewport'' @ '' content='' @ quoted ''width=device-width, initial-scale=1'' @ '' />'',
        ''    <title>New document</title>'',
        ''    <style>'',
        ''      body {'',
        ''        background-color: white;'',
        ''        font-family: serif;'',
        ''        font-size: 1rem;'',
        ''        color: black;'',
        ''        margin: 2rem;'',
        ''      }'',
        ''    </style>'',
        ''  </head>'',
        ''  <body>New document in progress ...</body>'',
        ''</html>'',
        ''''])"

definition MAX_NAME_SUFFIX :: nat where
  "MAX_NAME_SUFFIX = 20"

datatype content_arg = NoContent | BadContent | Content document

record create_result =
  cr_output :: document
  cr_relative :: string
  cr_uri :: string
  cr_state :: "l4_file_state option"

definition hasContent :: "entry \<Rightarrow> document \<Rightarrow> bool" where
  "hasContent e content = (case e of File d \<Rightarrow> to_lf (doc_text d) = to_lf content | Folder \<Rightarrow> False)"

definition reported :: "host \<Rightarrow> resolved_path \<Rightarrow> document \<Rightarrow> fs_state \<Rightarrow> (document + create_result) \<times> fs_state" where
  "reported h target body st =
     (case reportL4File h target body None st of
        ((t, s), st') \<Rightarrow> (Inr \<lparr>cr_output = t, cr_relative = r_relative target, cr_uri = r_uri target, cr_state = s\<rparr>, st'))"

definition created_body :: "resolved_path \<Rightarrow> resolved_path \<Rightarrow> nat \<Rightarrow> document \<Rightarrow> document" where
  "created_body r target n content =
     words (''Created '' @ r_relative target @ '' ('' @ show_nat (length (split_sep LF content)) @ '' lines)'' @
       (if n = 0 then '''' else ''. '' @ r_relative r @
          '' already existed and was not changed, and nothing refers to the new file yet. If this was meant to replace it, call fs__copy_file with from '' @
          quoted (r_relative target) @ '', to '' @ quoted (r_relative r) @
          '', overwrite and deleteSource instead of writing it again.''))"

text \<open>The names that are left to try; 0 stands for the name that was asked for.\<close>

fun create_at :: "host \<Rightarrow> (string \<Rightarrow> document + resolved_path) \<Rightarrow> resolved_path \<Rightarrow> document \<Rightarrow> nat list \<Rightarrow> fs_state \<Rightarrow>
    (document + create_result) \<times> fs_state" where
  "create_at h resolve r content [] st =
     (Inl (words (''fs__create_file: '' @ r_relative r @ '' and its numbered copies up to -'' @ show_nat MAX_NAME_SUFFIX @
        '' all exist. Delete the ones you no longer need, or pick another name.'')), st)"
| "create_at h resolve r content (n # ns) st =
     (case (if n = 0 then Inr r else resolve (numberedPath (r_fsPath r) n)) of
        Inl message \<Rightarrow> (Inl message, st)
      | Inr target \<Rightarrow>
          (case entries st (r_fsPath target) of
             Some taken \<Rightarrow>
               if hasContent taken content
               then (Inr \<lparr>cr_output = words (''No change: '' @ r_relative target @ '' already has this exact content.''),
                       cr_relative = r_relative target, cr_uri = r_uri target, cr_state = None\<rparr>, st)
               else create_at h resolve r content ns st
           | None \<Rightarrow>
               (case createFile h target content st of
                  (Some message, st1) \<Rightarrow>
                    (if entries st1 (r_fsPath target) \<noteq> None then create_at h resolve r content ns st1
                     else (Inl (words message), st1))
                | (None, st1) \<Rightarrow> reported h target (created_body r target n content) st1)))"

definition create_seeded :: "host \<Rightarrow> resolved_path \<Rightarrow> fs_state \<Rightarrow> (document + create_result) \<times> fs_state" where
  "create_seeded h r st =
     (if entries st (r_fsPath r) \<noteq> None then (Inl (words (''File already exists: '' @ r_relative r)), st)
      else
        (let isHtml = isHtmlPath (r_fsPath r); seed = (if isHtml then FS_CREATE_HTML_SEED else FS_CREATE_FILE_SEED)
         in case createFile h r seed st of
              (Some message, st1) \<Rightarrow> (Inl (words message), st1)
            | (None, st1) \<Rightarrow>
                (let anchor = (if isHtml then LF @ words ''```html'' @ LF @ FS_CREATE_HTML_SEED @ LF @ words ''```''
                       else words (quoted seed_line))
                 in (Inr \<lparr>cr_output = words (''Created '' @ r_relative r @ '' - seeded with '') @ anchor,
                      cr_relative = r_relative r, cr_uri = r_uri r, cr_state = None\<rparr>, st1))))"

definition fsCreateFileDetailed :: "host \<Rightarrow> (string \<Rightarrow> document + resolved_path) \<Rightarrow> string \<Rightarrow> content_arg \<Rightarrow> fs_state \<Rightarrow>
    (document + create_result) \<times> fs_state" where
  "fsCreateFileDetailed h resolve path content st =
     (case resolve path of
        Inl message \<Rightarrow> (Inl message, st)
      | Inr r \<Rightarrow>
          (case content of
             NoContent \<Rightarrow> create_seeded h r st
           | BadContent \<Rightarrow> (Inl (words ''fs__create_file: 'content' must be a string.''), st)
           | Content t \<Rightarrow>
               (if 0 \<in> set t then (Inl (words ''fs__create_file: 'content' must be text.''), st)
                else create_at h resolve r t [0..<MAX_NAME_SUFFIX + 1] st)))"

subsection \<open>Copying and deleting\<close>

definition fsDeleteFile :: "host \<Rightarrow> (string \<Rightarrow> document + resolved_path) \<Rightarrow> string \<Rightarrow> fs_state \<Rightarrow> (document + document) \<times> fs_state" where
  "fsDeleteFile h resolve path st =
     (case resolve path of
        Inl message \<Rightarrow> (Inl message, st)
      | Inr r \<Rightarrow>
          (case deleteFile h r st of
             (Inl message, st1) \<Rightarrow> (Inl (words message), st1)
           | (Inr trashed, st1) \<Rightarrow>
               (Inr (words (if trashed then ''Moved '' @ r_relative r @ '' to trash'' else ''Deleted '' @ r_relative r)), st1)))"

text \<open>What is refused before anything is written: the left is a throw, the right the text to copy.\<close>

definition copy_checks :: "host \<Rightarrow> resolved_path \<Rightarrow> resolved_path \<Rightarrow> bool \<Rightarrow> fs_state \<Rightarrow> document + document" where
  "copy_checks h source target overwrite st =
     (if r_fsPath source = r_fsPath target then Inl (words (r_relative source @ '' is both the source and the target.''))
      else case entries st (r_fsPath source) of
        None \<Rightarrow> Inl (words (''File not found: '' @ r_relative source))
      | Some Folder \<Rightarrow> Inl (words (''Not a file: '' @ r_relative source))
      | Some (File d) \<Rightarrow>
          (if 0 \<in> set (doc_text d) then Inl (words (r_relative source @ '' is not a text file.''))
           else case entries st (r_fsPath target) of
             None \<Rightarrow> Inr (doc_text d)
           | Some Folder \<Rightarrow> Inl (words (''Not a file: '' @ r_relative target))
           | Some (File _) \<Rightarrow>
               (if same_file h (r_fsPath source) (r_fsPath target)
                then Inl (words (r_relative source @ '' and '' @ r_relative target @
                  '' are the same file on disk (the file system ignores case, or a link joins them); fs__copy_file can't copy or move a file onto itself.''))
                else if \<not> overwrite
                then Inl (words (''File already exists: '' @ r_relative target @ ''. Set overwrite to replace it.''))
                else Inr (doc_text d))))"

definition put_copy :: "host \<Rightarrow> resolved_path \<Rightarrow> document \<Rightarrow> fs_state \<Rightarrow> string option \<times> fs_state" where
  "put_copy h target t st =
     (case entries st (r_fsPath target) of
        Some (File current) \<Rightarrow> applyEdit h target 0 (length (doc_text current)) t st
      | _ \<Rightarrow> createFile h target t st)"

definition finish_copy :: "host \<Rightarrow> resolved_path \<Rightarrow> resolved_path \<Rightarrow> bool \<Rightarrow> document \<Rightarrow> fs_state \<Rightarrow>
    (document + create_result) \<times> fs_state" where
  "finish_copy h source target deleteSource body st =
     (if deleteSource then
        (case deleteFile h source st of
           (Inl message, st1) \<Rightarrow> (Inl (words message), st1)
         | (Inr trashed, st1) \<Rightarrow>
             reported h target (if trashed then body @ words (''; '' @ r_relative source @ '' is in the trash'') else body) st1)
      else reported h target body st)"

definition fsCopyFileDetailed :: "host \<Rightarrow> (string \<Rightarrow> document + resolved_path) \<Rightarrow> string option \<Rightarrow> string option \<Rightarrow> bool \<Rightarrow> bool \<Rightarrow>
    fs_state \<Rightarrow> (document + create_result) \<times> fs_state" where
  "fsCopyFileDetailed h resolve from_arg to_arg overwrite deleteSource st =
     (case (from_arg, to_arg) of
        (Some from_path, Some to_path) \<Rightarrow>
          (case resolve from_path of
             Inl message \<Rightarrow> (Inl message, st)
           | Inr source \<Rightarrow>
          (case resolve to_path of
             Inl message \<Rightarrow> (Inl message, st)
           | Inr target \<Rightarrow>
          (case copy_checks h source target overwrite st of
             Inl message \<Rightarrow> (Inl message, st)
           | Inr t \<Rightarrow>
          (case put_copy h target t st of
             (Some message, st1) \<Rightarrow> (Inl (words message), st1)
           | (None, st1) \<Rightarrow>
              (let body = words ((if deleteSource then ''Moved '' else ''Copied '') @ r_relative source @ '' to '' @ r_relative target @
                     (if entries st (r_fsPath target) \<noteq> None then '' (replaced the existing file)'' else ''''))
               in finish_copy h source target deleteSource body st1)))))
      | _ \<Rightarrow> (Inl (words ''fs__copy_file: 'from' and 'to' are required paths.''), st))"

subsection \<open>What creating a file does\<close>

text \<open>The paths a create may use.\<close>

definition candidates :: "(string \<Rightarrow> document + resolved_path) \<Rightarrow> resolved_path \<Rightarrow> resolved_path set" where
  "candidates resolve r = insert r {t. \<exists>n\<in>{1..MAX_NAME_SUFFIX}. resolve (numberedPath (r_fsPath r) n) = Inr t}"

text \<open>Another process may have put something where a file was to be created.\<close>

definition raced :: "host \<Rightarrow> bool" where
  "raced h \<longleftrightarrow> (\<exists>n e. create_answer h n = CreateRaced e)"

definition create_effect :: "host \<Rightarrow> resolved_path set \<Rightarrow> document \<Rightarrow> (string \<rightharpoonup> entry) \<Rightarrow> document + create_result \<Rightarrow> (string \<rightharpoonup> entry) \<Rightarrow> bool" where
  "create_effect h cands wanted before res after \<longleftrightarrow>
     before \<subseteq>\<^sub>m after \<and> {p. after p \<noteq> before p} \<subseteq> r_fsPath ` cands \<and>
     (case res of
        Inl message \<Rightarrow> after = before \<or> raced h
      | Inr c \<Rightarrow> (\<exists>target\<in>cands. \<exists>d. cr_relative c = r_relative target \<and> cr_uri c = r_uri target \<and>
          after (r_fsPath target) = Some (File d) \<and> to_lf (doc_text d) = to_lf wanted \<and>
          (after = before \<or> after = before(r_fsPath target \<mapsto> File d) \<or> raced h)))"

lemma createFile_effect:
  assumes "createFile h r t st = (res, st')" "entries st (r_fsPath r) = None"
  shows "(res = None \<and> entries st' = (entries st)(r_fsPath r \<mapsto> File \<lparr>doc_text = t, crlf = has_crlf h t\<rparr>)) \<or>
    (res \<noteq> None \<and> entries st' = entries st) \<or>
    (res \<noteq> None \<and> raced h \<and> (\<exists>e. entries st' = (entries st)(r_fsPath r \<mapsto> e)))"
  using assms unfolding createFile_def Let_def raced_def by (auto split: create_answer.splits)

lemma reported_effect:
  assumes "reported h target body st = (res, st')"
  obtains c where "res = Inr c" "cr_relative c = r_relative target" "cr_uri c = r_uri target" "entries st' = entries st"
  using assms that by (auto simp: reported_def dest: reportL4File_entries split: prod.splits)

lemma create_effect_created:
  assumes "target \<in> cands" "before (r_fsPath target) = None" "after = before(r_fsPath target \<mapsto> File \<lparr>doc_text = t, crlf = c\<rparr>)"
    "cr_relative x = r_relative target" "cr_uri x = r_uri target"
  shows "create_effect h cands t before (Inr x) after"
  using assms unfolding create_effect_def sum.case
  by (intro conjI bexI [of _ target] exI [of _ "\<lparr>doc_text = t, crlf = c\<rparr>"]) (auto simp: map_le_def)

lemma create_effect_same:
  assumes "target \<in> cands" "before (r_fsPath target) = Some (File d)" "to_lf (doc_text d) = to_lf t"
    "cr_relative x = r_relative target" "cr_uri x = r_uri target"
  shows "create_effect h cands t before (Inr x) before"
  using assms unfolding create_effect_def sum.case by (intro conjI bexI [of _ target] exI [of _ d]) auto

lemma create_effect_race:
  assumes "target \<in> cands" "before (r_fsPath target) = None" "mid = before(r_fsPath target \<mapsto> e)" "raced h"
    "create_effect h cands t mid res after"
  shows "create_effect h cands t before res after"
proof -
  have sub: "before \<subseteq>\<^sub>m mid" "{p. mid p \<noteq> before p} \<subseteq> r_fsPath ` cands" using assms(1-3) by (auto simp: map_le_def)
  have "before \<subseteq>\<^sub>m after" using map_le_trans [OF sub(1)] assms(5) by (simp add: create_effect_def)
  moreover have "{p. after p \<noteq> before p} \<subseteq> {p. after p \<noteq> mid p} \<union> {p. mid p \<noteq> before p}" by auto
  ultimately show ?thesis
    using assms(4,5) sub(2) unfolding create_effect_def by (auto split: sum.splits)
qed

lemma create_at_effect:
  assumes "set ns \<subseteq> {0..MAX_NAME_SUFFIX}" "create_at h resolve r t ns st = (res, st')"
  shows "create_effect h (candidates resolve r) t (entries st) res (entries st')"
  using assms
proof (induction ns arbitrary: st)
  case Nil
  then show ?case by (auto simp: create_effect_def)
next
  case (Cons n ns)
  show ?case
  proof (cases "if n = 0 then Inr r else resolve (numberedPath (r_fsPath r) n)")
    case (Inl message)
    then show ?thesis using Cons.prems(2) by (auto simp: create_effect_def)
  next
    case (Inr target)
    then have c: "target \<in> candidates resolve r" using Cons.prems(1) by (auto simp: candidates_def split: if_splits)
    show ?thesis
    proof (cases "entries st (r_fsPath target)")
      case (Some taken)
      show ?thesis
      proof (cases "hasContent taken t")
        case True
        then obtain d where "taken = File d" "to_lf (doc_text d) = to_lf t" by (auto simp: hasContent_def split: entry.splits)
        moreover have "st' = st" "\<exists>x. res = Inr x \<and> cr_relative x = r_relative target \<and> cr_uri x = r_uri target"
          using Cons.prems(2) Inr Some True by auto
        ultimately show ?thesis using create_effect_same [OF c] Some by auto
      next
        case False
        then have "create_at h resolve r t ns st = (res, st')" using Cons.prems(2) Inr Some by simp
        then show ?thesis using Cons.IH Cons.prems(1) by simp
      qed
    next
      case None
      obtain err st1 where cf: "createFile h target t st = (err, st1)" by fastforce
      note eff = createFile_effect [OF cf None]
      show ?thesis
      proof (cases err)
        case None': None
        then have "reported h target (created_body r target n t) st1 = (res, st')" using Cons.prems(2) Inr None cf by simp
        then show ?thesis using reported_effect create_effect_created [where before = "entries st" and target = target, OF c None] eff None' by metis
      next
        case (Some message)
        show ?thesis
        proof (cases "entries st1 (r_fsPath target)")
          case None'': None
          then have "res = Inl (words message)" "st' = st1" using Cons.prems(2) Inr None cf Some by simp_all
          then show ?thesis using eff Some None'' by (auto simp: create_effect_def)
        next
          case taken: (Some e)
          then have later: "create_at h resolve r t ns st1 = (res, st')" using Cons.prems(2) Inr None cf Some by simp
          have "raced h" "\<exists>e. entries st1 = (entries st)(r_fsPath target \<mapsto> e)" using eff Some taken None by auto
          moreover have "create_effect h (candidates resolve r) t (entries st1) res (entries st')"
            using Cons.IH [OF _ later] Cons.prems(1) by simp
          ultimately show ?thesis using create_effect_race [where before = "entries st" and target = target, OF c None] by blast
        qed
      qed
    qed
  qed
qed

lemma create_seeded_effect:
  assumes "create_seeded h r st = (res, st')"
  shows "create_effect h {r} (if isHtmlPath (r_fsPath r) then FS_CREATE_HTML_SEED else FS_CREATE_FILE_SEED) (entries st) res (entries st')"
proof (cases "entries st (r_fsPath r)")
  case (Some e)
  then show ?thesis using assms by (auto simp: create_seeded_def create_effect_def)
next
  case None
  let ?seed = "if isHtmlPath (r_fsPath r) then FS_CREATE_HTML_SEED else FS_CREATE_FILE_SEED"
  obtain err st1 where cf: "createFile h r ?seed st = (err, st1)" by fastforce
  note eff = createFile_effect [OF cf None]
  have st': "st' = st1" using assms cf None by (auto simp: create_seeded_def Let_def split: option.splits)
  show ?thesis
  proof (cases err)
    case None': None
    then obtain c where "res = Inr c" "cr_relative c = r_relative r" "cr_uri c = r_uri r"
      using assms cf None by (auto simp: create_seeded_def Let_def)
    then show ?thesis
      using create_effect_created [where target = r and cands = "{r}" and before = "entries st" and after = "entries st'"] None eff None' st' by auto
  next
    case (Some message)
    then have "res = Inl (words message)" using assms cf None by (simp add: create_seeded_def Let_def)
    then show ?thesis using eff Some st' None by (auto simp: create_effect_def map_le_def split: if_splits)
  qed
qed

definition wanted_text :: "resolved_path \<Rightarrow> content_arg \<Rightarrow> document" where
  "wanted_text r content =
     (case content of Content t \<Rightarrow> t | _ \<Rightarrow> if isHtmlPath (r_fsPath r) then FS_CREATE_HTML_SEED else FS_CREATE_FILE_SEED)"

lemma fsCreate_effect:
  assumes e: "fsCreateFileDetailed h resolve path content st = (res, st')" and r: "resolve path = Inr r"
  shows "create_effect h (candidates resolve r) (wanted_text r content) (entries st) res (entries st')"
proof -
  have mono: "create_effect h cands' t before res after" if "create_effect h cands t before res after" "cands \<subseteq> cands'"
    for cands cands' t before after
    using that unfolding create_effect_def by (fastforce split: sum.splits)
  show ?thesis
  proof (cases content)
    case NoContent
    then show ?thesis
      using mono [OF create_seeded_effect] e r by (simp add: fsCreateFileDetailed_def wanted_text_def candidates_def)
  next
    case BadContent
    then show ?thesis using e r by (auto simp: fsCreateFileDetailed_def create_effect_def)
  next
    case (Content t)
    show ?thesis
    proof (cases "0 \<in> set t")
      case True
      then show ?thesis using e r Content by (auto simp: fsCreateFileDetailed_def create_effect_def)
    next
      case False
      then have "create_at h resolve r t [0..<MAX_NAME_SUFFIX + 1] st = (res, st')"
        using e r Content by (simp only: fsCreateFileDetailed_def sum.case content_arg.case if_False)
      moreover have "set [0..<MAX_NAME_SUFFIX + 1] \<subseteq> {0..MAX_NAME_SUFFIX}" by auto
      ultimately have "create_effect h (candidates resolve r) t (entries st) res (entries st')" by (intro create_at_effect)
      then show ?thesis by (simp add: Content wanted_text_def)
    qed
  qed
qed

text \<open>C25: creating a file never changes or removes what is there: all that can change is that a path which was free, the
  one that was asked for or one of its twenty numbered copies, is taken. When it succeeds, the file it names holds the
  wanted text, its line ends aside, and when no other process puts a file there meanwhile, that file is the only
  difference; when it fails, nothing has changed.\<close>

theorem create_overwrites_nothing:
  "case fsCreateFileDetailed h resolve path content st of
     (res, st') \<Rightarrow>
       (case resolve path of
          Inl message \<Rightarrow> res = Inl message \<and> st' = st
        | Inr r \<Rightarrow> create_effect h (candidates resolve r) (wanted_text r content) (entries st) res (entries st'))"
proof (cases "resolve path")
  case (Inl message)
  then show ?thesis by (simp add: fsCreateFileDetailed_def)
next
  case (Inr r)
  obtain res st' where e: "fsCreateFileDetailed h resolve path content st = (res, st')" by fastforce
  show ?thesis using fsCreate_effect [OF e] Inr by (simp add: e)
qed

subsection \<open>What copying a file does\<close>

lemma copy_checks_Inr:
  assumes "copy_checks h source target overwrite st = Inr t"
  obtains d where "r_fsPath source \<noteq> r_fsPath target" "entries st (r_fsPath source) = Some (File d)" "t = doc_text d"
    "entries st (r_fsPath target) = None \<or>
      overwrite \<and> \<not> same_file h (r_fsPath source) (r_fsPath target) \<and> (\<exists>old. entries st (r_fsPath target) = Some (File old))"
  using assms that unfolding copy_checks_def by (auto split: if_splits option.splits entry.splits)

lemma put_copy_effect:
  assumes "put_copy h target t st = (refused, st')"
    "entries st (r_fsPath target) = None \<or> (\<exists>old. entries st (r_fsPath target) = Some (File old))"
  shows "(refused = None \<and> (\<exists>c. entries st' = (entries st)(r_fsPath target \<mapsto> File \<lparr>doc_text = t, crlf = c\<rparr>))) \<or>
    (refused \<noteq> None \<and> entries st' = entries st) \<or>
    (refused \<noteq> None \<and> entries st (r_fsPath target) = None \<and> raced h \<and> (\<exists>e. entries st' = (entries st)(r_fsPath target \<mapsto> e)))"
proof (cases "entries st (r_fsPath target)")
  case None
  then have "createFile h target t st = (refused, st')" using assms(1) by (simp add: put_copy_def)
  then show ?thesis using createFile_effect [OF _ None] None by blast
next
  case (Some e)
  then obtain old where old: "entries st (r_fsPath target) = Some (File old)" using assms(2) by auto
  have all: "old\<lparr>doc_text := splice 0 (length (doc_text old)) t (doc_text old)\<rparr> = \<lparr>doc_text = t, crlf = crlf old\<rparr>"
    by (cases old) (simp add: splice_def)
  have ap: "applyEdit h target 0 (length (doc_text old)) t st = (refused, st')" using assms(1) old by (simp add: put_copy_def)
  show ?thesis
  proof (cases refused)
    case None
    then show ?thesis using applyEdit_effect(2) [OF ap None] old all by auto
  next
    case (Some msg)
    then show ?thesis using applyEdit_effect(1) [OF ap] by simp
  qed
qed

lemma deleteFile_effect:
  assumes "deleteFile h r st = (res, st')"
  shows "\<And>msg. res = Inl msg \<Longrightarrow> entries st' = entries st" "\<And>b. res = Inr b \<Longrightarrow> entries st' = (entries st)(r_fsPath r := None)"
  using assms by (auto simp: deleteFile_def Let_def split: delete_answer.splits)

text \<open>What a copy of \<open>source\<close>, a file with the text \<open>t\<close>, over \<open>target\<close> leaves.\<close>

definition copy_effect :: "host \<Rightarrow> resolved_path \<Rightarrow> resolved_path \<Rightarrow> document \<Rightarrow> bool \<Rightarrow>
    (string \<rightharpoonup> entry) \<Rightarrow> document + create_result \<Rightarrow> (string \<rightharpoonup> entry) \<Rightarrow> bool" where
  "copy_effect h source target t deleteSource before res after \<longleftrightarrow>
     (case res of
        Inr x \<Rightarrow> cr_relative x = r_relative target \<and> cr_uri x = r_uri target \<and>
          (\<exists>c. after = (if deleteSource then before(r_fsPath source := None) else before)
                 (r_fsPath target \<mapsto> File \<lparr>doc_text = t, crlf = c\<rparr>))
      | Inl message \<Rightarrow> after = before \<or>
          (before (r_fsPath target) = None \<and> raced h \<and> (\<exists>e. after = before(r_fsPath target \<mapsto> e))) \<or>
          (deleteSource \<and> (\<exists>c. after = before(r_fsPath target \<mapsto> File \<lparr>doc_text = t, crlf = c\<rparr>))))"

lemma finish_copy_effect:
  assumes "entries st1 = (entries st)(r_fsPath target \<mapsto> File \<lparr>doc_text = t, crlf = c\<rparr>)"
    "finish_copy h source target deleteSource body st1 = (res, st')" "r_fsPath source \<noteq> r_fsPath target"
  shows "copy_effect h source target t deleteSource (entries st) res (entries st')"
proof (cases deleteSource)
  case False
  then have "reported h target body st1 = (res, st')" using assms(2) by (simp add: finish_copy_def)
  then obtain x where "res = Inr x" "cr_relative x = r_relative target" "cr_uri x = r_uri target" "entries st' = entries st1"
    by (rule reported_effect)
  then show ?thesis using False assms(1) by (auto simp: copy_effect_def)
next
  case True
  obtain del st2 where d: "deleteFile h source st1 = (del, st2)" by fastforce
  show ?thesis
  proof (cases del)
    case (Inl message)
    then have "res = Inl (words message)" "entries st' = entries st1" using assms(2) True d deleteFile_effect(1) [OF d] by (auto simp: finish_copy_def)
    then show ?thesis using True assms(1) by (auto simp: copy_effect_def)
  next
    case (Inr trashed)
    then have "\<exists>b. reported h target b st2 = (res, st')" using assms(2) True d by (auto simp: finish_copy_def)
    then obtain b where "reported h target b st2 = (res, st')" ..
    then obtain x where "res = Inr x" "cr_relative x = r_relative target" "cr_uri x = r_uri target" "entries st' = entries st2"
      by (rule reported_effect)
    then show ?thesis
      using True assms(1,3) deleteFile_effect(2) [OF d Inr] by (auto simp: copy_effect_def fun_upd_twist)
  qed
qed

lemma fsCopy_effect:
  assumes e: "fsCopyFileDetailed h resolve (Some from_path) (Some to_path) overwrite deleteSource st = (res, st')"
  shows "((\<exists>message. res = Inl message) \<and> st' = st) \<or>
       (\<exists>source target d. resolve from_path = Inr source \<and> resolve to_path = Inr target \<and> r_fsPath source \<noteq> r_fsPath target \<and>
          entries st (r_fsPath source) = Some (File d) \<and>
          (entries st (r_fsPath target) = None \<or>
             overwrite \<and> \<not> same_file h (r_fsPath source) (r_fsPath target) \<and> (\<exists>old. entries st (r_fsPath target) = Some (File old))) \<and>
          copy_effect h source target (doc_text d) deleteSource (entries st) res (entries st'))"
proof (cases "\<exists>source target t. resolve from_path = Inr source \<and> resolve to_path = Inr target \<and>
    copy_checks h source target overwrite st = Inr t")
  case False
  then show ?thesis using e by (auto simp: fsCopyFileDetailed_def split: sum.splits)
next
  case True
  then obtain source target t where r: "resolve from_path = Inr source" "resolve to_path = Inr target"
    "copy_checks h source target overwrite st = Inr t" by blast
  obtain d where d: "r_fsPath source \<noteq> r_fsPath target" "entries st (r_fsPath source) = Some (File d)" "t = doc_text d"
    "entries st (r_fsPath target) = None \<or>
      overwrite \<and> \<not> same_file h (r_fsPath source) (r_fsPath target) \<and> (\<exists>old. entries st (r_fsPath target) = Some (File old))"
    using r(3) by (rule copy_checks_Inr)
  obtain refused st1 where p: "put_copy h target t st = (refused, st1)" by fastforce
  have free: "entries st (r_fsPath target) = None \<or> (\<exists>old. entries st (r_fsPath target) = Some (File old))" using d(4) by blast
  note eff = put_copy_effect [OF p free]
  note step = e [unfolded fsCopyFileDetailed_def prod.case option.case r sum.case p Let_def]
  have "copy_effect h source target t deleteSource (entries st) res (entries st')"
  proof (cases refused)
    case (Some message)
    then have "res = Inl (words message)" "st' = st1" using step by simp_all
    then show ?thesis using eff Some by (auto simp: copy_effect_def)
  next
    case None
    then obtain c where "entries st1 = (entries st)(r_fsPath target \<mapsto> File \<lparr>doc_text = t, crlf = c\<rparr>)" using eff by auto
    then show ?thesis using finish_copy_effect [OF _ step [unfolded None option.case] d(1)] by blast
  qed
  then show ?thesis using r d by blast
qed

text \<open>C26: a copy writes only over a path that is free, or over another file when it may; a successful one leaves the source's
  text at the target and, when it is a move, nothing at the source, and every other path as it was. One that fails
  leaves the source as it was: nothing has changed, or another process has taken the free target, or the copy is made and
  the source could not be deleted.\<close>

theorem copy_never_loses_the_source:
  "case fsCopyFileDetailed h resolve (Some from_path) (Some to_path) overwrite deleteSource st of
     (res, st') \<Rightarrow> ((\<exists>message. res = Inl message) \<and> st' = st) \<or>
       (\<exists>source target d. resolve from_path = Inr source \<and> resolve to_path = Inr target \<and> r_fsPath source \<noteq> r_fsPath target \<and>
          entries st (r_fsPath source) = Some (File d) \<and>
          (entries st (r_fsPath target) = None \<or>
             overwrite \<and> \<not> same_file h (r_fsPath source) (r_fsPath target) \<and> (\<exists>old. entries st (r_fsPath target) = Some (File old))) \<and>
          copy_effect h source target (doc_text d) deleteSource (entries st) res (entries st'))"
proof -
  obtain res st' where e: "fsCopyFileDetailed h resolve (Some from_path) (Some to_path) overwrite deleteSource st = (res, st')" by fastforce
  show ?thesis unfolding e prod.case by (rule fsCopy_effect [OF e])
qed

end
