(* ===== verification/FsRead.thy ===== *)
theory FsRead
  imports FsFiles
begin

text \<open>
  Reading, listing and searching files: the other half of \<^verbatim>\<open>ts-shared/legalese-agent/src/tools/fs.ts\<close>.

  The workspace is a tree of files and folders, given by the path it is reached by. A folder's entries come in any order. What
  a regular expression matches, lower case and the order of names are the engine's: the record \<open>reader\<close> has them as
  functions. An argument that is a number is given by its floor; \<open>None\<close> is one that is no finite number.
\<close>

subsection \<open>Limits\<close>

definition LINE_LIMIT :: nat where
  "LINE_LIMIT = 500"

definition CHAR_LIMIT :: nat where
  "CHAR_LIMIT = 4000"

definition EXPLICIT_RANGE_CHAR_LIMIT :: nat where
  "EXPLICIT_RANGE_CHAR_LIMIT = 24000"

definition PATTERN_CONTEXT_LINES :: nat where
  "PATTERN_CONTEXT_LINES = 2"

definition DIR_IGNORES :: "string list" where
  "DIR_IGNORES = [''.git'', ''node_modules'', ''.DS_Store'']"

definition SEARCH_IGNORES :: "string list" where
  "SEARCH_IGNORES = [''.next'', ''.svelte-kit'', ''.turbo'', ''.venv'', ''__pycache__'', ''dist'', ''dist-newstyle'']"

definition MAX_SEARCH_LINE_CHARS :: nat where
  "MAX_SEARCH_LINE_CHARS = 240"

definition MAX_SEARCHED_FILE_SIZE :: nat where
  "MAX_SEARCHED_FILE_SIZE = 1000000"

definition NAME_WALK_LIMIT :: nat where
  "NAME_WALK_LIMIT = 20000"

definition MAX_PATHS_NAMED :: nat where
  "MAX_PATHS_NAMED = 5"

subsection \<open>A window of lines\<close>

definition clampInt :: "int option \<Rightarrow> int \<Rightarrow> int \<Rightarrow> int" where
  "clampInt n lo hi = (case n of None \<Rightarrow> lo | Some k \<Rightarrow> if k < lo then lo else if hi < k then hi else k)"

text \<open>\<^verbatim>\<open>lines.slice(a - 1, b).join('\n')\<close>.\<close>

definition window :: "document list \<Rightarrow> int \<Rightarrow> int \<Rightarrow> document" where
  "window ls a b = join LF (take (nat (b - a + 1)) (drop (nat (a - 1)) ls))"

function shrink_window :: "document list \<Rightarrow> int \<Rightarrow> int \<Rightarrow> int \<Rightarrow> int" where
  "shrink_window ls limit a b = (if limit < int (length (window ls a b)) \<and> a < b then shrink_window ls limit a (b - 1) else b)"
  by pat_completeness auto
termination
  by (relation "measure (\<lambda>(ls, limit, a, b). nat (b - a))") auto

declare shrink_window.simps [simp del]

record slice =
  sl_start :: int
  sl_end :: int
  sl_body :: document

definition slice_of_lines :: "document list \<Rightarrow> int option option \<Rightarrow> int option option \<Rightarrow> slice" where
  "slice_of_lines ls s e =
     (let len = int (length ls);
          start = clampInt (case s of None \<Rightarrow> Some 1 | Some n \<Rightarrow> n) 1 (max 1 len);
          requested = (case e of None \<Rightarrow> len | Some n \<Rightarrow> clampInt n start len);
          capByLines = min (min requested (start + int LINE_LIMIT - 1)) len;
          charLimit = int (if e \<noteq> None then EXPLICIT_RANGE_CHAR_LIMIT else CHAR_LIMIT);
          stop = shrink_window ls charLimit start capByLines
      in \<lparr>sl_start = start, sl_end = stop, sl_body = take (nat charLimit) (window ls start stop)\<rparr>)"

definition show_i :: "int \<Rightarrow> document" where
  "show_i n = words (show_int n)"

definition sliceLines :: "resolved_path \<Rightarrow> document list \<Rightarrow> int option option \<Rightarrow> int option option \<Rightarrow> document" where
  "sliceLines r ls s e =
     (let w = slice_of_lines ls s e
      in words (''['' @ r_relative r @ '' '') @ show_i (sl_start w) @ words ''-'' @ show_i (sl_end w) @ words ''/'' @
           show_num (length ls) @ words '']'' @ LF @ sl_body w)"

subsection \<open>Keywords\<close>

function key_words :: "document \<Rightarrow> document list" where
  "key_words t =
     (let u = dropWhile js_space t
      in if u = [] then [] else takeWhile (\<lambda>c. \<not> js_space c) u # key_words (dropWhile (\<lambda>c. \<not> js_space c) u))"
  by pat_completeness auto
termination
proof (relation "measure length")
  fix t u :: document
  assume u: "u = dropWhile js_space t" "u \<noteq> []"
  then have "\<not> js_space (hd u)" using hd_dropWhile [of js_space t] by simp
  then have "length (dropWhile (\<lambda>c. \<not> js_space c) u) < length u"
    using u(2) by (cases u) (simp_all add: le_imp_less_Suc length_dropWhile_le)
  also have "\<dots> \<le> length t" using u by (simp add: length_dropWhile_le)
  finally show "(dropWhile (\<lambda>c. \<not> js_space c) u, t) \<in> measure length" by simp
qed simp

declare key_words.simps [simp del]

datatype tree = TFile nat "document option" | TOther | TDir "(string \<times> tree) list" | TSealed

record reader =
  rd_tree :: "string \<Rightarrow> tree option"
  rd_roots :: "resolved_path list"
  rd_hidden :: "string \<Rightarrow> bool"
  rd_rank :: "string \<Rightarrow> nat"
  rd_regex :: "document \<Rightarrow> (document \<Rightarrow> bool) option"
  rd_lower :: "document \<Rightarrow> document"
  rd_refusal :: document

definition buildKeywordMatcher :: "reader \<Rightarrow> document \<Rightarrow> document \<Rightarrow> bool" where
  "buildKeywordMatcher rd raw l \<longleftrightarrow>
     list_ex (\<lambda>kw. case rd_regex rd kw of
         Some matches \<Rightarrow> matches l
       | None \<Rightarrow> indexOf (rd_lower rd kw) (rd_lower rd l) \<noteq> None) (key_words raw)"

text \<open>\<^verbatim>\<open>JSON.stringify\<close> of a text: a code unit of a surrogate that is alone is escaped.\<close>

definition hex_digit :: "nat \<Rightarrow> code_unit" where
  "hex_digit n = of_nat (if n < 10 then 48 + n else 87 + n)"

definition unit_escape :: "code_unit \<Rightarrow> document" where
  "unit_escape c =
     (let n = unat c in words [CHR 0x5C, CHR ''u''] @ map hex_digit [n div 4096, n div 256 mod 16, n div 16 mod 16, n mod 16])"

definition json_unit :: "code_unit \<Rightarrow> document" where
  "json_unit c =
     (if c = 34 then [92, 34] else if c = 92 then [92, 92] else if c = 8 then [92, 98] else if c = 9 then [92, 116]
      else if c = 10 then [92, 110] else if c = 12 then [92, 102] else if c = 13 then [92, 114]
      else if c < 32 \<or> (0xD800 \<le> c \<and> c < 0xE000) then unit_escape c else [c])"

fun json_units :: "document \<Rightarrow> document" where
  "json_units (a # b # t) =
     (if 0xD800 \<le> a \<and> a < 0xDC00 \<and> 0xDC00 \<le> b \<and> b < 0xE000 then a # b # json_units t else json_unit a @ json_units (b # t))"
| "json_units [a] = json_unit a"
| "json_units [] = []"

definition json_text :: "document \<Rightarrow> document" where
  "json_text t = [34] @ json_units t @ [34]"

subsection \<open>Searching the lines of a file\<close>

record chunk =
  ch_start :: nat
  ch_end :: nat
  ch_hits :: "nat list"

definition add_hit :: "nat \<Rightarrow> chunk list \<Rightarrow> nat \<Rightarrow> chunk list" where
  "add_hit len cs i =
     (let start = i - PATTERN_CONTEXT_LINES; stop = min (len - 1) (i + PATTERN_CONTEXT_LINES)
      in if cs \<noteq> [] \<and> start \<le> ch_end (last cs) + 1
         then butlast cs @ [(last cs)\<lparr>ch_end := max (ch_end (last cs)) stop, ch_hits := ch_hits (last cs) @ [i]\<rparr>]
         else cs @ [\<lparr>ch_start = start, ch_end = stop, ch_hits = [i]\<rparr>])"

definition hit_chunks :: "nat \<Rightarrow> nat list \<Rightarrow> chunk list" where
  "hit_chunks len hits = foldl (add_hit len) [] hits"

definition grep_row :: "document list \<Rightarrow> bool \<Rightarrow> nat \<Rightarrow> document" where
  "grep_row ls hit i = words (if hit then ''>>> '' else ''    '') @ show_num (i + 1) @ words '': '' @ ls ! i"

definition row_chars :: "document list \<Rightarrow> nat" where
  "row_chars rows = sum_list (map (\<lambda>l. length l + 1) rows)"

text \<open>The rows of a chunk that still fit, after \<open>n\<close> rows of \<open>chars\<close> characters, and whether one did not.\<close>

fun chunk_rows :: "document list \<Rightarrow> nat list \<Rightarrow> nat \<Rightarrow> nat \<Rightarrow> document list \<Rightarrow> nat list \<Rightarrow> document list \<times> bool" where
  "chunk_rows ls hits n chars acc [] = (acc, False)"
| "chunk_rows ls hits n chars acc (i # is) =
     (let row = grep_row ls (i \<in> set hits) i
      in if LINE_LIMIT < n + length acc + 1 \<or> CHAR_LIMIT < chars + row_chars acc + length row + 1 then (acc, True)
         else chunk_rows ls hits n chars (acc @ [row]) is)"

fun all_chunk_rows :: "document list \<Rightarrow> nat \<Rightarrow> nat \<Rightarrow> chunk list \<Rightarrow> document list list \<times> bool" where
  "all_chunk_rows ls n chars [] = ([], False)"
| "all_chunk_rows ls n chars (c # cs) =
     (let (rows, cut) = chunk_rows ls (ch_hits c) n chars [] [ch_start c..<ch_end c + 1]
      in if rows = [] then ([], True)
         else if cut then ([rows], True)
         else (let (rest, cut') = all_chunk_rows ls (n + length rows) (chars + row_chars rows) cs in (rows # rest, cut')))"

definition matching :: "reader \<Rightarrow> document list \<Rightarrow> document \<Rightarrow> int option option \<Rightarrow> int option option \<Rightarrow> nat list" where
  "matching rd ls raw s e =
     (let len = int (length ls);
          rangeStart = clampInt (case s of None \<Rightarrow> Some 1 | Some n \<Rightarrow> n) 1 (max 1 len) - 1;
          rangeEnd = (case e of None \<Rightarrow> len | Some n \<Rightarrow> clampInt n (rangeStart + 1) len)
      in filter (\<lambda>i. buildKeywordMatcher rd raw (ls ! i)) [nat rangeStart..<nat rangeEnd])"

definition grepLines :: "reader \<Rightarrow> resolved_path \<Rightarrow> document list \<Rightarrow> document \<Rightarrow> int option option \<Rightarrow> int option option \<Rightarrow> document" where
  "grepLines rd r ls raw s e =
     (let hits = matching rd ls raw s e;
          found = words (''['' @ r_relative r @ '' keywords='') @ json_text raw @ words '' matches='' @ show_num (length hits)
      in if hits = [] then found @ words '']''
         else
           (let cs = hit_chunks (length ls) hits; (shown, cut) = all_chunk_rows ls 0 0 cs
            in found @ words '' chunks='' @ show_num (length shown) @ words ''/'' @ show_num (length cs) @
                 words (if cut then '', truncated]'' else '']'') @ LF @ join (LF @ words ''---'' @ LF) (map (join LF) shown)))"

subsection \<open>Walking a folder\<close>

record visited =
  v_name :: string
  v_names :: "string list"
  v_full :: string
  v_rel :: string
  v_tree :: tree

definition is_dir :: "tree \<Rightarrow> bool" where
  "is_dir t = (case t of TDir _ \<Rightarrow> True | TSealed \<Rightarrow> True | _ \<Rightarrow> False)"

definition sub_path :: "string \<Rightarrow> string \<Rightarrow> string" where
  "sub_path dir name = (if dir = ''/'' then ''/'' @ name else dir @ ''/'' @ name)"

definition rel_path :: "resolved_path \<Rightarrow> string list \<Rightarrow> string" where
  "rel_path r names = join ''/'' (if r_relative r = '''' \<or> r_relative r = ''.'' then names else r_relative r # names)"

text \<open>Directories first, each kind by name.\<close>

definition sort_entries :: "reader \<Rightarrow> (string \<times> tree) list \<Rightarrow> (string \<times> tree) list" where
  "sort_entries rd es = sort_key (\<lambda>x. if is_dir (snd x) then 0 else 1 :: nat) (sort_key (\<lambda>x. rd_rank rd (fst x)) es)"

text \<open>What a folder at \<open>dir\<close> contributes, in order.\<close>

definition entries_at :: "reader \<Rightarrow> resolved_path \<Rightarrow> string \<Rightarrow> string list \<Rightarrow> tree \<Rightarrow> visited list" where
  "entries_at rd r dir names t =
     (case t of
        TDir es \<Rightarrow>
          map (\<lambda>(name, x). \<lparr>v_name = name, v_names = names @ [name], v_full = sub_path dir name, v_rel = rel_path r (names @ [name]), v_tree = x\<rparr>)
            (filter (\<lambda>(name, x). name \<notin> set DIR_IGNORES \<and> name \<notin> set SEARCH_IGNORES \<and> \<not> rd_hidden rd (sub_path dir name))
              (sort_entries rd es))
      | _ \<Rightarrow> [])"

definition subdirs_of :: "visited list \<Rightarrow> (string \<times> string list \<times> tree) list" where
  "subdirs_of vs = map (\<lambda>v. (v_full v, v_names v, v_tree v)) (filter (\<lambda>v. is_dir (v_tree v)) vs)"

fun tree_size :: "tree \<Rightarrow> nat" where
  "tree_size (TDir es) = 1 + sum_list (map (\<lambda>x. tree_size (snd x)) es)"
| "tree_size t = 1"

lemma tree_size_pos [simp]: "0 < tree_size t"
  by (cases t) simp_all

lemma sort_entries_sum: "sum_list (map f (sort_entries rd es)) = (sum_list (map f es) :: nat)"
proof -
  have "mset (sort_entries rd es) = mset es" by (simp add: sort_entries_def)
  then have "mset (map f (sort_entries rd es)) = mset (map f es)" by simp
  then show ?thesis by (metis sum_mset_sum_list)
qed

lemma sum_filter_le: "sum_list (map f (filter P xs)) \<le> (sum_list (map f xs) :: nat)"
  by (induction xs) auto

lemma subdirs_size: "sum_list (map (\<lambda>(dir, names, x). tree_size x) (subdirs_of (entries_at rd r dir names t))) < tree_size t"
proof (cases t)
  case (TDir es)
  have "sum_list (map (\<lambda>(dir, names, x). tree_size x) (subdirs_of vs)) \<le> sum_list (map (\<lambda>v. tree_size (v_tree v)) vs)" for vs
    by (simp add: subdirs_of_def comp_def sum_filter_le)
  also have "sum_list (map (\<lambda>v. tree_size (v_tree v)) (entries_at rd r dir names t)) =
      sum_list (map (\<lambda>x. tree_size (snd x)) (filter (\<lambda>(name, x). name \<notin> set DIR_IGNORES \<and> name \<notin> set SEARCH_IGNORES \<and>
        \<not> rd_hidden rd (sub_path dir name)) (sort_entries rd es)))"
    by (simp add: entries_at_def TDir comp_def case_prod_beta)
  also have "\<dots> \<le> sum_list (map (\<lambda>x. tree_size (snd x)) es)"
    using sum_filter_le [of "\<lambda>x. tree_size (snd x)" _ "sort_entries rd es"] by (simp add: sort_entries_sum)
  finally show ?thesis by (simp add: TDir)
qed (simp_all add: entries_at_def subdirs_of_def)

text \<open>The stack of a walk.\<close>

function walk_stack :: "reader \<Rightarrow> resolved_path \<Rightarrow> (string \<times> string list \<times> tree) list \<Rightarrow> visited list" where
  "walk_stack rd r [] = []"
| "walk_stack rd r ((dir, names, t) # stack) =
     (let vs = entries_at rd r dir names t in vs @ walk_stack rd r (subdirs_of vs @ stack))"
  by pat_completeness auto
termination
  by (relation "measure (\<lambda>(rd, r, stack). sum_list (map (\<lambda>(dir, names, t). tree_size t) stack))") (simp_all add: subdirs_size)

declare walk_stack.simps(2) [simp del]

definition walkTree :: "reader \<Rightarrow> resolved_path list \<Rightarrow> visited list" where
  "walkTree rd roots =
     concat (map (\<lambda>r. case rd_tree rd (r_fsPath r) of None \<Rightarrow> [] | Some t \<Rightarrow> walk_stack rd r [(r_fsPath r, [], t)]) roots)"

definition pathsNamed :: "reader \<Rightarrow> string \<Rightarrow> string list" where
  "pathsNamed rd name =
     take MAX_PATHS_NAMED
       (map v_rel (filter (\<lambda>v. rd_lower rd (words (v_name v)) = rd_lower rd (words name)) (take NAME_WALK_LIMIT (walkTree rd (rd_roots rd)))))"

subsection \<open>Searching a folder\<close>

record dir_hits =
  dh_names :: "document list"
  dh_rows :: "document list"
  dh_files :: "string list"
  dh_total_names :: nat
  dh_total_matches :: nat
  dh_too_large :: nat
  dh_chars :: nat
  dh_cut :: bool

definition shown_line :: "document \<Rightarrow> document" where
  "shown_line l = (if MAX_SEARCH_LINE_CHARS < length l then take MAX_SEARCH_LINE_CHARS l @ [8230] else l)"

definition add_row :: "string \<Rightarrow> nat \<times> document \<Rightarrow> dir_hits \<Rightarrow> dir_hits" where
  "add_row rel x h =
     (let h1 = h\<lparr>dh_total_matches := dh_total_matches h + 1, dh_files := set_add rel (dh_files h)\<rparr>;
          row = words (rel @ '':'') @ show_num (fst x + 1) @ words '': '' @ shown_line (snd x)
      in if dh_cut h then h1
         else if LINE_LIMIT < length (dh_rows h) + 1 \<or> CHAR_LIMIT < dh_chars h + length row + 1 then h1\<lparr>dh_cut := True\<rparr>
         else h1\<lparr>dh_rows := dh_rows h @ [row], dh_chars := dh_chars h + length row + 1\<rparr>)"

definition text_lines :: "document \<Rightarrow> document list" where
  "text_lines t = split_sep LF (to_lf t)"

definition matched_lines :: "reader \<Rightarrow> document \<Rightarrow> document \<Rightarrow> (nat \<times> document) list" where
  "matched_lines rd raw t = filter (\<lambda>x. buildKeywordMatcher rd raw (snd x)) (zip [0..<length (text_lines t)] (text_lines t))"

definition visit :: "reader \<Rightarrow> document \<Rightarrow> visited \<Rightarrow> dir_hits \<Rightarrow> dir_hits" where
  "visit rd raw v h =
     (let h1 = (if buildKeywordMatcher rd raw (words (v_name v))
                then h\<lparr>dh_total_names := dh_total_names h + 1,
                  dh_names := (if length (dh_names h) < LINE_LIMIT
                     then dh_names h @ [words (v_rel v @ (if is_dir (v_tree v) then ''/'' else ''''))] else dh_names h)\<rparr>
                else h)
      in case v_tree v of
           TFile n content \<Rightarrow>
             (if MAX_SEARCHED_FILE_SIZE < n then h1\<lparr>dh_too_large := dh_too_large h1 + 1\<rparr>
              else case content of None \<Rightarrow> h1 | Some t \<Rightarrow> fold (add_row (v_rel v)) (matched_lines rd raw t) h1)
         | _ \<Rightarrow> h1)"

definition no_hits :: dir_hits where
  "no_hits = \<lparr>dh_names = [], dh_rows = [], dh_files = [], dh_total_names = 0, dh_total_matches = 0, dh_too_large = 0,
     dh_chars = 0, dh_cut = False\<rparr>"

fun rows_that_fit :: "nat \<Rightarrow> nat \<Rightarrow> document list \<Rightarrow> document list" where
  "rows_that_fit n chars [] = []"
| "rows_that_fit n chars (row # rows) =
     (if LINE_LIMIT < n + 1 \<or> CHAR_LIMIT < chars + length row + 1 then []
      else row # rows_that_fit (n + 1) (chars + length row + 1) rows)"

definition search_folder :: "reader \<Rightarrow> resolved_path \<Rightarrow> document \<Rightarrow> dir_hits \<times> document list" where
  "search_folder rd r raw =
     (let h = fold (visit rd raw) (walkTree rd (if r_relative r = ''.'' then rd_roots rd else [r])) no_hits
      in (h, rows_that_fit 0 0 (dh_names h @ dh_rows h)))"

definition grepDirRecursive :: "reader \<Rightarrow> resolved_path \<Rightarrow> document \<Rightarrow> document" where
  "grepDirRecursive rd r raw =
     (let (h, shown) = search_folder rd r raw; all_hits = dh_total_names h + dh_total_matches h;
          head_line = words (''['' @ r_relative r @ ''/ keywords='') @ json_text raw @
            words ('' names='' @ show_nat (dh_total_names h) @ '' matches='' @ show_nat (dh_total_matches h) @
              (if 0 < dh_total_matches h then '' files='' @ show_nat (length (dh_files h)) else '''') @
              (if 0 < dh_too_large h then '' over1MB='' @ show_nat (dh_too_large h) else '''') @
              (if length shown < all_hits then '', shown='' @ show_nat (length shown) @ ''/'' @ show_nat all_hits @ '']'' else '']''))
      in join LF (head_line # shown))"

subsection \<open>The tool\<close>

definition fsReadFile :: "reader \<Rightarrow> (string \<Rightarrow> document + resolved_path) \<Rightarrow> string \<Rightarrow> document option \<Rightarrow>
    int option option \<Rightarrow> int option option \<Rightarrow> document + document" where
  "fsReadFile rd resolve path keywords s e =
     (case resolve path of
        Inl message \<Rightarrow> Inl message
      | Inr r \<Rightarrow>
          (case rd_tree rd (r_fsPath r) of
             None \<Rightarrow>
               (let elsewhere = pathsNamed rd (basename (r_fsPath r))
                in Inl (words (''No such file or directory: '' @ r_relative r @
                     (if elsewhere \<noteq> [] then ''. That name is at: '' @ join '', '' elsewhere else ''''))))
           | Some t \<Rightarrow>
               (let wanted = (case keywords of None \<Rightarrow> None | Some raw \<Rightarrow> if js_trim raw = [] then None else Some raw);
                    show = (\<lambda>ls. case wanted of None \<Rightarrow> sliceLines r ls s e | Some raw \<Rightarrow> grepLines rd r ls raw s e)
                in case t of
                     TDir es \<Rightarrow>
                       (case wanted of
                          Some raw \<Rightarrow> Inr (grepDirRecursive rd r raw)
                        | None \<Rightarrow>
                            Inr (show (map (\<lambda>(name, x). words (if is_dir x then name @ ''/'' else name))
                              (sort_entries rd (filter (\<lambda>(name, x). name \<notin> set DIR_IGNORES) es)))))
                   | TSealed \<Rightarrow>
                       (case wanted of Some raw \<Rightarrow> Inr (grepDirRecursive rd r raw) | None \<Rightarrow> Inl (rd_refusal rd))
                   | TOther \<Rightarrow> Inl (rd_refusal rd)
                   | TFile n content \<Rightarrow> (case content of None \<Rightarrow> Inl (rd_refusal rd) | Some t' \<Rightarrow> Inr (show (text_lines t'))))))"

subsection \<open>The window that is shown\<close>

lemma shrink_window_props:
  "shrink_window ls limit a b \<le> b \<and> (b \<le> a \<longrightarrow> shrink_window ls limit a b = b) \<and> (a \<le> b \<longrightarrow> a \<le> shrink_window ls limit a b) \<and>
   (limit < int (length (window ls a (shrink_window ls limit a b))) \<longrightarrow> shrink_window ls limit a b \<le> a) \<and>
   (shrink_window ls limit a b < b \<longrightarrow> limit < int (length (window ls a (shrink_window ls limit a b + 1))))"
proof (induction ls limit a b rule: shrink_window.induct)
  case (1 ls limit a b)
  let ?more = "limit < int (length (window ls a b)) \<and> a < b"
  show ?case
  proof (cases ?more)
    case True
    have eq: "shrink_window ls limit a b = shrink_window ls limit a (b - 1)" using True by (subst shrink_window.simps) simp
    note IH = 1 [OF True]
    show ?thesis
    proof (cases "shrink_window ls limit a (b - 1) = b - 1")
      case last: True
      show ?thesis using IH True unfolding eq last by auto
    next
      case False
      then have "shrink_window ls limit a (b - 1) < b - 1" using IH by linarith
      then show ?thesis using IH True unfolding eq by auto
    qed
  next
    case False
    then have "shrink_window ls limit a b = b" by (subst shrink_window.simps) auto
    then show ?thesis using False by auto
  qed
qed

lemma clampInt_bounds: "lo \<le> hi \<Longrightarrow> lo \<le> clampInt n lo hi \<and> clampInt n lo hi \<le> hi"
  by (auto simp: clampInt_def split: option.split)

lemma clampInt_le: "clampInt n lo hi \<le> max lo hi"
  by (auto simp: clampInt_def split: option.split)

definition char_limit :: "int option option \<Rightarrow> nat" where
  "char_limit e = (if e \<noteq> None then EXPLICIT_RANGE_CHAR_LIMIT else CHAR_LIMIT)"

text \<open>
  The lines that are asked for, of \<open>len\<close>, counted from 1. A start or an end that is a number is taken as it is where it is in the
  document, and as the nearest line that can be meant otherwise; an argument that is no finite number means the first such line.
\<close>

definition first_asked :: "nat \<Rightarrow> int option option \<Rightarrow> int" where
  "first_asked len s = (case s of Some (Some n) \<Rightarrow> max 1 (min n (int len)) | _ \<Rightarrow> 1)"

definition last_asked :: "nat \<Rightarrow> int \<Rightarrow> int option option \<Rightarrow> int" where
  "last_asked len a e =
     min (int len) (case e of None \<Rightarrow> int len | Some None \<Rightarrow> a | Some (Some n) \<Rightarrow> max a n)"

lemma first_asked_clamp: "clampInt (case s of None \<Rightarrow> Some 1 | Some n \<Rightarrow> n) 1 (max 1 (int len)) = first_asked len s"
  by (auto simp: clampInt_def first_asked_def min_def max_def split: option.split)

lemma last_asked_clamp:
  "a \<le> max 1 (int len) \<Longrightarrow> 1 \<le> a \<Longrightarrow> min (int len) (case e of None \<Rightarrow> int len | Some n \<Rightarrow> clampInt n a (int len)) = last_asked len a e"
  by (auto simp: clampInt_def last_asked_def min_def max_def split: option.split)

lemma first_asked_bounds: "1 \<le> first_asked len s" "first_asked len s \<le> max 1 (int len)"
  by (auto simp: first_asked_def min_def max_def split: option.split)

text \<open>The lines from \<open>a\<close> to \<open>b\<close>.\<close>

definition lines_between :: "document list \<Rightarrow> int \<Rightarrow> int \<Rightarrow> document" where
  "lines_between ls a b = join [10] (map (\<lambda>i. ls ! (i - 1)) [nat a..<nat (b + 1)])"

lemma window_lines:
  assumes "1 \<le> a" "b \<le> int (length ls)"
  shows "window ls a b = lines_between ls a b"
proof -
  define p where "p = nat (a - 1)"
  define q where "q = nat b"
  have "take (q - p) (drop p ls) = map (\<lambda>i. ls ! i) [p..<q]"
    using assms(2) by (intro nth_equalityI) (auto simp: q_def)
  moreover have "map (\<lambda>i. ls ! (i - 1)) [Suc p..<Suc q] = map (\<lambda>i. ls ! i) [p..<q]"
    unfolding map_Suc_upt [symmetric] by simp
  moreover have "nat (b - a + 1) = q - p" "nat a = Suc p" "nat (b + 1) = Suc q \<or> q = 0 \<and> nat (b + 1) \<le> Suc 0"
    using assms(1) by (auto simp: p_def q_def)
  ultimately show ?thesis by (auto simp: window_def lines_between_def LF_def p_def [symmetric])
qed

text \<open>C30: what a read shows of a file are whole lines of it, from the one that was asked for on, at most 500 of them and no more
  characters than the limit, 24000 for a range with an end and 4000 otherwise (a single line that is longer is cut); and it ends
  before the last line that was asked for only where the next line would be over one of the limits.\<close>

theorem slice_exact:
  "let a = first_asked (length ls) s; final = last_asked (length ls) a e; limit = (if e = None then 4000 else 24000) in
     \<exists>b. sliceLines r ls s e =
           words (''['' @ r_relative r @ '' '' @ show_int a @ ''-'' @ show_int b @ ''/'' @ show_nat (length ls) @ '']'') @ [10] @
           take limit (lines_between ls a b) \<and>
         b \<le> final \<and> (a \<le> b \<or> final < a) \<and> b - a < 500 \<and> (length (lines_between ls a b) \<le> limit \<or> b \<le> a) \<and>
         (b = final \<or> b - a + 1 = 500 \<or> limit < length (lines_between ls a (b + 1)))"
proof -
  define w where "w = slice_of_lines ls s e"
  define a where "a = first_asked (length ls) s"
  define limit where "limit = (if e = None then 4000 else 24000 :: nat)"
  define final where "final = last_asked (length ls) a e"
  define cap where "cap = min final (a + 499)"
  have a: "1 \<le> a" "a \<le> max 1 (int (length ls))" using first_asked_bounds by (simp_all add: a_def)
  have cap': "min (min (case e of None \<Rightarrow> int (length ls) | Some n \<Rightarrow> clampInt n a (int (length ls))) (a + int LINE_LIMIT - 1)) (int (length ls)) = cap"
    using last_asked_clamp [OF a(2,1), of e] unfolding cap_def final_def LINE_LIMIT_def by linarith
  have limit': "int (if e \<noteq> None then EXPLICIT_RANGE_CHAR_LIMIT else CHAR_LIMIT) = int limit"
    by (simp add: limit_def EXPLICIT_RANGE_CHAR_LIMIT_def CHAR_LIMIT_def)
  have w: "sl_start w = a" "sl_end w = shrink_window ls (int limit) a cap" "sl_body w = take limit (window ls a (sl_end w))"
    unfolding w_def slice_of_lines_def Let_def first_asked_clamp a_def [symmetric] cap' limit' by simp_all
  note sh = shrink_window_props [of ls "int limit" a cap, folded w(2)]
  have "cap \<le> final" "cap \<le> a + 499" by (simp_all add: cap_def)
  then have b: "sl_end w \<le> final" "sl_end w - a < 500" using sh by linarith+
  have len: "final \<le> int (length ls)" by (simp add: final_def last_asked_def)
  have lines: "window ls a (sl_end w) = lines_between ls a (sl_end w)" using a b len by (intro window_lines) simp_all
  have "limit < length (lines_between ls a (sl_end w + 1))" if "sl_end w \<noteq> final" "sl_end w - a + 1 \<noteq> 500"
  proof -
    have "sl_end w < cap" using that b unfolding cap_def by linarith
    moreover have "window ls a (sl_end w + 1) = lines_between ls a (sl_end w + 1)" using that(1) a b len by (intro window_lines) simp_all
    ultimately show ?thesis using sh by simp
  qed
  moreover have "length (lines_between ls a (sl_end w)) \<le> limit \<or> sl_end w \<le> a" using sh unfolding lines by linarith
  moreover have "a \<le> sl_end w \<or> final < a" using sh unfolding cap_def by linarith
  moreover have "sliceLines r ls s e =
      words (''['' @ r_relative r @ '' '' @ show_int a @ ''-'' @ show_int (sl_end w) @ ''/'' @ show_nat (length ls) @ '']'') @ [10] @
      take limit (lines_between ls a (sl_end w))"
    using w(1,3) unfolding sliceLines_def Let_def w_def [symmetric] lines by (simp add: show_i_def show_num_def LF_def words_def)
  ultimately show ?thesis
    using b unfolding Let_def a_def [symmetric] limit_def [symmetric] final_def [symmetric] by blast
qed

text \<open>The second and third of four lines, and a line after them that is not asked for.\<close>

lemma slice_example:
  "let w = slice_of_lines [[1], [2, 3], [4], [5]] (Some (Some 2)) (Some (Some 3)) in
     sl_start w = 2 \<and> sl_end w = 3 \<and> sl_body w = [2, 3, 10, 4]"
  by (simp add: slice_of_lines_def clampInt_def LINE_LIMIT_def EXPLICIT_RANGE_CHAR_LIMIT_def)
    (subst shrink_window.simps, simp add: window_def LF_def eval_nat_numeral)

subsection \<open>What fits\<close>

lemma row_chars_simps [simp]: "row_chars [] = 0" "row_chars (row # rows) = length row + 1 + row_chars rows" "row_chars (xs @ ys) = row_chars xs + row_chars ys"
  by (simp_all add: row_chars_def)

lemma rows_that_fit_bounds:
  "(n \<le> LINE_LIMIT \<longrightarrow> n + length (rows_that_fit n chars rows) \<le> LINE_LIMIT) \<and>
   (chars \<le> CHAR_LIMIT \<longrightarrow> chars + row_chars (rows_that_fit n chars rows) \<le> CHAR_LIMIT) \<and> prefix (rows_that_fit n chars rows) rows"
  by (induction n chars rows rule: rows_that_fit.induct) (auto simp: not_less)

lemma rows_that_fit_append:
  "rows_that_fit n chars (xs @ ys) =
     (if rows_that_fit n chars xs = xs then xs @ rows_that_fit (n + length xs) (chars + row_chars xs) ys else rows_that_fit n chars xs)"
  by (induction n chars xs rule: rows_that_fit.induct) (auto simp: ac_simps)

text \<open>What did not fit before does not fit with more in front of it.\<close>

lemma rows_that_fit_again:
  "n' \<le> n \<Longrightarrow> chars' \<le> chars \<Longrightarrow> rows_that_fit n chars (rows_that_fit n' chars' rows) = rows_that_fit n chars rows"
  by (induction n' chars' rows arbitrary: n chars rule: rows_that_fit.induct) auto

lemma rows_that_fit_take: "rows_that_fit n chars (take (LINE_LIMIT - n) rows) = rows_that_fit n chars rows"
proof (induction n chars rows rule: rows_that_fit.induct)
  case (2 n chars row rows)
  show ?case
  proof (cases "LINE_LIMIT < n + 1 \<or> CHAR_LIMIT < chars + length row + 1")
    case True
    then show ?thesis by (cases "LINE_LIMIT - n") auto
  next
    case False
    then have "n < LINE_LIMIT" by simp
    then have "LINE_LIMIT - n = Suc (LINE_LIMIT - (n + 1))" by (simp add: Suc_diff_Suc)
    then show ?thesis using 2 [OF False] False by simp
  qed
qed simp

subsection \<open>The lines around the hits\<close>

definition near :: "nat list \<Rightarrow> nat \<Rightarrow> bool" where
  "near hits k \<longleftrightarrow> list_ex (\<lambda>j. k \<le> j + 2 \<and> j \<le> k + 2) hits"

definition context_rows :: "document list \<Rightarrow> nat list \<Rightarrow> document list" where
  "context_rows ls hits =
     map (\<lambda>k. (if k \<in> set hits then words ''>>> '' else words ''    '') @ words (show_nat (k + 1)) @ words '': '' @ ls ! k)
       (filter (near hits) [0..<length ls])"

lemma near_context: "near hits k \<longleftrightarrow> list_ex (\<lambda>j. k \<le> j + PATTERN_CONTEXT_LINES \<and> j \<le> k + PATTERN_CONTEXT_LINES) hits"
  by (simp add: near_def PATTERN_CONTEXT_LINES_def)

lemma context_rows_grep: "context_rows ls hits = map (\<lambda>k. grep_row ls (k \<in> set hits) k) (filter (near hits) [0..<length ls])"
  by (simp add: context_rows_def grep_row_def show_num_def if_distrib)

definition chunk_lines :: "chunk list \<Rightarrow> nat list" where
  "chunk_lines cs = concat (map (\<lambda>c. [ch_start c..<ch_end c + 1]) cs)"

definition chunks_ok :: "nat \<Rightarrow> nat list \<Rightarrow> chunk list \<Rightarrow> bool" where
  "chunks_ok len hits cs \<longleftrightarrow>
     chunk_lines cs = filter (near hits) [0..<len] \<and>
     (\<forall>c\<in>set cs. ch_start c \<le> ch_end c \<and> set (ch_hits c) = {k \<in> set hits. ch_start c \<le> k \<and> k \<le> ch_end c}) \<and>
     (hits = [] \<longleftrightarrow> cs = []) \<and>
     (cs \<noteq> [] \<longrightarrow> ch_end (last cs) = min (len - 1) (last hits + PATTERN_CONTEXT_LINES) \<and> ch_start (last cs) \<le> last hits \<and>
        (\<forall>c\<in>set (butlast cs). ch_end c < ch_start (last cs)))"

lemma sorted_le_last:
  assumes "sorted xs" "x \<in> set xs"
  shows "x \<le> last xs"
proof -
  have "butlast xs @ [last xs] = xs" using assms(2) by (auto intro: append_butlast_last_id)
  then have "sorted (butlast xs @ [last xs])" "x \<in> set (butlast xs @ [last xs])" using assms by simp_all
  then show ?thesis by (auto simp: sorted_append)
qed

lemma filter_near_snoc:
  assumes "\<forall>j\<in>set hits. j < i" "i < len" "b = (if hits = [] then 0 else min (len - 1) (last hits + PATTERN_CONTEXT_LINES) + 1)" "sorted hits"
  shows "filter (near (hits @ [i])) [0..<len] =
    filter (near hits) [0..<len] @ [max (i - PATTERN_CONTEXT_LINES) b..<min (len - 1) (i + PATTERN_CONTEXT_LINES) + 1]"
proof -
  let ?P = PATTERN_CONTEXT_LINES
  let ?new = "[max (i - ?P) b..<min (len - 1) (i + ?P) + 1]"
  note le_last = sorted_le_last [OF assms(4)]
  have below: "k < b" if n: "near hits k" and k: "k < len" for k
  proof -
    obtain j where j: "j \<in> set hits" "k \<le> j + ?P" using n by (auto simp: near_context list_ex_iff)
    then have "hits \<noteq> []" by auto
    then show ?thesis using le_last [OF j(1)] j(2) k assms(3) by simp
  qed
  have set_eq: "{k. k < len \<and> near (hits @ [i]) k} = {k. k < len \<and> near hits k} \<union> set ?new"
  proof (intro set_eqI iffI)
    fix k assume k: "k \<in> {k. k < len \<and> near (hits @ [i]) k}"
    show "k \<in> {k. k < len \<and> near hits k} \<union> set ?new"
    proof (cases "near hits k")
      case False
      then have ki: "k \<le> i + ?P" "i \<le> k + ?P" "k < len" using k by (auto simp: near_context)
      have "b \<le> k"
      proof (rule ccontr)
        assume "\<not> b \<le> k"
        then have h: "hits \<noteq> []" "k \<le> last hits + ?P" using assms(3) by (auto split: if_splits)
        then have "last hits < i" using assms(1) by simp
        then have "near hits k" using h ki by (auto simp: near_context list_ex_iff intro!: bexI [of _ "last hits"])
        with False show False by simp
      qed
      then show ?thesis using ki by auto
    qed (use k in auto)
  next
    fix k assume "k \<in> {k. k < len \<and> near hits k} \<union> set ?new"
    then show "k \<in> {k. k < len \<and> near (hits @ [i]) k}" using assms(2) by (auto simp: near_context)
  qed
  show ?thesis
  proof (rule sorted_distinct_set_unique)
    show "sorted (filter (near hits) [0..<len] @ ?new)"
    proof -
      have "x \<le> y" if "x \<in> set (filter (near hits) [0..<len])" "y \<in> set ?new" for x y
      proof -
        have "b \<le> y" using that(2) by (simp only: set_upt atLeastLessThan_iff max.bounded_iff)
        then show ?thesis using below [of x] that(1) by simp
      qed
      moreover have "sorted (filter (near hits) [0..<len])" "sorted ?new"
        by (simp add: sorted_wrt_filter) (rule sorted_upt)
      ultimately show ?thesis unfolding sorted_append by blast
    qed
    have "set (filter (near hits) [0..<len]) \<inter> set ?new = {}"
    proof (rule equals0I)
      fix x assume x: "x \<in> set (filter (near hits) [0..<len]) \<inter> set ?new"
      then have "b \<le> x" by (simp only: Int_iff set_upt atLeastLessThan_iff max.bounded_iff)
      then show False using below [of x] x by simp
    qed
    then show "distinct (filter (near hits) [0..<len] @ ?new)"
      by (simp only: distinct_append distinct_upt distinct_filter simp_thms)
    show "set (filter (near (hits @ [i])) [0..<len]) = set (filter (near hits) [0..<len] @ ?new)"
      using set_eq by auto
  qed (auto intro: sorted_wrt_filter)
qed

lemma chunk_lines_simps [simp]:
  "chunk_lines [] = []" "chunk_lines (c # cs) = [ch_start c..<ch_end c + 1] @ chunk_lines cs" "chunk_lines (cs @ ds) = chunk_lines cs @ chunk_lines ds"
  by (simp_all add: chunk_lines_def)

lemma add_hit_ok:
  assumes ok: "chunks_ok len hits cs" and i: "\<forall>j\<in>set hits. j < i" "i < len" and s: "sorted hits"
  shows "chunks_ok len (hits @ [i]) (add_hit len cs i)"
proof -
  let ?P = PATTERN_CONTEXT_LINES
  define start where "start = i - ?P"
  define stop where "stop = min (len - 1) (i + ?P)"
  note new = filter_near_snoc [OF i refl s, folded start_def stop_def]
  have bounds: "start \<le> i" "i \<le> stop" using i(2) by (simp_all add: start_def stop_def)
  show ?thesis
  proof (cases "cs = []")
    case True
    then have h: "hits = []" using ok by (simp add: chunks_ok_def)
    have "add_hit len cs i = [\<lparr>ch_start = start, ch_end = stop, ch_hits = [i]\<rparr>]"
      using True by (simp add: add_hit_def start_def stop_def)
    moreover have "chunk_lines [\<lparr>ch_start = start, ch_end = stop, ch_hits = [i]\<rparr>] = filter (near (hits @ [i])) [0..<len]"
      using new h by (simp add: near_context)
    moreover have "{k \<in> set ([] @ [i]). start \<le> k \<and> k \<le> stop} = {i}" using bounds by auto
    ultimately show ?thesis unfolding chunks_ok_def h using bounds by (auto simp: stop_def)
  next
    case False
    define c where "c = last cs"
    have cs: "cs = butlast cs @ [c]" using False by (simp add: c_def)
    have h: "hits \<noteq> []" using ok False by (simp add: chunks_ok_def)
    then have last: "last hits < i" using i(1) by simp
    have "c \<in> set cs" using False by (simp add: c_def)
    have old: "chunk_lines cs = filter (near hits) [0..<len]"
      "\<forall>d\<in>set cs. ch_start d \<le> ch_end d \<and> set (ch_hits d) = {k \<in> set hits. ch_start d \<le> k \<and> k \<le> ch_end d}"
      using ok unfolding chunks_ok_def by blast+
    have c: "ch_end c = min (len - 1) (last hits + ?P)" "ch_start c \<le> last hits" "ch_start c \<le> ch_end c"
      "\<forall>d\<in>set (butlast cs). ch_end d < ch_start c"
      "set (ch_hits c) = {k \<in> set hits. ch_start c \<le> k \<and> k \<le> ch_end c}"
      using ok False bspec [OF old(2) \<open>c \<in> set cs\<close>] unfolding chunks_ok_def c_def by blast+
    have below: "k \<le> last hits" if "k \<in> set hits" for k using sorted_le_last [OF s that] .
    have early: "{k \<in> set (hits @ [i]). ch_start d \<le> k \<and> k \<le> ch_end d} = {k \<in> set hits. ch_start d \<le> k \<and> k \<le> ch_end d}"
      if "d \<in> set (butlast cs)" for d
      using that c(2,4) last by fastforce
    note new' = new [unfolded h if_False c(1) [symmetric]]
    have stop: "ch_end c \<le> stop" using c(1) last by (simp add: stop_def)
    show ?thesis
    proof (cases "start \<le> ch_end c + 1")
      case True
      let ?c = "c\<lparr>ch_end := stop, ch_hits := ch_hits c @ [i]\<rparr>"
      have add: "add_hit len cs i = butlast cs @ [?c]"
        unfolding add_hit_def Let_def c_def [symmetric] start_def [symmetric] stop_def [symmetric]
        using True False stop by (simp add: max_absorb2)
      have "[ch_start c..<stop + 1] = [ch_start c..<ch_end c + 1] @ [ch_end c + 1..<stop + 1]"
        using upt_add_eq_append [of "ch_start c" "ch_end c + 1" "stop - ch_end c"] c(3) stop by simp
      moreover have "chunk_lines (butlast cs) @ [ch_start c..<ch_end c + 1] = filter (near hits) [0..<len]"
        using old(1) cs by (metis chunk_lines_simps append_Nil2)
      ultimately have "chunk_lines (butlast cs @ [?c]) = filter (near (hits @ [i])) [0..<len]"
        using new' h True by (simp add: max_absorb2 flip: append_assoc)
      moreover have "set (ch_hits ?c) = {k \<in> set (hits @ [i]). ch_start c \<le> k \<and> k \<le> stop}"
      proof -
        have "k \<le> ch_end c" if "k \<in> set hits" "k \<le> stop" for k
          using below [OF that(1)] that(2) c(1) i(2) last by (simp add: stop_def)
        then show ?thesis using c(2,5) stop last bounds(2) by auto
      qed
      moreover have "\<forall>d\<in>set (butlast cs). ch_start d \<le> ch_end d \<and> set (ch_hits d) = {k \<in> set (hits @ [i]). ch_start d \<le> k \<and> k \<le> ch_end d}"
        using old(2) early by (auto dest: in_set_butlastD)
      ultimately show ?thesis
        unfolding add chunks_ok_def using c(2-4) stop last by (simp add: stop_def)
    next
      case apart: False
      let ?c = "\<lparr>ch_start = start, ch_end = stop, ch_hits = [i]\<rparr>"
      have add: "add_hit len cs i = cs @ [?c]"
        unfolding add_hit_def Let_def c_def [symmetric] start_def [symmetric] stop_def [symmetric] using False apart by simp
      have "chunk_lines (cs @ [?c]) = filter (near (hits @ [i])) [0..<len]"
        using new' old(1) apart by (simp add: max_absorb1)
      moreover have e: "ch_end c = last hits + ?P" using c(1) apart i(2) by (auto simp: start_def min_def split: if_splits)
      then have "{k \<in> set (hits @ [i]). start \<le> k \<and> k \<le> stop} = {i}"
        using below apart bounds by fastforce
      moreover have "\<forall>d\<in>set cs. ch_start d \<le> ch_end d \<and> set (ch_hits d) = {k \<in> set (hits @ [i]). ch_start d \<le> k \<and> k \<le> ch_end d}"
      proof
        fix d assume d: "d \<in> set cs"
        have "ch_end d \<le> ch_end c" using d cs c(3,4) by (metis Un_iff empty_iff insert_iff less_imp_le list.set(1,2) order_refl order_trans set_append)
        then have "ch_end d < i" using apart bounds(1) by simp
        then show "ch_start d \<le> ch_end d \<and> set (ch_hits d) = {k \<in> set (hits @ [i]). ch_start d \<le> k \<and> k \<le> ch_end d}"
          using old(2) d by auto
      qed
      moreover have "\<forall>d\<in>set cs. ch_end d < start"
        using cs c(3,4) apart by (metis Un_iff Suc_eq_plus1 Suc_lessD empty_iff insert_iff less_trans list.set(1,2) not_le not_less_eq order_less_le_trans set_append)
      ultimately show ?thesis
        unfolding add chunks_ok_def using bounds by (simp add: stop_def)
    qed
  qed
qed

lemma hit_chunks_ok:
  assumes "sorted_wrt (<) hits" "\<forall>j\<in>set hits. j < len"
  shows "chunks_ok len hits (hit_chunks len hits)"
  using assms
proof (induction hits rule: rev_induct)
  case Nil
  then show ?case by (simp add: chunks_ok_def hit_chunks_def near_context)
next
  case (snoc i hits)
  have "chunks_ok len hits (hit_chunks len hits)" using snoc by (simp add: sorted_wrt_append)
  moreover have "sorted hits" using snoc.prems(1) by (simp add: sorted_wrt_append strict_sorted_imp_sorted)
  ultimately have "chunks_ok len (hits @ [i]) (add_hit len (hit_chunks len hits) i)"
    using snoc.prems by (intro add_hit_ok) (simp_all add: sorted_wrt_append)
  then show ?case by (simp add: hit_chunks_def)
qed

subsection \<open>What a search of a file shows\<close>

definition rows_of_chunk :: "document list \<Rightarrow> chunk \<Rightarrow> document list" where
  "rows_of_chunk ls c = map (\<lambda>i. grep_row ls (i \<in> set (ch_hits c)) i) [ch_start c..<ch_end c + 1]"

lemma chunk_rows_fit:
  "chunk_rows ls hits n chars acc is = (rows, over) \<Longrightarrow>
     rows = acc @ rows_that_fit (n + length acc) (chars + row_chars acc) (map (\<lambda>i. grep_row ls (i \<in> set hits) i) is) \<and>
     (over \<longleftrightarrow> rows_that_fit (n + length acc) (chars + row_chars acc) (map (\<lambda>i. grep_row ls (i \<in> set hits) i) is) \<noteq>
        map (\<lambda>i. grep_row ls (i \<in> set hits) i) is)"
proof (induction "is" arbitrary: acc)
  case (Cons i "is")
  show ?case
  proof (cases "LINE_LIMIT < n + length acc + 1 \<or> CHAR_LIMIT < chars + row_chars acc + length (grep_row ls (i \<in> set hits) i) + 1")
    case True
    then show ?thesis using Cons.prems by (auto simp: Let_def)
  next
    case False
    then have "chunk_rows ls hits n chars (acc @ [grep_row ls (i \<in> set hits) i]) is = (rows, over)" using Cons.prems by (simp add: Let_def)
    from Cons.IH [OF this] show ?thesis using False by (simp add: ac_simps)
  qed
qed simp

lemma all_chunk_rows_fit:
  assumes "\<forall>c\<in>set cs. ch_start c \<le> ch_end c" "all_chunk_rows ls n chars cs = (shown, over)"
  shows "concat shown = rows_that_fit n chars (concat (map (rows_of_chunk ls) cs)) \<and>
    (over \<longleftrightarrow> concat shown \<noteq> concat (map (rows_of_chunk ls) cs)) \<and> [] \<notin> set shown"
  using assms
proof (induction cs arbitrary: n chars shown over)
  case (Cons c cs)
  obtain rows full where rows: "chunk_rows ls (ch_hits c) n chars [] [ch_start c..<ch_end c + 1] = (rows, full)" by fastforce
  note fit = chunk_rows_fit [OF rows, simplified, folded rows_of_chunk_def]
  have r: "rows = rows_that_fit n chars (rows_of_chunk ls c)" "full \<longleftrightarrow> rows \<noteq> rows_of_chunk ls c"
    using chunk_rows_fit [OF rows] by (simp_all add: rows_of_chunk_def)
  have ne: "rows_of_chunk ls c \<noteq> []" using Cons.prems(1) by (simp add: rows_of_chunk_def)
  show ?case
  proof (cases full)
    case True
    then have "(shown, over) = (if rows = [] then [] else [rows], True)" using Cons.prems(2) rows by (simp add: Let_def split: if_splits)
    moreover have "rows_that_fit n chars (rows_of_chunk ls c @ concat (map (rows_of_chunk ls) cs)) = rows"
      using r True by (simp add: rows_that_fit_append)
    moreover have "rows \<noteq> rows_of_chunk ls c @ rest" for rest
      using r True rows_that_fit_bounds [of n chars "rows_of_chunk ls c"] by (auto simp: prefix_def)
    ultimately show ?thesis by (auto split: if_splits)
  next
    case False
    obtain rest over' where rest: "all_chunk_rows ls (n + length rows) (chars + row_chars rows) cs = (rest, over')" by fastforce
    have s: "shown = rows # rest" "over = over'" using Cons.prems(2) rows rest False r ne by (simp_all add: Let_def)
    have "concat rest = rows_that_fit (n + length rows) (chars + row_chars rows) (concat (map (rows_of_chunk ls) cs))"
      "over' \<longleftrightarrow> concat rest \<noteq> concat (map (rows_of_chunk ls) cs)" "[] \<notin> set rest"
      using Cons.IH [OF _ rest] Cons.prems(1) by simp_all
    then show ?thesis using False r ne by (simp add: s rows_that_fit_append)
  qed
qed simp

lemma chunk_rows_context:
  assumes "chunks_ok (length ls) hits cs"
  shows "concat (map (rows_of_chunk ls) cs) = context_rows ls hits"
proof -
  have "rows_of_chunk ls c = map (\<lambda>k. grep_row ls (k \<in> set hits) k) [ch_start c..<ch_end c + 1]" if "c \<in> set cs" for c
    using assms that unfolding rows_of_chunk_def chunks_ok_def by (intro map_cong refl) auto
  then have "concat (map (rows_of_chunk ls) cs) = concat (map (\<lambda>c. map (\<lambda>k. grep_row ls (k \<in> set hits) k) [ch_start c..<ch_end c + 1]) cs)"
    by (metis (no_types, lifting) map_cong)
  also have "\<dots> = map (\<lambda>k. grep_row ls (k \<in> set hits) k) (chunk_lines cs)"
    by (simp add: chunk_lines_def map_concat comp_def)
  finally show ?thesis using assms by (simp add: context_rows_grep chunks_ok_def)
qed

lemma text_lines_ne [simp]: "text_lines t \<noteq> []"
  by (simp add: text_lines_def)

text \<open>The lines of the range that match, by their positions.\<close>

definition matching_lines :: "reader \<Rightarrow> document list \<Rightarrow> document \<Rightarrow> int option option \<Rightarrow> int option option \<Rightarrow> nat list" where
  "matching_lines rd ls raw s e =
     (let a = first_asked (length ls) s
      in filter (\<lambda>i. a \<le> int i + 1 \<and> int i + 1 \<le> last_asked (length ls) a e \<and> buildKeywordMatcher rd raw (ls ! i)) [0..<length ls])"

lemma matching_exact:
  assumes "ls \<noteq> []"
  shows "matching rd ls raw s e = matching_lines rd ls raw s e"
proof -
  define a where "a = first_asked (length ls) s"
  define b where "b = last_asked (length ls) a e"
  have len: "1 \<le> int (length ls)" using assms by (cases ls) auto
  have a: "1 \<le> a" "a \<le> int (length ls)" using first_asked_bounds [of "length ls" s] len by (simp_all add: a_def)
  have "(case e of None \<Rightarrow> int (length ls) | Some n \<Rightarrow> clampInt n a (int (length ls))) \<le> int (length ls)"
    using a clampInt_bounds [of a "int (length ls)"] by (simp split: option.split)
  then have end_eq: "(case e of None \<Rightarrow> int (length ls) | Some n \<Rightarrow> clampInt n a (int (length ls))) = b"
    using last_asked_clamp [of a "length ls" e] a unfolding b_def by linarith
  have "b \<le> int (length ls)" by (simp add: b_def last_asked_def)
  then have "filter (\<lambda>i. a \<le> int i + 1 \<and> int i + 1 \<le> b) [0..<length ls] = [nat (a - 1)..<nat b]"
    using a by (intro sorted_distinct_set_unique) (auto simp: sorted_wrt_filter)
  then have "filter (\<lambda>i. a \<le> int i + 1 \<and> int i + 1 \<le> b \<and> buildKeywordMatcher rd raw (ls ! i)) [0..<length ls] =
      filter (\<lambda>i. buildKeywordMatcher rd raw (ls ! i)) [nat (a - 1)..<nat b]"
    unfolding filter_filter [symmetric] conj_assoc [symmetric] by simp
  moreover have "matching rd ls raw s e = filter (\<lambda>i. buildKeywordMatcher rd raw (ls ! i)) [nat (a - 1)..<nat b]"
    unfolding matching_def Let_def first_asked_clamp a_def [symmetric] diff_add_cancel end_eq ..
  ultimately show ?thesis by (simp add: matching_lines_def a_def [symmetric] b_def [symmetric] Let_def)
qed

lemma matching_lines_ok: "sorted_wrt (<) (matching_lines rd ls raw s e)" "\<forall>j\<in>set (matching_lines rd ls raw s e). j < length ls"
  by (simp_all add: matching_lines_def Let_def sorted_wrt_filter)

text \<open>As many rows as fit: another one would be too many, or too long.\<close>

definition as_many_as_fit :: "document list \<Rightarrow> document list \<Rightarrow> bool" where
  "as_many_as_fit shown rows \<longleftrightarrow>
     prefix shown rows \<and> length shown \<le> 500 \<and> sum_list (map (\<lambda>row. length row + 1) shown) \<le> 4000 \<and>
     (shown = rows \<or> length shown = 500 \<or>
      4000 < sum_list (map (\<lambda>row. length row + 1) shown) + length (rows ! length shown) + 1)"

lemma rows_that_fit_next:
  "rows_that_fit n chars rows = rows \<or> LINE_LIMIT < n + length (rows_that_fit n chars rows) + 1 \<or>
     CHAR_LIMIT < chars + row_chars (rows_that_fit n chars rows) + length (rows ! length (rows_that_fit n chars rows)) + 1"
  by (induction n chars rows rule: rows_that_fit.induct) auto

lemma rows_that_fit_many: "as_many_as_fit (rows_that_fit 0 0 rows) rows"
  using rows_that_fit_bounds [of 0 0 rows] rows_that_fit_next [of 0 0 rows]
  by (auto simp: as_many_as_fit_def row_chars_def LINE_LIMIT_def CHAR_LIMIT_def)

text \<open>C28: a search of a file finds exactly the lines of the range that match, and shows them with the two lines before and after
  each, every line once, in order and under its own number, those that match marked; all of them, or as many as fit into 500
  lines and 4000 characters, and then it says that there are more.\<close>

theorem grep_exact:
  "let ls = text_lines t; hits = matching_lines rd ls raw s e in
     \<exists>shown. as_many_as_fit (concat shown) (context_rows ls hits) \<and> [] \<notin> set shown \<and>
       grepLines rd r ls raw s e =
         words (''['' @ r_relative r @ '' keywords='') @ json_text raw @ words ('' matches='' @ show_nat (length hits)) @
         (if hits = [] then words '']''
          else words ('' chunks='' @ show_nat (length shown) @ ''/'' @ show_nat (length (hit_chunks (length ls) hits)) @
              (if concat shown = context_rows ls hits then '']'' else '', truncated]'')) @
            [10] @ join ([10] @ words ''---'' @ [10]) (map (join [10]) shown))"
proof -
  define ls where "ls = text_lines t"
  define hits where "hits = matching_lines rd ls raw s e"
  have ne: "ls \<noteq> []" by (simp add: ls_def)
  have ok: "chunks_ok (length ls) hits (hit_chunks (length ls) hits)"
    unfolding hits_def using matching_lines_ok by (intro hit_chunks_ok)
  obtain shown over where all: "all_chunk_rows ls 0 0 (hit_chunks (length ls) hits) = (shown, over)" by fastforce
  have "\<forall>c\<in>set (hit_chunks (length ls) hits). ch_start c \<le> ch_end c" using ok unfolding chunks_ok_def by blast
  note fit = all_chunk_rows_fit [OF this all, unfolded chunk_rows_context [OF ok]]
  have "grepLines rd r ls raw s e =
         words (''['' @ r_relative r @ '' keywords='') @ json_text raw @ words ('' matches='' @ show_nat (length hits)) @
         (if hits = [] then words '']''
          else words ('' chunks='' @ show_nat (length shown) @ ''/'' @ show_nat (length (hit_chunks (length ls) hits)) @
              (if concat shown = context_rows ls hits then '']'' else '', truncated]'')) @
            [10] @ join ([10] @ words ''---'' @ [10]) (map (join [10]) shown))"
    using fit by (simp add: grepLines_def matching_exact [OF ne] hits_def [symmetric] Let_def all show_num_def LF_def words_def)
  moreover have "as_many_as_fit (concat shown) (context_rows ls hits)" "[] \<notin> set shown" using fit rows_that_fit_many by simp_all
  ultimately show ?thesis unfolding Let_def ls_def [symmetric] hits_def [symmetric] by blast
qed

text \<open>Characters are counted with one end for each line; the line of dashes between two chunks is not counted.\<close>

lemma separators_uncounted:
  assumes "[] \<notin> set shown" "shown \<noteq> []"
  shows "length (join (LF @ words ''---'' @ LF) (map (join LF) shown)) + 5 = row_chars (concat shown) + 4 * length shown"
  using assms
proof (induction shown)
  case (Cons rows shown)
  have one: "length (join LF rows) + 1 = row_chars rows" if "rows \<noteq> []" for rows
  proof -
    have "row_chars rows = sum_list (map length rows) + length rows" by (induction rows) simp_all
    then show ?thesis using length_join [OF that, of LF] that by (cases rows) (simp_all add: LF_def)
  qed
  have "rows \<noteq> []" "[] \<notin> set shown" using Cons.prems(1) by auto
  then show ?case using Cons.IH one by (cases shown) (auto simp: join_Cons LF_def words_def)
qed simp

subsection \<open>A walk visits what is there\<close>

definition walked :: "string \<Rightarrow> reader \<Rightarrow> string \<Rightarrow> bool" where
  "walked name rd full \<longleftrightarrow> name \<notin> set DIR_IGNORES \<and> name \<notin> set SEARCH_IGNORES \<and> \<not> rd_hidden rd full"

text \<open>What lies below a folder, by the names that lead there.\<close>

inductive below :: "reader \<Rightarrow> string \<Rightarrow> tree \<Rightarrow> string list \<Rightarrow> tree \<Rightarrow> bool" for rd where
  here: "(name, x) \<in> set es \<Longrightarrow> walked name rd (sub_path dir name) \<Longrightarrow> below rd dir (TDir es) [name] x"
| deeper: "(name, y) \<in> set es \<Longrightarrow> walked name rd (sub_path dir name) \<Longrightarrow> below rd (sub_path dir name) y names x \<Longrightarrow>
    below rd dir (TDir es) (name # names) x"

inductive_simps below_file [simp]: "below rd dir (TFile n c) names x" and below_other [simp]: "below rd dir TOther names x" and
  below_sealed [simp]: "below rd dir TSealed names x" and below_dir: "below rd dir (TDir es) names x"

lemma below_not_empty: "below rd dir t names x \<Longrightarrow> names \<noteq> []"
  by (induction rule: below.induct) simp_all

lemma set_sort_entries [simp]: "set (sort_entries rd es) = set es"
  by (simp add: sort_entries_def)

lemma set_entries_at:
  "set (entries_at rd r dir names (TDir es)) =
     (\<lambda>(name, x). \<lparr>v_name = name, v_names = names @ [name], v_full = sub_path dir name, v_rel = rel_path r (names @ [name]), v_tree = x\<rparr>)
       ` {(name, x) \<in> set es. walked name rd (sub_path dir name)}"
  by (auto simp: entries_at_def walked_def)

lemma walk_stack_visits:
  "(\<exists>v\<in>set (walk_stack rd r stack). v_names v = ns \<and> v_tree v = x) \<longleftrightarrow>
     (\<exists>(dir, names, t)\<in>set stack. \<exists>rest. below rd dir t rest x \<and> ns = names @ rest)"
proof (induction rd r stack rule: walk_stack.induct)
  case (2 rd r dir names t stack)
  let ?vs = "entries_at rd r dir names t"
  have own: "(\<exists>v\<in>set ?vs. v_names v = ns \<and> v_tree v = x) \<or> (\<exists>(d, m, y)\<in>set (subdirs_of ?vs). \<exists>rest. below rd d y rest x \<and> ns = m @ rest) \<longleftrightarrow>
      (\<exists>rest. below rd dir t rest x \<and> ns = names @ rest)"
  proof (cases t)
    case (TDir es)
    have sub: "(\<exists>(d, m, y)\<in>set (subdirs_of ?vs). \<exists>rest. below rd d y rest x \<and> ns = m @ rest) \<longleftrightarrow>
        (\<exists>(name, y)\<in>set es. walked name rd (sub_path dir name) \<and> (\<exists>rest. below rd (sub_path dir name) y rest x \<and> ns = names @ name # rest))"
    proof -
      have "is_dir y" if "below rd d y rest x" for d y rest using that by (cases y) (auto simp: is_dir_def)
      then show ?thesis unfolding subdirs_of_def TDir by (fastforce simp: set_entries_at)
    qed
    show ?thesis unfolding sub unfolding TDir below_dir by (fastforce simp: set_entries_at)
  qed (simp_all add: entries_at_def subdirs_of_def)
  have "(\<exists>v\<in>set (walk_stack rd r ((dir, names, t) # stack)). v_names v = ns \<and> v_tree v = x) \<longleftrightarrow>
      (\<exists>v\<in>set ?vs. v_names v = ns \<and> v_tree v = x) \<or> (\<exists>v\<in>set (walk_stack rd r (subdirs_of ?vs @ stack)). v_names v = ns \<and> v_tree v = x)"
    by (subst walk_stack.simps(2)) (simp add: Let_def bex_Un)
  also have "\<dots> \<longleftrightarrow> (\<exists>v\<in>set ?vs. v_names v = ns \<and> v_tree v = x) \<or>
      (\<exists>(d, m, y)\<in>set (subdirs_of ?vs). \<exists>rest. below rd d y rest x \<and> ns = m @ rest) \<or>
      (\<exists>(d, m, y)\<in>set stack. \<exists>rest. below rd d y rest x \<and> ns = m @ rest)"
    unfolding 2 [OF refl] by (simp add: bex_Un)
  also have "\<dots> \<longleftrightarrow> (\<exists>(d, m, y)\<in>set ((dir, names, t) # stack). \<exists>rest. below rd d y rest x \<and> ns = m @ rest)"
    using own by auto
  finally show ?case .
qed simp

subsection \<open>What a search of a folder shows\<close>

definition name_rows :: "reader \<Rightarrow> document \<Rightarrow> visited list \<Rightarrow> document list" where
  "name_rows rd raw vs =
     map (\<lambda>v. words (v_rel v @ (if is_dir (v_tree v) then ''/'' else ''''))) (filter (\<lambda>v. buildKeywordMatcher rd raw (words (v_name v))) vs)"

definition file_rows :: "reader \<Rightarrow> document \<Rightarrow> visited \<Rightarrow> document list" where
  "file_rows rd raw v =
     (case v_tree v of
        TFile n (Some t) \<Rightarrow>
          if MAX_SEARCHED_FILE_SIZE < n then []
          else map (\<lambda>x. words (v_rel v @ '':'') @ show_num (fst x + 1) @ words '': '' @ shown_line (snd x)) (matched_lines rd raw t)
      | _ \<Rightarrow> [])"

definition line_rows :: "reader \<Rightarrow> document \<Rightarrow> visited list \<Rightarrow> document list" where
  "line_rows rd raw vs = concat (map (file_rows rd raw) vs)"

text \<open>The rows kept so far are those of all that were found that fit.\<close>

definition rows_kept :: "dir_hits \<Rightarrow> document list \<Rightarrow> bool" where
  "rows_kept h all_rows \<longleftrightarrow>
     dh_rows h = rows_that_fit 0 0 all_rows \<and> dh_chars h = row_chars (dh_rows h) \<and> dh_cut h = (dh_rows h \<noteq> all_rows) \<and>
     dh_total_matches h = length all_rows"

lemma add_row_kept:
  assumes "rows_kept h all_rows"
  shows "rows_kept (add_row rel x h) (all_rows @ [words (rel @ '':'') @ show_num (fst x + 1) @ words '': '' @ shown_line (snd x)])"
    "dh_names (add_row rel x h) = dh_names h" "dh_total_names (add_row rel x h) = dh_total_names h"
proof -
  let ?row = "words (rel @ '':'') @ show_num (fst x + 1) @ words '': '' @ shown_line (snd x)"
  have ne: "rows_that_fit 0 0 all_rows \<noteq> all_rows @ [row]" for row
    using rows_that_fit_bounds [of 0 0 all_rows] by (auto simp: prefix_def)
  show "rows_kept (add_row rel x h) (all_rows @ [?row])"
    using assms ne unfolding rows_kept_def add_row_def Let_def by (auto simp: rows_that_fit_append)
  show "dh_names (add_row rel x h) = dh_names h" "dh_total_names (add_row rel x h) = dh_total_names h"
    by (simp_all add: add_row_def Let_def)
qed

lemma add_rows_kept:
  "rows_kept h all_rows \<Longrightarrow>
     rows_kept (fold (add_row rel) xs h) (all_rows @ map (\<lambda>x. words (rel @ '':'') @ show_num (fst x + 1) @ words '': '' @ shown_line (snd x)) xs) \<and>
     dh_names (fold (add_row rel) xs h) = dh_names h \<and> dh_total_names (fold (add_row rel) xs h) = dh_total_names h"
proof (induction xs arbitrary: h all_rows)
  case (Cons x xs)
  from Cons.IH [OF add_row_kept(1) [OF Cons.prems]] show ?case using add_row_kept(2,3) [OF Cons.prems] by simp
qed simp

definition names_kept :: "dir_hits \<Rightarrow> document list \<Rightarrow> bool" where
  "names_kept h all_names \<longleftrightarrow> dh_names h = take LINE_LIMIT all_names \<and> dh_total_names h = length all_names"

lemma visit_kept:
  assumes "rows_kept h (line_rows rd raw vs)" "names_kept h (name_rows rd raw vs)"
  shows "rows_kept (visit rd raw v h) (line_rows rd raw (vs @ [v])) \<and> names_kept (visit rd raw v h) (name_rows rd raw (vs @ [v]))"
proof -
  define h1 where "h1 = (if buildKeywordMatcher rd raw (words (v_name v))
    then h\<lparr>dh_total_names := dh_total_names h + 1,
      dh_names := (if length (dh_names h) < LINE_LIMIT
         then dh_names h @ [words (v_rel v @ (if is_dir (v_tree v) then ''/'' else ''''))] else dh_names h)\<rparr> else h)"
  have r1: "rows_kept h1 (line_rows rd raw vs)" using assms(1) by (simp add: h1_def rows_kept_def)
  have n1: "names_kept h1 (name_rows rd raw (vs @ [v]))"
    using assms(2) by (auto simp: h1_def names_kept_def name_rows_def)
  have v: "visit rd raw v h = (case v_tree v of
      TFile n content \<Rightarrow> (if MAX_SEARCHED_FILE_SIZE < n then h1\<lparr>dh_too_large := dh_too_large h1 + 1\<rparr>
        else case content of None \<Rightarrow> h1 | Some t \<Rightarrow> fold (add_row (v_rel v)) (matched_lines rd raw t) h1)
    | _ \<Rightarrow> h1)"
    unfolding visit_def Let_def h1_def ..
  have rows: "line_rows rd raw (vs @ [v]) = line_rows rd raw vs @ file_rows rd raw v" by (simp add: line_rows_def)
  show ?thesis
    using r1 n1 add_rows_kept [OF r1, of "v_rel v"] unfolding v rows
    by (auto simp: file_rows_def rows_kept_def names_kept_def split: tree.split option.split)
qed

lemma visits_kept:
  "rows_kept (fold (visit rd raw) vs no_hits) (line_rows rd raw vs) \<and> names_kept (fold (visit rd raw) vs no_hits) (name_rows rd raw vs)"
proof (induction vs rule: rev_induct)
  case Nil
  then show ?case by (simp add: rows_kept_def names_kept_def no_hits_def line_rows_def name_rows_def)
qed (simp add: visit_kept)

text \<open>C29: a search of a folder shows, first, every entry below it whose name matches and then every line that matches of the
  files that can be read and are not too large: all of them, or as many as fit into 500 lines and 4000 characters; and the
  numbers it gives are those of all that match. What is walked is exactly what can be reached through folders that are not
  passed over.\<close>

theorem folder_search_exact:
  "(case search_folder rd r raw of
      (h, shown) \<Rightarrow>
        (let vs = walkTree rd (if r_relative r = ''.'' then rd_roots rd else [r]) in
           shown = rows_that_fit 0 0 (name_rows rd raw vs @ line_rows rd raw vs) \<and>
           length shown \<le> LINE_LIMIT \<and> row_chars shown \<le> CHAR_LIMIT \<and>
           dh_total_names h = length (name_rows rd raw vs) \<and> dh_total_matches h = length (line_rows rd raw vs))) \<and>
   (\<forall>names x. (\<exists>v\<in>set (walkTree rd [r]). v_names v = names \<and> v_tree v = x) =
      (case rd_tree rd (r_fsPath r) of None \<Rightarrow> False | Some t \<Rightarrow> below rd (r_fsPath r) t names x))"
proof (intro conjI allI)
  define vs where "vs = walkTree rd (if r_relative r = ''.'' then rd_roots rd else [r])"
  define h where "h = fold (visit rd raw) vs no_hits"
  let ?names = "name_rows rd raw vs" and ?rows = "line_rows rd raw vs"
  have k: "dh_rows h = rows_that_fit 0 0 ?rows" "dh_names h = take LINE_LIMIT ?names"
    "dh_total_names h = length ?names" "dh_total_matches h = length ?rows"
    using visits_kept [of rd raw vs] by (simp_all add: h_def rows_kept_def names_kept_def)
  have fit: "rows_that_fit 0 0 (dh_names h @ dh_rows h) = rows_that_fit 0 0 (?names @ ?rows)"
  proof -
    have names: "rows_that_fit 0 0 (dh_names h) = rows_that_fit 0 0 ?names"
      using rows_that_fit_take [of 0 0 ?names] by (simp add: k(2))
    show ?thesis
    proof (cases "length ?names \<le> LINE_LIMIT")
      case True
      then show ?thesis using k(1,2) by (simp add: rows_that_fit_append rows_that_fit_again)
    next
      case False
      have "rows_that_fit 0 0 ?names \<noteq> ?names" using False rows_that_fit_bounds [of 0 0 ?names] by (metis add_0 le0)
      moreover have "rows_that_fit LINE_LIMIT chars rows = []" for chars rows by (cases rows) simp_all
      ultimately show ?thesis using names k(2) False by (simp add: rows_that_fit_append)
    qed
  qed
  have "search_folder rd r raw = (h, rows_that_fit 0 0 (?names @ ?rows))"
    using fit by (simp add: search_folder_def Let_def vs_def [symmetric] h_def [symmetric])
  then show "case search_folder rd r raw of
      (h, shown) \<Rightarrow>
        (let vs = walkTree rd (if r_relative r = ''.'' then rd_roots rd else [r]) in
           shown = rows_that_fit 0 0 (name_rows rd raw vs @ line_rows rd raw vs) \<and>
           length shown \<le> LINE_LIMIT \<and> row_chars shown \<le> CHAR_LIMIT \<and>
           dh_total_names h = length (name_rows rd raw vs) \<and> dh_total_matches h = length (line_rows rd raw vs))"
    using k(3,4) rows_that_fit_bounds [of 0 0 "?names @ ?rows"] unfolding Let_def vs_def [symmetric] by simp
next
  fix names x
  show "(\<exists>v\<in>set (walkTree rd [r]). v_names v = names \<and> v_tree v = x) =
      (case rd_tree rd (r_fsPath r) of None \<Rightarrow> False | Some t \<Rightarrow> below rd (r_fsPath r) t names x)"
    by (cases "rd_tree rd (r_fsPath r)") (simp_all add: walkTree_def walk_stack_visits)
qed

end
