(* ===== verification/NodeWorkspace.thy ===== *)
theory NodeWorkspace
  imports SessionFiles TextPositions
begin

text \<open>
  The agent's workspace in the harness, confined to the session's repository:
  \<^verbatim>\<open>ts-apps/cloud-agent/src/node-workspace.ts\<close>, with \<^verbatim>\<open>ensureDirNoFollow\<close> of \<^verbatim>\<open>safe-fs.ts\<close>.

  The disk is a map from places to directories, files and symbolic links; a place is the list of the names on the way
  to it, and so is an absolute path that \<^verbatim>\<open>path.resolve\<close> has normalised. The system calls follow links as POSIX does. Each
  call that changes the disk asks whether it works, is refused, or is cut off after some of its text (\<open>os\<close>), and so does
  the fence of the run's lease; the answers are given by the number of the question. A file holds its decoded text. The
  last name of a \<^verbatim>\<open>file:\<close> URI and the text of an error of the system are left out.
\<close>

subsection \<open>The disk\<close>

datatype node = DirNode | FileNode document | LinkNode string

type_synonym place = "string list"

type_synonym disk = "place \<rightharpoonup> node"

datatype errno = ENOENT | ENOTDIR | ELOOP | EEXIST | EISDIR | EIO

definition MAX_LINKS :: nat where
  "MAX_LINKS = 40"

text \<open>The way along some names from a directory, with the number of links that may still be followed.\<close>

function walk :: "disk \<Rightarrow> nat \<Rightarrow> bool \<Rightarrow> place \<Rightarrow> string list \<Rightarrow> errno + place" where
  "walk d n follow cur [] = Inr cur"
| "walk d n follow cur (c # rest) =
     (if d cur \<noteq> Some DirNode then Inl ENOTDIR
      else if c = [] \<or> c = ''.'' then walk d n follow cur rest
      else if c = ''..'' then walk d n follow (butlast cur) rest
      else case d (cur @ [c]) of
        None \<Rightarrow> Inl ENOENT
      | Some (LinkNode target) \<Rightarrow>
          if rest = [] \<and> \<not> follow then Inr (cur @ [c])
          else if n = 0 then Inl ELOOP
          else walk d (n - 1) follow (if starts_with ''/'' target then [] else cur) (slash_parts target @ rest)
      | Some _ \<Rightarrow> walk d n follow (cur @ [c]) rest)"
  by pat_completeness auto
termination
  by (relation "measures [\<lambda>(d, n, f, cur, cs). n, \<lambda>(d, n, f, cur, cs). length cs]") auto

text \<open>\<^verbatim>\<open>realpathSync\<close> and \<^verbatim>\<open>lstat\<close>.\<close>

definition realpath :: "disk \<Rightarrow> place \<Rightarrow> errno + place" where
  "realpath d p = walk d MAX_LINKS True [] p"

definition lstat_place :: "disk \<Rightarrow> place \<Rightarrow> errno + place" where
  "lstat_place d p = walk d MAX_LINKS False [] p"

definition lstat :: "disk \<Rightarrow> place \<Rightarrow> errno + node" where
  "lstat d p =
     (case lstat_place d p of Inl e \<Rightarrow> Inl e | Inr q \<Rightarrow> (case d q of None \<Rightarrow> Inl ENOENT | Some x \<Rightarrow> Inr x))"

subsection \<open>Paths\<close>

definition normalise :: "place \<Rightarrow> string list \<Rightarrow> place" where
  "normalise base parts =
     foldl (\<lambda>cur c. if c = [] \<or> c = ''.'' then cur else if c = ''..'' then butlast cur else cur @ [c]) base parts"

text \<open>\<^verbatim>\<open>path.resolve(base, p)\<close> and \<^verbatim>\<open>path.relative\<close>.\<close>

definition resolve_from :: "place \<Rightarrow> string \<Rightarrow> place" where
  "resolve_from base p = normalise (if starts_with ''/'' p then [] else base) (slash_parts p)"

fun relative_to :: "place \<Rightarrow> place \<Rightarrow> string list" where
  "relative_to (a # as) (b # bs) = (if a = b then relative_to as bs else replicate (Suc (length as)) ''..'' @ b # bs)"
| "relative_to [] bs = bs"
| "relative_to as [] = replicate (length as) ''..''"

definition leaves :: "string list \<Rightarrow> bool" where
  "leaves rel \<longleftrightarrow> rel \<noteq> [] \<and> starts_with ''..'' (hd rel)"

definition path_text :: "string list \<Rightarrow> string" where
  "path_text parts = join ''/'' parts"

definition isGitDir :: "string \<Rightarrow> bool" where
  "isGitDir part \<longleftrightarrow> toLowerCase part = ''.git''"

subsection \<open>State\<close>

datatype ws_throw = Said string | Failed errno

datatype io_answer = IoOk | IoCut nat | IoFails

record os =
  io_says :: "nat \<Rightarrow> io_answer"
  fence_says :: "nat \<Rightarrow> bool"
  byte_size :: "document \<Rightarrow> int"

datatype notice = DidWrite place document bool | DidDelete place

record node_ws =
  root :: place
  realRoot :: place
  turn :: "string option"
  copied :: "(string \<times> place) list"
  disk_of :: disk
  clock :: nat
  told :: "notice list"

type_synonym 'a op = "node_ws \<Rightarrow> (ws_throw + 'a) \<times> node_ws"

definition then_do :: "'a op \<Rightarrow> ('a \<Rightarrow> 'b op) \<Rightarrow> 'b op" where
  "then_do m f = (\<lambda>s. case m s of (Inl e, s') \<Rightarrow> (Inl e, s') | (Inr x, s') \<Rightarrow> f x s')"

definition give :: "'a \<Rightarrow> 'a op" where
  "give x = (\<lambda>s. (Inr x, s))"

definition throw :: "ws_throw \<Rightarrow> 'a op" where
  "throw e = (\<lambda>s. (Inl e, s))"

text \<open>A computation that only looks.\<close>

definition look :: "(node_ws \<Rightarrow> ws_throw + 'a) \<Rightarrow> 'a op" where
  "look f = (\<lambda>s. (f s, s))"

definition tell :: "notice \<Rightarrow> unit op" where
  "tell n = (\<lambda>s. (Inr (), s\<lparr>told := told s @ [n]\<rparr>))"

definition fence_check :: "os \<Rightarrow> unit op" where
  "fence_check e = (\<lambda>s. (if fence_says e (clock s) then Inr () else Inl (Said ''fence''), s\<lparr>clock := clock s + 1\<rparr>))"

subsection \<open>System calls that change the disk\<close>

text \<open>The directory a new entry goes to, and its place.\<close>

definition new_place :: "disk \<Rightarrow> place \<Rightarrow> errno + place" where
  "new_place d p =
     (if p = [] then Inl EEXIST
      else case realpath d (butlast p) of
        Inl e \<Rightarrow> Inl e
      | Inr dir \<Rightarrow>
          if d dir \<noteq> Some DirNode then Inl ENOTDIR
          else if d (dir @ [last p]) \<noteq> None then Inl EEXIST else Inr (dir @ [last p]))"

text \<open>The place of an existing entry that is opened for writing and is not a link.\<close>

definition file_place :: "disk \<Rightarrow> place \<Rightarrow> errno + place" where
  "file_place d p =
     (case lstat_place d p of
        Inl e \<Rightarrow> Inl e
      | Inr q \<Rightarrow>
          (case d q of
             None \<Rightarrow> Inl ENOENT
           | Some DirNode \<Rightarrow> Inl EISDIR
           | Some (LinkNode _) \<Rightarrow> Inl ELOOP
           | Some (FileNode _) \<Rightarrow> Inr q))"

text \<open>What a call does to the place it is about, if it works, and if it is cut off.\<close>

definition os_call :: "os \<Rightarrow> (disk \<Rightarrow> errno + place) \<Rightarrow> node option \<Rightarrow> (nat \<Rightarrow> node option) \<Rightarrow> unit op" where
  "os_call e where_to whole part =
     (\<lambda>s. let s' = s\<lparr>clock := clock s + 1\<rparr>
          in case where_to (disk_of s) of
               Inl err \<Rightarrow> (Inl (Failed err), s')
             | Inr q \<Rightarrow>
                 (case io_says e (clock s) of
                    IoOk \<Rightarrow> (Inr (), s'\<lparr>disk_of := (disk_of s)(q := whole)\<rparr>)
                  | IoCut k \<Rightarrow> (Inl (Failed EIO), s'\<lparr>disk_of := (disk_of s)(q := part k)\<rparr>)
                  | IoFails \<Rightarrow> (Inl (Failed EIO), s')))"

definition os_mkdir :: "os \<Rightarrow> place \<Rightarrow> unit op" where
  "os_mkdir e p = os_call e (\<lambda>d. new_place d p) (Some DirNode) (\<lambda>_. Some DirNode)"

text \<open>\<^verbatim>\<open>O_CREAT | O_EXCL | O_NOFOLLOW\<close>, and \<^verbatim>\<open>O_TRUNC | O_NOFOLLOW\<close>; then the text is written.\<close>

definition os_create :: "os \<Rightarrow> place \<Rightarrow> document \<Rightarrow> unit op" where
  "os_create e p t = os_call e (\<lambda>d. new_place d p) (Some (FileNode t)) (\<lambda>k. Some (FileNode (take k t)))"

definition os_overwrite :: "os \<Rightarrow> place \<Rightarrow> document \<Rightarrow> unit op" where
  "os_overwrite e p t = os_call e (\<lambda>d. file_place d p) (Some (FileNode t)) (\<lambda>k. Some (FileNode (take k t)))"

text \<open>\<^verbatim>\<open>O_CREAT | O_TRUNC | O_NOFOLLOW\<close>.\<close>

definition os_put :: "os \<Rightarrow> place \<Rightarrow> document \<Rightarrow> unit op" where
  "os_put e p t =
     os_call e (\<lambda>d. case file_place d p of Inl ENOENT \<Rightarrow> new_place d p | r \<Rightarrow> r)
       (Some (FileNode t)) (\<lambda>k. Some (FileNode (take k t)))"

text \<open>\<^verbatim>\<open>unlink\<close>: a link itself is removed.\<close>

definition os_unlink :: "os \<Rightarrow> place \<Rightarrow> unit op" where
  "os_unlink e p =
     os_call e (\<lambda>d. case lstat_place d p of
         Inl err \<Rightarrow> Inl err
       | Inr q \<Rightarrow> (case d q of None \<Rightarrow> Inl ENOENT | Some DirNode \<Rightarrow> Inl EISDIR | Some _ \<Rightarrow> Inr q)) None (\<lambda>_. None)"

subsection \<open>What is allowed\<close>

text \<open>Where a path really is: the real path of its nearest existing ancestor, and what does not exist yet.\<close>

function real_of :: "disk \<Rightarrow> place \<Rightarrow> string list \<Rightarrow> ws_throw option + place" where
  "real_of d probe missing =
     (case realpath d probe of
        Inr real \<Rightarrow> Inr (real @ missing)
      | Inl err \<Rightarrow>
          if err = ENOENT \<or> err = ENOTDIR then
            (if probe = [] then Inl None else real_of d (butlast probe) (last probe # missing))
          else Inl (Some (Failed err)))"
  by pat_completeness auto
termination
  by (relation "measure (\<lambda>(d, probe, missing). length probe)") (auto split: if_splits)

declare real_of.simps [simp del]

definition realRelative :: "node_ws \<Rightarrow> place \<Rightarrow> string \<Rightarrow> ws_throw + string list" where
  "realRelative s p display =
     (case real_of (disk_of s) p [] of
        Inl None \<Rightarrow> Inl (Said (''Path is outside the session workspace: '' @ display))
      | Inl (Some err) \<Rightarrow> Inl err
      | Inr real \<Rightarrow>
          (let rel = relative_to (realRoot s) real
           in if leaves rel then Inl (Said (''Path leaves the session workspace through a link: '' @ display))
              else if list_ex isGitDir rel
              then Inl (Said (''Path is inside .git, which the agent may not touch: '' @ display))
              else Inr rel))"

definition dotted :: "string list \<Rightarrow> string" where
  "dotted rel = (if rel = [] then ''.'' else path_text rel)"

record located =
  l_relative :: string
  l_path :: place

definition resolvePath :: "node_ws \<Rightarrow> string \<Rightarrow> ws_throw + located" where
  "resolvePath s p =
     (if p = [] then Inl (Said ''path is required'')
      else if CHR 0x00 \<in> set p then Inl (Said ''invalid path'')
      else
        (let absolute = resolve_from (root s) p; rel = relative_to (root s) absolute
         in if leaves rel then
              Inl (Said (''Path is outside the session workspace: '' @ p @
                ''. fs tools only operate on files inside the session's repository ('' @ REPO_DATA_DIR @ ''/, '' @ REPO_TMP_DIR @ ''/).''))
            else if list_ex isGitDir rel
            then Inl (Said (''Path is inside .git, which the agent may not touch: '' @ p))
            else case realRelative s absolute p of
              Inl err \<Rightarrow> Inl err
            | Inr _ \<Rightarrow> Inr \<lparr>l_relative = dotted rel, l_path = absolute\<rparr>))"

definition assertInside :: "node_ws \<Rightarrow> place \<Rightarrow> ws_throw + string list" where
  "assertInside s p =
     (let rel = relative_to (root s) p
      in if leaves rel \<or> list_ex isGitDir rel then Inl (Said ''Path is outside the session workspace'')
         else realRelative s p (dotted rel))"

fun assertNoLinks :: "disk \<Rightarrow> place \<Rightarrow> string list \<Rightarrow> string \<Rightarrow> ws_throw + unit" where
  "assertNoLinks d cur [] display = Inr ()"
| "assertNoLinks d cur (part # parts) display =
     (case lstat d (cur @ [part]) of
        Inl err \<Rightarrow> if err = ENOENT \<or> err = ENOTDIR then Inr () else Inl (Failed err)
      | Inr (LinkNode _) \<Rightarrow>
          Inl (Said (''Path goes through a symbolic link, which the agent may not write through: '' @ display))
      | Inr _ \<Rightarrow> assertNoLinks d (cur @ [part]) parts display)"

definition writable :: "node_ws \<Rightarrow> place \<Rightarrow> bool \<Rightarrow> ws_throw + unit" where
  "writable s p linkAtEnd =
     (case assertInside s p of
        Inl err \<Rightarrow> Inl err
      | Inr real \<Rightarrow>
          (let rel = relative_to (root s) p
           in case assertNoLinks (disk_of s) (root s) (relative_to (root s) (if linkAtEnd then butlast p else p)) (dotted rel) of
                Inl err \<Rightarrow> Inl err
              | Inr _ \<Rightarrow>
                  if \<not> isModelWritableRepoPath (path_text rel) \<or> \<not> isModelWritableRepoPath (path_text real)
                  then Inl (Said (dotted rel @ '' can't be changed: you may only create, edit or delete files inside '' @ REPO_DATA_DIR @
                    ''/ (the session files) and '' @ REPO_TMP_DIR @
                    ''/ (your scratch space). Everything else in the repository is platform metadata.''))
                  else Inr ()))"

definition assertWritable :: "os \<Rightarrow> place \<Rightarrow> bool \<Rightarrow> unit op" where
  "assertWritable e p linkAtEnd = then_do (fence_check e) (\<lambda>_. look (\<lambda>s. writable s p linkAtEnd))"

subsection \<open>Directories\<close>

text \<open>Making one that is missing: that it is there meanwhile is no error, but it must be a directory.\<close>

definition make_dir :: "os \<Rightarrow> place \<Rightarrow> unit op" where
  "make_dir e p =
     (\<lambda>s. case os_mkdir e p s of
        (Inl err, s') \<Rightarrow>
          if err = Failed EEXIST
          then ((case lstat (disk_of s') p of Inr DirNode \<Rightarrow> Inr () | Inl er \<Rightarrow> Inl (Failed er) | _ \<Rightarrow> Inl (Said ''not a directory'')), s')
          else (Inl err, s')
      | (Inr _, s') \<Rightarrow>
          ((case lstat (disk_of s') p of Inr DirNode \<Rightarrow> Inr () | Inl er \<Rightarrow> Inl (Failed er) | _ \<Rightarrow> Inl (Said ''not a directory'')), s'))"

fun ensure_dirs :: "os \<Rightarrow> place \<Rightarrow> string list \<Rightarrow> unit op" where
  "ensure_dirs e cur [] = give ()"
| "ensure_dirs e cur (part # parts) =
     (\<lambda>s. case lstat (disk_of s) (cur @ [part]) of
        Inl ENOENT \<Rightarrow> then_do (make_dir e (cur @ [part])) (\<lambda>_. ensure_dirs e (cur @ [part]) parts) s
      | Inl err \<Rightarrow> (Inl (Failed err), s)
      | Inr DirNode \<Rightarrow> ensure_dirs e (cur @ [part]) parts s
      | Inr _ \<Rightarrow> (Inl (Said ''not a directory''), s))"

definition ensureDirNoFollow :: "os \<Rightarrow> place \<Rightarrow> place \<Rightarrow> unit op" where
  "ensureDirNoFollow e base dir =
     (let rel = relative_to base dir
      in if leaves rel then throw (Said ''directory outside its base'') else ensure_dirs e base rel)"

subsection \<open>Reading\<close>

definition MAX_READ_BYTES :: int where
  "MAX_READ_BYTES = 10 * 1024 * 1024"

datatype ws_stat = Stat bool bool int

definition stat :: "os \<Rightarrow> node_ws \<Rightarrow> place \<Rightarrow> ws_throw + ws_stat option" where
  "stat e s p =
     (case assertInside s p of
        Inl err \<Rightarrow> Inl err
      | Inr _ \<Rightarrow>
          (case lstat (disk_of s) p of
             Inl ENOENT \<Rightarrow> Inr None
           | Inl err \<Rightarrow> Inl (Failed err)
           | Inr DirNode \<Rightarrow> Inr (Some (Stat True False 0))
           | Inr (FileNode t) \<Rightarrow> Inr (Some (Stat False True (byte_size e t)))
           | Inr (LinkNode t) \<Rightarrow> Inr (Some (Stat False False (int (length t))))))"

text \<open>Opening without following a link, and the text of the regular file, if it is not too large.\<close>

definition open_file :: "os \<Rightarrow> disk \<Rightarrow> place \<Rightarrow> int \<Rightarrow> ws_throw + document" where
  "open_file e d p limit =
     (case lstat d p of
        Inl err \<Rightarrow> Inl (Failed err)
      | Inr (LinkNode _) \<Rightarrow> Inl (Failed ELOOP)
      | Inr DirNode \<Rightarrow> Inl (Said ''Not a regular file'')
      | Inr (FileNode t) \<Rightarrow> if limit < byte_size e t then Inl (Said ''File is too large to read'') else Inr t)"

definition readFile :: "os \<Rightarrow> node_ws \<Rightarrow> place \<Rightarrow> ws_throw + document" where
  "readFile e s p =
     (case assertInside s p of Inl err \<Rightarrow> Inl err | Inr _ \<Rightarrow> open_file e (disk_of s) p MAX_READ_BYTES)"

text \<open>With its line ends: the text has one \<^verbatim>\<open>\r\n\<close>.\<close>

fun has_crlf_in :: "document \<Rightarrow> bool" where
  "has_crlf_in (a # b # t) = (a = 13 \<and> b = 10 \<or> has_crlf_in (b # t))"
| "has_crlf_in t = False"

definition readDocument :: "os \<Rightarrow> node_ws \<Rightarrow> place \<Rightarrow> ws_throw + document \<times> bool" where
  "readDocument e s p = (case readFile e s p of Inl err \<Rightarrow> Inl err | Inr t \<Rightarrow> Inr (t, has_crlf_in t))"

definition hiddenFromSearch :: "node_ws \<Rightarrow> place \<Rightarrow> bool" where
  "hiddenFromSearch s p \<longleftrightarrow> p = root s @ slash_parts REPO_DELETED_DIR"

subsection \<open>Changing\<close>

definition setTurn :: "string option \<Rightarrow> node_ws \<Rightarrow> node_ws" where
  "setTurn t s = s\<lparr>turn := (case t of None \<Rightarrow> None | Some i \<Rightarrow> if OPAQUE_ID_RE i then Some i else None)\<rparr>"

definition ensureLayout :: "os \<Rightarrow> unit op" where
  "ensureLayout e =
     then_do (fence_check e) (\<lambda>_ s.
       then_do (ensureDirNoFollow e (root s) (root s @ [REPO_DATA_DIR]))
         (\<lambda>_. ensureDirNoFollow e (root s) (root s @ [REPO_TMP_DIR])) s)"

definition ws_createFile :: "os \<Rightarrow> located \<Rightarrow> document \<Rightarrow> unit op" where
  "ws_createFile e target content =
     then_do (assertWritable e (l_path target) False) (\<lambda>_ s.
     then_do (ensureDirNoFollow e (root s) (butlast (l_path target))) (\<lambda>_.
     then_do (assertWritable e (l_path target) False) (\<lambda>_.
     then_do (os_create e (l_path target) content) (\<lambda>_.
     tell (DidWrite (l_path target) content True)))) s)"

text \<open>A replacement, and the replacements of one file from its end to its beginning.\<close>

record text_edit =
  te_path :: place
  startOffset :: int
  endOffset :: int
  newText :: document

fun apply_down :: "text_edit list \<Rightarrow> int \<Rightarrow> document \<Rightarrow> document option" where
  "apply_down [] limit t = Some t"
| "apply_down (x # xs) limit t =
     (if startOffset x < 0 \<or> endOffset x < startOffset x \<or> limit < endOffset x then None
      else apply_down xs (startOffset x) (take (nat (startOffset x)) t @ newText x @ drop (nat (endOffset x)) t))"

definition edited_text :: "text_edit list \<Rightarrow> document \<Rightarrow> document option" where
  "edited_text xs t = apply_down (sort_key (\<lambda>x. - startOffset x) xs) (int (length t)) t"

definition by_path :: "text_edit list \<Rightarrow> (place, text_edit list) jsmap" where
  "by_path xs = fold (\<lambda>x m. jm_set (te_path x) ((case jm_get m (te_path x) of None \<Rightarrow> [] | Some l \<Rightarrow> l) @ [x]) m) xs []"

text \<open>The new texts of all files, and then the writes.\<close>

fun new_texts :: "os \<Rightarrow> (place, text_edit list) jsmap \<Rightarrow> (place \<times> document) list op" where
  "new_texts e [] = give []"
| "new_texts e ((p, xs) # rest) =
     then_do (assertWritable e p False) (\<lambda>_.
     then_do (look (\<lambda>s. readFile e s p)) (\<lambda>t.
     case edited_text xs t of
       None \<Rightarrow> throw (Said ''Invalid or overlapping edit'')
     | Some t' \<Rightarrow> then_do (new_texts e rest) (\<lambda>r. give ((p, t') # r))))"

fun write_texts :: "os \<Rightarrow> (place \<times> document) list \<Rightarrow> unit op" where
  "write_texts e [] = give ()"
| "write_texts e ((p, t) # rest) =
     then_do (os_overwrite e p t) (\<lambda>_.
     then_do (tell (DidWrite p t False)) (\<lambda>_.
     write_texts e rest))"

definition applyEdits :: "os \<Rightarrow> text_edit list \<Rightarrow> unit op" where
  "applyEdits e xs = then_do (new_texts e (by_path xs)) (\<lambda>r. write_texts e r)"

definition MAX_COPY_BYTES :: int where
  "MAX_COPY_BYTES = 50 * 1024 * 1024"

text \<open>The copy of a file before it is deleted; what it throws is only logged.\<close>

definition put_aside :: "os \<Rightarrow> place \<Rightarrow> document \<Rightarrow> unit op" where
  "put_aside e dest t =
     (\<lambda>s. then_do (ensureDirNoFollow e (root s) (butlast dest)) (\<lambda>_.
          then_do (assertWritable e dest False) (\<lambda>_. os_create e dest t)) s)"

definition note_copied :: "string \<Rightarrow> place \<Rightarrow> (ws_throw + unit) \<times> node_ws \<Rightarrow> (ws_throw + unit) \<times> node_ws" where
  "note_copied turnId rel r =
     (case r of (res, s) \<Rightarrow>
        if res = Inr () \<or> res = Inl (Failed EEXIST) then (Inr (), s\<lparr>copied := copied s @ [(turnId, rel)]\<rparr>) else (Inr (), s))"

definition copyBeforeDelete :: "os \<Rightarrow> place \<Rightarrow> unit op" where
  "copyBeforeDelete e p s =
     (let rel = relative_to (root s @ [REPO_DATA_DIR]) p
      in case turn s of
           None \<Rightarrow> (Inr (), s)
         | Some turnId \<Rightarrow>
             (if rel = [] \<or> leaves rel \<or> (turnId, rel) \<in> set (copied s) then (Inr (), s)
              else case deletedCopyPath turnId (path_text rel) of
                Inl msg \<Rightarrow> (Inl (Said msg), s)
              | Inr to \<Rightarrow>
                  (case lstat (disk_of s) p of
                     Inr (FileNode t) \<Rightarrow>
                       (if MAX_COPY_BYTES < byte_size e t then (Inr (), s)
                        else note_copied turnId rel (put_aside e (root s @ slash_parts to) t s))
                   | _ \<Rightarrow> (Inr (), s))))"

definition ws_deleteFile :: "os \<Rightarrow> located \<Rightarrow> unit op" where
  "ws_deleteFile e target =
     then_do (assertWritable e (l_path target) True) (\<lambda>_ s.
       case lstat (disk_of s) (l_path target) of
         Inl err \<Rightarrow> (Inl (Failed err), s)
       | Inr DirNode \<Rightarrow> (Inl (Said (''Refusing to delete a directory: '' @ l_relative target)), s)
       | Inr _ \<Rightarrow>
           then_do (copyBeforeDelete e (l_path target)) (\<lambda>_.
           then_do (os_unlink e (l_path target)) (\<lambda>_.
           tell (DidDelete (l_path target)))) s)"

text \<open>A file from outside; \<open>source\<close> is its text if it is a regular file that can be opened and is not too large.\<close>

definition importFile :: "os \<Rightarrow> document option \<Rightarrow> string \<Rightarrow> bool op" where
  "importFile e source repoRelPath =
     (\<lambda>s. let dest = normalise (root s) (slash_parts repoRelPath)
      in then_do (assertWritable e dest False) (\<lambda>_ s1.
           case source of
             None \<Rightarrow> (Inr False, s1)
           | Some t \<Rightarrow>
               (let existing = lstat (disk_of s1) dest
                in if (case existing of Inr (FileNode _) \<Rightarrow> False | Inr _ \<Rightarrow> True | Inl _ \<Rightarrow> False) then (Inr False, s1)
                   else
                     then_do (ensureDirNoFollow e (root s1) (butlast dest)) (\<lambda>_.
                     then_do (assertWritable e dest False) (\<lambda>_.
                     then_do (os_put e dest t) (\<lambda>_.
                     then_do (tell (DidWrite dest t (case existing of Inl _ \<Rightarrow> True | Inr _ \<Rightarrow> False))) (\<lambda>_. give True)))) s1)) s)"

subsection \<open>Walking\<close>

definition clean_place :: "place \<Rightarrow> bool" where
  "clean_place p \<longleftrightarrow> list_all (\<lambda>c. \<not> dot_part c \<and> CHR ''/'' \<notin> set c) p"

lemma clean_place_simps [simp]:
  "clean_place []" "clean_place (c # p) \<longleftrightarrow> (\<not> dot_part c \<and> CHR ''/'' \<notin> set c) \<and> clean_place p"
  "clean_place (p @ q) \<longleftrightarrow> clean_place p \<and> clean_place q"
  by (auto simp: clean_place_def)

definition is_link :: "node option \<Rightarrow> bool" where
  "is_link x \<longleftrightarrow> (\<exists>t. x = Some (LinkNode t))"

lemma is_link_simps [simp]:
  "\<not> is_link None" "\<not> is_link (Some DirNode)" "\<not> is_link (Some (FileNode t))" "is_link (Some (LinkNode l))"
  by (auto simp: is_link_def)

lemma walk_step:
  assumes "\<not> dot_part c"
  shows "walk d n f cur (c # rest) =
     (if d cur \<noteq> Some DirNode then Inl ENOTDIR
      else case d (cur @ [c]) of
        None \<Rightarrow> Inl ENOENT
      | Some (LinkNode target) \<Rightarrow>
          if rest = [] \<and> \<not> f then Inr (cur @ [c])
          else if n = 0 then Inl ELOOP
          else walk d (n - 1) f (if starts_with ''/'' target then [] else cur) (slash_parts target @ rest)
      | Some _ \<Rightarrow> walk d n f (cur @ [c]) rest)"
  using assms by (simp add: dot_part_def)

declare walk.simps(2) [simp del]

text \<open>Through directories.\<close>

lemma walk_dirs:
  "clean_place xs \<Longrightarrow> \<forall>k\<le>length xs. d (cur @ take k xs) = Some DirNode \<Longrightarrow> walk d n f cur (xs @ ys) = walk d n f (cur @ xs) ys"
proof (induction xs arbitrary: cur)
  case (Cons c xs)
  have "d cur = Some DirNode" using Cons.prems(2) [rule_format, of 0] by simp
  moreover have "d (cur @ [c]) = Some DirNode" using Cons.prems(2) [rule_format, of 1] by simp
  moreover have "\<forall>k\<le>length xs. d ((cur @ [c]) @ take k xs) = Some DirNode"
    using Cons.prems(2) by (metis Suc_le_mono append.assoc append_Cons append_Nil length_Cons take_Suc_Cons)
  ultimately show ?case using Cons by (simp add: walk_step)
qed simp

definition wf_disk :: "disk \<Rightarrow> bool" where
  "wf_disk d \<longleftrightarrow> (\<forall>p c. d (p @ [c]) \<noteq> None \<longrightarrow> d p = Some DirNode)"

lemma wf_below:
  assumes "wf_disk d" "d p \<noteq> Some DirNode" "ys \<noteq> []"
  shows "d (p @ ys) = None"
  using assms(3)
proof (induction ys rule: rev_nonempty_induct)
  case (single y)
  then show ?case using assms(1,2) unfolding wf_disk_def by metis
next
  case (snoc y ys)
  then show ?case using assms(1) unfolding wf_disk_def by (metis append.assoc option.distinct(1))
qed

text \<open>Along names none of which, the last aside, is a link.\<close>

lemma walk_plain:
  assumes "wf_disk d" "clean_place xs" "d cur \<noteq> None" "\<forall>k. 0 < k \<and> k < length xs \<longrightarrow> \<not> is_link (d (cur @ take k xs))"
    "\<not> f \<or> \<not> is_link (d (cur @ xs)) \<or> xs = []"
  shows "if d (cur @ xs) = None then walk d n f cur xs \<in> {Inl ENOENT, Inl ENOTDIR} else walk d n f cur xs = Inr (cur @ xs)"
  using assms(2-5)
proof (induction xs arbitrary: cur)
  case (Cons c xs)
  have dot: "\<not> dot_part c" using Cons.prems(1) by simp
  have None: "d (p @ c' # ys) = None" if "d p \<noteq> Some DirNode" for p c' ys
    by (rule wf_below [OF assms(1) that]) simp
  show ?case
  proof (cases "d cur = Some DirNode")
    case False
    then show ?thesis using None [OF False] by (simp add: walk_step [OF dot])
  next
    case dir: True
    show ?thesis
    proof (cases "d (cur @ [c])")
      case N: None
      then have "d (cur @ c # xs) = None" using None [of "cur @ [c]"] by (cases xs) auto
      then show ?thesis using dir N by (simp add: walk_step [OF dot])
    next
      case (Some x)
      show ?thesis
      proof (cases "is_link (Some x)")
        case True
        have "xs = []" using Cons.prems(3) [rule_format, of 1] True Some by (cases xs) auto
        moreover have "\<not> f" using Cons.prems(4) True Some \<open>xs = []\<close> by simp
        ultimately show ?thesis using dir Some True by (auto simp: walk_step [OF dot] is_link_def)
      next
        case False
        have "\<not> is_link (d ((cur @ [c]) @ take k xs))" if "0 < k" "k < length xs" for k
          using Cons.prems(3) [rule_format, of "Suc k"] that by simp
        moreover have "\<not> f \<or> \<not> is_link (d ((cur @ [c]) @ xs)) \<or> xs = []" using Cons.prems(4) by auto
        ultimately have "if d ((cur @ [c]) @ xs) = None then walk d n f (cur @ [c]) xs \<in> {Inl ENOENT, Inl ENOTDIR}
            else walk d n f (cur @ [c]) xs = Inr ((cur @ [c]) @ xs)"
          using Cons.IH [of "cur @ [c]"] Cons.prems(1) Some by auto
        moreover have "walk d n f cur (c # xs) = walk d n f (cur @ [c]) xs"
          using dir Some False by (cases x) (auto simp: walk_step [OF dot])
        ultimately show ?thesis by (simp only: append.assoc append_Cons append_Nil)
      qed
    qed
  qed
qed simp

text \<open>A place that can be opened without following a link at its end is where following would lead, too.\<close>

lemma walk_follow:
  "walk d n False cur ps = Inr q \<Longrightarrow> \<not> is_link (d q) \<Longrightarrow> walk d n True cur ps = Inr q"
proof (induction d n False cur ps rule: walk.induct)
  case (2 d n cur c rest)
  show ?case
  proof (cases "d cur \<noteq> Some DirNode \<or> c = [] \<or> c = ''.'' \<or> c = ''..''")
    case True
    then show ?thesis using 2 by (auto simp: walk.simps(2) split: if_splits)
  next
    case False
    then show ?thesis
      using 2 by (auto simp: walk.simps(2) split: option.splits node.splits if_splits)
  qed
qed simp

lemma relative_stays:
  assumes "\<not> leaves (relative_to r p)"
  shows "p = r @ relative_to r p"
  using assms by (induction r p rule: relative_to.induct) (auto simp: leaves_def starts_with_def split: if_splits)

lemma relative_append [simp]: "relative_to r (r @ p) = p"
  by (induction r) simp_all

subsection \<open>What a write may touch\<close>

definition in_area :: "string list \<Rightarrow> bool" where
  "in_area rel \<longleftrightarrow> rel \<noteq> [] \<and> hd rel \<in> {REPO_DATA_DIR, REPO_TMP_DIR} \<and> clean_place rel \<and> \<not> list_ex isGitDir rel"

text \<open>The state of a workspace whose root is a directory, reached through no link.\<close>

definition ws_ok :: "node_ws \<Rightarrow> bool" where
  "ws_ok s \<longleftrightarrow> wf_disk (disk_of s) \<and> realRoot s = root s \<and> clean_place (root s) \<and>
     (\<forall>k\<le>length (root s). disk_of s (take k (root s)) = Some DirNode)"

text \<open>A path below \<^verbatim>\<open>data/\<close> or \<^verbatim>\<open>tmp/\<close>, or one of these, with no link on the way.\<close>

definition plain :: "place \<Rightarrow> node_ws \<Rightarrow> bool" where
  "plain p s \<longleftrightarrow> (\<exists>rel. p = root s @ rel \<and> in_area rel \<and>
     (\<forall>k. 0 < k \<and> k < length rel \<longrightarrow> \<not> is_link (disk_of s (root s @ take k rel))))"

definition strictly :: "place \<Rightarrow> node_ws \<Rightarrow> bool" where
  "strictly p s \<longleftrightarrow> plain p s \<and> length (root s) + 2 \<le> length p"

text \<open>What may have changed between two states.\<close>

definition confined :: "node_ws \<Rightarrow> node_ws \<Rightarrow> bool" where
  "confined s s' \<longleftrightarrow> root s' = root s \<and> realRoot s' = realRoot s \<and>
     (\<forall>q. disk_of s' q \<noteq> disk_of s q \<longrightarrow>
        (\<exists>rel. q = root s @ rel \<and> in_area rel \<and> (2 \<le> length rel \<or> disk_of s q = None)) \<and>
        \<not> is_link (disk_of s' q) \<and> disk_of s q \<noteq> Some DirNode)"

lemma confined_refl [simp]: "confined s s"
  by (simp add: confined_def)

lemma confined_same: "root s' = root s \<Longrightarrow> realRoot s' = realRoot s \<Longrightarrow> disk_of s' = disk_of s \<Longrightarrow> confined s s'"
  by (simp add: confined_def)

lemma confined_dir: "confined s s' \<Longrightarrow> disk_of s q = Some DirNode \<Longrightarrow> disk_of s' q = Some DirNode"
  by (metis confined_def)

lemma confined_link: "confined s s' \<Longrightarrow> \<not> is_link (disk_of s q) \<Longrightarrow> \<not> is_link (disk_of s' q)"
  by (metis confined_def)

lemma confined_trans:
  assumes "confined s s'" "confined s' s''"
  shows "confined s s''"
proof -
  have "(\<exists>rel. q = root s @ rel \<and> in_area rel \<and> (2 \<le> length rel \<or> disk_of s q = None)) \<and>
      \<not> is_link (disk_of s'' q) \<and> disk_of s q \<noteq> Some DirNode" if "disk_of s'' q \<noteq> disk_of s q" for q
  proof (cases "disk_of s' q = disk_of s q")
    case True
    then show ?thesis using assms that unfolding confined_def by metis
  next
    case False
    then have 1: "\<exists>rel. q = root s @ rel \<and> in_area rel \<and> (2 \<le> length rel \<or> disk_of s q = None)"
      "\<not> is_link (disk_of s' q)" "disk_of s q \<noteq> Some DirNode"
      using assms(1) unfolding confined_def by metis+
    then show ?thesis using confined_link [OF assms(2)] by blast
  qed
  then show ?thesis using assms unfolding confined_def by simp
qed

lemma confined_root: "confined s s' \<Longrightarrow> root s' = root s" "confined s s' \<Longrightarrow> realRoot s' = realRoot s"
  by (simp_all add: confined_def)

lemma plain_stable: "confined s s' \<Longrightarrow> plain p s \<Longrightarrow> plain p s'"
  unfolding plain_def by (auto simp: confined_root dest: confined_link)

lemma strictly_stable: "confined s s' \<Longrightarrow> strictly p s \<Longrightarrow> strictly p s'"
  unfolding strictly_def using plain_stable by (simp add: confined_root)

text \<open>On the way along a plain path the system calls do not leave it.\<close>

lemma ws_walk:
  assumes "ws_ok s"
  shows "walk (disk_of s) n f [] (root s @ rel) = walk (disk_of s) n f (root s) rel"
  using assms walk_dirs [of "root s" "disk_of s" "[]" n f rel] by (simp add: ws_ok_def)

lemma plain_lstat:
  assumes "ws_ok s" "plain p s"
  shows "if disk_of s p = None then lstat_place (disk_of s) p \<in> {Inl ENOENT, Inl ENOTDIR} else lstat_place (disk_of s) p = Inr p"
proof -
  obtain rel where p: "p = root s @ rel" "in_area rel" "\<forall>k. 0 < k \<and> k < length rel \<longrightarrow> \<not> is_link (disk_of s (root s @ take k rel))"
    using assms(2) by (auto simp: plain_def)
  have "disk_of s (root s) \<noteq> None" using assms(1) unfolding ws_ok_def by (metis option.distinct(1) order_refl take_all_iff)
  moreover have "wf_disk (disk_of s)" "clean_place rel" using assms(1) p(2) by (auto simp: ws_ok_def in_area_def)
  ultimately show ?thesis
    unfolding lstat_place_def p(1) ws_walk [OF assms(1)] by (intro walk_plain p(3)) simp_all
qed

lemma plain_parent:
  assumes "ws_ok s" "plain p s" "realpath (disk_of s) (butlast p) = Inr q"
  shows "q = butlast p"
proof -
  obtain rel where p: "p = root s @ rel" "in_area rel" "\<forall>k. 0 < k \<and> k < length rel \<longrightarrow> \<not> is_link (disk_of s (root s @ take k rel))"
    using assms(2) by (auto simp: plain_def)
  then have b: "butlast p = root s @ butlast rel" by (simp add: in_area_def butlast_append)
  have root: "disk_of s (root s) \<noteq> None" using assms(1) unfolding ws_ok_def by (metis option.distinct(1) order_refl take_all_iff)
  have "clean_place (butlast rel)" using p(2) by (auto simp: in_area_def clean_place_def list_all_iff dest: in_set_butlastD)
  moreover have "\<forall>k. 0 < k \<and> k < length (butlast rel) \<longrightarrow> \<not> is_link (disk_of s (root s @ take k (butlast rel)))"
    using p(3) by (auto simp: take_butlast)
  moreover have "\<not> is_link (disk_of s (root s @ butlast rel)) \<or> butlast rel = []"
    using p(3) [rule_format, of "length rel - 1"] by (cases "length rel") (auto simp: butlast_conv_take)
  ultimately have "walk (disk_of s) MAX_LINKS True (root s) (butlast rel) \<in> {Inl ENOENT, Inl ENOTDIR, Inr (root s @ butlast rel)}"
    using walk_plain [of "disk_of s" "butlast rel" "root s" True MAX_LINKS] assms(1) root by (auto simp: ws_ok_def split: if_splits)
  then show ?thesis using assms(3) by (auto simp: realpath_def b ws_walk [OF assms(1)])
qed

subsection \<open>Operations that stay in their area\<close>

text \<open>From a state where \<open>P\<close> holds, the operation keeps the state well formed and stays in the area, and if it goes
  through \<open>Q\<close> holds of its result.\<close>

definition stays :: "(node_ws \<Rightarrow> bool) \<Rightarrow> 'a op \<Rightarrow> ('a \<Rightarrow> node_ws \<Rightarrow> bool) \<Rightarrow> bool" where
  "stays P m Q \<longleftrightarrow> (\<forall>s. ws_ok s \<and> P s \<longrightarrow>
     (case m s of (r, s') \<Rightarrow> ws_ok s' \<and> confined s s' \<and> (case r of Inl _ \<Rightarrow> True | Inr x \<Rightarrow> Q x s')))"

lemma staysI:
  assumes "\<And>s r s'. ws_ok s \<Longrightarrow> P s \<Longrightarrow> m s = (r, s') \<Longrightarrow> ws_ok s' \<and> confined s s' \<and> (\<forall>x. r = Inr x \<longrightarrow> Q x s')"
  shows "stays P m Q"
  using assms unfolding stays_def by (fastforce split: prod.split sum.split)

lemma staysD:
  assumes "stays P m Q" "ws_ok s" "P s" "m s = (r, s')"
  shows "ws_ok s'" "confined s s'" "\<And>x. r = Inr x \<Longrightarrow> Q x s'"
  using assms unfolding stays_def by (fastforce split: sum.splits)+

lemma stays_then:
  assumes "stays P m Q" "\<And>x. stays (Q x) (f x) R"
  shows "stays P (then_do m f) R"
proof (rule staysI)
  fix s r s'
  assume s: "ws_ok s" "P s" "then_do m f s = (r, s')"
  obtain r1 s1 where m: "m s = (r1, s1)" by fastforce
  note 1 = staysD [OF assms(1) s(1,2) m]
  show "ws_ok s' \<and> confined s s' \<and> (\<forall>x. r = Inr x \<longrightarrow> R x s')"
  proof (cases r1)
    case (Inl e)
    then show ?thesis using 1 s(3) m by (auto simp: then_do_def)
  next
    case (Inr x)
    then have "f x s1 = (r, s')" using s(3) m by (simp add: then_do_def)
    from staysD [OF assms(2) 1(1) 1(3) [OF Inr] this] show ?thesis using confined_trans [OF 1(2)] by blast
  qed
qed

text \<open>What cannot be changed by staying in the area may be carried along.\<close>

definition lasting :: "(node_ws \<Rightarrow> bool) \<Rightarrow> bool" where
  "lasting S \<longleftrightarrow> (\<forall>s s'. confined s s' \<and> S s \<longrightarrow> S s')"

lemma stays_keep:
  assumes "stays P m Q" "lasting S"
  shows "stays (\<lambda>s. P s \<and> S s) m (\<lambda>x s. Q x s \<and> S s)"
proof (rule staysI)
  fix s r s'
  assume s: "ws_ok s" "P s \<and> S s" "m s = (r, s')"
  show "ws_ok s' \<and> confined s s' \<and> (\<forall>x. r = Inr x \<longrightarrow> Q x s' \<and> S s')"
    using staysD [OF assms(1) s(1) _ s(3)] s(2) assms(2) unfolding lasting_def by blast
qed

lemma stays_pre:
  assumes "stays P m Q" "\<And>s. P' s \<Longrightarrow> P s"
  shows "stays P' m Q"
proof (rule staysI)
  fix s r s'
  assume "ws_ok s" "P' s" "m s = (r, s')"
  then show "ws_ok s' \<and> confined s s' \<and> (\<forall>x. r = Inr x \<longrightarrow> Q x s')"
    using staysD [OF assms(1) _ assms(2)] by metis
qed

lemma stays_post:
  assumes "stays P m Q" "\<And>x s. Q x s \<Longrightarrow> Q' x s"
  shows "stays P m Q'"
proof (rule staysI)
  fix s r s'
  assume "ws_ok s" "P s" "m s = (r, s')"
  then show "ws_ok s' \<and> confined s s' \<and> (\<forall>x. r = Inr x \<longrightarrow> Q' x s')"
    using staysD [OF assms(1)] assms(2) by metis
qed

lemma lasting_plain [simp]: "lasting (plain p)"
  unfolding lasting_def using plain_stable by blast

lemma lasting_strictly [simp]: "lasting (strictly p)"
  unfolding lasting_def using strictly_stable by blast

lemma lasting_conj [simp]: "lasting P \<Longrightarrow> lasting Q \<Longrightarrow> lasting (\<lambda>s. P s \<and> Q s)"
  unfolding lasting_def by blast

lemma lasting_root [simp]: "lasting (\<lambda>s. root s = r)"
  by (simp add: lasting_def confined_def)

lemma lasting_true [simp]: "lasting (\<lambda>s. b)"
  by (simp add: lasting_def)

lemma lasting_all [simp]: "(\<And>x. lasting (P x)) \<Longrightarrow> lasting (\<lambda>s. \<forall>x\<in>A. P x s)"
  unfolding lasting_def by blast

lemma stays_give: "stays (Q x) (give x) Q"
  by (rule staysI) (auto simp: give_def)

lemma stays_throw: "stays P (throw e) Q"
  by (rule staysI) (auto simp: throw_def)

lemma stays_tell: "stays P (tell n) (\<lambda>_ _. True)"
  by (rule staysI) (auto simp: tell_def ws_ok_def intro: confined_same)

lemma stays_look: "(\<And>s x. ws_ok s \<Longrightarrow> P s \<Longrightarrow> f s = Inr x \<Longrightarrow> Q x s) \<Longrightarrow> stays P (look f) Q"
  by (rule staysI) (auto simp: look_def)

lemma stays_fence: "stays P (fence_check e) (\<lambda>_ _. True)"
  by (rule staysI) (auto simp: fence_check_def ws_ok_def intro: confined_same)

text \<open>A call stays in the area if the place it is about is below \<^verbatim>\<open>data/\<close> or \<^verbatim>\<open>tmp/\<close>, or one of them that is made.\<close>

lemma wf_disk_upd:
  assumes "wf_disk d" "d q \<noteq> Some DirNode" "x \<noteq> None \<longrightarrow> d (butlast q) = Some DirNode \<and> q \<noteq> []"
  shows "wf_disk (d(q := x))"
  unfolding wf_disk_def
proof (intro allI impI)
  fix p c
  assume new: "(d(q := x)) (p @ [c]) \<noteq> None"
  have "d p = Some DirNode"
  proof (cases "p @ [c] = q")
    case True
    then show ?thesis using new assms(3) by fastforce
  next
    case False
    then show ?thesis using new assms(1) unfolding wf_disk_def by (metis fun_upd_apply)
  qed
  then show "(d(q := x)) p = Some DirNode" using assms(2) by auto
qed

lemma stays_os_call:
  assumes "\<And>s q. ws_ok s \<Longrightarrow> P s \<Longrightarrow> at (disk_of s) = Inr q \<Longrightarrow>
      (\<exists>rel. q = root s @ rel \<and> in_area rel \<and> (2 \<le> length rel \<or> disk_of s q = None)) \<and> disk_of s q \<noteq> Some DirNode \<and>
      (whole \<noteq> None \<longrightarrow> disk_of s (butlast q) = Some DirNode)"
    "\<not> is_link whole" "\<And>k. \<not> is_link (part k) \<and> (part k \<noteq> None \<longrightarrow> whole \<noteq> None)"
  shows "stays P (os_call e at whole part) (\<lambda>_ _. True)"
proof (rule staysI)
  fix s r s'
  assume s: "ws_ok s" "P s" "os_call e at whole part s = (r, s')"
  show "ws_ok s' \<and> confined s s' \<and> (\<forall>x. r = Inr x \<longrightarrow> True)"
  proof (cases "disk_of s' = disk_of s")
    case True
    moreover have "root s' = root s" "realRoot s' = realRoot s"
      using s(3) by (auto simp: os_call_def Let_def split: sum.splits io_answer.splits)
    ultimately show ?thesis using s(1) by (auto simp: ws_ok_def intro: confined_same)
  next
    case False
    then obtain q x where q: "at (disk_of s) = Inr q" "disk_of s' = (disk_of s)(q := x)" "\<not> is_link x" "x \<noteq> None \<longrightarrow> whole \<noteq> None"
      "root s' = root s" "realRoot s' = realRoot s"
      using s(3) assms(2,3) by (auto simp: os_call_def Let_def split: sum.splits io_answer.splits)
    obtain rel where rel: "q = root s @ rel" "in_area rel" "2 \<le> length rel \<or> disk_of s q = None" "disk_of s q \<noteq> Some DirNode"
      "whole \<noteq> None \<longrightarrow> disk_of s (butlast q) = Some DirNode"
      using assms(1) [OF s(1,2) q(1)] by blast
    have "wf_disk (disk_of s')"
      unfolding q(2) using wf_disk_upd rel s(1) q(4) by (auto simp: ws_ok_def in_area_def)
    moreover have "take k (root s) \<noteq> q" for k
      using rel(1,2) by (metis append_eq_append_conv append_self_conv append_take_drop_id in_area_def length_append
          le_add1 length_take min.cobounded1 nat_le_iff_add order_antisym_conv)
    ultimately show ?thesis
      using s(1) rel(1-4) q by (auto simp: ws_ok_def confined_def)
  qed
qed

lemma stays_root:
  assumes "\<And>r. stays (\<lambda>s. P s \<and> root s = r) (F r) Q"
  shows "stays P (\<lambda>s. F (root s) s) Q"
proof (rule staysI)
  fix s r s'
  assume s: "ws_ok s" "P s" "F (root s) s = (r, s')"
  then show "ws_ok s' \<and> confined s s' \<and> (\<forall>x. r = Inr x \<longrightarrow> Q x s')"
    using staysD [OF assms [of "root s"] s(1) _ s(3)] by simp
qed

lemma new_place_Inr:
  assumes "new_place d p = Inr q"
  obtains dir where "p \<noteq> []" "realpath d (butlast p) = Inr dir" "d dir = Some DirNode" "d (dir @ [last p]) = None" "q = dir @ [last p]"
proof (cases "realpath d (butlast p)")
  case (Inl e)
  then show ?thesis using assms by (simp add: new_place_def split: if_splits)
next
  case (Inr dir)
  then have "p \<noteq> []" "d dir = Some DirNode" "d (dir @ [last p]) = None" "dir @ [last p] = q"
    using assms unfolding new_place_def Inr sum.case by (auto split: if_split_asm)
  then show ?thesis using that [OF _ Inr] by blast
qed

lemma new_place_plain:
  assumes "ws_ok s" "plain p s" "new_place (disk_of s) p = Inr q"
  shows "q = p" "disk_of s p = None" "disk_of s (butlast p) = Some DirNode"
proof -
  have ne: "p \<noteq> []" using assms(2) by (auto simp: plain_def in_area_def)
  obtain dir where dir: "realpath (disk_of s) (butlast p) = Inr dir" "disk_of s dir = Some DirNode"
    "disk_of s (dir @ [last p]) = None" "q = dir @ [last p]"
    by (rule new_place_Inr [OF assms(3)])
  moreover have "dir = butlast p" by (rule plain_parent [OF assms(1,2) dir(1)])
  ultimately show "q = p" "disk_of s p = None" "disk_of s (butlast p) = Some DirNode" using ne by simp_all
qed

lemma plain_lstat_node:
  assumes "ws_ok s" "plain p s"
  shows "lstat_place (disk_of s) p = Inr q \<Longrightarrow> q = p" "lstat (disk_of s) p = Inr x \<Longrightarrow> disk_of s p = Some x"
  using plain_lstat [OF assms] by (auto simp: lstat_def split: if_splits option.splits)

lemma plain_area: "plain p s \<Longrightarrow> \<exists>rel. p = root s @ rel \<and> in_area rel"
  by (auto simp: plain_def)

lemma strictly_area: "strictly p s \<Longrightarrow> \<exists>rel. p = root s @ rel \<and> in_area rel \<and> 2 \<le> length rel"
  by (auto simp: strictly_def plain_def)

lemma strictly_plain [simp]: "strictly p s \<Longrightarrow> plain p s"
  by (simp add: strictly_def)

lemma stays_mkdir: "stays (plain p) (os_mkdir e p) (\<lambda>_ _. True)"
  unfolding os_mkdir_def
proof (rule stays_os_call)
  fix s q
  assume s: "ws_ok s" "plain p s" "new_place (disk_of s) p = Inr q"
  then show "(\<exists>rel. q = root s @ rel \<and> in_area rel \<and> (2 \<le> length rel \<or> disk_of s q = None)) \<and> disk_of s q \<noteq> Some DirNode \<and>
      (Some DirNode \<noteq> None \<longrightarrow> disk_of s (butlast q) = Some DirNode)"
    using new_place_plain [OF s] plain_area [OF s(2)] by auto
qed simp_all

lemma stays_create: "stays (strictly p) (os_create e p t) (\<lambda>_ _. True)"
  unfolding os_create_def
proof (rule stays_os_call)
  fix s q
  assume s: "ws_ok s" "strictly p s" "new_place (disk_of s) p = Inr q"
  then show "(\<exists>rel. q = root s @ rel \<and> in_area rel \<and> (2 \<le> length rel \<or> disk_of s q = None)) \<and> disk_of s q \<noteq> Some DirNode \<and>
      (Some (FileNode t) \<noteq> None \<longrightarrow> disk_of s (butlast q) = Some DirNode)"
    using new_place_plain [OF s(1) strictly_plain [OF s(2)] s(3)] strictly_area [OF s(2)] by auto
qed simp_all

lemma wf_parent: "wf_disk d \<Longrightarrow> d q \<noteq> None \<Longrightarrow> q \<noteq> [] \<Longrightarrow> d (butlast q) = Some DirNode"
  unfolding wf_disk_def by (metis append_butlast_last_id)

lemma file_place_plain:
  assumes "ws_ok s" "plain p s" "file_place (disk_of s) p = Inr q"
  shows "q = p \<and> (\<exists>t. disk_of s p = Some (FileNode t)) \<and> disk_of s (butlast p) = Some DirNode"
proof -
  obtain t where "lstat_place (disk_of s) p = Inr q" "disk_of s q = Some (FileNode t)"
    using assms(3) by (auto simp: file_place_def split: sum.splits option.splits node.splits)
  moreover have "q = p" using plain_lstat_node(1) [OF assms(1,2)] calculation(1) by blast
  moreover have "p \<noteq> []" using assms(2) by (auto simp: plain_def in_area_def)
  ultimately show ?thesis using wf_parent [of "disk_of s" p] assms(1) by (auto simp: ws_ok_def)
qed

lemma stays_overwrite: "stays (strictly p) (os_overwrite e p t) (\<lambda>_ _. True)"
  unfolding os_overwrite_def
proof (rule stays_os_call)
  fix s q
  assume s: "ws_ok s" "strictly p s" "file_place (disk_of s) p = Inr q"
  then show "(\<exists>rel. q = root s @ rel \<and> in_area rel \<and> (2 \<le> length rel \<or> disk_of s q = None)) \<and> disk_of s q \<noteq> Some DirNode \<and>
      (Some (FileNode t) \<noteq> None \<longrightarrow> disk_of s (butlast q) = Some DirNode)"
    using file_place_plain [OF s(1) strictly_plain [OF s(2)] s(3)] strictly_area [OF s(2)] by auto
qed simp_all

lemma stays_put: "stays (strictly p) (os_put e p t) (\<lambda>_ _. True)"
  unfolding os_put_def
proof (rule stays_os_call)
  fix s q
  assume s: "ws_ok s" "strictly p s" "(case file_place (disk_of s) p of Inl ENOENT \<Rightarrow> new_place (disk_of s) p | r \<Rightarrow> r) = Inr q"
  then have "file_place (disk_of s) p = Inr q \<or> new_place (disk_of s) p = Inr q" by (auto split: sum.splits errno.splits)
  then show "(\<exists>rel. q = root s @ rel \<and> in_area rel \<and> (2 \<le> length rel \<or> disk_of s q = None)) \<and> disk_of s q \<noteq> Some DirNode \<and>
      (Some (FileNode t) \<noteq> None \<longrightarrow> disk_of s (butlast q) = Some DirNode)"
    using file_place_plain [OF s(1) strictly_plain [OF s(2)]] new_place_plain [OF s(1) strictly_plain [OF s(2)]]
      strictly_area [OF s(2)] by fastforce
qed simp_all

lemma stays_unlink: "stays (strictly p) (os_unlink e p) (\<lambda>_ _. True)"
  unfolding os_unlink_def
proof (rule stays_os_call)
  fix s q
  assume s: "ws_ok s" "strictly p s"
    "(case lstat_place (disk_of s) p of Inl err \<Rightarrow> Inl err
      | Inr q \<Rightarrow> (case disk_of s q of None \<Rightarrow> Inl ENOENT | Some DirNode \<Rightarrow> Inl EISDIR | Some _ \<Rightarrow> Inr q)) = Inr q"
  then have "lstat_place (disk_of s) p = Inr q" "disk_of s q \<noteq> Some DirNode"
    by (auto split: sum.splits option.splits node.splits)
  then show "(\<exists>rel. q = root s @ rel \<and> in_area rel \<and> (2 \<le> length rel \<or> disk_of s q = None)) \<and> disk_of s q \<noteq> Some DirNode \<and>
      (None \<noteq> (None :: node option) \<longrightarrow> disk_of s (butlast q) = Some DirNode)"
    using plain_lstat_node(1) [OF s(1) strictly_plain [OF s(2)]] strictly_area [OF s(2)] by auto
qed simp_all

subsection \<open>The checks\<close>

lemma slash_parts_join: "clean_place p \<Longrightarrow> p \<noteq> [] \<Longrightarrow> slash_parts (path_text p) = p"
proof (induction p)
  case (Cons c p)
  show ?case
  proof (cases "p = []")
    case True
    then show ?thesis using Cons.prems by (simp add: path_text_def slash_parts_def split_on_none)
  next
    case False
    then have "path_text (c # p) = c @ ''/'' @ path_text p" by (simp add: path_text_def join_Cons)
    moreover have "slash_parts c = [c]" using Cons.prems by (simp add: slash_parts_def split_on_none)
    ultimately show ?thesis using Cons False by (simp only: slash_parts_append) simp
  qed
qed simp

lemma strip_dot_slash_id: "\<not> starts_with ''./'' p \<Longrightarrow> strip_dot_slash p = p"
  by (induction p rule: strip_dot_slash.induct) (auto simp: starts_with_def)

lemma path_text_no_dot: "clean_place p \<Longrightarrow> \<not> starts_with ''./'' (path_text p)"
proof
  assume p: "clean_place p" "starts_with ''./'' (path_text p)"
  then obtain r where r: "path_text p = ''.'' @ ''/'' @ r" by (auto simp: starts_with_append_iff)
  then have "p \<noteq> []" by (auto simp: path_text_def)
  then have "p = slash_parts (''.'' @ ''/'' @ r)" using slash_parts_join [OF p(1)] r by simp
  also have "\<dots> = ''.'' # slash_parts r" by (simp only: slash_parts_append) (simp add: slash_parts_def split_on_none)
  finally show False using p(1) by (simp add: dot_part_def)
qed

lemma writable_text:
  assumes "clean_place rel" "isModelWritableRepoPath (path_text rel)"
  shows "2 \<le> length rel" "hd rel \<in> {REPO_DATA_DIR, REPO_TMP_DIR}"
proof -
  have "rel \<noteq> []"
  proof
    assume "rel = []"
    then show False using assms(2) by (simp add: path_text_def isModelWritableRepoPath_def slash_parts_def)
  qed
  then have "slash_parts (strip_dot_slash (path_text rel)) = rel"
    by (simp add: strip_dot_slash_id [OF path_text_no_dot [OF assms(1)]] slash_parts_join [OF assms(1)])
  then show "2 \<le> length rel" "hd rel \<in> {REPO_DATA_DIR, REPO_TMP_DIR}"
    using assms(2) by (auto simp: isModelWritableRepoPath_def Let_def MODEL_WRITABLE_REPO_DIRS_def split: if_splits)
qed

lemma no_links_along:
  assumes "ws_ok s" "assertNoLinks (disk_of s) (root s @ pre) parts display = Inr ()" "clean_place (pre @ parts)"
    "disk_of s (root s @ pre) \<noteq> None" "\<forall>k. 0 < k \<and> k \<le> length pre \<longrightarrow> \<not> is_link (disk_of s (root s @ take k pre))"
    "0 < k" "k \<le> length parts"
  shows "\<not> is_link (disk_of s (root s @ pre @ take k parts))"
  using assms(2-7)
proof (induction parts arbitrary: pre k)
  case (Cons part parts)
  let ?d = "disk_of s" and ?pre = "pre @ [part]"
  have root: "?d (root s) \<noteq> None" using assms(1) unfolding ws_ok_def by (metis option.distinct(1) order_refl take_all_iff)
  have wf: "wf_disk ?d" using assms(1) by (simp add: ws_ok_def)
  have "if ?d (root s @ ?pre) = None then walk ?d MAX_LINKS False (root s) ?pre \<in> {Inl ENOENT, Inl ENOTDIR}
      else walk ?d MAX_LINKS False (root s) ?pre = Inr (root s @ ?pre)"
    using Cons.prems(2,4) by (intro walk_plain wf root) auto
  then have l: "lstat ?d (root s @ ?pre) = (case ?d (root s @ ?pre) of None \<Rightarrow> lstat ?d (root s @ ?pre) | Some x \<Rightarrow> Inr x)"
    unfolding lstat_def lstat_place_def ws_walk [OF assms(1)] by (auto split: option.splits)
  show ?case
  proof (cases "?d (root s @ ?pre)")
    case None
    have "?d ((root s @ ?pre) @ take (k - 1) parts) = None"
      using wf_below [OF wf, of "root s @ ?pre"] None by (cases "take (k - 1) parts = []") auto
    then show ?thesis using Cons.prems(5) by (cases k) simp_all
  next
    case (Some x)
    then have l: "lstat ?d ((root s @ pre) @ [part]) = Inr x" using l by simp
    then have nl: "\<not> is_link (Some x)" and rest: "assertNoLinks ?d (root s @ ?pre) parts display = Inr ()"
      using Cons.prems(1) by (auto split: node.splits)
    have "\<forall>j. 0 < j \<and> j \<le> length ?pre \<longrightarrow> \<not> is_link (?d (root s @ take j ?pre))"
      using Cons.prems(4) Some nl by (auto simp: le_Suc_eq)
    then have "\<not> is_link (?d (root s @ ?pre @ take (k - 1) parts))" if "1 < k"
      using Cons.IH [OF rest, of "k - 1"] Cons.prems(2,6) Some that by simp
    then show ?thesis using Cons.prems(5) Some nl by (cases "k = 1") (auto simp: neq0_conv take_Cons')
  qed
qed simp

lemma writable_strictly:
  assumes "ws_ok s" "clean_place p" "writable s p b = Inr ()"
  shows "strictly p s"
proof -
  define rel where "rel = relative_to (root s) p"
  have c: "\<not> leaves rel" "\<not> list_ex isGitDir rel" "isModelWritableRepoPath (path_text rel)"
    "assertNoLinks (disk_of s) (root s) (relative_to (root s) (if b then butlast p else p)) (dotted rel) = Inr ()"
    using assms(3) by (auto simp: writable_def assertInside_def Let_def rel_def split: sum.splits if_splits)
  have p: "p = root s @ rel" using relative_stays c(1) unfolding rel_def by blast
  then have clean: "clean_place rel" using assms(2) by (metis clean_place_simps(3))
  note w = writable_text [OF clean c(3)]
  have ne: "rel \<noteq> []" using w(1) by auto
  let ?parts = "if b then butlast rel else rel"
  have parts: "relative_to (root s) (if b then butlast p else p) = ?parts" using ne by (simp add: p butlast_append)
  have root: "disk_of s (root s) \<noteq> None" using assms(1) unfolding ws_ok_def by (metis option.distinct(1) order_refl take_all_iff)
  have "clean_place ?parts" using clean by (auto simp: clean_place_def list_all_iff dest: in_set_butlastD)
  then have "\<not> is_link (disk_of s (root s @ take k ?parts))" if "0 < k" "k \<le> length ?parts" for k
    using no_links_along [OF assms(1), of "[]" ?parts "dotted rel" k] c(4) parts root that by simp
  then have "\<not> is_link (disk_of s (root s @ take k rel))" if "0 < k" "k < length rel" for k
    using that by (cases b) (force simp: take_butlast)+
  then show ?thesis using w p clean c(2) ne by (auto simp: strictly_def plain_def in_area_def)
qed

lemma stays_assertWritable:
  assumes "clean_place p"
  shows "stays (\<lambda>_. True) (assertWritable e p b) (\<lambda>_. strictly p)"
  unfolding assertWritable_def
proof (rule stays_then [OF stays_fence], rule stays_look)
  fix s x
  assume "ws_ok s" "writable s p b = Inr x"
  then show "strictly p s" using writable_strictly [OF _ assms] by (cases x) simp
qed

subsection \<open>Every operation stays in its area\<close>

lemma stays_make_dir: "stays (plain p) (make_dir e p) (\<lambda>_ s. disk_of s p = Some DirNode)"
proof (rule staysI)
  fix s r s'
  assume s: "ws_ok s" "plain p s" "make_dir e p s = (r, s')"
  obtain r1 s1 where m: "os_mkdir e p s = (r1, s1)" by fastforce
  note 1 = staysD [OF stays_mkdir s(1,2) m]
  have s': "s' = s1" and ok: "r = Inr x \<Longrightarrow> lstat (disk_of s1) p = Inr DirNode" for x
    using s(3) m by (auto simp: make_dir_def split: sum.splits if_splits node.splits)
  then show "ws_ok s' \<and> confined s s' \<and> (\<forall>x. r = Inr x \<longrightarrow> disk_of s' p = Some DirNode)"
    using 1 plain_lstat_node(2) [OF 1(1) plain_stable [OF 1(2) s(2)]] by blast
qed

text \<open>The directories down to \<open>cur\<close> are there, and the names from there on lead on into the area.\<close>

definition chain :: "place \<Rightarrow> string list \<Rightarrow> node_ws \<Rightarrow> bool" where
  "chain cur parts s \<longleftrightarrow> (\<exists>pre. cur = root s @ pre \<and> (parts = [] \<or> in_area (pre @ parts)) \<and>
     (\<forall>k\<le>length pre. disk_of s (root s @ take k pre) = Some DirNode))"

lemma lasting_chain: "lasting (chain cur parts)"
  unfolding lasting_def
proof (intro allI impI)
  fix s s'
  assume a: "confined s s' \<and> chain cur parts s"
  then obtain pre where "cur = root s @ pre" "parts = [] \<or> in_area (pre @ parts)"
    "\<forall>k\<le>length pre. disk_of s (root s @ take k pre) = Some DirNode" by (auto simp: chain_def)
  then show "chain cur parts s'" unfolding chain_def confined_root(1) [OF conjunct1 [OF a]]
    using confined_dir [OF conjunct1 [OF a]] by blast
qed

lemma in_area_prefix: "in_area (pre @ part # parts) \<Longrightarrow> in_area (pre @ [part])"
  by (cases pre) (auto simp: in_area_def)

lemma chain_plain: "chain cur (part # parts) s \<Longrightarrow> plain (cur @ [part]) s"
proof -
  assume "chain cur (part # parts) s"
  then obtain pre where p: "cur = root s @ pre" "in_area (pre @ part # parts)"
    "\<forall>k\<le>length pre. disk_of s (root s @ take k pre) = Some DirNode" by (auto simp: chain_def)
  have "\<not> is_link (disk_of s (root s @ take k (pre @ [part])))" if "k < length (pre @ [part])" for k
    using p(3) [rule_format, of k] that by simp
  then show ?thesis unfolding plain_def using p(1) in_area_prefix [OF p(2)] by (intro exI [of _ "pre @ [part]"]) simp
qed

lemma chain_next: "chain cur (part # parts) s \<Longrightarrow> disk_of s (cur @ [part]) = Some DirNode \<Longrightarrow> chain (cur @ [part]) parts s"
proof -
  assume "chain cur (part # parts) s" "disk_of s (cur @ [part]) = Some DirNode"
  then obtain pre where p: "cur = root s @ pre" "in_area (pre @ part # parts)"
    "\<forall>k\<le>length pre. disk_of s (root s @ take k pre) = Some DirNode" "disk_of s (root s @ pre @ [part]) = Some DirNode"
    by (auto simp: chain_def)
  then show ?thesis unfolding chain_def by (intro exI [of _ "pre @ [part]"]) (auto simp: le_Suc_eq)
qed

lemma stays_ensure_dirs: "stays (chain cur parts) (ensure_dirs e cur parts) (\<lambda>_ _. True)"
proof (induction parts arbitrary: cur)
  case Nil
  show ?case by (simp add: stays_give stays_pre [OF stays_give])
next
  case (Cons part parts)
  let ?p = "cur @ [part]"
  have made: "stays (\<lambda>s. chain cur (part # parts) s) (then_do (make_dir e ?p) (\<lambda>_. ensure_dirs e ?p parts)) (\<lambda>_ _. True)"
  proof (rule stays_then [where Q = "\<lambda>_ s. disk_of s ?p = Some DirNode \<and> chain cur (part # parts) s"])
    show "stays (chain cur (part # parts)) (make_dir e ?p) (\<lambda>_ s. disk_of s ?p = Some DirNode \<and> chain cur (part # parts) s)"
      by (rule stays_pre [OF stays_keep [OF stays_make_dir lasting_chain]]) (simp add: chain_plain)
    show "stays (\<lambda>s. disk_of s ?p = Some DirNode \<and> chain cur (part # parts) s) (ensure_dirs e ?p parts) (\<lambda>_ _. True)"
      by (rule stays_pre [OF Cons.IH]) (simp add: chain_next)
  qed
  show ?case
  proof (rule staysI)
    fix s r s'
    assume s: "ws_ok s" "chain cur (part # parts) s" "ensure_dirs e cur (part # parts) s = (r, s')"
    show "ws_ok s' \<and> confined s s' \<and> (\<forall>x. r = Inr x \<longrightarrow> True)"
    proof (cases "lstat (disk_of s) ?p")
      case (Inl err)
      show ?thesis
      proof (cases "err = ENOENT")
        case True
        then show ?thesis using s(3) Inl staysD [OF made s(1,2)] by simp
      next
        case False
        then have "s' = s" using s(3) Inl by (cases err) simp_all
        then show ?thesis using s(1) by simp
      qed
    next
      case (Inr x)
      show ?thesis
      proof (cases "x = DirNode")
        case True
        then have "disk_of s ?p = Some DirNode" using plain_lstat_node(2) [OF s(1) chain_plain [OF s(2)]] Inr by blast
        then show ?thesis using s(3) Inr True staysD [OF Cons.IH s(1) chain_next [OF s(2)]] by simp
      next
        case False
        then have "s' = s" using s(3) Inr by (cases x) simp_all
        then show ?thesis using s(1) by simp
      qed
    qed
  qed
qed

definition area_of :: "place \<Rightarrow> node_ws \<Rightarrow> bool" where
  "area_of dir s \<longleftrightarrow> (\<exists>rel. dir = root s @ rel \<and> in_area rel)"

lemma stays_ensureDir: "stays (\<lambda>s. root s = r \<and> area_of dir s) (ensureDirNoFollow e r dir) (\<lambda>_ _. True)"
proof (cases "leaves (relative_to r dir)")
  case True
  then show ?thesis by (simp add: ensureDirNoFollow_def stays_throw)
next
  case False
  have start: "chain r (relative_to r dir) s" if ok: "ws_ok s" and in_r: "root s = r \<and> area_of dir s" for s
  proof -
    obtain rel where "dir = root s @ rel" "in_area rel" using in_r by (auto simp: area_of_def)
    moreover have "disk_of s (root s) = Some DirNode" using ok unfolding ws_ok_def by (metis order_refl take_all_iff)
    ultimately show ?thesis unfolding chain_def using in_r by (intro exI [of _ "[]"]) auto
  qed
  have "stays (\<lambda>s. root s = r \<and> area_of dir s) (ensure_dirs e r (relative_to r dir)) (\<lambda>_ _. True)"
  proof (rule staysI)
    fix s x s'
    assume s: "ws_ok s" "root s = r \<and> area_of dir s" "ensure_dirs e r (relative_to r dir) s = (x, s')"
    show "ws_ok s' \<and> confined s s' \<and> (\<forall>y. x = Inr y \<longrightarrow> True)"
      using staysD(1,2) [OF stays_ensure_dirs s(1) start [OF s(1,2)] s(3)] by simp
  qed
  then show ?thesis using False by (simp add: ensureDirNoFollow_def)
qed

lemma strictly_dir: "strictly p s \<Longrightarrow> area_of (butlast p) s"
proof -
  assume "strictly p s"
  then obtain rel where p: "p = root s @ rel" "in_area rel" "2 \<le> length rel" using strictly_area by blast
  then obtain a b rest where "rel = a # b # rest" by (cases rel; cases "tl rel") auto
  then have "in_area (butlast rel)"
    using p(2) by (auto simp: in_area_def clean_place_def list_all_iff list_ex_iff dest: in_set_butlastD split: if_splits)
  then show ?thesis using p by (auto simp: area_of_def butlast_append in_area_def)
qed

lemma stays_ignore: "stays P m Q \<Longrightarrow> stays P m (\<lambda>_ _. True)"
  by (erule stays_post) simp

lemma stays_createFile:
  assumes "clean_place (l_path target)"
  shows "stays (\<lambda>_. True) (ws_createFile e target t) (\<lambda>_ _. True)"
  unfolding ws_createFile_def
proof (rule stays_then [OF stays_assertWritable [OF assms]], rule stays_root)
  fix u r
  have "stays (\<lambda>s. root s = r \<and> area_of (butlast (l_path target)) s) (ensureDirNoFollow e r (butlast (l_path target))) (\<lambda>_ _. True)"
    by (rule stays_ensureDir)
  then have "stays (\<lambda>s. strictly (l_path target) s \<and> root s = r) (ensureDirNoFollow e r (butlast (l_path target))) (\<lambda>_ _. True)"
    by (rule stays_pre) (simp add: strictly_dir)
  then show "stays (\<lambda>s. strictly (l_path target) s \<and> root s = r)
      (then_do (ensureDirNoFollow e r (butlast (l_path target))) (\<lambda>_. then_do (assertWritable e (l_path target) False)
        (\<lambda>_. then_do (os_create e (l_path target) t) (\<lambda>_. tell (DidWrite (l_path target) t True))))) (\<lambda>_ _. True)"
    by (rule stays_then) (intro stays_then [OF stays_assertWritable [OF assms]] stays_then [OF stays_create] stays_tell)
qed

lemma stays_new_texts:
  assumes "\<forall>(p, xs)\<in>set m. clean_place p"
  shows "stays (\<lambda>_. True) (new_texts e m) (\<lambda>r s. \<forall>x\<in>set r. strictly (fst x) s)"
  using assms
proof (induction m)
  case Nil
  have "stays (\<lambda>_. True) (give []) (\<lambda>r s. \<forall>x\<in>set r. strictly (fst x) s)" by (rule stays_pre [OF stays_give]) simp
  then show ?case by simp
next
  case (Cons px rest)
  obtain p xs where px: "px = (p, xs)" by fastforce
  have rest: "stays (strictly p) (then_do (new_texts e rest) (\<lambda>r. give ((p, t') # r))) (\<lambda>r s. \<forall>x\<in>set r. strictly (fst x) s)" for t'
  proof (rule stays_then [where Q = "\<lambda>r s. (\<forall>x\<in>set r. strictly (fst x) s) \<and> strictly p s"])
    have "stays (\<lambda>_. True) (new_texts e rest) (\<lambda>r s. \<forall>x\<in>set r. strictly (fst x) s)" using Cons by simp
    from stays_keep [OF this lasting_strictly [of p]]
    show "stays (strictly p) (new_texts e rest) (\<lambda>r s. (\<forall>x\<in>set r. strictly (fst x) s) \<and> strictly p s)"
      by (rule stays_pre) simp
    show "stays (\<lambda>s. (\<forall>x\<in>set r. strictly (fst x) s) \<and> strictly p s) (give ((p, t') # r)) (\<lambda>r s. \<forall>x\<in>set r. strictly (fst x) s)" for r
      by (rule stays_pre [OF stays_give]) simp
  qed
  have "stays (strictly p) (case edited_text xs t of None \<Rightarrow> throw (Said ''Invalid or overlapping edit'')
      | Some t' \<Rightarrow> then_do (new_texts e rest) (\<lambda>r. give ((p, t') # r))) (\<lambda>r s. \<forall>x\<in>set r. strictly (fst x) s)" for t
    using rest by (simp add: stays_throw split: option.split)
  moreover have "stays (strictly p) (look (\<lambda>s. readFile e s p)) (\<lambda>_. strictly p)" by (rule stays_look) simp
  ultimately have "stays (strictly p) (then_do (look (\<lambda>s. readFile e s p)) (\<lambda>t. case edited_text xs t of
      None \<Rightarrow> throw (Said ''Invalid or overlapping edit'')
      | Some t' \<Rightarrow> then_do (new_texts e rest) (\<lambda>r. give ((p, t') # r)))) (\<lambda>r s. \<forall>x\<in>set r. strictly (fst x) s)"
    by (intro stays_then)
  moreover have "clean_place p" using Cons.prems px by simp
  ultimately show ?case unfolding px new_texts.simps by (intro stays_then [OF stays_assertWritable])
qed

lemma stays_write_texts: "stays (\<lambda>s. \<forall>x\<in>set r. strictly (fst x) s) (write_texts e r) (\<lambda>_ _. True)"
proof (induction r)
  case Nil
  have "stays (\<lambda>_. True) (give ()) (\<lambda>_ _. True)" by (rule stays_give)
  then show ?case by simp
next
  case (Cons pt rest)
  obtain p t where pt: "pt = (p, t)" by fastforce
  let ?S = "\<lambda>s. \<forall>x\<in>set rest. strictly (fst x) s"
  have "stays (\<lambda>s. strictly p s \<and> ?S s) (os_overwrite e p t) (\<lambda>_ s. True \<and> ?S s)"
    by (rule stays_keep [OF stays_overwrite]) simp
  moreover have "stays (\<lambda>s. True \<and> ?S s) (tell (DidWrite p t False)) (\<lambda>_ s. True \<and> ?S s)"
    by (rule stays_keep [OF stays_tell]) simp
  moreover have "stays (\<lambda>s. True \<and> ?S s) (write_texts e rest) (\<lambda>_ _. True)" using Cons by simp
  ultimately have "stays (\<lambda>s. strictly p s \<and> ?S s) (write_texts e (pt # rest)) (\<lambda>_ _. True)"
    unfolding pt write_texts.simps by (intro stays_then)
  then show ?case unfolding pt by simp
qed

lemma by_path_clean:
  assumes "\<forall>x\<in>set xs. clean_place (te_path x)"
  shows "\<forall>(p, ys)\<in>set (by_path xs). clean_place p"
proof -
  let ?add = "\<lambda>x m. jm_set (te_path x) ((case jm_get m (te_path x) of None \<Rightarrow> [] | Some l \<Rightarrow> l) @ [x]) m"
  have set: "set (jm_set k v m) \<subseteq> insert (k, v) (set m)" for k :: place and v :: "text_edit list" and m
    by (induction m) auto
  have "\<forall>(p, ys)\<in>set (fold ?add xs m). clean_place p"
    if "\<forall>(p, ys)\<in>set m. clean_place p" "\<forall>x\<in>set xs. clean_place (te_path x)" for m
    using that
  proof (induction xs arbitrary: m)
    case (Cons x xs)
    have "\<forall>(p, ys)\<in>set (?add x m). clean_place p" using set Cons.prems by fastforce
    then have "\<forall>(p, ys)\<in>set (fold ?add xs (?add x m)). clean_place p" by (rule Cons.IH) (use Cons.prems in simp)
    then show ?case by (simp only: fold_Cons comp_def)
  qed simp
  from this [of "[]", OF _ assms] show ?thesis by (simp add: by_path_def)
qed

lemma stays_applyEdits:
  assumes "\<forall>x\<in>set xs. clean_place (te_path x)"
  shows "stays (\<lambda>_. True) (applyEdits e xs) (\<lambda>_ _. True)"
  unfolding applyEdits_def using by_path_clean [OF assms] by (intro stays_then [OF stays_new_texts stays_write_texts])

lemma copy_area:
  assumes "strictly p s" "deletedCopyPath turnId (path_text (relative_to (root s @ [REPO_DATA_DIR]) p)) = Inr to"
    "\<not> leaves (relative_to (root s @ [REPO_DATA_DIR]) p)" "relative_to (root s @ [REPO_DATA_DIR]) p \<noteq> []"
  shows "slash_parts to = slash_parts REPO_DELETED_DIR @ (''t-'' @ turnId) # relative_to (root s @ [REPO_DATA_DIR]) p"
    "area_of (root s @ slash_parts to) s" "area_of (butlast (root s @ slash_parts to)) s"
proof -
  define rel where "rel = relative_to (root s @ [REPO_DATA_DIR]) p"
  have p: "p = root s @ REPO_DATA_DIR # rel" using relative_stays [OF assms(3)] by (simp add: rel_def)
  then have rel: "in_area (REPO_DATA_DIR # rel)" using strictly_area [OF assms(1)] by auto
  have d: "OPAQUE_ID_RE turnId" "to = REPO_DELETED_DIR @ ''/t-'' @ turnId @ ''/'' @ path_text rel"
    using assms(2) clean_relative by (auto simp: deletedCopyPath_def rel_def split: if_splits sum.splits)
  have clean: "clean_place rel" "\<not> list_ex isGitDir rel" using rel by (auto simp: in_area_def)
  have "to = REPO_DELETED_DIR @ ''/'' @ (''t-'' @ turnId) @ ''/'' @ path_text rel" using d(2) by simp
  moreover have slash: "CHR ''/'' \<notin> set (''t-'' @ turnId)"
    using OPAQUE_no_slash [OF d(1)] by simp
  moreover have "slash_parts (path_text rel) = rel" using slash_parts_join clean(1) assms(4) by (simp add: rel_def)
  ultimately have parts: "slash_parts to = slash_parts REPO_DELETED_DIR @ (''t-'' @ turnId) # rel"
    by (simp only: slash_parts_append) (simp add: slash_parts_def split_on_none)
  then show "slash_parts to = slash_parts REPO_DELETED_DIR @ (''t-'' @ turnId) # relative_to (root s @ [REPO_DATA_DIR]) p"
    by (simp add: rel_def)
  have "slash_parts REPO_DELETED_DIR = [''tmp'', ''deleted'']"
    by (simp add: REPO_DELETED_DIR_def slash_parts_def)
  moreover have "\<not> isGitDir (''t-'' @ turnId)" "\<not> isGitDir ''tmp''" "\<not> isGitDir ''deleted''"
    by (simp_all add: isGitDir_def toLowerCase_def lower_char_def)
  moreover have "\<not> dot_part (''t-'' @ turnId)" "\<not> dot_part ''tmp''" "\<not> dot_part ''deleted''" by (simp_all add: dot_part_def)
  ultimately have "in_area (slash_parts to)" "in_area (butlast (slash_parts to))"
    using parts clean slash assms(4)
    by (auto simp: in_area_def REPO_TMP_DIR_def rel_def [symmetric] clean_place_def list_all_iff list_ex_iff dest: in_set_butlastD)
  moreover have "slash_parts to \<noteq> []" by (simp add: parts)
  ultimately show "area_of (root s @ slash_parts to) s" "area_of (butlast (root s @ slash_parts to)) s"
    by (auto simp: area_of_def butlast_append)
qed

lemma lasting_area: "lasting (area_of p)"
  by (auto simp: lasting_def area_of_def confined_root)

lemma area_clean: "ws_ok s \<Longrightarrow> area_of p s \<Longrightarrow> clean_place p"
  by (auto simp: area_of_def in_area_def ws_ok_def)

lemma stays_put_aside:
  assumes "clean_place dest"
  shows "stays (area_of (butlast dest)) (put_aside e dest t) (\<lambda>_ _. True)"
  unfolding put_aside_def
proof (rule stays_root)
  fix r
  show "stays (\<lambda>s. area_of (butlast dest) s \<and> root s = r)
      (then_do (ensureDirNoFollow e r (butlast dest)) (\<lambda>_. then_do (assertWritable e dest False) (\<lambda>_. os_create e dest t))) (\<lambda>_ _. True)"
    by (rule stays_then [OF stays_pre [OF stays_ensureDir]])
      (auto intro!: stays_then [OF stays_assertWritable [OF assms]] stays_create)
qed

lemma stays_copyBeforeDelete: "stays (strictly p) (copyBeforeDelete e p) (\<lambda>_. strictly p)"
proof (rule staysI)
  fix s r s'
  assume s: "ws_ok s" "strictly p s" "copyBeforeDelete e p s = (r, s')"
  let ?rel = "relative_to (root s @ [REPO_DATA_DIR]) p"
  have "ws_ok s' \<and> confined s s'"
  proof (cases "s' = s")
    case True
    then show ?thesis using s(1) by simp
  next
    case False
    then obtain turnId to t where c: "turn s = Some turnId" "?rel \<noteq> []" "\<not> leaves ?rel" "deletedCopyPath turnId (path_text ?rel) = Inr to"
      "note_copied turnId ?rel (put_aside e (root s @ slash_parts to) t s) = (r, s')"
      using s(3) unfolding copyBeforeDelete_def Let_def by (auto split: option.splits if_splits sum.splits node.splits)
    obtain r1 s1 where a: "put_aside e (root s @ slash_parts to) t s = (r1, s1)" by fastforce
    note area = copy_area(2,3) [OF s(2) c(4,3,2)]
    note 1 = staysD [OF stays_put_aside [OF area_clean [OF s(1) area(1)]] s(1) area(2) a]
    have "root s' = root s1" "realRoot s' = realRoot s1" "disk_of s' = disk_of s1"
      using c(5) a by (auto simp: note_copied_def split: if_splits)
    then show ?thesis using 1(1,2) confined_trans [OF 1(2) confined_same] by (simp add: ws_ok_def)
  qed
  then show "ws_ok s' \<and> confined s s' \<and> (\<forall>x. r = Inr x \<longrightarrow> strictly p s')" using strictly_stable s(2) by blast
qed

lemma stays_deleteFile:
  assumes "clean_place (l_path target)"
  shows "stays (\<lambda>_. True) (ws_deleteFile e target) (\<lambda>_ _. True)"
  unfolding ws_deleteFile_def
proof (rule stays_then [OF stays_assertWritable [OF assms]])
  fix u
  let ?go = "then_do (copyBeforeDelete e (l_path target)) (\<lambda>_. then_do (os_unlink e (l_path target)) (\<lambda>_. tell (DidDelete (l_path target))))"
  have go: "stays (strictly (l_path target)) ?go (\<lambda>_ _. True)"
    by (intro stays_then [OF stays_copyBeforeDelete] stays_then [OF stays_unlink] stays_tell)
  show "stays (strictly (l_path target)) (\<lambda>s. case lstat (disk_of s) (l_path target) of
        Inl err \<Rightarrow> (Inl (Failed err), s)
      | Inr DirNode \<Rightarrow> (Inl (Said (''Refusing to delete a directory: '' @ l_relative target)), s)
      | Inr _ \<Rightarrow> ?go s) (\<lambda>_ _. True)"
  proof (rule staysI)
    fix s r s'
    assume s: "ws_ok s" "strictly (l_path target) s" "(case lstat (disk_of s) (l_path target) of
        Inl err \<Rightarrow> (Inl (Failed err), s)
      | Inr DirNode \<Rightarrow> (Inl (Said (''Refusing to delete a directory: '' @ l_relative target)), s)
      | Inr _ \<Rightarrow> ?go s) = (r, s')"
    have "s' = s \<or> ?go s = (r, s')" using s(3) by (simp split: sum.splits node.splits)
    then show "ws_ok s' \<and> confined s s' \<and> (\<forall>x. r = Inr x \<longrightarrow> True)" using s(1) staysD(1,2) [OF go s(1,2)] by auto
  qed
qed

lemma normalise_clean:
  "clean_place base \<Longrightarrow> \<forall>c\<in>set parts. CHR ''/'' \<notin> set c \<Longrightarrow> clean_place (normalise base parts)"
  unfolding normalise_def
proof (induction parts arbitrary: base)
  case (Cons c parts)
  have "clean_place (butlast base)" using Cons.prems(1) by (auto simp: clean_place_def list_all_iff dest: in_set_butlastD)
  then have "clean_place (if c = [] \<or> c = ''.'' then base else if c = ''..'' then butlast base else base @ [c])"
    using Cons.prems by (simp add: dot_part_def)
  then show ?case using Cons.IH Cons.prems(2) unfolding foldl_Cons by (meson list.set_intros(2))
qed simp

lemma slash_parts_no_slash: "c \<in> set (slash_parts p) \<Longrightarrow> CHR ''/'' \<notin> set c"
  unfolding slash_parts_def by (induction p arbitrary: c) (auto split: if_splits list.splits)

lemma resolve_clean: "clean_place base \<Longrightarrow> clean_place (resolve_from base p)"
  unfolding resolve_from_def by (intro normalise_clean) (auto dest: slash_parts_no_slash)

lemma resolvePath_clean: "ws_ok s \<Longrightarrow> resolvePath s p = Inr target \<Longrightarrow> clean_place (l_path target)"
  using resolve_clean [of "root s" p] by (auto simp: resolvePath_def Let_def ws_ok_def split: if_splits sum.splits)

lemma stays_importFile: "stays (\<lambda>_. True) (importFile e source p) (\<lambda>_ _. True)"
proof (rule staysI)
  fix s r s'
  assume s: "ws_ok s" "importFile e source p s = (r, s')"
  define dest where "dest = normalise (root s) (slash_parts p)"
  have clean: "clean_place dest"
    unfolding dest_def using s(1) by (intro normalise_clean) (auto simp: ws_ok_def dest: slash_parts_no_slash)
  define put where "put s1 t b = then_do (ensureDirNoFollow e (root s1) (butlast dest)) (\<lambda>_.
      then_do (assertWritable e dest False) (\<lambda>_. then_do (os_put e dest t) (\<lambda>_. then_do (tell (DidWrite dest t b)) (\<lambda>_. give True))))
      s1" for s1 t b
  have put: "stays (strictly dest) (\<lambda>s1. put s1 t b) (\<lambda>_ _. True)" for t b
    unfolding put_def
  proof (rule stays_root)
    fix r
    show "stays (\<lambda>s. strictly dest s \<and> root s = r) (then_do (ensureDirNoFollow e r (butlast dest)) (\<lambda>_.
        then_do (assertWritable e dest False) (\<lambda>_. then_do (os_put e dest t) (\<lambda>_.
          then_do (tell (DidWrite dest t b)) (\<lambda>_. give True))))) (\<lambda>_ _. True)"
      by (rule stays_then [OF stays_pre [OF stays_ensureDir]])
        (auto simp: strictly_dir intro!: stays_then [OF stays_assertWritable [OF clean]] stays_then [OF stays_put] stays_then [OF stays_tell] stays_give)
  qed
  have "stays (\<lambda>_. True) (then_do (assertWritable e dest False) (\<lambda>_ s1. case source of None \<Rightarrow> (Inr False, s1)
      | Some t \<Rightarrow> (let existing = lstat (disk_of s1) dest
           in if (case existing of Inr (FileNode _) \<Rightarrow> False | Inr _ \<Rightarrow> True | Inl _ \<Rightarrow> False) then (Inr False, s1)
              else put s1 t (case existing of Inl _ \<Rightarrow> True | Inr _ \<Rightarrow> False)))) (\<lambda>_ _. True)"
  proof (rule stays_then [OF stays_assertWritable [OF clean]], rule staysI)
    fix u s1 r s2
    assume s1: "ws_ok s1" "strictly dest s1" "(case source of None \<Rightarrow> (Inr False, s1)
      | Some t \<Rightarrow> (let existing = lstat (disk_of s1) dest
           in if (case existing of Inr (FileNode _) \<Rightarrow> False | Inr _ \<Rightarrow> True | Inl _ \<Rightarrow> False) then (Inr False, s1)
              else put s1 t (case existing of Inl _ \<Rightarrow> True | Inr _ \<Rightarrow> False))) = (r, s2)"
    then have "s2 = s1 \<or> (\<exists>t b. put s1 t b = (r, s2))" by (auto simp: Let_def split: option.splits if_splits)
    then show "ws_ok s2 \<and> confined s1 s2 \<and> (\<forall>x. r = Inr x \<longrightarrow> True)"
      using s1(1) staysD(1,2) [OF put s1(1,2)] by auto
  qed
  from staysD(1,2) [OF this s(1) TrueI] s(2)
  show "ws_ok s' \<and> confined s s' \<and> (\<forall>x. r = Inr x \<longrightarrow> True)"
    unfolding importFile_def Let_def dest_def [symmetric] put_def by simp
qed

lemma area_top: "area_of (root s @ [REPO_DATA_DIR]) s" "area_of (root s @ [REPO_TMP_DIR]) s"
  by (auto simp: area_of_def in_area_def REPO_DATA_DIR_def REPO_TMP_DIR_def dot_part_def isGitDir_def toLowerCase_def lower_char_def)

lemma stays_ensureLayout: "stays (\<lambda>_. True) (ensureLayout e) (\<lambda>_ _. True)"
  unfolding ensureLayout_def
proof (rule stays_then [OF stays_fence], rule stays_root)
  fix u r
  have 1: "stays (\<lambda>s. True \<and> root s = r) (ensureDirNoFollow e r (r @ [d])) (\<lambda>_ s. True \<and> root s = r)"
    if "d \<in> {REPO_DATA_DIR, REPO_TMP_DIR}" for d
    by (rule stays_pre [OF stays_keep [OF stays_ensureDir lasting_root]]) (use that area_top in auto)
  show "stays (\<lambda>s. True \<and> root s = r) (then_do (ensureDirNoFollow e r (r @ [REPO_DATA_DIR]))
      (\<lambda>_. ensureDirNoFollow e r (r @ [REPO_TMP_DIR]))) (\<lambda>_ _. True)"
    by (rule stays_ignore, rule stays_then [OF 1 1]) simp_all
qed

subsection \<open>Any life of a workspace\<close>

text \<open>What the agent's tools and the harness do; a path of an edit is that of a \<^verbatim>\<open>file:\<close> URI.\<close>

datatype ws_action =
    CreateA string document | ApplyA "(string \<times> int \<times> int \<times> document) list" | DeleteA string
  | ImportA "document option" string | LayoutA | TurnA "string option"

definition pathForUri :: "string \<Rightarrow> place" where
  "pathForUri p = resolve_from [] p"

fun ws_act :: "os \<Rightarrow> ws_action \<Rightarrow> node_ws \<Rightarrow> node_ws" where
  "ws_act e (CreateA p t) s = (case resolvePath s p of Inl _ \<Rightarrow> s | Inr target \<Rightarrow> snd (ws_createFile e target t s))"
| "ws_act e (ApplyA xs) s =
     snd (applyEdits e (map (\<lambda>(p, a, b, t). \<lparr>te_path = pathForUri p, startOffset = a, endOffset = b, newText = t\<rparr>) xs) s)"
| "ws_act e (DeleteA p) s = (case resolvePath s p of Inl _ \<Rightarrow> s | Inr target \<Rightarrow> snd (ws_deleteFile e target s))"
| "ws_act e (ImportA source p) s = snd (importFile e source p s)"
| "ws_act e LayoutA s = snd (ensureLayout e s)"
| "ws_act e (TurnA t) s = setTurn t s"

lemma ws_act_stays:
  assumes "ws_ok s"
  shows "ws_ok (ws_act e a s) \<and> confined s (ws_act e a s)"
proof -
  have by_op: "ws_ok (snd (m s)) \<and> confined s (snd (m s))" if "stays (\<lambda>_. True) m Q" for m :: "'a op" and Q
    using staysD(1,2) [OF that assms TrueI, of "fst (m s)" "snd (m s)"] by simp
  show ?thesis
  proof (cases a)
    case (CreateA p t)
    then show ?thesis using assms resolvePath_clean by (auto split: sum.split intro: by_op [OF stays_createFile, THEN conjunct1]
        by_op [OF stays_createFile, THEN conjunct2])
  next
    case (ApplyA xs)
    have "\<forall>x\<in>set (map (\<lambda>(p, a, b, t). \<lparr>te_path = pathForUri p, startOffset = a, endOffset = b, newText = t\<rparr>) xs). clean_place (te_path x)"
      using resolve_clean [of "[]"] by (auto simp: pathForUri_def)
    then show ?thesis using by_op [OF stays_applyEdits] ApplyA by simp
  next
    case (DeleteA p)
    then show ?thesis using assms resolvePath_clean by (auto split: sum.split intro: by_op [OF stays_deleteFile, THEN conjunct1]
        by_op [OF stays_deleteFile, THEN conjunct2])
  next
    case (ImportA source p)
    then show ?thesis using by_op [OF stays_importFile] by simp
  next
    case LayoutA
    then show ?thesis using by_op [OF stays_ensureLayout] by simp
  next
    case (TurnA t)
    have "root (setTurn t s) = root s" "realRoot (setTurn t s) = realRoot s" "disk_of (setTurn t s) = disk_of s"
      by (simp_all add: setTurn_def)
    then show ?thesis using TurnA assms by (simp add: ws_ok_def confined_same)
  qed
qed

definition ws_run :: "os \<Rightarrow> ws_action list \<Rightarrow> node_ws \<Rightarrow> node_ws" where
  "ws_run e as s = fold (ws_act e) as s"

lemma ws_run_stays: "ws_ok s \<Longrightarrow> ws_ok (ws_run e as s) \<and> confined s (ws_run e as s)"
  unfolding ws_run_def
proof (induction as arbitrary: s)
  case (Cons a as)
  then show ?case using ws_act_stays [OF Cons.prems] confined_trans by (metis fold_simps(2))
qed simp

subsection \<open>Reading stays inside\<close>

lemma realRelative_place:
  assumes "realRelative s p display = Inr rel" "realpath (disk_of s) p = Inr q"
  shows "q = realRoot s @ rel" "\<not> list_ex isGitDir rel" "\<not> leaves rel"
proof -
  have "real_of (disk_of s) p [] = Inr q" using assms(2) by (subst real_of.simps) simp
  then have "relative_to (realRoot s) q = rel" "\<not> leaves rel" "\<not> list_ex isGitDir rel"
    using assms(1) by (auto simp: realRelative_def Let_def split: if_splits)
  then show "q = realRoot s @ rel" "\<not> list_ex isGitDir rel" "\<not> leaves rel" using relative_stays by blast+
qed

text \<open>C21: whatever the disk looks like, symbolic links and all, a file that is read is a regular file that really is below
  the session's repository, outside every \<^verbatim>\<open>.git\<close> and not too large, and its text is what is returned.\<close>

theorem reads_inside:
  "case readFile e s p of
     Inl err \<Rightarrow> True
   | Inr t \<Rightarrow> byte_size e t \<le> MAX_READ_BYTES \<and>
       (\<exists>rel. disk_of s (realRoot s @ rel) = Some (FileNode t) \<and> realpath (disk_of s) p = Inr (realRoot s @ rel) \<and> \<not> list_ex isGitDir rel)"
proof (cases "readFile e s p")
  case (Inr t)
  obtain rel where in_rel: "realRelative s p (dotted (relative_to (root s) p)) = Inr rel" and opened: "open_file e (disk_of s) p MAX_READ_BYTES = Inr t"
    using Inr by (auto simp: readFile_def assertInside_def Let_def split: if_splits sum.splits)
  obtain q where q: "lstat_place (disk_of s) p = Inr q" "disk_of s q = Some (FileNode t)" "byte_size e t \<le> MAX_READ_BYTES"
    using opened by (auto simp: open_file_def lstat_def split: sum.splits option.splits node.splits if_splits)
  have "realpath (disk_of s) p = Inr q"
    using walk_follow [of "disk_of s" MAX_LINKS "[]" p q] q(1,2) by (simp add: lstat_place_def realpath_def)
  with realRelative_place [OF in_rel this] q Inr show ?thesis by auto
qed simp

text \<open>A path that is resolved lies below the root, as it is written and as it is.\<close>

lemma resolved_inside:
  assumes "resolvePath s p = Inr target"
  shows "\<exists>rel. l_path target = root s @ rel \<and> \<not> list_ex isGitDir rel \<and> l_relative target = dotted rel"
    "realpath (disk_of s) (l_path target) = Inr q \<Longrightarrow> \<exists>rel. q = realRoot s @ rel \<and> \<not> list_ex isGitDir rel"
proof -
  define rel where "rel = relative_to (root s) (resolve_from (root s) p)"
  obtain real where r: "\<not> leaves rel" "\<not> list_ex isGitDir rel" "l_path target = resolve_from (root s) p" "l_relative target = dotted rel"
    "realRelative s (l_path target) p = Inr real"
    using assms by (auto simp: resolvePath_def Let_def rel_def split: if_splits sum.splits)
  then show "\<exists>rel. l_path target = root s @ rel \<and> \<not> list_ex isGitDir rel \<and> l_relative target = dotted rel"
    using relative_stays unfolding rel_def by metis
  show "realpath (disk_of s) (l_path target) = Inr q \<Longrightarrow> \<exists>rel. q = realRoot s @ rel \<and> \<not> list_ex isGitDir rel"
    using realRelative_place [OF r(5)] by blast
qed

subsection \<open>Writing stays inside\<close>

text \<open>C20: whatever the agent's tools and the harness ask for, in any order, with calls of the system that are refused or cut
  off and whatever symbolic links are on the disk, the disk changes only below \<^verbatim>\<open>data/\<close> and \<^verbatim>\<open>tmp/\<close> of the session's
  repository and outside every \<^verbatim>\<open>.git\<close>; \<^verbatim>\<open>data\<close> and \<^verbatim>\<open>tmp\<close> themselves are only ever made. No link is made and no
  directory is removed.\<close>

theorem writes_inside:
  assumes "ws_ok s"
  shows "let s' = ws_run e as s in
     (\<forall>q. disk_of s' q \<noteq> disk_of s q \<longrightarrow>
        (\<exists>top rest. q = root s @ top # rest \<and> top \<in> {''data'', ''tmp''} \<and> clean_place rest \<and> \<not> list_ex isGitDir rest \<and>
           (rest = [] \<longrightarrow> disk_of s q = None))) \<and>
     (\<forall>q link. disk_of s' q = Some (LinkNode link) \<longrightarrow> disk_of s q = Some (LinkNode link)) \<and>
     (\<forall>q. disk_of s q = Some DirNode \<longrightarrow> disk_of s' q = Some DirNode)"
proof -
  let ?s = "ws_run e as s"
  have c: "confined s ?s" using ws_run_stays [OF assms] by blast
  have "\<exists>top rest. q = root s @ top # rest \<and> top \<in> {''data'', ''tmp''} \<and> clean_place rest \<and> \<not> list_ex isGitDir rest \<and>
      (rest = [] \<longrightarrow> disk_of s q = None)" if diff: "disk_of ?s q \<noteq> disk_of s q" for q
  proof -
    obtain rel where rel: "q = root s @ rel" "in_area rel" "2 \<le> length rel \<or> disk_of s q = None"
      using c diff unfolding confined_def by blast
    then obtain top rest where "rel = top # rest" by (cases rel) (auto simp: in_area_def)
    then show ?thesis using rel by (auto simp: in_area_def REPO_DATA_DIR_def REPO_TMP_DIR_def)
  qed
  moreover have "disk_of s q = Some (LinkNode link)" if "disk_of ?s q = Some (LinkNode link)" for q link
    using c that unfolding confined_def by (metis is_link_simps(4))
  ultimately show ?thesis using confined_dir [OF c] by (simp only: Let_def) blast
qed

definition all_well :: os where
  "all_well = \<lparr>io_says = (\<lambda>_. IoOk), fence_says = (\<lambda>_. True), byte_size = (\<lambda>t. int (length t))\<rparr>"

text \<open>A repository with a link \<^verbatim>\<open>data/out\<close> to a directory outside it.\<close>

definition small_ws :: node_ws where
  "small_ws = \<lparr>root = [''r''], realRoot = [''r''], turn = Some ''t1'', copied = [],
     disk_of = [[] \<mapsto> DirNode, [''r''] \<mapsto> DirNode, [''etc''] \<mapsto> DirNode, [''r'', ''data''] \<mapsto> DirNode,
       [''r'', ''data'', ''out''] \<mapsto> LinkNode ''/etc'', [''r'', ''data'', ''a''] \<mapsto> FileNode [7]], clock = 0, told = []\<rparr>"

lemma small_ws_ok: "ws_ok small_ws"
proof -
  have "wf_disk (disk_of small_ws)"
    unfolding wf_disk_def by (auto simp: small_ws_def append_eq_Cons_conv split: if_splits)
  moreover have "disk_of small_ws (take k [''r'']) = Some DirNode" for k
    by (cases k) (simp_all add: small_ws_def)
  ultimately show ?thesis by (simp add: ws_ok_def small_ws_def dot_part_def)
qed

text \<open>A write through the link is refused, a new file is made.\<close>

theorem writes_inside_witness:
  "let s' = ws_run all_well [CreateA ''data/out/x'' [2], CreateA ''data/b'' [1]] small_ws in
     disk_of s' [''r'', ''data'', ''b''] = Some (FileNode [1]) \<and>
     disk_of s' [''etc'', ''x''] = None \<and> disk_of s' [''etc''] = Some DirNode"
proof -
  let ?s = "ws_run all_well [CreateA ''data/out/x'' [2], CreateA ''data/b'' [1]] small_ws"
  have "disk_of ?s [''r'', ''data'', ''b''] = Some (FileNode [1])" by code_simp
  moreover have same: "disk_of ?s q = disk_of small_ws q" if "hd q \<noteq> ''r''" for q
  proof (rule ccontr)
    assume "disk_of ?s q \<noteq> disk_of small_ws q"
    then obtain top rest where "q = root small_ws @ top # rest"
      using writes_inside [OF small_ws_ok, of all_well "[CreateA ''data/out/x'' [2], CreateA ''data/b'' [1]]"] unfolding Let_def by blast
    with that show False by (simp add: small_ws_def)
  qed
  moreover have "disk_of ?s [''etc'', ''x''] = None" "disk_of ?s [''etc''] = Some DirNode"
    by (simp_all add: same) (simp_all add: small_ws_def)
  ultimately show ?thesis by (simp add: Let_def)
qed


text \<open>A file below a path whose earlier, deleted file was put aside cannot be put aside: it is deleted without a copy.\<close>

lemma no_copy_below_a_copy:
  "let s' = ws_run all_well [DeleteA ''data/a'', CreateA ''data/a/b'' [3], DeleteA ''data/a/b''] small_ws in
     disk_of s' [''r'', ''tmp'', ''deleted'', ''t-t1'', ''a''] = Some (FileNode [7]) \<and>
     told s' = [DidDelete [''r'', ''data'', ''a''], DidWrite [''r'', ''data'', ''a'', ''b''] [3] True, DidDelete [''r'', ''data'', ''a'', ''b'']] \<and>
     disk_of s' [''r'', ''tmp'', ''deleted'', ''t-t1'', ''a'', ''b''] = None"
  by code_simp

end
