(* ===== verification/Refactor.thy ===== *)
theory Refactor
  imports NodeWorkspace
begin

text \<open>
  The tool that renames an identifier wherever it is used: \<^verbatim>\<open>ts-shared/legalese-agent/src/tools/refactor.ts\<close>.

  What the language server answers (semantic tokens, references) and the text of a document are parameters, and so is
  whether the workspace takes the edits. A thrown error is the left of a sum; its text is left out. A name is a text of code
  units, like the documents.
\<close>

subsection \<open>Names\<close>

datatype role = OldName | NewName

datatype refactor_error =
    NoArguments | NoAction | UnknownAction string | NeedsNames
  | NameMissing role | OnlyBackticks role | InteriorBacktick role | ManyLines role
  | Annotation role | Directive role | LineComment role | PathLike role
  | CannotResolve | CannotOpen | NotFound | NotIdentifier string | LookupFailed | NoReferences
  | CannotRead | NoneMatched nat | WorkspaceRefused

definition backtick :: code_unit where
  "backtick = 96"

definition strip_backticks :: "document \<Rightarrow> document" where
  "strip_backticks s = rev (dropWhile (\<lambda>c. c = backtick) (rev (dropWhile (\<lambda>c. c = backtick) s)))"

text \<open>\<^verbatim>\<open>[A-Za-z0-9_]\<close>, and \<^verbatim>\<open>BARE_IDENT_RE\<close>.\<close>

definition word_unit :: "code_unit \<Rightarrow> bool" where
  "word_unit c \<longleftrightarrow> (65 \<le> c \<and> c \<le> 90) \<or> (97 \<le> c \<and> c \<le> 122) \<or> (48 \<le> c \<and> c \<le> 57) \<or> c = 95"

definition BARE_IDENT_RE :: "document \<Rightarrow> bool" where
  "BARE_IDENT_RE s \<longleftrightarrow> s \<noteq> [] \<and> list_all word_unit s \<and> \<not> (48 \<le> hd s \<and> hd s \<le> 57)"

definition validateRefactorName :: "document option \<Rightarrow> role \<Rightarrow> refactor_error + document" where
  "validateRefactorName raw role =
     (case raw of
        None \<Rightarrow> Inl (NameMissing role)
      | Some r \<Rightarrow>
          (let name = strip_backticks r
           in if r = [] then Inl (NameMissing role)
              else if name = [] then Inl (OnlyBackticks role)
              else if backtick \<in> set name then Inl (InteriorBacktick role)
              else if 13 \<in> set name \<or> 10 \<in> set name then Inl (ManyLines role)
              else if starts_with [64] name then Inl (Annotation role)
              else if starts_with [35] name then Inl (Directive role)
              else if starts_with [45, 45] name then Inl (LineComment role)
              else if 47 \<in> set name \<or> 92 \<in> set name then Inl (PathLike role)
              else Inr name))"

subsection \<open>Finding the identifier\<close>

record semantic_tokens =
  token_data :: "int list"
  token_types :: "string list"

definition IDENTIFIER_TOKEN_TYPES :: "string list" where
  "IDENTIFIER_TOKEN_TYPES =
     [''variable'', ''function'', ''class'', ''enum'', ''enumMember'', ''interface'', ''struct'', ''type'', ''typeParameter'',
      ''parameter'', ''property'', ''method'', ''namespace'', ''event'', ''label'']"

definition NON_IDENTIFIER_LABELS :: "string \<Rightarrow> string option" where
  "NON_IDENTIFIER_LABELS t =
     (if t = ''keyword'' then Some ''an L4 keyword''
      else if t = ''comment'' then Some ''inside a comment''
      else if t = ''string'' then Some ''inside a string literal''
      else if t = ''number'' then Some ''a numeric literal''
      else if t = ''operator'' then Some ''an operator''
      else if t = ''macro'' then Some ''an L4 directive''
      else if t = ''decorator'' then Some ''an L4 annotation''
      else None)"

text \<open>Along the 5-tuples of the data, at \<open>l\<close> and \<open>c\<close>.\<close>

fun classify_from :: "string list \<Rightarrow> lsp_position \<Rightarrow> int list \<Rightarrow> int \<Rightarrow> int \<Rightarrow> string option" where
  "classify_from types pos (deltaLine # deltaStart # len # typeIdx # modifiers # rest) l c =
     (let l' = (if deltaLine = 0 then l else l + deltaLine); c' = (if deltaLine = 0 then c + deltaStart else deltaStart)
      in if l' = line pos \<and> c' \<le> character pos \<and> character pos < c' + len then
           (if 0 \<le> typeIdx \<and> typeIdx < int (length types) then Some (types ! nat typeIdx) else None)
         else if line pos < l' then None
         else classify_from types pos rest l' c')"
| "classify_from types pos data l c = None"

definition classifyTokenAt :: "semantic_tokens \<Rightarrow> lsp_position \<Rightarrow> string option" where
  "classifyTokenAt tokens pos = classify_from (token_types tokens) pos (token_data tokens) 0 0"

definition classifyAnchorToken :: "semantic_tokens option \<Rightarrow> lsp_position \<Rightarrow> string option" where
  "classifyAnchorToken tokens pos =
     (case tokens of
        None \<Rightarrow> None
      | Some t \<Rightarrow> if token_data t = [] then None else classifyTokenAt t pos)"

text \<open>The matches of a global regular expression: each starts after the one before ended.\<close>

function scan :: "(nat \<Rightarrow> bool) \<Rightarrow> nat \<Rightarrow> nat \<Rightarrow> nat \<Rightarrow> nat list" where
  "scan hit len i n =
     (if n \<le> i then [] else if hit i then i # scan hit len (i + max 1 len) n else scan hit len (i + 1) n)"
  by pat_completeness auto
termination
  by (relation "measure (\<lambda>(hit, len, i, n). n - i)") auto

declare scan.simps [simp del]

definition bare_at :: "document \<Rightarrow> document \<Rightarrow> nat \<Rightarrow> bool" where
  "bare_at t name i \<longleftrightarrow> starts_with name (drop i t) \<and> (i = 0 \<or> \<not> word_unit (t ! (i - 1))) \<and>
     (length t \<le> i + length name \<or> \<not> word_unit (t ! (i + length name)))"

definition findOccurrences :: "document \<Rightarrow> document \<Rightarrow> lsp_position list" where
  "findOccurrences t name =
     map (\<lambda>i. positionAt t (int (i + (if 2 \<le> length name then 2 else 1))))
       (scan (\<lambda>i. starts_with (backtick # name @ [backtick]) (drop i t)) (length name + 2) 0 (length t)) @
     (if BARE_IDENT_RE name
      then map (\<lambda>i. positionAt t (int (i + (if 2 \<le> length name then 1 else 0)))) (scan (bare_at t name) (length name) 0 (length t))
      else [])"

text \<open>The first candidate that is an identifier or cannot be told; the \<open>k\<close>-th asks for the tokens once more.\<close>

fun choose_anchor :: "(nat \<Rightarrow> semantic_tokens option) \<Rightarrow> nat \<Rightarrow> lsp_position list \<Rightarrow> string option \<Rightarrow> refactor_error + lsp_position" where
  "choose_anchor tokens k [] label = Inl (NotIdentifier (case label of None \<Rightarrow> ''not an identifier'' | Some l \<Rightarrow> l))"
| "choose_anchor tokens k (candidate # rest) label =
     (case classifyAnchorToken (tokens k) candidate of
        None \<Rightarrow> Inr candidate
      | Some t \<Rightarrow>
          if t \<in> set IDENTIFIER_TOKEN_TYPES then Inr candidate
          else choose_anchor tokens (k + 1) rest
            (Some (case NON_IDENTIFIER_LABELS t of Some l \<Rightarrow> l | None \<Rightarrow> CHR 0x27 # t @ [CHR 0x27])))"

subsection \<open>The edits\<close>

record lsp_location =
  loc_uri :: string
  loc_start :: lsp_position
  loc_end :: lsp_position

definition renderReplacement :: "document \<Rightarrow> document \<Rightarrow> bool \<Rightarrow> document" where
  "renderReplacement existing newName newNameNeedsBackticks =
     (let wrapped = (starts_with [backtick] existing \<and> existing \<noteq> [] \<and> last existing = backtick)
      in if wrapped \<or> newNameNeedsBackticks then backtick # newName @ [backtick] else newName)"

definition group_locations :: "lsp_location list \<Rightarrow> (string, lsp_location list) jsmap" where
  "group_locations locations =
     fold (\<lambda>l m. jm_set (loc_uri l) ((case jm_get m (loc_uri l) of None \<Rightarrow> [] | Some ls \<Rightarrow> ls) @ [l]) m) locations []"

text \<open>Last first: stable by character, and then by line.\<close>

definition last_first :: "lsp_location list \<Rightarrow> lsp_location list" where
  "last_first locs =
     sort_key (\<lambda>l. - line (loc_start l)) (sort_key (\<lambda>l. - character (loc_start l)) locs)"

definition location_edit :: "document \<Rightarrow> document \<Rightarrow> document \<Rightarrow> place \<Rightarrow> lsp_location \<Rightarrow> text_edit option" where
  "location_edit t oldName newName p l =
     (let existing = textInRange t (loc_start l) (loc_end l)
      in if strip_backticks existing \<noteq> oldName then None
         else Some \<lparr>te_path = p, startOffset = int (offsetAt t (loc_start l)), endOffset = int (offsetAt t (loc_end l)),
           newText = renderReplacement existing newName (\<not> BARE_IDENT_RE newName)\<rparr>)"

definition file_edits :: "document \<Rightarrow> document \<Rightarrow> document \<Rightarrow> place \<Rightarrow> lsp_location list \<Rightarrow> text_edit list" where
  "file_edits t oldName newName p locs = List.map_filter (location_edit t oldName newName p) (last_first locs)"

record rename_host =
  resolve_uri :: "string \<Rightarrow> string option"
  uri_path :: "string \<Rightarrow> place"
  display_path :: "string \<Rightarrow> string"
  document_of :: "string \<Rightarrow> document option"
  tokens_answer :: "nat \<Rightarrow> semantic_tokens option"
  references_of :: "string \<Rightarrow> lsp_position \<Rightarrow> lsp_location list option"
  edits_taken :: "text_edit list \<Rightarrow> bool"

text \<open>Over the files, in the order of their first location; a document that cannot be read is an error.\<close>

fun collect_edits :: "rename_host \<Rightarrow> document \<Rightarrow> document \<Rightarrow> (string, lsp_location list) jsmap \<Rightarrow>
    refactor_error + text_edit list \<times> string list" where
  "collect_edits h oldName newName [] = Inr ([], [])"
| "collect_edits h oldName newName ((u, locs) # rest) =
     (case document_of h u of
        None \<Rightarrow> Inl CannotRead
      | Some t \<Rightarrow>
          (let es = file_edits t oldName newName (uri_path h u) locs
           in case collect_edits h oldName newName rest of
                Inl err \<Rightarrow> Inl err
              | Inr (more_edits, names) \<Rightarrow> Inr (es @ more_edits, (if es \<noteq> [] then [display_path h u] else []) @ names)))"

datatype rename_result = NothingToDo | Renamed "text_edit list" "string list"

definition l4Rename :: "rename_host \<Rightarrow> string \<Rightarrow> document \<Rightarrow> document \<Rightarrow> refactor_error + rename_result" where
  "l4Rename h path old new =
     (case validateRefactorName (Some old) OldName of
        Inl err \<Rightarrow> Inl err
      | Inr oldName \<Rightarrow>
     (case validateRefactorName (Some new) NewName of
        Inl err \<Rightarrow> Inl err
      | Inr newName \<Rightarrow>
     (if oldName = newName then Inr NothingToDo
      else case resolve_uri h path of
        None \<Rightarrow> Inl CannotResolve
      | Some u \<Rightarrow>
     (case document_of h u of
        None \<Rightarrow> Inl CannotOpen
      | Some t \<Rightarrow>
     (let candidates = findOccurrences t oldName
      in if candidates = [] then Inl NotFound
         else case choose_anchor (tokens_answer h) 0 candidates None of
           Inl err \<Rightarrow> Inl err
         | Inr position \<Rightarrow>
     (case references_of h u position of
        None \<Rightarrow> Inl LookupFailed
      | Some locations \<Rightarrow>
         (if locations = [] then Inl NoReferences
          else case collect_edits h oldName newName (group_locations locations) of
            Inl err \<Rightarrow> Inl err
          | Inr (edits, names) \<Rightarrow>
              (if edits = [] then Inl (NoneMatched (length locations))
               else if \<not> edits_taken h edits then Inl WorkspaceRefused
               else Inr (Renamed edits names)))))))))"

record refactor_args =
  ra_action :: "string option"
  ra_path :: string
  ra_old :: "document option"
  ra_new :: "document option"

text \<open>\<^verbatim>\<open>None\<close> is a value that is not an object.\<close>

definition l4Refactor :: "rename_host \<Rightarrow> refactor_args option \<Rightarrow> refactor_error + rename_result" where
  "l4Refactor h args =
     (case args of
        None \<Rightarrow> Inl NoArguments
      | Some a \<Rightarrow>
          (case ra_action a of
             None \<Rightarrow> Inl NoAction
           | Some act \<Rightarrow>
               (if act = [] then Inl NoAction
                else if act \<noteq> ''rename'' then Inl (UnknownAction act)
                else case (ra_old a, ra_new a) of
                  (Some old, Some new) \<Rightarrow> l4Rename h (ra_path a) old new
                | _ \<Rightarrow> Inl NeedsNames)))"

subsection \<open>What the edits do to a text\<close>

text \<open>A text of gaps with a word after each but the last.\<close>

fun weave :: "document list \<Rightarrow> document list \<Rightarrow> document" where
  "weave (g # gs) (w # ws) = g @ w @ weave gs ws"
| "weave gs ws = concat gs"

lemma weave_snoc: "length gs = Suc (length ws) \<Longrightarrow> weave (gs @ [g]) (ws @ [w]) = weave gs ws @ w @ g"
proof (induction ws arbitrary: gs)
  case Nil
  then obtain h where "gs = [h]" by (auto simp: length_Suc_conv)
  then show ?case by simp
next
  case (Cons v ws)
  then obtain h hs where "gs = h # hs" by (cases gs) auto
  then show ?case using Cons by simp
qed

definition slice_of :: "document \<Rightarrow> text_edit \<Rightarrow> document" where
  "slice_of t x = take (nat (endOffset x) - nat (startOffset x)) (drop (nat (startOffset x)) t)"

lemma apply_down_bounds:
  "apply_down xs limit t = Some t' \<Longrightarrow> x \<in> set xs \<Longrightarrow> 0 \<le> startOffset x \<and> startOffset x \<le> endOffset x \<and> endOffset x \<le> limit"
  by (induction xs limit t rule: apply_down.induct) (force split: if_splits)+

text \<open>Replacements from the end to the beginning that do not overlap replace each its own slice, and nothing else.\<close>

lemma apply_down_weave:
  assumes "apply_down xs (int (length pre)) (pre @ suf) = Some t'"
  shows "\<exists>gaps. length gaps = Suc (length xs) \<and> pre = weave gaps (rev (map (slice_of pre) xs)) \<and>
     t' = weave gaps (rev (map newText xs)) @ suf"
  using assms
proof (induction xs arbitrary: pre suf)
  case Nil
  then show ?case by (intro exI [of _ "[pre]"]) simp
next
  case (Cons x xs)
  define a where "a = nat (startOffset x)"
  define b where "b = nat (endOffset x)"
  have ab: "startOffset x = int a" "endOffset x = int b" "a \<le> b" "b \<le> length pre"
    using Cons.prems by (auto simp: a_def b_def split: if_splits)
  let ?suf = "newText x @ drop b pre @ suf"
  have rest: "apply_down xs (int (length (take a pre))) (take a pre @ ?suf) = Some t'"
    using Cons.prems ab by (simp split: if_splits)
  obtain gaps where g: "length gaps = Suc (length xs)" "take a pre = weave gaps (rev (map (slice_of (take a pre)) xs))"
    "t' = weave gaps (rev (map newText xs)) @ ?suf" using Cons.IH [OF rest] by blast
  have "slice_of (take a pre) y = slice_of pre y" if "y \<in> set xs" for y
  proof -
    have "nat (endOffset y) - nat (startOffset y) \<le> a - nat (startOffset y)"
      using apply_down_bounds [OF rest that] ab(3,4) by (intro diff_le_mono) (simp add: nat_le_iff)
    then show ?thesis by (simp add: slice_of_def drop_take min_absorb1)
  qed
  then have slices: "map (slice_of (take a pre)) xs = map (slice_of pre) xs" by simp
  have own: "pre = take a pre @ slice_of pre x @ drop b pre"
    using ab by (simp add: slice_of_def drop_drop [symmetric] flip: take_add) (metis append_take_drop_id drop_drop le_add_diff_inverse2 append.assoc)
  have "pre = weave (gaps @ [drop b pre]) (rev (map (slice_of pre) (x # xs)))"
    using own g(1) unfolding g(2) [unfolded slices] by (simp add: weave_snoc)
  moreover have "t' = weave (gaps @ [drop b pre]) (rev (map newText (x # xs))) @ suf"
    using g(1,3) by (simp add: weave_snoc)
  ultimately show ?case using g(1) by (intro exI [of _ "gaps @ [drop b pre]"]) simp
qed


text \<open>How the new name is written over an old text: in backticks where that had them, and where the name needs them.\<close>

definition written_name :: "document \<Rightarrow> document \<Rightarrow> document" where
  "written_name new existing =
     (if BARE_IDENT_RE new \<and> \<not> (existing \<noteq> [] \<and> hd existing = 96 \<and> last existing = 96) then new else [96] @ new @ [96])"

text \<open>The edit that a location calls for, if its text is the old name.\<close>

definition wanted_edit :: "document \<Rightarrow> document \<Rightarrow> document \<Rightarrow> place \<Rightarrow> lsp_location \<Rightarrow> text_edit option" where
  "wanted_edit t old new p l =
     (let existing = textInRange t (loc_start l) (loc_end l)
      in if strip_backticks existing = old
         then Some \<lparr>te_path = p, startOffset = int (offsetAt t (loc_start l)), endOffset = int (offsetAt t (loc_end l)),
           newText = written_name new existing\<rparr>
         else None)"

lemma renderReplacement_written: "renderReplacement existing new (\<not> BARE_IDENT_RE new) = written_name new existing"
  by (cases existing) (auto simp: renderReplacement_def written_name_def backtick_def Let_def starts_with_def)

lemma location_edit_wanted: "location_edit t old new p l = wanted_edit t old new p l"
  by (simp add: location_edit_def wanted_edit_def Let_def renderReplacement_written)

text \<open>\<open>t'\<close> is \<open>t\<close> with \<open>n\<close> places replaced that hold the old name, in backticks or not, each by the new one as it is written there.\<close>

definition renamed_text :: "document \<Rightarrow> document \<Rightarrow> nat \<Rightarrow> document \<Rightarrow> document \<Rightarrow> bool" where
  "renamed_text old new n t t' \<longleftrightarrow>
     (\<exists>gaps olds. length olds = n \<and> length gaps = Suc n \<and> list_all (\<lambda>x. strip_backticks x = old) olds \<and>
        t = weave gaps olds \<and> t' = weave gaps (map (written_name new) olds))"

lemma wanted_edit_slice:
  assumes "wanted_edit t old new p l = Some x"
  shows "strip_backticks (slice_of t x) = old" "newText x = written_name new (slice_of t x)"
  using assms by (auto simp: wanted_edit_def Let_def slice_of_def textInRange_def split: if_splits)

lemma edits_renamed:
  assumes "edited_text es t = Some t'" "\<And>x. x \<in> set es \<Longrightarrow> \<exists>l. wanted_edit t old new p l = Some x"
  shows "renamed_text old new (length es) t t'"
proof -
  let ?es = "sort_key (\<lambda>x. - startOffset x) es"
  have "apply_down ?es (int (length t)) (t @ []) = Some t'" using assms(1) by (simp add: edited_text_def)
  from apply_down_weave [OF this] obtain gaps where g: "length gaps = Suc (length ?es)" "t = weave gaps (rev (map (slice_of t) ?es))"
    "t' = weave gaps (rev (map newText ?es))" by auto
  have ok: "strip_backticks (slice_of t x) = old \<and> newText x = written_name new (slice_of t x)" if "x \<in> set ?es" for x
    using assms(2) [of x] that wanted_edit_slice by auto
  then have "map newText ?es = map (written_name new) (map (slice_of t) ?es)" by (simp del: set_sort)
  then have "t' = weave gaps (map (written_name new) (rev (map (slice_of t) ?es)))" unfolding g(3) by (simp only: rev_map)
  moreover have "list_all (\<lambda>x. strip_backticks x = old) (rev (map (slice_of t) ?es))" using ok by (auto simp: list_all_iff)
  ultimately show ?thesis unfolding renamed_text_def
    by (intro exI [of _ gaps] exI [of _ "rev (map (slice_of t) ?es)"] conjI g(2)) (use g(1) in simp_all)
qed

text \<open>The edits of a file are those of the locations in it, once each.\<close>

lemma mset_map_filter: "mset (List.map_filter f xs) = mset (List.map_filter f ys)" if "mset xs = mset ys"
  using that by (metis List.map_filter_def mset_filter mset_map)

lemma file_edits_wanted: "mset (file_edits t old new p locs) = mset (List.map_filter (wanted_edit t old new p) locs)"
  unfolding file_edits_def last_first_def ext [OF location_edit_wanted] by (rule mset_map_filter) simp

lemma group_locations_get:
  "jm_get (group_locations ls) u = (let own = filter (\<lambda>l. loc_uri l = u) ls in if own = [] then None else Some own)"
proof -
  have "jm_get (fold (\<lambda>l m. jm_set (loc_uri l) ((case jm_get m (loc_uri l) of None \<Rightarrow> [] | Some ls \<Rightarrow> ls) @ [l]) m) ls m) u =
      (let own = filter (\<lambda>l. loc_uri l = u) ls in
       if own = [] then jm_get m u else Some ((case jm_get m u of None \<Rightarrow> [] | Some ls \<Rightarrow> ls) @ own))" for m
    by (induction ls arbitrary: m) (auto simp: Let_def js_simps split: option.splits)
  from this [of "[]"] show ?thesis by (simp add: group_locations_def Let_def)
qed


lemma group_locations_wf: "jm_wf (group_locations ls)"
proof -
  have "jm_wf m \<Longrightarrow> jm_wf (fold (\<lambda>l m. jm_set (loc_uri l) ((case jm_get m (loc_uri l) of None \<Rightarrow> [] | Some ls \<Rightarrow> ls) @ [l]) m) ls m)" for m
    by (induction ls arbitrary: m) (simp_all add: jm_wf_set)
  then show ?thesis by (simp add: group_locations_def)
qed

lemma group_locations_mem:
  assumes "(u, locs) \<in> set (group_locations ls)"
  shows "locs = filter (\<lambda>l. loc_uri l = u) ls"
  using assms group_locations_get [of ls u] jm_get_iff [OF group_locations_wf, of ls u locs] by (auto simp: Let_def split: if_splits)

lemma collect_edits_Inr:
  "collect_edits h old new m = Inr (es, names) \<Longrightarrow>
     (\<forall>(u, locs)\<in>set m. document_of h u \<noteq> None) \<and>
     es = concat (map (\<lambda>(u, locs). file_edits (the (document_of h u)) old new (uri_path h u) locs) m)"
proof (induction m arbitrary: es names)
  case (Cons x m)
  obtain u locs where x: "x = (u, locs)" by fastforce
  then obtain t es' names' where "document_of h u = Some t" "collect_edits h old new m = Inr (es', names')"
    "es = file_edits t old new (uri_path h u) locs @ es'"
    using Cons.prems by (auto simp: Let_def split: option.splits sum.splits)
  then show ?case using Cons.IH x by auto
qed simp

text \<open>Every file that is referred to has its group, and no other.\<close>

lemma group_locations_files: "distinct (map fst (group_locations ls)) \<and> set (map fst (group_locations ls)) = loc_uri ` set ls"
proof
  show "distinct (map fst (group_locations ls))" using group_locations_wf [of ls] by (simp add: jm_wf_def)
  have "u \<in> set (map fst (group_locations ls)) \<longleftrightarrow> u \<in> loc_uri ` set ls" for u
  proof -
    have "u \<in> set (map fst (group_locations ls)) \<longleftrightarrow> jm_get (group_locations ls) u \<noteq> None" by (simp add: map_of_eq_None_iff)
    also have "\<dots> \<longleftrightarrow> filter (\<lambda>l. loc_uri l = u) ls \<noteq> []" by (simp add: group_locations_get Let_def)
    also have "\<dots> \<longleftrightarrow> u \<in> loc_uri ` set ls" by (auto simp: filter_empty_conv)
    finally show ?thesis .
  qed
  then show "set (map fst (group_locations ls)) = loc_uri ` set ls" by blast
qed

lemma choose_anchor_candidate: "choose_anchor tokens k cs label = Inr pos \<Longrightarrow> pos \<in> set cs"
  by (induction tokens k cs label rule: choose_anchor.induct) (auto split: option.splits if_splits)

text \<open>What the edits of the files have to be.\<close>

definition file_renamed :: "rename_host \<Rightarrow> document \<Rightarrow> document \<Rightarrow> lsp_location list \<Rightarrow> string \<Rightarrow> text_edit list \<Rightarrow> bool" where
  "file_renamed h old new locations u es \<longleftrightarrow>
     (case document_of h u of
        None \<Rightarrow> False
      | Some t \<Rightarrow>
          mset es = mset (List.map_filter (wanted_edit t old new (uri_path h u)) (filter (\<lambda>l. loc_uri l = u) locations)) \<and>
          (case edited_text es t of None \<Rightarrow> True | Some t' \<Rightarrow> renamed_text old new (length es) t t'))"

lemma file_edits_renamed:
  assumes "document_of h u = Some t" "locs = filter (\<lambda>l. loc_uri l = u) locations"
  shows "file_renamed h old new locations u (file_edits t old new (uri_path h u) locs)"
proof -
  let ?es = "file_edits t old new (uri_path h u) locs"
  have "\<exists>l. wanted_edit t old new (uri_path h u) l = Some x" if "x \<in> set ?es" for x
    using that by (auto simp: file_edits_def List.map_filter_def location_edit_wanted)
  then have "case edited_text ?es t of None \<Rightarrow> True | Some t' \<Rightarrow> renamed_text old new (length ?es) t t'"
    using edits_renamed [of ?es t _ old new "uri_path h u"] by (simp split: option.split)
  then show ?thesis unfolding file_renamed_def assms(1) option.case file_edits_wanted assms(2) [symmetric] by blast
qed

lemma collect_edits_renamed:
  assumes "collect_edits h old new (group_locations locations) = Inr (edits, names)"
  shows "\<exists>changed. distinct (map fst changed) \<and> set (map fst changed) = loc_uri ` set locations \<and> edits = concat (map snd changed) \<and>
    list_all (\<lambda>(u, es). file_renamed h old new locations u es) changed"
proof -
  note ce = collect_edits_Inr [OF assms]
  let ?changed = "map (\<lambda>(u, locs). (u, file_edits (the (document_of h u)) old new (uri_path h u) locs)) (group_locations locations)"
  have fst: "map fst ?changed = map fst (group_locations locations)" by (simp add: case_prod_beta comp_def)
  have edits: "edits = concat (map snd ?changed)"
  proof -
    have "map snd ?changed = map (\<lambda>(u, locs). file_edits (the (document_of h u)) old new (uri_path h u) locs) (group_locations locations)"
      by (simp add: case_prod_beta comp_def)
    from arg_cong [OF this, of concat] show ?thesis by (rule trans [OF conjunct2 [OF ce] sym])
  qed
  have "file_renamed h old new locations u (file_edits (the (document_of h u)) old new (uri_path h u) locs)"
    if m: "(u, locs) \<in> set (group_locations locations)" for u locs
  proof -
    obtain t where t: "document_of h u = Some t" using ce m by fastforce
    show ?thesis using file_edits_renamed [OF t group_locations_mem [OF m]] t by simp
  qed
  then have "list_all (\<lambda>(u, es). file_renamed h old new locations u es) ?changed" by (auto simp: list_all_iff)
  with fst edits group_locations_files [of locations] show ?thesis by (intro exI [of _ ?changed]) metis
qed

text \<open>C31: a rename asks the language server about a place of the old name in the document, and what it hands to the workspace are
  the edits of the files the server named, of every one of them: one edit for each reference in the file whose text is the old
  name, in backticks or not, and nothing else; and in the text that the file gets those places hold the new name, in backticks
  exactly where the old one had them or the new one needs them, and all the rest is as it was.\<close>

theorem rename_exact:
  "case l4Rename h path old new of
     Inr (Renamed edits names) \<Rightarrow>
       (\<exists>u t pos locations changed. resolve_uri h path = Some u \<and> document_of h u = Some t \<and>
          pos \<in> set (findOccurrences t (strip_backticks old)) \<and> references_of h u pos = Some locations \<and> edits \<noteq> [] \<and>
          distinct (map fst changed) \<and> set (map fst changed) = loc_uri ` set locations \<and> edits = concat (map snd changed) \<and>
          list_all (\<lambda>(v, es). file_renamed h (strip_backticks old) (strip_backticks new) locations v es) changed)
   | _ \<Rightarrow> True"
proof (cases "\<exists>edits names. l4Rename h path old new = Inr (Renamed edits names)")
  case False
  then show ?thesis by (auto split: sum.split rename_result.split)
next
  case True
  then obtain edits names where r: "l4Rename h path old new = Inr (Renamed edits names)" by blast
  have valid: "validateRefactorName (Some s) x = Inr n \<Longrightarrow> n = strip_backticks s" for s x n
    by (simp add: validateRefactorName_def Let_def split: if_splits)
  obtain u t pos locations where c: "resolve_uri h path = Some u" "document_of h u = Some t"
    "choose_anchor (tokens_answer h) 0 (findOccurrences t (strip_backticks old)) None = Inr pos"
    "references_of h u pos = Some locations" "edits \<noteq> []"
    "collect_edits h (strip_backticks old) (strip_backticks new) (group_locations locations) = Inr (edits, names)"
    using r unfolding l4Rename_def Let_def by (auto split: sum.splits option.splits if_splits dest!: valid)
  show ?thesis unfolding r sum.case rename_result.case
    using c(1,2,4,5) choose_anchor_candidate [OF c(3)] collect_edits_renamed [OF c(6)] by blast
qed

end
