(* ===== verification/ToolDispatch.thy ===== *)
theory ToolDispatch
  imports FsFiles Permissions PendingInteractions
begin

text \<open>
  How a tool call of the model is carried out: \<^verbatim>\<open>ts-shared/legalese-agent/src/tool-dispatcher.ts\<close>, and the snapshot stores of
  \<^verbatim>\<open>tools/builtin-tools.ts\<close>.

  A call is gated by the permissions that apply to it, waits for the user if it must, and is then executed with the guard's
  checks before and after. The calls of a turn run one after the other; a call is two steps here, up to its approval and from
  there on, and the steps of several turns may interleave. The dispatcher's environment gives, by the number of the step,
  the permissions that apply then and the answers of the tools that are modelled elsewhere or not at all (reading, asking
  the user, renaming, the tools of a provider): renaming may change the text of files that exist, the others change no
  file. Texts among the arguments have code units below 256.
\<close>

subsection \<open>Calls and results\<close>

record tool_call =
  tc_id :: string
  tc_name :: string
  tc_args :: string

datatype tool_result = ToolOk document | ToolFailed document | ToolDenied document | ToolUnknown document

datatype tool_status = PendingApproval | Running | ToolDone document | ToolError document

record applied_snapshot =
  as_uri :: string
  as_relative :: string
  as_before :: document

record dispatch_env =
  ev_host :: host
  ev_resolve :: "string \<Rightarrow> document + resolved_path"
  ev_policy :: "nat \<Rightarrow> category \<Rightarrow> permission_value"
  ev_confirm :: "(resolved_path \<Rightarrow> bool) option"
  ev_prefixes :: "string list"
  ev_provider :: "nat \<Rightarrow> document + document"
  ev_other :: "nat \<Rightarrow> document + document"
  ev_relative :: "string \<Rightarrow> string"
  ev_fsPath :: "string \<Rightarrow> string"
  ev_engine :: document
  ev_floor :: "string \<Rightarrow> int"
  ev_rename :: "nat \<Rightarrow> (document + document) \<times> (string \<times> document) list"
  ev_evaluate :: "nat \<Rightarrow> l4_answers"
  ev_counts :: "nat \<Rightarrow> (string, nat) jsmap option"
  ev_parse :: "string \<Rightarrow> jsval option"

record stores =
  evaluate_store :: snapshots
  edit_store :: snapshots

record dispatcher =
  d_guard :: edit_guard
  d_edits :: "(string, applied_snapshot) jsmap"
  d_stores :: "(string, stores) jsmap"
  d_own :: stores
  d_ws :: fs_state
  d_told :: "(string \<times> tool_status) list"
  d_waiting :: "(tool_call \<times> call_ctx \<times> nat) list"
  d_results :: "(string \<times> tool_result) list"
  d_step :: nat

subsection \<open>The paths of a call\<close>

definition arg_string :: "jsval \<Rightarrow> string \<Rightarrow> string option" where
  "arg_string args k = (case js_prop args k of JStr s \<Rightarrow> Some s | _ \<Rightarrow> None)"

definition non_empty :: "string option \<Rightarrow> string list" where
  "non_empty p = (case p of None \<Rightarrow> [] | Some s \<Rightarrow> if s = [] then [] else [s])"

definition writtenPaths :: "string \<Rightarrow> jsval \<Rightarrow> string list" where
  "writtenPaths name args =
     (if name \<in> {''fs__create_file'', ''fs__edit_file'', ''fs__delete_file''} then non_empty (arg_string args ''path'')
      else if name = ''fs__copy_file'' then
        non_empty (arg_string args ''to'') @
        (if truthy (js_prop args ''deleteSource'') then non_empty (arg_string args ''from'') else [])
      else [])"

definition targetPath :: "string \<Rightarrow> jsval \<Rightarrow> string option" where
  "targetPath name args =
     (case arg_string args (if name = ''fs__copy_file'' then ''to'' else ''path'') of
        None \<Rightarrow> None
      | Some p \<Rightarrow> if p = [] then None else Some p)"

definition blank :: "string \<Rightarrow> bool" where
  "blank s \<longleftrightarrow> trim s = []"

definition parseArgs :: "dispatch_env \<Rightarrow> string \<Rightarrow> jsval option" where
  "parseArgs e json = (if blank json then Some (JObj []) else ev_parse e json)"

definition argsOrNull :: "dispatch_env \<Rightarrow> string \<Rightarrow> jsval" where
  "argsOrNull e json = (case parseArgs e json of None \<Rightarrow> JNull | Some v \<Rightarrow> v)"

definition resolve :: "dispatch_env \<Rightarrow> string \<Rightarrow> document + resolved_path" where
  "resolve e p = (if p = [] then Inl (words ''path is required'') else ev_resolve e p)"

definition resolveFileUri :: "dispatch_env \<Rightarrow> string \<Rightarrow> string option" where
  "resolveFileUri e p = (case resolve e p of Inl _ \<Rightarrow> None | Inr r \<Rightarrow> Some (r_uri r))"

text \<open>\<^verbatim>\<open>resolvePath\<close> throws for the empty path and for what is not a text, which stands for the empty one here.\<close>

definition path_arg :: "jsval \<Rightarrow> string \<Rightarrow> string" where
  "path_arg args k = (case arg_string args k of None \<Rightarrow> [] | Some p \<Rightarrow> p)"

subsection \<open>The gate\<close>

definition withWriteApproval :: "dispatch_env \<Rightarrow> permission_value \<Rightarrow> string \<Rightarrow> jsval \<Rightarrow> permission_value" where
  "withWriteApproval e permission name args =
     (if permission \<noteq> Always then permission
      else case ev_confirm e of
        None \<Rightarrow> permission
      | Some confirm \<Rightarrow>
          if list_ex (\<lambda>p. case resolve e p of Inl _ \<Rightarrow> False | Inr r \<Rightarrow> confirm r) (writtenPaths name args) then Ask
          else permission)"

definition permissionFor :: "dispatch_env \<Rightarrow> nat \<Rightarrow> string \<Rightarrow> string \<Rightarrow> permission_value option" where
  "permissionFor e n name argsJson =
     (let args = argsOrNull e argsJson
      in case strictestPermission (ev_policy e n) (categoriesForCall name args) of
           None \<Rightarrow> None
         | Some (_, permission) \<Rightarrow> Some (withWriteApproval e permission name args))"

datatype verdict = StatusUpdate | Unknown | Denied category | Waits | Goes

definition gate :: "dispatch_env \<Rightarrow> nat \<Rightarrow> tool_call \<Rightarrow> verdict" where
  "gate e n call =
     (if tc_name call = ''meta__post_status_update'' then StatusUpdate
      else case categoryForTool (tc_name call) of
        None \<Rightarrow> Unknown
      | Some c \<Rightarrow>
          (let args = argsOrNull e (tc_args call);
               (deciding, categoryPermission) = (case strictestPermission (ev_policy e n) (categoriesForCall (tc_name call) args) of
                   None \<Rightarrow> (c, ev_policy e n c)
                 | Some d \<Rightarrow> d)
           in case withWriteApproval e categoryPermission (tc_name call) args of
                Never \<Rightarrow> Denied deciding
              | Ask \<Rightarrow> Waits
              | Always \<Rightarrow> Goes))"

subsection \<open>Stores\<close>

definition MAX_SNAPSHOT_CONVERSATIONS :: nat where
  "MAX_SNAPSHOT_CONVERSATIONS = 200"

definition new_stores :: stores where
  "new_stores = \<lparr>evaluate_store = [], edit_store = []\<rparr>"

text \<open>The stores of a conversation, moved to the end; beyond the limit the oldest are dropped.\<close>

definition storesFor :: "string \<Rightarrow> dispatcher \<Rightarrow> stores \<times> dispatcher" where
  "storesFor conversation s =
     (if conversation = [] then (d_own s, s)
      else
        (let found = (case jm_get (d_stores s) conversation of None \<Rightarrow> new_stores | Some st \<Rightarrow> st);
             m = jm_set conversation found (jm_delete conversation (d_stores s))
         in (found, s\<lparr>d_stores := drop (length m - MAX_SNAPSHOT_CONVERSATIONS) m\<rparr>)))"

definition put_stores :: "string \<Rightarrow> stores \<Rightarrow> dispatcher \<Rightarrow> dispatcher" where
  "put_stores conversation st s =
     (if conversation = [] then s\<lparr>d_own := st\<rparr> else s\<lparr>d_stores := jm_set conversation st (d_stores s)\<rparr>)"

text \<open>A tool of the workspace, run with the edit store of the conversation.\<close>

definition with_edit_store :: "string \<Rightarrow> (fs_state \<Rightarrow> 'r \<times> fs_state) \<Rightarrow> dispatcher \<Rightarrow> 'r \<times> dispatcher" where
  "with_edit_store conversation act s =
     (let (st, s1) = storesFor conversation s; (r, w) = act ((d_ws s1)\<lparr>edit_snapshots := edit_store st\<rparr>)
      in (r, put_stores conversation (st\<lparr>edit_store := edit_snapshots w\<rparr>) (s1\<lparr>d_ws := w\<rparr>)))"

subsection \<open>The guard around the tools\<close>

text \<open>What the guard compares with: the state of a file and the results of its checks.\<close>

definition snapshot :: "dispatch_env \<Rightarrow> fs_state \<Rightarrow> file_snapshot option \<times> fs_state" where
  "snapshot e w =
     (case fileState (ev_host e) w of
        (None, w1) \<Rightarrow> (None, w1)
      | (Some (checked, _), w1) \<Rightarrow>
          (let rows = (case directive_answer (ev_host e) (directives_asked w1) of None \<Rightarrow> [] | Some rs \<Rightarrow> rs)
           in (Some \<lparr>snap_state = Some (l4FileState checked),
                 checks = map (\<lambda>r. r\<lparr>directiveId := '''', prettyText := ''''\<rparr>) (filter (\<lambda>r. success r \<noteq> None) rows)\<rparr>,
               w1\<lparr>directives_asked := directives_asked w1 + 1\<rparr>)))"

definition beginRound_calls :: "dispatch_env \<Rightarrow> string \<Rightarrow> tool_call list \<Rightarrow> dispatcher \<Rightarrow> dispatcher" where
  "beginRound_calls e turn calls s =
     (let uris = List.map_filter (\<lambda>c. if tc_name c \<noteq> ''fs__edit_file'' then None
            else Option.bind (targetPath (tc_name c) (argsOrNull e (tc_args c))) (resolveFileUri e)) calls
      in s\<lparr>d_guard := beginRound turn uris (d_guard s)\<rparr>)"

text \<open>A file that is not tracked yet gets its baseline before it is changed.\<close>

definition track_before :: "dispatch_env \<Rightarrow> string \<Rightarrow> resolved_path \<Rightarrow> bool \<Rightarrow> dispatcher \<Rightarrow> dispatcher" where
  "track_before e turn r mayBeNew s =
     (if \<not> isL4Path (r_fsPath r) \<or> isTracked turn (r_uri r) (d_guard s) then s
      else
        (let g = noteErrorsBefore turn (ev_counts e (d_step s)) (d_guard s);
             (base, w) = (if mayBeNew \<and> entries (d_ws s) (r_fsPath r) = None then (Some NEW_FILE, d_ws s) else snapshot e (d_ws s))
         in s\<lparr>d_guard := track turn (r_uri r) (r_relative r) (case base of None \<Rightarrow> \<lparr>snap_state = None, checks = []\<rparr> | Some b \<Rightarrow> b) g,
              d_ws := w\<rparr>))"

text \<open>The sequence of a file is an object that the guard and the tool share.\<close>

definition put_sequence :: "string \<Rightarrow> string \<Rightarrow> edit_sequence option \<Rightarrow> edit_guard \<Rightarrow> edit_guard" where
  "put_sequence turn u run g =
     (case (run, jm_get g turn) of
        (Some q, Some t) \<Rightarrow> jm_set turn (t\<lparr>sequences := jm_set u q (sequences t)\<rparr>) g
      | _ \<Rightarrow> g)"

definition record_result :: "string \<Rightarrow> string \<Rightarrow> l4_file_state option \<Rightarrow> nat \<Rightarrow> dispatcher \<Rightarrow> dispatcher" where
  "record_result turn u st n s =
     (case st of None \<Rightarrow> s | Some x \<Rightarrow> s\<lparr>d_guard := recordState turn u x n (d_guard s)\<rparr>)"

definition may_quote :: "dispatch_env \<Rightarrow> nat \<Rightarrow> bool" where
  "may_quote e n \<longleftrightarrow> ev_policy e n FsRead = Always"


subsection \<open>The tools\<close>

definition content_of :: "jsval \<Rightarrow> content_arg" where
  "content_of v = (case v of JUndefined \<Rightarrow> NoContent | JStr t \<Rightarrow> Content (words t) | _ \<Rightarrow> BadContent)"

definition edit_item_of :: "dispatch_env \<Rightarrow> jsval \<Rightarrow> edit_item" where
  "edit_item_of e v =
     \<lparr>old_text = map_option words (arg_string v ''old''), new_text = map_option words (arg_string v ''new''),
      start_line = (case js_prop v ''startLine'' of JNum n \<Rightarrow> Some n | JFrac x \<Rightarrow> Some (ev_floor e x) | _ \<Rightarrow> None)\<rparr>"

definition edits_of :: "dispatch_env \<Rightarrow> jsval \<Rightarrow> edits_arg" where
  "edits_of e v = (case v of JUndefined \<Rightarrow> NoEdits | JArray vs \<Rightarrow> Edits (map (edit_item_of e) vs) | _ \<Rightarrow> BadEdits)"

text \<open>A new file may get another name than the one that the snapshot was taken for.\<close>

definition move_snapshot :: "string \<Rightarrow> create_result \<Rightarrow> dispatcher \<Rightarrow> dispatcher" where
  "move_snapshot callId r s =
     (case jm_get (d_edits s) callId of
        None \<Rightarrow> s
      | Some snap \<Rightarrow>
          if as_uri snap = cr_uri r then s
          else s\<lparr>d_edits := jm_set callId \<lparr>as_uri = cr_uri r, as_relative = cr_relative r, as_before = []\<rparr> (d_edits s)\<rparr>)"

definition createFile_tool :: "dispatch_env \<Rightarrow> string \<Rightarrow> jsval \<Rightarrow> call_ctx \<Rightarrow> dispatcher \<Rightarrow> (document + document) \<times> dispatcher" where
  "createFile_tool e callId args ctx s =
     (case Option.bind (resolveFileUri e (path_arg args ''path'')) (\<lambda>u. blocked (turnId ctx) u (d_guard s)) of
        Some why \<Rightarrow> (Inl (words why), s)
      | None \<Rightarrow>
          (case with_edit_store (conversationId ctx)
              (fsCreateFileDetailed (ev_host e) (resolve e) (path_arg args ''path'') (content_of (js_prop args ''content''))) s of
             (Inl message, s1) \<Rightarrow> (Inl message, s1)
           | (Inr r, s1) \<Rightarrow>
               (let s2 = move_snapshot callId r s1
                in (Inr (cr_output r),
                    case cr_state r of
                      None \<Rightarrow> s2
                    | Some st \<Rightarrow>
                        record_result (turnId ctx) (cr_uri r) (Some st) 1
                          (s2\<lparr>d_guard := track (turnId ctx) (cr_uri r) (cr_relative r) NEW_FILE (d_guard s2)\<rparr>)))))"

definition copyFile_tool :: "dispatch_env \<Rightarrow> jsval \<Rightarrow> call_ctx \<Rightarrow> dispatcher \<Rightarrow> (document + document) \<times> dispatcher" where
  "copyFile_tool e args ctx s =
     (case resolve e (path_arg args ''to'') of
        Inl message \<Rightarrow> (Inl message, s)
      | Inr target \<Rightarrow>
          (case blocked (turnId ctx) (r_uri target) (d_guard s) of
             Some why \<Rightarrow> (Inl (words why), s)
           | None \<Rightarrow>
               (case with_edit_store (conversationId ctx)
                   (fsCopyFileDetailed (ev_host e) (resolve e) (arg_string args ''from'') (arg_string args ''to'')
                     (truthy (js_prop args ''overwrite'')) (truthy (js_prop args ''deleteSource'')))
                   (track_before e (turnId ctx) target True s) of
                  (Inl message, s1) \<Rightarrow> (Inl message, s1)
                | (Inr r, s1) \<Rightarrow> (Inr (cr_output r), record_result (turnId ctx) (cr_uri r) (cr_state r) 1 s1))))"

definition editFile_tool :: "dispatch_env \<Rightarrow> jsval \<Rightarrow> call_ctx \<Rightarrow> dispatcher \<Rightarrow> (document + document) \<times> dispatcher" where
  "editFile_tool e args ctx s =
     (case resolve e (path_arg args ''path'') of
        Inl message \<Rightarrow> (Inl message, s)
      | Inr r \<Rightarrow>
          (case blocked (turnId ctx) (r_uri r) (d_guard s) of
             Some why \<Rightarrow> (Inl (words why), s)
           | None \<Rightarrow>
               (let s1 = track_before e (turnId ctx) r False s;
                    (out, s2) = with_edit_store (conversationId ctx)
                      (\<lambda>w. case fsEditFileDetailed (ev_host e) (resolve e) (may_quote e (d_step s1)) (path_arg args ''path'')
                             (edits_of e (js_prop args ''edits'')) (edit_item_of e args) (sequenceFor (turnId ctx) (r_uri r) (d_guard s1)) w of
                           (res, run, w1) \<Rightarrow> ((res, run), w1)) s1;
                    s3 = s2\<lparr>d_guard := put_sequence (turnId ctx) (r_uri r) (snd out) (d_guard s2)\<rparr>
                in case fst out of
                     Inl message \<Rightarrow> (Inl message, s3)
                   | Inr x \<Rightarrow> (Inr (tool_output x), record_result (turnId ctx) (r_uri r) (result_state x) (edits_done x) s3))))"

definition deleteFile_tool :: "dispatch_env \<Rightarrow> jsval \<Rightarrow> dispatcher \<Rightarrow> (document + document) \<times> dispatcher" where
  "deleteFile_tool e args s =
     (case fsDeleteFile (ev_host e) (resolve e) (path_arg args ''path'') (d_ws s) of (r, w) \<Rightarrow> (r, s\<lparr>d_ws := w\<rparr>))"

definition evaluate_tool :: "dispatch_env \<Rightarrow> jsval \<Rightarrow> call_ctx \<Rightarrow> dispatcher \<Rightarrow> (document + document) \<times> dispatcher" where
  "evaluate_tool e args ctx s =
     (let (st, s1) = storesFor (conversationId ctx) s;
          (r, sn) = l4Evaluate (ev_evaluate e (d_step s)) (path_arg args ''path'')
            (case js_prop args ''timeoutMs'' of JNum n \<Rightarrow> Some (nat n) | JFrac x \<Rightarrow> Some (nat (ev_floor e x)) | _ \<Rightarrow> None)
            (case js_prop args ''mode'' of JUndefined \<Rightarrow> None | JNull \<Rightarrow> None | JStr m \<Rightarrow> Some (if m = ''full'' then Full else Changed)
             | _ \<Rightarrow> Some Changed)
            (evaluate_store st)
      in ((case r of Inl m \<Rightarrow> Inl (words m) | Inr t \<Rightarrow> Inr (of_units t)), put_stores (conversationId ctx) (st\<lparr>evaluate_store := sn\<rparr>) s1))"

text \<open>Texts that a rename gives to files that are there.\<close>

definition rewrite_files :: "(string \<times> document) list \<Rightarrow> fs_state \<Rightarrow> fs_state" where
  "rewrite_files ts w =
     w\<lparr>entries := fold (\<lambda>(p, t) m. case m p of Some (File d) \<Rightarrow> m(p \<mapsto> File (d\<lparr>doc_text := t\<rparr>)) | _ \<Rightarrow> m) ts (entries w)\<rparr>"

definition refactor_tool :: "dispatch_env \<Rightarrow> dispatcher \<Rightarrow> (document + document) \<times> dispatcher" where
  "refactor_tool e s = (case ev_rename e (d_step s) of (r, ts) \<Rightarrow> (r, s\<lparr>d_ws := rewrite_files ts (d_ws s)\<rparr>))"

text \<open>The arguments \<^verbatim>\<open>null\<close> make a tool throw when it reads their first field; renaming checks for them.\<close>

definition execute :: "dispatch_env \<Rightarrow> tool_call \<Rightarrow> jsval \<Rightarrow> call_ctx \<Rightarrow> dispatcher \<Rightarrow> (document + document) \<times> dispatcher" where
  "execute e call args ctx s =
     (let name = tc_name call
      in if list_ex (\<lambda>p. starts_with p name) (ev_prefixes e) then (ev_provider e (d_step s), s)
         else if name = ''l4__refactor'' then refactor_tool e s
         else if args = JNull then (Inl (ev_engine e), s)
         else if name = ''fs__read_file'' then (ev_other e (d_step s), s)
         else if name = ''fs__create_file'' then createFile_tool e (tc_id call) args ctx s
         else if name = ''fs__edit_file'' then editFile_tool e args ctx s
         else if name = ''fs__delete_file'' then deleteFile_tool e args s
         else if name = ''fs__copy_file'' then copyFile_tool e args ctx s
         else if name = ''l4__evaluate'' then evaluate_tool e args ctx s
         else if name = ''meta__ask_user'' then (ev_other e (d_step s), s)
         else (Inl (words (''No executor for tool: '' @ name)), s))"

subsection \<open>Before a file is changed\<close>

text \<open>The text of a file, with its line ends made one; the left is a throw.\<close>

definition currentContents :: "resolved_path \<Rightarrow> fs_state \<Rightarrow> document option" where
  "currentContents r w =
     (case entries w (r_fsPath r) of None \<Rightarrow> Some [] | Some (File d) \<Rightarrow> Some (to_lf (doc_text d)) | Some Folder \<Rightarrow> None)"

definition snapshotIfMutating :: "dispatch_env \<Rightarrow> tool_call \<Rightarrow> jsval \<Rightarrow> dispatcher \<Rightarrow> dispatcher" where
  "snapshotIfMutating e call args s =
     (if tc_name call \<notin> {''fs__edit_file'', ''fs__create_file'', ''fs__copy_file''} then s
      else case targetPath (tc_name call) args of
        None \<Rightarrow> s
      | Some p \<Rightarrow>
          (case resolve e p of
             Inl _ \<Rightarrow> s
           | Inr r \<Rightarrow>
               (case currentContents r (d_ws s) of
                  None \<Rightarrow> s
                | Some before \<Rightarrow>
                    s\<lparr>d_edits := jm_set (tc_id call)
                       \<lparr>as_uri = r_uri r, as_relative = ev_relative e (r_uri r), as_before = before\<rparr> (d_edits s)\<rparr>)))"

definition resolveFile :: "dispatch_env \<Rightarrow> tool_call \<Rightarrow> dispatcher \<Rightarrow> string option" where
  "resolveFile e call s =
     (let asked = Option.bind (if tc_args call = [] then Some (JObj []) else ev_parse e (tc_args call))
            (\<lambda>args. Option.bind (targetPath (tc_name call) args) (resolveFileUri e))
      in if tc_name call \<noteq> ''fs__create_file'' then asked
         else case jm_get (d_edits s) (tc_id call) of
           None \<Rightarrow> asked
         | Some snap \<Rightarrow> if as_uri snap = [] then asked else Some (as_uri snap))"

subsection \<open>A call\<close>

definition notify :: "tool_call \<Rightarrow> tool_status \<Rightarrow> dispatcher \<Rightarrow> dispatcher" where
  "notify call status s = s\<lparr>d_told := d_told s @ [(tc_id call, status)]\<rparr>"

definition return_result :: "tool_call \<Rightarrow> tool_result \<Rightarrow> dispatcher \<Rightarrow> dispatcher" where
  "return_result call r s = s\<lparr>d_results := d_results s @ [(tc_id call, r)]\<rparr>"

definition fail :: "tool_call \<Rightarrow> document \<Rightarrow> dispatcher \<Rightarrow> dispatcher" where
  "fail call message s = return_result call (ToolFailed message) (notify call (ToolError message) s)"

text \<open>From the point where the call may go on.\<close>

definition proceed :: "dispatch_env \<Rightarrow> tool_call \<Rightarrow> call_ctx \<Rightarrow> dispatcher \<Rightarrow> dispatcher" where
  "proceed e call ctx s =
     (let s1 = notify call Running s
      in case parseArgs e (tc_args call) of
           None \<Rightarrow> fail call (words ''Invalid tool arguments JSON: '' @ ev_engine e) s1
         | Some args \<Rightarrow>
             (case execute e call args ctx (snapshotIfMutating e call args s1) of
                (Inl message, s2) \<Rightarrow> fail call message s2
              | (Inr out, s2) \<Rightarrow> return_result call (ToolOk out) (notify call (ToolDone out) s2)))"

definition category_name :: "category \<Rightarrow> string" where
  "category_name c =
     (case c of FsRead \<Rightarrow> ''fs.read'' | FsCreate \<Rightarrow> ''fs.create'' | FsEdit \<Rightarrow> ''fs.edit'' | FsDelete \<Rightarrow> ''fs.delete''
      | L4Evaluate \<Rightarrow> ''l4.evaluate'' | L4Refactor \<Rightarrow> ''l4.refactor'' | McpL4Rules \<Rightarrow> ''mcp.l4Rules'' | McpVscode \<Rightarrow> ''mcp.vscode''
      | MetaAskUser \<Rightarrow> ''meta.askUser'' | MetaStatusUpdate \<Rightarrow> ''meta.statusUpdate'')"

definition run_call :: "dispatch_env \<Rightarrow> tool_call \<Rightarrow> call_ctx \<Rightarrow> dispatcher \<Rightarrow> dispatcher" where
  "run_call e call ctx s =
     (case gate e (d_step s) call of
        StatusUpdate \<Rightarrow> return_result call (ToolOk (words ''ok'')) s
      | Unknown \<Rightarrow> return_result call (ToolUnknown (words (''Unknown tool: '' @ tc_name call))) s
      | Denied c \<Rightarrow>
          return_result call (ToolDenied (words (''User has disallowed the '' @ quoted (category_name c) @
              '' category. Update the setting in the Legalese AI settings to enable it.'')))
            (notify call (ToolError (words ''Denied by user settings'')) s)
      | Waits \<Rightarrow> (notify call PendingApproval s)\<lparr>d_waiting := d_waiting s @ [(call, ctx, d_step s)]\<rparr>
      | Goes \<Rightarrow> proceed e call ctx s)"

text \<open>The user's decision about a call that waits.\<close>

definition decide_call :: "dispatch_env \<Rightarrow> string \<Rightarrow> bool \<Rightarrow> dispatcher \<Rightarrow> dispatcher" where
  "decide_call e callId allow s =
     (case find (\<lambda>(call, _). tc_id call = callId) (d_waiting s) of
        None \<Rightarrow> s
      | Some (call, ctx, n) \<Rightarrow>
          (let s1 = s\<lparr>d_waiting := remove1 (call, ctx, n) (d_waiting s)\<rparr>
           in if allow then proceed e call ctx s1
              else return_result call (ToolDenied (words ''The user denied this tool call.''))
                (notify call (ToolError (words ''Denied'')) s1)))"

subsection \<open>A turn\<close>

text \<open>Where the edited files stand now; a file that is gone has no snapshot.\<close>

fun snapshots_of :: "dispatch_env \<Rightarrow> tracked_file list \<Rightarrow> fs_state \<Rightarrow> current_snapshots \<times> fs_state" where
  "snapshots_of e [] w = ([], w)"
| "snapshots_of e (f # fs) w =
     (let (now, w1) = (if entries w (ev_fsPath e (uri f)) = None then (None, w) else snapshot e w);
          (rest, w2) = snapshots_of e fs w1
      in (jm_set (uri f) now rest, w2))"

definition turn_knock_on :: "dispatch_env \<Rightarrow> string \<Rightarrow> dispatcher \<Rightarrow> knock_on_file list" where
  "turn_knock_on e turn s = knockOnFiles turn (ev_counts e (d_step s)) (ev_relative e) (d_guard s)"

definition stop_nudge :: "dispatch_env \<Rightarrow> string \<Rightarrow> dispatcher \<Rightarrow> string option \<times> dispatcher" where
  "stop_nudge e turn s =
     (let (now, w) = snapshots_of e (trackedFiles turn (d_guard s)) (d_ws s);
          (message, g) = stopNudge turn now (turn_knock_on e turn s) (d_guard s)
      in (message, s\<lparr>d_guard := g, d_ws := w\<rparr>))"

definition takeTurnStatus :: "dispatch_env \<Rightarrow> string \<Rightarrow> dispatcher \<Rightarrow> string option \<times> dispatcher" where
  "takeTurnStatus e turn s =
     (let (now, w) = snapshots_of e (trackedFiles turn (d_guard s)) (d_ws s);
          (message, g) = takeStatus turn now (turn_knock_on e turn s) (d_guard s)
      in (message, s\<lparr>d_guard := g, d_ws := w\<rparr>))"

datatype dispatch_action =
    RunA tool_call call_ctx | DecideA string bool | RoundA string "tool_call list" | NudgeA string | StatusA string | EndA string

fun dispatch_act :: "dispatch_env \<Rightarrow> dispatch_action \<Rightarrow> dispatcher \<Rightarrow> dispatcher" where
  "dispatch_act e (RunA call ctx) s = run_call e call ctx s"
| "dispatch_act e (DecideA callId allow) s = decide_call e callId allow s"
| "dispatch_act e (RoundA turn calls) s = beginRound_calls e turn calls s"
| "dispatch_act e (NudgeA turn) s = snd (stop_nudge e turn s)"
| "dispatch_act e (StatusA turn) s = snd (takeTurnStatus e turn s)"
| "dispatch_act e (EndA turn) s = s\<lparr>d_guard := endTurn turn (d_guard s)\<rparr>"

definition dispatch_step :: "dispatch_env \<Rightarrow> dispatch_action \<Rightarrow> dispatcher \<Rightarrow> dispatcher" where
  "dispatch_step e a s = (let s' = dispatch_act e a s in s'\<lparr>d_step := d_step s + 1\<rparr>)"

definition dispatch_run :: "dispatch_env \<Rightarrow> dispatch_action list \<Rightarrow> dispatcher \<Rightarrow> dispatcher" where
  "dispatch_run e as s = fold (dispatch_step e) as s"

subsection \<open>What a call may change\<close>

definition call_categories :: "dispatch_env \<Rightarrow> tool_call \<Rightarrow> category set" where
  "call_categories e call = set (categoriesForCall (tc_name call) (argsOrNull e (tc_args call)))"

text \<open>The paths a call names to be written; creating a file may take a numbered name beside it.\<close>

definition call_places :: "dispatch_env \<Rightarrow> tool_call \<Rightarrow> string set" where
  "call_places e call =
     {q. \<exists>p\<in>set (writtenPaths (tc_name call) (argsOrNull e (tc_args call))). \<exists>r. resolve e p = Inr r \<and>
        (if tc_name call = ''fs__create_file'' then q \<in> r_fsPath ` candidates (resolve e) r else q = r_fsPath r)}"

definition needed_category :: "entry option \<Rightarrow> entry option \<Rightarrow> category" where
  "needed_category before after =
     (case before of None \<Rightarrow> FsCreate | Some _ \<Rightarrow> (case after of None \<Rightarrow> FsDelete | Some _ \<Rightarrow> FsEdit))"

definition change_covered :: "dispatch_env \<Rightarrow> tool_call \<Rightarrow> (string \<rightharpoonup> entry) \<Rightarrow> (string \<rightharpoonup> entry) \<Rightarrow> bool" where
  "change_covered e call before after \<longleftrightarrow>
     (\<forall>q. after q \<noteq> before q \<longrightarrow>
        (needed_category (before q) (after q) \<in> call_categories e call \<and> q \<in> call_places e call) \<or>
        (L4Refactor \<in> call_categories e call \<and> needed_category (before q) (after q) = FsEdit))"

text \<open>What lets a call go on: the settings, or the user after the settings did not forbid it.\<close>

definition by_policy :: "dispatch_env \<Rightarrow> tool_call \<Rightarrow> nat \<Rightarrow> bool" where
  "by_policy e call n \<longleftrightarrow>
     (\<forall>c\<in>call_categories e call. ev_policy e n c = Always) \<and>
     (\<forall>p\<in>set (writtenPaths (tc_name call) (argsOrNull e (tc_args call))). \<forall>r confirm.
        resolve e p = Inr r \<and> ev_confirm e = Some confirm \<longrightarrow> \<not> confirm r)"

definition may_ask :: "dispatch_env \<Rightarrow> tool_call \<Rightarrow> nat \<Rightarrow> bool" where
  "may_ask e call n \<longleftrightarrow> (\<forall>c\<in>call_categories e call. ev_policy e n c \<noteq> Never)"

subsection \<open>What the stores and the guard leave alone\<close>

definition kept :: "dispatcher \<Rightarrow> dispatcher \<Rightarrow> bool" where
  "kept s s' \<longleftrightarrow> d_waiting s' = d_waiting s \<and> d_told s' = d_told s"

lemma kept_refl [simp]: "kept s s"
  by (simp add: kept_def)

lemma kept_trans [trans]: "kept s s' \<Longrightarrow> kept s' s'' \<Longrightarrow> kept s s''"
  by (simp add: kept_def)

lemma storesFor_kept: "storesFor c s = (st, s') \<Longrightarrow> kept s s' \<and> d_ws s' = d_ws s"
  by (auto simp: storesFor_def Let_def kept_def split: if_splits)

lemma put_stores_kept [simp]: "kept s (put_stores c st s')  = kept s s'" "d_ws (put_stores c st s') = d_ws s'"
  by (simp_all add: put_stores_def kept_def)

lemma with_edit_store_effect:
  assumes "with_edit_store c act s = (r, s')"
  obtains w w' where "act w = (r, w')" "entries w = entries (d_ws s)" "entries (d_ws s') = entries w'" "kept s s'"
proof -
  obtain st s1 where st: "storesFor c s = (st, s1)" by fastforce
  obtain r' w' where w: "act ((d_ws s1)\<lparr>edit_snapshots := edit_store st\<rparr>) = (r', w')" by fastforce
  have "r' = r \<and> d_ws s' = w' \<and> kept s1 s'"
    using assms by (auto simp: with_edit_store_def st w kept_def put_stores_def)
  then show thesis using that w storesFor_kept [OF st] kept_trans by fastforce
qed

lemma snapshot_entries: "snapshot e w = (r, w') \<Longrightarrow> entries w' = entries w"
  by (auto simp: snapshot_def fileState_def Let_def split: option.splits prod.splits)

lemma track_before_kept: "kept s (track_before e t r m s) \<and> entries (d_ws (track_before e t r m s)) = entries (d_ws s)"
  by (auto simp: track_before_def Let_def kept_def split: prod.split dest: snapshot_entries)

lemma record_result_kept [simp]: "kept s (record_result t u st n s') = kept s s'" "d_ws (record_result t u st n s') = d_ws s'"
  by (simp_all add: record_result_def kept_def split: option.split)

lemma snapshotIfMutating_kept: "kept s (snapshotIfMutating e call args s) \<and> d_ws (snapshotIfMutating e call args s) = d_ws s"
  by (simp add: snapshotIfMutating_def kept_def split: option.split sum.split)

lemma move_snapshot_kept [simp]: "kept s (move_snapshot i r s') = kept s s'" "d_ws (move_snapshot i r s') = d_ws s'"
  by (simp_all add: move_snapshot_def kept_def split: option.split)

lemma snapshots_of_entries: "snapshots_of e fs w = (now, w') \<Longrightarrow> entries w' = entries w"
  by (induction fs arbitrary: w now w') (auto simp: Let_def split: prod.splits if_splits dest!: snapshot_entries)

subsection \<open>What each tool may change\<close>

lemma fsEdit_effect:
  assumes "fsEditFileDetailed h res q path edits single run w = (out, run', w')"
  shows "entries w' = entries w \<or>
    (\<exists>r d d'. res path = Inr r \<and> entries w (r_fsPath r) = Some (File d) \<and> entries w' = (entries w)(r_fsPath r \<mapsto> File d'))"
proof (cases "\<exists>r items. res path = Inr r \<and> editItems edits single = Inr items")
  case False
  then have "w' = w" using assms by (auto simp: fsEditFileDetailed_def split: sum.splits)
  then show ?thesis by simp
next
  case True
  then obtain r items where r: "res path = Inr r" "editItems edits single = Inr items" by blast
  show ?thesis
  proof (cases "1 < length items \<or> run \<noteq> None")
    case True
    then obtain run0 run1 where "applySequence h q r items run0 w = (out, run1, w')"
      using assms r by (auto simp: fsEditFileDetailed_def split: prod.splits option.splits)
    then obtain k where "after_edits r items k (entries w) (entries w')" by (rule applySequence_effect)
    then show ?thesis using r by (auto simp: after_edits_def split: if_splits)
  next
    case False
    obtain one w1 where one: "applyOneEdit h q r (hd items) w = (one, w1)" by fastforce
    have "entries w' = entries w1"
      using assms False r one by (auto simp: fsEditFileDetailed_def Let_def split: sum.splits prod.splits dest: reportL4File_entries)
    then show ?thesis using applyOneEdit_effect(1,2) [OF one] r by (cases one) auto
  qed
qed

lemma rewrite_files_effect: "entries (rewrite_files ts w) q \<noteq> entries w q \<Longrightarrow> needed_category (entries w q) (entries (rewrite_files ts w) q) = FsEdit"
proof -
  have "(\<exists>d d'. m q = Some (File d) \<and> m' q = Some (File d')) \<or> m' q = m q"
    if "m' = fold (\<lambda>(p, t) m. case m p of Some (File d) \<Rightarrow> m(p \<mapsto> File (d\<lparr>doc_text := t\<rparr>)) | _ \<Rightarrow> m) ts m" for m m' :: "string \<rightharpoonup> entry"
    using that
  proof (induction ts arbitrary: m)
    case (Cons x ts)
    obtain p t where x: "x = (p, t)" by fastforce
    define m1 where "m1 = (case m p of Some (File d) \<Rightarrow> m(p \<mapsto> File (d\<lparr>doc_text := t\<rparr>)) | _ \<Rightarrow> m)"
    have "(\<exists>d d'. m q = Some (File d) \<and> m1 q = Some (File d')) \<or> m1 q = m q"
      by (auto simp: m1_def split: option.split entry.split)
    moreover have "(\<exists>d d'. m1 q = Some (File d) \<and> m' q = Some (File d')) \<or> m' q = m1 q"
      using Cons.IH [of m1] Cons.prems by (simp add: x m1_def)
    ultimately show ?case by metis
  qed simp
  from this [of _ "entries w"] show "entries (rewrite_files ts w) q \<noteq> entries w q \<Longrightarrow> ?thesis"
    unfolding rewrite_files_def needed_category_def by fastforce
qed

lemma needed_category_simps [simp]:
  "needed_category None x = FsCreate" "needed_category (Some a) None = FsDelete" "needed_category (Some a) (Some b) = FsEdit"
  by (simp_all add: needed_category_def)

lemma change_covered_refl [simp]: "change_covered e call m m"
  by (simp add: change_covered_def)

lemma change_covered_one:
  assumes "after = before(q := x)" "needed_category (before q) x \<in> call_categories e call" "q \<in> call_places e call"
  shows "change_covered e call before after"
  using assms by (auto simp: change_covered_def)

text \<open>The categories and places of each tool that writes.\<close>

lemma path_arg_resolved: "resolve e (path_arg args k) = Inr r \<Longrightarrow> \<exists>p. arg_string args k = Some p \<and> p \<noteq> [] \<and> resolve e p = Inr r"
  by (auto simp: path_arg_def resolve_def split: option.splits if_splits)

lemma set_non_empty [simp]: "set (non_empty x) = {p. x = Some p \<and> p \<noteq> []}"
  by (auto simp: non_empty_def split: option.split if_splits)

lemma call_placesI:
  assumes "p \<in> set (writtenPaths (tc_name call) (argsOrNull e (tc_args call)))" "resolve e p = Inr r"
    "if tc_name call = ''fs__create_file'' then q \<in> r_fsPath ` candidates (resolve e) r else q = r_fsPath r"
  shows "q \<in> call_places e call"
  using assms unfolding call_places_def by blast

lemma call_places_path:
  assumes "tc_name call \<in> {''fs__create_file'', ''fs__edit_file'', ''fs__delete_file''}"
    "resolve e (path_arg (argsOrNull e (tc_args call)) ''path'') = Inr r"
  shows "(if tc_name call = ''fs__create_file'' then r_fsPath ` candidates (resolve e) r else {r_fsPath r}) \<subseteq> call_places e call"
proof -
  obtain p where "arg_string (argsOrNull e (tc_args call)) ''path'' = Some p" "p \<noteq> []" "resolve e p = Inr r"
    using path_arg_resolved [OF assms(2)] by blast
  then have "p \<in> set (writtenPaths (tc_name call) (argsOrNull e (tc_args call)))" "resolve e p = Inr r"
    using assms(1) by (simp_all add: writtenPaths_def)
  then show ?thesis by (auto intro: call_placesI)
qed

lemma call_places_copy:
  assumes "tc_name call = ''fs__copy_file''" "resolve e p = Inr r"
    "arg_string (argsOrNull e (tc_args call)) ''to'' = Some p \<or>
      truthy (js_prop (argsOrNull e (tc_args call)) ''deleteSource'') \<and> arg_string (argsOrNull e (tc_args call)) ''from'' = Some p"
  shows "r_fsPath r \<in> call_places e call"
proof -
  have "p \<noteq> []" using assms(2) by (auto simp: resolve_def)
  then have "p \<in> set (writtenPaths (tc_name call) (argsOrNull e (tc_args call)))" using assms by (auto simp: writtenPaths_def)
  then show ?thesis using assms by (intro call_placesI) auto
qed

lemma call_categories_tools:
  "tc_name call = ''fs__create_file'' \<Longrightarrow> FsCreate \<in> call_categories e call"
  "tc_name call = ''fs__edit_file'' \<Longrightarrow> call_categories e call = {FsEdit}"
  "tc_name call = ''fs__delete_file'' \<Longrightarrow> call_categories e call = {FsDelete}"
  "tc_name call = ''l4__refactor'' \<Longrightarrow> call_categories e call = {L4Refactor}"
  "tc_name call = ''fs__copy_file'' \<Longrightarrow> call_categories e call =
     {FsCreate} \<union> (if truthy (js_prop (argsOrNull e (tc_args call)) ''overwrite'') then {FsEdit} else {}) \<union>
     (if truthy (js_prop (argsOrNull e (tc_args call)) ''deleteSource'') then {FsDelete} else {})"
  by (auto simp: call_categories_def categoriesForCall_def categoryForTool_def split: jsval.split)

lemma createFile_tool_effect:
  assumes "createFile_tool e i (argsOrNull e (tc_args call)) ctx s = (out, s')" "tc_name call = ''fs__create_file''"
  shows "kept s s' \<and> change_covered e call (entries (d_ws s)) (entries (d_ws s'))"
proof -
  let ?args = "argsOrNull e (tc_args call)"
  let ?make = "fsCreateFileDetailed (ev_host e) (resolve e) (path_arg ?args ''path'') (content_of (js_prop ?args ''content''))"
  show ?thesis
  proof (cases "Option.bind (resolveFileUri e (path_arg ?args ''path'')) (\<lambda>u. blocked (turnId ctx) u (d_guard s))")
    case (Some why)
    then show ?thesis using assms by (simp add: createFile_tool_def)
  next
    case None
    obtain res s1 where run: "with_edit_store (conversationId ctx) ?make s = (res, s1)" by fastforce
    obtain w w' where w: "?make w = (res, w')" "entries w = entries (d_ws s)" "entries (d_ws s1) = entries w'" "kept s s1"
      using run by (rule with_edit_store_effect)
    have end_state: "kept s1 s' \<and> d_ws s' = d_ws s1"
      using assms(1) by (auto simp: createFile_tool_def None run Let_def kept_def record_result_def move_snapshot_def
          split: sum.splits option.splits if_splits)
    have "change_covered e call (entries w) (entries w')"
    proof (cases "resolve e (path_arg ?args ''path'')")
      case (Inl message)
      then show ?thesis using w(1) by (auto simp: fsCreateFileDetailed_def)
    next
      case (Inr r)
      have eff: "entries w \<subseteq>\<^sub>m entries w'" "{p. entries w' p \<noteq> entries w p} \<subseteq> r_fsPath ` candidates (resolve e) r"
        using fsCreate_effect [OF w(1) Inr] by (simp_all add: create_effect_def)
      have "r_fsPath ` candidates (resolve e) r \<subseteq> call_places e call" using call_places_path [of call e r] assms(2) Inr by simp
      moreover have "entries w q = None" if "entries w' q \<noteq> entries w q" for q
        using eff(1) that by (metis domIff map_le_def)
      ultimately show ?thesis using eff(2) call_categories_tools(1) [OF assms(2)] unfolding change_covered_def by fastforce
    qed
    then show ?thesis using w end_state by (simp add: kept_def)
  qed
qed

lemma editFile_tool_effect:
  assumes "editFile_tool e (argsOrNull e (tc_args call)) ctx s = (out, s')" "tc_name call = ''fs__edit_file''"
  shows "kept s s' \<and> change_covered e call (entries (d_ws s)) (entries (d_ws s'))"
proof -
  let ?args = "argsOrNull e (tc_args call)"
  show ?thesis
  proof (cases "\<exists>r. resolve e (path_arg ?args ''path'') = Inr r \<and> blocked (turnId ctx) (r_uri r) (d_guard s) = None")
    case False
    then have "s' = s" using assms(1) by (auto simp: editFile_tool_def split: sum.splits option.splits)
    then show ?thesis by simp
  next
    case True
    then obtain r where r: "resolve e (path_arg ?args ''path'') = Inr r" "blocked (turnId ctx) (r_uri r) (d_guard s) = None" by blast
    define s1 where "s1 = track_before e (turnId ctx) r False s"
    note s1 = track_before_kept [of s e "turnId ctx" r False, folded s1_def]
    let ?edit = "\<lambda>w. case fsEditFileDetailed (ev_host e) (resolve e) (may_quote e (d_step s1)) (path_arg ?args ''path'')
        (edits_of e (js_prop ?args ''edits'')) (edit_item_of e ?args) (sequenceFor (turnId ctx) (r_uri r) (d_guard s1)) w of
      (res, run, w1) \<Rightarrow> ((res, run), w1)"
    obtain res s2 where run: "with_edit_store (conversationId ctx) ?edit s1 = (res, s2)" by fastforce
    obtain w w' where w: "?edit w = (res, w')" "entries w = entries (d_ws s1)" "entries (d_ws s2) = entries w'" "kept s1 s2"
      using run by (rule with_edit_store_effect)
    have end_state: "kept s2 s' \<and> d_ws s' = d_ws s2"
      using assms(1) by (auto simp: editFile_tool_def r s1_def [symmetric] run Let_def kept_def record_result_def split: sum.splits option.splits)
    obtain out' run' where ed: "fsEditFileDetailed (ev_host e) (resolve e) (may_quote e (d_step s1)) (path_arg ?args ''path'')
        (edits_of e (js_prop ?args ''edits'')) (edit_item_of e ?args) (sequenceFor (turnId ctx) (r_uri r) (d_guard s1)) w = (out', run', w')"
      using w(1) by (auto split: prod.splits)
    have "r_fsPath r \<in> call_places e call" using call_places_path [of call e r] assms(2) r(1) by simp
    then have "change_covered e call (entries w) (entries w')"
      using fsEdit_effect [OF ed] r(1) call_categories_tools(2) [OF assms(2)] by (auto intro: change_covered_one)
    then show ?thesis using w s1 end_state by (simp add: kept_def)
  qed
qed

lemma deleteFile_tool_effect:
  assumes "deleteFile_tool e (argsOrNull e (tc_args call)) s = (out, s')" "tc_name call = ''fs__delete_file''"
  shows "kept s s' \<and> change_covered e call (entries (d_ws s)) (entries (d_ws s'))"
proof -
  let ?p = "path_arg (argsOrNull e (tc_args call)) ''path''"
  obtain res w where w: "fsDeleteFile (ev_host e) (resolve e) ?p (d_ws s) = (res, w)" by fastforce
  then have s': "s' = s\<lparr>d_ws := w\<rparr>" using assms(1) by (simp add: deleteFile_tool_def)
  show ?thesis
  proof (cases "resolve e ?p")
    case (Inl message)
    then show ?thesis using w s' by (simp add: fsDeleteFile_def kept_def)
  next
    case (Inr r)
    obtain del w1 where d: "deleteFile (ev_host e) r (d_ws s) = (del, w1)" by fastforce
    have w1: "w = w1" using w Inr d by (auto simp: fsDeleteFile_def split: sum.splits)
    have "r_fsPath r \<in> call_places e call" using call_places_path [of call e r] assms(2) Inr by simp
    then have "entries w1 = entries (d_ws s) \<or> change_covered e call (entries (d_ws s)) (entries w1)"
      using deleteFile_effect [OF d] call_categories_tools(3) [OF assms(2)]
      by (cases del; cases "entries (d_ws s) (r_fsPath r)") (auto simp: change_covered_def)
    then show ?thesis using s' w1 by (auto simp: kept_def)
  qed
qed

lemma change_covered_copy:
  assumes "copy_effect h source target t deleteSource before res after"
    "before (r_fsPath source) \<noteq> None" "r_fsPath source \<noteq> r_fsPath target" "before (r_fsPath target) = None \<or> overwrite"
    "FsCreate \<in> call_categories e call" "overwrite \<Longrightarrow> FsEdit \<in> call_categories e call"
    "deleteSource \<Longrightarrow> FsDelete \<in> call_categories e call \<and> r_fsPath source \<in> call_places e call" "r_fsPath target \<in> call_places e call"
  shows "change_covered e call before after"
proof -
  have put: "change_covered e call before (before(r_fsPath target \<mapsto> x))" for x
    using assms(4-6,8) by (intro change_covered_one [of _ before "r_fsPath target"]) (auto simp: needed_category_def split: option.split)
  have "change_covered e call before ((before(r_fsPath source := None))(r_fsPath target \<mapsto> x))" if deleteSource for x
    using put [of x] assms(2,3) assms(7) [OF that] unfolding change_covered_def
    by (auto split: if_splits)
  then show ?thesis using assms(1) put unfolding copy_effect_def by (auto split: sum.splits if_splits)
qed

lemma copyFile_tool_effect:
  assumes "copyFile_tool e (argsOrNull e (tc_args call)) ctx s = (out, s')" "tc_name call = ''fs__copy_file''"
  shows "kept s s' \<and> change_covered e call (entries (d_ws s)) (entries (d_ws s'))"
proof -
  let ?args = "argsOrNull e (tc_args call)"
  let ?over = "truthy (js_prop ?args ''overwrite'')" and ?del = "truthy (js_prop ?args ''deleteSource'')"
  let ?copy = "fsCopyFileDetailed (ev_host e) (resolve e) (arg_string ?args ''from'') (arg_string ?args ''to'') ?over ?del"
  show ?thesis
  proof (cases "\<exists>r. resolve e (path_arg ?args ''to'') = Inr r \<and> blocked (turnId ctx) (r_uri r) (d_guard s) = None")
    case False
    then have "s' = s" using assms(1) by (auto simp: copyFile_tool_def split: sum.splits option.splits)
    then show ?thesis by simp
  next
    case True
    then obtain r where r: "resolve e (path_arg ?args ''to'') = Inr r" "blocked (turnId ctx) (r_uri r) (d_guard s) = None" by blast
    define s1 where "s1 = track_before e (turnId ctx) r True s"
    note s1 = track_before_kept [of s e "turnId ctx" r True, folded s1_def]
    obtain res s2 where run: "with_edit_store (conversationId ctx) ?copy s1 = (res, s2)" by fastforce
    obtain w w' where w: "?copy w = (res, w')" "entries w = entries (d_ws s1)" "entries (d_ws s2) = entries w'" "kept s1 s2"
      using run by (rule with_edit_store_effect)
    have end_state: "kept s2 s' \<and> d_ws s' = d_ws s2"
      using assms(1) by (auto simp: copyFile_tool_def r s1_def [symmetric] run kept_def record_result_def split: sum.splits option.splits)
    have "change_covered e call (entries w) (entries w')"
    proof (cases "w' = w")
      case False
      obtain from_path to_path where p: "arg_string ?args ''from'' = Some from_path" "arg_string ?args ''to'' = Some to_path"
        using w(1) False by (cases "arg_string ?args ''from''"; cases "arg_string ?args ''to''") (auto simp: fsCopyFileDetailed_def)
      obtain source target d where c: "resolve e from_path = Inr source" "resolve e to_path = Inr target" "r_fsPath source \<noteq> r_fsPath target"
        "entries w (r_fsPath source) = Some (File d)" "entries w (r_fsPath target) = None \<or> ?over"
        "copy_effect (ev_host e) source target (doc_text d) ?del (entries w) res (entries w')"
        using fsCopy_effect [OF w(1) [unfolded p]] False by blast
      show ?thesis
        by (rule change_covered_copy [OF c(6) _ c(3,5)])
          (use c(4) call_categories_tools(5) [OF assms(2), of e] call_places_copy [OF assms(2) c(1)] call_places_copy [OF assms(2) c(2)] p in auto)
    qed simp
    then show ?thesis using w s1 end_state by (simp add: kept_def)
  qed
qed

lemma evaluate_tool_effect:
  assumes "evaluate_tool e args ctx s = (out, s')"
  shows "kept s s' \<and> d_ws s' = d_ws s"
  using assms by (auto simp: evaluate_tool_def Let_def split: prod.splits dest: storesFor_kept)

lemma refactor_tool_effect:
  assumes "refactor_tool e s = (out, s')" "tc_name call = ''l4__refactor''"
  shows "kept s s' \<and> change_covered e call (entries (d_ws s)) (entries (d_ws s'))"
  using assms(1) rewrite_files_effect call_categories_tools(4) [OF assms(2)]
  by (auto simp: refactor_tool_def kept_def change_covered_def split: prod.splits)

text \<open>Every tool changes only what the call's categories cover.\<close>

lemmas tool_effects = createFile_tool_effect editFile_tool_effect deleteFile_tool_effect copyFile_tool_effect refactor_tool_effect

lemma execute_effect:
  assumes "execute e call (argsOrNull e (tc_args call)) ctx s = (out, s')"
  shows "kept s s' \<and> change_covered e call (entries (d_ws s)) (entries (d_ws s'))"
proof (cases "s' = s")
  case False
  have writes: "(tc_name call = ''l4__refactor'' \<and> refactor_tool e s = (out, s')) \<or>
      (tc_name call = ''fs__create_file'' \<and> createFile_tool e (tc_id call) (argsOrNull e (tc_args call)) ctx s = (out, s')) \<or>
      (tc_name call = ''fs__edit_file'' \<and> editFile_tool e (argsOrNull e (tc_args call)) ctx s = (out, s')) \<or>
      (tc_name call = ''fs__delete_file'' \<and> deleteFile_tool e (argsOrNull e (tc_args call)) s = (out, s')) \<or>
      (tc_name call = ''fs__copy_file'' \<and> copyFile_tool e (argsOrNull e (tc_args call)) ctx s = (out, s')) \<or>
      evaluate_tool e (argsOrNull e (tc_args call)) ctx s = (out, s')"
    using assms False unfolding execute_def Let_def
    by (auto split: if_split_asm)
  have "kept s s' \<and> change_covered e call (entries (d_ws s)) (entries (d_ws s'))" if "evaluate_tool e (argsOrNull e (tc_args call)) ctx s = (out, s')"
    using evaluate_tool_effect [OF that] by simp
  then show ?thesis using writes by (elim disjE conjE) (rule tool_effects; assumption | simp)+
qed simp

lemma proceed_effect:
  "d_waiting (proceed e call ctx s) = d_waiting s \<and> (\<exists>more. d_told (proceed e call ctx s) = d_told s @ more) \<and>
   change_covered e call (entries (d_ws s)) (entries (d_ws (proceed e call ctx s)))"
proof (cases "parseArgs e (tc_args call)")
  case None
  then show ?thesis by (simp add: proceed_def Let_def fail_def return_result_def notify_def)
next
  case (Some args)
  then have args: "args = argsOrNull e (tc_args call)" by (simp add: argsOrNull_def)
  define s1 where "s1 = snapshotIfMutating e call args (notify call Running s)"
  obtain out s2 where x: "execute e call args ctx s1 = (out, s2)" by fastforce
  have s2: "d_waiting s2 = d_waiting s" "d_told s2 = d_told s @ [(tc_id call, Running)]"
    "change_covered e call (entries (d_ws s)) (entries (d_ws s2))"
    using execute_effect [OF x [unfolded args]] snapshotIfMutating_kept [of "notify call Running s" e call args]
    by (simp_all add: s1_def kept_def notify_def)
  have "proceed e call ctx s = (case out of Inl message \<Rightarrow> fail call message s2
      | Inr text \<Rightarrow> return_result call (ToolOk text) (notify call (ToolDone text) s2))"
    by (simp add: proceed_def Let_def Some s1_def [symmetric] x)
  then show ?thesis using s2 by (cases out) (simp_all add: fail_def return_result_def notify_def)
qed

subsection \<open>What the gate lets through\<close>

lemma gate_category:
  assumes "categoryForTool (tc_name call) = Some c" "tc_name call \<noteq> ''meta__post_status_update''"
  obtains d where "d \<in> call_categories e call" "\<forall>c\<in>call_categories e call. ev_policy e n c \<le> ev_policy e n d"
    "gate e n call = (case withWriteApproval e (ev_policy e n d) (tc_name call) (argsOrNull e (tc_args call)) of
       Never \<Rightarrow> Denied d | Ask \<Rightarrow> Waits | Always \<Rightarrow> Goes)"
proof -
  let ?cs = "categoriesForCall (tc_name call) (argsOrNull e (tc_args call))"
  have ne: "?cs \<noteq> []" using assms(1) by (auto simp: categoriesForCall_def split: jsval.split)
  then obtain c0 rest where cs: "?cs = c0 # rest" by (cases ?cs) auto
  have "strictestPermission (ev_policy e n) ?cs = foldl (stricter (ev_policy e n)) (Some (c0, ev_policy e n c0)) rest"
    by (simp add: strictestPermission_def cs stricter_def)
  with foldl_strictest [of "ev_policy e n" c0 rest] obtain d where
    d: "strictestPermission (ev_policy e n) ?cs = Some (d, ev_policy e n d)" "d \<in> set ?cs" "\<forall>x\<in>set ?cs. ev_policy e n x \<le> ev_policy e n d"
    unfolding cs by (metis in_set_conv_decomp)
  then show thesis
    using that [of d] assms by (simp add: gate_def Let_def call_categories_def)
qed

lemma withWriteApproval_cases:
  "withWriteApproval e v name args = Never \<longleftrightarrow> v = Never"
  "withWriteApproval e v name args = Always \<longleftrightarrow> v = Always \<and>
     (\<forall>p\<in>set (writtenPaths name args). \<forall>r confirm. resolve e p = Inr r \<and> ev_confirm e = Some confirm \<longrightarrow> \<not> confirm r)"
proof -
  show "withWriteApproval e v name args = Never \<longleftrightarrow> v = Never"
    by (simp add: withWriteApproval_def split: option.split)
  have "list_ex (\<lambda>p. case resolve e p of Inl _ \<Rightarrow> False | Inr r \<Rightarrow> confirm r) ps \<longleftrightarrow> (\<exists>p\<in>set ps. \<exists>r. resolve e p = Inr r \<and> confirm r)" for ps confirm
    by (induction ps) (auto split: sum.split)
  then show "withWriteApproval e v name args = Always \<longleftrightarrow> v = Always \<and>
     (\<forall>p\<in>set (writtenPaths name args). \<forall>r confirm. resolve e p = Inr r \<and> ev_confirm e = Some confirm \<longrightarrow> \<not> confirm r)"
    by (cases "ev_confirm e") (auto simp: withWriteApproval_def)
qed

lemma permission_bounds [simp]: "v \<le> Always \<longleftrightarrow> v = Always" "Never \<le> v \<longleftrightarrow> v = Never"
  by (cases v; simp add: less_eq_permission_value_def strictness_def)+

lemma gate_Goes: "gate e n call = Goes \<Longrightarrow> by_policy e call n"
proof -
  assume g: "gate e n call = Goes"
  then obtain c where c: "categoryForTool (tc_name call) = Some c" "tc_name call \<noteq> ''meta__post_status_update''"
    by (auto simp: gate_def split: if_splits option.splits)
  obtain d where d: "\<forall>c\<in>call_categories e call. ev_policy e n c \<le> ev_policy e n d"
    "gate e n call = (case withWriteApproval e (ev_policy e n d) (tc_name call) (argsOrNull e (tc_args call)) of
       Never \<Rightarrow> Denied d | Ask \<Rightarrow> Waits | Always \<Rightarrow> Goes)"
    using gate_category [OF c] by blast
  have "withWriteApproval e (ev_policy e n d) (tc_name call) (argsOrNull e (tc_args call)) = Always"
    using g d(2) by (simp split: permission_value.splits)
  then show ?thesis using d(1) by (auto simp: withWriteApproval_cases by_policy_def)
qed

lemma gate_Waits: "gate e n call = Waits \<Longrightarrow> may_ask e call n"
proof -
  assume g: "gate e n call = Waits"
  then obtain c where c: "categoryForTool (tc_name call) = Some c" "tc_name call \<noteq> ''meta__post_status_update''"
    by (auto simp: gate_def split: if_splits option.splits)
  obtain d where d: "\<forall>c\<in>call_categories e call. ev_policy e n c \<le> ev_policy e n d"
    "gate e n call = (case withWriteApproval e (ev_policy e n d) (tc_name call) (argsOrNull e (tc_args call)) of
       Never \<Rightarrow> Denied d | Ask \<Rightarrow> Waits | Always \<Rightarrow> Goes)"
    using gate_category [OF c] by blast
  have "ev_policy e n d \<noteq> Never"
    using g d(2) withWriteApproval_cases(1) [of e "ev_policy e n d"] by (auto split: permission_value.splits)
  then show ?thesis using d(1) by (fastforce simp: may_ask_def)
qed

subsection \<open>Any life of a dispatcher\<close>

text \<open>What waits was asked for: its gate said so, and the user was told.\<close>

definition asked_for :: "dispatch_env \<Rightarrow> dispatcher \<Rightarrow> bool" where
  "asked_for e s \<longleftrightarrow>
     (\<forall>(call, ctx, n)\<in>set (d_waiting s). n < d_step s \<and> gate e n call = Waits \<and> (tc_id call, PendingApproval) \<in> set (d_told s))"

text \<open>The call that a step carries out, and the step at which its permissions were looked up.\<close>

definition goes_on :: "dispatch_env \<Rightarrow> dispatch_action \<Rightarrow> dispatcher \<Rightarrow> tool_call \<Rightarrow> bool" where
  "goes_on e a s call \<longleftrightarrow>
     (\<exists>ctx. a = RunA call ctx \<and> by_policy e call (d_step s)) \<or>
     (\<exists>ctx n. a = DecideA (tc_id call) True \<and> (call, ctx, n) \<in> set (d_waiting s) \<and> n < d_step s \<and> may_ask e call n \<and>
        (tc_id call, PendingApproval) \<in> set (d_told s))"

definition step_right :: "dispatch_env \<Rightarrow> dispatch_action \<Rightarrow> dispatcher \<Rightarrow> dispatcher \<Rightarrow> bool" where
  "step_right e a s s' \<longleftrightarrow>
     entries (d_ws s') = entries (d_ws s) \<or> (\<exists>call. goes_on e a s call \<and> change_covered e call (entries (d_ws s)) (entries (d_ws s')))"

lemma asked_for_next:
  assumes "asked_for e s" "set (d_waiting s') \<subseteq> set (d_waiting s)" "set (d_told s) \<subseteq> set (d_told s')" "d_step s < d_step s'"
  shows "asked_for e s'"
  using assms unfolding asked_for_def by (fastforce simp: subset_iff)

lemma run_call_step:
  assumes "asked_for e s"
  shows "asked_for e (dispatch_step e (RunA call ctx) s) \<and> step_right e (RunA call ctx) s (dispatch_step e (RunA call ctx) s)"
proof (cases "gate e (d_step s) call")
  case Goes
  then have "by_policy e call (d_step s)" by (rule gate_Goes)
  then have "goes_on e (RunA call ctx) s call" by (auto simp: goes_on_def)
  moreover have "asked_for e (dispatch_step e (RunA call ctx) s)"
    by (rule asked_for_next [OF assms]) (use proceed_effect [of e call ctx s] Goes in \<open>auto simp: dispatch_step_def run_call_def Let_def\<close>)
  ultimately show ?thesis
    using proceed_effect [of e call ctx s] Goes by (auto simp: step_right_def dispatch_step_def run_call_def Let_def)
next
  case Waits
  then show ?thesis
    using assms by (auto simp: dispatch_step_def run_call_def Let_def step_right_def asked_for_def notify_def intro: less_SucI)
qed (use assms in \<open>auto simp: dispatch_step_def run_call_def Let_def step_right_def return_result_def notify_def
    intro!: asked_for_next [of e s]\<close>)

lemma decide_call_step:
  assumes "asked_for e s"
  shows "asked_for e (dispatch_step e (DecideA i allow) s) \<and> step_right e (DecideA i allow) s (dispatch_step e (DecideA i allow) s)"
proof (cases "find (\<lambda>(call, _). tc_id call = i) (d_waiting s)")
  case None
  then show ?thesis
    using asked_for_next [OF assms] by (auto simp: dispatch_step_def decide_call_def Let_def step_right_def)
next
  case (Some x)
  obtain call ctx n where x: "x = (call, ctx, n)" by (cases x)
  have w: "(call, ctx, n) \<in> set (d_waiting s)" "tc_id call = i"
    using Some by (auto simp: x find_Some_iff dest: nth_mem)
  then have asked: "n < d_step s" "may_ask e call n" "(tc_id call, PendingApproval) \<in> set (d_told s)"
    using assms gate_Waits unfolding asked_for_def by fastforce+
  define s1 where "s1 = s\<lparr>d_waiting := remove1 (call, ctx, n) (d_waiting s)\<rparr>"
  have s1: "set (d_waiting s1) \<subseteq> set (d_waiting s)" "d_told s1 = d_told s" "d_ws s1 = d_ws s"
    by (simp_all add: s1_def set_remove1_subset)
  show ?thesis
  proof (cases allow)
    case True
    have step: "dispatch_step e (DecideA i allow) s = (proceed e call ctx s1)\<lparr>d_step := d_step s + 1\<rparr>"
      using Some by (simp add: dispatch_step_def decide_call_def x True s1_def)
    have "asked_for e (dispatch_step e (DecideA i allow) s)"
      by (rule asked_for_next [OF assms]) (use proceed_effect [of e call ctx s1] s1 in \<open>auto simp: step\<close>)
    moreover have "goes_on e (DecideA i allow) s call" using w asked True by (auto simp: goes_on_def)
    ultimately show ?thesis using proceed_effect [of e call ctx s1] s1 by (auto simp: step step_right_def)
  next
    case False
    have step: "dispatch_step e (DecideA i allow) s = (return_result call (ToolDenied (words ''The user denied this tool call.''))
        (notify call (ToolError (words ''Denied'')) s1))\<lparr>d_step := d_step s + 1\<rparr>"
      using Some by (simp add: dispatch_step_def decide_call_def x False s1_def)
    have "asked_for e (dispatch_step e (DecideA i allow) s)"
      by (rule asked_for_next [OF assms]) (use s1 in \<open>auto simp: step return_result_def notify_def\<close>)
    then show ?thesis using s1 by (simp add: step step_right_def return_result_def notify_def)
  qed
qed

lemma dispatch_step_right:
  assumes "asked_for e s"
  shows "asked_for e (dispatch_step e a s) \<and> step_right e a s (dispatch_step e a s)"
proof (cases a)
  case (NudgeA t)
  then show ?thesis using asked_for_next [OF assms]
    by (auto simp: dispatch_step_def stop_nudge_def Let_def step_right_def split: prod.split dest: snapshots_of_entries)
next
  case (StatusA t)
  then show ?thesis using asked_for_next [OF assms]
    by (auto simp: dispatch_step_def takeTurnStatus_def Let_def step_right_def split: prod.split dest: snapshots_of_entries)
qed (use asked_for_next [OF assms] run_call_step [OF assms] decide_call_step [OF assms] in
    \<open>auto simp: dispatch_step_def beginRound_calls_def Let_def step_right_def\<close>)

lemma dispatch_run_asked: "asked_for e s \<Longrightarrow> asked_for e (dispatch_run e as s)"
  unfolding dispatch_run_def using dispatch_step_right by (induction as arbitrary: s) auto

subsection \<open>Files change only as permitted\<close>

text \<open>C27: whatever calls come, in whatever order the user decides about them, a step changes a file only when it carries out a
  call that may go on: either the settings allow every category the call needs at that moment and none of the paths it names
  needs a confirmation, or the user was asked, has allowed it now, and the settings forbade none of its categories when it
  was asked. And what changes is covered by that call: a file that comes needs the category for creating, one that goes that for
  deleting, one with another content that for editing, at a path the call names (or a numbered name beside it); only a
  rename changes the content of other files.\<close>

theorem changes_permitted:
  assumes "d_waiting s0 = []"
  shows "let s = dispatch_run e as s0; s' = dispatch_step e a s in
     entries (d_ws s') = entries (d_ws s) \<or>
     (\<exists>call. goes_on e a s call \<and> change_covered e call (entries (d_ws s)) (entries (d_ws s')))"
proof -
  have "asked_for e s0" using assms by (simp add: asked_for_def)
  then have "asked_for e (dispatch_run e as s0)" by (rule dispatch_run_asked)
  then show ?thesis using dispatch_step_right [of e "dispatch_run e as s0" a] by (simp add: Let_def step_right_def)
qed

text \<open>An environment with the default permissions, whose calls all have the arguments \<^verbatim>\<open>{"path": "a"}\<close>.\<close>

definition plain_env :: "(nat \<Rightarrow> category \<Rightarrow> permission_value) \<Rightarrow> (resolved_path \<Rightarrow> bool) option \<Rightarrow> dispatch_env" where
  "plain_env policy confirm =
     \<lparr>ev_host = quiet_host, ev_resolve = (\<lambda>p. Inr \<lparr>r_relative = p, r_uri = p, r_fsPath = p\<rparr>), ev_policy = policy, ev_confirm = confirm,
      ev_prefixes = [''l4-rules__''], ev_provider = (\<lambda>_. Inr []), ev_other = (\<lambda>_. Inr []), ev_relative = id, ev_fsPath = id,
      ev_engine = [], ev_floor = (\<lambda>_. 0), ev_rename = (\<lambda>_. (Inr [], [(''a'', [7])])),
      ev_evaluate = (\<lambda>_. \<lparr>resolves_to = None, opens = Inr 0, check_said = None, results_now = None, results_after = (\<lambda>_. None), shown_path = []\<rparr>),
      ev_counts = (\<lambda>_. None), ev_parse = (\<lambda>_. Some (JObj [(''path'', JStr ''a'')]))\<rparr>"

definition new_dispatcher :: "fs_state \<Rightarrow> dispatcher" where
  "new_dispatcher w = \<lparr>d_guard = [], d_edits = [], d_stores = [], d_own = new_stores, d_ws = w, d_told = [], d_waiting = [],
     d_results = [], d_step = 0\<rparr>"

definition delete_a :: tool_call where
  "delete_a = \<lparr>tc_id = ''1'', tc_name = ''fs__delete_file'', tc_args = ''x''\<rparr>"

definition rename_a :: tool_call where
  "rename_a = \<lparr>tc_id = ''2'', tc_name = ''l4__refactor'', tc_args = ''x''\<rparr>"

text \<open>A file is deleted after the user was asked.\<close>

theorem changes_permitted_witness:
  "let e = plain_env (\<lambda>_. DEFAULT_PERMISSIONS) None; ctx = \<lparr>conversationId = ''c'', turnId = ''t''\<rparr>;
       s = dispatch_run e [RunA delete_a ctx] (new_dispatcher (one_file ''a'' [1])); s' = dispatch_step e (DecideA ''1'' True) s
   in entries (d_ws s) ''a'' \<noteq> None \<and> entries (d_ws s') ''a'' = None \<and> (\<exists>call. goes_on e (DecideA ''1'' True) s call)"
proof -
  let ?e = "plain_env (\<lambda>_. DEFAULT_PERMISSIONS) None" and ?ctx = "\<lparr>conversationId = ''c'', turnId = ''t''\<rparr>"
  let ?s = "dispatch_run ?e [RunA delete_a ?ctx] (new_dispatcher (one_file ''a'' [1]))"
  have start: "d_waiting (new_dispatcher (one_file ''a'' [1])) = []" by (simp add: new_dispatcher_def)
  have a: "entries (d_ws ?s) ''a'' \<noteq> None" by code_simp
  have b: "entries (d_ws (dispatch_step ?e (DecideA ''1'' True) ?s)) ''a'' = None" by code_simp
  have "\<exists>call. goes_on ?e (DecideA ''1'' True) ?s call"
    using changes_permitted [OF start, of ?e "[RunA delete_a ?ctx]" "DecideA ''1'' True"] a b unfolding Let_def by metis
  then show ?thesis using a b by (simp add: Let_def)
qed

text \<open>A rename needs no confirmation, also when the workspace wants every write confirmed.\<close>

lemma rename_unconfirmed:
  "let e = plain_env (\<lambda>_. DEFAULT_PERMISSIONS) (Some (\<lambda>_. True)); ctx = \<lparr>conversationId = ''c'', turnId = ''t''\<rparr>;
       s' = dispatch_step e (RunA rename_a ctx) (new_dispatcher (one_file ''a'' [1]))
   in map_option (\<lambda>x. case x of File d \<Rightarrow> doc_text d | Folder \<Rightarrow> []) (entries (d_ws s') ''a'') = Some [7] \<and>
      d_told s' = [(''2'', Running), (''2'', ToolDone [])]"
  by code_simp

end
