(* ===== verification/Spec2Isabelle.thy ===== *)
theory Spec2Isabelle
  imports QueryPlan PartialEval Permissions PendingInteractions TextPositions EditGuard RunLease CommandReader EventLog
    LadderState FileChecks FsFiles FsRead Refactor ToolDispatch
begin

text \<open>
  A verification library for the TypeScript core of the L4 IDE: the ladder's reasoning, the agent's
  guards, and the files through which a cloud session's parts talk to each other.
\<close>

section \<open>The program and its theories\<close>

text \<open>
  L4 is a language for legal rules. The repository holds its compiler and services (Haskell) and,
  in TypeScript, the tools around it. Modelled here is the logic of three of those:

  \<^enum> The \<^bold>\<open>ladder\<close> shows a rule as a diagram of conditions and asks the user for the answers that
    still matter. \<open>VizExpr\<close> is its expression language (\<^verbatim>\<open>ts-shared/viz-expr/viz-expr.ts\<close>).
    \<open>LadderEval\<close> is the three-valued evaluator with its short circuits
    (\<^verbatim>\<open>l4-ladder-visualizer/src/lib/eval/eval.ts\<close>, \<^verbatim>\<open>assignment.ts\<close>, \<^verbatim>\<open>type.ts\<close>). \<open>Robdd\<close> holds the
    binary decision diagrams and \<open>DecisionQuery\<close> the queries over them
    (\<^verbatim>\<open>ts-shared/boolean-analysis/src\<close>). \<open>PartialEval\<close> puts evaluator and queries together into the
    analysis the ladder is drawn from (\<^verbatim>\<open>partial-eval.ts\<close>), and \<open>QueryPlan\<close> is what the service's
    query planner adds to it (\<^verbatim>\<open>query-plan-override.ts\<close>). The drawing itself: \<open>AlgaGraph\<close> is the
    algebra of graphs (\<^verbatim>\<open>algebraic-graphs/*.ts\<close>), \<open>TwoTerminal\<close> the theory of graphs with one source and
    one sink it is reasoned about with, \<open>LadderGraph\<close> the graph of an expression
    (\<^verbatim>\<open>data/viz-expr-to-lir.ts\<close>), \<open>LadderView\<close> the drawn ladder with its labels, its list of paths and what
    of it is selected (\<^verbatim>\<open>ladder.svelte.ts\<close>, \<^verbatim>\<open>node-paths-selection.ts\<close>), and \<open>LadderState\<close> its answers,
    their evaluation and what is faded (\<^verbatim>\<open>BaseLadderGraphLirNode\<close> of \<^verbatim>\<open>ladder.svelte.ts\<close>).

  \<^enum> The \<^bold>\<open>agent\<close> (\<^verbatim>\<open>ts-shared/legalese-agent/src\<close>) edits L4 files for the user. \<open>Permissions\<close>
    decides what a tool call may do (\<^verbatim>\<open>permissions.ts\<close>), \<open>PendingInteractions\<close> holds the approvals and
    questions that wait for the user (\<^verbatim>\<open>pending-interactions.ts\<close>), \<open>TextPositions\<close> turns offsets into
    positions and back (\<^verbatim>\<open>text-positions.ts\<close>), \<open>FileState\<close> grades how broken a file is
    (\<^verbatim>\<open>tools/lsp.ts\<close>) and \<open>EditGuard\<close> stops a turn that keeps breaking files (\<^verbatim>\<open>edit-guard.ts\<close>). \<open>FileChecks\<close> keeps
    what the language server said of each document and who waits for it (\<^verbatim>\<open>file-checks.ts\<close>). \<open>DirectiveResults\<close> holds
    the results of a document's directives, what of them a report shows, and the evaluation tool
    (\<^verbatim>\<open>tools/directive-snapshot.ts\<close>, \<^verbatim>\<open>tools/l4-evaluate.ts\<close>). The file tools (\<^verbatim>\<open>tools/fs.ts\<close>) are four theories:
    \<open>FsText\<close> has what they use of JavaScript's strings, \<open>FsEdit\<close> the workspace, the report after a change, one edit and
    a run of edits, \<open>FsFiles\<close> creating, copying and deleting, \<open>FsRead\<close> reading, listing and
    searching. \<open>Refactor\<close> renames an identifier wherever the language
    server finds it (\<^verbatim>\<open>tools/refactor.ts\<close>). \<open>ToolDispatch\<close> carries out the calls of the model (\<^verbatim>\<open>tool-dispatcher.ts\<close>,
    \<^verbatim>\<open>tools/builtin-tools.ts\<close>): the permissions of a call, its approval, and the tool with the guard around it. It puts
    \<open>Permissions\<close>, \<open>EditGuard\<close>, \<open>DirectiveResults\<close> and the file tools together.

  \<^enum> A \<^bold>\<open>cloud session\<close> runs the agent in a container that shares files with the API and the
    editor. \<open>Validate\<close> is the library of checks every file goes through
    (\<^verbatim>\<open>protocol/validate.ts\<close>), \<open>SessionFiles\<close> the files and paths themselves
    (\<^verbatim>\<open>protocol/common.ts\<close>, \<^verbatim>\<open>protocol/files.ts\<close>), \<open>Commands\<close> what a client may ask
    (\<^verbatim>\<open>protocol/commands.ts\<close>, \<^verbatim>\<open>protocol/sealed.ts\<close>) and \<open>CloudEvents\<close> the events a session reports
    (\<^verbatim>\<open>protocol/events.ts\<close>). The harness in the container (\<^verbatim>\<open>ts-apps/cloud-agent/src\<close>) takes commands
    with \<open>CommandReader\<close> (\<^verbatim>\<open>command-reader.ts\<close>), writes events with \<open>EventShrink\<close> and \<open>EventLog\<close>
    (\<^verbatim>\<open>event-log.ts\<close>) and writes only while its \<open>RunLease\<close> holds (\<^verbatim>\<open>lease.ts\<close>), which keeps two
    containers apart. \<open>NodeWorkspace\<close> is the workspace of the agent's tools there: the session's repository on a real
    disk, with symbolic links, of which the tools may change \<^verbatim>\<open>data/\<close> and \<^verbatim>\<open>tmp/\<close> (\<^verbatim>\<open>node-workspace.ts\<close>).

  \<open>L4Prelude\<close> holds what all of them share: insertion-ordered maps and sets, JavaScript values, the
  decimal text of numbers, and lemmas about lists and text.
\<close>

section \<open>How the code is represented\<close>

text \<open>
  \<^item> A class is a record of its fields, a method a function from the record to a result and the
    record; its private caches (the memo tables of \<open>Robdd\<close>) are kept, with their text keys.
  \<^item> A \<^verbatim>\<open>Map\<close> or \<^verbatim>\<open>Set\<close> whose order the code shows is an association list or list in insertion
    order; one that is only looked up is a HOL map.
  \<^item> A thrown error is the left of a sum, \<^verbatim>\<open>undefined\<close> is \<open>None\<close>. Recursion over the node table of a
    diagram, which the types do not show to end, is \<^theory_text>\<open>partial_function (option)\<close>; that it returns is
    proved from the invariant of the table.
  \<^item> A string is a list of characters; where UTF-16 code units matter (\<open>TextPositions\<close>) a document is
    a list of 16 bit words. A JSON value is \<open>jsval\<close>, with integers apart from other numbers.
  \<^item> A promise is a number and what it was resolved with an entry of a log (\<open>PendingInteractions\<close>).
    JavaScript runs one event at a time, so between two awaits the code is one atomic operation.
  \<^item> A graph of the ladder keeps how it was built, as the code's objects do. The topological sort is
    \<^verbatim>\<open>graphology-dag\<close>'s, a parameter; the hypothesis \<open>sorts\<close> says that it lists the nodes of an acyclic graph so
    that edges go forward. \<open>kahn_sort\<close> is one that does, and the witnesses use it. The recursion over paths has
    one unit of fuel more than the graph has vertices, enough because the graphs are acyclic.
  \<^item> The language server's answer to a call (\<open>LadderEval\<close>), \<^verbatim>\<open>JSON.parse\<close> (\<open>SessionFiles\<close>, the
    parameter \<open>J\<close>) and the decoding of UTF-8 (\<open>D\<close>) are parameters. The text of a log or of a command is
    its UTF-8 bytes.
  \<^item> The workspace of the file tools is a map from paths to files and folders; what the host answers (the language server's
    checks, refusals, another process that is first) is a record \<open>host\<close> of answers by the number of the call, so a
    statement over every host covers every order of answers. A call that is refused has had no effect.
  \<^item> The disk of \<open>NodeWorkspace\<close> is a map from places to directories, files and links; a path is walked as the system
    does, following at most \<open>MAX_LINKS\<close> links. A call that changes the disk is refused, cut off in the middle of a text, or
    done, as a parameter says for each; nobody else changes the disk meanwhile. An operation is a computation that may
    throw (\<open>then_do\<close>), and \<open>stays\<close> is the rule by which its steps keep an invariant.
  \<^item> \<open>FsRead\<close> reads from a tree of folders; what a regular expression matches, lower case and the order of names are functions of a
    record \<open>reader\<close>. \<open>ToolDispatch\<close> is a function on the dispatcher's state for each step; the permissions and the answers of
    tools modelled elsewhere come from an environment, by the number of the step.
  \<^item> The file system's answers are inputs. \<open>EventLog\<close> is given a list with the outcome of each call, in
    order: a call that throws may have had part of its effect, and one without an outcome left throws. A
    rename that throws is taken to have had none. Timers and the turns of a chained promise are actions
    that may come in any order.
\<close>

section \<open>What is shown\<close>

text \<open>
  \<^item> \<open>Robdd\<close>: the invariant of the store (reduced, ordered, shared, memo tables right) is kept by
    every operation; operations return and denote what they should; equal conditions are equal nodes.
  \<^item> \<open>DecisionQuery\<close>, \<open>LadderEval\<close>, \<open>PartialEval\<close>: compiling throws for the first thing that stands in the way
    (\<open>obstacles\<close>) and for nothing else, queries are exact whatever was asked before, the evaluator is Kleene's logic and sound for every completion, the analysis asks exactly for
    what matters.
  \<^item> \<open>LadderView\<close>, \<open>LadderState\<close>: every ladder is drawn, between one source and one sink; its list of
    paths is complete, and one of them conducts exactly when the rule holds (\<open>conducts\<close>: every node on it does, a
    variable when it is true, a negated one when it is false). The selected paths are those whose nodes are
    selected, an answer is always taken, a definite result is what the paths say, and nothing faded conducts.
    \<open>ladder_limits\<close> has the expressions for which the drawing goes wrong.
  \<^item> \<open>Permissions\<close>, \<open>PendingInteractions\<close>, \<open>EditGuard\<close>: a workspace can only tighten a permission,
    a promise is resolved once, waits in one place or was replaced (\<open>replaced_in\<close>), and is resolved with what was
    decided or answered for its own call; the breaker stops a turn exactly when it is stuck. The breaker's counter is a locale \<open>streak_counter\<close>, interpreted on the guard's own operations.
  \<^item> \<open>FileChecks\<close>, \<open>DirectiveResults\<close>: a wait is answered at most once and truly, and at once when a check covers it; a document is called checked only
    after a check as new as was asked for; a report shows the difference to the last one as multisets (the snapshots are a
    locale \<open>snapshot_store\<close>, interpreted on the code's own).
  \<^item> \<open>FsEdit\<close>, \<open>FsFiles\<close>: an edit replaces one occurrence of its snippet and nothing else; a response makes at most five
    edits to a file and stops when it gets worse; creating overwrites nothing; a copy or move never loses its source.
  \<^item> \<open>FsRead\<close>: what is shown of a file are whole lines within the limits, from the one that was asked for; a search shows every
    match of the range with its context, once and in order, or as much as fits, and its walk reaches everything that is not passed over.
  \<^item> \<open>ToolDispatch\<close>: over any calls and decisions of the user, a file changes only by a call that the settings or the user let
    go on, and only as its categories cover; a rename is not confirmed for a protected file (\<open>rename_unconfirmed\<close>).
  \<^item> \<open>Refactor\<close>: a rename is exactly one edit for each reference that holds the old name, in every file that has one, with backticks
    where they belong, and all else of a text stays.
  \<^item> \<open>NodeWorkspace\<close>: whatever links are on the disk, reading stays inside the repository and writing inside \<^verbatim>\<open>data/\<close> and
    \<^verbatim>\<open>tmp/\<close>, outside every \<^verbatim>\<open>.git\<close>. A deleted file is put aside first, but not always (\<open>no_copy_below_a_copy\<close>).
  \<^item> \<open>Validate\<close>: the laws of a check are locales (\<open>check_law\<close> and, above it, \<open>scalar_law\<close>,
    \<open>field_law\<close>, \<open>object_law\<close>); a check built from the combinators obeys them, so a clean value is
    a fixed point of it.
  \<^item> \<open>EventShrink\<close>, \<open>EventLog\<close>: through failed writes, crashes and restarts the published log is a list
    that only grows (a refinement, over the locale \<open>growing\<close>); nothing is lost, doubled or reordered; a
    reader gets each event once. One schedule leaves an event waiting without a timer
    (\<open>stranded_event\<close>), and that is the only one.
  \<^item> \<open>CommandReader\<close>: commands are taken once and in order and none is lost by a restart; a file that
    cannot be read is waited for through its grace period.
  \<^item> \<open>RunLease\<close>: at most one run writes, if clocks agree within the margin and no acknowledgement comes
    after the lease it renews has run out; \<open>late_write_two_writers\<close> shows that the last is needed.
  \<^item> \<open>Commands\<close>, \<open>CloudEvents\<close>: what a client sends is stored and read back unchanged, reading the log in
    pieces is reading it at once, and an event is read as it was written, less an input or output that was not JSON.
  \<^item> \<open>SessionFiles\<close>, \<open>TextPositions\<close>: no path escapes its folder, numbers, cursors and positions
    survive being written and read.
\<close>

section \<open>Not modelled\<close>

text \<open>
  Input and output (files, processes, sockets, the editor's and the browser's interfaces), Svelte
  components and their stores, the layout of the ladder (positions, sizes, zen mode, pretty printing of nodes), the compiler, language server and services in Haskell, the WebAssembly
  runtime of compiled rules, and the chat, MCP and git clients, which mostly call libraries.
\<close>

end
